(* ===== verification/Prelude.thy ===== *)
theory Prelude
  imports Main "HOL-Library.AList" "HOL-Library.Char_ord" "HOL-Library.List_Lexorder"
    "HOL-Library.Multiset"
begin

text \<open>
  Shared vocabulary of the development: JavaScript strings, insertion-ordered maps and
  sets, stable sorting, and computations that may throw.

  A JavaScript string is a list of code units. The model keeps the code units below 256
  as the characters of \<open>string\<close>, so \<open>length\<close> counts code units and the default
  \<open>sort()\<close> (comparison by code units) is the lexicographic order of \<open>string\<close>.
  A JavaScript \<open>Map\<close> iterates in insertion order and keeps a key's place when it is
  overwritten: it is an association list with \<open>AList.update\<close> and \<open>AList.delete\<close>.
\<close>

section \<open>Fact collections\<close>

named_theorems res_simps \<open>unfolding of computations that may throw\<close>
named_theorems js_map_simps \<open>lookups and keys of insertion-ordered maps\<close>

section \<open>Computations that may throw\<close>

type_synonym ('e, 'a) res = "'e + 'a"

definition bindr :: "('e, 'a) res \<Rightarrow> ('a \<Rightarrow> ('e, 'b) res) \<Rightarrow> ('e, 'b) res" where
  "bindr m f = (case m of Inl e \<Rightarrow> Inl e | Inr a \<Rightarrow> f a)"

lemma bindr_simps [simp, res_simps]:
  "bindr (Inl e) f = Inl e" "bindr (Inr a) f = f a"
  by (simp_all add: bindr_def)

lemma bindr_Inr_iff [res_simps]: "bindr m f = Inr b \<longleftrightarrow> (\<exists>a. m = Inr a \<and> f a = Inr b)"
  by (cases m) auto

lemma bindr_Inl_iff:
  "bindr m f = Inl e \<longleftrightarrow> m = Inl e \<or> (\<exists>a. m = Inr a \<and> f a = Inl e)"
  by (cases m) auto

fun map_res :: "('a \<Rightarrow> ('e, 'b) res) \<Rightarrow> 'a list \<Rightarrow> ('e, 'b list) res" where
  "map_res f [] = Inr []"
| "map_res f (x # xs) = bindr (f x) (\<lambda>y. bindr (map_res f xs) (\<lambda>ys. Inr (y # ys)))"

lemma map_res_Inr_length: "map_res f xs = Inr ys \<Longrightarrow> length ys = length xs"
  by (induction xs arbitrary: ys) (auto simp: bindr_Inr_iff)

lemma map_res_Inr_iff: "map_res f xs = Inr ys \<longleftrightarrow> list_all2 (\<lambda>x y. f x = Inr y) xs ys"
  by (induction xs arbitrary: ys) (auto simp: bindr_Inr_iff list_all2_Cons1)

lemma map_res_Inr_map: "map_res f xs = Inr ys \<Longrightarrow> \<forall>x \<in> set xs. f x = Inr (g x) \<Longrightarrow> ys = map g xs"
  by (induction xs arbitrary: ys) (auto simp: bindr_Inr_iff)

fun fold_res :: "('a \<Rightarrow> 's \<Rightarrow> ('e, 's) res) \<Rightarrow> 'a list \<Rightarrow> 's \<Rightarrow> ('e, 's) res" where
  "fold_res f [] s = Inr s"
| "fold_res f (x # xs) s = bindr (f x s) (fold_res f xs)"

lemma fold_res_append [simp]:
  "fold_res f (xs @ ys) s = bindr (fold_res f xs s) (fold_res f ys)"
  by (induction xs arbitrary: s) (auto simp: bindr_def split: sum.splits)

lemma fold_res_invariant:
  assumes "fold_res f xs s = Inr s'" and "I s"
    and "\<And>x s s'. x \<in> set xs \<Longrightarrow> I s \<Longrightarrow> f x s = Inr s' \<Longrightarrow> I s'"
  shows "I s'"
  using assms by (induction xs arbitrary: s) (auto simp: bindr_Inr_iff)

section \<open>JSON values\<close>

text \<open>Values that come from \<open>JSON.parse\<close> or are passed to \<open>JSON.stringify\<close>; the
  numbers the sources put there are integers.\<close>

datatype json = JNull | JBool bool | JNum int | JStr string | JArr "json list"
  | JObj "(string \<times> json) list"

text \<open>The properties of an object; a property that is \<open>undefined\<close> is left out.\<close>

type_synonym json_object = "(string \<times> json) list"

section \<open>Strings\<close>

text \<open>\<open>String.prototype.trim\<close> on code units below 256: the ASCII white space and
  line terminators, and U+00A0.\<close>

definition js_space :: "char \<Rightarrow> bool" where
  "js_space c \<longleftrightarrow> (of_char c :: nat) \<in> {9, 10, 11, 12, 13, 32, 160}"

definition js_trim :: "string \<Rightarrow> string" where
  "js_trim s = rev (dropWhile js_space (rev (dropWhile js_space s)))"

lemma js_trim_Nil [simp]: "js_trim [] = []"
  by (simp add: js_trim_def)

lemma hd_dropWhile_rev_dropWhile:
  "dropWhile P (rev (dropWhile Q xs)) \<noteq> [] \<Longrightarrow>
   hd (rev (dropWhile P (rev (dropWhile Q xs)))) = hd (dropWhile Q xs)"
proof -
  assume ne: "dropWhile P (rev (dropWhile Q xs)) \<noteq> []"
  let ?ys = "dropWhile Q xs"
  have "?ys = rev (takeWhile P (rev ?ys) @ dropWhile P (rev ?ys))"
    by simp
  then have "?ys = rev (dropWhile P (rev ?ys)) @ rev (takeWhile P (rev ?ys))"
    by (metis rev_append)
  with ne show ?thesis
    by (metis hd_append rev_is_Nil_conv)
qed

lemma js_trim_idem [simp]: "js_trim (js_trim s) = js_trim s"
proof (cases "js_trim s = []")
  case True
  then show ?thesis by simp
next
  case False
  let ?d = "dropWhile js_space s"
  from False have ne: "dropWhile js_space (rev ?d) \<noteq> []"
    by (simp add: js_trim_def)
  then have "?d \<noteq> []" by (metis dropWhile.simps(1) rev.simps(1))
  then have "\<not> js_space (hd ?d)" by (rule hd_dropWhile)
  with ne have "\<not> js_space (hd (js_trim s))"
    by (simp add: js_trim_def hd_dropWhile_rev_dropWhile)
  with False have "dropWhile js_space (js_trim s) = js_trim s"
    by (cases "js_trim s") auto
  then have "js_trim (js_trim s) = rev (dropWhile js_space (dropWhile js_space (rev ?d)))"
    by (simp add: js_trim_def)
  then show ?thesis by (simp add: js_trim_def dropWhile_idem)
qed

text \<open>Character classes of the regular expressions in the sources.\<close>

definition is_lower :: "char \<Rightarrow> bool" where
  "is_lower c \<longleftrightarrow> CHR ''a'' \<le> c \<and> c \<le> CHR ''z''"

definition is_upper :: "char \<Rightarrow> bool" where
  "is_upper c \<longleftrightarrow> CHR ''A'' \<le> c \<and> c \<le> CHR ''Z''"

definition is_digit :: "char \<Rightarrow> bool" where
  "is_digit c \<longleftrightarrow> CHR ''0'' \<le> c \<and> c \<le> CHR ''9''"

text \<open>An integer in a template string.\<close>

function int_digits :: "int \<Rightarrow> string" where
  "int_digits n = (if n < 10 then [char_of (48 + n)] else int_digits (n div 10) @ [char_of (48 + n mod 10)])"
  by pat_completeness auto
termination by (relation "measure nat") auto

declare int_digits.simps [simp del]

definition int_str :: "int \<Rightarrow> string" where
  "int_str n = (if n < 0 then CHR ''-'' # int_digits (- n) else int_digits n)"

text \<open>A value as a condition, and \<open>String(value)\<close>; a field that is missing is \<open>None\<close>.\<close>

definition js_truthy :: "json option \<Rightarrow> bool" where
  "js_truthy v = (case v of
     None \<Rightarrow> False | Some JNull \<Rightarrow> False | Some (JBool b) \<Rightarrow> b | Some (JNum n) \<Rightarrow> n \<noteq> 0 | Some (JStr s) \<Rightarrow> s \<noteq> []
   | Some _ \<Rightarrow> True)"

fun join_with :: "string \<Rightarrow> string list \<Rightarrow> string" where
  "join_with sep [] = []"
| "join_with sep [s] = s"
| "join_with sep (s # t # ss) = s @ sep @ join_with sep (t # ss)"

fun js_string :: "json \<Rightarrow> string" where
  "js_string JNull = ''null''"
| "js_string (JBool b) = (if b then ''true'' else ''false'')"
| "js_string (JNum n) = int_str n"
| "js_string (JStr s) = s"
| "js_string (JArr xs) = join_with '','' (map (\<lambda>x. if x = JNull then [] else js_string x) xs)"
| "js_string (JObj _) = ''[object Object]''"

section \<open>Insertion-ordered maps and sets\<close>

type_synonym ('k, 'v) jmap = "('k \<times> 'v) list"

abbreviation jget :: "('k, 'v) jmap \<Rightarrow> 'k \<Rightarrow> 'v option" where
  "jget \<equiv> map_of"

abbreviation jset :: "'k \<Rightarrow> 'v \<Rightarrow> ('k, 'v) jmap \<Rightarrow> ('k, 'v) jmap" where
  "jset \<equiv> AList.update"

abbreviation jdel :: "'k \<Rightarrow> ('k, 'v) jmap \<Rightarrow> ('k, 'v) jmap" where
  "jdel \<equiv> AList.delete"

abbreviation jkeys :: "('k, 'v) jmap \<Rightarrow> 'k list" where
  "jkeys \<equiv> map fst"

abbreviation jvals :: "('k, 'v) jmap \<Rightarrow> 'v list" where
  "jvals \<equiv> map snd"

definition jhas :: "('k, 'v) jmap \<Rightarrow> 'k \<Rightarrow> bool" where
  "jhas m k \<longleftrightarrow> k \<in> set (jkeys m)"

lemma jhas_get: "jhas m k \<longleftrightarrow> (\<exists>v. jget m k = Some v)"
  by (auto simp: jhas_def weak_map_of_SomeI map_of_SomeD image_iff)
    (metis fst_conv map_of_SomeD)

lemma not_jhas_get: "\<not> jhas m k \<longleftrightarrow> jget m k = None"
  by (auto simp: jhas_get)

lemma jhas_Nil [simp]: "\<not> jhas [] k"
  by (simp add: jhas_def)

lemma jhas_jset [simp, js_map_simps]: "jhas (jset k v m) k' \<longleftrightarrow> k' = k \<or> jhas m k'"
  by (auto simp: jhas_get update_conv')

lemma jget_jset [simp, js_map_simps]:
  "jget (jset k v m) k' = (if k' = k then Some v else jget m k')"
  by (simp add: update_conv')

lemma jkeys_jset [js_map_simps]:
  "jkeys (jset k v m) = (if jhas m k then jkeys m else jkeys m @ [k])"
  by (simp add: update_keys jhas_def)

lemma jset_fresh: "\<not> jhas m k \<Longrightarrow> jset k v m = m @ [(k, v)]"
  by (induction m) (auto simp: jhas_def)

lemma jget_jdel [simp, js_map_simps]:
  "jget (jdel k m) k' = (if k' = k then None else jget m k')"
  by (simp add: delete_conv')

lemma jhas_jdel [simp, js_map_simps]: "jhas (jdel k m) k' \<longleftrightarrow> k' \<noteq> k \<and> jhas m k'"
  by (auto simp: jhas_get)

lemma jkeys_jdel [js_map_simps]: "jkeys (jdel k m) = filter (\<lambda>k'. k' \<noteq> k) (jkeys m)"
  by (induction m) auto

lemma jget_filter: "jget (filter (\<lambda>p. P (fst p)) m) k = (if P k then jget m k else None)"
  by (induction m) auto

lemma distinct_jset: "distinct (jkeys m) \<Longrightarrow> distinct (jkeys (jset k v m))"
  by (rule distinct_update)

lemma distinct_jdel: "distinct (jkeys m) \<Longrightarrow> distinct (jkeys (jdel k m))"
  by (rule distinct_delete)

lemma fst_set_jset: "fst ` set (jset k v m) = insert k (fst ` set m)"
  by (induction m) auto

lemma mem_jset: "p \<in> set (jset k v m) \<Longrightarrow> p = (k, v) \<or> p \<in> set m"
  by (induction m) (auto split: if_splits)

lemma mem_jdel: "p \<in> set (jdel k m) \<longleftrightarrow> p \<in> set m \<and> fst p \<noteq> k"
  by (auto simp: AList.delete_eq)

lemma jget_mem: "jget m k = Some v \<Longrightarrow> (k, v) \<in> set m"
  by (rule map_of_SomeD)

lemma mem_jget: "distinct (jkeys m) \<Longrightarrow> (k, v) \<in> set m \<longleftrightarrow> jget m k = Some v"
  by simp

text \<open>\<open>new Map(xs.map(x => [f(x), g(x)]))\<close>.\<close>

lemma foldl_jset_keys: "set (jkeys (foldl (\<lambda>m x. jset (f x) (g x) m) m xs)) = set (jkeys m) \<union> f ` set xs"
  by (induction xs arbitrary: m) (auto simp: fst_set_jset)

lemma foldl_jset_mem:
  "p \<in> set (foldl (\<lambda>m x. jset (f x) (g x) m) m xs) \<Longrightarrow> p \<in> set m \<or> (\<exists>x \<in> set xs. p = (f x, g x))"
proof (induction xs arbitrary: m)
  case (Cons x xs)
  then have "p \<in> set (jset (f x) (g x) m) \<or> (\<exists>x \<in> set xs. p = (f x, g x))" by simp
  then show ?case using mem_jset [of p "f x" "g x" m] by auto
qed simp

lemma foldl_jset_distinct_keys:
  "distinct (jkeys m) \<Longrightarrow> distinct (jkeys (foldl (\<lambda>m x. jset (f x) (g x) m) m xs))"
  by (induction xs arbitrary: m) (auto simp: distinct_jset)

text \<open>\<open>slice(0, n)\<close>, with the bound as an integer so that it evaluates.\<close>

fun js_take :: "int \<Rightarrow> 'a list \<Rightarrow> 'a list" where
  "js_take n [] = []"
| "js_take n (x # xs) = (if n \<le> 0 then [] else x # js_take (n - 1) xs)"

lemma length_js_take: "0 \<le> n \<Longrightarrow> int (length (js_take n xs)) \<le> n"
  by (induction n xs rule: js_take.induct) auto

lemma js_take_all: "int (length xs) \<le> n \<Longrightarrow> js_take n xs = xs"
  by (induction n xs rule: js_take.induct) auto

lemma js_take_idem [simp]: "js_take n (js_take n xs) = js_take n xs"
  by (induction n xs rule: js_take.induct) auto

definition sadd :: "'a \<Rightarrow> 'a list \<Rightarrow> 'a list" where
  "sadd x xs = (if x \<in> set xs then xs else xs @ [x])"

lemma set_sadd [simp]: "set (sadd x xs) = insert x (set xs)"
  by (auto simp: sadd_def)

lemma distinct_sadd [simp]: "distinct (sadd x xs) \<longleftrightarrow> distinct xs"
  by (auto simp: sadd_def)

text \<open>The interface the components use: what a lookup returns after each write, and
  that the keys stay distinct and in insertion order.\<close>

locale ordered_map =
  fixes get :: "'m \<Rightarrow> 'k \<Rightarrow> 'v option"
    and put :: "'k \<Rightarrow> 'v \<Rightarrow> 'm \<Rightarrow> 'm"
    and del :: "'k \<Rightarrow> 'm \<Rightarrow> 'm"
    and ks :: "'m \<Rightarrow> 'k list"
    and ok :: "'m \<Rightarrow> bool"
  assumes get_put: "ok m \<Longrightarrow> get (put k v m) k' = (if k' = k then Some v else get m k')"
    and get_del: "ok m \<Longrightarrow> get (del k m) k' = (if k' = k then None else get m k')"
    and keys_put: "ok m \<Longrightarrow> ks (put k v m) = (if k \<in> set (ks m) then ks m else ks m @ [k])"
    and keys_del: "ok m \<Longrightarrow> ks (del k m) = filter (\<lambda>k'. k' \<noteq> k) (ks m)"
    and get_keys: "ok m \<Longrightarrow> get m k \<noteq> None \<longleftrightarrow> k \<in> set (ks m)"
    and keys_distinct: "ok m \<Longrightarrow> distinct (ks m)"
    and ok_put: "ok m \<Longrightarrow> ok (put k v m)"
    and ok_del: "ok m \<Longrightarrow> ok (del k m)"
begin

lemma put_fresh_keeps_others:
  "ok m \<Longrightarrow> get m k = None \<Longrightarrow> get m k' = Some w \<Longrightarrow> get (put k v m) k' = Some w"
  by (auto simp: get_put)

lemma keys_put_fresh: "ok m \<Longrightarrow> get m k = None \<Longrightarrow> ks (put k v m) = ks m @ [k]"
  using get_keys [of m k] by (simp add: keys_put)

lemma keys_del_put_fresh: "ok m \<Longrightarrow> get m k = None \<Longrightarrow> ks (del k (put k v m)) = ks m"
  using get_keys [of m k] by (auto simp: keys_del keys_put ok_put intro!: filter_True)

lemma get_del_put_fresh: "ok m \<Longrightarrow> get m k = None \<Longrightarrow> get (del k (put k v m)) = get m"
  by (rule ext) (simp add: get_del get_put ok_put)

lemma keys_bounded:
  "ok m \<Longrightarrow> set (ks m) \<subseteq> A \<Longrightarrow> finite A \<Longrightarrow> length (ks m) \<le> card A"
  by (metis card_mono distinct_card keys_distinct)

end

interpretation jm: ordered_map "jget" "jset" "jdel" "jkeys"
  "\<lambda>m. distinct (jkeys m)"
  by unfold_locales
    (auto simp: jkeys_jset jkeys_jdel jhas_def distinct_jset distinct_jdel
      map_of_eq_None_iff [symmetric] dest: map_of_SomeD, (force dest: map_of_SomeD)+)

section \<open>Stable sorting by a comparator\<close>

text \<open>\<open>Array.prototype.sort(cmp)\<close> is stable: for a consistent comparator its result
  is the one stable arrangement, computed here by insertion.\<close>

fun js_insert :: "('a \<Rightarrow> 'a \<Rightarrow> bool) \<Rightarrow> 'a \<Rightarrow> 'a list \<Rightarrow> 'a list" where
  "js_insert le x [] = [x]"
| "js_insert le x (y # ys) = (if le x y then x # y # ys else y # js_insert le x ys)"

definition js_sort :: "('a \<Rightarrow> 'a \<Rightarrow> bool) \<Rightarrow> 'a list \<Rightarrow> 'a list" where
  "js_sort le xs = foldr (js_insert le) xs []"

lemma js_sort_simps [simp]:
  "js_sort le [] = []" "js_sort le (x # xs) = js_insert le x (js_sort le xs)"
  by (simp_all add: js_sort_def)

lemma mset_js_insert [simp]: "mset (js_insert le x xs) = add_mset x (mset xs)"
  by (induction xs) auto

lemma mset_js_sort [simp]: "mset (js_sort le xs) = mset xs"
  by (induction xs) auto

lemma set_js_sort [simp]: "set (js_sort le xs) = set xs"
  by (metis mset_js_sort set_mset_mset)

lemma distinct_js_sort [simp]: "distinct (js_sort le xs) = distinct xs"
  by (metis mset_eq_imp_distinct_iff mset_js_sort)

lemma length_js_sort [simp]: "length (js_sort le xs) = length xs"
  by (metis mset_js_sort size_mset)

lemma set_js_insert [simp]: "set (js_insert le x xs) = insert x (set xs)"
  by (induction xs) auto

lemma sorted_js_insert:
  assumes tot: "\<And>x y. le x y \<or> le y x" and tr: "\<And>x y z. le x y \<Longrightarrow> le y z \<Longrightarrow> le x z"
  shows "sorted_wrt le xs \<Longrightarrow> sorted_wrt le (js_insert le x xs)"
proof (induction xs)
  case (Cons y ys)
  show ?case
  proof (cases "le x y")
    case True
    with Cons.prems show ?thesis by (auto intro: tr)
  next
    case False
    with tot have "le y x" by blast
    with False Cons show ?thesis by auto
  qed
qed simp

lemma sorted_js_sort:
  assumes "\<And>x y. le x y \<or> le y x" and "\<And>x y z. le x y \<Longrightarrow> le y z \<Longrightarrow> le x z"
  shows "sorted_wrt le (js_sort le xs)"
proof (induction xs)
  case (Cons x xs)
  then show ?case by (simp add: sorted_js_insert [OF assms])
qed simp

end
