(* ===== verification/KernelTypes.thy ===== *)
theory KernelTypes
  imports Prelude
begin

text \<open>
  The plugin kernel's data (\<open>src/plugin-kernel/types.ts\<close>) and its three small registries:
  the permission gate, the service registry draft and the contribution registry draft.
  A service value or a contribution value is an opaque JavaScript reference.
\<close>

section \<open>types.ts\<close>

text \<open>A function or an object handed through the kernel is a reference; a value read from a
  resource file is its JSON.\<close>

type_synonym js_ref = nat

datatype js_value = Js_undefined | Js_ref js_ref | Js_json json

datatype plugin_host = Manager_host | Gateway_host | Web_host | Desktop_host

datatype execution_mode = In_process | Isolated | Declarative

datatype plugin_entry =
    Executable_entry execution_mode string
  | Declarative_entry string

record manifest =
  m_id :: string
  m_version :: string
  m_entries :: "(plugin_host, plugin_entry) jmap"
  m_provides :: "string list"
  m_requires :: "string list"
  m_optional :: "string list"
  m_permissions :: "string list"
  m_config_schema :: "json option"
  m_state_schema_version :: "nat option"

record identity =
  application_generation_id :: string
  manager_instance_id :: string
  activation_id :: nat
  instance_id :: string
  plugin_id :: string
  plugin_version :: string
  plugin_revision :: string
  plugin_host_of :: plugin_host

record contribution =
  con_kind :: string
  con_id :: string
  con_value :: js_value

record registered_contribution = contribution +
  con_instance :: string

record service_reg =
  svc_capability :: string
  svc_provider :: string
  svc_value :: js_value

datatype restart_mode = Restart_never | Restart_on_failure

record restart_policy =
  rp_mode :: restart_mode
  rp_max_attempts :: nat
  rp_window_ms :: int
  rp_initial_backoff_ms :: int
  rp_maximum_backoff_ms :: int

record resource_policy =
  rs_max_child_processes :: nat
  rs_shutdown_timeout_ms :: int

record instance_policy =
  ip_restart :: restart_policy
  ip_resources :: resource_policy

record candidate =
  c_instance_id :: string
  c_revision :: string
  c_manifest :: manifest
  c_config :: json
  c_entry_execution :: execution_mode
  c_entry_path :: string
  c_policy :: "instance_policy option"

record host_service =
  hs_capability :: string
  hs_value :: js_value

text \<open>Every \<open>throw new Error(...)\<close> of the kernel, with the values its message names.
  \<open>Plugin_threw\<close> is an error thrown by plugin code.\<close>

datatype kernel_error =
    Permission_invalid string
  | Permissions_not_granted "string list"
  | Permission_is_required string
  | Service_capability_required
  | Service_already_registered string string
  | Service_unavailable string
  | Contribution_incomplete
  | Contribution_registered string string
  | Instance_id_required
  | Duplicate_instance_id string
  | Capability_conflicts_host string
  | Capability_multiple_providers string string string
  | Dependency_cycle "string list"
  | Scope_closed
  | Scope_disposed
  | No_disposer string
  | Disposal_timeout string int
  | Host_entry_missing string
  | Identity_incomplete
  | Undeclared_capability string
  | Undeclared_provide string
  | Provided_twice string
  | Activation_timeout int string
  | Provides_missing "string list"
  | Component_cancelled string
  | Commit_cancelled string
  | Runtime_disposed
  | Generation_not_active
  | Ready_capabilities_missing "string list"
  | Cleanup_failed "kernel_error list"
  | Type_error
  | Module_invalid string execution_mode
  | Execution_unconfigured execution_mode
  | Resource_invalid string
  | Plugin_threw string

datatype runtime_status = Active | Waiting_dependency | Failed

text \<open>The message of a recorded error is the message of the error it keeps.\<close>

record runtime_error =
  re_code :: string
  re_error :: kernel_error

record runtime_record =
  rr_identity :: identity
  rr_manifest :: manifest
  rr_status :: runtime_status
  rr_missing :: "string list"
  rr_error :: "runtime_error option"

section \<open>capabilityReference.ts\<close>

definition capability_head_char :: "char \<Rightarrow> bool" where
  "capability_head_char c \<longleftrightarrow> is_lower c"

definition capability_name_char :: "char \<Rightarrow> bool" where
  "capability_name_char c \<longleftrightarrow> is_lower c \<or> is_digit c \<or> c \<in> set ''._:-''"

text \<open>\<open>/^[a-z][a-z0-9._:-]*@[1-9][0-9]*$/\<close>: the character class of the name has no \<open>@\<close>,
  so the split at the first \<open>@\<close> is the only one.\<close>

definition is_capability_reference :: "string \<Rightarrow> bool" where
  "is_capability_reference v \<longleftrightarrow>
     length v \<le> 200 \<and>
     (let name = takeWhile (\<lambda>c. c \<noteq> CHR ''@'') v; rest = dropWhile (\<lambda>c. c \<noteq> CHR ''@'') v in
        (case name of [] \<Rightarrow> False
         | c # cs \<Rightarrow> capability_head_char c \<and> list_all capability_name_char cs) \<and>
        (case rest of _ # d # ds \<Rightarrow> is_digit d \<and> d \<noteq> CHR ''0'' \<and> list_all is_digit ds
         | _ \<Rightarrow> False))"

section \<open>permissionGate.ts\<close>

definition permission_syntax :: "string \<Rightarrow> bool" where
  "permission_syntax s =
     (case s of [] \<Rightarrow> False | c # cs \<Rightarrow> is_lower c \<and> list_all capability_name_char cs)"

definition normalized_permission :: "string \<Rightarrow> (kernel_error, string) res" where
  "normalized_permission v =
     (let n = js_trim v in if permission_syntax n then Inr n else Inl (Permission_invalid v))"

text \<open>The constructor of \<open>GrantedPermissions\<close>; its private set is the result.\<close>

definition granted_permissions ::
  "string list \<Rightarrow> string list \<Rightarrow> (kernel_error, string list) res" where
  "granted_permissions requested granted =
     bindr (map_res normalized_permission granted) (\<lambda>allowed.
     bindr (map_res normalized_permission requested) (\<lambda>norm.
       let denied = filter (\<lambda>p. p \<notin> set allowed) norm in
       if denied \<noteq> [] then Inl (Permissions_not_granted denied)
       else Inr (foldl (\<lambda>s p. sadd p s) [] norm)))"

definition permission_has :: "string list \<Rightarrow> string \<Rightarrow> (kernel_error, bool) res" where
  "permission_has g v = bindr (normalized_permission v) (\<lambda>n. Inr (n \<in> set g))"

definition permission_require :: "string list \<Rightarrow> string \<Rightarrow> (kernel_error, unit) res" where
  "permission_require g v =
     bindr (normalized_permission v) (\<lambda>n.
       if n \<in> set g then Inr () else Inl (Permission_is_required n))"

definition permission_list :: "string list \<Rightarrow> string list" where
  "permission_list g = sort g"

lemma set_foldl_sadd [simp]: "set (foldl (\<lambda>s p. sadd p s) acc xs) = set acc \<union> set xs"
  by (induction xs arbitrary: acc) auto

lemma normalized_permission_Inr:
  "normalized_permission v = Inr n \<longleftrightarrow> n = js_trim v \<and> permission_syntax n"
  by (auto simp: normalized_permission_def Let_def)

lemma map_res_normalized_permission:
  "map_res normalized_permission vs = Inr ns \<Longrightarrow> ns = map js_trim vs"
  by (rule map_res_Inr_map) (auto simp: normalized_permission_def map_res_Inr_iff list_all2_conv_all_nth
      in_set_conv_nth Let_def split: if_splits)

lemma granted_permissions_Inr:
  assumes "granted_permissions requested granted = Inr g"
  shows "set g = set (map js_trim requested) \<and> set (map js_trim requested) \<subseteq> set (map js_trim granted)"
  using assms
  by (auto simp: granted_permissions_def bindr_Inr_iff Let_def filter_empty_conv
      dest!: map_res_normalized_permission split: if_splits)

section \<open>serviceRegistry.ts\<close>

type_synonym services = "(string, service_reg) jmap"

definition service_register ::
  "string \<Rightarrow> string \<Rightarrow> js_value \<Rightarrow> services \<Rightarrow> (kernel_error, services) res" where
  "service_register provider capability v m =
     (let n = js_trim capability in
      if n = [] then Inl Service_capability_required
      else case jget m n of
        Some ex \<Rightarrow> Inl (Service_already_registered (svc_provider ex) n)
      | None \<Rightarrow> Inr (jset n \<lparr>svc_capability = n, svc_provider = provider, svc_value = v\<rparr> m))"

definition service_draft :: "host_service list \<Rightarrow> (kernel_error, services) res" where
  "service_draft hs =
     fold_res (\<lambda>h. service_register ''host'' (hs_capability h) (hs_value h)) hs []"

definition service_require :: "services \<Rightarrow> string \<Rightarrow> (kernel_error, js_value) res" where
  "service_require m capability =
     (let n = js_trim capability in
      case jget m n of None \<Rightarrow> Inl (Service_unavailable n) | Some s \<Rightarrow> Inr (svc_value s))"

definition service_optional :: "services \<Rightarrow> string \<Rightarrow> js_value option" where
  "service_optional m capability = map_option svc_value (jget m (js_trim capability))"

section \<open>contributionRegistry.ts (kernel)\<close>

record contribution_draft =
  cd_values :: "registered_contribution list"
  cd_keys :: "string list"

definition contribution_draft_new :: contribution_draft where
  "contribution_draft_new = \<lparr>cd_values = [], cd_keys = []\<rparr>"

definition draft_key :: "string \<Rightarrow> string \<Rightarrow> string" where
  "draft_key kind cid = kind @ CHR 0x00 # cid"

definition contribution_register ::
  "string \<Rightarrow> contribution \<Rightarrow> contribution_draft \<Rightarrow> (kernel_error, contribution_draft) res" where
  "contribution_register inst c d =
     (let kind = js_trim (con_kind c); cid = js_trim (con_id c) in
      if kind = [] \<or> cid = [] then Inl Contribution_incomplete
      else let key = draft_key kind cid in
      if key \<in> set (cd_keys d) then Inl (Contribution_registered kind cid)
      else Inr \<lparr>cd_values = cd_values d @ [\<lparr>con_kind = kind, con_id = cid,
                    con_value = con_value c, con_instance = inst\<rparr>],
                cd_keys = sadd key (cd_keys d)\<rparr>)"

section \<open>The contract of the two registries\<close>

text \<open>A registry gives every item a key, refuses a key it already holds, and otherwise
  appends it. Registering a list of items then succeeds exactly when every key is valid,
  new and not repeated.\<close>

locale keyed_registry =
  fixes keyof :: "'i \<Rightarrow> 'k option"
    and reg :: "'i \<Rightarrow> 's \<Rightarrow> ('e, 's) res"
    and rkeys :: "'s \<Rightarrow> 'k list"
  assumes reg_ok: "reg i s = Inr s' \<Longrightarrow>
      \<exists>k. keyof i = Some k \<and> k \<notin> set (rkeys s) \<and> rkeys s' = rkeys s @ [k]"
    and reg_total: "keyof i = Some k \<Longrightarrow> k \<notin> set (rkeys s) \<Longrightarrow> \<exists>s'. reg i s = Inr s'"
begin

lemma reg_all_keys:
  "fold_res reg is s = Inr s' \<Longrightarrow>
     list_all (\<lambda>i. keyof i \<noteq> None) is \<and> rkeys s' = rkeys s @ map (the \<circ> keyof) is"
proof (induction "is" arbitrary: s)
  case (Cons i "is")
  then obtain t where t: "reg i s = Inr t" and rest: "fold_res reg is t = Inr s'"
    by (auto simp: bindr_Inr_iff)
  from reg_ok [OF t] Cons.IH [OF rest] show ?case by auto
qed simp

lemma reg_all_distinct:
  "fold_res reg is s = Inr s' \<Longrightarrow> distinct (rkeys s) \<Longrightarrow> distinct (rkeys s')"
  by (erule fold_res_invariant) (auto dest: reg_ok)

lemma reg_all_total:
  "list_all (\<lambda>i. keyof i \<noteq> None) is \<Longrightarrow> distinct (rkeys s @ map (the \<circ> keyof) is) \<Longrightarrow>
     \<exists>s'. fold_res reg is s = Inr s'"
proof (induction "is" arbitrary: s)
  case (Cons i "is")
  then obtain k where k: "keyof i = Some k" and "k \<notin> set (rkeys s)" by auto
  then obtain t where t: "reg i s = Inr t" using reg_total by blast
  from reg_ok [OF t] k have "rkeys t = rkeys s @ [k]" by auto
  with Cons k have "\<exists>s'. fold_res reg is t = Inr s'" by (intro Cons.IH) auto
  with t show ?case by auto
qed simp

lemma reg_all_iff:
  assumes "distinct (rkeys s)"
  shows "(\<exists>s'. fold_res reg is s = Inr s') \<longleftrightarrow>
     list_all (\<lambda>i. keyof i \<noteq> None) is \<and> distinct (rkeys s @ map (the \<circ> keyof) is)"
  using assms reg_all_keys reg_all_distinct reg_all_total by metis

end

text \<open>An item of the service registry is a provider, a capability and a value; one of the
  contribution registry an instance and a contribution.\<close>

definition service_item_key :: "string \<times> string \<times> js_value \<Rightarrow> string option" where
  "service_item_key i = (let n = js_trim (fst (snd i)) in if n = [] then None else Some n)"

definition service_item_reg ::
  "string \<times> string \<times> js_value \<Rightarrow> services \<Rightarrow> (kernel_error, services) res" where
  "service_item_reg i = service_register (fst i) (fst (snd i)) (snd (snd i))"

lemma service_register_Inr:
  "service_register provider capability v m = Inr m' \<longleftrightarrow>
     js_trim capability \<noteq> [] \<and> \<not> jhas m (js_trim capability) \<and>
     m' = m @ [(js_trim capability, \<lparr>svc_capability = js_trim capability, svc_provider = provider,
                svc_value = v\<rparr>)]"
  by (auto simp: service_register_def Let_def not_jhas_get jset_fresh split: option.splits)

interpretation sreg: keyed_registry service_item_key service_item_reg jkeys
  by unfold_locales
    (auto simp: service_item_reg_def service_item_key_def service_register_Inr Let_def jhas_def
      split: if_splits)

definition contribution_item_key :: "string \<times> contribution \<Rightarrow> string option" where
  "contribution_item_key i =
     (let kind = js_trim (con_kind (snd i)); cid = js_trim (con_id (snd i)) in
      if kind = [] \<or> cid = [] then None else Some (draft_key kind cid))"

definition contribution_item_reg ::
  "string \<times> contribution \<Rightarrow> contribution_draft \<Rightarrow> (kernel_error, contribution_draft) res" where
  "contribution_item_reg i = contribution_register (fst i) (snd i)"

lemma contribution_register_Inr:
  "contribution_register inst c d = Inr d' \<longleftrightarrow>
     js_trim (con_kind c) \<noteq> [] \<and> js_trim (con_id c) \<noteq> [] \<and>
     draft_key (js_trim (con_kind c)) (js_trim (con_id c)) \<notin> set (cd_keys d) \<and>
     d' = \<lparr>cd_values = cd_values d @ [\<lparr>con_kind = js_trim (con_kind c), con_id = js_trim (con_id c),
                    con_value = con_value c, con_instance = inst\<rparr>],
           cd_keys = cd_keys d @ [draft_key (js_trim (con_kind c)) (js_trim (con_id c))]\<rparr>"
  by (auto simp: contribution_register_def Let_def sadd_def)

interpretation creg: keyed_registry contribution_item_key contribution_item_reg cd_keys
proof unfold_locales
  fix i :: "string \<times> contribution" and d d' :: contribution_draft
  assume "contribution_item_reg i d = Inr d'"
  then show "\<exists>k. contribution_item_key i = Some k \<and> k \<notin> set (cd_keys d) \<and> cd_keys d' = cd_keys d @ [k]"
    by (simp add: contribution_item_reg_def contribution_item_key_def contribution_register_Inr)
next
  fix i :: "string \<times> contribution" and k and d :: contribution_draft
  assume "contribution_item_key i = Some k" and "k \<notin> set (cd_keys d)"
  then show "\<exists>d'. contribution_item_reg i d = Inr d'"
    by (simp add: contribution_item_reg_def contribution_item_key_def contribution_register_Inr Let_def
        split: if_splits)
qed

text \<open>The draft's values carry the keys in order, so a snapshot names every registered
  contribution once.\<close>

definition contribution_draft_ok :: "contribution_draft \<Rightarrow> bool" where
  "contribution_draft_ok d \<longleftrightarrow>
     distinct (cd_keys d) \<and> cd_keys d = map (\<lambda>v. draft_key (con_kind v) (con_id v)) (cd_values d)"

lemma contribution_register_ok:
  "contribution_register inst c d = Inr d' \<Longrightarrow> contribution_draft_ok d \<Longrightarrow> contribution_draft_ok d'"
  by (auto simp: contribution_register_Inr contribution_draft_ok_def)

lemma draft_key_inject:
  assumes "draft_key k i = draft_key k' i'" and "CHR 0x00 \<notin> set k" and "CHR 0x00 \<notin> set k'"
  shows "k = k' \<and> i = i'"
proof -
  have "takeWhile (\<lambda>c. c \<noteq> CHR 0x00) (draft_key a b) = a"
    and "dropWhile (\<lambda>c. c \<noteq> CHR 0x00) (draft_key a b) = CHR 0x00 # b"
    if "CHR 0x00 \<notin> set a" for a b
    using that by (induction a) (auto simp: draft_key_def)
  with assms show ?thesis by (metis list.inject)
qed

end
