(* ===== verification/CapabilityGraph.thy ===== *)
theory CapabilityGraph
  imports KernelTypes
begin

text \<open>
  \<open>src/plugin-kernel/capabilityGraph.ts\<close>: the plan of one generation. It names the
  provider of every capability, the candidates that must wait because a required
  capability is unavailable, and an order in which to activate the others.
  \<open>select_ready_plugin_candidates\<close> is from \<open>generationRuntime.ts\<close>, which keeps only
  what the ready capabilities need.
\<close>

section \<open>planCapabilityGraph\<close>

record graph_plan =
  gp_activation_order :: "string list"
  gp_waiting :: "(string, string list) jmap"
  gp_providers :: "(string, string) jmap"
  gp_dependents :: "(string, string list) jmap"

fun unique_candidates_from ::
  "candidate list \<Rightarrow> (string, candidate) jmap \<Rightarrow> (kernel_error, (string, candidate) jmap) res" where
  "unique_candidates_from [] m = Inr m"
| "unique_candidates_from (c # cs) m =
     (let i = js_trim (c_instance_id c) in
      if i = [] then Inl Instance_id_required
      else if jhas m i then Inl (Duplicate_instance_id i)
      else unique_candidates_from cs (jset i c m))"

definition unique_candidates ::
  "candidate list \<Rightarrow> (kernel_error, (string, candidate) jmap) res" where
  "unique_candidates cs = unique_candidates_from cs []"

text \<open>The provider loop. An instance id is never empty once \<open>unique_candidates\<close> has
  accepted it, so the test \<open>if (existing)\<close> is the test for an entry.\<close>

fun add_provides ::
  "string list \<Rightarrow> string \<Rightarrow> string list \<Rightarrow> (string, string) jmap \<Rightarrow>
     (kernel_error, (string, string) jmap) res" where
  "add_provides host inst [] prov = Inr prov"
| "add_provides host inst (cap # caps) prov =
     (if cap \<in> set host then Inl (Capability_conflicts_host cap)
      else case jget prov cap of
        Some existing \<Rightarrow> Inl (Capability_multiple_providers cap existing inst)
      | None \<Rightarrow> add_provides host inst caps (jset cap inst prov))"

definition capability_providers ::
  "string list \<Rightarrow> candidate list \<Rightarrow> (kernel_error, (string, string) jmap) res" where
  "capability_providers host cs =
     fold_res (\<lambda>c. add_provides host (c_instance_id c) (m_provides (c_manifest c))) cs []"

text \<open>The waiting loop: one pass over the candidates, which sees its own additions, and
  passes until nothing changes.\<close>

definition missing_requires ::
  "string list \<Rightarrow> (string, string) jmap \<Rightarrow> (string, string list) jmap \<Rightarrow> candidate \<Rightarrow> string list" where
  "missing_requires host prov w c =
     filter (\<lambda>cap. cap \<notin> set host \<and>
         (case jget prov cap of None \<Rightarrow> True | Some p \<Rightarrow> jhas w p))
       (m_requires (c_manifest c))"

fun waiting_pass ::
  "string list \<Rightarrow> (string, string) jmap \<Rightarrow> candidate list \<Rightarrow>
     (string, string list) jmap \<Rightarrow> (string, string list) jmap" where
  "waiting_pass host prov [] w = w"
| "waiting_pass host prov (c # cs) w =
     (if jhas w (c_instance_id c) then waiting_pass host prov cs w
      else let missing = missing_requires host prov w c in
        if missing = [] then waiting_pass host prov cs w
        else waiting_pass host prov cs (jset (c_instance_id c) missing w))"

lemma jhas_waiting_pass: "jhas w i \<Longrightarrow> jhas (waiting_pass host prov cs w) i"
  by (induction cs arbitrary: w) (auto simp: Let_def)

lemma waiting_pass_changed:
  "waiting_pass host prov cs w \<noteq> w \<Longrightarrow>
     \<exists>c \<in> set cs. \<not> jhas w (c_instance_id c) \<and> jhas (waiting_pass host prov cs w) (c_instance_id c)"
proof (induction cs arbitrary: w)
  case (Cons c cs)
  show ?case
  proof (cases "jhas w (c_instance_id c) \<or> missing_requires host prov w c = []")
    case True
    then have eq: "waiting_pass host prov (c # cs) w = waiting_pass host prov cs w"
      by (auto simp: Let_def)
    with Cons.prems have "waiting_pass host prov cs w \<noteq> w" by simp
    from Cons.IH [OF this] show ?thesis unfolding eq by auto
  next
    case False
    then have "jhas (waiting_pass host prov (c # cs) w) (c_instance_id c)"
      by (auto simp: Let_def intro: jhas_waiting_pass)
    with False show ?thesis by auto
  qed
qed simp

text \<open>\<open>changed\<close> is true after a pass exactly when the pass added an entry, that is, when the
  map differs.\<close>

function waiting_loop ::
  "string list \<Rightarrow> (string, string) jmap \<Rightarrow> candidate list \<Rightarrow>
     (string, string list) jmap \<Rightarrow> (string, string list) jmap" where
  "waiting_loop host prov cs w =
     (let w' = waiting_pass host prov cs w in
      if w' \<noteq> w then waiting_loop host prov cs w' else w)"
  by pat_completeness auto

definition unmarked :: "candidate list \<Rightarrow> (string, string list) jmap \<Rightarrow> candidate set" where
  "unmarked cs w = {c \<in> set cs. \<not> jhas w (c_instance_id c)}"

lemma unmarked_waiting_pass:
  "waiting_pass host prov cs w \<noteq> w \<Longrightarrow>
     card (unmarked cs (waiting_pass host prov cs w)) < card (unmarked cs w)"
  by (rule psubset_card_mono)
    (auto simp: unmarked_def dest: waiting_pass_changed intro: jhas_waiting_pass)

termination waiting_loop
  by (relation "measure (\<lambda>(host, prov, cs, w). card (unmarked cs w))")
    (auto simp: Let_def unmarked_waiting_pass)

declare waiting_loop.simps [simp del]

text \<open>The edge loop: one count per capability that another candidate provides, one entry
  per consumer in the provider's list.\<close>

definition degree_of :: "(string, int) jmap \<Rightarrow> string \<Rightarrow> int" where
  "degree_of ind i = (case jget ind i of None \<Rightarrow> 0 | Some d \<Rightarrow> d)"

definition dependents_of :: "(string, string list) jmap \<Rightarrow> string \<Rightarrow> string list" where
  "dependents_of deps p = (case jget deps p of None \<Rightarrow> [] | Some v \<Rightarrow> v)"

fun edge_capabilities ::
  "(string, string) jmap \<Rightarrow> (string, string list) jmap \<Rightarrow> string \<Rightarrow> string list \<Rightarrow>
     (string, int) jmap \<times> (string, string list) jmap \<Rightarrow>
     (string, int) jmap \<times> (string, string list) jmap" where
  "edge_capabilities prov w i [] st = st"
| "edge_capabilities prov w i (cap # caps) st =
     (case jget prov cap of
        None \<Rightarrow> edge_capabilities prov w i caps st
      | Some p \<Rightarrow>
          if p = i \<or> jhas w p then edge_capabilities prov w i caps st
          else let ind = fst st; deps = snd st; values = dependents_of deps p in
            edge_capabilities prov w i caps
              (jset i (degree_of ind i + 1) ind,
               jset p (if i \<in> set values then values else values @ [i]) deps))"

fun edge_candidates ::
  "(string, string) jmap \<Rightarrow> (string, string list) jmap \<Rightarrow> candidate list \<Rightarrow>
     (string, int) jmap \<times> (string, string list) jmap \<Rightarrow>
     (string, int) jmap \<times> (string, string list) jmap" where
  "edge_candidates prov w [] st = st"
| "edge_candidates prov w (c # cs) st =
     (if jhas w (c_instance_id c) then edge_candidates prov w cs st
      else edge_candidates prov w cs
        (edge_capabilities prov w (c_instance_id c)
           (m_requires (c_manifest c) @ m_optional (c_manifest c)) st))"

definition initial_degrees ::
  "(string, string list) jmap \<Rightarrow> candidate list \<Rightarrow> (string, int) jmap" where
  "initial_degrees w cs =
     foldl (\<lambda>ind c. if jhas w (c_instance_id c) then ind else jset (c_instance_id c) 0 ind) [] cs"

text \<open>The queue loop. \<open>relax\<close> is the loop over the dependents of the instance just taken.\<close>

fun relax ::
  "string list \<Rightarrow> (string, int) jmap \<Rightarrow> string list \<Rightarrow> (string, int) jmap \<times> string list" where
  "relax [] ind queue = (ind, queue)"
| "relax (d # ds) ind queue =
     (let degree = degree_of ind d - 1 in
      relax ds (jset d degree ind) (if degree = 0 then sort (queue @ [d]) else queue))"

definition open_degrees :: "(string, int) jmap \<Rightarrow> nat" where
  "open_degrees ind = sum_list (map (nat \<circ> snd) ind)"

lemma open_degrees_decrement:
  "open_degrees (jset d (degree_of ind d - 1) ind) + (if degree_of ind d = 1 then 1 else 0)
     \<le> open_degrees ind"
  by (induction ind) (auto simp: open_degrees_def degree_of_def)

lemma relax_measure:
  "relax ds ind queue = (ind', queue') \<Longrightarrow>
     length queue' + open_degrees ind' \<le> length queue + open_degrees ind"
proof (induction ds arbitrary: ind queue)
  case (Cons d ds)
  let ?ind = "jset d (degree_of ind d - 1) ind"
  let ?q = "if degree_of ind d - 1 = 0 then sort (queue @ [d]) else queue"
  from Cons.prems have "relax ds ?ind ?q = (ind', queue')" by (simp add: Let_def)
  from Cons.IH [OF this] open_degrees_decrement [of d ind] show ?case
    by (auto split: if_splits)
qed simp

function activation_loop ::
  "(string, string list) jmap \<Rightarrow> string list \<Rightarrow> (string, int) jmap \<Rightarrow> string list \<Rightarrow> string list" where
  "activation_loop deps [] ind order = order"
| "activation_loop deps (i # queue) ind order =
     (case relax (dependents_of deps i) ind queue of (ind', queue') \<Rightarrow>
        activation_loop deps queue' ind' (order @ [i]))"
  by pat_completeness auto
termination activation_loop
  by (relation "measure (\<lambda>(deps, queue, ind, order). length queue + open_degrees ind)")
    (auto dest!: sym [THEN relax_measure])

definition plan_capability_graph ::
  "candidate list \<Rightarrow> string list \<Rightarrow> (kernel_error, graph_plan) res" where
  "plan_capability_graph candidates host =
     bindr (unique_candidates candidates) (\<lambda>byId.
       let cs = jvals byId in
     bindr (capability_providers host cs) (\<lambda>prov.
       let w = waiting_loop host prov cs [];
           (ind, deps) = edge_candidates prov w cs (initial_degrees w cs, []);
           queue = sort (map fst (filter (\<lambda>(_, degree). degree = 0) ind));
           order = activation_loop deps queue ind []
       in if length order \<noteq> length ind
          then Inl (Dependency_cycle (sort (filter (\<lambda>i. i \<notin> set order) (jkeys ind))))
          else Inr \<lparr>gp_activation_order = order, gp_waiting = w, gp_providers = prov,
                    gp_dependents = map (\<lambda>(i, values). (i, sort values)) deps\<rparr>))"

section \<open>selectReadyPluginCandidates\<close>

text \<open>The worklist loop, with the pending capabilities as a stack whose top is the end of
  the source's array (\<open>pop\<close> takes the last, \<open>push\<close> appends).\<close>

function select_loop ::
  "(string, string) jmap \<Rightarrow> (string, candidate) jmap \<Rightarrow> string list \<Rightarrow> string list \<Rightarrow>
     string list \<Rightarrow> string list" where
  "select_loop prov byId host [] selected = selected"
| "select_loop prov byId host (cap # pending) selected =
     (if cap \<in> set host then select_loop prov byId host pending selected
      else case jget prov cap of
        None \<Rightarrow> select_loop prov byId host pending selected
      | Some p \<Rightarrow>
          if p \<in> set selected then select_loop prov byId host pending selected
          else select_loop prov byId host
            ((case jget byId p of None \<Rightarrow> [] | Some c \<Rightarrow> rev (m_requires (c_manifest c))) @ pending)
            (selected @ [p]))"
  by pat_completeness auto
termination select_loop
proof (relation "measures [\<lambda>(prov, byId, host, pending, selected). card (set (jvals prov) - set selected),
    \<lambda>(prov, byId, host, pending, selected). length pending]", goal_cases)
  case (5 prov byId host cap pending selected p)
  then have "p \<in> set (jvals prov)" by (force dest: map_of_SomeD)
  with 5 have "card (set (jvals prov) - set (selected @ [p])) < card (set (jvals prov) - set selected)"
    by (intro psubset_card_mono) auto
  then show ?case by simp
qed auto

definition select_ready_plugin_candidates ::
  "candidate list \<Rightarrow> string list \<Rightarrow> string list \<Rightarrow> (kernel_error, candidate list) res" where
  "select_ready_plugin_candidates candidates ready host =
     (let hostSet = filter (\<lambda>s. s \<noteq> []) (map js_trim host) in
      bindr (plan_capability_graph candidates hostSet) (\<lambda>plan.
        let byId = foldl (\<lambda>m c. jset (js_trim (c_instance_id c)) c m) [] candidates;
            pending = filter (\<lambda>s. s \<noteq> []) (map js_trim ready);
            selected = select_loop (gp_providers plan) byId hostSet (rev pending) []
        in Inr (filter (\<lambda>c. js_trim (c_instance_id c) \<in> set selected) candidates)))"

section \<open>What the plan's parts compute\<close>

subsection \<open>Candidates and providers\<close>

lemma unique_candidates_from_Inr:
  "unique_candidates_from cs m = Inr m' \<Longrightarrow>
     m' = m @ map (\<lambda>c. (js_trim (c_instance_id c), c)) cs \<and>
     (distinct (jkeys m) \<longrightarrow> distinct (jkeys m @ map (\<lambda>c. js_trim (c_instance_id c)) cs))"
proof (induction cs arbitrary: m)
  case (Cons c cs)
  let ?i = "js_trim (c_instance_id c)"
  from Cons.prems have fresh: "\<not> jhas m ?i"
    and rest: "unique_candidates_from cs (jset ?i c m) = Inr m'"
    by (auto simp: Let_def split: if_splits)
  from Cons.IH [OF rest] fresh show ?case
    by (simp add: jset_fresh jhas_def)
qed simp

lemma unique_candidates_Inr:
  assumes "unique_candidates cs = Inr m"
  shows "jvals m = cs" and "distinct (map (\<lambda>c. js_trim (c_instance_id c)) cs)"
    and "m = map (\<lambda>c. (js_trim (c_instance_id c), c)) cs"
  using unique_candidates_from_Inr [of cs "[]" m] assms
  by (auto simp: unique_candidates_def comp_def)

lemma distinct_map_trim: "distinct (map (\<lambda>c. js_trim (f c)) cs) \<Longrightarrow> distinct (map f cs)"
  by (induction cs) auto

lemma add_provides_Inr:
  "add_provides host inst caps prov = Inr prov' \<Longrightarrow>
     prov' = prov @ map (\<lambda>cap. (cap, inst)) caps \<and> (\<forall>cap \<in> set caps. cap \<notin> set host) \<and>
     (distinct (jkeys prov) \<longrightarrow> distinct (jkeys prov @ caps))"
proof (induction caps arbitrary: prov)
  case (Cons cap caps)
  from Cons.prems have nh: "cap \<notin> set host" and fresh: "\<not> jhas prov cap"
    and rest: "add_provides host inst caps (jset cap inst prov) = Inr prov'"
    by (auto simp: not_jhas_get split: if_splits option.splits)
  from Cons.IH [OF rest] fresh nh show ?case
    by (simp add: jset_fresh jhas_def)
qed simp

lemma capability_providers_invariant:
  "fold_res (\<lambda>c. add_provides host (c_instance_id c) (m_provides (c_manifest c))) cs prov = Inr prov' \<Longrightarrow>
     distinct (jkeys prov) \<Longrightarrow>
     distinct (jkeys prov') \<and>
     prov' = prov @ concat (map (\<lambda>c. map (\<lambda>cap. (cap, c_instance_id c)) (m_provides (c_manifest c))) cs) \<and>
     (\<forall>c \<in> set cs. \<forall>cap \<in> set (m_provides (c_manifest c)). cap \<notin> set host)"
proof (induction cs arbitrary: prov)
  case (Cons c cs)
  then obtain t where t: "add_provides host (c_instance_id c) (m_provides (c_manifest c)) prov = Inr t"
    and rest: "fold_res (\<lambda>c. add_provides host (c_instance_id c) (m_provides (c_manifest c))) cs t = Inr prov'"
    by (auto simp: bindr_Inr_iff)
  from add_provides_Inr [OF t] Cons.prems(2) have d: "distinct (jkeys t)"
    and t': "t = prov @ map (\<lambda>cap. (cap, c_instance_id c)) (m_provides (c_manifest c))"
    and nh: "\<forall>cap \<in> set (m_provides (c_manifest c)). cap \<notin> set host"
    by (simp_all add: comp_def)
  note IH = Cons.IH [OF rest d]
  have "distinct (jkeys prov')" using IH by blast
  moreover have "prov' = prov @
      concat (map (\<lambda>c. map (\<lambda>cap. (cap, c_instance_id c)) (m_provides (c_manifest c))) (c # cs))"
    using IH t' by simp
  ultimately show ?case using IH nh by auto
qed simp

lemma capability_providers_Inr:
  assumes "capability_providers host cs = Inr prov"
  shows "jget prov cap = Some p \<longleftrightarrow>
      (\<exists>c \<in> set cs. c_instance_id c = p \<and> cap \<in> set (m_provides (c_manifest c)))"
    and "jget prov cap = Some p \<Longrightarrow> cap \<notin> set host"
proof -
  have "distinct (jkeys ([] :: (string, string) jmap))" by simp
  note inv = capability_providers_invariant [OF assms [unfolded capability_providers_def] this]
  have d: "distinct (jkeys prov)" using inv by blast
  have prov: "prov = concat (map (\<lambda>c. map (\<lambda>cap. (cap, c_instance_id c)) (m_provides (c_manifest c))) cs)"
    using inv by simp
  have nh: "\<forall>c \<in> set cs. \<forall>cap \<in> set (m_provides (c_manifest c)). cap \<notin> set host"
    using inv by blast
  from d have "jget prov cap = Some p \<longleftrightarrow> (cap, p) \<in> set prov" by simp
  also have "\<dots> \<longleftrightarrow> (\<exists>c \<in> set cs. c_instance_id c = p \<and> cap \<in> set (m_provides (c_manifest c)))"
    by (auto simp: prov)
  finally show "jget prov cap = Some p \<longleftrightarrow>
      (\<exists>c \<in> set cs. c_instance_id c = p \<and> cap \<in> set (m_provides (c_manifest c)))" .
  with nh show "jget prov cap = Some p \<Longrightarrow> cap \<notin> set host" by blast
qed

subsection \<open>Waiting candidates\<close>

text \<open>The specification: a candidate is blocked when some required capability is not a host
  capability and everything that provides it is itself blocked (or nothing provides it).\<close>

inductive blocked :: "candidate list \<Rightarrow> string list \<Rightarrow> string \<Rightarrow> bool"
  for cs host where
  blockedI: "c \<in> set cs \<Longrightarrow> cap \<in> set (m_requires (c_manifest c)) \<Longrightarrow> cap \<notin> set host \<Longrightarrow>
     (\<And>d. d \<in> set cs \<Longrightarrow> cap \<in> set (m_provides (c_manifest d)) \<Longrightarrow> blocked cs host (c_instance_id d)) \<Longrightarrow>
     blocked cs host (c_instance_id c)"

lemma missing_requires_ne:
  "missing_requires host prov w c \<noteq> [] \<longleftrightarrow>
     (\<exists>cap \<in> set (m_requires (c_manifest c)). cap \<notin> set host \<and>
        (case jget prov cap of None \<Rightarrow> True | Some p \<Rightarrow> jhas w p))"
  by (auto simp: missing_requires_def filter_empty_conv)

lemma waiting_pass_fixpoint:
  "waiting_pass host prov cs w = w \<Longrightarrow> c \<in> set cs \<Longrightarrow>
     jhas w (c_instance_id c) \<or> missing_requires host prov w c = []"
proof (induction cs arbitrary: c)
  case (Cons d cs)
  show ?case
  proof (cases "jhas w (c_instance_id d) \<or> missing_requires host prov w d = []")
    case True
    then have "waiting_pass host prov (d # cs) w = waiting_pass host prov cs w"
      by (auto simp: Let_def)
    with Cons.prems(1) have "waiting_pass host prov cs w = w" by simp
    from Cons.IH [OF this] Cons.prems(2) True show ?thesis by auto
  next
    case False
    then have "jhas (waiting_pass host prov (d # cs) w) (c_instance_id d)"
      by (auto simp: Let_def intro: jhas_waiting_pass)
    with False Cons.prems(1) show ?thesis by simp
  qed
qed simp

lemma waiting_pass_invariant:
  assumes "\<And>w c. c \<in> set cs \<Longrightarrow> I w \<Longrightarrow> missing_requires host prov w c \<noteq> [] \<Longrightarrow>
      \<not> jhas w (c_instance_id c) \<Longrightarrow> I (jset (c_instance_id c) (missing_requires host prov w c) w)"
  shows "I w \<Longrightarrow> I (waiting_pass host prov cs w)"
  using assms by (induction cs arbitrary: w) (auto simp: Let_def)

lemma waiting_loop_invariant:
  assumes "\<And>w c. c \<in> set cs \<Longrightarrow> I w \<Longrightarrow> missing_requires host prov w c \<noteq> [] \<Longrightarrow>
      \<not> jhas w (c_instance_id c) \<Longrightarrow> I (jset (c_instance_id c) (missing_requires host prov w c) w)"
  shows "I w \<Longrightarrow> I (waiting_loop host prov cs w)"
  using assms
proof (induction host prov cs w rule: waiting_loop.induct)
  case (1 host prov cs w)
  have "I (waiting_pass host prov cs w)"
    by (rule waiting_pass_invariant [where I = I]) (use "1.prems" in blast)+
  with 1 show ?case by (simp add: waiting_loop.simps [of host prov cs w] Let_def)
qed

lemma waiting_loop_stable:
  "waiting_pass host prov cs (waiting_loop host prov cs w) = waiting_loop host prov cs w"
proof (induction host prov cs w rule: waiting_loop.induct)
  case (1 host prov cs w)
  then show ?case by (simp add: waiting_loop.simps [of host prov cs w] Let_def)
qed

text \<open>The waiting map marks exactly the blocked candidates.\<close>

lemma waiting_loop_sound:
  assumes prov: "capability_providers host cs = Inr prov"
    and "jhas (waiting_loop host prov cs []) i"
  shows "blocked cs host i"
proof -
  have "\<forall>i. jhas (waiting_loop host prov cs []) i \<longrightarrow> blocked cs host i"
  proof (rule waiting_loop_invariant [where I = "\<lambda>w. \<forall>i. jhas w i \<longrightarrow> blocked cs host i"])
    fix w c
    assume c: "c \<in> set cs" and I: "\<forall>i. jhas w i \<longrightarrow> blocked cs host i"
      and "missing_requires host prov w c \<noteq> []"
    then obtain cap where cap: "cap \<in> set (m_requires (c_manifest c))" "cap \<notin> set host"
      and pv: "case jget prov cap of None \<Rightarrow> True | Some p \<Rightarrow> jhas w p"
      by (auto simp: missing_requires_ne)
    from c cap have "blocked cs host (c_instance_id c)"
    proof (rule blockedI)
      fix d assume "d \<in> set cs" and "cap \<in> set (m_provides (c_manifest d))"
      then have "jget prov cap = Some (c_instance_id d)"
        by (auto simp: capability_providers_Inr(1) [OF prov])
      with pv I show "blocked cs host (c_instance_id d)" by auto
    qed
    with I show "\<forall>i. jhas (jset (c_instance_id c) (missing_requires host prov w c) w) i \<longrightarrow> blocked cs host i"
      by auto
  qed simp
  with assms(2) show ?thesis by blast
qed

lemma waiting_loop_complete:
  assumes prov: "capability_providers host cs = Inr prov" and "blocked cs host i"
  shows "jhas (waiting_loop host prov cs []) i"
  using assms(2)
proof (induction rule: blocked.induct)
  case (blockedI c cap)
  let ?w = "waiting_loop host prov cs []"
  have "case jget prov cap of None \<Rightarrow> True | Some p \<Rightarrow> jhas ?w p"
    using blockedI.IH by (auto simp: capability_providers_Inr(1) [OF prov] split: option.splits)
  with blockedI have "missing_requires host prov ?w c \<noteq> []"
    by (auto simp: missing_requires_ne)
  with waiting_pass_fixpoint [OF waiting_loop_stable blockedI.hyps(1)] show ?case by blast
qed

lemma waiting_loop_keys:
  assumes "jhas (waiting_loop host prov cs []) i"
  shows "i \<in> c_instance_id ` set cs"
proof -
  have "\<forall>i. jhas (waiting_loop host prov cs []) i \<longrightarrow> i \<in> c_instance_id ` set cs"
    by (rule waiting_loop_invariant [where I = "\<lambda>w. \<forall>i. jhas w i \<longrightarrow> i \<in> c_instance_id ` set cs"])
      simp_all
  with assms show ?thesis by blast
qed

subsection \<open>Edges\<close>

text \<open>The edges the double loop visits, with multiplicity, and its two results on them.\<close>

definition capability_edges ::
  "(string, string) jmap \<Rightarrow> (string, string list) jmap \<Rightarrow> string \<Rightarrow> string list \<Rightarrow> (string \<times> string) list" where
  "capability_edges prov w i caps =
     concat (map (\<lambda>cap. case jget prov cap of None \<Rightarrow> []
       | Some p \<Rightarrow> if p = i \<or> jhas w p then [] else [(p, i)]) caps)"

definition graph_edges ::
  "(string, string) jmap \<Rightarrow> (string, string list) jmap \<Rightarrow> candidate list \<Rightarrow> (string \<times> string) list" where
  "graph_edges prov w cs =
     concat (map (\<lambda>c. if jhas w (c_instance_id c) then []
       else capability_edges prov w (c_instance_id c)
         (m_requires (c_manifest c) @ m_optional (c_manifest c))) cs)"

fun add_edges ::
  "(string \<times> string) list \<Rightarrow> (string, int) jmap \<times> (string, string list) jmap \<Rightarrow>
     (string, int) jmap \<times> (string, string list) jmap" where
  "add_edges [] st = st"
| "add_edges ((p, i) # es) (ind, deps) =
     add_edges es (jset i (degree_of ind i + 1) ind,
       jset p (sadd i (dependents_of deps p)) deps)"

lemma add_edges_append: "add_edges (xs @ ys) st = add_edges ys (add_edges xs st)"
  by (induction xs st rule: add_edges.induct) auto

lemma edge_capabilities_add: "edge_capabilities prov w i caps st = add_edges (capability_edges prov w i caps) st"
  by (induction prov w i caps st rule: edge_capabilities.induct)
    (auto simp: capability_edges_def Let_def sadd_def split: option.splits)

lemma edge_candidates_add: "edge_candidates prov w cs st = add_edges (graph_edges prov w cs) st"
  by (induction prov w cs st rule: edge_candidates.induct)
    (auto simp: graph_edges_def edge_capabilities_add add_edges_append)

lemma degree_of_jset [simp]: "degree_of (jset k d ind) i = (if i = k then d else degree_of ind i)"
  by (simp add: degree_of_def)

lemma dependents_of_jset [simp]:
  "dependents_of (jset k v deps) p = (if p = k then v else dependents_of deps p)"
  by (simp add: dependents_of_def)

lemma add_edges_result:
  "add_edges es (ind, deps) = (ind', deps') \<Longrightarrow>
     (\<forall>i. degree_of ind' i = degree_of ind i + int (length (filter (\<lambda>e. snd e = i) es))) \<and>
     (\<forall>p. set (dependents_of deps' p) = set (dependents_of deps p) \<union> {i. (p, i) \<in> set es}) \<and>
     (\<forall>p. distinct (dependents_of deps p) \<longrightarrow> distinct (dependents_of deps' p))"
proof (induction es arbitrary: ind deps)
  case (Cons e es)
  obtain p i where e: "e = (p, i)" by force
  with Cons.prems have "add_edges es (jset i (degree_of ind i + 1) ind,
      jset p (sadd i (dependents_of deps p)) deps) = (ind', deps')" by simp
  from Cons.IH [OF this] show ?case by (auto simp: e split: if_splits)
qed simp

lemma add_edges_keys:
  "add_edges es (ind, deps) = (ind', deps') \<Longrightarrow> \<forall>e \<in> set es. jhas ind (snd e) \<Longrightarrow> jkeys ind' = jkeys ind"
proof (induction es arbitrary: ind deps)
  case (Cons e es)
  obtain p i where e: "e = (p, i)" by force
  with Cons.prems have "add_edges es (jset i (degree_of ind i + 1) ind,
      jset p (sadd i (dependents_of deps p)) deps) = (ind', deps')" by simp
  from Cons.IH [OF this] Cons.prems(2) e show ?case by (simp add: jkeys_jset)
qed simp

lemma initial_degrees_Inr:
  assumes "distinct (map c_instance_id cs)"
  shows "initial_degrees w cs = map (\<lambda>c. (c_instance_id c, 0)) (filter (\<lambda>c. \<not> jhas w (c_instance_id c)) cs)"
proof -
  have "foldl (\<lambda>ind c. if jhas w (c_instance_id c) then ind else jset (c_instance_id c) 0 ind) ind cs
      = ind @ map (\<lambda>c. (c_instance_id c, 0)) (filter (\<lambda>c. \<not> jhas w (c_instance_id c)) cs)"
    if "distinct (map c_instance_id cs)" "\<forall>c \<in> set cs. \<not> jhas ind (c_instance_id c)" for ind :: "(string, int) jmap"
    using that
  proof (induction cs arbitrary: ind)
    case (Cons c cs)
    have "\<forall>d \<in> set cs. \<not> jhas (jset (c_instance_id c) 0 ind) (c_instance_id d)"
      using Cons.prems by (auto simp: image_iff)
    with Cons show ?case by (auto simp: jset_fresh)
  qed simp
  from this [of "[]"] assms show ?thesis by (simp add: initial_degrees_def)
qed

subsection \<open>The queue loop\<close>

lemma relax_result_all:
  "relax ds ind queue = (ind', queue') \<Longrightarrow> distinct ds \<Longrightarrow>
     (\<forall>v. degree_of ind' v = degree_of ind v - (if v \<in> set ds then 1 else 0)) \<and>
     mset queue' = mset queue + mset (filter (\<lambda>d. degree_of ind d = 1) ds) \<and>
     (set ds \<subseteq> set (jkeys ind) \<longrightarrow> jkeys ind' = jkeys ind)"
proof (induction ds arbitrary: ind queue)
  case (Cons d ds)
  let ?ind = "jset d (degree_of ind d - 1) ind"
  let ?q = "if degree_of ind d - 1 = 0 then sort (queue @ [d]) else queue"
  from Cons.prems have step: "relax ds ?ind ?q = (ind', queue')" and dd: "d \<notin> set ds" "distinct ds"
    by (simp_all add: Let_def)
  note IH = Cons.IH [OF step dd(2)]
  have eq: "filter (\<lambda>x. degree_of ?ind x = 1) ds = filter (\<lambda>x. degree_of ind x = 1) ds"
    by (rule filter_cong) (use dd in auto)
  have "mset queue' = mset ?q + mset (filter (\<lambda>x. degree_of ?ind x = 1) ds)"
    using IH by blast
  then have "mset queue' = mset ?q + mset (filter (\<lambda>x. degree_of ind x = 1) ds)"
    by (simp only: eq)
  then have "mset queue' = mset queue + mset (filter (\<lambda>x. degree_of ind x = 1) (d # ds))"
    by simp
  moreover have "set (d # ds) \<subseteq> set (jkeys ind) \<longrightarrow> jkeys ind' = jkeys ind"
    using IH by (auto simp: jkeys_jset jhas_def)
  ultimately show ?case using IH dd by auto
qed simp

lemma relax_result:
  assumes "relax ds ind queue = (ind', queue')" and "distinct ds"
  shows "degree_of ind' v = degree_of ind v - (if v \<in> set ds then 1 else 0)"
    and "mset queue' = mset queue + mset (filter (\<lambda>d. degree_of ind d = 1) ds)"
    and "set ds \<subseteq> set (jkeys ind) \<Longrightarrow> jkeys ind' = jkeys ind"
  using relax_result_all [OF assms] by blast+

definition providers_of :: "(string, string list) jmap \<Rightarrow> string \<Rightarrow> string set" where
  "providers_of deps v = {p. v \<in> set (dependents_of deps p)}"

definition topological :: "(string, string list) jmap \<Rightarrow> string list \<Rightarrow> bool" where
  "topological deps order \<longleftrightarrow>
     (\<forall>n < length order. providers_of deps (order ! n) \<subseteq> set (take n order))"

lemma topological_snoc:
  "topological deps (order @ [x]) \<longleftrightarrow> topological deps order \<and> providers_of deps x \<subseteq> set order"
  by (auto simp: topological_def nth_append less_Suc_eq)

text \<open>The graph the loop runs on: \<open>V\<close> the instances, \<open>m\<close> the initial counts, which are at
  least the number of distinct providers.\<close>

definition counted_graph :: "string set \<Rightarrow> (string, string list) jmap \<Rightarrow> (string \<Rightarrow> int) \<Rightarrow> bool" where
  "counted_graph V deps m \<longleftrightarrow> finite V \<and>
     (\<forall>p. distinct (dependents_of deps p) \<and> set (dependents_of deps p) \<subseteq> V) \<and>
     (\<forall>p. dependents_of deps p \<noteq> [] \<longrightarrow> p \<in> V) \<and>
     (\<forall>v \<in> V. int (card (providers_of deps v)) \<le> m v)"

definition loop_inv ::
  "string set \<Rightarrow> (string, string list) jmap \<Rightarrow> (string \<Rightarrow> int) \<Rightarrow> string list \<Rightarrow>
     (string, int) jmap \<Rightarrow> string list \<Rightarrow> bool" where
  "loop_inv V deps m queue ind order \<longleftrightarrow>
     distinct (order @ queue) \<and> set (order @ queue) \<subseteq> V \<and>
     (\<forall>v \<in> V. degree_of ind v = m v - int (card (set order \<inter> providers_of deps v))) \<and>
     (\<forall>v \<in> V. v \<in> set (order @ queue) \<longleftrightarrow> degree_of ind v = 0) \<and>
     topological deps order"

lemma counted_graph_finite:
  assumes "counted_graph V deps m"
  shows "providers_of deps v \<subseteq> V" and "finite (providers_of deps v)"
proof -
  show sub: "providers_of deps v \<subseteq> V"
    using assms by (auto simp: counted_graph_def providers_of_def) (metis empty_iff empty_set)
  from assms have "finite V" by (simp add: counted_graph_def)
  with sub show "finite (providers_of deps v)" by (rule finite_subset)
qed

text \<open>An instance whose count has reached 0 has all its providers in the order.\<close>

lemma loop_inv_providers_done:
  assumes g: "counted_graph V deps m" and inv: "loop_inv V deps m queue ind order"
    and v: "v \<in> set (order @ queue)"
  shows "providers_of deps v \<subseteq> set order"
proof -
  from inv v have vV: "v \<in> V" and d0: "degree_of ind v = 0"
    unfolding loop_inv_def by blast+
  with inv have "m v = int (card (set order \<inter> providers_of deps v))"
    by (auto simp: loop_inv_def)
  with g vV have "card (providers_of deps v) \<le> card (set order \<inter> providers_of deps v)"
    by (auto simp: counted_graph_def)
  then have "set order \<inter> providers_of deps v = providers_of deps v"
    by (intro card_seteq counted_graph_finite(2) [OF g]) auto
  then show ?thesis by blast
qed

lemma loop_inv_step:
  assumes g: "counted_graph V deps m" and inv: "loop_inv V deps m (x # queue) ind order"
    and step: "relax (dependents_of deps x) ind queue = (ind', queue')"
  shows "loop_inv V deps m queue' ind' (order @ [x])"
proof -
  let ?D = "dependents_of deps x"
  from g have dD: "distinct ?D" and DV: "set ?D \<subseteq> V" by (auto simp: counted_graph_def)
  note deg = relax_result(1) [OF step dD] and ms = relax_result(2) [OF step dD]
  have sq: "set queue' = set queue \<union> {d \<in> set ?D. degree_of ind d = 1}"
    using arg_cong [OF ms, of set_mset] by auto
  from inv have dis: "distinct (order @ x # queue)" and sub: "set (order @ x # queue) \<subseteq> V"
    and degs: "\<And>v. v \<in> V \<Longrightarrow> degree_of ind v = m v - int (card (set order \<inter> providers_of deps v))"
    and zero: "\<And>v. v \<in> V \<Longrightarrow> v \<in> set (order @ x # queue) \<longleftrightarrow> degree_of ind v = 0"
    and topo: "topological deps order"
    unfolding loop_inv_def by blast+
  have prov_in: "v \<in> set (order @ x # queue) \<Longrightarrow> providers_of deps v \<subseteq> set order" for v
    by (rule loop_inv_providers_done [OF g inv])
  have new: "d \<notin> set (order @ x # queue)" if "d \<in> set ?D" for d
  proof
    assume "d \<in> set (order @ x # queue)"
    then have "providers_of deps d \<subseteq> set order" by (rule prov_in)
    moreover have "x \<in> providers_of deps d" using that by (simp add: providers_of_def)
    ultimately show False using dis by auto
  qed
  have "distinct queue'"
  proof -
    have "mset queue' = mset (queue @ filter (\<lambda>d. degree_of ind d = 1) ?D)" using ms by simp
    moreover have "distinct (queue @ filter (\<lambda>d. degree_of ind d = 1) ?D)"
      using dis dD new by auto
    ultimately show ?thesis by (metis mset_eq_imp_distinct_iff)
  qed
  with dis new have "distinct ((order @ [x]) @ queue')" by (auto simp: sq)
  moreover have "set ((order @ [x]) @ queue') \<subseteq> V" using sub DV by (auto simp: sq)
  moreover have "degree_of ind' v = m v - int (card (set (order @ [x]) \<inter> providers_of deps v))"
    if "v \<in> V" for v
    using deg [of v] degs [OF that] dis
    by (auto simp: providers_of_def card_insert_if)
  moreover have "v \<in> set ((order @ [x]) @ queue') \<longleftrightarrow> degree_of ind' v = 0" if "v \<in> V" for v
    using zero [OF that] new [of v] deg [of v] by (auto simp: sq)
  moreover have "topological deps (order @ [x])"
    using topo prov_in [of x] by (simp add: topological_snoc)
  ultimately show ?thesis unfolding loop_inv_def by blast
qed

lemma activation_loop_inv:
  assumes "counted_graph V deps m"
  shows "loop_inv V deps m queue ind order \<Longrightarrow>
    \<exists>ind'. loop_inv V deps m [] ind' (activation_loop deps queue ind order)"
  using assms
proof (induction deps queue ind order rule: activation_loop.induct)
  case (2 deps x queue ind order)
  obtain ind' queue' where step: "relax (dependents_of deps x) ind queue = (ind', queue')" by force
  with 2 show ?case using loop_inv_step [OF "2.prems"(2,1) step] by auto
qed auto

lemma loop_inv_done_count:
  assumes "loop_inv V deps m [] ind order" and "v \<in> set order"
  shows "m v = int (card (set order \<inter> providers_of deps v))"
proof -
  from assms have "v \<in> V" and "degree_of ind v = 0" by (auto simp: loop_inv_def)
  with assms(1) show ?thesis by (simp add: loop_inv_def)
qed

text \<open>Without a cycle, and with one count per provider, the loop reaches every instance.\<close>

lemma activation_loop_complete:
  assumes g: "counted_graph V deps m" and inv: "loop_inv V deps m [] ind order"
    and exact: "\<forall>v \<in> V. m v = int (card (providers_of deps v))"
    and acyc: "acyclic {(p, v). v \<in> set (dependents_of deps p)}"
  shows "set order = V"
proof (rule ccontr)
  let ?R = "{(p, v). v \<in> set (dependents_of deps p)}"
  assume "set order \<noteq> V"
  moreover have "set order \<subseteq> V" using inv by (auto simp: loop_inv_def)
  ultimately obtain v0 where v0: "v0 \<in> V - set order" by blast
  have "?R \<subseteq> V \<times> V"
    using g by (auto simp: counted_graph_def) (metis empty_iff empty_set)+
  with g have "finite ?R" by (metis counted_graph_def finite_SigmaI finite_subset)
  then have "wf ?R" using acyc by (rule finite_acyclic_wf)
  then obtain v where v: "v \<in> V - set order"
    and least: "\<And>p. (p, v) \<in> ?R \<Longrightarrow> p \<notin> V - set order"
    using v0 by (metis wfE_min)
  have "providers_of deps v \<subseteq> set order"
    using least counted_graph_finite(1) [OF g, of v] by (auto simp: providers_of_def)
  then have "set order \<inter> providers_of deps v = providers_of deps v" by blast
  with inv v exact have "degree_of ind v = 0" by (auto simp: loop_inv_def)
  with inv v show False by (auto simp: loop_inv_def)
qed

section \<open>The plan\<close>

lemma capability_edges_iff:
  "(p, j) \<in> set (capability_edges prov w i caps) \<longleftrightarrow>
     j = i \<and> (\<exists>cap \<in> set caps. jget prov cap = Some p \<and> p \<noteq> i \<and> \<not> jhas w p)"
  by (induction caps) (auto simp: capability_edges_def split: option.splits)

lemma graph_edges_iff:
  "(p, i) \<in> set (graph_edges prov w cs) \<longleftrightarrow>
     (\<exists>c \<in> set cs. c_instance_id c = i \<and> \<not> jhas w i \<and>
        (\<exists>cap \<in> set (m_requires (c_manifest c)) \<union> set (m_optional (c_manifest c)).
           jget prov cap = Some p \<and> p \<noteq> i \<and> \<not> jhas w p))"
  by (auto simp: graph_edges_def capability_edges_iff split: if_splits)

lemma plan_capability_graph_Inr:
  assumes "plan_capability_graph cs host = Inr P"
  obtains prov w ind deps where
    "distinct (map c_instance_id cs)"
    "capability_providers host cs = Inr prov" "w = waiting_loop host prov cs []"
    "add_edges (graph_edges prov w cs) (initial_degrees w cs, []) = (ind, deps)"
    "gp_activation_order P =
       activation_loop deps (sort (map fst (filter (\<lambda>(_, degree). degree = 0) ind))) ind []"
    "length (gp_activation_order P) = length ind"
    "gp_waiting P = w" "gp_providers P = prov"
    "gp_dependents P = map (\<lambda>(i, values). (i, sort values)) deps"
proof -
  from assms obtain byId where byId: "unique_candidates cs = Inr byId"
    by (auto simp: plan_capability_graph_def bindr_Inr_iff)
  note v = unique_candidates_Inr [OF byId]
  have dist: "distinct (map c_instance_id cs)" by (rule distinct_map_trim [OF v(2)])
  from assms byId v(1) obtain prov where prov: "capability_providers host cs = Inr prov"
    by (auto simp: plan_capability_graph_def bindr_Inr_iff)
  define w where "w = waiting_loop host prov cs []"
  obtain ind deps where edges: "edge_candidates prov w cs (initial_degrees w cs, []) = (ind, deps)"
    by force
  let ?ord = "activation_loop deps (sort (map fst (filter (\<lambda>(_, degree). degree = 0) ind))) ind []"
  from assms have P: "P = \<lparr>gp_activation_order = ?ord, gp_waiting = w, gp_providers = prov,
      gp_dependents = map (\<lambda>(i, values). (i, sort values)) deps\<rparr>" and len: "length ?ord = length ind"
    by (simp_all add: plan_capability_graph_def byId v(1) prov w_def [symmetric] edges Let_def
        split: if_splits)
  show ?thesis
    by (rule that [OF dist prov w_def edges [unfolded edge_candidates_add]])
      (simp_all add: P len)
qed

text \<open>The invariant of the queue loop holds when the loop starts.\<close>

lemma plan_loop_start:
  assumes dist: "distinct (map c_instance_id cs)"
    and prov: "capability_providers host cs = Inr prov" and w: "w = waiting_loop host prov cs []"
    and edges: "add_edges (graph_edges prov w cs) (initial_degrees w cs, []) = (ind, deps)"
  defines "V \<equiv> {c_instance_id c |c. c \<in> set cs \<and> \<not> jhas w (c_instance_id c)}"
  shows "jkeys ind = map c_instance_id (filter (\<lambda>c. \<not> jhas w (c_instance_id c)) cs)"
    and "set (dependents_of deps p) = {i. (p, i) \<in> set (graph_edges prov w cs)}"
    and "degree_of ind v = int (length (filter (\<lambda>e. snd e = v) (graph_edges prov w cs)))"
    and "counted_graph V deps (degree_of ind)"
    and "loop_inv V deps (degree_of ind) (sort (map fst (filter (\<lambda>(_, degree). degree = 0) ind))) ind []"
proof -
  let ?E = "graph_edges prov w cs"
  have init: "initial_degrees w cs = map (\<lambda>c. (c_instance_id c, 0)) (filter (\<lambda>c. \<not> jhas w (c_instance_id c)) cs)"
    by (rule initial_degrees_Inr [OF dist])
  have V: "set (jkeys (initial_degrees w cs)) = V"
    by (auto simp: init V_def)
  have E1: "i \<in> V \<and> p \<in> V" if "(p, i) \<in> set ?E" for p i
    using that by (auto simp: graph_edges_iff V_def capability_providers_Inr(1) [OF prov])
  have keys: "jkeys ind = jkeys (initial_degrees w cs)"
    by (rule add_edges_keys [OF edges]) (use E1 V in \<open>auto simp: jhas_def\<close>)
  then show k: "jkeys ind = map c_instance_id (filter (\<lambda>c. \<not> jhas w (c_instance_id c)) cs)"
    by (simp add: init comp_def)
  have deg0: "degree_of (initial_degrees w cs) v = 0" for v
    by (auto simp: degree_of_def init map_of_eq_None_iff split: option.splits dest!: map_of_SomeD)
  note res = add_edges_result [OF edges]
  show deg: "degree_of ind v = int (length (filter (\<lambda>e. snd e = v) ?E))" for v
    using res deg0 by simp
  show deps: "set (dependents_of deps p) = {i. (p, i) \<in> set ?E}" for p
    using res by (simp add: dependents_of_def)
  have dd: "distinct (dependents_of deps p)" for p
    using res by (simp add: dependents_of_def)
  have card: "card (providers_of deps v) \<le> length (filter (\<lambda>e. snd e = v) ?E)" for v
  proof -
    have "providers_of deps v = set (map fst (filter (\<lambda>e. snd e = v) ?E))"
      by (force simp: providers_of_def deps)
    then show ?thesis by (metis card_length length_map)
  qed
  have finV: "finite V" using V by (metis List.finite_set)
  have ne: "p \<in> V" if "dependents_of deps p \<noteq> []" for p
    using that E1 deps [of p] by (cases "dependents_of deps p") auto
  show g: "counted_graph V deps (degree_of ind)"
    unfolding counted_graph_def using finV dd deps E1 ne card deg by auto
  have dk: "distinct (jkeys ind)" using k dist by (simp add: distinct_map_filter)
  let ?q = "sort (map fst (filter (\<lambda>(_, degree). degree = 0) ind))"
  have q: "set ?q = {v \<in> V. degree_of ind v = 0}"
  proof -
    have "set ?q = {v. (v, 0) \<in> set ind}" by force
    also have "\<dots> = {v. jget ind v = Some 0}" using dk by simp
    also have "\<dots> = {v \<in> V. degree_of ind v = 0}"
    proof -
      have "v \<in> V \<longleftrightarrow> jhas ind v" for v using V keys by (simp add: jhas_def)
      then show ?thesis by (auto simp: degree_of_def jhas_get split: option.splits)
    qed
    finally show ?thesis .
  qed
  have "distinct ?q" using dk by (simp add: distinct_map_filter)
  with q show "loop_inv V deps (degree_of ind) ?q ind []"
    by (auto simp: loop_inv_def topological_def)
qed

text \<open>The order holds distinct instances, and it holds all of them when the plan is made.\<close>

lemma plan_order_inv:
  assumes dist: "distinct (map c_instance_id cs)"
    and prov: "capability_providers host cs = Inr prov" and w: "w = waiting_loop host prov cs []"
    and edges: "add_edges (graph_edges prov w cs) (initial_degrees w cs, []) = (ind, deps)"
    and order: "order = activation_loop deps (sort (map fst (filter (\<lambda>(_, degree). degree = 0) ind))) ind []"
  defines "V \<equiv> {c_instance_id c |c. c \<in> set cs \<and> \<not> jhas w (c_instance_id c)}"
  obtains ind' where "loop_inv V deps (degree_of ind) [] ind' order" and "card V = length ind" and "finite V"
proof -
  note start = plan_loop_start [OF dist prov w edges, folded V_def]
  obtain ind' where inv: "loop_inv V deps (degree_of ind) [] ind' order"
    unfolding order using activation_loop_inv [OF start(4,5)] by blast
  have "V = set (jkeys ind)" using start(1) by (auto simp: V_def)
  moreover have "distinct (jkeys ind)" using start(1) dist by (simp add: distinct_map_filter)
  ultimately have "card V = length ind" and "finite V"
    by (metis distinct_card length_map, metis List.finite_set)
  with inv that show ?thesis by blast
qed

lemma plan_order_set:
  assumes "loop_inv V deps m [] ind order" and "finite V"
  shows "length order = card V \<longleftrightarrow> set order = V" and "distinct order" and "topological deps order"
proof -
  from assms show d: "distinct order" and "topological deps order" by (simp_all add: loop_inv_def)
  from assms have "set order \<subseteq> V" by (simp add: loop_inv_def)
  with assms(2) have "card (set order) = card V \<longleftrightarrow> set order = V" by (metis card_subset_eq)
  with d show "length order = card V \<longleftrightarrow> set order = V" by (simp add: distinct_card)
qed

text \<open>The facts of an accepted plan the properties below share.\<close>

lemma plan_facts:
  assumes "plan_capability_graph cs host = Inr P"
  obtains prov w deps where
    "distinct (map c_instance_id cs)"
    "capability_providers host cs = Inr prov" "w = waiting_loop host prov cs []"
    "gp_waiting P = w" "gp_providers P = prov"
    "distinct (gp_activation_order P)" "topological deps (gp_activation_order P)"
    "set (gp_activation_order P) = {c_instance_id c |c. c \<in> set cs \<and> \<not> jhas w (c_instance_id c)}"
    "\<And>p. set (dependents_of deps p) = {i. (p, i) \<in> set (graph_edges prov w cs)}"
proof (rule plan_capability_graph_Inr [OF assms])
  fix prov w ind deps
  assume dist: "distinct (map c_instance_id cs)"
    and prov: "capability_providers host cs = Inr prov" and w: "w = waiting_loop host prov cs []"
    and edges: "add_edges (graph_edges prov w cs) (initial_degrees w cs, []) = (ind, deps)"
    and order: "gp_activation_order P =
       activation_loop deps (sort (map fst (filter (\<lambda>(_, degree). degree = 0) ind))) ind []"
    and len: "length (gp_activation_order P) = length ind"
    and P: "gp_waiting P = w" "gp_providers P = prov"
  let ?V = "{c_instance_id c |c. c \<in> set cs \<and> \<not> jhas w (c_instance_id c)}"
  obtain ind' where inv: "loop_inv ?V deps (degree_of ind) [] ind' (gp_activation_order P)"
    and card: "card ?V = length ind" and fin: "finite ?V"
    by (rule plan_order_inv [OF dist prov w edges order])
  note s = plan_order_set [OF inv fin]
  from that [OF dist prov w P s(2,3)] s(1) card len plan_loop_start(2) [OF dist prov w edges]
  show ?thesis by simp
qed

text \<open>C25: The activation order of an accepted plan lists, once each, exactly the candidates that
  do not wait, and it is topological: a candidate comes after every other candidate that
  is not waiting and provides a capability it requires or optionally uses.\<close>

theorem plan_order_topological:
  assumes "plan_capability_graph cs host = Inr P"
  shows "distinct (gp_activation_order P) \<and>
    set (gp_activation_order P) = {i \<in> c_instance_id ` set cs. \<not> jhas (gp_waiting P) i} \<and>
    (\<forall>n c cap p. n < length (gp_activation_order P) \<longrightarrow> c \<in> set cs \<longrightarrow>
       c_instance_id c = gp_activation_order P ! n \<longrightarrow>
       cap \<in> set (m_requires (c_manifest c)) \<union> set (m_optional (c_manifest c)) \<longrightarrow>
       jget (gp_providers P) cap = Some p \<longrightarrow> p \<noteq> c_instance_id c \<longrightarrow> \<not> jhas (gp_waiting P) p \<longrightarrow>
       p \<in> set (take n (gp_activation_order P)))"
proof (rule plan_facts [OF assms])
  fix prov w deps
  let ?o = "gp_activation_order P"
  assume P: "gp_waiting P = w" "gp_providers P = prov"
    and d: "distinct ?o" and topo: "topological deps ?o"
    and set: "set ?o = {c_instance_id c |c. c \<in> set cs \<and> \<not> jhas w (c_instance_id c)}"
    and deps: "\<And>p. set (dependents_of deps p) = {i. (p, i) \<in> set (graph_edges prov w cs)}"
  have "p \<in> set (take n ?o)" if "n < length ?o" "c \<in> set cs" "c_instance_id c = ?o ! n"
    and cap: "cap \<in> set (m_requires (c_manifest c)) \<union> set (m_optional (c_manifest c))"
      "jget prov cap = Some p" "p \<noteq> c_instance_id c" "\<not> jhas w p" for n c cap p
  proof -
    have "\<not> jhas w (c_instance_id c)" using set that(1,3) nth_mem by fastforce
    with that have "(p, c_instance_id c) \<in> set (graph_edges prov w cs)"
      by (auto simp: graph_edges_iff)
    with deps have "p \<in> providers_of deps (?o ! n)" using that(3) by (simp add: providers_of_def)
    with topo that(1) show ?thesis by (auto simp: topological_def)
  qed
  with P d set show ?thesis by auto
qed

text \<open>The waiting map of an accepted plan holds exactly the blocked candidates: those with a
  required capability that is not a host capability and that no candidate provides, or
  only candidates that are blocked themselves.\<close>

lemma plan_waiting_iff_blocked:
  assumes "plan_capability_graph cs host = Inr P"
  shows "jhas (gp_waiting P) i \<longleftrightarrow> blocked cs host i"
proof (rule plan_facts [OF assms])
  fix prov w
  assume prov: "capability_providers host cs = Inr prov" and "w = waiting_loop host prov cs []"
    and "gp_waiting P = w"
  then show ?thesis
    using waiting_loop_sound [OF prov, of i] waiting_loop_complete [OF prov, of i] by auto
qed

text \<open>When a candidate's turn in the order comes, each capability it requires is a host
  capability, its own, or provided by a candidate activated before it.\<close>

lemma plan_requires_available:
  assumes "plan_capability_graph cs host = Inr P"
    and "n < length (gp_activation_order P)" and "c \<in> set cs"
    and "c_instance_id c = gp_activation_order P ! n"
    and "cap \<in> set (m_requires (c_manifest c))"
  shows "cap \<in> set host \<or>
    (\<exists>d \<in> set cs. cap \<in> set (m_provides (c_manifest d)) \<and>
       (c_instance_id d = c_instance_id c \<or> c_instance_id d \<in> set (take n (gp_activation_order P))))"
proof (rule plan_facts [OF assms(1)], rule disjCI)
  fix prov w deps
  let ?o = "gp_activation_order P"
  assume prov: "capability_providers host cs = Inr prov" and w: "w = waiting_loop host prov cs []"
    and topo: "topological deps ?o"
    and set: "set ?o = {c_instance_id c |c. c \<in> set cs \<and> \<not> jhas w (c_instance_id c)}"
    and deps: "\<And>p. set (dependents_of deps p) = {i. (p, i) \<in> set (graph_edges prov w cs)}"
  have i: "\<not> jhas w (c_instance_id c)" using set assms(2,4) nth_mem by fastforce
  have no: "missing_requires host prov w c = []"
    using waiting_pass_fixpoint [OF waiting_loop_stable assms(3)] i w by blast
  assume "\<not> (\<exists>d \<in> set cs. cap \<in> set (m_provides (c_manifest d)) \<and>
       (c_instance_id d = c_instance_id c \<or> c_instance_id d \<in> set (take n ?o)))"
  then have none: "d \<in> set cs \<Longrightarrow> cap \<in> set (m_provides (c_manifest d)) \<Longrightarrow>
      c_instance_id d \<noteq> c_instance_id c \<and> c_instance_id d \<notin> set (take n ?o)" for d by blast
  show "cap \<in> set host"
  proof (rule ccontr)
    assume "cap \<notin> set host"
    with no assms(5) obtain p where p: "jget prov cap = Some p" "\<not> jhas w p"
      using missing_requires_ne [of host prov w c] by (auto split: option.splits)
    then obtain d where d: "d \<in> set cs" "c_instance_id d = p" "cap \<in> set (m_provides (c_manifest d))"
      by (auto simp: capability_providers_Inr(1) [OF prov])
    with none have ne: "p \<noteq> c_instance_id c" "p \<notin> set (take n ?o)" by auto
    with p i assms(3,5) have "(p, c_instance_id c) \<in> set (graph_edges prov w cs)"
      by (auto simp: graph_edges_iff)
    with deps assms(4) have "p \<in> providers_of deps (?o ! n)" by (simp add: providers_of_def)
    with topo assms(2) ne show False by (auto simp: topological_def)
  qed
qed

subsection \<open>When a plan exists\<close>

lemma topological_acyclic:
  assumes topo: "topological deps order" and d: "distinct order"
    and all: "\<And>p v. v \<in> set (dependents_of deps p) \<Longrightarrow> v \<in> set order"
  shows "acyclic {(p, v). v \<in> set (dependents_of deps p)}"
proof (rule acyclicI_order [where f = "\<lambda>v. - int (THE n. n < length order \<and> order ! n = v)"])
  fix p v assume "(p, v) \<in> {(p, v). v \<in> set (dependents_of deps p)}"
  then have v: "v \<in> set (dependents_of deps p)" by simp
  have pos: "(THE n. n < length order \<and> order ! n = order ! k) = k" if "k < length order" for k
    using that d by (auto simp: nth_eq_iff_index_eq)
  from all [OF v] obtain n where n: "n < length order" "order ! n = v" by (auto simp: in_set_conv_nth)
  with topo v have "p \<in> set (take n order)" by (auto simp: topological_def providers_of_def)
  then obtain k where k: "k < n" "order ! k = p" using n(1) by (auto simp: in_set_conv_nth)
  with n pos [of n] pos [of k]
  show "- int (THE n. n < length order \<and> order ! n = v) < - int (THE n. n < length order \<and> order ! n = p)"
    by simp
qed

lemma filter_snd_distinct_card:
  "int (card (fst ` {e \<in> set es. snd e = v})) = int (length (filter (\<lambda>e. snd e = v) es)) \<longleftrightarrow>
     distinct (filter (\<lambda>e. snd e = v) es)"
proof -
  have "inj_on fst {e \<in> set es. snd e = v}" by (auto simp: inj_on_def)
  then have "card (fst ` {e \<in> set es. snd e = v}) = card (set (filter (\<lambda>e. snd e = v) es))"
    by (simp add: card_image)
  then show ?thesis
    using card_distinct [of "filter (\<lambda>e. snd e = v) es"] distinct_card [of "filter (\<lambda>e. snd e = v) es"]
    by auto
qed

lemma distinct_by_snd: "distinct es \<longleftrightarrow> (\<forall>v. distinct (filter (\<lambda>e. snd e = v) es))"
proof
  assume "\<forall>v. distinct (filter (\<lambda>e. snd e = v) es)"
  then show "distinct es"
  proof (induction es)
    case (Cons e es)
    have "distinct (filter (\<lambda>e. snd e = v) es)" for v
      using Cons.prems [rule_format, of v] by (simp split: if_splits)
    moreover have "e \<notin> set es" using Cons.prems [rule_format, of "snd e"] by simp
    ultimately show ?case using Cons.IH by simp
  qed simp
qed simp

lemma plan_capability_graph_result:
  assumes u: "unique_candidates cs = Inr byId" and prov: "capability_providers host cs = Inr prov"
    and w: "w = waiting_loop host prov cs []"
    and edges: "add_edges (graph_edges prov w cs) (initial_degrees w cs, []) = (ind, deps)"
    and order: "order = activation_loop deps (sort (map fst (filter (\<lambda>(_, degree). degree = 0) ind))) ind []"
  shows "(\<exists>P. plan_capability_graph cs host = Inr P) \<longleftrightarrow> length order = length ind"
  using edges
  by (simp add: plan_capability_graph_def u unique_candidates_Inr(1) [OF u] prov w Let_def order
      edge_candidates_add [symmetric])

text \<open>Once instance ids and providers are accepted, a plan exists exactly when the dependency
  edges between the candidates that do not wait have no cycle and no repetition. An edge
  is repeated when a candidate uses two capabilities of the same other candidate: such a
  candidate set has no plan even without a cycle, and the error it gets is that of a cycle.\<close>

lemma plan_exists_iff:
  assumes u: "unique_candidates cs = Inr byId" and prov: "capability_providers host cs = Inr prov"
  shows "(\<exists>P. plan_capability_graph cs host = Inr P) \<longleftrightarrow>
    acyclic (set (graph_edges prov (waiting_loop host prov cs []) cs)) \<and>
    distinct (graph_edges prov (waiting_loop host prov cs []) cs)"
proof -
  define w where "w = waiting_loop host prov cs []"
  let ?E = "graph_edges prov w cs"
  obtain ind deps where edges: "add_edges ?E (initial_degrees w cs, []) = (ind, deps)" by force
  define order where
    "order = activation_loop deps (sort (map fst (filter (\<lambda>(_, degree). degree = 0) ind))) ind []"
  have dist: "distinct (map c_instance_id cs)"
    by (rule distinct_map_trim [OF unique_candidates_Inr(2) [OF u]])
  note start = plan_loop_start [OF dist prov w_def edges]
  let ?V = "{c_instance_id c |c. c \<in> set cs \<and> \<not> jhas w (c_instance_id c)}"
  obtain ind' where inv: "loop_inv ?V deps (degree_of ind) [] ind' order"
    and V: "card ?V = length ind" "finite ?V"
    by (rule plan_order_inv [OF dist prov w_def edges order_def])
  note os = plan_order_set [OF inv V(2)]
  have R: "{(p, v). v \<in> set (dependents_of deps p)} = set ?E" using start(2) by auto
  have provs: "providers_of deps v = fst ` {e \<in> set ?E. snd e = v}" for v
    using start(2) by (force simp: providers_of_def)
  have "(\<exists>P. plan_capability_graph cs host = Inr P) \<longleftrightarrow> set order = ?V"
    using plan_capability_graph_result [OF u prov w_def edges order_def] V(1) os(1) by simp
  also have "\<dots> \<longleftrightarrow> acyclic (set ?E) \<and> distinct ?E"
  proof
    assume all: "set order = ?V"
    have "distinct (filter (\<lambda>e. snd e = v) ?E)" for v
    proof (cases "v \<in> ?V")
      case True
      with all have "v \<in> set order" by (simp only:)
      with inv have "degree_of ind v = int (card (set order \<inter> providers_of deps v))"
        by (rule loop_inv_done_count)
      moreover have "set order \<inter> providers_of deps v = providers_of deps v"
        using all counted_graph_finite(1) [OF start(4), of v] by auto
      ultimately show ?thesis using start(3) [of v] provs [of v] filter_snd_distinct_card [of ?E v] by simp
    next
      case False
      then have "filter (\<lambda>e. snd e = v) ?E = []"
        by (auto simp: filter_empty_conv graph_edges_iff)
      then show ?thesis by simp
    qed
    then have "distinct ?E" using distinct_by_snd by blast
    moreover have "acyclic {(p, v). v \<in> set (dependents_of deps p)}"
      by (rule topological_acyclic [OF os(3,2)]) (use start(2) all in \<open>auto simp: graph_edges_iff\<close>)
    ultimately show "acyclic (set ?E) \<and> distinct ?E" by (simp add: R)
  next
    assume E: "acyclic (set ?E) \<and> distinct ?E"
    have "degree_of ind v = int (card (providers_of deps v))" for v
      using E start(3) [of v] provs [of v] filter_snd_distinct_card [of ?E v] by simp
    then show "set order = ?V"
      by (intro activation_loop_complete [OF start(4) inv]) (use E R in auto)
  qed
  finally show ?thesis by (simp add: w_def)
qed

subsection \<open>What the selection keeps\<close>

text \<open>The specification of the selection: the providers of the ready capabilities, and of
  whatever a needed candidate requires.\<close>

inductive needed :: "(string, string) jmap \<Rightarrow> candidate list \<Rightarrow> string list \<Rightarrow> string set \<Rightarrow> string \<Rightarrow> bool"
  for prov cs host ready where
  needed_ready: "cap \<in> ready \<Longrightarrow> cap \<notin> set host \<Longrightarrow> jget prov cap = Some p \<Longrightarrow> needed prov cs host ready p"
| needed_required: "needed prov cs host ready p \<Longrightarrow> c \<in> set cs \<Longrightarrow> js_trim (c_instance_id c) = p \<Longrightarrow>
     cap \<in> set (m_requires (c_manifest c)) \<Longrightarrow> cap \<notin> set host \<Longrightarrow> jget prov cap = Some q \<Longrightarrow>
     needed prov cs host ready q"

lemma select_loop_sound:
  assumes "\<And>p c cap q. I p \<Longrightarrow> jget byId p = Some c \<Longrightarrow> cap \<in> set (m_requires (c_manifest c)) \<Longrightarrow>
      cap \<notin> set host \<Longrightarrow> jget prov cap = Some q \<Longrightarrow> I q"
  shows "\<forall>p \<in> set selected. I p \<Longrightarrow>
      \<forall>cap \<in> set pending. \<forall>p. cap \<notin> set host \<longrightarrow> jget prov cap = Some p \<longrightarrow> I p \<Longrightarrow>
      \<forall>p \<in> set (select_loop prov byId host pending selected). I p"
  using assms
proof (induction prov byId host pending selected rule: select_loop.induct)
  case (2 prov byId host cap pending selected)
  show ?case
  proof (cases "\<exists>p. cap \<notin> set host \<and> jget prov cap = Some p \<and> p \<notin> set selected")
    case True
    then obtain p where p: "cap \<notin> set host" "jget prov cap = Some p" "p \<notin> set selected" by blast
    with "2.prems"(2) have Ip: "I p" by simp
    let ?pending = "(case jget byId p of None \<Rightarrow> [] | Some c \<Rightarrow> rev (m_requires (c_manifest c))) @ pending"
    have "\<forall>p \<in> set (select_loop prov byId host ?pending (selected @ [p])). I p"
    proof (rule "2.IH"(4) [OF p])
      show "\<forall>p \<in> set (selected @ [p]). I p" using "2.prems"(1) Ip by simp
      show "\<forall>cap \<in> set ?pending. \<forall>p. cap \<notin> set host \<longrightarrow> jget prov cap = Some p \<longrightarrow> I p"
        using "2.prems"(2) "2.prems"(3) [OF Ip] by (cases "jget byId p") auto
    qed (rule "2.prems"(3))
    with p show ?thesis by simp
  next
    case False
    then have eq: "select_loop prov byId host (cap # pending) selected = select_loop prov byId host pending selected"
      by (auto split: option.splits)
    from False consider "cap \<in> set host" | "cap \<notin> set host" "jget prov cap = None"
      | p where "cap \<notin> set host" "jget prov cap = Some p" "p \<in> set selected" by (cases "jget prov cap") auto
    then have "\<forall>p \<in> set (select_loop prov byId host pending selected). I p"
      by cases ((rule "2.IH"(1) "2.IH"(2) "2.IH"(3), assumption+); use "2.prems" in \<open>auto; fail\<close>)+
    with eq show ?thesis by simp
  qed
qed simp

definition select_closed ::
  "(string, string) jmap \<Rightarrow> (string, candidate) jmap \<Rightarrow> string list \<Rightarrow> string list \<Rightarrow> string list \<Rightarrow> bool" where
  "select_closed prov byId host pending selected \<longleftrightarrow>
     (\<forall>p c cap q. p \<in> set selected \<longrightarrow> jget byId p = Some c \<longrightarrow> cap \<in> set (m_requires (c_manifest c)) \<longrightarrow>
        cap \<notin> set host \<longrightarrow> jget prov cap = Some q \<longrightarrow> q \<in> set selected \<or> cap \<in> set pending)"

lemma select_loop_complete:
  "select_closed prov byId host pending selected \<Longrightarrow>
     select_closed prov byId host [] (select_loop prov byId host pending selected) \<and>
     set selected \<subseteq> set (select_loop prov byId host pending selected) \<and>
     (\<forall>cap \<in> set pending. \<forall>p. cap \<notin> set host \<longrightarrow> jget prov cap = Some p \<longrightarrow>
        p \<in> set (select_loop prov byId host pending selected))"
proof (induction prov byId host pending selected rule: select_loop.induct)
  case (2 prov byId host cap pending selected)
  show ?case
  proof (cases "\<exists>p. cap \<notin> set host \<and> jget prov cap = Some p \<and> p \<notin> set selected")
    case True
    then obtain p where p: "cap \<notin> set host" "jget prov cap = Some p" "p \<notin> set selected" by blast
    let ?pending = "(case jget byId p of None \<Rightarrow> [] | Some c \<Rightarrow> rev (m_requires (c_manifest c))) @ pending"
    have "select_closed prov byId host ?pending (selected @ [p])"
      using "2.prems" p
      by (cases "jget byId p") (auto simp: select_closed_def, (metis option.inject)+)
    from "2.IH"(4) [OF p this] p show ?thesis by auto
  next
    case False
    then have eq: "select_loop prov byId host (cap # pending) selected = select_loop prov byId host pending selected"
      by (auto split: option.splits)
    have closed: "select_closed prov byId host pending selected"
      using "2.prems" False unfolding select_closed_def by (metis set_ConsD)
    from False consider "cap \<in> set host" | "cap \<notin> set host" "jget prov cap = None"
      | p where "cap \<notin> set host" "jget prov cap = Some p" "p \<in> set selected" by (cases "jget prov cap") auto
    then show ?thesis
    proof cases
      case 1
      from "2.IH"(1) [OF 1 closed] 1 eq show ?thesis by auto
    next
      case 2
      from "2.IH"(2) [OF 2 closed] 2 eq show ?thesis by auto
    next
      case 3
      from "2.IH"(3) [OF 3 closed] 3 eq show ?thesis by auto
    qed
  qed
qed simp

lemma foldl_jset_distinct:
  "distinct (jkeys m @ map f cs) \<Longrightarrow> foldl (\<lambda>m c. jset (f c) c m) m cs = m @ map (\<lambda>c. (f c, c)) cs"
  by (induction cs arbitrary: m) (auto simp: jset_fresh jhas_def)

definition trimmed :: "string list \<Rightarrow> string list" where
  "trimmed xs = filter (\<lambda>s. s \<noteq> []) (map js_trim xs)"

text \<open>The selection is the least closed set: it keeps, in their order, exactly the
  candidates that provide a ready capability or, transitively, a capability that a kept
  candidate requires and the host does not have.\<close>

lemma select_ready_least:
  assumes "select_ready_plugin_candidates cs ready host = Inr out"
  shows "\<exists>P. plan_capability_graph cs (trimmed host) = Inr P \<and>
    out = filter (\<lambda>c. needed (gp_providers P) cs (trimmed host) (set (trimmed ready)) (js_trim (c_instance_id c))) cs"
proof -
  let ?byId = "foldl (\<lambda>m c. jset (js_trim (c_instance_id c)) c m) [] cs"
  from assms obtain P where P: "plan_capability_graph cs (trimmed host) = Inr P"
    and out: "out = filter (\<lambda>c. js_trim (c_instance_id c) \<in>
      set (select_loop (gp_providers P) ?byId (trimmed host) (rev (trimmed ready)) [])) cs"
    by (auto simp: select_ready_plugin_candidates_def trimmed_def bindr_Inr_iff Let_def)
  let ?prov = "gp_providers P" and ?host = "trimmed host"
  let ?sel = "select_loop ?prov ?byId ?host (rev (trimmed ready)) []"
  let ?need = "needed ?prov cs ?host (set (trimmed ready))"
  from P obtain byId where "unique_candidates cs = Inr byId"
    by (auto simp: plan_capability_graph_def bindr_Inr_iff)
  then have d: "distinct (map (\<lambda>c. js_trim (c_instance_id c)) cs)" by (rule unique_candidates_Inr(2))
  have byId: "jget ?byId p = Some c \<longleftrightarrow> c \<in> set cs \<and> js_trim (c_instance_id c) = p" for p c
    using d foldl_jset_distinct [of "[]" "\<lambda>c. js_trim (c_instance_id c)" cs]
    by (auto simp: comp_def)
  have "\<forall>p \<in> set ?sel. ?need p"
    by (rule select_loop_sound) (auto simp: byId intro: needed.intros)
  moreover have "p \<in> set ?sel" if "?need p" for p
  proof -
    have "select_closed ?prov ?byId ?host (rev (trimmed ready)) []" by (simp add: select_closed_def)
    note c = select_loop_complete [OF this]
    from that show ?thesis
    proof induction
      case (needed_required p c cap q)
      then have "jget ?byId p = Some c" by (simp add: byId)
      with c needed_required show ?case by (auto simp: select_closed_def)
    qed (use c in auto)
  qed
  ultimately have "?need p \<longleftrightarrow> p \<in> set ?sel" for p by blast
  with P out show ?thesis by auto
qed

section \<open>Examples\<close>

definition sample_candidate :: "string \<Rightarrow> string list \<Rightarrow> string list \<Rightarrow> string list \<Rightarrow> candidate" where
  "sample_candidate i req opt prov =
     \<lparr>c_instance_id = i, c_revision = ''r1'',
      c_manifest = \<lparr>m_id = ''plugin'', m_version = ''1'',
        m_entries = [(Manager_host, Executable_entry In_process ''m.js'')],
        m_provides = prov, m_requires = req, m_optional = opt, m_permissions = [],
        m_config_schema = None, m_state_schema_version = None\<rparr>,
      c_config = JNull, c_entry_execution = In_process, c_entry_path = ''m.js'', c_policy = None\<rparr>"

definition sample_candidates :: "candidate list" where
  "sample_candidates =
     [sample_candidate ''b'' [''x'', ''h''] [] [''y''], sample_candidate ''a'' [] [''z''] [''x''],
      sample_candidate ''c'' [''q''] [] [''z'']]"

definition sample_plan :: graph_plan where
  "sample_plan = \<lparr>gp_activation_order = [''a'', ''b''], gp_waiting = [(''c'', [''q''])],
     gp_providers = [(''y'', ''b''), (''x'', ''a''), (''z'', ''c'')], gp_dependents = [(''a'', [''b''])]\<rparr>"

lemma sample_plan_eq: "plan_capability_graph sample_candidates [''h''] = Inr sample_plan"
  by code_simp

theorem plan_order_topological_witness:
  "distinct (gp_activation_order sample_plan) \<and>
   set (gp_activation_order sample_plan) =
     {i \<in> c_instance_id ` set sample_candidates. \<not> jhas (gp_waiting sample_plan) i}"
  using plan_order_topological [OF sample_plan_eq] by blast

theorem plan_waiting_iff_blocked_witness:
  "jhas (gp_waiting sample_plan) ''c'' \<and> blocked sample_candidates [''h''] ''c''"
proof -
  have "jhas (gp_waiting sample_plan) ''c''" by (simp add: sample_plan_def jhas_def)
  with plan_waiting_iff_blocked [OF sample_plan_eq, of "''c''"] show ?thesis by blast
qed

theorem plan_requires_available_witness:
  "''x'' \<in> set [''h''] \<or>
   (\<exists>d \<in> set sample_candidates. ''x'' \<in> set (m_provides (c_manifest d)) \<and>
      (c_instance_id d = ''b'' \<or> c_instance_id d \<in> set (take 1 (gp_activation_order sample_plan))))"
  using plan_requires_available [OF sample_plan_eq,
      of 1 "sample_candidate ''b'' [''x'', ''h''] [] [''y'']" "''x''"]
  by (simp add: sample_plan_def sample_candidates_def sample_candidate_def)

text \<open>Two capabilities of one provider: no cycle, no plan.\<close>

definition double_candidates :: "candidate list" where
  "double_candidates =
     [sample_candidate ''a'' [] [] [''x'', ''y''], sample_candidate ''b'' [''x'', ''y''] [] []]"

theorem plan_exists_iff_witness:
  "graph_edges [(''x'', ''a''), (''y'', ''a'')] [] double_candidates = [(''a'', ''b''), (''a'', ''b'')] \<and>
   \<not> (\<exists>P. plan_capability_graph double_candidates [] = Inr P)"
proof -
  have u: "unique_candidates double_candidates =
      Inr (map (\<lambda>c. (c_instance_id c, c)) double_candidates)" by code_simp
  have p: "capability_providers [] double_candidates = Inr [(''x'', ''a''), (''y'', ''a'')]" by code_simp
  have w: "waiting_loop [] [(''x'', ''a''), (''y'', ''a'')] double_candidates [] = []" by code_simp
  have e: "graph_edges [(''x'', ''a''), (''y'', ''a'')] [] double_candidates = [(''a'', ''b''), (''a'', ''b'')]"
    by code_simp
  show ?thesis using plan_exists_iff [OF u p] by (simp add: w e)
qed

lemma double_candidates_error:
  "plan_capability_graph double_candidates [] = Inl (Dependency_cycle [''b''])"
  by code_simp

theorem select_ready_least_witness:
  "\<exists>P. plan_capability_graph sample_candidates (trimmed [''h'']) = Inr P \<and>
    [sample_candidate ''b'' [''x'', ''h''] [] [''y''], sample_candidate ''a'' [] [''z''] [''x'']] =
    filter (\<lambda>c. needed (gp_providers P) sample_candidates (trimmed [''h'']) (set (trimmed [''y'']))
      (js_trim (c_instance_id c))) sample_candidates"
proof (rule select_ready_least)
  show "select_ready_plugin_candidates sample_candidates [''y''] [''h''] =
    Inr [sample_candidate ''b'' [''x'', ''h''] [] [''y''], sample_candidate ''a'' [] [''z''] [''x'']]"
    by code_simp
qed

end
