(* ===== verification/EffectScope.thy ===== *)
theory EffectScope
  imports KernelTypes
begin

text \<open>
  \<open>src/plugin-kernel/effectScope.ts\<close>: the resources of one plugin activation. A starter and a
  disposer are plugin code, so each is represented by the way it settles; the log records
  which of them were called, and in which order. A starter that never settles makes
  \<open>commit\<close> never return (\<open>None\<close>); a disposer that never settles is bounded by the timeout.
\<close>

section \<open>EffectScope\<close>

datatype dispose_outcome = Dispose_done | Dispose_throws kernel_error | Dispose_hangs

record active_effect =
  ae_disposer :: js_ref
  ae_outcome :: dispose_outcome
  ae_label :: string

datatype start_outcome =
    Start_disposer js_ref dispose_outcome
  | Start_other
  | Start_throws kernel_error
  | Start_hangs

record pending_effect =
  pe_start :: start_outcome
  pe_label :: string

datatype scope_event = Started string | Aborted | Disposer_called js_ref

record effect_scope =
  es_pending :: "pending_effect list"
  es_active :: "active_effect list"
  es_committed :: bool
  es_disposed :: bool
  es_timeout :: "int option"
  es_log :: "scope_event list"

definition new_scope :: "int option \<Rightarrow> effect_scope" where
  "new_scope t = \<lparr>es_pending = [], es_active = [], es_committed = False, es_disposed = False,
     es_timeout = t, es_log = []\<rparr>"

definition scope_add ::
  "start_outcome \<Rightarrow> string \<Rightarrow> effect_scope \<Rightarrow> (kernel_error, effect_scope) res" where
  "scope_add st label s =
     (if es_committed s \<or> es_disposed s then Inl Scope_closed
      else Inr (s\<lparr>es_pending := es_pending s @ [\<lparr>pe_start = st, pe_label = label\<rparr>]\<rparr>))"

text \<open>\<open>None\<close> is an argument that is not a function.\<close>

definition scope_adopt ::
  "(js_ref \<times> dispose_outcome) option \<Rightarrow> string \<Rightarrow> effect_scope \<Rightarrow> (kernel_error, effect_scope) res" where
  "scope_adopt d label s =
     (case d of
        None \<Rightarrow> Inl Scope_closed
      | Some (f, oc) \<Rightarrow>
          if es_disposed s then Inl Scope_closed
          else Inr (s\<lparr>es_active := es_active s @ [\<lparr>ae_disposer = f, ae_outcome = oc, ae_label = label\<rparr>]\<rparr>))"

definition disposal_timeout :: "effect_scope \<Rightarrow> int" where
  "disposal_timeout s = max 1 (case es_timeout s of None \<Rightarrow> 5000 | Some t \<Rightarrow> t)"

text \<open>The loop over the reversed effects; it keeps the first error.\<close>

fun dispose_effects ::
  "int \<Rightarrow> active_effect list \<Rightarrow> kernel_error option \<Rightarrow> scope_event list \<Rightarrow>
     kernel_error option \<times> scope_event list" where
  "dispose_effects t [] err log = (err, log)"
| "dispose_effects t (e # es) err log =
     (let failed = (case ae_outcome e of
          Dispose_done \<Rightarrow> None
        | Dispose_throws x \<Rightarrow> Some x
        | Dispose_hangs \<Rightarrow> Some (Disposal_timeout (ae_label e) t))
      in dispose_effects t es (case err of None \<Rightarrow> failed | Some x \<Rightarrow> Some x)
           (log @ [Disposer_called (ae_disposer e)]))"

definition scope_dispose :: "effect_scope \<Rightarrow> (kernel_error, unit) res \<times> effect_scope" where
  "scope_dispose s =
     (if es_disposed s then (Inr (), s)
      else case dispose_effects (disposal_timeout s) (rev (es_active s)) None (es_log s @ [Aborted]) of
        (err, log) \<Rightarrow>
          ((case err of None \<Rightarrow> Inr () | Some e \<Rightarrow> Inl e),
           s\<lparr>es_disposed := True, es_active := [], es_pending := [], es_log := log\<rparr>))"

text \<open>The loop of \<open>commit\<close> over the pending effects: \<open>Inl\<close> on the first failure.\<close>

fun commit_effects ::
  "pending_effect list \<Rightarrow> effect_scope \<Rightarrow> ((kernel_error, unit) res \<times> effect_scope) option" where
  "commit_effects [] s = Some (Inr (), s)"
| "commit_effects (e # es) s =
     (let s' = s\<lparr>es_log := es_log s @ [Started (pe_label e)]\<rparr> in
      case pe_start e of
        Start_hangs \<Rightarrow> None
      | Start_throws x \<Rightarrow> Some (Inl x, s')
      | Start_other \<Rightarrow> Some (Inl (No_disposer (pe_label e)), s')
      | Start_disposer f oc \<Rightarrow>
          commit_effects es (s'\<lparr>es_active := es_active s' @
            [\<lparr>ae_disposer = f, ae_outcome = oc, ae_label = pe_label e\<rparr>]\<rparr>))"

definition scope_commit ::
  "effect_scope \<Rightarrow> ((kernel_error, unit) res \<times> effect_scope) option" where
  "scope_commit s =
     (if es_disposed s then Some (Inl Scope_disposed, s)
      else if es_committed s then Some (Inr (), s)
      else case commit_effects (es_pending s) s of
        None \<Rightarrow> None
      | Some (Inr _, s') \<Rightarrow> Some (Inr (), s'\<lparr>es_committed := True\<rparr>)
      | Some (Inl e, s') \<Rightarrow> Some (Inl e, snd (scope_dispose s')))"

section \<open>Disposal and commit\<close>

text \<open>The disposers a scope has called, in order, and those it still owes.\<close>

definition called :: "scope_event list \<Rightarrow> js_ref list" where
  "called log = concat (map (\<lambda>e. case e of Disposer_called f \<Rightarrow> [f] | _ \<Rightarrow> []) log)"

definition owed :: "effect_scope \<Rightarrow> js_ref list" where
  "owed s = map ae_disposer (es_active s)"

lemma called_simps [simp]:
  "called [] = []" "called (Disposer_called f # l) = f # called l" "called (Started x # l) = called l"
  "called (Aborted # l) = called l" "called (l @ l') = called l @ called l'"
  by (simp_all add: called_def)

lemma called_disposers [simp]: "called (map (\<lambda>e. Disposer_called (ae_disposer e)) es) = map ae_disposer es"
  by (induction es) simp_all

lemma dispose_effects_log:
  "dispose_effects t es err log = (err', log') \<Longrightarrow>
     log' = log @ map (\<lambda>e. Disposer_called (ae_disposer e)) es"
proof (induction es arbitrary: err log)
  case (Cons e es)
  from Cons.prems obtain x where
    "dispose_effects t es x (log @ [Disposer_called (ae_disposer e)]) = (err', log')"
    by (auto simp: Let_def)
  from Cons.IH [OF this] show ?case by simp
qed simp

lemma dispose_effects_keeps_error:
  "dispose_effects t es (Some e) log = (err', log') \<Longrightarrow> err' = Some e"
  by (induction es arbitrary: log) (auto simp: Let_def)

definition effect_error :: "int \<Rightarrow> active_effect \<Rightarrow> kernel_error option" where
  "effect_error t e = (case ae_outcome e of Dispose_done \<Rightarrow> None | Dispose_throws x \<Rightarrow> Some x
     | Dispose_hangs \<Rightarrow> Some (Disposal_timeout (ae_label e) t))"

lemma dispose_effects_error:
  "fst (dispose_effects t es None log) =
     (case List.map_filter (effect_error t) es of [] \<Rightarrow> None | e # _ \<Rightarrow> Some e)"
proof (induction es arbitrary: log)
  case (Cons e es)
  show ?case
  proof (cases "effect_error t e")
    case None
    with Cons show ?thesis
      by (auto simp: effect_error_def Let_def List.map_filter_simps split: dispose_outcome.splits)
  next
    case (Some x)
    have "fst (dispose_effects t es (Some x) l) = Some x" for l
      using dispose_effects_keeps_error by (metis prod.collapse)
    with Some show ?thesis
      by (auto simp: effect_error_def Let_def List.map_filter_simps split: dispose_outcome.splits)
  qed
qed (simp add: List.map_filter_simps)

lemma scope_dispose_disposed [simp]: "es_disposed (snd (scope_dispose s))"
  by (simp add: scope_dispose_def split: prod.split)

lemma scope_dispose_again [simp]: "es_disposed s \<Longrightarrow> scope_dispose s = (Inr (), s)"
  by (simp add: scope_dispose_def)

lemma commit_effects_called:
  "commit_effects es s = Some (r, s') \<Longrightarrow> called (es_log s') = called (es_log s) \<and>
     (\<exists>new. owed s' = owed s @ new) \<and> es_disposed s' = es_disposed s \<and> es_committed s' = es_committed s \<and>
     es_timeout s' = es_timeout s"
  by (induction es s rule: commit_effects.induct)
    (fastforce simp: Let_def owed_def split: start_outcome.splits)+

lemma scope_dispose_result:
  assumes "\<not> es_disposed s" and "scope_dispose s = (r, s')"
  shows "called (es_log s') = called (es_log s) @ rev (owed s) \<and> owed s' = [] \<and> es_pending s' = [] \<and>
    es_disposed s' \<and> scope_dispose s' = (Inr (), s') \<and>
    r = (case List.map_filter (effect_error (disposal_timeout s)) (rev (es_active s)) of
           [] \<Rightarrow> Inr () | e # _ \<Rightarrow> Inl e)"
proof -
  obtain err log where d: "dispose_effects (disposal_timeout s) (rev (es_active s)) None
      (es_log s @ [Aborted]) = (err, log)" by force
  from assms d have r: "r = (case err of None \<Rightarrow> Inr () | Some e \<Rightarrow> Inl e)"
    and s': "s' = s\<lparr>es_disposed := True, es_active := [], es_pending := [], es_log := log\<rparr>"
    by (auto simp: scope_dispose_def)
  have "called log = called (es_log s) @ rev (owed s)"
    using dispose_effects_log [OF d] by (simp add: owed_def rev_map)
  moreover have "err = (case List.map_filter (effect_error (disposal_timeout s)) (rev (es_active s)) of
      [] \<Rightarrow> None | e # _ \<Rightarrow> Some e)"
    using dispose_effects_error [of "disposal_timeout s" "rev (es_active s)" "es_log s @ [Aborted]"] d by simp
  ultimately show ?thesis
    by (auto simp: r s' owed_def scope_dispose_def split: list.splits option.splits)
qed

text \<open>Disposing a scope that is not disposed calls every active disposer exactly once, in the
  reverse order of their creation, whatever each of them does, and reports the error of the
  first one that throws or times out. Disposing again does nothing.\<close>

lemma scope_dispose_all_once:
  assumes "\<not> es_disposed s" and "scope_dispose s = (r, s')"
  shows "called (es_log s') = called (es_log s) @ rev (owed s) \<and> owed s' = [] \<and> es_pending s' = [] \<and>
    es_disposed s' \<and> scope_dispose s' = (Inr (), s') \<and>
    r = (case List.map_filter (effect_error (disposal_timeout s)) (rev (es_active s)) of
           [] \<Rightarrow> Inr () | e # _ \<Rightarrow> Inl e)"
  using scope_dispose_result [OF assms] .

text \<open>A commit that fails leaves nothing behind: the scope is disposed, every disposer it had
  adopted or obtained from a starter has been called exactly once, and no effect is active
  or pending. A commit that succeeds calls no disposer.\<close>

lemma scope_commit_rolls_back:
  assumes "scope_commit s = Some (r, s')" and "\<not> es_disposed s" and "\<not> es_committed s"
  shows "case r of
      Inr _ \<Rightarrow> es_committed s' \<and> called (es_log s') = called (es_log s) \<and> (\<exists>new. owed s' = owed s @ new)
    | Inl e \<Rightarrow> es_disposed s' \<and> owed s' = [] \<and> es_pending s' = [] \<and>
        (\<exists>new. called (es_log s') = called (es_log s) @ rev (owed s @ new))"
proof -
  from assms obtain q t where q: "commit_effects (es_pending s) s = Some (q, t)"
    by (auto simp: scope_commit_def split: option.splits)
  note c = commit_effects_called [OF q]
  show ?thesis
  proof (cases q)
    case (Inr u)
    with q assms have "r = Inr ()" and "s' = t\<lparr>es_committed := True\<rparr>"
      by (auto simp: scope_commit_def)
    with c show ?thesis by (auto simp: owed_def)
  next
    case (Inl e)
    with q assms have r: "r = Inl e" and s': "s' = snd (scope_dispose t)"
      by (auto simp: scope_commit_def)
    from c assms(2) have "\<not> es_disposed t" by blast
    then have "called (es_log s') = called (es_log t) @ rev (owed t) \<and> owed s' = [] \<and>
        es_pending s' = [] \<and> es_disposed s'"
      using scope_dispose_result [of t "fst (scope_dispose t)" s'] s' by simp
    with c r show ?thesis by auto
  qed
qed

section \<open>Examples\<close>

definition sample_scope :: effect_scope where
  "sample_scope = (new_scope None)\<lparr>
     es_active := [\<lparr>ae_disposer = 1, ae_outcome = Dispose_hangs, ae_label = ''a''\<rparr>,
                   \<lparr>ae_disposer = 2, ae_outcome = Dispose_throws (Plugin_threw ''x''), ae_label = ''b''\<rparr>],
     es_pending := [\<lparr>pe_start = Start_disposer 3 Dispose_done, pe_label = ''c''\<rparr>,
                    \<lparr>pe_start = Start_other, pe_label = ''d''\<rparr>]\<rparr>"

theorem scope_dispose_all_once_witness:
  "fst (scope_dispose sample_scope) = Inl (Plugin_threw ''x'') \<and>
   called (es_log (snd (scope_dispose sample_scope))) = [2, 1]"
  using scope_dispose_all_once [of sample_scope "fst (scope_dispose sample_scope)" "snd (scope_dispose sample_scope)"]
  by (simp add: sample_scope_def new_scope_def owed_def effect_error_def)

theorem scope_commit_rolls_back_witness:
  "\<exists>s'. scope_commit sample_scope = Some (Inl (No_disposer ''d''), s') \<and> es_disposed s' \<and>
     (\<exists>new. called (es_log s') = rev (owed sample_scope @ new))"
proof -
  have "\<not> es_disposed sample_scope" "\<not> es_committed sample_scope" "es_log sample_scope = []"
    by (simp_all add: sample_scope_def new_scope_def)
  moreover obtain s' where "scope_commit sample_scope = Some (Inl (No_disposer ''d''), s')"
    by (simp add: scope_commit_def sample_scope_def new_scope_def)
  ultimately show ?thesis using scope_commit_rolls_back [of sample_scope "Inl (No_disposer ''d'')" s'] by auto
qed

end
