(* ===== verification/PluginActivation.thy ===== *)
theory PluginActivation
  imports CapabilityGraph EffectScope
begin

text \<open>
  The activation of one plugin: the context object that \<open>generationRuntime.ts\<close> hands to it
  (lines 407-466), the executors that turn a candidate into a module (\<open>pluginExecutor.ts\<close>),
  and the race of \<open>activate\<close> with its timeout. Plugin code is a program that calls the
  context: it receives what each call returns or throws and decides how to go on.
\<close>

section \<open>Plugin code\<close>

datatype context_call =
    Call_require string
  | Call_optional string
  | Call_provide string js_value
  | Call_register contribution
  | Call_permission_has string
  | Call_permission_require string
  | Call_permission_list
  | Call_fail kernel_error
  | Call_effect_add start_outcome string
  | Call_effect_adopt "(js_ref \<times> dispose_outcome) option" string

datatype context_result =
    Ret_void
  | Ret_value js_value
  | Ret_bool bool
  | Ret_strings "string list"
  | Ret_throws kernel_error

datatype plugin_prog =
    Plugin_returns
  | Plugin_throws kernel_error
  | Plugin_hangs
  | Plugin_calls context_call "context_result \<Rightarrow> plugin_prog"

section \<open>The activation context\<close>

text \<open>What the context's closures read: the candidate, its identity and permissions, and the
  contribution keys claimed by the components before.\<close>

record activation_env =
  av_candidate :: candidate
  av_identity :: identity
  av_permissions :: "string list"
  av_claimed :: "string list"

text \<open>What they change. \<open>av_services\<close> is shared by the component; \<open>av_failures\<close> are the
  runtime failures enqueued by \<open>lifecycle.fail\<close>.\<close>

record activation_state =
  av_services :: services
  av_provided :: "string list"
  av_plugin_services :: "service_reg list"
  av_keys :: "string list"
  av_contributions :: "registered_contribution list"
  av_scope :: effect_scope
  av_failures :: "(identity \<times> kernel_error) list"

definition declares :: "activation_env \<Rightarrow> string \<Rightarrow> bool" where
  "declares env cap \<longleftrightarrow>
     cap \<in> set (m_requires (c_manifest (av_candidate env))) \<or>
     cap \<in> set (m_optional (c_manifest (av_candidate env)))"

definition context_require :: "activation_env \<Rightarrow> string \<Rightarrow> activation_state \<Rightarrow> context_result" where
  "context_require env cap st =
     (if \<not> declares env cap then Ret_throws (Undeclared_capability cap)
      else case jget (av_services st) (js_trim cap) of
        None \<Rightarrow> Ret_throws (Service_unavailable (js_trim cap))
      | Some s \<Rightarrow> Ret_value (svc_value s))"

definition context_optional :: "activation_env \<Rightarrow> string \<Rightarrow> activation_state \<Rightarrow> context_result" where
  "context_optional env cap st =
     (if \<not> declares env cap then Ret_throws (Undeclared_capability cap)
      else case jget (av_services st) (js_trim cap) of
        None \<Rightarrow> Ret_value Js_undefined
      | Some s \<Rightarrow> Ret_value (svc_value s))"

definition context_provide ::
  "activation_env \<Rightarrow> string \<Rightarrow> js_value \<Rightarrow> activation_state \<Rightarrow> context_result \<times> activation_state" where
  "context_provide env cap v st =
     (if cap \<notin> set (m_provides (c_manifest (av_candidate env)))
      then (Ret_throws (Undeclared_provide cap), st)
      else if cap \<in> set (av_provided st) then (Ret_throws (Provided_twice cap), st)
      else case jget (av_services st) cap of
        Some ex \<Rightarrow> (Ret_throws (Service_already_registered (svc_provider ex) cap), st)
      | None \<Rightarrow>
          let reg = \<lparr>svc_capability = cap, svc_provider = instance_id (av_identity env), svc_value = v\<rparr>
          in (Ret_void, st\<lparr>av_services := jset cap reg (av_services st),
                av_plugin_services := av_plugin_services st @ [reg],
                av_provided := sadd cap (av_provided st)\<rparr>))"

definition context_register ::
  "activation_env \<Rightarrow> contribution \<Rightarrow> activation_state \<Rightarrow> context_result \<times> activation_state" where
  "context_register env c st =
     (let kind = js_trim (con_kind c); cid = js_trim (con_id c) in
      if kind = [] \<or> cid = [] then (Ret_throws Contribution_incomplete, st)
      else let key = draft_key (js_trim kind) (js_trim cid) in
      if key \<in> set (av_claimed env) \<or> key \<in> set (av_keys st)
      then (Ret_throws (Contribution_registered kind cid), st)
      else (Ret_void, st\<lparr>av_keys := sadd key (av_keys st),
              av_contributions := av_contributions st @
                [\<lparr>con_kind = kind, con_id = cid, con_value = con_value c,
                  con_instance = instance_id (av_identity env)\<rparr>]\<rparr>))"

definition of_scope ::
  "(kernel_error, effect_scope) res \<Rightarrow> activation_state \<Rightarrow> context_result \<times> activation_state" where
  "of_scope r st = (case r of Inl e \<Rightarrow> (Ret_throws e, st) | Inr s \<Rightarrow> (Ret_void, st\<lparr>av_scope := s\<rparr>))"

fun context_call_step ::
  "activation_env \<Rightarrow> context_call \<Rightarrow> activation_state \<Rightarrow> context_result \<times> activation_state" where
  "context_call_step env (Call_require cap) st = (context_require env cap st, st)"
| "context_call_step env (Call_optional cap) st = (context_optional env cap st, st)"
| "context_call_step env (Call_provide cap v) st = context_provide env cap v st"
| "context_call_step env (Call_register c) st = context_register env c st"
| "context_call_step env (Call_permission_has p) st =
     ((case permission_has (av_permissions env) p of Inl e \<Rightarrow> Ret_throws e | Inr b \<Rightarrow> Ret_bool b), st)"
| "context_call_step env (Call_permission_require p) st =
     ((case permission_require (av_permissions env) p of Inl e \<Rightarrow> Ret_throws e | Inr _ \<Rightarrow> Ret_void), st)"
| "context_call_step env Call_permission_list st = (Ret_strings (permission_list (av_permissions env)), st)"
| "context_call_step env (Call_fail e) st =
     (Ret_void, st\<lparr>av_failures := av_failures st @ [(av_identity env, e)]\<rparr>)"
| "context_call_step env (Call_effect_add s label) st = of_scope (scope_add s label (av_scope st)) st"
| "context_call_step env (Call_effect_adopt d label) st = of_scope (scope_adopt d label (av_scope st)) st"

text \<open>\<open>Promise.race\<close> of \<open>activate\<close> with the activation timeout.\<close>

primrec run_plugin ::
  "int \<Rightarrow> activation_env \<Rightarrow> plugin_prog \<Rightarrow> activation_state \<Rightarrow>
     (kernel_error, unit) res \<times> activation_state" where
  "run_plugin t env Plugin_returns st = (Inr (), st)"
| "run_plugin t env (Plugin_throws e) st = (Inl e, st)"
| "run_plugin t env Plugin_hangs st = (Inl (Activation_timeout t (instance_id (av_identity env))), st)"
| "run_plugin t env (Plugin_calls c k) st =
     run_plugin t env (k (fst (context_call_step env c st))) (snd (context_call_step env c st))"

section \<open>pluginExecutor.ts\<close>

text \<open>A module that has been imported: \<open>None\<close> when it exports no \<open>activate\<close> function. What
  an import gives for a path, and what a resource file holds, are parameters.\<close>

definition validate_module ::
  "plugin_prog option \<Rightarrow> candidate \<Rightarrow> (kernel_error, plugin_prog) res" where
  "validate_module v c =
     (case v of
        None \<Rightarrow> Inl (Module_invalid (m_id (c_manifest c)) (c_entry_execution c))
      | Some p \<Rightarrow> Inr p)"

definition in_process_prepare ::
  "(string \<Rightarrow> (kernel_error, plugin_prog option) res) \<Rightarrow> candidate \<Rightarrow> (kernel_error, plugin_prog) res" where
  "in_process_prepare import_module c =
     (if c_entry_execution c \<noteq> In_process then Inl (Execution_unconfigured (c_entry_execution c))
      else bindr (import_module (c_entry_path c)) (\<lambda>v. validate_module v c))"

text \<open>The \<open>activate\<close> of a declarative resource: it registers each contribution and lets an
  error of the call propagate.\<close>

fun register_contributions :: "json list \<Rightarrow> plugin_prog" where
  "register_contributions [] = Plugin_returns"
| "register_contributions (JObj kvs # vs) =
     (case (jget kvs ''kind'', jget kvs ''id'') of
        (Some (JStr kind), Some (JStr cid)) \<Rightarrow>
          Plugin_calls (Call_register \<lparr>con_kind = kind, con_id = cid,
              con_value = (case jget kvs ''value'' of None \<Rightarrow> Js_undefined | Some v \<Rightarrow> Js_json v)\<rparr>)
            (\<lambda>r. case r of Ret_throws e \<Rightarrow> Plugin_throws e | _ \<Rightarrow> register_contributions vs)
      | _ \<Rightarrow> Plugin_throws (Resource_invalid ''kind and id''))"
| "register_contributions (_ # vs) = Plugin_throws (Resource_invalid ''object'')"

definition declarative_prepare ::
  "(string \<Rightarrow> (kernel_error, json) res) \<Rightarrow> candidate \<Rightarrow> (kernel_error, plugin_prog) res" where
  "declarative_prepare read_json c =
     (if c_entry_execution c \<noteq> Declarative then Inl (Execution_unconfigured (c_entry_execution c))
      else bindr (read_json (c_entry_path c)) (\<lambda>parsed.
        case parsed of
          JObj kvs \<Rightarrow>
            (if filter (\<lambda>k. k \<noteq> ''contributions'') (jkeys kvs) \<noteq> [] then Inl (Resource_invalid ''keys'')
             else case jget kvs ''contributions'' of
               Some (JArr vs) \<Rightarrow> Inr (register_contributions vs)
             | _ \<Rightarrow> Inl (Resource_invalid ''keys''))
        | _ \<Rightarrow> Inl (Resource_invalid ''object'')))"

text \<open>The routing executor of \<open>createBuiltinPluginExecutor\<close>.\<close>

definition builtin_prepare ::
  "(string \<Rightarrow> (kernel_error, plugin_prog option) res) \<Rightarrow> (string \<Rightarrow> (kernel_error, json) res) \<Rightarrow>
     candidate \<Rightarrow> (kernel_error, plugin_prog) res" where
  "builtin_prepare import_module read_json c =
     (case c_entry_execution c of
        In_process \<Rightarrow> in_process_prepare import_module c
      | Declarative \<Rightarrow> declarative_prepare read_json c
      | Isolated \<Rightarrow> Inl (Execution_unconfigured Isolated))"

section \<open>What plugin code can reach\<close>

text \<open>The invariant every call keeps: services and contributions are the plugin's own, declared,
  and without repetition; the contribution keys of the components before stay out.\<close>

definition contribution_key :: "registered_contribution \<Rightarrow> string" where
  "contribution_key c = draft_key (con_kind c) (con_id c)"

definition activation_ok :: "activation_env \<Rightarrow> string list \<Rightarrow> activation_state \<Rightarrow> bool" where
  "activation_ok env keys st \<longleftrightarrow>
     map svc_capability (av_plugin_services st) = av_provided st \<and> distinct (av_provided st) \<and>
     set (av_provided st) \<subseteq> set (m_provides (c_manifest (av_candidate env))) \<and>
     (\<forall>v \<in> set (av_plugin_services st). svc_provider v = instance_id (av_identity env)) \<and>
     set (av_keys st) = set keys \<union> contribution_key ` set (av_contributions st) \<and>
     distinct (map contribution_key (av_contributions st)) \<and>
     contribution_key ` set (av_contributions st) \<inter> (set keys \<union> set (av_claimed env)) = {} \<and>
     (\<forall>c \<in> set (av_contributions st). con_instance c = instance_id (av_identity env))"

lemma context_provide_ok:
  "activation_ok env keys st \<Longrightarrow> activation_ok env keys (snd (context_provide env cap v st))"
  by (auto simp: context_provide_def activation_ok_def Let_def sadd_def split: option.split)

lemma context_register_ok:
  "activation_ok env keys st \<Longrightarrow> activation_ok env keys (snd (context_register env c st))"
  by (auto simp: context_register_def activation_ok_def Let_def contribution_key_def js_trim_idem)

lemma activation_ok_scope: "activation_ok env keys st \<Longrightarrow> activation_ok env keys (snd (of_scope r st))"
  by (auto simp: of_scope_def activation_ok_def split: sum.split)

lemma context_call_ok:
  "activation_ok env keys st \<Longrightarrow> activation_ok env keys (snd (context_call_step env c st))"
  by (cases c) (simp_all add: context_provide_ok context_register_ok activation_ok_scope,
    simp_all add: activation_ok_def)

lemma run_plugin_invariant:
  assumes "\<And>c st. I st \<Longrightarrow> I (snd (context_call_step env c st))"
  shows "I st \<Longrightarrow> I (snd (run_plugin t env prog st))"
  by (induction prog arbitrary: st) (auto intro: assms)

text \<open>Whatever calls a plugin makes, and whatever it does with what they return or throw, the
  services it ends up with are among those its manifest declares, each once and under its own
  id, and its contributions are its own, without repetition, and none of them uses a key that
  an earlier plugin of the generation holds.\<close>

lemma plugin_confined:
  assumes "av_provided st = []" and "av_plugin_services st = []" and "av_contributions st = []"
    and "run_plugin t env prog st = (r, st')"
  shows "distinct (map svc_capability (av_plugin_services st')) \<and>
    set (map svc_capability (av_plugin_services st')) \<subseteq> set (m_provides (c_manifest (av_candidate env))) \<and>
    (\<forall>v \<in> set (av_plugin_services st'). svc_provider v = instance_id (av_identity env)) \<and>
    distinct (map contribution_key (av_contributions st')) \<and>
    set (map contribution_key (av_contributions st')) \<inter> (set (av_keys st) \<union> set (av_claimed env)) = {} \<and>
    (\<forall>c \<in> set (av_contributions st'). con_instance c = instance_id (av_identity env))"
proof -
  have "activation_ok env (av_keys st) st" using assms(1-3) by (simp add: activation_ok_def)
  then have "activation_ok env (av_keys st) (snd (run_plugin t env prog st))"
    by (rule run_plugin_invariant [rotated]) (rule context_call_ok)
  then show ?thesis using assms(4) by (simp add: activation_ok_def)
qed

definition greedy_plugin :: plugin_prog where
  "greedy_plugin =
     Plugin_calls (Call_provide ''x'' (Js_ref 1)) (\<lambda>_.
     Plugin_calls (Call_provide ''x'' (Js_ref 2)) (\<lambda>_.
     Plugin_calls (Call_provide ''y'' (Js_ref 3)) (\<lambda>r. case r of Ret_throws e \<Rightarrow> Plugin_throws e | _ \<Rightarrow> Plugin_returns)))"

definition greedy_env :: activation_env where
  "greedy_env = \<lparr>av_candidate = sample_candidate ''a'' [] [] [''x''],
     av_identity = \<lparr>application_generation_id = ''g'', manager_instance_id = ''m'', activation_id = 0,
       instance_id = ''a'', plugin_id = ''plugin'', plugin_version = ''1'', plugin_revision = ''r1'',
       plugin_host_of = Manager_host\<rparr>,
     av_permissions = [], av_claimed = []\<rparr>"

definition greedy_state :: activation_state where
  "greedy_state = \<lparr>av_services = [], av_provided = [], av_plugin_services = [], av_keys = [],
     av_contributions = [], av_scope = new_scope None, av_failures = []\<rparr>"

theorem plugin_confined_witness:
  "fst (run_plugin 100 greedy_env greedy_plugin greedy_state) = Inl (Undeclared_provide ''y'') \<and>
   distinct (map svc_capability (av_plugin_services (snd (run_plugin 100 greedy_env greedy_plugin greedy_state))))"
proof -
  have "fst (run_plugin 100 greedy_env greedy_plugin greedy_state) = Inl (Undeclared_provide ''y'')"
    by code_simp
  moreover have "distinct (map svc_capability
      (av_plugin_services (snd (run_plugin 100 greedy_env greedy_plugin greedy_state))))"
    using plugin_confined [of greedy_state 100 greedy_env greedy_plugin
        "fst (run_plugin 100 greedy_env greedy_plugin greedy_state)"
        "snd (run_plugin 100 greedy_env greedy_plugin greedy_state)"]
    by (simp add: greedy_state_def)
  ultimately show ?thesis by blast
qed

end
