(* ===== verification/GenerationRuntime.thy ===== *)
theory GenerationRuntime
  imports PluginActivation
begin

text \<open>
  \<open>src/plugin-kernel/generationRuntime.ts\<close>: the generations of active plugins. A switch
  prepares the changed dependency components in new effect scopes, commits them, and only
  then replaces the current generation; a runtime failure removes the failed plugin and what
  depends on it. Effect scopes are mutable objects: they live in a store and a plugin's
  state holds its address. The mutation queue runs one operation at a time, so each is a
  function of the runtime's state; \<open>None\<close> is an operation that never returns, because
  a module or an effect never settles.
\<close>

section \<open>Data\<close>

text \<open>\<open>candidateSignature\<close> is a JSON text that the runtime only compares; the model keeps
  the values it is made of.\<close>

record signature =
  sg_revision :: string
  sg_manifest :: manifest
  sg_config :: json
  sg_entry_execution :: execution_mode
  sg_entry_path :: string
  sg_policy :: "instance_policy option"
  sg_granted :: "string list"

definition candidate_signature :: "candidate \<Rightarrow> string list \<Rightarrow> signature" where
  "candidate_signature c granted =
     \<lparr>sg_revision = c_revision c, sg_manifest = c_manifest c, sg_config = c_config c,
      sg_entry_execution = c_entry_execution c, sg_entry_path = c_entry_path c,
      sg_policy = c_policy c, sg_granted = sort granted\<rparr>"

record plugin_state =
  ps_identity :: identity
  ps_manifest :: manifest
  ps_signature :: signature
  ps_scope :: nat
  ps_services :: "service_reg list"
  ps_contributions :: "registered_contribution list"

datatype cleanup_phase = Rollback | Superseded | Runtime_failure | Shutdown

record cleanup_diagnostic =
  cg_instance :: string
  cg_activation :: nat
  cg_phase :: cleanup_phase
  cg_error :: kernel_error

datatype readiness = Ready | Degraded

record generation =
  g_id :: nat
  g_sequence :: nat
  g_ready_requires :: "string list"
  g_readiness :: readiness
  g_missing :: "string list"
  g_records :: "runtime_record list"
  g_services :: services
  g_contributions :: "registered_contribution list"
  g_cleanup :: "cleanup_diagnostic list"

text \<open>What the constructor fixes. \<open>rn_collate\<close> is \<open>localeCompare\<close>, \<open>rn_prepare\<close> the executor
  (\<open>None\<close> when it never settles).\<close>

record runtime_env =
  rn_host :: plugin_host
  rn_host_services :: "host_service list"
  rn_granted :: "identity \<Rightarrow> string list"
  rn_application :: string
  rn_manager :: string
  rn_default_ready :: "string list"
  rn_timeout :: int
  rn_prepare :: "candidate \<Rightarrow> identity \<Rightarrow> (kernel_error, plugin_prog) res option"
  rn_collate :: "string \<Rightarrow> string \<Rightarrow> int"

record runtime =
  rt_disposed :: bool
  rt_sequence :: nat
  rt_current :: generation
  rt_active :: "(string, plugin_state) jmap"
  rt_scopes :: "effect_scope list"
  rt_failures :: "(identity \<times> kernel_error) list"
  rt_fresh :: nat

section \<open>Records\<close>

definition failed_record :: "identity \<Rightarrow> manifest \<Rightarrow> kernel_error \<Rightarrow> string \<Rightarrow> runtime_record" where
  "failed_record i m e code =
     \<lparr>rr_identity = i, rr_manifest = m, rr_status = Failed, rr_missing = [],
      rr_error = Some \<lparr>re_code = code, re_error = e\<rparr>\<rparr>"

definition waiting_record :: "identity \<Rightarrow> manifest \<Rightarrow> string list \<Rightarrow> runtime_record" where
  "waiting_record i m missing =
     \<lparr>rr_identity = i, rr_manifest = m, rr_status = Waiting_dependency, rr_missing = missing,
      rr_error = None\<rparr>"

definition active_record :: "plugin_state \<Rightarrow> kernel_error option \<Rightarrow> runtime_record" where
  "active_record s err =
     \<lparr>rr_identity = ps_identity s, rr_manifest = ps_manifest s, rr_status = Active, rr_missing = [],
      rr_error = map_option (\<lambda>e. \<lparr>re_code = ''update_failed_using_previous_revision'', re_error = e\<rparr>) err\<rparr>"

definition degraded_record :: "runtime_record \<Rightarrow> bool" where
  "degraded_record r \<longleftrightarrow> rr_status r \<noteq> Active \<or> rr_error r \<noteq> None"

definition rr_instance :: "runtime_record \<Rightarrow> string" where
  "rr_instance r = instance_id (rr_identity r)"

definition plugin_identity ::
  "runtime_env \<Rightarrow> nat \<Rightarrow> candidate \<Rightarrow> (kernel_error, identity) res" where
  "plugin_identity env n c =
     (if \<not> jhas (m_entries (c_manifest c)) (rn_host env) then Inl (Host_entry_missing (m_id (c_manifest c)))
      else let inst = js_trim (c_instance_id c); rev = js_trim (c_revision c) in
        if inst = [] \<or> rev = [] then Inl Identity_incomplete
        else Inr \<lparr>application_generation_id = rn_application env, manager_instance_id = rn_manager env,
               activation_id = n, instance_id = inst, plugin_id = m_id (c_manifest c),
               plugin_version = m_version (c_manifest c), plugin_revision = rev,
               plugin_host_of = rn_host env\<rparr>)"

section \<open>dependencyComponents\<close>

fun adjacency_capabilities ::
  "(string, string) jmap \<Rightarrow> string \<Rightarrow> string list \<Rightarrow> (string, string list) jmap \<Rightarrow>
     (kernel_error, (string, string list) jmap) res" where
  "adjacency_capabilities prov i [] adj = Inr adj"
| "adjacency_capabilities prov i (cap # caps) adj =
     (case jget prov cap of
        None \<Rightarrow> adjacency_capabilities prov i caps adj
      | Some p \<Rightarrow>
          if p = i then adjacency_capabilities prov i caps adj
          else case jget adj i of
            None \<Rightarrow> Inl Type_error
          | Some ns \<Rightarrow>
              let adj' = jset i (sadd p ns) adj in
              case jget adj' p of
                None \<Rightarrow> Inl Type_error
              | Some ms \<Rightarrow> adjacency_capabilities prov i caps (jset p (sadd i ms) adj'))"

definition adjacency_of ::
  "(string, candidate) jmap \<Rightarrow> (string, string) jmap \<Rightarrow> (kernel_error, (string, string list) jmap) res" where
  "adjacency_of byId prov =
     fold_res (\<lambda>c. adjacency_capabilities prov (c_instance_id c)
         (m_requires (c_manifest c) @ m_optional (c_manifest c)))
       (jvals byId) (map (\<lambda>i. (i, [])) (jkeys byId))"

text \<open>The search from one instance. The stack's top is the head of the list; the sets in
  \<open>adj\<close> have no duplicates.\<close>

definition adjacent_of :: "(string, string list) jmap \<Rightarrow> string \<Rightarrow> string list" where
  "adjacent_of adj i = (case jget adj i of None \<Rightarrow> [] | Some ns \<Rightarrow> ns)"

function collect_component ::
  "(string, string list) jmap \<Rightarrow> string list \<Rightarrow> string list \<Rightarrow> string list \<Rightarrow> string list \<times> string list" where
  "collect_component adj [] seen found = (found, seen)"
| "collect_component adj (cur # pending) seen found =
     (let new = filter (\<lambda>a. a \<notin> set seen) (adjacent_of adj cur) in
      collect_component adj (rev new @ pending) (seen @ new) (found @ [cur]))"
  by pat_completeness auto
termination collect_component
proof (relation "measures [\<lambda>(adj, pending, seen, found). card (\<Union>(set ` set (jvals adj)) - set seen),
    \<lambda>(adj, pending, seen, found). length pending]", goal_cases)
  case (2 adj cur pending seen found new)
  show ?case
  proof (cases "new = []")
    case False
    then obtain a where a: "a \<in> set new" by (cases new) auto
    with 2 have an: "a \<notin> set seen" and "a \<in> set (adjacent_of adj cur)" by auto
    then obtain ns where "(cur, ns) \<in> set adj" and "a \<in> set ns"
      by (cases "jget adj cur") (auto simp: adjacent_of_def dest: map_of_SomeD)
    then have "a \<in> \<Union>(set ` set (jvals adj))" by force
    with a an have "card (\<Union>(set ` set (jvals adj)) - set (seen @ new))
        < card (\<Union>(set ` set (jvals adj)) - set seen)"
      by (intro psubset_card_mono) auto
    then show ?thesis by simp
  qed simp
qed simp

fun collect_components ::
  "(string, string list) jmap \<Rightarrow> string list \<Rightarrow> string list \<Rightarrow> string list list" where
  "collect_components adj [] seen = []"
| "collect_components adj (i # is) seen =
     (if i \<in> set seen then collect_components adj is seen
      else let (found, seen') = collect_component adj [i] (seen @ [i]) [] in
        found # collect_components adj is seen')"

definition position_of :: "string list \<Rightarrow> string \<Rightarrow> int" where
  "position_of order i =
     (if i \<in> set order then int (length (takeWhile (\<lambda>j. j \<noteq> i) order)) else 9007199254740991)"

definition component_le :: "(string \<Rightarrow> string \<Rightarrow> int) \<Rightarrow> string list \<Rightarrow> string \<Rightarrow> string \<Rightarrow> bool" where
  "component_le collate order l r =
     (if position_of order l = position_of order r then collate l r \<le> 0
      else position_of order l < position_of order r)"

definition components_le ::
  "(string \<Rightarrow> string \<Rightarrow> int) \<Rightarrow> string list \<Rightarrow> string list \<Rightarrow> string list \<Rightarrow> bool" where
  "components_le collate order l r =
     (let lp = Min (set (map (position_of order) l)); rp = Min (set (map (position_of order) r)) in
      if lp = rp then collate (hd l) (hd r) \<le> 0 else lp < rp)"

definition dependency_components ::
  "(string \<Rightarrow> string \<Rightarrow> int) \<Rightarrow> (string, candidate) jmap \<Rightarrow> graph_plan \<Rightarrow> (kernel_error, string list list) res" where
  "dependency_components collate byId plan =
     bindr (adjacency_of byId (gp_providers plan)) (\<lambda>adj.
       Inr (js_sort (components_le collate (gp_activation_order plan))
         (map (js_sort (component_le collate (gp_activation_order plan)))
           (collect_components adj (sort (jkeys byId)) []))))"

section \<open>Cleanup and snapshots\<close>

definition dispose_at :: "nat \<Rightarrow> effect_scope list \<Rightarrow> effect_scope list" where
  "dispose_at a scopes = scopes[a := snd (scope_dispose (scopes ! a))]"

text \<open>\<open>cleanupStates\<close>: one disposal per scope; the disposals run concurrently on scopes that
  share nothing.\<close>

definition unique_by_scope :: "plugin_state list \<Rightarrow> plugin_state list" where
  "unique_by_scope states = rev (jvals (foldl (\<lambda>m s. jset (ps_scope s) s m) [] states))"

definition cleanup_one :: "effect_scope list \<Rightarrow> cleanup_phase \<Rightarrow> plugin_state \<Rightarrow> cleanup_diagnostic list" where
  "cleanup_one scopes phase s =
     (case fst (scope_dispose (scopes ! ps_scope s)) of
        Inr _ \<Rightarrow> []
      | Inl e \<Rightarrow> [\<lparr>cg_instance = instance_id (ps_identity s), cg_activation = activation_id (ps_identity s),
                   cg_phase = phase, cg_error = e\<rparr>])"

definition cleanup_states ::
  "plugin_state list \<Rightarrow> cleanup_phase \<Rightarrow> effect_scope list \<Rightarrow> cleanup_diagnostic list \<times> effect_scope list" where
  "cleanup_states states phase scopes =
     (let unique = unique_by_scope states in
      (concat (map (cleanup_one scopes phase) unique),
       fold (\<lambda>s. dispose_at (ps_scope s)) unique scopes))"

definition register_state ::
  "plugin_state \<Rightarrow> services \<times> contribution_draft \<Rightarrow> (kernel_error, services \<times> contribution_draft) res" where
  "register_state s st =
     bindr (fold_res (\<lambda>v. service_register (instance_id (ps_identity s)) (svc_capability v) (svc_value v))
         (ps_services s) (fst st)) (\<lambda>sv.
     bindr (fold_res (\<lambda>c. contribution_register (instance_id (ps_identity s)) (contribution.truncate c))
         (ps_contributions s) (snd st)) (\<lambda>cd. Inr (sv, cd)))"

definition build_snapshots ::
  "plugin_state list \<Rightarrow> host_service list \<Rightarrow> (kernel_error, services \<times> contribution_draft) res" where
  "build_snapshots states hs =
     bindr (service_draft hs) (\<lambda>sv. fold_res register_state states (sv, contribution_draft_new))"

section \<open>Preparing a component\<close>

text \<open>What the switch knows of each candidate: its identity, its granted permissions, sorted,
  and its signature.\<close>

type_synonym candidate_facts = "(string, identity \<times> string list \<times> signature) jmap"

fun identify_candidates ::
  "runtime_env \<Rightarrow> (string \<times> candidate) list \<Rightarrow> nat \<Rightarrow> (kernel_error, candidate_facts) res" where
  "identify_candidates env [] n = Inr []"
| "identify_candidates env ((i, c) # cs) n =
     bindr (plugin_identity env n c) (\<lambda>ident.
       let permissions = sort (rn_granted env ident) in
       bindr (identify_candidates env cs (Suc n)) (\<lambda>rest.
         Inr ((i, ident, permissions, candidate_signature c permissions) # rest)))"

definition host_service_values :: "host_service list \<Rightarrow> services" where
  "host_service_values hs =
     foldl (\<lambda>m h. jset (hs_capability h)
       \<lparr>svc_capability = hs_capability h, svc_provider = ''host'', svc_value = hs_value h\<rparr> m) [] hs"

text \<open>A component failure: the instance it is attributed to, and the error.\<close>

record prepare_result =
  pr_failure :: "(string \<times> kernel_error) option"
  pr_prepared :: "plugin_state list"
  pr_scopes :: "effect_scope list"
  pr_failures :: "(identity \<times> kernel_error) list"

text \<open>One instance of the loop, up to the inner \<open>catch\<close>: its state and the component's service
  values, or the error after its scope has been disposed.\<close>

definition activate_instance ::
  "runtime_env \<Rightarrow> candidate \<Rightarrow> identity \<times> string list \<times> signature \<Rightarrow> string list \<Rightarrow> string list \<Rightarrow>
     string list \<Rightarrow> services \<Rightarrow> effect_scope list \<Rightarrow> (identity \<times> kernel_error) list \<Rightarrow>
     ((kernel_error, plugin_state \<times> services) res \<times> effect_scope list \<times> (identity \<times> kernel_error) list) option" where
  "activate_instance env c facts permissions claimed keys values scopes failures =
     (case facts of (ident, _, sig) \<Rightarrow>
       let scope = new_scope (map_option (\<lambda>p. rs_shutdown_timeout_ms (ip_resources p)) (c_policy c));
           av = \<lparr>av_candidate = c, av_identity = ident, av_permissions = permissions, av_claimed = claimed\<rparr>;
           st = \<lparr>av_services = values, av_provided = [], av_plugin_services = [], av_keys = keys,
                 av_contributions = [], av_scope = scope, av_failures = failures\<rparr>
       in case rn_prepare env c ident of
         None \<Rightarrow> None
       | Some (Inl e) \<Rightarrow> Some (Inl e, scopes @ [snd (scope_dispose scope)], failures)
       | Some (Inr prog) \<Rightarrow>
           (case run_plugin (rn_timeout env) av prog st of
              (Inl e, st') \<Rightarrow> Some (Inl e, scopes @ [snd (scope_dispose (av_scope st'))], av_failures st')
            | (Inr _, st') \<Rightarrow>
                let missing = filter (\<lambda>cap. cap \<notin> set (av_provided st')) 
                    (foldl (\<lambda>s cap. sadd cap s) [] (m_provides (c_manifest c))) in
                if missing \<noteq> []
                then Some (Inl (Provides_missing missing), scopes @ [snd (scope_dispose (av_scope st'))],
                       av_failures st')
                else Some (Inr (\<lparr>ps_identity = ident, ps_manifest = c_manifest c, ps_signature = sig,
                         ps_scope = length scopes, ps_services = av_plugin_services st',
                         ps_contributions = av_contributions st'\<rparr>, av_services st'),
                       scopes @ [av_scope st'], av_failures st')))"

definition contribution_keys_of :: "plugin_state list \<Rightarrow> string list" where
  "contribution_keys_of states =
     concat (map (\<lambda>s. map (\<lambda>c. draft_key (js_trim (con_kind c)) (js_trim (con_id c))) (ps_contributions s)) states)"

text \<open>The outer loop. A grant that is refused is thrown outside the inner \<open>try\<close>, so the outer
  \<open>catch\<close> attributes it to the first instance of the component.\<close>

fun prepare_instances ::
  "runtime_env \<Rightarrow> (string, candidate) jmap \<Rightarrow> candidate_facts \<Rightarrow> string list \<Rightarrow> string \<Rightarrow> string list \<Rightarrow>
     services \<Rightarrow> prepare_result \<Rightarrow> prepare_result option" where
  "prepare_instances env byId facts claimed first [] values r = Some r"
| "prepare_instances env byId facts claimed first (i # is) values r =
     (case (jget byId i, jget facts i) of
        (Some c, Some (ident, granted, sig)) \<Rightarrow>
          (case granted_permissions (m_permissions (c_manifest c)) granted of
             Inl e \<Rightarrow> Some (r\<lparr>pr_failure := Some (first, e)\<rparr>)
           | Inr permissions \<Rightarrow>
               (case activate_instance env c (ident, granted, sig) permissions claimed
                       (contribution_keys_of (pr_prepared r)) values (pr_scopes r) (pr_failures r) of
                  None \<Rightarrow> None
                | Some (Inl e, scopes, fs) \<Rightarrow>
                    Some (r\<lparr>pr_failure := Some (i, e), pr_scopes := scopes, pr_failures := fs\<rparr>)
                | Some (Inr (s, values'), scopes, fs) \<Rightarrow>
                    prepare_instances env byId facts claimed first is values'
                      (r\<lparr>pr_prepared := pr_prepared r @ [s], pr_scopes := scopes, pr_failures := fs\<rparr>)))
      | _ \<Rightarrow> Some (r\<lparr>pr_failure := Some (first, Type_error)\<rparr>))"

text \<open>The outer \<open>catch\<close> disposes the prepared states, last first.\<close>

definition prepare_component ::
  "runtime_env \<Rightarrow> (string, candidate) jmap \<Rightarrow> candidate_facts \<Rightarrow> string list \<Rightarrow> string list \<Rightarrow>
     effect_scope list \<Rightarrow> (identity \<times> kernel_error) list \<Rightarrow> prepare_result option" where
  "prepare_component env byId facts claimed component scopes failures =
     (case prepare_instances env byId facts claimed (hd component) component
             (host_service_values (rn_host_services env))
             \<lparr>pr_failure = None, pr_prepared = [], pr_scopes = scopes, pr_failures = failures\<rparr> of
        None \<Rightarrow> None
      | Some r \<Rightarrow>
          (case pr_failure r of
             None \<Rightarrow> Some r
           | Some _ \<Rightarrow> Some (r\<lparr>pr_scopes :=
               fold (\<lambda>s. dispose_at (ps_scope s)) (rev (pr_prepared r)) (pr_scopes r)\<rparr>)))"

section \<open>Switching one component\<close>

record switch_state =
  sw_next :: "(string, plugin_state) jmap"
  sw_records :: "runtime_record list"
  sw_claimed :: "string list"
  sw_dispose :: "nat list"
  sw_commit :: "plugin_state list"
  sw_component :: "(string, string list) jmap"
  sw_scopes :: "effect_scope list"
  sw_failures :: "(identity \<times> kernel_error) list"

definition claim :: "plugin_state \<Rightarrow> string list \<Rightarrow> string list" where
  "claim s ks = foldl (\<lambda>ks k. sadd k ks) ks (contribution_keys_of [s])"

definition identity_of :: "candidate_facts \<Rightarrow> string \<Rightarrow> identity" where
  "identity_of facts i = fst (the (jget facts i))"

definition signature_of :: "candidate_facts \<Rightarrow> string \<Rightarrow> signature" where
  "signature_of facts i = snd (snd (the (jget facts i)))"

definition manifest_of :: "(string, candidate) jmap \<Rightarrow> string \<Rightarrow> manifest" where
  "manifest_of byId i = c_manifest (the (jget byId i))"

definition keep_waiting ::
  "(string, plugin_state) jmap \<Rightarrow> (string, candidate) jmap \<Rightarrow> candidate_facts \<Rightarrow> graph_plan \<Rightarrow>
     string \<Rightarrow> switch_state \<Rightarrow> switch_state" where
  "keep_waiting prev byId facts plan i sw =
     sw\<lparr>sw_records := sw_records sw @ [waiting_record (identity_of facts i) (manifest_of byId i)
           (case jget (gp_waiting plan) i of None \<Rightarrow> [] | Some m \<Rightarrow> m)],
        sw_dispose := (case jget prev i of None \<Rightarrow> sw_dispose sw
          | Some old \<Rightarrow> sadd (ps_scope old) (sw_dispose sw))\<rparr>"

definition keep_state ::
  "string \<Rightarrow> plugin_state \<Rightarrow> kernel_error option \<Rightarrow> switch_state \<Rightarrow> switch_state" where
  "keep_state i s err sw =
     sw\<lparr>sw_next := jset i s (sw_next sw), sw_records := sw_records sw @ [active_record s err],
        sw_claimed := claim s (sw_claimed sw)\<rparr>"

definition publish_prepared ::
  "(string, plugin_state) jmap \<Rightarrow> plugin_state \<Rightarrow> switch_state \<Rightarrow> switch_state" where
  "publish_prepared prev s sw =
     (let i = instance_id (ps_identity s); sw' = keep_state i s None sw in
      sw'\<lparr>sw_dispose := (case jget prev i of None \<Rightarrow> sw_dispose sw'
          | Some old \<Rightarrow> if ps_scope old \<noteq> ps_scope s then sadd (ps_scope old) (sw_dispose sw')
              else sw_dispose sw')\<rparr>)"

definition keep_previous ::
  "(string, plugin_state) jmap \<Rightarrow> kernel_error \<Rightarrow> string \<Rightarrow> switch_state \<Rightarrow> switch_state" where
  "keep_previous prev e i sw =
     (case jget prev i of None \<Rightarrow> sw | Some old \<Rightarrow> keep_state i old (Some e) sw)"

definition record_failure ::
  "(string, plugin_state) jmap \<Rightarrow> (string, candidate) jmap \<Rightarrow> candidate_facts \<Rightarrow> string \<times> kernel_error \<Rightarrow>
     string \<Rightarrow> switch_state \<Rightarrow> switch_state" where
  "record_failure prev byId facts failure i sw =
     (if jhas prev i then sw
      else sw\<lparr>sw_records := sw_records sw @ [failed_record (identity_of facts i) (manifest_of byId i)
             (if i = fst failure then snd failure else Component_cancelled (fst failure)) ''activation_failed'']\<rparr>)"

definition component_unchanged ::
  "(string, plugin_state) jmap \<Rightarrow> candidate_facts \<Rightarrow> string list \<Rightarrow> bool" where
  "component_unchanged prev facts component \<longleftrightarrow>
     list_all (\<lambda>i. map_option ps_signature (jget prev i) = Some (signature_of facts i)) component"

definition switch_component ::
  "runtime_env \<Rightarrow> (string, plugin_state) jmap \<Rightarrow> (string, candidate) jmap \<Rightarrow> candidate_facts \<Rightarrow>
     graph_plan \<Rightarrow> string list \<Rightarrow> switch_state \<Rightarrow> switch_state option" where
  "switch_component env prev byId facts plan component sw0 =
     (let sw = sw0\<lparr>sw_component := foldl (\<lambda>m i. jset i component m) (sw_component sw0) component\<rparr> in
      if filter (jhas (gp_waiting plan)) component \<noteq> []
      then Some (fold (keep_waiting prev byId facts plan) component sw)
      else if component_unchanged prev facts component
      then Some (fold (\<lambda>i. keep_state i (the (jget prev i)) None) component sw)
      else case prepare_component env byId facts (sw_claimed sw) component (sw_scopes sw) (sw_failures sw) of
        None \<Rightarrow> None
      | Some r \<Rightarrow>
          let sw = sw\<lparr>sw_scopes := pr_scopes r, sw_failures := pr_failures r\<rparr> in
          (case pr_failure r of
             None \<Rightarrow> Some (fold (publish_prepared prev) (pr_prepared r)
               (sw\<lparr>sw_commit := sw_commit sw @ pr_prepared r\<rparr>))
           | Some failure \<Rightarrow>
               let sw = fold (record_failure prev byId facts failure) component
                     (fold (keep_previous prev (snd failure)) component sw) in
               if list_ex (jhas prev) component then Some sw
               else Some (sw\<lparr>sw_dispose := foldl (\<lambda>ds s. sadd (ps_scope s) ds) (sw_dispose sw) (pr_prepared r)\<rparr>)))"

fun switch_components ::
  "runtime_env \<Rightarrow> (string, plugin_state) jmap \<Rightarrow> (string, candidate) jmap \<Rightarrow> candidate_facts \<Rightarrow>
     graph_plan \<Rightarrow> string list list \<Rightarrow> switch_state \<Rightarrow> switch_state option" where
  "switch_components env prev byId facts plan [] sw = Some sw"
| "switch_components env prev byId facts plan (component # cs) sw =
     (case switch_component env prev byId facts plan component sw of
        None \<Rightarrow> None
      | Some sw' \<Rightarrow> switch_components env prev byId facts plan cs sw')"

section \<open>Committing\<close>

definition rollback_component ::
  "(string, plugin_state) jmap \<Rightarrow> (string, candidate) jmap \<Rightarrow> candidate_facts \<Rightarrow> string \<Rightarrow> kernel_error \<Rightarrow>
     string \<Rightarrow> switch_state \<Rightarrow> switch_state" where
  "rollback_component prev byId facts failed e i sw =
     (let next = jdel i (sw_next sw) in
      case jget prev i of
        Some old \<Rightarrow> sw\<lparr>sw_next := jset i old next, sw_dispose := removeAll (ps_scope old) (sw_dispose sw),
                       sw_records := sw_records sw @ [active_record old (Some e)]\<rparr>
      | None \<Rightarrow> sw\<lparr>sw_next := next, sw_records := sw_records sw @ [failed_record (identity_of facts i)
             (manifest_of byId i) (if i = failed then e else Commit_cancelled failed) ''activation_failed'']\<rparr>)"

definition commit_failed ::
  "(string, plugin_state) jmap \<Rightarrow> (string, candidate) jmap \<Rightarrow> candidate_facts \<Rightarrow> plugin_state \<Rightarrow>
     kernel_error \<Rightarrow> cleanup_diagnostic list \<times> switch_state \<Rightarrow> cleanup_diagnostic list \<times> switch_state" where
  "commit_failed prev byId facts s e acc =
     (case acc of (diags, sw) \<Rightarrow>
       let i = instance_id (ps_identity s);
           component = (case jget (sw_component sw) i of None \<Rightarrow> [i] | Some c \<Rightarrow> c);
           rollback = filter (\<lambda>t. instance_id (ps_identity t) \<in> set component) (sw_commit sw);
           (ds, scopes) = cleanup_states rollback Rollback (sw_scopes sw);
           sw' = sw\<lparr>sw_scopes := scopes,
                    sw_records := filter (\<lambda>r. rr_instance r \<notin> set component) (sw_records sw)\<rparr>
       in (diags @ ds, fold (rollback_component prev byId facts i e) component sw'))"

fun commit_states ::
  "(string, plugin_state) jmap \<Rightarrow> (string, candidate) jmap \<Rightarrow> candidate_facts \<Rightarrow> plugin_state list \<Rightarrow>
     cleanup_diagnostic list \<times> switch_state \<Rightarrow> (cleanup_diagnostic list \<times> switch_state) option" where
  "commit_states prev byId facts [] acc = Some acc"
| "commit_states prev byId facts (s # ss) acc =
     (case acc of (diags, sw) \<Rightarrow>
       if map_option ps_scope (jget (sw_next sw) (instance_id (ps_identity s))) \<noteq> Some (ps_scope s)
       then commit_states prev byId facts ss acc
       else case scope_commit (sw_scopes sw ! ps_scope s) of
         None \<Rightarrow> None
       | Some (Inr _, scope) \<Rightarrow>
           commit_states prev byId facts ss (diags, sw\<lparr>sw_scopes := (sw_scopes sw)[ps_scope s := scope]\<rparr>)
       | Some (Inl e, scope) \<Rightarrow>
           commit_states prev byId facts ss
             (commit_failed prev byId facts s e
               (diags, sw\<lparr>sw_scopes := (sw_scopes sw)[ps_scope s := scope]\<rparr>)))"

section \<open>switch\<close>

definition by_id_map :: "candidate list \<Rightarrow> (string, candidate) jmap" where
  "by_id_map cs = foldl (\<lambda>m c. jset (js_trim (c_instance_id c)) c m) [] cs"

definition switch_unchanged ::
  "runtime \<Rightarrow> candidate list \<Rightarrow> (string, candidate) jmap \<Rightarrow> candidate_facts \<Rightarrow> string list \<Rightarrow> bool" where
  "switch_unchanged rt cs byId facts ready \<longleftrightarrow>
     length cs = length (rt_active rt) \<and> component_unchanged (rt_active rt) facts (jkeys byId) \<and>
     list_all (\<lambda>r. \<not> degraded_record r) (g_records (rt_current rt)) \<and>
     g_ready_requires (rt_current rt) = ready"

record switch_result =
  sr_changed :: bool
  sr_generation :: generation
  sr_previous :: "nat option"

text \<open>The part of a switch after its commits: the snapshots, the readiness test, the new
  generation, and the disposal of what it supersedes.\<close>

definition publish_switch ::
  "runtime_env \<Rightarrow> runtime \<Rightarrow> nat \<Rightarrow> string list \<Rightarrow> cleanup_diagnostic list \<times> switch_state \<Rightarrow>
     (kernel_error, switch_result) res \<times> runtime" where
  "publish_switch env rt gid ready acc =
     (case acc of (diags, sw) \<Rightarrow>
       let rt1 = rt\<lparr>rt_scopes := sw_scopes sw, rt_failures := sw_failures sw\<rparr> in
       case build_snapshots (jvals (sw_next sw)) (rn_host_services env) of
         Inl e \<Rightarrow> (Inl e, rt1)
       | Inr (services, draft) \<Rightarrow>
           let missing = filter (\<lambda>cap. \<not> jhas services cap) ready in
           if missing \<noteq> []
           then (Inl (Ready_capabilities_missing missing),
                 rt1\<lparr>rt_scopes := snd (cleanup_states (sw_commit sw) Rollback (sw_scopes sw))\<rparr>)
           else
             let g = \<lparr>g_id = gid, g_sequence = rt_sequence rt + 1, g_ready_requires = ready,
                   g_readiness = (if list_ex degraded_record (sw_records sw) then Degraded else Ready),
                   g_missing = missing,
                   g_records = js_sort (\<lambda>l r. rn_collate env (rr_instance l) (rr_instance r) \<le> 0) (sw_records sw),
                   g_services = services, g_contributions = cd_values draft, g_cleanup = diags\<rparr>;
                 retained = map ps_scope (jvals (sw_next sw));
                 superseded = filter (\<lambda>s. ps_scope s \<in> set (sw_dispose sw) \<and> ps_scope s \<notin> set retained)
                   (jvals (rt_active rt));
                 (ds, scopes) = cleanup_states superseded Superseded (sw_scopes sw);
                 published = g\<lparr>g_cleanup := diags @ ds\<rparr>
             in (Inr \<lparr>sr_changed = True, sr_generation = published, sr_previous = Some (g_id (rt_current rt))\<rparr>,
                 rt1\<lparr>rt_sequence := rt_sequence rt + 1, rt_active := sw_next sw, rt_current := published,
                     rt_scopes := scopes, rt_fresh := Suc gid\<rparr>))"

definition dispose_unlisted ::
  "string list \<Rightarrow> string \<times> plugin_state \<Rightarrow> switch_state \<Rightarrow> switch_state" where
  "dispose_unlisted desired p sw =
     (if fst p \<notin> set desired \<or> \<not> jhas (sw_next sw) (fst p)
      then sw\<lparr>sw_dispose := sadd (ps_scope (snd p)) (sw_dispose sw)\<rparr> else sw)"

text \<open>The part between the checks and the publication: every component is prepared, the
  snapshots are tried once, and the prepared scopes are committed.\<close>

definition prepare_and_commit ::
  "runtime_env \<Rightarrow> runtime \<Rightarrow> (string, candidate) jmap \<Rightarrow> candidate_facts \<Rightarrow> graph_plan \<Rightarrow>
     string list list \<Rightarrow> ((kernel_error, cleanup_diagnostic list \<times> switch_state) res \<times> runtime) option" where
  "prepare_and_commit env rt byId facts plan components =
     (case switch_components env (rt_active rt) byId facts plan components
            \<lparr>sw_next = [], sw_records = [], sw_claimed = [], sw_dispose = [], sw_commit = [],
             sw_component = [], sw_scopes = rt_scopes rt, sw_failures = rt_failures rt\<rparr> of
        None \<Rightarrow> None
      | Some sw1 \<Rightarrow>
          let sw = fold (dispose_unlisted (jkeys byId)) (rt_active rt) sw1 in
          (case build_snapshots (jvals (sw_next sw)) (rn_host_services env) of
             Inl e \<Rightarrow> Some (Inl e, rt\<lparr>rt_failures := sw_failures sw,
               rt_scopes := snd (cleanup_states (sw_commit sw) Rollback (sw_scopes sw))\<rparr>)
           | Inr _ \<Rightarrow>
               (case commit_states (rt_active rt) byId facts (sw_commit sw) ([], sw) of
                  None \<Rightarrow> None
                | Some acc \<Rightarrow> Some (Inr acc, rt))))"

definition switch_now ::
  "runtime_env \<Rightarrow> candidate list \<Rightarrow> string list option \<Rightarrow> runtime \<Rightarrow>
     ((kernel_error, switch_result) res \<times> runtime) option" where
  "switch_now env cs ready_opt rt =
     (if rt_disposed rt then Some (Inl Runtime_disposed, rt)
      else let ready = sort (case ready_opt of None \<Rightarrow> rn_default_ready env | Some r \<Rightarrow> r) in
      case plan_capability_graph cs (map hs_capability (rn_host_services env)) of
        Inl e \<Rightarrow> Some (Inl e, rt)
      | Inr plan \<Rightarrow>
          let byId = by_id_map cs in
          (case identify_candidates env byId (rt_fresh rt) of
             Inl e \<Rightarrow> Some (Inl e, rt)
           | Inr facts \<Rightarrow>
               if switch_unchanged rt cs byId facts ready
               then Some (Inr \<lparr>sr_changed = False, sr_generation = rt_current rt, sr_previous = None\<rparr>,
                      rt\<lparr>rt_fresh := rt_fresh rt + length cs\<rparr>)
               else case dependency_components (rn_collate env) byId plan of
                 Inl e \<Rightarrow> Some (Inl e, rt)
               | Inr components \<Rightarrow>
                   (case prepare_and_commit env rt byId facts plan components of
                      None \<Rightarrow> None
                    | Some (Inl e, rt') \<Rightarrow> Some (Inl e, rt')
                    | Some (Inr acc, rt') \<Rightarrow>
                        Some (publish_switch env rt' (rt_fresh rt + length cs) ready acc))))"

section \<open>Runtime failures and disposal\<close>

text \<open>One pass of the loop that collects what depends on a removed plugin. The capabilities
  are those of the plugins removed before the pass.\<close>

definition removed_capabilities :: "plugin_state list \<Rightarrow> string list \<Rightarrow> string list" where
  "removed_capabilities states removed =
     concat (map (\<lambda>s. m_provides (ps_manifest s))
       (filter (\<lambda>s. instance_id (ps_identity s) \<in> set removed) states))"

definition removal_step :: "string list \<Rightarrow> string list \<Rightarrow> plugin_state \<Rightarrow> string list" where
  "removal_step caps acc s =
     (if instance_id (ps_identity s) \<in> set acc then acc
      else if list_ex (\<lambda>cap. cap \<in> set caps) (m_requires (ps_manifest s))
      then acc @ [instance_id (ps_identity s)] else acc)"

definition removal_pass :: "plugin_state list \<Rightarrow> string list \<Rightarrow> string list" where
  "removal_pass states removed =
     foldl (removal_step (removed_capabilities states removed)) removed states"

lemma removal_fold_bounds:
  "set acc \<subseteq> set (foldl (removal_step caps) acc xs) \<and>
   set (foldl (removal_step caps) acc xs) \<subseteq> set acc \<union> (\<lambda>s. instance_id (ps_identity s)) ` set xs"
proof (induction xs arbitrary: acc)
  case (Cons x xs)
  have "set acc \<subseteq> set (removal_step caps acc x) \<and>
      set (removal_step caps acc x) \<subseteq> insert (instance_id (ps_identity x)) (set acc)"
    by (auto simp: removal_step_def)
  with Cons [of "removal_step caps acc x"] show ?case by auto
qed simp

lemma removal_pass_grows: "set removed \<subseteq> set (removal_pass states removed)"
  and removal_pass_bound:
  "set (removal_pass states removed) \<subseteq> set removed \<union> (\<lambda>s. instance_id (ps_identity s)) ` set states"
  using removal_fold_bounds unfolding removal_pass_def by blast+

function removal_closure :: "plugin_state list \<Rightarrow> string list \<Rightarrow> string list" where
  "removal_closure states removed =
     (let removed' = removal_pass states removed in
      if set removed' \<noteq> set removed then removal_closure states removed' else removed)"
  by pat_completeness auto
termination removal_closure
proof (relation "measure (\<lambda>(states, removed).
    card ((\<lambda>s. instance_id (ps_identity s)) ` set states - set removed))", goal_cases)
  case (2 states removed removed')
  with removal_pass_grows [of removed states] removal_pass_bound [of states removed]
  have "(\<lambda>s. instance_id (ps_identity s)) ` set states - set removed'
      \<subset> (\<lambda>s. instance_id (ps_identity s)) ` set states - set removed" by auto
  then show ?case by (simp add: psubset_card_mono)
qed simp

declare removal_closure.simps [simp del]

definition handle_runtime_failure ::
  "runtime_env \<Rightarrow> identity \<Rightarrow> kernel_error \<Rightarrow> runtime \<Rightarrow> (kernel_error, unit) res \<times> runtime" where
  "handle_runtime_failure env ident e rt =
     (if rt_disposed rt then (Inr (), rt)
      else case jget (rt_active rt) (instance_id ident) of
        None \<Rightarrow> (Inr (), rt)
      | Some failed \<Rightarrow>
        if activation_id (ps_identity failed) \<noteq> activation_id ident then (Inr (), rt)
        else
          let removed = removal_closure (jvals (rt_active rt)) [instance_id ident];
              gone = filter (\<lambda>s. instance_id (ps_identity s) \<in> set removed) (jvals (rt_active rt));
              remaining = filter (\<lambda>p. fst p \<notin> set removed) (rt_active rt);
              previous = rt_current rt;
              rt1 = rt\<lparr>rt_active := remaining\<rparr>
          in case build_snapshots (jvals remaining) (rn_host_services env) of
               Inl x \<Rightarrow> (Inl x, rt1)
             | Inr (services, draft) \<Rightarrow>
                 let records = js_sort (\<lambda>l r. rn_collate env (rr_instance l) (rr_instance r) \<le> 0)
                       (map (\<lambda>s. active_record s None) (jvals remaining) @
                        filter (\<lambda>r. \<not> jhas remaining (rr_instance r) \<and> rr_instance r \<notin> set removed)
                          (g_records previous) @
                        map (\<lambda>s. if instance_id (ps_identity s) = instance_id ident
                          then failed_record (ps_identity s) (ps_manifest s) e ''runtime_failed''
                          else waiting_record (ps_identity s) (ps_manifest s)
                            (filter (\<lambda>cap. \<not> jhas services cap) (m_requires (ps_manifest s)))) gone);
                     missing = filter (\<lambda>cap. \<not> jhas services cap) (g_ready_requires previous);
                     (ds, scopes) = cleanup_states gone Runtime_failure (rt_scopes rt)
                 in (Inr (), rt1\<lparr>rt_sequence := rt_sequence rt + 1, rt_scopes := scopes,
                      rt_fresh := Suc (rt_fresh rt),
                      rt_current := \<lparr>g_id = rt_fresh rt, g_sequence = rt_sequence rt + 1,
                        g_ready_requires = g_ready_requires previous,
                        g_readiness = (if missing \<noteq> [] \<or> list_ex degraded_record records
                          then Degraded else Ready),
                        g_missing = missing, g_records = records, g_services = services,
                        g_contributions = cd_values draft, g_cleanup = ds\<rparr>\<rparr>))"

definition dispose_now :: "runtime \<Rightarrow> (kernel_error, unit) res \<times> runtime" where
  "dispose_now rt =
     (if rt_disposed rt then (Inr (), rt)
      else case cleanup_states (jvals (rt_active rt)) Shutdown (rt_scopes rt) of
        (ds, scopes) \<Rightarrow>
          let rt' = rt\<lparr>rt_disposed := True, rt_active := [], rt_scopes := scopes\<rparr> in
          if ds \<noteq> []
          then (Inl (Cleanup_failed (map cg_error ds)),
                rt'\<lparr>rt_current := (rt_current rt)\<lparr>g_cleanup := g_cleanup (rt_current rt) @ ds\<rparr>\<rparr>)
          else (Inr (), rt'))"

definition new_runtime :: "runtime_env \<Rightarrow> (kernel_error, runtime) res" where
  "new_runtime env =
     bindr (service_draft (rn_host_services env)) (\<lambda>services.
       let ready = sort (rn_default_ready env) in
       Inr \<lparr>rt_disposed = False, rt_sequence = 0,
            rt_current = \<lparr>g_id = 0, g_sequence = 0, g_ready_requires = ready,
              g_readiness = (if ready \<noteq> [] then Degraded else Ready), g_missing = ready, g_records = [],
              g_services = services, g_contributions = [], g_cleanup = []\<rparr>,
            rt_active = [], rt_scopes = [], rt_failures = [], rt_fresh = 1\<rparr>)"

text \<open>\<open>publishSourcePatch\<close> runs its operation only while the expected generation is current.\<close>

definition publish_source_patch :: "nat \<Rightarrow> runtime \<Rightarrow> (kernel_error, unit) res" where
  "publish_source_patch expected rt =
     (if rt_disposed rt then Inl Runtime_disposed
      else if g_id (rt_current rt) \<noteq> expected then Inl Generation_not_active
      else Inr ())"

end
