(* ===== verification/GenerationSwitch.thy ===== *)
theory GenerationSwitch
  imports GenerationRuntime
begin

text \<open>
  What a switch of the plugin generation runtime guarantees: the scopes of earlier
  generations are not touched before the new generation is published, a switch that fails
  changes nothing that can be observed, and every scope is disposed or belongs to an active
  plugin. The proofs follow the phases of the switch: preparing the components
  (\<open>switch_inv\<close>), committing (\<open>commit_inv\<close>), publishing.
\<close>

section \<open>Scopes under cleanup\<close>

declare map_of_eq_Some_iff [simp del]

lemma length_dispose_at [simp]: "length (dispose_at a scopes) = length scopes"
  by (simp add: dispose_at_def)

lemma dispose_at_nth: "b < length scopes \<Longrightarrow>
    dispose_at a scopes ! b = (if a = b then snd (scope_dispose (scopes ! b)) else scopes ! b)"
  by (auto simp: dispose_at_def nth_list_update)

lemma length_fold_dispose [simp]: "length (fold (\<lambda>s. dispose_at (ps_scope s)) us scopes) = length scopes"
  by (induction us arbitrary: scopes) auto

lemma fold_dispose_nth: "b < length scopes \<Longrightarrow>
    fold (\<lambda>s. dispose_at (ps_scope s)) us scopes ! b =
      (if b \<in> ps_scope ` set us then snd (scope_dispose (scopes ! b)) else scopes ! b)"
  by (induction us arbitrary: scopes) (auto simp: dispose_at_nth)

lemma unique_by_scope_set: "ps_scope ` set (unique_by_scope states) = ps_scope ` set states"
  and unique_by_scope_sub: "set (unique_by_scope states) \<subseteq> set states"
proof -
  let ?F = "foldl (\<lambda>m s. jset (ps_scope s) s m)"
  have mem: "(k, v) \<in> set (?F [] states) \<Longrightarrow> v \<in> set states \<and> ps_scope v = k" for k v
    using foldl_jset_mem [of "(k, v)" ps_scope "\<lambda>s. s" "[]" states] by auto
  then have f: "\<forall>(k, v) \<in> set (?F [] states). ps_scope v = k"
      "set (jkeys (?F [] states)) = ps_scope ` set states" "set (jvals (?F [] states)) \<subseteq> set states"
    using foldl_jset_keys [of ps_scope "\<lambda>s. s" "[]" states] by auto
  from f(1) have "map ps_scope (jvals (?F [] states)) = jkeys (?F [] states)"
    by (auto simp: comp_def)
  then have "ps_scope ` set (jvals (?F [] states)) = set (jkeys (?F [] states))"
    by (metis set_map)
  with f show "ps_scope ` set (unique_by_scope states) = ps_scope ` set states"
    and "set (unique_by_scope states) \<subseteq> set states"
    by (simp_all add: unique_by_scope_def)
qed

lemma length_cleanup_states [simp]: "length (snd (cleanup_states states ph scopes)) = length scopes"
  by (simp add: cleanup_states_def Let_def)

lemma cleanup_states_nth: "b < length scopes \<Longrightarrow>
    snd (cleanup_states states ph scopes) ! b =
      (if b \<in> ps_scope ` set states then snd (scope_dispose (scopes ! b)) else scopes ! b)"
  by (simp add: cleanup_states_def Let_def fold_dispose_nth unique_by_scope_set)

text \<open>The first \<open>n\<close> scopes of the store, those of the generations before, are as they were.\<close>

definition keeps :: "nat \<Rightarrow> effect_scope list \<Rightarrow> effect_scope list \<Rightarrow> bool" where
  "keeps n xs ys \<longleftrightarrow> length xs \<le> length ys \<and> (\<forall>b < n. b < length xs \<longrightarrow> ys ! b = xs ! b)"

lemma keeps_refl [simp]: "keeps n xs xs"
  by (simp add: keeps_def)

lemma keeps_trans: "keeps n xs ys \<Longrightarrow> keeps n ys zs \<Longrightarrow> keeps n xs zs"
  by (simp add: keeps_def)

lemma keeps_append [simp]: "keeps n xs (xs @ ys)"
  by (simp add: keeps_def nth_append)

lemma keeps_update: "n \<le> a \<Longrightarrow> keeps n xs (xs[a := x])"
  by (simp add: keeps_def)

lemma keeps_cleanup: "\<forall>s \<in> set states. n \<le> ps_scope s \<Longrightarrow> keeps n xs (snd (cleanup_states states ph xs))"
  by (auto simp: keeps_def cleanup_states_nth)

lemma keeps_fold_dispose: "\<forall>s \<in> set us. n \<le> ps_scope s \<Longrightarrow>
    keeps n xs (fold (\<lambda>s. dispose_at (ps_scope s)) us xs)"
  by (auto simp: keeps_def fold_dispose_nth)

lemma keeps_take: "keeps (length xs) xs ys \<Longrightarrow> take (length xs) ys = xs"
  by (auto simp: keeps_def intro: nth_equalityI)

section \<open>A plugin's calls\<close>

lemma of_scope_scope:
  "snd (of_scope r st) = st \<or> (\<exists>s. r = Inr s \<and> snd (of_scope r st) = st\<lparr>av_scope := s\<rparr>)"
  by (auto simp: of_scope_def split: sum.splits)

text \<open>A scope that a plugin has been using is neither committed nor disposed.\<close>

lemma run_plugin_scope_open:
  "\<not> es_disposed (av_scope st) \<and> \<not> es_committed (av_scope st) \<Longrightarrow>
     \<not> es_disposed (av_scope (snd (run_plugin t env prog st))) \<and>
     \<not> es_committed (av_scope (snd (run_plugin t env prog st)))"
proof (rule run_plugin_invariant [where I = "\<lambda>st. \<not> es_disposed (av_scope st) \<and> \<not> es_committed (av_scope st)"])
  fix c and st :: activation_state assume "\<not> es_disposed (av_scope st) \<and> \<not> es_committed (av_scope st)"
  then show "\<not> es_disposed (av_scope (snd (context_call_step env c st))) \<and>
      \<not> es_committed (av_scope (snd (context_call_step env c st)))"
    by (cases c)
      (auto simp: context_provide_def context_register_def of_scope_def scope_add_def scope_adopt_def Let_def
        split: option.splits if_splits)
qed

text \<open>One instance takes the next address of the store, and its scope is disposed when it fails.\<close>

lemma activate_instance_scopes:
  assumes "activate_instance env c facts permissions claimed keys values scopes failures = Some (r, scopes', fs)"
  shows "\<exists>scope. scopes' = scopes @ [scope] \<and>
    (case r of Inl e \<Rightarrow> es_disposed scope
     | Inr (s, values') \<Rightarrow> ps_scope s = length scopes \<and> ps_identity s = fst facts \<and>
         \<not> es_disposed scope \<and> \<not> es_committed scope)"
proof -
  obtain ident g sig where f: "facts = (ident, g, sig)" by (cases facts)
  let ?scope = "new_scope (map_option (\<lambda>p. rs_shutdown_timeout_ms (ip_resources p)) (c_policy c))"
  let ?av = "\<lparr>av_candidate = c, av_identity = ident, av_permissions = permissions, av_claimed = claimed\<rparr>"
  let ?st = "\<lparr>av_services = values, av_provided = [], av_plugin_services = [], av_keys = keys,
      av_contributions = [], av_scope = ?scope, av_failures = failures\<rparr>"
  have "\<not> es_disposed (av_scope (snd (run_plugin (rn_timeout env) ?av prog ?st))) \<and>
      \<not> es_committed (av_scope (snd (run_plugin (rn_timeout env) ?av prog ?st)))" for prog
    by (rule run_plugin_scope_open) (simp add: new_scope_def)
  then have op: "run_plugin (rn_timeout env) ?av prog ?st = (x, st') \<Longrightarrow>
      \<not> es_disposed (av_scope st') \<and> \<not> es_committed (av_scope st')" for prog x st'
    by (metis snd_conv)
  show ?thesis
    using assms
    by (auto simp: activate_instance_def f Let_def split: option.splits sum.splits prod.splits if_splits
        dest!: op)
qed

section \<open>The invariant of a switch\<close>

text \<open>States that hold distinct open scopes at addresses from \<open>n\<close> on; every other address from
  \<open>n\<close> on holds a disposed scope.\<close>

definition fresh_states :: "nat \<Rightarrow> effect_scope list \<Rightarrow> plugin_state list \<Rightarrow> bool" where
  "fresh_states n scopes states \<longleftrightarrow>
     distinct (map ps_scope states) \<and>
     (\<forall>s \<in> set states. n \<le> ps_scope s \<and> ps_scope s < length scopes \<and>
        \<not> es_disposed (scopes ! ps_scope s) \<and> \<not> es_committed (scopes ! ps_scope s)) \<and>
     (\<forall>a. n \<le> a \<longrightarrow> a < length scopes \<longrightarrow> a \<notin> ps_scope ` set states \<longrightarrow> es_disposed (scopes ! a))"

lemma fresh_states_nil: "n = length scopes \<Longrightarrow> fresh_states n scopes []"
  by (simp add: fresh_states_def)

lemma fresh_states_snoc:
  assumes "fresh_states n scopes states" and "ps_scope s = length scopes"
    and "\<not> es_disposed scope" and "\<not> es_committed scope" and "n \<le> length scopes"
  shows "fresh_states n (scopes @ [scope]) (states @ [s])"
  using assms by (auto simp: fresh_states_def nth_append less_Suc_eq)

lemma fresh_states_disposed:
  "fresh_states n scopes states \<Longrightarrow> es_disposed scope \<Longrightarrow> n \<le> length scopes \<Longrightarrow>
     fresh_states n (scopes @ [scope]) states"
  by (auto simp: fresh_states_def nth_append less_Suc_eq)

lemma fresh_states_extend:
  assumes "fresh_states n scopes states" and "fresh_states (length scopes) scopes' states'"
    and "keeps (length scopes) scopes scopes'" and "n \<le> length scopes"
  shows "fresh_states n scopes' (states @ states')"
proof -
  have old: "scopes' ! a = scopes ! a" if "a < length scopes" for a
    using assms(3) that by (simp add: keeps_def)
  have len: "length scopes \<le> length scopes'" using assms(3) by (simp add: keeps_def)
  have 1: "ps_scope s < length scopes" if "s \<in> set states" for s
    using assms(1) that by (simp add: fresh_states_def)
  have 2: "length scopes \<le> ps_scope s" if "s \<in> set states'" for s
    using assms(2) that by (simp add: fresh_states_def)
  have "ps_scope ` set states \<inter> ps_scope ` set states' = {}"
    using 1 2 by (fastforce simp: not_less [symmetric])
  moreover have "es_disposed (scopes' ! a)"
    if "n \<le> a" "a < length scopes'" "a \<notin> ps_scope ` (set states \<union> set states')" for a
  proof (cases "a < length scopes")
    case True
    with that assms(1) old [OF True] show ?thesis by (auto simp: fresh_states_def)
  next
    case False
    moreover have "a \<notin> ps_scope ` set states'" using that(3) by blast
    ultimately show ?thesis using that(2) assms(2) by (auto simp: fresh_states_def)
  qed
  moreover have "n \<le> ps_scope s" if "s \<in> set states'" for s
    using 2 [OF that] assms(4) by simp
  ultimately have "distinct (map ps_scope (states @ states'))"
    and d: "\<forall>a. n \<le> a \<longrightarrow> a < length scopes' \<longrightarrow>
      a \<notin> ps_scope ` set (states @ states') \<longrightarrow> es_disposed (scopes' ! a)"
    and "\<forall>s \<in> set states'. n \<le> ps_scope s \<and> ps_scope s < length scopes' \<and>
        \<not> es_disposed (scopes' ! ps_scope s) \<and> \<not> es_committed (scopes' ! ps_scope s)"
    using assms(1,2) unfolding fresh_states_def by simp_all
  moreover have "n \<le> ps_scope s \<and> ps_scope s < length scopes' \<and>
      \<not> es_disposed (scopes' ! ps_scope s) \<and> \<not> es_committed (scopes' ! ps_scope s)"
    if "s \<in> set states" for s
    using assms(1) that old [OF 1 [OF that]] order_less_le_trans [OF 1 [OF that] len]
    by (simp add: fresh_states_def)
  ultimately show ?thesis unfolding fresh_states_def set_append by blast
qed

lemma prepare_instances_scopes:
  assumes "prepare_instances env byId facts claimed first is values r = Some r'"
    and "fresh_states n (pr_scopes r) (pr_prepared r)" and "n \<le> length (pr_scopes r)"
    and "keeps n scopes0 (pr_scopes r)"
    and "list_all2 (\<lambda>s i. ps_identity s = identity_of facts i) (pr_prepared r) done"
  shows "fresh_states n (pr_scopes r') (pr_prepared r') \<and> n \<le> length (pr_scopes r') \<and>
    keeps n scopes0 (pr_scopes r') \<and>
    (\<exists>k \<le> length is. list_all2 (\<lambda>s i. ps_identity s = identity_of facts i) (pr_prepared r') (done @ take k is) \<and>
       (pr_failure r = None \<longrightarrow> pr_failure r' = None \<longrightarrow> k = length is))"
  using assms
proof (induction "is" arbitrary: "values" r "done")
  case (Cons i "is")
  show ?case
  proof (cases "\<exists>c ident granted sig permissions s values' scopes fs.
      jget byId i = Some c \<and> jget facts i = Some (ident, granted, sig) \<and>
      granted_permissions (m_permissions (c_manifest c)) granted = Inr permissions \<and>
      activate_instance env c (ident, granted, sig) permissions claimed
        (contribution_keys_of (pr_prepared r)) values (pr_scopes r) (pr_failures r) = Some (Inr (s, values'), scopes, fs)")
    case True
    then obtain c ident granted sig permissions s values' scopes fs where
      b: "jget byId i = Some c" "jget facts i = Some (ident, granted, sig)"
        "granted_permissions (m_permissions (c_manifest c)) granted = Inr permissions"
      and act: "activate_instance env c (ident, granted, sig) permissions claimed
        (contribution_keys_of (pr_prepared r)) values (pr_scopes r) (pr_failures r) = Some (Inr (s, values'), scopes, fs)"
      by blast
    let ?r = "r\<lparr>pr_prepared := pr_prepared r @ [s], pr_scopes := scopes, pr_failures := fs\<rparr>"
    from Cons.prems(1) b act have rest:
      "prepare_instances env byId facts claimed first is values' ?r = Some r'" by simp
    from activate_instance_scopes [OF act] obtain scope where
      sc: "scopes = pr_scopes r @ [scope]" "ps_scope s = length (pr_scopes r)" "ps_identity s = ident"
        "\<not> es_disposed scope" "\<not> es_committed scope" by auto
    have k: "keeps n scopes0 (pr_scopes ?r)"
      using Cons.prems(4) sc(1) by (auto intro: keeps_trans)
    have l: "list_all2 (\<lambda>s i. ps_identity s = identity_of facts i) (pr_prepared ?r) (done @ [i])"
      using Cons.prems(5) sc(3) b(2) by (simp add: list_all2_appendI identity_of_def)
    have f: "fresh_states n (pr_scopes ?r) (pr_prepared ?r)" and "n \<le> length (pr_scopes ?r)"
      using Cons.prems(2,3) sc by (simp_all add: fresh_states_snoc)
    have "\<exists>k \<le> length is. list_all2 (\<lambda>s i. ps_identity s = identity_of facts i) (pr_prepared r') ((done @ [i]) @ take k is) \<and>
       (pr_failure r = None \<longrightarrow> pr_failure r' = None \<longrightarrow> k = length is)"
      and "fresh_states n (pr_scopes r') (pr_prepared r') \<and> n \<le> length (pr_scopes r') \<and>
        keeps n scopes0 (pr_scopes r')"
      using Cons.IH [OF rest f \<open>n \<le> length (pr_scopes ?r)\<close> k l] by simp_all
    then show ?thesis by (metis append.assoc append_Cons append_Nil length_Cons take_Suc_Cons Suc_le_mono)
  next
    case False
    with Cons.prems(1) have "(pr_failure r' \<noteq> None) \<and> pr_prepared r' = pr_prepared r \<and>
        (pr_scopes r' = pr_scopes r \<or> (\<exists>scope. es_disposed scope \<and> pr_scopes r' = pr_scopes r @ [scope]))"
      by (auto split: option.splits sum.splits prod.splits dest!: activate_instance_scopes)
    with Cons.prems(2-5) show ?thesis
      by (auto simp: fresh_states_disposed intro: keeps_trans intro!: exI [of _ 0])
  qed
qed (auto intro!: exI [of _ 0])

lemma prepare_component_scopes:
  assumes "prepare_component env byId facts claimed component scopes failures = Some r"
  shows "keeps (length scopes) scopes (pr_scopes r)"
    and "pr_failure r = None \<Longrightarrow> fresh_states (length scopes) (pr_scopes r) (pr_prepared r) \<and>
      list_all2 (\<lambda>s i. ps_identity s = identity_of facts i) (pr_prepared r) component"
    and "pr_failure r \<noteq> None \<Longrightarrow> fresh_states (length scopes) (pr_scopes r) []"
proof -
  let ?r0 = "\<lparr>pr_failure = None, pr_prepared = [], pr_scopes = scopes, pr_failures = failures\<rparr>"
  from assms obtain q where q: "prepare_instances env byId facts claimed (hd component) component
      (host_service_values (rn_host_services env)) ?r0 = Some q"
    and r: "r = (case pr_failure q of None \<Rightarrow> q | Some _ \<Rightarrow>
      q\<lparr>pr_scopes := fold (\<lambda>s. dispose_at (ps_scope s)) (rev (pr_prepared q)) (pr_scopes q)\<rparr>)"
    by (auto simp: prepare_component_def split: option.splits)
  have i: "fresh_states (length scopes) (pr_scopes q) (pr_prepared q) \<and> length scopes \<le> length (pr_scopes q) \<and>
    keeps (length scopes) scopes (pr_scopes q) \<and>
    (\<exists>k \<le> length component. list_all2 (\<lambda>s i. ps_identity s = identity_of facts i) (pr_prepared q) ([] @ take k component) \<and>
       (pr_failure ?r0 = None \<longrightarrow> pr_failure q = None \<longrightarrow> k = length component))"
    by (rule prepare_instances_scopes [OF q]) (simp_all add: fresh_states_nil)
  have n: "length scopes \<le> ps_scope s" if "s \<in> set (pr_prepared q)" for s
    using i that by (simp add: fresh_states_def)
  show "keeps (length scopes) scopes (pr_scopes r)"
    using i n by (auto simp: r split: option.split intro!: keeps_trans [OF _ keeps_fold_dispose])
  show "pr_failure r = None \<Longrightarrow> fresh_states (length scopes) (pr_scopes r) (pr_prepared r) \<and>
      list_all2 (\<lambda>s i. ps_identity s = identity_of facts i) (pr_prepared r) component"
    using i by (auto simp: r split: option.splits)
  show "pr_failure r \<noteq> None \<Longrightarrow> fresh_states (length scopes) (pr_scopes r) []"
    using i by (auto simp: r fresh_states_def fold_dispose_nth split: option.splits)
qed

definition ps_instance :: "plugin_state \<Rightarrow> string" where
  "ps_instance s = instance_id (ps_identity s)"

text \<open>\<open>pend\<close> are the prepared states of the current component that are not published yet.\<close>

definition switch_inv ::
  "(string, plugin_state) jmap \<Rightarrow> effect_scope list \<Rightarrow> plugin_state list \<Rightarrow> switch_state \<Rightarrow> bool" where
  "switch_inv prev scopes0 pend sw \<longleftrightarrow>
     keeps (length scopes0) scopes0 (sw_scopes sw) \<and>
     fresh_states (length scopes0) (sw_scopes sw) (sw_commit sw) \<and>
     distinct (jkeys (sw_next sw)) \<and>
     (\<forall>i s. jget (sw_next sw) i = Some s \<longrightarrow>
        jget prev i = Some s \<or> (s \<in> set (sw_commit sw) \<and> ps_instance s = i)) \<and>
     (\<forall>s \<in> set (sw_commit sw). s \<in> set pend \<or> jget (sw_next sw) (ps_instance s) = Some s) \<and>
     (\<forall>i old. jget prev i = Some old \<longrightarrow> jhas (sw_next sw) i \<longrightarrow> jget (sw_next sw) i \<noteq> Some old \<longrightarrow>
        ps_scope old \<in> set (sw_dispose sw)) \<and>
     (\<forall>i c. jget (sw_component sw) i = Some c \<longrightarrow> i \<in> set c)"

lemma switch_inv_same_next:
  "switch_inv prev scopes0 pend sw \<Longrightarrow> sw_scopes sw' = sw_scopes sw \<Longrightarrow> sw_commit sw' = sw_commit sw \<Longrightarrow>
     sw_next sw' = sw_next sw \<Longrightarrow> set (sw_dispose sw) \<subseteq> set (sw_dispose sw') \<Longrightarrow>
     sw_component sw' = sw_component sw \<Longrightarrow> switch_inv prev scopes0 pend sw'"
  unfolding switch_inv_def by (simp only:) blast

lemma switch_inv_keep_old:
  assumes "switch_inv prev scopes0 pend sw" and "jget prev i = Some old"
    and "\<not> jhas (sw_next sw) i"
  shows "switch_inv prev scopes0 pend (keep_state i old err sw)"
proof -
  have "ps_instance s \<noteq> i" if "s \<in> set (sw_commit sw)" "s \<notin> set pend" for s
    using assms(1,3) that unfolding switch_inv_def by (metis jhas_get)
  with assms show ?thesis
    unfolding switch_inv_def keep_state_def by (auto simp: jget_jset distinct_jset)
qed

lemma switch_inv_publish:
  assumes "switch_inv prev scopes0 (s # pend) sw" and "s \<in> set (sw_commit sw)"
    and "\<not> jhas (sw_next sw) (ps_instance s)"
    and "\<forall>i old. jget prev i = Some old \<longrightarrow> ps_scope old < length scopes0"
  shows "switch_inv prev scopes0 pend (publish_prepared prev s sw)"
proof -
  have ne: "ps_instance t \<noteq> ps_instance s" if "t \<in> set (sw_commit sw)" "t \<notin> set (s # pend)" for t
    using assms(1,3) that unfolding switch_inv_def by (metis jhas_get)
  have "length scopes0 \<le> ps_scope s"
    using assms(1,2) by (simp add: switch_inv_def fresh_states_def)
  with assms(4) have d: "jget prev i = Some old \<Longrightarrow> ps_scope old \<noteq> ps_scope s" for i old by fastforce
  have sub: "set (sw_dispose sw) \<subseteq> set (sw_dispose (publish_prepared prev s sw))"
    and own: "jget prev (ps_instance s) = Some old \<Longrightarrow>
      ps_scope old \<in> set (sw_dispose (publish_prepared prev s sw))" for old
    using d by (auto simp: publish_prepared_def keep_state_def ps_instance_def Let_def split: option.splits)
  have p: "sw_next (publish_prepared prev s sw) = jset (ps_instance s) s (sw_next sw)"
    "sw_scopes (publish_prepared prev s sw) = sw_scopes sw"
    "sw_commit (publish_prepared prev s sw) = sw_commit sw"
    "sw_component (publish_prepared prev s sw) = sw_component sw"
    by (simp_all add: publish_prepared_def keep_state_def ps_instance_def Let_def)
  show ?thesis
    using assms(1,2) ne sub own
    unfolding switch_inv_def p by (auto simp: jget_jset distinct_jset)
qed

lemma keeps_weaken: "keeps m xs ys \<Longrightarrow> n \<le> m \<Longrightarrow> keeps n xs ys"
  by (simp add: keeps_def)

lemma keeps_length: "keeps n xs ys \<Longrightarrow> length xs \<le> length ys"
  by (simp add: keeps_def)

lemma switch_inv_prepared:
  assumes "switch_inv prev scopes0 [] sw"
    and "keeps (length (sw_scopes sw)) (sw_scopes sw) scopes"
    and "fresh_states (length (sw_scopes sw)) scopes ss"
  shows "switch_inv prev scopes0 ss
    (sw\<lparr>sw_scopes := scopes, sw_failures := fs, sw_commit := sw_commit sw @ ss\<rparr>)"
proof -
  from assms(1) have k: "keeps (length scopes0) scopes0 (sw_scopes sw)"
    and f: "fresh_states (length scopes0) (sw_scopes sw) (sw_commit sw)"
    by (simp_all add: switch_inv_def)
  note le = keeps_length [OF k]
  have "keeps (length scopes0) scopes0 scopes"
    by (rule keeps_trans [OF k keeps_weaken [OF assms(2) le]])
  moreover have "fresh_states (length scopes0) scopes (sw_commit sw @ ss)"
    by (rule fresh_states_extend [OF f assms(3,2) le])
  ultimately show ?thesis using assms(1) unfolding switch_inv_def by auto
qed

text \<open>The folds over a component, one instance at a time.\<close>

lemma fold_keys_inv:
  assumes step: "\<And>i sw. i \<in> set is \<Longrightarrow> I sw \<Longrightarrow> \<not> jhas (sw_next sw) i \<Longrightarrow>
      I (f i sw) \<and> set (jkeys (sw_next (f i sw))) \<subseteq> insert i (set (jkeys (sw_next sw)))"
  shows "I sw \<Longrightarrow> distinct is \<Longrightarrow> \<forall>i \<in> set is. \<not> jhas (sw_next sw) i \<Longrightarrow>
    I (fold f is sw) \<and> set (jkeys (sw_next (fold f is sw))) \<subseteq> set is \<union> set (jkeys (sw_next sw))"
  using step
proof (induction "is" arbitrary: sw)
  case (Cons i "is")
  have s: "I (f i sw) \<and> set (jkeys (sw_next (f i sw))) \<subseteq> insert i (set (jkeys (sw_next sw)))"
    using Cons.prems by simp
  then have "\<forall>j \<in> set is. \<not> jhas (sw_next (f i sw)) j"
    using Cons.prems(2,3) unfolding jhas_def by auto
  with Cons.IH [of "f i sw"] Cons.prems s
  have "I (fold f is (f i sw)) \<and>
      set (jkeys (sw_next (fold f is (f i sw)))) \<subseteq> set is \<union> set (jkeys (sw_next (f i sw)))" by simp
  with s show ?case unfolding fold_simps list.set by blast
qed simp

lemma publish_all_inv:
  assumes "\<forall>i old. jget prev i = Some old \<longrightarrow> ps_scope old < length scopes0"
  shows "switch_inv prev scopes0 ss sw \<Longrightarrow> set ss \<subseteq> set (sw_commit sw) \<Longrightarrow> distinct (map ps_instance ss) \<Longrightarrow>
    \<forall>s \<in> set ss. \<not> jhas (sw_next sw) (ps_instance s) \<Longrightarrow>
    switch_inv prev scopes0 [] (fold (publish_prepared prev) ss sw) \<and>
    set (jkeys (sw_next (fold (publish_prepared prev) ss sw))) \<subseteq> ps_instance ` set ss \<union> set (jkeys (sw_next sw))"
proof (induction ss arbitrary: sw)
  case (Cons s ss)
  let ?sw = "publish_prepared prev s sw"
  have n: "sw_next ?sw = jset (ps_instance s) s (sw_next sw)" and c: "sw_commit ?sw = sw_commit sw"
    by (simp_all add: publish_prepared_def keep_state_def ps_instance_def Let_def)
  have "switch_inv prev scopes0 ss ?sw"
    by (rule switch_inv_publish [OF Cons.prems(1) _ _ assms]) (use Cons.prems in auto)
  moreover have "\<forall>t \<in> set ss. \<not> jhas (sw_next ?sw) (ps_instance t)"
  proof
    fix t assume t: "t \<in> set ss"
    then have "ps_instance t \<noteq> ps_instance s"
      using Cons.prems(3) by (metis distinct.simps(2) image_eqI list.map(2) set_map)
    with t Cons.prems(4) show "\<not> jhas (sw_next ?sw) (ps_instance t)" by (simp add: n)
  qed
  ultimately have "switch_inv prev scopes0 [] (fold (publish_prepared prev) ss ?sw) \<and>
    set (jkeys (sw_next (fold (publish_prepared prev) ss ?sw))) \<subseteq> ps_instance ` set ss \<union> set (jkeys (sw_next ?sw))"
    using Cons.IH [of ?sw] Cons.prems(2,3) c by simp
  then show ?case by (auto simp: n fst_set_jset)
qed simp

lemma component_map_self:
  assumes "\<forall>i c. jget m i = Some c \<longrightarrow> i \<in> set c"
  shows "jget (foldl (\<lambda>m i. jset i component m) m is) i = Some c \<Longrightarrow> set is \<subseteq> set component \<Longrightarrow> i \<in> set c"
  using assms by (induction "is" arbitrary: m) (auto simp: jget_jset split: if_splits)

lemma keep_waiting_inv:
  assumes "switch_inv prev scopes0 pend sw"
  shows "switch_inv prev scopes0 pend (keep_waiting prev byId facts plan i sw) \<and>
    sw_next (keep_waiting prev byId facts plan i sw) = sw_next sw"
  by (rule conjI, rule switch_inv_same_next [OF assms])
    (auto simp: keep_waiting_def split: option.split)

lemma record_failure_inv:
  assumes "switch_inv prev scopes0 pend sw"
  shows "switch_inv prev scopes0 pend (record_failure prev byId facts failure i sw) \<and>
    sw_next (record_failure prev byId facts failure i sw) = sw_next sw"
  by (rule conjI, rule switch_inv_same_next [OF assms]) (auto simp: record_failure_def)

lemma keep_state_keys: "set (jkeys (sw_next (keep_state i s err sw))) = insert i (set (jkeys (sw_next sw)))"
  by (simp add: keep_state_def fst_set_jset)

lemma keep_previous_inv:
  assumes "switch_inv prev scopes0 pend sw" and "\<not> jhas (sw_next sw) i"
  shows "switch_inv prev scopes0 pend (keep_previous prev e i sw) \<and>
    set (jkeys (sw_next (keep_previous prev e i sw))) \<subseteq> insert i (set (jkeys (sw_next sw)))"
  using switch_inv_keep_old [OF assms(1) _ assms(2)] assms(1)
  by (auto simp: keep_previous_def keep_state_def fst_set_jset split: option.splits)

lemma fold_same_next:
  assumes "\<And>i sw. I sw \<Longrightarrow> I (f i sw) \<and> sw_next (f i sw) = sw_next sw"
  shows "I sw \<Longrightarrow> I (fold f is sw) \<and> sw_next (fold f is sw) = sw_next sw"
proof (induction "is" arbitrary: sw)
  case (Cons i "is")
  with Cons.IH [of "f i sw"] assms [OF Cons.prems, of i] show ?case by simp
qed simp

text \<open>What the switch knows of the candidates, and where the previous scopes are.\<close>

definition facts_ok :: "candidate_facts \<Rightarrow> string list \<Rightarrow> bool" where
  "facts_ok facts is \<longleftrightarrow> (\<forall>i \<in> set is. instance_id (identity_of facts i) = i)"

definition scopes_below :: "(string, plugin_state) jmap \<Rightarrow> effect_scope list \<Rightarrow> bool" where
  "scopes_below prev scopes \<longleftrightarrow> (\<forall>i old. jget prev i = Some old \<longrightarrow> ps_scope old < length scopes)"

lemma prepared_instances:
  assumes "list_all2 (\<lambda>s i. ps_identity s = identity_of facts i) ss is" and "facts_ok facts is"
  shows "map ps_instance ss = is"
  using assms by (induction ss "is" rule: list_all2_induct) (auto simp: facts_ok_def ps_instance_def)

lemma switch_component_inv:
  assumes inv: "switch_inv prev scopes0 [] sw0"
    and sw': "switch_component env prev byId facts plan component sw0 = Some sw'"
    and fresh: "distinct component" "\<forall>i \<in> set component. \<not> jhas (sw_next sw0) i"
    and facts: "facts_ok facts component" and prev: "scopes_below prev scopes0"
  shows "switch_inv prev scopes0 [] sw' \<and>
    set (jkeys (sw_next sw')) \<subseteq> set component \<union> set (jkeys (sw_next sw0))"
proof -
  let ?sw = "sw0\<lparr>sw_component := foldl (\<lambda>m i. jset i component m) (sw_component sw0) component\<rparr>"
  have "\<forall>i c. jget (sw_component sw0) i = Some c \<longrightarrow> i \<in> set c" using inv by (simp add: switch_inv_def)
  then have inv1: "switch_inv prev scopes0 [] ?sw"
    using inv component_map_self [of "sw_component sw0" component component] by (simp add: switch_inv_def)
  consider (waiting) "filter (jhas (gp_waiting plan)) component \<noteq> []"
    | (same) "filter (jhas (gp_waiting plan)) component = []" "component_unchanged prev facts component"
    | (prepare) r where "filter (jhas (gp_waiting plan)) component = []"
        "\<not> component_unchanged prev facts component"
        "prepare_component env byId facts (sw_claimed ?sw) component (sw_scopes ?sw) (sw_failures ?sw) = Some r"
    using sw' by (auto simp: switch_component_def Let_def split: if_splits option.splits)
  then show ?thesis
  proof cases
    case waiting
    then have "sw' = fold (keep_waiting prev byId facts plan) component ?sw"
      using sw' by (simp add: switch_component_def)
    moreover have "switch_inv prev scopes0 [] (fold (keep_waiting prev byId facts plan) component ?sw) \<and>
        sw_next (fold (keep_waiting prev byId facts plan) component ?sw) = sw_next ?sw"
      by (rule fold_same_next [OF keep_waiting_inv inv1])
    ultimately show ?thesis by simp
  next
    case same
    then have s: "sw' = fold (\<lambda>i. keep_state i (the (jget prev i)) None) component ?sw"
      using sw' by (simp add: switch_component_def)
    have some: "jget prev i = Some (the (jget prev i))" if "i \<in> set component" for i
      using same(2) that by (auto simp: component_unchanged_def list_all_iff)
    have "switch_inv prev scopes0 [] sw' \<and>
        set (jkeys (sw_next sw')) \<subseteq> set component \<union> set (jkeys (sw_next ?sw))"
      unfolding s
    proof (rule fold_keys_inv [where I = "switch_inv prev scopes0 []", OF _ inv1 fresh(1)])
      fix i sw assume "i \<in> set component" "switch_inv prev scopes0 [] sw" "\<not> jhas (sw_next sw) i"
      then show "switch_inv prev scopes0 [] (keep_state i (the (jget prev i)) None sw) \<and>
          set (jkeys (sw_next (keep_state i (the (jget prev i)) None sw))) \<subseteq> insert i (set (jkeys (sw_next sw)))"
        using switch_inv_keep_old [OF _ some] keep_state_keys by auto
    qed (use fresh(2) in simp)
    then show ?thesis by simp
  next
    case prepare
    note pc = prepare_component_scopes [OF prepare(3)]
    show ?thesis
    proof (cases "pr_failure r")
      case None
      let ?sw2 = "?sw\<lparr>sw_scopes := pr_scopes r, sw_failures := pr_failures r, sw_commit := sw_commit ?sw @ pr_prepared r\<rparr>"
      from None prepare have s: "sw' = fold (publish_prepared prev) (pr_prepared r) ?sw2"
        using sw' by (simp add: switch_component_def Let_def)
      from pc(2) None have ids: "map ps_instance (pr_prepared r) = component"
        by (auto intro: prepared_instances [OF _ facts])
      then have set_ids: "ps_instance ` set (pr_prepared r) = set component" by (metis set_map)
      have "switch_inv prev scopes0 (pr_prepared r) ?sw2"
        by (rule switch_inv_prepared [OF inv1]) (use pc None in auto)
      then have "switch_inv prev scopes0 [] sw' \<and>
          set (jkeys (sw_next sw')) \<subseteq> ps_instance ` set (pr_prepared r) \<union> set (jkeys (sw_next ?sw2))"
        unfolding s
        by (rule publish_all_inv [OF prev [unfolded scopes_below_def]]) (use ids set_ids fresh in auto)
      then show ?thesis by (simp add: set_ids)
    next
      case (Some failure)
      let ?sw2 = "?sw\<lparr>sw_scopes := pr_scopes r, sw_failures := pr_failures r\<rparr>"
      let ?sw3 = "fold (keep_previous prev (snd failure)) component ?sw2"
      let ?sw4 = "fold (record_failure prev byId facts failure) component ?sw3"
      have "switch_inv prev scopes0 [] (?sw\<lparr>sw_scopes := pr_scopes r, sw_failures := pr_failures r,
          sw_commit := sw_commit ?sw @ []\<rparr>)"
        by (rule switch_inv_prepared [OF inv1]) (use pc Some in auto)
      then have inv2: "switch_inv prev scopes0 [] ?sw2" by simp
      have inv3: "switch_inv prev scopes0 [] ?sw3 \<and>
          set (jkeys (sw_next ?sw3)) \<subseteq> set component \<union> set (jkeys (sw_next ?sw2))"
        by (rule fold_keys_inv [OF keep_previous_inv inv2 fresh(1)]) (use fresh(2) in auto)
      have inv4: "switch_inv prev scopes0 [] ?sw4 \<and> sw_next ?sw4 = sw_next ?sw3"
        by (rule fold_same_next [OF record_failure_inv conjunct1 [OF inv3]])
      define sw4 where "sw4 = ?sw4"
      let ?ds = "foldl (\<lambda>ds s. sadd (ps_scope s) ds) (sw_dispose sw4) (pr_prepared r)"
      have grow: "set xs \<subseteq> set (foldl (\<lambda>ds s. sadd (ps_scope s) ds) xs ss)" for xs ss
        by (induction ss arbitrary: xs) (auto, (metis in_mono set_sadd insertCI)+)
      have s: "sw' = (if list_ex (jhas prev) component then sw4 else sw4\<lparr>sw_dispose := ?ds\<rparr>)"
        using sw' Some prepare
        by (cases "list_ex (jhas prev) component") (simp_all add: switch_component_def sw4_def Let_def)
      have i4: "switch_inv prev scopes0 [] sw4" using inv4 by (simp add: sw4_def)
      have "switch_inv prev scopes0 [] (sw4\<lparr>sw_dispose := ?ds\<rparr>)"
        by (rule switch_inv_same_next [OF i4]) (simp_all add: grow)
      with i4 have "switch_inv prev scopes0 [] sw' \<and> sw_next sw' = sw_next ?sw4"
        unfolding s sw4_def by auto
      with inv3 inv4 show ?thesis by simp
    qed
  qed
qed

lemma switch_components_inv:
  assumes "scopes_below prev scopes0" and "facts_ok facts (concat cs)"
  shows "switch_components env prev byId facts plan cs sw = Some sw' \<Longrightarrow>
    switch_inv prev scopes0 [] sw \<Longrightarrow> distinct (concat cs) \<Longrightarrow>
    \<forall>i \<in> set (concat cs). \<not> jhas (sw_next sw) i \<Longrightarrow> switch_inv prev scopes0 [] sw'"
  using assms(2)
proof (induction cs arbitrary: sw)
  case (Cons c cs)
  then obtain t where t: "switch_component env prev byId facts plan c sw = Some t"
    and rest: "switch_components env prev byId facts plan cs t = Some sw'"
    by (auto split: option.splits)
  have "switch_inv prev scopes0 [] t \<and> set (jkeys (sw_next t)) \<subseteq> set c \<union> set (jkeys (sw_next sw))"
    by (rule switch_component_inv [OF Cons.prems(2) t _ _ _ assms(1)])
      (use Cons.prems(3-5) in \<open>auto simp: facts_ok_def\<close>)
  moreover from this have "\<forall>i \<in> set (concat cs). \<not> jhas (sw_next t) i"
    using Cons.prems(3,4) unfolding jhas_def concat.simps distinct_append set_append by blast
  ultimately show ?case using Cons.IH [OF rest] Cons.prems(3,5) by (auto simp: facts_ok_def)
qed simp

subsection \<open>The commit loop\<close>

lemma scope_commit_open:
  assumes "scope_commit s = Some (r, s')" and "\<not> es_disposed s"
  shows "case r of Inl _ \<Rightarrow> es_disposed s' | Inr _ \<Rightarrow> es_committed s' \<and> \<not> es_disposed s'"
  using assms
  by (auto simp: scope_commit_def split: if_splits option.splits sum.splits dest!: commit_effects_called)

definition prev_distinct :: "(string, plugin_state) jmap \<Rightarrow> bool" where
  "prev_distinct prev \<longleftrightarrow> (\<forall>i j s t. jget prev i = Some s \<longrightarrow> jget prev j = Some t \<longrightarrow>
     ps_scope s = ps_scope t \<longrightarrow> i = j)"

text \<open>\<open>ss\<close> are the prepared states still to commit.\<close>

definition commit_inv ::
  "(string, plugin_state) jmap \<Rightarrow> effect_scope list \<Rightarrow> plugin_state list \<Rightarrow> switch_state \<Rightarrow> bool" where
  "commit_inv prev scopes0 ss sw \<longleftrightarrow>
     keeps (length scopes0) scopes0 (sw_scopes sw) \<and>
     distinct (map ps_scope (sw_commit sw)) \<and>
     (\<forall>s \<in> set (sw_commit sw). length scopes0 \<le> ps_scope s \<and> ps_scope s < length (sw_scopes sw)) \<and>
     distinct (jkeys (sw_next sw)) \<and>
     (\<forall>i s. jget (sw_next sw) i = Some s \<longrightarrow> jget prev i = Some s \<or>
        (s \<in> set (sw_commit sw) \<and> ps_instance s = i \<and> \<not> es_disposed (sw_scopes sw ! ps_scope s) \<and>
         (s \<in> set ss \<or> es_committed (sw_scopes sw ! ps_scope s)))) \<and>
     (\<forall>s \<in> set (sw_commit sw). jget (sw_next sw) (ps_instance s) = Some s \<or>
        es_disposed (sw_scopes sw ! ps_scope s)) \<and>
     (\<forall>a. length scopes0 \<le> a \<longrightarrow> a < length (sw_scopes sw) \<longrightarrow> a \<notin> ps_scope ` set (sw_commit sw) \<longrightarrow>
        es_disposed (sw_scopes sw ! a)) \<and>
     (\<forall>i old. jget prev i = Some old \<longrightarrow> jget (sw_next sw) i \<noteq> Some old \<longrightarrow>
        ps_scope old \<in> set (sw_dispose sw)) \<and>
     (\<forall>i c. jget (sw_component sw) i = Some c \<longrightarrow> i \<in> set c)"

lemma commit_inv_start:
  assumes "switch_inv prev scopes0 [] sw"
    and "\<forall>i old. jget prev i = Some old \<longrightarrow> jget (sw_next sw) i \<noteq> Some old \<longrightarrow>
        ps_scope old \<in> set (sw_dispose sw)"
  shows "commit_inv prev scopes0 (sw_commit sw) sw"
proof -
  have f: "\<forall>s \<in> set (sw_commit sw). length scopes0 \<le> ps_scope s \<and> ps_scope s < length (sw_scopes sw) \<and>
      \<not> es_disposed (sw_scopes sw ! ps_scope s)"
    and n: "\<forall>i s. jget (sw_next sw) i = Some s \<longrightarrow>
      jget prev i = Some s \<or> (s \<in> set (sw_commit sw) \<and> ps_instance s = i)"
    and p: "\<forall>s \<in> set (sw_commit sw). jget (sw_next sw) (ps_instance s) = Some s"
    using assms(1) by (simp_all add: switch_inv_def fresh_states_def)
  have "\<forall>i s. jget (sw_next sw) i = Some s \<longrightarrow> jget prev i = Some s \<or>
      (s \<in> set (sw_commit sw) \<and> ps_instance s = i \<and> \<not> es_disposed (sw_scopes sw ! ps_scope s) \<and>
       (s \<in> set (sw_commit sw) \<or> es_committed (sw_scopes sw ! ps_scope s)))"
    using f n by blast
  with f p assms(2) show ?thesis
    using assms(1) unfolding commit_inv_def by (simp add: switch_inv_def fresh_states_def)
qed

lemma rollback_fold:
  fixes sw :: switch_state
  shows "distinct (jkeys (sw_next sw)) \<Longrightarrow>
    let sw' = fold (rollback_component prev byId facts failed e) is sw in
    sw_scopes sw' = sw_scopes sw \<and> sw_commit sw' = sw_commit sw \<and> sw_component sw' = sw_component sw \<and>
    distinct (jkeys (sw_next sw')) \<and>
    (\<forall>j. jget (sw_next sw') j = (if j \<in> set is then jget prev j else jget (sw_next sw) j)) \<and>
    (\<forall>x \<in> set (sw_dispose sw). (\<forall>i \<in> set is. \<forall>old. jget prev i = Some old \<longrightarrow> ps_scope old \<noteq> x) \<longrightarrow>
       x \<in> set (sw_dispose sw'))"
proof (induction "is" arbitrary: sw)
  case (Cons i "is")
  let ?t = "rollback_component prev byId facts failed e i sw"
  have d: "distinct (jkeys (sw_next ?t))"
    using Cons.prems by (auto simp: rollback_component_def Let_def distinct_jset distinct_jdel split: option.split)
  have g: "jget (sw_next ?t) j = (if j = i then jget prev i else jget (sw_next sw) j)" for j
    by (auto simp: rollback_component_def Let_def jget_jset jget_jdel split: option.split)
  have o: "sw_scopes ?t = sw_scopes sw" "sw_commit ?t = sw_commit sw" "sw_component ?t = sw_component sw"
    by (simp_all add: rollback_component_def Let_def split: option.split)
  have x: "x \<in> set (sw_dispose ?t)" if "x \<in> set (sw_dispose sw)"
      "\<forall>old. jget prev i = Some old \<longrightarrow> ps_scope old \<noteq> x" for x
    using that by (auto simp: rollback_component_def Let_def split: option.split)
  from Cons.IH [OF d] show ?case by (auto simp: Let_def o g x)
qed simp

lemma commit_failed_inv:
  assumes inv: "commit_inv prev scopes0 (s # ss) sw" and s: "s \<in> set (sw_commit sw)"
    and dist: "prev_distinct prev" and dead: "es_disposed scope"
  shows "commit_inv prev scopes0 ss (snd (commit_failed prev byId facts s e
    (diags, sw\<lparr>sw_scopes := (sw_scopes sw)[ps_scope s := scope]\<rparr>)))"
proof -
  let ?n = "length scopes0"
  let ?a = "ps_scope s"
  let ?sw1 = "sw\<lparr>sw_scopes := (sw_scopes sw)[?a := scope]\<rparr>"
  define c where "c = (case jget (sw_component sw) (ps_instance s) of None \<Rightarrow> [ps_instance s] | Some c \<Rightarrow> c)"
  define rb where "rb = filter (\<lambda>t. instance_id (ps_identity t) \<in> set c) (sw_commit sw)"
  define scopes where "scopes = snd (cleanup_states rb Rollback (sw_scopes ?sw1))"
  define sw2 where "sw2 = ?sw1\<lparr>sw_scopes := scopes,
      sw_records := filter (\<lambda>r. rr_instance r \<notin> set c) (sw_records sw)\<rparr>"
  define sw3 where "sw3 = fold (rollback_component prev byId facts (ps_instance s) e) c sw2"
  have eq: "snd (commit_failed prev byId facts s e (diags, ?sw1)) = sw3"
    unfolding commit_failed_def sw3_def sw2_def scopes_def rb_def c_def ps_instance_def
    by (simp add: Let_def split_beta)
  have self: "ps_instance s \<in> set c"
    using inv by (auto simp: c_def commit_inv_def split: option.split)
  have d2: "distinct (jkeys (sw_next sw2))" using inv by (simp add: sw2_def commit_inv_def)
  note rf = rollback_fold [OF d2, of prev byId facts "ps_instance s" e c, folded sw3_def, unfolded Let_def]
  have same: "sw_scopes sw3 = scopes" "sw_commit sw3 = sw_commit sw" "sw_component sw3 = sw_component sw"
    using rf by (simp_all add: sw2_def)
  have next3: "jget (sw_next sw3) j = (if j \<in> set c then jget prev j else jget (sw_next sw) j)" for j
    using rf by (simp add: sw2_def)
  have range: "?n \<le> ps_scope t \<and> ps_scope t < length (sw_scopes sw)" if "t \<in> set (sw_commit sw)" for t
    using inv that by (simp add: commit_inv_def)
  have len: "length scopes = length (sw_scopes sw)" by (simp add: scopes_def)
  have at: "b < length (sw_scopes sw) \<Longrightarrow> scopes ! b =
      (let x = (if b = ?a then scope else sw_scopes sw ! b) in
       if b \<in> ps_scope ` set rb then snd (scope_dispose x) else x)" for b
    by (auto simp: scopes_def cleanup_states_nth nth_list_update Let_def)
  have mono: "es_disposed (sw_scopes sw ! b) \<Longrightarrow> b < length (sw_scopes sw) \<Longrightarrow> es_disposed (scopes ! b)" for b
    using dead by (auto simp: at Let_def)
  have other: "scopes ! ps_scope t = sw_scopes sw ! ps_scope t"
    if "t \<in> set (sw_commit sw)" "ps_instance t \<notin> set c" for t
  proof -
    have inj: "inj_on ps_scope (set (sw_commit sw))" using inv by (simp add: commit_inv_def distinct_map)
    have "t \<noteq> s" using that self by auto
    then have "ps_scope t \<noteq> ?a" using inj that(1) s by (auto dest: inj_onD)
    moreover have "ps_scope t \<notin> ps_scope ` set rb"
      using inj that by (auto simp: rb_def ps_instance_def dest: inj_onD)
    ultimately show ?thesis using range [OF that(1)] by (simp add: at Let_def)
  qed
  have gone: "es_disposed (scopes ! ps_scope t)" if "t \<in> set (sw_commit sw)" "ps_instance t \<in> set c" for t
    using range [OF that(1)] that by (auto simp: at Let_def rb_def ps_instance_def)
  have k1: "keeps ?n scopes0 (sw_scopes sw)" using inv by (simp add: commit_inv_def)
  have "keeps ?n (sw_scopes ?sw1) scopes"
    unfolding scopes_def by (rule keeps_cleanup) (use range in \<open>auto simp: rb_def\<close>)
  then have k: "keeps ?n scopes0 scopes"
    using keeps_trans [OF k1 keeps_trans [OF keeps_update]] range [OF s] by auto
  have n3: "jget prev i = Some t \<or> (t \<in> set (sw_commit sw) \<and> ps_instance t = i \<and>
      \<not> es_disposed (scopes ! ps_scope t) \<and> (t \<in> set ss \<or> es_committed (scopes ! ps_scope t)))"
    if t: "jget (sw_next sw3) i = Some t" for i t
  proof (cases "i \<in> set c")
    case False
    with t have "jget (sw_next sw) i = Some t" by (simp add: next3)
    then consider "jget prev i = Some t" | "t \<in> set (sw_commit sw)" "ps_instance t = i"
        "\<not> es_disposed (sw_scopes sw ! ps_scope t)" "t \<in> set (s # ss) \<or> es_committed (sw_scopes sw ! ps_scope t)"
      using inv unfolding commit_inv_def by blast
    then show ?thesis using False self other by cases auto
  qed (use t next3 in simp)
  have c3: "jget (sw_next sw3) (ps_instance t) = Some t \<or> es_disposed (scopes ! ps_scope t)"
    if "t \<in> set (sw_commit sw)" for t
  proof (cases "ps_instance t \<in> set c")
    case False
    then show ?thesis using inv that mono range [OF that] by (auto simp: next3 commit_inv_def)
  qed (simp add: gone that)
  have d3: "ps_scope old \<in> set (sw_dispose sw3)"
    if "jget prev i = Some old" "jget (sw_next sw3) i \<noteq> Some old" for i old
  proof -
    have ic: "i \<notin> set c" using that by (auto simp: next3)
    with that have "ps_scope old \<in> set (sw_dispose sw)"
      using inv unfolding commit_inv_def by (simp add: next3)
    moreover have "\<forall>j \<in> set c. \<forall>o'. jget prev j = Some o' \<longrightarrow> ps_scope o' \<noteq> ps_scope old"
      using dist that(1) ic unfolding prev_distinct_def by metis
    ultimately show ?thesis using rf by (simp add: sw2_def)
  qed
  show ?thesis
    unfolding eq commit_inv_def same len
    using k n3 c3 d3 rf inv mono unfolding commit_inv_def by auto
qed

lemma commit_states_inv:
  assumes "prev_distinct prev"
  shows "commit_states prev byId facts ss acc = Some (diags', sw') \<Longrightarrow> commit_inv prev scopes0 ss (snd acc) \<Longrightarrow>
    set ss \<subseteq> set (sw_commit (snd acc)) \<Longrightarrow>
    commit_inv prev scopes0 [] sw' \<and> sw_commit sw' = sw_commit (snd acc)"
proof (induction ss arbitrary: acc)
  case (Cons s ss)
  obtain diags sw where acc: "acc = (diags, sw)" by force
  from Cons.prems acc have inv: "commit_inv prev scopes0 (s # ss) sw" and s: "s \<in> set (sw_commit sw)"
    and ss: "set ss \<subseteq> set (sw_commit sw)" by auto
  show ?case
  proof (cases "map_option ps_scope (jget (sw_next sw) (ps_instance s)) = Some (ps_scope s)")
    case False
    then have "commit_inv prev scopes0 ss sw"
      using inv unfolding commit_inv_def by auto
    with False Cons acc ss show ?thesis by (simp add: ps_instance_def)
  next
    case True
    then obtain t where t: "jget (sw_next sw) (ps_instance s) = Some t" "ps_scope t = ps_scope s" by auto
    from True Cons.prems(1) acc obtain r scope where c: "scope_commit (sw_scopes sw ! ps_scope s) = Some (r, scope)"
      by (auto simp: ps_instance_def split: option.splits)
    let ?sw = "sw\<lparr>sw_scopes := (sw_scopes sw)[ps_scope s := scope]\<rparr>"
    show ?thesis
    proof (cases r)
      case (Inl e)
      have rest: "commit_states prev byId facts ss (commit_failed prev byId facts s e (diags, ?sw)) = Some (diags', sw')"
        using Cons.prems(1) t acc c Inl by (simp add: ps_instance_def)
      have dead: "es_disposed scope"
      proof (cases "es_disposed (sw_scopes sw ! ps_scope s)")
        case False
        from scope_commit_open [OF c False] Inl show ?thesis by simp
      qed (use c in \<open>simp add: scope_commit_def\<close>)
      have commit: "sw_commit (snd (commit_failed prev byId facts s e (diags, ?sw))) = sw_commit sw"
        using rollback_fold inv
        by (simp add: commit_failed_def Let_def split_beta commit_inv_def)
      from Cons.IH [OF rest commit_failed_inv [OF inv s assms dead]] ss commit acc show ?thesis by simp
    next
      case (Inr u)
      have rest: "commit_states prev byId facts ss (diags, ?sw) = Some (diags', sw')"
        using Cons.prems(1) t acc c Inr by (simp add: ps_instance_def)
      have range: "length scopes0 \<le> ps_scope s" "ps_scope s < length (sw_scopes sw)"
        using inv s by (simp_all add: commit_inv_def)
      have "commit_inv prev scopes0 ss ?sw"
      proof (cases "es_disposed (sw_scopes sw ! ps_scope s)")
        case True
        with c Inr show ?thesis by (simp add: scope_commit_def)
      next
        case False
        with scope_commit_open [OF c] Inr have sc: "es_committed scope" "\<not> es_disposed scope" by auto
        have inj: "u \<in> set (sw_commit sw) \<Longrightarrow> ps_scope u = ps_scope s \<Longrightarrow> u = s" for u
          using inv s by (auto simp: commit_inv_def distinct_map dest: inj_onD)
        have "keeps (length scopes0) scopes0 (sw_scopes ?sw)"
          using inv keeps_trans [OF _ keeps_update [OF range(1)]] by (auto simp: commit_inv_def)
        moreover have "jget prev i = Some v \<or> (v \<in> set (sw_commit sw) \<and> ps_instance v = i \<and>
            \<not> es_disposed (sw_scopes ?sw ! ps_scope v) \<and> (v \<in> set ss \<or> es_committed (sw_scopes ?sw ! ps_scope v)))"
          if "jget (sw_next sw) i = Some v" for i v
        proof -
          from inv that consider "jget prev i = Some v" | "v \<in> set (sw_commit sw)" "ps_instance v = i"
              "\<not> es_disposed (sw_scopes sw ! ps_scope v)"
              "v \<in> set (s # ss) \<or> es_committed (sw_scopes sw ! ps_scope v)"
            unfolding commit_inv_def by blast
          then show ?thesis
            by cases (use sc range inj in \<open>auto simp: nth_list_update\<close>)
        qed
        moreover have "jget (sw_next sw) (ps_instance v) = Some v \<or> es_disposed (sw_scopes ?sw ! ps_scope v)"
          if v: "v \<in> set (sw_commit sw)" for v
        proof (cases "v = s")
          case True
          with inv s False show ?thesis unfolding commit_inv_def by auto
        next
          case neq: False
          then have "ps_scope v \<noteq> ps_scope s" using inj v by blast
          with inv v show ?thesis by (simp add: commit_inv_def)
        qed
        moreover have "es_disposed (sw_scopes ?sw ! a)"
          if "length scopes0 \<le> a" "a < length (sw_scopes sw)" "a \<notin> ps_scope ` set (sw_commit sw)" for a
          using inv that s by (auto simp: commit_inv_def nth_list_update)
        ultimately show ?thesis
          using inv unfolding commit_inv_def by simp
      qed
      with Cons.IH [OF rest] ss acc show ?thesis by simp
    qed
  qed
qed simp

subsection \<open>Components and identities\<close>

definition adjacency_ok :: "string set \<Rightarrow> (string, string list) jmap \<Rightarrow> bool" where
  "adjacency_ok K adj \<longleftrightarrow> set (jkeys adj) = K \<and>
     (\<forall>i. distinct (adjacent_of adj i) \<and> set (adjacent_of adj i) \<subseteq> K)"

lemma adjacent_of_jset: "adjacent_of (jset i ns adj) j = (if j = i then ns else adjacent_of adj j)"
  by (simp add: adjacent_of_def jget_jset)

lemma adjacency_capabilities_ok:
  "adjacency_capabilities prov i caps adj = Inr adj' \<Longrightarrow> adjacency_ok K adj \<Longrightarrow> adjacency_ok K adj'"
proof (induction prov i caps adj rule: adjacency_capabilities.induct)
  case (2 prov i cap caps adj)
  show ?case
  proof (cases "\<exists>p. jget prov cap = Some p \<and> p \<noteq> i")
    case False
    then consider (none) "jget prov cap = None" | (own) "jget prov cap = Some i"
      by (cases "jget prov cap") blast+
    then show ?thesis
    proof cases
      case none
      with "2.prems"(1) have "adjacency_capabilities prov i caps adj = Inr adj'" by simp
      from "2.IH"(1) [OF none this "2.prems"(2)] show ?thesis .
    next
      case own
      with "2.prems"(1) have "adjacency_capabilities prov i caps adj = Inr adj'" by simp
      from "2.IH"(2) [OF own refl this "2.prems"(2)] show ?thesis .
    qed
  next
    case True
    then obtain p where p: "jget prov cap = Some p" "p \<noteq> i" by (elim exE conjE)
    from "2.prems"(1) p obtain ns where ns: "jget adj i = Some ns" by (auto split: option.splits)
    let ?a = "jset i (sadd p ns) adj"
    from "2.prems"(1) p ns obtain ms where ms: "jget ?a p = Some ms"
      by (auto simp: Let_def split: option.splits)
    have rest: "adjacency_capabilities prov i caps (jset p (sadd i ms) ?a) = Inr adj'"
      using "2.prems"(1) p ns ms by (simp add: Let_def)
    have ni: "adjacent_of adj i = ns" and mp: "adjacent_of adj p = ms"
      using ns ms p(2) by (simp_all add: adjacent_of_def jget_jset)
    have K: "jhas adj j \<Longrightarrow> j \<in> K" for j
      using "2.prems"(2) unfolding adjacency_ok_def jhas_def by blast
    have "jget adj p = Some ms" using ms p(2) by (simp add: jget_jset)
    with ns K have iK: "i \<in> K" and pK: "p \<in> K" by (auto simp: jhas_get)
    have keys: "set (jkeys (jset p (sadd i ms) ?a)) = set (jkeys adj)"
      using iK pK "2.prems"(2) by (auto simp: adjacency_ok_def fst_set_jset)
    have "distinct (adjacent_of (jset p (sadd i ms) ?a) j) \<and> set (adjacent_of (jset p (sadd i ms) ?a) j) \<subseteq> K" for j
    proof -
      have "distinct (adjacent_of adj j) \<and> set (adjacent_of adj j) \<subseteq> K"
        and "distinct ns \<and> set ns \<subseteq> K" and "distinct ms \<and> set ms \<subseteq> K"
        using "2.prems"(2) ni mp unfolding adjacency_ok_def by blast+
      then show ?thesis using iK pK by (simp add: adjacent_of_jset)
    qed
    with keys "2.prems"(2) have "adjacency_ok K (jset p (sadd i ms) ?a)"
      unfolding adjacency_ok_def by blast
    with "2.IH"(3) [OF p ns refl ms rest] show ?thesis .
  qed
qed simp

lemma adjacency_of_ok:
  assumes "adjacency_of byId prov = Inr adj" shows "adjacency_ok (set (jkeys byId)) adj"
proof -
  let ?adj = "map (\<lambda>i. (i, [])) (jkeys byId)"
  have "adjacent_of ?adj i = []" for i
    by (induction byId) (auto simp: adjacent_of_def)
  then have "adjacency_ok (set (jkeys byId)) ?adj" by (simp add: adjacency_ok_def comp_def)
  then show ?thesis
    by (rule fold_res_invariant [OF assms [unfolded adjacency_of_def]]) (rule adjacency_capabilities_ok)
qed

lemma collect_component_result:
  assumes "adjacency_ok K adj"
  shows "collect_component adj pending seen found = (f, s') \<Longrightarrow> distinct (found @ pending) \<Longrightarrow>
    set (found @ pending) \<subseteq> set seen \<Longrightarrow> set (found @ pending) \<subseteq> K \<Longrightarrow>
    distinct f \<and> set f \<subseteq> K \<and> set s' = set seen \<union> set f \<and>
    set f \<inter> set seen = set (found @ pending)"
  using assms
proof (induction adj pending seen found rule: collect_component.induct)
  case (2 adj cur pending seen found)
  let ?new = "filter (\<lambda>a. a \<notin> set seen) (adjacent_of adj cur)"
  have step: "collect_component adj (rev ?new @ pending) (seen @ ?new) (found @ [cur]) = (f, s')"
    using "2.prems"(1) by (simp add: Let_def)
  have d: "distinct (adjacent_of adj cur)" and sub: "set (adjacent_of adj cur) \<subseteq> K"
    using "2.prems"(5) by (auto simp: adjacency_ok_def)
  have 1: "distinct ((found @ [cur]) @ rev ?new @ pending)"
    using "2.prems"(2,3) d by auto
  have 2: "set ((found @ [cur]) @ rev ?new @ pending) \<subseteq> set (seen @ ?new)"
    and 3: "set ((found @ [cur]) @ rev ?new @ pending) \<subseteq> K"
    using "2.prems"(3,4) sub by auto
  have IH: "distinct f \<and> set f \<subseteq> K \<and> set s' = set (seen @ ?new) \<union> set f \<and>
      set f \<inter> set (seen @ ?new) = set ((found @ [cur]) @ rev ?new @ pending)"
    by (rule "2.IH" [OF refl step 1 2 3 "2.prems"(5)])
  then have "set s' = set seen \<union> set f" by auto
  moreover have "set f \<inter> set seen = set (found @ cur # pending)"
    using IH "2.prems"(3) by auto
  ultimately show ?case using IH by blast
qed auto

lemma collect_components_result:
  assumes "adjacency_ok K adj"
  shows "set is \<subseteq> K \<Longrightarrow> distinct (concat (collect_components adj is seen)) \<and>
    set (concat (collect_components adj is seen)) \<subseteq> K \<and>
    set (concat (collect_components adj is seen)) \<inter> set seen = {}"
proof (induction "is" arbitrary: seen)
  case (Cons i "is")
  show ?case
  proof (cases "i \<in> set seen")
    case False
    obtain f s' where c: "collect_component adj [i] (seen @ [i]) [] = (f, s')" by force
    have "distinct f \<and> set f \<subseteq> K \<and> set s' = set (seen @ [i]) \<union> set f \<and> set f \<inter> set (seen @ [i]) = {i}"
      using collect_component_result [OF assms c] Cons.prems by simp
    with Cons.IH [of s'] Cons.prems False c show ?thesis by auto
  qed (use Cons in simp)
qed simp

lemma mset_concat_js_sort: "mset (concat (js_sort le xss)) = mset (concat xss)"
proof -
  have "mset (concat yss) = \<Sum>\<^sub># (mset (map mset yss))" for yss :: "'a list list"
    by (induction yss) auto
  then show ?thesis by simp
qed

lemma mset_concat_map_js_sort: "mset (concat (map (js_sort le) xss)) = mset (concat xss)"
  by (induction xss) auto

lemma dependency_components_result:
  assumes "dependency_components collate byId plan = Inr components"
  shows "distinct (concat components)" and "set (concat components) \<subseteq> set (jkeys byId)"
proof -
  from assms obtain adj where adj: "adjacency_of byId (gp_providers plan) = Inr adj"
    and c: "components = js_sort (components_le collate (gp_activation_order plan))
      (map (js_sort (component_le collate (gp_activation_order plan)))
        (collect_components adj (sort (jkeys byId)) []))"
    by (auto simp: dependency_components_def bindr_Inr_iff)
  let ?cs = "collect_components adj (sort (jkeys byId)) []"
  have m: "mset (concat components) = mset (concat ?cs)"
    by (simp only: c mset_concat_js_sort mset_concat_map_js_sort)
  have "distinct (concat ?cs) \<and> set (concat ?cs) \<subseteq> set (jkeys byId) \<and> set (concat ?cs) \<inter> set [] = {}"
    by (rule collect_components_result [OF adjacency_of_ok [OF adj]]) simp
  then show "distinct (concat components)" and "set (concat components) \<subseteq> set (jkeys byId)"
    using m by (metis mset_eq_imp_distinct_iff, metis set_mset_mset)
qed

lemma identify_candidates_result:
  "identify_candidates env byId n = Inr facts \<Longrightarrow> \<forall>(i, c) \<in> set byId. js_trim (c_instance_id c) = i \<Longrightarrow>
     jkeys facts = jkeys byId \<and> (\<forall>(i, ident, _) \<in> set facts. instance_id ident = i)"
proof (induction env byId n arbitrary: facts rule: identify_candidates.induct)
  case (2 env i c cs n)
  then obtain ident rest where i: "plugin_identity env n c = Inr ident"
    and r: "identify_candidates env cs (Suc n) = Inr rest"
    and f: "facts = (i, ident, sort (rn_granted env ident),
      candidate_signature c (sort (rn_granted env ident))) # rest"
    by (auto simp: bindr_Inr_iff Let_def)
  have "instance_id ident = i"
    using i "2.prems"(2) by (auto simp: plugin_identity_def Let_def split: if_splits)
  moreover have "jkeys rest = jkeys cs \<and> (\<forall>(i, ident, _) \<in> set rest. instance_id ident = i)"
    using "2.IH" [OF refl r] "2.prems"(2) by auto
  ultimately show ?case by (simp add: f)
qed simp

lemma by_id_map_result:
  "distinct (jkeys (by_id_map cs))" "\<forall>(i, c) \<in> set (by_id_map cs). js_trim (c_instance_id c) = i"
proof -
  show "distinct (jkeys (by_id_map cs))"
    unfolding by_id_map_def by (rule foldl_jset_distinct_keys) simp
  show "\<forall>(i, c) \<in> set (by_id_map cs). js_trim (c_instance_id c) = i"
    unfolding by_id_map_def
    using foldl_jset_mem [where f = "\<lambda>c. js_trim (c_instance_id c)" and g = "\<lambda>c. c" and m = "[]"] by fastforce
qed

lemma identified_facts_ok:
  assumes "identify_candidates env (by_id_map cs) n = Inr facts" and "set is \<subseteq> set (jkeys (by_id_map cs))"
  shows "facts_ok facts is"
proof -
  note r = identify_candidates_result [OF assms(1) by_id_map_result(2)]
  have "instance_id (identity_of facts i) = i" if "i \<in> set is" for i
  proof -
    from that assms(2) r have "jhas facts i" by (auto simp: jhas_def)
    then obtain v where v: "jget facts i = Some v" by (auto simp: jhas_get)
    with r jget_mem [OF v] show ?thesis by (cases v) (auto simp: identity_of_def)
  qed
  then show ?thesis by (simp add: facts_ok_def)
qed

section \<open>The runtime\<close>

text \<open>The invariant of the runtime: every active plugin is listed under its own id, has a scope
  of its own, committed and not disposed, and the current generation publishes what the
  active plugins registered.\<close>

definition publishes :: "runtime_env \<Rightarrow> (string, plugin_state) jmap \<Rightarrow> generation \<Rightarrow> bool" where
  "publishes env active g \<longleftrightarrow>
     (\<exists>d. build_snapshots (jvals active) (rn_host_services env) = Inr (g_services g, d) \<and>
        g_contributions g = cd_values d)"

definition live_states :: "(string, plugin_state) jmap \<Rightarrow> effect_scope list \<Rightarrow> bool" where
  "live_states active scopes \<longleftrightarrow>
     (\<forall>i s. jget active i = Some s \<longrightarrow> ps_instance s = i \<and> ps_scope s < length scopes \<and>
        es_committed (scopes ! ps_scope s) \<and> \<not> es_disposed (scopes ! ps_scope s))"

definition runtime_ok :: "runtime_env \<Rightarrow> runtime \<Rightarrow> bool" where
  "runtime_ok env rt \<longleftrightarrow>
     distinct (jkeys (rt_active rt)) \<and> prev_distinct (rt_active rt) \<and>
     live_states (rt_active rt) (rt_scopes rt) \<and>
     (if rt_disposed rt then rt_active rt = [] else publishes env (rt_active rt) (rt_current rt))"

text \<open>No scope is lost: each is disposed or belongs to an active plugin.\<close>

definition leak_free :: "(string, plugin_state) jmap \<Rightarrow> effect_scope list \<Rightarrow> bool" where
  "leak_free active scopes \<longleftrightarrow>
     (\<forall>a < length scopes. es_disposed (scopes ! a) \<or> (\<exists>i s. jget active i = Some s \<and> ps_scope s = a))"

lemma live_states_below: "live_states active scopes \<Longrightarrow> scopes_below active scopes"
  by (auto simp: live_states_def scopes_below_def)

lemma dispose_unlisted_fold:
  fixes sw :: switch_state
  shows "let sw' = fold (dispose_unlisted desired) ps sw in
    sw_next sw' = sw_next sw \<and> sw_scopes sw' = sw_scopes sw \<and> sw_commit sw' = sw_commit sw \<and>
    sw_component sw' = sw_component sw \<and> sw_failures sw' = sw_failures sw \<and>
    set (sw_dispose sw) \<subseteq> set (sw_dispose sw') \<and>
    (\<forall>p \<in> set ps. \<not> jhas (sw_next sw) (fst p) \<longrightarrow> ps_scope (snd p) \<in> set (sw_dispose sw'))"
proof (induction ps arbitrary: sw)
  case (Cons p ps)
  let ?t = "dispose_unlisted desired p sw"
  have t: "sw_next ?t = sw_next sw" "sw_scopes ?t = sw_scopes sw" "sw_commit ?t = sw_commit sw"
    "sw_component ?t = sw_component sw" "sw_failures ?t = sw_failures sw"
    "set (sw_dispose sw) \<subseteq> set (sw_dispose ?t)"
    "\<not> jhas (sw_next sw) (fst p) \<longrightarrow> ps_scope (snd p) \<in> set (sw_dispose ?t)"
    by (auto simp: dispose_unlisted_def)
  from Cons.IH [of ?t] show ?case unfolding Let_def fold_simps by (simp only: t) (use t(6,7) in auto)
qed (simp add: Let_def)

lemma switch_inv_initial:
  "switch_inv prev scopes [] \<lparr>sw_next = [], sw_records = [], sw_claimed = [], sw_dispose = [],
     sw_commit = [], sw_component = [], sw_scopes = scopes, sw_failures = fs\<rparr>"
  by (simp add: switch_inv_def fresh_states_nil jhas_def)

text \<open>A cleanup of all the prepared states disposes every scope the switch has made.\<close>

lemma cleanup_commit_inv:
  fixes ph :: cleanup_phase
  assumes "commit_inv prev scopes0 ss sw"
  defines "scopes \<equiv> snd (cleanup_states (sw_commit sw) ph (sw_scopes sw))"
  shows "keeps (length scopes0) scopes0 scopes \<and>
    (\<forall>a. length scopes0 \<le> a \<longrightarrow> a < length scopes \<longrightarrow> es_disposed (scopes ! a))"
proof
  have k: "keeps (length scopes0) scopes0 (sw_scopes sw)" using assms(1) by (simp add: commit_inv_def)
  have "keeps (length scopes0) (sw_scopes sw) scopes"
    unfolding scopes_def by (rule keeps_cleanup) (use assms(1) in \<open>auto simp: commit_inv_def\<close>)
  with k show "keeps (length scopes0) scopes0 scopes" by (rule keeps_trans)
  show "\<forall>a. length scopes0 \<le> a \<longrightarrow> a < length scopes \<longrightarrow> es_disposed (scopes ! a)"
    using assms(1) unfolding scopes_def commit_inv_def by (auto simp: cleanup_states_nth)
qed

lemma prepare_and_commit_result:
  assumes ok: "runtime_ok env rt" and facts: "facts_ok facts (concat components)"
    and dist: "distinct (concat components)"
    and r: "prepare_and_commit env rt byId facts plan components = Some (res, rt')"
  shows "case res of
      Inr (diags, sw) \<Rightarrow> rt' = rt \<and> commit_inv (rt_active rt) (rt_scopes rt) [] sw
    | Inl e \<Rightarrow> (\<exists>scopes fs. rt' = rt\<lparr>rt_failures := fs, rt_scopes := scopes\<rparr> \<and>
        keeps (length (rt_scopes rt)) (rt_scopes rt) scopes \<and>
        (\<forall>a. length (rt_scopes rt) \<le> a \<longrightarrow> a < length scopes \<longrightarrow> es_disposed (scopes ! a)))"
proof -
  let ?prev = "rt_active rt"
  have below: "scopes_below ?prev (rt_scopes rt)" and pd: "prev_distinct ?prev"
    using ok live_states_below by (auto simp: runtime_ok_def)
  from r obtain sw1 where sw1: "switch_components env ?prev byId facts plan components
      \<lparr>sw_next = [], sw_records = [], sw_claimed = [], sw_dispose = [], sw_commit = [],
       sw_component = [], sw_scopes = rt_scopes rt, sw_failures = rt_failures rt\<rparr> = Some sw1"
    by (auto simp: prepare_and_commit_def split: option.splits)
  have i1: "switch_inv ?prev (rt_scopes rt) [] sw1"
    by (rule switch_components_inv [OF below facts sw1 switch_inv_initial dist]) (simp add: jhas_def)
  define sw where "sw = fold (dispose_unlisted (jkeys byId)) ?prev sw1"
  note du = dispose_unlisted_fold [of "jkeys byId" ?prev sw1, folded sw_def, unfolded Let_def]
  have "switch_inv ?prev (rt_scopes rt) [] sw"
    by (rule switch_inv_same_next [OF i1]) (use du in auto)
  moreover have "ps_scope old \<in> set (sw_dispose sw)"
    if "jget ?prev i = Some old" "jget (sw_next sw) i \<noteq> Some old" for i old
  proof (cases "jhas (sw_next sw) i")
    case True
    with \<open>switch_inv ?prev (rt_scopes rt) [] sw\<close> that show ?thesis unfolding switch_inv_def by blast
  next
    case False
    with du jget_mem [OF that(1)] show ?thesis by fastforce
  qed
  ultimately have ci: "commit_inv ?prev (rt_scopes rt) (sw_commit sw) sw"
    by (intro commit_inv_start) auto
  show ?thesis
  proof (cases "build_snapshots (jvals (sw_next sw)) (rn_host_services env)")
    case (Inl e)
    with r sw1 have "res = Inl e" and "rt' = rt\<lparr>rt_failures := sw_failures sw,
        rt_scopes := snd (cleanup_states (sw_commit sw) Rollback (sw_scopes sw))\<rparr>"
      by (simp_all add: prepare_and_commit_def Let_def sw_def)
    with cleanup_commit_inv [OF ci, of Rollback] show ?thesis by auto
  next
    case (Inr snap)
    with r sw1 obtain acc where acc: "commit_states ?prev byId facts (sw_commit sw) ([], sw) = Some acc"
      and "res = Inr acc" "rt' = rt"
      by (auto simp: prepare_and_commit_def Let_def sw_def split: option.splits)
    moreover have "commit_inv ?prev (rt_scopes rt) [] (snd acc)"
      using commit_states_inv [OF pd, of byId facts "sw_commit sw" "([], sw)" "fst acc" "snd acc" "rt_scopes rt"]
        acc ci by simp
    ultimately show ?thesis by (cases acc) simp
  qed
qed

text \<open>A published switch: the states of the next generation are live, and whatever it does not
  keep has been disposed.\<close>

lemma publish_active_ok:
  assumes ci: "commit_inv prev scopes0 [] sw" and live: "live_states prev scopes0"
    and pd: "prev_distinct prev"
  defines "superseded \<equiv> filter (\<lambda>s. ps_scope s \<in> set (sw_dispose sw) \<and>
      ps_scope s \<notin> set (map ps_scope (jvals (sw_next sw)))) (jvals prev)"
  defines "scopes \<equiv> snd (cleanup_states superseded Superseded (sw_scopes sw))"
  shows "distinct (jkeys (sw_next sw))" and "prev_distinct (sw_next sw)"
    and "live_states (sw_next sw) scopes"
    and "distinct (jkeys prev) \<Longrightarrow> leak_free prev scopes0 \<Longrightarrow> leak_free (sw_next sw) scopes"
proof -
  let ?n = "length scopes0"
  have k: "keeps ?n scopes0 (sw_scopes sw)" using ci by (simp add: commit_inv_def)
  note len = keeps_length [OF k]
  have old: "jget prev i = Some s \<Longrightarrow> ps_scope s < ?n \<and> ps_instance s = i \<and>
      es_committed (sw_scopes sw ! ps_scope s) \<and> \<not> es_disposed (sw_scopes sw ! ps_scope s)" for i s
    using live k by (auto simp: live_states_def keeps_def)
  have next_cases: "jget prev i = Some s \<or> (s \<in> set (sw_commit sw) \<and> ps_instance s = i \<and>
      ?n \<le> ps_scope s \<and> ps_scope s < length (sw_scopes sw) \<and>
      es_committed (sw_scopes sw ! ps_scope s) \<and> \<not> es_disposed (sw_scopes sw ! ps_scope s))"
    if "jget (sw_next sw) i = Some s" for i s
    using ci that unfolding commit_inv_def by auto
  show d: "distinct (jkeys (sw_next sw))" using ci by (simp add: commit_inv_def)
  show "prev_distinct (sw_next sw)"
    unfolding prev_distinct_def
  proof (intro allI impI)
    fix i j s t
    assume s: "jget (sw_next sw) i = Some s" and t: "jget (sw_next sw) j = Some t"
      and eq: "ps_scope s = ps_scope t"
    have inj: "inj_on ps_scope (set (sw_commit sw))" using ci by (simp add: commit_inv_def distinct_map)
    from next_cases [OF s] next_cases [OF t] show "i = j"
      using pd eq old inj unfolding prev_distinct_def by (metis inj_onD not_le)
  qed
  have kept: "ps_scope s \<notin> ps_scope ` set superseded" if "jget (sw_next sw) i = Some s" for i s
    using jget_mem [OF that] by (force simp: superseded_def)
  have at: "scopes ! ps_scope s = sw_scopes sw ! ps_scope s"
    if "jget (sw_next sw) i = Some s" "ps_scope s < length (sw_scopes sw)" for i s
    using kept [OF that(1)] that(2) by (simp add: scopes_def cleanup_states_nth)
  show "live_states (sw_next sw) scopes"
    unfolding live_states_def
  proof (intro allI impI)
    fix i s assume s: "jget (sw_next sw) i = Some s"
    have "ps_scope s < length (sw_scopes sw)" using next_cases [OF s] old len by fastforce
    with next_cases [OF s] old at [OF s] show "ps_instance s = i \<and> ps_scope s < length scopes \<and>
        es_committed (scopes ! ps_scope s) \<and> \<not> es_disposed (scopes ! ps_scope s)"
      by (auto simp: scopes_def)
  qed
  have mono: "es_disposed (sw_scopes sw ! a) \<Longrightarrow> a < length (sw_scopes sw) \<Longrightarrow> es_disposed (scopes ! a)" for a
    by (simp add: scopes_def cleanup_states_nth)
  assume dp: "distinct (jkeys prev)" and lf: "leak_free prev scopes0"
  have "es_disposed (scopes ! a) \<or> (\<exists>i s. jget (sw_next sw) i = Some s \<and> ps_scope s = a)"
    if a: "a < length (sw_scopes sw)" for a
  proof (cases "a < ?n")
    case True
    from lf True consider "es_disposed (scopes0 ! a)" | i s where "jget prev i = Some s" "ps_scope s = a"
      by (auto simp: leak_free_def)
    then show ?thesis
    proof cases
      case 1
      then show ?thesis using k True mono [OF _ a] by (simp add: keeps_def)
    next
      case (2 i s)
      show ?thesis
      proof (cases "\<exists>j t. jget (sw_next sw) j = Some t \<and> ps_scope t = a")
        case False
        with 2 have "jget (sw_next sw) i \<noteq> Some s" by blast
        with ci 2 have "a \<in> set (sw_dispose sw)" unfolding commit_inv_def by blast
        moreover have "a \<notin> set (map ps_scope (jvals (sw_next sw)))"
          using False mem_jget [OF d] by fastforce
        ultimately have "a \<in> ps_scope ` set superseded"
          using 2 jget_mem [OF 2(1)] by (force simp: superseded_def)
        then show ?thesis using a by (simp add: scopes_def cleanup_states_nth)
      qed simp
    qed
  next
    case False
    then show ?thesis
    proof (cases "a \<in> ps_scope ` set (sw_commit sw)")
      case True
      then obtain s where s: "s \<in> set (sw_commit sw)" "ps_scope s = a" by blast
      then have "jget (sw_next sw) (ps_instance s) = Some s \<or> es_disposed (sw_scopes sw ! a)"
        using ci unfolding commit_inv_def by blast
      with s mono [OF _ a] show ?thesis by blast
    next
      case noncommit: False
      with False ci a have "es_disposed (sw_scopes sw ! a)" unfolding commit_inv_def by simp
      with mono [OF _ a] show ?thesis by blast
    qed
  qed
  then show "leak_free (sw_next sw) scopes" by (simp add: leak_free_def scopes_def)
qed

text \<open>A switch either stops before it prepares anything, or prepares and commits, or publishes.\<close>

lemma switch_now_cases:
  assumes "switch_now env cs ro rt = Some (r, rt')"
  obtains (early) e where "r = Inl e" "rt' = rt"
  | (unchanged) "r = Inr \<lparr>sr_changed = False, sr_generation = rt_current rt, sr_previous = None\<rparr>"
      "rt' = rt\<lparr>rt_fresh := rt_fresh rt + length cs\<rparr>" "\<not> rt_disposed rt"
  | (failed) facts plan components e where "\<not> rt_disposed rt" "facts_ok facts (concat components)"
      "distinct (concat components)" "r = Inl e"
      "prepare_and_commit env rt (by_id_map cs) facts plan components = Some (Inl e, rt')"
  | (published) facts plan components diags sw rt1 where "\<not> rt_disposed rt" "facts_ok facts (concat components)"
      "distinct (concat components)"
      "prepare_and_commit env rt (by_id_map cs) facts plan components = Some (Inr (diags, sw), rt1)"
      "(r, rt') = publish_switch env rt1 (rt_fresh rt + length cs)
        (sort (case ro of None \<Rightarrow> rn_default_ready env | Some r \<Rightarrow> r)) (diags, sw)"
proof (cases "rt_disposed rt")
  case True
  with assms have "r = Inl Runtime_disposed" "rt' = rt" by (simp_all add: switch_now_def)
  with early show ?thesis by blast
next
  case False
  show ?thesis
  proof (cases "plan_capability_graph cs (map hs_capability (rn_host_services env))")
    case (Inl e)
    with assms False have "r = Inl e" "rt' = rt" by (simp_all add: switch_now_def Let_def)
    with early show ?thesis by blast
  next
    case (Inr plan)
    note plan = this
    show ?thesis
    proof (cases "identify_candidates env (by_id_map cs) (rt_fresh rt)")
      case (Inl e)
      with assms False plan have "r = Inl e" "rt' = rt" by (simp_all add: switch_now_def Let_def)
      with early show ?thesis by blast
    next
      case (Inr facts)
      note facts = this
      let ?ready = "sort (case ro of None \<Rightarrow> rn_default_ready env | Some r \<Rightarrow> r)"
      show ?thesis
      proof (cases "switch_unchanged rt cs (by_id_map cs) facts ?ready")
        case True
        with assms False plan facts
        have "r = Inr \<lparr>sr_changed = False, sr_generation = rt_current rt, sr_previous = None\<rparr>"
          and "rt' = rt\<lparr>rt_fresh := rt_fresh rt + length cs\<rparr>"
          by (simp_all add: switch_now_def Let_def)
        with unchanged False show ?thesis by blast
      next
        case ch: False
        show ?thesis
        proof (cases "dependency_components (rn_collate env) (by_id_map cs) plan")
          case (Inl e)
          with assms False plan facts ch have "r = Inl e" "rt' = rt" by (simp_all add: switch_now_def Let_def)
          with early show ?thesis by blast
        next
          case (Inr components)
          note dc = dependency_components_result [OF Inr]
          have f: "facts_ok facts (concat components)" by (rule identified_facts_ok [OF facts dc(2)])
          from assms False plan facts ch Inr obtain res rt1 where
            p: "prepare_and_commit env rt (by_id_map cs) facts plan components = Some (res, rt1)"
            by (auto simp: switch_now_def Let_def split: option.splits)
          show ?thesis
          proof (cases res)
            case (Inl e)
            with assms False plan facts ch \<open>dependency_components _ _ _ = Inr _\<close> p
            have "r = Inl e" "rt' = rt1" by (simp_all add: switch_now_def Let_def)
            with failed [OF False f dc(1)] p Inl show ?thesis by blast
          next
            case (Inr acc)
            with assms False plan facts ch \<open>dependency_components _ _ _ = Inr _\<close> p
            have "(r, rt') = publish_switch env rt1 (rt_fresh rt + length cs) ?ready acc"
              by (simp add: switch_now_def Let_def)
            with published [OF False f dc(1)] p Inr show ?thesis by (cases acc) blast
          qed
        qed
      qed
    qed
  qed
qed

text \<open>The errors the two registries throw.\<close>

fun registry_error :: "kernel_error \<Rightarrow> bool" where
  "registry_error (Service_already_registered _ _) = True"
| "registry_error Service_capability_required = True"
| "registry_error (Contribution_registered _ _) = True"
| "registry_error Contribution_incomplete = True"
| "registry_error _ = False"

lemma fold_res_Inl: "fold_res f xs s = Inl e \<Longrightarrow> \<exists>x t. f x t = Inl e"
  by (induction xs arbitrary: s) (auto simp: bindr_Inl_iff)

lemma build_snapshots_error: "build_snapshots states hs = Inl e \<Longrightarrow> registry_error e"
proof -
  have s: "service_register a b c m = Inl e \<Longrightarrow> registry_error e" for a b c m
    by (auto simp: service_register_def Let_def split: if_splits option.splits)
  have c: "contribution_register a b d = Inl e \<Longrightarrow> registry_error e" for a b d
    by (auto simp: contribution_register_def Let_def split: if_splits)
  have "register_state st p = Inl e \<Longrightarrow> registry_error e" for st p
    unfolding register_state_def by (auto simp: bindr_Inl_iff dest!: fold_res_Inl intro: s c)
  then show "build_snapshots states hs = Inl e \<Longrightarrow> registry_error e"
    unfolding build_snapshots_def service_draft_def
    by (auto simp: bindr_Inl_iff dest!: fold_res_Inl intro: s)
qed

lemma publish_switch_cases:
  assumes "publish_switch env rt gid ready (diags, sw) = (r, rt')"
  obtains (snapshot) e where "r = Inl e" "registry_error e"
      "rt' = rt\<lparr>rt_failures := sw_failures sw, rt_scopes := sw_scopes sw\<rparr>"
  | (missing) caps where "r = Inl (Ready_capabilities_missing caps)" "caps \<noteq> []"
      "rt' = rt\<lparr>rt_failures := sw_failures sw, rt_scopes := snd (cleanup_states (sw_commit sw) Rollback (sw_scopes sw))\<rparr>"
  | (switched) g where "r = Inr \<lparr>sr_changed = True, sr_generation = g, sr_previous = Some (g_id (rt_current rt))\<rparr>"
      "rt_current rt' = g" "rt_active rt' = sw_next sw" "rt_disposed rt' = rt_disposed rt"
      "rt_sequence rt' = rt_sequence rt + 1" "g_sequence g = rt_sequence rt + 1" "g_id g = gid"
      "publishes env (sw_next sw) g" "g_ready_requires g = ready"
      "\<forall>cap \<in> set ready. jhas (g_services g) cap"
      "rt_scopes rt' = snd (cleanup_states (filter (\<lambda>s. ps_scope s \<in> set (sw_dispose sw) \<and>
        ps_scope s \<notin> set (map ps_scope (jvals (sw_next sw)))) (jvals (rt_active rt))) Superseded (sw_scopes sw))"
      "set (g_records g) = set (sw_records sw)"
      "g_readiness g = (if list_ex degraded_record (sw_records sw) then Degraded else Ready)"
proof (cases "build_snapshots (jvals (sw_next sw)) (rn_host_services env)")
  case (Inl e)
  then have "r = Inl e" "rt' = rt\<lparr>rt_failures := sw_failures sw, rt_scopes := sw_scopes sw\<rparr>"
    using assms by (auto simp: publish_switch_def)
  with snapshot build_snapshots_error [OF Inl] show ?thesis by blast
next
  case (Inr snap)
  obtain services draft where snap: "snap = (services, draft)" by force
  show ?thesis
  proof (cases "filter (\<lambda>cap. \<not> jhas services cap) ready = []")
    case False
    then have "r = Inl (Ready_capabilities_missing (filter (\<lambda>cap. \<not> jhas services cap) ready))"
      and "rt' = rt\<lparr>rt_failures := sw_failures sw, rt_scopes := snd (cleanup_states (sw_commit sw) Rollback (sw_scopes sw))\<rparr>"
      using assms Inr snap by (auto simp: publish_switch_def Let_def)
    with missing False show ?thesis by blast
  next
    case True
    obtain ds scopes where cl: "cleanup_states (filter (\<lambda>s. ps_scope s \<in> set (sw_dispose sw) \<and>
        ps_scope s \<notin> set (map ps_scope (jvals (sw_next sw)))) (jvals (rt_active rt))) Superseded (sw_scopes sw)
        = (ds, scopes)" by force
    show ?thesis
      by (rule switched [of "sr_generation (projr r)"])
        (use assms Inr snap True cl in \<open>auto simp: publish_switch_def publishes_def Let_def filter_empty_conv\<close>)
  qed
qed

lemma switch_now_result:
  assumes ok: "runtime_ok env rt" and sw: "switch_now env cs ro rt = Some (r, rt')"
  shows "runtime_ok env rt' \<and>
    (leak_free (rt_active rt) (rt_scopes rt) \<longrightarrow> (\<forall>e. r = Inl e \<longrightarrow> \<not> registry_error e) \<longrightarrow>
       leak_free (rt_active rt') (rt_scopes rt')) \<and>
    (\<forall>e. r = Inl e \<longrightarrow> rt_current rt' = rt_current rt \<and> rt_active rt' = rt_active rt \<and>
       rt_sequence rt' = rt_sequence rt \<and> rt_disposed rt' = rt_disposed rt \<and>
       keeps (length (rt_scopes rt)) (rt_scopes rt) (rt_scopes rt'))"
proof -
  have live: "live_states (rt_active rt) (rt_scopes rt)" and pd: "prev_distinct (rt_active rt)"
    and dk: "distinct (jkeys (rt_active rt))"
    using ok by (simp_all add: runtime_ok_def)
  have kept: "runtime_ok env (rt\<lparr>rt_failures := fs, rt_scopes := scopes\<rparr>)"
    if "keeps (length (rt_scopes rt)) (rt_scopes rt) scopes" for fs scopes
    using ok that unfolding runtime_ok_def live_states_def keeps_def by fastforce
  have lf: "leak_free (rt_active rt) scopes"
    if "leak_free (rt_active rt) (rt_scopes rt)" "keeps (length (rt_scopes rt)) (rt_scopes rt) scopes"
      "\<forall>a. length (rt_scopes rt) \<le> a \<longrightarrow> a < length scopes \<longrightarrow> es_disposed (scopes ! a)" for scopes
    using that unfolding leak_free_def keeps_def by (metis not_le)
  from sw show ?thesis
  proof (cases rule: switch_now_cases)
    case early
    with ok show ?thesis by simp
  next
    case unchanged
    with ok show ?thesis by (simp add: runtime_ok_def)
  next
    case (failed facts plan components e)
    from prepare_and_commit_result [OF ok failed(2,3,5)] obtain scopes fs where
      "rt' = rt\<lparr>rt_failures := fs, rt_scopes := scopes\<rparr>"
      "keeps (length (rt_scopes rt)) (rt_scopes rt) scopes"
      "\<forall>a. length (rt_scopes rt) \<le> a \<longrightarrow> a < length scopes \<longrightarrow> es_disposed (scopes ! a)" by auto
    with kept lf failed(4) show ?thesis by simp
  next
    case (published facts plan components diags sw rt1)
    from prepare_and_commit_result [OF ok published(2-4)] have rt1: "rt1 = rt"
      and ci: "commit_inv (rt_active rt) (rt_scopes rt) [] sw" by simp_all
    have k: "keeps (length (rt_scopes rt)) (rt_scopes rt) (sw_scopes sw)" using ci by (simp add: commit_inv_def)
    from published(5)[symmetric] show ?thesis
    proof (cases rule: publish_switch_cases)
      case (snapshot e)
      with kept [OF k, of "sw_failures sw"] k rt1 show ?thesis by simp
    next
      case (missing caps)
      with cleanup_commit_inv [OF ci, of Rollback] kept [of _ "sw_failures sw"] lf rt1
      show ?thesis by simp
    next
      case (switched g)
      note p = publish_active_ok [OF ci live pd]
      have "runtime_ok env rt'"
        using switched rt1 published(1) p(1-3) by (simp add: runtime_ok_def)
      moreover have "leak_free (rt_active rt) (rt_scopes rt) \<longrightarrow> leak_free (rt_active rt') (rt_scopes rt')"
        using switched rt1 p(4) [OF dk] by simp
      ultimately show ?thesis using switched by simp
    qed
  qed
qed

end
