(* ===== verification/GenerationFailure.thy ===== *)
theory GenerationFailure
  imports GenerationSwitch
begin

text \<open>
  Runtime failures, disposal and the sequences of operations of the generation runtime: the
  plugins removed after a failure are exactly the dependents of the failed one, and
  \<open>runtime_ok\<close> holds in every reachable state.
\<close>

section \<open>Snapshots as item registrations\<close>

definition service_items :: "plugin_state \<Rightarrow> (string \<times> string \<times> js_value) list" where
  "service_items s = map (\<lambda>v. (ps_instance s, svc_capability v, svc_value v)) (ps_services s)"

definition contribution_items :: "plugin_state \<Rightarrow> (string \<times> contribution) list" where
  "contribution_items s = map (\<lambda>c. (ps_instance s, contribution.truncate c)) (ps_contributions s)"

lemma fold_res_map: "fold_res f (map g xs) s = fold_res (\<lambda>x. f (g x)) xs s"
  by (induction xs arbitrary: s) (auto simp: bindr_def split: sum.splits)

lemma register_states_items:
  "fold_res register_state states (sv, cd) = Inr (sv', cd') \<longleftrightarrow>
     fold_res service_item_reg (concat (map service_items states)) sv = Inr sv' \<and>
     fold_res contribution_item_reg (concat (map contribution_items states)) cd = Inr cd'"
proof (induction states arbitrary: sv cd)
  case (Cons s ss)
  have "register_state s (sv, cd) = Inr (a, b) \<longleftrightarrow> fold_res service_item_reg (service_items s) sv = Inr a \<and>
      fold_res contribution_item_reg (contribution_items s) cd = Inr b" for a b
    by (auto simp: register_state_def bindr_Inr_iff service_items_def contribution_items_def fold_res_map
        service_item_reg_def contribution_item_reg_def ps_instance_def)
  then show ?case by (auto simp: bindr_Inr_iff Cons.IH)
qed auto

lemma build_snapshots_iff:
  "(\<exists>x. build_snapshots states hs = Inr x) \<longleftrightarrow> (\<exists>sv. service_draft hs = Inr sv \<and>
     (\<exists>sv'. fold_res service_item_reg (concat (map service_items states)) sv = Inr sv') \<and>
     (\<exists>cd'. fold_res contribution_item_reg (concat (map contribution_items states)) contribution_draft_new = Inr cd'))"
  by (auto simp: build_snapshots_def bindr_Inr_iff register_states_items split_paired_Ex)

lemma distinct_concat_filter: "distinct (concat (map f xs)) \<Longrightarrow> distinct (concat (map f (filter P xs)))"
  by (induction xs) auto

lemma distinct_append_concat_filter:
  assumes "distinct (ks @ concat (map f xs))" shows "distinct (ks @ concat (map f (filter P xs)))"
proof -
  have "set (concat (map f (filter P xs))) \<subseteq> set (concat (map f xs))" by auto
  with assms distinct_concat_filter [of f xs P] show ?thesis unfolding distinct_append by blast
qed

lemma list_all_concat_filter: "list_all Q (concat (map f xs)) \<Longrightarrow> list_all Q (concat (map f (filter P xs)))"
  by (induction xs) auto

lemma service_draft_distinct: "service_draft hs = Inr sv \<Longrightarrow> distinct (jkeys sv)"
proof -
  assume "service_draft hs = Inr sv"
  then have "fold_res service_item_reg (map (\<lambda>h. (''host'', hs_capability h, hs_value h)) hs) [] = Inr sv"
    by (simp add: service_draft_def fold_res_map service_item_reg_def)
  then show "distinct (jkeys sv)" by (rule sreg.reg_all_distinct) simp
qed

text \<open>Dropping plugins never makes a registration fail.\<close>

lemma build_snapshots_filter:
  assumes "build_snapshots states hs = Inr x"
  obtains y where "build_snapshots (filter P states) hs = Inr y"
proof -
  let ?sk = "\<lambda>s. map (the \<circ> service_item_key) (service_items s)"
  let ?ck = "\<lambda>s. map (the \<circ> contribution_item_key) (contribution_items s)"
  from assms obtain sv where sv: "service_draft hs = Inr sv"
    and s: "\<exists>sv'. fold_res service_item_reg (concat (map service_items states)) sv = Inr sv'"
    and c: "\<exists>cd'. fold_res contribution_item_reg (concat (map contribution_items states)) contribution_draft_new = Inr cd'"
    using build_snapshots_iff [of states hs] by blast
  note d = service_draft_distinct [OF sv]
  have d0: "distinct (cd_keys contribution_draft_new)" by (simp add: contribution_draft_new_def)
  have sk: "map (the \<circ> service_item_key) (concat (map service_items xs)) = concat (map ?sk xs)"
    and ck: "map (the \<circ> contribution_item_key) (concat (map contribution_items xs)) = concat (map ?ck xs)" for xs
    by (simp_all add: map_concat comp_def)
  from s have
    s1: "list_all (\<lambda>i. service_item_key i \<noteq> None) (concat (map service_items states))"
      "distinct (jkeys sv @ concat (map ?sk states))" by (simp_all only: sreg.reg_all_iff [OF d] sk)
  have 1: "\<exists>sv'. fold_res service_item_reg (concat (map service_items (filter P states))) sv = Inr sv'"
    using list_all_concat_filter [OF s1(1)] distinct_append_concat_filter [OF s1(2)]
    by (simp only: sreg.reg_all_iff [OF d] sk)
  from c have
    c1: "list_all (\<lambda>i. contribution_item_key i \<noteq> None) (concat (map contribution_items states))"
      "distinct (cd_keys contribution_draft_new @ concat (map ?ck states))"
    by (simp_all only: creg.reg_all_iff [OF d0] ck)
  have 2: "\<exists>cd'. fold_res contribution_item_reg (concat (map contribution_items (filter P states))) contribution_draft_new = Inr cd'"
    using list_all_concat_filter [OF c1(1)] distinct_append_concat_filter [OF c1(2)]
    by (simp only: creg.reg_all_iff [OF d0] ck)
  from sv 1 2 build_snapshots_iff [of "filter P states" hs] that show ?thesis by blast
qed

section \<open>What a runtime failure removes\<close>

text \<open>The specification: the failed plugin, and every active plugin that requires a capability
  which a lost plugin declares to provide.\<close>

inductive lost :: "plugin_state list \<Rightarrow> string \<Rightarrow> string \<Rightarrow> bool" for states failed where
  lost_self: "lost states failed failed"
| lost_dependent: "s \<in> set states \<Longrightarrow> t \<in> set states \<Longrightarrow> lost states failed (ps_instance t) \<Longrightarrow>
     cap \<in> set (m_provides (ps_manifest t)) \<Longrightarrow> cap \<in> set (m_requires (ps_manifest s)) \<Longrightarrow>
     lost states failed (ps_instance s)"

lemma removal_fold_mem:
  "x \<in> set (foldl (removal_step caps) acc xs) \<Longrightarrow> x \<in> set acc \<or>
     (\<exists>s \<in> set xs. ps_instance s = x \<and> (\<exists>cap \<in> set (m_requires (ps_manifest s)). cap \<in> set caps))"
proof (induction xs arbitrary: acc)
  case (Cons s xs)
  then have "x \<in> set (removal_step caps acc s) \<or>
      (\<exists>s \<in> set xs. ps_instance s = x \<and> (\<exists>cap \<in> set (m_requires (ps_manifest s)). cap \<in> set caps))" by simp
  then show ?case
    by (auto simp: removal_step_def ps_instance_def list_ex_iff split: if_splits)
qed simp

lemma removal_fold_adds:
  "s \<in> set xs \<Longrightarrow> cap \<in> set (m_requires (ps_manifest s)) \<Longrightarrow> cap \<in> set caps \<Longrightarrow>
     ps_instance s \<in> set (foldl (removal_step caps) acc xs)"
proof (induction xs arbitrary: acc)
  case (Cons t xs)
  show ?case
  proof (cases "t = s")
    case True
    then have "ps_instance s \<in> set (removal_step caps acc t)"
      using Cons.prems by (auto simp: removal_step_def ps_instance_def list_ex_iff)
    then show ?thesis using removal_fold_bounds [of "removal_step caps acc t" caps xs] by auto
  qed (use Cons in simp)
qed simp

lemma removed_capabilities_iff:
  "cap \<in> set (removed_capabilities states removed) \<longleftrightarrow>
     (\<exists>t \<in> set states. ps_instance t \<in> set removed \<and> cap \<in> set (m_provides (ps_manifest t)))"
  by (auto simp: removed_capabilities_def ps_instance_def)

lemma removal_closure_lost:
  "\<forall>x \<in> set removed. lost states failed x \<Longrightarrow> failed \<in> set removed \<Longrightarrow>
     x \<in> set (removal_closure states removed) \<longleftrightarrow> lost states failed x"
proof (induction states removed rule: removal_closure.induct)
  case (1 states removed)
  have grow: "\<forall>x \<in> set (removal_pass states removed). lost states failed x"
  proof
    fix x assume "x \<in> set (removal_pass states removed)"
    then consider "x \<in> set removed" | s t cap where "s \<in> set states" "ps_instance s = x"
        "cap \<in> set (m_requires (ps_manifest s))" "t \<in> set states" "ps_instance t \<in> set removed"
        "cap \<in> set (m_provides (ps_manifest t))"
      unfolding removal_pass_def by (auto dest!: removal_fold_mem simp: removed_capabilities_iff)
    then show "lost states failed x"
      by cases (use "1.prems"(1) in \<open>auto intro: lost_dependent\<close>)
  qed
  show ?case
  proof (cases "set (removal_pass states removed) = set removed")
    case False
    moreover have "failed \<in> set (removal_pass states removed)"
      using "1.prems"(2) removal_pass_grows by blast
    ultimately show ?thesis
      using "1.IH" grow by (simp add: removal_closure.simps [of states removed] Let_def)
  next
    case True
    have "y \<in> set removed" if "lost states failed y" for y
      using that
    proof induction
      case (lost_dependent s t cap)
      then have "cap \<in> set (removed_capabilities states removed)"
        by (auto simp: removed_capabilities_iff)
      from removal_fold_adds [OF lost_dependent(1,5) this] True show ?case
        unfolding removal_pass_def by blast
    qed (rule "1.prems"(2))
    with "1.prems"(1) True show ?thesis
      by (auto simp: removal_closure.simps [of states removed])
  qed
qed

lemma runtime_failure_result:
  assumes ok: "runtime_ok env rt" and open_rt: "\<not> rt_disposed rt"
    and f: "jget (rt_active rt) (instance_id ident) = Some f"
    and act: "activation_id (ps_identity f) = activation_id ident"
    and h: "handle_runtime_failure env ident e rt = (r, rt')"
  defines "gone \<equiv> \<lambda>i. lost (jvals (rt_active rt)) (instance_id ident) i"
  shows "r = Inr ()" and "rt_active rt' = filter (\<lambda>p. \<not> gone (fst p)) (rt_active rt)"
    and "rt_sequence rt' = rt_sequence rt + 1" and "rt_disposed rt' = rt_disposed rt"
    and "publishes env (rt_active rt') (rt_current rt')"
    and "length (rt_scopes rt') = length (rt_scopes rt)"
    and "\<forall>i s. jget (rt_active rt) i = Some s \<longrightarrow> rt_scopes rt' ! ps_scope s =
        (if gone i then snd (scope_dispose (rt_scopes rt ! ps_scope s)) else rt_scopes rt ! ps_scope s)"
    and "\<forall>a < length (rt_scopes rt). es_disposed (rt_scopes rt ! a) \<longrightarrow> es_disposed (rt_scopes rt' ! a)"
proof -
  let ?active = "rt_active rt"
  let ?removed = "removal_closure (jvals ?active) [instance_id ident]"
  let ?gone = "filter (\<lambda>s. instance_id (ps_identity s) \<in> set ?removed) (jvals ?active)"
  let ?remaining = "filter (\<lambda>p. fst p \<notin> set ?removed) ?active"
  have rem: "i \<in> set ?removed \<longleftrightarrow> gone i" for i
    unfolding gone_def by (rule removal_closure_lost) (auto intro: lost_self)
  have dk: "distinct (jkeys ?active)" and live: "live_states ?active (rt_scopes rt)"
    and pd: "prev_distinct ?active" and pub: "publishes env ?active (rt_current rt)"
    using ok open_rt by (simp_all add: runtime_ok_def)
  have key: "ps_instance s = i" if "(i, s) \<in> set ?active" for i s
    using live that mem_jget [OF dk] by (auto simp: live_states_def)
  have "jvals ?remaining = filter (\<lambda>s. \<not> gone (ps_instance s)) (jvals ?active)"
  proof -
    have "filter (\<lambda>p. \<not> gone (fst p)) ?active = filter (\<lambda>p. \<not> gone (ps_instance (snd p))) ?active"
      by (rule filter_cong) (auto dest: key)
    then show ?thesis by (simp add: rem filter_map comp_def)
  qed
  moreover from pub obtain x where "build_snapshots (jvals ?active) (rn_host_services env) = Inr x"
    by (auto simp: publishes_def)
  ultimately obtain sv cd where snap: "build_snapshots (jvals ?remaining) (rn_host_services env) = Inr (sv, cd)"
    by (metis build_snapshots_filter surj_pair)
  obtain ds scopes where cl: "cleanup_states ?gone Runtime_failure (rt_scopes rt) = (ds, scopes)" by force
  have R: "r = Inr () \<and> rt_active rt' = ?remaining \<and> rt_sequence rt' = rt_sequence rt + 1 \<and>
      rt_disposed rt' = rt_disposed rt \<and> rt_scopes rt' = scopes \<and>
      g_services (rt_current rt') = sv \<and> g_contributions (rt_current rt') = cd_values cd"
    using h f act open_rt snap cl
    by (auto simp: handle_runtime_failure_def Let_def)
  then show "r = Inr ()" and "rt_sequence rt' = rt_sequence rt + 1" and "rt_disposed rt' = rt_disposed rt"
    by simp_all
  show "rt_active rt' = filter (\<lambda>p. \<not> gone (fst p)) ?active" using R rem by simp
  show "publishes env (rt_active rt') (rt_current rt')" using R snap by (simp add: publishes_def)
  have scopes: "scopes = snd (cleanup_states ?gone Runtime_failure (rt_scopes rt))" using cl by simp
  then show "length (rt_scopes rt') = length (rt_scopes rt)" using R by simp
  show "\<forall>a < length (rt_scopes rt). es_disposed (rt_scopes rt ! a) \<longrightarrow> es_disposed (rt_scopes rt' ! a)"
    using R scopes by (simp add: cleanup_states_nth)
  show "\<forall>i s. jget ?active i = Some s \<longrightarrow> rt_scopes rt' ! ps_scope s =
        (if gone i then snd (scope_dispose (rt_scopes rt ! ps_scope s)) else rt_scopes rt ! ps_scope s)"
  proof (intro allI impI)
    fix i s assume s: "jget ?active i = Some s"
    have "ps_scope s \<in> ps_scope ` set ?gone \<longleftrightarrow> gone i"
    proof
      assume "ps_scope s \<in> ps_scope ` set ?gone"
      then obtain j t where t: "(j, t) \<in> set ?active" "ps_instance t \<in> set ?removed" "ps_scope t = ps_scope s"
        by (auto simp: ps_instance_def)
      then have "j = i" using pd s mem_jget [OF dk] unfolding prev_distinct_def by metis
      with t key rem show "gone i" by auto
    next
      assume "gone i"
      with rem key [OF jget_mem [OF s]] have "ps_instance s \<in> set ?removed" by simp
      with jget_mem [OF s] show "ps_scope s \<in> ps_scope ` set ?gone" by (force simp: ps_instance_def)
    qed
    moreover have "ps_scope s < length (rt_scopes rt)" using live s by (simp add: live_states_def)
    ultimately show "rt_scopes rt' ! ps_scope s =
        (if gone i then snd (scope_dispose (rt_scopes rt ! ps_scope s)) else rt_scopes rt ! ps_scope s)"
      using R scopes by (simp add: cleanup_states_nth)
  qed
qed

lemma runtime_failure_ok:
  assumes ok: "runtime_ok env rt"
    and h: "handle_runtime_failure env ident e rt = (r, rt')"
  shows "runtime_ok env rt' \<and>
    (leak_free (rt_active rt) (rt_scopes rt) \<longrightarrow> leak_free (rt_active rt') (rt_scopes rt'))"
proof (cases "\<not> rt_disposed rt \<and> (\<exists>f. jget (rt_active rt) (instance_id ident) = Some f \<and>
    activation_id (ps_identity f) = activation_id ident)")
  case False
  then have "rt' = rt"
    using h by (auto simp: handle_runtime_failure_def split: if_splits option.splits)
  with ok show ?thesis by simp
next
  case True
  then obtain f where open_rt: "\<not> rt_disposed rt" and f: "jget (rt_active rt) (instance_id ident) = Some f"
      "activation_id (ps_identity f) = activation_id ident" by blast
  note res = runtime_failure_result [OF ok open_rt f h]
  let ?gone = "\<lambda>i. lost (jvals (rt_active rt)) (instance_id ident) i"
  have get: "jget (rt_active rt') i = (if ?gone i then None else jget (rt_active rt) i)" for i
    using jget_filter [of "\<lambda>i. \<not> ?gone i" "rt_active rt" i] res(2) by simp
  have "distinct (jkeys (rt_active rt'))" using ok res(2) by (simp add: runtime_ok_def distinct_map_filter)
  moreover have "prev_distinct (rt_active rt')"
    using ok unfolding runtime_ok_def prev_distinct_def by (simp add: get)
  moreover have "live_states (rt_active rt') (rt_scopes rt')"
    using ok res(6,7) unfolding runtime_ok_def live_states_def by (auto simp: get)
  moreover have "leak_free (rt_active rt') (rt_scopes rt')" if lf: "leak_free (rt_active rt) (rt_scopes rt)"
    unfolding leak_free_def
  proof (intro allI impI)
    fix a assume a: "a < length (rt_scopes rt')"
    with lf res(6) consider "es_disposed (rt_scopes rt ! a)"
      | i s where "jget (rt_active rt) i = Some s" "ps_scope s = a" by (auto simp: leak_free_def)
    then show "es_disposed (rt_scopes rt' ! a) \<or> (\<exists>i s. jget (rt_active rt') i = Some s \<and> ps_scope s = a)"
    proof cases
      case 1
      with a res(6,8) show ?thesis by simp
    next
      case (2 i s)
      with res(7) get [of i] show ?thesis by (cases "?gone i") auto
    qed
  qed
  ultimately show ?thesis using res(4,5) open_rt by (simp add: runtime_ok_def)
qed

lemma dispose_now_result:
  assumes "runtime_ok env rt" and "\<not> rt_disposed rt" and "dispose_now rt = (r, rt')"
  shows "rt_disposed rt'" and "rt_active rt' = []" and "rt_sequence rt' = rt_sequence rt"
    and "length (rt_scopes rt') = length (rt_scopes rt)"
    and "a < length (rt_scopes rt) \<Longrightarrow> rt_scopes rt' ! a =
      (if \<exists>i s. jget (rt_active rt) i = Some s \<and> ps_scope s = a
       then snd (scope_dispose (rt_scopes rt ! a)) else rt_scopes rt ! a)"
proof -
  obtain ds scopes where cl: "cleanup_states (jvals (rt_active rt)) Shutdown (rt_scopes rt) = (ds, scopes)" by force
  from assms cl have R: "rt_disposed rt' \<and> rt_active rt' = [] \<and> rt_scopes rt' = scopes \<and>
      rt_sequence rt' = rt_sequence rt"
    by (auto simp: dispose_now_def Let_def split: if_splits)
  then show "rt_disposed rt'" and "rt_active rt' = []" and "rt_sequence rt' = rt_sequence rt" by simp_all
  have scopes: "scopes = snd (cleanup_states (jvals (rt_active rt)) Shutdown (rt_scopes rt))" using cl by simp
  then show "length (rt_scopes rt') = length (rt_scopes rt)" using R by simp
  have dk: "distinct (jkeys (rt_active rt))" using assms(1) by (simp add: runtime_ok_def)
  have "a \<in> ps_scope ` set (jvals (rt_active rt)) \<longleftrightarrow>
      (\<exists>i s. jget (rt_active rt) i = Some s \<and> ps_scope s = a)" for a
    using mem_jget [OF dk] by force
  then show "a < length (rt_scopes rt) \<Longrightarrow> rt_scopes rt' ! a =
      (if \<exists>i s. jget (rt_active rt) i = Some s \<and> ps_scope s = a
       then snd (scope_dispose (rt_scopes rt ! a)) else rt_scopes rt ! a)"
    using R scopes by (simp add: cleanup_states_nth)
qed

section \<open>Sequences of operations\<close>

text \<open>The mutation queue runs one operation after the other.\<close>

inductive runtime_step :: "runtime_env \<Rightarrow> runtime \<Rightarrow> runtime \<Rightarrow> bool" for env where
  step_switch: "switch_now env cs ro rt = Some (r, rt') \<Longrightarrow> runtime_step env rt rt'"
| step_failure: "handle_runtime_failure env ident e rt = (r, rt') \<Longrightarrow> runtime_step env rt rt'"
| step_dispose: "dispose_now rt = (r, rt') \<Longrightarrow> runtime_step env rt rt'"

inductive runtime_reachable :: "runtime_env \<Rightarrow> runtime \<Rightarrow> bool" for env where
  reach_new: "new_runtime env = Inr rt \<Longrightarrow> runtime_reachable env rt"
| reach_step: "runtime_reachable env rt \<Longrightarrow> runtime_step env rt rt' \<Longrightarrow> runtime_reachable env rt'"

inductive_cases runtime_stepE: "runtime_step env rt rt'"

lemma new_runtime_ok: "new_runtime env = Inr rt \<Longrightarrow> runtime_ok env rt \<and> rt_scopes rt = []"
  by (auto simp: new_runtime_def bindr_Inr_iff Let_def runtime_ok_def prev_distinct_def live_states_def
      publishes_def build_snapshots_def contribution_draft_new_def)

lemma dispose_now_ok: "runtime_ok env rt \<Longrightarrow> dispose_now rt = (r, rt') \<Longrightarrow> runtime_ok env rt'"
proof (cases "rt_disposed rt")
  case True
  then show "runtime_ok env rt \<Longrightarrow> dispose_now rt = (r, rt') \<Longrightarrow> runtime_ok env rt'"
    by (simp add: dispose_now_def)
next
  case False
  assume "runtime_ok env rt" and "dispose_now rt = (r, rt')"
  from dispose_now_result [OF this(1) False this(2)] show "runtime_ok env rt'"
    by (simp add: runtime_ok_def prev_distinct_def live_states_def)
qed

lemma runtime_step_ok: "runtime_step env rt rt' \<Longrightarrow> runtime_ok env rt \<Longrightarrow> runtime_ok env rt'"
  by (erule runtime_stepE) (auto dest: switch_now_result runtime_failure_ok dispose_now_ok)

lemma reachable_runtime_ok: "runtime_reachable env rt \<Longrightarrow> runtime_ok env rt"
  by (induction rule: runtime_reachable.induct) (auto dest: new_runtime_ok runtime_step_ok)


text \<open>C15: A switch that fails is not observable: the current generation, the active plugins and the
  sequence number are those of before, and no scope of an earlier generation has been
  touched.\<close>

theorem failed_switch_transactional:
  assumes "runtime_reachable env rt" and "switch_now env cs ro rt = Some (Inl e, rt')"
  shows "rt_current rt' = rt_current rt \<and> rt_active rt' = rt_active rt \<and>
    rt_sequence rt' = rt_sequence rt \<and> rt_disposed rt' = rt_disposed rt \<and>
    take (length (rt_scopes rt)) (rt_scopes rt') = rt_scopes rt"
proof -
  from switch_now_result [OF reachable_runtime_ok [OF assms(1)] assms(2)] show ?thesis by (auto dest: keeps_take)
qed

text \<open>A switch leaks no scope: when every scope is disposed or belongs to an active plugin
  before the switch, the same holds after it, whether it succeeds or fails, unless it fails
  with an error of the service or contribution registry.\<close>

lemma switch_leak_free:
  assumes "runtime_reachable env rt" and "leak_free (rt_active rt) (rt_scopes rt)"
    and "switch_now env cs ro rt = Some (r, rt')" and "\<forall>e. r = Inl e \<longrightarrow> \<not> registry_error e"
  shows "leak_free (rt_active rt') (rt_scopes rt')"
proof -
  from switch_now_result [OF reachable_runtime_ok [OF assms(1)] assms(3)] assms(2,4) show ?thesis by blast
qed

text \<open>A switch that changes the generation publishes a generation with the next sequence number
  in which every capability needed for readiness has a service.\<close>

lemma switch_published:
  assumes "runtime_reachable env rt" and "switch_now env cs ro rt = Some (Inr r, rt')" and "sr_changed r"
  shows "sr_generation r = rt_current rt' \<and> g_sequence (rt_current rt') = Suc (rt_sequence rt) \<and>
    rt_sequence rt' = Suc (rt_sequence rt) \<and> publishes env (rt_active rt') (rt_current rt') \<and>
    (\<forall>cap \<in> set (case ro of None \<Rightarrow> rn_default_ready env | Some c \<Rightarrow> c). jhas (g_services (rt_current rt')) cap)"
proof -
  note ok = reachable_runtime_ok [OF assms(1)]
  from assms(2) show ?thesis
  proof (cases rule: switch_now_cases)
    case (published facts plan components diags sw rt1)
    from prepare_and_commit_result [OF ok published(2-4)] have "rt1 = rt" by simp
    with published(5)[symmetric] show ?thesis by (cases rule: publish_switch_cases) simp_all
  qed (use assms(3) in simp_all)
qed

text \<open>C24: A reported runtime failure of an active activation removes the failed plugin and exactly
  the active plugins that depend on it, through required capabilities, and disposes their
  scopes; the other plugins keep theirs as they are. A failure of an activation that is no
  longer active changes nothing.\<close>

theorem runtime_failure_removes_dependents:
  assumes "runtime_reachable env rt" and "handle_runtime_failure env ident e rt = (r, rt')"
  shows "r = Inr () \<and>
    (if \<not> rt_disposed rt \<and> map_option (\<lambda>f. activation_id (ps_identity f))
          (jget (rt_active rt) (instance_id ident)) = Some (activation_id ident)
     then rt_active rt' = filter (\<lambda>p. \<not> lost (jvals (rt_active rt)) (instance_id ident) (fst p)) (rt_active rt) \<and>
       rt_sequence rt' = Suc (rt_sequence rt) \<and> publishes env (rt_active rt') (rt_current rt') \<and>
       (\<forall>i s. jget (rt_active rt) i = Some s \<longrightarrow>
          (if lost (jvals (rt_active rt)) (instance_id ident) i
           then es_disposed (rt_scopes rt' ! ps_scope s)
           else rt_scopes rt' ! ps_scope s = rt_scopes rt ! ps_scope s))
     else rt' = rt)"
proof -
  note ok = reachable_runtime_ok [OF assms(1)]
  show ?thesis
  proof (cases "\<not> rt_disposed rt \<and> map_option (\<lambda>f. activation_id (ps_identity f))
          (jget (rt_active rt) (instance_id ident)) = Some (activation_id ident)")
    case True
    then obtain f where "\<not> rt_disposed rt" and f: "jget (rt_active rt) (instance_id ident) = Some f"
        "activation_id (ps_identity f) = activation_id ident" by auto
    from runtime_failure_result [OF ok this(1) f assms(2)] True show ?thesis by simp
  next
    case False
    with assms(2) have "r = Inr () \<and> rt' = rt"
      by (auto simp: handle_runtime_failure_def split: if_splits option.splits)
    with False show ?thesis by simp
  qed
qed

text \<open>Disposal disposes the scope of every active plugin, whatever its disposers do, and is final:
  disposing again does nothing and a later switch is refused.\<close>

lemma dispose_final:
  assumes "runtime_reachable env rt" and "\<not> rt_disposed rt" and "dispose_now rt = (r, rt')"
  shows "rt_active rt' = [] \<and>
    (\<forall>i s. jget (rt_active rt) i = Some s \<longrightarrow> es_disposed (rt_scopes rt' ! ps_scope s)) \<and>
    dispose_now rt' = (Inr (), rt') \<and> switch_now env cs ro rt' = Some (Inl Runtime_disposed, rt')"
proof -
  note ok = reachable_runtime_ok [OF assms(1)]
  note d = dispose_now_result [OF ok assms(2,3)]
  have "es_disposed (rt_scopes rt' ! ps_scope s)" if s: "jget (rt_active rt) i = Some s" for i s
  proof -
    have "ps_scope s < length (rt_scopes rt)" using ok s by (simp add: runtime_ok_def live_states_def)
    with d(5) s show ?thesis by (metis scope_dispose_disposed)
  qed
  with d show ?thesis by (simp add: dispose_now_def switch_now_def)
qed

section \<open>Examples\<close>

text \<open>Two plugins, \<open>b\<close> requiring what \<open>a\<close> provides. The other instances register one
  contribution, the one their module names, and one effect, which fails for \<open>bad.js\<close>.\<close>

definition sample_plugin :: "candidate \<Rightarrow> plugin_prog" where
  "sample_plugin c =
     (if c_instance_id c = ''a''
      then Plugin_calls (Call_provide ''x'' (Js_ref 7))
        (\<lambda>_. Plugin_calls (Call_effect_add (Start_disposer 1 Dispose_hangs) ''timer'') (\<lambda>_. Plugin_returns))
      else if c_instance_id c = ''b'' then Plugin_calls (Call_require ''x'') (\<lambda>_. Plugin_returns)
      else Plugin_calls (Call_register \<lparr>con_kind = ''menu'', con_id = c_revision c, con_value = Js_undefined\<rparr>)
        (\<lambda>_. Plugin_calls (Call_effect_add
            (if c_entry_path c = ''bad.js'' then Start_throws (Plugin_threw ''port'') else Start_disposer 2 Dispose_done)
            ''server'') (\<lambda>_. Plugin_returns)))"

definition sample_env :: runtime_env where
  "sample_env = \<lparr>rn_host = Manager_host, rn_host_services = [], rn_granted = (\<lambda>_. []),
     rn_application = ''app'', rn_manager = ''m'', rn_default_ready = [], rn_timeout = 30000,
     rn_prepare = (\<lambda>c _. Some (Inr (sample_plugin c))),
     rn_collate = (\<lambda>l r. if l = r then 0 else if l < r then - 1 else 1)\<rparr>"

definition sample_runtime :: runtime where
  "sample_runtime = projr (new_runtime sample_env)"

definition pair_candidates :: "candidate list" where
  "pair_candidates = [sample_candidate ''b'' [''x''] [] [], sample_candidate ''a'' [] [] [''x'']]"

definition menu_candidate :: "string \<Rightarrow> string \<Rightarrow> string \<Rightarrow> candidate" where
  "menu_candidate i r path = (sample_candidate i [] [] [])\<lparr>c_revision := r, c_entry_path := path\<rparr>"

lemma sample_runtime_new: "new_runtime sample_env = Inr sample_runtime"
  by (simp add: sample_runtime_def new_runtime_def sample_env_def service_draft_def)

lemma sample_reachable: "runtime_reachable sample_env sample_runtime"
  by (rule reach_new [OF sample_runtime_new])

lemma pair_switch:
  "case switch_now sample_env pair_candidates (Some [''x'']) sample_runtime of
     Some (Inr r, rt) \<Rightarrow> sr_changed r \<and> jkeys (rt_active rt) = [''a'', ''b''] \<and> length (rt_scopes rt) = 2 \<and>
       map_option (activation_id \<circ> ps_identity) (jget (rt_active rt) ''a'') = Some 2
   | _ \<Rightarrow> False"
  by code_simp

lemma switch_case_Inr: "(case m of Some (Inr r, rt) \<Rightarrow> P r rt | _ \<Rightarrow> False) \<Longrightarrow> \<exists>r rt. m = Some (Inr r, rt) \<and> P r rt"
  and switch_case_Inl: "(case m of Some (Inl e, rt) \<Rightarrow> Q e rt | _ \<Rightarrow> False) \<Longrightarrow> \<exists>e rt. m = Some (Inl e, rt) \<and> Q e rt"
  by (cases m; cases "fst (the m)"; auto split: prod.splits)+

lemma pair_switched:
  obtains r rt where "switch_now sample_env pair_candidates (Some [''x'']) sample_runtime = Some (Inr r, rt)"
    "sr_changed r" "jkeys (rt_active rt) = [''a'', ''b'']" "length (rt_scopes rt) = 2"
    "map_option (activation_id \<circ> ps_identity) (jget (rt_active rt) ''a'') = Some 2"
    "runtime_reachable sample_env rt"
proof -
  from switch_case_Inr [OF pair_switch] obtain r rt where
    s: "switch_now sample_env pair_candidates (Some [''x'']) sample_runtime = Some (Inr r, rt)" and
    p: "sr_changed r" "jkeys (rt_active rt) = [''a'', ''b'']" "length (rt_scopes rt) = 2"
      "map_option (activation_id \<circ> ps_identity) (jget (rt_active rt) ''a'') = Some 2"
    by (elim exE conjE) (rule that)
  from that [OF s p reach_step [OF sample_reachable step_switch [OF s]]] show thesis .
qed

lemma sample_no_leak: "leak_free (rt_active sample_runtime) (rt_scopes sample_runtime)"
  by (simp add: leak_free_def sample_runtime_def new_runtime_def sample_env_def service_draft_def)


theorem switch_published_witness:
  "\<exists>r rt. switch_now sample_env pair_candidates (Some [''x'']) sample_runtime = Some (Inr r, rt) \<and>
     sr_generation r = rt_current rt \<and> jhas (g_services (rt_current rt)) ''x''"
proof (rule pair_switched)
  fix r rt
  assume s: "switch_now sample_env pair_candidates (Some [''x'']) sample_runtime = Some (Inr r, rt)"
    and "sr_changed r"
  from switch_published [OF sample_reachable this] s show ?thesis by auto
qed

theorem switch_leak_free_witness:
  "\<exists>r rt. switch_now sample_env pair_candidates (Some [''x'']) sample_runtime = Some (Inr r, rt) \<and>
     leak_free (rt_active rt) (rt_scopes rt) \<and> length (rt_scopes rt) = 2"
proof (rule pair_switched)
  fix r rt
  assume s: "switch_now sample_env pair_candidates (Some [''x'']) sample_runtime = Some (Inr r, rt)"
    and n: "length (rt_scopes rt) = 2"
  from switch_leak_free [OF sample_reachable sample_no_leak s] s n show ?thesis by auto
qed

theorem failed_switch_transactional_witness:
  "\<exists>e rt. switch_now sample_env pair_candidates (Some [''y'']) sample_runtime = Some (Inl e, rt) \<and>
     rt_current rt = rt_current sample_runtime \<and> length (rt_scopes rt) = 2"
proof -
  have "case switch_now sample_env pair_candidates (Some [''y'']) sample_runtime of
      Some (Inl e, rt) \<Rightarrow> length (rt_scopes rt) = 2 | _ \<Rightarrow> False" by code_simp
  from switch_case_Inl [OF this] obtain e rt where
    s: "switch_now sample_env pair_candidates (Some [''y'']) sample_runtime = Some (Inl e, rt)"
    and "length (rt_scopes rt) = 2" by (elim exE conjE)
  with failed_switch_transactional [OF sample_reachable s] s show ?thesis by (intro exI conjI) auto
qed

theorem runtime_failure_removes_dependents_witness:
  "\<exists>rt ident e rt'. runtime_reachable sample_env rt \<and> jkeys (rt_active rt) = [''a'', ''b''] \<and>
     handle_runtime_failure sample_env ident e rt = (Inr (), rt') \<and> rt_sequence rt' = Suc (rt_sequence rt)"
proof (rule pair_switched)
  fix r rt
  assume rt: "runtime_reachable sample_env rt" "jkeys (rt_active rt) = [''a'', ''b'']"
    and a: "map_option (activation_id \<circ> ps_identity) (jget (rt_active rt) ''a'') = Some 2"
  then obtain s where s: "jget (rt_active rt) ''a'' = Some s" "activation_id (ps_identity s) = 2" by auto
  have "rt_disposed rt = False"
    using reachable_runtime_ok [OF rt(1)] s(1) by (auto simp: runtime_ok_def split: if_splits)
  moreover obtain r' rt' where h: "handle_runtime_failure sample_env
      ((ps_identity s)\<lparr>instance_id := ''a''\<rparr>) (Plugin_threw ''x'') rt = (r', rt')" by force
  ultimately have "r' = Inr () \<and> rt_sequence rt' = Suc (rt_sequence rt)"
    using runtime_failure_removes_dependents [OF rt(1) h] s by auto
  with h have "handle_runtime_failure sample_env
      ((ps_identity s)\<lparr>instance_id := ''a''\<rparr>) (Plugin_threw ''x'') rt = (Inr (), rt') \<and>
      rt_sequence rt' = Suc (rt_sequence rt)" by simp
  with rt show ?thesis by metis
qed

theorem dispose_final_witness:
  "\<exists>rt rt' r. jkeys (rt_active rt) = [''a'', ''b''] \<and> dispose_now rt = (r, rt') \<and> rt_active rt' = []"
proof (rule pair_switched)
  fix r rt
  assume rt: "runtime_reachable sample_env rt" "jkeys (rt_active rt) = [''a'', ''b'']"
  have "\<not> rt_disposed rt"
    using reachable_runtime_ok [OF rt(1)] rt(2) by (auto simp: runtime_ok_def split: if_splits)
  moreover obtain r' rt' where "dispose_now rt = (r', rt')" by force
  ultimately have "dispose_now rt = (r', rt') \<and> rt_active rt' = []"
    using dispose_final [OF rt(1), of r' rt'] by simp
  with rt(2) show ?thesis by (intro exI conjI) (assumption | simp)+
qed

text \<open>A commit that fails after the first snapshot restores the previous plugin; when its
  contribution is then also registered by a new plugin, the second snapshot throws, and the
  new plugin's effects keep running although nothing refers to its scope.\<close>

lemma rollback_conflict_eval:
  "case switch_now sample_env [menu_candidate ''p'' ''one'' ''m.js''] None sample_runtime of
     Some (Inr r, rt) \<Rightarrow>
       (case switch_now sample_env [menu_candidate ''p'' ''two'' ''bad.js'', menu_candidate ''q'' ''one'' ''m.js''] None rt of
          Some (Inl e, rt') \<Rightarrow> e = Contribution_registered ''menu'' ''one'' \<and> jkeys (rt_active rt') = [''p''] \<and>
            map ps_scope (jvals (rt_active rt')) = [0] \<and> map es_disposed (rt_scopes rt') = [False, True, False]
        | _ \<Rightarrow> False)
   | _ \<Rightarrow> False"
  by code_simp

text \<open>A switch can lose a running scope: there is a reachable runtime without lost scopes and a
  switch that fails with a contribution conflict, after which the scope it committed for the
  new plugin is neither disposed nor owned by an active plugin.\<close>

lemma switch_loses_scope:
  "\<exists>rt cs rt'. runtime_reachable sample_env rt \<and> leak_free (rt_active rt) (rt_scopes rt) \<and>
     switch_now sample_env cs None rt = Some (Inl (Contribution_registered ''menu'' ''one''), rt') \<and>
     \<not> leak_free (rt_active rt') (rt_scopes rt')"
proof -
  let ?cs = "[menu_candidate ''p'' ''two'' ''bad.js'', menu_candidate ''q'' ''one'' ''m.js'']"
  from switch_case_Inr [OF rollback_conflict_eval] obtain r rt where
    1: "switch_now sample_env [menu_candidate ''p'' ''one'' ''m.js''] None sample_runtime = Some (Inr r, rt)"
    and q: "case switch_now sample_env ?cs None rt of
          Some (Inl e, rt') \<Rightarrow> e = Contribution_registered ''menu'' ''one'' \<and> jkeys (rt_active rt') = [''p''] \<and>
            map ps_scope (jvals (rt_active rt')) = [0] \<and> map es_disposed (rt_scopes rt') = [False, True, False]
        | _ \<Rightarrow> False"
    by (elim exE conjE)
  from switch_case_Inl [OF q] obtain rt' where
    2: "switch_now sample_env ?cs None rt = Some (Inl (Contribution_registered ''menu'' ''one''), rt')"
    and 3: "map ps_scope (jvals (rt_active rt')) = [0]" "map es_disposed (rt_scopes rt') = [False, True, False]"
    by (elim exE conjE) simp
  have rt: "runtime_reachable sample_env rt"
    by (rule reach_step [OF sample_reachable step_switch [OF 1]])
  have "leak_free (rt_active rt) (rt_scopes rt)"
    using switch_now_result [OF reachable_runtime_ok [OF sample_reachable] 1] sample_no_leak by simp
  moreover have "\<not> leak_free (rt_active rt') (rt_scopes rt')"
  proof
    assume lf: "leak_free (rt_active rt') (rt_scopes rt')"
    from 3(2) have l: "2 < length (rt_scopes rt')" by (metis length_map length_Cons lessI list.size(3) numeral_2_eq_2 One_nat_def)
    from 3(2) have "map es_disposed (rt_scopes rt') ! 2 = False" by simp
    with l have "\<not> es_disposed (rt_scopes rt' ! 2)" by simp
    with lf l obtain i s where "jget (rt_active rt') i = Some s" "ps_scope s = 2"
      by (auto simp: leak_free_def)
    with jget_mem have "2 \<in> set (map ps_scope (jvals (rt_active rt')))" by force
    with 3(1) show False by simp
  qed
  ultimately show ?thesis using rt 2 by blast
qed

text \<open>A refused grant is recorded for the first plugin of its component: here the plugin whose
  permission was not granted is \<open>b\<close>, and \<open>a\<close> is blamed.\<close>

definition denied_candidates :: "candidate list" where
  "denied_candidates =
     [(sample_candidate ''b'' [''x''] [] [])\<lparr>c_manifest :=
        (c_manifest (sample_candidate ''b'' [''x''] [] []))\<lparr>m_permissions := [''net'']\<rparr>\<rparr>,
      sample_candidate ''a'' [] [] [''x'']]"

lemma denied_grant_misattributed:
  "case switch_now sample_env denied_candidates None sample_runtime of
     Some (Inr r, rt) \<Rightarrow>
       map (\<lambda>q. (rr_instance q, map_option re_error (rr_error q))) (g_records (rt_current rt)) =
       [(''a'', Some (Permissions_not_granted [''net''])), (''b'', Some (Component_cancelled ''a''))]
   | _ \<Rightarrow> False"
  by code_simp

end
