(* ===== verification/AgentRequests.thy ===== *)
theory AgentRequests
  imports Prelude
begin

text \<open>
  \<open>src/agentRequests/store.ts\<close>: the tracked requests between Agent tasks, from the reservation
  of a delivery through its confirmation to the response, with reminders and cancellation.
  Every mutation is written to a file before it is reported; \<open>as_disk\<close> is what the file holds
  and the flag \<open>wok\<close> of an operation tells whether its write succeeds. A time is its number
  of milliseconds, and \<open>Date.now\<close> and the random ids are arguments.
\<close>

section \<open>Data\<close>

datatype response_policy = Policy_required | Policy_none

datatype request_status = Pending_delivery | Awaiting_response | Responded | Cancelled

record agent_party =
  pt_adapter :: "string option"
  pt_thread :: string
  pt_type :: string
  pt_name :: "string option"
  pt_workspace :: "string option"

record agent_response =
  rsp_delivery :: string
  rsp_by :: agent_party
  rsp_result :: string
  rsp_next :: string
  rsp_at :: int

record agent_preparation =
  pp_delivery :: string
  pp_request :: "string option"
  pp_reply_to :: "string option"
  pp_policy :: response_policy
  pp_instruction :: "string option"
  pp_result :: "string option"
  pp_next :: "string option"
  pp_source :: agent_party
  pp_target :: agent_party
  pp_requirement :: "string option"
  pp_plan :: "string option"

record agent_request =
  rq_id :: string
  rq_delivery :: string
  rq_status :: request_status
  rq_source :: agent_party
  rq_source_history :: "agent_party list option"
  rq_target :: agent_party
  rq_target_history :: "agent_party list option"
  rq_instruction :: string
  rq_requirement :: "string option"
  rq_plan :: "string option"
  rq_created :: int
  rq_delivered :: "int option"
  rq_action :: "string option"
  rq_transport :: "string option"
  rq_pending_response :: "string option"
  rq_evidence :: "(string \<times> agent_preparation) option"
  rq_response :: "agent_response option"
  rq_last_turn :: "string option"
  rq_last_turn_ended :: "int option"
  rq_next_reminder :: "int option"
  rq_reminders :: nat
  rq_last_reminder :: "int option"
  rq_reminder_error :: "string option"
  rq_cancelled :: "int option"
  rq_cancel_reason :: "string option"
  rq_updated :: int

datatype agent_error =
    Party_requires_thread
  | Party_requires_type
  | Same_task
  | Policy_invalid
  | Instruction_required
  | Request_not_found string
  | Reply_state_conflict string request_status
  | Response_in_progress string
  | Reply_route_mismatch
  | Reply_workspace_mismatch
  | Result_required
  | Next_action_required
  | Result_without_reply
  | Evidence_needs_reservation
  | Reservation_missing string
  | Response_reservation_missing string
  | Persist_failed

type_synonym agent_requests = "(string, agent_request) jmap"

record agent_store =
  as_requests :: agent_requests
  as_disk :: agent_requests

text \<open>What the store takes from elsewhere: the comparison of two workspaces, the parser of an
  adapter name, the normalisation of message text and the hash of a prompt.\<close>

record agent_env =
  ge_same_workspace :: "string \<Rightarrow> string \<Rightarrow> bool"
  ge_adapter :: "string \<Rightarrow> string option"
  ge_message :: "string \<Rightarrow> string"
  ge_sha256 :: "string \<Rightarrow> string"

definition reminder_ms :: int where
  "reminder_ms = 5 * 60 * 1000"

section \<open>Text and parties\<close>

definition clean_text :: "string option \<Rightarrow> int \<Rightarrow> string" where
  "clean_text v limit = (case v of None \<Rightarrow> [] | Some s \<Rightarrow> js_take limit (js_trim s))"

definition or_undefined :: "string \<Rightarrow> string option" where
  "or_undefined s = (if s = [] then None else Some s)"

definition clean_message_result :: "agent_env \<Rightarrow> string option \<Rightarrow> string" where
  "clean_message_result env v = js_take 12000 (ge_message env (case v of None \<Rightarrow> [] | Some s \<Rightarrow> s))"

fun crlf_to_lf :: "string \<Rightarrow> string" where
  "crlf_to_lf (a # b # s) =
     (if a = CHR 0x0D \<and> b = CHR 0x0A then CHR 0x0A # crlf_to_lf s else a # crlf_to_lf (b # s))"
| "crlf_to_lf s = s"

definition prompt_hash :: "agent_env \<Rightarrow> string \<Rightarrow> string" where
  "prompt_hash env prompt = ge_sha256 env (crlf_to_lf prompt)"

definition normalized_party :: "agent_env \<Rightarrow> agent_party \<Rightarrow> (agent_error, agent_party) res" where
  "normalized_party env p =
     (let thread = clean_text (Some (pt_thread p)) 100; kind = clean_text (Some (pt_type p)) 80 in
      if thread = [] then Inl Party_requires_thread
      else if kind = [] then Inl Party_requires_type
      else Inr \<lparr>pt_adapter = ge_adapter env (clean_text (pt_adapter p) 40), pt_thread = thread,
             pt_type = kind, pt_name = or_undefined (clean_text (pt_name p) 500),
             pt_workspace = or_undefined (clean_text (pt_workspace p) 2000)\<rparr>)"

definition workspace_matches :: "agent_env \<Rightarrow> string option \<Rightarrow> string option \<Rightarrow> bool" where
  "workspace_matches env l r =
     (case (l, r) of
        (Some a, Some b) \<Rightarrow> if a = [] \<or> b = [] then True else ge_same_workspace env a b
      | _ \<Rightarrow> True)"

text \<open>\<open>slice(-20)\<close> keeps the last twenty.\<close>

definition append_party_history ::
  "agent_env \<Rightarrow> agent_party list option \<Rightarrow> agent_party \<Rightarrow> (agent_error, agent_party list) res" where
  "append_party_history env history p =
     bindr (normalized_party env p) (\<lambda>q.
       let rows = (case history of None \<Rightarrow> [] | Some h \<Rightarrow> h) @ [q];
           unique = foldl (\<lambda>m row. jset (pt_thread row @ [CHR 0x0A] @
             (case pt_workspace row of None \<Rightarrow> [] | Some w \<Rightarrow> w)) row m) [] rows
       in Inr (rev (js_take 20 (rev (jvals unique)))))"

section \<open>Persistence and queries\<close>

definition store_persist :: "bool \<Rightarrow> agent_store \<Rightarrow> (agent_error, unit) res \<times> agent_store" where
  "store_persist wok st =
     (if wok then (Inr (), st\<lparr>as_disk := as_requests st\<rparr>) else (Inl Persist_failed, st))"

text \<open>A mutation of the records followed by its write: the usual end of an operation.\<close>

definition persist_requests ::
  "bool \<Rightarrow> agent_requests \<Rightarrow> 'a \<Rightarrow> agent_store \<Rightarrow> (agent_error, 'a) res \<times> agent_store" where
  "persist_requests wok m v st =
     (case store_persist wok (st\<lparr>as_requests := m\<rparr>) of
        (Inl e, st') \<Rightarrow> (Inl e, st')
      | (Inr _, st') \<Rightarrow> (Inr v, st'))"

definition store_get :: "string \<Rightarrow> agent_store \<Rightarrow> agent_request option" where
  "store_get i st = jget (as_requests st) (clean_text (Some i) 100)"

definition store_list :: "agent_store \<Rightarrow> agent_request list" where
  "store_list st = js_sort (\<lambda>l r. rq_updated r \<le> rq_updated l) (jvals (as_requests st))"

definition has_managed_session :: "agent_env \<Rightarrow> string \<Rightarrow> string option \<Rightarrow> agent_store \<Rightarrow> bool" where
  "has_managed_session env thread ws st =
     (let i = clean_text (Some thread) 100 in
      list_ex (\<lambda>r. (pt_thread (rq_source r) = i \<and> workspace_matches env (pt_workspace (rq_source r)) ws) \<or>
                   (pt_thread (rq_target r) = i \<and> workspace_matches env (pt_workspace (rq_target r)) ws))
        (jvals (as_requests st)))"

definition is_open :: "agent_request \<Rightarrow> bool" where
  "is_open r \<longleftrightarrow> rq_status r = Pending_delivery \<or> rq_status r = Awaiting_response"

section \<open>reconcileOpenParties\<close>

text \<open>The answer of \<open>resolve\<close>: undefined, null, or a party.\<close>

datatype resolution = Res_undefined | Res_null | Res_party agent_party

datatype reconcile_tag = Untouched | Reassigned | Cancelled_stale

definition cancel_stale :: "int \<Rightarrow> agent_request \<Rightarrow> agent_request" where
  "cancel_stale now r =
     r\<lparr>rq_status := Cancelled, rq_cancelled := Some now, rq_cancel_reason := Some (''Message Agent pool changed before this tracked delivery completed; '' @
         ''the stale task binding was cancelled.''),
       rq_next_reminder := None, rq_pending_response := None, rq_evidence := None, rq_updated := now\<rparr>"

text \<open>The two reassignments; the first component is the exception a party throws, and the second
  the record as far as it has been changed.\<close>

definition reassign_source ::
  "agent_env \<Rightarrow> resolution \<Rightarrow> agent_request \<Rightarrow> (agent_error, bool) res \<times> agent_request" where
  "reassign_source env res r =
     (case res of
        Res_party p \<Rightarrow>
          if pt_thread p = pt_thread (rq_source r) then (Inr False, r)
          else (case append_party_history env (rq_source_history r) (rq_source r) of
            Inl e \<Rightarrow> (Inl e, r)
          | Inr h \<Rightarrow>
              let r' = r\<lparr>rq_source_history := Some h\<rparr> in
              (case normalized_party env p of
                 Inl e \<Rightarrow> (Inl e, r')
               | Inr q \<Rightarrow> (Inr True, r'\<lparr>rq_source := q\<rparr>)))
      | _ \<Rightarrow> (Inr False, r))"

definition reassign_target ::
  "agent_env \<Rightarrow> int \<Rightarrow> resolution \<Rightarrow> agent_request \<Rightarrow> (agent_error, bool) res \<times> agent_request" where
  "reassign_target env now res r =
     (case res of
        Res_party p \<Rightarrow>
          if pt_thread p = pt_thread (rq_target r) then (Inr False, r)
          else (case append_party_history env (rq_target_history r) (rq_target r) of
            Inl e \<Rightarrow> (Inl e, r)
          | Inr h \<Rightarrow>
              let r' = r\<lparr>rq_target_history := Some h\<rparr> in
              (case normalized_party env p of
                 Inl e \<Rightarrow> (Inl e, r')
               | Inr q \<Rightarrow> (Inr True, r'\<lparr>rq_target := q, rq_next_reminder := Some now,
                    rq_reminder_error := None\<rparr>)))
      | _ \<Rightarrow> (Inr False, r))"

definition reconcile_one ::
  "agent_env \<Rightarrow> int \<Rightarrow> (agent_party \<Rightarrow> agent_request \<Rightarrow> bool \<Rightarrow> resolution) \<Rightarrow> agent_request \<Rightarrow>
     (agent_error, reconcile_tag) res \<times> agent_request" where
  "reconcile_one env now resolve r =
     (if \<not> is_open r then (Inr Untouched, r)
      else let s = resolve (rq_source r) r True; t = resolve (rq_target r) r False in
        if s = Res_undefined \<and> t = Res_undefined then (Inr Untouched, r)
        else if rq_status r = Pending_delivery \<or> s = Res_null \<or> t = Res_null
        then (Inr Cancelled_stale, cancel_stale now r)
        else case reassign_source env s r of
          (Inl e, r1) \<Rightarrow> (Inl e, r1)
        | (Inr c1, r1) \<Rightarrow>
            (case reassign_target env now t r1 of
               (Inl e, r2) \<Rightarrow> (Inl e, r2)
             | (Inr c2, r2) \<Rightarrow>
                 if \<not> c1 \<and> \<not> c2 then (Inr Untouched, r2)
                 else (Inr Reassigned, r2\<lparr>rq_pending_response := None, rq_evidence := None,
                         rq_updated := now\<rparr>)))"

fun reconcile_records ::
  "agent_env \<Rightarrow> int \<Rightarrow> (agent_party \<Rightarrow> agent_request \<Rightarrow> bool \<Rightarrow> resolution) \<Rightarrow> agent_requests \<Rightarrow>
     (agent_error, agent_request list \<times> agent_request list) res \<times> agent_requests" where
  "reconcile_records env now resolve [] = (Inr ([], []), [])"
| "reconcile_records env now resolve ((i, r) # rs) =
     (case reconcile_one env now resolve r of
        (Inl e, r') \<Rightarrow> (Inl e, (i, r') # rs)
      | (Inr tag, r') \<Rightarrow>
          (case reconcile_records env now resolve rs of
             (Inl e, rs') \<Rightarrow> (Inl e, (i, r') # rs')
           | (Inr (re, ca), rs') \<Rightarrow>
               (Inr (case tag of Untouched \<Rightarrow> (re, ca) | Reassigned \<Rightarrow> (r' # re, ca)
                     | Cancelled_stale \<Rightarrow> (re, r' # ca)), (i, r') # rs')))"

definition reconcile_open_parties ::
  "agent_env \<Rightarrow> int \<Rightarrow> bool \<Rightarrow> (agent_party \<Rightarrow> agent_request \<Rightarrow> bool \<Rightarrow> resolution) \<Rightarrow> agent_store \<Rightarrow>
     (agent_error, agent_request list \<times> agent_request list) res \<times> agent_store" where
  "reconcile_open_parties env now wok resolve st =
     (case reconcile_records env now resolve (as_requests st) of
        (Inl e, m) \<Rightarrow> (Inl e, st\<lparr>as_requests := m\<rparr>)
      | (Inr (re, ca), m) \<Rightarrow>
          if re = [] \<and> ca = [] then (Inr (re, ca), st\<lparr>as_requests := m\<rparr>)
          else persist_requests wok m (re, ca) st)"

definition resolve_reply_destination ::
  "agent_env \<Rightarrow> string \<Rightarrow> agent_party \<Rightarrow> agent_party \<Rightarrow> agent_store \<Rightarrow> (agent_error, agent_party option) res" where
  "resolve_reply_destination env i responding requested st =
     (case jget (as_requests st) (clean_text (Some i) 100) of
        None \<Rightarrow> Inr None
      | Some r \<Rightarrow>
          if rq_status r \<noteq> Awaiting_response then Inr None
          else bindr (normalized_party env responding) (\<lambda>source.
            bindr (normalized_party env requested) (\<lambda>target.
              if pt_thread source \<noteq> pt_thread (rq_target r) \<or>
                 \<not> workspace_matches env (pt_workspace source) (pt_workspace (rq_target r))
              then Inr None
              else if (pt_thread target = pt_thread (rq_source r) \<and>
                       workspace_matches env (pt_workspace target) (pt_workspace (rq_source r))) \<or>
                      list_ex (\<lambda>p. pt_thread target = pt_thread p \<and>
                          workspace_matches env (pt_workspace target) (pt_workspace p))
                        (case rq_source_history r of None \<Rightarrow> [] | Some h \<Rightarrow> h)
              then Inr (Some (rq_source r)) else Inr None)))"

section \<open>prepare\<close>

record prepare_input =
  pi_reply_to :: "string option"
  pi_policy :: "response_policy option"
  pi_instruction :: "string option"
  pi_result :: "string option"
  pi_next :: "string option"
  pi_source :: agent_party
  pi_target :: agent_party
  pi_requirement :: "string option"
  pi_plan :: "string option"

text \<open>The checks on the request a message replies to.\<close>

definition check_reply ::
  "agent_env \<Rightarrow> string \<Rightarrow> agent_party \<Rightarrow> agent_party \<Rightarrow> string option \<Rightarrow> string option \<Rightarrow> agent_requests \<Rightarrow>
     (agent_error, agent_request) res" where
  "check_reply env i source target result nxt m =
     (case jget m i of
        None \<Rightarrow> Inl (Request_not_found i)
      | Some r \<Rightarrow>
          if rq_status r \<noteq> Awaiting_response then Inl (Reply_state_conflict (rq_id r) (rq_status r))
          else if rq_pending_response r \<noteq> None then Inl (Response_in_progress i)
          else if pt_thread source \<noteq> pt_thread (rq_target r) \<or> pt_thread target \<noteq> pt_thread (rq_source r)
          then Inl Reply_route_mismatch
          else if \<not> workspace_matches env (pt_workspace source) (pt_workspace (rq_target r)) \<or>
                  \<not> workspace_matches env (pt_workspace target) (pt_workspace (rq_source r))
          then Inl Reply_workspace_mismatch
          else if result = None then Inl Result_required
          else if nxt = None then Inl Next_action_required
          else Inr r)"

definition new_request ::
  "string \<Rightarrow> string \<Rightarrow> agent_party \<Rightarrow> agent_party \<Rightarrow> string \<Rightarrow> string option \<Rightarrow> string option \<Rightarrow> int \<Rightarrow> agent_request" where
  "new_request i d source target instr requirement plan now =
     \<lparr>rq_id = i, rq_delivery = d, rq_status = Pending_delivery, rq_source = source, rq_source_history = None,
      rq_target = target, rq_target_history = None, rq_instruction = instr, rq_requirement = requirement,
      rq_plan = plan, rq_created = now, rq_delivered = None, rq_action = None, rq_transport = None,
      rq_pending_response = None, rq_evidence = None, rq_response = None, rq_last_turn = None,
      rq_last_turn_ended = None, rq_next_reminder = None, rq_reminders = 0, rq_last_reminder = None,
      rq_reminder_error = None, rq_cancelled = None, rq_cancel_reason = None, rq_updated = now\<rparr>"

text \<open>The mutation of a validated communication: the reservation on the request it replies to,
  and the new request when it asks for a response.\<close>

definition reserve_requests ::
  "int \<Rightarrow> agent_preparation \<Rightarrow> agent_requests \<Rightarrow> agent_requests" where
  "reserve_requests now p m =
     (let m1 = (case pp_reply_to p of
            None \<Rightarrow> m
          | Some i \<Rightarrow> (case jget m i of None \<Rightarrow> m
              | Some r \<Rightarrow> jset i (r\<lparr>rq_pending_response := Some (pp_delivery p), rq_updated := now\<rparr>) m))
      in case pp_request p of
           None \<Rightarrow> m1
         | Some q \<Rightarrow> jset q (new_request q (pp_delivery p) (pp_source p) (pp_target p)
             (case pp_instruction p of None \<Rightarrow> [] | Some s \<Rightarrow> s) (pp_requirement p) (pp_plan p) now) m1)"

text \<open>What \<open>prepare\<close> returns; \<open>did\<close> and \<open>rid\<close> are the random ids.\<close>

definition preparation_of ::
  "agent_env \<Rightarrow> string \<Rightarrow> string \<Rightarrow> prepare_input \<Rightarrow> agent_party \<Rightarrow> agent_party \<Rightarrow> response_policy \<Rightarrow> agent_preparation" where
  "preparation_of env did rid inp source target policy =
     \<lparr>pp_delivery = did, pp_request = (if policy = Policy_required then Some rid else None),
      pp_reply_to = or_undefined (clean_text (pi_reply_to inp) 100), pp_policy = policy,
      pp_instruction = or_undefined (clean_text (pi_instruction inp) 4000),
      pp_result = or_undefined (clean_message_result env (pi_result inp)),
      pp_next = or_undefined (clean_text (pi_next inp) 4000), pp_source = source, pp_target = target,
      pp_requirement = or_undefined (clean_text (pi_requirement inp) 300),
      pp_plan = or_undefined (clean_text (pi_plan inp) 300)\<rparr>"

definition validate_communication ::
  "agent_env \<Rightarrow> string \<Rightarrow> string \<Rightarrow> prepare_input \<Rightarrow> agent_requests \<Rightarrow> (agent_error, agent_preparation) res" where
  "validate_communication env did rid inp m =
     bindr (normalized_party env (pi_source inp)) (\<lambda>source.
     bindr (normalized_party env (pi_target inp)) (\<lambda>target.
       if pt_thread source = pt_thread target then Inl Same_task
       else case pi_policy inp of
         None \<Rightarrow> Inl Policy_invalid
       | Some policy \<Rightarrow>
           let p = preparation_of env did rid inp source target policy in
           if policy = Policy_required \<and> pp_instruction p = None then Inl Instruction_required
           else (case pp_reply_to p of
               None \<Rightarrow> if pp_result p \<noteq> None \<or> pp_next p \<noteq> None then Inl Result_without_reply else Inr p
             | Some i \<Rightarrow> bindr (check_reply env i source target (pp_result p) (pp_next p) m) (\<lambda>_. Inr p))))"

definition prepare_communication ::
  "agent_env \<Rightarrow> int \<Rightarrow> bool \<Rightarrow> string \<Rightarrow> string \<Rightarrow> prepare_input \<Rightarrow> agent_store \<Rightarrow>
     (agent_error, agent_preparation) res \<times> agent_store" where
  "prepare_communication env now wok did rid inp st =
     (case validate_communication env did rid inp (as_requests st) of
        Inl e \<Rightarrow> (Inl e, st)
      | Inr p \<Rightarrow>
          if pp_reply_to p = None \<and> pp_request p = None then (Inr p, st)
          else persist_requests wok (reserve_requests now p (as_requests st)) p st)"

section \<open>bindResponseEvidence and commit\<close>

definition bind_response_evidence ::
  "agent_env \<Rightarrow> bool \<Rightarrow> agent_preparation \<Rightarrow> string \<Rightarrow> agent_store \<Rightarrow> (agent_error, unit) res \<times> agent_store" where
  "bind_response_evidence env wok p prompt st =
     (case pp_reply_to p of
        None \<Rightarrow> (Inr (), st)
      | Some i \<Rightarrow>
          (case jget (as_requests st) i of
             None \<Rightarrow> (Inl Evidence_needs_reservation, st)
           | Some r \<Rightarrow>
               if rq_pending_response r \<noteq> Some (pp_delivery p) then (Inl Evidence_needs_reservation, st)
               else case persist_requests wok
                      (jset i (r\<lparr>rq_evidence := Some (prompt_hash env prompt, p)\<rparr>) (as_requests st)) () st of
                 (Inl e, st') \<Rightarrow> (Inl e, st'\<lparr>as_requests := jset i r (as_requests st')\<rparr>)
               | (Inr u, st') \<Rightarrow> (Inr u, st')))"

definition respond_record :: "int \<Rightarrow> agent_preparation \<Rightarrow> agent_request \<Rightarrow> agent_request" where
  "respond_record now p r =
     r\<lparr>rq_pending_response := None, rq_evidence := None, rq_status := Responded,
       rq_response := Some \<lparr>rsp_delivery = pp_delivery p, rsp_by = pp_source p,
         rsp_result = (case pp_result p of None \<Rightarrow> [] | Some s \<Rightarrow> s),
         rsp_next = (case pp_next p of None \<Rightarrow> [] | Some s \<Rightarrow> s), rsp_at = now\<rparr>,
       rq_next_reminder := None, rq_reminder_error := None, rq_updated := now\<rparr>"

definition deliver_record :: "int \<Rightarrow> string option \<Rightarrow> string option \<Rightarrow> agent_request \<Rightarrow> agent_request" where
  "deliver_record now action transport r =
     (if rq_status r = Pending_delivery
      then r\<lparr>rq_status := Awaiting_response, rq_delivered := Some now,
             rq_action := or_undefined (clean_text action 80),
             rq_transport := or_undefined (clean_text transport 80), rq_updated := now\<rparr>
      else r)"

definition reservation_ok :: "agent_requests \<Rightarrow> agent_preparation \<Rightarrow> bool" where
  "reservation_ok m p \<longleftrightarrow>
     (case pp_request p of
        None \<Rightarrow> True
      | Some q \<Rightarrow> (case jget m q of None \<Rightarrow> False
          | Some r \<Rightarrow> rq_delivery r = pp_delivery p \<and> rq_status r \<noteq> Cancelled))"

definition already_responded :: "agent_requests \<Rightarrow> agent_preparation \<Rightarrow> bool" where
  "already_responded m p \<longleftrightarrow>
     (case pp_reply_to p of
        None \<Rightarrow> False
      | Some i \<Rightarrow> (case jget m i of None \<Rightarrow> False
          | Some r \<Rightarrow> rq_status r = Responded \<and>
              map_option rsp_delivery (rq_response r) = Some (pp_delivery p)))"

text \<open>The records after a commit whose reservations hold. Restoring the records of \<open>before\<close>
  when the write fails puts back both of them, so the map is the one of before.\<close>

definition commit_requests ::
  "int \<Rightarrow> string option \<Rightarrow> string option \<Rightarrow> agent_preparation \<Rightarrow> agent_requests \<Rightarrow> agent_requests" where
  "commit_requests now action transport p m =
     (let m1 = (case pp_reply_to p of
            None \<Rightarrow> m
          | Some i \<Rightarrow> (case jget m i of None \<Rightarrow> m | Some r \<Rightarrow> jset i (respond_record now p r) m))
      in case pp_request p of
           None \<Rightarrow> m1
         | Some q \<Rightarrow> (case jget m1 q of None \<Rightarrow> m1
             | Some r \<Rightarrow> jset q (deliver_record now action transport r) m1))"

definition restore_requests :: "agent_requests \<Rightarrow> agent_preparation \<Rightarrow> agent_requests \<Rightarrow> agent_requests" where
  "restore_requests old p m =
     foldl (\<lambda>m i. case jget old i of None \<Rightarrow> m | Some r \<Rightarrow> jset i r m) m
       (concat (map (\<lambda>x. case x of None \<Rightarrow> [] | Some i \<Rightarrow> [i]) [pp_request p, pp_reply_to p]))"

definition commit_communication ::
  "int \<Rightarrow> bool \<Rightarrow> string option \<Rightarrow> string option \<Rightarrow> agent_preparation \<Rightarrow> agent_store \<Rightarrow>
     (agent_error, agent_request option \<times> agent_request option) res \<times> agent_store" where
  "commit_communication now wok action transport p st =
     (let m = as_requests st in
      if \<not> reservation_ok m p then (Inl (Reservation_missing (the (pp_request p))), st)
      else if already_responded m p
      then (Inr (case pp_request p of None \<Rightarrow> None | Some q \<Rightarrow> store_get q st,
                 case pp_reply_to p of None \<Rightarrow> None | Some i \<Rightarrow> jget m i), st)
      else if (case pp_reply_to p of None \<Rightarrow> False
               | Some i \<Rightarrow> (case jget m i of None \<Rightarrow> True
                   | Some r \<Rightarrow> rq_pending_response r \<noteq> Some (pp_delivery p)))
      then (Inl (Response_reservation_missing (the (pp_reply_to p))), st)
      else if pp_reply_to p = None \<and> pp_request p = None then (Inr (None, None), st)
      else let m' = commit_requests now action transport p m in
        case persist_requests wok m' () st of
          (Inl e, st') \<Rightarrow> (Inl e, st'\<lparr>as_requests := restore_requests m p (as_requests st')\<rparr>)
        | (Inr _, st') \<Rightarrow>
            (Inr (case pp_request p of None \<Rightarrow> None | Some q \<Rightarrow> jget m' q,
                  case pp_reply_to p of None \<Rightarrow> None | Some i \<Rightarrow> jget m' i), st'))"

section \<open>abort, reminders, cancel\<close>

definition abort_communication ::
  "int \<Rightarrow> bool \<Rightarrow> agent_preparation \<Rightarrow> agent_store \<Rightarrow> (agent_error, unit) res \<times> agent_store" where
  "abort_communication now wok p st =
     (let m = as_requests st;
          (c1, m1) = (case pp_reply_to p of
              None \<Rightarrow> (False, m)
            | Some i \<Rightarrow> (case jget m i of None \<Rightarrow> (False, m)
                | Some r \<Rightarrow> if rq_pending_response r = Some (pp_delivery p)
                    then (True, jset i (r\<lparr>rq_pending_response := None, rq_evidence := None,
                            rq_updated := now\<rparr>) m)
                    else (False, m)));
          (c2, m2) = (case pp_request p of
              None \<Rightarrow> (False, m1)
            | Some q \<Rightarrow> (case jget m1 q of None \<Rightarrow> (False, m1)
                | Some r \<Rightarrow> if rq_status r = Pending_delivery \<and> rq_delivery r = pp_delivery p
                    then (True, jdel q m1) else (False, m1)))
      in if c1 \<or> c2 then persist_requests wok m2 () st else (Inr (), st\<lparr>as_requests := m2\<rparr>))"

definition turn_ends ::
  "agent_env \<Rightarrow> string \<Rightarrow> string option \<Rightarrow> string \<Rightarrow> agent_request \<Rightarrow> bool" where
  "turn_ends env thread ws turn r \<longleftrightarrow>
     rq_status r = Awaiting_response \<and> pt_thread (rq_target r) = thread \<and>
     workspace_matches env (pt_workspace (rq_target r)) ws \<and> rq_last_turn r \<noteq> Some turn"

definition end_turn :: "int \<Rightarrow> string \<Rightarrow> agent_request \<Rightarrow> agent_request" where
  "end_turn ended turn r =
     r\<lparr>rq_last_turn := Some turn, rq_last_turn_ended := Some ended,
       rq_next_reminder := Some (ended + reminder_ms), rq_updated := ended\<rparr>"

definition record_target_turn_ended ::
  "agent_env \<Rightarrow> bool \<Rightarrow> string \<Rightarrow> string option \<Rightarrow> string \<Rightarrow> int \<Rightarrow> agent_store \<Rightarrow>
     (agent_error, agent_request list) res \<times> agent_store" where
  "record_target_turn_ended env wok thread ws turn ended st =
     (let i = clean_text (Some thread) 100; t = clean_text (Some turn) 200 in
      if i = [] \<or> t = [] then (Inr [], st)
      else let hit = turn_ends env i ws t;
               changed = map (end_turn ended t) (filter hit (jvals (as_requests st)))
           in if changed = [] then (Inr [], st)
              else persist_requests wok
                (map (\<lambda>(k, r). (k, if hit r then end_turn ended t r else r)) (as_requests st)) changed st)"

text \<open>\<open>Date.parse(...) || Infinity\<close>: a reminder at the epoch counts as none.\<close>

definition reminder_due :: "int \<Rightarrow> agent_request \<Rightarrow> bool" where
  "reminder_due at r \<longleftrightarrow> rq_status r = Awaiting_response \<and>
     (case rq_next_reminder r of None \<Rightarrow> False | Some t \<Rightarrow> t \<noteq> 0 \<and> t \<le> at)"

definition due_reminders :: "int \<Rightarrow> agent_store \<Rightarrow> agent_request list" where
  "due_reminders at st =
     js_sort (\<lambda>l r. the (rq_next_reminder l) \<le> the (rq_next_reminder r))
       (filter (reminder_due at) (jvals (as_requests st)))"

definition record_pending_response_check ::
  "int \<Rightarrow> bool \<Rightarrow> string \<Rightarrow> string \<Rightarrow> string \<Rightarrow> agent_store \<Rightarrow> (agent_error, unit) res \<times> agent_store" where
  "record_pending_response_check now wok i did status st =
     (case jget (as_requests st) i of
        None \<Rightarrow> (Inr (), st)
      | Some r \<Rightarrow>
          if rq_status r \<noteq> Awaiting_response \<or> rq_pending_response r \<noteq> Some did then (Inr (), st)
          else persist_requests wok
            (jset i (r\<lparr>rq_next_reminder := None,
               rq_reminder_error := Some (''Response receipt needs reconciliation: '' @ clean_text (Some status) 100),
               rq_updated := now\<rparr>) (as_requests st)) () st)"

definition reminder_result :: "int \<Rightarrow> bool \<Rightarrow> string option \<Rightarrow> agent_request \<Rightarrow> agent_request" where
  "reminder_result now delivered err r =
     r\<lparr>rq_reminders := rq_reminders r + 1, rq_last_reminder := Some now,
       rq_reminder_error := (if delivered then None
         else Some (let e = clean_text err 4000 in
           if e = [] then ''Agent request reminder delivery failed.'' else e)),
       rq_next_reminder := (if delivered then None else Some (now + reminder_ms)), rq_updated := now\<rparr>"

definition record_reminder_result ::
  "int \<Rightarrow> bool \<Rightarrow> string \<Rightarrow> bool \<Rightarrow> string option \<Rightarrow> agent_store \<Rightarrow> (agent_error, agent_request) res \<times> agent_store" where
  "record_reminder_result now wok i delivered err st =
     (let k = clean_text (Some i) 100 in
      case jget (as_requests st) k of
        None \<Rightarrow> (Inl (Request_not_found i), st)
      | Some r \<Rightarrow>
          if rq_status r \<noteq> Awaiting_response then (Inr r, st)
          else let r' = reminder_result now delivered err r in
            persist_requests wok (jset k r' (as_requests st)) r' st)"

definition cancel_record :: "int \<Rightarrow> string option \<Rightarrow> agent_request \<Rightarrow> agent_request" where
  "cancel_record now reason r =
     r\<lparr>rq_status := Cancelled, rq_cancelled := Some now, rq_cancel_reason := or_undefined (clean_text reason 2000),
       rq_next_reminder := None, rq_pending_response := None, rq_evidence := None, rq_updated := now\<rparr>"

definition cancel_request ::
  "int \<Rightarrow> bool \<Rightarrow> string \<Rightarrow> string option \<Rightarrow> agent_store \<Rightarrow> (agent_error, agent_request) res \<times> agent_store" where
  "cancel_request now wok i reason st =
     (let k = clean_text (Some i) 100 in
      case jget (as_requests st) k of
        None \<Rightarrow> (Inl (Request_not_found i), st)
      | Some r \<Rightarrow>
          if rq_status r = Responded \<or> rq_status r = Cancelled then (Inr r, st)
          else let r' = cancel_record now reason r in
            persist_requests wok (jset k r' (as_requests st)) r' st)"

section \<open>The life of a request\<close>

declare map_of_eq_Some_iff [simp del]

definition terminal :: "agent_request \<Rightarrow> bool" where
  "terminal r \<longleftrightarrow> rq_status r = Responded \<or> rq_status r = Cancelled"

lemma is_open_iff: "is_open r \<longleftrightarrow> \<not> terminal r"
  by (cases "rq_status r") (simp_all add: is_open_def terminal_def)

text \<open>A status only moves forward.\<close>

instantiation request_status :: order
begin

definition less_eq_request_status :: "request_status \<Rightarrow> request_status \<Rightarrow> bool" where
  "less_eq_request_status a b \<longleftrightarrow> a = b \<or> a = Pending_delivery \<or>
     (a = Awaiting_response \<and> (b = Responded \<or> b = Cancelled))"

definition less_request_status :: "request_status \<Rightarrow> request_status \<Rightarrow> bool" where
  "less_request_status a b \<longleftrightarrow> a \<le> b \<and> \<not> b \<le> (a :: request_status)"

instance
  by standard (auto simp: less_request_status_def less_eq_request_status_def)

end

text \<open>What holds of every record: only a request that awaits its response has a reservation for it
  or a reminder, evidence belongs to a reservation, and exactly the answered ones have a
  response.\<close>

definition rec_ok :: "agent_request \<Rightarrow> bool" where
  "rec_ok r \<longleftrightarrow>
     (rq_pending_response r \<noteq> None \<longrightarrow> rq_status r = Awaiting_response) \<and>
     (rq_next_reminder r \<noteq> None \<longrightarrow> rq_status r = Awaiting_response) \<and>
     (rq_evidence r \<noteq> None \<longrightarrow> rq_pending_response r \<noteq> None) \<and>
     (rq_response r \<noteq> None \<longleftrightarrow> rq_status r = Responded)"

definition rec_step :: "agent_request \<Rightarrow> agent_request \<Rightarrow> bool" where
  "rec_step r r' \<longleftrightarrow> r' = r \<or>
     (\<not> terminal r \<and> rq_status r \<le> rq_status r' \<and> rec_ok r' \<and>
      rq_id r' = rq_id r \<and> rq_delivery r' = rq_delivery r \<and> rq_instruction r' = rq_instruction r \<and>
      rq_created r' = rq_created r)"

lemma rec_step_refl [simp]: "rec_step r r"
  by (simp add: rec_step_def)

lemma rec_step_trans: "rec_step r s \<Longrightarrow> rec_step s t \<Longrightarrow> rec_step r t"
  by (auto simp: rec_step_def less_eq_request_status_def terminal_def)

lemma rec_step_ok: "rec_step r r' \<Longrightarrow> rec_ok r \<Longrightarrow> rec_ok r'"
  by (auto simp: rec_step_def)

definition requests_ok :: "agent_requests \<Rightarrow> bool" where
  "requests_ok m \<longleftrightarrow> distinct (jkeys m) \<and> (\<forall>i r. jget m i = Some r \<longrightarrow> rec_ok r)"

definition advances :: "agent_requests \<Rightarrow> agent_requests \<Rightarrow> bool" where
  "advances m m' \<longleftrightarrow> distinct (jkeys m') \<and>
     (\<forall>i r'. jget m' i = Some r' \<longrightarrow>
        (case jget m i of Some r \<Rightarrow> rec_step r r' | None \<Rightarrow> rec_ok r' \<and> rq_status r' = Pending_delivery)) \<and>
     (\<forall>i r. jget m i = Some r \<longrightarrow> jget m' i = None \<longrightarrow> rq_status r = Pending_delivery)"

lemma advances_refl: "requests_ok m \<Longrightarrow> advances m m"
  by (simp add: advances_def requests_ok_def)

lemma advancesD:
  assumes "advances m m'" and "jget m' i = Some r'"
  shows "case jget m i of Some r \<Rightarrow> rec_step r r' | None \<Rightarrow> rec_ok r' \<and> rq_status r' = Pending_delivery"
  using assms by (simp add: advances_def)

lemma advances_ok:
  assumes "advances m m'" and "requests_ok m" shows "requests_ok m'"
proof -
  have "rec_ok r'" if "jget m' i = Some r'" for i r'
    using advancesD [OF assms(1) that] assms(2)
    by (cases "jget m i") (auto simp: requests_ok_def intro: rec_step_ok)
  with assms(1) show ?thesis by (simp add: requests_ok_def advances_def)
qed

lemma advances_jset:
  assumes "advances m m1" and "jget m i = Some r0" and "jget m1 i = Some r" and "rec_step r r'"
  shows "advances m (jset i r' m1)"
proof -
  have "rec_step r0 r" using advancesD [OF assms(1,3)] assms(2) by simp
  then have "rec_step r0 r'" using assms(4) by (rule rec_step_trans)
  with assms show ?thesis unfolding advances_def by (simp add: jget_jset distinct_jset)
qed

lemma advances_new:
  assumes "advances m m1" and "jget m q = None" and "rec_ok r" and "rq_status r = Pending_delivery"
  shows "advances m (jset q r m1)"
  using assms unfolding advances_def by (simp add: jget_jset distinct_jset)

lemma advances_del:
  assumes "advances m m1" and "jget m1 q = Some r" and "rq_status r = Pending_delivery"
  shows "advances m (jdel q m1)"
proof -
  have "rq_status r0 = Pending_delivery" if "jget m q = Some r0" for r0
    using advancesD [OF assms(1,2)] that assms(3) by (auto simp: rec_step_def less_eq_request_status_def)
  with assms(1) show ?thesis unfolding advances_def by (auto simp: jget_jdel distinct_jdel)
qed

lemma advances_pointwise:
  assumes "requests_ok m"
    and "list_all2 (\<lambda>p q. fst q = fst p \<and> rec_step (snd p) (snd q)) m m'"
  shows "advances m m'"
proof -
  have keys: "jkeys m' = jkeys m"
    using assms(2) by (induction m m' rule: list_all2_induct) auto
  have get: "rel_option rec_step (jget m i) (jget m' i)" for i
    using assms(2) by (induction m m' rule: list_all2_induct) auto
  have "\<exists>r. jget m i = Some r \<and> rec_step r r'" if "jget m' i = Some r'" for i r'
    using get [of i] that by (cases "jget m i") auto
  moreover have "jget m i = None" if "jget m' i = None" for i
    using get [of i] that by (cases "jget m i") auto
  ultimately show ?thesis
    using assms(1) unfolding advances_def requests_ok_def keys by fastforce
qed

section \<open>Every operation advances the requests\<close>

lemma persist_requests_result:
  "persist_requests wok m v st =
     (if wok then (Inr v, \<lparr>as_requests = m, as_disk = m\<rparr>)
      else (Inl Persist_failed, st\<lparr>as_requests := m\<rparr>))"
  by (simp add: persist_requests_def store_persist_def)

lemma persist_requests_memory [simp]: "as_requests (snd (persist_requests wok m v st)) = m"
  by (simp add: persist_requests_result)

text \<open>The changes of single records.\<close>

lemma record_steps:
  assumes "rec_ok r"
  shows "rq_status r = Awaiting_response \<Longrightarrow> rec_step r (r\<lparr>rq_pending_response := Some d, rq_updated := now\<rparr>)"
    and "rq_pending_response r = Some d \<Longrightarrow> rec_step r (r\<lparr>rq_evidence := Some e\<rparr>)"
    and "rq_pending_response r = Some d \<Longrightarrow> rec_step r (respond_record now p r)"
    and "rq_pending_response r = Some d \<Longrightarrow>
      rec_step r (r\<lparr>rq_pending_response := None, rq_evidence := None, rq_updated := now\<rparr>)"
    and "rec_step r (deliver_record now a t r)"
    and "rq_status r = Awaiting_response \<Longrightarrow> rec_step r (end_turn now turn r)"
    and "rq_status r = Awaiting_response \<Longrightarrow>
      rec_step r (r\<lparr>rq_next_reminder := None, rq_reminder_error := x, rq_updated := now\<rparr>)"
    and "rq_status r = Awaiting_response \<Longrightarrow> rec_step r (reminder_result now delivered err r)"
    and "\<not> terminal r \<Longrightarrow> rec_step r (cancel_record now reason r)"
    and "\<not> terminal r \<Longrightarrow> rec_step r (cancel_stale now r)"
  using assms
  by (auto simp: rec_step_def rec_ok_def terminal_def less_eq_request_status_def respond_record_def deliver_record_def
      end_turn_def reminder_result_def cancel_record_def cancel_stale_def) (metis request_status.exhaust)+

lemma reassign_source_step:
  assumes "rec_ok r" and "rq_status r = Awaiting_response" and "reassign_source env s r = (x, r')"
  shows "rec_step r r' \<and> rq_status r' = Awaiting_response"
  using assms
  by (auto simp: reassign_source_def rec_step_def rec_ok_def terminal_def less_eq_request_status_def Let_def
      split: resolution.splits if_splits sum.splits)

lemma reassign_target_step:
  assumes "rec_ok r" and "rq_status r = Awaiting_response" and "reassign_target env now t r = (x, r')"
  shows "rec_step r r' \<and> rq_status r' = Awaiting_response"
  using assms
  by (auto simp: reassign_target_def rec_step_def rec_ok_def terminal_def less_eq_request_status_def Let_def
      split: resolution.splits if_splits sum.splits)

lemma reconcile_one_step:
  assumes ok: "rec_ok r" and r: "reconcile_one env now resolve r = (x, r')"
  shows "rec_step r r'"
proof (cases "is_open r")
  case True
  let ?s = "resolve (rq_source r) r True" and ?t = "resolve (rq_target r) r False"
  consider "?s = Res_undefined \<and> ?t = Res_undefined"
    | (cancel) "\<not> (?s = Res_undefined \<and> ?t = Res_undefined)"
        "rq_status r = Pending_delivery \<or> ?s = Res_null \<or> ?t = Res_null"
    | (move) "\<not> (?s = Res_undefined \<and> ?t = Res_undefined)" "rq_status r = Awaiting_response"
        "\<not> (rq_status r = Pending_delivery \<or> ?s = Res_null \<or> ?t = Res_null)"
    using True by (auto simp: is_open_def)
  then show ?thesis
  proof cases
    case 1
    with r True show ?thesis by (simp add: reconcile_one_def Let_def)
  next
    case cancel
    with r True have "r' = cancel_stale now r" by (simp add: reconcile_one_def Let_def)
    with record_steps(10) [OF ok] True show ?thesis by (simp add: is_open_iff)
  next
    case move
    obtain x1 r1 where 1: "reassign_source env ?s r = (x1, r1)" by force
    note s1 = reassign_source_step [OF ok move(2) 1]
    have ok1: "rec_ok r1" using s1 ok rec_step_ok by blast
    obtain x2 r2 where 2: "reassign_target env now ?t r1 = (x2, r2)" by force
    note s2 = reassign_target_step [OF ok1 conjunct2 [OF s1] 2]
    have r2: "rec_step r r2" using s1 s2 rec_step_trans by blast
    have "rec_step r2 (r2\<lparr>rq_pending_response := None, rq_evidence := None, rq_updated := now\<rparr>)"
      using s2 rec_step_ok [OF conjunct1 [OF s2] ok1]
      by (auto simp: rec_step_def rec_ok_def terminal_def less_eq_request_status_def)
    with r2 have "rec_step r (r2\<lparr>rq_pending_response := None, rq_evidence := None, rq_updated := now\<rparr>)"
      by (rule rec_step_trans)
    moreover have "r' \<in> {r1, r2, r2\<lparr>rq_pending_response := None, rq_evidence := None, rq_updated := now\<rparr>}"
      using r True move 1 2 by (auto simp: reconcile_one_def Let_def split: sum.splits if_splits)
    ultimately show ?thesis using s1 r2 by blast
  qed
qed (use r in \<open>simp add: reconcile_one_def\<close>)

lemma reconcile_records_step:
  "reconcile_records env now resolve m = (x, m') \<Longrightarrow> \<forall>r \<in> set (jvals m). rec_ok r \<Longrightarrow>
     list_all2 (\<lambda>p q. fst q = fst p \<and> rec_step (snd p) (snd q)) m m'"
proof (induction m arbitrary: x m')
  case (Cons p m)
  obtain i r where p: "p = (i, r)" by force
  obtain y r' where one: "reconcile_one env now resolve r = (y, r')" by force
  obtain z m1 where rest: "reconcile_records env now resolve m = (z, m1)" by force
  have step: "rec_step r r'" using reconcile_one_step [OF _ one] Cons.prems(2) p by simp
  have "m' = (i, r') # (case y of Inl _ \<Rightarrow> m | Inr _ \<Rightarrow> m1)"
    using Cons.prems(1) p one rest by (auto split: sum.splits prod.splits reconcile_tag.splits)
  moreover have "list_all2 (\<lambda>p q. fst q = fst p \<and> rec_step (snd p) (snd q)) m m"
    by (simp add: list_all2_same)
  ultimately show ?case using Cons.IH [OF rest] Cons.prems(2) step p by (auto split: sum.split)
qed simp

text \<open>The operations of the store; the ids a communication gets are new.\<close>

inductive store_step :: "agent_env \<Rightarrow> agent_store \<Rightarrow> agent_store \<Rightarrow> bool" for env where
  op_prepare: "\<not> jhas (as_requests st) rid \<Longrightarrow>
     prepare_communication env now wok did rid inp st = (x1, st') \<Longrightarrow> store_step env st st'"
| op_bind: "bind_response_evidence env wok p prompt st = (x2, st') \<Longrightarrow> store_step env st st'"
| op_commit: "commit_communication now wok action transport p st = (x3, st') \<Longrightarrow> store_step env st st'"
| op_abort: "abort_communication now wok p st = (x4, st') \<Longrightarrow> store_step env st st'"
| op_reconcile: "reconcile_open_parties env now wok resolve st = (x5, st') \<Longrightarrow> store_step env st st'"
| op_turn: "record_target_turn_ended env wok thread ws turn ended st = (x6, st') \<Longrightarrow> store_step env st st'"
| op_check: "record_pending_response_check now wok i did status st = (x7, st') \<Longrightarrow> store_step env st st'"
| op_reminder: "record_reminder_result now wok i delivered err st = (x8, st') \<Longrightarrow> store_step env st st'"
| op_cancel: "cancel_request now wok i reason st = (x9, st') \<Longrightarrow> store_step env st st'"

lemma ok_get: "requests_ok m \<Longrightarrow> jget m i = Some r \<Longrightarrow> rec_ok r"
  by (simp add: requests_ok_def)

lemma advances_set:
  "requests_ok m \<Longrightarrow> jget m i = Some r \<Longrightarrow> rec_step r r' \<Longrightarrow> advances m (jset i r' m)"
  by (rule advances_jset [OF advances_refl])

lemma preparation_of_simps [simp]:
  "pp_delivery (preparation_of env did rid inp s t q) = did"
  "pp_request (preparation_of env did rid inp s t q) = (if q = Policy_required then Some rid else None)"
  "pp_source (preparation_of env did rid inp s t q) = s"
  "pp_target (preparation_of env did rid inp s t q) = t"
  "pp_reply_to (preparation_of env did rid inp s t q) = or_undefined (clean_text (pi_reply_to inp) 100)"
  by (simp_all add: preparation_of_def)

lemma validate_result:
  assumes "validate_communication env did rid inp m = Inr p"
  shows "\<exists>policy. p = preparation_of env did rid inp (pp_source p) (pp_target p) policy \<and>
      normalized_party env (pi_source inp) = Inr (pp_source p) \<and>
      normalized_party env (pi_target inp) = Inr (pp_target p) \<and> pi_policy inp = Some policy \<and>
      (policy = Policy_required \<longrightarrow> pp_instruction p \<noteq> None) \<and>
      (\<forall>i. pp_reply_to p = Some i \<longrightarrow>
        (\<exists>r. check_reply env i (pp_source p) (pp_target p) (pp_result p) (pp_next p) m = Inr r))"
proof -
  from assms obtain s t where st: "normalized_party env (pi_source inp) = Inr s"
      "normalized_party env (pi_target inp) = Inr t"
    unfolding validate_communication_def bindr_Inr_iff by blast
  with assms obtain q where q: "pi_policy inp = Some q"
    by (cases "pi_policy inp") (simp_all add: validate_communication_def split: if_splits)
  let ?p = "preparation_of env did rid inp s t q"
  have "p = ?p" and "q = Policy_required \<longrightarrow> pp_instruction ?p \<noteq> None"
    and "\<forall>i. pp_reply_to ?p = Some i \<longrightarrow>
        (\<exists>r. check_reply env i s t (pp_result ?p) (pp_next ?p) m = Inr r)"
    using assms st q
    by (cases "pp_reply_to ?p"; simp add: validate_communication_def Let_def bindr_Inr_iff split: if_splits)+
  then show ?thesis using st q by (intro exI [of _ q]) simp
qed

lemma validate_ids:
  assumes "validate_communication env did rid inp m = Inr p"
  shows "pp_request p = None \<or> pp_request p = Some rid" and "pp_delivery p = did"
proof -
  from validate_result [OF assms] obtain policy
    where eq: "p = preparation_of env did rid inp (pp_source p) (pp_target p) policy" by blast
  have "pp_request p = (if policy = Policy_required then Some rid else None)" "pp_delivery p = did"
    using arg_cong [OF eq, of pp_request] arg_cong [OF eq, of pp_delivery] by simp_all
  then show "pp_request p = None \<or> pp_request p = Some rid" and "pp_delivery p = did" by (auto split: if_splits)
qed

lemma check_reply_Inr:
  assumes "check_reply env i source target result nxt m = Inr r"
  shows "jget m i = Some r" and "rq_status r = Awaiting_response" and "rq_pending_response r = None"
    and "pt_thread source = pt_thread (rq_target r)" and "pt_thread target = pt_thread (rq_source r)"
    and "result \<noteq> None" and "nxt \<noteq> None"
  using assms by (simp_all add: check_reply_def split: option.splits if_splits)

lemma prepare_advances:
  assumes ok: "requests_ok (as_requests st)" and fresh: "\<not> jhas (as_requests st) rid"
    and p: "prepare_communication env now wok did rid inp st = (x, st')"
  shows "advances (as_requests st) (as_requests st')"
proof (cases "validate_communication env did rid inp (as_requests st)")
  case (Inl e)
  with p ok show ?thesis by (simp add: prepare_communication_def advances_refl)
next
  case (Inr pp)
  let ?m = "as_requests st"
  have rid: "pp_request pp = None \<or> pp_request pp = Some rid"
    using validate_ids(1) [OF Inr] .
  have reply: "\<exists>r. jget ?m i = Some r \<and> rq_status r = Awaiting_response" if "pp_reply_to pp = Some i" for i
    using validate_result [OF Inr] that check_reply_Inr(1,2) by blast
  define m1 where "m1 = (case pp_reply_to pp of
            None \<Rightarrow> ?m
          | Some i \<Rightarrow> (case jget ?m i of None \<Rightarrow> ?m
              | Some r \<Rightarrow> jset i (r\<lparr>rq_pending_response := Some (pp_delivery pp), rq_updated := now\<rparr>) ?m))"
  have "advances ?m m1"
  proof (cases "pp_reply_to pp")
    case (Some i)
    with reply obtain r where r: "jget ?m i = Some r" "rq_status r = Awaiting_response" by blast
    from advances_set [OF ok r(1) record_steps(1) [OF ok_get [OF ok r(1)] r(2)]] show ?thesis
      by (simp add: m1_def Some r(1))
  qed (simp add: m1_def advances_refl ok)
  moreover have "advances ?m (reserve_requests now pp ?m)"
  proof (cases "pp_request pp")
    case None
    with \<open>advances ?m m1\<close> show ?thesis by (simp add: reserve_requests_def m1_def)
  next
    case (Some q)
    with rid have "q = rid" by simp
    with fresh have "jget ?m q = None" by (simp add: not_jhas_get)
    from advances_new [OF \<open>advances ?m m1\<close> this] Some show ?thesis
      by (simp add: reserve_requests_def m1_def new_request_def rec_ok_def)
  qed
  moreover have "as_requests st' = ?m \<or> as_requests st' = reserve_requests now pp ?m"
    using p Inr by (cases "pp_reply_to pp = None \<and> pp_request pp = None"; cases wok)
      (simp_all add: prepare_communication_def persist_requests_result, auto)
  ultimately show ?thesis using advances_refl [OF ok] by fastforce
qed

text \<open>Restoring the records of before undoes a commit.\<close>

lemma jmap_eqI:
  "jkeys m = jkeys m' \<Longrightarrow> distinct (jkeys m) \<Longrightarrow> (\<And>k. jget m k = jget m' k) \<Longrightarrow> m = m'"
proof (induction m arbitrary: m')
  case (Cons p m)
  then obtain q n where m': "m' = q # n" and k: "fst p = fst q" "jkeys m = jkeys n" by (cases m') auto
  have "p = q" using Cons.prems(3) [of "fst p"] k m' by (simp add: prod_eq_iff)
  moreover have "jget m k = jget n k" for k
  proof (cases "k = fst p")
    case True
    with Cons.prems(2) k have "\<not> jhas m k" "\<not> jhas n k" by (auto simp: jhas_def simp del: set_map)
    then show ?thesis by (simp add: not_jhas_get)
  next
    case False
    with Cons.prems(3) [of k] k m' show ?thesis by simp
  qed
  ultimately show ?case using Cons.IH [OF k(2)] Cons.prems(2) m' by simp
qed simp

lemma jkeys_jset_present: "jget m i = Some r \<Longrightarrow> jkeys (jset i v m) = jkeys m"
  by (simp add: jkeys_jset jhas_get)

lemma commit_restores:
  assumes "distinct (jkeys m)"
  shows "restore_requests m p (commit_requests now action transport p m) = m"
proof -
  let ?m' = "commit_requests now action transport p m"
  have k1: "jkeys ?m' = jkeys m"
    by (auto simp: commit_requests_def Let_def jkeys_jset_present split: option.split)
  have g1: "jget ?m' k = jget m k" if "pp_reply_to p \<noteq> Some k" "pp_request p \<noteq> Some k" for k
    using that by (auto simp: commit_requests_def Let_def jget_jset split: option.split)
  have dom: "jget ?m' k = None \<longleftrightarrow> jget m k = None" for k
    using k1 by (metis map_of_eq_None_iff set_map)
  have fold: "jkeys (foldl (\<lambda>m' i. case jget m i of None \<Rightarrow> m' | Some r \<Rightarrow> jset i r m') n is) = jkeys n \<and>
      (\<forall>k. jget (foldl (\<lambda>m' i. case jget m i of None \<Rightarrow> m' | Some r \<Rightarrow> jset i r m') n is) k =
        (if k \<in> set is then jget m k else jget n k))"
    if "jkeys n = jkeys m" for n "is"
    using that
  proof (induction "is" arbitrary: n)
    case (Cons i "is")
    let ?n = "case jget m i of None \<Rightarrow> n | Some r \<Rightarrow> jset i r n"
    have d: "jhas n i \<longleftrightarrow> jhas m i" using Cons.prems by (simp add: jhas_def)
    have "jkeys ?n = jkeys m"
      using Cons.prems d by (auto simp: jkeys_jset jhas_get split: option.split)
    from Cons.IH [OF this] d Cons.prems show ?case
      by (auto simp: jget_jset jhas_get jkeys_jset split: option.split)
  qed simp
  define ids where "ids = concat (map (\<lambda>x. case x of None \<Rightarrow> [] | Some i \<Rightarrow> [i]) [pp_request p, pp_reply_to p])"
  have ids: "k \<in> set ids \<longleftrightarrow> pp_request p = Some k \<or> pp_reply_to p = Some k" for k
    by (auto simp: ids_def split: option.splits)
  note f = fold [OF k1, of ids]
  show ?thesis
    unfolding restore_requests_def ids_def [symmetric]
  proof (rule jmap_eqI)
    fix k
    show "jget (foldl (\<lambda>m' i. case jget m i of None \<Rightarrow> m' | Some r \<Rightarrow> jset i r m') ?m' ids) k = jget m k"
      using f g1 [of k] ids [of k] by auto
  qed (use f k1 assms in simp_all)
qed

lemma commit_advances:
  assumes ok: "requests_ok (as_requests st)"
    and c: "commit_communication now wok action transport p st = (x, st')"
  shows "advances (as_requests st) (as_requests st')"
proof -
  let ?m = "as_requests st"
  have same: "st' = st \<Longrightarrow> ?thesis" using ok by (simp add: advances_refl)
  show ?thesis
  proof (cases "reservation_ok ?m p \<and> \<not> already_responded ?m p \<and>
      \<not> (case pp_reply_to p of None \<Rightarrow> False | Some i \<Rightarrow> (case jget ?m i of None \<Rightarrow> True
           | Some r \<Rightarrow> rq_pending_response r \<noteq> Some (pp_delivery p))) \<and>
      \<not> (pp_reply_to p = None \<and> pp_request p = None)")
    case False
    then show ?thesis using c by (intro same) (auto simp: commit_communication_def Let_def split: if_splits)
  next
    case True
    let ?m' = "commit_requests now action transport p ?m"
    have m': "as_requests st' = (if wok then ?m' else restore_requests ?m p ?m')"
      using c True by (auto simp: commit_communication_def Let_def persist_requests_result split: if_splits)
    define m1 where "m1 = (case pp_reply_to p of None \<Rightarrow> ?m
          | Some i \<Rightarrow> (case jget ?m i of None \<Rightarrow> ?m | Some r \<Rightarrow> jset i (respond_record now p r) ?m))"
    have a1: "advances ?m m1"
    proof (cases "pp_reply_to p")
      case (Some i)
      with True obtain r where r: "jget ?m i = Some r" "rq_pending_response r = Some (pp_delivery p)"
        by (auto split: option.splits)
      from advances_set [OF ok r(1) record_steps(3) [OF ok_get [OF ok r(1)] r(2)]] show ?thesis
        by (simp add: m1_def Some r(1))
    qed (simp add: m1_def advances_refl ok)
    have "advances ?m ?m'"
    proof (cases "pp_request p")
      case None
      with a1 show ?thesis by (simp add: commit_requests_def m1_def)
    next
      case (Some q)
      with True obtain r0 where r0: "jget ?m q = Some r0" by (auto simp: reservation_ok_def split: option.splits)
      have "jhas m1 q" using r0 by (auto simp: m1_def jhas_get jget_jset split: option.split)
      then obtain r where r: "jget m1 q = Some r" by (auto simp: jhas_get)
      have "rec_ok r" using ok_get [OF advances_ok [OF a1 ok] r] .
      from advances_jset [OF a1 r0 r record_steps(5) [OF this]] Some r show ?thesis
        by (simp add: commit_requests_def m1_def)
    qed
    moreover have "restore_requests ?m p ?m' = ?m"
      using ok by (intro commit_restores) (simp add: requests_ok_def)
    ultimately show ?thesis using m' advances_refl [OF ok] by simp
  qed
qed

lemma bind_advances:
  assumes ok: "requests_ok (as_requests st)"
    and b: "bind_response_evidence env wok p prompt st = (x, st')"
  shows "advances (as_requests st) (as_requests st')"
proof -
  let ?m = "as_requests st"
  consider "pp_reply_to p = None"
    | i where "pp_reply_to p = Some i" "jget ?m i = None"
    | i r where "pp_reply_to p = Some i" "jget ?m i = Some r" "rq_pending_response r \<noteq> Some (pp_delivery p)"
    | i r where "pp_reply_to p = Some i" "jget ?m i = Some r" "rq_pending_response r = Some (pp_delivery p)"
    by (metis option.exhaust)
  then show ?thesis
  proof cases
    case (4 i r)
    let ?r = "r\<lparr>rq_evidence := Some (prompt_hash env prompt, p)\<rparr>"
    from advances_set [OF ok 4(2) record_steps(2) [OF ok_get [OF ok 4(2)] 4(3)]]
    have adv: "advances ?m (jset i ?r ?m)" .
    moreover have "jget (jset i ?r ?m) i = Some ?r" by simp
    moreover have "advances ?m (jset i r (jset i ?r ?m))"
      using ok 4(2) unfolding advances_def requests_ok_def by (simp add: jget_jset distinct_jset)
    ultimately show ?thesis
      using b 4 by (cases wok) (simp_all add: bind_response_evidence_def persist_requests_result, auto)
  qed (use b advances_refl [OF ok] in \<open>auto simp: bind_response_evidence_def\<close>)
qed

lemma abort_advances:
  assumes ok: "requests_ok (as_requests st)"
    and b: "abort_communication now wok p st = (x, st')"
  shows "advances (as_requests st) (as_requests st')"
proof -
  let ?m = "as_requests st"
  define c1m where "c1m = (case pp_reply_to p of
              None \<Rightarrow> (False, ?m)
            | Some i \<Rightarrow> (case jget ?m i of None \<Rightarrow> (False, ?m)
                | Some r \<Rightarrow> if rq_pending_response r = Some (pp_delivery p)
                    then (True, jset i (r\<lparr>rq_pending_response := None, rq_evidence := None,
                            rq_updated := now\<rparr>) ?m)
                    else (False, ?m)))"
  obtain c1 m1 where m1: "c1m = (c1, m1)" by force
  define c2m where "c2m = (case pp_request p of
              None \<Rightarrow> (False, m1)
            | Some q \<Rightarrow> (case jget m1 q of None \<Rightarrow> (False, m1)
                | Some r \<Rightarrow> if rq_status r = Pending_delivery \<and> rq_delivery r = pp_delivery p
                    then (True, jdel q m1) else (False, m1)))"
  obtain c2 m2 where m2: "c2m = (c2, m2)" by force
  have a1: "advances ?m m1"
  proof (cases "\<exists>i r. pp_reply_to p = Some i \<and> jget ?m i = Some r \<and>
      rq_pending_response r = Some (pp_delivery p)")
    case True
    then obtain i r where r: "pp_reply_to p = Some i" "jget ?m i = Some r"
        "rq_pending_response r = Some (pp_delivery p)" by (elim exE conjE)
    from advances_set [OF ok r(2) record_steps(4) [OF ok_get [OF ok r(2)] r(3)]] show ?thesis
      using m1 r unfolding c1m_def by auto
  next
    case False
    then have "m1 = ?m" using m1 unfolding c1m_def by (simp split: option.splits if_splits)
    then show ?thesis using ok by (simp add: advances_refl)
  qed
  have "advances ?m m2"
  proof (cases "\<exists>q r. pp_request p = Some q \<and> jget m1 q = Some r \<and> rq_status r = Pending_delivery \<and>
      rq_delivery r = pp_delivery p")
    case True
    then obtain q r where r: "pp_request p = Some q" "jget m1 q = Some r" "rq_status r = Pending_delivery"
        "rq_delivery r = pp_delivery p" by (elim exE conjE)
    from advances_del [OF a1 r(2,3)] show ?thesis using m2 r unfolding c2m_def by auto
  next
    case False
    then have "m2 = m1" using m2 unfolding c2m_def by (simp split: option.splits if_splits)
    with a1 show ?thesis by simp
  qed
  moreover have "as_requests st' = m2"
    using b m1 m2 unfolding abort_communication_def c1m_def c2m_def
    by (simp add: Let_def persist_requests_result split: if_splits) auto
  ultimately show ?thesis by simp
qed

lemma reconcile_advances:
  assumes ok: "requests_ok (as_requests st)"
    and b: "reconcile_open_parties env now wok resolve st = (x, st')"
  shows "advances (as_requests st) (as_requests st')"
proof -
  obtain y m where m: "reconcile_records env now resolve (as_requests st) = (y, m)" by force
  have "\<forall>r \<in> set (jvals (as_requests st)). rec_ok r"
    using ok unfolding requests_ok_def by (auto simp: map_of_eq_Some_iff)
  from advances_pointwise [OF ok reconcile_records_step [OF m this]]
  have "advances (as_requests st) m" .
  moreover have "as_requests st' = m"
    using b m by (auto simp: reconcile_open_parties_def persist_requests_result split: sum.splits if_splits)
  ultimately show ?thesis by simp
qed

lemma turn_ended_advances:
  assumes ok: "requests_ok (as_requests st)"
    and b: "record_target_turn_ended env wok thread ws turn ended st = (x, st')"
  shows "advances (as_requests st) (as_requests st')"
proof -
  let ?m = "as_requests st"
  let ?hit = "turn_ends env (clean_text (Some thread) 100) ws (clean_text (Some turn) 200)"
  let ?fin = "end_turn ended (clean_text (Some turn) 200)"
  let ?m' = "map (\<lambda>(k, r). (k, if ?hit r then ?fin r else r)) ?m"
  have "\<forall>p \<in> set ?m. rec_ok (snd p)"
    using ok unfolding requests_ok_def by (auto simp: map_of_eq_Some_iff)
  then have "list_all2 (\<lambda>p q. fst q = fst p \<and> rec_step (snd p) (snd q)) ?m ?m'"
    by (auto simp: list_all2_map2 list_all2_same turn_ends_def record_steps(6))
  from advances_pointwise [OF ok this] have "advances ?m ?m'" .
  moreover have "as_requests st' = ?m \<or> as_requests st' = ?m'"
    using b by (auto simp: record_target_turn_ended_def persist_requests_result Let_def split: if_splits)
  ultimately show ?thesis using advances_refl [OF ok] by fastforce
qed

lemma single_advances:
  assumes ok: "requests_ok (as_requests st)"
  shows "record_pending_response_check now wok i did status st = (x7, st') \<Longrightarrow> advances (as_requests st) (as_requests st')"
    and "record_reminder_result now wok i delivered err st = (x8, st') \<Longrightarrow> advances (as_requests st) (as_requests st')"
    and "cancel_request now wok i reason st = (x9, st') \<Longrightarrow> advances (as_requests st) (as_requests st')"
proof -
  let ?m = "as_requests st"
  have same: "advances ?m ?m" by (rule advances_refl [OF ok])
  show "advances ?m (as_requests st')" if "record_pending_response_check now wok i did status st = (x7, st')"
  proof (cases "jget ?m i")
    case (Some r)
    note step = record_steps(7) [OF ok_get [OF ok Some]]
    show ?thesis using that same Some advances_set [OF ok Some step]
      by (auto simp: record_pending_response_check_def persist_requests_result split: if_splits)
  qed (use that same in \<open>simp add: record_pending_response_check_def\<close>)
  show "advances ?m (as_requests st')" if "record_reminder_result now wok i delivered err st = (x8, st')"
  proof (cases "jget ?m (clean_text (Some i) 100)")
    case (Some r)
    note step = record_steps(8) [OF ok_get [OF ok Some]]
    show ?thesis using that same Some advances_set [OF ok Some step]
      by (auto simp: record_reminder_result_def Let_def persist_requests_result split: if_splits)
  qed (use that same in \<open>simp add: record_reminder_result_def Let_def\<close>)
  show "advances ?m (as_requests st')" if "cancel_request now wok i reason st = (x9, st')"
  proof (cases "jget ?m (clean_text (Some i) 100)")
    case (Some r)
    note step = record_steps(9) [OF ok_get [OF ok Some]]
    show ?thesis using that same Some advances_set [OF ok Some step]
      by (auto simp: cancel_request_def terminal_def Let_def persist_requests_result split: if_splits)
  qed (use that same in \<open>simp add: cancel_request_def Let_def\<close>)
qed

lemma store_step_advances:
  "store_step env st st' \<Longrightarrow> requests_ok (as_requests st) \<Longrightarrow> advances (as_requests st) (as_requests st')"
  by (induction rule: store_step.induct)
    (blast intro: prepare_advances bind_advances commit_advances abort_advances reconcile_advances
      turn_ended_advances single_advances)+

section \<open>The life cycle of a request\<close>

lemma rec_step_status: "rec_step r r' \<Longrightarrow> rq_status r \<le> rq_status r'"
  by (auto simp: rec_step_def less_eq_request_status_def)

definition record_since :: "agent_request \<Rightarrow> agent_request option \<Rightarrow> bool" where
  "record_since r x \<longleftrightarrow>
     (case x of
        None \<Rightarrow> rq_status r = Pending_delivery
      | Some r' \<Rightarrow> rq_status r \<le> rq_status r' \<and> (terminal r \<longrightarrow> r' = r))"

lemma record_since_step:
  assumes "advances m m'" and "record_since r (jget m i)"
  shows "record_since r (jget m' i)"
proof (cases "jget m' i")
  case None
  have "rq_status r1 = Pending_delivery" if "jget m i = Some r1" for r1
    using assms(1) that None by (auto simp: advances_def)
  with assms(2) None show ?thesis
    by (cases "jget m i") (auto simp: record_since_def less_eq_request_status_def)
next
  case (Some r2)
  note s = advancesD [OF assms(1) Some]
  show ?thesis
  proof (cases "jget m i")
    case None
    with assms(2) s Some show ?thesis by (auto simp: record_since_def less_eq_request_status_def terminal_def)
  next
    case (Some r1)
    with s have r2: "rec_step r1 r2" by simp
    have "rq_status r \<le> rq_status r1" and t: "terminal r \<longrightarrow> r1 = r"
      using assms(2) Some by (simp_all add: record_since_def)
    then have "rq_status r \<le> rq_status r2"
      using rec_step_status [OF r2] order_trans by blast
    moreover have "terminal r \<longrightarrow> r2 = r" using t r2 by (auto simp: rec_step_def)
    ultimately show ?thesis using \<open>jget m' i = Some r2\<close> by (simp add: record_since_def)
  qed
qed

text \<open>C11: From any store whose records are consistent, whatever sequence of operations runs, with
  whatever writes failing, the records stay consistent, a request only moves forward from pending
  delivery to awaiting response to responded or cancelled, an answered or cancelled request never
  changes again, and only a request that was never delivered can disappear.\<close>

theorem request_lifecycle:
  assumes "(store_step env)\<^sup>*\<^sup>* st st'" and "requests_ok (as_requests st)"
    and "jget (as_requests st) i = Some r"
  shows "requests_ok (as_requests st') \<and>
    (case jget (as_requests st') i of
        None \<Rightarrow> rq_status r = Pending_delivery
      | Some r' \<Rightarrow> rq_status r \<le> rq_status r' \<and> (terminal r \<longrightarrow> r' = r))"
proof -
  have "requests_ok (as_requests st') \<and> record_since r (jget (as_requests st') i)"
    using assms(1)
  proof (induction rule: rtranclp_induct)
    case base
    with assms show ?case by (simp add: record_since_def less_eq_request_status_def)
  next
    case (step s1 s2)
    from store_step_advances [OF step(2)] step(3) have a: "advances (as_requests s1) (as_requests s2)" by blast
    with step(3) show ?case by (blast intro: advances_ok record_since_step)
  qed
  then show ?thesis by (simp add: record_since_def)
qed

section \<open>Commit\<close>

lemma commit_failed_write:
  assumes "distinct (jkeys (as_requests st))"
  shows "snd (commit_communication now False action transport p st) = st"
  using commit_restores [OF assms, of p now action transport]
  by (simp add: commit_communication_def persist_requests_result Let_def)

lemma get_commit_requests:
  "jget (commit_requests now action transport p m) k =
     (let x = (if pp_reply_to p = Some k then map_option (respond_record now p) (jget m k) else jget m k)
      in if pp_request p = Some k then map_option (deliver_record now action transport) x else x)"
  by (auto simp: commit_requests_def Let_def jget_jset split: option.split)

lemma deliver_record_keeps [simp]:
  "rq_delivery (deliver_record now a t r) = rq_delivery r"
  "rq_response (deliver_record now a t r) = rq_response r"
  "rq_status (deliver_record now a t r) =
     (if rq_status r = Pending_delivery then Awaiting_response else rq_status r)"
  "rq_status r \<noteq> Pending_delivery \<Longrightarrow> deliver_record now a t r = r"
  by (simp_all add: deliver_record_def)

lemma respond_record_keeps [simp]:
  "rq_delivery (respond_record now p r) = rq_delivery r"
  "rq_status (respond_record now p r) = Responded"
  "map_option rsp_delivery (rq_response (respond_record now p r)) = Some (pp_delivery p)"
  by (simp_all add: respond_record_def)

text \<open>What a commit that answers a request does.\<close>

lemma commit_reply_cases:
  assumes "commit_communication now wok action transport p st = (Inr (a, b), st')"
    and "pp_reply_to p = Some i"
  shows "reservation_ok (as_requests st) p"
    and "(already_responded (as_requests st) p \<and> st' = st \<and> b = jget (as_requests st) i) \<or>
      (wok \<and> (\<exists>r. jget (as_requests st) i = Some r \<and> rq_pending_response r = Some (pp_delivery p)) \<and>
       as_requests st' = commit_requests now action transport p (as_requests st) \<and>
       as_disk st' = as_requests st' \<and> b = jget (as_requests st') i)"
  using assms
  by (auto simp: commit_communication_def persist_requests_result Let_def split: if_splits option.splits)

lemma committed_reply:
  assumes "commit_communication now wok action transport p st = (Inr (a, b), st')"
    and "pp_reply_to p = Some i"
  shows "reservation_ok (as_requests st') p" and "already_responded (as_requests st') p"
    and "b = jget (as_requests st') i"
proof -
  note c = commit_reply_cases [OF assms]
  let ?m = "as_requests st"
  have "reservation_ok (as_requests st') p \<and> already_responded (as_requests st') p \<and> b = jget (as_requests st') i"
    using c(2)
  proof
    assume "already_responded ?m p \<and> st' = st \<and> b = jget ?m i"
    with c(1) show ?thesis by simp
  next
    assume new: "wok \<and> (\<exists>r. jget ?m i = Some r \<and> rq_pending_response r = Some (pp_delivery p)) \<and>
       as_requests st' = commit_requests now action transport p ?m \<and>
       as_disk st' = as_requests st' \<and> b = jget (as_requests st') i"
    then obtain r where r: "jget ?m i = Some r" by blast
    have "reservation_ok (commit_requests now action transport p ?m) p"
      using c(1) by (auto simp: reservation_ok_def get_commit_requests Let_def split: option.splits)
    moreover have "already_responded (commit_requests now action transport p ?m) p"
      using r assms(2) by (auto simp: already_responded_def get_commit_requests Let_def)
    ultimately show ?thesis using new by simp
  qed
  then show "reservation_ok (as_requests st') p" and "already_responded (as_requests st') p"
    and "b = jget (as_requests st') i" by blast+
qed

lemma commit_again:
  assumes "reservation_ok (as_requests st) p" and "already_responded (as_requests st) p"
    and "pp_reply_to p = Some i"
  shows "\<exists>a. commit_communication now wok action transport p st = (Inr (a, jget (as_requests st) i), st)"
  using assms by (simp add: commit_communication_def Let_def)

text \<open>Committing the delivery of a reply twice is the same as committing it once: the second
  commit returns the answered request and changes neither the records nor the file, even when
  its write would fail or its receipt differs.\<close>

lemma commit_reply_idempotent:
  assumes "commit_communication now wok action transport p st = (Inr (a, b), st')"
    and "pp_reply_to p = Some i"
  shows "b \<noteq> None \<and> (\<exists>a'. commit_communication now' wok' action' transport' p st' = (Inr (a', b), st'))"
proof -
  note c = committed_reply [OF assms]
  have "jget (as_requests st') i \<noteq> None"
    using c(2) assms(2) by (auto simp: already_responded_def split: option.splits)
  with commit_again [OF c(1,2) assms(2)] c(3) show ?thesis by simp
qed

text \<open>C20: A commit or an evidence binding whose write fails leaves the records in memory exactly as
  they were, so that memory and file agree as they did before.\<close>

theorem commit_failure_atomic:
  assumes "distinct (jkeys (as_requests st))"
  shows "snd (commit_communication now False action transport p st) = st \<and>
    snd (bind_response_evidence env False p prompt st) = st"
proof -
  have "jset i r (jset i r' m) = m" if "jget m i = Some r" "distinct (jkeys m)" for i r r' and m :: agent_requests
  proof (rule jmap_eqI)
    show "jkeys (jset i r (jset i r' m)) = jkeys m" using that(1) by (simp add: jkeys_jset jhas_get)
  qed (use that in \<open>simp_all add: jkeys_jset jhas_get\<close>)
  then have "snd (bind_response_evidence env False p prompt st) = st"
    using assms by (auto simp: bind_response_evidence_def persist_requests_result split: option.split)
  with commit_failed_write [OF assms] show ?thesis by blast
qed

section \<open>Prepare, commit and abort\<close>

lemma get_reserve_requests:
  assumes "pp_request p = None \<or> (\<exists>q. pp_request p = Some q \<and> pp_reply_to p \<noteq> Some q)"
  shows "jget (reserve_requests now p m) k =
     (if pp_request p = Some k
      then Some (new_request k (pp_delivery p) (pp_source p) (pp_target p)
             (case pp_instruction p of None \<Rightarrow> [] | Some s \<Rightarrow> s) (pp_requirement p) (pp_plan p) now)
      else if pp_reply_to p = Some k
      then map_option (\<lambda>r. r\<lparr>rq_pending_response := Some (pp_delivery p), rq_updated := now\<rparr>) (jget m k)
      else jget m k)"
  using assms by (auto simp: reserve_requests_def Let_def jget_jset split: option.split)

text \<open>What a successful \<open>prepare\<close> has checked and done.\<close>

lemma prepared:
  assumes "prepare_communication env now wok did rid inp st = (Inr p, st1)"
    and "\<not> jhas (as_requests st) rid"
  shows "pp_delivery p = did" and "pp_request p = None \<or> pp_request p = Some rid"
    and "pp_reply_to p = Some i \<Longrightarrow> \<exists>r. jget (as_requests st) i = Some r \<and>
        rq_status r = Awaiting_response \<and> rq_pending_response r = None \<and>
        pt_thread (pp_source p) = pt_thread (rq_target r) \<and> pt_thread (pp_target p) = pt_thread (rq_source r) \<and>
        pp_result p \<noteq> None \<and> pp_next p \<noteq> None \<and> i \<noteq> rid"
    and "as_requests st1 = reserve_requests now p (as_requests st)"
    and "pp_reply_to p \<noteq> None \<or> pp_request p \<noteq> None \<Longrightarrow> wok \<and> as_disk st1 = as_requests st1"
    and "pp_reply_to p = None \<and> pp_request p = None \<Longrightarrow> st1 = st"
proof -
  have v: "validate_communication env did rid inp (as_requests st) = Inr p"
    using assms(1)
    by (auto simp: prepare_communication_def persist_requests_result split: sum.splits if_splits)
  show "pp_delivery p = did" and "pp_request p = None \<or> pp_request p = Some rid"
    using validate_ids [OF v] by blast+
  show "\<exists>r. jget (as_requests st) i = Some r \<and> rq_status r = Awaiting_response \<and>
        rq_pending_response r = None \<and>
        pt_thread (pp_source p) = pt_thread (rq_target r) \<and> pt_thread (pp_target p) = pt_thread (rq_source r) \<and>
        pp_result p \<noteq> None \<and> pp_next p \<noteq> None \<and> i \<noteq> rid" if i: "pp_reply_to p = Some i"
  proof -
    from validate_result [OF v] i obtain r
      where c: "check_reply env i (pp_source p) (pp_target p) (pp_result p) (pp_next p) (as_requests st) = Inr r"
      by blast
    from check_reply_Inr [OF c] show ?thesis using assms(2) by (auto simp: not_jhas_get)
  qed
  show "as_requests st1 = reserve_requests now p (as_requests st)"
    and "pp_reply_to p \<noteq> None \<or> pp_request p \<noteq> None \<Longrightarrow> wok \<and> as_disk st1 = as_requests st1"
    and "pp_reply_to p = None \<and> pp_request p = None \<Longrightarrow> st1 = st"
    using assms(1) v
    by (auto simp: prepare_communication_def persist_requests_result reserve_requests_def split: if_splits)
qed

lemma prepared_disjoint:
  assumes "prepare_communication env now wok did rid inp st = (Inr p, st1)"
    and "\<not> jhas (as_requests st) rid"
  shows "pp_request p = None \<or> (\<exists>q. pp_request p = Some q \<and> pp_reply_to p \<noteq> Some q)"
  using prepared(2) [OF assms] prepared(3) [OF assms] by blast

text \<open>What preparing and then committing a delivery makes of each record: the request it makes awaits its
  response, the request it replies to has the prepared response, the others are as they were.\<close>

definition delivered_record ::
  "int \<Rightarrow> int \<Rightarrow> string \<Rightarrow> string option \<Rightarrow> string option \<Rightarrow> agent_preparation \<Rightarrow> agent_requests \<Rightarrow> string \<Rightarrow>
    agent_request option" where
  "delivered_record now now2 did action transport p m k =
      (if pp_request p = Some k
       then Some ((new_request k did (pp_source p) (pp_target p)
               (case pp_instruction p of None \<Rightarrow> [] | Some s \<Rightarrow> s) (pp_requirement p) (pp_plan p) now)
             \<lparr>rq_status := Awaiting_response, rq_delivered := Some now2,
              rq_action := or_undefined (clean_text action 80),
              rq_transport := or_undefined (clean_text transport 80), rq_updated := now2\<rparr>)
       else if pp_reply_to p = Some k
       then map_option (\<lambda>r. r\<lparr>rq_status := Responded, rq_pending_response := None, rq_evidence := None,
               rq_response := Some \<lparr>rsp_delivery = did, rsp_by = pp_source p, rsp_result = the (pp_result p),
                 rsp_next = the (pp_next p), rsp_at = now2\<rparr>,
               rq_next_reminder := None, rq_reminder_error := None, rq_updated := now2\<rparr>) (jget m k)
       else jget m k)"

lemma prepared_records:
  assumes "prepare_communication env now wok did rid inp st = (Inr p, st1)" and "\<not> jhas (as_requests st) rid"
  shows "jget (as_requests st1) k = (if pp_request p = Some k
      then Some (new_request k did (pp_source p) (pp_target p)
             (case pp_instruction p of None \<Rightarrow> [] | Some s \<Rightarrow> s) (pp_requirement p) (pp_plan p) now)
      else if pp_reply_to p = Some k
      then map_option (\<lambda>r. r\<lparr>rq_pending_response := Some did, rq_updated := now\<rparr>) (jget (as_requests st) k)
      else jget (as_requests st) k)"
  using get_reserve_requests [OF prepared_disjoint [OF assms], of now "as_requests st" k] prepared(4,1) [OF assms] by simp

lemma prepared_reply_reserved:
  assumes "prepare_communication env now wok did rid inp st = (Inr p, st1)" and "\<not> jhas (as_requests st) rid"
    and "pp_reply_to p = Some i"
  shows "\<exists>r. jget (as_requests st1) i = Some r \<and> rq_status r = Awaiting_response \<and> rq_pending_response r = Some did"
  using prepared(3) [OF assms] prepared_records [OF assms(1,2), of i] prepared_disjoint [OF assms(1,2)] assms(3) by auto

text \<open>The commit of a prepared delivery goes through.\<close>

lemma prepared_commit:
  assumes prep: "prepare_communication env now wok did rid inp st = (Inr p, st1)" "\<not> jhas (as_requests st) rid"
    and some: "pp_reply_to p \<noteq> None \<or> pp_request p \<noteq> None" and m2: "m2 = commit_requests now2 action transport p (as_requests st1)"
  shows "commit_communication now2 True action transport p st1 =
      (Inr (case pp_request p of None \<Rightarrow> None | Some q \<Rightarrow> jget m2 q,
            case pp_reply_to p of None \<Rightarrow> None | Some i \<Rightarrow> jget m2 i), \<lparr>as_requests = m2, as_disk = m2\<rparr>)"
proof -
  note p = prepared [OF prep]
  have res: "reservation_ok (as_requests st1) p"
    using prepared_records [OF prep] p(1) by (auto simp: reservation_ok_def new_request_def split: option.split)
  show ?thesis
  proof (cases "pp_reply_to p")
    case None
    with res some show ?thesis
      unfolding m2 by (auto simp: commit_communication_def Let_def persist_requests_result already_responded_def)
  next
    case (Some i)
    with prepared_reply_reserved [OF prep] obtain r where
      "jget (as_requests st1) i = Some r" "rq_status r = Awaiting_response" "rq_pending_response r = Some did" by blast
    with res some Some p(1) show ?thesis
      unfolding m2 by (simp add: commit_communication_def Let_def persist_requests_result already_responded_def)
  qed
qed

lemma committed_records:
  assumes prep: "prepare_communication env now wok did rid inp st = (Inr p, st1)" "\<not> jhas (as_requests st) rid"
  shows "jget (commit_requests now2 action transport p (as_requests st1)) k =
    delivered_record now now2 did action transport p (as_requests st) k"
proof -
  note p = prepared [OF prep] and g = prepared_records [OF prep]
  consider "pp_request p = Some k" "pp_reply_to p \<noteq> Some k"
    | "pp_request p \<noteq> Some k" "pp_reply_to p = Some k" | "pp_request p \<noteq> Some k" "pp_reply_to p \<noteq> Some k"
    using prepared_disjoint [OF prep] by fastforce
  then show ?thesis
  proof cases
    case 1
    then show ?thesis
      by (simp add: get_commit_requests g Let_def deliver_record_def new_request_def delivered_record_def)
  next
    case 2
    have "pp_result p \<noteq> None \<and> pp_next p \<noteq> None" using p(3) [OF 2(2)] by blast
    with 2 p(1) show ?thesis
      by (cases "jget (as_requests st) k") (auto simp: get_commit_requests g Let_def respond_record_def delivered_record_def)
  next
    case 3
    then show ?thesis by (simp add: get_commit_requests g Let_def delivered_record_def)
  qed
qed

text \<open>C26: A delivery that is prepared and then committed does both of its jobs: the request it
  replies to is answered with the sender, the result and the next action that were prepared, the
  request it makes awaits its response with the receipt of the delivery, both are in the file,
  and no other request has changed.\<close>

theorem prepare_commit_delivers:
  assumes "prepare_communication env now wok did rid inp st = (Inr p, st1)"
    and "\<not> jhas (as_requests st) rid"
    and "pp_reply_to p \<noteq> None \<or> pp_request p \<noteq> None"
  shows "\<exists>a b st2. commit_communication now2 True action transport p st1 = (Inr (a, b), st2) \<and>
    as_disk st2 = as_requests st2 \<and>
    (\<forall>k. jget (as_requests st2) k = delivered_record now now2 did action transport p (as_requests st) k)"
  using prepared_commit [OF assms refl, of now2 action transport] committed_records [OF assms(1,2), of now2 action transport]
  by simp

text \<open>Aborting a prepared delivery gives up exactly what its preparation reserved: the request it
  would have made is gone, the request it would have answered is as before but for the time of
  its last update, and every other request is untouched.\<close>

lemma abort_undoes_prepare:
  assumes "prepare_communication env now wok did rid inp st = (Inr p, st1)"
    and "\<not> jhas (as_requests st) rid" and "requests_ok (as_requests st)"
  shows "jget (as_requests (snd (abort_communication now2 wok2 p st1))) k =
    (if pp_reply_to p = Some k then map_option (\<lambda>r. r\<lparr>rq_updated := now2\<rparr>) (jget (as_requests st) k)
     else jget (as_requests st) k)"
proof -
  note p = prepared [OF assms(1,2)]
  note d = prepared_disjoint [OF assms(1,2)]
  let ?m = "as_requests st" and ?m1 = "as_requests st1"
  note g = get_reserve_requests [OF d, of now ?m, folded p(4)]
  define m2 where "m2 = (case pp_reply_to p of None \<Rightarrow> ?m1
      | Some i \<Rightarrow> (case jget ?m1 i of None \<Rightarrow> ?m1
          | Some r \<Rightarrow> jset i (r\<lparr>rq_pending_response := None, rq_evidence := None, rq_updated := now2\<rparr>) ?m1))"
  define m3 where "m3 = (case pp_request p of None \<Rightarrow> m2 | Some q \<Rightarrow> jdel q m2)"
  have reply: "\<exists>r. jget ?m1 i = Some r \<and> rq_pending_response r = Some (pp_delivery p)"
    if "pp_reply_to p = Some i" for i
    using p(3) [OF that] g [of i] d that by auto
  have new: "\<exists>r. jget m2 q = Some r \<and> rq_status r = Pending_delivery \<and> rq_delivery r = pp_delivery p"
    if "pp_request p = Some q" for q
    using g [of q] d that by (auto simp: m2_def new_request_def jget_jset split: option.split)
  have m2: "(case pp_reply_to p of
              None \<Rightarrow> (False, ?m1)
            | Some i \<Rightarrow> (case jget ?m1 i of None \<Rightarrow> (False, ?m1)
                | Some r \<Rightarrow> if rq_pending_response r = Some (pp_delivery p)
                    then (True, jset i (r\<lparr>rq_pending_response := None, rq_evidence := None,
                            rq_updated := now2\<rparr>) ?m1)
                    else (False, ?m1))) = (pp_reply_to p \<noteq> None, m2)"
    using reply by (cases "pp_reply_to p") (auto simp: m2_def)
  have m3: "(case pp_request p of
              None \<Rightarrow> (False, m2)
            | Some q \<Rightarrow> (case jget m2 q of None \<Rightarrow> (False, m2)
                | Some r \<Rightarrow> if rq_status r = Pending_delivery \<and> rq_delivery r = pp_delivery p
                    then (True, jdel q m2) else (False, m2))) = (pp_request p \<noteq> None, m3)"
    using new by (cases "pp_request p") (auto simp: m3_def)
  have st2: "as_requests (snd (abort_communication now2 wok2 p st1)) = m3"
    by (simp add: abort_communication_def Let_def m2 m3)
  have fresh: "jget ?m q = None" if "pp_request p = Some q" for q
    using p(2) assms(2) that by (auto simp: not_jhas_get)
  have ev: "rq_pending_response r = None \<and> rq_evidence r = None" if "pp_reply_to p = Some i" "jget ?m i = Some r" for i r
    using p(3) [OF that(1)] that(2) ok_get [OF assms(3) that(2)] by (cases "rq_evidence r") (auto simp: rec_ok_def)
  have "jget m2 k = (if pp_request p = Some k then jget ?m1 k
      else if pp_reply_to p = Some k then map_option (\<lambda>r. r\<lparr>rq_updated := now2\<rparr>) (jget ?m k) else jget ?m k)"
  proof (cases "pp_reply_to p")
    case None
    with g [of k] show ?thesis by (auto simp: m2_def)
  next
    case (Some i)
    with reply obtain r1 where r1: "jget ?m1 i = Some r1" by blast
    show ?thesis
    proof (cases "k = i")
      case True
      with r1 Some d g [of i] p(2) obtain r where "jget ?m i = Some r"
        and "r1 = r\<lparr>rq_pending_response := Some (pp_delivery p), rq_updated := now\<rparr>" by auto
      with True Some r1 d ev [of i r] show ?thesis by (auto simp: m2_def jget_jset)
    next
      case False
      with Some r1 g [of k] show ?thesis by (simp add: m2_def jget_jset)
    qed
  qed
  then show ?thesis unfolding st2 using fresh [of k] d by (auto simp: m3_def split: option.split)
qed

section \<open>Reservations\<close>

lemma reserved_refuses:
  assumes "jget (as_requests st) i = Some r" and "rq_pending_response r = Some d"
  shows "fst (prepare_communication env now wok did rid inp st) = Inr p \<Longrightarrow> pp_reply_to p \<noteq> Some i"
proof
  assume f: "fst (prepare_communication env now wok did rid inp st) = Inr p" and i: "pp_reply_to p = Some i"
  then obtain st1 where "prepare_communication env now wok did rid inp st = (Inr p, st1)"
    by (cases "prepare_communication env now wok did rid inp st") auto
  then have v: "validate_communication env did rid inp (as_requests st) = Inr p"
    by (auto simp: prepare_communication_def persist_requests_result split: sum.splits if_splits)
  from validate_result [OF v] i obtain r'
    where c: "check_reply env i (pp_source p) (pp_target p) (pp_result p) (pp_next p) (as_requests st) = Inr r'"
    by blast
  from check_reply_Inr(1,3) [OF c] assms show False by simp
qed

lemma reserved_commit_other:
  assumes "jget (as_requests st) i = Some r" and "rq_pending_response r = Some d" and "rec_ok r"
    and "pp_delivery p \<noteq> d" and "pp_reply_to p = Some i"
  shows "snd (commit_communication now wok action transport p st) = st \<and>
    (\<exists>e. fst (commit_communication now wok action transport p st) = Inl e)"
proof -
  have "rq_status r = Awaiting_response" using assms(2,3) by (simp add: rec_ok_def)
  then have "\<not> already_responded (as_requests st) p" using assms(1,5) by (simp add: already_responded_def)
  with assms show ?thesis by (simp add: commit_communication_def Let_def)
qed

text \<open>A prepared reply holds its request: until it is committed or aborted no other delivery can
  be prepared as a reply to that request, and the commit of a different delivery that names it is
  refused and changes nothing.\<close>

lemma reply_reservation_exclusive:
  assumes "prepare_communication env now wok did rid inp st = (Inr p, st1)"
    and "\<not> jhas (as_requests st) rid" and "requests_ok (as_requests st)" and "pp_reply_to p = Some i"
  shows "(fst (prepare_communication env now' wok' did' rid' inp' st1) = Inr p' \<longrightarrow> pp_reply_to p' \<noteq> Some i) \<and>
    (pp_reply_to p2 = Some i \<and> pp_delivery p2 \<noteq> did \<longrightarrow>
       snd (commit_communication now2 wok2 action transport p2 st1) = st1 \<and>
       (\<exists>e. fst (commit_communication now2 wok2 action transport p2 st1) = Inl e))"
proof -
  note p = prepared [OF assms(1,2)]
  from p(3) [OF assms(4)] obtain r where r: "jget (as_requests st) i = Some r" "rq_status r = Awaiting_response"
      "i \<noteq> rid" by blast
  let ?r = "r\<lparr>rq_pending_response := Some did, rq_updated := now\<rparr>"
  have g: "jget (as_requests st1) i = Some ?r"
    using get_reserve_requests [OF prepared_disjoint [OF assms(1,2)], of now "as_requests st" i] p(1,2,4) r assms(4)
    by auto
  have "rec_ok ?r" using ok_get [OF assms(3) r(1)] r(2) by (auto simp: rec_ok_def)
  with reserved_refuses [OF g] reserved_commit_other [OF g] show ?thesis by simp
qed

text \<open>When the write of a prepared reply fails, \<open>prepare\<close> throws but does not take its
  reservation back: the file is unchanged, the request in memory is reserved for a delivery nobody
  holds, and every later attempt to reply to it is refused. (\<open>commit\<close> and
  \<open>bindResponseEvidence\<close> do restore the record when their write fails.)\<close>

lemma failed_prepare_keeps_reservation:
  assumes "validate_communication env did rid inp (as_requests st) = Inr p"
    and "pp_reply_to p = Some i" and "\<not> jhas (as_requests st) rid"
  shows "\<exists>st1 r. prepare_communication env now False did rid inp st = (Inl Persist_failed, st1) \<and>
     as_disk st1 = as_disk st \<and>
     jget (as_requests st1) i = Some r \<and> rq_pending_response r = Some did \<and>
     (\<forall>now' wok' did' rid' inp' p'.
        fst (prepare_communication env now' wok' did' rid' inp' st1) = Inr p' \<longrightarrow> pp_reply_to p' \<noteq> Some i)"
proof -
  let ?m' = "reserve_requests now p (as_requests st)"
  let ?st1 = "st\<lparr>as_requests := ?m'\<rparr>"
  from validate_result [OF assms(1)] assms(2) obtain r
    where c: "check_reply env i (pp_source p) (pp_target p) (pp_result p) (pp_next p) (as_requests st) = Inr r"
    by blast
  note r = check_reply_Inr(1) [OF c]
  have ne: "i \<noteq> rid" using r assms(3) by (auto simp: not_jhas_get)
  have d: "pp_request p = None \<or> (\<exists>q. pp_request p = Some q \<and> pp_reply_to p \<noteq> Some q)"
    using validate_ids(1) [OF assms(1)] ne assms(2) by auto
  have g: "jget ?m' i = Some (r\<lparr>rq_pending_response := Some did, rq_updated := now\<rparr>)"
    using get_reserve_requests [OF d, of now "as_requests st" i] r assms(2) validate_ids [OF assms(1)] ne by auto
  have p: "prepare_communication env now False did rid inp st = (Inl Persist_failed, ?st1)"
    using assms by (simp add: prepare_communication_def persist_requests_result)
  have g1: "jget (as_requests ?st1) i = Some (r\<lparr>rq_pending_response := Some did, rq_updated := now\<rparr>)"
    using g by simp
  from reserved_refuses [OF g1, of did] p g show ?thesis
    by (intro exI [of _ ?st1] exI [of _ "r\<lparr>rq_pending_response := Some did, rq_updated := now\<rparr>"]) simp
qed

section \<open>Reminders\<close>

text \<open>A reminder is due exactly for the requests that await a response, whose target has ended a
  turn, and whose time has come; the due ones come in the order of their times, each once; and a
  request just reminded is not due again before its target ends another turn.\<close>

lemma reminders_exact:
  assumes "requests_ok (as_requests st)"
  shows "(r \<in> set (due_reminders at st) \<longleftrightarrow>
      (\<exists>i. jget (as_requests st) i = Some r \<and> rq_status r = Awaiting_response \<and>
        (\<exists>t. rq_next_reminder r = Some t \<and> t \<noteq> 0 \<and> t \<le> at))) \<and>
    sorted_wrt (\<lambda>l r. the (rq_next_reminder l) \<le> the (rq_next_reminder r)) (due_reminders at st) \<and>
    mset (due_reminders at st) = mset (filter (reminder_due at) (jvals (as_requests st))) \<and>
    (rq_status r = Awaiting_response \<longrightarrow>
       \<not> reminder_due at (reminder_result now True err r) \<and>
       (reminder_due at (end_turn ended turn r) \<longleftrightarrow> ended + reminder_ms \<noteq> 0 \<and> ended + reminder_ms \<le> at) \<and>
       (reminder_due at (reminder_result now False err r) \<longleftrightarrow> now + reminder_ms \<noteq> 0 \<and> now + reminder_ms \<le> at))"
proof -
  have "r \<in> set (jvals (as_requests st)) \<longleftrightarrow> (\<exists>i. jget (as_requests st) i = Some r)"
    using assms by (force simp: requests_ok_def map_of_eq_Some_iff)
  moreover have "sorted_wrt (\<lambda>l r. the (rq_next_reminder l) \<le> the (rq_next_reminder r)) (due_reminders at st)"
    unfolding due_reminders_def by (rule sorted_js_sort) auto
  ultimately show ?thesis
    by (auto simp: due_reminders_def reminder_due_def reminder_result_def end_turn_def split: option.split)
qed

section \<open>The properties on a concrete store\<close>

definition ask_env :: agent_env where
  "ask_env = \<lparr>ge_same_workspace = (=), ge_adapter = or_undefined, ge_message = js_trim, ge_sha256 = id\<rparr>"

definition ask_party :: "string \<Rightarrow> agent_party" where
  "ask_party t = \<lparr>pt_adapter = None, pt_thread = t, pt_type = ''role'', pt_name = None, pt_workspace = Some ''w''\<rparr>"

definition ask_request :: agent_request where
  "ask_request =
     (new_request ''r1'' ''d1'' (ask_party ''ta'') (ask_party ''tb'') ''report'' None None 1)
       \<lparr>rq_status := Awaiting_response, rq_delivered := Some 2, rq_next_reminder := Some 4, rq_updated := 2\<rparr>"

definition ask_store :: agent_store where
  "ask_store = \<lparr>as_requests = [(''r1'', ask_request)], as_disk = [(''r1'', ask_request)]\<rparr>"

text \<open>The reply to it, which itself asks for an answer.\<close>

definition ask_reply :: prepare_input where
  "ask_reply = \<lparr>pi_reply_to = Some '' r1 '', pi_policy = Some Policy_required, pi_instruction = Some ''confirm'',
     pi_result = Some ''done'', pi_next = Some ''none'', pi_source = ask_party ''tb'',
     pi_target = ask_party ''ta'', pi_requirement = None, pi_plan = None\<rparr>"

definition ask_preparation :: agent_preparation where
  "ask_preparation =
     preparation_of ask_env ''d2'' ''r2'' ask_reply (ask_party ''tb'') (ask_party ''ta'') Policy_required"

definition ask_reserved :: agent_store where
  "ask_reserved = snd (prepare_communication ask_env 5 True ''d2'' ''r2'' ask_reply ask_store)"

lemma ask_ok: "requests_ok (as_requests ask_store)" "\<not> jhas (as_requests ask_store) ''r2''"
  "jget (as_requests ask_store) ''r1'' = Some ask_request"
  by (simp_all add: requests_ok_def ask_store_def ask_request_def new_request_def rec_ok_def jhas_def)

lemma ask_validated:
  "validate_communication ask_env ''d2'' ''r2'' ask_reply (as_requests ask_store) = Inr ask_preparation"
  by code_simp

lemma ask_preparation_ids:
  "pp_reply_to ask_preparation = Some ''r1''" "pp_request ask_preparation = Some ''r2''"
  by code_simp+

lemma ask_prepared:
  "prepare_communication ask_env 5 True ''d2'' ''r2'' ask_reply ask_store = (Inr ask_preparation, ask_reserved)"
  unfolding ask_reserved_def
  by (simp add: prepare_communication_def ask_validated ask_preparation_ids persist_requests_result)

lemma request_lifecycle_witness:
  "let st' = snd (cancel_request 9 False ''r1'' None ask_store) in
     requests_ok (as_requests st') \<and>
     (case jget (as_requests st') ''r1'' of
        None \<Rightarrow> rq_status ask_request = Pending_delivery
      | Some r' \<Rightarrow> rq_status ask_request \<le> rq_status r')"
proof -
  obtain x st' where c: "cancel_request 9 False ''r1'' None ask_store = (x, st')" by force
  then have "(store_step ask_env)\<^sup>*\<^sup>* ask_store st'" by (blast intro: op_cancel)
  from request_lifecycle [OF this ask_ok(1) ask_ok(3)] show ?thesis by (simp add: c Let_def split: option.splits)
qed

lemma prepare_commit_delivers_witness:
  "\<exists>a b st2. commit_communication 7 True None None ask_preparation ask_reserved = (Inr (a, b), st2) \<and>
     as_disk st2 = as_requests st2"
proof -
  have "pp_reply_to ask_preparation \<noteq> None \<or> pp_request ask_preparation \<noteq> None"
    by (simp add: ask_preparation_ids)
  from prepare_commit_delivers [OF ask_prepared ask_ok(2) this, of 7 None None] show ?thesis by blast
qed

lemma ask_commit:
  "\<exists>a b st2. commit_communication 7 True None None ask_preparation ask_reserved = (Inr (a, b), st2)"
proof -
  have "case commit_communication 7 True None None ask_preparation ask_reserved of
      (Inr (a, b), st2) \<Rightarrow> True | _ \<Rightarrow> False" by code_simp
  then show ?thesis by (cases "commit_communication 7 True None None ask_preparation ask_reserved")
      (auto split: sum.splits)
qed

lemma commit_reply_idempotent_witness:
  "\<exists>a b st2. commit_communication 7 True None None ask_preparation ask_reserved = (Inr (a, b), st2) \<and>
     (\<exists>a'. commit_communication 8 False None None ask_preparation st2 = (Inr (a', b), st2))"
proof -
  obtain a b st2 where c: "commit_communication 7 True None None ask_preparation ask_reserved = (Inr (a, b), st2)"
    using ask_commit by blast
  from commit_reply_idempotent [OF c ask_preparation_ids(1), of 8 False None None] c show ?thesis by blast
qed

lemma commit_failure_atomic_witness:
  "snd (commit_communication 7 False None None ask_preparation ask_reserved) = ask_reserved \<and>
   snd (bind_response_evidence ask_env False ask_preparation ''p'' ask_reserved) = ask_reserved"
proof -
  have "distinct (jkeys (as_requests ask_reserved))" by code_simp
  from commit_failure_atomic [OF this, of 7 None None ask_preparation ask_env "''p''"] show ?thesis .
qed

lemma abort_undoes_prepare_witness:
  "jget (as_requests (snd (abort_communication 7 True ask_preparation ask_reserved))) ''r2'' = None"
  using abort_undoes_prepare [OF ask_prepared ask_ok(2) ask_ok(1), of 7 True "''r2''"] ask_ok(2)
  by (simp add: ask_preparation_ids not_jhas_get)

lemma reply_reservation_exclusive_witness:
  "fst (prepare_communication ask_env 6 True ''d3'' ''r3'' ask_reply ask_reserved) \<noteq> Inr ask_preparation"
  using reply_reservation_exclusive [OF ask_prepared ask_ok(2) ask_ok(1) ask_preparation_ids(1),
      where now' = 6 and wok' = True and did' = "''d3''" and rid' = "''r3''"
        and inp' = ask_reply and p' = ask_preparation] ask_preparation_ids(1) by blast

lemma failed_prepare_keeps_reservation_witness:
  "\<exists>st1. prepare_communication ask_env 5 False ''d2'' ''r2'' ask_reply ask_store = (Inl Persist_failed, st1) \<and>
     as_disk st1 = as_disk ask_store \<and> as_requests st1 \<noteq> as_requests ask_store"
proof -
  from failed_prepare_keeps_reservation [OF ask_validated ask_preparation_ids(1) ask_ok(2), of 5]
  obtain st1 r where s: "prepare_communication ask_env 5 False ''d2'' ''r2'' ask_reply ask_store = (Inl Persist_failed, st1)"
    "as_disk st1 = as_disk ask_store" "jget (as_requests st1) ''r1'' = Some r" "rq_pending_response r = Some ''d2''"
    by blast
  moreover have "rq_pending_response ask_request = None" by (simp add: ask_request_def new_request_def)
  ultimately show ?thesis using ask_ok(3) by (intro exI [of _ st1]) auto
qed

lemma reminders_exact_witness: "ask_request \<in> set (due_reminders 4 ask_store)"
  using reminders_exact [OF ask_ok(1), of ask_request 4] ask_ok(3)
  by (auto simp: ask_request_def new_request_def)

end
