(* ===== verification/UiContributions.thy ===== *)
theory UiContributions
  imports Prelude
begin

text \<open>
  \<open>src/runtime/contributionRegistry.ts\<close>: the registry of the user-interface contributions of the
  plugins. A batch of contributions is normalised, validated, checked for its references and
  registered as a whole; the function that \<open>registerMany\<close> returns, a handle here, removes it again.
  A number that is no integer is \<open>Num_other\<close>.
\<close>

section \<open>Data\<close>

datatype ui_number = Num_int int | Num_other

datatype ui_kind =
    Page string string
  | Navigation string
  | Settings_section string string string string
  | Endpoint_settings string string string string
  | Status_card string string
  | Command string "string option"
  | Tray_menu string
  | Hotkey string "string option"
  | Theme string "string option" "string option"

record ui_contribution =
  uc_id :: string
  uc_label_key :: "string option"
  uc_label :: string
  uc_hosts :: "string list"
  uc_surface :: string
  uc_slot :: string
  uc_order :: "ui_number option"
  uc_icon :: "string option"
  uc_capabilities :: "string list option"
  uc_kind :: ui_kind

record ui_record =
  ur_contribution :: ui_contribution
  ur_plugin :: string
  ur_instance :: string
  ur_sequence :: int

datatype ui_error =
    Ui_required string
  | Ui_unsupported string
  | Hosts_required string
  | Host_unsupported string
  | Hosts_duplicate string
  | Order_unsupported string
  | Capabilities_duplicate string
  | Danger_unsupported string
  | Web_theme_incompatible string
  | Desktop_theme_incompatible string
  | Command_missing string string
  | Page_missing string string
  | Page_incompatible string string
  | Already_registered string
  | Contract_registered string

fun kind_name :: "ui_kind \<Rightarrow> string" where
  "kind_name (Page _ _) = ''page''"
| "kind_name (Navigation _) = ''navigation''"
| "kind_name (Settings_section _ _ _ _) = ''settings-section''"
| "kind_name (Endpoint_settings _ _ _ _) = ''message-endpoint-settings''"
| "kind_name (Status_card _ _) = ''status-card''"
| "kind_name (Command _ _) = ''command''"
| "kind_name (Tray_menu _) = ''tray-menu''"
| "kind_name (Hotkey _ _) = ''hotkey''"
| "kind_name (Theme _ _ _) = ''theme''"

definition contribution_key :: "ui_contribution \<Rightarrow> string" where
  "contribution_key c = kind_name (uc_kind c) @ '':'' @ uc_id c"

section \<open>Normalisation\<close>

definition normalize_identity :: "string \<Rightarrow> string \<Rightarrow> (ui_error, string) res" where
  "normalize_identity v field = (if js_trim v = [] then Inl (Ui_required field) else Inr (js_trim v))"

text \<open>\<open>/^[a-z0-9][a-z0-9._:-]*$/i\<close>.\<close>

definition symbol_start :: "char \<Rightarrow> bool" where
  "symbol_start c \<longleftrightarrow> is_lower c \<or> is_upper c \<or> is_digit c"

definition symbol_part :: "char \<Rightarrow> bool" where
  "symbol_part c \<longleftrightarrow> symbol_start c \<or> c \<in> set ''._:-''"

fun is_symbol :: "string \<Rightarrow> bool" where
  "is_symbol [] = False"
| "is_symbol (c # cs) = (symbol_start c \<and> list_all symbol_part cs)"

definition normalize_symbol :: "string \<Rightarrow> string \<Rightarrow> (ui_error, string) res" where
  "normalize_symbol v field =
     bindr (normalize_identity v field) (\<lambda>n. if is_symbol n then Inr n else Inl (Ui_unsupported field))"

text \<open>A step on an optional property: absent stays absent.\<close>

definition optionally :: "('a \<Rightarrow> ('e, 'b) res) \<Rightarrow> 'a option \<Rightarrow> ('e, 'b option) res" where
  "optionally f v = (case v of None \<Rightarrow> Inr None | Some x \<Rightarrow> bindr (f x) (\<lambda>y. Inr (Some y)))"

definition normalize_optional_symbol :: "string option \<Rightarrow> string \<Rightarrow> (ui_error, string option) res" where
  "normalize_optional_symbol v field = optionally (\<lambda>x. normalize_symbol x field) v"

definition is_control :: "char \<Rightarrow> bool" where
  "is_control c \<longleftrightarrow> c < CHR 0x20 \<or> c = CHR 0x7F"

definition normalize_optional_text ::
  "string option \<Rightarrow> string \<Rightarrow> int \<Rightarrow> (ui_error, string option) res" where
  "normalize_optional_text v field maximum =
     optionally (\<lambda>x. bindr (normalize_identity x field) (\<lambda>n.
       if int (length n) > maximum \<or> list_ex is_control n then Inl (Ui_unsupported field) else Inr n)) v"

definition of_field :: "string \<Rightarrow> string \<Rightarrow> string" where
  "of_field name i = ''Contribution '' @ name @ '' ('' @ i @ '')''"

fun normalize_kind :: "string \<Rightarrow> ui_kind \<Rightarrow> (ui_error, ui_kind) res" where
  "normalize_kind i (Page route renderer) =
     bindr (normalize_symbol route (of_field ''routeId'' i)) (\<lambda>a.
     bindr (normalize_symbol renderer (of_field ''rendererId'' i)) (\<lambda>b. Inr (Page a b)))"
| "normalize_kind i (Navigation route) =
     bindr (normalize_symbol route (of_field ''routeId'' i)) (\<lambda>a. Inr (Navigation a))"
| "normalize_kind i (Settings_section renderer schema rd wr) =
     bindr (normalize_symbol renderer (of_field ''rendererId'' i)) (\<lambda>a.
     bindr (normalize_symbol schema (of_field ''schemaId'' i)) (\<lambda>b.
     bindr (normalize_symbol rd (of_field ''readCommandId'' i)) (\<lambda>c.
     bindr (normalize_symbol wr (of_field ''writeCommandId'' i)) (\<lambda>d. Inr (Settings_section a b c d)))))"
| "normalize_kind i (Endpoint_settings renderer schema rd wr) =
     bindr (normalize_symbol renderer (of_field ''rendererId'' i)) (\<lambda>a.
     bindr (normalize_symbol schema (of_field ''schemaId'' i)) (\<lambda>b.
     bindr (normalize_symbol rd (of_field ''readCommandId'' i)) (\<lambda>c.
     bindr (normalize_symbol wr (of_field ''writeCommandId'' i)) (\<lambda>d. Inr (Endpoint_settings a b c d)))))"
| "normalize_kind i (Status_card query renderer) =
     bindr (normalize_symbol query (of_field ''queryId'' i)) (\<lambda>a.
     bindr (normalize_symbol renderer (of_field ''rendererId'' i)) (\<lambda>b. Inr (Status_card a b)))"
| "normalize_kind i (Command handler danger) =
     bindr (normalize_symbol handler (of_field ''handlerId'' i)) (\<lambda>a.
       Inr (Command a (Some (case danger of None \<Rightarrow> ''safe'' | Some d \<Rightarrow> d))))"
| "normalize_kind i (Tray_menu command) =
     bindr (normalize_symbol command (of_field ''commandId'' i)) (\<lambda>a. Inr (Tray_menu a))"
| "normalize_kind i (Hotkey command binding) =
     bindr (normalize_symbol command (of_field ''commandId'' i)) (\<lambda>a.
     bindr (normalize_optional_text binding (of_field ''defaultBinding'' i) 80) (\<lambda>b. Inr (Hotkey a b)))"
| "normalize_kind i (Theme theme web desktop) =
     bindr (normalize_symbol theme (of_field ''themeId'' i)) (\<lambda>a.
     bindr (optionally (\<lambda>x. normalize_symbol x (of_field ''webResourceId'' i)) web) (\<lambda>b.
     bindr (optionally (\<lambda>x. normalize_symbol x (of_field ''desktopResourceId'' i)) desktop) (\<lambda>c.
       Inr (Theme a b c))))"

definition normalize_contribution :: "ui_contribution \<Rightarrow> (ui_error, ui_contribution) res" where
  "normalize_contribution v =
     bindr (normalize_symbol (uc_id v) ''Contribution id'') (\<lambda>i.
     bindr (normalize_optional_symbol (uc_label_key v) (of_field ''label key'' i)) (\<lambda>key.
     bindr (normalize_identity (uc_label v) (of_field ''label fallback'' i)) (\<lambda>label.
     bindr (map_res (\<lambda>h. normalize_identity h (of_field ''host'' i)) (uc_hosts v)) (\<lambda>hosts.
     bindr (normalize_symbol (uc_surface v) (of_field ''surface'' i)) (\<lambda>surface.
     bindr (normalize_symbol (uc_slot v) (of_field ''slot'' i)) (\<lambda>slot.
     bindr (optionally (\<lambda>x. normalize_symbol x (of_field ''icon'' i)) (uc_icon v)) (\<lambda>icon.
     bindr (optionally (map_res (\<lambda>x. normalize_symbol x (of_field ''required capability'' i)))
         (uc_capabilities v)) (\<lambda>capabilities.
     bindr (normalize_kind i (uc_kind v)) (\<lambda>kind.
       Inr \<lparr>uc_id = i, uc_label_key = key, uc_label = label, uc_hosts = hosts, uc_surface = surface,
            uc_slot = slot, uc_order = uc_order v, uc_icon = icon, uc_capabilities = capabilities,
            uc_kind = kind\<rparr>)))))))))"

section \<open>Validation\<close>

fun safe_integer :: "ui_number \<Rightarrow> bool" where
  "safe_integer (Num_int n) = (\<bar>n\<bar> \<le> 9007199254740991)"
| "safe_integer Num_other = False"

text \<open>\<open>Boolean(x)\<close> of an optional string: an empty one is false.\<close>

definition truthy :: "string option \<Rightarrow> bool" where
  "truthy v = (case v of None \<Rightarrow> False | Some s \<Rightarrow> s \<noteq> [])"

definition validate_contribution :: "ui_contribution \<Rightarrow> (ui_error, unit) res" where
  "validate_contribution v =
     (if uc_hosts v = [] then Inl (Hosts_required (uc_id v))
      else if list_ex (\<lambda>h. h \<noteq> ''web'' \<and> h \<noteq> ''desktop'') (uc_hosts v) then Inl (Host_unsupported (uc_id v))
      else if \<not> distinct (uc_hosts v) then Inl (Hosts_duplicate (uc_id v))
      else if (case uc_order v of None \<Rightarrow> False | Some n \<Rightarrow> \<not> safe_integer n)
      then Inl (Order_unsupported (uc_id v))
      else if \<not> distinct (case uc_capabilities v of None \<Rightarrow> [] | Some cs \<Rightarrow> cs)
      then Inl (Capabilities_duplicate (uc_id v))
      else case uc_kind v of
        Command _ danger \<Rightarrow>
          if (case danger of None \<Rightarrow> ''safe'' | Some d \<Rightarrow> d) \<in> set [''safe'', ''confirm'', ''dangerous'']
          then Inr () else Inl (Danger_unsupported (uc_id v))
      | Theme _ web desktop \<Rightarrow>
          if (''web'' \<in> set (uc_hosts v)) \<noteq> truthy web then Inl (Web_theme_incompatible (uc_id v))
          else if (''desktop'' \<in> set (uc_hosts v)) \<noteq> truthy desktop
          then Inl (Desktop_theme_incompatible (uc_id v))
          else Inr ()
      | _ \<Rightarrow> Inr ())"

fun contract_key :: "ui_kind \<Rightarrow> string option" where
  "contract_key (Page route _) = Some (''page-route:'' @ route)"
| "contract_key (Theme theme _ _) = Some (''theme:'' @ theme)"
| "contract_key _ = None"

fun is_command :: "ui_kind \<Rightarrow> bool" where
  "is_command (Command _ _) = True"
| "is_command _ = False"

definition command_ids :: "ui_contribution list \<Rightarrow> string list" where
  "command_ids cs = map uc_id (filter (is_command \<circ> uc_kind) cs)"

definition pages_by_route :: "ui_contribution list \<Rightarrow> (string, ui_contribution) jmap" where
  "pages_by_route cs =
     foldl (\<lambda>m c. case uc_kind c of Page route _ \<Rightarrow> jset route c m | _ \<Rightarrow> m) [] cs"

definition validate_relationship ::
  "string list \<Rightarrow> (string, ui_contribution) jmap \<Rightarrow> ui_contribution \<Rightarrow> (ui_error, unit) res" where
  "validate_relationship commands pages c =
     (case uc_kind c of
        Tray_menu command \<Rightarrow>
          if command \<in> set commands then Inr () else Inl (Command_missing (contribution_key c) command)
      | Hotkey command _ \<Rightarrow>
          if command \<in> set commands then Inr () else Inl (Command_missing (contribution_key c) command)
      | Navigation route \<Rightarrow>
          (case jget pages route of
             None \<Rightarrow> Inl (Page_missing (uc_id c) route)
           | Some page \<Rightarrow>
               if list_ex (\<lambda>h. h \<notin> set (uc_hosts page)) (uc_hosts c)
               then Inl (Page_incompatible (uc_id c) route) else Inr ())
      | _ \<Rightarrow> Inr ())"

definition validate_relationships :: "ui_contribution list \<Rightarrow> (ui_error, unit) res" where
  "validate_relationships cs =
     fold_res (\<lambda>c _. validate_relationship (command_ids cs) (pages_by_route cs) c) cs ()"

section \<open>The registry\<close>

record ui_registry =
  ug_records :: "(string, ui_record) jmap"
  ug_sequence :: int
  ug_revision :: int

definition new_ui_registry :: ui_registry where
  "new_ui_registry = \<lparr>ug_records = [], ug_sequence = 0, ug_revision = 0\<rparr>"

text \<open>The function \<open>registerMany\<close> returns, with what it has captured.\<close>

record ui_handle =
  uh_owner :: string
  uh_instance :: string
  uh_keys :: "string list"
  uh_active :: bool

definition registered_contracts :: "ui_registry \<Rightarrow> string list" where
  "registered_contracts g = List.map_filter (\<lambda>r. contract_key (uc_kind (ur_contribution r))) (jvals (ug_records g))"

text \<open>One turn of the loop that looks for conflicts; the state is \<open>keys\<close> and \<open>contractKeys\<close>.\<close>

definition check_conflict ::
  "ui_registry \<Rightarrow> ui_contribution \<Rightarrow> string list \<times> string list \<Rightarrow> (ui_error, string list \<times> string list) res" where
  "check_conflict g c = (\<lambda>(keys, contracts).
     let k = contribution_key c in
     if k \<in> set keys \<or> jhas (ug_records g) k then Inl (Already_registered k)
     else case contract_key (uc_kind c) of
       None \<Rightarrow> Inr (sadd k keys, contracts)
     | Some ck \<Rightarrow>
         if ck \<in> set contracts \<or> ck \<in> set (registered_contracts g) then Inl (Contract_registered ck)
         else Inr (sadd k keys, sadd ck contracts))"

definition insert_contribution :: "string \<Rightarrow> string \<Rightarrow> ui_registry \<Rightarrow> ui_contribution \<Rightarrow> ui_registry" where
  "insert_contribution owner inst g c =
     g\<lparr>ug_records := jset (contribution_key c)
         \<lparr>ur_contribution = c, ur_plugin = owner, ur_instance = inst, ur_sequence = ug_sequence g + 1\<rparr>
         (ug_records g),
       ug_sequence := ug_sequence g + 1\<rparr>"

definition register_many ::
  "string \<Rightarrow> ui_contribution list \<Rightarrow> string \<Rightarrow> ui_registry \<Rightarrow> (ui_error, ui_handle) res \<times> ui_registry" where
  "register_many plugin cs inst g =
     (let checked =
        bindr (normalize_identity plugin ''Contribution pluginId'') (\<lambda>owner.
        bindr (normalize_identity inst ''Contribution instanceId'') (\<lambda>owner_instance.
        bindr (map_res normalize_contribution cs) (\<lambda>ns.
        bindr (map_res validate_contribution ns) (\<lambda>_.
        bindr (validate_relationships ns) (\<lambda>_.
        bindr (fold_res (check_conflict g) ns ([], [])) (\<lambda>_. Inr (owner, owner_instance, ns)))))))
      in case checked of
        Inl e \<Rightarrow> (Inl e, g)
      | Inr (owner, owner_instance, ns) \<Rightarrow>
          let g1 = foldl (insert_contribution owner owner_instance) g ns in
          (Inr \<lparr>uh_owner = owner, uh_instance = owner_instance, uh_keys = map contribution_key ns,
               uh_active = True\<rparr>,
           if ns = [] then g1 else g1\<lparr>ug_revision := ug_revision g1 + 1\<rparr>))"

definition register_ui :: "string \<Rightarrow> ui_contribution \<Rightarrow> string \<Rightarrow> ui_registry \<Rightarrow>
    (ui_error, ui_handle) res \<times> ui_registry" where
  "register_ui plugin c inst g = register_many plugin [c] inst g"

definition unregister_key ::
  "string \<Rightarrow> string \<Rightarrow> ui_registry \<times> bool \<Rightarrow> string \<Rightarrow> ui_registry \<times> bool" where
  "unregister_key owner inst = (\<lambda>(g, removed) k.
     case jget (ug_records g) k of
       None \<Rightarrow> (g, removed)
     | Some r \<Rightarrow>
         if ur_plugin r \<noteq> owner \<or> ur_instance r \<noteq> inst then (g, removed)
         else (g\<lparr>ug_records := jdel k (ug_records g)\<rparr>, True))"

definition unregister :: "ui_handle \<Rightarrow> ui_registry \<Rightarrow> ui_handle \<times> ui_registry" where
  "unregister h g =
     (if \<not> uh_active h then (h, g)
      else let (g1, removed) = foldl (unregister_key (uh_owner h) (uh_instance h)) (g, False) (uh_keys h)
        in (h\<lparr>uh_active := False\<rparr>,
            if removed then g1\<lparr>ug_revision := ug_revision g1 + 1\<rparr> else g1))"

definition order_value :: "ui_record \<Rightarrow> int" where
  "order_value r = (case uc_order (ur_contribution r) of Some (Num_int n) \<Rightarrow> n | _ \<Rightarrow> 0)"

definition catalog_le :: "ui_record \<Rightarrow> ui_record \<Rightarrow> bool" where
  "catalog_le l r \<longleftrightarrow> order_value l < order_value r \<or>
     (order_value l = order_value r \<and> ur_sequence l \<le> ur_sequence r)"

definition catalog_records :: "string option \<Rightarrow> ui_registry \<Rightarrow> ui_record list" where
  "catalog_records host g =
     js_sort catalog_le (filter (\<lambda>r. \<not> truthy host \<or> the host \<in> set (uc_hosts (ur_contribution r)))
       (jvals (ug_records g)))"

text \<open>The entries the caller gets have no sequence number.\<close>

definition catalog :: "string option \<Rightarrow> ui_registry \<Rightarrow> int \<times> (ui_contribution \<times> string \<times> string) list" where
  "catalog host g =
     (ug_revision g, map (\<lambda>r. (ur_contribution r, ur_plugin r, ur_instance r)) (catalog_records host g))"

section \<open>Normalisation is idempotent\<close>

lemma normalize_identity_Inr:
  "normalize_identity v f = Inr n \<longleftrightarrow> n = js_trim v \<and> n \<noteq> []"
  by (auto simp: normalize_identity_def)

lemma normalize_identity_again: "normalize_identity v f = Inr n \<Longrightarrow> normalize_identity n f' = Inr n"
  by (auto simp: normalize_identity_def split: if_splits)

lemma normalize_symbol_again: "normalize_symbol v f = Inr n \<Longrightarrow> normalize_symbol n f' = Inr n"
  by (auto simp: normalize_symbol_def bindr_Inr_iff intro: normalize_identity_again split: if_splits)

lemma optionally_again:
  assumes "optionally f v = Inr n" and "\<And>x y. f x = Inr y \<Longrightarrow> f' y = Inr y"
  shows "optionally f' n = Inr n"
  using assms by (auto simp: optionally_def bindr_Inr_iff split: option.splits)

lemma map_res_again:
  assumes "map_res f xs = Inr ys" and "\<And>x y. f x = Inr y \<Longrightarrow> f' y = Inr y"
  shows "map_res f' ys = Inr ys"
  using assms by (induction xs arbitrary: ys) (auto simp: bindr_Inr_iff)

lemma normalize_text_again:
  "normalize_optional_text v f m = Inr n \<Longrightarrow> normalize_optional_text n f' m = Inr n"
  unfolding normalize_optional_text_def
  by (erule optionally_again) (auto simp: bindr_Inr_iff intro: normalize_identity_again split: if_splits)

lemma normalize_kind_again:
  assumes "normalize_kind i k = Inr n" shows "normalize_kind i n = Inr n"
proof -
  note again = normalize_symbol_again normalize_text_again
  note theme = optionally_again [OF _ normalize_symbol_again]
  show ?thesis
    using assms
    by (cases k) (auto simp: bindr_Inr_iff again intro: theme)
qed

lemma normalize_contribution_again:
  assumes "normalize_contribution v = Inr n" shows "normalize_contribution n = Inr n"
proof -
  from assms obtain i key label hosts surface slot icon caps kind where p:
    "normalize_symbol (uc_id v) ''Contribution id'' = Inr i"
    "optionally (\<lambda>x. normalize_symbol x (of_field ''label key'' i)) (uc_label_key v) = Inr key"
    "normalize_identity (uc_label v) (of_field ''label fallback'' i) = Inr label"
    "map_res (\<lambda>h. normalize_identity h (of_field ''host'' i)) (uc_hosts v) = Inr hosts"
    "normalize_symbol (uc_surface v) (of_field ''surface'' i) = Inr surface"
    "normalize_symbol (uc_slot v) (of_field ''slot'' i) = Inr slot"
    "optionally (\<lambda>x. normalize_symbol x (of_field ''icon'' i)) (uc_icon v) = Inr icon"
    "optionally (map_res (\<lambda>x. normalize_symbol x (of_field ''required capability'' i))) (uc_capabilities v) = Inr caps"
    "normalize_kind i (uc_kind v) = Inr kind"
    and n: "n = \<lparr>uc_id = i, uc_label_key = key, uc_label = label, uc_hosts = hosts, uc_surface = surface,
            uc_slot = slot, uc_order = uc_order v, uc_icon = icon, uc_capabilities = caps, uc_kind = kind\<rparr>"
    unfolding normalize_contribution_def normalize_optional_symbol_def bindr_Inr_iff by blast
  note again = normalize_symbol_again [OF p(1)] optionally_again [OF p(2) normalize_symbol_again]
    normalize_identity_again [OF p(3)] map_res_again [OF p(4) normalize_identity_again]
    normalize_symbol_again [OF p(5)] normalize_symbol_again [OF p(6)]
    optionally_again [OF p(7) normalize_symbol_again]
    optionally_again [OF p(8) map_res_again [OF _ normalize_symbol_again]]
    normalize_kind_again [OF p(9)]
  show ?thesis
    unfolding n normalize_contribution_def normalize_optional_symbol_def by (simp add: again)
qed

section \<open>A batch that passes the checks\<close>

definition contracts_of :: "ui_contribution list \<Rightarrow> string list" where
  "contracts_of cs = List.map_filter (\<lambda>c. contract_key (uc_kind c)) cs"

lemma contracts_of_simps [simp]:
  "contracts_of [] = []"
  "contracts_of (c # cs) = (case contract_key (uc_kind c) of None \<Rightarrow> contracts_of cs | Some k \<Rightarrow> k # contracts_of cs)"
  by (cases "contract_key (uc_kind c)"; simp add: contracts_of_def List.map_filter_simps)+

lemma check_conflict_pair:
  "check_conflict g c (keys, contracts) =
     (if contribution_key c \<in> set keys \<or> jhas (ug_records g) (contribution_key c)
      then Inl (Already_registered (contribution_key c))
      else case contract_key (uc_kind c) of
        None \<Rightarrow> Inr (sadd (contribution_key c) keys, contracts)
      | Some ck \<Rightarrow>
          if ck \<in> set contracts \<or> ck \<in> set (registered_contracts g) then Inl (Contract_registered ck)
          else Inr (sadd (contribution_key c) keys, sadd ck contracts))"
  by (simp add: check_conflict_def Let_def)

lemma check_conflicts_Inr:
  assumes "fold_res (check_conflict g) ns (keys, contracts) = Inr z"
  shows "distinct (map contribution_key ns) \<and> set (map contribution_key ns) \<inter> set keys = {} \<and>
    (\<forall>c \<in> set ns. \<not> jhas (ug_records g) (contribution_key c)) \<and>
    distinct (contracts_of ns) \<and> set (contracts_of ns) \<inter> set contracts = {} \<and>
    set (contracts_of ns) \<inter> set (registered_contracts g) = {}"
  using assms
proof (induction ns arbitrary: keys contracts)
  case (Cons c ns)
  let ?k = "contribution_key c"
  show ?case
  proof (cases "contract_key (uc_kind c)")
    case None
    with Cons.prems have free: "?k \<notin> set keys" "\<not> jhas (ug_records g) ?k"
      and rest: "fold_res (check_conflict g) ns (sadd ?k keys, contracts) = Inr z"
      by (auto simp: check_conflict_pair split: if_splits)
    from Cons.IH [OF rest] free None show ?thesis by auto
  next
    case (Some ck)
    with Cons.prems have free: "?k \<notin> set keys" "\<not> jhas (ug_records g) ?k"
        "ck \<notin> set contracts" "ck \<notin> set (registered_contracts g)"
      and rest: "fold_res (check_conflict g) ns (sadd ?k keys, sadd ck contracts) = Inr z"
      by (auto simp: check_conflict_pair split: if_splits)
    from Cons.IH [OF rest] free Some show ?thesis by auto
  qed
qed simp

text \<open>The records a batch adds.\<close>

fun records_of :: "string \<Rightarrow> string \<Rightarrow> int \<Rightarrow> ui_contribution list \<Rightarrow> (string, ui_record) jmap" where
  "records_of owner inst s [] = []"
| "records_of owner inst s (c # cs) =
     (contribution_key c, \<lparr>ur_contribution = c, ur_plugin = owner, ur_instance = inst, ur_sequence = s + 1\<rparr>)
     # records_of owner inst (s + 1) cs"

lemma keys_records_of [simp]: "jkeys (records_of owner inst s cs) = map contribution_key cs"
  by (induction cs arbitrary: s) auto

lemma contributions_records_of [simp]:
  "map ur_contribution (jvals (records_of owner inst s cs)) = cs"
  "map (ur_contribution \<circ> snd) (records_of owner inst s cs) = cs"
  by (induction cs arbitrary: s) auto

lemma mem_records_of:
  "(k, r) \<in> set (records_of owner inst s cs) \<Longrightarrow>
     k = contribution_key (ur_contribution r) \<and> ur_contribution r \<in> set cs \<and> ur_plugin r = owner \<and>
     ur_instance r = inst \<and> s < ur_sequence r \<and> ur_sequence r \<le> s + int (length cs)"
  by (induction cs arbitrary: s) force+

lemma sequences_records_of: "sorted_wrt (<) (map ur_sequence (jvals (records_of owner inst s cs)))"
proof (induction cs arbitrary: s)
  case (Cons c cs)
  have "s + 1 < x" if "x \<in> set (map ur_sequence (jvals (records_of owner inst (s + 1) cs)))" for x
    using that mem_records_of by fastforce
  with Cons show ?case by simp
qed simp

lemma insert_contributions:
  assumes "distinct (map contribution_key ns)" and "\<forall>c \<in> set ns. \<not> jhas (ug_records g) (contribution_key c)"
  shows "foldl (insert_contribution owner inst) g ns =
    g\<lparr>ug_records := ug_records g @ records_of owner inst (ug_sequence g) ns,
      ug_sequence := ug_sequence g + int (length ns)\<rparr>"
  using assms
proof (induction ns arbitrary: g)
  case (Cons c ns)
  let ?g = "insert_contribution owner inst g c"
  from Cons.prems have fresh: "\<not> jhas (ug_records g) (contribution_key c)" by simp
  have g: "?g = g\<lparr>ug_records := ug_records g @ [(contribution_key c,
      \<lparr>ur_contribution = c, ur_plugin = owner, ur_instance = inst, ur_sequence = ug_sequence g + 1\<rparr>)],
      ug_sequence := ug_sequence g + 1\<rparr>"
    by (simp add: insert_contribution_def jset_fresh [OF fresh])
  have "\<forall>d \<in> set ns. \<not> jhas (ug_records ?g) (contribution_key d)"
    using Cons.prems by (auto simp: insert_contribution_def) (metis imageI)
  from Cons.IH [OF _ this] Cons.prems(1) show ?case by (simp add: g)
qed simp

text \<open>A registration either refuses the batch and changes nothing or appends all of it.\<close>

lemma register_many_cases:
  assumes "register_many plugin cs inst g = (x, g')"
  obtains (refused) e where "x = Inl e" "g' = g"
  | (registered) h ns where "x = Inr h" "map_res normalize_contribution cs = Inr ns"
      "uh_owner h = js_trim plugin" "uh_instance h = js_trim inst" "uh_owner h \<noteq> []" "uh_instance h \<noteq> []"
      "uh_keys h = map contribution_key ns" "uh_active h"
      "\<forall>c \<in> set ns. validate_contribution c = Inr ()" "validate_relationships ns = Inr ()"
      "distinct (map contribution_key ns)" "\<forall>c \<in> set ns. \<not> jhas (ug_records g) (contribution_key c)"
      "distinct (contracts_of ns)" "set (contracts_of ns) \<inter> set (registered_contracts g) = {}"
      "g' = g\<lparr>ug_records := ug_records g @ records_of (uh_owner h) (uh_instance h) (ug_sequence g) ns,
              ug_sequence := ug_sequence g + int (length ns),
              ug_revision := ug_revision g + (if ns = [] then 0 else 1)\<rparr>"
proof -
  define checked where "checked =
        bindr (normalize_identity plugin ''Contribution pluginId'') (\<lambda>owner.
        bindr (normalize_identity inst ''Contribution instanceId'') (\<lambda>owner_instance.
        bindr (map_res normalize_contribution cs) (\<lambda>ns.
        bindr (map_res validate_contribution ns) (\<lambda>_.
        bindr (validate_relationships ns) (\<lambda>_.
        bindr (fold_res (check_conflict g) ns ([], [])) (\<lambda>_. Inr (owner, owner_instance, ns)))))))"
  show thesis
  proof (cases checked)
    case (Inl e)
    with assms have "x = Inl e" "g' = g" by (simp_all add: register_many_def checked_def [symmetric])
    then show thesis by (rule refused)
  next
    case (Inr y)
    obtain owner inst' ns where y: "y = (owner, inst', ns)" by (cases y)
    from Inr y obtain z u where ns: "normalize_identity plugin ''Contribution pluginId'' = Inr owner"
        "normalize_identity inst ''Contribution instanceId'' = Inr inst'"
        "map_res normalize_contribution cs = Inr ns" "map_res validate_contribution ns = Inr u"
        "validate_relationships ns = Inr ()" "fold_res (check_conflict g) ns ([], []) = Inr z"
      unfolding checked_def bindr_Inr_iff by auto
    note c = check_conflicts_Inr [OF ns(6)]
    let ?h = "\<lparr>uh_owner = owner, uh_instance = inst', uh_keys = map contribution_key ns, uh_active = True\<rparr>"
    have g1: "foldl (insert_contribution owner inst') g ns =
      g\<lparr>ug_records := ug_records g @ records_of owner inst' (ug_sequence g) ns,
        ug_sequence := ug_sequence g + int (length ns)\<rparr>"
      using c by (intro insert_contributions) blast+
    have "x = Inr ?h" and "g' = g\<lparr>ug_records := ug_records g @ records_of owner inst' (ug_sequence g) ns,
              ug_sequence := ug_sequence g + int (length ns),
              ug_revision := ug_revision g + (if ns = [] then 0 else 1)\<rparr>"
      using assms Inr y by (simp_all add: register_many_def checked_def [symmetric] g1 Let_def split: if_splits)
    moreover have "\<forall>c \<in> set ns. validate_contribution c = Inr ()"
      using ns(4) by (auto simp: map_res_Inr_iff list_all2_conv_all_nth in_set_conv_nth)
    ultimately show thesis
      using c ns by (intro registered [of ?h ns]) (auto simp: normalize_identity_Inr)
  qed
qed

section \<open>Removing a batch\<close>

lemma jdel_append_fresh:
  "k \<notin> set (jkeys xs) \<Longrightarrow> jdel k (xs @ ys) = xs @ jdel k ys"
  by (induction xs) auto

lemma jdel_fresh: "k \<notin> set (jkeys xs) \<Longrightarrow> jdel k xs = xs"
  by (induction xs) auto

text \<open>Removing keys whose records all belong to the handle.\<close>

lemma unregister_keys:
  assumes "distinct ks" and "distinct (jkeys (ug_records g))"
    and "\<forall>k \<in> set ks. \<exists>r. jget (ug_records g) k = Some r \<and> ur_plugin r = owner \<and> ur_instance r = inst"
  shows "foldl (unregister_key owner inst) (g, b) ks =
    (g\<lparr>ug_records := filter (\<lambda>p. fst p \<notin> set ks) (ug_records g)\<rparr>, b \<or> ks \<noteq> [])"
  using assms
proof (induction ks arbitrary: g b)
  case Nil
  then show ?case by simp
next
  case (Cons k ks)
  from Cons.prems(3) obtain r where r: "jget (ug_records g) k = Some r" "ur_plugin r = owner" "ur_instance r = inst"
    by auto
  let ?g = "g\<lparr>ug_records := jdel k (ug_records g)\<rparr>"
  have step: "unregister_key owner inst (g, b) k = (?g, True)" by (simp add: unregister_key_def r)
  have "\<forall>k' \<in> set ks. \<exists>r. jget (ug_records ?g) k' = Some r \<and> ur_plugin r = owner \<and> ur_instance r = inst"
    using Cons.prems(1,3) by auto
  with Cons.IH [of ?g True] Cons.prems(1,2)
  have "foldl (unregister_key owner inst) (?g, True) ks =
    (?g\<lparr>ug_records := filter (\<lambda>p. fst p \<notin> set ks) (jdel k (ug_records g))\<rparr>, True)"
    by (simp add: distinct_jdel)
  moreover have "filter (\<lambda>p. fst p \<notin> set ks) (jdel k (ug_records g)) =
      filter (\<lambda>p. fst p \<notin> set (k # ks)) (ug_records g)"
    by (auto simp: AList.delete_eq intro: filter_cong)
  ultimately show ?case by (simp add: step)
qed

section \<open>Registries and the handles in use\<close>

text \<open>All histories of a registry: registrations, refused ones included, and calls of the functions
  they returned, in any order and any number of times.\<close>

inductive ui_reachable :: "ui_registry \<Rightarrow> ui_handle list \<Rightarrow> bool" where
  ui_start: "ui_reachable new_ui_registry []"
| ui_register: "ui_reachable g hs \<Longrightarrow> register_many plugin cs inst g = (Inr h, g') \<Longrightarrow> ui_reachable g' (hs @ [h])"
| ui_refuse: "ui_reachable g hs \<Longrightarrow> register_many plugin cs inst g = (Inl e, g') \<Longrightarrow> ui_reachable g' hs"
| ui_unregister: "ui_reachable g (hs1 @ h # hs2) \<Longrightarrow> unregister h g = (h', g') \<Longrightarrow>
     ui_reachable g' (hs1 @ h' # hs2)"

definition active_keys :: "ui_handle list \<Rightarrow> string list" where
  "active_keys hs = concat (map uh_keys (filter uh_active hs))"

lemma active_keys_simps [simp]:
  "active_keys [] = []" "active_keys (h # hs) = (if uh_active h then uh_keys h else []) @ active_keys hs"
  "active_keys (hs @ hs') = active_keys hs @ active_keys hs'"
  by (simp_all add: active_keys_def)

text \<open>The records of an active handle: its whole batch, as it was checked.\<close>

definition batch_in :: "ui_registry \<Rightarrow> ui_handle \<Rightarrow> bool" where
  "batch_in g h \<longleftrightarrow> (\<exists>ns. uh_keys h = map contribution_key ns \<and> validate_relationships ns = Inr () \<and>
     (\<forall>c \<in> set ns. \<exists>r. jget (ug_records g) (contribution_key c) = Some r \<and> ur_contribution r = c \<and>
        ur_plugin r = uh_owner h \<and> ur_instance r = uh_instance h))"

definition ui_ok :: "ui_registry \<Rightarrow> ui_handle list \<Rightarrow> bool" where
  "ui_ok g hs \<longleftrightarrow>
     distinct (jkeys (ug_records g)) \<and>
     mset (active_keys hs) = mset (jkeys (ug_records g)) \<and>
     (\<forall>(k, r) \<in> set (ug_records g). k = contribution_key (ur_contribution r) \<and>
        normalize_contribution (ur_contribution r) = Inr (ur_contribution r) \<and>
        validate_contribution (ur_contribution r) = Inr () \<and> ur_sequence r \<le> ug_sequence g) \<and>
     sorted_wrt (<) (map ur_sequence (jvals (ug_records g))) \<and>
     distinct (registered_contracts g) \<and>
     (\<forall>h \<in> set hs. uh_active h \<longrightarrow> batch_in g h)"

lemma registered_contracts_alt:
  "registered_contracts g = contracts_of (map ur_contribution (jvals (ug_records g)))"
  by (simp add: registered_contracts_def contracts_of_def List.map_filter_def filter_map o_def)

lemma contracts_of_append [simp]: "contracts_of (xs @ ys) = contracts_of xs @ contracts_of ys"
  by (simp add: contracts_of_def List.map_filter_def)

lemma contracts_of_filter:
  "distinct (contracts_of (map f xs)) \<Longrightarrow> distinct (contracts_of (map f (filter P xs)))"
proof (induction xs)
  case (Cons x xs)
  have "set (contracts_of (map f (filter P xs))) \<subseteq> set (contracts_of (map f xs))"
    by (induction xs) (auto split: option.split)
  with Cons show ?case by (auto split: option.splits)
qed simp

lemma normalized_batch: "map_res normalize_contribution cs = Inr ns \<Longrightarrow> c \<in> set ns \<Longrightarrow> normalize_contribution c = Inr c"
  by (auto simp: map_res_Inr_iff list_all2_conv_all_nth in_set_conv_nth dest: normalize_contribution_again)

lemma ui_ok_register:
  assumes "ui_ok g hs" and "register_many plugin cs inst g = (Inr h, g')"
  shows "ui_ok g' (hs @ [h])"
  using assms(2)
proof (cases rule: register_many_cases)
  case (registered h' ns)
  let ?new = "records_of (uh_owner h) (uh_instance h) (ug_sequence g) ns"
  have h [simp]: "h' = h" and act [simp]: "uh_active h" and hk [simp]: "uh_keys h = map contribution_key ns"
    using registered by simp_all
  have recs: "ug_records g' = ug_records g @ ?new" and seq: "ug_sequence g' = ug_sequence g + int (length ns)"
    using registered by simp_all
  have fresh: "set (map contribution_key ns) \<inter> set (jkeys (ug_records g)) = {}"
    using registered(12) by (auto simp: jhas_def)
  then have d: "distinct (jkeys (ug_records g'))"
    using assms(1) registered(11) by (auto simp: recs ui_ok_def)
  have old: "jget (ug_records g') k = Some r" if "jget (ug_records g) k = Some r" for k r
    using that by (simp add: recs map_add_dom_app_simps)
  have new: "\<exists>r. jget (ug_records g') (contribution_key c) = Some r \<and> ur_contribution r = c \<and>
      ur_plugin r = uh_owner h \<and> ur_instance r = uh_instance h" if "c \<in> set ns" for c
  proof -
    have "contribution_key c \<in> fst ` set ?new" using that by (metis image_eqI keys_records_of set_map)
    then obtain r where r: "(contribution_key c, r) \<in> set ?new" by force
    note m = mem_records_of [OF r]
    then have "ur_contribution r = c"
      using that registered(11) by (auto simp: distinct_map dest: inj_onD)
    moreover have "jget (ug_records g') (contribution_key c) = Some r"
      using r by (intro map_of_is_SomeI [OF d]) (simp add: recs)
    ultimately show ?thesis using m by blast
  qed
  have "batch_in g' h" using new registered(10) by (auto simp: batch_in_def)
  moreover have "batch_in g' x" if "x \<in> set hs" "uh_active x" for x
    using that assms(1) old unfolding ui_ok_def batch_in_def by meson
  moreover have "mset (active_keys (hs @ [h])) = mset (jkeys (ug_records g'))"
    using assms(1) by (simp add: ui_ok_def recs)
  moreover have "sorted_wrt (<) (map ur_sequence (jvals (ug_records g')))"
  proof -
    have "x < y" if "x \<in> set (map ur_sequence (jvals (ug_records g)))" "y \<in> set (map ur_sequence (jvals ?new))" for x y
      using that assms(1) mem_records_of unfolding ui_ok_def by fastforce
    then show ?thesis using assms(1) sequences_records_of by (auto simp: recs sorted_wrt_append ui_ok_def)
  qed
  moreover have "distinct (registered_contracts g')"
    using assms(1) registered(13,14) by (auto simp: registered_contracts_alt recs ui_ok_def)
  moreover have "\<forall>(k, r) \<in> set (ug_records g'). k = contribution_key (ur_contribution r) \<and>
        normalize_contribution (ur_contribution r) = Inr (ur_contribution r) \<and>
        validate_contribution (ur_contribution r) = Inr () \<and> ur_sequence r \<le> ug_sequence g'"
    using assms(1) registered(9) normalized_batch [OF registered(2)] mem_records_of
    unfolding ui_ok_def recs seq by fastforce
  ultimately show ?thesis using d unfolding ui_ok_def by auto
qed simp

text \<open>What removing an active handle does.\<close>

lemma unregister_active:
  assumes "ui_ok g hs" and "h \<in> set hs" and "uh_active h" and "unregister h g = (h', g')"
  shows "h' = h\<lparr>uh_active := False\<rparr>" and "ug_sequence g' = ug_sequence g"
    and "ug_records g' = filter (\<lambda>p. fst p \<notin> set (uh_keys h)) (ug_records g)"
    and "ug_revision g' = ug_revision g + (if uh_keys h = [] then 0 else 1)"
proof -
  have "distinct (active_keys hs)"
    using assms(1) unfolding ui_ok_def by (metis mset_eq_imp_distinct_iff)
  then have "distinct (uh_keys h)"
    using assms(2,3) by (induction hs) auto
  moreover have "\<forall>k \<in> set (uh_keys h). \<exists>r. jget (ug_records g) k = Some r \<and> ur_plugin r = uh_owner h \<and> ur_instance r = uh_instance h"
    using assms(1-3) unfolding ui_ok_def batch_in_def by fastforce
  ultimately have f: "foldl (unregister_key (uh_owner h) (uh_instance h)) (g, False) (uh_keys h) =
      (g\<lparr>ug_records := filter (\<lambda>p. fst p \<notin> set (uh_keys h)) (ug_records g)\<rparr>, uh_keys h \<noteq> [])"
    using unregister_keys [of "uh_keys h" g] assms(1) by (simp add: ui_ok_def)
  show "h' = h\<lparr>uh_active := False\<rparr>" and "ug_sequence g' = ug_sequence g"
    and "ug_records g' = filter (\<lambda>p. fst p \<notin> set (uh_keys h)) (ug_records g)"
    and "ug_revision g' = ug_revision g + (if uh_keys h = [] then 0 else 1)"
    using assms(3,4) by (auto simp: unregister_def f)
qed

lemma ui_ok_unregister:
  assumes "ui_ok g (hs1 @ h # hs2)" and "unregister h g = (h', g')"
  shows "ui_ok g' (hs1 @ h' # hs2)"
proof (cases "uh_active h")
  case False
  with assms show ?thesis by (simp add: unregister_def)
next
  case True
  note u = unregister_active [OF assms(1) _ True assms(2), simplified]
  let ?P = "\<lambda>p :: string \<times> ui_record. fst p \<notin> set (uh_keys h)"
  let ?m = "ug_records g"
  have d: "distinct (jkeys ?m)" and ms: "mset (active_keys (hs1 @ h # hs2)) = mset (jkeys ?m)"
    using assms(1) by (simp_all add: ui_ok_def)
  have dk: "distinct (active_keys (hs1 @ h # hs2))" using d ms by (metis mset_eq_imp_distinct_iff)
  have keys: "jkeys (filter ?P ?m) = filter (\<lambda>k. k \<notin> set (uh_keys h)) (jkeys ?m)"
    by (simp add: filter_map o_def)
  have "filter (\<lambda>k. k \<notin> set (uh_keys h)) (active_keys (hs1 @ h # hs2)) = active_keys (hs1 @ h' # hs2)"
  proof -
    have "filter (\<lambda>k. k \<notin> set (uh_keys h)) (active_keys hs1) = active_keys hs1"
      "filter (\<lambda>k. k \<notin> set (uh_keys h)) (active_keys hs2) = active_keys hs2"
      using dk True by (auto intro!: filter_True)
    then show ?thesis using True u(1) by simp
  qed
  then have ms': "mset (active_keys (hs1 @ h' # hs2)) = mset (jkeys (filter ?P ?m))"
    using ms unfolding keys by (metis mset_filter)
  have get: "jget (filter ?P ?m) k = jget ?m k" if "k \<notin> set (uh_keys h)" for k
    using that by (simp add: jget_filter [of "\<lambda>k. k \<notin> set (uh_keys h)"])
  have batch: "batch_in g' x" if x: "x \<in> set (hs1 @ h' # hs2)" "uh_active x" for x
  proof -
    have xin: "x \<in> set hs1 \<union> set hs2" using x u(1) by auto
    then have b: "batch_in g x" using assms(1) x(2) by (auto simp: ui_ok_def)
    have "set (uh_keys x) \<subseteq> set (active_keys (hs1 @ hs2))"
      using xin x(2) by (auto simp: active_keys_def)
    then have "set (uh_keys x) \<inter> set (uh_keys h) = {}" using dk True by auto
    then have same: "jget (ug_records g') k = jget ?m k" if "k \<in> set (uh_keys x)" for k
      unfolding u(3) using that by (intro get) blast
    from b obtain ns where ns: "uh_keys x = map contribution_key ns" "validate_relationships ns = Inr ()"
      and all: "\<forall>c \<in> set ns. \<exists>r. jget ?m (contribution_key c) = Some r \<and> ur_contribution r = c \<and>
        ur_plugin r = uh_owner x \<and> ur_instance r = uh_instance x" unfolding batch_in_def by blast
    have "jget (ug_records g') (contribution_key c) = jget ?m (contribution_key c)" if "c \<in> set ns" for c
      using that ns(1) by (intro same) simp
    with ns all show ?thesis unfolding batch_in_def by (intro exI [of _ ns]) simp
  qed
  have "sorted_wrt (<) (map ur_sequence (jvals (filter ?P ?m)))"
    using assms(1) by (simp add: ui_ok_def sorted_wrt_map sorted_wrt_filter)
  moreover have "distinct (jkeys (filter ?P ?m))" using d by (simp add: keys)
  moreover have "distinct (registered_contracts g')"
    using assms(1) contracts_of_filter [of "\<lambda>p. ur_contribution (snd p)" ?m ?P]
    by (simp add: registered_contracts_alt ui_ok_def u o_def)
  ultimately show ?thesis
    using assms(1) u(2) ms' batch unfolding ui_ok_def u(3) by auto
qed

lemma ui_reachable_ok: "ui_reachable g hs \<Longrightarrow> ui_ok g hs"
proof (induction rule: ui_reachable.induct)
  case ui_start
  show ?case by (simp add: ui_ok_def new_ui_registry_def registered_contracts_def List.map_filter_simps)
next
  case (ui_register g hs plugin cs inst h g')
  then show ?case by (blast intro: ui_ok_register)
next
  case (ui_refuse g hs plugin cs inst e g')
  then show ?case by (auto elim: register_many_cases)
next
  case (ui_unregister g hs1 h hs2 h' g')
  then show ?case by (blast intro: ui_ok_unregister)
qed

section \<open>Properties of the registry\<close>

lemma kind_name_no_colon: "takeWhile (\<lambda>c. c \<noteq> CHR '':'') (kind_name k @ CHR '':'' # s) = kind_name k"
  by (cases k) simp_all

lemma contribution_key_inject:
  "contribution_key c = contribution_key d \<longleftrightarrow> kind_name (uc_kind c) = kind_name (uc_kind d) \<and> uc_id c = uc_id d"
  using kind_name_no_colon [of "uc_kind c" "uc_id c"] kind_name_no_colon [of "uc_kind d" "uc_id d"]
  by (auto simp: contribution_key_def)

lemma distinct_contracts:
  assumes "distinct (contracts_of (map ur_contribution rs))" and "distinct rs" and "r \<in> set rs" and "r' \<in> set rs"
    and "contract_key (uc_kind (ur_contribution r)) = Some k"
    and "contract_key (uc_kind (ur_contribution r')) = Some k"
  shows "r = r'"
proof -
  have mem: "x \<in> set xs \<Longrightarrow> contract_key (uc_kind (ur_contribution x)) = Some k \<Longrightarrow>
      k \<in> set (contracts_of (map ur_contribution xs))" for x xs
    by (induction xs) (auto split: option.splits)
  show ?thesis using assms
    by (induction rs) (auto dest: mem split: option.splits)
qed

lemma sorted_sequences_distinct: "sorted_wrt (<) (map ur_sequence rs) \<Longrightarrow> distinct rs"
  by (induction rs) auto

lemma sorted_sequences_inj:
  "sorted_wrt (<) (map ur_sequence rs) \<Longrightarrow> l \<in> set rs \<Longrightarrow> r \<in> set rs \<Longrightarrow> ur_sequence l = ur_sequence r \<Longrightarrow> l = r"
  by (induction rs) auto

text \<open>However batches are registered, refused and removed, two records of the registry differ in
  kind or id, no two pages share a route and no two themes a theme id, every record is normalised
  and valid, and the sequence numbers grow in the order of registration.\<close>

lemma ui_registry_consistent:
  assumes "ui_reachable g hs" and "(k, r) \<in> set (ug_records g)" and "(k', r') \<in> set (ug_records g)"
  shows "k = contribution_key (ur_contribution r) \<and>
    normalize_contribution (ur_contribution r) = Inr (ur_contribution r) \<and>
    validate_contribution (ur_contribution r) = Inr () \<and> ur_sequence r \<le> ug_sequence g \<and>
    (kind_name (uc_kind (ur_contribution r)) = kind_name (uc_kind (ur_contribution r')) \<and>
       uc_id (ur_contribution r) = uc_id (ur_contribution r') \<longrightarrow> r = r') \<and>
    (\<forall>route x y. uc_kind (ur_contribution r) = Page route x \<and> uc_kind (ur_contribution r') = Page route y \<longrightarrow> r = r') \<and>
    (\<forall>theme a b x y. uc_kind (ur_contribution r) = Theme theme a b \<and> uc_kind (ur_contribution r') = Theme theme x y \<longrightarrow> r = r') \<and>
    sorted_wrt (<) (map ur_sequence (jvals (ug_records g)))"
proof -
  have ok: "ui_ok g hs" by (rule ui_reachable_ok [OF assms(1)])
  then have k: "k = contribution_key (ur_contribution r)" "k' = contribution_key (ur_contribution r')"
    and srt: "sorted_wrt (<) (map ur_sequence (jvals (ug_records g)))"
    and con: "distinct (contracts_of (map ur_contribution (jvals (ug_records g))))"
    using assms(2,3) by (auto simp: ui_ok_def registered_contracts_alt)
  have same: "r = r'" if "k = k'"
    using ok assms(2,3) that unfolding ui_ok_def by (metis mem_jget option.inject)
  have mem: "r \<in> set (jvals (ug_records g))" "r' \<in> set (jvals (ug_records g))"
    using assms(2,3) by force+
  note contract = distinct_contracts [OF con sorted_sequences_distinct [OF srt] mem]
  show ?thesis
    using ok assms(2) k srt same contract unfolding ui_ok_def by (auto simp: contribution_key_inject)
qed

lemma fold_res_unit_Inr: "fold_res (\<lambda>c _. f c) cs () = Inr u \<Longrightarrow> c \<in> set cs \<Longrightarrow> f c = Inr ()"
  by (induction cs) (auto simp: bindr_Inr_iff)

lemma relationship_of:
  "validate_relationships cs = Inr () \<Longrightarrow> c \<in> set cs \<Longrightarrow>
     validate_relationship (command_ids cs) (pages_by_route cs) c = Inr ()"
  unfolding validate_relationships_def by (rule fold_res_unit_Inr)

lemma pages_by_route_mem:
  "jget (pages_by_route cs) route = Some p \<Longrightarrow> p \<in> set cs \<and> (\<exists>x. uc_kind p = Page route x)"
proof -
  have "jget (foldl (\<lambda>m c. case uc_kind c of Page route _ \<Rightarrow> jset route c m | _ \<Rightarrow> m) m cs) route = Some p \<Longrightarrow>
      jget m route = Some p \<or> (p \<in> set cs \<and> (\<exists>x. uc_kind p = Page route x))" for m
  proof (induction cs arbitrary: m)
    case (Cons c cs)
    let ?m = "case uc_kind c of Page route _ \<Rightarrow> jset route c m | _ \<Rightarrow> m"
    have "jget ?m route = Some p \<Longrightarrow> jget m route = Some p \<or> (p = c \<and> (\<exists>x. uc_kind p = Page route x))"
      by (cases "uc_kind c") (auto simp: jget_jset split: if_splits)
    with Cons.IH [of ?m] Cons.prems show ?case by auto
  qed simp
  from this [of "[]"] show "jget (pages_by_route cs) route = Some p \<Longrightarrow> ?thesis" by (simp add: pages_by_route_def)
qed

lemma active_handle_of:
  assumes "ui_ok g hs" and "(k, r) \<in> set (ug_records g)"
  obtains h ns where "h \<in> set hs" "uh_active h" "uh_keys h = map contribution_key ns"
    "validate_relationships ns = Inr ()" "ur_contribution r \<in> set ns"
    "\<forall>c \<in> set ns. \<exists>r'. jget (ug_records g) (contribution_key c) = Some r' \<and> ur_contribution r' = c \<and>
        ur_plugin r' = ur_plugin r \<and> ur_instance r' = ur_instance r"
proof -
  have "k \<in># mset (jkeys (ug_records g))" using assms(2) by force
  then have "k \<in> set (active_keys hs)" using assms(1) unfolding ui_ok_def by (metis set_mset_mset)
  then obtain h where h: "h \<in> set hs" "uh_active h" "k \<in> set (uh_keys h)" by (auto simp: active_keys_def)
  then have "batch_in g h" using assms(1) by (auto simp: ui_ok_def)
  then obtain ns where ns: "uh_keys h = map contribution_key ns" "validate_relationships ns = Inr ()"
    and all: "\<forall>c \<in> set ns. \<exists>r. jget (ug_records g) (contribution_key c) = Some r \<and> ur_contribution r = c \<and>
        ur_plugin r = uh_owner h \<and> ur_instance r = uh_instance h" unfolding batch_in_def by blast
  from h(3) ns(1) obtain c where c: "c \<in> set ns" "k = contribution_key c" by auto
  have "jget (ug_records g) k = Some r" using assms unfolding ui_ok_def by (metis mem_jget)
  with all c have r: "ur_contribution r = c" "ur_plugin r = uh_owner h" "ur_instance r = uh_instance h" by auto
  show thesis using that [OF h(1,2) ns] r c(1) all by metis
qed

text \<open>C17: In every reachable registry the references that the registry checks resolve, whatever was registered and
  removed before: the command of a tray entry or a hotkey and the page of a navigation entry are registered by
  the same plugin instance, and the page offers every host of the navigation entry. The references it does not
  check are not covered: the read and write commands of a settings section or of the settings of a message
  endpoint, the query of a status card, and all handlers, renderers, schemas and resources.\<close>

theorem ui_references_resolve:
  assumes "ui_reachable g hs" and "(k, r) \<in> set (ug_records g)"
  shows "(\<forall>command. uc_kind (ur_contribution r) = Tray_menu command \<or>
        (\<exists>b. uc_kind (ur_contribution r) = Hotkey command b) \<longrightarrow>
      (\<exists>r' a d. jget (ug_records g) (''command:'' @ command) = Some r' \<and>
        uc_kind (ur_contribution r') = Command a d \<and> uc_id (ur_contribution r') = command \<and>
        ur_plugin r' = ur_plugin r \<and> ur_instance r' = ur_instance r)) \<and>
    (\<forall>route. uc_kind (ur_contribution r) = Navigation route \<longrightarrow>
      (\<exists>k' r' x. jget (ug_records g) k' = Some r' \<and> uc_kind (ur_contribution r') = Page route x \<and>
        set (uc_hosts (ur_contribution r)) \<subseteq> set (uc_hosts (ur_contribution r')) \<and>
        ur_plugin r' = ur_plugin r \<and> ur_instance r' = ur_instance r))"
proof -
  obtain h ns where ns: "h \<in> set hs" "uh_active h" "uh_keys h = map contribution_key ns"
    "validate_relationships ns = Inr ()" "ur_contribution r \<in> set ns"
    and all: "\<forall>c \<in> set ns. \<exists>r'. jget (ug_records g) (contribution_key c) = Some r' \<and> ur_contribution r' = c \<and>
        ur_plugin r' = ur_plugin r \<and> ur_instance r' = ur_instance r"
    by (rule active_handle_of [OF ui_reachable_ok [OF assms(1)] assms(2)])
  note rel = relationship_of [OF ns(4,5)]
  have command: "\<exists>r' a d. jget (ug_records g) (''command:'' @ command) = Some r' \<and>
        uc_kind (ur_contribution r') = Command a d \<and> uc_id (ur_contribution r') = command \<and>
        ur_plugin r' = ur_plugin r \<and> ur_instance r' = ur_instance r"
    if "command \<in> set (command_ids ns)" for command
  proof -
    from that obtain c where c: "c \<in> set ns" "is_command (uc_kind c)" "uc_id c = command"
      by (auto simp: command_ids_def)
    then obtain a d where "uc_kind c = Command a d" by (cases "uc_kind c") auto
    moreover from this c have "contribution_key c = ''command:'' @ command" by (simp add: contribution_key_def)
    ultimately show ?thesis using all c by metis
  qed
  have page: "\<exists>k' r' x. jget (ug_records g) k' = Some r' \<and> uc_kind (ur_contribution r') = Page route x \<and>
        set (uc_hosts (ur_contribution r)) \<subseteq> set (uc_hosts (ur_contribution r')) \<and>
        ur_plugin r' = ur_plugin r \<and> ur_instance r' = ur_instance r"
    if "uc_kind (ur_contribution r) = Navigation route" for route
  proof -
    from rel that obtain p where p: "jget (pages_by_route ns) route = Some p"
      "set (uc_hosts (ur_contribution r)) \<subseteq> set (uc_hosts p)"
      by (auto simp: validate_relationship_def list_ex_iff split: option.splits if_splits)
    from pages_by_route_mem [OF p(1)] all p(2) show ?thesis by metis
  qed
  have "command \<in> set (command_ids ns)" if "uc_kind (ur_contribution r) = Tray_menu command \<or>
        (\<exists>b. uc_kind (ur_contribution r) = Hotkey command b)" for command
    using rel that by (auto simp: validate_relationship_def split: if_splits)
  with command page show ?thesis by blast
qed

text \<open>A registration is all or nothing. A refused batch leaves the registry as it was; an accepted
  one appends the normalised contributions in their order, gives them the owner and the next
  sequence numbers, and counts as one revision.\<close>

lemma register_all_or_nothing:
  assumes "register_many plugin cs inst g = (x, g')"
  shows "case x of
      Inl _ \<Rightarrow> g' = g
    | Inr h \<Rightarrow> \<exists>ns. map_res normalize_contribution cs = Inr ns \<and> uh_keys h = map contribution_key ns \<and>
        length ns = length cs \<and>
        (\<exists>added. ug_records g' = ug_records g @ added \<and> map ur_contribution (jvals added) = ns \<and>
           jkeys added = uh_keys h \<and>
           (\<forall>r \<in> set (jvals added). ur_plugin r = js_trim plugin \<and> ur_instance r = js_trim inst \<and>
              ug_sequence g < ur_sequence r)) \<and>
        ug_sequence g' = ug_sequence g + int (length cs) \<and>
        ug_revision g' = ug_revision g + (if cs = [] then 0 else 1)"
  using assms
proof (cases rule: register_many_cases)
  case (registered h ns)
  have len: "length ns = length cs" using registered(2) by (rule map_res_Inr_length)
  let ?added = "records_of (uh_owner h) (uh_instance h) (ug_sequence g) ns"
  have "\<forall>r \<in> set (jvals ?added). ur_plugin r = js_trim plugin \<and> ur_instance r = js_trim inst \<and>
      ug_sequence g < ur_sequence r"
    using mem_records_of [of _ _ "uh_owner h" "uh_instance h" "ug_sequence g" ns] registered(3,4) by fastforce
  then show ?thesis
    using registered(1,2,7,15) len
    by (auto intro!: exI [of _ ns] exI [of _ ?added])
qed simp

text \<open>Calling the function a registration returned removes exactly the records of that batch,
  keeps all others in their order, and a second call changes nothing.\<close>

lemma unregister_exact:
  assumes "ui_reachable g hs" and "h \<in> set hs" and "uh_active h" and "unregister h g = (h', g')"
  shows "ug_records g' = filter (\<lambda>p. fst p \<notin> set (uh_keys h)) (ug_records g) \<and>
    set (uh_keys h) \<subseteq> set (jkeys (ug_records g)) \<and>
    ug_revision g' = ug_revision g + (if uh_keys h = [] then 0 else 1) \<and>
    unregister h' g'' = (h', g'')"
proof -
  have ok: "ui_ok g hs" by (rule ui_reachable_ok [OF assms(1)])
  note u = unregister_active [OF ok assms(2-4)]
  have "set (uh_keys h) \<subseteq> set (active_keys hs)" using assms(2,3) by (auto simp: active_keys_def)
  also have "\<dots> = set (jkeys (ug_records g))" using ok unfolding ui_ok_def by (metis set_mset_mset)
  finally show ?thesis using u by (simp add: unregister_def)
qed

lemma catalog_strict:
  assumes "sorted_wrt catalog_le xs" and "distinct xs"
    and "\<And>l r. l \<in> set xs \<Longrightarrow> r \<in> set xs \<Longrightarrow> l \<noteq> r \<Longrightarrow> ur_sequence l \<noteq> ur_sequence r"
  shows "sorted_wrt (\<lambda>l r. order_value l < order_value r \<or>
      (order_value l = order_value r \<and> ur_sequence l < ur_sequence r)) xs"
  using assms
proof (induction xs)
  case (Cons x xs)
  have "order_value x < order_value y \<or> (order_value x = order_value y \<and> ur_sequence x < ur_sequence y)"
    if y: "y \<in> set xs" for y
  proof -
    have "catalog_le x y" "x \<noteq> y" using Cons.prems(1,2) y by auto
    with Cons.prems(3) [of x y] y show ?thesis by (auto simp: catalog_le_def)
  qed
  moreover have "sorted_wrt (\<lambda>l r. order_value l < order_value r \<or>
      (order_value l = order_value r \<and> ur_sequence l < ur_sequence r)) xs"
    using Cons by simp
  ultimately show ?case by simp
qed simp

text \<open>The catalogue for a host holds exactly the records that offer that host, all of them when no
  host is named, sorted by their order and, among equal orders, by the order of registration, with
  no ties; asking for it changes nothing.\<close>

lemma catalog_exact:
  assumes "ui_reachable g hs"
  shows "catalog host g = (ug_revision g,
      map (\<lambda>r. (ur_contribution r, ur_plugin r, ur_instance r)) (catalog_records host g)) \<and>
    mset (catalog_records host g) =
      mset (filter (\<lambda>r. \<not> truthy host \<or> the host \<in> set (uc_hosts (ur_contribution r))) (jvals (ug_records g))) \<and>
    sorted_wrt (\<lambda>l r. order_value l < order_value r \<or> (order_value l = order_value r \<and> ur_sequence l < ur_sequence r))
      (catalog_records host g)"
proof -
  let ?rs = "filter (\<lambda>r. \<not> truthy host \<or> the host \<in> set (uc_hosts (ur_contribution r))) (jvals (ug_records g))"
  have srt: "sorted_wrt (<) (map ur_sequence (jvals (ug_records g)))"
    using ui_reachable_ok [OF assms] by (simp add: ui_ok_def)
  have inj: "ur_sequence l \<noteq> ur_sequence r" if "l \<in> set ?rs" "r \<in> set ?rs" "l \<noteq> r" for l r
    using sorted_sequences_inj [OF srt, of l r] that by (auto simp del: set_map)
  have d: "distinct (js_sort catalog_le ?rs)"
    using sorted_sequences_distinct [OF srt] by simp
  have "sorted_wrt catalog_le (js_sort catalog_le ?rs)"
    by (rule sorted_js_sort) (auto simp: catalog_le_def)
  from catalog_strict [OF this d] inj
  have "sorted_wrt (\<lambda>l r. order_value l < order_value r \<or> (order_value l = order_value r \<and> ur_sequence l < ur_sequence r))
      (js_sort catalog_le ?rs)" by simp
  then show ?thesis by (simp add: catalog_def catalog_records_def)
qed

text \<open>What normalisation returns is in normal form: normalising it again returns it unchanged, its
  id, surface and slot are non-empty symbols without white space around them, and its label is
  trimmed and not empty.\<close>

lemma normalize_contribution_normal:
  assumes "normalize_contribution v = Inr n"
  shows "normalize_contribution n = Inr n \<and> is_symbol (uc_id n) \<and> is_symbol (uc_surface n) \<and>
    is_symbol (uc_slot n) \<and> uc_label n \<noteq> [] \<and> js_trim (uc_label n) = uc_label n \<and> js_trim (uc_id n) = uc_id n \<and>
    uc_order n = uc_order v \<and> kind_name (uc_kind n) = kind_name (uc_kind v)"
proof -
  have sym: "is_symbol y \<and> js_trim y = y" if "normalize_symbol x f = Inr y" for x f y
    using that by (auto simp: normalize_symbol_def bindr_Inr_iff normalize_identity_Inr split: if_splits)
  have kind: "kind_name y = kind_name x" if "normalize_kind i x = Inr y" for i x y
    using that by (cases x) (auto simp: bindr_Inr_iff)
  from assms show ?thesis
    using normalize_contribution_again [OF assms]
    unfolding normalize_contribution_def [of v] bindr_Inr_iff
    by (elim exE conjE) (auto dest!: sym kind simp: normalize_identity_Inr)
qed

section \<open>The properties on a concrete batch\<close>

definition ui_item :: "string \<Rightarrow> ui_kind \<Rightarrow> ui_contribution" where
  "ui_item i k = \<lparr>uc_id = i, uc_label_key = None, uc_label = ''L'', uc_hosts = [''web''], uc_surface = ''s'',
     uc_slot = ''t'', uc_order = Some (Num_int 2), uc_icon = None, uc_capabilities = None, uc_kind = k\<rparr>"

definition ui_batch :: "ui_contribution list" where
  "ui_batch = [ui_item '' p '' (Page ''r'' ''x''), ui_item ''n'' (Navigation ''r''), ui_item ''c'' (Command ''h'' None),
     ui_item ''y'' (Tray_menu ''c'')]"

definition ui_registered :: ui_registry where
  "ui_registered = snd (register_many ''pl'' ui_batch ''in'' new_ui_registry)"

definition ui_batch_handle :: ui_handle where
  "ui_batch_handle = \<lparr>uh_owner = ''pl'', uh_instance = ''in'',
     uh_keys = [''page:p'', ''navigation:n'', ''command:c'', ''tray-menu:y''], uh_active = True\<rparr>"

lemma ui_batch_registers:
  "register_many ''pl'' ui_batch ''in'' new_ui_registry = (Inr ui_batch_handle, ui_registered)"
proof -
  have "fst (register_many ''pl'' ui_batch ''in'' new_ui_registry) = Inr ui_batch_handle" by code_simp
  then show ?thesis by (simp add: ui_registered_def prod_eq_iff)
qed

lemma ui_registered_reachable: "ui_reachable ui_registered [ui_batch_handle]"
  using ui_register [OF ui_start ui_batch_registers] by simp

lemma ui_registered_members:
  "ur_instance (the (jget (ug_records ui_registered) ''tray-menu:y'')) = ''in''"
  "uc_kind (ur_contribution (the (jget (ug_records ui_registered) ''tray-menu:y''))) = Tray_menu ''c''"
  "jhas (ug_records ui_registered) ''tray-menu:y''" "length (ug_records ui_registered) = 4"
  by code_simp+

lemma ui_tray_member: "(''tray-menu:y'', the (jget (ug_records ui_registered) ''tray-menu:y'')) \<in> set (ug_records ui_registered)"
  using ui_registered_members(3) by (auto simp: jhas_get dest: map_of_SomeD)

lemma ui_registry_consistent_witness:
  "normalize_contribution (ur_contribution (the (jget (ug_records ui_registered) ''tray-menu:y''))) =
     Inr (ur_contribution (the (jget (ug_records ui_registered) ''tray-menu:y'')))"
  using ui_registry_consistent [OF ui_registered_reachable ui_tray_member ui_tray_member] by blast

lemma ui_references_resolve_witness:
  "\<exists>r a d. jget (ug_records ui_registered) ''command:c'' = Some r \<and> uc_kind (ur_contribution r) = Command a d \<and>
     ur_instance r = ''in''"
proof -
  from ui_references_resolve [OF ui_registered_reachable ui_tray_member, THEN conjunct1, rule_format, of "''c''"]
    ui_registered_members(1,2)
  show ?thesis by auto
qed

lemma register_all_or_nothing_witness: "ug_revision ui_registered = 1 \<and> ug_sequence ui_registered = 4"
  using register_all_or_nothing [OF ui_batch_registers] by (auto simp: new_ui_registry_def ui_batch_def)

lemma unregister_exact_witness: "ug_records (snd (unregister ui_batch_handle ui_registered)) =
  filter (\<lambda>p. fst p \<notin> set (uh_keys ui_batch_handle)) (ug_records ui_registered)"
proof -
  obtain h' g' where u: "unregister ui_batch_handle ui_registered = (h', g')" by force
  have "ui_batch_handle \<in> set [ui_batch_handle]" "uh_active ui_batch_handle" by (simp_all add: ui_batch_handle_def)
  from unregister_exact [OF ui_registered_reachable this u] show ?thesis by (simp add: u)
qed

lemma catalog_exact_witness: "size (mset (catalog_records None ui_registered)) = 4"
  using catalog_exact [OF ui_registered_reachable, of None] ui_registered_members(4)
  by (simp add: truthy_def)

lemma normalize_contribution_normal_witness:
  "is_symbol (uc_id (case normalize_contribution (ui_item '' p '' (Page ''r'' ''x'')) of Inr n \<Rightarrow> n))"
proof -
  have e: "normalize_contribution (ui_item '' p '' (Page ''r'' ''x'')) = Inr (ui_item ''p'' (Page ''r'' ''x''))"
    by code_simp
  from normalize_contribution_normal [OF e] show ?thesis by (simp add: e)
qed

end
