(* ===== verification/FailureCircuit.thy ===== *)
theory FailureCircuit
  imports Prelude
begin

text \<open>
  \<open>src/runtime/failureCircuit.ts\<close>: the circuit breaker that backs off from a failing operation and
  opens an incident after a number of equal failures. Times are milliseconds. The file is the JSON
  value it holds; the flag \<open>wok\<close> tells whether a write succeeds. The products of the delay are
  exact, which they are in the code for delays below 2 to the 53.
\<close>

section \<open>Data\<close>

datatype circuit_phase = Backoff | Incident

record failure_state =
  fs_signature :: string
  fs_consecutive :: int
  fs_first :: int
  fs_last :: int
  fs_retry :: int
  fs_reported :: int
  fs_incident :: "string option"

record circuit_snapshot =
  cs_key :: string
  cs_phase :: circuit_phase
  cs_signature :: string
  cs_consecutive :: int
  cs_first :: int
  cs_last :: int
  cs_retry :: int
  cs_incident :: "string option"

record circuit_decision =
  cd_snapshot :: circuit_snapshot
  cd_delay :: int
  cd_report :: bool
  cd_opened :: bool

record circuit_summary =
  sm_backoff :: nat
  sm_incidents :: nat
  sm_next_retry :: "int option"

text \<open>A thrown value: an \<open>Error\<close> with its name, code and message, or anything else as a string.\<close>

datatype thrown = Thrown_error string "string option" string | Thrown_other string

record circuit_options =
  co_base :: int
  co_maximum :: int
  co_threshold :: int
  co_report_interval :: "int option"
  co_path :: bool

record circuit =
  ci_base :: int
  ci_maximum :: int
  ci_threshold :: int
  ci_report_interval :: int
  ci_path :: bool
  ci_states :: "(string, failure_state) jmap"
  ci_file :: "json option"
  ci_error_reported :: bool
  ci_errors :: nat

section \<open>Signatures\<close>

text \<open>\<open>[^\s;]+\<close>.\<close>

definition path_char :: "char \<Rightarrow> bool" where
  "path_char c \<longleftrightarrow> \<not> js_space c \<and> c \<noteq> CHR '';''"

definition is_letter :: "char \<Rightarrow> bool" where
  "is_letter c \<longleftrightarrow> is_lower c \<or> is_upper c"

text \<open>\<open>replace(/[A-Za-z]:[\\/][^\s;]+/g, "<path>")\<close> and \<open>replace(/\\\\[^\s;]+/g, "<unc>")\<close>:
  the leftmost match first, each as long as it can be.\<close>

definition starts_path :: "string \<Rightarrow> bool" where
  "starts_path s = (case s of a # b # c # d # _ \<Rightarrow>
       is_letter a \<and> b = CHR '':'' \<and> (c = CHR 0x5C \<or> c = CHR ''/'') \<and> path_char d | _ \<Rightarrow> False)"

definition starts_unc :: "string \<Rightarrow> bool" where
  "starts_unc s = (case s of a # b # c # _ \<Rightarrow> a = CHR 0x5C \<and> b = CHR 0x5C \<and> path_char c | _ \<Rightarrow> False)"

function replace_paths :: "string \<Rightarrow> string" where
  "replace_paths s =
     (if s = [] then []
      else if starts_path s then ''<path>'' @ replace_paths (dropWhile path_char (drop 3 s))
      else hd s # replace_paths (tl s))"
  by pat_completeness auto
termination
proof (relation "measure length", goal_cases)
  case (2 s)
  have "length (dropWhile path_char (drop 3 s)) \<le> length (drop 3 s)" by (rule length_dropWhile_le)
  with 2 show ?case by (auto simp: starts_path_def split: list.splits)
qed auto

function replace_unc :: "string \<Rightarrow> string" where
  "replace_unc s =
     (if s = [] then []
      else if starts_unc s then ''<unc>'' @ replace_unc (dropWhile path_char (drop 2 s))
      else hd s # replace_unc (tl s))"
  by pat_completeness auto
termination
proof (relation "measure length", goal_cases)
  case (2 s)
  have "length (dropWhile path_char (drop 2 s)) \<le> length (drop 2 s)" by (rule length_dropWhile_le)
  with 2 show ?case by (auto simp: starts_unc_def split: list.splits)
qed auto

declare replace_paths.simps [simp del] replace_unc.simps [simp del]

definition normalized_error :: "thrown \<Rightarrow> string" where
  "normalized_error e =
     (case e of
        Thrown_error name code message \<Rightarrow>
          replace_unc (replace_paths (name @ [CHR 0x1F] @ (case code of None \<Rightarrow> [] | Some c \<Rightarrow> c) @
            [CHR 0x1F] @ message))
      | Thrown_other s \<Rightarrow> s)"

text \<open>\<open>sha\<close> is the hexadecimal SHA-256 of a text.\<close>

definition failure_signature :: "(string \<Rightarrow> string) \<Rightarrow> thrown \<Rightarrow> string" where
  "failure_signature sha e = js_take 24 (sha (normalized_error e))"

definition storage_key :: "(string \<Rightarrow> string) \<Rightarrow> string \<Rightarrow> string" where
  "storage_key sha k = js_take 32 (sha k)"

definition snapshot_of :: "string \<Rightarrow> failure_state \<Rightarrow> int \<Rightarrow> circuit_snapshot" where
  "snapshot_of k s threshold =
     \<lparr>cs_key = k, cs_phase = (if threshold \<le> fs_consecutive s then Incident else Backoff),
      cs_signature = fs_signature s, cs_consecutive = fs_consecutive s, cs_first = fs_first s,
      cs_last = fs_last s, cs_retry = fs_retry s,
      cs_incident = (if fs_incident s = Some [] then None else fs_incident s)\<rparr>"

section \<open>The file\<close>

definition state_json :: "failure_state \<Rightarrow> json" where
  "state_json s =
     JObj ([(''signature'', JStr (fs_signature s)), (''consecutiveFailures'', JNum (fs_consecutive s)),
       (''firstFailureAt'', JNum (fs_first s)), (''lastFailureAt'', JNum (fs_last s)),
       (''retryAt'', JNum (fs_retry s)), (''lastReportedAt'', JNum (fs_reported s))] @
       (case fs_incident s of None \<Rightarrow> [] | Some i \<Rightarrow> [(''incidentId'', JStr i)]))"

definition circuit_json :: "string \<Rightarrow> (string, failure_state) jmap \<Rightarrow> json" where
  "circuit_json updated states =
     JObj [(''schemaVersion'', JNum 1), (''updatedAt'', JStr updated),
       (''states'', JObj (map (\<lambda>(k, s). (k, state_json s)) states))]"

text \<open>\<open>/^[a-f0-9]{32}$/\<close>.\<close>

definition hex_char :: "char \<Rightarrow> bool" where
  "hex_char c \<longleftrightarrow> is_digit c \<or> (CHR ''a'' \<le> c \<and> c \<le> CHR ''f'')"

definition storage_key_valid :: "string \<Rightarrow> bool" where
  "storage_key_valid k \<longleftrightarrow> int (length k) = 32 \<and> list_all hex_char k"

fun number_field :: "string \<Rightarrow> (string \<times> json) list \<Rightarrow> int option" where
  "number_field f flds = (case jget flds f of Some (JNum n) \<Rightarrow> Some n | _ \<Rightarrow> None)"

fun string_field :: "string \<Rightarrow> (string \<times> json) list \<Rightarrow> string option" where
  "string_field f flds = (case jget flds f of Some (JStr n) \<Rightarrow> Some n | _ \<Rightarrow> None)"

text \<open>The entry of a state: skipped unless its fields have the right types. An incident id that is
  not a string is dropped.\<close>

definition restore_state :: "string \<times> json \<Rightarrow> (string \<times> failure_state) option" where
  "restore_state e =
     (case e of (k, v) \<Rightarrow>
        if \<not> storage_key_valid k then None
        else (case v of
            JObj flds \<Rightarrow>
              (case (string_field ''signature'' flds, number_field ''consecutiveFailures'' flds,
                  number_field ''firstFailureAt'' flds, number_field ''lastFailureAt'' flds,
                  number_field ''retryAt'' flds, number_field ''lastReportedAt'' flds) of
                 (Some sig, Some n, Some since, Some latest, Some retry, Some reported) \<Rightarrow>
                   Some (k, \<lparr>fs_signature = sig, fs_consecutive = n, fs_first = since, fs_last = latest,
                     fs_retry = retry, fs_reported = reported, fs_incident = string_field ''incidentId'' flds\<rparr>)
               | _ \<Rightarrow> None)
          | _ \<Rightarrow> None))"

text \<open>None when the schema is refused.\<close>

definition restore_states :: "json \<Rightarrow> (string, failure_state) jmap option" where
  "restore_states v =
     (case v of
        JObj flds \<Rightarrow>
          if jget flds ''schemaVersion'' \<noteq> Some (JNum 1) then None
          else (case jget flds ''states'' of
              Some (JObj entries) \<Rightarrow>
                Some (foldl (\<lambda>m e. jset (fst e) (snd e) m) [] (List.map_filter restore_state entries))
            | Some (JArr _) \<Rightarrow> Some []
            | _ \<Rightarrow> None)
      | _ \<Rightarrow> None)"

definition new_circuit :: "circuit_options \<Rightarrow> json option \<Rightarrow> circuit" where
  "new_circuit opts file =
     (let base = max 1 (co_base opts); maximum = max base (co_maximum opts);
          c = \<lparr>ci_base = base, ci_maximum = maximum, ci_threshold = max 2 (co_threshold opts),
               ci_report_interval = max base (case co_report_interval opts of None \<Rightarrow> maximum | Some i \<Rightarrow> i),
               ci_path = co_path opts, ci_states = [], ci_file = file, ci_error_reported = False, ci_errors = 0\<rparr>
      in if \<not> co_path opts then c
         else case file of
           None \<Rightarrow> c
         | Some v \<Rightarrow> (case restore_states v of
               None \<Rightarrow> c\<lparr>ci_errors := 1, ci_error_reported := True\<rparr>
             | Some m \<Rightarrow> c\<lparr>ci_states := m\<rparr>))"

definition circuit_persist :: "bool \<Rightarrow> string \<Rightarrow> circuit \<Rightarrow> circuit" where
  "circuit_persist wok updated c =
     (if \<not> ci_path c then c
      else if wok then c\<lparr>ci_file := Some (circuit_json updated (ci_states c))\<rparr>
      else if ci_error_reported c then c
      else c\<lparr>ci_error_reported := True, ci_errors := ci_errors c + 1\<rparr>)"

section \<open>Operations\<close>

definition can_attempt :: "(string \<Rightarrow> string) \<Rightarrow> int \<Rightarrow> string \<Rightarrow> circuit \<Rightarrow> bool" where
  "can_attempt sha now k c =
     (case jget (ci_states c) (storage_key sha k) of None \<Rightarrow> True | Some s \<Rightarrow> fs_retry s \<le> now)"

definition next_retry_at :: "(string \<Rightarrow> string) \<Rightarrow> string \<Rightarrow> circuit \<Rightarrow> int option" where
  "next_retry_at sha k c = map_option fs_retry (jget (ci_states c) (storage_key sha k))"

definition backoff_delay :: "circuit \<Rightarrow> int \<Rightarrow> int" where
  "backoff_delay c n = min (ci_maximum c) (ci_base c * 2 ^ nat (min 30 (n - 1)))"

definition incident_id :: "(string \<Rightarrow> string) \<Rightarrow> string \<Rightarrow> string \<Rightarrow> int \<Rightarrow> string" where
  "incident_id sha k sig first =
     js_take 24 (sha (k @ [CHR 0x1F] @ sig @ [CHR 0x1F] @ int_str first))"

text \<open>The state of the key after a failure, and what is reported about it.\<close>

definition failed_state ::
  "(string \<Rightarrow> string) \<Rightarrow> int \<Rightarrow> string \<Rightarrow> string \<Rightarrow> failure_state option \<Rightarrow> circuit \<Rightarrow> failure_state \<times> circuit_decision" where
  "failed_state sha at k sig previous c =
     (let s0 = (case previous of
            Some p \<Rightarrow> if fs_signature p = sig then p
              else \<lparr>fs_signature = sig, fs_consecutive = 0, fs_first = at, fs_last = at, fs_retry = at,
                    fs_reported = 0, fs_incident = None\<rparr>
          | None \<Rightarrow> \<lparr>fs_signature = sig, fs_consecutive = 0, fs_first = at, fs_last = at, fs_retry = at,
                    fs_reported = 0, fs_incident = None\<rparr>);
          n = fs_consecutive s0 + 1;
          delay = backoff_delay c n;
          opened = (n = ci_threshold c);
          report = (n = 1 \<or> opened \<or> ci_report_interval c \<le> at - fs_reported s0);
          s = s0\<lparr>fs_consecutive := n, fs_last := at, fs_retry := at + delay,
                 fs_reported := (if report then at else fs_reported s0),
                 fs_incident := (if opened then Some (incident_id sha k sig (fs_first s0)) else fs_incident s0)\<rparr>
      in (s, \<lparr>cd_snapshot = snapshot_of k s (ci_threshold c), cd_delay = delay, cd_report = report,
              cd_opened = opened\<rparr>))"

definition record_failure ::
  "(string \<Rightarrow> string) \<Rightarrow> int \<Rightarrow> bool \<Rightarrow> string \<Rightarrow> string \<Rightarrow> thrown \<Rightarrow> circuit \<Rightarrow> circuit_decision \<times> circuit" where
  "record_failure sha at wok updated k e c =
     (let sig = failure_signature sha e; key = storage_key sha k;
          (s, d) = failed_state sha at k sig (jget (ci_states c) key) c
      in (d, circuit_persist wok updated (c\<lparr>ci_states := jset key s (ci_states c)\<rparr>)))"

definition record_success :: "(string \<Rightarrow> string) \<Rightarrow> bool \<Rightarrow> string \<Rightarrow> string \<Rightarrow> circuit \<Rightarrow> circuit" where
  "record_success sha wok updated k c =
     (let key = storage_key sha k; c' = c\<lparr>ci_states := jdel key (ci_states c)\<rparr> in
      if jhas (ci_states c) key then circuit_persist wok updated c' else c')"

definition reset_circuit :: "(string \<Rightarrow> string) \<Rightarrow> bool \<Rightarrow> string \<Rightarrow> string option \<Rightarrow> circuit \<Rightarrow> circuit" where
  "reset_circuit sha wok updated k c =
     (case k of
        None \<Rightarrow> let c' = c\<lparr>ci_states := []\<rparr> in
          if ci_states c \<noteq> [] then circuit_persist wok updated c' else c'
      | Some x \<Rightarrow> let key = storage_key sha x; c' = c\<lparr>ci_states := jdel key (ci_states c)\<rparr> in
          if jhas (ci_states c) key then circuit_persist wok updated c' else c')"

definition retain_keys :: "(string \<Rightarrow> string) \<Rightarrow> bool \<Rightarrow> string \<Rightarrow> string list \<Rightarrow> circuit \<Rightarrow> circuit" where
  "retain_keys sha wok updated ks c =
     (let retained = map (storage_key sha) ks;
          c' = c\<lparr>ci_states := filter (\<lambda>p. fst p \<in> set retained) (ci_states c)\<rparr>
      in if list_all (\<lambda>k. k \<in> set retained) (jkeys (ci_states c)) then c
         else circuit_persist wok updated c')"

definition inspect_circuit :: "(string \<Rightarrow> string) \<Rightarrow> string \<Rightarrow> circuit \<Rightarrow> circuit_snapshot option" where
  "inspect_circuit sha k c =
     map_option (\<lambda>s. snapshot_of k s (ci_threshold c)) (jget (ci_states c) (storage_key sha k))"

definition summarize :: "int \<Rightarrow> circuit_summary \<Rightarrow> failure_state \<Rightarrow> circuit_summary" where
  "summarize threshold sm s =
     (let sm1 = (if threshold \<le> fs_consecutive s then sm\<lparr>sm_incidents := sm_incidents sm + 1\<rparr>
                 else sm\<lparr>sm_backoff := sm_backoff sm + 1\<rparr>)
      in sm1\<lparr>sm_next_retry := Some (case sm_next_retry sm of None \<Rightarrow> fs_retry s | Some t \<Rightarrow> min t (fs_retry s))\<rparr>)"

definition circuit_summary_of :: "circuit \<Rightarrow> circuit_summary" where
  "circuit_summary_of c =
     foldl (summarize (ci_threshold c)) \<lparr>sm_backoff = 0, sm_incidents = 0, sm_next_retry = None\<rparr>
       (jvals (ci_states c))"

section \<open>Restoring what was written\<close>

lemma restore_state_json:
  "restore_state (k, state_json s) = (if storage_key_valid k then Some (k, s) else None)"
  by (cases "fs_incident s") (simp_all add: restore_state_def state_json_def)

lemma map_filter_restore:
  "List.map_filter restore_state (map (\<lambda>(k, s). (k, state_json s)) m) = filter (\<lambda>p. storage_key_valid (fst p)) m"
  by (induction m) (auto simp: List.map_filter_simps restore_state_json)

lemma foldl_jset_append:
  "distinct (jkeys (acc @ m)) \<Longrightarrow> foldl (\<lambda>m e. jset (fst e) (snd e) m) acc m = acc @ m"
proof (induction m arbitrary: acc)
  case (Cons p m)
  then have "\<not> jhas acc (fst p)" by (auto simp: jhas_def)
  then have "jset (fst p) (snd p) acc = acc @ [p]" by (simp add: jset_fresh)
  with Cons.IH [of "acc @ [p]"] Cons.prems show ?case by simp
qed simp

lemma restore_circuit_json:
  assumes "distinct (jkeys m)"
  shows "restore_states (circuit_json u m) = Some (filter (\<lambda>p. storage_key_valid (fst p)) m)"
proof -
  have "distinct (jkeys (filter (\<lambda>p. storage_key_valid (fst p)) m))"
    using assms by (simp add: distinct_map_filter)
  then show ?thesis
    using foldl_jset_append [of "[]" "filter (\<lambda>p. storage_key_valid (fst p)) m"]
    by (simp add: restore_states_def circuit_json_def map_filter_restore)
qed

lemma circuit_persist_simps [simp]:
  "ci_states (circuit_persist wok u c) = ci_states c" "ci_base (circuit_persist wok u c) = ci_base c"
  "ci_maximum (circuit_persist wok u c) = ci_maximum c" "ci_threshold (circuit_persist wok u c) = ci_threshold c"
  "ci_report_interval (circuit_persist wok u c) = ci_report_interval c" "ci_path (circuit_persist wok u c) = ci_path c"
  by (simp_all add: circuit_persist_def)

lemma storage_key_valid_sha:
  assumes "32 \<le> int (length (sha t))" and "list_all hex_char (sha t)"
  shows "storage_key_valid (storage_key sha t)"
proof -
  have "length (js_take n xs) = nat (min n (int (length xs)))" if "0 \<le> n" for n and xs :: string
    using that by (induction n xs rule: js_take.induct) (auto simp: min_def nat_diff_distrib')
  moreover have "list_all P xs \<Longrightarrow> list_all P (js_take n xs)" for P n and xs :: string
    by (induction n xs rule: js_take.induct) auto
  ultimately show ?thesis using assms by (simp add: storage_key_valid_def storage_key_def)
qed

text \<open>A circuit that is written and read back by a circuit with the same options has the same
  states, so that backoff and incidents survive a restart; \<open>sha\<close> returns hexadecimal digests.\<close>

lemma circuit_file_roundtrip:
  assumes "distinct (jkeys (ci_states c))" and "ci_path c" and "co_path opts"
    and "\<forall>k \<in> set (jkeys (ci_states c)). \<exists>t. k = storage_key sha t"
    and "\<forall>t. 32 \<le> int (length (sha t)) \<and> list_all hex_char (sha t)"
  shows "ci_states (new_circuit opts (ci_file (circuit_persist True updated c))) = ci_states c"
proof -
  have "filter (\<lambda>p. storage_key_valid (fst p)) (ci_states c) = ci_states c"
    using assms(4,5) storage_key_valid_sha by (intro filter_True) fastforce
  then show ?thesis
    using restore_circuit_json [OF assms(1), of updated] assms(2,3)
    by (simp add: new_circuit_def circuit_persist_def Let_def)
qed

section \<open>Invariant\<close>

definition state_ok :: "circuit \<Rightarrow> failure_state \<Rightarrow> bool" where
  "state_ok c s \<longleftrightarrow> 1 \<le> fs_consecutive s \<and> fs_retry s = fs_last s + backoff_delay c (fs_consecutive s) \<and>
     (fs_incident s \<noteq> None \<longleftrightarrow> ci_threshold c \<le> fs_consecutive s)"

definition states_ok :: "circuit \<Rightarrow> (string, failure_state) jmap \<Rightarrow> bool" where
  "states_ok c m \<longleftrightarrow> distinct (jkeys m) \<and> (\<forall>s \<in> set (jvals m). state_ok c s)"

definition circuit_ok :: "circuit_options \<Rightarrow> circuit \<Rightarrow> bool" where
  "circuit_ok opts c \<longleftrightarrow>
     ci_base c = max 1 (co_base opts) \<and> ci_maximum c = max (ci_base c) (co_maximum opts) \<and>
     ci_threshold c = max 2 (co_threshold opts) \<and> ci_path c = co_path opts \<and>
     states_ok c (ci_states c) \<and>
     (ci_file c = None \<or> (\<exists>u m. ci_file c = Some (circuit_json u m) \<and> states_ok c m))"

text \<open>The life of a circuit with given options: it starts without a file, its operations run with
  writes that succeed or fail, and it may be created again from the file it left.\<close>

inductive circuit_reachable :: "(string \<Rightarrow> string) \<Rightarrow> circuit_options \<Rightarrow> circuit \<Rightarrow> bool" for sha opts where
  circuit_start: "circuit_reachable sha opts (new_circuit opts None)"
| circuit_failure: "circuit_reachable sha opts c \<Longrightarrow> record_failure sha at wok u k e c = (d, c') \<Longrightarrow>
     circuit_reachable sha opts c'"
| circuit_success: "circuit_reachable sha opts c \<Longrightarrow> circuit_reachable sha opts (record_success sha wok u k c)"
| circuit_reset: "circuit_reachable sha opts c \<Longrightarrow> circuit_reachable sha opts (reset_circuit sha wok u x c)"
| circuit_retain: "circuit_reachable sha opts c \<Longrightarrow> circuit_reachable sha opts (retain_keys sha wok u ks c)"
| circuit_restart: "circuit_reachable sha opts c \<Longrightarrow> circuit_reachable sha opts (new_circuit opts (ci_file c))"

lemma state_ok_cong:
  "ci_base c = ci_base c' \<Longrightarrow> ci_maximum c = ci_maximum c' \<Longrightarrow> ci_threshold c = ci_threshold c' \<Longrightarrow>
     states_ok c m = states_ok c' m"
  by (simp add: states_ok_def state_ok_def backoff_delay_def)

lemma circuit_ok_persist:
  assumes "circuit_ok opts c" and "states_ok c m"
  shows "circuit_ok opts (circuit_persist wok u (c\<lparr>ci_states := m\<rparr>))" and "circuit_ok opts (c\<lparr>ci_states := m\<rparr>)"
proof -
  have e: "states_ok (c\<lparr>ci_states := m\<rparr>) = states_ok c"
    "states_ok (circuit_persist wok u (c\<lparr>ci_states := m\<rparr>)) = states_ok c"
    by (rule ext, rule state_ok_cong; simp)+
  show "circuit_ok opts (c\<lparr>ci_states := m\<rparr>)"
    using assms by (auto simp: circuit_ok_def e)
  have "ci_file (circuit_persist wok u (c\<lparr>ci_states := m\<rparr>)) = Some (circuit_json u m) \<or>
      ci_file (circuit_persist wok u (c\<lparr>ci_states := m\<rparr>)) = ci_file c"
    by (simp add: circuit_persist_def)
  then show "circuit_ok opts (circuit_persist wok u (c\<lparr>ci_states := m\<rparr>))"
    using assms by (auto simp: circuit_ok_def e)
qed

lemma states_ok_filter: "states_ok c m \<Longrightarrow> states_ok c (filter P m)"
  by (auto simp: states_ok_def distinct_map_filter)

lemma states_ok_jdel: "states_ok c m \<Longrightarrow> states_ok c (jdel k m)"
  by (auto simp: states_ok_def distinct_jdel mem_jdel)

lemma states_ok_jset: "states_ok c m \<Longrightarrow> state_ok c s \<Longrightarrow> states_ok c (jset k s m)"
  unfolding states_ok_def using mem_jset [of _ k s m] by (fastforce simp: distinct_jset)

lemma failed_state_ok:
  assumes "failed_state sha at k sig prev c = (s, d)" and "\<And>p. prev = Some p \<Longrightarrow> state_ok c p"
    and "2 \<le> ci_threshold c"
  shows "state_ok c s"
proof -
  let ?new = "\<lparr>fs_signature = sig, fs_consecutive = 0, fs_first = at, fs_last = at, fs_retry = at,
                    fs_reported = 0, fs_incident = None\<rparr>"
  consider p where "prev = Some p" "fs_signature p = sig"
    | "\<And>p. prev = Some p \<Longrightarrow> fs_signature p \<noteq> sig" by blast
  then show ?thesis
  proof cases
    case 1
    with assms have "state_ok c p" by blast
    with 1 assms(1) show ?thesis by (auto simp: failed_state_def Let_def state_ok_def)
  next
    case 2
    then show ?thesis using assms(1,3)
      by (cases prev) (auto simp: failed_state_def Let_def state_ok_def)
  qed
qed

lemma new_circuit_ok:
  assumes "file = None \<or> (\<exists>u m. file = Some (circuit_json u m) \<and> states_ok c m)"
    and "circuit_ok opts c"
  shows "circuit_ok opts (new_circuit opts file)"
proof -
  have e: "states_ok (new_circuit opts file) = states_ok c"
    using assms(2) by (intro ext state_ok_cong) (auto simp: new_circuit_def circuit_ok_def Let_def split: option.split)
  have base: "ci_base (new_circuit opts file) = max 1 (co_base opts)"
    "ci_maximum (new_circuit opts file) = max (max 1 (co_base opts)) (co_maximum opts)"
    "ci_threshold (new_circuit opts file) = max 2 (co_threshold opts)"
    "ci_path (new_circuit opts file) = co_path opts" "ci_file (new_circuit opts file) = file"
    by (auto simp: new_circuit_def Let_def split: option.split)
  have empty: "states_ok c []" by (simp add: states_ok_def)
  have "states_ok c (ci_states (new_circuit opts file))"
  proof (cases "co_path opts \<and> file \<noteq> None")
    case False
    then show ?thesis using empty by (auto simp: new_circuit_def Let_def)
  next
    case True
    with assms(1) obtain u m where m: "file = Some (circuit_json u m)" "states_ok c m" by blast
    then have "restore_states (circuit_json u m) = Some (filter (\<lambda>p. storage_key_valid (fst p)) m)"
      by (intro restore_circuit_json) (simp add: states_ok_def)
    with True m states_ok_filter [OF m(2)] show ?thesis by (simp add: new_circuit_def Let_def)
  qed
  then show ?thesis using assms(1) by (simp add: circuit_ok_def base e)
qed

lemma circuit_reachable_ok: "circuit_reachable sha opts c \<Longrightarrow> circuit_ok opts c"
proof (induction rule: circuit_reachable.induct)
  case circuit_start
  show ?case by (auto simp: circuit_ok_def new_circuit_def states_ok_def Let_def)
next
  case (circuit_failure c at wok u k e d c')
  let ?key = "storage_key sha k"
  obtain s d' where f: "failed_state sha at k (failure_signature sha e) (jget (ci_states c) ?key) c = (s, d')"
    by force
  have "state_ok c p" if "jget (ci_states c) ?key = Some p" for p
    using circuit_failure.IH jget_mem [OF that] by (force simp: circuit_ok_def states_ok_def)
  moreover have "2 \<le> ci_threshold c" using circuit_failure.IH by (simp add: circuit_ok_def)
  ultimately have "state_ok c s" using failed_state_ok [OF f] by blast
  then have "states_ok c (jset ?key s (ci_states c))"
    using circuit_failure.IH by (intro states_ok_jset) (simp_all add: circuit_ok_def)
  from circuit_ok_persist(1) [OF circuit_failure.IH this] circuit_failure.hyps(2) f show ?case
    by (auto simp: record_failure_def Let_def)
next
  case (circuit_success c wok u k)
  have "states_ok c (jdel (storage_key sha k) (ci_states c))"
    using circuit_success.IH by (intro states_ok_jdel) (simp add: circuit_ok_def)
  from circuit_ok_persist [OF circuit_success.IH this] show ?case by (simp add: record_success_def Let_def)
next
  case (circuit_reset c wok u x)
  have "states_ok c (jdel k (ci_states c))" for k
    using circuit_reset.IH by (intro states_ok_jdel) (simp add: circuit_ok_def)
  note del = circuit_ok_persist [OF circuit_reset.IH this]
  have "states_ok c []" by (simp add: states_ok_def)
  note clear = circuit_ok_persist [OF circuit_reset.IH this]
  show ?case using del clear by (simp add: reset_circuit_def Let_def split: option.split)
next
  case (circuit_retain c wok u ks)
  have "states_ok c (filter P (ci_states c))" for P
    using circuit_retain.IH by (intro states_ok_filter) (simp add: circuit_ok_def)
  from circuit_ok_persist(1) [OF circuit_retain.IH this] circuit_retain.IH show ?case
    by (simp add: retain_keys_def Let_def)
next
  case (circuit_restart c)
  then show ?case by (intro new_circuit_ok [of _ c]) (auto simp: circuit_ok_def)
qed

lemma backoff_bounds:
  assumes "1 \<le> ci_base c" and "ci_base c \<le> ci_maximum c"
  shows "ci_base c \<le> backoff_delay c n" and "backoff_delay c n \<le> ci_maximum c"
proof -
  have "ci_base c * 1 \<le> ci_base c * 2 ^ nat (min 30 (n - 1))"
    using assms(1) by (intro mult_left_mono) auto
  with assms show "ci_base c \<le> backoff_delay c n" by (simp add: backoff_delay_def)
qed (simp add: backoff_delay_def)

lemma backoff_mono:
  assumes "1 \<le> ci_base c" and "m \<le> n" shows "backoff_delay c m \<le> backoff_delay c n"
proof -
  have "(2 :: int) ^ nat (min 30 (m - 1)) \<le> 2 ^ nat (min 30 (n - 1))"
    using assms(2) by (intro power_increasing) auto
  then have "ci_base c * 2 ^ nat (min 30 (m - 1)) \<le> ci_base c * 2 ^ nat (min 30 (n - 1))"
    using assms(1) by (intro mult_left_mono) auto
  then show ?thesis by (simp add: backoff_delay_def)
qed

text \<open>C30: In every reachable circuit, restarts included, a failing key waits from its last failure
  for the base delay, doubled once for each further failure of the row (at most thirty times) and cut
  at the maximum: a first failure waits the base delay, no delay is below the base delay or above
  the maximum. The key has an incident exactly from the threshold on.\<close>

theorem circuit_bounds:
  assumes "circuit_reachable sha opts c" and "jget (ci_states c) key = Some s"
  shows "1 \<le> fs_consecutive s \<and>
    fs_retry s - fs_last s = min (max (max 1 (co_base opts)) (co_maximum opts))
      (max 1 (co_base opts) * 2 ^ nat (min 30 (fs_consecutive s - 1))) \<and>
    (fs_consecutive s = 1 \<longrightarrow> fs_retry s - fs_last s = max 1 (co_base opts)) \<and>
    max 1 (co_base opts) \<le> fs_retry s - fs_last s \<and>
    fs_retry s - fs_last s \<le> max (max 1 (co_base opts)) (co_maximum opts) \<and>
    (fs_incident s \<noteq> None \<longleftrightarrow> max 2 (co_threshold opts) \<le> fs_consecutive s)"
proof -
  note ok = circuit_reachable_ok [OF assms(1)]
  have s: "state_ok c s" using ok jget_mem [OF assms(2)] by (force simp: circuit_ok_def states_ok_def)
  have b: "1 \<le> ci_base c" "ci_base c \<le> ci_maximum c" using ok by (auto simp: circuit_ok_def)
  have d: "fs_retry s - fs_last s = backoff_delay c (fs_consecutive s)" using s by (simp add: state_ok_def)
  have o: "ci_base c = max 1 (co_base opts)" "ci_maximum c = max (max 1 (co_base opts)) (co_maximum opts)"
    "ci_threshold c = max 2 (co_threshold opts)" using ok by (simp_all add: circuit_ok_def)
  show ?thesis
  proof (intro conjI impI)
    show "fs_retry s - fs_last s = min (max (max 1 (co_base opts)) (co_maximum opts))
        (max 1 (co_base opts) * 2 ^ nat (min 30 (fs_consecutive s - 1)))"
      by (simp only: d backoff_delay_def o)
    show "fs_retry s - fs_last s = max 1 (co_base opts)" if "fs_consecutive s = 1"
      by (simp add: d that backoff_delay_def o)
    show "max 1 (co_base opts) \<le> fs_retry s - fs_last s"
      "fs_retry s - fs_last s \<le> max (max 1 (co_base opts)) (co_maximum opts)"
      using backoff_bounds [OF b, of "fs_consecutive s"] by (simp_all only: d o)
  qed (use s o in \<open>auto simp: state_ok_def\<close>)
qed

section \<open>A run of equal failures\<close>

definition failure_run ::
  "(string \<Rightarrow> string) \<Rightarrow> bool \<Rightarrow> string \<Rightarrow> string \<Rightarrow> thrown \<Rightarrow> int list \<Rightarrow> circuit \<Rightarrow> circuit_decision list \<times> circuit" where
  "failure_run sha wok u k e ats c =
     foldl (\<lambda>(ds, c) at. let (d, c') = record_failure sha at wok u k e c in (ds @ [d], c')) ([], c) ats"

lemma failure_run_snoc:
  "failure_run sha wok u k e (ats @ [at]) c =
     (case failure_run sha wok u k e ats c of (ds, c1) \<Rightarrow>
        case record_failure sha at wok u k e c1 of (d, c') \<Rightarrow> (ds @ [d], c'))"
  by (simp add: failure_run_def case_prod_beta Let_def)

lemma record_failure_config:
  assumes "record_failure sha at wok u k e c = (d, c')"
  shows "ci_base c' = ci_base c" "ci_maximum c' = ci_maximum c" "ci_threshold c' = ci_threshold c"
    "ci_report_interval c' = ci_report_interval c"
  using assms by (auto simp: record_failure_def Let_def split: prod.splits)

text \<open>The state of the key after a run, and the decision on each of its failures.\<close>

lemma failure_run_state:
  assumes "jget (ci_states c) (storage_key sha k) = None" and "2 \<le> ci_threshold c"
    and "failure_run sha wok u k e ats c = (ds, c')"
  shows "length ds = length ats \<and> ci_base c' = ci_base c \<and> ci_maximum c' = ci_maximum c \<and>
    ci_threshold c' = ci_threshold c \<and>
    (ats \<noteq> [] \<longrightarrow> (\<exists>s. jget (ci_states c') (storage_key sha k) = Some s \<and>
        fs_signature s = failure_signature sha e \<and> fs_consecutive s = int (length ats) \<and> fs_first s = hd ats \<and>
        fs_retry s = last ats + backoff_delay c (int (length ats)))) \<and>
    (ats = [] \<longrightarrow> jget (ci_states c') (storage_key sha k) = None) \<and>
    (\<forall>i < length ats. cs_consecutive (cd_snapshot (ds ! i)) = int i + 1 \<and>
        cs_first (cd_snapshot (ds ! i)) = hd ats \<and>
        cd_delay (ds ! i) = backoff_delay c (int i + 1) \<and>
        (cd_opened (ds ! i) \<longleftrightarrow> int i + 1 = ci_threshold c))"
  using assms(3)
proof (induction ats arbitrary: ds c' rule: rev_induct)
  case Nil
  with assms(1) show ?case by (simp add: failure_run_def)
next
  case (snoc at ats)
  let ?key = "storage_key sha k" and ?sig = "failure_signature sha e"
  obtain ds1 c1 where r: "failure_run sha wok u k e ats c = (ds1, c1)" by force
  obtain d c2 where f: "record_failure sha at wok u k e c1 = (d, c2)" by force
  have ds: "ds = ds1 @ [d]" "c' = c2" using snoc.prems r f by (auto simp: failure_run_snoc)
  note IH = snoc.IH [OF r]
  obtain s d' where fs: "failed_state sha at k ?sig (jget (ci_states c1) ?key) c1 = (s, d')" by force
  with f have d: "d = d'" "jget (ci_states c2) ?key = Some s"
    by (auto simp: record_failure_def Let_def)
  have delay: "backoff_delay c1 = backoff_delay c" using IH by (auto simp: backoff_delay_def)
  have new: "fs_signature s = ?sig \<and> fs_consecutive s = int (length ats) + 1 \<and> fs_first s = hd (ats @ [at]) \<and>
      fs_retry s = at + backoff_delay c (int (length ats) + 1) \<and>
      cs_consecutive (cd_snapshot d) = int (length ats) + 1 \<and> cs_first (cd_snapshot d) = hd (ats @ [at]) \<and>
      cd_delay d = backoff_delay c (int (length ats) + 1) \<and>
      (cd_opened d \<longleftrightarrow> int (length ats) + 1 = ci_threshold c)"
  proof (cases "ats = []")
    case True
    with IH fs d show ?thesis by (auto simp: failed_state_def Let_def snapshot_of_def delay)
  next
    case False
    with IH obtain s1 where s1: "jget (ci_states c1) ?key = Some s1" "fs_signature s1 = ?sig"
      "fs_consecutive s1 = int (length ats)" "fs_first s1 = hd ats" by blast
    with False IH fs d show ?thesis by (auto simp: failed_state_def Let_def snapshot_of_def delay)
  qed
  have "cs_consecutive (cd_snapshot (ds ! i)) = int i + 1 \<and>
        cs_first (cd_snapshot (ds ! i)) = hd (ats @ [at]) \<and>
        cd_delay (ds ! i) = backoff_delay c (int i + 1) \<and>
        (cd_opened (ds ! i) \<longleftrightarrow> int i + 1 = ci_threshold c)" if "i < length (ats @ [at])" for i
  proof (cases "i < length ats")
    case True
    with IH ds show ?thesis by (auto simp: nth_append)
  next
    case False
    with that have "i = length ats" by simp
    with IH ds new show ?thesis by (simp add: nth_append)
  qed
  then show ?case using IH ds new d record_failure_config [OF f] by (simp add: add.commute)
qed

text \<open>A run of equal failures of a key that had none: the n-th failure is counted as n, since the
  first, waits the exponential delay of n, and opens an incident exactly when n is the threshold, so
  once at most; afterwards the key may be tried again exactly from the last failure plus its delay
  on, and a success forgets it.\<close>

lemma failure_run_opens_once:
  assumes "jget (ci_states c) (storage_key sha k) = None" and "2 \<le> ci_threshold c"
    and "failure_run sha wok u k e ats c = (ds, c')" and "ats \<noteq> []"
  shows "length ds = length ats \<and>
    (\<forall>i < length ats. cs_consecutive (cd_snapshot (ds ! i)) = int i + 1 \<and>
        cs_first (cd_snapshot (ds ! i)) = hd ats \<and>
        cd_delay (ds ! i) = backoff_delay c (int i + 1) \<and>
        (cd_opened (ds ! i) \<longleftrightarrow> int i + 1 = ci_threshold c)) \<and>
    (can_attempt sha now k c' \<longleftrightarrow> last ats + backoff_delay c (int (length ats)) \<le> now) \<and>
    can_attempt sha now k (record_success sha wok' u' k c')"
proof -
  note r = failure_run_state [OF assms(1-3)]
  then obtain s where s: "jget (ci_states c') (storage_key sha k) = Some s"
    "fs_retry s = last ats + backoff_delay c (int (length ats))" using assms(4) by blast
  have "can_attempt sha now k c' \<longleftrightarrow> last ats + backoff_delay c (int (length ats)) \<le> now"
    using s by (simp add: can_attempt_def)
  moreover have "can_attempt sha now k (record_success sha wok' u' k c')"
    by (simp add: can_attempt_def record_success_def Let_def)
  ultimately show ?thesis using r by simp
qed

section \<open>The properties on a concrete circuit\<close>

text \<open>A digest that is long enough and hexadecimal.\<close>

definition toy_sha :: "string \<Rightarrow> string" where
  "toy_sha s = map (\<lambda>c. if is_digit c \<or> (CHR ''a'' \<le> c \<and> c \<le> CHR ''f'') then c else CHR ''0'') s @ replicate 64 (CHR ''0'')"

lemma toy_sha_hex: "32 \<le> int (length (toy_sha t)) \<and> list_all hex_char (toy_sha t)"
  by (auto simp: toy_sha_def list_all_iff hex_char_def is_digit_def in_set_replicate)

definition toy_options :: circuit_options where
  "toy_options = \<lparr>co_base = 10, co_maximum = 40, co_threshold = 3, co_report_interval = None, co_path = True\<rparr>"

definition toy_error :: thrown where
  "toy_error = Thrown_error ''E'' None ''open C:/x'' "

definition toy_run :: "circuit_decision list \<times> circuit" where
  "toy_run = failure_run toy_sha True ''t'' ''k'' toy_error [100, 200, 300] (new_circuit toy_options None)"

lemma toy_state: "(case jget (ci_states (snd toy_run)) (storage_key toy_sha ''k'') of
    Some s \<Rightarrow> fs_consecutive s = 3 | None \<Rightarrow> False)" "length (ci_states (snd toy_run)) = 1"
  by code_simp+

lemma toy_run_reachable: "circuit_reachable toy_sha toy_options (snd toy_run)"
proof -
  have "circuit_reachable toy_sha toy_options (snd (failure_run toy_sha True ''t'' ''k'' toy_error ats (new_circuit toy_options None)))" for ats
  proof (induction ats rule: rev_induct)
    case (snoc at ats)
    then show ?case
      by (auto simp: failure_run_snoc split: prod.split intro: circuit_failure)
  qed (simp add: failure_run_def circuit_start)
  then show ?thesis by (simp add: toy_run_def)
qed

lemma circuit_bounds_witness:
  "\<exists>s. jget (ci_states (snd toy_run)) (storage_key toy_sha ''k'') = Some s \<and> fs_incident s \<noteq> None \<and> fs_retry s - fs_last s \<le> 40"
proof -
  obtain s where s: "jget (ci_states (snd toy_run)) (storage_key toy_sha ''k'') = Some s" "fs_consecutive s = 3"
    using toy_state by (auto split: option.splits)
  from circuit_bounds [OF toy_run_reachable s(1)] s show ?thesis by (auto simp: toy_options_def)
qed

lemma failure_run_opens_once_witness:
  "map cd_opened (fst toy_run) = [False, False, True] \<and> map cd_delay (fst toy_run) = [10, 20, 40] \<and>
   \<not> can_attempt toy_sha 339 ''k'' (snd toy_run) \<and> can_attempt toy_sha 340 ''k'' (snd toy_run)"
proof -
  let ?c = "new_circuit toy_options None"
  obtain ds c' where r: "failure_run toy_sha True ''t'' ''k'' toy_error [100, 200, 300] ?c = (ds, c')" by force
  have c: "jget (ci_states ?c) (storage_key toy_sha ''k'') = None" "2 \<le> ci_threshold ?c"
    "ci_threshold ?c = 3" "ci_base ?c = 10" "ci_maximum ?c = 40"
    by (simp_all add: new_circuit_def toy_options_def Let_def)
  note run = failure_run_opens_once [OF c(1,2) r]
  have "length ds = 3" using run by simp
  then obtain d1 d2 d3 where ds: "ds = [d1, d2, d3]" by (auto simp: length_Suc_conv numeral_3_eq_3)
  have "\<forall>i < 3. (cd_opened (ds ! i) \<longleftrightarrow> int i + 1 = 3) \<and> cd_delay (ds ! i) = backoff_delay ?c (int i + 1)"
    using run c(3) by simp
  from this [rule_format, of 0] this [rule_format, of 1] this [rule_format, of 2]
  have "map cd_opened ds = [False, False, True] \<and> map cd_delay ds = [10, 20, 40]"
    by (simp add: ds backoff_delay_def c)
  moreover have "(can_attempt toy_sha now ''k'' c' \<longleftrightarrow> 340 \<le> now)" for now
    using run [where now = now] by (simp add: backoff_delay_def c)
  ultimately show ?thesis by (simp add: toy_run_def r)
qed

lemma circuit_file_roundtrip_witness:
  "ci_states (new_circuit toy_options (ci_file (circuit_persist True ''u'' (snd toy_run)))) = ci_states (snd toy_run)"
proof (rule circuit_file_roundtrip)
  show "distinct (jkeys (ci_states (snd toy_run)))" and "ci_path (snd toy_run)" and "co_path toy_options"
    using circuit_reachable_ok [OF toy_run_reachable]
    by (simp_all add: circuit_ok_def states_ok_def toy_options_def)
  obtain s where s: "jget (ci_states (snd toy_run)) (storage_key toy_sha ''k'') = Some s"
    using toy_state(1) by (auto split: option.splits)
  obtain p where "ci_states (snd toy_run) = [p]" using toy_state(2) by (auto simp: length_Suc_conv)
  with s show "\<forall>k \<in> set (jkeys (ci_states (snd toy_run))). \<exists>t. k = storage_key toy_sha t"
    by (intro ballI exI [of _ "''k''"]) (auto split: if_splits)
  show "\<forall>t. 32 \<le> int (length (toy_sha t)) \<and> list_all hex_char (toy_sha t)" using toy_sha_hex by blast
qed

end
