(* ===== verification/DurableDelivery.thy ===== *)
theory DurableDelivery
  imports Prelude
begin

text \<open>
  \<open>src/manager/durableDeliveryIdempotency.ts\<close>: deliveries that must happen once. A delivery id has
  one receipt file; processes race to create it, to claim it when its owner is gone, and to settle
  it. The theory holds the receipt operations, each as the one step it is under exclusive creation
  or the mutation lock (\<open>DeliveryLocking\<close> takes their accesses apart). Results are JSON values. A time
  is a number of milliseconds; the modification time of the file is part of it.
\<close>

section \<open>The digest of a payload\<close>

definition hex_digit :: "int \<Rightarrow> char" where
  "hex_digit n = (if n < 10 then char_of (48 + n) else char_of (87 + n))"

text \<open>\<open>JSON.stringify\<close> of a character inside a string.\<close>

definition json_char :: "char \<Rightarrow> string" where
  "json_char c =
     (let n = (of_char c :: int) in
      if n = 34 then [CHR 0x5C, CHR 0x22]
      else if n = 92 then [CHR 0x5C, CHR 0x5C]
      else if n = 8 then [CHR 0x5C, CHR ''b'']
      else if n = 12 then [CHR 0x5C, CHR ''f'']
      else if n = 10 then [CHR 0x5C, CHR ''n'']
      else if n = 13 then [CHR 0x5C, CHR ''r'']
      else if n = 9 then [CHR 0x5C, CHR ''t'']
      else if n < 32 then [CHR 0x5C, CHR ''u'', CHR ''0'', CHR ''0'', hex_digit (n div 16), hex_digit (n mod 16)]
      else [c])"

definition json_string :: "string \<Rightarrow> string" where
  "json_string s = CHR 0x22 # concat (map json_char s) @ [CHR 0x22]"

fun joined :: "string list \<Rightarrow> string" where
  "joined [] = []"
| "joined [x] = x"
| "joined (x # y # xs) = x @ CHR '','' # joined (y # xs)"

text \<open>\<open>Object.keys(record).sort()\<close> with the values written out first.\<close>

definition key_le :: "(string \<times> 'a) \<Rightarrow> (string \<times> 'a) \<Rightarrow> bool" where
  "key_le p q \<longleftrightarrow> fst p \<le> fst q"

fun stable_json :: "json \<Rightarrow> string" where
  "stable_json JNull = ''null''"
| "stable_json (JBool b) = (if b then ''true'' else ''false'')"
| "stable_json (JNum n) = int_str n"
| "stable_json (JStr s) = json_string s"
| "stable_json (JArr xs) = CHR ''['' # joined (map stable_json xs) @ [CHR '']'']"
| "stable_json (JObj fs) =
     CHR ''{'' # joined (map (\<lambda>(k, v). json_string k @ CHR '':'' # v)
       (js_sort key_le (map (\<lambda>(k, v). (k, stable_json v)) fs))) @ [CHR ''}'']"

definition request_digest :: "(string \<Rightarrow> string) \<Rightarrow> json \<Rightarrow> string" where
  "request_digest sha payload = sha (stable_json payload)"

text \<open>\<open>/^[A-Za-z0-9._:-]+$/\<close> and \<open>/^[a-z0-9-]+$/\<close>.\<close>

definition delivery_id_char :: "char \<Rightarrow> bool" where
  "delivery_id_char c \<longleftrightarrow> is_lower c \<or> is_upper c \<or> is_digit c \<or> c \<in> set ''._:-''"

datatype delivery_error = Missing_delivery_id | Invalid_delivery_id | Invalid_namespace

definition normalize_delivery_id :: "string \<Rightarrow> (delivery_error, string) res" where
  "normalize_delivery_id v =
     (let i = js_trim v in
      if i = [] then Inl Missing_delivery_id
      else if int (length i) > 200 \<or> \<not> list_all delivery_id_char i then Inl Invalid_delivery_id
      else Inr i)"

definition normalized_namespace :: "string \<Rightarrow> (delivery_error, string) res" where
  "normalized_namespace v =
     (let n = js_trim v in
      if n = [] \<or> \<not> list_all (\<lambda>c. is_lower c \<or> is_digit c \<or> c = CHR ''-'') n then Inl Invalid_namespace else Inr n)"

section \<open>Receipts\<close>

datatype receipt_state = Reserved | Sending | Completed | Uncertain

record receipt =
  rc_id :: string
  rc_digest :: string
  rc_state :: receipt_state
  rc_created :: int
  rc_updated :: int
  rc_audit :: "json option"
  rc_result :: "json option"
  rc_error :: "string option"
  rc_execution :: "string option"
  rc_host :: "string option"
  rc_pid :: "int option"
  rc_lease_expires :: "int option"
  rc_lease_ms :: "int option"
  rc_mtime_renewal :: bool

text \<open>The file of a delivery id: absent, present with content that is no receipt, or a receipt with
  the modification time of the file.\<close>

datatype receipt_file = No_file | Unreadable | Receipt_file receipt int

definition parse_receipt :: "receipt_file \<Rightarrow> receipt option" where
  "parse_receipt f =
     (case f of
        Receipt_file r mtime \<Rightarrow>
          if rc_id r = [] \<or> rc_digest r = [] then None
          else Some (case rc_lease_ms r of
              Some ms \<Rightarrow> if rc_state r = Sending \<and> rc_mtime_renewal r \<and> ms > 0
                then r\<lparr>rc_lease_expires := Some (mtime + ms)\<rparr> else r
            | None \<Rightarrow> r)
      | _ \<Rightarrow> None)"

definition read_receipt :: "string \<Rightarrow> receipt_file \<Rightarrow> receipt option" where
  "read_receipt i f = (case parse_receipt f of Some r \<Rightarrow> if rc_id r = i then Some r else None | None \<Rightarrow> None)"

text \<open>The process that makes a call, and its options.\<close>

record delivery_call =
  dc_id :: string
  dc_digest :: string
  dc_execution :: string
  dc_host :: string
  dc_pid :: int
  dc_lease :: int
  dc_audit :: "json option"
  dc_recover :: bool
  dc_recover_uncertain :: bool
  dc_retryable :: "json option \<Rightarrow> bool"

definition lease_ms :: "int option \<Rightarrow> int" where
  "lease_ms o' = max 100 (case o' of None \<Rightarrow> 15 * 60000 | Some ms \<Rightarrow> ms)"

record delivery_options =
  do_id :: string
  do_payload :: json
  do_audit :: "json option"
  do_recover :: bool
  do_recover_uncertain :: bool
  do_retryable :: "json option \<Rightarrow> bool"
  do_lease :: "int option"

definition delivery_call_of ::
  "(string \<Rightarrow> string) \<Rightarrow> string \<Rightarrow> string \<Rightarrow> int \<Rightarrow> delivery_options \<Rightarrow> (delivery_error, delivery_call) res" where
  "delivery_call_of sha execution host pid opts =
     bindr (normalize_delivery_id (do_id opts)) (\<lambda>i.
       Inr \<lparr>dc_id = i, dc_digest = request_digest sha (do_payload opts), dc_execution = execution, dc_host = host,
            dc_pid = pid, dc_lease = lease_ms (do_lease opts), dc_audit = do_audit opts,
            dc_recover = do_recover opts, dc_recover_uncertain = do_recover_uncertain opts,
            dc_retryable = do_retryable opts\<rparr>)"

definition sending_receipt :: "int \<Rightarrow> delivery_call \<Rightarrow> receipt" where
  "sending_receipt now c =
     \<lparr>rc_id = dc_id c, rc_digest = dc_digest c, rc_state = Sending, rc_created = now, rc_updated = now,
      rc_audit = dc_audit c, rc_result = None, rc_error = None, rc_execution = Some (dc_execution c),
      rc_host = Some (dc_host c), rc_pid = Some (dc_pid c), rc_lease_expires = Some (now + dc_lease c),
      rc_lease_ms = Some (dc_lease c), rc_mtime_renewal = True\<rparr>"

text \<open>How the accesses to the file go: as intended, refused before anything is written (also when the
  mutation lock cannot be had), or failing inside the write. Only the exclusive creation leaves a
  damaged file in the last case, as replacements are atomic.\<close>

datatype io = Io_ok | Io_refused | Io_broken

definition reserve_receipt ::
  "int \<Rightarrow> io \<Rightarrow> delivery_call \<Rightarrow> receipt_file \<Rightarrow> (unit, bool \<times> receipt option) res \<times> receipt_file" where
  "reserve_receipt now w c f =
     (if f \<noteq> No_file then (if w = Io_refused then Inl () else Inr (False, read_receipt (dc_id c) f), f)
      else case w of
        Io_ok \<Rightarrow> (Inr (True, Some (sending_receipt now c)), Receipt_file (sending_receipt now c) now)
      | Io_refused \<Rightarrow> (Inl (), f)
      | Io_broken \<Rightarrow> (Inl (), Unreadable))"

text \<open>\<open>toLowerCase\<close> on code units below 256.\<close>

definition lower_char :: "char \<Rightarrow> char" where
  "lower_char c =
     (let n = (of_char c :: int) in
      if (65 \<le> n \<and> n \<le> 90) \<or> (192 \<le> n \<and> n \<le> 222 \<and> n \<noteq> 215) then char_of (n + 32) else c)"

definition js_lower :: "string \<Rightarrow> string" where
  "js_lower s = map lower_char s"

text \<open>\<open>alive pid\<close>: the signal 0 reaches the process or is not permitted.\<close>

definition same_host_owner_alive :: "string \<Rightarrow> (int \<Rightarrow> bool) \<Rightarrow> receipt \<Rightarrow> bool" where
  "same_host_owner_alive host alive r =
     (case (rc_host r, rc_pid r) of
        (Some h, Some pid) \<Rightarrow> h \<noteq> [] \<and> js_lower h = js_lower host \<and> pid > 0 \<and> alive pid
      | _ \<Rightarrow> False)"

definition receipt_execution_active :: "int \<Rightarrow> string \<Rightarrow> (int \<Rightarrow> bool) \<Rightarrow> receipt \<Rightarrow> bool" where
  "receipt_execution_active now host alive r =
     (if rc_state r \<noteq> Sending \<or> rc_execution r = None \<or> rc_execution r = Some [] then False
      else if same_host_owner_alive host alive r then True
      else (case rc_lease_expires r of None \<Rightarrow> False | Some t \<Rightarrow> t > now))"

definition claimed_receipt :: "int \<Rightarrow> delivery_call \<Rightarrow> receipt \<Rightarrow> receipt" where
  "claimed_receipt now c r =
     r\<lparr>rc_state := Sending, rc_updated := now, rc_error := None, rc_execution := Some (dc_execution c),
       rc_host := Some (dc_host c), rc_pid := Some (dc_pid c), rc_lease_expires := Some (now + dc_lease c),
       rc_lease_ms := Some (dc_lease c), rc_mtime_renewal := True\<rparr>"

definition claim_receipt ::
  "int \<Rightarrow> (int \<Rightarrow> bool) \<Rightarrow> io \<Rightarrow> delivery_call \<Rightarrow> bool \<Rightarrow> receipt_file \<Rightarrow>
     (unit, bool \<times> receipt option) res \<times> receipt_file" where
  "claim_receipt now alive w c allow_uncertain f =
     (if w = Io_refused then (Inl (), f)
      else case read_receipt (dc_id c) f of
        None \<Rightarrow> (Inr (False, None), f)
      | Some r \<Rightarrow>
          if rc_digest r \<noteq> dc_digest c then (Inr (False, Some r), f)
          else if rc_state r = Completed then (Inr (False, Some r), f)
          else if rc_state r = Uncertain \<and> \<not> allow_uncertain then (Inr (False, Some r), f)
          else if receipt_execution_active now (dc_host c) alive r then (Inr (False, Some r), f)
          else if w = Io_broken then (Inl (), f)
          else (Inr (True, Some (claimed_receipt now c r)), Receipt_file (claimed_receipt now c r) now))"

text \<open>\<open>mutateOwnedReceipt\<close>: the answer tells whether the receipt was still this execution's; without a
  next receipt the file is removed.\<close>

definition owned :: "delivery_call \<Rightarrow> receipt \<Rightarrow> bool" where
  "owned c r \<longleftrightarrow> rc_digest r = dc_digest c \<and> rc_execution r = Some (dc_execution c) \<and> rc_state r = Sending"

definition mutate_owned ::
  "int \<Rightarrow> io \<Rightarrow> delivery_call \<Rightarrow> (receipt \<Rightarrow> receipt option) \<Rightarrow> receipt_file \<Rightarrow> (unit, bool) res \<times> receipt_file" where
  "mutate_owned now w c mutate f =
     (if w = Io_refused then (Inl (), f)
      else case read_receipt (dc_id c) f of
        None \<Rightarrow> (Inr False, f)
      | Some r \<Rightarrow>
          if \<not> owned c r then (Inr False, f)
          else if w = Io_broken then (Inl (), f)
          else (case mutate r of
              None \<Rightarrow> (Inr True, No_file)
            | Some r' \<Rightarrow> (Inr True, Receipt_file r' now)))"

definition disowned :: "int \<Rightarrow> receipt \<Rightarrow> receipt" where
  "disowned now r =
     r\<lparr>rc_updated := now, rc_execution := None, rc_host := None, rc_pid := None, rc_lease_expires := None,
       rc_lease_ms := None, rc_mtime_renewal := False\<rparr>"

definition completed_receipt :: "int \<Rightarrow> json option \<Rightarrow> receipt \<Rightarrow> receipt" where
  "completed_receipt now result r = (disowned now r)\<lparr>rc_state := Completed, rc_result := result, rc_error := None\<rparr>"

definition uncertain_receipt :: "int \<Rightarrow> string \<Rightarrow> receipt \<Rightarrow> receipt" where
  "uncertain_receipt now reason r = (disowned now r)\<lparr>rc_state := Uncertain, rc_error := Some reason\<rparr>"

definition settle_owned ::
  "int \<Rightarrow> io \<Rightarrow> delivery_call \<Rightarrow> json option \<Rightarrow> receipt_file \<Rightarrow> (unit, bool) res \<times> receipt_file" where
  "settle_owned now w c result f =
     mutate_owned now w c (\<lambda>r. if dc_retryable c result then None else Some (completed_receipt now result r)) f"

definition mark_owned_uncertain ::
  "int \<Rightarrow> io \<Rightarrow> delivery_call \<Rightarrow> string \<Rightarrow> receipt_file \<Rightarrow> (unit, bool) res \<times> receipt_file" where
  "mark_owned_uncertain now w c reason f = mutate_owned now w c (\<lambda>r. Some (uncertain_receipt now reason r)) f"

definition release_owned_sending ::
  "int \<Rightarrow> io \<Rightarrow> delivery_call \<Rightarrow> receipt_file \<Rightarrow> (unit, bool) res \<times> receipt_file" where
  "release_owned_sending now w c f = mutate_owned now w c (\<lambda>r. Some (disowned now r)) f"

section \<open>The heartbeat\<close>

text \<open>One renewal by the worker: the receipt must be this execution's, and not expired unless it is the
  first renewal; then the modification time moves forward.\<close>

definition owned_record :: "delivery_call \<Rightarrow> receipt \<Rightarrow> bool" where
  "owned_record c r \<longleftrightarrow> rc_id r = dc_id c \<and> owned c r \<and>
     (case rc_host r of Some h \<Rightarrow> js_lower h = js_lower (dc_host c) | None \<Rightarrow> False) \<and>
     rc_pid r = Some (dc_pid c) \<and> rc_mtime_renewal r \<and> rc_lease_ms r = Some (dc_lease c)"

definition renew_receipt :: "int \<Rightarrow> delivery_call \<Rightarrow> bool \<Rightarrow> receipt_file \<Rightarrow> bool \<times> receipt_file" where
  "renew_receipt now c allow_expired f =
     (case f of
        Receipt_file r mtime \<Rightarrow>
          if owned_record c r \<and> dc_lease c > 0 \<and> (allow_expired \<or> mtime + dc_lease c > now)
          then (True, Receipt_file r (max now (mtime + 1))) else (False, f)
      | _ \<Rightarrow> (False, f))"

section \<open>The digest does not depend on the order of properties\<close>

text \<open>Two values are the same but for the order in which their objects, at any depth, hold their
  properties.\<close>

inductive json_same :: "json \<Rightarrow> json \<Rightarrow> bool" where
  same_refl: "json_same v v"
| same_array: "list_all2 json_same xs ys \<Longrightarrow> json_same (JArr xs) (JArr ys)"
| same_object: "list_all2 (\<lambda>p q. fst p = fst q \<and> json_same (snd p) (snd q)) fs gs \<Longrightarrow>
     mset gs = mset hs \<Longrightarrow> distinct (jkeys fs) \<Longrightarrow> json_same (JObj fs) (JObj hs)"

lemma key_sort_unique:
  fixes xs ys :: "(string \<times> 'a) list"
  assumes "mset xs = mset ys" and "distinct (jkeys xs)"
  shows "js_sort key_le xs = js_sort key_le ys"
proof -
  have srt: "sorted (jkeys (js_sort key_le zs))" for zs :: "(string \<times> 'a) list"
  proof -
    have "sorted_wrt key_le (js_sort key_le zs)"
      by (rule sorted_js_sort) (auto simp: key_le_def)
    moreover have "key_le = (\<lambda>p q :: string \<times> 'a. fst p \<le> fst q)" by (simp add: key_le_def fun_eq_iff)
    ultimately show ?thesis by (simp add: sorted_map)
  qed
  have eq: "set ys = set xs" using assms(1) by (metis set_mset_mset)
  have d: "distinct (jkeys (js_sort key_le zs))" if "mset zs = mset xs" for zs :: "(string \<times> 'a) list"
  proof -
    have "mset (jkeys (js_sort key_le zs)) = mset (jkeys xs)" by (simp add: that)
    with assms(2) show ?thesis by (metis mset_eq_imp_distinct_iff)
  qed
  have inj: "inj_on fst (set (js_sort key_le xs) \<union> set (js_sort key_le ys))"
    using assms(2) eq by (simp add: distinct_map)
  have "set (js_sort key_le xs) = set (js_sort key_le ys)" by (simp add: eq)
  then show ?thesis
    by (rule map_sorted_distinct_set_unique [OF inj srt d [OF refl] srt d [OF assms(1) [symmetric]]])
qed

text \<open>The digest of a payload does not depend on the order in which its objects hold their
  properties, at any depth, so that a repeated call with the same content never conflicts with
  itself.\<close>

lemma digest_order_independent:
  assumes "json_same v w"
  shows "stable_json v = stable_json w \<and> request_digest sha v = request_digest sha w"
proof -
  have "stable_json v = stable_json w"
    using assms
  proof (induction rule: json_same.induct)
    case (same_array xs ys)
    then have "map stable_json xs = map stable_json ys"
      by (induction rule: list_all2_induct) auto
    then show ?case by simp
  next
    case (same_object fs gs hs)
    let ?f = "\<lambda>(k, v). (k, stable_json v)"
    from same_object(1) have m: "map ?f fs = map ?f gs" and k: "jkeys fs = jkeys gs"
      by (induction rule: list_all2_induct) auto
    have "mset (map ?f gs) = mset (map ?f hs)" using same_object(2) by (simp add: mset_map)
    moreover have "distinct (jkeys (map ?f gs))" using same_object(3) k by (simp add: case_prod_beta comp_def)
    ultimately have "js_sort key_le (map ?f gs) = js_sort key_le (map ?f hs)" by (rule key_sort_unique)
    then show ?case by (simp add: m)
  qed simp
  then show ?thesis by (simp add: request_digest_def)
qed

lemma digest_order_independent_witness:
  "stable_json (JObj [(''b'', JNum 1), (''a'', JArr [JNull])]) = stable_json (JObj [(''a'', JArr [JNull]), (''b'', JNum 1)])"
proof -
  have "json_same (JObj [(''b'', JNum 1), (''a'', JArr [JNull])]) (JObj [(''a'', JArr [JNull]), (''b'', JNum 1)])"
    by (rule same_object [where gs = "[(''b'', JNum 1), (''a'', JArr [JNull])]"])
      (auto intro: same_refl)
  from digest_order_independent [OF this] show ?thesis by blast
qed

end
