(* ===== verification/DeliveryProtocol.thy ===== *)
theory DeliveryProtocol
  imports DurableDelivery
begin

text \<open>
  \<open>executeDurableDelivery\<close> and \<open>executeClaimedDelivery\<close> of
  \<open>src/manager/durableDeliveryIdempotency.ts\<close> as a machine, the interleavings of several calls for one
  delivery id, and what they guarantee: calls that report a committed result agree, and the
  delivery is not made more often than receipts were created and recoveries allowed a retry.
\<close>

section \<open>One call\<close>

datatype pending_state = In_progress | Is_uncertain | Conflict

datatype outcome =
    Out_completed bool "json option"
  | Out_pending pending_state bool string
  | Out_thrown

datatype delivered = Delivered "json option" | Delivery_failed string

datatype recovery =
    Recovered "json option"
  | Recover_retry
  | Recover_in_progress string
  | Recover_uncertain string
  | Recovery_failed string

text \<open>Where an exception of the following file access goes: to the \<open>catch\<close> around the first delivery, to
  the outer \<open>catch\<close> of \<open>executeClaimedDelivery\<close> (whose own outcome is a duplicate if the flag says
  so), to the \<open>catch\<close> of \<open>deliverOnce\<close>, or to the caller.\<close>

datatype catcher = Catch_first | Catch_outer bool | Catch_retry | Catch_none

datatype phase =
    Ph_start
  | Ph_waiting receipt
  | Ph_claiming receipt
  | Ph_claimed receipt bool string
  | Ph_delivering
  | Ph_redelivering
  | Ph_recovering bool
  | Ph_settling "json option" bool catcher
  | Ph_marking string string bool catcher
  | Ph_releasing string bool catcher
  | Ph_done outcome

text \<open>What happens in the environment during a step.\<close>

record step_input =
  si_now :: int
  si_io :: io
  si_alive :: "int \<Rightarrow> bool"
  si_deadline :: bool
  si_heartbeat :: "string option"
  si_delivered :: delivered
  si_recovery :: recovery

text \<open>The observable events: a receipt was created, the delivery was made, a recovery allowed a retry,
  a receipt was released after a rejection.\<close>

datatype event = Ev_created | Ev_delivered | Ev_retry | Ev_removed

definition text_or :: "string option \<Rightarrow> string \<Rightarrow> string" where
  "text_or v d = (case v of None \<Rightarrow> d | Some s \<Rightarrow> if s = [] then d else s)"

definition conflict_outcome :: outcome where
  "conflict_outcome = Out_pending Conflict True ''The deliveryId is already reserved for a different payload.''"

text \<open>The decision on the receipt that was found, once it has been waited for.\<close>

definition decide_existing :: "delivery_call \<Rightarrow> receipt \<Rightarrow> phase \<times> event list" where
  "decide_existing c r =
     (if rc_state r = Uncertain \<and> (\<not> dc_recover_uncertain c \<or> \<not> dc_recover c)
      then (Ph_done (Out_pending Is_uncertain True (text_or (rc_error r)
             ''The earlier delivery result is uncertain; do not resend automatically.'')), [])
      else if rc_state r \<noteq> Uncertain \<and> \<not> dc_recover c
      then (Ph_done (Out_pending In_progress True
             ''The delivery is already reserved or sending; query its receipt before retrying.''), [])
      else (Ph_claiming r, []))"

definition completed_duplicate :: "receipt \<Rightarrow> bool" where
  "completed_duplicate r \<longleftrightarrow> rc_state r = Completed \<and> rc_result r \<noteq> None"

definition after_reserve :: "delivery_call \<Rightarrow> receipt option \<Rightarrow> phase \<times> event list" where
  "after_reserve c found =
     (case found of
        None \<Rightarrow> (Ph_done (Out_pending Is_uncertain True
            ''The delivery receipt is unreadable; do not resend automatically.''), [])
      | Some r \<Rightarrow>
          if rc_digest r \<noteq> dc_digest c then (Ph_done conflict_outcome, [])
          else if completed_duplicate r then (Ph_done (Out_completed True (rc_result r)), [])
          else if rc_state r \<noteq> Uncertain then (Ph_waiting r, [])
          else decide_existing c r)"

definition after_wait :: "delivery_call \<Rightarrow> receipt \<Rightarrow> phase \<times> event list" where
  "after_wait c r =
     (if rc_digest r \<noteq> dc_digest c then (Ph_done conflict_outcome, [])
      else if completed_duplicate r then (Ph_done (Out_completed True (rc_result r)), [])
      else decide_existing c r)"

definition wait_poll :: "delivery_call \<Rightarrow> bool \<Rightarrow> receipt \<Rightarrow> receipt_file \<Rightarrow> phase \<times> event list" where
  "wait_poll c deadline existing f =
     (case read_receipt (dc_id c) f of
        None \<Rightarrow> after_wait c existing
      | Some r \<Rightarrow>
          if deadline \<or> rc_state r = Completed \<or> rc_state r = Uncertain then after_wait c r
          else (Ph_waiting existing, []))"

definition not_claimed :: "delivery_call \<Rightarrow> receipt option \<Rightarrow> phase \<times> event list" where
  "not_claimed c current =
     (case current of
        None \<Rightarrow> (Ph_done (Out_pending Is_uncertain True
            ''The delivery receipt became unreadable while acquiring execution ownership.''), [])
      | Some r \<Rightarrow>
          if rc_digest r \<noteq> dc_digest c then (Ph_done conflict_outcome, [])
          else if completed_duplicate r then (Ph_done (Out_completed True (rc_result r)), [])
          else if rc_state r = Uncertain
          then (Ph_done (Out_pending Is_uncertain True (text_or (rc_error r)
             ''The earlier delivery result is uncertain; do not resend automatically.'')), [])
          else (Ph_done (Out_pending In_progress True
             ''Another execution still owns this delivery; do not resend automatically.''), []))"

definition retry_failed :: "string \<Rightarrow> string" where
  "retry_failed reason = reason @
     '' The one authorized recovery retry did not produce a terminal receipt; do not resend automatically.''"

definition lost_before :: "string \<Rightarrow> string" where
  "lost_before what = ''The delivery execution lost ownership before its '' @ what"

text \<open>Where an exception leads, with its message.\<close>

definition throw_to :: "delivery_call \<Rightarrow> catcher \<Rightarrow> string \<Rightarrow> phase" where
  "throw_to c k reason =
     (case k of
        Catch_first \<Rightarrow>
          if dc_recover c then Ph_recovering False
          else Ph_marking (reason @ '' The send result is uncertain; do not resend automatically.'')
            (lost_before ''uncertain receipt was committed.'') False (Catch_outer False)
      | Catch_outer dup \<Rightarrow>
          Ph_marking (reason @ '' The delivery owner failed before committing a terminal receipt.'')
            (lost_before ''uncertain receipt was committed.'') dup Catch_none
      | Catch_retry \<Rightarrow>
          Ph_marking (retry_failed reason) (lost_before ''uncertain receipt was committed.'') False Catch_none
      | Catch_none \<Rightarrow> Ph_done Out_thrown)"

text \<open>The state of a call: its phase and whether its heartbeat worker runs.\<close>

record call_state =
  cl_phase :: phase
  cl_heartbeat :: bool

definition is_done :: "phase \<Rightarrow> bool" where
  "is_done p = (case p of Ph_done _ \<Rightarrow> True | _ \<Rightarrow> False)"

text \<open>The text of an input-output exception.\<close>

definition io_message :: string where
  "io_message = ''I/O error''"

text \<open>Why the first renewal fails, and why it is not even tried or not confirmed by the worker.\<close>

definition lease_lost :: "receipt_file \<Rightarrow> string" where
  "lease_lost f = ''Durable delivery lease lost during initial renewal: '' @
     (if f = No_file then ''receipt disappeared.'' else ''receipt ownership or fencing token changed.'')"

definition heartbeat_refusal :: "receipt \<Rightarrow> step_input \<Rightarrow> string option" where
  "heartbeat_refusal r i =
     (if text_or (rc_host r) [] = [] \<or> (case rc_pid r of None \<Rightarrow> True | Some pid \<Rightarrow> pid \<le> 0)
      then Some ''Durable delivery receipt has no valid execution owner.''
      else si_heartbeat i)"

definition begin_call ::
  "delivery_call \<Rightarrow> step_input \<Rightarrow> receipt_file \<Rightarrow> (phase \<times> event list) \<times> receipt_file" where
  "begin_call c i f =
          (case reserve_receipt (si_now i) (si_io i) c f of
             (Inl _, f') \<Rightarrow> ((Ph_done Out_thrown, []), f')
           | (Inr (True, Some r), f') \<Rightarrow> ((Ph_claimed r False [], [Ev_created]), f')
           | (Inr (_, found), f') \<Rightarrow> (after_reserve c found, f'))"

definition claim_call ::
  "delivery_call \<Rightarrow> step_input \<Rightarrow> receipt \<Rightarrow> receipt_file \<Rightarrow> (phase \<times> event list) \<times> receipt_file" where
  "claim_call c i existing f =
          (case claim_receipt (si_now i) (si_alive i) (si_io i) c
              (rc_state existing = Uncertain \<and> dc_recover_uncertain c) f of
             (Inl _, f') \<Rightarrow> ((Ph_done Out_thrown, []), f')
           | (Inr (True, Some r), f') \<Rightarrow> ((Ph_claimed r True (text_or (rc_error existing)
               ''The earlier delivery receipt requires authoritative recovery.''), []), f')
           | (Inr (_, current), f') \<Rightarrow> (not_claimed c current, f'))"

definition start_execution ::
  "delivery_call \<Rightarrow> step_input \<Rightarrow> receipt \<Rightarrow> bool \<Rightarrow> receipt_file \<Rightarrow> (phase \<times> event list) \<times> receipt_file" where
  "start_execution c i r recover_first f =
          (case (heartbeat_refusal r i, renew_receipt (si_now i) c True f) of
             (None, (True, f')) \<Rightarrow>
               if \<not> recover_first then ((Ph_delivering, [Ev_delivered]), f')
               else if dc_recover c then ((Ph_recovering True, []), f')
               else ((Ph_releasing ''The delivery is already reserved or sending; query its receipt before retrying.''
                   True (Catch_outer True), []), f')
           | (failure, _) \<Rightarrow>
               ((Ph_marking (case failure of Some m \<Rightarrow> m | None \<Rightarrow> lease_lost f) (lost_before ''heartbeat started.'') recover_first Catch_none, []), f))"

definition call_step ::
  "delivery_call \<Rightarrow> step_input \<Rightarrow> phase \<Rightarrow> receipt_file \<Rightarrow> (phase \<times> event list) \<times> receipt_file" where
  "call_step c i ph f =
     (case ph of
        Ph_start \<Rightarrow>
          begin_call c i f
      | Ph_waiting existing \<Rightarrow> (wait_poll c (si_deadline i) existing f, f)
      | Ph_claiming existing \<Rightarrow>
          claim_call c i existing f
      | Ph_claimed r recover_first recovery_error \<Rightarrow>
          start_execution c i r recover_first f
      | Ph_delivering \<Rightarrow>
          (case si_delivered i of
             Delivered v \<Rightarrow> ((Ph_settling v False Catch_first, []), f)
           | Delivery_failed m \<Rightarrow> ((throw_to c Catch_first m, []), f))
      | Ph_redelivering \<Rightarrow>
          (case si_delivered i of
             Delivered v \<Rightarrow> ((Ph_settling v False Catch_retry, []), f)
           | Delivery_failed m \<Rightarrow> ((throw_to c Catch_retry m, []), f))
      | Ph_recovering dup \<Rightarrow>
          ((case si_recovery i of
             Recovered v \<Rightarrow> (Ph_settling v dup (Catch_outer dup), [])
           | Recover_retry \<Rightarrow> (Ph_redelivering, [Ev_retry, Ev_delivered])
           | Recover_in_progress m \<Rightarrow> (Ph_releasing m dup (Catch_outer dup), [])
           | Recover_uncertain m \<Rightarrow>
               (Ph_marking m (lost_before ''uncertain receipt was committed.'') dup (Catch_outer dup), [])
           | Recovery_failed m \<Rightarrow>
               (Ph_marking (m @ (if dup then '' Recovery could not determine the earlier delivery result.''
                   else '' Recovery could not determine the delivery result.''))
                 (lost_before ''uncertain receipt was committed.'') dup (Catch_outer dup), [])), f)
      | Ph_settling v dup k \<Rightarrow>
          (case settle_owned (si_now i) (si_io i) c v f of
             (Inl _, f') \<Rightarrow> ((throw_to c k io_message, []), f')
           | (Inr True, f') \<Rightarrow>
               ((Ph_done (Out_completed dup v), if dc_retryable c v then [Ev_removed] else []), f')
           | (Inr False, f') \<Rightarrow>
               ((Ph_done (Out_pending Is_uncertain dup
                  (if dc_retryable c v then ''The non-committing rejection receipt could not be released safely.''
                   else lost_before ''completed receipt was committed.'')), []), f'))
      | Ph_marking reason lost dup k \<Rightarrow>
          (case mark_owned_uncertain (si_now i) (si_io i) c reason f of
             (Inl _, f') \<Rightarrow> ((throw_to c k io_message, []), f')
           | (Inr True, f') \<Rightarrow> ((Ph_done (Out_pending Is_uncertain dup reason), []), f')
           | (Inr False, f') \<Rightarrow> ((Ph_done (Out_pending Is_uncertain dup lost), []), f'))
      | Ph_releasing reason dup k \<Rightarrow>
          (case release_owned_sending (si_now i) (si_io i) c f of
             (Inl _, f') \<Rightarrow> ((throw_to c k io_message, []), f')
           | (Inr _, f') \<Rightarrow> ((Ph_done (Out_pending In_progress dup reason), []), f'))
      | Ph_done out \<Rightarrow> ((Ph_done out, []), f))"

lemmas call_step_defs = call_step_def begin_call_def claim_call_def start_execution_def

text \<open>The heartbeat worker runs from the first renewal until the \<open>finally\<close> of
  \<open>executeClaimedDelivery\<close>. The retry is returned without being awaited there, so its heartbeat
  stops when it begins.\<close>

definition heartbeat_after :: "phase \<Rightarrow> phase \<Rightarrow> bool \<Rightarrow> bool" where
  "heartbeat_after prior after running =
     (case after of
        Ph_done _ \<Rightarrow> False
      | Ph_redelivering \<Rightarrow> False
      | Ph_delivering \<Rightarrow> (case prior of Ph_claimed _ _ _ \<Rightarrow> True | _ \<Rightarrow> running)
      | Ph_recovering _ \<Rightarrow> (case prior of Ph_claimed _ _ _ \<Rightarrow> True | _ \<Rightarrow> running)
      | Ph_releasing _ _ _ \<Rightarrow> (case prior of Ph_claimed _ _ _ \<Rightarrow> True | _ \<Rightarrow> running)
      | _ \<Rightarrow> running)"

section \<open>Several calls\<close>

record delivery_world =
  dw_file :: receipt_file
  dw_calls :: "call_state list"
  dw_log :: "event list"

definition start_world :: "nat \<Rightarrow> delivery_world" where
  "start_world n = \<lparr>dw_file = No_file, dw_calls = replicate n \<lparr>cl_phase = Ph_start, cl_heartbeat = False\<rparr>, dw_log = []\<rparr>"

text \<open>A step of the k-th call, and a renewal by its worker. A process that dies takes no more steps.\<close>

definition world_call :: "(nat \<Rightarrow> delivery_call) \<Rightarrow> nat \<Rightarrow> step_input \<Rightarrow> delivery_world \<Rightarrow> delivery_world" where
  "world_call call k i w =
     (let s = dw_calls w ! k in
      case call_step (call k) i (cl_phase s) (dw_file w) of
        ((ph, evs), f) \<Rightarrow>
          \<lparr>dw_file = f,
           dw_calls = (dw_calls w)[k := \<lparr>cl_phase = ph, cl_heartbeat = heartbeat_after (cl_phase s) ph (cl_heartbeat s)\<rparr>],
           dw_log = dw_log w @ evs\<rparr>)"

definition world_renew :: "(nat \<Rightarrow> delivery_call) \<Rightarrow> nat \<Rightarrow> int \<Rightarrow> delivery_world \<Rightarrow> delivery_world" where
  "world_renew call k now w =
     (let s = dw_calls w ! k; (ok, f) = renew_receipt now (call k) False (dw_file w) in
      if \<not> cl_heartbeat s then w
      else w\<lparr>dw_file := f, dw_calls := (dw_calls w)[k := s\<lparr>cl_heartbeat := ok\<rparr>]\<rparr>)"

inductive world_step :: "(nat \<Rightarrow> delivery_call) \<Rightarrow> delivery_world \<Rightarrow> delivery_world \<Rightarrow> bool" for call where
  step_call: "k < length (dw_calls w) \<Longrightarrow> world_step call w (world_call call k i w)"
| step_renew: "k < length (dw_calls w) \<Longrightarrow> world_step call w (world_renew call k now w)"

definition world_reachable :: "(nat \<Rightarrow> delivery_call) \<Rightarrow> delivery_world \<Rightarrow> bool" where
  "world_reachable call w \<longleftrightarrow> (\<exists>n. (world_step call)\<^sup>*\<^sup>* (start_world n) w)"

section \<open>What one step does\<close>

lemmas receipt_operations = reserve_receipt_def claim_receipt_def settle_owned_def mark_owned_uncertain_def
  release_owned_sending_def mutate_owned_def renew_receipt_def

text \<open>A file with the committed result of a payload.\<close>

definition completed_file :: "receipt_file \<Rightarrow> json option \<Rightarrow> string \<Rightarrow> bool" where
  "completed_file f v d \<longleftrightarrow> (\<exists>r t. f = Receipt_file r t \<and> rc_state r = Completed \<and> rc_result r = v \<and> rc_digest r = d)"

lemma read_receipt_Some:
  assumes "read_receipt i f = Some r"
  obtains r0 t where "f = Receipt_file r0 t" "rc_state r = rc_state r0" "rc_result r = rc_result r0"
    "rc_digest r = rc_digest r0" "rc_execution r = rc_execution r0" "rc_id r0 = i"
  using assms by (cases f) (auto simp: read_receipt_def parse_receipt_def split: if_splits option.splits)

lemma completed_read:
  "completed_file f v d \<Longrightarrow> read_receipt i f = Some r \<Longrightarrow> rc_state r = Completed \<and> rc_result r = v \<and> rc_digest r = d"
  by (erule read_receipt_Some) (auto simp: completed_file_def)

lemma mutate_owned_completed:
  "completed_file f v d \<Longrightarrow> snd (mutate_owned now w c m f) = f"
  by (cases "read_receipt (dc_id c) f") (auto simp: mutate_owned_def owned_def dest: completed_read)

lemma claim_receipt_completed:
  "completed_file f v d \<Longrightarrow> snd (claim_receipt now alive w c u f) = f"
  by (cases "read_receipt (dc_id c) f") (auto simp: claim_receipt_def dest: completed_read)

lemma reserve_receipt_completed:
  "completed_file f v d \<Longrightarrow> snd (reserve_receipt now w c f) = f"
  by (auto simp: reserve_receipt_def completed_file_def)

lemma renew_receipt_completed:
  "completed_file f v d \<Longrightarrow> snd (renew_receipt now c e f) = f"
  by (auto simp: renew_receipt_def completed_file_def owned_record_def owned_def)

text \<open>The file after a step is the one the operation of its phase leaves.\<close>

lemma call_step_file:
  "snd (call_step c i ph f) =
     (case ph of
        Ph_start \<Rightarrow> snd (reserve_receipt (si_now i) (si_io i) c f)
      | Ph_claiming existing \<Rightarrow> snd (claim_receipt (si_now i) (si_alive i) (si_io i) c
              (rc_state existing = Uncertain \<and> dc_recover_uncertain c) f)
      | Ph_claimed r rf e \<Rightarrow> (if heartbeat_refusal r i = None \<and> fst (renew_receipt (si_now i) c True f)
          then snd (renew_receipt (si_now i) c True f) else f)
      | Ph_settling v dup k \<Rightarrow> snd (settle_owned (si_now i) (si_io i) c v f)
      | Ph_marking reason lost dup k \<Rightarrow> snd (mark_owned_uncertain (si_now i) (si_io i) c reason f)
      | Ph_releasing reason dup k \<Rightarrow> snd (release_owned_sending (si_now i) (si_io i) c f)
      | _ \<Rightarrow> f)"
  by (cases ph) (auto simp: call_step_defs split: prod.splits sum.splits option.splits bool.splits delivered.splits recovery.splits)

lemma completed_stays: "completed_file f v d \<Longrightarrow> snd (call_step c i ph f) = f"
  unfolding call_step_file
  by (cases ph) (auto simp: reserve_receipt_completed claim_receipt_completed mutate_owned_completed
      renew_receipt_completed settle_owned_def mark_owned_uncertain_def release_owned_sending_def)

definition pending_first :: "phase \<Rightarrow> nat" where
  "pending_first ph = (case ph of Ph_claimed _ False _ \<Rightarrow> 1 | _ \<Rightarrow> 0)"

definition file_exists :: "receipt_file \<Rightarrow> nat" where
  "file_exists f = (if f = No_file then 0 else 1)"

lemma decide_counts:
  "decide_existing c r = (ph, evs) \<Longrightarrow> evs = [] \<and> pending_first ph = 0"
  by (auto simp: decide_existing_def pending_first_def split: if_splits)

lemma after_counts:
  "after_reserve c found = (ph, evs) \<Longrightarrow> evs = [] \<and> pending_first ph = 0"
  "after_wait c r = (ph, evs) \<Longrightarrow> evs = [] \<and> pending_first ph = 0"
  "not_claimed c found = (ph, evs) \<Longrightarrow> evs = [] \<and> pending_first ph = 0"
  by (auto simp: after_reserve_def after_wait_def not_claimed_def pending_first_def
      dest!: decide_counts split: option.splits if_splits)

lemma wait_counts: "wait_poll c d r f = (ph, evs) \<Longrightarrow> evs = [] \<and> pending_first ph = 0"
  by (auto simp: wait_poll_def pending_first_def dest!: after_counts split: option.splits if_splits)

lemma throw_counts: "pending_first (throw_to c k m) = 0"
  by (simp add: throw_to_def pending_first_def split: catcher.split)

lemma pending_first_simps [simp]:
  "pending_first Ph_start = 0" "pending_first (Ph_waiting r) = 0" "pending_first (Ph_claiming r) = 0"
  "pending_first (Ph_claimed r b e) = (if b then 0 else 1)" "pending_first Ph_delivering = 0"
  "pending_first Ph_redelivering = 0" "pending_first (Ph_recovering d) = 0"
  "pending_first (Ph_settling v d k) = 0" "pending_first (Ph_marking m l d k) = 0"
  "pending_first (Ph_releasing m d k) = 0" "pending_first (Ph_done out) = 0"
  by (simp_all add: pending_first_def)

text \<open>The account of a step: what it delivers, it or another step has been entitled to.\<close>

lemma call_step_counts:
  assumes "call_step c i ph f = ((ph', evs), f')"
  shows "count_list evs Ev_delivered + pending_first ph' \<le>
      count_list evs Ev_created + count_list evs Ev_retry + pending_first ph"
    and "count_list evs Ev_created + file_exists f \<le> count_list evs Ev_removed + file_exists f'"
proof -
  have "count_list evs Ev_delivered + pending_first ph' \<le>
      count_list evs Ev_created + count_list evs Ev_retry + pending_first ph \<and>
    count_list evs Ev_created + file_exists f \<le> count_list evs Ev_removed + file_exists f'"
  proof (cases ph)
    case Ph_start
    with assms show ?thesis
      by (cases "f = No_file"; cases "si_io i")
        (auto simp: call_step_defs reserve_receipt_def file_exists_def
          dest!: after_counts split: if_splits)
  next
    case (Ph_waiting r)
    with assms show ?thesis by (auto simp: call_step_defs dest!: wait_counts)
  next
    case (Ph_claiming r)
    then show ?thesis using assms
      by (auto simp: call_step_defs claim_receipt_def file_exists_def
          dest!: after_counts split: option.splits if_splits)
  next
    case (Ph_claimed r rf e)
    then show ?thesis using assms
      by (auto simp: call_step_defs renew_receipt_def file_exists_def
          split: option.splits if_splits receipt_file.splits bool.splits)
  next
    case Ph_delivering
    with assms show ?thesis
      by (cases "si_delivered i") (auto simp: call_step_defs throw_counts)
  next
    case Ph_redelivering
    with assms show ?thesis
      by (cases "si_delivered i") (auto simp: call_step_defs throw_counts)
  next
    case (Ph_recovering d)
    with assms show ?thesis
      by (cases "si_recovery i") (auto simp: call_step_defs)
  next
    case (Ph_settling v d k)
    then show ?thesis using assms
      by (auto simp: call_step_defs settle_owned_def mutate_owned_def throw_counts file_exists_def
          split: option.splits if_splits)
  next
    case (Ph_marking m l d k)
    then show ?thesis using assms
      by (auto simp: call_step_defs mark_owned_uncertain_def mutate_owned_def throw_counts file_exists_def
          split: option.splits if_splits)
  next
    case (Ph_releasing m d k)
    then show ?thesis using assms
      by (auto simp: call_step_defs release_owned_sending_def mutate_owned_def throw_counts file_exists_def
          split: option.splits if_splits)
  next
    case (Ph_done out)
    with assms show ?thesis by (simp add: call_step_defs)
  qed
  then show "count_list evs Ev_delivered + pending_first ph' \<le>
      count_list evs Ev_created + count_list evs Ev_retry + pending_first ph"
    and "count_list evs Ev_created + file_exists f \<le> count_list evs Ev_removed + file_exists f'" by blast+
qed

text \<open>A call waits only for a receipt without a committed result, and completes only with the one in
  the file, or with a rejection of its own.\<close>

definition waits_well :: "phase \<Rightarrow> bool" where
  "waits_well ph = (case ph of Ph_waiting r \<Rightarrow> \<not> completed_duplicate r | _ \<Rightarrow> True)"

definition completes_well :: "delivery_call \<Rightarrow> receipt_file \<Rightarrow> phase \<Rightarrow> bool" where
  "completes_well c f ph =
     (case ph of
        Ph_done (Out_completed dup v) \<Rightarrow> dc_retryable c v \<or> completed_file f v (dc_digest c)
      | _ \<Rightarrow> True)"

lemma decide_well: "decide_existing c r = (ph, evs) \<Longrightarrow> waits_well ph \<and> completes_well c f ph"
  by (auto simp: decide_existing_def waits_well_def completes_well_def split: if_splits)

lemma read_completed_file:
  "read_receipt i f = Some r \<Longrightarrow> completed_duplicate r \<Longrightarrow> completed_file f (rc_result r) (rc_digest r)"
  by (erule read_receipt_Some) (auto simp: completed_duplicate_def completed_file_def)

lemma after_reserve_well:
  "after_reserve c (read_receipt (dc_id c) f) = (ph, evs) \<Longrightarrow> waits_well ph \<and> completes_well c f ph"
  by (cases "read_receipt (dc_id c) f")
    (auto simp: after_reserve_def waits_well_def completes_well_def conflict_outcome_def
      dest: decide_well [of c _ ph evs f] read_completed_file split: if_splits)

lemma after_wait_well:
  "after_wait c r = (ph, evs) \<Longrightarrow> read_receipt (dc_id c) f = Some r \<or> \<not> completed_duplicate r \<Longrightarrow>
     waits_well ph \<and> completes_well c f ph"
  by (auto simp: after_wait_def waits_well_def completes_well_def conflict_outcome_def
      dest: decide_well [of c _ ph evs f] read_completed_file split: if_splits)

lemma not_claimed_well:
  "not_claimed c (read_receipt (dc_id c) f) = (ph, evs) \<Longrightarrow> waits_well ph \<and> completes_well c f ph"
  by (cases "read_receipt (dc_id c) f")
    (auto simp: not_claimed_def waits_well_def completes_well_def conflict_outcome_def
      dest: read_completed_file split: if_splits)

lemma wait_poll_well:
  assumes "wait_poll c d r f = (ph, evs)" and "\<not> completed_duplicate r"
  shows "waits_well ph \<and> completes_well c f ph"
proof (cases "read_receipt (dc_id c) f")
  case None
  with assms after_wait_well show ?thesis by (simp add: wait_poll_def)
next
  case (Some r')
  show ?thesis
  proof (cases "d \<or> rc_state r' = Completed \<or> rc_state r' = Uncertain")
    case True
    with Some assms(1) have "after_wait c r' = (ph, evs)" by (auto simp: wait_poll_def)
    with after_wait_well Some show ?thesis by blast
  next
    case False
    with Some assms show ?thesis by (auto simp: wait_poll_def waits_well_def completes_well_def)
  qed
qed

lemma throw_well: "waits_well (throw_to c k m)" "completes_well c' f (throw_to c k m)"
  by (simp_all add: throw_to_def waits_well_def completes_well_def split: catcher.split)

lemma claim_cases:
  "claim_receipt now alive w c u f = (Inr (False, read_receipt (dc_id c) f), f) \<or>
   (\<exists>e f'. claim_receipt now alive w c u f = (Inl e, f')) \<or>
   (\<exists>r f'. claim_receipt now alive w c u f = (Inr (True, Some r), f'))"
  by (simp add: claim_receipt_def split: option.split)

lemma call_step_well:
  assumes "call_step c i ph f = ((ph', evs), f')" and "waits_well ph" and "completes_well c f ph"
  shows "waits_well ph' \<and> completes_well c f' ph'"
proof (cases ph)
  case Ph_start
  show ?thesis
  proof (cases "f = No_file")
    case True
    with Ph_start assms(1) show ?thesis
      by (cases "si_io i") (auto simp: call_step_defs reserve_receipt_def waits_well_def completes_well_def)
  next
    case False
    with Ph_start assms(1) after_reserve_well [of c f ph' evs] show ?thesis
      by (cases "si_io i") (auto simp: call_step_defs reserve_receipt_def waits_well_def completes_well_def)
  qed
next
  case (Ph_waiting r)
  with assms wait_poll_well [of c "si_deadline i" r f ph' evs] show ?thesis
    by (auto simp: call_step_defs waits_well_def)
next
  case (Ph_claiming r)
  consider "claim_receipt (si_now i) (si_alive i) (si_io i) c (rc_state r = Uncertain \<and> dc_recover_uncertain c) f =
        (Inr (False, read_receipt (dc_id c) f), f)"
    | e f'' where "claim_receipt (si_now i) (si_alive i) (si_io i) c (rc_state r = Uncertain \<and> dc_recover_uncertain c) f =
        (Inl e, f'')"
    | r' f'' where "claim_receipt (si_now i) (si_alive i) (si_io i) c (rc_state r = Uncertain \<and> dc_recover_uncertain c) f =
        (Inr (True, Some r'), f'')"
    using claim_cases by blast
  then show ?thesis
  proof cases
    case 1
    with Ph_claiming assms(1) not_claimed_well [of c f ph' evs] show ?thesis by (auto simp: call_step_defs)
  next
    case 2
    with Ph_claiming assms(1) show ?thesis by (auto simp: call_step_defs waits_well_def completes_well_def)
  next
    case 3
    with Ph_claiming assms(1) show ?thesis by (auto simp: call_step_defs waits_well_def completes_well_def)
  qed
next
  case (Ph_claimed r rf e)
  then show ?thesis using assms(1)
    by (auto simp: call_step_defs waits_well_def completes_well_def
        split: option.splits if_splits bool.splits prod.splits)
next
  case Ph_delivering
  with assms(1) throw_well show ?thesis
    by (cases "si_delivered i") (auto simp: call_step_defs waits_well_def completes_well_def)
next
  case Ph_redelivering
  with assms(1) throw_well show ?thesis
    by (cases "si_delivered i") (auto simp: call_step_defs waits_well_def completes_well_def)
next
  case (Ph_recovering d)
  with assms(1) show ?thesis
    by (cases "si_recovery i") (auto simp: call_step_defs waits_well_def completes_well_def)
next
  case (Ph_settling v d k)
  show ?thesis
  proof (cases "read_receipt (dc_id c) f")
    case None
    with Ph_settling assms(1) throw_well show ?thesis
      by (cases "si_io i") (auto simp: call_step_defs settle_owned_def mutate_owned_def waits_well_def completes_well_def)
  next
    case (Some r)
    with Ph_settling assms(1) throw_well show ?thesis
      by (cases "si_io i") (auto simp: call_step_defs settle_owned_def mutate_owned_def waits_well_def
          completes_well_def completed_file_def completed_receipt_def disowned_def owned_def split: if_splits)
  qed
next
  case (Ph_marking m l d k)
  then show ?thesis using assms(1) throw_well
    by (auto simp: call_step_defs waits_well_def completes_well_def split: prod.splits sum.splits bool.splits)
next
  case (Ph_releasing m d k)
  then show ?thesis using assms(1) throw_well
    by (auto simp: call_step_defs waits_well_def completes_well_def split: prod.splits sum.splits bool.splits)
next
  case (Ph_done out)
  with assms show ?thesis by (simp add: call_step_defs)
qed

section \<open>What the interleavings of several calls guarantee\<close>

definition pending_total :: "delivery_world \<Rightarrow> nat" where
  "pending_total w = sum_list (map (\<lambda>s. pending_first (cl_phase s)) (dw_calls w))"

definition world_ok :: "(nat \<Rightarrow> delivery_call) \<Rightarrow> delivery_world \<Rightarrow> bool" where
  "world_ok call w \<longleftrightarrow>
     count_list (dw_log w) Ev_delivered + pending_total w \<le>
       count_list (dw_log w) Ev_created + count_list (dw_log w) Ev_retry \<and>
     count_list (dw_log w) Ev_created \<le> count_list (dw_log w) Ev_removed + file_exists (dw_file w) \<and>
     (\<forall>k < length (dw_calls w). waits_well (cl_phase (dw_calls w ! k)) \<and>
        completes_well (call k) (dw_file w) (cl_phase (dw_calls w ! k)) \<and>
        (cl_phase (dw_calls w ! k) = Ph_redelivering \<longrightarrow> \<not> cl_heartbeat (dw_calls w ! k)))"

lemma sum_list_update_nat:
  fixes xs :: "nat list"
  shows "k < length xs \<Longrightarrow> sum_list (xs[k := y]) + xs ! k = sum_list xs + y"
  by (induction xs arbitrary: k) (auto split: nat.split)

lemma pending_update:
  assumes "k < length cs"
  shows "sum_list (map (\<lambda>s. pending_first (cl_phase s)) (cs[k := s'])) + pending_first (cl_phase (cs ! k)) =
    sum_list (map (\<lambda>s. pending_first (cl_phase s)) cs) + pending_first (cl_phase s')"
  using sum_list_update_nat [of k "map (\<lambda>s. pending_first (cl_phase s)) cs" "pending_first (cl_phase s')"] assms
  by (simp add: map_update)

lemma completes_well_mono:
  assumes "completes_well c f ph" and "\<And>v d. completed_file f v d \<Longrightarrow> f' = f"
  shows "completes_well c f' ph"
  using assms by (auto simp: completes_well_def split: phase.splits outcome.splits)

lemma world_call_ok:
  assumes ok: "world_ok call w" and k: "k < length (dw_calls w)"
  shows "world_ok call (world_call call k i w)"
proof -
  let ?s = "dw_calls w ! k" and ?f = "dw_file w"
  obtain ph evs f where st: "call_step (call k) i (cl_phase ?s) ?f = ((ph, evs), f)" by (metis prod.collapse)
  let ?s' = "\<lparr>cl_phase = ph, cl_heartbeat = heartbeat_after (cl_phase ?s) ph (cl_heartbeat ?s)\<rparr>"
  have w': "world_call call k i w = \<lparr>dw_file = f, dw_calls = (dw_calls w)[k := ?s'], dw_log = dw_log w @ evs\<rparr>"
    by (simp add: world_call_def Let_def st)
  note counts = call_step_counts [OF st]
  have pend: "pending_total (world_call call k i w) + pending_first (cl_phase ?s) = pending_total w + pending_first ph"
    using pending_update [OF k, of ?s'] by (simp add: w' pending_total_def)
  have fix_file: "completed_file ?f v d \<Longrightarrow> f = ?f" for v d
    using completed_stays [of ?f v d "call k" i "cl_phase ?s"] st by simp
  have "waits_well (cl_phase ?s) \<and> completes_well (call k) ?f (cl_phase ?s)" using ok k by (simp add: world_ok_def)
  then have here: "waits_well ph \<and> completes_well (call k) f ph" using call_step_well [OF st] by blast
  have others: "completes_well (call j) f (cl_phase (dw_calls w ! j))" if "j < length (dw_calls w)" for j
    by (rule completes_well_mono [OF _ fix_file]) (use ok that in \<open>simp_all add: world_ok_def\<close>)
  have hb: "cl_phase ?s' = Ph_redelivering \<longrightarrow> \<not> cl_heartbeat ?s'" by (simp add: heartbeat_after_def)
  have "waits_well (cl_phase ((dw_calls w)[k := ?s'] ! j)) \<and>
        completes_well (call j) f (cl_phase ((dw_calls w)[k := ?s'] ! j)) \<and>
        (cl_phase ((dw_calls w)[k := ?s'] ! j) = Ph_redelivering \<longrightarrow> \<not> cl_heartbeat ((dw_calls w)[k := ?s'] ! j))"
    if j: "j < length (dw_calls w)" for j
  proof (cases "j = k")
    case True
    with here hb k show ?thesis by simp
  next
    case False
    with others [OF j] ok j show ?thesis by (simp add: world_ok_def)
  qed
  then have calls: "\<forall>j < length (dw_calls (world_call call k i w)).
        waits_well (cl_phase (dw_calls (world_call call k i w) ! j)) \<and>
        completes_well (call j) f (cl_phase (dw_calls (world_call call k i w) ! j)) \<and>
        (cl_phase (dw_calls (world_call call k i w) ! j) = Ph_redelivering \<longrightarrow>
           \<not> cl_heartbeat (dw_calls (world_call call k i w) ! j))"
    by (simp add: w')
  have fl: "dw_file (world_call call k i w) = f" and log: "dw_log (world_call call k i w) = dw_log w @ evs"
    by (simp_all add: w')
  have c1: "count_list (dw_log w) Ev_delivered + pending_total w \<le>
       count_list (dw_log w) Ev_created + count_list (dw_log w) Ev_retry"
    and c2: "count_list (dw_log w) Ev_created \<le> count_list (dw_log w) Ev_removed + file_exists ?f"
    using ok by (simp_all add: world_ok_def)
  have "count_list (dw_log w @ evs) Ev_delivered + pending_total (world_call call k i w) \<le>
       count_list (dw_log w @ evs) Ev_created + count_list (dw_log w @ evs) Ev_retry"
    unfolding count_list_append using c1 counts(1) pend by linarith
  moreover have "count_list (dw_log w @ evs) Ev_created \<le> count_list (dw_log w @ evs) Ev_removed + file_exists f"
    unfolding count_list_append using c2 counts(2) by linarith
  ultimately show ?thesis
    unfolding world_ok_def fl log using calls by blast
qed

lemma world_renew_ok:
  assumes ok: "world_ok call w" and k: "k < length (dw_calls w)"
  shows "world_ok call (world_renew call k now w)"
proof (cases "cl_heartbeat (dw_calls w ! k)")
  case False
  then show ?thesis using ok by (simp add: world_renew_def Let_def case_prod_beta)
next
  case True
  let ?s = "dw_calls w ! k"
  obtain b f where r: "renew_receipt now (call k) False (dw_file w) = (b, f)" by force
  have w': "world_renew call k now w = w\<lparr>dw_file := f, dw_calls := (dw_calls w)[k := ?s\<lparr>cl_heartbeat := b\<rparr>]\<rparr>"
    using True r by (simp add: world_renew_def Let_def)
  have ex: "file_exists f = file_exists (dw_file w)"
    using r by (auto simp: renew_receipt_def file_exists_def split: receipt_file.splits if_splits)
  have fix_file: "completed_file (dw_file w) v d \<Longrightarrow> f = dw_file w" for v d
    using renew_receipt_completed [of "dw_file w" v d now "call k" False] r by simp
  have "pending_total (world_renew call k now w) = pending_total w"
    using pending_update [OF k, of "?s\<lparr>cl_heartbeat := b\<rparr>"] by (simp add: w' pending_total_def)
  moreover have "completes_well (call j) f (cl_phase (dw_calls w ! j))" if "j < length (dw_calls w)" for j
    by (rule completes_well_mono [OF _ fix_file]) (use ok that in \<open>simp_all add: world_ok_def\<close>)
  moreover have "waits_well (cl_phase ((dw_calls w)[k := ?s\<lparr>cl_heartbeat := b\<rparr>] ! j)) \<and>
        completes_well (call j) f (cl_phase ((dw_calls w)[k := ?s\<lparr>cl_heartbeat := b\<rparr>] ! j)) \<and>
        (cl_phase ((dw_calls w)[k := ?s\<lparr>cl_heartbeat := b\<rparr>] ! j) = Ph_redelivering \<longrightarrow>
           \<not> cl_heartbeat ((dw_calls w)[k := ?s\<lparr>cl_heartbeat := b\<rparr>] ! j))"
    if j: "j < length (dw_calls w)" for j
  proof (cases "j = k")
    case True
    have "waits_well (cl_phase ?s)" "completes_well (call k) f (cl_phase ?s)" "cl_phase ?s \<noteq> Ph_redelivering"
      using ok k \<open>cl_heartbeat ?s\<close> calculation(2) by (auto simp: world_ok_def)
    with True k show ?thesis by simp
  next
    case False
    with calculation(2) [OF j] ok j show ?thesis by (simp add: world_ok_def)
  qed
  ultimately show ?thesis using ok ex by (simp add: world_ok_def w')
qed

lemma world_reachable_ok: "world_reachable call w \<Longrightarrow> world_ok call w"
proof -
  have "(world_step call)\<^sup>*\<^sup>* (start_world n) w \<Longrightarrow> world_ok call w" for n
  proof (induction rule: rtranclp_induct)
    case base
    have "pending_total (start_world n) = 0"
      by (simp add: pending_total_def start_world_def sum_list_replicate)
    then show ?case
      by (auto simp: world_ok_def start_world_def waits_well_def completes_well_def file_exists_def)
  next
    case (step w1 w2)
    then show ?case by (auto elim!: world_step.cases intro: world_call_ok world_renew_ok)
  qed
  then show "world_reachable call w \<Longrightarrow> world_ok call w" by (auto simp: world_reachable_def)
qed

text \<open>When every step under the mutation lock is one step: calls that complete without a rejection of
  their own have been for the same payload and report the same result, which is the one in the
  receipt. \<open>DeliveryLocking\<close> takes the accesses apart.\<close>

lemma whole_steps_agree:
  assumes "world_reachable call w" and "j < length (dw_calls w)" and "k < length (dw_calls w)"
    and "cl_phase (dw_calls w ! j) = Ph_done (Out_completed dup v)"
    and "cl_phase (dw_calls w ! k) = Ph_done (Out_completed dup' v')"
    and "\<not> dc_retryable (call j) v" and "\<not> dc_retryable (call k) v'"
  shows "v = v' \<and> dc_digest (call j) = dc_digest (call k) \<and>
    (\<exists>r t. dw_file w = Receipt_file r t \<and> rc_state r = Completed \<and> rc_result r = v \<and> rc_digest r = dc_digest (call j))"
proof -
  have "completes_well (call j) (dw_file w) (Ph_done (Out_completed dup v))"
    "completes_well (call k) (dw_file w) (Ph_done (Out_completed dup' v'))"
    using world_reachable_ok [OF assms(1)] assms(2-5) unfolding world_ok_def by metis+
  with assms(6,7) have "completed_file (dw_file w) v (dc_digest (call j))"
    "completed_file (dw_file w) v' (dc_digest (call k))" by (simp_all add: completes_well_def)
  then show ?thesis by (auto simp: completed_file_def)
qed

text \<open>C13: The delivery itself is made at most once for the first receipt, once more for each receipt
  that a rejection released and once more for each retry that a recovery allowed, whatever the
  interleaving of the calls.\<close>

theorem delivered_at_most_once:
  assumes "world_reachable call w"
  shows "count_list (dw_log w) Ev_delivered \<le>
    1 + count_list (dw_log w) Ev_removed + count_list (dw_log w) Ev_retry"
proof -
  have "file_exists (dw_file w) \<le> 1" by (simp add: file_exists_def)
  with world_reachable_ok [OF assms] show ?thesis unfolding world_ok_def by linarith
qed

section \<open>Every call ends\<close>

fun catch_rank :: "catcher \<Rightarrow> nat" where
  "catch_rank Catch_none = 0"
| "catch_rank (Catch_outer _) = 1"
| "catch_rank Catch_retry = 1"
| "catch_rank Catch_first = 4"

fun phase_rank :: "phase \<Rightarrow> nat" where
  "phase_rank (Ph_done _) = 0"
| "phase_rank (Ph_marking _ _ _ k) = 1 + catch_rank k"
| "phase_rank (Ph_releasing _ _ k) = 1 + catch_rank k"
| "phase_rank (Ph_settling _ _ k) = 1 + catch_rank k"
| "phase_rank Ph_redelivering = 3"
| "phase_rank (Ph_recovering _) = 4"
| "phase_rank Ph_delivering = 6"
| "phase_rank (Ph_claimed _ _ _) = 7"
| "phase_rank (Ph_claiming _) = 8"
| "phase_rank (Ph_waiting _) = 9"
| "phase_rank Ph_start = 10"

lemma throw_rank: "phase_rank (throw_to c k m) \<le> catch_rank k"
  by (cases k) (auto simp: throw_to_def)

lemma decide_rank: "phase_rank (fst (decide_existing c r)) \<le> 8"
  by (simp add: decide_existing_def)

lemma after_rank:
  "phase_rank (fst (after_reserve c found)) \<le> 9" "phase_rank (fst (after_wait c r)) \<le> 8"
  "phase_rank (fst (not_claimed c found)) = 0"
  using decide_rank [of c]
  by (auto simp: after_reserve_def after_wait_def not_claimed_def conflict_outcome_def le_SucI
      intro: order_trans [OF decide_rank] split: option.split)

lemma wait_rank:
  "phase_rank (fst (wait_poll c d r f)) \<le> 8 \<or> (\<not> d \<and> fst (wait_poll c d r f) = Ph_waiting r)"
  using after_rank(2) by (auto simp: wait_poll_def split: option.split)

lemma call_step_rank:
  assumes "call_step c i ph f = ((ph', evs), f')" and "phase_rank ph \<noteq> 0"
  shows "phase_rank ph' < phase_rank ph \<or> (\<not> si_deadline i \<and> ph' = ph)"
proof (cases ph)
  case Ph_start
  have "phase_rank ph' \<le> 9"
  proof (cases "f = No_file")
    case True
    with Ph_start assms(1) show ?thesis
      by (cases "si_io i") (auto simp: call_step_defs reserve_receipt_def)
  next
    case False
    with Ph_start assms(1) after_rank(1) [of c "read_receipt (dc_id c) f"] show ?thesis
      by (cases "si_io i") (auto simp: call_step_defs reserve_receipt_def)
  qed
  with Ph_start show ?thesis by simp
next
  case (Ph_waiting r)
  with assms(1) have "ph' = fst (wait_poll c (si_deadline i) r f)" by (auto simp: call_step_defs)
  with Ph_waiting wait_rank [of c "si_deadline i" r f] show ?thesis by auto
next
  case (Ph_claiming r)
  have "phase_rank ph' \<le> 7"
    using claim_cases [of "si_now i" "si_alive i" "si_io i" c "rc_state r = Uncertain \<and> dc_recover_uncertain c" f]
      assms(1) Ph_claiming after_rank(3) [of c "read_receipt (dc_id c) f"]
    by (auto simp: call_step_defs)
  with Ph_claiming show ?thesis by simp
next
  case (Ph_claimed r rf e)
  have "phase_rank ph' \<le> 6"
    using assms(1) Ph_claimed
    by (auto simp: call_step_defs split: option.splits if_splits bool.splits prod.splits)
  with Ph_claimed show ?thesis by simp
next
  case Ph_delivering
  have "phase_rank ph' \<le> 5"
    using assms(1) Ph_delivering order_trans [OF throw_rank [of c Catch_first]]
    by (cases "si_delivered i") (auto simp: call_step_defs)
  with Ph_delivering show ?thesis by simp
next
  case Ph_redelivering
  have "phase_rank ph' \<le> 2"
    using assms(1) Ph_redelivering order_trans [OF throw_rank [of c Catch_retry]]
    by (cases "si_delivered i") (auto simp: call_step_defs)
  with Ph_redelivering show ?thesis by simp
next
  case (Ph_recovering d)
  with assms(1) show ?thesis by (cases "si_recovery i") (auto simp: call_step_defs)
next
  case (Ph_settling v d k)
  have "phase_rank ph' \<le> catch_rank k"
    using assms(1) Ph_settling throw_rank [of c k io_message]
    by (auto simp: call_step_defs split: prod.splits sum.splits bool.splits)
  with Ph_settling show ?thesis by simp
next
  case (Ph_marking m l d k)
  have "phase_rank ph' \<le> catch_rank k"
    using assms(1) Ph_marking throw_rank [of c k io_message]
    by (auto simp: call_step_defs split: prod.splits sum.splits bool.splits)
  with Ph_marking show ?thesis by simp
next
  case (Ph_releasing m d k)
  have "phase_rank ph' \<le> catch_rank k"
    using assms(1) Ph_releasing throw_rank [of c k io_message]
    by (auto simp: call_step_defs split: prod.splits sum.splits bool.splits)
  with Ph_releasing show ?thesis by simp
next
  case (Ph_done out)
  with assms(2) show ?thesis by simp
qed

text \<open>The steps of one call against whatever the file holds at each of them.\<close>

definition call_run :: "delivery_call \<Rightarrow> (step_input \<times> receipt_file) list \<Rightarrow> phase \<Rightarrow> phase" where
  "call_run c xs ph = foldl (\<lambda>p (i, f). fst (fst (call_step c i p f))) ph xs"

lemma call_run_rank:
  "phase_rank (call_run c xs ph) = 0 \<or>
   phase_rank (call_run c xs ph) + length (filter (\<lambda>x. si_deadline (fst x)) xs) \<le> phase_rank ph"
proof (induction xs arbitrary: ph)
  case Nil
  then show ?case by (simp add: call_run_def)
next
  case (Cons x xs)
  obtain i f where x: "x = (i, f)" by (cases x)
  obtain ph' evs f' where st: "call_step c i ph f = ((ph', evs), f')" by (metis prod.collapse)
  have run: "call_run c (x # xs) ph = call_run c xs ph'" by (simp add: call_run_def x st)
  show ?case
  proof (cases "phase_rank ph = 0")
    case True
    then obtain out where "ph = Ph_done out" by (cases ph) auto
    then have "phase_rank ph' = 0" using st by (auto simp: call_step_defs)
    with Cons.IH [of ph'] show ?thesis by (auto simp: run)
  next
    case False
    from call_step_rank [OF st False] Cons.IH [of ph'] show ?thesis unfolding run by (auto simp: x)
  qed
qed

text \<open>A call always ends: whatever the other calls do to the receipt and however its file accesses
  and deliveries turn out, ten steps that are no polls before the deadline bring every call to its
  outcome.\<close>

lemma delivery_call_ends:
  assumes "10 \<le> length (filter (\<lambda>x. si_deadline (fst x)) xs)"
  shows "\<exists>out. call_run c xs Ph_start = Ph_done out"
proof -
  have "phase_rank (call_run c xs Ph_start) = 0"
    using call_run_rank [of c xs Ph_start] assms by auto
  then show ?thesis by (cases "call_run c xs Ph_start") auto
qed

section \<open>The retry is not protected\<close>

definition two_calls :: "nat \<Rightarrow> delivery_call" where
  "two_calls k = \<lparr>dc_id = ''d'', dc_digest = ''h'', dc_execution = (if k = 0 then ''e0'' else ''e1''),
     dc_host = (if k = 0 then ''alpha'' else ''beta''), dc_pid = 7, dc_lease = 100, dc_audit = None,
     dc_recover = True, dc_recover_uncertain = False, dc_retryable = (\<lambda>_. False)\<rparr>"

definition input_at :: "int \<Rightarrow> step_input" where
  "input_at now = \<lparr>si_now = now, si_io = Io_ok, si_alive = (\<lambda>_. True), si_deadline = True, si_heartbeat = None,
     si_delivered = Delivery_failed ''reset'', si_recovery = Recover_retry\<rparr>"

definition run_calls :: "(nat \<times> int) list \<Rightarrow> delivery_world \<Rightarrow> delivery_world" where
  "run_calls ks w = foldl (\<lambda>w (k, now). world_call two_calls k (input_at now) w) w ks"

text \<open>The first call reserves, delivers, fails and is allowed a retry; 999 milliseconds later the second
  one waits, claims and is allowed a retry as well.\<close>

definition race :: "(nat \<times> int) list" where
  "race = [(0, 0), (0, 1), (0, 2), (0, 3), (1, 1000), (1, 1000), (1, 1000), (1, 1001), (1, 1002)]"

lemma reachable_call:
  "world_reachable call w \<Longrightarrow> k < length (dw_calls w) \<Longrightarrow> world_reachable call (world_call call k i w)"
  unfolding world_reachable_def by (meson rtranclp.rtrancl_into_rtrancl step_call)

lemma length_world_call [simp]: "length (dw_calls (world_call call k i w)) = length (dw_calls w)"
  by (auto simp: world_call_def Let_def split: prod.split)

lemma run_calls_reachable:
  assumes "\<forall>(k, now) \<in> set ks. k < n"
  shows "world_reachable two_calls (run_calls ks (start_world n)) \<and> length (dw_calls (run_calls ks (start_world n))) = n"
  using assms
proof (induction ks rule: rev_induct)
  case Nil
  show ?case by (auto simp: run_calls_def world_reachable_def start_world_def)
next
  case (snoc x ks)
  obtain k now where x: "x = (k, now)" by (cases x)
  let ?w = "run_calls ks (start_world n)"
  have w: "world_reachable two_calls ?w" "length (dw_calls ?w) = n" "k < n" using snoc x by auto
  have "world_reachable two_calls (world_call two_calls k (input_at now) ?w)"
    using w by (intro reachable_call) simp_all
  moreover have "length (dw_calls (world_call two_calls k (input_at now) ?w)) = n"
    using w by simp
  ultimately show ?case by (simp add: run_calls_def x)
qed

lemma race_result:
  "map cl_phase (dw_calls (run_calls race (start_world 2))) = [Ph_redelivering, Ph_redelivering]"
  by code_simp

text \<open>C34: A retry that a recovery has allowed runs without its heartbeat, because
  \<open>return deliverOnce(false)\<close> leaves the \<open>try\<close> block, whose \<open>finally\<close> stops the worker, before the
  delivery has settled: no call is ever retrying with a running heartbeat, and two calls on
  different hosts can be retrying the same delivery at the same time.\<close>

theorem retry_runs_unprotected:
  shows "(\<forall>call w k. world_reachable call w \<and> k < length (dw_calls w) \<and>
      cl_phase (dw_calls w ! k) = Ph_redelivering \<longrightarrow>
        \<not> cl_heartbeat (dw_calls w ! k) \<and> (\<forall>now. world_renew call k now w = w)) \<and>
    (\<exists>call w. world_reachable call w \<and> dc_host (call 0) \<noteq> dc_host (call 1) \<and> dc_id (call 0) = dc_id (call 1) \<and>
      map cl_phase (dw_calls w) = [Ph_redelivering, Ph_redelivering])"
proof -
  have "\<not> cl_heartbeat (dw_calls w ! k) \<and> (\<forall>now. world_renew call k now w = w)"
    if "world_reachable call w" "k < length (dw_calls w)" "cl_phase (dw_calls w ! k) = Ph_redelivering" for call w k
  proof -
    have "\<not> cl_heartbeat (dw_calls w ! k)"
      using world_reachable_ok [OF that(1)] that(2,3) by (simp add: world_ok_def)
    then show ?thesis by (simp add: world_renew_def Let_def case_prod_beta)
  qed
  moreover have "\<exists>call w. world_reachable call w \<and> dc_host (call 0) \<noteq> dc_host (call 1) \<and> dc_id (call 0) = dc_id (call 1) \<and>
      map cl_phase (dw_calls w) = [Ph_redelivering, Ph_redelivering]"
    using run_calls_reachable [of race 2] race_result
    by (intro exI [of _ two_calls] exI [of _ "run_calls race (start_world 2)"])
      (simp add: two_calls_def race_def)
  ultimately show ?thesis by blast
qed

section \<open>The properties on concrete worlds\<close>

definition success_at :: "int \<Rightarrow> step_input" where
  "success_at now = (input_at now)\<lparr>si_delivered := Delivered (Some (JNum 5))\<rparr>"

definition success_world :: delivery_world where
  "success_world = foldl (\<lambda>w (k, now). world_call two_calls k (success_at now) w) (start_world 2)
     [(0, 0), (0, 1), (0, 2), (0, 3), (1, 4)]"

lemma success_reachable: "world_reachable two_calls success_world"
proof -
  have "world_reachable two_calls (start_world 2)" "length (dw_calls (start_world 2)) = 2"
    by (auto simp: world_reachable_def start_world_def)
  then show ?thesis unfolding success_world_def by (simp add: reachable_call)
qed

lemma success_phases: "map cl_phase (dw_calls success_world) =
    [Ph_done (Out_completed False (Some (JNum 5))), Ph_done (Out_completed True (Some (JNum 5)))]"
  "count_list (dw_log success_world) Ev_delivered = 1"
  by code_simp+

lemma delivered_at_most_once_witness:
  "count_list (dw_log success_world) Ev_delivered \<le>
     1 + count_list (dw_log success_world) Ev_removed + count_list (dw_log success_world) Ev_retry"
  by (rule delivered_at_most_once [OF success_reachable])

lemma delivery_call_ends_witness:
  "\<exists>out. call_run (two_calls 0) (replicate 10 (input_at 0, No_file)) Ph_start = Ph_done out"
  by (rule delivery_call_ends) (simp add: filter_replicate input_at_def)

lemma retry_runs_unprotected_witness:
  "\<not> cl_heartbeat (dw_calls (run_calls race (start_world 2)) ! 1)"
proof -
  have len: "length (dw_calls (run_calls race (start_world 2))) = 2"
    using arg_cong [OF race_result, of length] by simp
  have "cl_phase (dw_calls (run_calls race (start_world 2)) ! 1) = Ph_redelivering"
    using arg_cong [OF race_result, of "\<lambda>xs. xs ! 1"] len by simp
  with retry_runs_unprotected run_calls_reachable [of race 2] len show ?thesis
    by (force simp: race_def)
qed

end
