(* ===== verification/EventMachines.thy ===== *)
theory EventMachines
  imports Prelude
begin

text \<open>
  Components that are driven by events: a step gives the next state, or nothing when the event
  cannot happen in the state. The two interfaces say what a component proves of one event, and
  what then holds of every run.
\<close>

fun run_events :: "('e \<Rightarrow> 's \<Rightarrow> 's option) \<Rightarrow> 'e list \<Rightarrow> 's \<Rightarrow> 's option" where
  "run_events step [] s = Some s"
| "run_events step (e # es) s = (case step e s of None \<Rightarrow> None | Some s' \<Rightarrow> run_events step es s')"

lemma run_events_Cons:
  assumes "run_events step (e # es) s = Some s'"
  obtains s1 where "step e s = Some s1" and "run_events step es s1 = Some s'"
  using assms by (auto split: option.splits)

lemma run_events_append:
  "run_events step (es @ es') s = (case run_events step es s of None \<Rightarrow> None | Some s' \<Rightarrow> run_events step es' s')"
  by (induction es arbitrary: s) (auto split: option.split)

text \<open>An invariant that the allowed events keep.\<close>

locale event_machine =
  fixes step :: "'e \<Rightarrow> 's \<Rightarrow> 's option"
    and inv :: "'s \<Rightarrow> bool"
    and allowed :: "'e \<Rightarrow> bool"
  assumes step_keeps: "inv s \<Longrightarrow> allowed e \<Longrightarrow> step e s = Some s' \<Longrightarrow> inv s'"
begin

lemma run_keeps: "run_events step es s = Some s' \<Longrightarrow> list_all allowed es \<Longrightarrow> inv s \<Longrightarrow> inv s'"
proof (induction es arbitrary: s)
  case (Cons e es)
  from Cons.prems(1) obtain s1 where "step e s = Some s1" "run_events step es s1 = Some s'" by (rule run_events_Cons)
  with Cons step_keeps show ?case by auto
qed simp

end

text \<open>What the events do to a state, seen from where the run began.\<close>

locale tracked_machine = event_machine +
  fixes since :: "'s \<Rightarrow> 's \<Rightarrow> bool"
  assumes since_refl: "since s s"
    and since_trans: "since s s1 \<Longrightarrow> since s1 s2 \<Longrightarrow> since s s2"
    and step_since: "inv s \<Longrightarrow> allowed e \<Longrightarrow> step e s = Some s' \<Longrightarrow> since s s'"
begin

lemma run_since: "run_events step es s = Some s' \<Longrightarrow> list_all allowed es \<Longrightarrow> inv s \<Longrightarrow> since s s'"
proof (induction es arbitrary: s)
  case Nil
  then show ?case by (simp add: since_refl)
next
  case (Cons e es)
  from Cons.prems(1) obtain s1 where s1: "step e s = Some s1" "run_events step es s1 = Some s'" by (rule run_events_Cons)
  moreover have "inv s1" using s1(1) Cons.prems(2,3) by (auto intro: step_keeps)
  ultimately have "since s1 s'" using Cons.IH Cons.prems(2) by simp
  moreover have "since s s1" using step_since [OF Cons.prems(3) _ s1(1)] Cons.prems(2) by simp
  ultimately show ?case by (rule since_trans [rotated])
qed

end

end
