(* ===== verification/DeliveryLocking.thy ===== *)
theory DeliveryLocking
  imports DeliveryProtocol EventMachines
begin

text \<open>
  The calls of \<open>executeDurableDelivery\<close> again, with the accesses of each operation apart: the receipt is
  created empty and then written, it is read after a creation that found it, and \<open>claimReceipt\<close> and
  \<open>mutateOwnedReceipt\<close> of \<open>src/manager/durableDeliveryIdempotency.ts\<close> read it when they have the mutation lock and
  write it before they leave. The steps of a call are those of \<open>DeliveryProtocol\<close>, applied to what was read.
  The lock is assumed to exclude: \<open>FileLocks\<close> shows when it does, and that it does not when two processes
  reclaim the lock of a dead one. A renewal, which only moves the time of the file, is one step.
\<close>

section \<open>The accesses of a call\<close>

datatype access = At_rest | Seen_existing | Created receipt | Holding receipt_file | Gone

record locking_call =
  lk_phase :: phase
  lk_heartbeat :: bool
  lk_access :: access

record locking_world =
  lo_file :: receipt_file
  lo_calls :: "locking_call list"

definition start_locking :: "nat \<Rightarrow> locking_world" where
  "start_locking n = \<lparr>lo_file = No_file,
     lo_calls = replicate n \<lparr>lk_phase = Ph_start, lk_heartbeat = False, lk_access = At_rest\<rparr>\<rparr>"

text \<open>The phases whose step runs under the mutation lock.\<close>

definition locked_phase :: "phase \<Rightarrow> bool" where
  "locked_phase ph = (case ph of Ph_claiming r \<Rightarrow> True | Ph_settling v d k \<Rightarrow> True | Ph_marking m l d k \<Rightarrow> True
     | Ph_releasing m d k \<Rightarrow> True | _ \<Rightarrow> False)"

definition put_call :: "nat \<Rightarrow> phase \<Rightarrow> access \<Rightarrow> locking_world \<Rightarrow> locking_world" where
  "put_call k ph a w = w\<lparr>lo_calls := (lo_calls w)[k :=
     \<lparr>lk_phase = ph, lk_heartbeat = heartbeat_after (lk_phase (lo_calls w ! k)) ph (lk_heartbeat (lo_calls w ! k)), lk_access = a\<rparr>]\<rparr>"

text \<open>\<open>reserveReceipt\<close>: the exclusive creation, the writing of the receipt, and the reading of one that was there.\<close>

definition open_receipt :: "delivery_call \<Rightarrow> nat \<Rightarrow> step_input \<Rightarrow> locking_world \<Rightarrow> locking_world" where
  "open_receipt c k i w =
     (if si_io i = Io_refused then put_call k (Ph_done Out_thrown) At_rest w
      else if lo_file w \<noteq> No_file then put_call k Ph_start Seen_existing w
      else (put_call k Ph_start (Created (sending_receipt (si_now i) c)) w)\<lparr>lo_file := Unreadable\<rparr>)"

definition fill_receipt :: "nat \<Rightarrow> receipt \<Rightarrow> step_input \<Rightarrow> locking_world \<Rightarrow> locking_world" where
  "fill_receipt k r i w =
     (if si_io i \<noteq> Io_ok then put_call k (Ph_done Out_thrown) At_rest w
      else (put_call k (Ph_claimed r False []) At_rest w)\<lparr>lo_file := Receipt_file r (si_now i)\<rparr>)"

definition look_at_receipt :: "delivery_call \<Rightarrow> nat \<Rightarrow> locking_world \<Rightarrow> locking_world" where
  "look_at_receipt c k w = put_call k (fst (after_reserve c (read_receipt (dc_id c) (lo_file w)))) At_rest w"

text \<open>The end of a step under the lock, of which the file has been read before: what it writes replaces the file.\<close>

definition leave_lock :: "delivery_call \<Rightarrow> nat \<Rightarrow> receipt_file \<Rightarrow> step_input \<Rightarrow> locking_world \<Rightarrow> locking_world" where
  "leave_lock c k f0 i w =
     (case call_step c i (lk_phase (lo_calls w ! k)) f0 of
        ((ph, evs), f1) \<Rightarrow> (put_call k ph At_rest w)\<lparr>lo_file := if f1 = f0 then lo_file w else f1\<rparr>)"

definition plain_step :: "delivery_call \<Rightarrow> nat \<Rightarrow> step_input \<Rightarrow> locking_world \<Rightarrow> locking_world" where
  "plain_step c k i w =
     (case call_step c i (lk_phase (lo_calls w ! k)) (lo_file w) of
        ((ph, evs), f1) \<Rightarrow> (put_call k ph At_rest w)\<lparr>lo_file := f1\<rparr>)"

text \<open>\<open>Accesses\<close> takes the next access of a call. A process may die anywhere.\<close>

datatype locking_event = Accesses nat step_input | Renewal nat int | Dies nat

definition next_access :: "delivery_call \<Rightarrow> nat \<Rightarrow> step_input \<Rightarrow> locking_world \<Rightarrow> locking_world option" where
  "next_access c k i w =
     (let s = lo_calls w ! k in
      case lk_access s of
        At_rest \<Rightarrow>
          if lk_phase s = Ph_start then Some (open_receipt c k i w)
          else if locked_phase (lk_phase s) \<and> si_io i \<noteq> Io_refused
          then Some (put_call k (lk_phase s) (Holding (lo_file w)) w)
          else Some (plain_step c k i w)
      | Seen_existing \<Rightarrow> Some (look_at_receipt c k w)
      | Created r \<Rightarrow> Some (fill_receipt k r i w)
      | Holding f0 \<Rightarrow> Some (leave_lock c k f0 i w)
      | Gone \<Rightarrow> None)"

fun raw_step :: "(nat \<Rightarrow> delivery_call) \<Rightarrow> locking_event \<Rightarrow> locking_world \<Rightarrow> locking_world option" where
  "raw_step call (Accesses k i) w = (if k < length (lo_calls w) then next_access (call k) k i w else None)"
| "raw_step call (Renewal k now) w =
     (if k < length (lo_calls w) \<and> lk_heartbeat (lo_calls w ! k) \<and> lk_access (lo_calls w ! k) \<noteq> Gone
      then (case renew_receipt now (call k) False (lo_file w) of
          (ok, f) \<Rightarrow> Some (w\<lparr>lo_file := f, lo_calls := (lo_calls w)[k := (lo_calls w ! k)\<lparr>lk_heartbeat := ok\<rparr>]\<rparr>))
      else None)"
| "raw_step call (Dies k) w =
     (if k < length (lo_calls w) then Some (w\<lparr>lo_calls := (lo_calls w)[k := (lo_calls w ! k)\<lparr>lk_access := Gone\<rparr>]\<rparr>) else None)"

definition holds_lock :: "locking_call \<Rightarrow> bool" where
  "holds_lock s = (case lk_access s of Holding f \<Rightarrow> True | _ \<Rightarrow> False)"

text \<open>The lock excludes: at most one call that lives has read the receipt and not left the lock.\<close>

definition exclusive :: "locking_world \<Rightarrow> bool" where
  "exclusive w \<longleftrightarrow> length (filter holds_lock (lo_calls w)) \<le> 1"

definition locking_step :: "(nat \<Rightarrow> delivery_call) \<Rightarrow> locking_event \<Rightarrow> locking_world \<Rightarrow> locking_world option" where
  "locking_step call e w = (case raw_step call e w of None \<Rightarrow> None | Some w' \<Rightarrow> if exclusive w' then Some w' else None)"

section \<open>What the accesses keep\<close>

lemma exclusive_two:
  assumes "exclusive w" "j < length (lo_calls w)" "k < length (lo_calls w)" "holds_lock (lo_calls w ! j)" "holds_lock (lo_calls w ! k)"
  shows "j = k"
proof (rule ccontr)
  assume ne: "j \<noteq> k"
  have "card {j, k} \<le> card {i. i < length (lo_calls w) \<and> holds_lock (lo_calls w ! i)}"
    using assms(2-5) by (intro card_mono) auto
  then show False using assms(1) ne by (simp add: exclusive_def length_filter_conv_card)
qed

text \<open>A file that is a receipt stays the same receipt.\<close>

definition same_receipt :: "receipt_file \<Rightarrow> receipt_file \<Rightarrow> bool" where
  "same_receipt f0 f \<longleftrightarrow> (\<forall>r t. f0 = Receipt_file r t \<longrightarrow> (\<exists>t'. f = Receipt_file r t'))"

lemma same_receipt_completed: "same_receipt f0 f \<Longrightarrow> completed_file f0 v d \<Longrightarrow> completed_file f v d"
  by (auto simp: same_receipt_def completed_file_def)

lemma same_receipt_refl [simp]: "same_receipt f f"
  by (simp add: same_receipt_def)

lemma same_receipt_trans: "same_receipt f0 f1 \<Longrightarrow> same_receipt f1 f \<Longrightarrow> same_receipt f0 f"
  by (fastforce simp: same_receipt_def)

lemma renew_same: "same_receipt f (snd (renew_receipt now c e f))" "f = Unreadable \<Longrightarrow> snd (renew_receipt now c e f) = Unreadable"
  by (auto simp: same_receipt_def renew_receipt_def)

lemma plain_same:
  assumes "call_step c i ph f = ((ph', evs), f')" and "ph \<noteq> Ph_start" and "locked_phase ph \<longrightarrow> si_io i = Io_refused"
  shows "same_receipt f f'" and "f = Unreadable \<Longrightarrow> f' = Unreadable"
proof -
  have "f' = f \<or> (\<exists>now e. f' = snd (renew_receipt now c e f))"
    using call_step_file [of c i ph f] assms
    by (cases ph) (auto simp: locked_phase_def claim_receipt_def settle_owned_def mark_owned_uncertain_def
        release_owned_sending_def mutate_owned_def)
  then show "same_receipt f f'" and "f = Unreadable \<Longrightarrow> f' = Unreadable" using renew_same by auto
qed

text \<open>A step under the lock writes only where it has read a receipt that was not completed.\<close>

lemma read_nothing [simp]: "read_receipt i No_file = None" "read_receipt i Unreadable = None"
  by (simp_all add: read_receipt_def parse_receipt_def)

lemma locked_writes:
  assumes "call_step c i ph f0 = ((ph', evs), f1)" and "locked_phase ph" and "f1 \<noteq> f0"
  obtains r t where "f0 = Receipt_file r t" and "\<And>v d. \<not> completed_file f0 v d"
proof -
  have c: "\<not> completed_file f0 v d" for v d using completed_stays [of f0 v d c i ph] assms by auto
  have "f0 \<noteq> No_file \<and> f0 \<noteq> Unreadable"
    using call_step_file [of c i ph f0] assms
    by (cases ph) (auto simp: locked_phase_def claim_receipt_def settle_owned_def mark_owned_uncertain_def
        release_owned_sending_def mutate_owned_def split: if_splits)
  then obtain r t where "f0 = Receipt_file r t" by (cases f0) auto
  with c show thesis by (rule that [rotated])
qed

definition access_ok :: "receipt_file \<Rightarrow> locking_call \<Rightarrow> bool" where
  "access_ok f s = (case lk_access s of
     Created r \<Rightarrow> f = Unreadable \<and> lk_phase s = Ph_start
   | Holding f0 \<Rightarrow> same_receipt f0 f \<and> locked_phase (lk_phase s)
   | Seen_existing \<Rightarrow> lk_phase s = Ph_start
   | _ \<Rightarrow> True)"

definition creates :: "locking_call \<Rightarrow> bool" where
  "creates s = (case lk_access s of Created r \<Rightarrow> True | _ \<Rightarrow> False)"

definition locking_ok :: "(nat \<Rightarrow> delivery_call) \<Rightarrow> locking_world \<Rightarrow> bool" where
  "locking_ok call w \<longleftrightarrow> exclusive w \<and>
     (\<forall>k < length (lo_calls w). waits_well (lk_phase (lo_calls w ! k)) \<and>
        completes_well (call k) (lo_file w) (lk_phase (lo_calls w ! k)) \<and> access_ok (lo_file w) (lo_calls w ! k)) \<and>
     (\<forall>j < length (lo_calls w). \<forall>k < length (lo_calls w). creates (lo_calls w ! j) \<longrightarrow> creates (lo_calls w ! k) \<longrightarrow> j = k)"

text \<open>The next state is as it should be when the call of the event is, and the file suits the others.\<close>

lemma locking_okI:
  assumes ok: "locking_ok call w" and ex: "exclusive w'" and k: "k < length (lo_calls w)"
    and calls: "lo_calls w' = (lo_calls w)[k := s']"
    and here: "waits_well (lk_phase s')" "completes_well (call k) (lo_file w') (lk_phase s')" "access_ok (lo_file w') s'"
    and completed: "\<And>v d. completed_file (lo_file w) v d \<Longrightarrow> completed_file (lo_file w') v d"
    and others: "\<And>j. j < length (lo_calls w) \<Longrightarrow> j \<noteq> k \<Longrightarrow> access_ok (lo_file w) (lo_calls w ! j) \<Longrightarrow>
      access_ok (lo_file w') (lo_calls w ! j)"
    and alone: "\<And>j. creates s' \<Longrightarrow> \<not> creates (lo_calls w ! k) \<Longrightarrow> j < length (lo_calls w) \<Longrightarrow> j \<noteq> k \<Longrightarrow> \<not> creates (lo_calls w ! j)"
  shows "locking_ok call w'"
proof -
  have cw: "completes_well (call j) (lo_file w') ph" if "completes_well (call j) (lo_file w) ph" for j ph
    using that completed by (auto simp: completes_well_def split: phase.splits outcome.splits)
  have "waits_well (lk_phase (lo_calls w' ! j)) \<and> completes_well (call j) (lo_file w') (lk_phase (lo_calls w' ! j)) \<and>
      access_ok (lo_file w') (lo_calls w' ! j)" if j: "j < length (lo_calls w)" for j
  proof (cases "j = k")
    case True
    then show ?thesis using here k by (simp add: calls)
  next
    case False
    then show ?thesis using ok j cw others by (simp add: calls locking_ok_def)
  qed
  moreover have "i = j" if ij: "i < length (lo_calls w)" "j < length (lo_calls w)"
    and c: "creates (lo_calls w' ! i)" "creates (lo_calls w' ! j)" for i j
  proof -
    have one: "i = j" if "i < length (lo_calls w)" "j < length (lo_calls w)" "creates (lo_calls w ! i)" "creates (lo_calls w ! j)" for i j
      using ok that unfolding locking_ok_def by blast
    have no: "\<not> creates (lo_calls w ! j)" if "creates s'" "j < length (lo_calls w)" "j \<noteq> k" for j
    proof (cases "creates (lo_calls w ! k)")
      case True
      then show ?thesis using one [OF that(2) k] that(3) by blast
    qed (rule alone [OF that(1) _ that(2,3)])
    show ?thesis
    proof (cases "i = k"; cases "j = k")
      assume "i \<noteq> k" "j \<noteq> k"
      then show ?thesis using one [OF ij] c by (simp add: calls)
    qed (use no ij c k in \<open>auto simp: calls\<close>)
  qed
  ultimately show ?thesis using ex unfolding locking_ok_def by (simp add: calls)
qed

section \<open>The accesses keep it\<close>

lemma put_call_simps [simp]:
  "lo_file (put_call k ph a w) = lo_file w"
  "lo_calls (put_call k ph a w) = (lo_calls w)[k :=
     \<lparr>lk_phase = ph, lk_heartbeat = heartbeat_after (lk_phase (lo_calls w ! k)) ph (lk_heartbeat (lo_calls w ! k)), lk_access = a\<rparr>]"
  by (simp_all add: put_call_def)

lemma locking_okD:
  assumes "locking_ok call w" and "k < length (lo_calls w)"
  shows "waits_well (lk_phase (lo_calls w ! k))" "completes_well (call k) (lo_file w) (lk_phase (lo_calls w ! k))"
    "access_ok (lo_file w) (lo_calls w ! k)"
  using assms by (simp_all add: locking_ok_def)

lemma access_ok_simps [simp]:
  "access_ok f \<lparr>lk_phase = ph, lk_heartbeat = b, lk_access = At_rest\<rparr>"
  "access_ok f \<lparr>lk_phase = ph, lk_heartbeat = b, lk_access = Created r\<rparr> \<longleftrightarrow> f = Unreadable \<and> ph = Ph_start"
  "access_ok f (s\<lparr>lk_access := Gone\<rparr>)"
  by (simp_all add: access_ok_def)

lemma thrown_well [simp]: "waits_well (Ph_done Out_thrown)" "completes_well c f (Ph_done Out_thrown)"
  by (simp_all add: waits_well_def completes_well_def)

lemma plain_phases_well [simp]:
  "waits_well Ph_start" "completes_well c f Ph_start" "waits_well (Ph_claimed r b m)" "completes_well c f (Ph_claimed r b m)"
  by (simp_all add: waits_well_def completes_well_def)

lemma locked_well: "locked_phase ph \<Longrightarrow> waits_well ph \<and> completes_well c f ph"
  by (cases ph) (simp_all add: locked_phase_def waits_well_def completes_well_def)

lemma open_keeps:
  assumes ok: "locking_ok call w" and k: "k < length (lo_calls w)" and ex: "exclusive (open_receipt (call k) k i w)"
    and ph: "lk_phase (lo_calls w ! k) = Ph_start"
  shows "locking_ok call (open_receipt (call k) k i w)"
proof (cases "si_io i = Io_refused \<or> lo_file w \<noteq> No_file")
  case True
  then obtain ph a where o': "open_receipt (call k) k i w = put_call k ph a w" "ph = Ph_done Out_thrown \<and> a = At_rest \<or> ph = Ph_start \<and> a = Seen_existing"
    by (cases "si_io i = Io_refused") (simp_all add: open_receipt_def)
  show ?thesis using o'(2) ex unfolding o'(1)
    by (intro locking_okI [OF ok _ k, where s' = "lo_calls (put_call k ph a w) ! k"])
      (auto simp: k access_ok_def creates_def)
next
  case False
  have vacant: "\<not> creates (lo_calls w ! j)" "access_ok Unreadable (lo_calls w ! j)" if "j < length (lo_calls w)" for j
    using locking_okD(3) [OF ok that] False
    by (auto simp: creates_def access_ok_def same_receipt_def split: access.splits)
  have o': "lo_file (open_receipt (call k) k i w) = Unreadable" "lo_file w = No_file"
    "lo_calls (open_receipt (call k) k i w) = lo_calls (put_call k Ph_start (Created (sending_receipt (si_now i) (call k))) w)"
    using False by (simp_all add: open_receipt_def)
  show ?thesis
  proof (rule locking_okI [OF ok ex k, where s' = "lo_calls (open_receipt (call k) k i w) ! k"])
    show "access_ok (lo_file (open_receipt (call k) k i w)) (lo_calls w ! j)" if "j < length (lo_calls w)" for j
      unfolding o'(1) by (rule vacant(2) [OF that])
    show "\<not> creates (lo_calls w ! j)" if "j < length (lo_calls w)" for j by (rule vacant(1) [OF that])
  qed (simp_all add: o' k completed_file_def)
qed

lemma fill_keeps:
  assumes ok: "locking_ok call w" and k: "k < length (lo_calls w)" and ex: "exclusive (fill_receipt k r i w)"
    and cr: "lk_access (lo_calls w ! k) = Created r"
  shows "locking_ok call (fill_receipt k r i w)"
proof -
  have f: "lo_file w = Unreadable" using locking_okD(3) [OF ok k] cr by (simp add: access_ok_def)
  have only: "\<not> creates (lo_calls w ! j)" if "j < length (lo_calls w)" "j \<noteq> k" for j
    using ok that k cr by (auto simp: locking_ok_def creates_def)
  have others: "access_ok (lo_file (fill_receipt k r i w)) (lo_calls w ! j)" if "j < length (lo_calls w)" "j \<noteq> k" for j
    using locking_okD(3) [OF ok that(1)] only [OF that] f
    by (auto simp: creates_def access_ok_def same_receipt_def split: access.splits)
  show ?thesis using others only f
    by (intro locking_okI [OF ok ex k, where s' = "lo_calls (fill_receipt k r i w) ! k"])
      (auto simp: fill_receipt_def k access_ok_def completed_file_def creates_def)
qed

lemma look_keeps:
  assumes ok: "locking_ok call w" and k: "k < length (lo_calls w)" and ex: "exclusive (look_at_receipt (call k) k w)"
  shows "locking_ok call (look_at_receipt (call k) k w)"
proof -
  obtain ph evs where p: "after_reserve (call k) (read_receipt (dc_id (call k)) (lo_file w)) = (ph, evs)" by fastforce
  show ?thesis using after_reserve_well [OF p] p
    by (intro locking_okI [OF ok ex k, where s' = "lo_calls (look_at_receipt (call k) k w) ! k"])
      (auto simp: look_at_receipt_def k access_ok_def creates_def)
qed

lemma enter_keeps:
  assumes ok: "locking_ok call w" and k: "k < length (lo_calls w)"
    and ex: "exclusive (put_call k (lk_phase (lo_calls w ! k)) (Holding (lo_file w)) w)"
    and ph: "locked_phase (lk_phase (lo_calls w ! k))"
  shows "locking_ok call (put_call k (lk_phase (lo_calls w ! k)) (Holding (lo_file w)) w)"
  using locking_okD(1,2) [OF ok k] ph
  by (intro locking_okI [OF ok ex k, where s' = "lo_calls (put_call k (lk_phase (lo_calls w ! k)) (Holding (lo_file w)) w) ! k"])
    (auto simp: k access_ok_def creates_def)

lemma leave_keeps:
  assumes ok: "locking_ok call w" and k: "k < length (lo_calls w)" and ex: "exclusive (leave_lock (call k) k f0 i w)"
    and h: "lk_access (lo_calls w ! k) = Holding f0"
  shows "locking_ok call (leave_lock (call k) k f0 i w)"
proof -
  obtain ph evs f1 where st: "call_step (call k) i (lk_phase (lo_calls w ! k)) f0 = ((ph, evs), f1)" by (metis prod.collapse)
  have acc: "same_receipt f0 (lo_file w)" "locked_phase (lk_phase (lo_calls w ! k))"
    using locking_okD(3) [OF ok k] h by (simp_all add: access_ok_def)
  have after: "waits_well ph \<and> completes_well (call k) f1 ph"
    using call_step_well [OF st] locked_well [OF acc(2)] by blast
  show ?thesis
  proof (cases "f1 = f0")
    case True
    then have "completes_well (call k) (lo_file w) ph"
      using after same_receipt_completed [OF acc(1)]
      by (auto simp: completes_well_def split: phase.splits outcome.splits)
    then show ?thesis using True st after
      by (intro locking_okI [OF ok ex k, where s' = "lo_calls (leave_lock (call k) k f0 i w) ! k"])
        (auto simp: leave_lock_def k access_ok_def creates_def)
  next
    case False
    with locked_writes [OF st acc(2)] obtain r t where f0: "f0 = Receipt_file r t" "\<And>v d. \<not> completed_file f0 v d" by metis
    then obtain t' where fw: "lo_file w = Receipt_file r t'" using acc(1) by (auto simp: same_receipt_def)
    have none: "\<not> completed_file (lo_file w) v d" for v d using f0 fw by (simp add: completed_file_def)
    have others: "access_ok f1 (lo_calls w ! j)" if j: "j < length (lo_calls w)" "j \<noteq> k" for j
    proof -
      have "\<not> holds_lock (lo_calls w ! j)"
        using exclusive_two [of w j k] ok j k h by (auto simp: locking_ok_def holds_lock_def)
      then show ?thesis using locking_okD(3) [OF ok j(1)] fw
        by (auto simp: access_ok_def holds_lock_def split: access.splits)
    qed
    show ?thesis using False st after none others
      by (intro locking_okI [OF ok ex k, where s' = "lo_calls (leave_lock (call k) k f0 i w) ! k"])
        (auto simp: leave_lock_def k access_ok_def creates_def)
  qed
qed

lemma plain_keeps:
  assumes ok: "locking_ok call w" and k: "k < length (lo_calls w)" and ex: "exclusive (plain_step (call k) k i w)"
    and ph: "lk_phase (lo_calls w ! k) \<noteq> Ph_start" "locked_phase (lk_phase (lo_calls w ! k)) \<longrightarrow> si_io i = Io_refused"
  shows "locking_ok call (plain_step (call k) k i w)"
proof -
  obtain ph' evs f1 where st: "call_step (call k) i (lk_phase (lo_calls w ! k)) (lo_file w) = ((ph', evs), f1)"
    by (metis prod.collapse)
  note same = plain_same [OF st ph]
  have "waits_well ph' \<and> completes_well (call k) f1 ph'" by (rule call_step_well [OF st locking_okD(1,2) [OF ok k]])
  then show ?thesis using st same same_receipt_completed [OF same(1)]
    by (intro locking_okI [OF ok ex k, where s' = "lo_calls (plain_step (call k) k i w) ! k"])
      (auto simp: plain_step_def k access_ok_def creates_def intro: same_receipt_trans split: access.splits)
qed

lemma renewal_keeps:
  assumes ok: "locking_ok call w" and k: "k < length (lo_calls w)" and ex: "exclusive w'"
    and w': "w' = w\<lparr>lo_file := snd (renew_receipt now c e (lo_file w)), lo_calls := (lo_calls w)[k := (lo_calls w ! k)\<lparr>lk_heartbeat := b\<rparr>]\<rparr>"
  shows "locking_ok call w'"
proof -
  note same = renew_same [of "lo_file w" now c e]
  have acc: "access_ok (lo_file w) s \<Longrightarrow> access_ok (lo_file w') s" for s
    using same unfolding w' by (auto simp: access_ok_def intro: same_receipt_trans split: access.splits)
  have cw: "completes_well (call k) (lo_file w') (lk_phase (lo_calls w ! k))"
    by (rule completes_well_mono [OF locking_okD(2) [OF ok k]]) (simp add: w' renew_receipt_completed)
  show ?thesis
  proof (rule locking_okI [OF ok ex k, where s' = "(lo_calls w ! k)\<lparr>lk_heartbeat := b\<rparr>"])
    show "lo_calls w' = (lo_calls w)[k := (lo_calls w ! k)\<lparr>lk_heartbeat := b\<rparr>]" by (simp add: w')
    show "completed_file (lo_file w') v d" if "completed_file (lo_file w) v d" for v d
      using same_receipt_completed [OF same(1)] that by (simp add: w')
    show "access_ok (lo_file w') ((lo_calls w ! k)\<lparr>lk_heartbeat := b\<rparr>)"
      using acc [OF locking_okD(3) [OF ok k]] unfolding access_ok_def by (cases "lk_access (lo_calls w ! k)") simp_all
    show "access_ok (lo_file w') (lo_calls w ! j)" if "access_ok (lo_file w) (lo_calls w ! j)" for j
      by (rule acc [OF that])
  qed (use locking_okD(1) [OF ok k] cw in \<open>simp_all add: creates_def\<close>)
qed

lemma locking_step_keeps:
  assumes ok: "locking_ok call w" and st: "locking_step call e w = Some w'"
  shows "locking_ok call w'"
proof -
  have raw: "raw_step call e w = Some w'" and ex: "exclusive w'"
    using st by (auto simp: locking_step_def split: option.splits if_splits)
  show ?thesis
  proof (cases e)
    case (Accesses k i)
    then have k: "k < length (lo_calls w)" and n: "next_access (call k) k i w = Some w'" using raw by (auto split: if_splits)
    show ?thesis
    proof (cases "lk_access (lo_calls w ! k)")
      case At_rest
      show ?thesis
        using n At_rest ex open_keeps [OF ok k] enter_keeps [OF ok k] plain_keeps [OF ok k]
        by (auto simp: next_access_def Let_def split: if_splits)
    next
      case Seen_existing
      with n ex look_keeps [OF ok k] show ?thesis by (auto simp: next_access_def Let_def)
    next
      case (Created r)
      with n ex fill_keeps [OF ok k _ Created] show ?thesis by (auto simp: next_access_def Let_def)
    next
      case (Holding f0)
      with n ex leave_keeps [OF ok k _ Holding] show ?thesis by (auto simp: next_access_def Let_def)
    next
      case Gone
      with n show ?thesis by (simp add: next_access_def Let_def)
    qed
  next
    case (Renewal k now)
    then have k: "k < length (lo_calls w)" using raw by (auto split: if_splits)
    obtain b f where "renew_receipt now (call k) False (lo_file w) = (b, f)" by (cases "renew_receipt now (call k) False (lo_file w)")
    then show ?thesis using raw Renewal
      by (intro renewal_keeps [OF ok k ex, where now = now and c = "call k" and e = False and b = b]) (auto split: if_splits)
  next
    case (Dies k)
    then have k: "k < length (lo_calls w)" and w': "lo_file w' = lo_file w" "lo_calls w' = (lo_calls w)[k := (lo_calls w ! k)\<lparr>lk_access := Gone\<rparr>]"
      using raw by (auto split: if_splits)
    show ?thesis using locking_okD(1,2) [OF ok k]
      by (intro locking_okI [OF ok ex k w'(2)]) (simp_all add: w'(1) creates_def)
  qed
qed

lemma start_locking_ok: "locking_ok call (start_locking n)"
  by (auto simp: locking_ok_def start_locking_def exclusive_def holds_lock_def waits_well_def completes_well_def
      access_ok_def creates_def filter_replicate)

interpretation locking_deliveries: event_machine "locking_step call" "locking_ok call" "\<lambda>_. True" for call
  by unfold_locales (rule locking_step_keeps)

section \<open>The property\<close>

text \<open>C12: Whatever calls are made for one delivery id, on any hosts, and in whatever order their accesses to
  the receipt happen - its creation apart from the writing of it, its reading under the mutation lock apart from
  the writing of what follows from it, renewals in between -, with processes dying anywhere, leases running
  out and writes failing: as long as the mutation lock lets one process in at a time, two calls that complete
  with results that are no rejections to be released were for the same payload and report the same result,
  which is the committed one in the receipt.\<close>

theorem deliveries_agree:
  assumes "run_events (locking_step call) es (start_locking n) = Some w"
    and "j < length (lo_calls w)" and "k < length (lo_calls w)"
    and "lk_phase (lo_calls w ! j) = Ph_done (Out_completed dup v)"
    and "lk_phase (lo_calls w ! k) = Ph_done (Out_completed dup' v')"
    and "\<not> dc_retryable (call j) v" and "\<not> dc_retryable (call k) v'"
  shows "v = v' \<and> dc_digest (call j) = dc_digest (call k) \<and>
    (\<exists>r t. lo_file w = Receipt_file r t \<and> rc_state r = Completed \<and> rc_result r = v \<and> rc_digest r = dc_digest (call j))"
proof -
  have ok: "locking_ok call w"
    using locking_deliveries.run_keeps [OF assms(1)] start_locking_ok by (simp add: list.pred_True)
  have "completed_file (lo_file w) v (dc_digest (call j))" "completed_file (lo_file w) v' (dc_digest (call k))"
    using locking_okD(2) [OF ok assms(2)] locking_okD(2) [OF ok assms(3)] assms(4-7) by (simp_all add: completes_well_def)
  then show ?thesis by (auto simp: completed_file_def)
qed

text \<open>The second call looks for the receipt while the first has created it and not yet written it.\<close>

definition locking_run :: "locking_event list" where
  "locking_run = [Accesses 0 (success_at 0), Accesses 1 (success_at 0), Accesses 0 (success_at 1), Accesses 1 (success_at 1),
     Accesses 0 (success_at 2), Renewal 0 50, Accesses 0 (success_at 60), Accesses 0 (success_at 61), Renewal 0 62,
     Accesses 0 (success_at 63), Accesses 1 (success_at 64)]"

definition ended_in :: "phase list \<Rightarrow> locking_world option \<Rightarrow> bool" where
  "ended_in phs w = (case w of None \<Rightarrow> False | Some w \<Rightarrow> map lk_phase (lo_calls w) = phs)"

lemma locking_run_result:
  "ended_in [Ph_done (Out_completed False (Some (JNum 5))), Ph_done (Out_completed True (Some (JNum 5)))]
     (run_events (locking_step two_calls) locking_run (start_locking 2))"
  by code_simp

lemma deliveries_agree_witness:
  "\<exists>w r t. run_events (locking_step two_calls) locking_run (start_locking 2) = Some w \<and>
     lo_file w = Receipt_file r t \<and> rc_state r = Completed \<and> rc_result r = Some (JNum 5) \<and> rc_digest r = ''h''"
proof -
  obtain w where run: "run_events (locking_step two_calls) locking_run (start_locking 2) = Some w"
    and ph: "map lk_phase (lo_calls w) = [Ph_done (Out_completed False (Some (JNum 5))), Ph_done (Out_completed True (Some (JNum 5)))]"
    using locking_run_result by (auto simp: ended_in_def split: option.splits)
  have len: "length (lo_calls w) = 2" using arg_cong [OF ph, of length] by simp
  have each: "lk_phase (lo_calls w ! 0) = Ph_done (Out_completed False (Some (JNum 5)))"
    "lk_phase (lo_calls w ! 1) = Ph_done (Out_completed True (Some (JNum 5)))"
    using arg_cong [OF ph, of "\<lambda>xs. xs ! 0"] arg_cong [OF ph, of "\<lambda>xs. xs ! 1"] len by simp_all
  show ?thesis using deliveries_agree [OF run _ _ each] len run by (auto simp: two_calls_def)
qed

text \<open>The condition on the lock is needed. When a process has read the receipt with an expired lease to
  claim it and the owner gets in to settle, the claim replaces the committed result, and the two calls
  complete with different ones.\<close>

definition recovered_at :: "int \<Rightarrow> step_input" where
  "recovered_at now = (success_at now)\<lparr>si_recovery := Recovered (Some (JNum 6))\<rparr>"

definition overlapping_run :: "locking_event list" where
  "overlapping_run = [Accesses 0 (success_at 0), Accesses 0 (success_at 0), Accesses 0 (success_at 1), Accesses 0 (success_at 2),
     Accesses 1 (recovered_at 900), Accesses 1 (recovered_at 901), Accesses 1 (recovered_at 902), Accesses 1 (recovered_at 1000),
     Accesses 0 (success_at 1000), Accesses 0 (success_at 1001), Accesses 1 (recovered_at 1002), Accesses 1 (recovered_at 1003),
     Accesses 1 (recovered_at 1004), Accesses 1 (recovered_at 1005), Accesses 1 (recovered_at 1006)]"

lemma overlapping_locks_disagree:
  "ended_in [Ph_done (Out_completed False (Some (JNum 5))), Ph_done (Out_completed True (Some (JNum 6)))]
     (run_events (raw_step two_calls) overlapping_run (start_locking 2))"
  "run_events (locking_step two_calls) overlapping_run (start_locking 2) = None"
  by code_simp+

end
