(* ===== verification/HeartbeatSchedules.thy ===== *)
theory HeartbeatSchedules
  imports Prelude
begin

text \<open>
  \<open>src/scheduling/heartbeatSchedules.ts\<close>: when a scheduled rule fires next. A \<open>Date\<close> is the number of
  milliseconds of its local time since the local start of 1970, which is what the code's calendar
  arithmetic works on in a time zone without transitions; clock changes are not modelled. The
  number of seconds of an interval is an integer.
\<close>

section \<open>Calendar\<close>

definition day_ms :: int where
  "day_ms = 86400000"

text \<open>The days from the start of 1970 to the start of a year and of a month, as ECMAScript computes
  them for a month that may lie outside the year.\<close>

definition day_from_year :: "int \<Rightarrow> int" where
  "day_from_year y = 365 * (y - 1970) + (y - 1969) div 4 - (y - 1901) div 100 + (y - 1601) div 400"

definition leap_year :: "int \<Rightarrow> bool" where
  "leap_year y \<longleftrightarrow> y mod 4 = 0 \<and> (y mod 100 \<noteq> 0 \<or> y mod 400 = 0)"

definition day_in_year :: "int \<Rightarrow> int \<Rightarrow> int" where
  "day_in_year y month =
     [0, 31, 59, 90, 120, 151, 181, 212, 243, 273, 304, 334] ! nat month + (if leap_year y \<and> month \<ge> 2 then 1 else 0)"

text \<open>\<open>new Date(year, month, day, hours, minutes, seconds, 0)\<close>.\<close>

definition local_date :: "int \<Rightarrow> int \<Rightarrow> int \<Rightarrow> int \<Rightarrow> int \<Rightarrow> int \<Rightarrow> int" where
  "local_date year month day h m s =
     (let y0 = (if 0 \<le> year \<and> year \<le> 99 then 1900 + year else year);
          y = y0 + month div 12; mn = month mod 12
      in (day_from_year y + day_in_year y mn + day - 1) * day_ms + ((h * 60 + m) * 60 + s) * 1000)"

section \<open>Times of day\<close>

record time_of_day =
  td_hours :: int
  td_minutes :: int
  td_seconds :: int

definition digit_value :: "char \<Rightarrow> int" where
  "digit_value c = of_char c - 48"

definition number_of :: "string \<Rightarrow> int" where
  "number_of s = foldl (\<lambda>n c. 10 * n + digit_value c) 0 s"

text \<open>The parts of a text between the given separators.\<close>

fun split_at :: "(char \<Rightarrow> bool) \<Rightarrow> string \<Rightarrow> string list" where
  "split_at P [] = [[]]"
| "split_at P (c # cs) =
     (case split_at P cs of [] \<Rightarrow> [[c]] | part # parts \<Rightarrow> if P c then [] # part # parts else (c # part) # parts)"

definition digits :: "int list \<Rightarrow> string \<Rightarrow> bool" where
  "digits lengths s \<longleftrightarrow> int (length s) \<in> set lengths \<and> list_all is_digit s"

definition text_of :: "string option \<Rightarrow> string" where
  "text_of v = js_trim (case v of None \<Rightarrow> [] | Some s \<Rightarrow> s)"

text \<open>\<open>/^(\d{1,2}):(\d{2})(?::(\d{2}))?$/\<close>.\<close>

definition parse_time_of_day :: "string option \<Rightarrow> time_of_day option" where
  "parse_time_of_day v =
     (let parts = split_at (\<lambda>c. c = CHR '':'') (text_of v);
          checked = (\<lambda>h m s. if h > 23 \<or> m > 59 \<or> s > 59 then None
            else Some \<lparr>td_hours = h, td_minutes = m, td_seconds = s\<rparr>)
      in case parts of
        [h, m] \<Rightarrow> if digits [1, 2] h \<and> digits [2] m then checked (number_of h) (number_of m) 0 else None
      | [h, m, s] \<Rightarrow>
          if digits [1, 2] h \<and> digits [2] m \<and> digits [2] s
          then checked (number_of h) (number_of m) (number_of s) else None
      | _ \<Rightarrow> None)"

definition tod_ms :: "time_of_day \<Rightarrow> int" where
  "tod_ms t = ((td_hours t * 60 + td_minutes t) * 60 + td_seconds t) * 1000"

definition at_local_time :: "int \<Rightarrow> time_of_day \<Rightarrow> int" where
  "at_local_time day t = day div day_ms * day_ms + tod_ms t"

definition add_days :: "int \<Rightarrow> int \<Rightarrow> int" where
  "add_days date n = date + n * day_ms"

text \<open>\<open>/^(\d{4})-(\d{2})-(\d{2})[T ](\d{2}):(\d{2})(?::(\d{2}))?$/\<close>: the three separators are part of the
  text, so the characters at their places are compared.\<close>

definition parse_local_date_time :: "string option \<Rightarrow> int option" where
  "parse_local_date_time v =
     (let s = text_of v; parts = split_at (\<lambda>c. c \<in> set ''-T :'') s;
          seps = filter (\<lambda>c. c \<in> set ''-T :'') s
      in case parts of
        [y, mo, d, h, m] \<Rightarrow>
          if digits [4] y \<and> digits [2] mo \<and> digits [2] d \<and> digits [2] h \<and> digits [2] m \<and>
             seps \<in> set [''--T:'', ''-- :'']
          then Some (local_date (number_of y) (number_of mo - 1) (number_of d) (number_of h) (number_of m) 0)
          else None
      | [y, mo, d, h, m, sec] \<Rightarrow>
          if digits [4] y \<and> digits [2] mo \<and> digits [2] d \<and> digits [2] h \<and> digits [2] m \<and> digits [2] sec \<and>
             seps \<in> set [''--T::'', ''-- ::'']
          then Some (local_date (number_of y) (number_of mo - 1) (number_of d) (number_of h) (number_of m)
            (number_of sec))
          else None
      | _ \<Rightarrow> None)"

section \<open>The next time\<close>

text \<open>\<open>while (candidate <= now) candidate += step\<close>, for the positive steps it runs with.\<close>

function advance_past :: "int \<Rightarrow> int \<Rightarrow> int \<Rightarrow> int" where
  "advance_past step now candidate =
     (if step \<le> 0 \<or> now < candidate then candidate else advance_past step now (candidate + step))"
  by pat_completeness auto
termination by (relation "measure (\<lambda>(step, now, candidate). nat (now - candidate + 1))") auto

declare advance_past.simps [simp del]

definition next_daily_at :: "time_of_day \<Rightarrow> int \<Rightarrow> int option \<Rightarrow> int" where
  "next_daily_at t now last_at =
     advance_past day_ms now
       (at_local_time (case last_at of None \<Rightarrow> now | Some l \<Rightarrow> add_days l 1) t)"

definition window_bounds_for :: "int \<Rightarrow> time_of_day \<Rightarrow> time_of_day \<Rightarrow> int \<times> int" where
  "window_bounds_for day start_time end_time =
     (let start = at_local_time day start_time; stop = at_local_time day end_time
      in (start, if stop \<le> start then add_days stop 1 else stop))"

definition active_or_next_window :: "int \<Rightarrow> time_of_day \<Rightarrow> time_of_day \<Rightarrow> int \<times> int" where
  "active_or_next_window now start_time end_time =
     (let today = window_bounds_for now start_time end_time
      in if now < snd today then today else window_bounds_for (add_days now 1) start_time end_time)"

definition next_interval_without_window :: "int \<Rightarrow> int \<Rightarrow> int option \<Rightarrow> int" where
  "next_interval_without_window interval now last_at =
     (case last_at of None \<Rightarrow> now + interval | Some l \<Rightarrow> advance_past interval now (l + interval))"

definition next_windowed_interval ::
  "int \<Rightarrow> int \<Rightarrow> time_of_day \<Rightarrow> time_of_day \<Rightarrow> int option \<Rightarrow> int" where
  "next_windowed_interval interval now start_time end_time last_at =
     (let (start, stop) = active_or_next_window now start_time end_time;
          rest = (if now < start then start
            else let candidate = start + ((now - start) div interval + 1) * interval
              in if candidate < stop then candidate
                 else fst (window_bounds_for (add_days start 1) start_time end_time))
      in case last_at of
        None \<Rightarrow> rest
      | Some l \<Rightarrow>
          let candidate = advance_past interval now (l + interval)
          in if candidate < stop then max candidate start else rest)"

datatype schedule_type = Daily_time | Once_at | Interval

record schedule_definition =
  sd_id :: string
  sd_name :: "string option"
  sd_enabled :: "bool option"
  sd_type :: schedule_type
  sd_time_of_day :: "string option"
  sd_once_at :: "string option"
  sd_interval :: "int option"
  sd_window_start :: "string option"
  sd_window_end :: "string option"

definition next_heartbeat_schedule_time :: "schedule_definition \<Rightarrow> int \<Rightarrow> int option \<Rightarrow> int option" where
  "next_heartbeat_schedule_time s now last_at =
     (if sd_enabled s = Some False then None
      else case sd_type s of
        Daily_time \<Rightarrow> map_option (\<lambda>t. next_daily_at t now last_at) (parse_time_of_day (sd_time_of_day s))
      | Once_at \<Rightarrow>
          if last_at \<noteq> None then None
          else (case parse_local_date_time (sd_once_at s) of
              None \<Rightarrow> None | Some t \<Rightarrow> if now < t then Some t else None)
      | Interval \<Rightarrow>
          let seconds = (case sd_interval s of None \<Rightarrow> 0 | Some n \<Rightarrow> n) in
          if seconds \<le> 0 then None
          else let interval = max 1 seconds * 1000 in
            (case (parse_time_of_day (sd_window_start s), parse_time_of_day (sd_window_end s)) of
               (Some a, Some b) \<Rightarrow> Some (next_windowed_interval interval now a b last_at)
             | _ \<Rightarrow> Some (next_interval_without_window interval now last_at)))"

section \<open>Tasks\<close>

record schedule_rule =
  sr_id :: string
  sr_name :: string
  sr_enabled :: bool
  sr_route_kinds :: "string list"
  sr_schedules :: "schedule_definition list option"

record schedule_route =
  so_id :: string
  so_name :: string
  so_enabled :: "bool option"
  so_rules :: "schedule_rule list"

record schedule_task =
  st_route_id :: string
  st_route_name :: string
  st_rule_id :: string
  st_rule_name :: string
  st_schedule :: schedule_definition

definition legacy_heartbeat_schedule :: "int \<Rightarrow> string \<Rightarrow> schedule_definition" where
  "legacy_heartbeat_schedule seconds name =
     \<lparr>sd_id = ''legacy-interval'', sd_name = Some name, sd_enabled = Some True, sd_type = Interval,
      sd_time_of_day = None, sd_once_at = None, sd_interval = Some seconds, sd_window_start = None,
      sd_window_end = None\<rparr>"

definition rule_tasks :: "int \<Rightarrow> schedule_route \<Rightarrow> schedule_rule \<Rightarrow> schedule_task list" where
  "rule_tasks legacy route r =
     (if \<not> sr_enabled r \<or> ''heartbeat'' \<notin> set (sr_route_kinds r) then []
      else let schedules = (case sr_schedules r of
            Some (s # ss) \<Rightarrow> s # ss
          | _ \<Rightarrow> [legacy_heartbeat_schedule legacy (if sr_name r = [] then sr_id r else sr_name r)])
        in map (\<lambda>s. \<lparr>st_route_id = so_id route, st_route_name = so_name route, st_rule_id = sr_id r,
               st_rule_name = sr_name r, st_schedule = s\<rparr>)
             (filter (\<lambda>s. sd_enabled s \<noteq> Some False) schedules))"

definition collect_heartbeat_schedule_tasks :: "schedule_route list \<Rightarrow> int \<Rightarrow> schedule_task list" where
  "collect_heartbeat_schedule_tasks routes legacy =
     concat (map (\<lambda>route. if so_enabled route = Some False then [] else concat (map (rule_tasks legacy route) (so_rules route)))
       routes)"

definition heartbeat_schedule_label :: "schedule_task \<Rightarrow> string" where
  "heartbeat_schedule_label t =
     (let name = (case sd_name (st_schedule t) of None \<Rightarrow> [] | Some n \<Rightarrow> js_trim n)
      in (if st_rule_name t = [] then st_rule_id t else st_rule_name t) @ '' / '' @
         (if name = [] then sd_id (st_schedule t) else name))"

section \<open>Loops and windows\<close>


lemma number_of_nonneg: "list_all is_digit s \<Longrightarrow> 0 \<le> number_of s"
proof -
  have digit: "0 \<le> digit_value c" if "is_digit c" for c
  proof -
    have "(48 :: nat) \<le> of_char c" using that by (simp add: is_digit_def less_eq_char_def)
    then have "int 48 \<le> int (of_char c :: nat)" by (rule of_nat_mono)
    then have "48 \<le> (of_nat (of_char c :: nat) :: int)" by simp
    then show ?thesis unfolding of_nat_of_char by (simp add: digit_value_def)
  qed
  have "list_all is_digit s \<Longrightarrow> 0 \<le> n \<Longrightarrow> 0 \<le> foldl (\<lambda>n c. 10 * n + digit_value c) n s" for n
    using digit by (induction s arbitrary: n) auto
  from this [of 0] show "list_all is_digit s \<Longrightarrow> ?thesis" by (simp add: number_of_def)
qed

lemma parse_time_of_day_bounds:
  assumes "parse_time_of_day v = Some t"
  shows "0 \<le> tod_ms t" and "tod_ms t < day_ms"
  using assms number_of_nonneg
  by (auto simp: parse_time_of_day_def Let_def tod_ms_def day_ms_def digits_def split: list.splits if_splits)

lemma day_ms_pos [simp]: "0 < day_ms"
  by (simp add: day_ms_def)

lemma day_ms_nonzero [simp]: "day_ms \<noteq> 0"
  by (simp add: day_ms_def)


lemma add_days_div: "add_days d n div day_ms = d div day_ms + n"
  by (simp add: add_days_def)

lemma in_day_div: "0 \<le> x \<Longrightarrow> x < day_ms \<Longrightarrow> (k * day_ms + x) div day_ms = k"
  by simp











text \<open>C40: A window that crosses midnight loses its second half: when now lies after midnight in the
  window that began on the day before, no time in the rest of that window is ever returned, but
  the start of the next window at the earliest.\<close>

theorem overnight_window_skipped:
  assumes "sd_type s = Interval" and "sd_enabled s \<noteq> Some False" and "sd_interval s = Some n" and "0 < n"
    and a: "parse_time_of_day (sd_window_start s) = Some a" and b: "parse_time_of_day (sd_window_end s) = Some b"
    and cross: "tod_ms b \<le> tod_ms a" and now: "now mod day_ms < tod_ms b"
  shows "\<exists>t. next_heartbeat_schedule_time s now last_at = Some t \<and>
    fst (window_bounds_for (add_days now (-1)) a b) \<le> now \<and> now < snd (window_bounds_for (add_days now (-1)) a b) \<and>
    snd (window_bounds_for (add_days now (-1)) a b) \<le> fst (window_bounds_for now a b) \<and>
    fst (window_bounds_for now a b) \<le> t"
proof -
  note ab = parse_time_of_day_bounds [OF a] parse_time_of_day_bounds [OF b]
  let ?day = "now div day_ms * day_ms"
  have split: "now = ?day + now mod day_ms" by simp
  have today: "window_bounds_for now a b = (?day + tod_ms a, ?day + tod_ms b + day_ms)"
    using cross ab by (simp add: window_bounds_for_def Let_def at_local_time_def add_days_def)
  have yesterday: "window_bounds_for (add_days now (-1)) a b = (?day - day_ms + tod_ms a, ?day + tod_ms b)"
    using cross ab by (simp add: window_bounds_for_def Let_def at_local_time_def add_days_div)
      (simp add: add_days_def left_diff_distrib)
  have mod_bounds: "0 \<le> now mod day_ms" "now mod day_ms < day_ms" by simp_all
  have active: "active_or_next_window now a b = (?day + tod_ms a, ?day + tod_ms b + day_ms)"
  proof -
    have "now < ?day + tod_ms b + day_ms" using split now day_ms_pos by linarith
    then show ?thesis by (simp add: active_or_next_window_def Let_def today)
  qed
  have before: "now < ?day + tod_ms a" using split now cross by linarith
  define iv where "iv = max 1 n * 1000"
  have "?day + tod_ms a \<le> next_windowed_interval iv now a b last_at"
    using before by (simp add: next_windowed_interval_def active Let_def split: option.split)
  moreover have "next_heartbeat_schedule_time s now last_at = Some (next_windowed_interval iv now a b last_at)"
    using assms by (simp add: next_heartbeat_schedule_time_def iv_def Let_def)
  moreover have "?day - day_ms + tod_ms a \<le> now" and "now < ?day + tod_ms b"
    using split now mod_bounds ab by linarith+
  ultimately show ?thesis using cross by (simp add: today yesterday)
qed

section \<open>The properties on concrete schedules\<close>

definition night_watch :: schedule_definition where
  "night_watch = \<lparr>sd_id = ''n'', sd_name = None, sd_enabled = None, sd_type = Interval, sd_time_of_day = None,
     sd_once_at = None, sd_interval = Some 60, sd_window_start = Some ''22:00'', sd_window_end = Some ''06:00''\<rparr>"

lemma night_watch_times:
  "parse_time_of_day (Some ''22:00'') = Some \<lparr>td_hours = 22, td_minutes = 0, td_seconds = 0\<rparr>"
  "parse_time_of_day (Some ''06:00'') = Some \<lparr>td_hours = 6, td_minutes = 0, td_seconds = 0\<rparr>"
  by code_simp+

text \<open>At two in the morning of the second day, one minute after the last firing, the next one is at ten
  in the evening.\<close>

lemma night_watch_next:
  "next_heartbeat_schedule_time night_watch (day_ms + 7200000) (Some (day_ms + 7140000)) = Some (day_ms + 79200000)"
  by code_simp





lemma overnight_window_skipped_witness:
  "\<exists>t. next_heartbeat_schedule_time night_watch (day_ms + 7200000) None = Some t \<and> day_ms + 79200000 \<le> t"
proof -
  have s: "sd_type night_watch = Interval" "sd_enabled night_watch \<noteq> Some False" "sd_interval night_watch = Some 60"
    "parse_time_of_day (sd_window_start night_watch) = Some \<lparr>td_hours = 22, td_minutes = 0, td_seconds = 0\<rparr>"
    "parse_time_of_day (sd_window_end night_watch) = Some \<lparr>td_hours = 6, td_minutes = 0, td_seconds = 0\<rparr>"
    using night_watch_times by (simp_all add: night_watch_def)
  from overnight_window_skipped [OF s(1-3) _ s(4,5), of "day_ms + 7200000" None] show ?thesis
    by (auto simp: tod_ms_def day_ms_def window_bounds_for_def at_local_time_def add_days_def)
qed

end
