(* ===== verification/ProcessLeases.thy ===== *)
theory ProcessLeases
  imports EventMachines
begin

text \<open>
  \<open>src/runtime/processLeaseRegistry.ts\<close>: the child processes that plugin activations own. The
  leases, their states and the attempts to stop them are objects that several callers hold: the
  states and the attempts are kept in lists and named by their places, and the place of a state
  also stands for the \<open>randomUUID\<close> of its lease. The child process belongs to its environment,
  which decides when it exits and when the registry hears of it. Times are milliseconds, and a
  timer fires no later than when it is due.
\<close>

section \<open>Data\<close>

record lease_owner =
  lo_application :: string
  lo_manager :: string
  lo_activation :: string
  lo_instance :: string
  lo_revision :: string

record lease_state =
  ls_key :: string
  ls_owner :: lease_owner
  ls_exited :: bool
  ls_exit_code :: "int option"
  ls_settled :: bool
  ls_stop :: "nat option"
  ls_killed :: bool

text \<open>An attempt to stop a child waits for \<open>stopProcess\<close>, for the exit until the graceful deadline,
  and for the exit after the kill; then its promise is resolved or rejected.\<close>

datatype stop_phase = Stopping | Graceful | Final | Stopped | Stop_failed string

record stop_attempt =
  at_state :: nat
  at_key :: string
  at_phase :: stop_phase
  at_timer :: int
  at_graceful :: int
  at_deadline :: int

record lease_world =
  lw_leases :: "(string, nat) jmap"
  lw_states :: "lease_state list"
  lw_attempts :: "stop_attempt list"
  lw_quiescing :: "string list"
  lw_stopping_all :: bool
  lw_timeout :: int
  lw_now :: int

record child_start =
  cs_pid :: bool
  cs_exit_code :: "int option"

record launch_options =
  ln_max :: "int option"
  ln_exclusive :: bool

definition NUL :: char where
  "NUL = char_of (0 :: nat)"

definition required :: "string \<Rightarrow> string \<Rightarrow> (string, string) res" where
  "required v field = (let n = js_trim v in if n = [] then Inl (field @ '' is required.'') else Inr n)"

definition process_lease_owner_key :: "lease_owner \<Rightarrow> (string, string) res" where
  "process_lease_owner_key w =
     bindr (required (lo_application w) ''applicationGenerationId'') (\<lambda>a.
     bindr (required (lo_manager w) ''managerInstanceId'') (\<lambda>m.
     bindr (required (lo_activation w) ''activationId'') (\<lambda>t.
     bindr (required (lo_instance w) ''instanceId'') (\<lambda>i.
     bindr (required (lo_revision w) ''revision'') (\<lambda>r.
       Inr (a @ [NUL] @ m @ [NUL] @ t @ [NUL] @ i @ [NUL] @ r))))))"

definition max_safe_integer :: int where
  "max_safe_integer = 9007199254740991"

definition of_owner :: "string \<Rightarrow> string \<Rightarrow> bool" where
  "of_owner owner_key k = (take (length owner_key + 1) k = owner_key @ [NUL])"

definition new_lease_registry :: "int option \<Rightarrow> int \<Rightarrow> lease_world" where
  "new_lease_registry timeout now =
     \<lparr>lw_leases = [], lw_states = [], lw_attempts = [], lw_quiescing = [], lw_stopping_all = False,
      lw_timeout = max 1 (case timeout of None \<Rightarrow> 5000 | Some t \<Rightarrow> t), lw_now = now\<rparr>"

section \<open>Operations\<close>

definition upd_state :: "nat \<Rightarrow> (lease_state \<Rightarrow> lease_state) \<Rightarrow> lease_world \<Rightarrow> lease_world" where
  "upd_state i f w = w\<lparr>lw_states := (lw_states w)[i := f (lw_states w ! i)]\<rparr>"

definition upd_attempt :: "nat \<Rightarrow> (stop_attempt \<Rightarrow> stop_attempt) \<Rightarrow> lease_world \<Rightarrow> lease_world" where
  "upd_attempt i f w = w\<lparr>lw_attempts := (lw_attempts w)[i := f (lw_attempts w ! i)]\<rparr>"

text \<open>\<open>#complete(key, state)\<close>.\<close>

definition complete_lease :: "string \<Rightarrow> nat \<Rightarrow> lease_world \<Rightarrow> lease_world" where
  "complete_lease key i w =
     upd_state i (\<lambda>st. st\<lparr>ls_settled := True\<rparr>)
       (if jget (lw_leases w) key = Some i then w\<lparr>lw_leases := jdel key (lw_leases w)\<rparr> else w)"

definition launch_refusal ::
  "lease_owner \<Rightarrow> string \<Rightarrow> string \<Rightarrow> launch_options \<Rightarrow> lease_world \<Rightarrow> string option" where
  "launch_refusal owner owner_key key options w =
     (let maximum = (case ln_max options of None \<Rightarrow> max_safe_integer | Some m \<Rightarrow> m);
          active = int (length (filter (of_owner owner_key) (jkeys (lw_leases w))))
      in if lw_stopping_all w \<or> owner_key \<in> set (lw_quiescing w)
         then Some (''Process lease owner is quiescing: '' @ lo_instance owner @ ''.'')
         else if \<bar>maximum\<bar> > max_safe_integer \<or> maximum < 0 \<or> active \<ge> maximum
         then Some (''Process lease owner reached its child-process limit: '' @ lo_instance owner @ ''.'')
         else if ln_exclusive options \<and>
           list_ex (\<lambda>i. ls_key (lw_states w ! i) = key \<and> ls_exit_code (lw_states w ! i) = None) (jvals (lw_leases w))
         then Some (''Exclusive process lease is already owned: '' @ key @ ''.'')
         else (case jget (lw_leases w) (owner_key @ [NUL] @ key) of
             Some i \<Rightarrow> if ls_exit_code (lw_states w ! i) = None
               then Some (''Process lease already exists: '' @ key @ ''.'') else None
           | None \<Rightarrow> None))"

text \<open>What follows \<open>start()\<close>: the child without a PID is killed and refused, otherwise the lease is entered
  and completed at once when the child has already exited.\<close>

definition enter_lease :: "lease_owner \<Rightarrow> string \<Rightarrow> string \<Rightarrow> child_start \<Rightarrow> lease_world \<Rightarrow> (string, nat) res \<times> lease_world" where
  "enter_lease owner registry_key key child w =
     (if \<not> cs_pid child then (Inl (''Process lease child did not publish a PID: '' @ key @ ''.''), w)
      else let i = length (lw_states w);
          st = \<lparr>ls_key = key, ls_owner = owner, ls_exited = cs_exit_code child \<noteq> None, ls_exit_code = cs_exit_code child,
            ls_settled = False, ls_stop = None, ls_killed = False\<rparr>;
          w1 = w\<lparr>lw_states := lw_states w @ [st], lw_leases := jset registry_key i (lw_leases w)\<rparr>
        in (Inr i, if cs_exit_code child = None then w1 else complete_lease registry_key i w1))"

definition launch ::
  "lease_owner \<Rightarrow> string \<Rightarrow> child_start \<Rightarrow> launch_options \<Rightarrow> lease_world \<Rightarrow> (string, nat) res \<times> lease_world" where
  "launch owner key child options w =
     (case process_lease_owner_key owner of
        Inl e \<Rightarrow> (Inl e, w)
      | Inr owner_key \<Rightarrow>
        (case required key ''Process lease key'' of
           Inl e \<Rightarrow> (Inl e, w)
         | Inr process_key \<Rightarrow>
           (case launch_refusal owner owner_key process_key options w of
              Some e \<Rightarrow> (Inl e, w)
            | None \<Rightarrow>
              let registry_key = owner_key @ [NUL] @ process_key;
                  w0 = (case jget (lw_leases w) registry_key of None \<Rightarrow> w | Some i \<Rightarrow> complete_lease registry_key i w)
              in enter_lease owner registry_key process_key child w0)))"

definition list_leases :: "lease_owner option \<Rightarrow> lease_world \<Rightarrow> (string, nat list) res" where
  "list_leases owner w =
     (case owner of
        None \<Rightarrow> Inr (jvals (lw_leases w))
      | Some owner' \<Rightarrow> bindr (process_lease_owner_key owner') (\<lambda>k.
          Inr (map snd (filter (\<lambda>p. of_owner k (fst p)) (lw_leases w)))))"

definition quiesce_owner :: "lease_owner \<Rightarrow> lease_world \<Rightarrow> (string, lease_world) res" where
  "quiesce_owner owner w =
     bindr (process_lease_owner_key owner) (\<lambda>k. Inr (w\<lparr>lw_quiescing := sadd k (lw_quiescing w)\<rparr>))"

text \<open>\<open>drainOwner\<close> returns the leases it waits for and the time it waits until.\<close>

definition drain_owner :: "lease_owner \<Rightarrow> int \<Rightarrow> lease_world \<Rightarrow> (string, (nat list \<times> int) \<times> lease_world) res" where
  "drain_owner owner timeout w =
     bindr (quiesce_owner owner w) (\<lambda>w1.
     bindr (list_leases (Some owner) w1) (\<lambda>is. Inr ((is, lw_now w1 + max 1 timeout), w1)))"

definition drain_result :: "nat list \<times> int \<Rightarrow> lease_world \<Rightarrow> bool option" where
  "drain_result d w =
     (if list_all (\<lambda>i. ls_settled (lw_states w ! i)) (fst d) then Some True
      else if snd d \<le> lw_now w then Some False else None)"

definition release_owner :: "lease_owner \<Rightarrow> lease_world \<Rightarrow> (string, lease_world) res" where
  "release_owner owner w =
     bindr (process_lease_owner_key owner) (\<lambda>k.
       if list_ex (of_owner k) (jkeys (lw_leases w))
       then Inl (''Process lease owner still has active children: '' @ lo_instance owner @ ''.'')
       else Inr (w\<lparr>lw_quiescing := filter (\<lambda>q. q \<noteq> k) (lw_quiescing w)\<rparr>))"

section \<open>Stopping\<close>

text \<open>The tail of an attempt: a child that has exited is completed, and the attempt waits for the exit until
  the deadline, at least one more millisecond.\<close>

definition await_exit :: "nat \<Rightarrow> lease_world \<Rightarrow> lease_world" where
  "await_exit a w =
     (let at = lw_attempts w ! a;
          w1 = (if ls_exit_code (lw_states w ! at_state at) = None then w
            else complete_lease (at_key at) (at_state at) w)
      in upd_attempt a (\<lambda>at. at\<lparr>at_phase := Final, at_timer := lw_now w + max 1 (at_deadline at - lw_now w)\<rparr>) w1)"

text \<open>\<open>#stop(key, state)\<close> returns the attempt that is under way or begins one.\<close>

definition stop_lease :: "string \<Rightarrow> nat \<Rightarrow> lease_world \<Rightarrow> nat \<times> lease_world" where
  "stop_lease key i w =
     (case ls_stop (lw_states w ! i) of
        Some a \<Rightarrow> (a, w)
      | None \<Rightarrow>
        let a = length (lw_attempts w); graceful = lw_now w + max 1 (lw_timeout w div 2);
            w1 = upd_state i (\<lambda>st. st\<lparr>ls_stop := Some a\<rparr>)
              (w\<lparr>lw_attempts := lw_attempts w @
                 [\<lparr>at_state = i, at_key = key, at_phase = Stopping, at_timer = lw_now w + max 1 (graceful - lw_now w),
                   at_graceful = graceful, at_deadline = lw_now w + lw_timeout w\<rparr>]\<rparr>)
        in (a, if ls_exit_code (lw_states w ! i) = None then w1 else await_exit a w1))"

fun stop_leases :: "(string \<times> nat) list \<Rightarrow> lease_world \<Rightarrow> nat list \<times> lease_world" where
  "stop_leases [] w = ([], w)"
| "stop_leases ((key, i) # ps) w =
     (let (a, w1) = stop_lease key i w; (as, w2) = stop_leases ps w1 in (a # as, w2))"

definition terminate_owner :: "lease_owner \<Rightarrow> lease_world \<Rightarrow> (string, nat list \<times> lease_world) res" where
  "terminate_owner owner w =
     bindr (quiesce_owner owner w) (\<lambda>w1.
     bindr (process_lease_owner_key owner) (\<lambda>k.
       Inr (stop_leases (filter (\<lambda>p. of_owner k (fst p)) (lw_leases w1)) w1)))"

definition terminate_lease :: "nat \<Rightarrow> lease_world \<Rightarrow> nat list \<times> lease_world" where
  "terminate_lease i w = stop_leases (filter (\<lambda>p. snd p = i) (lw_leases w)) w"

definition dispose_all :: "lease_world \<Rightarrow> nat list \<times> lease_world" where
  "dispose_all w = stop_leases (lw_leases w) (w\<lparr>lw_stopping_all := True\<rparr>)"

text \<open>\<open>stopProcess\<close> has settled or the graceful deadline has passed.\<close>

definition after_stop_process :: "nat \<Rightarrow> lease_world \<Rightarrow> lease_world" where
  "after_stop_process a w =
     (if ls_exit_code (lw_states w ! at_state (lw_attempts w ! a)) \<noteq> None then await_exit a w
      else upd_attempt a (\<lambda>at. at\<lparr>at_phase := Graceful, at_timer := lw_now w + max 1 (at_graceful at - lw_now w)\<rparr>) w)"

text \<open>The graceful deadline has passed without an exit: the child is killed.\<close>

definition after_graceful :: "nat \<Rightarrow> lease_world \<Rightarrow> lease_world" where
  "after_graceful a w =
     (let i = at_state (lw_attempts w ! a) in
      await_exit a (if ls_exit_code (lw_states w ! i) = None then upd_state i (\<lambda>st. st\<lparr>ls_killed := True\<rparr>) w else w))"

text \<open>The rejected attempt; its handler lets the lease be stopped again while the registry holds it.\<close>

definition stop_timed_out :: "nat \<Rightarrow> lease_world \<Rightarrow> lease_world" where
  "stop_timed_out a w =
     (let at = lw_attempts w ! a; i = at_state at; st = lw_states w ! i;
          w1 = upd_attempt a (\<lambda>at. at\<lparr>at_phase := Stop_failed (''Process lease did not exit within '' @
            int_str (lw_timeout w) @ ''ms: '' @ ls_key st @ ''.'')\<rparr>) w
      in if ls_stop st = Some a \<and> jget (lw_leases w) (at_key at) = Some i
         then upd_state i (\<lambda>st. st\<lparr>ls_stop := None\<rparr>) w1 else w1)"

fun attempt_timer :: "nat \<Rightarrow> lease_world \<Rightarrow> lease_world" where
  "attempt_timer a w =
     (case at_phase (lw_attempts w ! a) of
        Stopping \<Rightarrow> after_stop_process a w
      | Graceful \<Rightarrow> after_graceful a w
      | Final \<Rightarrow> stop_timed_out a w
      | _ \<Rightarrow> w)"

text \<open>The \<open>settled\<close> promise an attempt waits for is resolved.\<close>

fun attempt_settled :: "nat \<Rightarrow> lease_world \<Rightarrow> lease_world" where
  "attempt_settled a w =
     (case at_phase (lw_attempts w ! a) of
        Graceful \<Rightarrow> await_exit a w
      | Final \<Rightarrow> upd_attempt a (\<lambda>at. at\<lparr>at_phase := Stopped\<rparr>) w
      | _ \<Rightarrow> w)"

definition pending :: "stop_attempt \<Rightarrow> bool" where
  "pending at \<longleftrightarrow> at_phase at \<in> {Stopping, Graceful, Final}"

section \<open>Runs\<close>

datatype lease_event =
    Launch lease_owner string child_start launch_options
  | Child_exits nat "int option"
  | Exit_event nat
  | Error_event nat
  | Quiesce lease_owner
  | Drain lease_owner int
  | Release lease_owner
  | Terminate_owner lease_owner
  | Terminate nat
  | Dispose_all
  | Dispose_finally
  | Stop_process_done nat
  | Settled nat
  | Timer nat
  | Tick

definition registry_key_of :: "lease_state \<Rightarrow> string" where
  "registry_key_of st =
     (case process_lease_owner_key (ls_owner st) of Inl _ \<Rightarrow> [] | Inr k \<Rightarrow> k @ [NUL] @ ls_key st)"

definition kept :: "lease_world \<Rightarrow> (string, lease_world) res \<Rightarrow> lease_world" where
  "kept w r = (case r of Inl _ \<Rightarrow> w | Inr w' \<Rightarrow> w')"

text \<open>One event; \<open>None\<close> when it cannot happen in the state. A child exits once, its exit is reported after
  it, and time does not pass a timer that is due.\<close>

fun lease_step :: "lease_event \<Rightarrow> lease_world \<Rightarrow> lease_world option" where
  "lease_step (Launch owner key child options) w = Some (snd (launch owner key child options w))"
| "lease_step (Child_exits i code) w =
     (if i < length (lw_states w) \<and> \<not> ls_exited (lw_states w ! i)
      then Some (upd_state i (\<lambda>st. st\<lparr>ls_exited := True, ls_exit_code := code\<rparr>) w) else None)"
| "lease_step (Exit_event i) w =
     (if i < length (lw_states w) \<and> ls_exited (lw_states w ! i)
      then Some (complete_lease (registry_key_of (lw_states w ! i)) i w) else None)"
| "lease_step (Error_event i) w =
     (if i < length (lw_states w)
      then Some (if ls_exit_code (lw_states w ! i) = None then w
        else complete_lease (registry_key_of (lw_states w ! i)) i w) else None)"
| "lease_step (Quiesce owner) w = Some (kept w (quiesce_owner owner w))"
| "lease_step (Drain owner timeout) w = Some (kept w (bindr (drain_owner owner timeout w) (\<lambda>r. Inr (snd r))))"
| "lease_step (Release owner) w = Some (kept w (release_owner owner w))"
| "lease_step (Terminate_owner owner) w = Some (kept w (bindr (terminate_owner owner w) (\<lambda>r. Inr (snd r))))"
| "lease_step (Terminate i) w = Some (snd (terminate_lease i w))"
| "lease_step Dispose_all w = Some (snd (dispose_all w))"
| "lease_step Dispose_finally w = (if lw_stopping_all w then Some (w\<lparr>lw_quiescing := []\<rparr>) else None)"
| "lease_step (Stop_process_done a) w =
     (if a < length (lw_attempts w) \<and> at_phase (lw_attempts w ! a) = Stopping then Some (after_stop_process a w) else None)"
| "lease_step (Settled a) w =
     (if a < length (lw_attempts w) \<and> ls_settled (lw_states w ! at_state (lw_attempts w ! a))
      then Some (attempt_settled a w) else None)"
| "lease_step (Timer a) w =
     (if a < length (lw_attempts w) \<and> pending (lw_attempts w ! a) \<and> at_timer (lw_attempts w ! a) \<le> lw_now w \<and>
        (at_phase (lw_attempts w ! a) = Stopping \<or> \<not> ls_settled (lw_states w ! at_state (lw_attempts w ! a)))
      then Some (attempt_timer a w) else None)"
| "lease_step Tick w =
     (if list_all (\<lambda>at. pending at \<longrightarrow> lw_now w < at_timer at) (lw_attempts w)
      then Some (w\<lparr>lw_now := lw_now w + 1\<rparr>) else None)"

abbreviation lease_run :: "lease_event list \<Rightarrow> lease_world \<Rightarrow> lease_world option" where
  "lease_run \<equiv> run_events lease_step"

section \<open>Invariants\<close>

text \<open>The registry holds exactly the leases that are not settled, each under its key.\<close>

definition registry_ok :: "(string, nat) jmap \<Rightarrow> lease_state list \<Rightarrow> bool" where
  "registry_ok m sts \<longleftrightarrow> distinct (jkeys m) \<and>
     (\<forall>k i. jget m k = Some i \<longleftrightarrow> i < length sts \<and> \<not> ls_settled (sts ! i) \<and> registry_key_of (sts ! i) = k)"

definition state_ok :: "stop_attempt list \<Rightarrow> nat \<Rightarrow> lease_state \<Rightarrow> bool" where
  "state_ok ats i st \<longleftrightarrow> (\<exists>k. process_lease_owner_key (ls_owner st) = Inr k) \<and>
     (ls_settled st \<longrightarrow> ls_exited st) \<and> (ls_exit_code st \<noteq> None \<longrightarrow> ls_exited st) \<and>
     (\<forall>a. ls_stop st = Some a \<longrightarrow> a < length ats \<and> at_state (ats ! a) = i)"

definition attempt_ok :: "int \<Rightarrow> lease_state list \<Rightarrow> stop_attempt \<Rightarrow> bool" where
  "attempt_ok now sts at \<longleftrightarrow> at_state at < length sts \<and> at_key at = registry_key_of (sts ! at_state at) \<and>
     (at_phase at = Stopped \<longrightarrow> ls_settled (sts ! at_state at)) \<and> at_graceful at \<le> at_deadline at \<and>
     (pending at \<longrightarrow> now \<le> at_timer at) \<and> (at_phase at = Stopping \<longrightarrow> at_timer at = at_graceful at) \<and>
     (at_phase at = Graceful \<longrightarrow> at_timer at \<le> at_graceful at + 1) \<and>
     (at_phase at = Final \<longrightarrow> at_timer at \<le> at_deadline at + 2)"

definition lease_ok :: "lease_world \<Rightarrow> bool" where
  "lease_ok w \<longleftrightarrow> registry_ok (lw_leases w) (lw_states w) \<and>
     (\<forall>i < length (lw_states w). state_ok (lw_attempts w) i (lw_states w ! i)) \<and>
     (\<forall>a < length (lw_attempts w). attempt_ok (lw_now w) (lw_states w) (lw_attempts w ! a)) \<and> 1 \<le> lw_timeout w"

text \<open>What a run keeps of the states and attempts it finds.\<close>

definition grown :: "lease_world \<Rightarrow> lease_world \<Rightarrow> bool" where
  "grown w w' \<longleftrightarrow> length (lw_states w) \<le> length (lw_states w') \<and> length (lw_attempts w) \<le> length (lw_attempts w') \<and>
     (\<forall>i < length (lw_states w). ls_owner (lw_states w' ! i) = ls_owner (lw_states w ! i) \<and>
        ls_key (lw_states w' ! i) = ls_key (lw_states w ! i) \<and>
        (ls_exited (lw_states w ! i) \<longrightarrow> ls_exited (lw_states w' ! i)) \<and>
        (ls_settled (lw_states w ! i) \<longrightarrow> ls_settled (lw_states w' ! i))) \<and>
     (\<forall>a < length (lw_attempts w). at_state (lw_attempts w' ! a) = at_state (lw_attempts w ! a))"

text \<open>The same, with no lease begun and the guards of \<open>launch\<close> unchanged.\<close>

definition same_leases :: "lease_world \<Rightarrow> lease_world \<Rightarrow> bool" where
  "same_leases w w' \<longleftrightarrow> grown w w' \<and> length (lw_states w') = length (lw_states w) \<and>
     lw_quiescing w' = lw_quiescing w \<and> lw_stopping_all w' = lw_stopping_all w \<and> lw_now w' = lw_now w \<and>
     lw_timeout w' = lw_timeout w"

lemma same_leases_refl [simp]: "same_leases w w"
  by (simp add: same_leases_def grown_def)

lemma grown_trans: "grown w w1 \<Longrightarrow> grown w1 w2 \<Longrightarrow> grown w w2"
  by (simp add: grown_def)

lemma same_leases_trans: "same_leases w w1 \<Longrightarrow> same_leases w1 w2 \<Longrightarrow> same_leases w w2"
  by (auto simp: same_leases_def intro: grown_trans)

lemma same_leases_attempts: "same_leases w w' \<Longrightarrow> length (lw_attempts w) \<le> length (lw_attempts w')"
  by (simp add: same_leases_def grown_def)

lemma lease_okD:
  assumes "lease_ok w"
  shows "registry_ok (lw_leases w) (lw_states w)"
    and "i < length (lw_states w) \<Longrightarrow> state_ok (lw_attempts w) i (lw_states w ! i)"
    and "a < length (lw_attempts w) \<Longrightarrow> attempt_ok (lw_now w) (lw_states w) (lw_attempts w ! a)"
    and "1 \<le> lw_timeout w"
  using assms by (simp_all add: lease_ok_def)

lemma registry_get:
  assumes "lease_ok w" and "jget (lw_leases w) k = Some i"
  shows "i < length (lw_states w)" and "\<not> ls_settled (lw_states w ! i)" and "registry_key_of (lw_states w ! i) = k"
  using lease_okD(1) [OF assms(1)] assms(2) by (simp_all add: registry_ok_def)

lemma registry_mem:
  assumes "lease_ok w"
  shows "(k, i) \<in> set (lw_leases w) \<longleftrightarrow> jget (lw_leases w) k = Some i"
  by (rule mem_jget) (use lease_okD(1) [OF assms] in \<open>simp only: registry_ok_def\<close>)

lemma registry_key_of_cong:
  "ls_owner st = ls_owner st' \<Longrightarrow> ls_key st = ls_key st' \<Longrightarrow> registry_key_of st = registry_key_of st'"
  by (simp add: registry_key_of_def split: sum.split)

lemma registry_key_of_settled [simp]: "registry_key_of (st\<lparr>ls_settled := b\<rparr>) = registry_key_of st"
  by (rule registry_key_of_cong) simp_all

lemma registry_ok_cong:
  assumes reg: "registry_ok m sts" and len: "length sts' = length sts"
    and eq: "\<And>j. j < length sts \<Longrightarrow> ls_settled (sts' ! j) = ls_settled (sts ! j) \<and>
      registry_key_of (sts' ! j) = registry_key_of (sts ! j)"
  shows "registry_ok m sts'"
proof -
  have "jget m k = Some i \<longleftrightarrow> i < length sts' \<and> \<not> ls_settled (sts' ! i) \<and> registry_key_of (sts' ! i) = k" for k i
    using reg len eq [of i] by (auto simp only: registry_ok_def)
  with reg show ?thesis by (simp only: registry_ok_def simp_thms)
qed

lemma attempt_state:
  assumes "lease_ok w" and "a < length (lw_attempts w)"
  shows "at_state (lw_attempts w ! a) < length (lw_states w)"
    and "at_key (lw_attempts w ! a) = registry_key_of (lw_states w ! at_state (lw_attempts w ! a))"
  using lease_okD(3) [OF assms] by (simp_all add: attempt_ok_def)

text \<open>The writes the operations are made of.\<close>

lemma upd_state_ok:
  assumes ok: "lease_ok w" and i: "i < length (lw_states w)"
    and f: "ls_owner (f (lw_states w ! i)) = ls_owner (lw_states w ! i)" "ls_key (f (lw_states w ! i)) = ls_key (lw_states w ! i)"
      "ls_settled (f (lw_states w ! i)) = ls_settled (lw_states w ! i)"
    and mono: "ls_exited (lw_states w ! i) \<longrightarrow> ls_exited (f (lw_states w ! i))"
    and code: "ls_exit_code (f (lw_states w ! i)) \<noteq> None \<longrightarrow> ls_exited (f (lw_states w ! i))"
    and stop: "\<And>a. ls_stop (f (lw_states w ! i)) = Some a \<Longrightarrow> a < length (lw_attempts w) \<and> at_state (lw_attempts w ! a) = i"
  shows "lease_ok (upd_state i f w) \<and> same_leases w (upd_state i f w)"
proof -
  have k: "registry_key_of ((lw_states w)[i := f (lw_states w ! i)] ! j) = registry_key_of (lw_states w ! j)" for j
    by (rule registry_key_of_cong; cases "j = i") (use f(1,2) i in simp_all)
  have "registry_ok (lw_leases w) ((lw_states w)[i := f (lw_states w ! i)])"
  proof (rule registry_ok_cong [OF lease_okD(1) [OF ok]])
    show "ls_settled ((lw_states w)[i := f (lw_states w ! i)] ! j) = ls_settled (lw_states w ! j) \<and>
        registry_key_of ((lw_states w)[i := f (lw_states w ! i)] ! j) = registry_key_of (lw_states w ! j)" for j
      unfolding k using f(3) i by (cases "j = i") simp_all
  qed simp
  moreover have "state_ok (lw_attempts w) j ((lw_states w)[i := f (lw_states w ! i)] ! j)" if "j < length (lw_states w)" for j
  proof (cases "j = i")
    case True
    have "state_ok (lw_attempts w) i (f (lw_states w ! i))"
      using lease_okD(2) [OF ok i] f(1,3) mono code stop unfolding state_ok_def by fastforce
    with True i show ?thesis by simp
  next
    case False
    then show ?thesis using lease_okD(2) [OF ok that] by simp
  qed
  moreover have "attempt_ok (lw_now w) ((lw_states w)[i := f (lw_states w ! i)]) (lw_attempts w ! a)"
    if "a < length (lw_attempts w)" for a
  proof -
    have "ls_settled ((lw_states w)[i := f (lw_states w ! i)] ! j) = ls_settled (lw_states w ! j)" for j
      using f(3) i by (cases "j = i") simp_all
    then show ?thesis using lease_okD(3) [OF ok that] by (simp add: attempt_ok_def k)
  qed
  moreover have "grown w (upd_state i f w)"
    using f mono i unfolding grown_def upd_state_def by (simp add: nth_list_update)
  ultimately show ?thesis using lease_okD(4) [OF ok]
    by (simp add: lease_ok_def upd_state_def same_leases_def)
qed

lemma complete_lease_ok:
  assumes ok: "lease_ok w" and i: "i < length (lw_states w)" and exited: "ls_exited (lw_states w ! i)"
    and key: "key = registry_key_of (lw_states w ! i)"
  shows "lease_ok (complete_lease key i w) \<and> same_leases w (complete_lease key i w)"
    and "ls_settled (lw_states (complete_lease key i w) ! i)"
    and "jget (lw_leases (complete_lease key i w)) key = None \<or> jget (lw_leases (complete_lease key i w)) key = jget (lw_leases w) key"
    and "lw_attempts (complete_lease key i w) = lw_attempts w"
    and "lw_leases (complete_lease key i w) = (if jget (lw_leases w) key = Some i then jdel key (lw_leases w) else lw_leases w)"
proof -
  let ?m = "if jget (lw_leases w) key = Some i then jdel key (lw_leases w) else lw_leases w"
  let ?sts = "(lw_states w)[i := (lw_states w ! i)\<lparr>ls_settled := True\<rparr>]"
  have eq: "complete_lease key i w = w\<lparr>lw_leases := ?m, lw_states := ?sts\<rparr>"
    by (simp add: complete_lease_def upd_state_def)
  note reg = lease_okD(1) [OF ok]
  have kof: "registry_key_of (?sts ! j) = registry_key_of (lw_states w ! j)" for j
    by (rule registry_key_of_cong) (use i in \<open>simp_all add: nth_list_update\<close>)
  have iff: "jget ?m k = Some j \<longleftrightarrow> j < length ?sts \<and> \<not> ls_settled (?sts ! j) \<and> registry_key_of (?sts ! j) = k" for k j
  proof -
    have g: "jget (lw_leases w) k' = Some j' \<longleftrightarrow>
        j' < length (lw_states w) \<and> \<not> ls_settled (lw_states w ! j') \<and> registry_key_of (lw_states w ! j') = k'" for k' j'
      using reg by (simp only: registry_ok_def)
    have u: "j = i" if "jget (lw_leases w) key = Some i" "jget (lw_leases w) key = Some j"
      using that by simp
    show ?thesis unfolding kof using u g [of key i] g [of key j] g [of k j] key i
      by (cases "j = i"; cases "k = key"; cases "jget (lw_leases w) key = Some i")
        (simp_all del: map_of_eq_Some_iff)
  qed
  have "distinct (jkeys ?m)" using reg by (simp add: registry_ok_def distinct_jdel)
  with iff have "registry_ok ?m ?sts" by (simp only: registry_ok_def simp_thms)
  moreover have "state_ok (lw_attempts w) j (?sts ! j)" if "j < length (lw_states w)" for j
    using lease_okD(2) [OF ok that] exited by (cases "j = i") (simp_all add: state_ok_def i)
  moreover have "attempt_ok (lw_now w) ?sts (lw_attempts w ! a)" if "a < length (lw_attempts w)" for a
    using lease_okD(3) [OF ok that] i by (simp add: attempt_ok_def kof nth_list_update)
  ultimately show "lease_ok (complete_lease key i w) \<and> same_leases w (complete_lease key i w)"
    using ok i by (simp add: eq lease_ok_def same_leases_def grown_def nth_list_update)
  show "ls_settled (lw_states (complete_lease key i w) ! i)" using i by (simp add: eq)
  show "jget (lw_leases (complete_lease key i w)) key = None \<or> jget (lw_leases (complete_lease key i w)) key = jget (lw_leases w) key"
    by (simp add: eq)
  show "lw_attempts (complete_lease key i w) = lw_attempts w" by (simp add: eq)
  show "lw_leases (complete_lease key i w) = ?m" by (simp add: eq)
qed

lemma upd_attempt_ok:
  assumes ok: "lease_ok w" and a: "a < length (lw_attempts w)"
    and f: "at_state (f (lw_attempts w ! a)) = at_state (lw_attempts w ! a)"
    and good: "attempt_ok (lw_now w) (lw_states w) (f (lw_attempts w ! a))"
  shows "lease_ok (upd_attempt a f w) \<and> same_leases w (upd_attempt a f w)"
proof -
  have "state_ok ((lw_attempts w)[a := f (lw_attempts w ! a)]) j (lw_states w ! j)" if "j < length (lw_states w)" for j
    using lease_okD(2) [OF ok that] f a by (simp add: state_ok_def nth_list_update)
  moreover have "attempt_ok (lw_now w) (lw_states w) ((lw_attempts w)[a := f (lw_attempts w ! a)] ! b)"
    if "b < length (lw_attempts w)" for b
    using lease_okD(3) [OF ok that] good a by (cases "b = a") simp_all
  ultimately show ?thesis using ok f a
    by (simp add: lease_ok_def upd_attempt_def same_leases_def grown_def nth_list_update)
qed

lemma same_leases_key:
  "same_leases w w' \<Longrightarrow> i < length (lw_states w) \<Longrightarrow> registry_key_of (lw_states w' ! i) = registry_key_of (lw_states w ! i)"
  by (rule registry_key_of_cong) (simp_all add: same_leases_def grown_def)

lemma exit_code_exited:
  assumes "lease_ok w" and "i < length (lw_states w)" and "ls_exit_code (lw_states w ! i) \<noteq> None"
  shows "ls_exited (lw_states w ! i)"
  using lease_okD(2) [OF assms(1,2)] assms(3) by (simp add: state_ok_def)

lemma await_exit_ok:
  assumes ok: "lease_ok w" and a: "a < length (lw_attempts w)"
    and now: "lw_now w \<le> at_deadline (lw_attempts w ! a) + 1"
  shows "lease_ok (await_exit a w) \<and> same_leases w (await_exit a w)"
proof -
  let ?at = "lw_attempts w ! a"
  define w1 where "w1 = (if ls_exit_code (lw_states w ! at_state ?at) = None then w
    else complete_lease (at_key ?at) (at_state ?at) w)"
  note st = attempt_state [OF ok a]
  have w1: "lease_ok w1 \<and> same_leases w w1" and eq: "lw_attempts w1 = lw_attempts w"
    using ok complete_lease_ok(1,4) [OF ok st(1) exit_code_exited [OF ok st(1)] st(2)] by (auto simp: w1_def)
  have now1: "lw_now w1 = lw_now w" using w1 by (simp add: same_leases_def)
  have "attempt_ok (lw_now w1) (lw_states w1) (lw_attempts w1 ! a)" using lease_okD(3) [of w1 a] w1 a eq by simp
  then have "attempt_ok (lw_now w1) (lw_states w1)
      (?at\<lparr>at_phase := Final, at_timer := lw_now w + max 1 (at_deadline ?at - lw_now w)\<rparr>)"
    using now unfolding attempt_ok_def eq now1 pending_def by (simp add: max_def)
  then have "lease_ok (upd_attempt a (\<lambda>at. at\<lparr>at_phase := Final, at_timer := lw_now w + max 1 (at_deadline at - lw_now w)\<rparr>) w1) \<and>
      same_leases w1 (upd_attempt a (\<lambda>at. at\<lparr>at_phase := Final, at_timer := lw_now w + max 1 (at_deadline at - lw_now w)\<rparr>) w1)"
    using w1 a eq by (intro upd_attempt_ok) simp_all
  then show ?thesis using w1 by (auto simp: await_exit_def Let_def w1_def [symmetric] intro: same_leases_trans)
qed

lemma append_attempt_ok:
  assumes ok: "lease_ok w" and new: "attempt_ok (lw_now w) (lw_states w) at"
  shows "lease_ok (w\<lparr>lw_attempts := lw_attempts w @ [at]\<rparr>) \<and> same_leases w (w\<lparr>lw_attempts := lw_attempts w @ [at]\<rparr>)"
proof -
  have "state_ok (lw_attempts w @ [at]) i (lw_states w ! i)" if "i < length (lw_states w)" for i
    using lease_okD(2) [OF ok that] by (auto simp: state_ok_def nth_append)
  moreover have "attempt_ok (lw_now w) (lw_states w) ((lw_attempts w @ [at]) ! a)" if "a < Suc (length (lw_attempts w))" for a
    using lease_okD(3) [OF ok, of a] new that by (cases "a = length (lw_attempts w)") (simp_all add: nth_append)
  ultimately show ?thesis using lease_okD(1,4) [OF ok]
    by (simp add: lease_ok_def same_leases_def grown_def nth_append)
qed

lemma stop_lease_ok:
  assumes ok: "lease_ok w" and i: "i < length (lw_states w)" and key: "key = registry_key_of (lw_states w ! i)"
    and stop: "stop_lease key i w = (a, w')"
  shows "lease_ok w' \<and> same_leases w w' \<and> a < length (lw_attempts w') \<and> at_state (lw_attempts w' ! a) = i"
proof (cases "ls_stop (lw_states w ! i)")
  case (Some b)
  with stop have "a = b" "w' = w" by (simp_all add: stop_lease_def)
  with lease_okD(2) [OF ok i] Some ok show ?thesis by (simp add: state_ok_def)
next
  case None
  define graceful where "graceful = lw_now w + max 1 (lw_timeout w div 2)"
  define at where "at = \<lparr>at_state = i, at_key = key, at_phase = Stopping, at_timer = lw_now w + max 1 (graceful - lw_now w),
    at_graceful = graceful, at_deadline = lw_now w + lw_timeout w\<rparr>"
  define w0 where "w0 = w\<lparr>lw_attempts := lw_attempts w @ [at]\<rparr>"
  define w1 where "w1 = upd_state i (\<lambda>st. st\<lparr>ls_stop := Some (length (lw_attempts w))\<rparr>) w0"
  have "max 1 (lw_timeout w div 2) \<le> lw_timeout w" using lease_okD(4) [OF ok] by simp
  then have "attempt_ok (lw_now w) (lw_states w) at" using i key by (simp add: attempt_ok_def at_def graceful_def pending_def)
  from append_attempt_ok [OF ok this] have w0: "lease_ok w0 \<and> same_leases w w0" by (simp add: w0_def)
  have sts: "lw_states w0 = lw_states w" and ats: "lw_attempts w0 = lw_attempts w @ [at]" by (simp_all add: w0_def)
  have "lease_ok w1 \<and> same_leases w0 w1" unfolding w1_def
    by (rule upd_state_ok) (use w0 i exit_code_exited [OF ok i] in \<open>auto simp: sts ats at_def\<close>)
  moreover have ats1: "lw_attempts w1 = lw_attempts w @ [at]" and now1: "lw_now w1 = lw_now w"
    by (simp_all add: w1_def upd_state_def ats w0_def)
  moreover have aw: "lease_ok (await_exit (length (lw_attempts w)) w1) \<and> same_leases w1 (await_exit (length (lw_attempts w)) w1)"
    if "lease_ok w1"
    by (rule await_exit_ok) (use that lease_okD(4) [OF ok] in \<open>simp_all add: ats1 now1 at_def\<close>)
  moreover have "a = length (lw_attempts w)"
    and "w' = (if ls_exit_code (lw_states w ! i) = None then w1 else await_exit (length (lw_attempts w)) w1)"
    using stop None by (auto simp: stop_lease_def Let_def w1_def w0_def at_def graceful_def split: if_splits)
  ultimately have w': "lease_ok w' \<and> same_leases w1 w' \<and> same_leases w w1 \<and> a = length (lw_attempts w)"
    using w0 by (auto intro: same_leases_trans)
  then have "a < length (lw_attempts w') \<and> at_state (lw_attempts w' ! a) = at_state (lw_attempts w1 ! a)"
    using ats1 by (auto simp: same_leases_def grown_def)
  with w' show ?thesis by (auto simp: ats1 at_def intro: same_leases_trans)
qed

lemma stop_leases_ok:
  assumes "lease_ok w" and "\<And>k i. (k, i) \<in> set ps \<Longrightarrow> i < length (lw_states w) \<and> k = registry_key_of (lw_states w ! i)"
    and "stop_leases ps w = (as, w')"
  shows "lease_ok w' \<and> same_leases w w' \<and>
    (\<forall>p \<in> set ps. \<exists>a \<in> set as. a < length (lw_attempts w') \<and> at_state (lw_attempts w' ! a) = snd p)"
  using assms
proof (induction ps arbitrary: w as)
  case (Cons p ps)
  obtain k i where p: "p = (k, i)" by (cases p)
  obtain a w1 where 1: "stop_lease k i w = (a, w1)" by (cases "stop_lease k i w")
  obtain as' where 2: "stop_leases ps w1 = (as', w')" and as: "as = a # as'"
    using Cons.prems(3) 1 by (auto simp: p split: prod.splits)
  have pi: "i < length (lw_states w)" "k = registry_key_of (lw_states w ! i)" using Cons.prems(2) [of k i] by (simp_all add: p)
  note s1 = stop_lease_ok [OF Cons.prems(1) pi 1]
  have "j < length (lw_states w1) \<and> k' = registry_key_of (lw_states w1 ! j)" if "(k', j) \<in> set ps" for k' j
    using Cons.prems(2) [of k' j] that s1 same_leases_key [of w w1 j] by (auto simp: same_leases_def)
  then have "lease_ok w' \<and> same_leases w1 w' \<and>
      (\<forall>p \<in> set ps. \<exists>a \<in> set as'. a < length (lw_attempts w') \<and> at_state (lw_attempts w' ! a) = snd p)"
    using s1 2 by (intro Cons.IH) simp_all
  moreover from this s1 have "a < length (lw_attempts w') \<and> at_state (lw_attempts w' ! a) = i"
    by (auto simp: same_leases_def grown_def)
  ultimately show ?case using s1 by (auto simp: p as intro: same_leases_trans)
qed simp

lemma stop_registered_ok:
  assumes ok: "lease_ok w" and ps: "set ps \<subseteq> set (lw_leases w)" and stop: "stop_leases ps w = (as, w')"
  shows "lease_ok w' \<and> same_leases w w' \<and>
    (\<forall>p \<in> set ps. \<exists>a \<in> set as. a < length (lw_attempts w') \<and> at_state (lw_attempts w' ! a) = snd p)"
proof (rule stop_leases_ok [OF ok _ stop])
  fix k i assume "(k, i) \<in> set ps"
  with ps have "jget (lw_leases w) k = Some i" by (simp only: registry_mem [OF ok, symmetric] subset_iff)
  from registry_get [OF ok this] show "i < length (lw_states w) \<and> k = registry_key_of (lw_states w ! i)" by simp
qed

lemma after_stop_process_ok:
  assumes ok: "lease_ok w" and a: "a < length (lw_attempts w)" and ph: "at_phase (lw_attempts w ! a) = Stopping"
  shows "lease_ok (after_stop_process a w) \<and> same_leases w (after_stop_process a w)"
proof -
  have at: "attempt_ok (lw_now w) (lw_states w) (lw_attempts w ! a)" by (rule lease_okD(3) [OF ok a])
  then have now: "lw_now w \<le> at_graceful (lw_attempts w ! a)" "at_graceful (lw_attempts w ! a) \<le> at_deadline (lw_attempts w ! a)"
    using ph by (simp_all add: attempt_ok_def pending_def)
  have "attempt_ok (lw_now w) (lw_states w) ((lw_attempts w ! a)\<lparr>at_phase := Graceful,
      at_timer := lw_now w + max 1 (at_graceful (lw_attempts w ! a) - lw_now w)\<rparr>)"
    using at now by (simp add: attempt_ok_def max_def)
  then show ?thesis using await_exit_ok [OF ok a] now upd_attempt_ok [OF ok a] by (simp add: after_stop_process_def)
qed

lemma after_graceful_ok:
  assumes ok: "lease_ok w" and a: "a < length (lw_attempts w)" and ph: "at_phase (lw_attempts w ! a) = Graceful"
  shows "lease_ok (after_graceful a w) \<and> same_leases w (after_graceful a w)"
proof -
  let ?i = "at_state (lw_attempts w ! a)"
  define w1 where "w1 = (if ls_exit_code (lw_states w ! ?i) = None then upd_state ?i (\<lambda>st. st\<lparr>ls_killed := True\<rparr>) w else w)"
  note i = attempt_state(1) [OF ok a]
  have now: "lw_now w \<le> at_deadline (lw_attempts w ! a) + 1"
    using lease_okD(3) [OF ok a] ph by (simp add: attempt_ok_def pending_def)
  have "lease_ok (upd_state ?i (\<lambda>st. st\<lparr>ls_killed := True\<rparr>) w) \<and> same_leases w (upd_state ?i (\<lambda>st. st\<lparr>ls_killed := True\<rparr>) w)"
    by (rule upd_state_ok [OF ok i]) (use exit_code_exited [OF ok i] lease_okD(2) [OF ok i] in \<open>auto simp: state_ok_def\<close>)
  with ok have w1: "lease_ok w1 \<and> same_leases w w1" by (simp add: w1_def)
  have eq: "lw_attempts w1 = lw_attempts w" "lw_now w1 = lw_now w" by (simp_all add: w1_def upd_state_def)
  have "lease_ok (await_exit a w1) \<and> same_leases w1 (await_exit a w1)"
    by (rule await_exit_ok) (use w1 a now eq in simp_all)
  with w1 show ?thesis unfolding after_graceful_def Let_def w1_def [symmetric] by (blast intro: same_leases_trans)
qed

lemma stop_timed_out_ok:
  assumes ok: "lease_ok w" and a: "a < length (lw_attempts w)"
  shows "lease_ok (stop_timed_out a w) \<and> same_leases w (stop_timed_out a w)"
proof -
  let ?i = "at_state (lw_attempts w ! a)"
  define w1 where "w1 = upd_attempt a (\<lambda>at. at\<lparr>at_phase := Stop_failed (''Process lease did not exit within '' @
            int_str (lw_timeout w) @ ''ms: '' @ ls_key (lw_states w ! ?i) @ ''.'')\<rparr>) w"
  have w1: "lease_ok w1 \<and> same_leases w w1" unfolding w1_def
    by (rule upd_attempt_ok [OF ok a]) (use lease_okD(3) [OF ok a] in \<open>simp_all add: attempt_ok_def pending_def\<close>)
  have i: "?i < length (lw_states w1)" using attempt_state(1) [OF ok a] by (simp add: w1_def upd_attempt_def)
  have "lease_ok (upd_state ?i (\<lambda>st. st\<lparr>ls_stop := None\<rparr>) w1) \<and> same_leases w1 (upd_state ?i (\<lambda>st. st\<lparr>ls_stop := None\<rparr>) w1)"
    by (rule upd_state_ok) (use w1 i exit_code_exited [of w1 ?i] in simp_all)
  then have "lease_ok (upd_state ?i (\<lambda>st. st\<lparr>ls_stop := None\<rparr>) w1) \<and> same_leases w (upd_state ?i (\<lambda>st. st\<lparr>ls_stop := None\<rparr>) w1)"
    using w1 by (blast intro: same_leases_trans)
  with w1 show ?thesis unfolding stop_timed_out_def Let_def w1_def [symmetric] by simp
qed

lemma attempt_settled_ok:
  assumes ok: "lease_ok w" and a: "a < length (lw_attempts w)"
    and settled: "ls_settled (lw_states w ! at_state (lw_attempts w ! a))"
  shows "lease_ok (attempt_settled a w) \<and> same_leases w (attempt_settled a w)"
proof (cases "at_phase (lw_attempts w ! a)")
  case Graceful
  then have "lw_now w \<le> at_deadline (lw_attempts w ! a) + 1"
    using lease_okD(3) [OF ok a] by (simp add: attempt_ok_def pending_def)
  from await_exit_ok [OF ok a this] Graceful show ?thesis by simp
next
  case Final
  have "attempt_ok (lw_now w) (lw_states w) ((lw_attempts w ! a)\<lparr>at_phase := Stopped\<rparr>)"
    using lease_okD(3) [OF ok a] settled by (simp add: attempt_ok_def pending_def)
  with upd_attempt_ok [OF ok a, of "\<lambda>at. at\<lparr>at_phase := Stopped\<rparr>"] Final show ?thesis by simp
qed (use ok in simp_all)

lemma attempt_timer_ok:
  assumes ok: "lease_ok w" and a: "a < length (lw_attempts w)"
  shows "lease_ok (attempt_timer a w) \<and> same_leases w (attempt_timer a w)"
  by (cases "at_phase (lw_attempts w ! a)")
    (use ok after_stop_process_ok [OF ok a] after_graceful_ok [OF ok a] stop_timed_out_ok [OF ok a] in simp_all)

section \<open>Launching\<close>

lemma append_lease_ok:
  assumes ok: "lease_ok w" and free: "jget (lw_leases w) key = None" and st: "state_ok (lw_attempts w) (length (lw_states w)) st"
    and key: "key = registry_key_of st" and new: "\<not> ls_settled st"
  shows "lease_ok (w\<lparr>lw_states := lw_states w @ [st], lw_leases := jset key (length (lw_states w)) (lw_leases w)\<rparr>)"
proof -
  let ?n = "length (lw_states w)" and ?sts = "lw_states w @ [st]"
  note reg = lease_okD(1) [OF ok]
  have "jget (jset key ?n (lw_leases w)) k = Some i \<longleftrightarrow> i < length ?sts \<and> \<not> ls_settled (?sts ! i) \<and> registry_key_of (?sts ! i) = k" for k i
  proof -
    have g: "jget (lw_leases w) k' = Some i' \<longleftrightarrow>
        i' < length (lw_states w) \<and> \<not> ls_settled (lw_states w ! i') \<and> registry_key_of (lw_states w ! i') = k'" for k' i'
      using reg by (simp only: registry_ok_def)
    consider "i < ?n" | "i = ?n" | "?n < i" by linarith
    then show ?thesis using g [of k i] g [of key i] free key new
      by cases (auto simp: nth_append simp del: map_of_eq_Some_iff)
  qed
  moreover have "distinct (jkeys (jset key ?n (lw_leases w)))" using reg by (simp add: registry_ok_def distinct_jset)
  ultimately have "registry_ok (jset key ?n (lw_leases w)) ?sts" by (simp only: registry_ok_def simp_thms)
  moreover have "state_ok (lw_attempts w) i (?sts ! i)" if "i < Suc ?n" for i
    using lease_okD(2) [OF ok, of i] st that by (cases "i = ?n") (simp_all add: nth_append)
  moreover have "attempt_ok (lw_now w) ?sts (lw_attempts w ! a)" if "a < length (lw_attempts w)" for a
    using lease_okD(3) [OF ok that] by (simp add: attempt_ok_def nth_append)
  ultimately show ?thesis using lease_okD(4) [OF ok] by (simp add: lease_ok_def)
qed

text \<open>A state that follows another one: what was there is kept, and leases begun since then belong to owners that
  were not refused.\<close>

definition blocked :: "string \<Rightarrow> lease_world \<Rightarrow> bool" where
  "blocked k w \<longleftrightarrow> lw_stopping_all w \<or> k \<in> set (lw_quiescing w)"

definition no_new :: "string \<Rightarrow> lease_world \<Rightarrow> lease_world \<Rightarrow> bool" where
  "no_new k w w' \<longleftrightarrow> grown w w' \<and> (\<forall>i. length (lw_states w) \<le> i \<and> i < length (lw_states w') \<longrightarrow>
     process_lease_owner_key (ls_owner (lw_states w' ! i)) \<noteq> Inr k)"

lemma no_new_refl: "no_new k w w"
  by (auto simp: no_new_def grown_def)

lemma no_new_trans:
  assumes "no_new k w w1" and "no_new k w1 w2"
  shows "no_new k w w2"
proof -
  have "process_lease_owner_key (ls_owner (lw_states w2 ! i)) \<noteq> Inr k"
    if "length (lw_states w) \<le> i" "i < length (lw_states w2)" for i
    using assms that by (cases "i < length (lw_states w1)") (auto simp: no_new_def grown_def)
  moreover have "grown w w2" using assms by (auto simp: no_new_def intro: grown_trans)
  ultimately show ?thesis by (simp add: no_new_def)
qed

lemma same_leases_no_new: "same_leases w w' \<Longrightarrow> no_new k w w'"
  by (auto simp: no_new_def same_leases_def)

lemma same_leases_blocked: "same_leases w w' \<Longrightarrow> blocked k w' \<longleftrightarrow> blocked k w"
  by (simp add: blocked_def same_leases_def)

lemma enter_lease_ok:
  assumes ok: "lease_ok w" and free: "jget (lw_leases w) (k @ [NUL] @ key) = None"
    and owner: "process_lease_owner_key owner = Inr k"
  shows "lease_ok (snd (enter_lease owner (k @ [NUL] @ key) key child w))"
    and "k' \<noteq> k \<Longrightarrow> no_new k' w (snd (enter_lease owner (k @ [NUL] @ key) key child w))"
    and "blocked k' (snd (enter_lease owner (k @ [NUL] @ key) key child w)) \<longleftrightarrow> blocked k' w"
proof -
  let ?n = "length (lw_states w)"
  define st where "st = \<lparr>ls_key = key, ls_owner = owner, ls_exited = cs_exit_code child \<noteq> None, ls_exit_code = cs_exit_code child,
            ls_settled = False, ls_stop = None, ls_killed = False\<rparr>"
  define w1 where "w1 = w\<lparr>lw_states := lw_states w @ [st], lw_leases := jset (k @ [NUL] @ key) ?n (lw_leases w)\<rparr>"
  define w2 where "w2 = (if cs_exit_code child = None then w1 else complete_lease (k @ [NUL] @ key) ?n w1)"
  have key: "k @ [NUL] @ key = registry_key_of st" by (simp add: registry_key_of_def st_def owner)
  have w1: "lease_ok w1" unfolding w1_def
    by (rule append_lease_ok [OF ok free _ key]) (simp_all add: st_def state_ok_def owner)
  have n: "lw_states w1 ! ?n = st" "?n < length (lw_states w1)" by (simp_all add: w1_def)
  have w2: "lease_ok w2 \<and> same_leases w1 w2"
  proof (cases "cs_exit_code child")
    case (Some c)
    then have "ls_exited (lw_states w1 ! ?n)" by (simp add: n st_def)
    from complete_lease_ok(1) [OF w1 n(2) this] Some key show ?thesis by (simp add: w2_def n)
  qed (use w1 in \<open>simp add: w2_def\<close>)
  have res: "snd (enter_lease owner (k @ [NUL] @ key) key child w) = (if cs_pid child then w2 else w)"
    by (simp add: enter_lease_def Let_def w2_def w1_def st_def)
  show "lease_ok (snd (enter_lease owner (k @ [NUL] @ key) key child w))" using w2 ok unfolding res by simp
  show "blocked k' (snd (enter_lease owner (k @ [NUL] @ key) key child w)) \<longleftrightarrow> blocked k' w"
    using same_leases_blocked [of w1 w2 k'] w2 unfolding res by (simp add: blocked_def w1_def)
  assume "k' \<noteq> k"
  then have "no_new k' w w1" by (auto simp: no_new_def grown_def w1_def nth_append less_Suc_eq st_def owner)
  with same_leases_no_new [of w1 w2 k'] w2 have "no_new k' w w2" by (blast intro: no_new_trans)
  then show "no_new k' w (snd (enter_lease owner (k @ [NUL] @ key) key child w))" unfolding res by (simp add: no_new_refl)
qed

lemma launch_ok:
  assumes ok: "lease_ok w"
  shows "lease_ok (snd (launch owner key child options w)) \<and>
    (blocked k (snd (launch owner key child options w)) \<longleftrightarrow> blocked k w) \<and>
    (blocked k w \<longrightarrow> no_new k w (snd (launch owner key child options w)))"
proof (cases "snd (launch owner key child options w) = w")
  case True
  with ok show ?thesis by (simp add: no_new_refl)
next
  case False
  then obtain owner_key process_key where o: "process_lease_owner_key owner = Inr owner_key"
    and p: "required key ''Process lease key'' = Inr process_key"
    and accepted: "launch_refusal owner owner_key process_key options w = None"
    by (auto simp: launch_def split: sum.splits option.splits)
  let ?key = "owner_key @ [NUL] @ process_key"
  define w0 where "w0 = (case jget (lw_leases w) ?key of None \<Rightarrow> w | Some i \<Rightarrow> complete_lease ?key i w)"
  have w0: "lease_ok w0 \<and> same_leases w w0 \<and> jget (lw_leases w0) ?key = None"
  proof (cases "jget (lw_leases w) ?key")
    case None
    with ok show ?thesis by (simp add: w0_def)
  next
    case (Some i)
    note i = registry_get [OF ok Some]
    have "ls_exit_code (lw_states w ! i) \<noteq> None"
      using accepted Some by (auto simp: launch_refusal_def Let_def split: if_splits)
    from complete_lease_ok(1,5) [OF ok i(1) exit_code_exited [OF ok i(1) this] i(3) [symmetric]] Some
    show ?thesis by (simp add: w0_def)
  qed
  have eq: "snd (launch owner key child options w) = snd (enter_lease owner ?key process_key child w0)"
    unfolding launch_def o p accepted w0_def Let_def sum.case option.case by (rule refl)
  note new = enter_lease_ok [of w0 owner_key process_key owner, OF conjunct1 [OF w0] _ o]
  have free: "jget (lw_leases w0) ?key = None" using w0 by simp
  have "owner_key \<noteq> k" if "blocked k w"
    using accepted that by (auto simp: launch_refusal_def blocked_def Let_def split: if_splits)
  then have "no_new k w0 (snd (launch owner key child options w))" if "blocked k w"
    unfolding eq using new(2) [OF free, of k] that by blast
  moreover have "no_new k w w0" using w0 by (simp add: same_leases_no_new)
  ultimately show ?thesis
    using new(1,3) [OF free] w0 same_leases_blocked [of w w0 k] unfolding eq by (blast intro: no_new_trans)
qed

section \<open>Every run\<close>

definition releases :: "string \<Rightarrow> lease_event \<Rightarrow> bool" where
  "releases k e \<longleftrightarrow> (case e of Release owner \<Rightarrow> process_lease_owner_key owner = Inr k | _ \<Rightarrow> False)"

text \<open>What one event does with the invariant and, while an owner is blocked, with its leases.\<close>

definition step_good :: "string \<Rightarrow> bool \<Rightarrow> lease_world \<Rightarrow> lease_world \<Rightarrow> bool" where
  "step_good k released w w' \<longleftrightarrow> lease_ok w' \<and> (blocked k w \<and> \<not> released \<longrightarrow> blocked k w' \<and> no_new k w w')"

lemma step_good_same: "lease_ok w' \<and> same_leases w w' \<Longrightarrow> step_good k r w w'"
  by (auto simp: step_good_def same_leases_no_new same_leases_blocked)

text \<open>Guards are only strengthened.\<close>

lemma guards_ok:
  assumes "lease_ok w" and "set (lw_quiescing w) \<subseteq> qs \<or> b" and "lw_stopping_all w \<longrightarrow> b" and "set q = qs"
  shows "step_good k r w (w\<lparr>lw_quiescing := q, lw_stopping_all := b\<rparr>)"
  using assms by (auto simp: step_good_def lease_ok_def blocked_def no_new_def grown_def)

lemma quiesce_ok:
  assumes ok: "lease_ok w" and q: "quiesce_owner owner w = Inr w'"
  shows "step_good k r w w' \<and> lw_leases w' = lw_leases w \<and> lw_states w' = lw_states w \<and> lw_attempts w' = lw_attempts w \<and>
    (\<exists>k'. process_lease_owner_key owner = Inr k' \<and> blocked k' w')"
proof -
  from q obtain k' where k': "process_lease_owner_key owner = Inr k'" "w' = w\<lparr>lw_quiescing := sadd k' (lw_quiescing w)\<rparr>"
    by (auto simp: quiesce_owner_def bindr_Inr_iff)
  have "step_good k r w (w\<lparr>lw_quiescing := sadd k' (lw_quiescing w), lw_stopping_all := lw_stopping_all w\<rparr>)"
    by (rule guards_ok [OF ok, where qs = "insert k' (set (lw_quiescing w))"]) auto
  then show ?thesis using k' by (simp add: blocked_def)
qed

lemma step_good_trans:
  "step_good k r w w1 \<Longrightarrow> lease_ok w2 \<and> same_leases w1 w2 \<Longrightarrow> step_good k r w w2"
  by (auto simp: step_good_def same_leases_blocked intro: no_new_trans same_leases_no_new)

lemma terminate_owner_ok:
  assumes ok: "lease_ok w" and t: "terminate_owner owner w = Inr (as, w')"
  shows "step_good k r w w' \<and> (\<exists>k'. process_lease_owner_key owner = Inr k' \<and> blocked k' w' \<and>
    (\<forall>p \<in> set (lw_leases w). of_owner k' (fst p) \<longrightarrow>
       (\<exists>a \<in> set as. a < length (lw_attempts w') \<and> at_state (lw_attempts w' ! a) = snd p))) \<and>
    grown w w' \<and> length (lw_states w') = length (lw_states w)"
proof -
  from t obtain w1 k' where q: "quiesce_owner owner w = Inr w1" and k': "process_lease_owner_key owner = Inr k'"
    and s: "stop_leases (filter (\<lambda>p. of_owner k' (fst p)) (lw_leases w1)) w1 = (as, w')"
    by (auto simp: terminate_owner_def bindr_Inr_iff)
  have good: "step_good k r w w1" and b: "blocked k' w1" and eq: "lw_leases w1 = lw_leases w"
    and eqs: "lw_states w1 = lw_states w" "lw_attempts w1 = lw_attempts w"
    using quiesce_ok [OF ok q, of k r] k' by auto
  then have "lease_ok w1" by (simp add: step_good_def)
  from stop_registered_ok [OF this _ s] have s': "lease_ok w' \<and> same_leases w1 w' \<and>
    (\<forall>p \<in> set (filter (\<lambda>p. of_owner k' (fst p)) (lw_leases w1)). \<exists>a \<in> set as. a < length (lw_attempts w') \<and> at_state (lw_attempts w' ! a) = snd p)"
    by simp
  then have "step_good k r w w'" and "blocked k' w'" using step_good_trans [OF good] b same_leases_blocked [of w1 w'] by blast+
  moreover have "grown w w'" and "length (lw_states w') = length (lw_states w)"
    using s' by (simp_all add: same_leases_def grown_def eqs)
  ultimately show ?thesis using s' k' by (auto simp: eq)
qed

lemma exits_ok:
  assumes ok: "lease_ok w" and i: "i < length (lw_states w)"
  shows "lease_ok (upd_state i (\<lambda>st. st\<lparr>ls_exited := True, ls_exit_code := code\<rparr>) w) \<and>
    same_leases w (upd_state i (\<lambda>st. st\<lparr>ls_exited := True, ls_exit_code := code\<rparr>) w)"
  by (rule upd_state_ok [OF ok i]) (use lease_okD(2) [OF ok i] in \<open>auto simp: state_ok_def\<close>)

lemma drain_step: "kept w (bindr (drain_owner owner timeout w) (\<lambda>r. Inr (snd r))) = kept w (quiesce_owner owner w)"
  by (auto simp: drain_owner_def quiesce_owner_def list_leases_def kept_def bindr_def split: sum.splits)

lemma release_ok:
  assumes ok: "lease_ok w" and r: "release_owner owner w = Inr w'"
  shows "step_good k (process_lease_owner_key owner = Inr k) w w'"
proof -
  from r obtain k' where k': "process_lease_owner_key owner = Inr k'" "w' = w\<lparr>lw_quiescing := filter (\<lambda>q. q \<noteq> k') (lw_quiescing w)\<rparr>"
    by (auto simp: release_owner_def bindr_Inr_iff split: if_splits)
  with ok show ?thesis by (auto simp: step_good_def lease_ok_def blocked_def no_new_def grown_def)
qed

lemma tick_ok:
  assumes ok: "lease_ok w" and due: "list_all (\<lambda>at. pending at \<longrightarrow> lw_now w < at_timer at) (lw_attempts w)"
  shows "step_good k r w (w\<lparr>lw_now := lw_now w + 1\<rparr>)"
proof -
  have "attempt_ok (lw_now w + 1) (lw_states w) (lw_attempts w ! a)" if "a < length (lw_attempts w)" for a
    using lease_okD(3) [OF ok that] due that by (auto simp: attempt_ok_def list_all_length)
  with ok show ?thesis by (auto simp: step_good_def lease_ok_def blocked_def no_new_def grown_def)
qed

lemma kept_good:
  "step_good k r w w \<Longrightarrow> (\<And>w'. res = Inr w' \<Longrightarrow> step_good k r w w') \<Longrightarrow> step_good k r w (kept w res)"
  by (cases res) (simp_all add: kept_def)

lemma lease_step_good:
  assumes ok: "lease_ok w" and step: "lease_step e w = Some w'"
  shows "step_good k (releases k e) w w'"
proof -
  note same = step_good_same [of _ w k]
  have self: "step_good k r w w" for r by (rule same) (simp add: ok)
  show ?thesis
  proof (cases e)
    case (Launch owner key child options)
    with launch_ok [OF ok, of owner key child options k] step show ?thesis by (auto simp: step_good_def)
  next
    case (Child_exits i code)
    with step exits_ok [OF ok, of i code] show ?thesis by (auto intro!: same split: if_splits)
  next
    case (Exit_event i)
    with step complete_lease_ok(1) [OF ok, of i] show ?thesis by (auto intro!: same split: if_splits)
  next
    case (Error_event i)
    with step complete_lease_ok(1) [OF ok, of i] exit_code_exited [OF ok, of i] self show ?thesis
      by (auto intro!: same split: if_splits)
  next
    case (Quiesce owner)
    with step have "w' = kept w (quiesce_owner owner w)" by simp
    with kept_good [OF self] quiesce_ok [OF ok] show ?thesis by simp
  next
    case (Drain owner timeout)
    with step have "w' = kept w (quiesce_owner owner w)" by (simp add: drain_step)
    with kept_good [OF self] quiesce_ok [OF ok] show ?thesis by simp
  next
    case (Release owner)
    with step have "w' = kept w (release_owner owner w)" by simp
    with kept_good [OF self] release_ok [OF ok] Release show ?thesis by (simp add: releases_def)
  next
    case (Terminate_owner owner)
    with step have w': "w' = kept w (bindr (terminate_owner owner w) (\<lambda>r. Inr (snd r)))" by simp
    show ?thesis unfolding w'
      by (rule kept_good [OF self]) (use terminate_owner_ok [OF ok] in \<open>auto simp: bindr_Inr_iff\<close>)
  next
    case (Terminate i)
    with step show ?thesis
      using stop_registered_ok [OF ok, of "filter (\<lambda>p. snd p = i) (lw_leases w)" "fst (terminate_lease i w)" w']
      by (auto simp: terminate_lease_def prod_eq_iff intro!: same)
  next
    case Dispose_all
    let ?w = "w\<lparr>lw_quiescing := lw_quiescing w, lw_stopping_all := True\<rparr>"
    have good: "step_good k (releases k e) w ?w" by (rule guards_ok [OF ok, where qs = "set (lw_quiescing w)"]) simp_all
    then have "lease_ok ?w" by (simp add: step_good_def)
    from stop_registered_ok [OF this, of "lw_leases w" "fst (dispose_all w)" w'] Dispose_all step
    have "lease_ok w' \<and> same_leases ?w w'" by (auto simp: dispose_all_def prod_eq_iff)
    with good show ?thesis by (rule step_good_trans)
  next
    case Dispose_finally
    with step ok show ?thesis by (auto simp: step_good_def lease_ok_def blocked_def no_new_def grown_def split: if_splits)
  next
    case (Stop_process_done a)
    with step after_stop_process_ok [OF ok, of a] show ?thesis by (auto intro!: same split: if_splits)
  next
    case (Settled a)
    with step attempt_settled_ok [OF ok, of a] show ?thesis by (auto intro!: same simp del: attempt_settled.simps split: if_splits)
  next
    case (Timer a)
    with step attempt_timer_ok [OF ok, of a] show ?thesis by (auto intro!: same simp del: attempt_timer.simps split: if_splits)
  next
    case Tick
    with step tick_ok [OF ok] show ?thesis by (auto split: if_splits)
  qed
qed

interpretation leases: event_machine lease_step lease_ok "\<lambda>_. True"
  by unfold_locales (use lease_step_good in \<open>auto simp: step_good_def\<close>)

interpretation blocked_leases: tracked_machine lease_step "\<lambda>w. lease_ok w \<and> blocked k w" "\<lambda>e. \<not> releases k e" "no_new k" for k
proof unfold_locales
  show "no_new k w w" for w by (rule no_new_refl)
  show "no_new k w w2" if "no_new k w w1" "no_new k w1 w2" for w w1 w2 using that by (rule no_new_trans)
qed (use lease_step_good in \<open>unfold step_good_def, blast+\<close>)

lemma lease_run_good:
  assumes "lease_run es w = Some w'" and "lease_ok w"
  shows "lease_ok w' \<and> (blocked k w \<and> list_all (\<lambda>e. \<not> releases k e) es \<longrightarrow> blocked k w' \<and> no_new k w w')"
  using leases.run_keeps [OF assms(1) _ assms(2)] blocked_leases.run_keeps [OF assms(1), of k]
    blocked_leases.run_since [OF assms(1), of k] assms(2) by (simp add: list_all_iff)

lemma new_lease_registry_ok: "lease_ok (new_lease_registry timeout t)"
  by (simp add: lease_ok_def new_lease_registry_def registry_ok_def)

lemmas reachable_ok = lease_run_good [OF _ new_lease_registry_ok, THEN conjunct1]

section \<open>The properties of the registry\<close>

text \<open>C28: However launches, exits, stops and time interleave: a child that is running has its lease in the
  registry under the key of its owner, so that it can still be stopped; no two leases share a
  key; a stop that reported success stopped a child that has exited; and an attempt to stop a
  child is over at most two milliseconds after its deadline.\<close>

theorem process_leases_tracked:
  assumes "lease_run es (new_lease_registry timeout t) = Some w"
  shows "distinct (jkeys (lw_leases w)) \<and>
    (\<forall>i < length (lw_states w). \<not> ls_exited (lw_states w ! i) \<longrightarrow>
       (\<exists>k. process_lease_owner_key (ls_owner (lw_states w ! i)) = Inr k \<and>
          jget (lw_leases w) (k @ [NUL] @ ls_key (lw_states w ! i)) = Some i)) \<and>
    (\<forall>at \<in> set (lw_attempts w). (at_phase at = Stopped \<longrightarrow> ls_exited (lw_states w ! at_state at)) \<and>
       (pending at \<longrightarrow> lw_now w \<le> at_deadline at + 2))"
proof (intro conjI allI impI ballI)
  note ok = reachable_ok [OF assms]
  show "distinct (jkeys (lw_leases w))" using lease_okD(1) [OF ok] by (simp only: registry_ok_def)
  fix i assume i: "i < length (lw_states w)" and running: "\<not> ls_exited (lw_states w ! i)"
  note st = lease_okD(2) [OF ok i]
  then obtain k where k: "process_lease_owner_key (ls_owner (lw_states w ! i)) = Inr k" by (auto simp: state_ok_def)
  have "\<not> ls_settled (lw_states w ! i)" using st running by (auto simp: state_ok_def)
  then have "jget (lw_leases w) (registry_key_of (lw_states w ! i)) = Some i"
    using lease_okD(1) [OF ok] i by (simp only: registry_ok_def simp_thms)
  with k show "\<exists>k. process_lease_owner_key (ls_owner (lw_states w ! i)) = Inr k \<and>
      jget (lw_leases w) (k @ [NUL] @ ls_key (lw_states w ! i)) = Some i"
    by (simp add: registry_key_of_def)
next
  note ok = reachable_ok [OF assms]
  fix at assume "at \<in> set (lw_attempts w)"
  then obtain a where a: "a < length (lw_attempts w)" "at = lw_attempts w ! a" by (auto simp: in_set_conv_nth)
  have at: "attempt_ok (lw_now w) (lw_states w) at" using lease_okD(3) [OF ok a(1)] a(2) by simp
  { assume "at_phase at = Stopped"
    with at have "at_state at < length (lw_states w)" "ls_settled (lw_states w ! at_state at)" by (simp_all add: attempt_ok_def)
    with lease_okD(2) [OF ok] show "ls_exited (lw_states w ! at_state at)" by (simp add: state_ok_def) }
  { assume p: "pending at"
    with at have "lw_now w \<le> at_timer at" by (simp add: attempt_ok_def)
    also from p at have "\<dots> \<le> at_deadline at + 2" by (auto simp: attempt_ok_def pending_def)
    finally show "lw_now w \<le> at_deadline at + 2" . }
qed

lemma of_owner_key: "process_lease_owner_key (ls_owner st) = Inr k \<Longrightarrow> of_owner k (registry_key_of st)"
  by (simp add: of_owner_def registry_key_of_def)

text \<open>C29: When \<open>terminateOwner\<close> has succeeded, that is, when the attempts it waits for have, then, whatever
  happened meanwhile and until the owner is released, every child of the owner has exited, none of
  its leases is left, and no new one can be begun.\<close>

theorem terminated_owner_has_no_process:
  assumes run: "lease_run es (new_lease_registry timeout t) = Some w"
    and tm: "terminate_owner owner w = Inr (as, w1)" and k: "process_lease_owner_key owner = Inr k"
    and run2: "lease_run es2 w1 = Some w2" and held: "list_all (\<lambda>e. \<not> releases k e) es2"
    and stopped: "list_all (\<lambda>a. at_phase (lw_attempts w2 ! a) = Stopped) as"
  shows "(\<forall>st \<in> set (lw_states w2). process_lease_owner_key (ls_owner st) = Inr k \<longrightarrow> ls_exited st \<and> ls_settled st) \<and>
    (\<forall>key child options. snd (launch owner key child options w2) = w2 \<and> isl (fst (launch owner key child options w2)))"
proof (intro conjI ballI impI allI)
  note ok = reachable_ok [OF run]
  note t = terminate_owner_ok [OF ok tm, of k False]
  then have ok1: "lease_ok w1" and b1: "blocked k w1" using k by (simp_all add: step_good_def)
  have ok2: "lease_ok w2" and b2: "blocked k w2" and new: "no_new k w1 w2"
    using lease_run_good [OF run2 ok1, of k] held b1 by simp_all
  show "snd (launch owner key child options w2) = w2" "isl (fst (launch owner key child options w2))" for key child options
    using b2 k by (auto simp: launch_def launch_refusal_def Let_def blocked_def split: sum.split)
  fix st assume "st \<in> set (lw_states w2)" and owner: "process_lease_owner_key (ls_owner st) = Inr k"
  then obtain i where i: "i < length (lw_states w2)" "st = lw_states w2 ! i" by (auto simp: in_set_conv_nth)
  have i1: "i < length (lw_states w1)" using new owner i by (auto simp: no_new_def not_le [symmetric])
  have settled: "ls_settled (lw_states w2 ! i)"
  proof (cases "ls_settled (lw_states w1 ! i)")
    case True
    with new i1 show ?thesis by (simp add: no_new_def grown_def)
  next
    case False
    have "\<exists>a \<in> set as. a < length (lw_attempts w1) \<and> at_state (lw_attempts w1 ! a) = i"
    proof -
      have g: "i < length (lw_states w)" "ls_owner (lw_states w1 ! i) = ls_owner (lw_states w ! i)"
          "\<not> ls_settled (lw_states w ! i)" "ls_owner (lw_states w2 ! i) = ls_owner (lw_states w1 ! i)"
        using t i1 False new by (auto simp: grown_def no_new_def)
      then have reg: "(registry_key_of (lw_states w ! i), i) \<in> set (lw_leases w)"
        using lease_okD(1) [OF ok] by (simp only: registry_mem [OF ok] registry_ok_def simp_thms)
      have "of_owner k (registry_key_of (lw_states w ! i))" using g owner i by (intro of_owner_key) simp
      moreover from t k have "\<forall>p \<in> set (lw_leases w). of_owner k (fst p) \<longrightarrow>
          (\<exists>a \<in> set as. a < length (lw_attempts w1) \<and> at_state (lw_attempts w1 ! a) = snd p)" by auto
      note bspec [OF this reg]
      ultimately show ?thesis by simp
    qed
    then obtain a where a: "a \<in> set as" "a < length (lw_attempts w1)" "at_state (lw_attempts w1 ! a) = i" by blast
    then have "a < length (lw_attempts w2)" "at_state (lw_attempts w2 ! a) = i" "at_phase (lw_attempts w2 ! a) = Stopped"
      using new stopped by (auto simp: no_new_def grown_def list_all_iff)
    with lease_okD(3) [OF ok2, of a] show ?thesis by (simp add: attempt_ok_def)
  qed
  then show "ls_settled st" by (simp add: i)
  with lease_okD(2) [OF ok2 i(1)] show "ls_exited st" by (simp add: i state_ok_def)
qed


section \<open>The properties on a concrete run\<close>

definition cam_owner :: lease_owner where
  "cam_owner = \<lparr>lo_application = ''app'', lo_manager = ''m'', lo_activation = ''a'', lo_instance = ''cam'', lo_revision = ''1''\<rparr>"

definition cam_launch :: lease_event where
  "cam_launch = Launch cam_owner ''worker'' \<lparr>cs_pid = True, cs_exit_code = None\<rparr> \<lparr>ln_max = Some 1, ln_exclusive = True\<rparr>"

text \<open>The worker does not exit when asked to, is killed after the graceful deadline, and exits with a signal.\<close>

definition cam_stops :: "lease_event list" where
  "cam_stops = [Stop_process_done 0, Tick, Timer 0, Child_exits 0 None, Exit_event 0, Settled 0, cam_launch]"

lemma cam_key: "process_lease_owner_key cam_owner = Inr (''app'' @ [NUL] @ ''m'' @ [NUL] @ ''a'' @ [NUL] @ ''cam'' @ [NUL] @ ''1'')"
  by code_simp

lemma cam_run:
  "lease_run [cam_launch, cam_launch] (new_lease_registry (Some 2) 0) = lease_run [cam_launch] (new_lease_registry (Some 2) 0) \<and>
   map_option (\<lambda>w. (map snd (lw_leases w), map ls_exited (lw_states w)))
     (lease_run [cam_launch] (new_lease_registry (Some 2) 0)) = Some ([0], [False])"
  by code_simp

lemma process_leases_tracked_witness:
  "\<exists>w. lease_run [cam_launch] (new_lease_registry (Some 2) 0) = Some w \<and>
     (\<exists>k. jget (lw_leases w) (k @ [NUL] @ ''worker'') = Some 0)"
proof -
  obtain w where w: "lease_run [cam_launch] (new_lease_registry (Some 2) 0) = Some w" and one: "map ls_exited (lw_states w) = [False]"
    using cam_run by auto
  have "map_option (\<lambda>w. map ls_key (lw_states w)) (lease_run [cam_launch] (new_lease_registry (Some 2) 0)) = Some [''worker'']"
    by code_simp
  then have "map ls_key (lw_states w) = [''worker'']" by (simp add: w del: run_events.simps)
  with one obtain st where st: "lw_states w = [st]" "\<not> ls_exited st" "ls_key st = ''worker''" by auto
  from process_leases_tracked [OF w] have "\<forall>i < length (lw_states w). \<not> ls_exited (lw_states w ! i) \<longrightarrow>
       (\<exists>k. process_lease_owner_key (ls_owner (lw_states w ! i)) = Inr k \<and>
          jget (lw_leases w) (k @ [NUL] @ ls_key (lw_states w ! i)) = Some i)" by (elim conjE)
  with st have "\<exists>k. jget (lw_leases w) (k @ [NUL] @ ''worker'') = Some 0" by auto
  with w show ?thesis by blast
qed

definition cam_world :: lease_world where
  "cam_world = the (lease_run [cam_launch] (new_lease_registry (Some 2) 0))"

definition cam_terminated :: "nat list \<times> lease_world" where
  "cam_terminated = projr (terminate_owner cam_owner cam_world)"

definition cam_end :: lease_world where
  "cam_end = the (lease_run cam_stops (snd cam_terminated))"

lemma cam_facts:
  "lease_run [cam_launch] (new_lease_registry (Some 2) 0) = Some cam_world"
  "terminate_owner cam_owner cam_world = Inr cam_terminated"
  "lease_run cam_stops (snd cam_terminated) = Some cam_end"
  "list_all (\<lambda>a. at_phase (lw_attempts cam_end ! a) = Stopped) (fst cam_terminated)"
  "map ls_killed (lw_states cam_end) = [True]"
  "map ls_owner (lw_states cam_end) = [cam_owner]"
  by code_simp+

lemma terminated_owner_has_no_process_witness:
  "map ls_killed (lw_states cam_end) = [True] \<and> list_all ls_exited (lw_states cam_end) \<and>
   isl (fst (launch cam_owner ''worker'' \<lparr>cs_pid = True, cs_exit_code = None\<rparr> \<lparr>ln_max = None, ln_exclusive = False\<rparr> cam_end))"
proof -
  have tm: "terminate_owner cam_owner cam_world = Inr (fst cam_terminated, snd cam_terminated)" by (simp add: cam_facts(2))
  have held: "list_all (\<lambda>e. \<not> releases k e) cam_stops" for k by (simp add: cam_stops_def cam_launch_def releases_def)
  obtain st where st: "lw_states cam_end = [st]" "ls_owner st = cam_owner" using cam_facts(6) by auto
  from terminated_owner_has_no_process [OF cam_facts(1) tm cam_key cam_facts(3) held cam_facts(4)]
  show ?thesis using st cam_key cam_facts(5) by simp
qed

end
