(* ===== verification/MessageGroups.thy ===== *)
theory MessageGroups
  imports EventMachines
begin

text \<open>
  \<open>src/messageGrouping.ts\<close>: the queue that holds the messages of a conversation until its sender has
  settled and then delivers them together, with its file, its timers and its retries. Times are
  milliseconds and waits are whole seconds. The file is its parsed contents, and \<open>wok\<close> tells
  whether a write of it succeeds. In texts of code units below 256 only the ASCII endings of
  \<open>messageFragmentLooksIncomplete\<close> can occur.
\<close>

section \<open>Data\<close>

record group_payload =
  gp_route_kind :: string
  gp_record :: "(string \<times> json) list"
  gp_extra :: "(string \<times> json) list"

record group_item =
  gi_identity :: string
  gi_received :: int
  gi_incomplete :: bool
  gi_payload :: group_payload

datatype group_status = Group_pending | Group_delivering

record message_group =
  mg_id :: string
  mg_key :: string
  mg_base :: string
  mg_endpoint :: string
  mg_conversation :: string
  mg_sender :: string
  mg_reply :: "string option"
  mg_created :: int
  mg_updated :: int
  mg_deadline :: int
  mg_max :: int
  mg_status :: group_status
  mg_attempts :: int
  mg_error :: "string option"
  mg_items :: "group_item list"

text \<open>A policy as it arrives: \<open>None\<close> where \<open>Number\<close> of the value is not finite.\<close>

record grouping_policy =
  po_settle :: "int option"
  po_incomplete :: "int option"
  po_max :: "int option"

record wait_policy =
  wp_settle :: int
  wp_incomplete :: int
  wp_max :: int

record group_input =
  in_key :: string
  in_base :: string
  in_endpoint :: string
  in_conversation :: string
  in_sender :: string
  in_reply :: "string option"
  in_identity :: string
  in_text :: string
  in_policy :: grouping_policy
  in_payload :: group_payload

record grouping_queue =
  gq_groups :: "(string, message_group) jmap"
  gq_delivered :: "string list"
  gq_timers :: "(string, int) jmap"
  gq_disk :: "json option"

datatype grouping_error = Write_failed

record enqueue_outcome =
  eo_group :: string
  eo_accepted :: bool
  eo_count :: nat

definition max_delivered_identities :: int where
  "max_delivered_identities = 2000"

section \<open>Policies and texts\<close>

definition normalized_seconds :: "int option \<Rightarrow> int \<Rightarrow> int" where
  "normalized_seconds v fallback =
     (case v of None \<Rightarrow> fallback | Some n \<Rightarrow> if n > 0 then max 1 (min 300 n) else fallback)"

definition normalized_policy :: "grouping_policy \<Rightarrow> wait_policy" where
  "normalized_policy p =
     (let settle = normalized_seconds (po_settle p) 6;
          incomplete = max settle (normalized_seconds (po_incomplete p) 12)
      in \<lparr>wp_settle = settle, wp_incomplete = incomplete,
          wp_max = max incomplete (normalized_seconds (po_max p) 20)\<rparr>)"

definition ends_with :: "string \<Rightarrow> string \<Rightarrow> bool" where
  "ends_with suffix s \<longleftrightarrow> take (length suffix) (rev s) = rev suffix"

definition lower_char :: "char \<Rightarrow> char" where
  "lower_char c = (if is_upper c then char_of ((of_char c :: nat) + 32) else c)"

definition fragment_looks_incomplete :: "string \<Rightarrow> bool" where
  "fragment_looks_incomplete v =
     (let t = js_trim v in t \<noteq> [] \<and>
        (last t \<in> set '',:~-'' \<or>
         list_ex (\<lambda>word. ends_with word (map lower_char t)) [''and'', ''then'', ''also'', ''but'', ''because'']))"

section \<open>The file\<close>

text \<open>\<open>Number.isFinite\<close>, which coerces nothing, and the number it accepts.\<close>

definition finite_number :: "json option \<Rightarrow> int option" where
  "finite_number v = (case v of Some (JNum n) \<Rightarrow> Some n | _ \<Rightarrow> None)"

text \<open>\<open>Number(v) || 0\<close>, which does coerce: a truth value, and a text that is a decimal integer between
  white space. The texts of other numbers (fractions, exponents, other bases) are read as no number.\<close>

definition decimal_text :: "string \<Rightarrow> int" where
  "decimal_text s =
     (let t = js_trim s;
          (sign, ds) = (case t of CHR ''-'' # r \<Rightarrow> (-1, r) | CHR ''+'' # r \<Rightarrow> (1, r) | r \<Rightarrow> (1, r))
      in if ds \<noteq> [] \<and> list_all is_digit ds then sign * foldl (\<lambda>n c. 10 * n + (of_char c - 48)) 0 ds else 0)"

definition number_or_zero :: "json option \<Rightarrow> int" where
  "number_or_zero v =
     (case v of Some (JNum n) \<Rightarrow> n | Some (JBool True) \<Rightarrow> 1 | Some (JStr s) \<Rightarrow> decimal_text s | _ \<Rightarrow> 0)"

definition normalize_item :: "json \<Rightarrow> group_item option" where
  "normalize_item v = (case v of
     JObj it \<Rightarrow>
       (case (finite_number (map_of it ''receivedAt''), map_of it ''payload'') of
          (Some received, Some (JObj pay)) \<Rightarrow>
            if \<not> js_truthy (map_of it ''identity'') \<or> \<not> js_truthy (map_of pay ''routeKind'') then None
            else (case map_of pay ''record'' of
                Some (JObj rec) \<Rightarrow>
                  Some \<lparr>gi_identity = js_string (the (map_of it ''identity'')), gi_received = received,
                    gi_incomplete = (map_of it ''incomplete'' = Some (JBool True)),
                    gi_payload = \<lparr>gp_route_kind = js_string (the (map_of pay ''routeKind'')), gp_record = rec,
                      gp_extra = (case map_of pay ''extraValues'' of Some (JObj ex) \<Rightarrow> ex | _ \<Rightarrow> [])\<rparr>\<rparr>
              | _ \<Rightarrow> None)
        | _ \<Rightarrow> None)
   | _ \<Rightarrow> None)"

definition json_array :: "json option \<Rightarrow> json list" where
  "json_array v = (case v of Some (JArr xs) \<Rightarrow> xs | _ \<Rightarrow> [])"

definition normalize_group :: "json \<Rightarrow> message_group option" where
  "normalize_group v = (case v of
     JObj g \<Rightarrow>
       let items = List.map_filter normalize_item (json_array (map_of g ''items'')) in
       (case (finite_number (map_of g ''createdAt''), finite_number (map_of g ''deadlineAt'')) of
          (Some created, Some deadline) \<Rightarrow>
            if list_ex (\<lambda>k. \<not> js_truthy (map_of g k)) [''groupId'', ''key'', ''baseKey'', ''endpoint'', ''conversationKey'', ''sender''] \<or>
               items = []
            then None
            else Some \<lparr>mg_id = js_string (the (map_of g ''groupId'')), mg_key = js_string (the (map_of g ''key'')),
              mg_base = js_string (the (map_of g ''baseKey'')), mg_endpoint = js_string (the (map_of g ''endpoint'')),
              mg_conversation = js_string (the (map_of g ''conversationKey'')), mg_sender = js_string (the (map_of g ''sender'')),
              mg_reply = (case map_of g ''replyToMessageId'' of None \<Rightarrow> None | Some JNull \<Rightarrow> None | Some r \<Rightarrow> Some (js_string r)),
              mg_created = created,
              mg_updated = (case finite_number (map_of g ''updatedAt'') of None \<Rightarrow> created | Some u \<Rightarrow> u),
              mg_deadline = deadline,
              mg_max = (case finite_number (map_of g ''maxDeadlineAt'') of None \<Rightarrow> max created deadline | Some m \<Rightarrow> max deadline m),
              mg_status = Group_pending,
              mg_attempts = max 0 (number_or_zero (map_of g ''attempts'')),
              mg_error = (case map_of g ''lastError'' of Some (JStr e) \<Rightarrow> if e = [] then None else Some e | _ \<Rightarrow> None),
              mg_items = items\<rparr>
        | _ \<Rightarrow> None)
   | _ \<Rightarrow> None)"

text \<open>\<open>slice(-n)\<close>.\<close>

definition js_take_last :: "int \<Rightarrow> 'a list \<Rightarrow> 'a list" where
  "js_take_last n xs = rev (js_take n (rev xs))"

definition read_grouping_state :: "json option \<Rightarrow> (message_group list \<times> string list) option" where
  "read_grouping_state disk = (case disk of
     Some (JObj s) \<Rightarrow>
       if map_of s ''schemaVersion'' \<noteq> Some (JNum 1) then None
       else Some (List.map_filter normalize_group (json_array (map_of s ''pending'')),
         js_take_last max_delivered_identities
           (filter (\<lambda>d. d \<noteq> []) (map js_string (json_array (map_of s ''deliveredIdentities'')))))
   | _ \<Rightarrow> None)"

definition optional_field :: "string \<Rightarrow> string option \<Rightarrow> (string \<times> json) list" where
  "optional_field k v = (case v of None \<Rightarrow> [] | Some s \<Rightarrow> [(k, JStr s)])"

definition item_json :: "group_item \<Rightarrow> json" where
  "item_json it = JObj [(''identity'', JStr (gi_identity it)), (''receivedAt'', JNum (gi_received it)),
     (''incomplete'', JBool (gi_incomplete it)),
     (''payload'', JObj [(''routeKind'', JStr (gp_route_kind (gi_payload it))), (''record'', JObj (gp_record (gi_payload it))),
        (''extraValues'', JObj (gp_extra (gi_payload it)))])]"

definition group_json :: "message_group \<Rightarrow> json" where
  "group_json g = JObj ([(''groupId'', JStr (mg_id g)), (''key'', JStr (mg_key g)), (''baseKey'', JStr (mg_base g)),
     (''endpoint'', JStr (mg_endpoint g)), (''conversationKey'', JStr (mg_conversation g)), (''sender'', JStr (mg_sender g))] @
     optional_field ''replyToMessageId'' (mg_reply g) @
     [(''createdAt'', JNum (mg_created g)), (''updatedAt'', JNum (mg_updated g)), (''deadlineAt'', JNum (mg_deadline g)),
      (''maxDeadlineAt'', JNum (mg_max g)),
      (''status'', JStr (case mg_status g of Group_pending \<Rightarrow> ''pending'' | Group_delivering \<Rightarrow> ''delivering'')),
      (''attempts'', JNum (mg_attempts g))] @
     optional_field ''lastError'' (mg_error g) @ [(''items'', JArr (map item_json (mg_items g)))])"

text \<open>\<open>snapshot\<close>, as \<open>persist\<close> writes it.\<close>

definition snapshot_json :: "string \<Rightarrow> grouping_queue \<Rightarrow> json" where
  "snapshot_json updated q = JObj [(''schemaVersion'', JNum 1), (''updatedAt'', JStr updated),
     (''pending'', JArr (map group_json (jvals (gq_groups q)))), (''deliveredIdentities'', JArr (map JStr (gq_delivered q)))]"

definition persist_groups :: "(int \<Rightarrow> string) \<Rightarrow> int \<Rightarrow> bool \<Rightarrow> grouping_queue \<Rightarrow> (grouping_error, grouping_queue) res" where
  "persist_groups stamp now wok q =
     (if wok then Inr (q\<lparr>gq_disk := Some (snapshot_json (stamp now) q)\<rparr>) else Inl Write_failed)"

section \<open>The queue\<close>

definition disarm :: "string \<Rightarrow> grouping_queue \<Rightarrow> grouping_queue" where
  "disarm key q = q\<lparr>gq_timers := jdel key (gq_timers q)\<rparr>"

definition arm :: "message_group \<Rightarrow> int \<Rightarrow> grouping_queue \<Rightarrow> grouping_queue" where
  "arm g now q =
     (let q1 = disarm (mg_key g) q
      in q1\<lparr>gq_timers := jset (mg_key g) (now + max 0 (mg_deadline g - now)) (gq_timers q1)\<rparr>)"

definition put_group :: "message_group \<Rightarrow> grouping_queue \<Rightarrow> grouping_queue" where
  "put_group g q = q\<lparr>gq_groups := jset (mg_key g) g (gq_groups q)\<rparr>"

definition new_grouping_queue :: "json option \<Rightarrow> int \<Rightarrow> grouping_queue" where
  "new_grouping_queue disk now =
     (let q = \<lparr>gq_groups = [], gq_delivered = [], gq_timers = [], gq_disk = disk\<rparr>
      in case read_grouping_state disk of
        None \<Rightarrow> q
      | Some (groups, delivered) \<Rightarrow>
          foldl (\<lambda>q g. arm (g\<lparr>mg_status := Group_pending\<rparr>) now (put_group (g\<lparr>mg_status := Group_pending\<rparr>) q))
            (q\<lparr>gq_delivered := foldl (\<lambda>ds d. sadd d ds) [] delivered\<rparr>) groups)"

definition group_identities :: "message_group \<Rightarrow> string list" where
  "group_identities g = map gi_identity (mg_items g)"

definition existing_group :: "group_input \<Rightarrow> grouping_queue \<Rightarrow> message_group option" where
  "existing_group i q =
     (case jget (gq_groups q) (in_key i) of
        Some g \<Rightarrow> Some g
      | None \<Rightarrow>
        (case (if in_reply i \<noteq> None \<and> in_reply i \<noteq> Some [] then []
               else filter (\<lambda>g. mg_base g = in_base i \<and> mg_status g = Group_pending) (jvals (gq_groups q))) of
           [g] \<Rightarrow> Some g | _ \<Rightarrow> None))"

definition new_group :: "group_input \<Rightarrow> int \<Rightarrow> string \<Rightarrow> message_group" where
  "new_group i now uuid =
     \<lparr>mg_id = ''message-group-'' @ uuid, mg_key = in_key i, mg_base = in_base i, mg_endpoint = in_endpoint i,
      mg_conversation = in_conversation i, mg_sender = in_sender i, mg_reply = in_reply i, mg_created = now,
      mg_updated = now, mg_deadline = now, mg_max = now + wp_max (normalized_policy (in_policy i)) * 1000,
      mg_status = Group_pending, mg_attempts = 0, mg_error = None, mg_items = []\<rparr>"

text \<open>The group with the message added: a group that is being delivered gets a later last deadline.\<close>

definition add_message :: "group_input \<Rightarrow> int \<Rightarrow> message_group \<Rightarrow> message_group" where
  "add_message i now g =
     (let policy = normalized_policy (in_policy i); incomplete = fragment_looks_incomplete (in_text i);
          last_deadline = (if mg_status g = Group_delivering then max (mg_max g) (now + wp_max policy * 1000) else mg_max g);
          wait = (if incomplete then wp_incomplete policy else wp_settle policy)
      in g\<lparr>mg_updated := now, mg_error := None,
          mg_items := mg_items g @ [\<lparr>gi_identity = in_identity i, gi_received = now, gi_incomplete = incomplete,
            gi_payload = in_payload i\<rparr>],
          mg_max := last_deadline, mg_deadline := min last_deadline (now + wait * 1000)\<rparr>)"

definition enqueue_message ::
  "(int \<Rightarrow> string) \<Rightarrow> group_input \<Rightarrow> int \<Rightarrow> string \<Rightarrow> bool \<Rightarrow> grouping_queue \<Rightarrow>
    (grouping_error, enqueue_outcome) res \<times> grouping_queue" where
  "enqueue_message stamp i now uuid wok q =
     (if in_identity i \<in> set (gq_delivered q) then (Inr \<lparr>eo_group = [], eo_accepted = False, eo_count = 0\<rparr>, q)
      else
        let existing = existing_group i q in
        if (case existing of None \<Rightarrow> False | Some g \<Rightarrow> in_identity i \<in> set (group_identities g))
        then (Inr \<lparr>eo_group = mg_id (the existing), eo_accepted = False, eo_count = length (mg_items (the existing))\<rparr>, q)
        else
          let g = add_message i now (case existing of None \<Rightarrow> new_group i now uuid | Some g \<Rightarrow> g);
              q1 = put_group g q
          in case persist_groups stamp now wok q1 of
              Inl e \<Rightarrow> (Inl e, q1)
            | Inr q2 \<Rightarrow>
                (Inr \<lparr>eo_group = mg_id g, eo_accepted = True, eo_count = length (mg_items g)\<rparr>,
                 if mg_status g = Group_delivering then q2 else arm g now q2))"

text \<open>\<open>flushNow\<close> up to the call of \<open>deliver\<close>: the group it is called with, or nothing when the group is absent or being
  delivered. The write is outside of the \<open>try\<close>.\<close>

definition flush_begin ::
  "(int \<Rightarrow> string) \<Rightarrow> string \<Rightarrow> int \<Rightarrow> bool \<Rightarrow> grouping_queue \<Rightarrow>
    (grouping_error, message_group option) res \<times> grouping_queue" where
  "flush_begin stamp key now wok q =
     (case jget (gq_groups q) key of
        None \<Rightarrow> (Inr None, q)
      | Some g0 \<Rightarrow>
        if mg_status g0 = Group_delivering then (Inr None, q)
        else
          let g = g0\<lparr>mg_status := Group_delivering, mg_attempts := mg_attempts g0 + 1, mg_error := None\<rparr>;
              q1 = put_group g (disarm key q)
          in case persist_groups stamp now wok q1 of Inl e \<Rightarrow> (Inl e, q1) | Inr q2 \<Rightarrow> (Inr (Some g), q2))"

fun evict_oldest :: "string list \<Rightarrow> string list" where
  "evict_oldest [] = []"
| "evict_oldest (d # ds) = (if int (length (d # ds)) > max_delivered_identities \<and> d \<noteq> [] then evict_oldest ds else d # ds)"

text \<open>The wait before a retry, in milliseconds: \<open>2 ** -1\<close> halves it when no attempt is counted.\<close>

definition retry_ms :: "int \<Rightarrow> int" where
  "retry_ms attempts = min 60000 (if attempts \<le> 0 then 2500 else 5000 * 2 ^ nat (min 4 (attempts - 1)))"

text \<open>The \<open>catch\<close> branch. A group that was taken out of the queue is changed but not put back.\<close>

definition flush_failed ::
  "(int \<Rightarrow> string) \<Rightarrow> message_group \<Rightarrow> string \<Rightarrow> int \<Rightarrow> bool \<Rightarrow> grouping_queue \<Rightarrow> (grouping_error, bool) res \<times> grouping_queue" where
  "flush_failed stamp g err now wok q =
     (let deadline = now + retry_ms (mg_attempts g);
          g1 = g\<lparr>mg_status := Group_pending, mg_error := Some err, mg_deadline := deadline, mg_max := max (mg_max g) deadline\<rparr>;
          q1 = (if jhas (gq_groups q) (mg_key g) then put_group g1 q else q)
      in case persist_groups stamp now wok q1 of
          Inl e \<Rightarrow> (Inl e, q1)
        | Inr q2 \<Rightarrow> (Inr False, arm g1 now q2))"

text \<open>What follows \<open>deliver\<close> of the given messages when it has succeeded. The write is inside of the \<open>try\<close>; \<open>err\<close> is its
  error.\<close>

definition flush_delivered ::
  "(int \<Rightarrow> string) \<Rightarrow> string \<Rightarrow> string list \<Rightarrow> int \<Rightarrow> bool \<Rightarrow> string \<Rightarrow> bool \<Rightarrow> grouping_queue \<Rightarrow>
    (grouping_error, bool) res \<times> grouping_queue" where
  "flush_delivered stamp key identities now wok err wok2 q =
     (let g0 = the (jget (gq_groups q) key);
          items = filter (\<lambda>it. gi_identity it \<notin> set identities) (mg_items g0);
          q1 = q\<lparr>gq_delivered := evict_oldest (foldl (\<lambda>ds d. sadd d ds) (gq_delivered q) identities)\<rparr>;
          g = (if items = [] then g0\<lparr>mg_items := []\<rparr>
            else g0\<lparr>mg_items := items, mg_status := Group_pending, mg_attempts := 0, mg_error := None,
              mg_created := gi_received (hd items)\<rparr>);
          q2 = (if items = [] then q1\<lparr>gq_groups := jdel key (gq_groups q1)\<rparr> else arm g now (put_group g q1))
      in case persist_groups stamp now wok q2 of
          Inr q3 \<Rightarrow> (Inr True, q3)
        | Inl _ \<Rightarrow> flush_failed stamp g err now wok2 q2)"

definition close_groups :: "(int \<Rightarrow> string) \<Rightarrow> int \<Rightarrow> bool \<Rightarrow> grouping_queue \<Rightarrow> (grouping_error, unit) res \<times> grouping_queue" where
  "close_groups stamp now wok q =
     (let q1 = q\<lparr>gq_timers := []\<rparr> in
      case persist_groups stamp now wok q1 of Inl e \<Rightarrow> (Inl e, q1) | Inr q2 \<Rightarrow> (Inr (), q2))"

section \<open>Runs\<close>

text \<open>The queue with the deliveries under way, and what it has promised and done: the messages it accepted and the
  groups that were delivered.\<close>

record grouping_world =
  gw_queue :: grouping_queue
  gw_flights :: "(string, message_group) jmap"
  gw_accepted :: "string list"
  gw_log :: "message_group list"

datatype grouping_event =
    Enqueue group_input int string bool
  | Timer_fires string int bool
  | Flush_now string int bool
  | Deliver_succeeds string int bool string bool
  | Deliver_fails string string int bool
  | Close_queue int bool
  | Restart int

definition begin_delivery ::
  "string \<Rightarrow> (grouping_error, message_group option) res \<times> grouping_queue \<Rightarrow> grouping_world \<Rightarrow> grouping_world" where
  "begin_delivery key r w =
     w\<lparr>gw_queue := snd r,
       gw_flights := (case fst r of Inr (Some g) \<Rightarrow> jset key g (gw_flights w) | _ \<Rightarrow> gw_flights w)\<rparr>"

fun grouping_step :: "(int \<Rightarrow> string) \<Rightarrow> grouping_event \<Rightarrow> grouping_world \<Rightarrow> grouping_world option" where
  "grouping_step stamp (Enqueue i now uuid wok) w =
     (let (r, q) = enqueue_message stamp i now uuid wok (gw_queue w) in
      Some (w\<lparr>gw_queue := q,
        gw_accepted := (case r of Inr res \<Rightarrow> if eo_accepted res then in_identity i # gw_accepted w else gw_accepted w
          | Inl _ \<Rightarrow> gw_accepted w)\<rparr>))"
| "grouping_step stamp (Timer_fires key now wok) w =
     (case jget (gq_timers (gw_queue w)) key of
        None \<Rightarrow> None
      | Some due \<Rightarrow> if now < due then None
          else Some (begin_delivery key (flush_begin stamp key now wok (disarm key (gw_queue w))) w))"
| "grouping_step stamp (Flush_now key now wok) w = Some (begin_delivery key (flush_begin stamp key now wok (gw_queue w)) w)"
| "grouping_step stamp (Deliver_succeeds key now wok err wok2) w =
     (case jget (gw_flights w) key of
        None \<Rightarrow> None
      | Some g \<Rightarrow> Some (w\<lparr>gw_queue := snd (flush_delivered stamp key (group_identities g) now wok err wok2 (gw_queue w)),
          gw_flights := jdel key (gw_flights w), gw_log := gw_log w @ [g]\<rparr>))"
| "grouping_step stamp (Deliver_fails key err now wok) w =
     (case jget (gw_flights w) key of
        None \<Rightarrow> None
      | Some _ \<Rightarrow> Some (w\<lparr>gw_queue := snd (flush_failed stamp (the (jget (gq_groups (gw_queue w)) key)) err now wok (gw_queue w)),
          gw_flights := jdel key (gw_flights w)\<rparr>))"
| "grouping_step stamp (Close_queue now wok) w = Some (w\<lparr>gw_queue := snd (close_groups stamp now wok (gw_queue w))\<rparr>)"
| "grouping_step stamp (Restart now) w =
     Some (w\<lparr>gw_queue := new_grouping_queue (gq_disk (gw_queue w)) now, gw_flights := []\<rparr>)"

abbreviation grouping_run :: "(int \<Rightarrow> string) \<Rightarrow> grouping_event list \<Rightarrow> grouping_world \<Rightarrow> grouping_world option" where
  "grouping_run stamp \<equiv> run_events (grouping_step stamp)"

definition new_grouping_world :: grouping_world where
  "new_grouping_world = \<lparr>gw_queue = new_grouping_queue None 0, gw_flights = [], gw_accepted = [], gw_log = []\<rparr>"

section \<open>Reading what was written\<close>

definition item_ok :: "group_item \<Rightarrow> bool" where
  "item_ok it \<longleftrightarrow> gi_identity it \<noteq> [] \<and> gp_route_kind (gi_payload it) \<noteq> []"

definition group_ok :: "message_group \<Rightarrow> bool" where
  "group_ok g \<longleftrightarrow> mg_id g \<noteq> [] \<and> mg_key g \<noteq> [] \<and> mg_base g \<noteq> [] \<and> mg_endpoint g \<noteq> [] \<and> mg_conversation g \<noteq> [] \<and>
     mg_sender g \<noteq> [] \<and> mg_deadline g \<le> mg_max g \<and> mg_items g \<noteq> [] \<and> list_all item_ok (mg_items g)"

text \<open>What reading makes of a group that was written.\<close>

definition recovered :: "message_group \<Rightarrow> message_group" where
  "recovered g = g\<lparr>mg_max := max (mg_deadline g) (mg_max g), mg_status := Group_pending, mg_attempts := max 0 (mg_attempts g),
     mg_error := (if mg_error g = Some [] then None else mg_error g)\<rparr>"

lemma recovered_simps [simp]:
  "mg_key (recovered g) = mg_key g" "mg_items (recovered g) = mg_items g" "mg_status (recovered g) = Group_pending"
  "group_identities (recovered g) = group_identities g" "group_ok g \<Longrightarrow> group_ok (recovered g)"
  by (auto simp: recovered_def group_identities_def group_ok_def)

lemma normalize_item_json: "item_ok it \<Longrightarrow> normalize_item (item_json it) = Some it"
  by (cases it; cases "gi_payload it") (simp add: normalize_item_def item_json_def finite_number_def js_truthy_def item_ok_def)

lemma map_filter_items: "list_all item_ok its \<Longrightarrow> List.map_filter normalize_item (map item_json its) = its"
  by (induction its) (simp_all add: List.map_filter_def normalize_item_json)

lemma normalize_group_json:
  assumes "group_ok g"
  shows "normalize_group (group_json g) = Some (recovered g)"
proof -
  note ok = assms [unfolded group_ok_def]
  obtain f where f: "group_json g = JObj f" and items: "map_of f ''items'' = Some (JArr (map item_json (mg_items g)))"
    and nums: "map_of f ''createdAt'' = Some (JNum (mg_created g))" "map_of f ''deadlineAt'' = Some (JNum (mg_deadline g))"
      "map_of f ''updatedAt'' = Some (JNum (mg_updated g))" "map_of f ''maxDeadlineAt'' = Some (JNum (mg_max g))"
      "map_of f ''attempts'' = Some (JNum (mg_attempts g))"
    and strs: "map_of f ''groupId'' = Some (JStr (mg_id g))" "map_of f ''key'' = Some (JStr (mg_key g))"
      "map_of f ''baseKey'' = Some (JStr (mg_base g))" "map_of f ''endpoint'' = Some (JStr (mg_endpoint g))"
      "map_of f ''conversationKey'' = Some (JStr (mg_conversation g))" "map_of f ''sender'' = Some (JStr (mg_sender g))"
    and opts: "map_of f ''replyToMessageId'' = map_option JStr (mg_reply g)" "map_of f ''lastError'' = map_option JStr (mg_error g)"
    by (cases "mg_reply g"; cases "mg_error g") (simp_all add: group_json_def optional_field_def)
  have "normalize_group (JObj f) = Some (recovered g)"
    using ok map_filter_items [of "mg_items g"]
    by (cases "mg_reply g"; cases "mg_error g")
      (simp_all add: normalize_group_def items nums strs opts json_array_def finite_number_def number_or_zero_def js_truthy_def recovered_def)
  then show ?thesis by (simp add: f)
qed

lemma map_filter_groups:
  "list_all group_ok gs \<Longrightarrow> List.map_filter normalize_group (map group_json gs) = map recovered gs"
  by (induction gs) (simp_all add: List.map_filter_def normalize_group_json)

definition saved_groups :: "json option \<Rightarrow> message_group list" where
  "saved_groups disk = (case read_grouping_state disk of None \<Rightarrow> [] | Some (gs, _) \<Rightarrow> gs)"

lemma saved_snapshot:
  assumes "list_all group_ok (jvals (gq_groups q))"
  shows "saved_groups (Some (snapshot_json u q)) = map recovered (jvals (gq_groups q))"
  using map_filter_groups [OF assms]
  by (simp add: saved_groups_def read_grouping_state_def snapshot_json_def json_array_def)

section \<open>The invariant\<close>

text \<open>A group in the queue is under its key, and it is due by a timer or on its way.\<close>

definition held :: "(string, message_group) jmap \<Rightarrow> (string, int) jmap \<Rightarrow> string \<Rightarrow> message_group \<Rightarrow> bool" where
  "held flights timers k g \<longleftrightarrow> mg_key g = k \<and> group_ok g \<and> (mg_status g = Group_pending \<longrightarrow> jhas timers k) \<and>
     (mg_status g = Group_delivering \<longrightarrow>
        (\<exists>c. jget flights k = Some c \<and> set (group_identities c) \<subseteq> set (group_identities g)))"

definition saved_ok :: "grouping_queue \<Rightarrow> bool" where
  "saved_ok q \<longleftrightarrow> distinct (map mg_key (saved_groups (gq_disk q))) \<and> list_all group_ok (saved_groups (gq_disk q)) \<and>
     (\<forall>k g. jget (gq_groups q) k = Some g \<longrightarrow>
        (\<exists>g' \<in> set (saved_groups (gq_disk q)). mg_key g' = k \<and> group_identities g' = group_identities g))"

definition queue_ok :: "(string, message_group) jmap \<Rightarrow> grouping_queue \<Rightarrow> bool" where
  "queue_ok flights q \<longleftrightarrow> distinct (jkeys (gq_groups q)) \<and>
     (\<forall>k g. jget (gq_groups q) k = Some g \<longrightarrow> held flights (gq_timers q) k g) \<and>
     (\<forall>k. jget flights k \<noteq> None \<longrightarrow> (\<exists>g. jget (gq_groups q) k = Some g \<and> mg_status g = Group_delivering)) \<and> saved_ok q"

lemma queue_okD:
  assumes "queue_ok flights q"
  shows "distinct (jkeys (gq_groups q))" and "jget (gq_groups q) k = Some g \<Longrightarrow> held flights (gq_timers q) k g"
    and "jget flights k = Some c \<Longrightarrow> \<exists>g. jget (gq_groups q) k = Some g \<and> mg_status g = Group_delivering"
    and "saved_ok q"
  using assms by (auto simp: queue_ok_def simp del: map_of_eq_Some_iff)

text \<open>A queue whose groups are those that were last written.\<close>

lemma written_ok:
  assumes "distinct (jkeys (gq_groups q))" and ok: "\<And>k g. jget (gq_groups q) k = Some g \<Longrightarrow> mg_key g = k \<and> group_ok g"
    and "gq_disk q = Some (snapshot_json u q')" and "gq_groups q' = gq_groups q"
  shows "saved_ok q"
proof -
  have mem: "mg_key g = k \<and> group_ok g" if "(k, g) \<in> set (gq_groups q)" for k g
    using ok [of k g] that assms(1) by simp
  then have "list_all group_ok (jvals (gq_groups q))" by (auto simp: list_all_iff)
  with assms have saved: "saved_groups (gq_disk q) = map recovered (jvals (gq_groups q))"
    using saved_snapshot [of q'] by simp
  have "map mg_key (saved_groups (gq_disk q)) = jkeys (gq_groups q)"
    unfolding saved using mem by (auto simp: comp_def)
  moreover have "list_all group_ok (saved_groups (gq_disk q))"
    unfolding saved using mem by (auto simp: list_all_iff)
  moreover have "\<exists>g' \<in> set (saved_groups (gq_disk q)). mg_key g' = k \<and> group_identities g' = group_identities g"
    if "jget (gq_groups q) k = Some g" for k g
    unfolding saved using ok [OF that] jget_mem [OF that] by force
  ultimately show ?thesis using assms(1) by (simp only: saved_ok_def) blast
qed

text \<open>One group is written.\<close>

lemma put_group_ok:
  assumes ok: "queue_ok flights q" and g: "held flights' timers k g"
    and fl: "\<And>k'. k' \<noteq> k \<Longrightarrow> jget flights' k' = jget flights k'" "jget flights' k \<noteq> None \<longrightarrow> mg_status g = Group_delivering"
    and tm: "\<And>k'. k' \<noteq> k \<Longrightarrow> jhas (gq_timers q) k' \<Longrightarrow> jhas timers k'"
    and q': "gq_groups q' = jset k g (gq_groups q)" "gq_timers q' = timers"
      "gq_disk q' = Some (snapshot_json u qw)" "gq_groups qw = gq_groups q'"
  shows "queue_ok flights' q'"
proof -
  have held: "held flights' (gq_timers q') k' g'" if "jget (gq_groups q') k' = Some g'" for k' g'
  proof (cases "k' = k")
    case True
    with that g q' show ?thesis by (simp del: map_of_eq_Some_iff)
  next
    case False
    with that have "held flights (gq_timers q) k' g'"
      by (intro queue_okD(2) [OF ok]) (simp add: q' del: map_of_eq_Some_iff)
    with False fl tm q' show ?thesis by (auto simp: held_def simp del: map_of_eq_Some_iff)
  qed
  have dist: "distinct (jkeys (gq_groups q'))" using queue_okD(1) [OF ok] by (simp add: q' distinct_jset)
  have "\<exists>g'. jget (gq_groups q') k' = Some g' \<and> mg_status g' = Group_delivering" if "jget flights' k' \<noteq> None" for k'
    using that fl queue_okD(3) [OF ok, of k'] by (cases "k' = k") (auto simp: q' simp del: map_of_eq_Some_iff)
  moreover have "saved_ok q'"
    by (rule written_ok [OF dist _ q'(3,4)]) (use held in \<open>auto simp: held_def simp del: map_of_eq_Some_iff\<close>)
  ultimately show ?thesis using dist held by (simp only: queue_ok_def) blast
qed

text \<open>One group is removed.\<close>

lemma remove_group_ok:
  assumes ok: "queue_ok flights q"
    and q': "gq_groups q' = jdel k (gq_groups q)" "gq_timers q' = gq_timers q"
      "gq_disk q' = Some (snapshot_json u qw)" "gq_groups qw = gq_groups q'"
  shows "queue_ok (jdel k flights) q'"
proof -
  have held: "held (jdel k flights) (gq_timers q') k' g'" if "jget (gq_groups q') k' = Some g'" for k' g'
  proof -
    have "k' \<noteq> k" "held flights (gq_timers q) k' g'"
      using that queue_okD(2) [OF ok, of k' g'] by (auto simp: q' simp del: map_of_eq_Some_iff split: if_splits)
    then show ?thesis by (auto simp: held_def q' simp del: map_of_eq_Some_iff)
  qed
  have dist: "distinct (jkeys (gq_groups q'))" using queue_okD(1) [OF ok] by (simp add: q' distinct_jdel)
  have "\<exists>g'. jget (gq_groups q') k' = Some g' \<and> mg_status g' = Group_delivering" if "jget (jdel k flights) k' \<noteq> None" for k'
    using that queue_okD(3) [OF ok, of k'] by (auto simp: q' simp del: map_of_eq_Some_iff split: if_splits)
  moreover have "saved_ok q'"
    by (rule written_ok [OF dist _ q'(3,4)]) (use held in \<open>auto simp: held_def simp del: map_of_eq_Some_iff\<close>)
  ultimately show ?thesis using dist held by (simp only: queue_ok_def) blast
qed

section \<open>The operations keep it\<close>

definition input_ok :: "group_input \<Rightarrow> bool" where
  "input_ok i \<longleftrightarrow> in_key i \<noteq> [] \<and> in_base i \<noteq> [] \<and> in_endpoint i \<noteq> [] \<and> in_conversation i \<noteq> [] \<and> in_sender i \<noteq> [] \<and>
     in_identity i \<noteq> [] \<and> gp_route_kind (in_payload i) \<noteq> []"

lemma persist_written: "persist_groups stamp now True q = Inr (q\<lparr>gq_disk := Some (snapshot_json (stamp now) q)\<rparr>)"
  by (simp add: persist_groups_def)

lemma arm_simps [simp]:
  "gq_groups (arm g now q) = gq_groups q" "gq_delivered (arm g now q) = gq_delivered q" "gq_disk (arm g now q) = gq_disk q"
  "jhas (gq_timers (arm g now q)) k \<longleftrightarrow> k = mg_key g \<or> jhas (gq_timers q) k"
  by (auto simp: arm_def disarm_def Let_def)

lemma put_group_simps [simp]:
  "gq_groups (put_group g q) = jset (mg_key g) g (gq_groups q)" "gq_timers (put_group g q) = gq_timers q"
  "gq_delivered (put_group g q) = gq_delivered q" "gq_disk (put_group g q) = gq_disk q"
  by (simp_all add: put_group_def)

lemma disarm_simps [simp]:
  "gq_groups (disarm k q) = gq_groups q" "gq_timers (disarm k q) = jdel k (gq_timers q)"
  "gq_delivered (disarm k q) = gq_delivered q" "gq_disk (disarm k q) = gq_disk q"
  by (simp_all add: disarm_def)

lemma existing_group_in:
  assumes ok: "queue_ok flights q" and e: "existing_group i q = Some g"
  shows "jget (gq_groups q) (mg_key g) = Some g"
proof (cases "jget (gq_groups q) (in_key i)")
  case (Some g')
  with e have "g' = g" by (simp add: existing_group_def)
  with queue_okD(2) [OF ok Some] Some show ?thesis by (simp add: held_def)
next
  case None
  with e have "g \<in> set (jvals (gq_groups q))"
    by (auto simp: existing_group_def split: if_splits list.splits dest!: arg_cong [where f = set])
  then obtain k where "(k, g) \<in> set (gq_groups q)" by auto
  then have k: "jget (gq_groups q) k = Some g" using queue_okD(1) [OF ok] by simp
  with queue_okD(2) [OF ok k] show ?thesis by (simp add: held_def del: map_of_eq_Some_iff)
qed

lemma existing_group_None: "existing_group i q = None \<Longrightarrow> jget (gq_groups q) (in_key i) = None"
  by (simp add: existing_group_def split: option.splits)

lemma add_message_simps [simp]:
  "mg_key (add_message i now g) = mg_key g" "mg_status (add_message i now g) = mg_status g"
  "group_identities (add_message i now g) = group_identities g @ [in_identity i]"
  by (simp_all add: add_message_def Let_def group_identities_def)

lemma add_message_ok:
  assumes "input_ok i" and "group_ok g \<or> g = new_group i now uuid"
  shows "group_ok (add_message i now g)"
  using assms by (auto simp: group_ok_def add_message_def Let_def input_ok_def item_ok_def new_group_def)

lemma enqueue_ok:
  assumes ok: "queue_ok flights q" and i: "input_ok i"
    and r_def: "r = enqueue_message stamp i now uuid True q"
  shows "queue_ok flights (snd r)"
    and "\<And>k g. jget (gq_groups q) k = Some g \<Longrightarrow>
      \<exists>g'. jget (gq_groups (snd r)) k = Some g' \<and> set (group_identities g) \<subseteq> set (group_identities g')"
    and "fst r = Inr res \<Longrightarrow> eo_accepted res \<Longrightarrow>
      \<exists>k g. jget (gq_groups (snd r)) k = Some g \<and> in_identity i \<in> set (group_identities g)"
proof -
  define old where "old = (case existing_group i q of None \<Rightarrow> new_group i now uuid | Some g \<Rightarrow> g)"
  define g where "g = add_message i now old"
  define q2 where "q2 = (put_group g q)\<lparr>gq_disk := Some (snapshot_json (stamp now) (put_group g q))\<rparr>"
  define q3 where "q3 = (if mg_status g = Group_delivering then q2 else arm g now q2)"
  define refused where "refused = (in_identity i \<in> set (gq_delivered q) \<or>
    (case existing_group i q of None \<Rightarrow> False | Some g \<Rightarrow> in_identity i \<in> set (group_identities g)))"
  have refusal: "snd r = q \<and> (\<forall>res. fst r = Inr res \<longrightarrow> \<not> eo_accepted res)" if refused
    using that by (cases "existing_group i q") (auto simp: r_def enqueue_message_def Let_def refused_def)
  have "snd r = q3" if "\<not> refused"
    using that by (cases "existing_group i q")
      (simp_all add: r_def enqueue_message_def Let_def persist_written refused_def g_def old_def q2_def q3_def)
  with refusal have r: "snd r = (if refused then q else q3)" "refused \<Longrightarrow> fst r = Inr res \<Longrightarrow> \<not> eo_accepted res" for res
    by auto
  have old: "jget (gq_groups q) (mg_key old) = (case existing_group i q of None \<Rightarrow> None | Some g \<Rightarrow> Some g)"
    using existing_group_None [of i q] existing_group_in [OF ok, of i]
    by (auto simp: old_def new_group_def split: option.split simp del: map_of_eq_Some_iff)
  have old_ok: "group_ok old \<or> old = new_group i now uuid"
    and old_held: "mg_status old = Group_delivering \<Longrightarrow> held flights (gq_timers q) (mg_key old) old"
    using queue_okD(2) [OF ok existing_group_in [OF ok, of i old]]
    by (auto simp: old_def held_def new_group_def split: option.splits)
  have key: "mg_key g = mg_key old" and status: "mg_status g = mg_status old"
    and ids: "set (group_identities old) \<subseteq> set (group_identities g)" "in_identity i \<in> set (group_identities g)"
    by (auto simp: g_def)
  have groups: "gq_groups q3 = jset (mg_key old) g (gq_groups q)" by (simp add: q3_def q2_def key)
  have q3: "queue_ok flights q3"
  proof (rule put_group_ok [OF ok, where k = "mg_key old" and g = g and u = "stamp now" and qw = "put_group g q"])
    show "held flights (gq_timers q3) (mg_key old) g"
      using old_held add_message_ok [OF i old_ok] key status ids by (auto simp: held_def g_def [symmetric] q3_def)
    show "jget flights (mg_key old) \<noteq> None \<longrightarrow> mg_status g = Group_delivering"
      using queue_okD(3) [OF ok, of "mg_key old"] old status
      by (auto simp: old_def split: option.splits simp del: map_of_eq_Some_iff)
  qed (auto simp: groups q3_def q2_def key)
  from q3 ok show "queue_ok flights (snd r)" by (simp add: r)
  show "\<exists>g'. jget (gq_groups (snd r)) k = Some g' \<and> set (group_identities h) \<subseteq> set (group_identities g')"
    if "jget (gq_groups q) k = Some h" for k h
  proof (cases "k = mg_key old")
    case True
    with old that have "h = old" by (auto simp: old_def split: option.splits simp del: map_of_eq_Some_iff)
    with ids True that show ?thesis by (auto simp: r groups simp del: map_of_eq_Some_iff)
  qed (use that in \<open>auto simp: r groups simp del: map_of_eq_Some_iff\<close>)
  assume "fst r = Inr res" "eo_accepted res"
  then have "jget (gq_groups (snd r)) (mg_key old) = Some g" using r by (auto simp: groups simp del: map_of_eq_Some_iff)
  with ids(2) show "\<exists>k g. jget (gq_groups (snd r)) k = Some g \<and> in_identity i \<in> set (group_identities g)" by blast
qed

lemma disarm_unarmed_ok:
  assumes "queue_ok flights q" and "jget (gq_groups q) key = None \<or> (\<exists>g. jget (gq_groups q) key = Some g \<and> mg_status g = Group_delivering)"
  shows "queue_ok flights (disarm key q)"
proof -
  have "held flights (gq_timers (disarm key q)) k g" if "jget (gq_groups q) k = Some g" for k g
    using queue_okD(2) [OF assms(1) that] assms(2) that by (auto simp: held_def simp del: map_of_eq_Some_iff)
  with assms(1) show ?thesis by (simp add: queue_ok_def saved_ok_def del: map_of_eq_Some_iff)
qed

text \<open>A flush, of the queue or of the queue whose timer has just fired.\<close>

lemma flush_begin_ok:
  assumes ok: "queue_ok flights q" and q0: "q0 = q \<or> q0 = disarm key q"
    and r_def: "r = flush_begin stamp key now True q0"
    and flights'_def: "flights' = (case fst r of Inr (Some g) \<Rightarrow> jset key g flights | _ \<Rightarrow> flights)"
  shows "queue_ok flights' (snd r)"
    and "jget (gq_groups q) k = Some h \<Longrightarrow>
      \<exists>g'. jget (gq_groups (snd r)) k = Some g' \<and> set (group_identities h) \<subseteq> set (group_identities g')"
proof -
  have groups0: "gq_groups q0 = gq_groups q" using q0 by auto
  consider (idle) "snd r = q0" "flights' = flights"
      "jget (gq_groups q) key = None \<or> (\<exists>g. jget (gq_groups q) key = Some g \<and> mg_status g = Group_delivering)"
    | (starts) g where "jget (gq_groups q) key = Some g" "mg_status g = Group_pending"
    by (cases "jget (gq_groups q) key"; cases "mg_status (the (jget (gq_groups q) key))")
      (auto simp: r_def flights'_def flush_begin_def groups0 simp del: map_of_eq_Some_iff)
  then have "queue_ok flights' (snd r) \<and> (jget (gq_groups q) k = Some h \<longrightarrow>
      (\<exists>g'. jget (gq_groups (snd r)) k = Some g' \<and> set (group_identities h) \<subseteq> set (group_identities g')))"
  proof cases
    case idle
    with ok q0 disarm_unarmed_ok [OF ok idle(3)] groups0 show ?thesis by auto
  next
    case (starts g)
    define g1 where "g1 = g\<lparr>mg_status := Group_delivering, mg_attempts := mg_attempts g + 1, mg_error := None\<rparr>"
    note g = queue_okD(2) [OF ok starts(1), unfolded held_def]
    have key: "mg_key g1 = key" and ids: "group_identities g1 = group_identities g" and st: "mg_status g1 = Group_delivering"
      and gok: "group_ok g1" using g by (auto simp: g1_def group_identities_def group_ok_def)
    have r': "fst r = Inr (Some g1)"
      "snd r = (put_group g1 (disarm key q0))\<lparr>gq_disk := Some (snapshot_json (stamp now) (put_group g1 (disarm key q0)))\<rparr>"
      using starts by (simp_all add: r_def flush_begin_def groups0 Let_def persist_written g1_def del: map_of_eq_Some_iff)
    then have fl: "flights' = jset key g1 flights" by (simp add: flights'_def)
    have "queue_ok flights' (snd r)"
      by (rule put_group_ok [OF ok, where k = key and g = g1 and u = "stamp now" and qw = "put_group g1 (disarm key q0)"])
        (use q0 in \<open>auto simp: held_def key gok st r' fl simp del: map_of_eq_Some_iff\<close>)
    moreover have "\<exists>g'. jget (gq_groups (snd r)) k = Some g' \<and> set (group_identities h) \<subseteq> set (group_identities g')"
      if "jget (gq_groups q) k = Some h"
      using that starts(1) ids by (cases "k = key") (auto simp: r' key groups0 simp del: map_of_eq_Some_iff)
    ultimately show ?thesis by blast
  qed
  then show "queue_ok flights' (snd r)"
    and "jget (gq_groups q) k = Some h \<Longrightarrow>
      \<exists>g'. jget (gq_groups (snd r)) k = Some g' \<and> set (group_identities h) \<subseteq> set (group_identities g')" by blast+
qed

lemma jdel_flight: "k' \<noteq> k \<Longrightarrow> jget (jdel k m) k' = jget m k'"
  by simp

lemma flush_failed_ok:
  assumes ok: "queue_ok flights q" and g: "jget (gq_groups q) key = Some g"
    and r_def: "r = flush_failed stamp g err now True q"
  shows "queue_ok (jdel key flights) (snd r)"
    and "jget (gq_groups q) k = Some h \<Longrightarrow>
      \<exists>g'. jget (gq_groups (snd r)) k = Some g' \<and> set (group_identities h) \<subseteq> set (group_identities g')"
proof -
  define g1 where "g1 = g\<lparr>mg_status := Group_pending, mg_error := Some err, mg_deadline := now + retry_ms (mg_attempts g),
    mg_max := max (mg_max g) (now + retry_ms (mg_attempts g))\<rparr>"
  note h = queue_okD(2) [OF ok g, unfolded held_def]
  then have key: "mg_key g = key" "mg_key g1 = key" and ids: "group_identities g1 = group_identities g"
    and st: "mg_status g1 = Group_pending" and gok: "group_ok g1" by (auto simp: g1_def group_identities_def group_ok_def)
  have "jhas (gq_groups q) key" using g by (auto simp: jhas_get)
  then have r': "snd r = arm g1 now ((put_group g1 q)\<lparr>gq_disk := Some (snapshot_json (stamp now) (put_group g1 q))\<rparr>)"
    by (simp add: r_def flush_failed_def Let_def persist_written g1_def [symmetric] key)
  show "queue_ok (jdel key flights) (snd r)"
    by (rule put_group_ok [OF ok, where k = key and g = g1 and u = "stamp now" and qw = "put_group g1 q"])
      (auto simp: held_def key gok st r' simp del: map_of_eq_Some_iff)
  show "\<exists>g'. jget (gq_groups (snd r)) k = Some g' \<and> set (group_identities h) \<subseteq> set (group_identities g')"
    if "jget (gq_groups q) k = Some h"
    using that g ids by (cases "k = key") (auto simp: r' key simp del: map_of_eq_Some_iff)
qed

lemma flush_delivered_ok:
  assumes ok: "queue_ok flights q" and g: "jget (gq_groups q) key = Some g"
    and r_def: "r = flush_delivered stamp key ids now True err wok2 q"
  shows "queue_ok (jdel key flights) (snd r)"
    and "jget (gq_groups q) k = Some h \<Longrightarrow> x \<in> set (group_identities h) \<Longrightarrow>
      x \<in> set ids \<or> (\<exists>g'. jget (gq_groups (snd r)) k = Some g' \<and> x \<in> set (group_identities g'))"
proof -
  define rest where "rest = filter (\<lambda>it. gi_identity it \<notin> set ids) (mg_items g)"
  define q1 where "q1 = q\<lparr>gq_delivered := evict_oldest (foldl (\<lambda>ds d. sadd d ds) (gq_delivered q) ids)\<rparr>"
  define g1 where "g1 = g\<lparr>mg_items := rest, mg_status := Group_pending, mg_attempts := 0, mg_error := None,
    mg_created := gi_received (hd rest)\<rparr>"
  define q2 where "q2 = (if rest = [] then q1\<lparr>gq_groups := jdel key (gq_groups q1)\<rparr> else arm g1 now (put_group g1 q1))"
  note held = queue_okD(2) [OF ok g, unfolded held_def]
  then have key: "mg_key g1 = key" and st: "mg_status g1 = Group_pending" and gok: "rest \<noteq> [] \<Longrightarrow> group_ok g1"
    by (auto simp: g1_def group_ok_def rest_def list_all_iff)
  have r': "snd r = q2\<lparr>gq_disk := Some (snapshot_json (stamp now) q2)\<rparr>"
    by (simp add: r_def flush_delivered_def Let_def g persist_written q2_def q1_def g1_def rest_def del: map_of_eq_Some_iff)
  have q1: "gq_groups q1 = gq_groups q" "gq_timers q1 = gq_timers q" by (simp_all add: q1_def)
  show "queue_ok (jdel key flights) (snd r)"
  proof (cases "rest = []")
    case True
    show ?thesis
      by (rule remove_group_ok [OF ok, where u = "stamp now" and qw = q2]) (simp_all add: r' q2_def True q1)
  next
    case False
    show ?thesis
      by (rule put_group_ok [OF ok, where k = key and g = g1 and u = "stamp now" and qw = q2])
        (use False gok in \<open>auto simp: r' q2_def q1 key st held_def simp del: map_of_eq_Some_iff\<close>)
  qed
  assume h: "jget (gq_groups q) k = Some h" "x \<in> set (group_identities h)"
  show "x \<in> set ids \<or> (\<exists>g'. jget (gq_groups (snd r)) k = Some g' \<and> x \<in> set (group_identities g'))"
  proof (cases "k = key")
    case True
    have "x \<in> set ids \<or> x \<in> gi_identity ` set rest" using h g True by (auto simp: group_identities_def rest_def)
    then show ?thesis
      by (auto simp: r' q2_def q1 True key g1_def [THEN arg_cong, of mg_items] group_identities_def simp del: map_of_eq_Some_iff)
  next
    case False
    with h show ?thesis by (auto simp: r' q2_def q1 key simp del: map_of_eq_Some_iff)
  qed
qed

lemma restore_fold:
  assumes "distinct (map mg_key gs)"
    and "q' = foldl (\<lambda>q g. arm (g\<lparr>mg_status := Group_pending\<rparr>) now (put_group (g\<lparr>mg_status := Group_pending\<rparr>) q)) q gs"
  shows "(\<forall>g \<in> set gs. jget (gq_groups q') (mg_key g) = Some (g\<lparr>mg_status := Group_pending\<rparr>)) \<and>
    (\<forall>k. k \<notin> mg_key ` set gs \<longrightarrow> jget (gq_groups q') k = jget (gq_groups q) k) \<and>
    (distinct (jkeys (gq_groups q)) \<longrightarrow> distinct (jkeys (gq_groups q'))) \<and>
    (\<forall>k. jhas (gq_timers q') k \<longleftrightarrow> k \<in> mg_key ` set gs \<or> jhas (gq_timers q) k) \<and> gq_disk q' = gq_disk q"
  using assms
proof (induction gs arbitrary: q)
  case (Cons g gs)
  let ?g = "g\<lparr>mg_status := Group_pending\<rparr>"
  let ?q = "arm ?g now (put_group ?g q)"
  have dist: "distinct (map mg_key gs)" and new: "mg_key g \<notin> mg_key ` set gs" using Cons.prems(1) by auto
  have "q' = foldl (\<lambda>q g. arm (g\<lparr>mg_status := Group_pending\<rparr>) now (put_group (g\<lparr>mg_status := Group_pending\<rparr>) q)) ?q gs"
    using Cons.prems(2) by simp
  note IH = Cons.IH [OF dist this]
  have "jget (gq_groups q') (mg_key g) = Some ?g" using IH new by simp
  moreover have "distinct (jkeys (gq_groups q)) \<longrightarrow> distinct (jkeys (gq_groups q'))"
    using IH by (simp add: distinct_jset)
  ultimately show ?case using IH by (auto simp del: map_of_eq_Some_iff)
qed simp

lemma restart_ok:
  assumes ok: "queue_ok flights q" and q': "q' = new_grouping_queue (gq_disk q) now"
  shows "queue_ok [] q'"
    and "jget (gq_groups q) k = Some h \<Longrightarrow>
      \<exists>g'. jget (gq_groups q') k = Some g' \<and> set (group_identities h) \<subseteq> set (group_identities g')"
proof -
  define gs where "gs = saved_groups (gq_disk q)"
  define q0 where "q0 = \<lparr>gq_groups = [], gq_delivered = (case read_grouping_state (gq_disk q) of None \<Rightarrow> []
    | Some (_, ds) \<Rightarrow> foldl (\<lambda>ds d. sadd d ds) [] ds), gq_timers = [], gq_disk = gq_disk q\<rparr>"
  have saved: "distinct (map mg_key gs)" "list_all group_ok gs"
    and kept: "jget (gq_groups q) k = Some h \<Longrightarrow> \<exists>g' \<in> set gs. mg_key g' = k \<and> group_identities g' = group_identities h" for k h
    using queue_okD(4) [OF ok] by (simp_all add: saved_ok_def gs_def del: map_of_eq_Some_iff)
  have fold: "q' = foldl (\<lambda>q g. arm (g\<lparr>mg_status := Group_pending\<rparr>) now (put_group (g\<lparr>mg_status := Group_pending\<rparr>) q)) q0 gs"
    by (simp add: q' new_grouping_queue_def gs_def saved_groups_def q0_def Let_def split: option.split prod.split)
  note res = restore_fold [OF saved(1) fold]
  have mem: "jget (gq_groups q') k = Some g \<longleftrightarrow> (\<exists>g' \<in> set gs. mg_key g' = k \<and> g = g'\<lparr>mg_status := Group_pending\<rparr>)" for k g
    using res by (cases "k \<in> mg_key ` set gs") (auto simp: q0_def simp del: map_of_eq_Some_iff)
  have held: "held [] (gq_timers q') k g" if k: "jget (gq_groups q') k = Some g" for k g
  proof -
    obtain g' where g': "g' \<in> set gs" "mg_key g' = k" "g = g'\<lparr>mg_status := Group_pending\<rparr>" using k mem by blast
    then have "group_ok g'" using saved(2) by (simp add: list_all_iff)
    then have "group_ok g" by (simp add: g'(3) group_ok_def)
    moreover have "jhas (gq_timers q') k" using res g' by blast
    ultimately show ?thesis by (simp add: held_def g' )
  qed
  have "\<forall>k g. jget (gq_groups q') k = Some g \<longrightarrow>
      (\<exists>g' \<in> set (saved_groups (gq_disk q')). mg_key g' = k \<and> group_identities g' = group_identities g)"
  proof (intro allI impI)
    fix k g assume "jget (gq_groups q') k = Some g"
    then obtain g' where g': "g' \<in> set gs" "mg_key g' = k" "g = g'\<lparr>mg_status := Group_pending\<rparr>" using mem by blast
    have "saved_groups (gq_disk q') = gs" using res by (simp add: gs_def q0_def)
    moreover have "group_identities g' = group_identities g" by (simp add: g'(3) group_identities_def)
    ultimately show "\<exists>g' \<in> set (saved_groups (gq_disk q')). mg_key g' = k \<and> group_identities g' = group_identities g"
      using g' by blast
  qed
  moreover have "saved_groups (gq_disk q') = gs" using res by (simp add: gs_def q0_def)
  ultimately have "saved_ok q'" using saved by (simp only: saved_ok_def simp_thms)
  moreover have "distinct (jkeys (gq_groups q'))" using res by (simp add: q0_def)
  ultimately show "queue_ok [] q'" using held unfolding queue_ok_def
    by (intro conjI allI impI) simp_all
  assume "jget (gq_groups q) k = Some h"
  from kept [OF this] obtain g' where g': "g' \<in> set gs" "mg_key g' = k" "group_identities g' = group_identities h" by blast
  have here: "jget (gq_groups q') k = Some (g'\<lparr>mg_status := Group_pending\<rparr>)"
    unfolding mem using g'(1,2) by (intro bexI [of _ g']) simp_all
  have ids: "group_identities (g'\<lparr>mg_status := Group_pending\<rparr>) = group_identities h"
    using g'(3) by (simp add: group_identities_def)
  show "\<exists>g'. jget (gq_groups q') k = Some g' \<and> set (group_identities h) \<subseteq> set (group_identities g')"
    by (rule exI [of _ "g'\<lparr>mg_status := Group_pending\<rparr>"], rule conjI, rule here) (simp only: ids subset_refl)
qed

section \<open>No message is lost\<close>

definition world_ok :: "grouping_world \<Rightarrow> bool" where
  "world_ok w \<longleftrightarrow> queue_ok (gw_flights w) (gw_queue w) \<and>
     (\<forall>x \<in> set (gw_accepted w). (\<exists>g \<in> set (gw_log w). x \<in> set (group_identities g)) \<or>
        (\<exists>k g. jget (gq_groups (gw_queue w)) k = Some g \<and> x \<in> set (group_identities g)))"

text \<open>An event whose writes succeed; the queue is not closed.\<close>

fun smooth :: "grouping_event \<Rightarrow> bool" where
  "smooth (Enqueue i now uuid wok) = (input_ok i \<and> wok)"
| "smooth (Timer_fires key now wok) = wok"
| "smooth (Flush_now key now wok) = wok"
| "smooth (Deliver_succeeds key now wok err wok2) = wok"
| "smooth (Deliver_fails key err now wok) = wok"
| "smooth (Close_queue now wok) = False"
| "smooth (Restart now) = True"

lemma world_ok_cases:
  assumes "world_ok w" and "x \<in> set (gw_accepted w)"
  obtains (logged) "\<exists>g \<in> set (gw_log w). x \<in> set (group_identities g)"
    | (queued) k g where "jget (gq_groups (gw_queue w)) k = Some g" "x \<in> set (group_identities g)"
  using bspec [OF conjunct2 [OF assms(1) [unfolded world_ok_def]] assms(2)] that by blast

lemma world_ok_mono:
  assumes "world_ok w" and "queue_ok (gw_flights w') (gw_queue w')" and "gw_accepted w' = gw_accepted w" and "gw_log w' = gw_log w"
    and "\<And>k g. jget (gq_groups (gw_queue w)) k = Some g \<Longrightarrow>
      \<exists>g'. jget (gq_groups (gw_queue w')) k = Some g' \<and> set (group_identities g) \<subseteq> set (group_identities g')"
  shows "world_ok w'"
proof -
  have "(\<exists>g \<in> set (gw_log w'). x \<in> set (group_identities g)) \<or>
      (\<exists>k g. jget (gq_groups (gw_queue w')) k = Some g \<and> x \<in> set (group_identities g))" if "x \<in> set (gw_accepted w')" for x
    using assms(1) that [unfolded assms(3)]
  proof (cases rule: world_ok_cases)
    case (queued k g)
    from assms(5) [OF queued(1)] queued(2) show ?thesis by blast
  qed (simp add: assms(4))
  with assms(2) show ?thesis unfolding world_ok_def by blast
qed

lemma begin_delivery_ok:
  assumes ok: "world_ok w" and q0: "q0 = gw_queue w \<or> q0 = disarm key (gw_queue w)"
  shows "world_ok (begin_delivery key (flush_begin stamp key now True q0) w)"
proof (rule world_ok_mono [OF ok])
  have qok: "queue_ok (gw_flights w) (gw_queue w)" using ok by (simp add: world_ok_def)
  note fb = flush_begin_ok [OF qok q0 refl refl, where stamp = stamp and now = now]
  show "queue_ok (gw_flights (begin_delivery key (flush_begin stamp key now True q0) w))
      (gw_queue (begin_delivery key (flush_begin stamp key now True q0) w))"
    using fb(1) by (simp add: begin_delivery_def)
  show "\<exists>g'. jget (gq_groups (gw_queue (begin_delivery key (flush_begin stamp key now True q0) w))) k = Some g' \<and>
      set (group_identities g) \<subseteq> set (group_identities g')" if "jget (gq_groups (gw_queue w)) k = Some g" for k g
    using fb(2) [OF that] by (simp add: begin_delivery_def)
qed (simp_all add: begin_delivery_def)

lemma grouping_step_ok:
  assumes ok: "world_ok w" and s: "smooth e" and step: "grouping_step stamp e w = Some w'"
  shows "world_ok w'"
proof -
  have qok: "queue_ok (gw_flights w) (gw_queue w)" using ok by (simp add: world_ok_def)
  show ?thesis
  proof (cases e)
    case (Enqueue i now uuid wok)
    obtain r q where rq: "enqueue_message stamp i now uuid True (gw_queue w) = (r, q)" by force
    have i: "input_ok i" and wok using s Enqueue by simp_all
    note en = enqueue_ok [OF qok i rq [symmetric], simplified]
    define w1 where "w1 = w\<lparr>gw_queue := q\<rparr>"
    have w1: "world_ok w1" by (rule world_ok_mono [OF ok]) (use en in \<open>auto simp: w1_def simp del: map_of_eq_Some_iff\<close>)
    have w': "w' = w1\<lparr>gw_accepted := (case r of Inr res \<Rightarrow> if eo_accepted res then in_identity i # gw_accepted w else gw_accepted w
          | Inl _ \<Rightarrow> gw_accepted w)\<rparr>"
      using step Enqueue \<open>wok\<close> rq by (auto simp: w1_def)
    show ?thesis
    proof (cases "\<exists>res. r = Inr res \<and> eo_accepted res")
      case True
      with en(3) have "\<exists>k g. jget (gq_groups q) k = Some g \<and> in_identity i \<in> set (group_identities g)" by auto
      with w1 True show ?thesis by (auto simp: w' w1_def world_ok_def simp del: map_of_eq_Some_iff)
    next
      case False
      then have "w' = w1" by (auto simp: w' w1_def split: sum.split)
      with w1 show ?thesis by simp
    qed
  next
    case (Timer_fires key now wok)
    with step s begin_delivery_ok [OF ok, of "disarm key (gw_queue w)" key stamp now] show ?thesis
      by (auto split: option.splits if_splits)
  next
    case (Flush_now key now wok)
    with step s begin_delivery_ok [OF ok, of "gw_queue w" key stamp now] show ?thesis by auto
  next
    case (Deliver_succeeds key now wok err wok2)
    then obtain c where c: "jget (gw_flights w) key = Some c" and wok
      and w': "w' = w\<lparr>gw_queue := snd (flush_delivered stamp key (group_identities c) now wok err wok2 (gw_queue w)),
          gw_flights := jdel key (gw_flights w), gw_log := gw_log w @ [c]\<rparr>"
      using step s by (auto split: option.splits simp del: map_of_eq_Some_iff)
    obtain g where g: "jget (gq_groups (gw_queue w)) key = Some g" using queue_okD(3) [OF qok c] by blast
    note fd = flush_delivered_ok [OF qok g refl, where stamp = stamp and ids = "group_identities c" and now = now and err = err and ?wok2.0 = wok2]
    have "(\<exists>g \<in> set (gw_log w'). x \<in> set (group_identities g)) \<or>
        (\<exists>k g. jget (gq_groups (gw_queue w')) k = Some g \<and> x \<in> set (group_identities g))" if "x \<in> set (gw_accepted w)" for x
      using ok that
    proof (cases rule: world_ok_cases)
      case (queued k h)
      from fd(2) [OF queued] show ?thesis using \<open>wok\<close> by (auto simp: w' simp del: map_of_eq_Some_iff)
    qed (auto simp: w')
    moreover have "queue_ok (gw_flights w') (gw_queue w')" using fd(1) \<open>wok\<close> by (simp add: w')
    ultimately show ?thesis by (simp add: world_ok_def w' del: map_of_eq_Some_iff)
  next
    case (Deliver_fails key err now wok)
    then obtain c where c: "jget (gw_flights w) key = Some c" and wok
      and w': "w' = w\<lparr>gw_queue := snd (flush_failed stamp (the (jget (gq_groups (gw_queue w)) key)) err now wok (gw_queue w)),
          gw_flights := jdel key (gw_flights w)\<rparr>"
      using step s by (auto split: option.splits simp del: map_of_eq_Some_iff)
    obtain g where g: "jget (gq_groups (gw_queue w)) key = Some g" using queue_okD(3) [OF qok c] by blast
    note ff = flush_failed_ok [OF qok g refl, where stamp = stamp and err = err and now = now]
    have "the (jget (gq_groups (gw_queue w)) key) = g" by (simp add: g del: map_of_eq_Some_iff)
    then show ?thesis using ff \<open>wok\<close> unfolding w' by (intro world_ok_mono [OF ok]) simp_all
  next
    case (Restart now)
    with step have w': "w' = w\<lparr>gw_queue := new_grouping_queue (gq_disk (gw_queue w)) now, gw_flights := []\<rparr>" by simp
    show ?thesis using restart_ok [OF qok refl, where now = now] unfolding w' by (intro world_ok_mono [OF ok]) simp_all
  qed (use s in simp_all)
qed

interpretation groups: event_machine "grouping_step stamp" world_ok smooth for stamp
  by unfold_locales (rule grouping_step_ok)

lemma new_grouping_world_ok: "world_ok new_grouping_world"
  by (simp add: world_ok_def new_grouping_world_def new_grouping_queue_def read_grouping_state_def queue_ok_def saved_ok_def
      saved_groups_def)

text \<open>C2: As long as its writes succeed, a message that the queue accepted has been delivered in a group, or it is in a group
  of the queue that is due by a timer no later than its last deadline or is being delivered with
  it, and the file holds it: through any order of messages, timers, failed deliveries, and restarts
  of the process at any moment.\<close>

theorem no_message_lost:
  assumes run: "grouping_run stamp es new_grouping_world = Some w" and smooth: "list_all smooth es" and x: "x \<in> set (gw_accepted w)"
  shows "(\<exists>g \<in> set (gw_log w). x \<in> set (group_identities g)) \<or>
    (\<exists>k g. jget (gq_groups (gw_queue w)) k = Some g \<and> x \<in> set (group_identities g) \<and> mg_deadline g \<le> mg_max g \<and>
       (case mg_status g of
          Group_pending \<Rightarrow> jhas (gq_timers (gw_queue w)) k
        | Group_delivering \<Rightarrow> \<exists>c. jget (gw_flights w) k = Some c \<and> set (group_identities c) \<subseteq> set (group_identities g)) \<and>
       (\<exists>g' \<in> set (saved_groups (gq_disk (gw_queue w))). mg_key g' = k \<and> x \<in> set (group_identities g')))"
proof -
  have ok: "world_ok w" by (rule groups.run_keeps [OF run smooth new_grouping_world_ok])
  then have qok: "queue_ok (gw_flights w) (gw_queue w)" by (simp add: world_ok_def)
  from ok x show ?thesis
  proof (cases rule: world_ok_cases)
    case (queued k g)
    from queue_okD(2) [OF qok queued(1)] have "mg_deadline g \<le> mg_max g"
      and "case mg_status g of Group_pending \<Rightarrow> jhas (gq_timers (gw_queue w)) k
        | Group_delivering \<Rightarrow> \<exists>c. jget (gw_flights w) k = Some c \<and> set (group_identities c) \<subseteq> set (group_identities g)"
      by (auto simp: held_def group_ok_def split: group_status.split)
    moreover obtain g' where "g' \<in> set (saved_groups (gq_disk (gw_queue w)))" "mg_key g' = k" "group_identities g' = group_identities g"
      using queue_okD(4) [OF qok] queued(1) unfolding saved_ok_def by blast
    ultimately show ?thesis using queued by (intro disjI2 exI [of _ k] exI [of _ g]) auto
  qed blast
qed

section \<open>Every message can be delivered\<close>

lemma run_two: "grouping_step stamp e w = Some w1 \<Longrightarrow> grouping_step stamp e' w1 = Some w2 \<Longrightarrow> grouping_run stamp [e, e'] w = Some w2"
  by simp

text \<open>The timer of a pending group fires and its delivery succeeds.\<close>

lemma pending_group_delivers:
  assumes ok: "world_ok w" and g: "jget (gq_groups (gw_queue w)) k = Some g" "mg_status g = Group_pending"
    and x: "x \<in> set (group_identities g)"
  shows "\<exists>now w'. grouping_run stamp [Timer_fires k now True, Deliver_succeeds k now True [] True] w = Some w' \<and>
    (\<exists>h \<in> set (gw_log w'). x \<in> set (group_identities h))"
proof -
  have qok: "queue_ok (gw_flights w) (gw_queue w)" using ok by (simp add: world_ok_def)
  obtain due where due: "jget (gq_timers (gw_queue w)) k = Some due"
    using queue_okD(2) [OF qok g(1)] g(2) by (auto simp: held_def jhas_get)
  define g1 where "g1 = g\<lparr>mg_status := Group_delivering, mg_attempts := mg_attempts g + 1, mg_error := None\<rparr>"
  define r where "r = flush_begin stamp k due True (disarm k (gw_queue w))"
  have "fst r = Inr (Some g1)"
    by (simp add: r_def flush_begin_def g Let_def persist_groups_def g1_def del: map_of_eq_Some_iff)
  then have fl: "jget (gw_flights (begin_delivery k r w)) k = Some g1" by (simp add: begin_delivery_def)
  have "grouping_step stamp (Timer_fires k due True) w = Some (begin_delivery k r w)" using due by (simp add: r_def)
  moreover obtain w2 where "grouping_step stamp (Deliver_succeeds k due True [] True) (begin_delivery k r w) = Some w2"
    and "gw_log w2 = gw_log (begin_delivery k r w) @ [g1]" using fl by simp
  moreover have "x \<in> set (group_identities g1)" using x by (simp add: g1_def group_identities_def)
  ultimately show ?thesis by (intro exI [of _ due] exI [of _ w2] conjI run_two) auto
qed

text \<open>The events that the queue brings about by itself: a timer it has set fires, and a delivery under way
  succeeds; the write that belongs to either succeeds. Nobody sends a message, flushes a group by
  hand or restarts the process.\<close>

fun own_event :: "grouping_event \<Rightarrow> bool" where
  "own_event (Timer_fires key now wok) = wok"
| "own_event (Deliver_succeeds key now wok err wok2) = wok"
| "own_event _ = False"

text \<open>C3: From every reachable state with successful writes each accepted message that has not been delivered is delivered by
  at most three further events, all of them timers that the queue has set or ends of deliveries that are
  under way: the end of the delivery its group is part of, the timer, and a delivery that succeeds.
  No message waits for another one to arrive, for a flush by hand or for a restart.\<close>

theorem accepted_message_delivered:
  assumes run: "grouping_run stamp es new_grouping_world = Some w" and smooth: "list_all smooth es" and x: "x \<in> set (gw_accepted w)"
  shows "\<exists>es' w'. length es' \<le> 3 \<and> list_all own_event es' \<and> grouping_run stamp es' w = Some w' \<and>
    (\<exists>g \<in> set (gw_log w'). x \<in> set (group_identities g))"
proof -
  have ok: "world_ok w" by (rule groups.run_keeps [OF run smooth new_grouping_world_ok])
  then have qok: "queue_ok (gw_flights w) (gw_queue w)" by (simp add: world_ok_def)
  from ok x show ?thesis
  proof (cases rule: world_ok_cases)
    case logged
    then show ?thesis by (intro exI [of _ "[]"] exI [of _ w]) simp
  next
    case (queued k g)
    show ?thesis
    proof (cases "mg_status g")
      case Group_pending
      from pending_group_delivers [OF ok queued(1) this queued(2), of stamp] obtain now w' where
        "grouping_run stamp [Timer_fires k now True, Deliver_succeeds k now True [] True] w = Some w'"
        "\<exists>h \<in> set (gw_log w'). x \<in> set (group_identities h)" by blast
      then show ?thesis
        by (intro exI [of _ "[Timer_fires k now True, Deliver_succeeds k now True [] True]"] exI [of _ w']) simp
    next
      case Group_delivering
      with queue_okD(2) [OF qok queued(1)] obtain c where c: "jget (gw_flights w) k = Some c" by (auto simp: held_def)
      let ?e = "Deliver_succeeds k 0 True [] True"
      obtain w1 where w1: "grouping_step stamp ?e w = Some w1" "gw_log w1 = gw_log w @ [c]" "gw_flights w1 = jdel k (gw_flights w)"
        and q1: "gw_queue w1 = snd (flush_delivered stamp k (group_identities c) 0 True [] True (gw_queue w))"
        using c by simp
      show ?thesis
      proof (cases "x \<in> set (group_identities c)")
        case True
        with w1 show ?thesis by (intro exI [of _ "[?e]"] exI [of _ w1]) simp
      next
        case False
        have ok1: "world_ok w1" by (rule grouping_step_ok [OF ok _ w1(1)]) simp
        obtain g' where g': "jget (gq_groups (gw_queue w1)) k = Some g'" "x \<in> set (group_identities g')"
          using flush_delivered_ok(2) [OF qok queued(1) refl queued] False unfolding q1 by blast
        have "held (gw_flights w1) (gq_timers (gw_queue w1)) k g'"
          using ok1 g'(1) by (intro queue_okD(2)) (simp_all add: world_ok_def)
        then have "mg_status g' \<noteq> Group_delivering" by (auto simp: held_def w1(3))
        then have "mg_status g' = Group_pending" by (cases "mg_status g'") simp_all
        from pending_group_delivers [OF ok1 g'(1) this g'(2), of stamp] obtain now w' where
          "grouping_run stamp [Timer_fires k now True, Deliver_succeeds k now True [] True] w1 = Some w'"
          "\<exists>h \<in> set (gw_log w'). x \<in> set (group_identities h)" by blast
        with w1(1) show ?thesis
          by (intro exI [of _ "[?e, Timer_fires k now True, Deliver_succeeds k now True [] True]"] exI [of _ w']) simp
      qed
    qed
  qed
qed

section \<open>A write that fails\<close>

definition keyed :: "grouping_queue \<Rightarrow> bool" where
  "keyed q \<longleftrightarrow> distinct (jkeys (gq_groups q)) \<and> (\<forall>k g. jget (gq_groups q) k = Some g \<longrightarrow> mg_key g = k)"

text \<open>The group of a key that is being delivered is left so, with its messages and without a timer if it had none.\<close>

definition leaves :: "string \<Rightarrow> grouping_queue \<Rightarrow> grouping_queue \<Rightarrow> bool" where
  "leaves k q q' \<longleftrightarrow> (\<forall>g. jget (gq_groups q) k = Some g \<and> mg_status g = Group_delivering \<longrightarrow>
     (\<exists>g'. jget (gq_groups q') k = Some g' \<and> mg_status g' = Group_delivering \<and>
        set (group_identities g) \<subseteq> set (group_identities g') \<and> (jhas (gq_timers q') k \<longrightarrow> jhas (gq_timers q) k)))"

lemma leaves_same:
  "jget (gq_groups q') k = jget (gq_groups q) k \<Longrightarrow> (jhas (gq_timers q') k \<Longrightarrow> jhas (gq_timers q) k) \<Longrightarrow> leaves k q q'"
  by (simp add: leaves_def)

lemma keyed_put: "keyed q \<Longrightarrow> keyed (put_group g q)"
  by (simp add: keyed_def distinct_jset del: map_of_eq_Some_iff)

lemma keyed_cong: "gq_groups q' = gq_groups q \<Longrightarrow> keyed q' \<longleftrightarrow> keyed q"
  by (simp add: keyed_def)

lemma persist_cases:
  "persist_groups stamp now wok q = Inl Write_failed \<or> persist_groups stamp now wok q = Inr (q\<lparr>gq_disk := Some (snapshot_json (stamp now) q)\<rparr>)"
  by (simp add: persist_groups_def)

lemma keyed_existing:
  assumes q: "keyed q" and e: "existing_group i q = Some g"
  shows "jget (gq_groups q) (mg_key g) = Some g"
proof (cases "jget (gq_groups q) (in_key i)")
  case (Some g')
  with e have "g' = g" by (simp add: existing_group_def)
  with q Some show ?thesis by (simp add: keyed_def)
next
  case None
  with e have "g \<in> set (jvals (gq_groups q))"
    by (auto simp: existing_group_def split: if_splits list.splits dest!: arg_cong [where f = set])
  then obtain k where "(k, g) \<in> set (gq_groups q)" by auto
  with q show ?thesis by (auto simp: keyed_def)
qed

lemma enqueue_leaves:
  assumes q: "keyed q"
  shows "keyed (snd (enqueue_message stamp i now uuid wok q)) \<and> leaves k q (snd (enqueue_message stamp i now uuid wok q))"
proof -
  define old where "old = (case existing_group i q of None \<Rightarrow> new_group i now uuid | Some g \<Rightarrow> g)"
  define g where "g = add_message i now old"
  define q1 where "q1 = put_group g q"
  define q' where "q' = snd (enqueue_message stamp i now uuid wok q)"
  have old: "jget (gq_groups q) (mg_key old) = existing_group i q"
    using existing_group_None [of i q] keyed_existing [OF q, of i]
    by (auto simp: old_def new_group_def split: option.split simp del: map_of_eq_Some_iff)
  define q2 where "q2 = q1\<lparr>gq_disk := Some (snapshot_json (stamp now) q1)\<rparr>"
  have "q' = q \<or> q' = q1 \<or> q' = (if mg_status g = Group_delivering then q2 else arm g now q2)"
    by (cases "existing_group i q"; cases wok)
      (simp_all add: q'_def enqueue_message_def Let_def persist_groups_def g_def old_def q1_def q2_def)
  then have cases: "q' = q \<or> gq_groups q' = gq_groups q1 \<and>
      (\<forall>k. jhas (gq_timers q') k \<longrightarrow> jhas (gq_timers q) k \<or> k = mg_key g \<and> mg_status g \<noteq> Group_delivering)"
    by (elim disjE) (simp_all add: q1_def q2_def)
  have key: "mg_key g = mg_key old" "mg_status g = mg_status old" by (simp_all add: g_def)
  have "leaves k q q'"
  proof (cases "q' = q \<or> k \<noteq> mg_key old")
    case True
    with cases key show ?thesis by (auto simp: q1_def intro!: leaves_same simp del: map_of_eq_Some_iff)
  next
    case False
    with cases old key have here: "jget (gq_groups q') k = Some g" and same: "jget (gq_groups q) k = Some h \<Longrightarrow> h = old" for h
      by (auto simp: q1_def old_def split: option.splits simp del: map_of_eq_Some_iff)
    show ?thesis unfolding leaves_def
    proof (intro allI impI, elim conjE)
      fix h assume h: "jget (gq_groups q) k = Some h" "mg_status h = Group_delivering"
      with same have h': "h = old" by blast
      have st: "mg_status g = Group_delivering" using h h' key by simp
      have ids: "set (group_identities h) \<subseteq> set (group_identities g)" by (auto simp: g_def h')
      have tm: "jhas (gq_timers q') k \<longrightarrow> jhas (gq_timers q) k" using cases st by auto
      show "\<exists>g'. jget (gq_groups q') k = Some g' \<and> mg_status g' = Group_delivering \<and>
          set (group_identities h) \<subseteq> set (group_identities g') \<and> (jhas (gq_timers q') k \<longrightarrow> jhas (gq_timers q) k)"
        by (intro exI [of _ g] conjI here st ids tm)
    qed
  qed
  moreover have "keyed q'"
    using cases
  proof (elim disjE conjE)
    assume "gq_groups q' = gq_groups q1"
    from iffD2 [OF keyed_cong [OF this]] keyed_put [OF q, of g] show ?thesis by (simp only: q1_def)
  qed (simp only: q)
  ultimately show ?thesis by (simp add: q'_def)
qed

lemma flush_begin_leaves:
  assumes q: "keyed q" and q0: "q0 = q \<or> q0 = disarm key q" and r_def: "r = flush_begin stamp key now wok q0"
  shows "keyed (snd r)" and "leaves k q (snd r)"
    and "fst r = Inr (Some g) \<Longrightarrow> mg_key g = key \<and> jget (gq_groups (snd r)) key = Some g \<and> mg_status g = Group_delivering \<and>
      (\<exists>h. jget (gq_groups q) key = Some h \<and> mg_status h = Group_pending)"
proof -
  have groups0: "gq_groups q0 = gq_groups q" and timers0: "jhas (gq_timers q0) k \<longrightarrow> jhas (gq_timers q) k" for k using q0 by auto
  have "keyed q0" using q by (simp add: keyed_def groups0)
  have "keyed (snd r) \<and> leaves k q (snd r) \<and> (fst r = Inr (Some g) \<longrightarrow> mg_key g = key \<and>
      jget (gq_groups (snd r)) key = Some g \<and> mg_status g = Group_delivering \<and>
      (\<exists>h. jget (gq_groups q) key = Some h \<and> mg_status h = Group_pending))"
  proof (cases "\<exists>h. jget (gq_groups q) key = Some h \<and> mg_status h = Group_pending")
    case False
    then have "r = (Inr None, q0)"
      by (cases "jget (gq_groups q) key"; cases "mg_status (the (jget (gq_groups q) key))")
        (auto simp: r_def flush_begin_def groups0 simp del: map_of_eq_Some_iff)
    with \<open>keyed q0\<close> timers0 show ?thesis by (simp add: leaves_same groups0)
  next
    case True
    then obtain h where h: "jget (gq_groups q) key = Some h" "mg_status h = Group_pending" by blast
    then have hk: "mg_key h = key" using q by (simp add: keyed_def)
    define g1 where "g1 = h\<lparr>mg_status := Group_delivering, mg_attempts := mg_attempts h + 1, mg_error := None\<rparr>"
    define q1 where "q1 = put_group g1 (disarm key q0)"
    have k1: "mg_key g1 = key" by (simp add: g1_def hk)
    have r: "gq_groups (snd r) = gq_groups q1" "gq_timers (snd r) = gq_timers q1" "fst r = Inl Write_failed \<or> fst r = Inr (Some g1)"
      by (cases wok; simp add: r_def flush_begin_def groups0 h Let_def persist_groups_def g1_def q1_def del: map_of_eq_Some_iff)+
    have "keyed (disarm key q0)" by (rule iffD2 [OF keyed_cong \<open>keyed q0\<close>]) simp
    from iffD2 [OF keyed_cong [OF r(1)]] keyed_put [OF this, of g1] have "keyed (snd r)" by (simp only: q1_def)
    moreover have "leaves k q (snd r)"
    proof (cases "k = key")
      case True
      with h show ?thesis by (simp add: leaves_def del: map_of_eq_Some_iff)
    next
      case False
      with timers0 [of k] show ?thesis by (intro leaves_same) (simp_all add: r q1_def k1 groups0)
    qed
    moreover have "g = g1" if "fst r = Inr (Some g)" using r(3) that by simp
    moreover have "jget (gq_groups (snd r)) key = Some g1" "mg_status g1 = Group_delivering"
      by (simp_all add: r q1_def k1 del: map_of_eq_Some_iff) (simp add: g1_def)
    ultimately show ?thesis using h k1 by blast
  qed
  then show "keyed (snd r)" and "leaves k q (snd r)"
    and "fst r = Inr (Some g) \<Longrightarrow> mg_key g = key \<and> jget (gq_groups (snd r)) key = Some g \<and> mg_status g = Group_delivering \<and>
      (\<exists>h. jget (gq_groups q) key = Some h \<and> mg_status h = Group_pending)" by blast+
qed

lemma flush_failed_leaves:
  assumes q: "keyed q"
  shows "keyed (snd (flush_failed stamp g err now wok q)) \<and>
    (k \<noteq> mg_key g \<longrightarrow> leaves k q (snd (flush_failed stamp g err now wok q)))"
proof -
  define g1 where "g1 = g\<lparr>mg_status := Group_pending, mg_error := Some err, mg_deadline := now + retry_ms (mg_attempts g),
    mg_max := max (mg_max g) (now + retry_ms (mg_attempts g))\<rparr>"
  define q1 where "q1 = (if jhas (gq_groups q) (mg_key g) then put_group g1 q else q)"
  define q' where "q' = snd (flush_failed stamp g err now wok q)"
  have key: "mg_key g1 = mg_key g" by (simp add: g1_def)
  have "q' = q1 \<or> q' = arm g1 now (q1\<lparr>gq_disk := Some (snapshot_json (stamp now) q1)\<rparr>)"
    by (cases wok) (simp_all add: q'_def flush_failed_def Let_def persist_groups_def q1_def g1_def)
  then have q': "gq_groups q' = gq_groups q1" "jhas (gq_timers q') k \<longrightarrow> k = mg_key g \<or> jhas (gq_timers q) k" for k
    by (auto simp: q1_def key split: if_splits)
  have "keyed q1" using q keyed_put by (simp add: q1_def)
  then have "keyed q'" by (simp add: keyed_def q')
  moreover have "leaves k q q'" if "k \<noteq> mg_key g"
    by (rule leaves_same) (use q' that key in \<open>auto simp: q1_def simp del: map_of_eq_Some_iff\<close>)
  ultimately show ?thesis by (simp add: q'_def)
qed

lemma flush_delivered_leaves:
  assumes q: "keyed q" and g: "jget (gq_groups q) key = Some g"
  shows "keyed (snd (flush_delivered stamp key ids now wok err wok2 q)) \<and>
    (k \<noteq> key \<longrightarrow> leaves k q (snd (flush_delivered stamp key ids now wok err wok2 q)))"
proof -
  define rest where "rest = filter (\<lambda>it. gi_identity it \<notin> set ids) (mg_items g)"
  define q1 where "q1 = q\<lparr>gq_delivered := evict_oldest (foldl (\<lambda>ds d. sadd d ds) (gq_delivered q) ids)\<rparr>"
  define g1 where "g1 = (if rest = [] then g\<lparr>mg_items := []\<rparr>
            else g\<lparr>mg_items := rest, mg_status := Group_pending, mg_attempts := 0, mg_error := None,
              mg_created := gi_received (hd rest)\<rparr>)"
  define q2 where "q2 = (if rest = [] then q1\<lparr>gq_groups := jdel key (gq_groups q1)\<rparr> else arm g1 now (put_group g1 q1))"
  define q' where "q' = snd (flush_delivered stamp key ids now wok err wok2 q)"
  have key: "mg_key g = key" "mg_key g1 = key" using q g by (simp_all add: keyed_def g1_def)
  have "keyed q1" using q by (simp add: keyed_def q1_def)
  have "keyed q2"
  proof (cases "rest = []")
    case True
    with q show ?thesis by (simp add: q2_def q1_def keyed_def distinct_jdel del: map_of_eq_Some_iff)
  next
    case False
    have "keyed (arm g1 now (put_group g1 q1))"
      by (rule iffD2 [OF keyed_cong keyed_put [OF \<open>keyed q1\<close>]]) simp
    with False show ?thesis by (simp add: q2_def)
  qed
  have same: "jget (gq_groups q2) k = jget (gq_groups q) k" "jhas (gq_timers q2) k \<longrightarrow> jhas (gq_timers q) k" if "k \<noteq> key"
    using that by (simp_all add: q2_def q1_def key del: map_of_eq_Some_iff)
  have q': "q' = q2\<lparr>gq_disk := Some (snapshot_json (stamp now) q2)\<rparr> \<or> q' = snd (flush_failed stamp g1 err now wok2 q2)"
    by (cases wok) (simp_all add: q'_def flush_delivered_def Let_def g persist_groups_def q2_def q1_def g1_def rest_def
        del: map_of_eq_Some_iff)
  note ff = flush_failed_leaves [OF \<open>keyed q2\<close>, of stamp g1 err now wok2 k, unfolded key]
  have "keyed (q2\<lparr>gq_disk := Some (snapshot_json (stamp now) q2)\<rparr>)" by (rule iffD2 [OF keyed_cong \<open>keyed q2\<close>]) simp
  with q' ff have "keyed q'" by auto
  moreover have "leaves k q q'" if "k \<noteq> key"
    using q'
  proof
    assume "q' = q2\<lparr>gq_disk := Some (snapshot_json (stamp now) q2)\<rparr>"
    with same [OF that] show ?thesis by (intro leaves_same) simp_all
  next
    assume "q' = snd (flush_failed stamp g1 err now wok2 q2)"
    with ff that have "leaves k q2 q'" by simp
    with same [OF that] show ?thesis by (auto simp: leaves_def simp del: map_of_eq_Some_iff)
  qed
  ultimately show ?thesis by (simp add: q'_def)
qed

definition sane :: "grouping_world \<Rightarrow> bool" where
  "sane w \<longleftrightarrow> keyed (gw_queue w) \<and> (\<forall>k c. jget (gw_flights w) k = Some c \<longrightarrow> mg_key c = k \<and>
     (\<exists>g. jget (gq_groups (gw_queue w)) k = Some g \<and> mg_status g = Group_delivering))"

definition stranded :: "string \<Rightarrow> string set \<Rightarrow> grouping_world \<Rightarrow> bool" where
  "stranded key xs w \<longleftrightarrow> sane w \<and> jget (gw_flights w) key = None \<and> \<not> jhas (gq_timers (gw_queue w)) key \<and>
     (\<exists>g. jget (gq_groups (gw_queue w)) key = Some g \<and> mg_status g = Group_delivering \<and> xs \<subseteq> set (group_identities g))"

text \<open>What an event does with the groups that are on their way and with those that are stranded.\<close>

definition step_leaves :: "grouping_world \<Rightarrow> grouping_world \<Rightarrow> bool" where
  "step_leaves w w' \<longleftrightarrow> sane w' \<and> (\<forall>key xs. stranded key xs w \<longrightarrow> stranded key xs w' \<and>
     (\<exists>ls. gw_log w' = gw_log w @ ls \<and> (\<forall>h \<in> set ls. mg_key h \<noteq> key)))"

lemma step_leavesI:
  assumes w: "sane w" and q: "keyed (gw_queue w')"
    and leaves: "\<And>k. k \<notin> K \<Longrightarrow> leaves k (gw_queue w) (gw_queue w')"
    and fl: "\<And>k c. jget (gw_flights w') k = Some c \<Longrightarrow> jget (gw_flights w) k = Some c \<and> k \<notin> K \<or>
      mg_key c = k \<and> (\<exists>g. jget (gq_groups (gw_queue w')) k = Some g \<and> mg_status g = Group_delivering) \<and>
      (\<exists>g. jget (gq_groups (gw_queue w)) k = Some g \<and> mg_status g = Group_pending)"
    and K: "\<And>k. k \<in> K \<Longrightarrow> jget (gw_flights w) k \<noteq> None"
    and log: "gw_log w' = gw_log w @ ls" "\<And>h. h \<in> set ls \<Longrightarrow> jget (gw_flights w) (mg_key h) \<noteq> None"
  shows "step_leaves w w'"
proof -
  have kept: "\<exists>g'. jget (gq_groups (gw_queue w')) k = Some g' \<and> mg_status g' = Group_delivering \<and>
      set (group_identities g) \<subseteq> set (group_identities g') \<and> (jhas (gq_timers (gw_queue w')) k \<longrightarrow> jhas (gq_timers (gw_queue w)) k)"
    if "k \<notin> K" "jget (gq_groups (gw_queue w)) k = Some g" "mg_status g = Group_delivering" for k g
    using leaves [OF that(1)] that(2,3) unfolding leaves_def by blast
  have "mg_key c = k \<and> (\<exists>g. jget (gq_groups (gw_queue w')) k = Some g \<and> mg_status g = Group_delivering)"
    if "jget (gw_flights w') k = Some c" for k c
    using fl [OF that]
  proof
    assume c: "jget (gw_flights w) k = Some c \<and> k \<notin> K"
    with w obtain g where "mg_key c = k" "jget (gq_groups (gw_queue w)) k = Some g" "mg_status g = Group_delivering"
      unfolding sane_def by blast
    with kept c show ?thesis by blast
  qed blast
  with q have sane: "sane w'" unfolding sane_def by blast
  have "stranded key xs w' \<and> (\<exists>ls. gw_log w' = gw_log w @ ls \<and> (\<forall>h \<in> set ls. mg_key h \<noteq> key))" if s: "stranded key xs w" for key xs
  proof -
    from s obtain g where g: "jget (gq_groups (gw_queue w)) key = Some g" "mg_status g = Group_delivering"
        "xs \<subseteq> set (group_identities g)" and none: "jget (gw_flights w) key = None" "\<not> jhas (gq_timers (gw_queue w)) key"
      unfolding stranded_def by blast
    have "key \<notin> K" using K none(1) by blast
    moreover have "jget (gw_flights w') key = None"
    proof (rule ccontr)
      assume "jget (gw_flights w') key \<noteq> None"
      then obtain c where "jget (gw_flights w') key = Some c" by blast
      from fl [OF this] none(1) g(1,2) show False by auto
    qed
    ultimately have "stranded key xs w'" using kept [OF _ g(1,2)] none(2) sane g(3) unfolding stranded_def by blast
    with log none(1) show ?thesis by blast
  qed
  with sane show ?thesis by (simp add: step_leaves_def)
qed

lemma begin_delivery_leaves:
  assumes w: "sane w" and q0: "q0 = gw_queue w \<or> q0 = disarm key (gw_queue w)"
  shows "step_leaves w (begin_delivery key (flush_begin stamp key now wok q0) w)"
proof -
  have q: "keyed (gw_queue w)" using w by (simp add: sane_def)
  let ?r = "flush_begin stamp key now wok q0"
  note fb = flush_begin_leaves [OF q q0 refl, where stamp = stamp and now = now and wok = wok]
  show ?thesis
  proof (rule step_leavesI [OF w, where K = "{}" and ls = "[]"])
    show "keyed (gw_queue (begin_delivery key ?r w))" using fb(1) by (simp add: begin_delivery_def)
    show "leaves k (gw_queue w) (gw_queue (begin_delivery key ?r w))" for k using fb(2) by (simp add: begin_delivery_def)
    fix k c assume c: "jget (gw_flights (begin_delivery key ?r w)) k = Some c"
    show "jget (gw_flights w) k = Some c \<and> k \<notin> {} \<or>
      mg_key c = k \<and> (\<exists>g. jget (gq_groups (gw_queue (begin_delivery key ?r w))) k = Some g \<and> mg_status g = Group_delivering) \<and>
      (\<exists>g. jget (gq_groups (gw_queue w)) k = Some g \<and> mg_status g = Group_pending)"
    proof (cases "fst ?r = Inr (Some c) \<and> k = key")
      case True
      with fb(3) [of c] show ?thesis by (auto simp: begin_delivery_def)
    next
      case False
      with c show ?thesis
        by (auto simp: begin_delivery_def simp del: map_of_eq_Some_iff split: sum.splits option.splits if_splits)
    qed
  qed (simp_all add: begin_delivery_def)
qed

lemma grouping_step_leaves:
  assumes w: "sane w" and step: "grouping_step stamp e w = Some w'" and e: "\<And>now. e \<noteq> Restart now"
  shows "step_leaves w w'"
proof -
  have q: "keyed (gw_queue w)" using w by (simp add: sane_def)
  show ?thesis
  proof (cases e)
    case (Enqueue i now uuid wok)
    obtain r q' where rq: "enqueue_message stamp i now uuid wok (gw_queue w) = (r, q')" by force
    then have w': "gw_queue w' = q'" "gw_flights w' = gw_flights w" "gw_log w' = gw_log w" using step Enqueue by auto
    have q': "keyed q' \<and> leaves k (gw_queue w) q'" for k using enqueue_leaves [OF q, of stamp i now uuid wok k] rq by simp
    show ?thesis by (rule step_leavesI [OF w, where K = "{}" and ls = "[]"]) (use q' in \<open>simp_all add: w'\<close>)
  next
    case (Timer_fires key now wok)
    with step begin_delivery_leaves [OF w, of "disarm key (gw_queue w)" key stamp now wok] show ?thesis
      by (auto split: option.splits if_splits)
  next
    case (Flush_now key now wok)
    with step begin_delivery_leaves [OF w, of "gw_queue w" key stamp now wok] show ?thesis by auto
  next
    case (Deliver_succeeds key now wok err wok2)
    then obtain c where c: "jget (gw_flights w) key = Some c"
      and w': "w' = w\<lparr>gw_queue := snd (flush_delivered stamp key (group_identities c) now wok err wok2 (gw_queue w)),
          gw_flights := jdel key (gw_flights w), gw_log := gw_log w @ [c]\<rparr>"
      using step by (auto split: option.splits simp del: map_of_eq_Some_iff)
    obtain g where g: "jget (gq_groups (gw_queue w)) key = Some g" and ck: "mg_key c = key"
      using w c unfolding sane_def by blast
    have fd: "keyed (gw_queue w') \<and> (k \<noteq> key \<longrightarrow> leaves k (gw_queue w) (gw_queue w'))" for k
      using flush_delivered_leaves [OF q g] by (simp add: w')
    show ?thesis
      by (rule step_leavesI [OF w, where K = "{key}" and ls = "[c]"])
        (use fd c ck in \<open>auto simp: w' simp del: map_of_eq_Some_iff split: if_splits\<close>)
  next
    case (Deliver_fails key err now wok)
    then obtain c where c: "jget (gw_flights w) key = Some c"
      and w': "w' = w\<lparr>gw_queue := snd (flush_failed stamp (the (jget (gq_groups (gw_queue w)) key)) err now wok (gw_queue w)),
          gw_flights := jdel key (gw_flights w)\<rparr>"
      using step by (auto split: option.splits simp del: map_of_eq_Some_iff)
    obtain g where g: "jget (gq_groups (gw_queue w)) key = Some g" using w c unfolding sane_def by blast
    then have "mg_key g = key" using q by (simp add: keyed_def)
    then have ff: "keyed (gw_queue w') \<and> (k \<noteq> key \<longrightarrow> leaves k (gw_queue w) (gw_queue w'))" for k
      using flush_failed_leaves [OF q, of stamp g err now wok k] by (simp add: w' g del: map_of_eq_Some_iff)
    show ?thesis
      by (rule step_leavesI [OF w, where K = "{key}" and ls = "[]"])
        (use ff c in \<open>auto simp: w' simp del: map_of_eq_Some_iff split: if_splits\<close>)
  next
    case (Close_queue now wok)
    define q1 where "q1 = (gw_queue w)\<lparr>gq_timers := []\<rparr>"
    have w': "w' = w\<lparr>gw_queue := q1\<rparr> \<or> w' = w\<lparr>gw_queue := q1\<lparr>gq_disk := Some (snapshot_json (stamp now) q1)\<rparr>\<rparr>"
      using step Close_queue by (cases wok) (simp_all add: close_groups_def persist_groups_def q1_def Let_def)
    then have groups: "gq_groups (gw_queue w') = gq_groups (gw_queue w)" and timers: "gq_timers (gw_queue w') = []"
      and rest: "gw_flights w' = gw_flights w" "gw_log w' = gw_log w" by (auto simp: q1_def)
    have "keyed (gw_queue w')" by (rule iffD2 [OF keyed_cong q]) (simp add: groups)
    moreover have "leaves k (gw_queue w) (gw_queue w')" for k by (rule leaves_same) (simp_all add: groups timers)
    ultimately show ?thesis
      by (intro step_leavesI [OF w, where K = "{}" and ls = "[]"]) (simp_all add: rest)
  qed (use e in simp_all)
qed

lemma keyed_restored: "keyed q \<Longrightarrow>
    keyed (foldl (\<lambda>q g. arm (g\<lparr>mg_status := Group_pending\<rparr>) now (put_group (g\<lparr>mg_status := Group_pending\<rparr>) q)) q gs)"
proof (induction gs arbitrary: q)
  case (Cons g gs)
  have "keyed (arm (g\<lparr>mg_status := Group_pending\<rparr>) now (put_group (g\<lparr>mg_status := Group_pending\<rparr>) q))"
    by (rule iffD2 [OF keyed_cong keyed_put [OF Cons.prems, of "g\<lparr>mg_status := Group_pending\<rparr>"]]) simp
  from Cons.IH [OF this] show ?case by simp
qed simp

lemma keyed_new: "keyed (new_grouping_queue disk now)"
proof -
  have "keyed (\<lparr>gq_groups = [], gq_delivered = ds, gq_timers = [], gq_disk = disk\<rparr>)" for ds by (simp add: keyed_def)
  then show ?thesis
    by (auto simp: new_grouping_queue_def Let_def split: option.split intro!: keyed_restored)
qed

interpretation sane_groups: event_machine "grouping_step stamp" sane "\<lambda>_. True" for stamp
proof unfold_locales
  fix w w' e assume w: "sane w" and step: "grouping_step stamp e w = Some w'"
  show "sane w'"
  proof (cases "\<exists>now. e = Restart now")
    case True
    with step show ?thesis by (auto simp: sane_def keyed_new)
  next
    case False
    with grouping_step_leaves [OF w step] show ?thesis by (auto simp: step_leaves_def)
  qed
qed

definition restarts :: "grouping_event \<Rightarrow> bool" where
  "restarts e \<longleftrightarrow> (case e of Restart _ \<Rightarrow> True | _ \<Rightarrow> False)"

definition log_grows :: "string \<Rightarrow> grouping_world \<Rightarrow> grouping_world \<Rightarrow> bool" where
  "log_grows key w w' \<longleftrightarrow> (\<exists>ls. gw_log w' = gw_log w @ ls \<and> (\<forall>h \<in> set ls. mg_key h \<noteq> key))"

lemma stranded_step:
  assumes "stranded key xs w" and "\<not> restarts e" and "grouping_step stamp e w = Some w'"
  shows "stranded key xs w' \<and> log_grows key w w'"
proof -
  have "e \<noteq> Restart now" for now using assms(2) by (auto simp: restarts_def)
  with grouping_step_leaves [OF _ assms(3)] assms(1) show ?thesis
    unfolding step_leaves_def log_grows_def stranded_def by blast
qed

interpretation stranded_groups:
  tracked_machine "grouping_step stamp" "stranded key xs" "\<lambda>e. \<not> restarts e" "log_grows key" for stamp key xs
proof unfold_locales
  show "log_grows key w w" for w by (simp add: log_grows_def)
  show "log_grows key w w2" if "log_grows key w w1" "log_grows key w1 w2" for w w1 w2
  proof -
    from that obtain ls1 ls2 where 1: "gw_log w1 = gw_log w @ ls1" "\<forall>h \<in> set ls1. mg_key h \<noteq> key"
      and 2: "gw_log w2 = gw_log w1 @ ls2" "\<forall>h \<in> set ls2. mg_key h \<noteq> key" unfolding log_grows_def by blast
    then show ?thesis unfolding log_grows_def by (intro exI [of _ "ls1 @ ls2"]) auto
  qed
qed (use stranded_step in blast)+

text \<open>C35: When the write with which a flush begins fails, and the process goes on after the rejected promise, the group is left
  in delivery with no delivery under way and no timer: until a restart its messages are never
  delivered, even when every later write succeeds.\<close>

theorem failed_write_strands_group:
  assumes run: "grouping_run stamp es new_grouping_world = Some w"
    and g: "jget (gq_groups (gw_queue w)) key = Some g" "mg_status g = Group_pending"
    and fires: "grouping_step stamp (Timer_fires key now False) w = Some w1"
    and later: "grouping_run stamp es2 w1 = Some w2" "list_all (\<lambda>e. \<not> restarts e) es2"
  shows "(\<exists>g2. jget (gq_groups (gw_queue w2)) key = Some g2 \<and> mg_status g2 = Group_delivering \<and>
      set (group_identities g) \<subseteq> set (group_identities g2)) \<and>
    jget (gw_flights w2) key = None \<and> \<not> jhas (gq_timers (gw_queue w2)) key \<and>
    (\<exists>ls. gw_log w2 = gw_log w @ ls \<and> (\<forall>h \<in> set ls. mg_key h \<noteq> key))"
proof -
  have "sane new_grouping_world" by (simp add: sane_def new_grouping_world_def keyed_new)
  with sane_groups.run_keeps [OF run] have w: "sane w" by (simp add: list_all_iff)
  then have key: "mg_key g = key" using g(1) by (simp add: sane_def keyed_def)
  have no_flight: "jget (gw_flights w) key = None"
  proof (rule ccontr)
    assume "jget (gw_flights w) key \<noteq> None"
    then obtain c where "jget (gw_flights w) key = Some c" by blast
    with w obtain h where "jget (gq_groups (gw_queue w)) key = Some h" "mg_status h = Group_delivering"
      unfolding sane_def by blast
    with g show False by simp
  qed
  define g1 where "g1 = g\<lparr>mg_status := Group_delivering, mg_attempts := mg_attempts g + 1, mg_error := None\<rparr>"
  have w1: "w1 = w\<lparr>gw_queue := put_group g1 (disarm key (disarm key (gw_queue w)))\<rparr>"
    using fires g by (simp add: flush_begin_def persist_groups_def Let_def begin_delivery_def g1_def
        split: option.splits if_splits del: map_of_eq_Some_iff)
  have "sane w1" using grouping_step_leaves [OF w fires] by (simp add: step_leaves_def)
  moreover have "mg_key g1 = key" "mg_status g1 = Group_delivering" "group_identities g1 = group_identities g"
    by (simp_all add: g1_def key group_identities_def)
  ultimately have "stranded key (set (group_identities g)) w1"
    using no_flight by (simp add: stranded_def w1 del: map_of_eq_Some_iff)
  from stranded_groups.run_keeps [OF later this] stranded_groups.run_since [OF later this]
  show ?thesis by (auto simp: stranded_def log_grows_def w1)
qed

section \<open>A message that arrives twice\<close>

text \<open>Only the group that a message would join is searched for it. A message that joined the group of a reply while that
  was the one pending group of its sender is accepted again when it is repeated while that group is
  being delivered.\<close>

lemma duplicate_accepted:
  assumes "jget (gq_groups q) k = Some g" and "mg_status g = Group_delivering" and "in_identity i \<in> set (group_identities g)"
    and "in_identity i \<notin> set (gq_delivered q)" and "jget (gq_groups q) (in_key i) = None"
    and "\<forall>h \<in> set (jvals (gq_groups q)). mg_base h = in_base i \<longrightarrow> mg_status h = Group_delivering"
  shows "\<exists>res q'. enqueue_message stamp i now uuid True q = (Inr res, q') \<and> eo_accepted res \<and>
    jget (gq_groups q') k = Some g \<and> (\<exists>g'. jget (gq_groups q') (in_key i) = Some g' \<and> in_identity i \<in> set (group_identities g'))"
proof -
  have "filter (\<lambda>g. mg_base g = in_base i \<and> mg_status g = Group_pending) (jvals (gq_groups q)) = []"
    using assms(6) by (auto simp: filter_empty_conv simp del: map_map)
  then have none: "existing_group i q = None" using assms(5) by (simp add: existing_group_def del: filter_map)
  have "k \<noteq> in_key i" using assms(1,5) by auto
  moreover have "mg_status (add_message i now (new_group i now uuid)) = Group_pending" by (simp add: new_group_def)
  moreover have "mg_key (new_group i now uuid) = in_key i" by (simp add: new_group_def)
  ultimately show ?thesis using assms(1,4)
    by (simp add: enqueue_message_def none Let_def persist_groups_def del: map_of_eq_Some_iff)
qed

section \<open>The properties on concrete runs\<close>

definition chat_input :: "string \<Rightarrow> string option \<Rightarrow> group_input" where
  "chat_input identity reply = \<lparr>in_key = ''b|reply:'' @ (case reply of None \<Rightarrow> ''none'' | Some r \<Rightarrow> r), in_base = ''b'', in_endpoint = ''qq'',
     in_conversation = ''c'', in_sender = ''s'', in_reply = reply, in_identity = identity, in_text = ''hello'',
     in_policy = \<lparr>po_settle = Some 6, po_incomplete = Some 12, po_max = Some 20\<rparr>,
     in_payload = \<lparr>gp_route_kind = ''private'', gp_record = [(''messageId'', JStr identity)], gp_extra = []\<rparr>\<rparr>"

definition chat_run :: "grouping_event list" where
  "chat_run = [Enqueue (chat_input ''m1'' None) 0 ''u1'' True, Timer_fires ''b|reply:none'' 6000 True,
     Enqueue (chat_input ''m2'' None) 6500 ''u2'' True, Deliver_fails ''b|reply:none'' ''offline'' 7000 True, Restart 9000]"

definition chat_world :: grouping_world where
  "chat_world = the (grouping_run int_str chat_run new_grouping_world)"

lemma chat_facts:
  "grouping_run int_str chat_run new_grouping_world = Some chat_world"
  "list_all smooth chat_run" "gw_accepted chat_world = [''m2'', ''m1'']" "gw_log chat_world = []"
  by code_simp+

lemma no_message_lost_witness:
  "\<exists>k g. jget (gq_groups (gw_queue chat_world)) k = Some g \<and> ''m1'' \<in> set (group_identities g) \<and> mg_deadline g \<le> mg_max g"
proof -
  have "''m1'' \<in> set (gw_accepted chat_world)" by (simp add: chat_facts)
  from no_message_lost [OF chat_facts(1,2) this] show ?thesis by (auto simp: chat_facts(4) simp del: map_of_eq_Some_iff)
qed

lemma accepted_message_delivered_witness:
  "\<exists>es' w'. length es' \<le> 3 \<and> list_all own_event es' \<and> grouping_run int_str es' chat_world = Some w' \<and>
     (\<exists>g. g \<in> set (gw_log w') \<and> ''m2'' \<in> set (group_identities g))"
proof -
  have "''m2'' \<in> set (gw_accepted chat_world)" by (simp add: chat_facts)
  from accepted_message_delivered [OF chat_facts(1,2) this] show ?thesis by blast
qed

definition stuck_run :: "grouping_event list" where
  "stuck_run = [Enqueue (chat_input ''m2'' None) 6500 ''u2'' True, Flush_now ''b|reply:none'' 60000 True]"

definition stuck_start :: grouping_world where
  "stuck_start = the (grouping_run int_str [Enqueue (chat_input ''m1'' None) 0 ''u1'' True] new_grouping_world)"

definition stuck_write :: grouping_world where
  "stuck_write = the (grouping_step int_str (Timer_fires ''b|reply:none'' 6000 False) stuck_start)"

definition stuck_end :: grouping_world where
  "stuck_end = the (grouping_run int_str stuck_run stuck_write)"

definition stuck_group :: message_group where
  "stuck_group = the (jget (gq_groups (gw_queue stuck_start)) ''b|reply:none'')"

lemma stuck_facts:
  "grouping_run int_str [Enqueue (chat_input ''m1'' None) 0 ''u1'' True] new_grouping_world = Some stuck_start"
  "jget (gq_groups (gw_queue stuck_start)) ''b|reply:none'' = Some stuck_group" "mg_status stuck_group = Group_pending"
  "grouping_step int_str (Timer_fires ''b|reply:none'' 6000 False) stuck_start = Some stuck_write"
  "grouping_run int_str stuck_run stuck_write = Some stuck_end"
  "list_all (\<lambda>e. \<not> restarts e) stuck_run"
  by code_simp+

lemma failed_write_strands_group_witness:
  "(\<exists>g. jget (gq_groups (gw_queue stuck_end)) ''b|reply:none'' = Some g \<and> mg_status g = Group_delivering) \<and>
   \<not> jhas (gq_timers (gw_queue stuck_end)) ''b|reply:none''"
  using failed_write_strands_group [OF stuck_facts] by blast

text \<open>The message \<open>m1\<close> is delivered twice: with the reply it joined, and alone.\<close>

lemma message_delivered_twice:
  "map_option (\<lambda>w. map group_identities (gw_log w)) (grouping_run int_str
     [Enqueue (chat_input ''m0'' (Some ''7'')) 0 ''u0'' True, Enqueue (chat_input ''m1'' None) 1000 ''u1'' True,
      Timer_fires ''b|reply:7'' 7000 True, Enqueue (chat_input ''m1'' None) 7100 ''u2'' True,
      Deliver_succeeds ''b|reply:7'' 7500 True [] True, Timer_fires ''b|reply:none'' 13100 True,
      Deliver_succeeds ''b|reply:none'' 13500 True [] True] new_grouping_world) = Some [[''m0'', ''m1''], [''m1'']]"
  by code_simp

end
