(* ===== verification/HotPatches.thy ===== *)
theory HotPatches
  imports EventMachines "HOL-Library.Word"
begin

text \<open>
  \<open>src/plugin-kernel/hotPatchRuntime.ts\<close> and \<open>hotPatchResourceStore.ts\<close>: code that is replaced while
  requests run. A runtime publishes revisions; a request holds a lease on the revision it was
  accepted with, and a revision is kept while it is current, previous or leased. Revision objects
  have an identity that the leases, the contexts of the running requests and the runtime share: they
  are kept in a list, and the place of a revision is its \<open>sequence\<close>. The implementations are
  JavaScript functions, a type parameter here. The values in contracts and in migrated states are
  trees whose objects have enumerable data properties only; \<open>V_foreign\<close> is a leaf that both
  traversals refuse (\<open>undefined\<close>, a function, a symbol, an instance of a class, a reference back to
  an ancestor).
\<close>

section \<open>Values\<close>

datatype js_value = V_null | V_bool bool | V_num int | V_not_finite | V_str string | V_foreign
  | V_arr "js_value list" | V_obj "(string \<times> js_value) list"

type_synonym contract = "(string \<times> js_value) list"

fun json_tree :: "js_value \<Rightarrow> bool" where
  "json_tree V_null = True"
| "json_tree (V_bool b) = True"
| "json_tree (V_num n) = True"
| "json_tree V_not_finite = False"
| "json_tree (V_str s) = True"
| "json_tree V_foreign = False"
| "json_tree (V_arr vs) = list_all json_tree vs"
| "json_tree (V_obj ps) = list_all (\<lambda>p. json_tree (snd p)) ps"

text \<open>\<open>isDeepStrictEqual\<close>: the order of the properties does not matter.\<close>

fun deep_equal :: "js_value \<Rightarrow> js_value \<Rightarrow> bool" where
  "deep_equal (V_arr vs) w = (case w of V_arr ws \<Rightarrow> list_all2 deep_equal vs ws | _ \<Rightarrow> False)"
| "deep_equal (V_obj ps) w =
     (case w of V_obj qs \<Rightarrow> length ps = length qs \<and>
        list_all (\<lambda>p. case jget qs (fst p) of None \<Rightarrow> False | Some x \<Rightarrow> deep_equal (snd p) x) ps
      | _ \<Rightarrow> False)"
| "deep_equal v w = (v = w)"

definition deep_equal_opt :: "js_value option \<Rightarrow> js_value option \<Rightarrow> bool" where
  "deep_equal_opt a b = (case (a, b) of (None, None) \<Rightarrow> True | (Some v, Some w) \<Rightarrow> deep_equal v w | _ \<Rightarrow> False)"

section \<open>Errors\<close>

datatype patch_error = Retention_limit_invalid | Revision_conflict | Registration_closed
  | Invalid_symbol string | Unknown_symbol string | Symbol_unavailable nat string
  | Work_outlived_lease | Lease_released | Resource_needs_lease | Resource_not_found string
  | Schema_needs_migration | No_previous | Version_needs_migration | Not_original_owner
  | Needs_no_migration | Not_mutable_state | Schemas_not_distinct | Must_drain_first
  | Migration_threw | Migration_asynchronous | State_changed | State_not_json
  | Closing_in_migration | Retention_limit | No_changes | Runtime_closed | Admission_closed
  | Contract_not_json | Resource_count | Resource_path | Resource_invalid string

section \<open>Resources\<close>

type_synonym byte = "8 word"

record resource =
  rs_sha256 :: string
  rs_base64 :: string

text \<open>\<open>node:crypto\<close> and \<open>Buffer\<close>: the digest of bytes, the digest of the JSON text of the hashes, and
  the two directions of base64.\<close>

record resource_codec =
  rc_digest :: "byte list \<Rightarrow> string"
  rc_digest_hashes :: "(string \<times> string) list \<Rightarrow> string"
  rc_decode :: "string \<Rightarrow> byte list"
  rc_encode :: "byte list \<Rightarrow> string"

record resource_store =
  rt_data :: "(string \<times> resource) list"
  rt_hashes :: "(string \<times> string) list"
  rt_sha256 :: string

fun split_char :: "char \<Rightarrow> string \<Rightarrow> string list" where
  "split_char c [] = [[]]"
| "split_char c (x # xs) =
     (if x = c then [] # split_char c xs
      else case split_char c xs of [] \<Rightarrow> [[x]] | p # ps \<Rightarrow> (x # p) # ps)"

definition valid_resource_path :: "string \<Rightarrow> bool" where
  "valid_resource_path name \<longleftrightarrow>
     js_trim name \<noteq> [] \<and> char_of (92 :: nat) \<notin> set name \<and> CHR '':'' \<notin> set name \<and> char_of (0 :: nat) \<notin> set name \<and>
     \<not> list_ex (\<lambda>part. part = [] \<or> part = ''.'' \<or> part = ''..'') (split_char (CHR ''/'') name)"

definition maximum_files :: int where "maximum_files = 128"
definition maximum_file_bytes :: int where "maximum_file_bytes = 512 * 1024"
definition maximum_total_bytes :: int where "maximum_total_bytes = 2 * 1024 * 1024"

definition resource_entry :: "resource_codec \<Rightarrow> (string \<times> resource) \<Rightarrow> int \<Rightarrow> (patch_error, int) res" where
  "resource_entry codec entry before =
     (let name = fst entry; value = snd entry; bytes = rc_decode codec (rs_base64 value);
          after = before + int (length bytes)
      in if \<not> valid_resource_path name then Inl Resource_path
         else if int (length (rs_base64 value)) > (maximum_file_bytes + 2) div 3 * 4 then Inl (Resource_invalid name)
         else if int (length bytes) > maximum_file_bytes \<or> after > maximum_total_bytes \<or>
           rc_encode codec bytes \<noteq> rs_base64 value \<or> rc_digest codec bytes \<noteq> rs_sha256 value
         then Inl (Resource_invalid name)
         else Inr after)"

definition new_resource_store :: "resource_codec \<Rightarrow> (string \<times> resource) list \<Rightarrow> (patch_error, resource_store) res" where
  "new_resource_store codec input =
     (let entries = js_sort (\<lambda>l r. fst l \<le> fst r) input;
          hashes = map (\<lambda>e. (fst e, rs_sha256 (snd e))) entries
      in if int (length entries) > maximum_files then Inl Resource_count
         else bindr (fold_res (resource_entry codec) entries 0) (\<lambda>_.
           Inr \<lparr>rt_data = entries, rt_hashes = hashes, rt_sha256 = rc_digest_hashes codec hashes\<rparr>))"

definition resource_read :: "resource_codec \<Rightarrow> resource_store \<Rightarrow> string \<Rightarrow> (patch_error, byte list) res" where
  "resource_read codec store name =
     (case jget (rt_data store) name of
        None \<Rightarrow> Inl (Resource_not_found name)
      | Some value \<Rightarrow> Inr (rc_decode codec (rs_base64 value)))"

section \<open>Revisions, leases and the runtime\<close>

record 'f revision =
  rv_state_version :: nat
  rv_implementations :: "(string, 'f) jmap"
  rv_contract :: contract
  rv_resources :: resource_store
  rv_leases :: int

record state_object =
  so_plain :: bool
  so_fields :: "(string \<times> js_value) list"

record patch_lease =
  pl_revision :: nat
  pl_released :: bool

record 'f patch_runtime =
  hp_max :: int
  hp_revisions :: "'f revision list"
  hp_retained :: "nat list"
  hp_current :: nat
  hp_previous :: "nat option"
  hp_closed :: bool
  hp_registration_closed :: bool
  hp_migrating :: bool
  hp_owner :: "nat option"
  hp_leases :: "patch_lease list"
  hp_objects :: "nat \<Rightarrow> state_object"

record 'f candidate =
  cd_base :: nat
  cd_changes :: "(string \<times> 'f option) list"
  cd_contract :: contract
  cd_resources :: "(string \<times> resource) list option"

definition safe_integer :: "int \<Rightarrow> bool" where
  "safe_integer n \<longleftrightarrow> \<bar>n\<bar> \<le> 9007199254740991"

definition freeze_contract :: "contract \<Rightarrow> (patch_error, contract) res" where
  "freeze_contract c = (if json_tree (V_obj c) then Inr c else Inl Contract_not_json)"

definition new_patch_runtime ::
  "resource_codec \<Rightarrow> int \<Rightarrow> contract \<Rightarrow> (string \<times> resource) list \<Rightarrow> (nat \<Rightarrow> state_object) \<Rightarrow>
   (patch_error, 'f patch_runtime) res" where
  "new_patch_runtime codec maximum contract resources objects =
     (if \<not> safe_integer maximum \<or> maximum < 2 then Inl Retention_limit_invalid
      else bindr (freeze_contract contract) (\<lambda>c.
        bindr (new_resource_store codec resources) (\<lambda>store.
          Inr \<lparr>hp_max = maximum,
            hp_revisions = [\<lparr>rv_state_version = 0, rv_implementations = [], rv_contract = c,
              rv_resources = store, rv_leases = 0\<rparr>],
            hp_retained = [0], hp_current = 0, hp_previous = None, hp_closed = False,
            hp_registration_closed = False, hp_migrating = False, hp_owner = None, hp_leases = [],
            hp_objects = objects\<rparr>)))"

abbreviation rev_at :: "'f patch_runtime \<Rightarrow> nat \<Rightarrow> 'f revision" where
  "rev_at rt s \<equiv> hp_revisions rt ! s"

abbreviation current_rev :: "'f patch_runtime \<Rightarrow> 'f revision" where
  "current_rev rt \<equiv> rev_at rt (hp_current rt)"

definition assert_open :: "'f patch_runtime \<Rightarrow> (patch_error, unit) res" where
  "assert_open rt =
     (if hp_closed rt then Inl Runtime_closed
      else if hp_migrating rt then Inl Admission_closed else Inr ())"

definition register_symbol :: "string \<Rightarrow> 'f option \<Rightarrow> 'f patch_runtime \<Rightarrow> (patch_error, 'f patch_runtime) res" where
  "register_symbol i implementation rt =
     bindr (assert_open rt) (\<lambda>_.
       if hp_registration_closed rt \<or> hp_current rt \<noteq> 0 then Inl Registration_closed
       else case implementation of
         None \<Rightarrow> Inl (Invalid_symbol i)
       | Some f \<Rightarrow>
           (let current = current_rev rt in
            if js_trim i = [] \<or> jhas (rv_implementations current) i then Inl (Invalid_symbol i)
            else Inr (rt\<lparr>hp_revisions := (hp_revisions rt)
              [hp_current rt := current\<lparr>rv_implementations := rv_implementations current @ [(i, f)]\<rparr>]\<rparr>)))"

section \<open>Retention\<close>

definition unleased :: "'f patch_runtime \<Rightarrow> nat \<Rightarrow> bool" where
  "unleased rt s \<longleftrightarrow> rv_leases (rev_at rt s) = 0"

definition collect :: "'f patch_runtime \<Rightarrow> 'f patch_runtime" where
  "collect rt = rt\<lparr>hp_retained := filter (\<lambda>s. \<not> (unleased rt s \<and>
     (hp_closed rt \<or> (s \<noteq> hp_current rt \<and> Some s \<noteq> hp_previous rt)))) (hp_retained rt)\<rparr>"

definition add_leases :: "int \<Rightarrow> nat \<Rightarrow> 'f patch_runtime \<Rightarrow> 'f patch_runtime" where
  "add_leases d s rt = rt\<lparr>hp_revisions := (hp_revisions rt)
     [s := (rev_at rt s)\<lparr>rv_leases := rv_leases (rev_at rt s) + d\<rparr>]\<rparr>"

text \<open>The argument is \<open>context.getStore()\<close>: the revision of the request that calls, if one does. The
  result is the place of the new lease.\<close>

definition acquire :: "nat option \<Rightarrow> 'f patch_runtime \<Rightarrow> (patch_error, nat \<times> 'f patch_runtime) res" where
  "acquire ctx rt =
     bindr (case ctx of
         None \<Rightarrow> bindr (assert_open rt) (\<lambda>_. Inr (hp_current rt))
       | Some s \<Rightarrow> if s \<in> set (hp_retained rt) then Inr s else Inl Work_outlived_lease) (\<lambda>s.
       let rt1 = add_leases 1 s (rt\<lparr>hp_registration_closed := True\<rparr>)
       in Inr (length (hp_leases rt1),
            rt1\<lparr>hp_leases := hp_leases rt1 @ [\<lparr>pl_revision = s, pl_released = False\<rparr>]\<rparr>))"

definition lease_run :: "nat \<Rightarrow> 'f patch_runtime \<Rightarrow> (patch_error, nat) res" where
  "lease_run l rt =
     (let lease = hp_leases rt ! l
      in if pl_released lease then Inl Lease_released else Inr (pl_revision lease))"

definition release :: "nat \<Rightarrow> 'f patch_runtime \<Rightarrow> 'f patch_runtime" where
  "release l rt =
     (let lease = hp_leases rt ! l
      in if pl_released lease then rt
         else collect (add_leases (- 1) (pl_revision lease)
                (rt\<lparr>hp_leases := (hp_leases rt)[l := lease\<lparr>pl_released := True\<rparr>]\<rparr>)))"

definition bind_symbol :: "string \<Rightarrow> 'f patch_runtime \<Rightarrow> (patch_error, string) res" where
  "bind_symbol i rt = (if jhas (rv_implementations (current_rev rt)) i then Inr i else Inl (Unknown_symbol i))"

text \<open>A call of a bound function from its start to the call of the implementation, which then runs
  under the lease: the result tells which function runs, and the lease that \<open>retainHotPatchResult\<close>
  releases when the value, the promise or the generator it returns is complete.\<close>

definition bound_call ::
  "nat option \<Rightarrow> string \<Rightarrow> 'f patch_runtime \<Rightarrow> (patch_error, 'f \<times> nat) res \<times> 'f patch_runtime" where
  "bound_call ctx i rt =
     (case acquire ctx rt of
        Inl e \<Rightarrow> (Inl e, rt)
      | Inr (l, rt1) \<Rightarrow>
          (case lease_run l rt1 of
             Inl e \<Rightarrow> (Inl e, release l rt1)
           | Inr s \<Rightarrow>
               (case jget (rv_implementations (rev_at rt1 s)) i of
                  None \<Rightarrow> (Inl (Symbol_unavailable s i), release l rt1)
                | Some f \<Rightarrow> (Inr (f, l), rt1))))"

definition read_resource ::
  "resource_codec \<Rightarrow> nat option \<Rightarrow> string \<Rightarrow> 'f patch_runtime \<Rightarrow> (patch_error, byte list) res" where
  "read_resource codec ctx path rt =
     (case ctx of
        None \<Rightarrow> Inl Resource_needs_lease
      | Some s \<Rightarrow>
          if unleased rt s \<or> s \<notin> set (hp_retained rt) then Inl Resource_needs_lease
          else resource_read codec (rv_resources (rev_at rt s)) path)"

section \<open>Publication\<close>

definition publish ::
  "(string, 'f) jmap \<Rightarrow> contract \<Rightarrow> resource_store \<Rightarrow> nat \<Rightarrow> 'f patch_runtime \<Rightarrow>
   (patch_error, nat) res \<times> 'f patch_runtime" where
  "publish implementations contract resources version rt =
     (let rt1 = collect rt;
          pinned = filter (\<lambda>s. rv_leases (rev_at rt1 s) > 0 \<and> s \<noteq> hp_current rt1) (hp_retained rt1)
      in if int (length pinned) + 2 > hp_max rt1 then (Inl Retention_limit, rt1)
         else
           (let n = Suc (hp_current rt1);
                rt2 = rt1\<lparr>hp_previous := Some (hp_current rt1), hp_current := n,
                  hp_revisions := hp_revisions rt1 @
                    [\<lparr>rv_state_version = version, rv_implementations = implementations,
                      rv_contract = contract, rv_resources = resources, rv_leases = 0\<rparr>],
                  hp_retained := hp_retained rt1 @ [n]\<rparr>
            in (Inr n, collect rt2)))"

fun apply_changes ::
  "(string \<times> 'f option) list \<Rightarrow> string list \<Rightarrow> (string, 'f) jmap \<Rightarrow> (patch_error, (string, 'f) jmap) res" where
  "apply_changes [] seen m = Inr m"
| "apply_changes ((i, implementation) # changes) seen m =
     (case implementation of
        None \<Rightarrow> Inl (Invalid_symbol i)
      | Some f \<Rightarrow>
          if \<not> jhas m i \<or> i \<in> set seen then Inl (Invalid_symbol i)
          else apply_changes changes (i # seen) (jset i f m))"

type_synonym 'f prepared = "(string, 'f) jmap \<times> contract \<times> resource_store"

definition prepare_candidate ::
  "resource_codec \<Rightarrow> 'f candidate \<Rightarrow> bool \<Rightarrow> 'f patch_runtime \<Rightarrow> (patch_error, 'f prepared) res" where
  "prepare_candidate codec cand allow_no_changes rt =
     (if cd_base cand \<noteq> hp_current rt then Inl Revision_conflict
      else bindr (freeze_contract (cd_contract cand)) (\<lambda>contract.
        bindr (case cd_resources cand of
            None \<Rightarrow> Inr (rv_resources (current_rev rt))
          | Some data \<Rightarrow> new_resource_store codec data) (\<lambda>resources.
          if \<not> allow_no_changes \<and> cd_changes cand = [] \<and>
            deep_equal (V_obj contract) (V_obj (rv_contract (current_rev rt))) \<and>
            rt_sha256 resources = rt_sha256 (rv_resources (current_rev rt))
          then Inl No_changes
          else bindr (apply_changes (cd_changes cand) [] (rv_implementations (current_rev rt))) (\<lambda>m.
            Inr (m, contract, resources)))))"

definition validate :: "resource_codec \<Rightarrow> 'f candidate \<Rightarrow> 'f patch_runtime \<Rightarrow> (patch_error, unit) res" where
  "validate codec cand rt =
     bindr (assert_open rt) (\<lambda>_. bindr (prepare_candidate codec cand False rt) (\<lambda>_. Inr ()))"

definition schema_of :: "contract \<Rightarrow> js_value option" where
  "schema_of c = jget c ''stateSchema''"

definition apply_candidate ::
  "resource_codec \<Rightarrow> 'f candidate \<Rightarrow> 'f patch_runtime \<Rightarrow> (patch_error, nat) res \<times> 'f patch_runtime" where
  "apply_candidate codec cand rt =
     (case bindr (assert_open rt) (\<lambda>_. prepare_candidate codec cand False rt) of
        Inl e \<Rightarrow> (Inl e, rt)
      | Inr (m, contract, resources) \<Rightarrow>
          if hp_owner rt \<noteq> None \<and>
            \<not> deep_equal_opt (schema_of contract) (schema_of (rv_contract (current_rev rt)))
          then (Inl Schema_needs_migration, rt)
          else publish m contract resources (rv_state_version (current_rev rt)) rt)"

definition rollback :: "nat \<Rightarrow> 'f patch_runtime \<Rightarrow> (patch_error, nat) res \<times> 'f patch_runtime" where
  "rollback expected rt =
     (case assert_open rt of
        Inl e \<Rightarrow> (Inl e, rt)
      | Inr _ \<Rightarrow>
          if expected \<noteq> hp_current rt then (Inl Revision_conflict, rt)
          else case hp_previous rt of
            None \<Rightarrow> (Inl No_previous, rt)
          | Some p \<Rightarrow>
              if rv_state_version (rev_at rt p) \<noteq> rv_state_version (current_rev rt)
              then (Inl Version_needs_migration, rt)
              else publish (rv_implementations (rev_at rt p)) (rv_contract (rev_at rt p))
                     (rv_resources (rev_at rt p)) (rv_state_version (current_rev rt)) rt)"

section \<open>Migration of the state\<close>

text \<open>A migration is a function of the draft and the two contracts. While it runs it may call back
  into the runtime; the calls that can have an effect are those of a request context, which may
  acquire and release leases that were handed out (every other call is refused). The original state object may be
  changed as well, and the result tells what the function returned.\<close>

datatype nested_call = Nested_acquire "nat option" | Nested_release nat

datatype migration_result = Mig_threw | Mig_promise | Mig_undefined | Mig_value state_object

record migration_run =
  mr_calls :: "nested_call list"
  mr_draft :: state_object
  mr_state :: state_object
  mr_result :: migration_result

type_synonym migration = "state_object \<Rightarrow> contract \<Rightarrow> contract \<Rightarrow> migration_run"

definition clone_state :: "state_object \<Rightarrow> (patch_error, state_object) res" where
  "clone_state v =
     (if \<not> so_plain v then Inl Not_mutable_state
      else if \<not> json_tree (V_obj (so_fields v)) then Inl State_not_json else Inr v)"

definition valid_schema :: "js_value option \<Rightarrow> bool" where
  "valid_schema v =
     (case v of
        Some (V_str s) \<Rightarrow> js_trim s \<noteq> []
      | Some (V_num n) \<Rightarrow> safe_integer n \<and> n \<ge> 0
      | _ \<Rightarrow> False)"

definition nested_step :: "nested_call \<Rightarrow> 'f patch_runtime \<Rightarrow> 'f patch_runtime" where
  "nested_step call rt =
     (case call of
        Nested_acquire ctx \<Rightarrow> (case acquire ctx rt of Inl e \<Rightarrow> rt | Inr (l, rt') \<Rightarrow> rt')
      | Nested_release l \<Rightarrow> if l < length (hp_leases rt) then release l rt else rt)"

definition migrated_value :: "migration_run \<Rightarrow> (patch_error, state_object) res" where
  "migrated_value run =
     (case mr_result run of
        Mig_threw \<Rightarrow> Inl Migration_threw
      | Mig_promise \<Rightarrow> Inl Migration_asynchronous
      | Mig_undefined \<Rightarrow> clone_state (mr_draft run)
      | Mig_value v \<Rightarrow> clone_state v)"

definition finish_migration ::
  "'f prepared \<Rightarrow> nat \<Rightarrow> (patch_error, state_object) res \<Rightarrow> 'f patch_runtime \<Rightarrow>
   (patch_error, nat) res \<times> 'f patch_runtime" where
  "finish_migration prep state migrated rt =
     (case prep of (m, contract, resources) \<Rightarrow>
      (case migrated of
         Inl e \<Rightarrow> (Inl e, rt)
       | Inr replacement \<Rightarrow>
           if \<not> so_plain (hp_objects rt state) then (Inl State_changed, rt)
           else publish m contract resources (Suc (hp_current rt))
             (rt\<lparr>hp_objects := (hp_objects rt)(state := replacement), hp_owner := Some state\<rparr>)))"

definition migrate_and_publish ::
  "'f prepared \<Rightarrow> nat \<Rightarrow> migration option \<Rightarrow> 'f patch_runtime \<Rightarrow>
   (patch_error, nat) res \<times> 'f patch_runtime" where
  "migrate_and_publish prep state migrate rt =
     (let here = rv_contract (current_rev rt); contract = fst (snd prep) in
      case migrate of
        None \<Rightarrow> (Inl Not_mutable_state, rt)
      | Some mig \<Rightarrow>
        if \<not> so_plain (hp_objects rt state) then (Inl Not_mutable_state, rt)
        else if hp_owner rt \<noteq> None \<and> hp_owner rt \<noteq> Some state then (Inl Not_original_owner, rt)
        else if \<not> valid_schema (schema_of here) \<or> \<not> valid_schema (schema_of contract) \<or>
          schema_of here = schema_of contract then (Inl Schemas_not_distinct, rt)
        else if list_ex (\<lambda>s. rv_leases (rev_at rt s) > 0) (hp_retained rt) then (Inl Must_drain_first, rt)
        else case clone_state (hp_objects rt state) of
          Inl e \<Rightarrow> (Inl e, rt)
        | Inr draft \<Rightarrow>
          (let run = mig draft here contract;
               rt1 = foldl (\<lambda>r c. nested_step c r) (rt\<lparr>hp_migrating := True\<rparr>) (mr_calls run);
               rt2 = rt1\<lparr>hp_objects := (hp_objects rt1)(state := mr_state run)\<rparr>
           in case finish_migration prep state (migrated_value run) rt2 of
                (r, rt3) \<Rightarrow> (r, rt3\<lparr>hp_migrating := False\<rparr>)))"

definition apply_with_migration ::
  "resource_codec \<Rightarrow> 'f candidate \<Rightarrow> nat \<Rightarrow> migration option \<Rightarrow> 'f patch_runtime \<Rightarrow>
   (patch_error, nat) res \<times> 'f patch_runtime" where
  "apply_with_migration codec cand state migrate rt =
     (case bindr (assert_open rt) (\<lambda>_. prepare_candidate codec cand True rt) of
        Inl e \<Rightarrow> (Inl e, rt)
      | Inr prep \<Rightarrow> migrate_and_publish prep state migrate rt)"

definition rollback_with_migration ::
  "nat \<Rightarrow> nat \<Rightarrow> migration option \<Rightarrow> 'f patch_runtime \<Rightarrow> (patch_error, nat) res \<times> 'f patch_runtime" where
  "rollback_with_migration expected state migrate rt =
     (case assert_open rt of
        Inl e \<Rightarrow> (Inl e, rt)
      | Inr _ \<Rightarrow>
          (case hp_previous rt of
             None \<Rightarrow> (Inl No_previous, rt)
           | Some p \<Rightarrow>
               if expected \<noteq> hp_current rt then (Inl Revision_conflict, rt)
               else if hp_owner rt \<noteq> Some state then (Inl Not_original_owner, rt)
               else if rv_state_version (rev_at rt p) = rv_state_version (current_rev rt)
               then (Inl Needs_no_migration, rt)
               else migrate_and_publish (rv_implementations (rev_at rt p), rv_contract (rev_at rt p),
                      rv_resources (rev_at rt p)) state migrate rt))"

definition close_runtime :: "'f patch_runtime \<Rightarrow> (patch_error, unit) res \<times> 'f patch_runtime" where
  "close_runtime rt =
     (if hp_migrating rt then (Inl Closing_in_migration, rt)
      else (Inr (), collect (rt\<lparr>hp_closed := True, hp_previous := None\<rparr>)))"

record patch_snapshot =
  sn_revision :: nat
  sn_state_version :: nat
  sn_contract :: contract
  sn_resources_sha256 :: string
  sn_resource_hashes :: "(string \<times> string) list"
  sn_closed :: bool
  sn_symbols :: "string list"
  sn_retained :: "(nat \<times> int) list"

definition snapshot :: "'f patch_runtime \<Rightarrow> patch_snapshot" where
  "snapshot rt =
     (let c = current_rev rt in
      \<lparr>sn_revision = hp_current rt, sn_state_version = rv_state_version c, sn_contract = rv_contract c,
       sn_resources_sha256 = rt_sha256 (rv_resources c), sn_resource_hashes = rt_hashes (rv_resources c),
       sn_closed = hp_closed rt, sn_symbols = sort (jkeys (rv_implementations c)),
       sn_retained = map (\<lambda>s. (s, rv_leases (rev_at rt s))) (hp_retained rt)\<rparr>)"

section \<open>Events\<close>

text \<open>What the program does to a runtime. The context of a call is the revision of a lease that was
  handed out; the owner of a migrated state may change it at any time.\<close>

datatype 'f patch_event = Register string "'f option" | Acquire "nat option" | Release nat
  | Call "nat option" string | Apply "'f candidate" | Apply_migrating "'f candidate" nat "migration option"
  | Roll_back nat | Roll_back_migrating nat nat "migration option" | Close | Change_state nat state_object

definition context_ok :: "nat option \<Rightarrow> 'f patch_runtime \<Rightarrow> bool" where
  "context_ok ctx rt = (case ctx of None \<Rightarrow> True | Some s \<Rightarrow> s \<in> pl_revision ` set (hp_leases rt))"

definition patch_step ::
  "resource_codec \<Rightarrow> 'f patch_event \<Rightarrow> 'f patch_runtime \<Rightarrow> 'f patch_runtime option" where
  "patch_step codec e rt =
     (case e of
        Register i f \<Rightarrow> Some (case register_symbol i f rt of Inl err \<Rightarrow> rt | Inr rt' \<Rightarrow> rt')
      | Acquire ctx \<Rightarrow>
          if context_ok ctx rt then Some (case acquire ctx rt of Inl err \<Rightarrow> rt | Inr (l, rt') \<Rightarrow> rt') else None
      | Release l \<Rightarrow> if l < length (hp_leases rt) then Some (release l rt) else None
      | Call ctx i \<Rightarrow> if context_ok ctx rt then Some (snd (bound_call ctx i rt)) else None
      | Apply cand \<Rightarrow> Some (snd (apply_candidate codec cand rt))
      | Apply_migrating cand state mig \<Rightarrow> Some (snd (apply_with_migration codec cand state mig rt))
      | Roll_back expected \<Rightarrow> Some (snd (rollback expected rt))
      | Roll_back_migrating expected state mig \<Rightarrow> Some (snd (rollback_with_migration expected state mig rt))
      | Close \<Rightarrow> Some (snd (close_runtime rt))
      | Change_state state v \<Rightarrow> Some (rt\<lparr>hp_objects := (hp_objects rt)(state := v)\<rparr>))"

section \<open>The invariant\<close>

definition open_leases :: "'f patch_runtime \<Rightarrow> nat \<Rightarrow> nat" where
  "open_leases rt s = length (filter (\<lambda>l. pl_revision l = s \<and> \<not> pl_released l) (hp_leases rt))"

definition shape_ok :: "'f patch_runtime \<Rightarrow> bool" where
  "shape_ok rt \<longleftrightarrow>
     length (hp_revisions rt) = Suc (hp_current rt) \<and> 3 \<le> hp_max rt \<and>
     (\<forall>s \<in> set (hp_retained rt). s \<le> hp_current rt) \<and>
     (\<forall>l \<in> set (hp_leases rt). pl_revision l \<le> hp_current rt) \<and>
     (\<forall>p. hp_previous rt = Some p \<longrightarrow> p < hp_current rt)"

text \<open>The counters agree with the leases that are held, and what is held is retained.\<close>

definition leases_ok :: "'f patch_runtime \<Rightarrow> bool" where
  "leases_ok rt \<longleftrightarrow>
     (\<forall>s \<le> hp_current rt. rv_leases (rev_at rt s) = int (open_leases rt s)) \<and>
     (\<forall>s. 0 < open_leases rt s \<longrightarrow> s \<in> set (hp_retained rt)) \<and>
     (hp_leases rt \<noteq> [] \<longrightarrow> hp_registration_closed rt)"

text \<open>What a request can still need is retained, in at most the configured number of revisions.\<close>

definition kept_ok :: "'f patch_runtime \<Rightarrow> bool" where
  "kept_ok rt \<longleftrightarrow>
     distinct (hp_retained rt) \<and> int (length (hp_retained rt)) \<le> hp_max rt \<and>
     (\<not> hp_closed rt \<longrightarrow> hp_current rt \<in> set (hp_retained rt) \<and>
        (\<forall>p. hp_previous rt = Some p \<longrightarrow> p \<in> set (hp_retained rt))) \<and>
     (hp_closed rt \<longrightarrow> hp_previous rt = None)"

text \<open>Nothing else is retained.\<close>

definition collected :: "'f patch_runtime \<Rightarrow> bool" where
  "collected rt \<longleftrightarrow> (\<forall>s \<in> set (hp_retained rt).
     0 < open_leases rt s \<or> (\<not> hp_closed rt \<and> (s = hp_current rt \<or> hp_previous rt = Some s)))"

text \<open>The typing of the revisions: every one of them implements the same symbols, under a JSON
  contract.\<close>

definition revision_typed :: "string set \<Rightarrow> 'f revision \<Rightarrow> bool" where
  "revision_typed symbols r \<longleftrightarrow>
     distinct (jkeys (rv_implementations r)) \<and> set (jkeys (rv_implementations r)) = symbols \<and>
     json_tree (V_obj (rv_contract r))"

definition typed_ok :: "'f patch_runtime \<Rightarrow> bool" where
  "typed_ok rt \<longleftrightarrow> (\<forall>s \<le> hp_current rt.
     revision_typed (set (jkeys (rv_implementations (current_rev rt)))) (rev_at rt s) \<and>
     rv_state_version (rev_at rt s) \<le> s)"

text \<open>Once a state was migrated, its schema is that of the current revision, and of the previous one
  if a rollback to that needs no migration.\<close>

definition schema_ok :: "'f patch_runtime \<Rightarrow> bool" where
  "schema_ok rt \<longleftrightarrow> hp_owner rt \<noteq> None \<longrightarrow>
     valid_schema (schema_of (rv_contract (current_rev rt))) \<and>
     (\<forall>p. hp_previous rt = Some p \<and> rv_state_version (rev_at rt p) = rv_state_version (current_rev rt) \<longrightarrow>
        schema_of (rv_contract (rev_at rt p)) = schema_of (rv_contract (current_rev rt)))"

definition patch_base :: "'f patch_runtime \<Rightarrow> bool" where
  "patch_base rt \<longleftrightarrow> shape_ok rt \<and> leases_ok rt \<and> kept_ok rt \<and> collected rt \<and> typed_ok rt"

definition patch_core :: "'f patch_runtime \<Rightarrow> bool" where
  "patch_core rt \<longleftrightarrow> patch_base rt \<and> schema_ok rt"

definition patch_ok :: "'f patch_runtime \<Rightarrow> bool" where
  "patch_ok rt \<longleftrightarrow> patch_core rt \<and> \<not> hp_migrating rt"

lemmas patch_ok_defs = shape_ok_def leases_ok_def kept_ok_def collected_def typed_ok_def schema_ok_def

lemma patch_baseD:
  "patch_base rt \<Longrightarrow> shape_ok rt" "patch_base rt \<Longrightarrow> leases_ok rt" "patch_base rt \<Longrightarrow> kept_ok rt"
  "patch_base rt \<Longrightarrow> collected rt" "patch_base rt \<Longrightarrow> typed_ok rt"
  by (simp_all add: patch_base_def)

lemma patch_coreD:
  "patch_core rt \<Longrightarrow> shape_ok rt" "patch_core rt \<Longrightarrow> leases_ok rt" "patch_core rt \<Longrightarrow> kept_ok rt"
  "patch_core rt \<Longrightarrow> collected rt" "patch_core rt \<Longrightarrow> typed_ok rt" "patch_core rt \<Longrightarrow> schema_ok rt"
  by (simp_all add: patch_core_def patch_base_def)

lemma unleased_open: "shape_ok rt \<Longrightarrow> leases_ok rt \<Longrightarrow> s \<le> hp_current rt \<Longrightarrow> unleased rt s \<longleftrightarrow> open_leases rt s = 0"
  by (simp add: leases_ok_def unleased_def)

lemma collect_simps [simp]:
  "hp_max (collect rt) = hp_max rt" "hp_revisions (collect rt) = hp_revisions rt"
  "hp_current (collect rt) = hp_current rt" "hp_previous (collect rt) = hp_previous rt"
  "hp_closed (collect rt) = hp_closed rt" "hp_registration_closed (collect rt) = hp_registration_closed rt"
  "hp_migrating (collect rt) = hp_migrating rt" "hp_owner (collect rt) = hp_owner rt"
  "hp_leases (collect rt) = hp_leases rt" "hp_objects (collect rt) = hp_objects rt"
  "open_leases (collect rt) = open_leases rt" "unleased (collect rt) = unleased rt"
  by (simp_all add: collect_def open_leases_def unleased_def fun_eq_iff)

lemma set_collect:
  "shape_ok rt \<Longrightarrow> leases_ok rt \<Longrightarrow> s \<in> set (hp_retained (collect rt)) \<longleftrightarrow> s \<in> set (hp_retained rt) \<and>
     (0 < open_leases rt s \<or> (\<not> hp_closed rt \<and> (s = hp_current rt \<or> hp_previous rt = Some s)))"
  by (auto simp: collect_def shape_ok_def unleased_def leases_ok_def)

text \<open>Collecting removes what nobody needs, and does nothing the second time.\<close>

lemma collect_ok:
  assumes "shape_ok rt" "leases_ok rt" "kept_ok rt"
  shows "shape_ok (collect rt)" "leases_ok (collect rt)" "kept_ok (collect rt)" "collected (collect rt)"
    "typed_ok (collect rt) = typed_ok rt" "schema_ok (collect rt) = schema_ok rt"
proof -
  note m = set_collect [OF assms(1,2)]
  show "shape_ok (collect rt)" using assms(1) m by (auto simp: shape_ok_def)
  show "leases_ok (collect rt)" using assms(2) m by (auto simp: leases_ok_def)
  have "length (hp_retained (collect rt)) \<le> length (hp_retained rt)" by (simp add: collect_def)
  moreover have "distinct (hp_retained (collect rt))" using assms(3) by (simp add: collect_def kept_ok_def)
  ultimately show "kept_ok (collect rt)" using assms(3) m unfolding kept_ok_def collect_simps by auto
  show "collected (collect rt)" using m by (simp add: collected_def)
qed (simp_all add: typed_ok_def schema_ok_def)

lemma collect_id: "patch_base rt \<Longrightarrow> collect rt = rt"
proof -
  assume a: "patch_base rt"
  then have "\<forall>s \<in> set (hp_retained rt). s \<in> set (hp_retained (collect rt))"
    using set_collect [of rt] by (auto simp: patch_base_def collected_def)
  then have "hp_retained (collect rt) = hp_retained rt"
    by (auto simp: collect_def intro!: filter_True)
  then show ?thesis by (simp add: collect_def)
qed

section \<open>The operations keep the invariant\<close>

definition same_data :: "'f revision \<Rightarrow> 'f revision \<Rightarrow> bool" where
  "same_data r r' \<longleftrightarrow> rv_state_version r' = rv_state_version r \<and> rv_implementations r' = rv_implementations r \<and>
     rv_contract r' = rv_contract r \<and> rv_resources r' = rv_resources r"

lemma same_dataD:
  "same_data r r' \<Longrightarrow> rv_state_version r' = rv_state_version r" "same_data r r' \<Longrightarrow> rv_implementations r' = rv_implementations r"
  "same_data r r' \<Longrightarrow> rv_contract r' = rv_contract r" "same_data r r' \<Longrightarrow> rv_resources r' = rv_resources r"
  by (auto simp: same_data_def)

lemma same_data_refl [simp]: "same_data r r"
  by (simp add: same_data_def)

lemma same_data_leases [simp]: "same_data r (r\<lparr>rv_leases := n\<rparr>)"
  by (simp add: same_data_def)

lemma same_data_trans: "same_data r r1 \<Longrightarrow> same_data r1 r2 \<Longrightarrow> same_data r r2"
  by (simp add: same_data_def)

text \<open>The leases do not change what a revision is.\<close>

lemma data_cong:
  assumes "hp_current rt' = hp_current rt" "hp_previous rt' = hp_previous rt" "hp_owner rt' = hp_owner rt"
    and "\<And>s. s \<le> hp_current rt \<Longrightarrow> same_data (rev_at rt s) (rev_at rt' s)" and "shape_ok rt"
  shows "typed_ok rt' = typed_ok rt" "schema_ok rt' = schema_ok rt"
proof -
  note d = same_dataD [OF assms(4)]
  show "typed_ok rt' = typed_ok rt"
    using d(1,2,3) by (simp add: typed_ok_def revision_typed_def assms(1))
  have "\<And>p. hp_previous rt = Some p \<Longrightarrow> p \<le> hp_current rt" using assms(5) by (auto simp: shape_ok_def)
  then show "schema_ok rt' = schema_ok rt"
    using d(1,3) by (simp add: schema_ok_def assms(1,2,3) cong: conj_cong)
qed

lemma register_core:
  assumes "patch_core rt" and "register_symbol i f rt = Inr rt'"
  shows "patch_core rt' \<and> hp_migrating rt' = hp_migrating rt"
proof -
  from assms(2) obtain g where g: "\<not> hp_registration_closed rt" "hp_current rt = 0"
    "\<not> jhas (rv_implementations (current_rev rt)) i"
    "rt' = rt\<lparr>hp_revisions := (hp_revisions rt)
       [0 := (rev_at rt 0)\<lparr>rv_implementations := rv_implementations (rev_at rt 0) @ [(i, g)]\<rparr>]\<rparr>"
    by (auto simp: register_symbol_def bindr_def Let_def split: sum.splits if_splits option.splits)
  from assms(1) g(2) obtain r where r: "hp_revisions rt = [r]"
    by (cases "hp_revisions rt") (auto simp: patch_core_def patch_base_def shape_ok_def)
  note parts = patch_coreD [OF assms(1)]
  have "shape_ok rt'" using parts(1) by (simp add: g(4) shape_ok_def)
  moreover have "kept_ok rt'" using parts(3) by (simp add: g(4) kept_ok_def)
  moreover have "collected rt'" using parts(4) by (simp add: g(4) collected_def open_leases_def)
  moreover have "leases_ok rt'" using parts(2) by (simp add: g(4) g(2) r leases_ok_def open_leases_def)
  moreover have "typed_ok rt'"
    using parts(5) g(2,3) by (auto simp: g(4) r typed_ok_def revision_typed_def jhas_def)
  moreover have "schema_ok rt'"
    using parts(1,6) g(2) by (simp add: g(4) r schema_ok_def shape_ok_def)
  ultimately show ?thesis by (simp add: patch_core_def patch_base_def g(4))
qed

lemma acquire_cases:
  assumes "acquire ctx rt = Inr (l, rt')" and "kept_ok rt"
  obtains s where "s \<in> set (hp_retained rt)" and "ctx = None \<Longrightarrow> s = hp_current rt" and "\<And>t. ctx = Some t \<Longrightarrow> s = t"
    and "l = length (hp_leases rt)"
    and "rt' = rt\<lparr>hp_registration_closed := True,
      hp_revisions := (hp_revisions rt)[s := (rev_at rt s)\<lparr>rv_leases := rv_leases (rev_at rt s) + 1\<rparr>],
      hp_leases := hp_leases rt @ [\<lparr>pl_revision = s, pl_released = False\<rparr>]\<rparr>"
  using assms
  by (cases ctx) (auto simp: acquire_def bindr_def assert_open_def kept_ok_def add_leases_def Let_def
      split: if_splits sum.splits)

lemma acquire_core:
  assumes "patch_core rt" and "acquire ctx rt = Inr (l, rt')"
  shows "patch_core rt' \<and> hp_migrating rt' = hp_migrating rt"
proof -
  note parts = patch_coreD [OF assms(1)]
  from assms(2) parts(3) obtain s where s: "s \<in> set (hp_retained rt)"
    and rt': "rt' = rt\<lparr>hp_registration_closed := True,
      hp_revisions := (hp_revisions rt)[s := (rev_at rt s)\<lparr>rv_leases := rv_leases (rev_at rt s) + 1\<rparr>],
      hp_leases := hp_leases rt @ [\<lparr>pl_revision = s, pl_released = False\<rparr>]\<rparr>"
    by (rule acquire_cases)
  have s': "s \<le> hp_current rt" "s < length (hp_revisions rt)"
    using s parts(1) by (auto simp: shape_ok_def)
  have op: "open_leases rt' t = open_leases rt t + (if t = s then 1 else 0)" for t
    by (simp add: rt' open_leases_def)
  have same: "same_data (rev_at rt t) (rev_at rt' t)" for t
    using s' by (simp add: rt' nth_list_update)
  have "shape_ok rt'" using parts(1) s' by (auto simp: rt' shape_ok_def)
  moreover have "kept_ok rt'" using parts(3) by (simp add: rt' kept_ok_def)
  moreover have "collected rt'" using parts(4) op by (simp add: collected_def) (simp add: rt')
  moreover have "leases_ok rt'"
    using parts(2) s s' op by (simp add: leases_ok_def) (auto simp: rt' nth_list_update)
  moreover have "typed_ok rt'" "schema_ok rt'"
    using data_cong [of rt' rt] same parts(1,5,6) by (simp_all add: rt')
  ultimately show ?thesis by (simp add: patch_core_def patch_base_def rt')
qed

lemma open_leases_release:
  assumes "l < length (hp_leases rt)" and "\<not> pl_released (hp_leases rt ! l)"
  shows "open_leases rt t = open_leases (rt\<lparr>hp_leases := (hp_leases rt)[l := (hp_leases rt ! l)\<lparr>pl_released := True\<rparr>]\<rparr>) t +
    (if t = pl_revision (hp_leases rt ! l) then 1 else 0)"
proof -
  let ?P = "\<lambda>x. pl_revision x = t \<and> \<not> pl_released x"
  have e: "hp_leases rt = take l (hp_leases rt) @ hp_leases rt ! l # drop (Suc l) (hp_leases rt)"
    using assms(1) by (rule id_take_nth_drop)
  have "length (filter ?P (hp_leases rt)) =
      length (filter ?P (take l (hp_leases rt))) + (if t = pl_revision (hp_leases rt ! l) then 1 else 0) +
      length (filter ?P (drop (Suc l) (hp_leases rt)))"
    using assms(2) by (subst e) auto
  then show ?thesis using assms(1) by (simp add: open_leases_def upd_conv_take_nth_drop)
qed

lemma release_core:
  assumes "patch_core rt" and l: "l < length (hp_leases rt)"
  shows "patch_core (release l rt) \<and> hp_migrating (release l rt) = hp_migrating rt"
proof (cases "pl_released (hp_leases rt ! l)")
  case True
  then show ?thesis using assms(1) by (simp add: release_def)
next
  case False
  note parts = patch_coreD [OF assms(1)]
  define s where "s = pl_revision (hp_leases rt ! l)"
  define rt1 where "rt1 = add_leases (- 1) s
      (rt\<lparr>hp_leases := (hp_leases rt)[l := (hp_leases rt ! l)\<lparr>pl_released := True\<rparr>]\<rparr>)"
  have rel: "release l rt = collect rt1" using False by (simp add: release_def Let_def rt1_def s_def)
  have s: "s \<le> hp_current rt" using parts(1) l by (auto simp: shape_ok_def s_def)
  have op: "open_leases rt t = open_leases rt1 t + (if t = s then 1 else 0)" for t
    using open_leases_release [OF l False, of t]
    by (simp add: rt1_def s_def add_leases_def open_leases_def)
  have f: "hp_current rt1 = hp_current rt" "hp_previous rt1 = hp_previous rt" "hp_owner rt1 = hp_owner rt"
    "hp_retained rt1 = hp_retained rt" "hp_max rt1 = hp_max rt" "hp_closed rt1 = hp_closed rt"
    "hp_migrating rt1 = hp_migrating rt" "hp_registration_closed rt1 = hp_registration_closed rt"
    by (simp_all add: rt1_def add_leases_def)
  have revs: "hp_revisions rt1 = (hp_revisions rt)[s := (rev_at rt s)\<lparr>rv_leases := rv_leases (rev_at rt s) - 1\<rparr>]"
    by (simp add: rt1_def add_leases_def)
  have sh: "shape_ok rt1"
  proof -
    have "pl_revision x \<le> hp_current rt" if "x \<in> set (hp_leases rt1)" for x
      using that l parts(1) s
      by (auto simp: rt1_def add_leases_def shape_ok_def s_def dest!: set_update_subset_insert [THEN subsetD])
    then show ?thesis using parts(1) by (simp add: shape_ok_def f revs)
  qed
  have le: "leases_ok rt1"
  proof -
    have "rv_leases (rev_at rt1 t) = int (open_leases rt1 t)" if "t \<le> hp_current rt" for t
      using that s parts(1,2) op [of t] by (auto simp: revs nth_list_update leases_ok_def shape_ok_def)
    moreover have "t \<in> set (hp_retained rt)" if "0 < open_leases rt1 t" for t
      using that op [of t] parts(2) by (auto simp: leases_ok_def)
    moreover have "hp_leases rt \<noteq> []" using l by auto
    ultimately show ?thesis using parts(2) by (simp add: leases_ok_def f)
  qed
  have ke: "kept_ok rt1" using parts(3) by (simp add: kept_ok_def f)
  have "same_data (rev_at rt t) (rev_at rt1 t)" if "t \<le> hp_current rt" for t
    using that s parts(1) by (simp add: revs nth_list_update shape_ok_def)
  then have "typed_ok rt1" "schema_ok rt1"
    using data_cong [of rt1 rt] parts(1,5,6) by (simp_all add: f)
  then show ?thesis
    using collect_ok [OF sh le ke] by (simp add: rel patch_core_def patch_base_def f)
qed

text \<open>What publishing does to a collected runtime. The new revision satisfies what the invariant asks
  of its data.\<close>

definition pinned_count :: "'f patch_runtime \<Rightarrow> int" where
  "pinned_count rt = int (length (filter (\<lambda>s. rv_leases (rev_at rt s) > 0 \<and> s \<noteq> hp_current rt) (hp_retained rt)))"

definition published ::
  "(string, 'f) jmap \<Rightarrow> contract \<Rightarrow> resource_store \<Rightarrow> nat \<Rightarrow> 'f patch_runtime \<Rightarrow> 'f patch_runtime" where
  "published m c res v rt = collect (rt\<lparr>hp_previous := Some (hp_current rt), hp_current := Suc (hp_current rt),
     hp_revisions := hp_revisions rt @ [\<lparr>rv_state_version = v, rv_implementations = m,
       rv_contract = c, rv_resources = res, rv_leases = 0\<rparr>],
     hp_retained := hp_retained rt @ [Suc (hp_current rt)]\<rparr>)"

lemma publish_eq:
  "patch_base rt \<Longrightarrow> publish m c res v rt =
    (if pinned_count rt + 2 > hp_max rt then (Inl Retention_limit, rt)
     else (Inr (Suc (hp_current rt)), published m c res v rt))"
  by (simp add: publish_def collect_id Let_def pinned_count_def published_def)

lemma length_filter_le_pinned:
  assumes "distinct xs"
  shows "length (filter (\<lambda>s. P s \<or> s = c) xs) \<le> Suc (length (filter (\<lambda>s. P s \<and> s \<noteq> c) xs))"
proof -
  have "length (filter (\<lambda>s. P s \<or> s = c) xs) \<le> length (filter (\<lambda>s. P s \<and> s \<noteq> c) xs) + length (filter (\<lambda>s. s = c) xs)"
    by (induction xs) auto
  moreover have "length (filter (\<lambda>s. s = c) xs) \<le> 1"
    using assms by (induction xs) (auto simp: filter_empty_conv)
  ultimately show ?thesis by simp
qed

lemma published_core:
  assumes ok: "patch_base rt" and open_rt: "\<not> hp_closed rt" and room: "pinned_count rt + 2 \<le> hp_max rt"
    and typed: "revision_typed (set (jkeys (rv_implementations (current_rev rt))))
      \<lparr>rv_state_version = v, rv_implementations = m, rv_contract = c, rv_resources = res, rv_leases = 0\<rparr>"
    and version: "v \<le> Suc (hp_current rt)"
    and schema: "hp_owner rt \<noteq> None \<Longrightarrow> valid_schema (schema_of c) \<and>
      (v = rv_state_version (current_rev rt) \<longrightarrow> schema_of (rv_contract (current_rev rt)) = schema_of c)"
  shows "patch_core (published m c res v rt)"
proof -
  note parts = patch_baseD [OF ok]
  let ?r = "\<lparr>rv_state_version = v, rv_implementations = m, rv_contract = c, rv_resources = res, rv_leases = 0\<rparr>"
  let ?c = "hp_current rt"
  define rt1 where "rt1 = rt\<lparr>hp_previous := Some ?c, hp_current := Suc ?c, hp_revisions := hp_revisions rt @ [?r],
     hp_retained := hp_retained rt @ [Suc ?c]\<rparr>"
  have f: "hp_current rt1 = Suc ?c" "hp_previous rt1 = Some ?c" "hp_owner rt1 = hp_owner rt"
    "hp_retained rt1 = hp_retained rt @ [Suc ?c]" "hp_max rt1 = hp_max rt" "hp_closed rt1 = False"
    "hp_leases rt1 = hp_leases rt" "hp_registration_closed rt1 = hp_registration_closed rt"
    using open_rt by (simp_all add: rt1_def)
  have op: "open_leases rt1 = open_leases rt" by (simp add: fun_eq_iff open_leases_def f)
  have len: "length (hp_revisions rt) = Suc ?c" using parts(1) by (simp add: shape_ok_def)
  have old: "rev_at rt1 s = rev_at rt s" if "s \<le> ?c" for s using that len by (simp add: rt1_def nth_append)
  have new: "rev_at rt1 (Suc ?c) = ?r" using len by (simp add: rt1_def nth_append)
  have fresh: "Suc ?c \<notin> set (hp_retained rt)" using parts(1) by (auto simp: shape_ok_def)
  then have none: "open_leases rt (Suc ?c) = 0" using parts(2) by (auto simp: leases_ok_def)
  have sh: "shape_ok rt1"
    using parts(1) by (auto simp: shape_ok_def f) (simp add: rt1_def)
  have "rv_leases (rev_at rt1 s) = int (open_leases rt s)" if "s \<le> Suc ?c" for s
    using that parts(2) none old [of s] new by (cases "s = Suc ?c") (simp_all add: leases_ok_def)
  then have le: "leases_ok rt1" using parts(2) by (simp add: leases_ok_def f op)
  have d: "distinct (hp_retained rt1)" "Suc ?c \<in> set (hp_retained rt1)" "?c \<in> set (hp_retained rt1)"
    using parts(3) fresh open_rt by (auto simp: kept_ok_def f)
  have ret: "hp_retained (collect rt1) = filter (\<lambda>s. rv_leases (rev_at rt s) > 0 \<or> s = ?c) (hp_retained rt) @ [Suc ?c]"
  proof -
    have "\<not> (unleased rt1 s \<and> (s \<noteq> Suc ?c \<and> s \<noteq> ?c)) \<longleftrightarrow> rv_leases (rev_at rt s) > 0 \<or> s = ?c"
      if "s \<in> set (hp_retained rt)" for s
    proof -
      from that have "s \<le> ?c" using parts(1) by (auto simp: shape_ok_def)
      with that parts(2) old show ?thesis by (auto simp: unleased_def leases_ok_def)
    qed
    then show ?thesis by (simp add: collect_def f cong: filter_cong)
  qed
  have di: "distinct (hp_retained rt)" using parts(3) by (simp add: kept_ok_def)
  have "int (length (hp_retained (collect rt1))) \<le> hp_max rt"
    using length_filter_le_pinned [OF di, of "\<lambda>s. rv_leases (rev_at rt s) > 0" ?c] room
    by (simp add: ret pinned_count_def)
  then have ke: "kept_ok (collect rt1)"
    using di fresh parts(3) open_rt by (simp add: kept_ok_def f ret distinct_filter)
  have co: "shape_ok (collect rt1)" "leases_ok (collect rt1)" "collected (collect rt1)"
    using sh le set_collect [OF sh le] by (auto simp: shape_ok_def leases_ok_def collected_def)
  have sy: "set (jkeys m) = set (jkeys (rv_implementations (current_rev rt)))"
    using typed by (simp add: revision_typed_def)
  have "revision_typed (set (jkeys m)) (rev_at rt1 s) \<and> rv_state_version (rev_at rt1 s) \<le> s"
    if "s \<le> Suc ?c" for s
  proof (cases "s = Suc ?c")
    case True
    then show ?thesis using typed version new sy by simp
  next
    case False
    with that have "s \<le> ?c" by simp
    then show ?thesis using parts(5) old [of s] sy by (simp add: typed_ok_def)
  qed
  then have "typed_ok rt1" using new by (simp add: typed_ok_def f)
  moreover have "schema_ok rt1"
    using schema old [of ?c] new by (auto simp: schema_ok_def f)
  ultimately show ?thesis
    using ke co by (simp add: published_def rt1_def [symmetric] patch_core_def patch_base_def typed_ok_def schema_ok_def)
qed

lemma apply_changes_keys:
  assumes "apply_changes changes seen m = Inr m'" and "distinct (jkeys m)"
  shows "distinct (jkeys m')" and "set (jkeys m') = set (jkeys m)"
proof -
  have "distinct (jkeys m') \<and> set (jkeys m') = set (jkeys m)"
    using assms
  proof (induction changes seen m rule: apply_changes.induct)
    case (2 i f changes seen m)
    then obtain g where g: "f = Some g" "jhas m i" "apply_changes changes (i # seen) (jset i g m) = Inr m'"
      "i \<notin> set seen"
      by (auto split: option.splits if_splits)
    have "distinct (jkeys m') \<and> set (jkeys m') = set (jkeys (jset i g m))"
      using 2(1) [OF g(1)] g 2(3) by (simp add: distinct_jset)
    moreover have "set (jkeys (jset i g m)) = set (jkeys m)"
      using g(2) by (auto simp: fst_set_jset jhas_def)
    ultimately show ?case by simp
  qed simp
  then show "distinct (jkeys m')" "set (jkeys m') = set (jkeys m)" by auto
qed

definition prepared_for :: "'f patch_runtime \<Rightarrow> 'f prepared \<Rightarrow> bool" where
  "prepared_for rt prep \<longleftrightarrow> (case prep of (m, c, res) \<Rightarrow>
     distinct (jkeys m) \<and> set (jkeys m) = set (jkeys (rv_implementations (current_rev rt))) \<and> json_tree (V_obj c))"

lemma prepare_typed:
  assumes "prepare_candidate codec cand b rt = Inr prep" and "typed_ok rt"
  shows "prepared_for rt prep"
proof -
  obtain m c res where p: "prep = (m, c, res)" by (cases prep)
  from assms(1) have "json_tree (V_obj c)" and "apply_changes (cd_changes cand) [] (rv_implementations (current_rev rt)) = Inr m"
    by (auto simp: prepare_candidate_def p freeze_contract_def Let_def bindr_def split: sum.splits if_splits)
  moreover have d: "distinct (jkeys (rv_implementations (current_rev rt)))"
    using assms(2) by (simp add: typed_ok_def revision_typed_def)
  ultimately show ?thesis using apply_changes_keys [OF _ d] by (simp only: prepared_for_def p prod.case)
qed

lemma prepared_for_revision: "patch_core rt \<Longrightarrow> hp_previous rt = Some p \<Longrightarrow>
    prepared_for rt (rv_implementations (rev_at rt p), rv_contract (rev_at rt p), rv_resources (rev_at rt p))"
proof -
  assume a: "patch_core rt" "hp_previous rt = Some p"
  then have "p \<le> hp_current rt" using patch_coreD(1) [OF a(1)] by (auto simp: shape_ok_def)
  with patch_coreD(5) [OF a(1)] have "revision_typed (set (jkeys (rv_implementations (current_rev rt)))) (rev_at rt p)"
    by (simp add: typed_ok_def)
  then show ?thesis by (simp add: prepared_for_def revision_typed_def)
qed

lemma prepared_typed: "prepared_for rt (m, c, res) \<Longrightarrow>
    revision_typed (set (jkeys (rv_implementations (current_rev rt))))
      \<lparr>rv_state_version = v, rv_implementations = m, rv_contract = c, rv_resources = res, rv_leases = 0\<rparr>"
  by (simp add: prepared_for_def revision_typed_def)

text \<open>A call that publishes leaves the runtime as it was, or publishes.\<close>

definition publishes ::
  "(patch_error, nat) res \<Rightarrow> 'f prepared \<Rightarrow> nat \<Rightarrow> 'f patch_runtime \<Rightarrow> 'f patch_runtime \<Rightarrow> bool" where
  "publishes r prep v rt rt' \<longleftrightarrow> (case prep of (m, c, res) \<Rightarrow>
     prepared_for rt prep \<and> \<not> hp_closed rt \<and> pinned_count rt + 2 \<le> hp_max rt \<and>
     r = Inr (Suc (hp_current rt)) \<and> rt' = published m c res v rt)"

lemma publish_cases:
  assumes "patch_base rt" and "prepared_for rt (m, c, res)" and "\<not> hp_closed rt"
  shows "(\<exists>e. publish m c res v rt = (Inl e, rt)) \<or>
    publishes (fst (publish m c res v rt)) (m, c, res) v rt (snd (publish m c res v rt))"
  using assms by (auto simp: publish_eq publishes_def)

lemma deep_equal_scalar: "valid_schema w \<Longrightarrow> deep_equal_opt v w \<Longrightarrow> v = w"
  by (cases v; cases w) (auto simp: deep_equal_opt_def valid_schema_def split: js_value.splits elim: deep_equal.elims)

lemma apply_cases:
  assumes "patch_core rt"
  shows "(\<exists>e. apply_candidate codec cand rt = (Inl e, rt)) \<or>
    (\<exists>m c res. prepare_candidate codec cand False rt = Inr (m, c, res) \<and> \<not> hp_migrating rt \<and>
       publishes (fst (apply_candidate codec cand rt)) (m, c, res) (rv_state_version (current_rev rt)) rt
         (snd (apply_candidate codec cand rt)) \<and>
       (hp_owner rt \<noteq> None \<longrightarrow> schema_of c = schema_of (rv_contract (current_rev rt))))"
proof (cases "bindr (assert_open rt) (\<lambda>_. prepare_candidate codec cand False rt)")
  case (Inl e)
  then show ?thesis by (simp add: apply_candidate_def)
next
  case (Inr prep)
  obtain m c res where p: "prep = (m, c, res)" by (cases prep)
  from Inr have o: "\<not> hp_closed rt" "\<not> hp_migrating rt" and pr: "prepare_candidate codec cand False rt = Inr (m, c, res)"
    by (auto simp: bindr_def assert_open_def p split: sum.splits if_splits)
  have pf: "prepared_for rt (m, c, res)" using pr assms by (auto intro: prepare_typed simp: patch_core_def patch_base_def)
  have base: "patch_base rt" using assms by (simp add: patch_core_def)
  show ?thesis
  proof (cases "hp_owner rt \<noteq> None \<and> \<not> deep_equal_opt (schema_of c) (schema_of (rv_contract (current_rev rt)))")
    case True
    then show ?thesis using Inr by (simp add: apply_candidate_def p)
  next
    case False
    then have e: "apply_candidate codec cand rt = publish m c res (rv_state_version (current_rev rt)) rt"
      unfolding apply_candidate_def Inr p sum.case prod.case by (rule if_not_P)
    have "hp_owner rt \<noteq> None \<Longrightarrow> schema_of c = schema_of (rv_contract (current_rev rt))"
      using False assms deep_equal_scalar by (auto simp: patch_core_def schema_ok_def)
    then show ?thesis
      using publish_cases [OF base pf o(1), of "rv_state_version (current_rev rt)"] pr o(2) e by auto
  qed
qed

lemma rollback_cases:
  assumes "patch_core rt"
  shows "(\<exists>e. rollback expected rt = (Inl e, rt)) \<or>
    (\<exists>p. hp_previous rt = Some p \<and> expected = hp_current rt \<and>
       rv_state_version (rev_at rt p) = rv_state_version (current_rev rt) \<and>
       publishes (fst (rollback expected rt))
         (rv_implementations (rev_at rt p), rv_contract (rev_at rt p), rv_resources (rev_at rt p))
         (rv_state_version (current_rev rt)) rt (snd (rollback expected rt)))"
proof (cases "assert_open rt = Inr () \<and> expected = hp_current rt \<and> hp_previous rt \<noteq> None")
  case False
  then show ?thesis by (auto simp: rollback_def split: sum.split option.split)
next
  case True
  then obtain p where p: "hp_previous rt = Some p" by auto
  from True have o: "\<not> hp_closed rt" by (auto simp: assert_open_def split: if_splits)
  have base: "patch_base rt" using assms by (simp add: patch_core_def)
  show ?thesis
    using publish_cases [OF base prepared_for_revision [OF assms p] o, of "rv_state_version (current_rev rt)"] True p
    by (auto simp: rollback_def)
qed

lemma publishes_core:
  assumes "patch_base rt" and "publishes r (m, c, res) v rt rt'" and "v \<le> Suc (hp_current rt)"
    and "hp_owner rt \<noteq> None \<Longrightarrow> valid_schema (schema_of c) \<and>
      (v = rv_state_version (current_rev rt) \<longrightarrow> schema_of (rv_contract (current_rev rt)) = schema_of c)"
  shows "patch_core rt' \<and> hp_migrating rt' = hp_migrating rt"
proof -
  have p: "prepared_for rt (m, c, res)" "\<not> hp_closed rt" "pinned_count rt + 2 \<le> hp_max rt"
    "rt' = published m c res v rt"
    using assms(2) by (simp_all add: publishes_def)
  have "patch_core (published m c res v rt)"
    by (rule published_core [OF assms(1) p(2,3) prepared_typed [OF p(1)] assms(3)]) (use assms(4) in simp_all)
  then show ?thesis by (simp add: p(4) published_def)
qed

lemma current_version_le: "patch_core rt \<Longrightarrow> rv_state_version (current_rev rt) \<le> Suc (hp_current rt)"
proof -
  assume "patch_core rt"
  then have "rv_state_version (current_rev rt) \<le> hp_current rt" by (auto simp: patch_core_def patch_base_def typed_ok_def)
  then show ?thesis by simp
qed

lemma apply_core:
  assumes "patch_core rt"
  shows "patch_core (snd (apply_candidate codec cand rt)) \<and>
    hp_migrating (snd (apply_candidate codec cand rt)) = hp_migrating rt"
  using apply_cases [OF assms, of codec cand]
proof (elim disjE exE conjE)
  fix m c res
  assume p: "publishes (fst (apply_candidate codec cand rt)) (m, c, res) (rv_state_version (current_rev rt)) rt
      (snd (apply_candidate codec cand rt))"
    and s: "hp_owner rt \<noteq> None \<longrightarrow> schema_of c = schema_of (rv_contract (current_rev rt))"
  show ?thesis
    by (rule publishes_core [OF _ p]) (use assms s current_version_le in \<open>auto simp: patch_core_def schema_ok_def\<close>)
qed (use assms in simp)

lemma rollback_core:
  assumes "patch_core rt"
  shows "patch_core (snd (rollback expected rt)) \<and> hp_migrating (snd (rollback expected rt)) = hp_migrating rt"
  using rollback_cases [OF assms, of expected]
proof (elim disjE exE conjE)
  fix p
  assume p: "hp_previous rt = Some p" "rv_state_version (rev_at rt p) = rv_state_version (current_rev rt)"
    and u: "publishes (fst (rollback expected rt))
         (rv_implementations (rev_at rt p), rv_contract (rev_at rt p), rv_resources (rev_at rt p))
         (rv_state_version (current_rev rt)) rt (snd (rollback expected rt))"
  show ?thesis
    by (rule publishes_core [OF _ u]) (use assms p current_version_le in \<open>auto simp: patch_core_def schema_ok_def\<close>)
qed (use assms in simp)

text \<open>What acquiring and releasing leases can change.\<close>

definition revisions_kept :: "'f revision list \<Rightarrow> 'f revision list \<Rightarrow> bool" where
  "revisions_kept rs rs' \<longleftrightarrow> length rs \<le> length rs' \<and> (\<forall>s < length rs. same_data (rs ! s) (rs' ! s))"

definition leases_kept :: "patch_lease list \<Rightarrow> patch_lease list \<Rightarrow> bool" where
  "leases_kept ls ls' \<longleftrightarrow> length ls \<le> length ls' \<and>
     (\<forall>l < length ls. pl_revision (ls' ! l) = pl_revision (ls ! l) \<and> (pl_released (ls ! l) \<longrightarrow> pl_released (ls' ! l)))"

lemma kept_refl [simp]: "revisions_kept rs rs" "leases_kept ls ls"
  by (simp_all add: revisions_kept_def leases_kept_def)

lemma revisions_kept_trans: "revisions_kept a b \<Longrightarrow> revisions_kept b c \<Longrightarrow> revisions_kept a c"
  unfolding revisions_kept_def using same_data_trans by (meson order_less_le_trans order_trans)

lemma leases_kept_trans: "leases_kept a b \<Longrightarrow> leases_kept b c \<Longrightarrow> leases_kept a c"
  unfolding leases_kept_def by simp

lemma revisions_kept_update: "revisions_kept rs (rs[s := (rs ! s)\<lparr>rv_leases := n\<rparr>])"
proof -
  have "same_data (rs ! t) (rs[s := (rs ! s)\<lparr>rv_leases := n\<rparr>] ! t)" if "t < length rs" for t
    using that by (cases "t = s") simp_all
  then show ?thesis by (simp add: revisions_kept_def)
qed

lemma leases_kept_append: "leases_kept ls (ls @ [x])"
  by (simp add: leases_kept_def nth_append)

lemma leases_kept_release: "leases_kept ls (ls[l := (ls ! l)\<lparr>pl_released := True\<rparr>])"
proof -
  have "pl_revision (ls[l := (ls ! l)\<lparr>pl_released := True\<rparr>] ! k) = pl_revision (ls ! k) \<and>
      (pl_released (ls ! k) \<longrightarrow> pl_released (ls[l := (ls ! l)\<lparr>pl_released := True\<rparr>] ! k))" if "k < length ls" for k
    using that by (cases "k = l") simp_all
  then show ?thesis by (simp add: leases_kept_def)
qed

definition same_publication :: "'f patch_runtime \<Rightarrow> 'f patch_runtime \<Rightarrow> bool" where
  "same_publication rt rt' \<longleftrightarrow>
     hp_max rt' = hp_max rt \<and> hp_current rt' = hp_current rt \<and> hp_previous rt' = hp_previous rt \<and>
     hp_closed rt' = hp_closed rt \<and> hp_migrating rt' = hp_migrating rt \<and> hp_owner rt' = hp_owner rt \<and>
     hp_objects rt' = hp_objects rt \<and> length (hp_revisions rt') = length (hp_revisions rt)"

definition leases_only :: "'f patch_runtime \<Rightarrow> 'f patch_runtime \<Rightarrow> bool" where
  "leases_only rt rt' \<longleftrightarrow>
     same_publication rt rt' \<and> (hp_registration_closed rt \<longrightarrow> hp_registration_closed rt') \<and>
     set (hp_retained rt') \<subseteq> set (hp_retained rt) \<and>
     revisions_kept (hp_revisions rt) (hp_revisions rt') \<and> leases_kept (hp_leases rt) (hp_leases rt')"

lemma leases_only_refl [simp]: "leases_only rt rt"
  by (simp add: leases_only_def same_publication_def)

lemma leases_only_trans: "leases_only rt rt1 \<Longrightarrow> leases_only rt1 rt2 \<Longrightarrow> leases_only rt rt2"
proof -
  assume a: "leases_only rt rt1" "leases_only rt1 rt2"
  then have "same_publication rt rt2" by (simp add: leases_only_def same_publication_def)
  with a show ?thesis using revisions_kept_trans leases_kept_trans unfolding leases_only_def by blast
qed

lemma acquire_leases_only:
  assumes "patch_core rt" "acquire ctx rt = Inr (l, rt')"
  shows "leases_only rt rt' \<and> l = length (hp_leases rt) \<and> length (hp_leases rt') = Suc l"
  using assms(2) patch_coreD(3) [OF assms(1)]
proof (rule acquire_cases)
  fix s
  assume rt': "rt' = rt\<lparr>hp_registration_closed := True,
      hp_revisions := (hp_revisions rt)[s := (rev_at rt s)\<lparr>rv_leases := rv_leases (rev_at rt s) + 1\<rparr>],
      hp_leases := hp_leases rt @ [\<lparr>pl_revision = s, pl_released = False\<rparr>]\<rparr>"
    and l: "l = length (hp_leases rt)"
  show ?thesis
    by (simp add: leases_only_def same_publication_def rt' l revisions_kept_update leases_kept_append)
qed

lemma release_leases_only:
  assumes l: "l < length (hp_leases rt)"
  shows "leases_only rt (release l rt)" "length (hp_leases (release l rt)) = length (hp_leases rt)"
proof -
  have "leases_only rt (release l rt) \<and> length (hp_leases (release l rt)) = length (hp_leases rt)"
  proof (cases "pl_released (hp_leases rt ! l)")
    case False
    have "set (hp_retained (release l rt)) \<subseteq> set (hp_retained rt)"
      using False by (auto simp: release_def Let_def add_leases_def collect_def)
    then show ?thesis using False
      by (simp add: leases_only_def same_publication_def release_def Let_def add_leases_def
          revisions_kept_update leases_kept_release)
  qed (simp add: release_def)
  then show "leases_only rt (release l rt)" "length (hp_leases (release l rt)) = length (hp_leases rt)" by auto
qed

lemma nested_step_core:
  assumes "patch_core rt"
  shows "patch_core (nested_step call rt) \<and> leases_only rt (nested_step call rt)"
proof (cases call)
  case (Nested_acquire ctx)
  show ?thesis
  proof (cases "acquire ctx rt")
    case (Inr p)
    then obtain l rt' where a: "acquire ctx rt = Inr (l, rt')" by (cases p) auto
    then show ?thesis using acquire_core [OF assms a] acquire_leases_only [OF assms a]
      by (simp add: nested_step_def Nested_acquire)
  qed (simp add: nested_step_def Nested_acquire assms)
next
  case (Nested_release l)
  then show ?thesis using release_core [OF assms] release_leases_only [of l rt] assms
    by (simp add: nested_step_def)
qed

lemma nested_steps_core:
  "patch_core rt \<Longrightarrow> patch_core (foldl (\<lambda>r c. nested_step c r) rt calls) \<and>
     leases_only rt (foldl (\<lambda>r c. nested_step c r) rt calls)"
proof (induction calls arbitrary: rt)
  case (Cons c calls)
  note s = nested_step_core [OF Cons.prems, of c]
  then show ?case using Cons.IH [of "nested_step c rt"] leases_only_trans [of rt "nested_step c rt"] by simp
qed simp

lemma patch_fields_irrelevant [simp]:
  "open_leases (rt\<lparr>hp_migrating := b\<rparr>) = open_leases rt" "open_leases (rt\<lparr>hp_objects := f\<rparr>) = open_leases rt"
  "open_leases (rt\<lparr>hp_owner := w\<rparr>) = open_leases rt"
  by (simp_all add: fun_eq_iff open_leases_def)

text \<open>The parts of the invariant do not look at the fields below.\<close>

lemma shape_ok_fields [simp]:
  "shape_ok (rt\<lparr>hp_migrating := b\<rparr>) = shape_ok rt"
  "shape_ok (rt\<lparr>hp_objects := f\<rparr>) = shape_ok rt"
  "shape_ok (rt\<lparr>hp_owner := w\<rparr>) = shape_ok rt"
  by (simp_all add: shape_ok_def)

lemma leases_ok_fields [simp]:
  "leases_ok (rt\<lparr>hp_migrating := b\<rparr>) = leases_ok rt"
  "leases_ok (rt\<lparr>hp_objects := f\<rparr>) = leases_ok rt"
  "leases_ok (rt\<lparr>hp_owner := w\<rparr>) = leases_ok rt"
  by (simp_all add: leases_ok_def)

lemma kept_ok_fields [simp]:
  "kept_ok (rt\<lparr>hp_migrating := b\<rparr>) = kept_ok rt"
  "kept_ok (rt\<lparr>hp_objects := f\<rparr>) = kept_ok rt"
  "kept_ok (rt\<lparr>hp_owner := w\<rparr>) = kept_ok rt"
  by (simp_all add: kept_ok_def)

lemma collected_fields [simp]:
  "collected (rt\<lparr>hp_migrating := b\<rparr>) = collected rt"
  "collected (rt\<lparr>hp_objects := f\<rparr>) = collected rt"
  "collected (rt\<lparr>hp_owner := w\<rparr>) = collected rt"
  by (simp_all add: collected_def)

lemma typed_ok_fields [simp]:
  "typed_ok (rt\<lparr>hp_migrating := b\<rparr>) = typed_ok rt"
  "typed_ok (rt\<lparr>hp_objects := f\<rparr>) = typed_ok rt"
  "typed_ok (rt\<lparr>hp_owner := w\<rparr>) = typed_ok rt"
  by (simp_all add: typed_ok_def)

lemma schema_ok_fields [simp]:
  "schema_ok (rt\<lparr>hp_migrating := b\<rparr>) = schema_ok rt"
  "schema_ok (rt\<lparr>hp_objects := f\<rparr>) = schema_ok rt"
  by (simp_all add: schema_ok_def)

lemma patch_base_fields [simp]:
  "patch_base (rt\<lparr>hp_migrating := b\<rparr>) = patch_base rt" "patch_base (rt\<lparr>hp_objects := f\<rparr>) = patch_base rt"
  "patch_base (rt\<lparr>hp_owner := w\<rparr>) = patch_base rt"
  by (simp_all add: patch_base_def)

lemma patch_core_fields [simp]:
  "patch_core (rt\<lparr>hp_migrating := b\<rparr>) = patch_core rt" "patch_core (rt\<lparr>hp_objects := f\<rparr>) = patch_core rt"
  by (simp_all add: patch_core_def)

lemma finite_set_of_option: "finite (set_option x)"
  by (cases x) auto

text \<open>Only the previous revision can be pinned when a migration starts drained.\<close>

lemma drained_pinned:
  assumes "patch_core rt" and "\<not> list_ex (\<lambda>s. rv_leases (rev_at rt s) > 0) (hp_retained rt)"
    and "leases_only (rt\<lparr>hp_migrating := True\<rparr>) rt1" and "patch_core rt1"
  shows "pinned_count rt1 \<le> 1"
proof -
  have sub: "set (hp_retained rt1) \<subseteq> set (hp_retained rt)" and cu: "hp_current rt1 = hp_current rt"
    using assms(3) by (simp_all add: leases_only_def same_publication_def)
  have drained: "\<forall>s \<in> set (hp_retained rt). open_leases rt s = 0"
    using assms(2) patch_coreD(1,2) [OF assms(1)] by (auto simp: list_ex_iff shape_ok_def leases_ok_def)
  then have "set (hp_retained rt) \<subseteq> {s. s = hp_current rt \<or> hp_previous rt = Some s}"
    using patch_coreD(4) [OF assms(1)] by (auto simp: collected_def)
  with sub cu have "set (filter (\<lambda>s. rv_leases (rev_at rt1 s) > 0 \<and> s \<noteq> hp_current rt1) (hp_retained rt1))
      \<subseteq> set_option (hp_previous rt)"
    by auto
  moreover have "distinct (filter (\<lambda>s. rv_leases (rev_at rt1 s) > 0 \<and> s \<noteq> hp_current rt1) (hp_retained rt1))"
    using patch_coreD(3) [OF assms(4)] by (simp add: kept_ok_def)
  ultimately have "length (filter (\<lambda>s. rv_leases (rev_at rt1 s) > 0 \<and> s \<noteq> hp_current rt1) (hp_retained rt1))
      \<le> card (set_option (hp_previous rt))"
    by (metis card_mono distinct_card finite_set_of_option)
  also have "\<dots> \<le> 1" by (cases "hp_previous rt") auto
  finally show ?thesis by (simp add: pinned_count_def)
qed

text \<open>A migration fails having changed nothing but leases and what the migration function itself did to
  the original object, or it replaces the state and publishes the new code together.\<close>

definition migration_failed :: "contract \<Rightarrow> nat \<Rightarrow> migration option \<Rightarrow> 'f patch_runtime \<Rightarrow> 'f patch_runtime \<Rightarrow> bool" where
  "migration_failed c state migrate rt rt' \<longleftrightarrow> rt' = rt \<or>
     (\<exists>mig rt1. migrate = Some mig \<and> patch_core rt1 \<and> leases_only (rt\<lparr>hp_migrating := True\<rparr>) rt1 \<and>
        (mr_calls (mig (hp_objects rt state) (rv_contract (current_rev rt)) c) = [] \<longrightarrow> rt1 = rt\<lparr>hp_migrating := True\<rparr>) \<and>
        rt' = rt1\<lparr>hp_objects := (hp_objects rt)
          (state := mr_state (mig (hp_objects rt state) (rv_contract (current_rev rt)) c)),
          hp_migrating := False\<rparr>)"

definition migration_done ::
  "'f prepared \<Rightarrow> nat \<Rightarrow> migration option \<Rightarrow> 'f patch_runtime \<Rightarrow> 'f patch_runtime \<Rightarrow> bool" where
  "migration_done prep state migrate rt rt' \<longleftrightarrow>
     (\<exists>m c res rt1 v r mig. prep = (m, c, res) \<and> patch_base rt1 \<and> migrate = Some mig \<and>
        migrated_value (mig (hp_objects rt state) (rv_contract (current_rev rt)) c) = Inr v \<and>
        leases_only (rt\<lparr>hp_migrating := True, hp_objects := (hp_objects rt)(state := v), hp_owner := Some state\<rparr>) rt1 \<and>
        publishes r prep (Suc (hp_current rt)) rt1 (rt'\<lparr>hp_migrating := True\<rparr>) \<and> \<not> hp_migrating rt' \<and>
        clone_state v = Inr v \<and> hp_owner rt \<in> {None, Some state} \<and>
        valid_schema (schema_of c) \<and> valid_schema (schema_of (rv_contract (current_rev rt))) \<and>
        schema_of c \<noteq> schema_of (rv_contract (current_rev rt)))"

lemma clone_state_eq: "clone_state v = Inr w \<Longrightarrow> w = v"
  by (auto simp: clone_state_def split: if_splits)

lemma leases_only_set:
  "leases_only rt rt1 \<Longrightarrow> leases_only (rt\<lparr>hp_objects := f, hp_owner := w\<rparr>) (rt1\<lparr>hp_objects := f, hp_owner := w\<rparr>)"
  by (simp add: leases_only_def same_publication_def)

lemma migrating_publish:
  fixes state :: nat and v :: state_object
  assumes "patch_core rt" "\<not> hp_closed rt" "\<not> hp_migrating rt" "prepared_for rt (m, c, res)"
    and drained: "\<not> list_ex (\<lambda>s. rv_leases (rev_at rt s) > 0) (hp_retained rt)"
    and rt1: "patch_core rt1" "leases_only (rt\<lparr>hp_migrating := True\<rparr>) rt1"
  defines "rt2 \<equiv> rt1\<lparr>hp_objects := (hp_objects rt)(state := v), hp_owner := Some state\<rparr>"
  shows "publish m c res (Suc (hp_current rt2)) rt2 = (Inr (Suc (hp_current rt)), published m c res (Suc (hp_current rt)) rt2) \<and>
    publishes (Inr (Suc (hp_current rt))) (m, c, res) (Suc (hp_current rt)) rt2 (published m c res (Suc (hp_current rt)) rt2) \<and>
    patch_base rt2 \<and> hp_migrating rt2"
proof -
  have f: "hp_current rt1 = hp_current rt" "hp_max rt1 = hp_max rt" "hp_closed rt1 = hp_closed rt" "hp_migrating rt1"
    using rt1(2) by (simp_all add: leases_only_def same_publication_def)
  have b: "patch_base rt2" using rt1(1) by (simp add: rt2_def patch_core_def)
  have "pinned_count rt2 = pinned_count rt1" by (simp add: pinned_count_def rt2_def)
  then have p: "pinned_count rt2 + 2 \<le> hp_max rt2"
    using drained_pinned [OF assms(1) drained rt1(2,1)] patch_coreD(1) [OF assms(1)] f
    by (simp add: rt2_def shape_ok_def)
  have "same_data (rev_at rt (hp_current rt)) (rev_at rt1 (hp_current rt))"
    using rt1(2) patch_coreD(1) [OF assms(1)] by (simp add: leases_only_def revisions_kept_def shape_ok_def)
  then have "prepared_for rt2 (m, c, res)"
    using assms(4) f(1) by (simp add: prepared_for_def rt2_def same_dataD)
  then show ?thesis
    using p b assms(2) f by (simp add: publish_eq publishes_def rt2_def)
qed

lemma migrate_cases:
  assumes "patch_core rt" "\<not> hp_closed rt" "\<not> hp_migrating rt" "prepared_for rt prep"
  shows "(\<exists>e rt'. migrate_and_publish prep state migrate rt = (Inl e, rt') \<and> migration_failed (fst (snd prep)) state migrate rt rt') \<or>
    (\<exists>rt'. migrate_and_publish prep state migrate rt = (Inr (Suc (hp_current rt)), rt') \<and> migration_done prep state migrate rt rt')"
proof -
  obtain m c res where prep: "prep = (m, c, res)" by (cases prep)
  let ?here = "rv_contract (current_rev rt)"
  have same: "migration_failed c state migrate rt rt" by (simp add: migration_failed_def)
  show ?thesis
  proof (cases "migrate = None \<or> \<not> so_plain (hp_objects rt state) \<or> (hp_owner rt \<noteq> None \<and> hp_owner rt \<noteq> Some state) \<or>
      \<not> valid_schema (schema_of ?here) \<or> \<not> valid_schema (schema_of c) \<or> schema_of ?here = schema_of c \<or>
      list_ex (\<lambda>s. rv_leases (rev_at rt s) > 0) (hp_retained rt) \<or> \<not> json_tree (V_obj (so_fields (hp_objects rt state)))")
    case True
    then have "\<exists>e. migrate_and_publish prep state migrate rt = (Inl e, rt)"
      unfolding migrate_and_publish_def prep fst_conv snd_conv Let_def clone_state_def
      by (auto split: option.split simp del: json_tree.simps)
    with same show ?thesis by (auto simp: prep)
  next
    case False
    then obtain mig where mig: "migrate = Some mig" by auto
    define run where "run = mig (hp_objects rt state) ?here c"
    define rt1 where "rt1 = foldl (\<lambda>r c. nested_step c r) (rt\<lparr>hp_migrating := True\<rparr>) (mr_calls run)"
    have cl: "clone_state (hp_objects rt state) = Inr (hp_objects rt state)" using False by (simp add: clone_state_def)
    have core1: "patch_core rt1" "leases_only (rt\<lparr>hp_migrating := True\<rparr>) rt1"
      using nested_steps_core [of "rt\<lparr>hp_migrating := True\<rparr>" "mr_calls run"] assms(1) by (simp_all add: rt1_def)
    then have obj: "hp_objects rt1 = hp_objects rt" by (simp add: leases_only_def same_publication_def)
    define rt2 where "rt2 = rt1\<lparr>hp_objects := (hp_objects rt1)(state := mr_state run)\<rparr>"
    have owner: "\<not> (hp_owner rt \<noteq> None \<and> hp_owner rt \<noteq> Some state)"
      and schemas: "\<not> (\<not> valid_schema (schema_of ?here) \<or> \<not> valid_schema (schema_of c) \<or> schema_of ?here = schema_of c)"
      and dr: "\<not> list_ex (\<lambda>s. rv_leases (rev_at rt s) > 0) (hp_retained rt)"
      and plain: "\<not> \<not> so_plain (hp_objects rt state)"
      using False by blast+
    have e: "migrate_and_publish prep state migrate rt =
      (case finish_migration prep state (migrated_value run) rt2 of (r, rt3) \<Rightarrow> (r, rt3\<lparr>hp_migrating := False\<rparr>))"
      unfolding migrate_and_publish_def prep mig Let_def option.case fst_conv snd_conv if_not_P [OF plain]
        if_not_P [OF owner] if_not_P [OF schemas] if_not_P [OF dr] cl sum.case
      by (simp add: rt1_def rt2_def run_def prep)
    have failed: "migration_failed c state migrate rt (rt2\<lparr>hp_migrating := False\<rparr>)"
      unfolding migration_failed_def
    proof (intro disjI2 exI conjI)
      show "migrate = Some mig" "patch_core rt1" "leases_only (rt\<lparr>hp_migrating := True\<rparr>) rt1" by fact+
      show "mr_calls (mig (hp_objects rt state) ?here c) = [] \<longrightarrow> rt1 = rt\<lparr>hp_migrating := True\<rparr>"
        by (simp add: rt1_def run_def)
      show "rt2\<lparr>hp_migrating := False\<rparr> = rt1\<lparr>hp_objects := (hp_objects rt)
          (state := mr_state (mig (hp_objects rt state) ?here c)), hp_migrating := False\<rparr>"
        by (simp add: rt2_def run_def obj)
    qed
    show ?thesis
    proof (cases "migrated_value run")
      case (Inl err)
      with e failed show ?thesis by (auto simp: finish_migration_def prep)
    next
      case (Inr v)
      show ?thesis
      proof (cases "so_plain (hp_objects rt2 state)")
        case False
        with e failed Inr show ?thesis by (auto simp: finish_migration_def prep)
      next
        case True
        define rt3 where "rt3 = rt1\<lparr>hp_objects := (hp_objects rt)(state := v), hp_owner := Some state\<rparr>"
        have rt3: "rt2\<lparr>hp_objects := (hp_objects rt2)(state := v), hp_owner := Some state\<rparr> = rt3"
          "hp_current rt2 = hp_current rt3"
          by (simp_all add: rt2_def rt3_def obj)
        note pub = migrating_publish [OF assms(1-3) assms(4) [unfolded prep] dr core1, where state = state and v = v, folded rt3_def]
        define rt' where "rt' = (published m c res (Suc (hp_current rt)) rt3)\<lparr>hp_migrating := False\<rparr>"
        have r: "migrate_and_publish prep state migrate rt = (Inr (Suc (hp_current rt)), rt')"
          using e Inr True pub by (simp add: finish_migration_def prep rt3 rt'_def)
        have v: "clone_state v = Inr v"
          using Inr clone_state_eq by (auto simp: migrated_value_def split: migration_result.splits)
        have again: "rt'\<lparr>hp_migrating := True\<rparr> = published m c res (Suc (hp_current rt)) rt3"
          using pub by (simp add: rt'_def published_def)
        have "migration_done prep state migrate rt rt'"
          unfolding migration_done_def
        proof (intro exI conjI)
          show "prep = (m, c, res)" by (rule prep)
          show "migrate = Some mig" by (rule mig)
          show "migrated_value (mig (hp_objects rt state) ?here c) = Inr v" using Inr by (simp add: run_def)
          show "patch_base rt3" using pub by blast
          show "leases_only (rt\<lparr>hp_migrating := True, hp_objects := (hp_objects rt)(state := v), hp_owner := Some state\<rparr>) rt3"
            using leases_only_set [OF core1(2), where f = "(hp_objects rt)(state := v)" and w = "Some state"] by (simp add: rt3_def)
          show "publishes (Inr (Suc (hp_current rt))) prep (Suc (hp_current rt)) rt3 (rt'\<lparr>hp_migrating := True\<rparr>)"
            using pub by (simp add: again prep)
          show "\<not> hp_migrating rt'" by (simp add: rt'_def)
        qed (use False v in auto)
        with r show ?thesis by blast
      qed
    qed
  qed
qed

lemma migration_core:
  assumes "patch_core rt" "\<not> hp_closed rt" "\<not> hp_migrating rt" "prepared_for rt prep"
  shows "patch_ok (snd (migrate_and_publish prep state migrate rt))"
  using migrate_cases [OF assms, of state migrate]
proof (elim disjE exE conjE)
  fix e rt'
  assume "migrate_and_publish prep state migrate rt = (Inl e, rt')" and "migration_failed (fst (snd prep)) state migrate rt rt'"
  then show ?thesis using assms(1,3) by (auto simp: migration_failed_def patch_ok_def)
next
  fix rt'
  assume r: "migrate_and_publish prep state migrate rt = (Inr (Suc (hp_current rt)), rt')"
    and "migration_done prep state migrate rt rt'"
  then obtain m c res rt1 v q where prep: "prep = (m, c, res)" and base: "patch_base rt1"
    and lo: "leases_only (rt\<lparr>hp_migrating := True, hp_objects := (hp_objects rt)(state := v), hp_owner := Some state\<rparr>) rt1"
    and pub: "publishes q prep (Suc (hp_current rt)) rt1 (rt'\<lparr>hp_migrating := True\<rparr>)"
    and done': "\<not> hp_migrating rt'" and sc: "valid_schema (schema_of c)"
    unfolding migration_done_def by blast
  have cur: "hp_current rt1 = hp_current rt" using lo by (simp add: leases_only_def same_publication_def)
  have "rv_state_version (rev_at rt1 (hp_current rt1)) \<le> hp_current rt1"
    using patch_baseD(5) [OF base] by (auto simp: typed_ok_def)
  then have "patch_core (rt'\<lparr>hp_migrating := True\<rparr>)"
    using publishes_core [OF base pub [unfolded prep]] sc cur by auto
  then show ?thesis using r done' by (simp add: patch_ok_def)
qed

lemma close_core:
  assumes "patch_core rt"
  shows "patch_core (snd (close_runtime rt)) \<and> hp_migrating (snd (close_runtime rt)) = hp_migrating rt"
proof (cases "hp_migrating rt")
  case False
  note parts = patch_coreD [OF assms]
  let ?rt = "rt\<lparr>hp_closed := True, hp_previous := None\<rparr>"
  have op: "open_leases ?rt = open_leases rt" by (simp add: fun_eq_iff open_leases_def)
  have sh: "shape_ok ?rt" using parts(1) by (simp add: shape_ok_def)
  have le: "leases_ok ?rt" using parts(2) by (simp add: leases_ok_def op)
  have ke: "kept_ok ?rt" using parts(3) by (simp add: kept_ok_def)
  have "typed_ok ?rt" using parts(5) by (simp add: typed_ok_def)
  moreover have "schema_ok ?rt" using parts(6) by (simp add: schema_ok_def)
  ultimately show ?thesis
    using collect_ok [OF sh le ke] False by (simp add: close_runtime_def patch_core_def patch_base_def)
qed (simp add: close_runtime_def assms)

lemma bound_call_core:
  assumes "patch_core rt"
  shows "patch_core (snd (bound_call ctx i rt)) \<and> leases_only rt (snd (bound_call ctx i rt))"
proof (cases "acquire ctx rt")
  case (Inl e)
  then show ?thesis by (simp add: bound_call_def assms)
next
  case (Inr p)
  then obtain l rt1 where a: "acquire ctx rt = Inr (l, rt1)" by (cases p) auto
  note core = acquire_core [OF assms a] and lo = acquire_leases_only [OF assms a]
  have "snd (bound_call ctx i rt) = rt1 \<or> snd (bound_call ctx i rt) = release l rt1"
    by (auto simp: bound_call_def a split: sum.split option.split)
  moreover have "patch_core (release l rt1)" using release_core [of rt1 l] core lo by simp
  moreover have "leases_only rt (release l rt1)"
    using leases_only_trans [of rt rt1] release_leases_only(1) [of l rt1] lo by simp
  ultimately show ?thesis using core lo by auto
qed

lemma migrating_apply_ok:
  assumes "patch_ok rt"
  shows "patch_ok (snd (apply_with_migration codec cand state mig rt))"
proof (cases "bindr (assert_open rt) (\<lambda>_. prepare_candidate codec cand True rt)")
  case (Inl e)
  then show ?thesis by (simp add: apply_with_migration_def assms)
next
  case (Inr prep)
  then have "\<not> hp_closed rt" "\<not> hp_migrating rt" "prepare_candidate codec cand True rt = Inr prep"
    by (auto simp: bindr_def assert_open_def split: sum.splits if_splits)
  then show ?thesis
    using Inr migration_core [of rt prep] prepare_typed [of codec cand True rt prep] assms
    by (simp add: apply_with_migration_def patch_ok_def patch_core_def patch_base_def)
qed

lemma migrating_rollback_cases:
  "(\<exists>e. rollback_with_migration expected state mig rt = (Inl e, rt)) \<or>
   (\<exists>p. hp_previous rt = Some p \<and> \<not> hp_closed rt \<and> \<not> hp_migrating rt \<and>
      rollback_with_migration expected state mig rt =
        migrate_and_publish (rv_implementations (rev_at rt p), rv_contract (rev_at rt p), rv_resources (rev_at rt p))
          state mig rt)"
  by (auto simp: rollback_with_migration_def assert_open_def split: option.split)

lemma migrating_rollback_ok:
  assumes "patch_ok rt"
  shows "patch_ok (snd (rollback_with_migration expected state mig rt))"
  using migrating_rollback_cases [of expected state mig rt]
proof (elim disjE exE conjE)
  fix p
  assume p: "hp_previous rt = Some p" "\<not> hp_closed rt" "\<not> hp_migrating rt"
    "rollback_with_migration expected state mig rt =
        migrate_and_publish (rv_implementations (rev_at rt p), rv_contract (rev_at rt p), rv_resources (rev_at rt p))
          state mig rt"
  have core: "patch_core rt" using assms by (simp add: patch_ok_def)
  show ?thesis using migration_core [OF core p(2,3) prepared_for_revision [OF core p(1)]] by (simp add: p(4))
qed (use assms in simp)

lemma patch_step_ok: "patch_ok rt \<Longrightarrow> patch_step codec e rt = Some rt' \<Longrightarrow> patch_ok rt'"
proof (cases e)
  case (Register i f)
  assume "patch_ok rt" "patch_step codec e rt = Some rt'"
  then show ?thesis using Register register_core [of rt i f]
    by (auto simp: patch_step_def patch_ok_def split: sum.splits)
next
  case (Acquire ctx)
  assume "patch_ok rt" "patch_step codec e rt = Some rt'"
  then show ?thesis using Acquire acquire_core [of rt ctx]
    by (auto simp: patch_step_def patch_ok_def split: sum.splits if_splits)
next
  case (Release l)
  assume "patch_ok rt" "patch_step codec e rt = Some rt'"
  then show ?thesis using Release release_core [of rt l]
    by (auto simp: patch_step_def patch_ok_def split: if_splits)
next
  case (Call ctx i)
  assume "patch_ok rt" "patch_step codec e rt = Some rt'"
  then show ?thesis using Call bound_call_core [of rt ctx i]
    by (auto simp: patch_step_def patch_ok_def leases_only_def same_publication_def split: if_splits)
next
  case (Apply cand)
  assume "patch_ok rt" "patch_step codec e rt = Some rt'"
  then show ?thesis using Apply apply_core [of rt codec cand] by (auto simp: patch_step_def patch_ok_def)
next
  case (Apply_migrating cand state mig)
  assume "patch_ok rt" "patch_step codec e rt = Some rt'"
  then show ?thesis using Apply_migrating migrating_apply_ok [of rt] by (auto simp: patch_step_def)
next
  case (Roll_back expected)
  assume "patch_ok rt" "patch_step codec e rt = Some rt'"
  then show ?thesis using Roll_back rollback_core [of rt expected] by (auto simp: patch_step_def patch_ok_def)
next
  case (Roll_back_migrating expected state mig)
  assume "patch_ok rt" "patch_step codec e rt = Some rt'"
  then show ?thesis using Roll_back_migrating migrating_rollback_ok [of rt] by (auto simp: patch_step_def)
next
  case Close
  assume "patch_ok rt" "patch_step codec e rt = Some rt'"
  then show ?thesis using Close close_core [of rt] by (auto simp: patch_step_def patch_ok_def)
next
  case (Change_state state v)
  assume "patch_ok rt" "patch_step codec e rt = Some rt'"
  then show ?thesis using Change_state by (auto simp: patch_step_def patch_ok_def)
qed

lemma new_patch_runtime_ok:
  assumes "new_patch_runtime codec maximum c data objects = Inr rt" and "3 \<le> maximum"
  shows "patch_ok rt"
  using assms
  by (auto simp: new_patch_runtime_def bindr_def freeze_contract_def patch_ok_def patch_core_def patch_base_def
      patch_ok_defs open_leases_def revision_typed_def split: if_splits sum.splits)

end
