(* ===== verification/HotPatchSafety.thy ===== *)
theory HotPatchSafety
  imports HotPatches
begin

text \<open>
  What the hot patch runtime of \<open>HotPatches\<close> guarantees to the requests that run while code is
  replaced: the runtime is a machine over its calls, with an invariant and a relation between any
  two of its states; the properties are read off from the two.
\<close>

section \<open>From one state to a later one\<close>

definition settled :: "'f patch_runtime \<Rightarrow> bool" where
  "settled rt \<longleftrightarrow> hp_registration_closed rt \<or> 0 < hp_current rt"

definition symbols_of :: "'f patch_runtime \<Rightarrow> string set" where
  "symbols_of rt = set (jkeys (rv_implementations (current_rev rt)))"

definition patch_since :: "'f patch_runtime \<Rightarrow> 'f patch_runtime \<Rightarrow> bool" where
  "patch_since rt rt' \<longleftrightarrow>
     hp_max rt' = hp_max rt \<and> hp_current rt \<le> hp_current rt' \<and>
     (hp_registration_closed rt \<longrightarrow> hp_registration_closed rt') \<and> (hp_closed rt \<longrightarrow> hp_closed rt') \<and>
     (\<forall>w. hp_owner rt = Some w \<longrightarrow> hp_owner rt' = Some w) \<and>
     leases_kept (hp_leases rt) (hp_leases rt') \<and>
     (settled rt \<longrightarrow> revisions_kept (hp_revisions rt) (hp_revisions rt')) \<and>
     symbols_of rt \<subseteq> symbols_of rt'"

lemma patch_since_refl: "patch_since rt rt"
  by (simp add: patch_since_def)

lemma settled_since: "settled rt \<Longrightarrow> patch_since rt rt1 \<Longrightarrow> settled rt1"
  by (auto simp: settled_def patch_since_def)

lemma patch_since_trans:
  assumes "patch_since rt rt1" "patch_since rt1 rt2"
  shows "patch_since rt rt2"
proof -
  have "leases_kept (hp_leases rt) (hp_leases rt2)"
    using assms leases_kept_trans unfolding patch_since_def by blast
  moreover have "settled rt \<Longrightarrow> revisions_kept (hp_revisions rt) (hp_revisions rt2)"
    using assms settled_since [OF _ assms(1)] revisions_kept_trans unfolding patch_since_def by blast
  moreover have "hp_current rt \<le> hp_current rt2"
    using assms unfolding patch_since_def by (meson order_trans)
  moreover have "symbols_of rt \<subseteq> symbols_of rt2"
    using assms unfolding patch_since_def by (meson subset_trans)
  ultimately show ?thesis using assms by (simp add: patch_since_def)
qed

lemma leases_only_since:
  assumes "patch_core rt" "leases_only rt rt'"
  shows "patch_since rt rt'"
proof -
  have "same_data (current_rev rt) (rev_at rt' (hp_current rt))"
    using assms patch_coreD(1) [OF assms(1)] by (simp add: leases_only_def revisions_kept_def shape_ok_def)
  then have "rv_implementations (current_rev rt') = rv_implementations (current_rev rt)"
    using assms(2) by (simp add: leases_only_def same_publication_def same_dataD)
  then show ?thesis using assms(2) by (simp add: patch_since_def leases_only_def same_publication_def symbols_of_def)
qed

lemma publishes_since:
  assumes "patch_base rt" "publishes r prep v rt rt'"
  shows "patch_since rt rt'"
proof -
  obtain m c res where p: "prep = (m, c, res)" by (cases prep)
  have len: "length (hp_revisions rt) = Suc (hp_current rt)" using patch_baseD(1) [OF assms(1)] by (simp add: shape_ok_def)
  have pf: "prepared_for rt prep" and rt': "rt' = published m c res v rt"
    using assms(2) by (simp_all add: publishes_def p)
  have revs: "hp_revisions rt' = hp_revisions rt @ [\<lparr>rv_state_version = v, rv_implementations = m,
       rv_contract = c, rv_resources = res, rv_leases = 0\<rparr>]" and cur: "hp_current rt' = Suc (hp_current rt)"
    by (simp_all add: rt' published_def)
  have "revisions_kept (hp_revisions rt) (hp_revisions rt')"
    by (simp add: revisions_kept_def revs nth_append)
  moreover have "rv_implementations (current_rev rt') = m"
    using len by (simp add: revs cur nth_append)
  ultimately show ?thesis
    using pf by (simp add: patch_since_def rt' published_def prepared_for_def p symbols_of_def)
qed

lemma patch_since_fields [simp]:
  "patch_since rt (rt'\<lparr>hp_migrating := b\<rparr>) = patch_since rt rt'"
  "patch_since (rt\<lparr>hp_migrating := b\<rparr>) rt' = patch_since rt rt'"
  "patch_since rt (rt'\<lparr>hp_objects := f\<rparr>) = patch_since rt rt'"
  "patch_since (rt\<lparr>hp_objects := f\<rparr>) rt' = patch_since rt rt'"
  by (simp_all add: patch_since_def settled_def symbols_of_def)

lemma migration_since:
  assumes "patch_core rt" "\<not> hp_closed rt" "\<not> hp_migrating rt" "prepared_for rt prep"
  shows "patch_since rt (snd (migrate_and_publish prep state migrate rt))"
  using migrate_cases [OF assms, of state migrate]
proof (elim disjE exE conjE)
  fix e rt'
  assume r: "migrate_and_publish prep state migrate rt = (Inl e, rt')" and "migration_failed (fst (snd prep)) state migrate rt rt'"
  then consider "rt' = rt" | rt1 f where "leases_only (rt\<lparr>hp_migrating := True\<rparr>) rt1"
      "rt' = rt1\<lparr>hp_objects := f, hp_migrating := False\<rparr>"
    by (auto simp: migration_failed_def)
  then show ?thesis
    using leases_only_since [of "rt\<lparr>hp_migrating := True\<rparr>"] assms(1) r
    by cases (simp_all add: patch_since_refl)
next
  fix rt'
  assume r: "migrate_and_publish prep state migrate rt = (Inr (Suc (hp_current rt)), rt')"
    and "migration_done prep state migrate rt rt'"
  then obtain m c res rt1 v q where base: "patch_base rt1"
    and lo: "leases_only (rt\<lparr>hp_migrating := True, hp_objects := (hp_objects rt)(state := v), hp_owner := Some state\<rparr>) rt1"
    and pub: "publishes q prep (Suc (hp_current rt)) rt1 (rt'\<lparr>hp_migrating := True\<rparr>)"
    and w: "hp_owner rt \<in> {None, Some state}"
    unfolding migration_done_def by blast
  have "same_data (current_rev rt) (rev_at rt1 (hp_current rt))"
    using lo patch_coreD(1) [OF assms(1)] by (simp add: leases_only_def revisions_kept_def shape_ok_def)
  then have "rv_implementations (current_rev rt1) = rv_implementations (current_rev rt)"
    using lo by (simp add: leases_only_def same_publication_def same_dataD)
  then have "patch_since rt rt1"
    using lo w by (auto simp: patch_since_def leases_only_def same_publication_def symbols_of_def)
  moreover have "patch_since rt1 rt'" using publishes_since [OF base pub] by simp
  ultimately show ?thesis using r patch_since_trans by simp blast
qed

lemma close_since: "patch_since rt (snd (close_runtime rt))"
  by (simp add: close_runtime_def patch_since_def settled_def symbols_of_def)

lemma register_since:
  assumes "patch_core rt" "register_symbol i f rt = Inr rt'"
  shows "patch_since rt rt'"
proof -
  from assms(2) obtain g where g: "\<not> hp_registration_closed rt" "hp_current rt = 0"
    "rt' = rt\<lparr>hp_revisions := (hp_revisions rt)
       [0 := (rev_at rt 0)\<lparr>rv_implementations := rv_implementations (rev_at rt 0) @ [(i, g)]\<rparr>]\<rparr>"
    by (auto simp: register_symbol_def bindr_def Let_def split: sum.splits if_splits option.splits)
  moreover have "length (hp_revisions rt) = Suc 0" using patch_coreD(1) [OF assms(1)] g(2) by (simp add: shape_ok_def)
  ultimately show ?thesis by (auto simp: patch_since_def settled_def symbols_of_def)
qed

lemma apply_since:
  assumes "patch_core rt"
  shows "patch_since rt (snd (apply_candidate codec cand rt))"
  using apply_cases [OF assms, of codec cand] publishes_since [of rt] assms
  by (auto simp: patch_since_refl patch_core_def)

lemma rollback_since:
  assumes "patch_core rt"
  shows "patch_since rt (snd (rollback expected rt))"
  using rollback_cases [OF assms, of expected] publishes_since [of rt] assms
  by (auto simp: patch_since_refl patch_core_def)

lemma migrating_apply_since:
  assumes "patch_ok rt"
  shows "patch_since rt (snd (apply_with_migration codec cand state mig rt))"
proof (cases "bindr (assert_open rt) (\<lambda>_. prepare_candidate codec cand True rt)")
  case (Inl e)
  then show ?thesis by (simp add: apply_with_migration_def patch_since_refl)
next
  case (Inr prep)
  then have "\<not> hp_closed rt" "\<not> hp_migrating rt" "prepare_candidate codec cand True rt = Inr prep"
    by (auto simp: bindr_def assert_open_def split: sum.splits if_splits)
  then show ?thesis
    using Inr migration_since [of rt prep] prepare_typed [of codec cand True rt prep] assms
    by (simp add: apply_with_migration_def patch_ok_def patch_core_def patch_base_def)
qed

lemma migrating_rollback_since:
  assumes "patch_ok rt"
  shows "patch_since rt (snd (rollback_with_migration expected state mig rt))"
  using migrating_rollback_cases [of expected state mig rt]
proof (elim disjE exE conjE)
  fix p
  assume p: "hp_previous rt = Some p" "\<not> hp_closed rt" "\<not> hp_migrating rt"
    "rollback_with_migration expected state mig rt =
        migrate_and_publish (rv_implementations (rev_at rt p), rv_contract (rev_at rt p), rv_resources (rev_at rt p))
          state mig rt"
  have core: "patch_core rt" using assms by (simp add: patch_ok_def)
  show ?thesis using migration_since [OF core p(2,3) prepared_for_revision [OF core p(1)]] by (simp add: p(4))
qed (simp add: patch_since_refl)

lemma patch_step_since:
  assumes "patch_ok rt" "patch_step codec e rt = Some rt'"
  shows "patch_since rt rt'"
proof -
  have core: "patch_core rt" using assms(1) by (simp add: patch_ok_def)
  show ?thesis
  proof (cases e)
    case (Register i f)
    with assms(2) show ?thesis using register_since [OF core, of i f]
      by (auto simp: patch_step_def patch_since_refl split: sum.splits)
  next
    case (Acquire ctx)
    with assms(2) show ?thesis using acquire_leases_only [OF core, of ctx] leases_only_since [OF core]
      by (auto simp: patch_step_def patch_since_refl split: sum.splits if_splits)
  next
    case (Release l)
    with assms(2) show ?thesis using release_leases_only(1) [of l rt] leases_only_since [OF core]
      by (auto simp: patch_step_def split: if_splits)
  next
    case (Call ctx i)
    with assms(2) show ?thesis using bound_call_core [OF core, of ctx i] leases_only_since [OF core]
      by (auto simp: patch_step_def split: if_splits)
  next
    case (Apply cand)
    with assms(2) show ?thesis using apply_since [OF core] by (auto simp: patch_step_def)
  next
    case (Apply_migrating cand state mig)
    with assms show ?thesis using migrating_apply_since by (auto simp: patch_step_def)
  next
    case (Roll_back expected)
    with assms(2) show ?thesis using rollback_since [OF core] by (auto simp: patch_step_def)
  next
    case (Roll_back_migrating expected state mig)
    with assms show ?thesis using migrating_rollback_since by (auto simp: patch_step_def)
  next
    case Close
    with assms(2) show ?thesis using close_since by (auto simp: patch_step_def)
  next
    case (Change_state state v)
    with assms(2) show ?thesis by (auto simp: patch_step_def patch_since_refl)
  qed
qed

interpretation patching: tracked_machine "patch_step codec" patch_ok "\<lambda>e. True" patch_since for codec
  by unfold_locales (auto intro: patch_step_ok patch_since_refl patch_since_trans patch_step_since)

lemma all_allowed [simp]: "list_all (\<lambda>e. True) es"
  by (simp add: list_all_iff)

lemma patch_run_ok:
  assumes "new_patch_runtime codec maximum c data objects = Inr start" "3 \<le> maximum"
    and "run_events (patch_step codec) es start = Some rt"
  shows "patch_ok rt"
  using patching.run_keeps [OF assms(3) all_allowed new_patch_runtime_ok [OF assms(1,2)]] .

section \<open>Requests and revisions\<close>

lemma open_lease_counts:
  "l < length (hp_leases rt) \<Longrightarrow> \<not> pl_released (hp_leases rt ! l) \<Longrightarrow> 0 < open_leases rt (pl_revision (hp_leases rt ! l))"
  by (force simp: open_leases_def filter_empty_conv)

lemma open_lease_retained:
  assumes "patch_ok rt" "l < length (hp_leases rt)" "\<not> pl_released (hp_leases rt ! l)"
  shows "pl_revision (hp_leases rt ! l) \<in> set (hp_retained rt)"
    and "\<not> unleased rt (pl_revision (hp_leases rt ! l))"
proof -
  note o = open_lease_counts [OF assms(2,3)]
  show "pl_revision (hp_leases rt ! l) \<in> set (hp_retained rt)"
    using o assms(1) by (auto simp: patch_ok_def patch_core_def patch_base_def leases_ok_def)
  moreover have "pl_revision (hp_leases rt ! l) \<le> hp_current rt"
    using assms(1,2) by (auto simp: patch_ok_def patch_core_def patch_base_def shape_ok_def)
  ultimately show "\<not> unleased rt (pl_revision (hp_leases rt ! l))"
    using o assms(1) by (auto simp: patch_ok_def patch_core_def patch_base_def unleased_def leases_ok_def)
qed

text \<open>Whatever a program does with a runtime (any sequence of registrations, calls, leases,
  publications, migrations, rollbacks and closing), at most the configured number of revisions is
  retained; every revision that a request holds a lease on is among them; the lease counters agree with
  the leases that are out; and a revision that nobody holds is retained only while the runtime is open
  and it is the current or the previous one.\<close>

lemma retention_is_exact:
  assumes "new_patch_runtime codec maximum c data objects = Inr start" "3 \<le> maximum"
    and "run_events (patch_step codec) es start = Some rt"
  shows "distinct (hp_retained rt) \<and> int (length (hp_retained rt)) \<le> maximum \<and>
     (\<forall>l \<in> set (hp_leases rt). pl_released l \<or> pl_revision l \<in> set (hp_retained rt)) \<and>
     (\<forall>s \<in> set (hp_retained rt). rv_leases (rev_at rt s) = int (open_leases rt s) \<and>
        (0 < open_leases rt s \<or> \<not> hp_closed rt \<and> (s = hp_current rt \<or> hp_previous rt = Some s))) \<and>
     (hp_closed rt \<or> hp_current rt \<in> set (hp_retained rt))"
proof -
  have ok: "patch_ok rt" using patch_run_ok [OF assms] .
  then have core: "patch_core rt" by (simp add: patch_ok_def)
  have "patch_since start rt"
    using patching.run_since [OF assms(3) all_allowed new_patch_runtime_ok [OF assms(1,2)]] .
  moreover have "hp_max start = maximum"
    using assms(1) by (auto simp: new_patch_runtime_def bindr_def split: if_splits sum.splits)
  ultimately have max: "hp_max rt = maximum" by (simp add: patch_since_def)
  have "pl_released l \<or> pl_revision l \<in> set (hp_retained rt)" if "l \<in> set (hp_leases rt)" for l
    using that open_lease_retained(1) [OF ok] by (auto simp: in_set_conv_nth)
  moreover have "hp_closed rt \<or> hp_current rt \<in> set (hp_retained rt)"
    using patch_coreD(3) [OF core] by (auto simp: kept_ok_def)
  ultimately show ?thesis
    using patch_coreD(1-4) [OF core] max
    by (simp add: shape_ok_def leases_ok_def kept_ok_def collected_def)
qed

text \<open>A concrete runtime for the instances below: implementations are named by strings, and two
  requests are running when new code is published.\<close>

definition demo_codec :: resource_codec where
  "demo_codec = \<lparr>rc_digest = (\<lambda>_. ''d''), rc_digest_hashes = (\<lambda>hs. concat (map fst hs)), rc_decode = (\<lambda>_. []),
     rc_encode = (\<lambda>_. [])\<rparr>"

definition demo_contract :: "int \<Rightarrow> contract" where
  "demo_contract n = [(''stateSchema'', V_num n)]"

definition demo_runtime :: "string patch_runtime" where
  "demo_runtime = \<lparr>hp_max = 3,
     hp_revisions = [\<lparr>rv_state_version = 0, rv_implementations = [], rv_contract = demo_contract 1,
       rv_resources = \<lparr>rt_data = [], rt_hashes = [], rt_sha256 = ''''\<rparr>, rv_leases = 0\<rparr>],
     hp_retained = [0], hp_current = 0, hp_previous = None, hp_closed = False,
     hp_registration_closed = False, hp_migrating = False, hp_owner = None, hp_leases = [],
     hp_objects = (\<lambda>_. \<lparr>so_plain = True, so_fields = []\<rparr>)\<rparr>"

definition demo_candidate :: "nat \<Rightarrow> string \<Rightarrow> string candidate" where
  "demo_candidate base f = \<lparr>cd_base = base, cd_changes = [(''go'', Some f)], cd_contract = demo_contract 1,
     cd_resources = None\<rparr>"

lemma demo_start: "new_patch_runtime demo_codec 3 (demo_contract 1) [] (\<lambda>_. \<lparr>so_plain = True, so_fields = []\<rparr>) =
    Inr demo_runtime"
  by (simp add: new_patch_runtime_def safe_integer_def freeze_contract_def demo_contract_def new_resource_store_def
      demo_codec_def maximum_files_def Let_def demo_runtime_def)

lemmas patch_eval = patch_step_def register_symbol_def assert_open_def demo_runtime_def acquire_def add_leases_def
  release_def collect_def unleased_def apply_candidate_def demo_candidate_def prepare_candidate_def freeze_contract_def
  demo_contract_def publish_def context_ok_def Let_def jhas_def js_trim_def js_space_def rollback_def close_runtime_def

lemma demo_run:
  "\<exists>rt. run_events (patch_step demo_codec) [Register ''go'' (Some ''old''), Acquire None,
       Apply (demo_candidate 0 ''new''), Acquire None, Release 0] demo_runtime = Some rt \<and>
     hp_current rt = 1 \<and> hp_retained rt = [0, 1] \<and> hp_leases rt = [\<lparr>pl_revision = 0, pl_released = True\<rparr>,
       \<lparr>pl_revision = 1, pl_released = False\<rparr>]"
  by (simp add: patch_eval)

lemma retention_is_exact_witness:
  "\<exists>rt. run_events (patch_step demo_codec) [Register ''go'' (Some ''old''), Acquire None,
       Apply (demo_candidate 0 ''new''), Acquire None, Release 0] demo_runtime = Some rt \<and>
     distinct (hp_retained rt) \<and> hp_retained rt = [0, 1]"
  using demo_run retention_is_exact [OF demo_start] by fastforce

lemma acquire_in_context:
  assumes "patch_core rt" "s \<in> set (hp_retained rt)"
  shows "\<exists>rt'. acquire (Some s) rt = Inr (length (hp_leases rt), rt') \<and> s \<le> hp_current rt \<and>
    lease_run (length (hp_leases rt)) rt' = Inr s \<and> rv_implementations (rev_at rt' s) = rv_implementations (rev_at rt s)"
proof -
  have "s < length (hp_revisions rt)" using assms patch_coreD(1) [OF assms(1)] by (auto simp: shape_ok_def)
  then show ?thesis
    using assms patch_coreD(1) [OF assms(1)]
    by (simp add: acquire_def add_leases_def Let_def lease_run_def shape_ok_def)
qed

lemma call_in_context:
  assumes "patch_core rt" "s \<in> set (hp_retained rt)"
  shows "fst (bound_call (Some s) i rt) =
    (case jget (rv_implementations (rev_at rt s)) i of None \<Rightarrow> Inl (Symbol_unavailable s i)
     | Some f \<Rightarrow> Inr (f, length (hp_leases rt)))"
  using acquire_in_context [OF assms] by (auto simp: bound_call_def split: option.split)

lemma call_without_context:
  assumes "patch_core rt" "\<not> hp_closed rt" "\<not> hp_migrating rt"
  shows "bound_call None i rt = bound_call (Some (hp_current rt)) i rt"
proof -
  have "hp_current rt \<in> set (hp_retained rt)" using patch_coreD(3) [OF assms(1)] assms(2) by (simp add: kept_ok_def)
  then have "acquire None rt = acquire (Some (hp_current rt)) rt"
    using assms(2,3) by (simp add: acquire_def assert_open_def)
  then show ?thesis by (simp add: bound_call_def)
qed

lemma revision_since:
  assumes "patch_ok rt" "patch_since rt rt'" "settled rt" "s \<le> hp_current rt"
  shows "same_data (rev_at rt s) (rev_at rt' s)"
proof -
  have "length (hp_revisions rt) = Suc (hp_current rt)"
    using assms(1) by (simp add: patch_ok_def patch_core_def patch_base_def shape_ok_def)
  then show ?thesis using assms(2-4) by (simp add: patch_since_def revisions_kept_def)
qed

text \<open>C4: A request keeps the code it was accepted with: as long as its lease is not released, whatever
  is published, rolled back, migrated or closed meanwhile, its revision is retained, every call it makes
  runs the implementation that was there when the lease was taken, and it reads the same resources under
  the same contract.\<close>

theorem request_keeps_its_revision:
  assumes "new_patch_runtime codec maximum c data objects = Inr start" "3 \<le> maximum"
    and "run_events (patch_step codec) es start = Some rt"
    and "run_events (patch_step codec) es' rt = Some rt'"
    and "l < length (hp_leases rt)" "\<not> pl_released (hp_leases rt' ! l)" "s = pl_revision (hp_leases rt ! l)"
  shows "lease_run l rt' = Inr s \<and> s \<in> set (hp_retained rt') \<and>
    fst (bound_call (Some s) i rt') =
      (case jget (rv_implementations (rev_at rt s)) i of None \<Rightarrow> Inl (Symbol_unavailable s i)
       | Some f \<Rightarrow> Inr (f, length (hp_leases rt'))) \<and>
    read_resource codec (Some s) path rt' = resource_read codec (rv_resources (rev_at rt s)) path \<and>
    rv_contract (rev_at rt' s) = rv_contract (rev_at rt s)"
proof -
  have ok: "patch_ok rt" using patch_run_ok [OF assms(1-3)] .
  have ok': "patch_ok rt'" using patching.run_keeps [OF assms(4) all_allowed ok] .
  have since: "patch_since rt rt'" using patching.run_since [OF assms(4) all_allowed ok] .
  then have l: "l < length (hp_leases rt')" "pl_revision (hp_leases rt' ! l) = s"
    using assms(5,7) by (auto simp: patch_since_def leases_kept_def)
  have s: "s \<in> set (hp_retained rt')" "\<not> unleased rt' s"
    using open_lease_retained [OF ok' l(1) assms(6)] l(2) by simp_all
  have "settled rt" using assms(5) ok
    by (auto simp: settled_def patch_ok_def patch_core_def patch_base_def leases_ok_def)
  moreover have "s \<le> hp_current rt" using assms(5,7) ok
    by (auto simp: patch_ok_def patch_core_def patch_base_def shape_ok_def)
  ultimately have "same_data (rev_at rt s) (rev_at rt' s)" by (rule revision_since [OF ok since])
  note d = same_dataD [OF this]
  show ?thesis
    using call_in_context [of rt' s i] s ok' d l assms(6)
    by (simp add: lease_run_def read_resource_def patch_ok_def)
qed

lemma request_keeps_its_revision_witness:
  "\<exists>rt rt'. run_events (patch_step demo_codec) [Register ''go'' (Some ''old''), Acquire None] demo_runtime = Some rt \<and>
     run_events (patch_step demo_codec) [Apply (demo_candidate 0 ''new''), Close] rt = Some rt' \<and>
     fst (bound_call (Some 0) ''go'' rt') = Inr (''old'', 1)"
proof -
  have "\<exists>rt rt'. run_events (patch_step demo_codec) [Register ''go'' (Some ''old''), Acquire None] demo_runtime = Some rt \<and>
     run_events (patch_step demo_codec) [Apply (demo_candidate 0 ''new''), Close] rt = Some rt' \<and>
     hp_leases rt = [\<lparr>pl_revision = 0, pl_released = False\<rparr>] \<and> hp_leases rt' = [\<lparr>pl_revision = 0, pl_released = False\<rparr>] \<and>
     jget (rv_implementations (rev_at rt 0)) ''go'' = Some ''old''"
    by (simp add: patch_eval)
  then show ?thesis
    using request_keeps_its_revision [OF demo_start, of _ _ _ _ 0 0 "''go''"] by fastforce
qed

text \<open>A state of the runtime between events, or one within a migration of it, after the migration function
  has made some calls.\<close>

definition within_migration :: "'f patch_runtime \<Rightarrow> 'f patch_runtime \<Rightarrow> bool" where
  "within_migration rt q \<longleftrightarrow> (\<exists>calls. q = foldl (\<lambda>r c. nested_step c r) (rt\<lparr>hp_migrating := True\<rparr>) calls)"

lemma within_migration_core:
  assumes "patch_core rt" "within_migration rt q"
  shows "patch_core q" "hp_migrating q" "symbols_of q = symbols_of rt"
proof -
  obtain calls where q: "q = foldl (\<lambda>r c. nested_step c r) (rt\<lparr>hp_migrating := True\<rparr>) calls"
    using assms(2) by (auto simp: within_migration_def)
  have core: "patch_core q" and lo: "leases_only (rt\<lparr>hp_migrating := True\<rparr>) q"
    using nested_steps_core [of "rt\<lparr>hp_migrating := True\<rparr>" calls] assms(1) by (simp_all add: q)
  have "same_data (rev_at rt (hp_current rt)) (rev_at q (hp_current rt))" "hp_current q = hp_current rt"
    using lo patch_coreD(1) [OF assms(1)] by (simp_all add: leases_only_def same_publication_def revisions_kept_def shape_ok_def)
  then show "symbols_of q = symbols_of rt" by (simp add: symbols_of_def same_dataD)
  show "patch_core q" by (rule core)
  show "hp_migrating q" using lo by (simp add: leases_only_def same_publication_def)
qed

text \<open>C27: The symbols are typed: a function that was bound can be called at every later time, from the
  outside or from any running request, between events or while a migration runs, and finds its implementation
  in whatever revision the request has. The only ways it can fail are that it comes from outside of every request
  and the runtime was closed or is migrating its state, or that the request outlived its lease
  and its revision was dropped. Every revision the call can reach has a JSON contract.\<close>

theorem bound_symbol_available:
  assumes "new_patch_runtime codec maximum c data objects = Inr start" "3 \<le> maximum"
    and "run_events (patch_step codec) es start = Some rt" "bind_symbol i rt = Inr j"
    and "run_events (patch_step codec) es' rt = Some rt'" "q = rt' \<or> within_migration rt' q" "context_ok ctx q"
  shows "((\<exists>f. fst (bound_call ctx j q) = Inr (f, length (hp_leases q))) \<or>
      fst (bound_call ctx j q) = Inl Runtime_closed \<and> ctx = None \<and> hp_closed q \<or>
      fst (bound_call ctx j q) = Inl Admission_closed \<and> ctx = None \<and> hp_migrating q \<or>
      (\<exists>s. ctx = Some s \<and> s \<notin> set (hp_retained q) \<and> fst (bound_call ctx j q) = Inl Work_outlived_lease)) \<and>
    (\<forall>s \<in> set (hp_retained q). json_tree (V_obj (rv_contract (rev_at q s))))"
proof -
  have ok: "patch_ok rt" using patch_run_ok [OF assms(1-3)] .
  have ok': "patch_ok rt'" using patching.run_keeps [OF assms(5) all_allowed ok] .
  have core': "patch_core rt'" using ok' by (simp add: patch_ok_def)
  have core: "patch_core q" and same: "symbols_of q = symbols_of rt'"
    using assms(6) core' within_migration_core [OF core'] by auto
  have since: "patch_since rt rt'" using patching.run_since [OF assms(5) all_allowed ok] .
  have typed: "revision_typed (symbols_of q) (rev_at q s)" if "s \<in> set (hp_retained q)" for s
    using that patch_coreD(1,5) [OF core] by (auto simp: typed_ok_def shape_ok_def symbols_of_def)
  then have json: "\<forall>s \<in> set (hp_retained q). json_tree (V_obj (rv_contract (rev_at q s)))"
    by (auto simp: revision_typed_def)
  have "j \<in> symbols_of rt'" using assms(4) since
    by (auto simp: bind_symbol_def patch_since_def symbols_of_def jhas_def split: if_splits)
  then have j: "j \<in> symbols_of q" by (simp add: same)
  have impl: "\<exists>f. jget (rv_implementations (rev_at q s)) j = Some f" if "s \<in> set (hp_retained q)" for s
  proof -
    have "jhas (rv_implementations (rev_at q s)) j"
      using typed [OF that] j by (simp add: revision_typed_def jhas_def)
    then show ?thesis by (simp only: jhas_get)
  qed
  have inside: "\<exists>f. fst (bound_call (Some s) j q) = Inr (f, length (hp_leases q))" if "s \<in> set (hp_retained q)" for s
    using call_in_context [OF core that, of j] impl [OF that] by auto
  have "(\<exists>f. fst (bound_call ctx j q) = Inr (f, length (hp_leases q))) \<or>
    fst (bound_call ctx j q) = Inl Runtime_closed \<and> ctx = None \<and> hp_closed q \<or>
    fst (bound_call ctx j q) = Inl Admission_closed \<and> ctx = None \<and> hp_migrating q \<or>
    (\<exists>s. ctx = Some s \<and> s \<notin> set (hp_retained q) \<and> fst (bound_call ctx j q) = Inl Work_outlived_lease)"
  proof (cases ctx)
    case None
    show ?thesis
    proof (cases "hp_closed q \<or> hp_migrating q")
      case True
      then show ?thesis by (auto simp: None bound_call_def acquire_def assert_open_def)
    next
      case False
      then have "hp_current q \<in> set (hp_retained q)" using patch_coreD(3) [OF core] by (simp add: kept_ok_def)
      then show ?thesis using inside call_without_context [OF core] None False by simp
    qed
  next
    case (Some s)
    then show ?thesis
      using inside [of s] by (cases "s \<in> set (hp_retained q)") (simp_all add: bound_call_def acquire_def)
  qed
  with json show ?thesis by blast
qed

lemma bound_symbol_available_witness:
  "\<exists>rt rt'. run_events (patch_step demo_codec) [Register ''go'' (Some ''old'')] demo_runtime = Some rt \<and>
     run_events (patch_step demo_codec) [Acquire None, Apply (demo_candidate 0 ''new''), Release 0] rt = Some rt' \<and>
     (\<exists>f. fst (bound_call (Some 0) ''go'' (rt'\<lparr>hp_migrating := True\<rparr>)) = Inr (f, 1))"
proof -
  have "\<exists>rt rt'. run_events (patch_step demo_codec) [Register ''go'' (Some ''old'')] demo_runtime = Some rt \<and>
     run_events (patch_step demo_codec) [Acquire None, Apply (demo_candidate 0 ''new''), Release 0] rt = Some rt' \<and>
     bind_symbol ''go'' rt = Inr ''go'' \<and> context_ok (Some 0) (rt'\<lparr>hp_migrating := True\<rparr>) \<and>
     length (hp_leases rt') = 1 \<and> 0 \<in> set (hp_retained rt')"
    by (simp add: patch_eval bind_symbol_def)
  then obtain rt rt' where run: "run_events (patch_step demo_codec) [Register ''go'' (Some ''old'')] demo_runtime = Some rt"
      "run_events (patch_step demo_codec) [Acquire None, Apply (demo_candidate 0 ''new''), Release 0] rt = Some rt'"
    and b: "bind_symbol ''go'' rt = Inr ''go''" "context_ok (Some 0) (rt'\<lparr>hp_migrating := True\<rparr>)"
    and l: "length (hp_leases rt') = 1" "0 \<in> set (hp_retained rt')" by blast
  have "within_migration rt' (rt'\<lparr>hp_migrating := True\<rparr>)"
    unfolding within_migration_def by (intro exI [of _ "[]"]) simp
  from bound_symbol_available [OF demo_start _ run(1) b(1) run(2) disjI2 [OF this] b(2)] run l show ?thesis by auto
qed

section \<open>Publication\<close>

lemma apply_changes_get:
  "apply_changes changes seen m = Inr m' \<Longrightarrow>
   jget m' i = (case map_of changes i of None \<Rightarrow> jget m i | Some f \<Rightarrow> f) \<and> (i \<in> set seen \<longrightarrow> map_of changes i = None)"
proof (induction changes seen m arbitrary: m' rule: apply_changes.induct)
  case (2 j f changes seen m)
  then obtain g where g: "f = Some g" "apply_changes changes (j # seen) (jset j g m) = Inr m'" "jhas m j" "j \<notin> set seen"
    by (auto split: option.splits if_splits)
  have "\<not> (\<not> jhas m j \<or> j \<in> set seen)" using g by simp
  from 2(1) [OF g(1) this g(2)] show ?case using g by (auto split: option.splits)
qed simp

text \<open>What the preparation of a candidate makes of the current revision.\<close>

lemma prepare_candidate_result:
  assumes "prepare_candidate codec cand allow rt = Inr (m, k, res)"
  shows "k = cd_contract cand"
    and "jget m i = (case map_of (cd_changes cand) i of None \<Rightarrow> jget (rv_implementations (current_rev rt)) i | Some f \<Rightarrow> f)"
    and "case cd_resources cand of None \<Rightarrow> res = rv_resources (current_rev rt) | Some data \<Rightarrow> new_resource_store codec data = Inr res"
proof -
  have "k = cd_contract cand \<and> apply_changes (cd_changes cand) [] (rv_implementations (current_rev rt)) = Inr m \<and>
    (case cd_resources cand of None \<Rightarrow> res = rv_resources (current_rev rt) | Some data \<Rightarrow> new_resource_store codec data = Inr res)"
    using assms by (auto simp: prepare_candidate_def freeze_contract_def Let_def bindr_def split: sum.splits if_splits option.splits)
  then show "k = cd_contract cand"
    and "jget m i = (case map_of (cd_changes cand) i of None \<Rightarrow> jget (rv_implementations (current_rev rt)) i | Some f \<Rightarrow> f)"
    and "case cd_resources cand of None \<Rightarrow> res = rv_resources (current_rev rt) | Some data \<Rightarrow> new_resource_store codec data = Inr res"
    using apply_changes_get by blast+
qed

lemma migrated_value_source:
  assumes "migrated_value run = Inr v"
  shows "mr_result run = Mig_undefined \<and> v = mr_draft run \<or> mr_result run = Mig_value v"
  using assms clone_state_eq by (auto simp: migrated_value_def split: migration_result.splits)

text \<open>A publication is atomic: \<open>apply\<close> is refused and changes nothing, or the next revision is
  current and has exactly the changed implementations, the others as they were, the contract and the
  resources of the candidate and the state version it had, and the old revision is the one a rollback
  returns to. No request's lease, no state object is touched.\<close>

lemma publication_atomic:
  assumes "new_patch_runtime codec maximum c data objects = Inr start" "3 \<le> maximum"
    and "run_events (patch_step codec) es start = Some rt"
  shows "case apply_candidate codec cand rt of
      (Inl e, rt') \<Rightarrow> rt' = rt
    | (Inr n, rt') \<Rightarrow>
        cd_base cand = hp_current rt \<and> n = Suc (hp_current rt) \<and> hp_current rt' = n \<and>
        hp_previous rt' = Some (hp_current rt) \<and>
        (\<forall>i. jget (rv_implementations (current_rev rt')) i =
           (case map_of (cd_changes cand) i of None \<Rightarrow> jget (rv_implementations (current_rev rt)) i | Some f \<Rightarrow> f)) \<and>
        rv_contract (current_rev rt') = cd_contract cand \<and>
        (cd_resources cand = None \<longrightarrow> rv_resources (current_rev rt') = rv_resources (current_rev rt)) \<and>
        rv_state_version (current_rev rt') = rv_state_version (current_rev rt) \<and>
        hp_leases rt' = hp_leases rt \<and> hp_objects rt' = hp_objects rt \<and>
        rev_at rt' (hp_current rt) = current_rev rt"
proof -
  have core: "patch_core rt" using patch_run_ok [OF assms] by (simp add: patch_ok_def)
  have len: "length (hp_revisions rt) = Suc (hp_current rt)" using patch_coreD(1) [OF core] by (simp add: shape_ok_def)
  consider e where "apply_candidate codec cand rt = (Inl e, rt)" | m k res where
    "prepare_candidate codec cand False rt = Inr (m, k, res)"
    "publishes (fst (apply_candidate codec cand rt)) (m, k, res) (rv_state_version (current_rev rt)) rt
         (snd (apply_candidate codec cand rt))"
    using apply_cases [OF core, of codec cand] by blast
  then show ?thesis
  proof cases
    case 1
    then show ?thesis by simp
  next
    case 2
    from 2(1) have p: "cd_base cand = hp_current rt" "k = cd_contract cand"
      "apply_changes (cd_changes cand) [] (rv_implementations (current_rev rt)) = Inr m"
      "cd_resources cand = None \<longrightarrow> res = rv_resources (current_rev rt)"
      by (auto simp: prepare_candidate_def freeze_contract_def Let_def bindr_def split: sum.splits if_splits)
    have r: "apply_candidate codec cand rt =
        (Inr (Suc (hp_current rt)), published m k res (rv_state_version (current_rev rt)) rt)"
      using 2(2) by (cases "apply_candidate codec cand rt") (simp add: publishes_def)
    show ?thesis
      unfolding r using p(1,2,4) conjunct1 [OF apply_changes_get [OF p(3)]] len
      by (simp add: published_def nth_append)
  qed
qed

lemma publication_atomic_witness:
  "\<exists>rt. run_events (patch_step demo_codec) [Register ''go'' (Some ''old''), Acquire None] demo_runtime = Some rt \<and>
     jget (rv_implementations (current_rev (snd (apply_candidate demo_codec (demo_candidate 0 ''new'') rt)))) ''go'' = Some ''new''"
proof -
  have "\<exists>rt. run_events (patch_step demo_codec) [Register ''go'' (Some ''old''), Acquire None] demo_runtime = Some rt \<and>
     fst (apply_candidate demo_codec (demo_candidate 0 ''new'') rt) = Inr 1"
    by (simp add: patch_eval)
  then obtain rt where rt: "run_events (patch_step demo_codec) [Register ''go'' (Some ''old''), Acquire None] demo_runtime = Some rt"
    "fst (apply_candidate demo_codec (demo_candidate 0 ''new'') rt) = Inr 1" by blast
  show ?thesis
    using publication_atomic [OF demo_start _ rt(1), of "demo_candidate 0 ''new''"] rt
    by (cases "apply_candidate demo_codec (demo_candidate 0 ''new'') rt") (auto simp: demo_candidate_def)
qed

definition lease_event :: "'f patch_event \<Rightarrow> bool" where
  "lease_event e = (case e of Acquire ctx \<Rightarrow> True | Release l \<Rightarrow> True | Call ctx i \<Rightarrow> True | _ \<Rightarrow> False)"

lemma lease_step_only:
  assumes "patch_ok rt" "lease_event e" "patch_step codec e rt = Some rt'"
  shows "leases_only rt rt'"
proof -
  have core: "patch_core rt" using assms(1) by (simp add: patch_ok_def)
  show ?thesis
  proof (cases e)
    case (Acquire ctx)
    with assms(3) show ?thesis using acquire_leases_only [OF core, of ctx]
      by (auto simp: patch_step_def split: sum.splits if_splits)
  next
    case (Release l)
    with assms(3) show ?thesis using release_leases_only(1) [of l rt]
      by (auto simp: patch_step_def split: if_splits)
  next
    case (Call ctx i)
    with assms(3) show ?thesis using bound_call_core [OF core, of ctx i]
      by (auto simp: patch_step_def split: if_splits)
  qed (use assms(2) in \<open>simp_all add: lease_event_def\<close>)
qed

interpretation leasing: tracked_machine "patch_step codec" patch_ok lease_event leases_only for codec
  by unfold_locales (auto intro: patch_step_ok leases_only_trans lease_step_only)

text \<open>A rollback undoes a publication: whatever requests begin, call and end in between, rolling
  back the revision that was just published makes the implementations, the contract, the resources and
  the state version of the revision before it current again, under a new number, or is refused because
  requests still hold too many revisions and changes nothing.\<close>

lemma rollback_restores:
  assumes "new_patch_runtime codec maximum c data objects = Inr start" "3 \<le> maximum"
    and "run_events (patch_step codec) es start = Some rt"
    and "apply_candidate codec cand rt = (Inr n, rt1)"
    and "run_events (patch_step codec) es' rt1 = Some rt2" "list_all lease_event es'"
  shows "rollback n rt2 = (Inl Retention_limit, rt2) \<or>
    fst (rollback n rt2) = Inr (Suc n) \<and> same_data (current_rev rt) (current_rev (snd (rollback n rt2)))"
proof -
  have ok: "patch_ok rt" using patch_run_ok [OF assms(1-3)] .
  then have core: "patch_core rt" by (simp add: patch_ok_def)
  have ok1: "patch_ok rt1" using apply_core [OF core, of codec cand] assms(4) ok by (simp add: patch_ok_def)
  have ok2: "patch_ok rt2" using patching.run_keeps [OF assms(5) all_allowed ok1] .
  have core2: "patch_core rt2" using ok2 by (simp add: patch_ok_def)
  have lo: "leases_only rt1 rt2" using leasing.run_since [OF assms(5,6) ok1] .
  have len: "length (hp_revisions rt) = Suc (hp_current rt)" "length (hp_revisions rt2) = Suc (hp_current rt2)"
    using patch_coreD(1) [OF core] patch_coreD(1) [OF core2] by (simp_all add: shape_ok_def)
  obtain m k res where pub: "publishes (Inr n) (m, k, res) (rv_state_version (current_rev rt)) rt rt1"
    using apply_cases [OF core, of codec cand] assms(4) by auto
  then have n: "n = Suc (hp_current rt)" "\<not> hp_closed rt1" "hp_current rt1 = n" "hp_previous rt1 = Some (hp_current rt)"
    and d1: "rev_at rt1 (hp_current rt) = current_rev rt" "rv_state_version (current_rev rt1) = rv_state_version (current_rev rt)"
    using len by (auto simp: publishes_def published_def nth_append)
  have f: "hp_current rt2 = n" "hp_previous rt2 = Some (hp_current rt)" "\<not> hp_closed rt2" "\<not> hp_migrating rt2"
    using lo n ok2 by (simp_all add: leases_only_def same_publication_def patch_ok_def)
  have "same_data (rev_at rt1 s) (rev_at rt2 s)" if "s \<le> n" for s
    using lo that len(2) f(1) by (simp add: leases_only_def same_publication_def revisions_kept_def)
  then have d2: "same_data (current_rev rt) (rev_at rt2 (hp_current rt))"
    "rv_state_version (current_rev rt2) = rv_state_version (current_rev rt)"
    using d1 n f(1) same_dataD(1) by (metis le_Suc_eq order_refl)+
  have same: "rv_state_version (rev_at rt2 (hp_current rt)) = rv_state_version (current_rev rt2)"
    using d2 same_dataD(1) by metis
  have op: "assert_open rt2 = Inr ()" using f by (simp add: assert_open_def)
  note cd = same_dataD [OF d2(1)]
  have roll: "rollback n rt2 = publish (rv_implementations (current_rev rt)) (rv_contract (current_rev rt))
      (rv_resources (current_rev rt)) (rv_state_version (current_rev rt)) rt2"
    using same d2(2) f(1,2) op cd by (simp add: rollback_def)
  show ?thesis
    using core2 len(2) f(1)
    by (simp add: roll publish_eq patch_core_def published_def nth_append same_data_def)
qed

lemma rollback_restores_witness:
  "\<exists>rt rt1 rt2. run_events (patch_step demo_codec) [Register ''go'' (Some ''old''), Acquire None] demo_runtime = Some rt \<and>
     apply_candidate demo_codec (demo_candidate 0 ''new'') rt = (Inr 1, rt1) \<and>
     run_events (patch_step demo_codec) [Acquire None, Release 0] rt1 = Some rt2 \<and>
     jget (rv_implementations (current_rev (snd (rollback 1 rt2)))) ''go'' = Some ''old''"
proof -
  have "\<exists>rt rt1 rt2. run_events (patch_step demo_codec) [Register ''go'' (Some ''old''), Acquire None] demo_runtime = Some rt \<and>
     apply_candidate demo_codec (demo_candidate 0 ''new'') rt = (Inr 1, rt1) \<and>
     run_events (patch_step demo_codec) [Acquire None, Release 0] rt1 = Some rt2 \<and>
     fst (rollback 1 rt2) = Inr 2 \<and> jget (rv_implementations (current_rev rt)) ''go'' = Some ''old''"
    by (simp add: patch_eval)
  then obtain rt rt1 rt2 where run: "run_events (patch_step demo_codec) [Register ''go'' (Some ''old''), Acquire None] demo_runtime = Some rt"
    and a: "apply_candidate demo_codec (demo_candidate 0 ''new'') rt = (Inr 1, rt1)"
    and run2: "run_events (patch_step demo_codec) [Acquire None, Release 0] rt1 = Some rt2"
    and r: "fst (rollback 1 rt2) = Inr 2" "jget (rv_implementations (current_rev rt)) ''go'' = Some ''old''"
    by blast
  have le: "list_all lease_event [Acquire None, Release 0]" by (simp add: lease_event_def)
  have "same_data (current_rev rt) (current_rev (snd (rollback 1 rt2)))"
    using rollback_restores [OF demo_start _ run a run2 le] r(1) by auto
  then show ?thesis using run a run2 r(2) same_dataD(2) by fastforce
qed

section \<open>State and schema\<close>

definition migration_event :: "'f patch_event \<Rightarrow> bool" where
  "migration_event e =
     (case e of Apply_migrating cand s mig \<Rightarrow> True | Roll_back_migrating expected s mig \<Rightarrow> True | _ \<Rightarrow> False)"

definition current_schema :: "'f patch_runtime \<Rightarrow> js_value option" where
  "current_schema rt = schema_of (rv_contract (current_rev rt))"

definition schema_since :: "'f patch_runtime \<Rightarrow> 'f patch_runtime \<Rightarrow> bool" where
  "schema_since rt rt' \<longleftrightarrow> hp_owner rt' = hp_owner rt \<and> (hp_owner rt \<noteq> None \<longrightarrow> current_schema rt' = current_schema rt)"

lemma schema_since_refl: "schema_since rt rt"
  by (simp add: schema_since_def)

lemma schema_since_trans: "schema_since rt rt1 \<Longrightarrow> schema_since rt1 rt2 \<Longrightarrow> schema_since rt rt2"
  by (simp add: schema_since_def)

lemma schema_same:
  assumes "hp_owner rt' = hp_owner rt" "rv_contract (current_rev rt') = rv_contract (current_rev rt)"
  shows "schema_since rt rt'"
  using assms by (simp add: schema_since_def current_schema_def)

lemma leases_only_schema: "patch_core rt \<Longrightarrow> leases_only rt rt' \<Longrightarrow> schema_since rt rt'"
proof (rule schema_same)
  assume a: "patch_core rt" "leases_only rt rt'"
  then show "hp_owner rt' = hp_owner rt" by (simp add: leases_only_def same_publication_def)
  have "same_data (current_rev rt) (rev_at rt' (hp_current rt))"
    using a(2) patch_coreD(1) [OF a(1)] by (simp add: leases_only_def revisions_kept_def shape_ok_def)
  then show "rv_contract (current_rev rt') = rv_contract (current_rev rt)"
    using a(2) by (simp add: leases_only_def same_publication_def same_dataD)
qed

lemma published_current:
  assumes "patch_base rt" "publishes r (m, k, res) v rt rt'"
  shows "current_rev rt' = \<lparr>rv_state_version = v, rv_implementations = m, rv_contract = k, rv_resources = res, rv_leases = 0\<rparr>"
    and "hp_owner rt' = hp_owner rt" "hp_current rt' = Suc (hp_current rt)" "hp_previous rt' = Some (hp_current rt)"
    and "hp_objects rt' = hp_objects rt"
  using assms patch_baseD(1) [OF assms(1)]
  by (simp_all add: publishes_def published_def shape_ok_def nth_append)

lemma patch_step_schema:
  assumes "patch_ok rt" "\<not> migration_event e" "patch_step codec e rt = Some rt'"
  shows "schema_since rt rt'"
proof -
  have core: "patch_core rt" and base: "patch_base rt" using assms(1) by (simp_all add: patch_ok_def patch_core_def)
  show ?thesis
  proof (cases e)
    case (Register i f)
    show ?thesis
    proof (cases "register_symbol i f rt")
      case (Inr rt1)
      then obtain g where g: "rt1 = rt\<lparr>hp_revisions := (hp_revisions rt)
         [hp_current rt := (current_rev rt)\<lparr>rv_implementations := rv_implementations (current_rev rt) @ [(i, g)]\<rparr>]\<rparr>"
        by (auto simp: register_symbol_def bindr_def Let_def split: sum.splits if_splits option.splits)
      have r: "rt' = rt1" using assms(3) Register Inr by (simp add: patch_step_def)
      show ?thesis
        by (rule schema_same) (use patch_coreD(1) [OF core] in \<open>simp_all add: r g shape_ok_def\<close>)
    qed (use assms(3) Register in \<open>simp add: patch_step_def schema_since_refl\<close>)
  next
    case (Apply cand)
    then have r: "rt' = snd (apply_candidate codec cand rt)" using assms(3) by (simp add: patch_step_def)
    show ?thesis
      using apply_cases [OF core, of codec cand] published_current(1,2) [OF base]
      by (auto simp: r schema_since_refl schema_since_def current_schema_def)
  next
    case (Roll_back expected)
    then have r: "rt' = snd (rollback expected rt)" using assms(3) by (simp add: patch_step_def)
    show ?thesis
      using rollback_cases [OF core, of expected] published_current(1,2) [OF base] patch_coreD(6) [OF core]
      by (auto simp: r schema_since_refl schema_since_def current_schema_def schema_ok_def)
  next
    case Close
    then show ?thesis using assms(3)
      by (auto simp: patch_step_def close_runtime_def schema_since_def current_schema_def)
  next
    case (Change_state s v)
    then show ?thesis using assms(3) by (auto simp: patch_step_def schema_since_def current_schema_def)
  next
    case (Acquire ctx)
    then show ?thesis using lease_step_only [OF assms(1) _ assms(3)] leases_only_schema [OF core] by (simp add: lease_event_def)
  next
    case (Release l)
    then show ?thesis using lease_step_only [OF assms(1) _ assms(3)] leases_only_schema [OF core] by (simp add: lease_event_def)
  next
    case (Call ctx i)
    then show ?thesis using lease_step_only [OF assms(1) _ assms(3)] leases_only_schema [OF core] by (simp add: lease_event_def)
  qed (use assms(2) in \<open>simp_all add: migration_event_def\<close>)
qed

interpretation unmigrated: tracked_machine "patch_step codec" patch_ok "\<lambda>e. \<not> migration_event e" schema_since for codec
  by unfold_locales (auto intro: patch_step_ok schema_since_refl schema_since_trans patch_step_schema)

text \<open>C16: A migration switches state and code together. If it succeeds, the next revision is current, under a
  new state version, with the candidate's contract, with every changed implementation and the others as
  they were, and with the candidate's resources or else those there were; the state object holds what the migration
  returned, or the draft it was given if it returned nothing, and that is plain JSON; it belongs to
  the runtime, and until the next migration no publication and no rollback makes code current that expects
  another \<open>stateSchema\<close>. If it fails, the code that is current is the one before, and the state object
  holds what it held, apart from what the migration function itself wrote into it. The runtime keeps three
  revisions at least: with the limit 2 it is false (\<open>migration_torn_at_limit_two\<close>).\<close>

theorem migration_switches_state_and_code:
  assumes "new_patch_runtime codec maximum c data objects = Inr start" "3 \<le> maximum"
    and "run_events (patch_step codec) es start = Some rt"
    and "apply_with_migration codec cand state migrate rt = (r, rt1)"
    and "run_events (patch_step codec) es' rt1 = Some rt2" "list_all (\<lambda>e. \<not> migration_event e) es'"
  shows "case r of
      Inl e \<Rightarrow> hp_current rt1 = hp_current rt \<and> hp_owner rt1 = hp_owner rt \<and>
        same_data (current_rev rt) (current_rev rt1) \<and>
        (hp_objects rt1 state = hp_objects rt state \<or>
         (\<exists>mig. migrate = Some mig \<and> hp_objects rt1 state =
            mr_state (mig (hp_objects rt state) (rv_contract (current_rev rt)) (cd_contract cand))))
    | Inr n \<Rightarrow> n = Suc (hp_current rt) \<and> hp_current rt1 = n \<and> rv_state_version (current_rev rt1) = n \<and>
        rv_contract (current_rev rt1) = cd_contract cand \<and>
        (\<forall>i. jget (rv_implementations (current_rev rt1)) i =
           (case map_of (cd_changes cand) i of None \<Rightarrow> jget (rv_implementations (current_rev rt)) i | Some f \<Rightarrow> f)) \<and>
        (case cd_resources cand of None \<Rightarrow> rv_resources (current_rev rt1) = rv_resources (current_rev rt)
         | Some data \<Rightarrow> new_resource_store codec data = Inr (rv_resources (current_rev rt1))) \<and>
        (\<exists>mig run. migrate = Some mig \<and> run = mig (hp_objects rt state) (rv_contract (current_rev rt)) (cd_contract cand) \<and>
           (mr_result run = Mig_undefined \<and> hp_objects rt1 state = mr_draft run \<or>
            mr_result run = Mig_value (hp_objects rt1 state))) \<and>
        so_plain (hp_objects rt1 state) \<and> json_tree (V_obj (so_fields (hp_objects rt1 state))) \<and>
        hp_owner rt2 = Some state \<and> current_schema rt2 = schema_of (cd_contract cand)"
proof -
  have ok: "patch_ok rt" using patch_run_ok [OF assms(1-3)] .
  then have core: "patch_core rt" by (simp add: patch_ok_def)
  have ok1: "patch_ok rt1" using migrating_apply_ok [OF ok, of codec cand state migrate] assms(4) by simp
  have since: "schema_since rt1 rt2" using unmigrated.run_since [OF assms(5,6) ok1] .
  show ?thesis
  proof (cases "bindr (assert_open rt) (\<lambda>_. prepare_candidate codec cand True rt)")
    case (Inl e)
    then show ?thesis using assms(4) by (simp add: apply_with_migration_def) auto
  next
    case (Inr prep)
    obtain m k res where p: "prep = (m, k, res)" by (cases prep)
    from Inr have o: "\<not> hp_closed rt" "\<not> hp_migrating rt" and pr: "prepare_candidate codec cand True rt = Inr prep"
      by (auto simp: bindr_def assert_open_def split: sum.splits if_splits)
    have k: "k = cd_contract cand" using pr
      by (auto simp: p prepare_candidate_def freeze_contract_def Let_def bindr_def split: sum.splits if_splits)
    have pf: "prepared_for rt prep" using prepare_typed [OF pr] patch_coreD(5) [OF core] by simp
    have e: "migrate_and_publish prep state migrate rt = (r, rt1)"
      using assms(4) Inr by (simp add: apply_with_migration_def)
    show ?thesis
      using migrate_cases [OF core o pf, of state migrate]
    proof (elim disjE exE conjE)
      fix err rt'
      assume m: "migrate_and_publish prep state migrate rt = (Inl err, rt')"
        and f: "migration_failed (fst (snd prep)) state migrate rt rt'"
      with e have r: "r = Inl err" "rt1 = rt'" by simp_all
      from f consider "rt' = rt" | mig q where "migrate = Some mig" "leases_only (rt\<lparr>hp_migrating := True\<rparr>) q"
        "rt' = q\<lparr>hp_objects := (hp_objects rt)(state := mr_state (mig (hp_objects rt state) (rv_contract (current_rev rt)) k)),
          hp_migrating := False\<rparr>"
        unfolding migration_failed_def p fst_conv snd_conv by blast
      then show ?thesis
      proof cases
        case 2
        have "same_data (current_rev rt) (rev_at q (hp_current rt))"
          using 2(2) patch_coreD(1) [OF core] by (simp add: leases_only_def revisions_kept_def shape_ok_def)
        then show ?thesis using 2 by (simp add: r k leases_only_def same_publication_def)
      qed (simp add: r)
    next
      fix rt'
      assume m: "migrate_and_publish prep state migrate rt = (Inr (Suc (hp_current rt)), rt')"
        and d: "migration_done prep state migrate rt rt'"
      with e have r: "r = Inr (Suc (hp_current rt))" "rt1 = rt'" by simp_all
      from d obtain q v x mig where base: "patch_base q" and mig: "migrate = Some mig"
        and val: "migrated_value (mig (hp_objects rt state) (rv_contract (current_rev rt)) k) = Inr v"
        and lo: "leases_only (rt\<lparr>hp_migrating := True, hp_objects := (hp_objects rt)(state := v), hp_owner := Some state\<rparr>) q"
        and pub: "publishes x prep (Suc (hp_current rt)) q (rt'\<lparr>hp_migrating := True\<rparr>)" and v: "clone_state v = Inr v"
        unfolding migration_done_def p by auto
      have f: "hp_current q = hp_current rt" "hp_owner q = Some state" "hp_objects q state = v"
        using lo by (simp_all add: leases_only_def same_publication_def)
      note c = published_current [OF base pub [unfolded p]]
      have cur: "current_rev rt1 = \<lparr>rv_state_version = Suc (hp_current rt), rv_implementations = m, rv_contract = k,
          rv_resources = res, rv_leases = 0\<rparr>" "hp_current rt1 = Suc (hp_current rt)" "hp_owner rt1 = Some state"
          "hp_objects rt1 state = v"
        using c f by (simp_all add: r)
      note result = prepare_candidate_result [OF pr [unfolded p]]
      have plain: "so_plain v \<and> json_tree (V_obj (so_fields v))" using v by (simp add: clone_state_def split: if_splits)
      have "hp_owner rt2 = Some state \<and> current_schema rt2 = schema_of (cd_contract cand)"
        using since cur(3) k unfolding schema_since_def current_schema_def cur(1) by simp
      moreover have "case cd_resources cand of None \<Rightarrow> rv_resources (current_rev rt1) = rv_resources (current_rev rt)
         | Some data \<Rightarrow> new_resource_store codec data = Inr (rv_resources (current_rev rt1))"
        using result(3) unfolding cur(1) by (auto split: option.splits)
      moreover have "\<exists>mig run. migrate = Some mig \<and> run = mig (hp_objects rt state) (rv_contract (current_rev rt)) (cd_contract cand) \<and>
           (mr_result run = Mig_undefined \<and> hp_objects rt1 state = mr_draft run \<or>
            mr_result run = Mig_value (hp_objects rt1 state))"
        using migrated_value_source [OF val] mig k cur(4) by auto
      moreover have "jget (rv_implementations (current_rev rt1)) i =
          (case map_of (cd_changes cand) i of None \<Rightarrow> jget (rv_implementations (current_rev rt)) i | Some f \<Rightarrow> f)" for i
        using result(2) [of i] unfolding cur(1) by simp
      moreover have "rv_state_version (current_rev rt1) = Suc (hp_current rt)" "rv_contract (current_rev rt1) = cd_contract cand"
        unfolding cur(1) k by simp_all
      moreover have "so_plain (hp_objects rt1 state) \<and> json_tree (V_obj (so_fields (hp_objects rt1 state)))"
        unfolding cur(4) by (rule plain)
      ultimately show ?thesis unfolding r(1) sum.case using cur(2) by auto
    qed
  qed
qed

definition demo_migration :: "nested_call list \<Rightarrow> migration" where
  "demo_migration calls = (\<lambda>draft from_contract to_contract. \<lparr>mr_calls = calls,
     mr_draft = draft\<lparr>so_fields := [(''version'', V_num 2)]\<rparr>, mr_state = draft, mr_result = Mig_undefined\<rparr>)"

definition demo_migrating :: "nat \<Rightarrow> string candidate" where
  "demo_migrating base = (demo_candidate base ''newer'')\<lparr>cd_contract := demo_contract 2\<rparr>"

lemmas migration_eval = patch_eval demo_migrating_def demo_migration_def apply_with_migration_def migrate_and_publish_def
  finish_migration_def migrated_value_def clone_state_def valid_schema_def schema_of_def safe_integer_def

lemma migration_switches_state_and_code_witness:
  "\<exists>rt rt1 rt2. run_events (patch_step demo_codec) [Register ''go'' (Some ''old'')] demo_runtime = Some rt \<and>
     apply_with_migration demo_codec (demo_migrating 0) 7 (Some (demo_migration [])) rt = (Inr 1, rt1) \<and>
     run_events (patch_step demo_codec) [Acquire None] rt1 = Some rt2 \<and>
     jget (rv_implementations (current_rev rt1)) ''go'' = Some ''newer'' \<and>
     hp_owner rt2 = Some 7 \<and> current_schema rt2 = schema_of (demo_contract 2)"
proof -
  have "\<exists>rt rt1 rt2. run_events (patch_step demo_codec) [Register ''go'' (Some ''old'')] demo_runtime = Some rt \<and>
     apply_with_migration demo_codec (demo_migrating 0) 7 (Some (demo_migration [])) rt = (Inr 1, rt1) \<and>
     run_events (patch_step demo_codec) [Acquire None] rt1 = Some rt2"
    by (simp add: migration_eval)
  then obtain rt rt1 rt2 where run: "run_events (patch_step demo_codec) [Register ''go'' (Some ''old'')] demo_runtime = Some rt"
    and a: "apply_with_migration demo_codec (demo_migrating 0) 7 (Some (demo_migration [])) rt = (Inr 1, rt1)"
    and run2: "run_events (patch_step demo_codec) [Acquire None] rt1 = Some rt2"
    by blast
  have "list_all (\<lambda>e. \<not> migration_event e) [Acquire None]" by (simp add: migration_event_def)
  from migration_switches_state_and_code [OF demo_start _ run a run2 this]
  show ?thesis using run a run2 by (auto simp: demo_migrating_def demo_candidate_def)
qed

text \<open>The bound 3 is needed. With a limit of two revisions a request that outlived its lease, and calls
  back during the migration, pins the previous revision: publishing is refused after the state was
  replaced, and the old code stays current over the migrated state.\<close>

lemma migration_torn_at_limit_two:
  "\<exists>rt rt1. run_events (patch_step demo_codec) [Register ''go'' (Some ''old''), Acquire None, Release 0,
       Apply (demo_candidate 0 ''new'')] (demo_runtime\<lparr>hp_max := 2\<rparr>) = Some rt \<and>
     apply_with_migration demo_codec (demo_migrating 1) 7 (Some (demo_migration [Nested_acquire (Some 0)])) rt =
       (Inl Retention_limit, rt1) \<and>
     so_fields (hp_objects rt 7) = [] \<and> so_fields (hp_objects rt1 7) = [(''version'', V_num 2)] \<and>
     hp_current rt1 = hp_current rt \<and> current_schema rt1 = schema_of (demo_contract 1)"
  by (simp add: migration_eval nested_step_def current_schema_def)

end
