(* ===== verification/HotPatchBundles.thy ===== *)
theory HotPatchBundles
  imports HotPatchSafety
begin

text \<open>
  What is built on a hot patch runtime in \<open>src/plugin-kernel\<close>: modules compiled from source
  (\<open>hotPatchModule.ts\<close>), bundles of modules that publish together (\<open>hotPatchBundle.ts\<close>), the lease of
  a running generator (\<open>hotPatchIterator.ts\<close>) and the journal of bundle operations
  (\<open>hotPatchBundleJournal.ts\<close>). Compiling a function is a parameter: it is the JavaScript engine's.
  The entries of a bundle have distinct modules, so a bundle is a list of modules, in the order of its
  entries.
\<close>

section \<open>Modules\<close>

record compiled_module =
  cm_schema_version :: int
  cm_source_hash :: string
  cm_compatibility_hash :: string
  cm_implementations :: "(string, string) jmap"
  cm_dependencies :: "string list"
  cm_function_names :: "string list"
  cm_initialization :: string
  cm_environment :: string
  cm_exported :: "string list"
  cm_resources :: "(string \<times> resource) list option"

record 'f hot_module =
  hm_id :: string
  hm_runtime :: "'f patch_runtime"
  hm_compiled :: compiled_module
  hm_previous :: "compiled_module option"

datatype module_error = Needs_migration | Not_a_function | No_previous_module | Patch patch_error
  | Bundle_busy | Bundle_invalid

definition patch_res :: "(patch_error, 'a) res \<Rightarrow> (module_error, 'a) res" where
  "patch_res r = (case r of Inl e \<Rightarrow> Inl (Patch e) | Inr a \<Rightarrow> Inr a)"

text \<open>\<open>compile source\<close> is the function the source denotes, if it is one.\<close>

type_synonym 'f compiler = "string \<Rightarrow> 'f option"

definition compile_implementation :: "'f compiler \<Rightarrow> string \<Rightarrow> (module_error, 'f) res" where
  "compile_implementation compile source =
     (case compile source of None \<Rightarrow> Inl Not_a_function | Some f \<Rightarrow> Inr f)"

definition compatible :: "compiled_module \<Rightarrow> compiled_module \<Rightarrow> bool" where
  "compatible old new \<longleftrightarrow>
     cm_schema_version new = 1 \<and> cm_compatibility_hash new = cm_compatibility_hash old \<and>
     cm_initialization new = cm_initialization old \<and> cm_environment new = cm_environment old \<and>
     cm_exported new = cm_exported old \<and> cm_dependencies new = cm_dependencies old \<and>
     cm_function_names new = cm_function_names old \<and>
     sort (jkeys (cm_implementations new)) = sort (jkeys (cm_implementations old))"

definition prepare_changes ::
  "'f compiler \<Rightarrow> compiled_module \<Rightarrow> 'f hot_module \<Rightarrow> (module_error, (string \<times> 'f option) list) res" where
  "prepare_changes compile compiled m =
     (if \<not> compatible (hm_compiled m) compiled then Inl Needs_migration
      else map_res (\<lambda>p. bindr (compile_implementation compile (snd p)) (\<lambda>f. Inr (fst p, Some f)))
        (filter (\<lambda>p. jget (cm_implementations (hm_compiled m)) (fst p) \<noteq> Some (snd p)) (cm_implementations compiled)))"

definition module_candidate ::
  "compiled_module \<Rightarrow> (string \<times> 'f option) list \<Rightarrow> nat \<Rightarrow> contract \<Rightarrow> 'f candidate" where
  "module_candidate compiled changes expected contract =
     \<lparr>cd_base = expected, cd_changes = changes, cd_contract = contract, cd_resources = cm_resources compiled\<rparr>"

definition validate_prepared ::
  "resource_codec \<Rightarrow> 'f compiler \<Rightarrow> compiled_module \<Rightarrow> nat \<Rightarrow> contract \<Rightarrow> 'f hot_module \<Rightarrow> (module_error, unit) res" where
  "validate_prepared codec compile compiled expected contract m =
     bindr (prepare_changes compile compiled m) (\<lambda>changes.
       patch_res (validate codec (module_candidate compiled changes expected contract) (hm_runtime m)))"

definition apply_prepared ::
  "resource_codec \<Rightarrow> compiled_module \<Rightarrow> (string \<times> 'f option) list \<Rightarrow> nat \<Rightarrow> contract \<Rightarrow> 'f hot_module \<Rightarrow>
   (module_error, nat) res \<times> 'f hot_module" where
  "apply_prepared codec compiled changes expected contract m =
     (case apply_candidate codec (module_candidate compiled changes expected contract) (hm_runtime m) of
        (Inl e, rt) \<Rightarrow> (Inl (Patch e), m\<lparr>hm_runtime := rt\<rparr>)
      | (Inr n, rt) \<Rightarrow> (Inr n, m\<lparr>hm_runtime := rt, hm_previous := Some (hm_compiled m), hm_compiled := compiled\<rparr>))"

definition module_apply ::
  "resource_codec \<Rightarrow> 'f compiler \<Rightarrow> compiled_module \<Rightarrow> nat \<Rightarrow> contract \<Rightarrow> 'f hot_module \<Rightarrow>
   (module_error, nat) res \<times> 'f hot_module" where
  "module_apply codec compile compiled expected contract m =
     (case prepare_changes compile compiled m of
        Inl e \<Rightarrow> (Inl e, m)
      | Inr changes \<Rightarrow> apply_prepared codec compiled changes expected contract m)"

definition module_apply_migrating ::
  "resource_codec \<Rightarrow> 'f compiler \<Rightarrow> compiled_module \<Rightarrow> nat \<Rightarrow> nat \<Rightarrow> migration option \<Rightarrow> contract \<Rightarrow>
   'f hot_module \<Rightarrow> (module_error, nat) res \<times> 'f hot_module" where
  "module_apply_migrating codec compile compiled expected state migrate contract m =
     (case prepare_changes compile compiled m of
        Inl e \<Rightarrow> (Inl e, m)
      | Inr changes \<Rightarrow>
          (case apply_with_migration codec (module_candidate compiled changes expected contract) state migrate (hm_runtime m) of
             (Inl e, rt) \<Rightarrow> (Inl (Patch e), m\<lparr>hm_runtime := rt\<rparr>)
           | (Inr n, rt) \<Rightarrow>
               (Inr n, m\<lparr>hm_runtime := rt, hm_previous := Some (hm_compiled m), hm_compiled := compiled\<rparr>)))"

definition swap_compiled :: "compiled_module \<Rightarrow> 'f patch_runtime \<Rightarrow> 'f hot_module \<Rightarrow> 'f hot_module" where
  "swap_compiled previous rt m =
     m\<lparr>hm_runtime := rt, hm_compiled := previous, hm_previous := Some (hm_compiled m)\<rparr>"

definition module_rollback :: "nat \<Rightarrow> 'f hot_module \<Rightarrow> (module_error, nat) res \<times> 'f hot_module" where
  "module_rollback expected m =
     (case hm_previous m of
        None \<Rightarrow> (Inl No_previous_module, m)
      | Some previous \<Rightarrow>
          (case rollback expected (hm_runtime m) of
             (Inl e, rt) \<Rightarrow> (Inl (Patch e), m\<lparr>hm_runtime := rt\<rparr>)
           | (Inr n, rt) \<Rightarrow> (Inr n, swap_compiled previous rt m)))"

definition module_rollback_migrating ::
  "nat \<Rightarrow> nat \<Rightarrow> migration option \<Rightarrow> 'f hot_module \<Rightarrow> (module_error, nat) res \<times> 'f hot_module" where
  "module_rollback_migrating expected state migrate m =
     (case hm_previous m of
        None \<Rightarrow> (Inl No_previous_module, m)
      | Some previous \<Rightarrow>
          (case rollback_with_migration expected state migrate (hm_runtime m) of
             (Inl e, rt) \<Rightarrow> (Inl (Patch e), m\<lparr>hm_runtime := rt\<rparr>)
           | (Inr n, rt) \<Rightarrow> (Inr n, swap_compiled previous rt m)))"

section \<open>Bundles\<close>

record bundle_entry =
  be_id :: string
  be_compiled :: compiled_module
  be_expected :: nat
  be_contract :: contract

record 'f patch_bundle =
  bu_entries :: "bundle_entry list"
  bu_modules :: "'f hot_module list"
  bu_active :: bool

definition new_bundle :: "string \<Rightarrow> bundle_entry list \<Rightarrow> 'f hot_module list \<Rightarrow> (module_error, 'f patch_bundle) res" where
  "new_bundle i entries modules =
     (if js_trim i = [] \<or> entries = [] then Inl Bundle_invalid
      else if list_ex (\<lambda>e. js_trim (be_id e) = []) entries \<or> \<not> distinct (map be_id entries) \<or>
        map hm_id modules \<noteq> map be_id entries then Inl Bundle_invalid
      else Inr \<lparr>bu_entries = entries, bu_modules = modules, bu_active = False\<rparr>)"

text \<open>\<open>run\<close> acquires the lease of one module after the other, before the block that releases them on
  an error. The contexts are those of the modules' runtimes.\<close>

fun acquire_all ::
  "nat option list \<Rightarrow> 'f hot_module list \<Rightarrow> (patch_error, nat list) res \<times> 'f hot_module list" where
  "acquire_all (ctx # ctxs) (m # ms) =
     (case acquire ctx (hm_runtime m) of
        Inl e \<Rightarrow> (Inl e, m # ms)
      | Inr (l, rt) \<Rightarrow>
          (case acquire_all ctxs ms of
             (r, ms') \<Rightarrow> (bindr r (\<lambda>ls. Inr (l # ls)), m\<lparr>hm_runtime := rt\<rparr> # ms')))"
| "acquire_all ctxs ms = (Inr [], ms)"

definition release_all :: "nat list \<Rightarrow> 'f hot_module list \<Rightarrow> 'f hot_module list" where
  "release_all ls ms = map2 (\<lambda>l m. m\<lparr>hm_runtime := release l (hm_runtime m)\<rparr>) ls ms"

text \<open>The start of a request: the leases it runs under.\<close>

definition bundle_run ::
  "nat option list \<Rightarrow> 'f patch_bundle \<Rightarrow> (module_error, nat list) res \<times> 'f patch_bundle" where
  "bundle_run ctxs b =
     (if bu_active b then (Inl Bundle_busy, b)
      else case acquire_all ctxs (bu_modules b) of
        (r, ms) \<Rightarrow> (patch_res r, b\<lparr>bu_modules := ms\<rparr>))"

fun prepare_all ::
  "resource_codec \<Rightarrow> 'f compiler \<Rightarrow> bundle_entry list \<Rightarrow> 'f hot_module list \<Rightarrow>
   (module_error, (string \<times> 'f option) list list) res" where
  "prepare_all codec compile (e # es) (m # ms) =
     bindr (prepare_changes compile (be_compiled e) m) (\<lambda>changes.
       bindr (validate_prepared codec compile (be_compiled e) (be_expected e) (be_contract e) m) (\<lambda>_.
         bindr (prepare_all codec compile es ms) (\<lambda>rest. Inr (changes # rest))))"
| "prepare_all codec compile es ms = Inr []"

text \<open>The modules are published one after the other; when one is refused, those before it are rolled
  back, the last one first, and the error of a rollback is dropped. The recursion undoes the first
  module after the later ones.\<close>

fun apply_all ::
  "resource_codec \<Rightarrow> bundle_entry list \<Rightarrow> (string \<times> 'f option) list list \<Rightarrow> 'f hot_module list \<Rightarrow>
   (module_error, nat list) res \<times> 'f hot_module list" where
  "apply_all codec (e # es) (changes # rest) (m # ms) =
     (case apply_prepared codec (be_compiled e) changes (be_expected e) (be_contract e) m of
        (Inl err, m') \<Rightarrow> (Inl err, m' # ms)
      | (Inr n, m') \<Rightarrow>
          (case apply_all codec es rest ms of
             (Inl err, ms') \<Rightarrow> (Inl err, snd (module_rollback n m') # ms')
           | (Inr ns, ms') \<Rightarrow> (Inr (n # ns), m' # ms')))"
| "apply_all codec es rest ms = (Inr [], ms)"

definition bundle_apply ::
  "resource_codec \<Rightarrow> 'f compiler \<Rightarrow> 'f patch_bundle \<Rightarrow>
   (module_error, (string \<times> nat \<times> string) list) res \<times> 'f patch_bundle" where
  "bundle_apply codec compile b =
     (if bu_active b then (Inl Bundle_busy, b)
      else case prepare_all codec compile (bu_entries b) (bu_modules b) of
        Inl e \<Rightarrow> (Inl e, b)
      | Inr prepared \<Rightarrow>
          (case apply_all codec (bu_entries b) prepared (bu_modules b) of
             (r, ms) \<Rightarrow>
               (bindr r (\<lambda>ns. Inr (map2 (\<lambda>e n. (be_id e, n, cm_source_hash (be_compiled e))) (bu_entries b) ns)),
                b\<lparr>bu_modules := ms\<rparr>)))"

section \<open>A bundle publishes all of its modules or none\<close>

definition same_module :: "'f hot_module \<Rightarrow> 'f hot_module \<Rightarrow> bool" where
  "same_module m m' \<longleftrightarrow> hm_id m' = hm_id m \<and> hm_compiled m' = hm_compiled m \<and>
     same_data (current_rev (hm_runtime m)) (current_rev (hm_runtime m')) \<and>
     hp_leases (hm_runtime m') = hp_leases (hm_runtime m)"

lemma same_module_refl [simp]: "same_module m m"
  by (simp add: same_module_def)

text \<open>The implementations of a module after a publication: a function whose source has changed is compiled, and
  the others are those that ran before.\<close>

definition switched_functions :: "'f compiler \<Rightarrow> bundle_entry \<Rightarrow> 'f hot_module \<Rightarrow> 'f hot_module \<Rightarrow> bool" where
  "switched_functions compile e m m' \<longleftrightarrow> (\<forall>i. jget (rv_implementations (current_rev (hm_runtime m'))) i =
     (case jget (cm_implementations (be_compiled e)) i of
        Some source \<Rightarrow> if jget (cm_implementations (hm_compiled m)) i = Some source
          then jget (rv_implementations (current_rev (hm_runtime m))) i else compile source
      | None \<Rightarrow> jget (rv_implementations (current_rev (hm_runtime m))) i))"

definition switched_module ::
  "resource_codec \<Rightarrow> 'f compiler \<Rightarrow> bundle_entry \<Rightarrow> 'f hot_module \<Rightarrow> 'f hot_module \<Rightarrow> bool" where
  "switched_module codec compile e m m' \<longleftrightarrow> hm_id m' = hm_id m \<and> hm_compiled m' = be_compiled e \<and>
     hm_previous m' = Some (hm_compiled m) \<and> hp_current (hm_runtime m') = Suc (hp_current (hm_runtime m)) \<and>
     switched_functions compile e m m' \<and> rv_contract (current_rev (hm_runtime m')) = be_contract e \<and>
     (case cm_resources (be_compiled e) of
        None \<Rightarrow> rv_resources (current_rev (hm_runtime m')) = rv_resources (current_rev (hm_runtime m))
      | Some data \<Rightarrow> new_resource_store codec data = Inr (rv_resources (current_rev (hm_runtime m')))) \<and>
     hp_leases (hm_runtime m') = hp_leases (hm_runtime m)"

text \<open>The changes of a module name the functions whose source is new.\<close>

lemma changes_get:
  assumes "map_res (\<lambda>p. bindr (compile_implementation compile (snd p)) (\<lambda>f. Inr (fst p, Some f)))
      (filter (\<lambda>p. old (fst p) \<noteq> Some (snd p)) sources) = Inr changes" and "distinct (jkeys sources)"
  shows "map_of changes i = (case jget sources i of None \<Rightarrow> None
     | Some source \<Rightarrow> if old i = Some source then None else Some (compile source))"
  using assms
proof (induction sources arbitrary: changes)
  case (Cons p ps)
  obtain j source where p: "p = (j, source)" by force
  have fresh: "jget ps j = None" using Cons.prems(2) by (simp add: p map_of_eq_None_iff)
  show ?case
  proof (cases "old j = Some source")
    case True
    with Cons p fresh show ?thesis by (auto split: option.split)
  next
    case False
    then obtain f rest where f: "compile source = Some f" "changes = (j, Some f) # rest"
      "map_res (\<lambda>p. bindr (compile_implementation compile (snd p)) (\<lambda>f. Inr (fst p, Some f)))
        (filter (\<lambda>p. old (fst p) \<noteq> Some (snd p)) ps) = Inr rest"
      using Cons.prems(1) by (auto simp: p compile_implementation_def bindr_Inr_iff split: option.splits)
    with Cons.IH [OF f(3)] Cons.prems(2) False fresh show ?thesis by (auto simp: p split: option.split)
  qed
qed simp

text \<open>There is room for one more revision than the publication needs.\<close>

definition roomy :: "'f hot_module \<Rightarrow> bool" where
  "roomy m \<longleftrightarrow> patch_ok (hm_runtime m) \<and> pinned_count (hm_runtime m) + 3 \<le> hp_max (hm_runtime m)"

lemma pinned_after_publish:
  assumes "patch_core rt" "publishes r (m, c, res) v rt rt1"
  shows "pinned_count rt1 \<le> pinned_count rt + 1"
proof -
  have core: "patch_core rt" by (rule assms(1))
  have len: "length (hp_revisions rt) = Suc (hp_current rt)" and small: "\<forall>s \<in> set (hp_retained rt). s \<le> hp_current rt"
    using patch_coreD(1) [OF core] by (simp_all add: shape_ok_def)
  let ?P = "\<lambda>s. rv_leases (rev_at rt s) > 0"
  let ?n = "Suc (hp_current rt)"
  define rt' where "rt' = rt\<lparr>hp_previous := Some (hp_current rt), hp_current := ?n,
     hp_revisions := hp_revisions rt @ [\<lparr>rv_state_version = v, rv_implementations = m, rv_contract = c,
       rv_resources = res, rv_leases = 0\<rparr>], hp_retained := hp_retained rt @ [?n]\<rparr>"
  have rt1: "rt1 = collect rt'" using assms(2) by (simp add: publishes_def published_def rt'_def)
  have "filter (\<lambda>s. rv_leases (rev_at rt' s) > 0 \<and> s \<noteq> ?n) (hp_retained rt') = filter ?P (hp_retained rt)"
  proof -
    have "rv_leases (rev_at rt' s) > 0 \<and> s \<noteq> ?n \<longleftrightarrow> ?P s" if "s \<in> set (hp_retained rt)" for s
    proof -
      have "s \<le> hp_current rt" using that small by blast
      then show ?thesis using len by (simp add: rt'_def nth_append)
    qed
    then show ?thesis by (simp add: rt'_def cong: filter_cong)
  qed
  moreover have "pinned_count rt1 \<le> int (length (filter (\<lambda>s. rv_leases (rev_at rt' s) > 0 \<and> s \<noteq> ?n) (hp_retained rt')))"
  proof -
    have "hp_current rt' = ?n" by (simp add: rt'_def)
    moreover have "length (filter Q (filter R xs)) \<le> length (filter Q xs)" for Q R and xs :: "nat list"
      by (metis (no_types, lifting) filter_filter length_filter_le filter_cong conj_commute)
    ultimately show ?thesis by (simp add: rt1 pinned_count_def collect_def [of rt'])
  qed
  moreover have "length (filter ?P (hp_retained rt)) \<le> Suc (length (filter (\<lambda>s. ?P s \<and> s \<noteq> hp_current rt) (hp_retained rt)))"
  proof -
    have "length (filter ?P (hp_retained rt)) \<le> length (filter (\<lambda>s. ?P s \<or> s = hp_current rt) (hp_retained rt))"
      by (induction "hp_retained rt") (auto simp: length_filter_conv_card intro!: card_mono)
    also have "\<dots> \<le> Suc (length (filter (\<lambda>s. ?P s \<and> s \<noteq> hp_current rt) (hp_retained rt)))"
      using patch_coreD(3) [OF core] by (intro length_filter_le_pinned) (simp add: kept_ok_def)
    finally show ?thesis .
  qed
  ultimately show ?thesis by (simp add: pinned_count_def)
qed

lemma rollback_just_published:
  assumes "patch_ok rt" "publishes r (m, c, res) (rv_state_version (current_rev rt)) rt rt1" "patch_ok rt1"
    and "pinned_count rt + 3 \<le> hp_max rt"
  shows "\<exists>rt2. rollback (Suc (hp_current rt)) rt1 = (Inr (Suc (Suc (hp_current rt))), rt2) \<and>
    same_data (current_rev rt) (current_rev rt2) \<and> hp_leases rt2 = hp_leases rt"
proof -
  have core: "patch_core rt" and core1: "patch_core rt1" using assms(1,3) by (simp_all add: patch_ok_def)
  have len: "length (hp_revisions rt) = Suc (hp_current rt)" "length (hp_revisions rt1) = Suc (hp_current rt1)"
    using patch_coreD(1) [OF core] patch_coreD(1) [OF core1] by (simp_all add: shape_ok_def)
  have f: "\<not> hp_closed rt1" "hp_current rt1 = Suc (hp_current rt)" "hp_previous rt1 = Some (hp_current rt)"
    "rev_at rt1 (hp_current rt) = current_rev rt" "rv_state_version (current_rev rt1) = rv_state_version (current_rev rt)"
    "hp_max rt1 = hp_max rt" "hp_leases rt1 = hp_leases rt" "\<not> hp_migrating rt1"
    using assms(2,3) len(1) by (auto simp: publishes_def published_def nth_append patch_ok_def)
  have room: "pinned_count rt1 + 2 \<le> hp_max rt1"
    using pinned_after_publish [OF core assms(2)] assms(4) f(6) by simp
  have roll: "rollback (Suc (hp_current rt)) rt1 = publish (rv_implementations (current_rev rt)) (rv_contract (current_rev rt))
      (rv_resources (current_rev rt)) (rv_state_version (current_rev rt)) rt1"
    using f by (simp add: rollback_def assert_open_def)
  show ?thesis
    using core1 len(2) f room
    by (simp add: roll publish_eq patch_core_def published_def nth_append same_data_def)
qed

lemma module_candidate_simps [simp]:
  "cd_contract (module_candidate compiled changes expected contract) = contract"
  by (simp add: module_candidate_def)

lemma apply_prepared_cases:
  assumes "patch_ok (hm_runtime m)"
  shows "(\<exists>e. apply_prepared codec compiled changes expected contract m = (Inl e, m)) \<or>
    (\<exists>p res rt1. apply_prepared codec compiled changes expected contract m =
        (Inr (Suc (hp_current (hm_runtime m))),
         m\<lparr>hm_runtime := rt1, hm_previous := Some (hm_compiled m), hm_compiled := compiled\<rparr>) \<and>
      prepare_candidate codec (module_candidate compiled changes expected contract) False (hm_runtime m) = Inr (p, contract, res) \<and>
      publishes (Inr (Suc (hp_current (hm_runtime m)))) (p, contract, res)
        (rv_state_version (current_rev (hm_runtime m))) (hm_runtime m) rt1 \<and> patch_ok rt1)"
proof -
  let ?rt = "hm_runtime m" and ?cand = "module_candidate compiled changes expected contract"
  have core: "patch_core ?rt" using assms by (simp add: patch_ok_def)
  consider e where "apply_candidate codec ?cand ?rt = (Inl e, ?rt)" | p c res where
    "prepare_candidate codec ?cand False ?rt = Inr (p, c, res)"
    "publishes (fst (apply_candidate codec ?cand ?rt)) (p, c, res) (rv_state_version (current_rev ?rt)) ?rt
         (snd (apply_candidate codec ?cand ?rt))"
    using apply_cases [OF core, of codec ?cand] by blast
  then show ?thesis
  proof cases
    case 1
    then show ?thesis by (simp add: apply_prepared_def)
  next
    case 2
    have c: "c = contract" using 2(1)
      by (auto simp: prepare_candidate_def freeze_contract_def Let_def bindr_def split: sum.splits if_splits)
    obtain rt1 where a: "apply_candidate codec ?cand ?rt = (Inr (Suc (hp_current ?rt)), rt1)"
      using 2(2) by (cases "apply_candidate codec ?cand ?rt") (simp add: publishes_def)
    have "patch_ok rt1" using apply_core [OF core, of codec ?cand] assms a by (simp add: patch_ok_def)
    then show ?thesis using 2 a c by (auto simp: apply_prepared_def)
  qed
qed

lemma switched_undone:
  assumes "roomy m" and a: "apply_prepared codec compiled changes expected contract m = (Inr n, m')"
  shows "same_module m (snd (module_rollback n m'))"
proof -
  have ok: "patch_ok (hm_runtime m)" using assms(1) by (simp add: roomy_def)
  from apply_prepared_cases [OF ok, of codec compiled changes expected contract] a
  obtain p res rt1 where m': "n = Suc (hp_current (hm_runtime m))"
      "m' = m\<lparr>hm_runtime := rt1, hm_previous := Some (hm_compiled m), hm_compiled := compiled\<rparr>"
    and pub: "publishes (Inr n) (p, contract, res) (rv_state_version (current_rev (hm_runtime m))) (hm_runtime m) rt1"
    and ok1: "patch_ok rt1"
    by auto
  have room: "pinned_count (hm_runtime m) + 3 \<le> hp_max (hm_runtime m)" using assms(1) by (simp add: roomy_def)
  from rollback_just_published [OF ok pub ok1 room] obtain rt2 where
    "rollback (Suc (hp_current (hm_runtime m))) rt1 = (Inr (Suc (Suc (hp_current (hm_runtime m)))), rt2)"
    "same_data (current_rev (hm_runtime m)) (current_rev rt2)" "hp_leases rt2 = hp_leases (hm_runtime m)"
    by blast
  then show ?thesis by (simp add: m' module_rollback_def swap_compiled_def same_module_def)
qed

lemma apply_prepared_switches:
  assumes "patch_ok (hm_runtime m)" and d: "distinct (jkeys (cm_implementations (be_compiled e)))"
    and changes: "prepare_changes compile (be_compiled e) m = Inr changes"
    and a: "apply_prepared codec (be_compiled e) changes (be_expected e) (be_contract e) m = (Inr n, m')"
  shows "switched_module codec compile e m m'"
proof -
  from apply_prepared_cases [OF assms(1), of codec "be_compiled e" changes "be_expected e" "be_contract e"] a
  obtain p res rt1 where m': "m' = m\<lparr>hm_runtime := rt1, hm_previous := Some (hm_compiled m), hm_compiled := be_compiled e\<rparr>"
    and pc: "prepare_candidate codec (module_candidate (be_compiled e) changes (be_expected e) (be_contract e)) False (hm_runtime m) =
      Inr (p, be_contract e, res)"
    and pub: "publishes (Inr n) (p, be_contract e, res) (rv_state_version (current_rev (hm_runtime m))) (hm_runtime m) rt1"
    by auto
  have base: "patch_base (hm_runtime m)" using assms(1) by (simp add: patch_ok_def patch_core_def)
  have leases: "hp_leases rt1 = hp_leases (hm_runtime m)" using pub by (simp add: publishes_def published_def)
  note c = published_current [OF base pub]
  note result = prepare_candidate_result(2,3) [OF pc]
  have "map_of changes i = (case jget (cm_implementations (be_compiled e)) i of None \<Rightarrow> None
     | Some source \<Rightarrow> if jget (cm_implementations (hm_compiled m)) i = Some source then None else Some (compile source))" for i
    using changes by (intro changes_get [OF _ d]) (simp add: prepare_changes_def split: if_splits)
  then have "switched_functions compile e m m'"
    using result(1) unfolding switched_functions_def
    by (simp add: m' c(1) module_candidate_def split: option.split)
  moreover have "case cm_resources (be_compiled e) of None \<Rightarrow> res = rv_resources (current_rev (hm_runtime m))
      | Some data \<Rightarrow> new_resource_store codec data = Inr res"
    using result(2) by (simp add: module_candidate_def)
  ultimately show ?thesis using c leases by (simp add: m' switched_module_def split: option.splits)
qed

text \<open>Every module with the changes that were prepared for it.\<close>

fun prepared_from ::
  "'f compiler \<Rightarrow> bundle_entry list \<Rightarrow> (string \<times> 'f option) list list \<Rightarrow> 'f hot_module list \<Rightarrow> bool" where
  "prepared_from compile (e # es) (changes # rest) (m # ms) =
     (prepare_changes compile (be_compiled e) m = Inr changes \<and> prepared_from compile es rest ms)"
| "prepared_from compile es rest ms = True"

lemma prepare_all_from: "prepare_all codec compile es ms = Inr p \<Longrightarrow> prepared_from compile es p ms"
  by (induction codec compile es ms arbitrary: p rule: prepare_all.induct) (auto simp: bindr_Inr_iff)

definition distinct_functions :: "bundle_entry \<Rightarrow> bool" where
  "distinct_functions e \<longleftrightarrow> distinct (jkeys (cm_implementations (be_compiled e)))"

lemma apply_all_outcome:
  assumes "list_all roomy ms" "length es = length ms" "length rest = length ms"
    and "prepared_from compile es rest ms" "list_all distinct_functions es"
    and "apply_all codec es rest ms = (r, ms')"
  shows "case r of Inl e \<Rightarrow> list_all2 same_module ms ms'
    | Inr ns \<Rightarrow> length ns = length ms \<and> list_all2 (\<lambda>(e, m) m'. switched_module codec compile e m m') (zip es ms) ms'"
  using assms
proof (induction codec es rest ms arbitrary: r ms' rule: apply_all.induct)
  case (1 codec e es changes rest m ms)
  have roomy: "roomy m" "list_all roomy ms" using 1(2) by simp_all
  have same: "list_all2 same_module xs xs" for xs :: "'a hot_module list" by (simp add: list_all2_refl)
  have ok: "patch_ok (hm_runtime m)" using roomy by (simp add: roomy_def)
  consider err where "apply_prepared codec (be_compiled e) changes (be_expected e) (be_contract e) m = (Inl err, m)"
    | n m1 where "apply_prepared codec (be_compiled e) changes (be_expected e) (be_contract e) m = (Inr n, m1)"
    using apply_prepared_cases [OF ok, of codec "be_compiled e" changes "be_expected e" "be_contract e"] by blast
  then show ?case
  proof cases
    case a: 1
    then show ?thesis using 1(7) same by auto
  next
    case a: 2
    obtain r1 ms1 where rec: "apply_all codec es rest ms = (r1, ms1)" by force
    have ih: "case r1 of Inl e \<Rightarrow> list_all2 same_module ms ms1
      | Inr ns \<Rightarrow> length ns = length ms \<and> list_all2 (\<lambda>(e, m) m'. switched_module codec compile e m m') (zip es ms) ms1"
      using 1(1) [OF a [symmetric] refl roomy(2) _ _ _ _ rec] 1(3-6) by simp
    show ?thesis
    proof (cases r1)
      case (Inl err)
      then show ?thesis using 1(7) a rec ih switched_undone [OF roomy(1) a] by auto
    next
      case (Inr ns)
      then show ?thesis using 1(5-7) a rec ih apply_prepared_switches [OF ok _ _ a] by (auto simp: distinct_functions_def)
    qed
  qed
qed auto

lemma map_fst_map2: "length ns = length es \<Longrightarrow> map fst (map2 (\<lambda>e n. (g e, n, h e)) es ns) = map g es"
  by (induction es arbitrary: ns) (auto simp: length_Suc_conv)

lemma prepare_all_length:
  "prepare_all codec compile es ms = Inr p \<Longrightarrow> length es = length ms \<Longrightarrow> length p = length ms"
  by (induction codec compile es ms arbitrary: p rule: prepare_all.induct) (auto simp: bindr_Inr_iff)

text \<open>C21: A bundle publishes all of its modules or none, provided each module has room for one revision more than
  the publication needs (without it the rollback of an earlier module can itself be refused, and its error is
  dropped). When \<open>apply\<close> succeeds every module runs its new code: the compiled source of every
  function whose source has changed, the functions before it for the others, and the new contract and resources.
  When it fails every module runs the functions, the contract, the resources and the state version
  it ran before. The leases of running requests are not touched.\<close>

theorem bundle_all_or_nothing:
  assumes "list_all roomy (bu_modules b)" "length (bu_entries b) = length (bu_modules b)"
    and "list_all distinct_functions (bu_entries b)" and "bundle_apply codec compile b = (r, b')"
  shows "case r of Inl e \<Rightarrow> list_all2 same_module (bu_modules b) (bu_modules b')
    | Inr results \<Rightarrow> map fst results = map be_id (bu_entries b) \<and>
        list_all2 (\<lambda>(e, m) m'. switched_module codec compile e m m') (zip (bu_entries b) (bu_modules b)) (bu_modules b')"
proof -
  have same: "list_all2 same_module (bu_modules b) (bu_modules b)" by (simp add: list_all2_refl)
  show ?thesis
  proof (cases "bu_active b \<or> (\<exists>e. prepare_all codec compile (bu_entries b) (bu_modules b) = Inl e)")
    case True
    then show ?thesis using assms(4) same by (auto simp: bundle_apply_def split: if_splits)
  next
    case False
    then obtain p where p: "prepare_all codec compile (bu_entries b) (bu_modules b) = Inr p"
      by (cases "prepare_all codec compile (bu_entries b) (bu_modules b)") auto
    obtain q ms where a: "apply_all codec (bu_entries b) p (bu_modules b) = (q, ms)" by force
    note out = apply_all_outcome [OF assms(1,2) prepare_all_length [OF p assms(2)] prepare_all_from [OF p] assms(3) a]
    have b': "r = bindr q (\<lambda>ns. Inr (map2 (\<lambda>e n. (be_id e, n, cm_source_hash (be_compiled e))) (bu_entries b) ns))"
      "bu_modules b' = ms"
      using assms(4) False p a by (auto simp: bundle_apply_def)
    show ?thesis
    proof (cases q)
      case (Inl e)
      then show ?thesis using out b' by simp
    next
      case (Inr ns)
      then have "length ns = length (bu_entries b)" using out assms(2) by simp
      then have "map fst (map2 (\<lambda>e n. (be_id e, n, cm_source_hash (be_compiled e))) (bu_entries b) ns) = map be_id (bu_entries b)"
        by (rule map_fst_map2)
      with out show ?thesis unfolding b' Inr bindr_simps sum.case by blast
    qed
  qed
qed

definition demo_compiled :: "string \<Rightarrow> compiled_module" where
  "demo_compiled f = \<lparr>cm_schema_version = 1, cm_source_hash = f, cm_compatibility_hash = [],
     cm_implementations = [(''go'', f)], cm_dependencies = [], cm_function_names = [], cm_initialization = [],
     cm_environment = [], cm_exported = [], cm_resources = None\<rparr>"

definition demo_module :: "string \<Rightarrow> string hot_module" where
  "demo_module i = \<lparr>hm_id = i, hm_runtime = the (run_events (patch_step demo_codec) [Register ''go'' (Some ''old'')]
     demo_runtime), hm_compiled = demo_compiled ''old'', hm_previous = None\<rparr>"

definition demo_entry :: "string \<Rightarrow> nat \<Rightarrow> bundle_entry" where
  "demo_entry i n = \<lparr>be_id = i, be_compiled = demo_compiled ''new'', be_expected = n, be_contract = demo_contract 1\<rparr>"

definition demo_bundle :: "nat \<Rightarrow> string patch_bundle" where
  "demo_bundle n = \<lparr>bu_entries = [demo_entry ''a'' 0, demo_entry ''b'' n],
     bu_modules = [demo_module ''a'', demo_module ''b''], bu_active = False\<rparr>"

lemma demo_module_roomy: "roomy (demo_module i)"
proof -
  obtain rt where rt: "run_events (patch_step demo_codec) [Register ''go'' (Some ''old'')] demo_runtime = Some rt"
    "hp_retained rt = [0]" "hp_current rt = 0" "hp_max rt = 3"
    by (simp add: patch_eval)
  have "patch_ok rt" by (rule patch_run_ok [OF demo_start _ rt(1)]) simp
  then show ?thesis using rt by (simp add: roomy_def demo_module_def pinned_count_def)
qed

lemmas bundle_eval = patch_eval demo_module_def demo_bundle_def demo_entry_def demo_compiled_def bundle_apply_def
  prepare_changes_def compatible_def compile_implementation_def validate_prepared_def validate_def module_candidate_def
  patch_res_def apply_prepared_def

lemma bundle_all_or_nothing_witness:
  "\<exists>results b'. bundle_apply demo_codec Some (demo_bundle 0) = (Inr results, b') \<and>
     map fst results = [''a'', ''b''] \<and> list_all2 (\<lambda>(e, m) m'. switched_module demo_codec Some e m m')
       (zip (bu_entries (demo_bundle 0)) (bu_modules (demo_bundle 0))) (bu_modules b')"
proof -
  have "\<exists>results b'. bundle_apply demo_codec Some (demo_bundle 0) = (Inr results, b')"
    by (simp add: bundle_eval)
  then obtain results b' where r: "bundle_apply demo_codec Some (demo_bundle 0) = (Inr results, b')" by blast
  have "list_all roomy (bu_modules (demo_bundle 0))" "length (bu_entries (demo_bundle 0)) = length (bu_modules (demo_bundle 0))"
    "list_all distinct_functions (bu_entries (demo_bundle 0))"
    using demo_module_roomy by (simp_all add: demo_bundle_def demo_entry_def demo_compiled_def distinct_functions_def)
  from bundle_all_or_nothing [OF this r] show ?thesis
    using r by (auto simp: demo_bundle_def demo_entry_def)
qed

section \<open>A request over a bundle\<close>

lemma acquire_all_error:
  assumes "acquire_all ctxs ms = (Inl e, ms')" "list_all (\<lambda>m. patch_ok (hm_runtime m)) ms"
  shows "\<exists>k < length ms. \<exists>ctx. acquire ctx (hm_runtime (ms ! k)) = Inl e \<and> length ms' = length ms \<and>
    (\<forall>j < k. \<exists>s. s \<in> set (hp_retained (hm_runtime (ms ! j))) \<and>
       hp_leases (hm_runtime (ms' ! j)) = hp_leases (hm_runtime (ms ! j)) @ [\<lparr>pl_revision = s, pl_released = False\<rparr>]) \<and>
    (\<forall>j. k \<le> j \<longrightarrow> ms' ! j = ms ! j)"
  using assms
proof (induction ctxs ms arbitrary: ms' rule: acquire_all.induct)
  case (1 ctx ctxs m ms)
  show ?case
  proof (cases "acquire ctx (hm_runtime m)")
    case (Inl err)
    then show ?thesis using 1(2) by (intro exI [of _ 0]) auto
  next
    case (Inr p)
    then obtain l rt where a: "acquire ctx (hm_runtime m) = Inr (l, rt)" by (cases p) auto
    obtain r ms1 where rec: "acquire_all ctxs ms = (r, ms1)" by force
    have e: "r = Inl e" "ms' = m\<lparr>hm_runtime := rt\<rparr> # ms1" using 1(2) a rec by (auto simp: bindr_Inl_iff)
    have kept: "kept_ok (hm_runtime m)" using 1(3) by (simp add: patch_ok_def patch_core_def patch_base_def)
    have "\<exists>s. s \<in> set (hp_retained (hm_runtime m)) \<and>
        hp_leases rt = hp_leases (hm_runtime m) @ [\<lparr>pl_revision = s, pl_released = False\<rparr>]"
      by (rule acquire_cases [OF a kept]) auto
    then obtain s where s: "s \<in> set (hp_retained (hm_runtime m))"
      "hp_leases rt = hp_leases (hm_runtime m) @ [\<lparr>pl_revision = s, pl_released = False\<rparr>]"
      by blast
    have "acquire_all ctxs ms = (Inl e, ms1)" using rec e(1) by simp
    from 1(1) [OF a refl this] 1(3) obtain k ctx' where k: "k < length ms" "acquire ctx' (hm_runtime (ms ! k)) = Inl e"
      "length ms1 = length ms"
      "\<forall>j < k. \<exists>s. s \<in> set (hp_retained (hm_runtime (ms ! j))) \<and>
       hp_leases (hm_runtime (ms1 ! j)) = hp_leases (hm_runtime (ms ! j)) @ [\<lparr>pl_revision = s, pl_released = False\<rparr>]"
      "\<forall>j. k \<le> j \<longrightarrow> ms1 ! j = ms ! j"
      by auto
    show ?thesis
    proof (intro exI conjI)
      show "Suc k < length (m # ms)" using k(1) by simp
      show "acquire ctx' (hm_runtime ((m # ms) ! Suc k)) = Inl e" using k(2) by simp
      show "length ms' = length (m # ms)" using k(3) e(2) by simp
      show "\<forall>j<Suc k. \<exists>s. s \<in> set (hp_retained (hm_runtime ((m # ms) ! j))) \<and>
         hp_leases (hm_runtime (ms' ! j)) = hp_leases (hm_runtime ((m # ms) ! j)) @ [\<lparr>pl_revision = s, pl_released = False\<rparr>]"
        using k(4) s e(2) by (auto simp: less_Suc_eq_0_disj)
      show "\<forall>j. Suc k \<le> j \<longrightarrow> ms' ! j = (m # ms) ! j" using k(5) e(2) by (auto simp: nth_Cons' Suc_le_eq)
    qed
  qed
qed simp_all

text \<open>C39: A request over a bundle that cannot get all of its leases keeps those it got: when the module at
  place \<open>k\<close> refuses, because it was closed or is migrating, every module before it has one more lease
  that is not released, and the caller gets an error and no handle to release it with.\<close>

theorem bundle_request_leaks:
  assumes "list_all (\<lambda>m. patch_ok (hm_runtime m)) (bu_modules b)"
    and "bundle_run ctxs b = (Inl (Patch e), b')"
  shows "\<exists>k < length (bu_modules b). \<exists>ctx. acquire ctx (hm_runtime (bu_modules b ! k)) = Inl e \<and>
    (\<forall>j < k. \<exists>s. s \<in> set (hp_retained (hm_runtime (bu_modules b ! j))) \<and>
       hp_leases (hm_runtime (bu_modules b' ! j)) =
         hp_leases (hm_runtime (bu_modules b ! j)) @ [\<lparr>pl_revision = s, pl_released = False\<rparr>])"
proof -
  obtain r ms where a: "acquire_all ctxs (bu_modules b) = (r, ms)" by force
  then have "r = Inl e" "bu_modules b' = ms"
    using assms(2) by (auto simp: bundle_run_def patch_res_def split: if_splits sum.splits)
  with acquire_all_error [of ctxs "bu_modules b" e ms] a assms(1) show ?thesis by auto
qed

definition closed_module :: "string hot_module" where
  "closed_module = (demo_module ''b'')\<lparr>hm_runtime := snd (close_runtime (hm_runtime (demo_module ''b'')))\<rparr>"

text \<open>The lease stays for good: a migration of the first module is refused from then on.\<close>

lemma bundle_request_leaks_witness:
  "\<exists>b'. bundle_run [None, None] (demo_bundle 0 \<lparr>bu_modules := [demo_module ''a'', closed_module]\<rparr>) =
       (Inl (Patch Runtime_closed), b') \<and>
     (\<exists>s. hp_leases (hm_runtime (bu_modules b' ! 0)) = [\<lparr>pl_revision = s, pl_released = False\<rparr>]) \<and>
     fst (apply_with_migration demo_codec (demo_migrating 0) 7 (Some (demo_migration [])) (hm_runtime (hd (bu_modules b')))) =
       Inl Must_drain_first"
proof -
  let ?b = "demo_bundle 0 \<lparr>bu_modules := [demo_module ''a'', closed_module]\<rparr>"
  have "\<exists>b'. bundle_run [None, None] ?b = (Inl (Patch Runtime_closed), b') \<and>
     fst (apply_with_migration demo_codec (demo_migrating 0) 7 (Some (demo_migration [])) (hm_runtime (hd (bu_modules b')))) =
       Inl Must_drain_first"
    by (simp add: bundle_run_def bundle_eval closed_module_def migration_eval)
  then obtain b' where b': "bundle_run [None, None] ?b = (Inl (Patch Runtime_closed), b')"
    "fst (apply_with_migration demo_codec (demo_migrating 0) 7 (Some (demo_migration [])) (hm_runtime (hd (bu_modules b')))) =
       Inl Must_drain_first" by blast
  have ok: "patch_ok (hm_runtime (demo_module i))" for i using demo_module_roomy [of i] by (simp add: roomy_def)
  then have "patch_ok (hm_runtime closed_module)"
    using close_core [of "hm_runtime (demo_module ''b'')"] by (simp add: closed_module_def patch_ok_def)
  with ok have "list_all (\<lambda>m. patch_ok (hm_runtime m)) (bu_modules ?b)" by simp
  from bundle_request_leaks [OF this b'(1)] obtain k ctx where
    k: "acquire ctx (hm_runtime (bu_modules ?b ! k)) = Inl Runtime_closed"
    and leak: "\<forall>j < k. \<exists>s. s \<in> set (hp_retained (hm_runtime (bu_modules ?b ! j))) \<and>
      hp_leases (hm_runtime (bu_modules b' ! j)) = hp_leases (hm_runtime (bu_modules ?b ! j)) @ [\<lparr>pl_revision = s, pl_released = False\<rparr>]"
    by blast
  have "acquire ctx (hm_runtime (demo_module ''a'')) \<noteq> Inl Runtime_closed"
    by (cases ctx) (simp_all add: bundle_eval)
  then have "0 < k" using k by (cases k) simp_all
  moreover have "hp_leases (hm_runtime (demo_module ''a'')) = []" by (simp add: bundle_eval)
  ultimately have "\<exists>s. hp_leases (hm_runtime (bu_modules b' ! 0)) = [\<lparr>pl_revision = s, pl_released = False\<rparr>]"
    using leak by auto
  with b' show ?thesis by blast
qed

section \<open>The journal of bundle operations\<close>

text \<open>One file per operation, written to the side and renamed, under a lock of its own: every operation is
  one step. The fingerprint is the digest of the payload.\<close>

datatype journal_state = Journal_pending | Journal_committed | Journal_indeterminate | Journal_failed

record journal_record =
  jr_operation :: string
  jr_fingerprint :: string
  jr_state :: journal_state
  jr_updated :: string
  jr_result :: "json option"
  jr_error :: "string option"

datatype journal_error = Invalid_operation_id | Operation_reused | Operation_exists | No_such_operation
  | Outcome_recorded journal_state | Cannot_reset

type_synonym journal = "(string, journal_record) jmap"

definition is_word :: "char \<Rightarrow> bool" where
  "is_word c \<longleftrightarrow> is_lower c \<or> is_upper c \<or> is_digit c"

definition valid_operation_id :: "string \<Rightarrow> bool" where
  "valid_operation_id i = (case i of [] \<Rightarrow> False
     | c # cs \<Rightarrow> is_word c \<and> int (length cs) \<le> 127 \<and>
         list_all (\<lambda>d. is_word d \<or> d = CHR ''_'' \<or> d = CHR ''-'') cs)"

definition journal_begin ::
  "string \<Rightarrow> string \<Rightarrow> bool \<Rightarrow> string \<Rightarrow> journal \<Rightarrow> (journal_error, journal_record) res \<times> journal" where
  "journal_begin i fingerprint require_new now j =
     (if \<not> valid_operation_id i then (Inl Invalid_operation_id, j)
      else case jget j i of
        Some current \<Rightarrow>
          if jr_fingerprint current \<noteq> fingerprint then (Inl Operation_reused, j)
          else if require_new then (Inl Operation_exists, j)
          else (Inr current, j)
      | None \<Rightarrow>
          (let r = \<lparr>jr_operation = i, jr_fingerprint = fingerprint, jr_state = Journal_pending, jr_updated = now,
             jr_result = None, jr_error = None\<rparr>
           in (Inr r, jset i r j)))"

definition journal_mark ::
  "string \<Rightarrow> journal_state \<Rightarrow> json option \<Rightarrow> string option \<Rightarrow> string \<Rightarrow> journal \<Rightarrow>
   (journal_error, journal_record) res \<times> journal" where
  "journal_mark i st result err now j =
     (if \<not> valid_operation_id i then (Inl Invalid_operation_id, j)
      else case jget j i of
        None \<Rightarrow> (Inl No_such_operation, j)
      | Some current \<Rightarrow>
          if jr_state current \<noteq> Journal_pending
          then (if jr_state current = st then (Inr current, j) else (Inl (Outcome_recorded (jr_state current)), j))
          else if st = Journal_pending then (Inl Cannot_reset, j)
          else
            (let next = current\<lparr>jr_state := st, jr_updated := now, jr_result := result, jr_error := err\<rparr>
             in (Inr next, jset i next j)))"

definition journal_read :: "string \<Rightarrow> journal \<Rightarrow> (journal_error, journal_record option) res" where
  "journal_read i j = (if \<not> valid_operation_id i then Inl Invalid_operation_id else Inr (jget j i))"

datatype journal_event = Journal_begin string string bool string
  | Journal_mark string journal_state "json option" "string option" string

definition journal_step :: "journal_event \<Rightarrow> journal \<Rightarrow> journal option" where
  "journal_step e j =
     (case e of
        Journal_begin i fp new now \<Rightarrow> Some (snd (journal_begin i fp new now j))
      | Journal_mark i st result err now \<Rightarrow> Some (snd (journal_mark i st result err now j)))"

text \<open>An operation keeps its fingerprint, and an outcome that is recorded is final.\<close>

definition journal_since :: "journal \<Rightarrow> journal \<Rightarrow> bool" where
  "journal_since j j' \<longleftrightarrow> (\<forall>i r. jget j i = Some r \<longrightarrow> (\<exists>r'. jget j' i = Some r' \<and>
     jr_fingerprint r' = jr_fingerprint r \<and> (jr_state r \<noteq> Journal_pending \<longrightarrow> r' = r)))"

lemma journal_since_trans: "journal_since j j1 \<Longrightarrow> journal_since j1 j2 \<Longrightarrow> journal_since j j2"
  unfolding journal_since_def by (metis (no_types, lifting))

lemma journal_step_since: "journal_step e j = Some j' \<Longrightarrow> journal_since j j'"
  by (cases e) (auto simp: journal_step_def journal_begin_def journal_mark_def journal_since_def Let_def
      split: option.split if_splits)

interpretation journaling: tracked_machine journal_step "\<lambda>j. True" "\<lambda>e. True" journal_since
  by unfold_locales (auto intro: journal_since_trans journal_step_since simp: journal_since_def [of j j for j])

lemma journal_outcome_final:
  assumes "run_events journal_step es j = Some j'" "jget j i = Some r" "jr_state r \<noteq> Journal_pending"
  shows "jget j' i = Some r"
  using journaling.run_since [OF assms(1) all_allowed] assms(2,3) unfolding journal_since_def by blast

end
