(* ===== verification/HotPatchCalls.thy ===== *)
theory HotPatchCalls
  imports HotPatchSafety
begin

text \<open>
  \<open>src/plugin-kernel/hotPatchIterator.ts\<close>: how long a call of a bound function holds its lease. The
  result may be a plain value, a promise, or a generator whose methods are called later; the lease is
  released when the value is there, when the promise is rejected or fulfilled with a plain value, and
  when the generator is finished and no call of its methods is pending. A machine runs the calls on the
  hot patch runtime together with everything else the program does with it.
\<close>

section \<open>Calls in progress\<close>

datatype result_kind = Plain_value | Thrown | Promised | Generated bool

datatype call_state = Awaiting | Iterating bool bool int | Finished

record running_call =
  ca_lease :: nat
  ca_state :: call_state

record 'f call_world =
  cw_runtime :: "'f patch_runtime"
  cw_calls :: "running_call list"

text \<open>\<open>retainHotPatchResult\<close> on a result: what becomes of the lease. The argument of \<open>Generated\<close> tells an
  asynchronous generator.\<close>

definition retain_result :: "result_kind \<Rightarrow> nat \<Rightarrow> 'f patch_runtime \<Rightarrow> call_state \<times> 'f patch_runtime" where
  "retain_result kind l rt =
     (case kind of
        Promised \<Rightarrow> (Awaiting, rt)
      | Generated asynchronous \<Rightarrow> (Iterating asynchronous False 0, rt)
      | Plain_value \<Rightarrow> (Finished, release l rt)
      | Thrown \<Rightarrow> (Finished, release l rt))"

definition start_call :: "nat option \<Rightarrow> string \<Rightarrow> result_kind \<Rightarrow> 'f call_world \<Rightarrow> 'f call_world" where
  "start_call ctx i kind w =
     (case bound_call ctx i (cw_runtime w) of
        (Inl e, rt) \<Rightarrow> w\<lparr>cw_runtime := rt\<rparr>
      | (Inr (f, l), rt) \<Rightarrow>
          (case retain_result kind l rt of
             (st, rt') \<Rightarrow> w\<lparr>cw_runtime := rt', cw_calls := cw_calls w @ [\<lparr>ca_lease = l, ca_state = st\<rparr>]\<rparr>))"

definition set_call :: "nat \<Rightarrow> call_state \<Rightarrow> 'f call_world \<Rightarrow> 'f call_world" where
  "set_call k st w = w\<lparr>cw_calls := (cw_calls w)[k := (cw_calls w ! k)\<lparr>ca_state := st\<rparr>]\<rparr>"

definition settle_promise :: "nat \<Rightarrow> result_kind \<Rightarrow> 'f call_world \<Rightarrow> 'f call_world" where
  "settle_promise k kind w =
     (case retain_result kind (ca_lease (cw_calls w ! k)) (cw_runtime w) of
        (st, rt) \<Rightarrow> set_call k st (w\<lparr>cw_runtime := rt\<rparr>))"

datatype method_start = Method_runs nat | Already_running | Runs_without_lease | Lease_gone

text \<open>The end of a call of \<open>next\<close>, \<open>return\<close> or \<open>throw\<close>: \<open>Some True\<close> for a result that is done, \<open>None\<close> for
  an error. The start of such a call.\<close>

definition end_method :: "nat \<Rightarrow> bool option \<Rightarrow> 'f call_world \<Rightarrow> 'f call_world" where
  "end_method k result w =
     (let c = cw_calls w ! k in
      case ca_state c of
        Iterating asynchronous completed pending \<Rightarrow>
          (let completed' = (completed \<or> result \<noteq> Some False); pending' = pending - 1
           in if completed' \<and> pending' = 0
              then set_call k Finished (w\<lparr>cw_runtime := release (ca_lease c) (cw_runtime w)\<rparr>)
              else set_call k (Iterating asynchronous completed' pending') w)
      | _ \<Rightarrow> w)"

definition begin_method :: "nat \<Rightarrow> 'f call_world \<Rightarrow> method_start \<times> 'f call_world" where
  "begin_method k w =
     (let c = cw_calls w ! k in
      case ca_state c of
        Iterating asynchronous completed pending \<Rightarrow>
          if \<not> asynchronous \<and> pending > 0 then (Already_running, w)
          else (case lease_run (ca_lease c) (cw_runtime w) of
                  Inl e \<Rightarrow> (Lease_gone, end_method k None (set_call k (Iterating asynchronous completed (pending + 1)) w))
                | Inr s \<Rightarrow> (Method_runs s, set_call k (Iterating asynchronous completed (pending + 1)) w))
      | _ \<Rightarrow> (Runs_without_lease, w))"

section \<open>The machine\<close>

datatype 'f call_event = Start_call "nat option" string result_kind | Settle nat result_kind
  | Begin_method nat | End_method nat "bool option" | Elsewhere "'f patch_event"

definition released :: "nat \<Rightarrow> 'f patch_runtime \<Rightarrow> bool" where
  "released l rt \<longleftrightarrow> pl_released (hp_leases rt ! l)"

text \<open>The rest of the program does not touch the leases of the calls. A promise is not fulfilled with a
  promise, and what has not begun does not end.\<close>

definition call_step :: "resource_codec \<Rightarrow> 'f call_event \<Rightarrow> 'f call_world \<Rightarrow> 'f call_world option" where
  "call_step codec e w =
     (case e of
        Start_call ctx i kind \<Rightarrow> if context_ok ctx (cw_runtime w) then Some (start_call ctx i kind w) else None
      | Settle k kind \<Rightarrow>
          if k < length (cw_calls w) \<and> ca_state (cw_calls w ! k) = Awaiting \<and> kind \<noteq> Promised
          then Some (settle_promise k kind w) else None
      | Begin_method k \<Rightarrow> if k < length (cw_calls w) then Some (snd (begin_method k w)) else None
      | End_method k result \<Rightarrow>
          if k < length (cw_calls w) \<and>
            (case ca_state (cw_calls w ! k) of Iterating a b pending \<Rightarrow> 0 < pending | _ \<Rightarrow> False)
          then Some (end_method k result w) else None
      | Elsewhere pe \<Rightarrow>
          (case patch_step codec pe (cw_runtime w) of
             None \<Rightarrow> None
           | Some rt \<Rightarrow>
               if list_all (\<lambda>c. released (ca_lease c) rt = released (ca_lease c) (cw_runtime w)) (cw_calls w)
               then Some (w\<lparr>cw_runtime := rt\<rparr>) else None))"

definition call_ok :: "'f patch_runtime \<Rightarrow> running_call \<Rightarrow> bool" where
  "call_ok rt c \<longleftrightarrow> ca_lease c < length (hp_leases rt) \<and>
     (released (ca_lease c) rt \<longleftrightarrow> ca_state c = Finished) \<and>
     (case ca_state c of Iterating a completed pending \<Rightarrow> 0 \<le> pending \<and> (completed \<longrightarrow> 0 < pending) | _ \<Rightarrow> True)"

definition calls_ok :: "'f call_world \<Rightarrow> bool" where
  "calls_ok w \<longleftrightarrow> patch_ok (cw_runtime w) \<and> list_all (call_ok (cw_runtime w)) (cw_calls w) \<and>
     distinct (map ca_lease (cw_calls w))"

lemma released_release:
  "l < length (hp_leases rt) \<Longrightarrow> released m (release l rt) \<longleftrightarrow> m = l \<or> released m rt"
  by (auto simp: released_def release_def Let_def add_leases_def nth_list_update)

lemma bound_call_shape:
  assumes "patch_core rt"
  shows "(case fst (bound_call ctx i rt) of
      Inl e \<Rightarrow> \<forall>l < length (hp_leases rt). released l (snd (bound_call ctx i rt)) = released l rt
    | Inr (f, l) \<Rightarrow> l = length (hp_leases rt) \<and> length (hp_leases (snd (bound_call ctx i rt))) = Suc l \<and>
        \<not> released l (snd (bound_call ctx i rt)) \<and>
        (\<forall>l < length (hp_leases rt). released l (snd (bound_call ctx i rt)) = released l rt)) \<and>
    length (hp_leases rt) \<le> length (hp_leases (snd (bound_call ctx i rt)))"
proof (cases "acquire ctx rt")
  case (Inl e)
  then show ?thesis by (simp add: bound_call_def)
next
  case (Inr p)
  then obtain l rt1 where a: "acquire ctx rt = Inr (l, rt1)" by (cases p) auto
  have k: "kept_ok rt" using patch_coreD(3) [OF assms] .
  have rt1: "l = length (hp_leases rt) \<and> (\<exists>s. hp_leases rt1 = hp_leases rt @ [\<lparr>pl_revision = s, pl_released = False\<rparr>])"
    by (rule acquire_cases [OF a k]) auto
  then have r: "\<forall>m < l. released m rt1 = released m rt" "\<not> released l rt1" "length (hp_leases rt1) = Suc l"
    by (auto simp: released_def nth_append)
  then have "\<forall>m < l. released m (release l rt1) = released m rt" "length (hp_leases (release l rt1)) = Suc l"
    using released_release [of l rt1] release_leases_only(2) [of l rt1] by auto
  then show ?thesis using a rt1 r by (auto simp: bound_call_def split: sum.split option.split)
qed

lemma call_ok_since:
  assumes "call_ok rt c" "length (hp_leases rt) \<le> length (hp_leases rt')" "released (ca_lease c) rt' = released (ca_lease c) rt"
  shows "call_ok rt' c"
  using assms by (auto simp: call_ok_def split: call_state.split)

lemma release_calls:
  assumes ok: "patch_ok rt" "l < length (hp_leases rt)"
  shows "patch_ok (release l rt)" "length (hp_leases (release l rt)) = length (hp_leases rt)"
    "released l (release l rt)" "\<And>m. m \<noteq> l \<Longrightarrow> released m (release l rt) = released m rt"
  using release_core [of rt l] release_leases_only(2) [of l rt] released_release [of l rt] assms
  by (simp_all add: patch_ok_def)

lemma map_lease_update: "map ca_lease (cs[k := (cs ! k)\<lparr>ca_state := st\<rparr>]) = map ca_lease cs"
proof (rule nth_equalityI)
  fix i
  assume "i < length (map ca_lease (cs[k := (cs ! k)\<lparr>ca_state := st\<rparr>]))"
  then show "map ca_lease (cs[k := (cs ! k)\<lparr>ca_state := st\<rparr>]) ! i = map ca_lease cs ! i"
    by (cases "i = k") simp_all
qed simp

text \<open>Finishing one call leaves the others as they are: their leases are other leases.\<close>

lemma finish_ok:
  assumes "calls_ok w" "k < length (cw_calls w)"
  shows "calls_ok (set_call k Finished (w\<lparr>cw_runtime := release (ca_lease (cw_calls w ! k)) (cw_runtime w)\<rparr>))"
proof -
  let ?c = "cw_calls w ! k" and ?rt = "cw_runtime w"
  let ?rt' = "release (ca_lease ?c) ?rt"
  have ok: "patch_ok ?rt" and calls: "\<And>j. j < length (cw_calls w) \<Longrightarrow> call_ok ?rt (cw_calls w ! j)"
    and d: "distinct (map ca_lease (cw_calls w))"
    using assms(1) by (auto simp: calls_ok_def list_all_length)
  have l: "ca_lease ?c < length (hp_leases ?rt)" using calls [OF assms(2)] by (simp add: call_ok_def)
  note r = release_calls [OF ok l]
  have "call_ok ?rt' ((cw_calls w)[k := ?c\<lparr>ca_state := Finished\<rparr>] ! j)" if j: "j < length (cw_calls w)" for j
  proof (cases "j = k")
    case True
    then show ?thesis using assms(2) l r(2,3) by (simp add: call_ok_def)
  next
    case False
    then have "ca_lease (cw_calls w ! j) \<noteq> ca_lease ?c"
      using d j assms(2) by (auto simp: distinct_conv_nth)
    then have "call_ok ?rt' (cw_calls w ! j)"
      by (intro call_ok_since [OF calls [OF j]]) (simp_all add: r(2,4))
    then show ?thesis using False by simp
  qed
  moreover have "map ca_lease ((cw_calls w)[k := ?c\<lparr>ca_state := Finished\<rparr>]) = map ca_lease (cw_calls w)"
    by (rule map_lease_update)
  ultimately show ?thesis using r(1) d by (simp add: calls_ok_def set_call_def list_all_length)
qed

lemma iterate_ok:
  assumes "calls_ok w" "k < length (cw_calls w)" "ca_state (cw_calls w ! k) \<noteq> Finished"
    and "0 \<le> pending" "completed \<Longrightarrow> 0 < pending"
  shows "calls_ok (set_call k (Iterating a completed pending) w)"
proof -
  let ?c = "cw_calls w ! k" and ?rt = "cw_runtime w"
  have calls: "\<And>j. j < length (cw_calls w) \<Longrightarrow> call_ok ?rt (cw_calls w ! j)"
    using assms(1) by (auto simp: calls_ok_def list_all_length)
  have "call_ok ?rt (?c\<lparr>ca_state := Iterating a completed pending\<rparr>)"
    using calls [OF assms(2)] assms(3-5) by (simp add: call_ok_def)
  then have "call_ok ?rt ((cw_calls w)[k := ?c\<lparr>ca_state := Iterating a completed pending\<rparr>] ! j)"
    if "j < length (cw_calls w)" for j
    using that calls [OF that] by (cases "j = k") simp_all
  moreover have "map ca_lease ((cw_calls w)[k := ?c\<lparr>ca_state := Iterating a completed pending\<rparr>]) = map ca_lease (cw_calls w)"
    by (rule map_lease_update)
  ultimately show ?thesis using assms(1) by (simp add: calls_ok_def set_call_def list_all_length)
qed

lemma settle_ok:
  assumes "calls_ok w" "k < length (cw_calls w)" "ca_state (cw_calls w ! k) = Awaiting" "kind \<noteq> Promised"
  shows "calls_ok (settle_promise k kind w)"
  using finish_ok [OF assms(1,2)] iterate_ok [OF assms(1,2)] assms(3,4)
  by (cases kind) (simp_all add: settle_promise_def retain_result_def)

lemma start_ok:
  assumes "calls_ok w"
  shows "calls_ok (start_call ctx i kind w)"
proof -
  let ?rt = "cw_runtime w"
  obtain r rt where b: "bound_call ctx i ?rt = (r, rt)" by force
  have core: "patch_core ?rt" and ok: "patch_ok ?rt" using assms by (simp_all add: calls_ok_def patch_ok_def)
  have ok': "patch_ok rt" using bound_call_core [OF core, of ctx i] b ok
    by (simp add: patch_ok_def leases_only_def same_publication_def)
  note sh = bound_call_shape [OF core, of ctx i, unfolded b fst_conv snd_conv]
  have small: "ca_lease c < length (hp_leases ?rt)" if "c \<in> set (cw_calls w)" for c
    using that assms by (auto simp: calls_ok_def list_all_iff call_ok_def)
  have old: "call_ok rt c" if "c \<in> set (cw_calls w)" for c
  proof (rule call_ok_since)
    show "call_ok ?rt c" using that assms by (simp add: calls_ok_def list_all_iff)
    show "length (hp_leases ?rt) \<le> length (hp_leases rt)" using sh by simp
    show "released (ca_lease c) rt = released (ca_lease c) ?rt"
      using sh small [OF that] by (auto split: sum.splits)
  qed
  show ?thesis
  proof (cases r)
    case (Inl e)
    then show ?thesis using b ok' old assms by (simp add: start_call_def calls_ok_def list_all_iff)
  next
    case (Inr p)
    then obtain f l where r: "r = Inr (f, l)" by (cases p) auto
    have l: "l = length (hp_leases ?rt)" "length (hp_leases rt) = Suc l" "\<not> released l rt"
      using sh unfolding r sum.case prod.case by blast+
    let ?w = "w\<lparr>cw_runtime := rt, cw_calls := cw_calls w @ [\<lparr>ca_lease = l, ca_state = Awaiting\<rparr>]\<rparr>"
    have k: "length (cw_calls w) < length (cw_calls ?w)" "cw_calls ?w ! length (cw_calls w) = \<lparr>ca_lease = l, ca_state = Awaiting\<rparr>"
      by simp_all
    have "distinct (map ca_lease (cw_calls w))" using assms by (simp add: calls_ok_def)
    moreover have "l \<notin> set (map ca_lease (cw_calls w))" using small l(1) by (fastforce dest: small)
    ultimately have w: "calls_ok ?w"
      using ok' old l by (auto simp: calls_ok_def list_all_iff call_ok_def)
    have "start_call ctx i kind w = (if kind = Promised then ?w else settle_promise (length (cw_calls w)) kind ?w)"
      by (cases kind) (simp_all add: start_call_def b r retain_result_def settle_promise_def set_call_def)
    then show ?thesis using w settle_ok [OF w k(1)] k(2) by simp
  qed
qed

lemma method_ok:
  assumes "calls_ok w" "k < length (cw_calls w)"
  shows "calls_ok (snd (begin_method k w))"
    and "(case ca_state (cw_calls w ! k) of Iterating a b pending \<Rightarrow> 0 < pending | _ \<Rightarrow> False) \<Longrightarrow>
      calls_ok (end_method k result w)"
proof -
  have c: "call_ok (cw_runtime w) (cw_calls w ! k)" using assms by (simp add: calls_ok_def list_all_length)
  show "calls_ok (snd (begin_method k w))"
  proof (cases "ca_state (cw_calls w ! k)")
    case (Iterating a b p)
    have "lease_run (ca_lease (cw_calls w ! k)) (cw_runtime w) = Inr (pl_revision (hp_leases (cw_runtime w) ! ca_lease (cw_calls w ! k)))"
      using c Iterating by (simp add: call_ok_def lease_run_def released_def)
    then show ?thesis using Iterating assms(1) iterate_ok [OF assms, of "p + 1" b a] c
      by (simp add: begin_method_def call_ok_def)
  qed (use assms(1) in \<open>simp_all add: begin_method_def\<close>)
  show "calls_ok (end_method k result w)"
    if "case ca_state (cw_calls w ! k) of Iterating a b pending \<Rightarrow> 0 < pending | _ \<Rightarrow> False"
  proof (cases "ca_state (cw_calls w ! k)")
    case (Iterating a b p)
    then show ?thesis
      using that finish_ok [OF assms] iterate_ok [OF assms, of "p - 1" "b \<or> result \<noteq> Some False" a]
      by (auto simp: end_method_def Let_def)
  qed (use that in simp_all)
qed

lemma call_step_ok: "calls_ok w \<Longrightarrow> call_step codec e w = Some w' \<Longrightarrow> calls_ok w'"
proof (cases e)
  case (Elsewhere pe)
  assume w: "calls_ok w" and s: "call_step codec e w = Some w'"
  then obtain rt where rt: "patch_step codec pe (cw_runtime w) = Some rt" "w' = w\<lparr>cw_runtime := rt\<rparr>"
    "list_all (\<lambda>c. released (ca_lease c) rt = released (ca_lease c) (cw_runtime w)) (cw_calls w)"
    by (auto simp: call_step_def Elsewhere split: option.splits if_splits)
  have ok: "patch_ok (cw_runtime w)" using w by (simp add: calls_ok_def)
  have "length (hp_leases (cw_runtime w)) \<le> length (hp_leases rt)"
    using patch_step_since [OF ok rt(1)] by (simp add: patch_since_def leases_kept_def)
  then show ?thesis
    using w rt patch_step_ok [OF ok rt(1)]
    by (auto simp: calls_ok_def list_all_iff intro: call_ok_since [of "cw_runtime w"])
next
  case (Begin_method k)
  assume "calls_ok w" "call_step codec e w = Some w'"
  then show ?thesis using Begin_method method_ok(1) [of w k] by (auto simp: call_step_def split: if_splits)
next
  case (End_method k result)
  assume "calls_ok w" "call_step codec e w = Some w'"
  then show ?thesis using End_method method_ok(2) [of w k result] by (auto simp: call_step_def split: if_splits)
next
  case (Settle k kind)
  assume "calls_ok w" "call_step codec e w = Some w'"
  then show ?thesis using Settle settle_ok [of w k kind] by (auto simp: call_step_def split: if_splits)
next
  case (Start_call ctx i kind)
  assume "calls_ok w" "call_step codec e w = Some w'"
  then show ?thesis using Start_call start_ok [of w ctx i kind] by (auto simp: call_step_def split: if_splits)
qed

interpretation calling: event_machine "call_step codec" calls_ok "\<lambda>e. True" for codec
  by unfold_locales (rule call_step_ok)

definition no_calls :: "'f patch_runtime \<Rightarrow> 'f call_world" where
  "no_calls rt = \<lparr>cw_runtime = rt, cw_calls = []\<rparr>"

text \<open>A call holds its lease exactly as long as it needs it: its lease is released if and only if the
  call is finished, that is, its value was there, its promise was settled, or its generator is done or has
  failed and no call of a method is pending; a call that was released is not released again for another,
  a suspended generator always runs under the revision it started with, and that revision is retained.\<close>

lemma call_holds_its_lease:
  assumes "new_patch_runtime codec maximum c data objects = Inr start" "3 \<le> maximum"
    and "run_events (call_step codec) es (no_calls start) = Some w" "k < length (cw_calls w)"
  shows "(pl_released (hp_leases (cw_runtime w) ! ca_lease (cw_calls w ! k)) \<longleftrightarrow> ca_state (cw_calls w ! k) = Finished) \<and>
    distinct (map ca_lease (cw_calls w)) \<and>
    (ca_state (cw_calls w ! k) \<noteq> Finished \<longrightarrow>
       pl_revision (hp_leases (cw_runtime w) ! ca_lease (cw_calls w ! k)) \<in> set (hp_retained (cw_runtime w))) \<and>
    (case ca_state (cw_calls w ! k) of
       Iterating asynchronous completed pending \<Rightarrow>
         fst (begin_method k w) = (if \<not> asynchronous \<and> 0 < pending then Already_running
           else Method_runs (pl_revision (hp_leases (cw_runtime w) ! ca_lease (cw_calls w ! k))))
     | _ \<Rightarrow> True)"
proof -
  have "calls_ok (no_calls start)"
    using new_patch_runtime_ok [OF assms(1,2)] by (simp add: calls_ok_def no_calls_def)
  then have w: "calls_ok w" using calling.run_keeps [OF assms(3) all_allowed] by blast
  then have c: "call_ok (cw_runtime w) (cw_calls w ! k)" and ok: "patch_ok (cw_runtime w)"
    and d: "distinct (map ca_lease (cw_calls w))"
    using assms(4) by (simp_all add: calls_ok_def list_all_length)
  have l: "ca_lease (cw_calls w ! k) < length (hp_leases (cw_runtime w))"
    and r: "pl_released (hp_leases (cw_runtime w) ! ca_lease (cw_calls w ! k)) \<longleftrightarrow> ca_state (cw_calls w ! k) = Finished"
    using c by (simp_all add: call_ok_def released_def)
  show ?thesis
    using r d open_lease_retained(1) [OF ok l]
    by (auto simp: begin_method_def Let_def lease_run_def split: call_state.split)
qed

lemma call_holds_its_lease_witness:
  "\<exists>w. run_events (call_step demo_codec) [Elsewhere (Register ''go'' (Some ''old'')), Start_call None ''go'' (Generated False),
       Begin_method 0, End_method 0 (Some False), Elsewhere (Apply (demo_candidate 0 ''new''))] (no_calls demo_runtime) = Some w \<and>
     fst (begin_method 0 w) = Method_runs 0 \<and> 0 \<in> set (hp_retained (cw_runtime w))"
proof -
  have "\<exists>w. run_events (call_step demo_codec) [Elsewhere (Register ''go'' (Some ''old'')), Start_call None ''go'' (Generated False),
       Begin_method 0, End_method 0 (Some False), Elsewhere (Apply (demo_candidate 0 ''new''))] (no_calls demo_runtime) = Some w \<and>
     cw_calls w = [\<lparr>ca_lease = 0, ca_state = Iterating False False 0\<rparr>] \<and>
     pl_revision (hp_leases (cw_runtime w) ! 0) = 0"
    by (simp add: patch_eval call_step_def no_calls_def start_call_def bound_call_def lease_run_def retain_result_def
        begin_method_def end_method_def set_call_def released_def)
  then obtain w where w: "run_events (call_step demo_codec) [Elsewhere (Register ''go'' (Some ''old'')), Start_call None ''go'' (Generated False),
       Begin_method 0, End_method 0 (Some False), Elsewhere (Apply (demo_candidate 0 ''new''))] (no_calls demo_runtime) = Some w"
    "cw_calls w = [\<lparr>ca_lease = 0, ca_state = Iterating False False 0\<rparr>]" "pl_revision (hp_leases (cw_runtime w) ! 0) = 0"
    by blast
  from call_holds_its_lease [OF demo_start _ w(1), of 0] w show ?thesis by auto
qed

end
