(* ===== verification/RouteIdentity.thy ===== *)
theory RouteIdentity
  imports Prelude
begin

text \<open>
  \<open>src/shared/routeIdentity.ts\<close>: the names of routes and personas that are made safe as names of files,
  and the two parts of the id of a running route.
\<close>

section \<open>Names\<close>

text \<open>\<open>\p{L}\<close> and \<open>\p{N}\<close> for code units below 256.\<close>

definition unicode_letter :: "char \<Rightarrow> bool" where
  "unicode_letter c \<longleftrightarrow> (let n = of_char c :: nat in
     (65 \<le> n \<and> n \<le> 90) \<or> (97 \<le> n \<and> n \<le> 122) \<or> n \<in> {170, 181, 186} \<or>
     (192 \<le> n \<and> n \<le> 214) \<or> (216 \<le> n \<and> n \<le> 246) \<or> (248 \<le> n \<and> n \<le> 255))"

definition unicode_number :: "char \<Rightarrow> bool" where
  "unicode_number c \<longleftrightarrow> (let n = of_char c :: nat in (48 \<le> n \<and> n \<le> 57) \<or> n \<in> {178, 179, 185, 188, 189, 190})"

definition name_char :: "char \<Rightarrow> bool" where
  "name_char c \<longleftrightarrow> unicode_letter c \<or> unicode_number c \<or> c = CHR ''_'' \<or> c = CHR ''-''"

text \<open>Replace what is no name character by a dash, and runs of dashes by one.\<close>

fun squeeze_dashes :: "string \<Rightarrow> string" where
  "squeeze_dashes (c # d # cs) =
     (if c = CHR ''-'' \<and> d = CHR ''-'' then squeeze_dashes (d # cs) else c # squeeze_dashes (d # cs))"
| "squeeze_dashes cs = cs"

definition edge_char :: "char \<Rightarrow> bool" where
  "edge_char c \<longleftrightarrow> c = CHR ''-'' \<or> c = CHR ''_''"

definition sanitize_config_name :: "string \<Rightarrow> string" where
  "sanitize_config_name v =
     (let dashed = squeeze_dashes (map (\<lambda>c. if name_char c then c else CHR ''-'') (js_trim v))
      in rev (dropWhile edge_char (rev (dropWhile edge_char dashed))))"

definition sanitize_role_id :: "string \<Rightarrow> string" where
  "sanitize_role_id v = (let t = js_trim v in if t \<noteq> [] \<and> list_all name_char t then t else [])"

text \<open>\<open>split("__")\<close>, into the first part and the parts after it joined again.\<close>

fun split_double :: "string \<Rightarrow> string \<times> string option" where
  "split_double (c # d # cs) =
     (if c = CHR ''_'' \<and> d = CHR ''_'' then ([], Some cs)
      else case split_double (d # cs) of (a, b) \<Rightarrow> (c # a, b))"
| "split_double cs = (cs, None)"

definition route_runtime_parts :: "string \<Rightarrow> string \<times> string" where
  "route_runtime_parts i =
     (let default = (\<lambda>s. if sanitize_config_name s = [] then ''default'' else sanitize_config_name s)
      in case split_double (js_trim i) of
        (a, None) \<Rightarrow> ([], default (js_trim i))
      | (a, Some rest) \<Rightarrow> (sanitize_role_id a, default rest))"

end
