(* ===== verification/RouteCatalog.thy ===== *)
theory RouteCatalog
  imports RouteIdentity
begin

text \<open>
  The route catalog: the configuration files of routes and personas, and the transactions that change
  them (\<open>src/manager/routeCatalogTransaction.ts\<close>, \<open>routeCatalogDurableTransaction.ts\<close>). A transaction
  writes a journal with the contents it is about to change, changes the files, writes a receipt and
  removes the journal; the next one starts by undoing what a crash has left. The route root and the roles root are two directories, neither inside the
  other; a path is a root and the segments below it, and the journals and receipts, which live in a
  directory of the route root that nothing else touches, are kept apart from the files. Every write is
  an effect that can succeed, fail, or be cut off by a crash. The temporary files of atomic writes and the lock
  file of a persona's workflow are not modelled: a crash can leave one behind, and the directory it is in.
\<close>

section \<open>The disk\<close>

datatype catalog_root = Route_root | Roles_root

type_synonym cpath = "catalog_root \<times> string list"

text \<open>A gateway with what the storage looks at; the rest of its fields is text.\<close>

record gateway =
  gw_id :: string
  gw_config_name :: string
  gw_role :: string
  gw_body :: string

record snapshot_view =
  sv_gateways :: "gateway list"
  sv_hash :: string

datatype digest_view = View_replace "gateway list" | View_upsert gateway "string option" | View_remove string
  | View_persona string | View_role_file string string | View_role_folder string | View_capture

record pending_journal =
  pj_operation :: string
  pj_digest :: string
  pj_full :: bool
  pj_files :: "(cpath \<times> string option) list"
  pj_dirs :: "(cpath \<times> bool) list"

record committed_receipt =
  cr_operation :: string
  cr_digest :: string
  cr_hash :: string
  cr_at :: string

text \<open>The data directories themselves may be missing, on an installation that has not been used.
  \<open>None\<close> in the journals and receipts is a file that \<open>JSON.parse\<close> or the validation refuses.\<close>

record catalog_disk =
  cd_roots :: "catalog_root list"
  cd_files :: "(cpath, string) jmap"
  cd_dirs :: "cpath list"
  cd_pending :: "(string, pending_journal option) jmap"
  cd_receipts :: "(string, committed_receipt option) jmap"

definition dir_prefixes :: "cpath \<Rightarrow> cpath list" where
  "dir_prefixes p = map (\<lambda>n. (fst p, take n (snd p))) [1..<Suc (length (snd p))]"

definition make_root :: "catalog_root \<Rightarrow> catalog_disk \<Rightarrow> catalog_disk" where
  "make_root r d = d\<lparr>cd_roots := sadd r (cd_roots d)\<rparr>"

text \<open>\<open>mkdir\<close> with \<open>recursive\<close>.\<close>

definition make_dirs :: "cpath \<Rightarrow> catalog_disk \<Rightarrow> catalog_disk" where
  "make_dirs p d = (make_root (fst p) d)\<lparr>cd_dirs := foldl (\<lambda>ds x. sadd x ds) (cd_dirs d) (dir_prefixes p)\<rparr>"

definition parent_dir :: "cpath \<Rightarrow> cpath" where
  "parent_dir p = (fst p, butlast (snd p))"

definition put_file :: "cpath \<Rightarrow> string \<Rightarrow> catalog_disk \<Rightarrow> catalog_disk" where
  "put_file p c d = (let d1 = make_dirs (parent_dir p) d in d1\<lparr>cd_files := jset p c (cd_files d1)\<rparr>)"

definition drop_file :: "cpath \<Rightarrow> catalog_disk \<Rightarrow> catalog_disk" where
  "drop_file p d = d\<lparr>cd_files := jdel p (cd_files d)\<rparr>"

definition child_of :: "cpath \<Rightarrow> cpath \<Rightarrow> bool" where
  "child_of p q \<longleftrightarrow> fst q = fst p \<and> snd q \<noteq> [] \<and> butlast (snd q) = snd p"

text \<open>\<open>rmdir\<close>; a directory that is not empty or does not exist is left alone.\<close>

definition drop_dir :: "cpath \<Rightarrow> catalog_disk \<Rightarrow> catalog_disk" where
  "drop_dir p d =
     (if list_ex (child_of p) (jkeys (cd_files d) @ cd_dirs d) then d
      else d\<lparr>cd_dirs := removeAll p (cd_dirs d)\<rparr>)"

section \<open>Effects\<close>

datatype disk_io = Op_ok | Op_fails "string option" | Op_crash "string option"

datatype catalog_error = Io_error | Mutation_threw | Journal_invalid | Receipt_invalid
  | Idempotency_conflict | Revision_changed | Read_only | Invalid_name | Name_taken | Gateway_not_found
  | Capture_failed

datatype 'a effect_result = Finished 'a | Threw catalog_error | Crashed

type_synonym 'a effect = "disk_io list \<Rightarrow> catalog_disk \<Rightarrow> 'a effect_result \<times> disk_io list \<times> catalog_disk"

definition give :: "'a \<Rightarrow> 'a effect" where
  "give a = (\<lambda>io d. (Finished a, io, d))"

definition throw :: "catalog_error \<Rightarrow> 'a effect" where
  "throw e = (\<lambda>io d. (Threw e, io, d))"

definition also_then :: "'a effect \<Rightarrow> ('a \<Rightarrow> 'b effect) \<Rightarrow> 'b effect" where
  "also_then m f = (\<lambda>io d.
     (case m io d of
        (Finished a, io', d') \<Rightarrow> f a io' d'
      | (Threw e, io', d') \<Rightarrow> (Threw e, io', d')
      | (Crashed, io', d') \<Rightarrow> (Crashed, io', d')))"

definition looking :: "(catalog_disk \<Rightarrow> 'a effect) \<Rightarrow> 'a effect" where
  "looking f = (\<lambda>io d. f d io d)"

definition from_res :: "(catalog_error, 'a) res \<Rightarrow> 'a effect" where
  "from_res r = (case r of Inl e \<Rightarrow> throw e | Inr a \<Rightarrow> give a)"

text \<open>One call of the file system. A failure or a crash during a write that is not atomic can leave any content.\<close>

definition disk_call :: "(string \<Rightarrow> catalog_disk \<Rightarrow> catalog_disk) \<Rightarrow> (catalog_disk \<Rightarrow> catalog_disk) \<Rightarrow> unit effect" where
  "disk_call torn f = (\<lambda>io d.
     (case io of
        [] \<Rightarrow> (Finished (), [], f d)
      | Op_ok # rest \<Rightarrow> (Finished (), rest, f d)
      | Op_fails None # rest \<Rightarrow> (Threw Io_error, rest, d)
      | Op_fails (Some c) # rest \<Rightarrow> (Threw Io_error, rest, torn c d)
      | Op_crash None # rest \<Rightarrow> (Crashed, rest, d)
      | Op_crash (Some c) # rest \<Rightarrow> (Crashed, rest, torn c d)))"

definition atomic_call :: "(catalog_disk \<Rightarrow> catalog_disk) \<Rightarrow> unit effect" where
  "atomic_call f = disk_call (\<lambda>c d. d) f"

text \<open>A reading of files, which can fail as well.\<close>

definition reading :: "unit effect" where
  "reading = atomic_call (\<lambda>d. d)"

fun each :: "('x \<Rightarrow> unit effect) \<Rightarrow> 'x list \<Rightarrow> unit effect" where
  "each f [] = give ()"
| "each f (x # xs) = also_then (f x) (\<lambda>_. each f xs)"

section \<open>The journal\<close>

datatype catalog_operation = Capture_op "string option"
  | Replace_op "gateway list" string
  | Upsert_op gateway string "string option"
  | Remove_op string string
  | Ensure_persona string
  | Ensure_role_file string string
  | Ensure_role_folder string

text \<open>What is outside the sources: the digest of a canonical text, the order of \<open>localeCompare\<close>, and the
  segments \<open>path.normalize\<close> gives for the file of a role.\<close>

record catalog_env =
  ce_id_digest :: "string \<Rightarrow> string"
  ce_digest :: "digest_view \<Rightarrow> string"
  ce_collate :: "string \<Rightarrow> string \<Rightarrow> bool"
  ce_role_file :: "string \<Rightarrow> string list"

definition path_text :: "cpath \<Rightarrow> string" where
  "path_text p = concat (map (\<lambda>s. CHR ''/'' # s) (snd p))"

text \<open>The order of two absolute paths: that of the roots' texts when the roots differ.\<close>

definition path_le :: "catalog_env \<Rightarrow> cpath \<Rightarrow> cpath \<Rightarrow> bool" where
  "path_le env p q =
     (if fst p = fst q then ce_collate env (path_text p) (path_text q)
      else ce_collate env (case fst p of Route_root \<Rightarrow> ''0'' | Roles_root \<Rightarrow> ''1'')
        (case fst q of Route_root \<Rightarrow> ''0'' | Roles_root \<Rightarrow> ''1''))"

definition immediate_dirs :: "catalog_env \<Rightarrow> catalog_root \<Rightarrow> catalog_disk \<Rightarrow> string list" where
  "immediate_dirs env r d =
     js_sort (ce_collate env) (map (\<lambda>p. hd (snd p)) (filter (\<lambda>p. fst p = r \<and> length (snd p) = 1) (cd_dirs d)))"

definition existing_route_configs :: "catalog_env \<Rightarrow> catalog_disk \<Rightarrow> cpath list" where
  "existing_route_configs env d =
     js_sort (path_le env) (filter (\<lambda>p. jhas (cd_files d) p)
       (map (\<lambda>n. (Route_root, [sanitize_config_name n, ''adapterConfig.json'']))
         (filter (\<lambda>n. sanitize_config_name n \<noteq> []) (immediate_dirs env Route_root d))))"

definition existing_persona_configs :: "catalog_env \<Rightarrow> catalog_disk \<Rightarrow> cpath list" where
  "existing_persona_configs env d =
     js_sort (path_le env) (filter (\<lambda>p. jhas (cd_files d) p)
       (map (\<lambda>n. (Roles_root, [sanitize_role_id n, ''personaConfig.json'']))
         (filter (\<lambda>n. sanitize_role_id n \<noteq> []) (immediate_dirs env Roles_root d))))"

definition operation_targets :: "catalog_env \<Rightarrow> catalog_operation \<Rightarrow> cpath list" where
  "operation_targets env op =
     (case op of
        Ensure_persona role \<Rightarrow>
          (let r = sanitize_role_id role in if r = [] then [] else [(Roles_root, [r, ''personaConfig.json''])])
      | Ensure_role_file role f \<Rightarrow>
          (let r = sanitize_role_id role in if r = [] then [] else [(Roles_root, r # ce_role_file env f)])
      | _ \<Rightarrow> [])"

text \<open>\<open>directoryChainWithin\<close>: from the target up to the root, which is left out.\<close>

definition directory_chain :: "cpath \<Rightarrow> cpath list" where
  "directory_chain p = rev (dir_prefixes p)"

definition operation_dirs :: "catalog_env \<Rightarrow> catalog_operation \<Rightarrow> cpath list" where
  "operation_dirs env op =
     (case op of
        Ensure_persona role \<Rightarrow>
          (let r = sanitize_role_id role in if r = [] then [] else directory_chain (Roles_root, [r]))
      | Ensure_role_file role f \<Rightarrow>
          (let r = sanitize_role_id role in
           if r = [] then [] else directory_chain (parent_dir (Roles_root, r # ce_role_file env f)))
      | Ensure_role_folder role \<Rightarrow>
          (let r = sanitize_role_id role in if r = [] then [] else directory_chain (Roles_root, [r]))
      | _ \<Rightarrow> [])"

definition full_config_set :: "catalog_operation \<Rightarrow> bool" where
  "full_config_set op = (case op of Replace_op c h \<Rightarrow> True | Upsert_op g h p \<Rightarrow> True | Remove_op i h \<Rightarrow> True | _ \<Rightarrow> False)"

definition capture_pending ::
  "catalog_env \<Rightarrow> string \<Rightarrow> catalog_operation \<Rightarrow> string \<Rightarrow> catalog_disk \<Rightarrow> pending_journal" where
  "capture_pending env i op digest d =
     (let full = full_config_set op;
          targets = remdups (operation_targets env op @
            (if full then existing_route_configs env d @ existing_persona_configs env d else []));
          dirs = remdups (map (\<lambda>n. (Route_root, [n])) (immediate_dirs env Route_root d) @
            map (\<lambda>n. (Roles_root, [n])) (immediate_dirs env Roles_root d) @ operation_dirs env op)
      in \<lparr>pj_operation = i, pj_digest = digest, pj_full = full,
          pj_files = map (\<lambda>p. (p, jget (cd_files d) p)) (js_sort (path_le env) targets),
          pj_dirs = map (\<lambda>p. (p, p \<in> set (cd_dirs d))) (js_sort (path_le env) dirs)\<rparr>)"

definition hex_digest :: "string \<Rightarrow> bool" where
  "hex_digest s \<longleftrightarrow> length s = 64 \<and> list_all (\<lambda>c. is_digit c \<or> (CHR ''a'' \<le> c \<and> c \<le> CHR ''f'')) s"

definition validate_pending :: "pending_journal \<Rightarrow> (catalog_error, unit) res" where
  "validate_pending j =
     (if pj_operation j = [] \<or> \<not> hex_digest (pj_digest j) then Inl Journal_invalid
      else if list_ex (\<lambda>f. snd (fst f) = []) (pj_files j) then Inl Journal_invalid
      else if list_ex (\<lambda>f. snd (fst f) = []) (pj_dirs j) then Inl Journal_invalid
      else Inr ())"

text \<open>The longest paths first, so that a directory comes after what is inside it.\<close>

definition longer_first :: "catalog_env \<Rightarrow> cpath \<Rightarrow> cpath \<Rightarrow> bool" where
  "longer_first env p q \<longleftrightarrow> length (path_text q) < length (path_text p) \<or>
     (length (path_text q) = length (path_text p) \<and> path_le env q p)"

definition restore_files :: "catalog_env \<Rightarrow> pending_journal \<Rightarrow> unit effect" where
  "restore_files env j = looking (\<lambda>d.
     let managed = (if pj_full j then existing_route_configs env d @ existing_persona_configs env d else [])
     in also_then (each (\<lambda>p. if jhas (pj_files j) p then give () else atomic_call (drop_file p)) managed) (\<lambda>_.
          each (\<lambda>b. case snd b of None \<Rightarrow> atomic_call (drop_file (fst b))
                     | Some c \<Rightarrow> atomic_call (put_file (fst b) c)) (pj_files j)))"

definition restore_dirs :: "catalog_env \<Rightarrow> pending_journal \<Rightarrow> unit effect" where
  "restore_dirs env j = looking (\<lambda>d.
     let before = map fst (filter snd (pj_dirs j));
         now = remdups (map fst (filter (\<lambda>p. \<not> snd p) (pj_dirs j)) @
           map (\<lambda>n. (Route_root, [n])) (immediate_dirs env Route_root d) @
           map (\<lambda>n. (Roles_root, [n])) (immediate_dirs env Roles_root d))
     in each (\<lambda>p. if p \<in> set before then give () else atomic_call (drop_dir p)) (js_sort (longer_first env) now))"

definition restore_pending :: "catalog_env \<Rightarrow> pending_journal \<Rightarrow> unit effect" where
  "restore_pending env j = also_then (restore_files env j) (\<lambda>_. restore_dirs env j)"

definition read_receipt :: "catalog_env \<Rightarrow> string \<Rightarrow> catalog_disk \<Rightarrow> (catalog_error, committed_receipt option) res" where
  "read_receipt env i d =
     (case jget (cd_receipts d) (ce_id_digest env i) of
        None \<Rightarrow> Inr None
      | Some None \<Rightarrow> Inl Receipt_invalid
      | Some (Some r) \<Rightarrow>
          if cr_operation r \<noteq> i \<or> \<not> hex_digest (cr_digest r) \<or> \<not> hex_digest (cr_hash r) then Inl Receipt_invalid
          else Inr (Some r))"

definition remove_pending :: "string \<Rightarrow> unit effect" where
  "remove_pending name = atomic_call (\<lambda>d. d\<lparr>cd_pending := jdel name (cd_pending d)\<rparr>)"

definition recover_entry :: "catalog_env \<Rightarrow> string \<Rightarrow> unit effect" where
  "recover_entry env name = looking (\<lambda>d.
     (case jget (cd_pending d) name of
        None \<Rightarrow> throw Io_error
      | Some None \<Rightarrow> throw Journal_invalid
      | Some (Some j) \<Rightarrow>
          also_then (from_res (validate_pending j)) (\<lambda>_.
            if name \<noteq> ce_id_digest env (pj_operation j) then throw Journal_invalid
            else also_then (from_res (read_receipt env (pj_operation j) d)) (\<lambda>receipt.
              also_then (if (case receipt of None \<Rightarrow> True | Some r \<Rightarrow> cr_digest r \<noteq> pj_digest j)
                then restore_pending env j else give ()) (\<lambda>_.
                  remove_pending name)))))"

definition recover_transactions :: "catalog_env \<Rightarrow> unit effect" where
  "recover_transactions env = looking (\<lambda>d.
     each (recover_entry env) (js_sort (ce_collate env) (jkeys (cd_pending d))))"

section \<open>The repository of configuration files\<close>

text \<open>What the repository leaves to other parts: the normalisation of the gateways with the assignment
  and validation of their ports, the texts of the files, and the parse that a capture makes. The text of a persona
  is a function of the gateways of its role and of the file that is there; \<open>None\<close> writes nothing. The example
  data of a root, which the installation may have, are directories and files with their contents.\<close>

record repository_env =
  re_normalize :: "gateway list \<Rightarrow> (catalog_error, gateway list) res"
  re_gateway_text :: "gateway \<Rightarrow> string"
  re_persona_text :: "gateway list \<Rightarrow> string option \<Rightarrow> (catalog_error, string option) res"
  re_workflow_text :: "string option \<Rightarrow> (catalog_error, string option) res"
  re_capture :: "catalog_disk \<Rightarrow> (catalog_error, snapshot_view) res"
  re_capture_read_only :: "catalog_disk \<Rightarrow> (catalog_error, snapshot_view) res"
  re_examples :: "catalog_root \<Rightarrow> (string list list \<times> (string list \<times> string) list) option"

text \<open>\<open>ensureDataDirs\<close>: a root that is missing is made with its example data, and both roots are made. Nothing of
  this is in a journal. (The Manager's own settings, which it also installs, are outside the two roots.)\<close>

definition install_root :: "repository_env \<Rightarrow> catalog_root \<Rightarrow> unit effect" where
  "install_root re r = looking (\<lambda>d.
     if r \<in> set (cd_roots d) then give ()
     else (case re_examples re r of
        None \<Rightarrow> give ()
      | Some (dirs, files) \<Rightarrow>
          also_then (atomic_call (make_root r)) (\<lambda>_.
            also_then (each (\<lambda>p. atomic_call (make_dirs (r, p))) dirs) (\<lambda>_.
              each (\<lambda>f. disk_call (put_file (r, fst f)) (put_file (r, fst f) (snd f))) files))))"

definition ensure_data_dirs :: "repository_env \<Rightarrow> unit effect" where
  "ensure_data_dirs re =
     also_then (install_root re Roles_root) (\<lambda>_.
       also_then (install_root re Route_root) (\<lambda>_.
         also_then (atomic_call (make_root Roles_root)) (\<lambda>_. atomic_call (make_root Route_root))))"

text \<open>\<open>capture\<close> of a transaction that may write: \<open>readConfig\<close> makes the data directories and reads the files.\<close>

definition capturing :: "repository_env \<Rightarrow> snapshot_view effect" where
  "capturing re =
     also_then (ensure_data_dirs re) (\<lambda>_. also_then reading (\<lambda>_. looking (\<lambda>d. from_res (re_capture re d))))"

definition capturing_read_only :: "repository_env \<Rightarrow> snapshot_view effect" where
  "capturing_read_only re = also_then reading (\<lambda>_. looking (\<lambda>d. from_res (re_capture_read_only re d)))"

definition adapter_config_path :: "string \<Rightarrow> (catalog_error, cpath) res" where
  "adapter_config_path n =
     (let s = sanitize_config_name n in
      if s = [] then Inl Invalid_name else Inr (Route_root, [s, ''adapterConfig.json'']))"

definition persona_config_path :: "string \<Rightarrow> (catalog_error, cpath) res" where
  "persona_config_path r =
     (let s = sanitize_role_id r in
      if s = [] then Inl Invalid_name else Inr (Roles_root, [s, ''personaConfig.json'']))"

text \<open>\<open>fs.writeFileSync\<close>, which is not atomic, and \<open>unlinkSync\<close> behind \<open>existsSync\<close>, with and without
  a handler that ignores its errors.\<close>

definition write_plain :: "cpath \<Rightarrow> string \<Rightarrow> unit effect" where
  "write_plain p c = also_then (atomic_call (make_dirs (parent_dir p))) (\<lambda>_. disk_call (put_file p) (put_file p c))"

definition unlink_existing :: "cpath \<Rightarrow> unit effect" where
  "unlink_existing p = looking (\<lambda>d. if jhas (cd_files d) p then atomic_call (drop_file p) else give ())"

definition ignoring_errors :: "unit effect \<Rightarrow> unit effect" where
  "ignoring_errors m = (\<lambda>io d. (case m io d of (Threw e, io', d') \<Rightarrow> (Finished (), io', d') | r \<Rightarrow> r))"

definition old_config_name :: "gateway \<Rightarrow> string" where
  "old_config_name raw =
     (let n = snd (route_runtime_parts (gw_id raw)) in if n = [] then sanitize_config_name (gw_config_name raw) else n)"

definition new_config_name :: "gateway \<Rightarrow> string" where
  "new_config_name g = (let n = sanitize_config_name (gw_config_name g) in if n = [] then gw_id g else n)"

definition write_gateway :: "repository_env \<Rightarrow> (string \<times> string) option \<Rightarrow> gateway \<times> gateway \<Rightarrow> unit effect" where
  "write_gateway re scope pair =
     (case pair of (raw, g) \<Rightarrow>
      let name = new_config_name g; old = old_config_name raw
      in if (case scope of None \<Rightarrow> False | Some s \<Rightarrow> name \<noteq> fst s) then give ()
         else also_then
           (if old \<noteq> [] \<and> old \<noteq> name
            then also_then (from_res (adapter_config_path old)) (\<lambda>p. ignoring_errors (unlink_existing p))
            else give ())
           (\<lambda>_. also_then (from_res (adapter_config_path name)) (\<lambda>p. write_plain p (re_gateway_text re g))))"

definition gateway_role :: "gateway \<Rightarrow> string" where
  "gateway_role g =
     (let r = sanitize_role_id (gw_role g) in if r = [] then fst (route_runtime_parts (gw_id g)) else r)"

definition write_persona :: "repository_env \<Rightarrow> string \<Rightarrow> gateway list \<Rightarrow> unit effect" where
  "write_persona re role gs =
     also_then (from_res (persona_config_path role)) (\<lambda>p. looking (\<lambda>d.
       also_then (from_res (re_persona_text re gs (jget (cd_files d) p))) (\<lambda>text.
         case text of None \<Rightarrow> give () | Some c \<Rightarrow> write_plain p c)))"

definition in_scope :: "(string \<times> string) option \<Rightarrow> gateway \<Rightarrow> bool" where
  "in_scope scope g = (case scope of None \<Rightarrow> True | Some s \<Rightarrow> new_config_name g = fst s)"

definition remove_missing :: "catalog_env \<Rightarrow> string list \<Rightarrow> unit effect" where
  "remove_missing env active = looking (\<lambda>d.
     each (\<lambda>n.
         let c = sanitize_config_name n
         in if sanitize_role_id n = [] \<or> c = [] \<or> c \<in> set active then give ()
            else ignoring_errors (unlink_existing (Route_root, [c, ''adapterConfig.json''])))
       (immediate_dirs env Route_root d))"

text \<open>The keys of a \<open>Map\<close> are in the order of their first insertion.\<close>

definition first_seen :: "'a list \<Rightarrow> 'a list" where
  "first_seen xs = rev (remdups (rev xs))"

lemma set_first_seen [simp]: "set (first_seen xs) = set xs" "first_seen [] = []"
  by (simp_all add: first_seen_def)

definition write_config ::
  "catalog_env \<Rightarrow> repository_env \<Rightarrow> gateway list \<Rightarrow> (string \<times> string) option \<Rightarrow> unit effect" where
  "write_config env re gateways scope =
     also_then (from_res (re_normalize re gateways)) (\<lambda>normalized.
       also_then (each (write_gateway re scope) (zip gateways normalized)) (\<lambda>_.
         let mine = filter (\<lambda>g. in_scope scope g \<and> gateway_role g \<noteq> []) normalized
         in also_then (each (\<lambda>r. write_persona re r (filter (\<lambda>g. gateway_role g = r) mine))
               (first_seen (map gateway_role mine))) (\<lambda>_.
              case scope of
                None \<Rightarrow> remove_missing env (map new_config_name normalized)
              | Some s \<Rightarrow>
                  (let previous = snd (route_runtime_parts (snd s))
                   in if previous \<noteq> [] \<and> previous \<noteq> fst s
                      then also_then (from_res (adapter_config_path previous)) unlink_existing
                      else give ()))))"

section \<open>Durable mutations\<close>

record mutation_hooks =
  mh_prepare :: "snapshot_view \<Rightarrow> (catalog_error, unit) res"
  mh_mutate :: "snapshot_view \<Rightarrow> unit effect"

definition truthy :: "string option \<Rightarrow> string option" where
  "truthy p = (case p of None \<Rightarrow> None | Some q \<Rightarrow> if q = [] then None else Some q)"

definition operation_view :: "catalog_operation \<Rightarrow> digest_view" where
  "operation_view op =
     (case op of
        Capture_op r \<Rightarrow> View_capture
      | Replace_op c h \<Rightarrow> View_replace c
      | Upsert_op g h p \<Rightarrow> View_upsert g (truthy p)
      | Remove_op i h \<Rightarrow> View_remove i
      | Ensure_persona r \<Rightarrow> View_persona r
      | Ensure_role_file r f \<Rightarrow> View_role_file r f
      | Ensure_role_folder r \<Rightarrow> View_role_folder r)"

definition write_receipt :: "catalog_env \<Rightarrow> committed_receipt \<Rightarrow> unit effect" where
  "write_receipt env r = atomic_call (\<lambda>d. d\<lparr>cd_receipts := jset (ce_id_digest env (cr_operation r)) (Some r) (cd_receipts d)\<rparr>)"

definition write_pending :: "catalog_env \<Rightarrow> pending_journal \<Rightarrow> unit effect" where
  "write_pending env j = atomic_call (\<lambda>d. d\<lparr>cd_pending := jset (ce_id_digest env (pj_operation j)) (Some j) (cd_pending d)\<rparr>)"

text \<open>The part of the \<open>try\<close> block up to the receipt, and the rest with the \<open>catch\<close> block.\<close>

definition mutate_and_commit ::
  "catalog_env \<Rightarrow> repository_env \<Rightarrow> mutation_hooks \<Rightarrow> string \<Rightarrow> string \<Rightarrow> string \<Rightarrow> snapshot_view \<Rightarrow> snapshot_view effect" where
  "mutate_and_commit env re hooks i digest now current =
     also_then (mh_mutate hooks current) (\<lambda>_.
       also_then (capturing re) (\<lambda>snap.
         also_then (write_receipt env \<lparr>cr_operation = i, cr_digest = digest, cr_hash = sv_hash snap, cr_at = now\<rparr>) (\<lambda>_.
           give snap)))"

definition undoing :: "catalog_env \<Rightarrow> pending_journal \<Rightarrow> 'a effect \<Rightarrow> 'a effect" where
  "undoing env j m = (\<lambda>io d.
     (case m io d of
        (Finished a, io', d') \<Rightarrow>
          also_then (remove_pending (ce_id_digest env (pj_operation j))) (\<lambda>_. give a) io' d'
      | (Threw e, io', d') \<Rightarrow>
          also_then (restore_pending env j) (\<lambda>_.
            also_then (remove_pending (ce_id_digest env (pj_operation j))) (\<lambda>_. throw e)) io' d'
      | (Crashed, io', d') \<Rightarrow> (Crashed, io', d')))"

definition execute_mutation ::
  "catalog_env \<Rightarrow> repository_env \<Rightarrow> mutation_hooks \<Rightarrow> string \<Rightarrow> catalog_operation \<Rightarrow> string \<Rightarrow> snapshot_view effect" where
  "execute_mutation env re hooks i op now = looking (\<lambda>d.
     let digest = ce_digest env (operation_view op)
     in also_then (from_res (read_receipt env i d)) (\<lambda>receipt.
          case receipt of
            Some r \<Rightarrow> if cr_digest r \<noteq> digest then throw Idempotency_conflict else capturing re
          | None \<Rightarrow>
              also_then (capturing re) (\<lambda>current.
                also_then (from_res (mh_prepare hooks current)) (\<lambda>_. looking (\<lambda>d.
                  let j = capture_pending env i op digest d
                  in also_then (write_pending env j) (\<lambda>_.
                       undoing env j (mutate_and_commit env re hooks i digest now current)))))))"

section \<open>The transactions\<close>

definition check_hash :: "string \<Rightarrow> snapshot_view \<Rightarrow> (catalog_error, unit) res" where
  "check_hash expected snap =
     (let e = js_trim expected in if e \<noteq> [] \<and> e \<noteq> sv_hash snap then Inl Revision_changed else Inr ())"

definition route_config_name :: "gateway \<Rightarrow> string" where
  "route_config_name g =
     (let n = sanitize_config_name (gw_config_name g) in if n = [] then snd (route_runtime_parts (gw_id g)) else n)"

definition replace_hooks :: "catalog_env \<Rightarrow> repository_env \<Rightarrow> gateway list \<Rightarrow> string \<Rightarrow> mutation_hooks" where
  "replace_hooks env re gateways expected =
     \<lparr>mh_prepare = check_hash expected, mh_mutate = (\<lambda>_. write_config env re gateways None)\<rparr>"

definition upsert_hooks ::
  "catalog_env \<Rightarrow> repository_env \<Rightarrow> gateway \<Rightarrow> string \<Rightarrow> string option \<Rightarrow> mutation_hooks" where
  "upsert_hooks env re g expected previous =
     (let target = route_config_name g;
          hit = (\<lambda>o'. case previous of
             Some p \<Rightarrow> gw_id o' = p
           | None \<Rightarrow> route_config_name o' = target \<or> gw_id o' = gw_id g)
      in \<lparr>mh_prepare = (\<lambda>snap. bindr (check_hash expected snap) (\<lambda>_.
            case previous of
              None \<Rightarrow> Inr ()
            | Some p \<Rightarrow>
                if list_ex (\<lambda>x. route_config_name x = target \<and> gw_id x \<noteq> p) (sv_gateways snap)
                then Inl Name_taken else Inr ())),
          mh_mutate = (\<lambda>snap. write_config env re
            (if list_ex hit (sv_gateways snap) then map (\<lambda>x. if hit x then g else x) (sv_gateways snap)
             else sv_gateways snap @ [g])
            (case previous of None \<Rightarrow> None | Some p \<Rightarrow> Some (target, p)))\<rparr>)"

definition remove_hooks :: "catalog_env \<Rightarrow> repository_env \<Rightarrow> string \<Rightarrow> string \<Rightarrow> mutation_hooks" where
  "remove_hooks env re route expected =
     (let i = js_trim route; hit = (\<lambda>g. gw_id g = i \<or> route_config_name g = i)
      in \<lparr>mh_prepare = (\<lambda>snap. bindr (check_hash expected snap) (\<lambda>_.
            if list_ex hit (sv_gateways snap) then Inr () else Inl Gateway_not_found)),
          mh_mutate = (\<lambda>snap. write_config env re (filter (\<lambda>g. \<not> hit g) (sv_gateways snap)) None)\<rparr>)"

definition ensure_persona_hooks :: "repository_env \<Rightarrow> string \<Rightarrow> mutation_hooks" where
  "ensure_persona_hooks re role =
     \<lparr>mh_prepare = (\<lambda>_. Inr ()),
      mh_mutate = (\<lambda>_. let p = (Roles_root, [role, ''personaConfig.json'']) in
        also_then (looking (\<lambda>d. if jhas (cd_files d) p then give () else write_persona re role [])) (\<lambda>_.
          looking (\<lambda>d. also_then (from_res (re_workflow_text re (jget (cd_files d) p))) (\<lambda>text.
            case text of None \<Rightarrow> give () | Some c \<Rightarrow> atomic_call (put_file p c)))))\<rparr>"

definition ensure_role_file_hooks :: "catalog_env \<Rightarrow> string \<Rightarrow> string \<Rightarrow> mutation_hooks" where
  "ensure_role_file_hooks env role f =
     \<lparr>mh_prepare = (\<lambda>_. Inr ()),
      mh_mutate = (\<lambda>_. let p = (Roles_root, role # ce_role_file env f) in
        also_then (atomic_call (make_dirs (parent_dir p))) (\<lambda>_.
          looking (\<lambda>d. if jhas (cd_files d) p then give () else disk_call (put_file p) (put_file p []))))\<rparr>"

definition ensure_role_folder_hooks :: "string \<Rightarrow> mutation_hooks" where
  "ensure_role_folder_hooks role =
     \<lparr>mh_prepare = (\<lambda>_. Inr ()), mh_mutate = (\<lambda>_. atomic_call (make_dirs (Roles_root, [role])))\<rparr>"

text \<open>\<open>executeRouteCatalogTransaction\<close>: the snapshot, and for a capture that asks for it whether an
  operation is committed.\<close>

record catalog_input =
  ci_operation_id :: string
  ci_operation :: catalog_operation
  ci_read_only :: bool

definition resolve_operation :: "catalog_env \<Rightarrow> string option \<Rightarrow> catalog_disk \<Rightarrow> (catalog_error, (string \<times> bool) option) res" where
  "resolve_operation env asked d =
     (case truthy asked of
        None \<Rightarrow> Inr None
      | Some i \<Rightarrow> bindr (read_receipt env i d) (\<lambda>r. Inr (Some (i, r \<noteq> None))))"

definition operation_hooks :: "catalog_env \<Rightarrow> repository_env \<Rightarrow> catalog_operation \<Rightarrow> (catalog_error, mutation_hooks) res" where
  "operation_hooks env re op =
     (let named = (\<lambda>role f. if sanitize_role_id role = [] then Inl Invalid_name else Inr (f (sanitize_role_id role)))
      in case op of
        Capture_op r \<Rightarrow> Inl Read_only
      | Replace_op gs h \<Rightarrow> Inr (replace_hooks env re gs h)
      | Upsert_op g h p \<Rightarrow>
          if route_config_name g = [] then Inl Invalid_name else Inr (upsert_hooks env re g h (truthy p))
      | Remove_op i h \<Rightarrow> Inr (remove_hooks env re i h)
      | Ensure_persona role \<Rightarrow> named role (ensure_persona_hooks re)
      | Ensure_role_file role f \<Rightarrow> named role (\<lambda>r. ensure_role_file_hooks env r f)
      | Ensure_role_folder role \<Rightarrow> named role ensure_role_folder_hooks)"

definition execute_transaction ::
  "catalog_env \<Rightarrow> repository_env \<Rightarrow> string \<Rightarrow> catalog_input \<Rightarrow> (snapshot_view \<times> (string \<times> bool) option) effect" where
  "execute_transaction env re now inp =
     also_then (recover_transactions env) (\<lambda>_.
       case ci_operation inp of
         Capture_op asked \<Rightarrow>
           also_then (if ci_read_only inp then capturing_read_only re else capturing re) (\<lambda>snap. looking (\<lambda>d.
             also_then (from_res (resolve_operation env asked d)) (\<lambda>resolved. give (snap, resolved))))
       | op \<Rightarrow>
           if ci_read_only inp then throw Read_only
           else also_then (from_res (operation_hooks env re op)) (\<lambda>hooks.
             also_then (execute_mutation env re hooks (ci_operation_id inp) op now) (\<lambda>snap. give (snap, None))))"

end
