(* ===== verification/CatalogRecovery.thy ===== *)
theory CatalogRecovery
  imports RouteCatalog
begin

text \<open>
  What the journal of the route catalog gives back. A logic of effects with three outcomes (returned,
  threw, cut off by a crash), the invariant of the disk, the states a journal can undo, and the proof
  that undoing, interrupted any number of times, ends in exactly the files and directories of the start.
\<close>

declare split_paired_All [simp del] split_paired_Ex [simp del]

section \<open>A logic of effects\<close>

text \<open>From a disk with \<open>P\<close>, a run that returns leaves \<open>F\<close>, one that throws \<open>T\<close>, one that is cut off \<open>C\<close>.\<close>

definition outcome ::
  "('a \<Rightarrow> catalog_disk \<Rightarrow> bool) \<Rightarrow> (catalog_disk \<Rightarrow> bool) \<Rightarrow> (catalog_disk \<Rightarrow> bool) \<Rightarrow> 'a effect_result \<Rightarrow> catalog_disk \<Rightarrow> bool" where
  "outcome F T C r d = (case r of Finished a \<Rightarrow> F a d | Threw e \<Rightarrow> T d | Crashed \<Rightarrow> C d)"

lemma outcome_simps [simp]:
  "outcome F T C (Finished a) d = F a d" "outcome F T C (Threw e) d = T d" "outcome F T C Crashed d = C d"
  by (simp_all add: outcome_def)

definition triple :: "(catalog_disk \<Rightarrow> bool) \<Rightarrow> 'a effect \<Rightarrow> ('a \<Rightarrow> catalog_disk \<Rightarrow> bool) \<Rightarrow>
    (catalog_disk \<Rightarrow> bool) \<Rightarrow> (catalog_disk \<Rightarrow> bool) \<Rightarrow> bool" where
  "triple P m F T C \<longleftrightarrow> (\<forall>io d r io' d'. P d \<longrightarrow> m io d = (r, io', d') \<longrightarrow> outcome F T C r d')"

abbreviation keeps :: "(catalog_disk \<Rightarrow> bool) \<Rightarrow> 'a effect \<Rightarrow> bool" where
  "keeps P m \<equiv> triple P m (\<lambda>_. P) P P"

lemma triple_outcome: "triple P m F T C \<Longrightarrow> P d \<Longrightarrow> m io d = (r, io', d') \<Longrightarrow> outcome F T C r d'"
  unfolding triple_def by blast

lemma tripleI: "(\<And>io d r io' d'. P d \<Longrightarrow> m io d = (r, io', d') \<Longrightarrow> outcome F T C r d') \<Longrightarrow> triple P m F T C"
  unfolding triple_def by blast

lemma outcome_weaken:
  "outcome F' T' C' r d \<Longrightarrow> (\<And>a d. F' a d \<Longrightarrow> F a d) \<Longrightarrow> (\<And>d. T' d \<Longrightarrow> T d) \<Longrightarrow> (\<And>d. C' d \<Longrightarrow> C d) \<Longrightarrow>
   outcome F T C r d"
  by (cases r) simp_all

lemma triple_weaken:
  "triple P' m F' T' C' \<Longrightarrow> (\<And>d. P d \<Longrightarrow> P' d) \<Longrightarrow> (\<And>a d. F' a d \<Longrightarrow> F a d) \<Longrightarrow> (\<And>d. T' d \<Longrightarrow> T d) \<Longrightarrow>
   (\<And>d. C' d \<Longrightarrow> C d) \<Longrightarrow> triple P m F T C"
  by (rule tripleI, rule outcome_weaken, rule triple_outcome)

lemma triple_pre: "triple P' m F T C \<Longrightarrow> (\<And>d. P d \<Longrightarrow> P' d) \<Longrightarrow> triple P m F T C"
  unfolding triple_def by blast

lemma triple_give: "(\<And>d. P d \<Longrightarrow> F a d) \<Longrightarrow> triple P (give a) F T C"
  by (simp add: triple_def give_def)

lemma triple_throw: "(\<And>d. P d \<Longrightarrow> T d) \<Longrightarrow> triple P (throw e) F T C"
  by (simp add: triple_def throw_def)

lemma triple_then:
  assumes m: "triple P m M T C" and f: "\<And>a. triple (M a) (f a) F T C"
  shows "triple P (also_then m f) F T C"
proof (rule tripleI)
  fix io d r io' d' assume P: "P d" and run: "also_then m f io d = (r, io', d')"
  obtain r1 io1 d1 where m1: "m io d = (r1, io1, d1)" by (metis prod_cases3)
  have out: "outcome M T C r1 d1" by (rule triple_outcome [OF m P m1])
  show "outcome F T C r d'"
  proof (cases r1)
    case (Finished a)
    with out have M: "M a d1" by simp
    from Finished run m1 have "f a io1 d1 = (r, io', d')" by (simp add: also_then_def)
    then show ?thesis by (rule triple_outcome [OF f M])
  qed (use run m1 out in \<open>auto simp: also_then_def\<close>)
qed

lemma triple_looking:
  assumes "\<And>d. P d \<Longrightarrow> triple (\<lambda>d'. d' = d) (f d) F T C"
  shows "triple P (looking f) F T C"
proof (rule tripleI)
  fix io d r io' d' assume P: "P d" and run: "looking f io d = (r, io', d')"
  from run have "f d io d = (r, io', d')" by (simp add: looking_def)
  with triple_outcome [OF assms [OF P] refl] show "outcome F T C r d'" by blast
qed

lemma triple_looking_keep:
  assumes "\<And>d. P d \<Longrightarrow> triple P (f d) F T C"
  shows "triple P (looking f) F T C"
  by (rule triple_looking) (use assms in \<open>auto intro: triple_pre\<close>)

lemma triple_from_res:
  assumes "\<And>a d. P d \<Longrightarrow> r = Inr a \<Longrightarrow> F a d" and "\<And>d. P d \<Longrightarrow> T d"
  shows "triple P (from_res r) F T C"
  using assms by (cases r) (auto simp: from_res_def intro: triple_give triple_throw)

lemma triple_disk:
  assumes "\<And>d. P d \<Longrightarrow> F () (f d)" and "\<And>d. P d \<Longrightarrow> T d" and "\<And>d. P d \<Longrightarrow> C d"
    and "\<And>c d. P d \<Longrightarrow> T (torn c d)" and "\<And>c d. P d \<Longrightarrow> C (torn c d)"
  shows "triple P (disk_call torn f) F T C"
proof (rule tripleI)
  fix io d r io' d' assume P: "P d" and run: "disk_call torn f io d = (r, io', d')"
  from run consider "r = Finished ()" "d' = f d" | "r = Threw Io_error" "d' = d" | "r = Crashed" "d' = d"
    | c where "r = Threw Io_error" "d' = torn c d" | c where "r = Crashed" "d' = torn c d"
    by (auto simp: disk_call_def split: list.splits disk_io.splits option.splits)
  then show "outcome F T C r d'" by cases (use P assms in auto)
qed

lemma triple_atomic:
  assumes "\<And>d. P d \<Longrightarrow> F () (f d)" and "\<And>d. P d \<Longrightarrow> T d" and "\<And>d. P d \<Longrightarrow> C d"
  shows "triple P (atomic_call f) F T C"
  unfolding atomic_call_def by (rule triple_disk) (use assms in auto)

lemma triple_each:
  assumes "\<And>ys x zs. xs = ys @ x # zs \<Longrightarrow> triple (J ys) (f x) (\<lambda>_. J (ys @ [x])) T C"
  shows "triple (J []) (each f xs) (\<lambda>_. J xs) T C"
proof -
  have "xs = ys @ zs \<Longrightarrow> triple (J ys) (each f zs) (\<lambda>_. J xs) T C" for ys zs
  proof (induction zs arbitrary: ys)
    case Nil
    then show ?case by (auto intro: triple_give)
  next
    case (Cons x zs)
    have "triple (J ys) (f x) (\<lambda>_. J (ys @ [x])) T C" by (rule assms [OF Cons.prems])
    moreover from Cons.prems have "triple (J (ys @ [x])) (each f zs) (\<lambda>_. J xs) T C"
      by (intro Cons.IH) simp
    ultimately show ?case by (simp add: triple_then [where M = "\<lambda>_. J (ys @ [x])"])
  qed
  from this [of "[]" xs] show ?thesis by simp
qed

lemma keeps_each: "(\<And>x. x \<in> set xs \<Longrightarrow> keeps P (f x)) \<Longrightarrow> keeps P (each f xs)"
  using triple_each [where J = "\<lambda>_. P" and xs = xs and f = f and T = P and C = P] by simp

lemma keeps_ignoring:
  assumes k: "keeps P m"
  shows "keeps P (ignoring_errors m)"
proof (rule tripleI)
  fix io d r io' d' assume P: "P d" and run: "ignoring_errors m io d = (r, io', d')"
  obtain r1 io1 d1 where m1: "m io d = (r1, io1, d1)" by (metis prod_cases3)
  have "outcome (\<lambda>_. P) P P r1 d1" by (rule triple_outcome [OF k P m1])
  with run m1 show "outcome (\<lambda>_. P) P P r d'"
    by (cases r1) (auto simp: ignoring_errors_def)
qed

text \<open>The rules that take an effect apart while one condition is kept.\<close>

lemma keeps_then: "keeps P m \<Longrightarrow> (\<And>a. keeps P (f a)) \<Longrightarrow> keeps P (also_then m f)"
  by (rule triple_then)

lemma keeps_from_res: "keeps P (from_res r)"
  by (rule triple_from_res)

lemma keeps_give: "keeps P (give a)"
  by (rule triple_give)

lemma keeps_throw: "keeps P (throw e)"
  by (rule triple_throw)

lemma keeps_looking: "(\<And>d. P d \<Longrightarrow> keeps P (f d)) \<Longrightarrow> keeps P (looking f)"
  by (rule triple_looking_keep)

lemmas keeps_rules = keeps_then keeps_from_res keeps_give keeps_throw keeps_looking keeps_ignoring keeps_each

section \<open>Names that are names of files\<close>

abbreviation no_double_dash :: "string \<Rightarrow> bool" where
  "no_double_dash \<equiv> successively (\<lambda>c d. \<not> (c = CHR ''-'' \<and> d = CHR ''-''))"

lemma squeeze_Cons: "\<exists>t. squeeze_dashes (c # cs) = c # t"
  by (induction cs arbitrary: c) auto

lemma squeezed: "no_double_dash (squeeze_dashes cs)"
proof (induction cs rule: squeeze_dashes.induct)
  case (1 c d cs)
  obtain t where t: "squeeze_dashes (d # cs) = d # t" using squeeze_Cons by blast
  show ?case
  proof (cases "c = CHR ''-'' \<and> d = CHR ''-''")
    case True
    with 1(1) show ?thesis by simp
  next
    case False
    then have "squeeze_dashes (c # d # cs) = c # d # t" by (simp only: squeeze_dashes.simps if_False t)
    with 1(2) t False show ?thesis by simp
  qed
qed auto

lemma squeeze_id: "no_double_dash cs \<Longrightarrow> squeeze_dashes cs = cs"
  by (induction cs rule: squeeze_dashes.induct) auto

lemma set_squeeze: "set (squeeze_dashes cs) = set cs"
  by (induction cs rule: squeeze_dashes.induct) auto

lemma no_double_dash_rev: "no_double_dash cs \<Longrightarrow> no_double_dash (rev cs)"
  unfolding successively_rev by (erule successively_mono) auto

lemma no_double_dash_dropWhile: "no_double_dash cs \<Longrightarrow> no_double_dash (dropWhile P cs)"
  by (metis successively_append_iff takeWhile_dropWhile_id)

lemma name_char_not_space: "name_char c \<Longrightarrow> \<not> js_space c"
  by (auto simp: name_char_def unicode_letter_def unicode_number_def js_space_def Let_def)

lemma js_trim_no_space:
  assumes "list_all name_char s"
  shows "js_trim s = s"
proof -
  have "dropWhile js_space t = t" if "list_all name_char t" for t
    using that by (cases t) (auto simp: name_char_not_space)
  with assms show ?thesis by (simp add: js_trim_def)
qed

lemma dropWhile_both_id:
  assumes "s = rev (dropWhile P (rev (dropWhile P t)))"
  shows "dropWhile P s = s" and "dropWhile P (rev s) = rev s"
proof -
  show "dropWhile P (rev s) = rev s" by (simp add: assms dropWhile_idem)
  show "dropWhile P s = s"
  proof (cases "s = []")
    case False
    with assms have ne: "dropWhile P (rev (dropWhile P t)) \<noteq> []" by simp
    then have "dropWhile P t \<noteq> []" by (metis dropWhile.simps(1) rev.simps(1))
    then have "\<not> P (hd (dropWhile P t))" by (rule hd_dropWhile)
    with ne have "\<not> P (hd s)" by (simp add: assms hd_dropWhile_rev_dropWhile)
    with False show ?thesis by (cases s) auto
  qed simp
qed

lemma sanitize_config_name_idem [simp]: "sanitize_config_name (sanitize_config_name v) = sanitize_config_name v"
proof -
  let ?t = "squeeze_dashes (map (\<lambda>c. if name_char c then c else CHR ''-'') (js_trim v))"
  let ?s = "sanitize_config_name v"
  have s: "?s = rev (dropWhile edge_char (rev (dropWhile edge_char ?t)))"
    by (simp add: sanitize_config_name_def)
  have "no_double_dash ?s"
    unfolding s by (intro no_double_dash_rev no_double_dash_dropWhile squeezed)
  moreover have "name_char (CHR ''-'')" by (simp add: name_char_def)
  then have t: "list_all name_char ?t" by (auto simp: list_all_iff set_squeeze)
  have names: "list_all name_char ?s"
    unfolding list_all_iff
  proof
    fix c assume "c \<in> set ?s"
    then have "c \<in> set ?t" unfolding s by (metis set_dropWhileD set_rev)
    with t show "name_char c" by (simp add: list_all_iff)
  qed
  moreover from names have "map (\<lambda>c. if name_char c then c else CHR ''-'') ?s = ?s"
    by (simp add: list_all_iff map_idI)
  ultimately show ?thesis
    using dropWhile_both_id [OF s]
    by (simp add: sanitize_config_name_def [of ?s] js_trim_no_space squeeze_id)
qed

lemma sanitize_role_id_idem [simp]: "sanitize_role_id (sanitize_role_id v) = sanitize_role_id v"
  by (auto simp: sanitize_role_id_def Let_def)

section \<open>The invariant of the disk\<close>

text \<open>Both data directories are there, and with every directory and file the directories above it.\<close>

definition both_roots :: "catalog_disk \<Rightarrow> bool" where
  "both_roots d \<longleftrightarrow> Route_root \<in> set (cd_roots d) \<and> Roles_root \<in> set (cd_roots d)"

definition disk_ok :: "catalog_disk \<Rightarrow> bool" where
  "disk_ok d \<longleftrightarrow> both_roots d \<and>
     (\<forall>p. p \<in> set (cd_dirs d) \<longrightarrow> snd p \<noteq> [] \<and> set (dir_prefixes p) \<subseteq> set (cd_dirs d)) \<and>
     (\<forall>p. jhas (cd_files d) p \<longrightarrow> snd p \<noteq> [] \<and> set (dir_prefixes (parent_dir p)) \<subseteq> set (cd_dirs d))"

lemma mem_dir_prefixes:
  "q \<in> set (dir_prefixes p) \<longleftrightarrow> fst q = fst p \<and> (\<exists>n. 0 < n \<and> n \<le> length (snd p) \<and> snd q = take n (snd p))"
proof -
  have "{1..<Suc (length (snd p))} = {n. 0 < n \<and> n \<le> length (snd p)}" by auto
  then show ?thesis
    unfolding dir_prefixes_def set_map set_upt by (auto simp: image_iff prod_eq_iff)
qed

lemma self_prefix: "snd p \<noteq> [] \<Longrightarrow> p \<in> set (dir_prefixes p)"
  unfolding mem_dir_prefixes by (intro conjI exI [of _ "length (snd p)"]) auto

lemma prefix_of_prefix: "q \<in> set (dir_prefixes p) \<Longrightarrow> set (dir_prefixes q) \<subseteq> set (dir_prefixes p)"
  by (auto simp: mem_dir_prefixes min_def intro!: exI split: if_splits)

lemma prefix_not_Nil: "q \<in> set (dir_prefixes p) \<Longrightarrow> snd q \<noteq> []"
  by (auto simp: mem_dir_prefixes)

lemma prefix_child:
  assumes "p \<in> set (dir_prefixes q)" and "p \<noteq> q"
  obtains r where "r \<in> set (dir_prefixes q)" and "child_of p r"
proof -
  from assms(1) obtain n where f: "fst p = fst q" and n: "0 < n" "n \<le> length (snd q)" "snd p = take n (snd q)"
    by (auto simp: mem_dir_prefixes)
  from assms(2) f n have "n < length (snd q)" by (metis le_neq_implies_less order_refl prod_eqI take_all)
  then have "(fst q, take (Suc n) (snd q)) \<in> set (dir_prefixes q)"
    and "child_of p (fst q, take (Suc n) (snd q))"
    using n f by (auto simp: mem_dir_prefixes child_of_def butlast_take intro!: exI [of _ "Suc n"])
  then show thesis by (rule that)
qed

lemma foldl_sadd: "set (foldl (\<lambda>ds x. sadd x ds) ds xs) = set ds \<union> set xs"
  by (induction xs arbitrary: ds) auto

lemma both_roots_make [simp]:
  "both_roots d \<Longrightarrow> make_root r d = d" "both_roots d \<Longrightarrow> both_roots (make_dirs p d)"
  "both_roots d \<Longrightarrow> both_roots (put_file p c d)" "both_roots (drop_file p d) = both_roots d" "both_roots (drop_dir p d) = both_roots d"
  by (cases r; simp add: make_root_def both_roots_def sadd_def)
    (simp_all add: make_dirs_def make_root_def put_file_def drop_file_def drop_dir_def both_roots_def Let_def)

lemma make_dirs_simps [simp]:
  "cd_files (make_dirs p d) = cd_files d" "cd_pending (make_dirs p d) = cd_pending d"
  "cd_receipts (make_dirs p d) = cd_receipts d"
  "set (cd_dirs (make_dirs p d)) = set (cd_dirs d) \<union> set (dir_prefixes p)"
  by (simp_all add: make_dirs_def make_root_def foldl_sadd)

lemma put_file_simps [simp]:
  "cd_files (put_file p c d) = jset p c (cd_files d)" "cd_pending (put_file p c d) = cd_pending d"
  "cd_receipts (put_file p c d) = cd_receipts d"
  "set (cd_dirs (put_file p c d)) = set (cd_dirs d) \<union> set (dir_prefixes (parent_dir p))"
  by (simp_all add: put_file_def Let_def)

lemma drop_file_simps [simp]:
  "cd_files (drop_file p d) = jdel p (cd_files d)" "cd_pending (drop_file p d) = cd_pending d"
  "cd_receipts (drop_file p d) = cd_receipts d" "cd_dirs (drop_file p d) = cd_dirs d"
  by (simp_all add: drop_file_def)

lemma drop_dir_simps [simp]:
  "cd_files (drop_dir p d) = cd_files d" "cd_pending (drop_dir p d) = cd_pending d"
  "cd_receipts (drop_dir p d) = cd_receipts d"
  by (simp_all add: drop_dir_def)

lemma set_drop_dir:
  "set (cd_dirs (drop_dir p d)) =
   (if (\<exists>q. jhas (cd_files d) q \<and> child_of p q) \<or> (\<exists>q. q \<in> set (cd_dirs d) \<and> child_of p q)
    then set (cd_dirs d) else set (cd_dirs d) - {p})"
  by (auto simp: drop_dir_def list_ex_iff jhas_def)

lemma disk_ok_make_dirs: "disk_ok d \<Longrightarrow> disk_ok (make_dirs p d)"
  unfolding disk_ok_def make_dirs_simps using prefix_of_prefix prefix_not_Nil both_roots_make(2) by blast

lemma disk_ok_put_file: "disk_ok d \<Longrightarrow> snd p \<noteq> [] \<Longrightarrow> disk_ok (put_file p c d)"
  unfolding disk_ok_def put_file_simps jhas_jset using prefix_of_prefix prefix_not_Nil both_roots_make(3) by blast

lemma disk_ok_drop_file: "disk_ok d \<Longrightarrow> disk_ok (drop_file p d)"
  unfolding disk_ok_def drop_file_simps jhas_jdel both_roots_make(4) by blast

lemma disk_ok_drop_dir:
  assumes ok: "disk_ok d"
  shows "disk_ok (drop_dir p d)"
proof (cases "(\<exists>q. jhas (cd_files d) q \<and> child_of p q) \<or> (\<exists>q. q \<in> set (cd_dirs d) \<and> child_of p q)")
  case True
  then have "set (cd_dirs (drop_dir p d)) = set (cd_dirs d)" by (simp add: set_drop_dir)
  with ok show ?thesis by (simp add: disk_ok_def)
next
  case False
  then have ds: "set (cd_dirs (drop_dir p d)) = set (cd_dirs d) - {p}" by (simp only: set_drop_dir if_False)
  have keep: "set (dir_prefixes q) \<subseteq> set (cd_dirs d) - {p}"
    if q: "set (dir_prefixes q) \<subseteq> set (cd_dirs d)" "q \<noteq> p" for q
  proof -
    have "p \<notin> set (dir_prefixes q)"
    proof
      assume "p \<in> set (dir_prefixes q)"
      then obtain r where "r \<in> set (dir_prefixes q)" and "child_of p r"
        using prefix_child q(2) by metis
      with q(1) False show False by blast
    qed
    with q(1) show ?thesis by blast
  qed
  have parent: "parent_dir f \<noteq> p" if "jhas (cd_files d) f" for f
  proof
    assume "parent_dir f = p"
    moreover from that ok have "snd f \<noteq> []" unfolding disk_ok_def by blast
    ultimately have "child_of p f" by (auto simp: child_of_def parent_dir_def)
    with False that show False by blast
  qed
  show ?thesis
    unfolding disk_ok_def ds drop_dir_simps both_roots_make(5)
    using ok keep parent unfolding disk_ok_def by blast
qed

section \<open>What a journal can undo\<close>

definition managed_config :: "cpath \<Rightarrow> bool" where
  "managed_config p = (\<exists>s f. snd p = [s, f] \<and> s \<noteq> [] \<and>
     (case fst p of
        Route_root \<Rightarrow> f = ''adapterConfig.json'' \<and> sanitize_config_name s = s
      | Roles_root \<Rightarrow> f = ''personaConfig.json'' \<and> sanitize_role_id s = s))"

lemma managed_config_simps [simp]:
  "managed_config (Route_root, [s, f]) \<longleftrightarrow> s \<noteq> [] \<and> f = ''adapterConfig.json'' \<and> sanitize_config_name s = s"
  "managed_config (Roles_root, [s, f]) \<longleftrightarrow> s \<noteq> [] \<and> f = ''personaConfig.json'' \<and> sanitize_role_id s = s"
  by (auto simp: managed_config_def)

lemma set_immediate_dirs:
  assumes "disk_ok d"
  shows "n \<in> set (immediate_dirs env r d) \<longleftrightarrow> (r, [n]) \<in> set (cd_dirs d)"
proof
  assume "n \<in> set (immediate_dirs env r d)"
  then obtain p where p: "p \<in> set (cd_dirs d)" "fst p = r" "length (snd p) = 1" "n = hd (snd p)"
    by (auto simp: immediate_dirs_def)
  then have "snd p = [n]" by (cases "snd p") auto
  with p show "(r, [n]) \<in> set (cd_dirs d)" by (metis prod.collapse)
qed (force simp: immediate_dirs_def)

definition existing_configs :: "catalog_env \<Rightarrow> catalog_disk \<Rightarrow> cpath list" where
  "existing_configs env d = existing_route_configs env d @ existing_persona_configs env d"

lemma set_existing_configs:
  assumes ok: "disk_ok d"
  shows "p \<in> set (existing_configs env d) \<longleftrightarrow> managed_config p \<and> jhas (cd_files d) p"
proof
  assume "p \<in> set (existing_configs env d)"
  then show "managed_config p \<and> jhas (cd_files d) p"
    by (auto simp: existing_configs_def existing_route_configs_def existing_persona_configs_def)
next
  assume p: "managed_config p \<and> jhas (cd_files d) p"
  then obtain s f where sf: "snd p = [s, f]" "s \<noteq> []"
    and k: "case fst p of Route_root \<Rightarrow> f = ''adapterConfig.json'' \<and> sanitize_config_name s = s
            | Roles_root \<Rightarrow> f = ''personaConfig.json'' \<and> sanitize_role_id s = s"
    unfolding managed_config_def by blast
  from p ok have "set (dir_prefixes (parent_dir p)) \<subseteq> set (cd_dirs d)" by (simp add: disk_ok_def)
  moreover have "(fst p, [s]) \<in> set (dir_prefixes (parent_dir p))"
    using self_prefix [of "parent_dir p"] sf by (simp add: parent_dir_def)
  ultimately have dir: "s \<in> set (immediate_dirs env (fst p) d)"
    by (auto simp: set_immediate_dirs [OF ok])
  have pq: "p = (fst p, [s, f])" using sf(1) by (metis prod.collapse)
  show "p \<in> set (existing_configs env d)"
  proof (cases "fst p")
    case Route_root
    with k have "f = ''adapterConfig.json''" "sanitize_config_name s = s" by simp_all
    with dir p pq sf(2) Route_root show ?thesis
      by (auto simp: existing_configs_def existing_route_configs_def image_iff intro!: bexI [of _ s])
  next
    case Roles_root
    with k have "f = ''personaConfig.json''" "sanitize_role_id s = s" by simp_all
    with dir p pq sf(2) Roles_root show ?thesis
      by (auto simp: existing_configs_def existing_persona_configs_def image_iff intro!: bexI [of _ s])
  qed
qed

text \<open>A journal that records, for an operation, the files and directories of a disk.\<close>

definition journal_of :: "catalog_env \<Rightarrow> catalog_operation \<Rightarrow> catalog_disk \<Rightarrow> pending_journal \<Rightarrow> bool" where
  "journal_of env op d0 j \<longleftrightarrow>
     pj_full j = full_config_set op \<and>
     distinct (jkeys (pj_files j)) \<and> distinct (jkeys (pj_dirs j)) \<and>
     (\<forall>p c. (p, c) \<in> set (pj_files j) \<longrightarrow> c = jget (cd_files d0) p \<and> snd p \<noteq> []) \<and>
     (\<forall>p b. (p, b) \<in> set (pj_dirs j) \<longrightarrow> b = (p \<in> set (cd_dirs d0)) \<and> snd p \<noteq> []) \<and>
     (\<forall>p. p \<in> set (operation_targets env op) \<longrightarrow> jhas (pj_files j) p) \<and>
     (\<forall>p. p \<in> set (operation_dirs env op) \<longrightarrow> jhas (pj_dirs j) p) \<and>
     (\<forall>p. pj_full j \<longrightarrow> managed_config p \<longrightarrow> jhas (cd_files d0) p \<longrightarrow> jhas (pj_files j) p) \<and>
     (\<forall>p. p \<in> set (cd_dirs d0) \<longrightarrow> length (snd p) = 1 \<longrightarrow> jhas (pj_dirs j) p)"

definition paths_ok :: "catalog_env \<Rightarrow> bool" where
  "paths_ok env \<longleftrightarrow> (\<forall>f. ce_role_file env f \<noteq> []) \<and> (\<forall>v. hex_digest (ce_digest env v))"

lemma operation_paths:
  assumes "paths_ok env"
  shows "p \<in> set (operation_targets env op) \<Longrightarrow> snd p \<noteq> []"
    and "p \<in> set (operation_dirs env op) \<Longrightarrow> snd p \<noteq> []"
  using prefix_not_Nil
  by (auto simp: operation_targets_def operation_dirs_def directory_chain_def Let_def
      split: catalog_operation.splits if_splits)

lemma captured:
  assumes ok: "disk_ok d" and env: "paths_ok env"
  shows "journal_of env op d (capture_pending env i op dg d)"
proof -
  let ?j = "capture_pending env i op dg d"
  let ?ts = "remdups (operation_targets env op @ (if full_config_set op then existing_configs env d else []))"
  let ?ds = "remdups (map (\<lambda>n. (Route_root, [n])) (immediate_dirs env Route_root d) @
            map (\<lambda>n. (Roles_root, [n])) (immediate_dirs env Roles_root d) @ operation_dirs env op)"
  have files: "pj_files ?j = map (\<lambda>p. (p, jget (cd_files d) p)) (js_sort (path_le env) ?ts)"
    and dirs: "pj_dirs ?j = map (\<lambda>p. (p, p \<in> set (cd_dirs d))) (js_sort (path_le env) ?ds)"
    and full: "pj_full ?j = full_config_set op"
    by (simp_all only: capture_pending_def Let_def existing_configs_def pending_journal.simps)
  have kf: "jkeys (pj_files ?j) = js_sort (path_le env) ?ts" and kd: "jkeys (pj_dirs ?j) = js_sort (path_le env) ?ds"
    unfolding files dirs by (simp_all add: comp_def)
  have mc: "managed_config p \<Longrightarrow> snd p \<noteq> []" for p by (auto simp: managed_config_def)
  have ts: "p \<in> set ?ts \<Longrightarrow> snd p \<noteq> []" for p
    using mc [of p] operation_paths(1) [OF env, of p op] set_existing_configs [OF ok, of p env] by (auto split: if_splits)
  have ds: "p \<in> set ?ds \<Longrightarrow> snd p \<noteq> []" for p
    using operation_paths(2) [OF env, of p op] by auto
  have one: "p \<in> set ?ds" if "p \<in> set (cd_dirs d)" "length (snd p) = 1" for p
  proof -
    from that(2) obtain n where n: "snd p = [n]" by (auto simp: length_Suc_conv)
    then have p: "p = (fst p, [n])" by (metis prod.collapse)
    with that(1) have "n \<in> set (immediate_dirs env (fst p) d)" by (simp add: set_immediate_dirs [OF ok])
    with p show ?thesis by (cases "fst p") (auto simp: image_iff)
  qed
  show ?thesis
    unfolding journal_of_def
  proof (intro conjI)
    show "distinct (jkeys (pj_files ?j))" "distinct (jkeys (pj_dirs ?j))" by (simp_all add: kf kd)
    show "\<forall>p c. (p, c) \<in> set (pj_files ?j) \<longrightarrow> c = jget (cd_files d) p \<and> snd p \<noteq> []"
      unfolding files using ts by auto
    show "\<forall>p b. (p, b) \<in> set (pj_dirs ?j) \<longrightarrow> b = (p \<in> set (cd_dirs d)) \<and> snd p \<noteq> []"
      unfolding dirs using ds by auto
    show "\<forall>p. p \<in> set (operation_targets env op) \<longrightarrow> jhas (pj_files ?j) p"
      unfolding jhas_def kf by simp
    show "\<forall>p. p \<in> set (operation_dirs env op) \<longrightarrow> jhas (pj_dirs ?j) p"
      unfolding jhas_def kd by simp
    show "\<forall>p. pj_full ?j \<longrightarrow> managed_config p \<longrightarrow> jhas (cd_files d) p \<longrightarrow> jhas (pj_files ?j) p"
      unfolding jhas_def [of "pj_files ?j"] kf full using set_existing_configs [OF ok] by simp
    show "\<forall>p. p \<in> set (cd_dirs d) \<longrightarrow> length (snd p) = 1 \<longrightarrow> jhas (pj_dirs ?j) p"
      unfolding jhas_def kd using one by simp
  qed (rule full)
qed

text \<open>The states between the start \<open>d0\<close> of an operation with the journal \<open>j\<close> and its undoing: outside what the
  journal covers nothing has changed, and only directories it knows about are new.\<close>

definition covered :: "pending_journal \<Rightarrow> cpath \<Rightarrow> bool" where
  "covered j p \<longleftrightarrow> jhas (pj_files j) p \<or> (pj_full j \<and> managed_config p)"

definition may_create :: "pending_journal \<Rightarrow> cpath \<Rightarrow> bool" where
  "may_create j p \<longleftrightarrow> length (snd p) = 1 \<or> jhas (pj_dirs j) p"

definition undo_state :: "pending_journal \<Rightarrow> catalog_disk \<Rightarrow> catalog_disk \<Rightarrow> bool" where
  "undo_state j d0 d \<longleftrightarrow> disk_ok d \<and> cd_pending d = cd_pending d0 \<and> cd_receipts d = cd_receipts d0 \<and>
     (\<forall>p. \<not> covered j p \<longrightarrow> jget (cd_files d) p = jget (cd_files d0) p) \<and>
     set (cd_dirs d0) \<subseteq> set (cd_dirs d) \<and>
     (\<forall>p. p \<in> set (cd_dirs d) \<longrightarrow> p \<in> set (cd_dirs d0) \<or> may_create j p)"

lemma undo_state_start: "disk_ok d0 \<Longrightarrow> undo_state j d0 d0"
  by (simp add: undo_state_def)

lemma undo_put_file:
  assumes "undo_state j d0 d" and "covered j p" and "snd p \<noteq> []"
    and "\<And>q. q \<in> set (dir_prefixes (parent_dir p)) \<Longrightarrow> q \<in> set (cd_dirs d0) \<or> may_create j q"
  shows "undo_state j d0 (put_file p c d)"
  using assms unfolding undo_state_def by (auto simp: disk_ok_put_file)

lemma undo_drop_file: "undo_state j d0 d \<Longrightarrow> covered j p \<Longrightarrow> undo_state j d0 (drop_file p d)"
  unfolding undo_state_def by (auto simp: disk_ok_drop_file)

lemma undo_make_dirs:
  assumes "undo_state j d0 d"
    and "\<And>q. q \<in> set (dir_prefixes p) \<Longrightarrow> q \<in> set (cd_dirs d0) \<or> may_create j q"
  shows "undo_state j d0 (make_dirs p d)"
  using assms unfolding undo_state_def by (auto simp: disk_ok_make_dirs)

lemma undo_drop_dir:
  assumes "undo_state j d0 d" and "p \<notin> set (cd_dirs d0)"
  shows "undo_state j d0 (drop_dir p d)"
proof -
  have "set (cd_dirs (drop_dir p d)) \<subseteq> set (cd_dirs d)" by (auto simp: set_drop_dir)
  moreover have "set (cd_dirs d) - {p} \<subseteq> set (cd_dirs (drop_dir p d))" by (auto simp: set_drop_dir)
  ultimately show ?thesis using assms unfolding undo_state_def by (auto simp: disk_ok_drop_dir)
qed

definition same_content :: "catalog_disk \<Rightarrow> catalog_disk \<Rightarrow> bool" where
  "same_content d d' \<longleftrightarrow> (\<forall>p. jget (cd_files d) p = jget (cd_files d') p) \<and> set (cd_dirs d) = set (cd_dirs d')"

text \<open>Undoing the files.\<close>

definition files_back :: "catalog_disk \<Rightarrow> cpath set \<Rightarrow> catalog_disk \<Rightarrow> bool" where
  "files_back d0 left d \<longleftrightarrow> (\<forall>p. p \<notin> left \<longrightarrow> jget (cd_files d) p = jget (cd_files d0) p)"

lemma surplus_dropped:
  assumes j: "journal_of env op d0 j" and U: "undo_state j d0 d1"
  shows "triple (\<lambda>d. d = d1)
     (each (\<lambda>p. if jhas (pj_files j) p then give () else atomic_call (drop_file p))
        (if pj_full j then existing_configs env d1 else []))
     (\<lambda>_ d. undo_state j d0 d \<and> files_back d0 (set (jkeys (pj_files j))) d)
     (undo_state j d0) (undo_state j d0)"
proof -
  let ?f = "\<lambda>p. if jhas (pj_files j) p then give () else atomic_call (drop_file p)"
  let ?xs = "if pj_full j then existing_configs env d1 else []"
  let ?J = "\<lambda>ys d. undo_state j d0 d \<and>
    files_back d0 (set (jkeys (pj_files j)) \<union> (set ?xs - set ys)) d"
  have ok: "disk_ok d1" using U by (simp add: undo_state_def)
  have "triple (?J []) (each ?f ?xs) (\<lambda>_. ?J ?xs) (undo_state j d0) (undo_state j d0)"
  proof (rule triple_each)
    fix ys x zs assume xs: "?xs = ys @ x # zs"
    then have "x \<in> set ?xs" by (metis in_set_conv_decomp)
    then have x: "pj_full j" "managed_config x"
      using set_existing_configs [OF ok] by (auto split: if_splits)
    show "triple (?J ys) (?f x) (\<lambda>_. ?J (ys @ [x])) (undo_state j d0) (undo_state j d0)"
    proof (cases "jhas (pj_files j) x")
      case True
      then show ?thesis
        by (auto intro!: triple_give simp: files_back_def jhas_def)
    next
      case False
      have "jget (cd_files d0) x = None"
        using j False x unfolding journal_of_def by (metis not_jhas_get)
      then have "files_back d0 (set (jkeys (pj_files j)) \<union> (set ?xs - set (ys @ [x]))) (drop_file x d)"
        if "files_back d0 (set (jkeys (pj_files j)) \<union> (set ?xs - set ys)) d" for d
        using that unfolding files_back_def by auto
      moreover have "undo_state j d0 (drop_file x d)" if "undo_state j d0 d" for d
        using undo_drop_file [OF that] x by (simp add: covered_def)
      ultimately show ?thesis
        unfolding if_not_P [OF False] by (intro triple_atomic) blast+
    qed
  qed
  moreover have "?J [] d1"
  proof -
    have "jget (cd_files d1) p = jget (cd_files d0) p"
      if p: "p \<notin> set (jkeys (pj_files j))" "p \<notin> set ?xs" for p
    proof (cases "covered j p")
      case False
      with U show ?thesis by (simp add: undo_state_def)
    next
      case True
      with p(1) have full: "pj_full j" "managed_config p" by (auto simp: covered_def jhas_def)
      with p(2) have "\<not> jhas (cd_files d1) p" using set_existing_configs [OF ok] by auto
      moreover have "\<not> jhas (cd_files d0) p"
        using j full p(1) unfolding journal_of_def by (auto simp: jhas_def)
      ultimately show ?thesis by (simp add: not_jhas_get)
    qed
    then show ?thesis by (simp add: U files_back_def)
  qed
  ultimately show ?thesis
    by (elim triple_weaken) auto
qed

lemma backups_written:
  assumes j: "journal_of env op d0 j" and ok0: "disk_ok d0"
  shows "triple (\<lambda>d. undo_state j d0 d \<and> files_back d0 (set (jkeys (pj_files j))) d)
     (each (\<lambda>b. case snd b of None \<Rightarrow> atomic_call (drop_file (fst b))
                     | Some c \<Rightarrow> atomic_call (put_file (fst b) c)) (pj_files j))
     (\<lambda>_ d. undo_state j d0 d \<and> files_back d0 {} d)
     (undo_state j d0) (undo_state j d0)"
proof -
  let ?f = "\<lambda>b :: cpath \<times> string option. case snd b of None \<Rightarrow> atomic_call (drop_file (fst b))
                     | Some c \<Rightarrow> atomic_call (put_file (fst b) c)"
  let ?J = "\<lambda>ys :: (cpath \<times> string option) list. \<lambda>d.
    undo_state j d0 d \<and> files_back d0 (set (jkeys (pj_files j)) - set (jkeys ys)) d"
  have "triple (?J []) (each ?f (pj_files j)) (\<lambda>_. ?J (pj_files j)) (undo_state j d0) (undo_state j d0)"
  proof (rule triple_each [where J = ?J])
    fix ys x zs assume "pj_files j = ys @ x # zs"
    then have mem: "x \<in> set (pj_files j)" by simp
    obtain p c where x: "x = (p, c)" by (cases x)
    from mem j have c: "c = jget (cd_files d0) p" and ne: "snd p \<noteq> []"
      unfolding journal_of_def x by blast+
    have cov: "covered j p" using mem x by (force simp: covered_def jhas_def)
    have fb: "files_back d0 (set (jkeys (pj_files j)) - set (jkeys (ys @ [x]))) d'"
      if "files_back d0 (set (jkeys (pj_files j)) - set (jkeys ys)) d"
        and "\<And>q. jget (cd_files d') q = (if q = p then c else jget (cd_files d) q)" for d d'
      using that c x unfolding files_back_def by auto
    show "triple (?J ys) (?f x) (\<lambda>_. ?J (ys @ [x])) (undo_state j d0) (undo_state j d0)"
    proof (cases c)
      case None
      have "?f x = atomic_call (drop_file p)" using x None by simp
      moreover have "?J (ys @ [x]) (drop_file p d)" if "?J ys d" for d
        using that undo_drop_file [OF _ cov] fb [of d "drop_file p d"] None by auto
      ultimately show ?thesis by (auto intro: triple_atomic)
    next
      case (Some t)
      have "?f x = atomic_call (put_file p t)" using x Some by simp
      moreover have "jhas (cd_files d0) p" using c Some unfolding jhas_get by metis
      with ok0 have "set (dir_prefixes (parent_dir p)) \<subseteq> set (cd_dirs d0)" by (simp add: disk_ok_def)
      then have "?J (ys @ [x]) (put_file p t d)" if "?J ys d" for d
        using that undo_put_file [OF _ cov ne, of d0 d t] fb [of d "put_file p t d"] Some by auto
      ultimately show ?thesis by (auto intro: triple_atomic)
    qed
  qed
  then show ?thesis by (elim triple_weaken) auto
qed

lemma restore_files_triple:
  assumes j: "journal_of env op d0 j" and ok0: "disk_ok d0"
  shows "triple (undo_state j d0) (restore_files env j)
     (\<lambda>_ d. undo_state j d0 d \<and> files_back d0 {} d) (undo_state j d0) (undo_state j d0)"
  unfolding restore_files_def Let_def
  by (rule triple_looking, rule triple_then, rule surplus_dropped [OF j, unfolded existing_configs_def], assumption,
      rule backups_written [OF j ok0])

text \<open>Undoing the directories, the longest paths first.\<close>

lemma longest_first_sorted:
  "sorted_wrt (\<lambda>p q. length (path_text q) \<le> length (path_text p)) (js_sort (longer_first env) xs)"
proof (induction xs)
  case (Cons x xs)
  have "sorted_wrt (\<lambda>p q. length (path_text q) \<le> length (path_text p)) (js_insert (longer_first env) x ys)"
    if "sorted_wrt (\<lambda>p q. length (path_text q) \<le> length (path_text p)) ys" for ys
    using that
  proof (induction ys)
    case (Cons y ys)
    show ?case
    proof (cases "longer_first env x y")
      case True
      then have "length (path_text y) \<le> length (path_text x)" by (auto simp: longer_first_def)
      with True Cons.prems show ?thesis by fastforce
    next
      case False
      then have "length (path_text x) \<le> length (path_text y)" by (auto simp: longer_first_def)
      with False Cons show ?thesis by auto
    qed
  qed simp
  with Cons show ?case by simp
qed simp

lemma child_snoc: "child_of p q \<Longrightarrow> \<exists>l. snd q = snd p @ [l]"
  by (metis append_butlast_last_id child_of_def)

lemma child_longer: "child_of p q \<Longrightarrow> length (path_text p) < length (path_text q)"
  using child_snoc [of p q] by (auto simp: path_text_def)

lemma child_prefix:
  assumes "child_of p q" and "snd p \<noteq> []"
  shows "p \<in> set (dir_prefixes q)"
proof -
  from child_snoc [OF assms(1)] obtain l where "snd q = snd p @ [l]" by blast
  with assms show ?thesis
    by (auto simp: mem_dir_prefixes child_of_def intro!: exI [of _ "length (snd p)"])
qed

definition dirs_now :: "catalog_env \<Rightarrow> pending_journal \<Rightarrow> catalog_disk \<Rightarrow> cpath list" where
  "dirs_now env j d = js_sort (longer_first env) (remdups (map fst (filter (\<lambda>p. \<not> snd p) (pj_dirs j)) @
     map (\<lambda>n. (Route_root, [n])) (immediate_dirs env Route_root d) @
     map (\<lambda>n. (Roles_root, [n])) (immediate_dirs env Roles_root d)))"

lemma mem_dirs_now:
  assumes "disk_ok d"
  shows "p \<in> set (dirs_now env j d) \<longleftrightarrow>
    (p, False) \<in> set (pj_dirs j) \<or> (p \<in> set (cd_dirs d) \<and> length (snd p) = 1)"
proof -
  have one: "p \<in> set (map (\<lambda>n. (r, [n])) (immediate_dirs env r d)) \<longleftrightarrow>
      fst p = r \<and> p \<in> set (cd_dirs d) \<and> length (snd p) = 1" for r
    by (cases p) (auto simp: set_immediate_dirs [OF assms] length_Suc_conv)
  have "p \<in> set (map fst (filter (\<lambda>p. \<not> snd p) (pj_dirs j))) \<longleftrightarrow> (p, False) \<in> set (pj_dirs j)"
    by (force simp: image_iff)
  then show ?thesis
    unfolding dirs_now_def set_js_sort set_remdups set_append Un_iff one
    by (cases "fst p") auto
qed

lemma restore_dirs_alt:
  "restore_dirs env j = looking (\<lambda>d.
     each (\<lambda>p. if p \<in> set (map fst (filter snd (pj_dirs j))) then give () else atomic_call (drop_dir p)) (dirs_now env j d))"
  by (simp only: restore_dirs_def dirs_now_def Let_def)

lemma restore_dirs_triple:
  assumes j: "journal_of env op d0 j" and ok0: "disk_ok d0"
  shows "triple (\<lambda>d. undo_state j d0 d \<and> files_back d0 {} d) (restore_dirs env j)
     (\<lambda>_ d. undo_state j d0 d \<and> same_content d d0) (undo_state j d0) (undo_state j d0)"
  unfolding restore_dirs_alt
proof (rule triple_looking)
  fix d1 assume "undo_state j d0 d1 \<and> files_back d0 {} d1"
  then have U1: "undo_state j d0 d1" and F1: "files_back d0 {} d1" by simp_all
  then have ok1: "disk_ok d1" by (simp add: undo_state_def)
  let ?before = "set (map fst (filter snd (pj_dirs j)))"
  let ?f = "\<lambda>p. if p \<in> ?before then give () else atomic_call (drop_dir p)"
  let ?xs = "dirs_now env j d1"
  let ?J = "\<lambda>ys d. undo_state j d0 d \<and> files_back d0 {} d \<and> set (cd_dirs d) \<subseteq> set (cd_dirs d0) \<union> (set ?xs - set ys)"
  have before: "p \<in> ?before \<Longrightarrow> p \<in> set (cd_dirs d0)" for p
    using j unfolding journal_of_def by auto
  have fresh: "p \<notin> set (cd_dirs d0)" if p: "p \<in> set ?xs" "p \<notin> ?before" for p
  proof
    assume d0: "p \<in> set (cd_dirs d0)"
    from p(1) consider "(p, False) \<in> set (pj_dirs j)" | "length (snd p) = 1"
      using mem_dirs_now [OF ok1] by blast
    then have "jhas (pj_dirs j) p"
    proof cases
      case 1
      then show ?thesis by (force simp: jhas_def)
    next
      case 2
      with d0 j show ?thesis unfolding journal_of_def by blast
    qed
    then obtain b where b: "(p, b) \<in> set (pj_dirs j)" by (auto simp: jhas_def)
    with j d0 have "b" unfolding journal_of_def by blast
    with b p(2) show False by force
  qed
  have "triple (?J []) (each ?f ?xs) (\<lambda>_. ?J ?xs) (undo_state j d0) (undo_state j d0)"
  proof (rule triple_each [where J = ?J])
    fix ys x zs assume xs: "?xs = ys @ x # zs"
    then have x: "x \<in> set ?xs" by simp
    show "triple (?J ys) (?f x) (\<lambda>_. ?J (ys @ [x])) (undo_state j d0) (undo_state j d0)"
    proof (cases "x \<in> ?before")
      case True
      then show ?thesis
        unfolding if_P [OF True] by (intro triple_give) (use before [OF True] in auto)
    next
      case False
      have x0: "x \<notin> set (cd_dirs d0)" by (rule fresh [OF x False])
      have "?J (ys @ [x]) (drop_dir x d)" if J: "?J ys d" for d
      proof -
        from J have U: "undo_state j d0 d" and F: "files_back d0 {} d"
          and S: "set (cd_dirs d) \<subseteq> set (cd_dirs d0) \<union> (set ?xs - set ys)" by blast+
        have "\<not> (jhas (cd_files d) q \<and> child_of x q)" for q
        proof
          assume q: "jhas (cd_files d) q \<and> child_of x q"
          then have "jhas (cd_files d0) q" using F by (simp add: files_back_def jhas_get)
          then have "set (dir_prefixes (parent_dir q)) \<subseteq> set (cd_dirs d0)"
            using ok0 unfolding disk_ok_def by blast
          moreover have px: "parent_dir q = x" using q by (auto simp: child_of_def parent_dir_def prod_eq_iff)
          moreover have "snd x \<noteq> []"
            using x mem_dirs_now [OF ok1] ok1 j unfolding disk_ok_def journal_of_def by blast
          ultimately show False using x0 self_prefix by blast
        qed
        moreover have "\<not> (q \<in> set (cd_dirs d) \<and> child_of x q)" for q
        proof
          assume q: "q \<in> set (cd_dirs d) \<and> child_of x q"
          have "q \<notin> set (cd_dirs d0)"
          proof
            assume "q \<in> set (cd_dirs d0)"
            then have "set (dir_prefixes q) \<subseteq> set (cd_dirs d0)" using ok0 unfolding disk_ok_def by blast
            moreover have "snd x \<noteq> []"
              using x mem_dirs_now [OF ok1] ok1 j unfolding disk_ok_def journal_of_def by blast
            then have "x \<in> set (dir_prefixes q)" using q child_prefix by blast
            ultimately show False using x0 by blast
          qed
          with S q have "q \<in> set ?xs" "q \<notin> set ys" by blast+
          then have "q = x \<or> q \<in> set zs" using xs by simp
          moreover have "length (path_text x) < length (path_text q)" using child_longer q by blast
          moreover have "\<forall>r \<in> set zs. length (path_text r) \<le> length (path_text x)"
            using longest_first_sorted [of env] xs unfolding dirs_now_def
            by (metis sorted_wrt_append sorted_wrt.simps(2))
          ultimately show False by fastforce
        qed
        ultimately have "set (cd_dirs (drop_dir x d)) = set (cd_dirs d) - {x}"
          unfolding set_drop_dir by (intro if_not_P) blast
        with S undo_drop_dir [OF U x0] F show ?thesis by (auto simp: files_back_def)
      qed
      then show ?thesis
        unfolding if_not_P [OF False] by (intro triple_atomic) blast+
    qed
  qed
  moreover have "set (cd_dirs d1) \<subseteq> set (cd_dirs d0) \<union> set ?xs"
  proof
    fix p assume p: "p \<in> set (cd_dirs d1)"
    show "p \<in> set (cd_dirs d0) \<union> set ?xs"
    proof (cases "p \<in> set (cd_dirs d0)")
      case False
      with p U1 have "may_create j p" unfolding undo_state_def by blast
      then have "p \<in> set ?xs"
        unfolding may_create_def
      proof
        assume "jhas (pj_dirs j) p"
        then obtain b where "(p, b) \<in> set (pj_dirs j)" by (auto simp: jhas_def)
        moreover from this j False have "\<not> b" unfolding journal_of_def by blast
        ultimately show ?thesis using mem_dirs_now [OF ok1] by auto
      qed (use p mem_dirs_now [OF ok1] in blast)
      then show ?thesis by blast
    qed blast
  qed
  with U1 F1 have "?J [] d1" by simp
  moreover have "undo_state j d0 d \<and> same_content d d0" if "?J ?xs d" for d
    using that unfolding undo_state_def same_content_def files_back_def by blast
  ultimately show "triple (\<lambda>d. d = d1) (each ?f ?xs) (\<lambda>_ d. undo_state j d0 d \<and> same_content d d0)
      (undo_state j d0) (undo_state j d0)"
    by (elim triple_weaken) simp_all
qed

lemma restore_triple:
  assumes j: "journal_of env op d0 j" and ok0: "disk_ok d0"
  shows "triple (undo_state j d0) (restore_pending env j)
     (\<lambda>_ d. undo_state j d0 d \<and> same_content d d0) (undo_state j d0) (undo_state j d0)"
  unfolding restore_pending_def
  by (rule triple_then [OF restore_files_triple [OF j ok0] restore_dirs_triple [OF j ok0]])

end
