(* ===== verification/CatalogAtomicity.thy ===== *)
theory CatalogAtomicity
  imports CatalogRecovery
begin

text \<open>
  Transactions of the route catalog are atomic. The interface between the journal and the operations says
  that an operation changes nothing its journal does not cover; the operations of
  \<open>executeRouteCatalogTransaction\<close> provide it. Over it: whatever writes fail and wherever the process dies, a
  disk stands for the catalog before the operation or for the one after it, and recovery makes it so.
\<close>

declare split_paired_All [simp del] split_paired_Ex [simp del]

section \<open>Operations stay within their journals\<close>

lemma keeps_res_then: "(\<And>a. r = Inr a \<Longrightarrow> keeps P (f a)) \<Longrightarrow> keeps P (also_then (from_res r) f)"
  by (rule triple_then [where M = "\<lambda>a d. P d \<and> r = Inr a"], rule triple_from_res)
    (auto intro: tripleI simp: triple_def)

lemma keeps_if: "(b \<Longrightarrow> keeps P m) \<Longrightarrow> (\<not> b \<Longrightarrow> keeps P n) \<Longrightarrow> keeps P (if b then m else n)"
  by simp

lemma keeps_write_plain:
  assumes "covered j p" and "snd p \<noteq> []" and "\<And>q. q \<in> set (dir_prefixes (parent_dir p)) \<Longrightarrow> may_create j q"
  shows "keeps (undo_state j d0) (write_plain p c)"
  unfolding write_plain_def
  by (intro keeps_then triple_atomic triple_disk)
    (use undo_make_dirs [of j d0 _ "parent_dir p"] undo_put_file [OF _ assms(1,2)] assms(3) in blast)+

lemma keeps_unlink: "covered j p \<Longrightarrow> keeps (undo_state j d0) (unlink_existing p)"
  unfolding unlink_existing_def
  by (intro keeps_looking keeps_if triple_atomic keeps_give) (auto intro: undo_drop_file)

lemma managed_paths:
  assumes "managed_config p" and "pj_full j"
  shows "covered j p" and "snd p \<noteq> []" and "q \<in> set (dir_prefixes (parent_dir p)) \<Longrightarrow> may_create j q"
proof -
  show "covered j p" by (simp add: covered_def assms)
  from assms(1) obtain s f where p: "snd p = [s, f]" unfolding managed_config_def by blast
  then show "snd p \<noteq> []" by simp
  show "may_create j q" if "q \<in> set (dir_prefixes (parent_dir p))"
    using that p by (auto simp: dir_prefixes_def parent_dir_def may_create_def)
qed

lemma config_paths_managed:
  "adapter_config_path n = Inr p \<Longrightarrow> managed_config p" "persona_config_path n = Inr p \<Longrightarrow> managed_config p"
  by (auto simp: adapter_config_path_def persona_config_path_def Let_def split: if_splits)

lemmas managed_keeps = keeps_write_plain [OF managed_paths] keeps_unlink [OF managed_paths(1)]

lemma write_gateway_keeps: "pj_full j \<Longrightarrow> keeps (undo_state j d0) (write_gateway re scope pair)"
  unfolding write_gateway_def Let_def
  by (cases pair; simp only: prod.case)
    (intro keeps_if keeps_then keeps_res_then keeps_give keeps_ignoring managed_keeps;
     (assumption | erule config_paths_managed))

lemma write_persona_keeps:
  assumes "\<And>p. persona_config_path role = Inr p \<Longrightarrow> covered j p"
  shows "keeps (undo_state j d0) (write_persona re role gs)"
  unfolding write_persona_def
proof (intro keeps_res_then keeps_looking)
  fix p d body assume p: "persona_config_path role = Inr p"
  then obtain s where s: "p = (Roles_root, [s, ''personaConfig.json''])"
    by (auto simp: persona_config_path_def Let_def split: if_splits)
  show "keeps (undo_state j d0) (case body of None \<Rightarrow> give () | Some c \<Rightarrow> write_plain p c)"
    using assms [OF p] s
    by (cases body) (auto intro!: keeps_give keeps_write_plain simp: dir_prefixes_def parent_dir_def may_create_def)
qed

lemma remove_missing_keeps: "pj_full j \<Longrightarrow> keeps (undo_state j d0) (remove_missing env active)"
  unfolding remove_missing_def Let_def
  by (intro keeps_looking keeps_each keeps_if keeps_give keeps_ignoring managed_keeps) simp_all

lemma write_config_keeps:
  assumes full: "pj_full j"
  shows "keeps (undo_state j d0) (write_config env re gateways scope)"
proof -
  have persona: "keeps (undo_state j d0) (write_persona re r gs)" for r gs
    by (rule write_persona_keeps, rule managed_paths(1) [OF config_paths_managed(2) full])
  show ?thesis
    unfolding write_config_def Let_def
    by (cases scope; simp only: option.case)
      (intro keeps_res_then keeps_then keeps_from_res keeps_each write_gateway_keeps remove_missing_keeps
        persona full keeps_if keeps_give managed_keeps; (assumption | erule config_paths_managed | rule full))+
qed

lemma ensure_persona_keeps:
  assumes j: "journal_of env (Ensure_persona role) d0 j" and r: "sanitize_role_id role \<noteq> []"
  shows "keeps (undo_state j d0) (mh_mutate (ensure_persona_hooks re (sanitize_role_id role)) snap)"
proof -
  let ?p = "(Roles_root, [sanitize_role_id role, ''personaConfig.json''])"
  have "?p \<in> set (operation_targets env (Ensure_persona role))"
    using r by (simp add: operation_targets_def)
  then have cov: "covered j ?p" using j unfolding journal_of_def covered_def by blast
  have dirs: "q \<in> set (dir_prefixes (parent_dir ?p)) \<Longrightarrow> may_create j q" for q
    by (auto simp: dir_prefixes_def parent_dir_def may_create_def)
  have "keeps (undo_state j d0) (write_persona re (sanitize_role_id role) [])"
    by (rule write_persona_keeps) (use cov r in \<open>auto simp: persona_config_path_def Let_def\<close>)
  moreover have "keeps (undo_state j d0) (case body of None \<Rightarrow> give () | Some c \<Rightarrow> atomic_call (put_file ?p c))" for body
    by (cases body) (use undo_put_file [OF _ cov] dirs in \<open>auto intro!: keeps_give triple_atomic\<close>)
  ultimately show ?thesis
    unfolding ensure_persona_hooks_def mutation_hooks.simps Let_def
    by (intro keeps_then keeps_looking keeps_if keeps_give keeps_from_res)
qed

lemma ensure_role_file_keeps:
  assumes j: "journal_of env (Ensure_role_file role f) d0 j" and r: "sanitize_role_id role \<noteq> []"
  shows "keeps (undo_state j d0) (mh_mutate (ensure_role_file_hooks env (sanitize_role_id role) f) snap)"
proof -
  let ?p = "(Roles_root, sanitize_role_id role # ce_role_file env f)"
  have "?p \<in> set (operation_targets env (Ensure_role_file role f))"
    using r by (simp add: operation_targets_def)
  then have cov: "covered j ?p" using j unfolding journal_of_def covered_def by blast
  have dirs: "q \<in> set (dir_prefixes (parent_dir ?p)) \<Longrightarrow> may_create j q" for q
    using j r unfolding journal_of_def may_create_def
    by (simp add: operation_dirs_def directory_chain_def)
  have "keeps (undo_state j d0) (disk_call (put_file ?p) (put_file ?p []))"
    by (rule triple_disk) (use undo_put_file [OF _ cov] dirs in auto)
  moreover have "keeps (undo_state j d0) (atomic_call (make_dirs (parent_dir ?p)))"
    by (rule triple_atomic) (use undo_make_dirs dirs in auto)
  ultimately show ?thesis
    unfolding ensure_role_file_hooks_def mutation_hooks.simps Let_def
    by (intro keeps_then keeps_looking keeps_if keeps_give)
qed

lemma ensure_role_folder_keeps: "keeps (undo_state j d0) (mh_mutate (ensure_role_folder_hooks role) snap)"
  unfolding ensure_role_folder_hooks_def mutation_hooks.simps
  by (rule triple_atomic) (auto intro!: undo_make_dirs simp: dir_prefixes_def may_create_def)

lemma operation_keeps:
  assumes h: "operation_hooks env re op = Inr hooks" and j: "journal_of env op d0 j"
  shows "keeps (undo_state j d0) (mh_mutate hooks snap)"
proof -
  have full: "full_config_set op \<Longrightarrow> keeps (undo_state j d0) (write_config env re gs scope)" for gs scope
    using j write_config_keeps unfolding journal_of_def by blast
  show ?thesis
  proof (cases op)
    case (Ensure_persona role)
    with h j show ?thesis by (auto simp: operation_hooks_def Let_def intro: ensure_persona_keeps split: if_splits)
  next
    case (Ensure_role_file role f)
    with h j show ?thesis by (auto simp: operation_hooks_def Let_def intro: ensure_role_file_keeps split: if_splits)
  next
    case (Ensure_role_folder role)
    with h show ?thesis by (auto simp: operation_hooks_def Let_def intro: ensure_role_folder_keeps split: if_splits)
  qed (use h full in \<open>auto simp: operation_hooks_def Let_def full_config_set_def replace_hooks_def upsert_hooks_def
         remove_hooks_def split: if_splits\<close>)
qed

section \<open>The catalog a disk stands for\<close>

definition settled :: "catalog_disk \<Rightarrow> bool" where
  "settled s \<longleftrightarrow> disk_ok s \<and> cd_pending s = []"

definition carries :: "catalog_env \<Rightarrow> pending_journal \<Rightarrow> catalog_disk \<Rightarrow> bool" where
  "carries env j d \<longleftrightarrow> validate_pending j = Inr () \<and> cd_pending d = [(ce_id_digest env (pj_operation j), Some j)]"

text \<open>A disk whose journal is to be undone, and one whose journal is only to be removed.\<close>

definition undoable :: "catalog_env \<Rightarrow> catalog_disk \<Rightarrow> pending_journal \<Rightarrow> catalog_disk \<Rightarrow> bool" where
  "undoable env s j d \<longleftrightarrow> carries env j d \<and> (\<exists>op. journal_of env op s j) \<and>
     jget (cd_receipts s) (ce_id_digest env (pj_operation j)) = None \<and>
     undo_state j (s\<lparr>cd_pending := cd_pending d\<rparr>) d"

definition completed :: "catalog_env \<Rightarrow> catalog_disk \<Rightarrow> pending_journal \<Rightarrow> catalog_disk \<Rightarrow> bool" where
  "completed env s j d \<longleftrightarrow> carries env j d \<and> same_content d s \<and>
     (\<exists>r. read_receipt env (pj_operation j) s = Inr (Some r) \<and> cr_digest r = pj_digest j)"

definition clean :: "catalog_disk \<Rightarrow> catalog_disk \<Rightarrow> bool" where
  "clean s d \<longleftrightarrow> cd_pending d = [] \<and> same_content d s"

definition stands_for :: "catalog_env \<Rightarrow> catalog_disk \<Rightarrow> catalog_disk \<Rightarrow> bool" where
  "stands_for env s d \<longleftrightarrow> settled s \<and> disk_ok d \<and> cd_receipts d = cd_receipts s \<and>
     (clean s d \<or> (\<exists>j. undoable env s j d \<or> completed env s j d))"

lemma same_content_refl [simp]: "same_content d d"
  by (simp add: same_content_def)

lemma same_content_update [simp]:
  "same_content (d\<lparr>cd_pending := x\<rparr>) s = same_content d s" "same_content (d\<lparr>cd_receipts := y\<rparr>) s = same_content d s"
  "same_content d (s\<lparr>cd_pending := x\<rparr>) = same_content d s" "same_content d (s\<lparr>cd_receipts := y\<rparr>) = same_content d s"
  by (simp_all add: same_content_def)

lemma both_roots_update [simp]:
  "both_roots (d\<lparr>cd_pending := x\<rparr>) = both_roots d" "both_roots (d\<lparr>cd_receipts := y\<rparr>) = both_roots d"
  by (simp_all add: both_roots_def)

lemma disk_ok_update [simp]:
  "disk_ok (d\<lparr>cd_pending := x\<rparr>) = disk_ok d" "disk_ok (d\<lparr>cd_receipts := y\<rparr>) = disk_ok d"
  by (simp_all add: disk_ok_def)

lemma journal_of_content: "journal_of env op d j \<Longrightarrow> same_content d s \<Longrightarrow> journal_of env op s j"
  unfolding journal_of_def same_content_def jhas_get [of "cd_files d"] jhas_get [of "cd_files s"] by simp

lemma journal_of_pending [simp]: "journal_of env op (d\<lparr>cd_pending := x\<rparr>) j = journal_of env op d j"
  by (simp add: journal_of_def)

lemma read_receipt_cong: "cd_receipts d = cd_receipts s \<Longrightarrow> read_receipt env i d = read_receipt env i s"
  by (simp add: read_receipt_def)

lemma read_receipt_None:
  "read_receipt env i d = Inr None \<longleftrightarrow> jget (cd_receipts d) (ce_id_digest env i) = None"
  by (auto simp: read_receipt_def split: option.splits)

section \<open>Captures\<close>

text \<open>When both data directories are there, a capture installs nothing: it gives what it reads, or fails.\<close>

lemma capturing_keeps:
  assumes "\<And>d. P d \<Longrightarrow> disk_ok d"
  shows "triple P (capturing re) (\<lambda>snap d. P d \<and> re_capture re d = Inr snap) P P"
    and "keeps P (capturing_read_only re)"
proof -
  have both: "both_roots d" if "P d" for d using assms [OF that] by (simp add: disk_ok_def)
  have one: "keeps P (install_root re r)" for r
    unfolding install_root_def
  proof (rule keeps_looking)
    fix d assume "P d"
    then have "r \<in> set (cd_roots d)" using both by (cases r) (auto simp: both_roots_def)
    then show "keeps P (if r \<in> set (cd_roots d) then give ()
       else (case re_examples re r of
          None \<Rightarrow> give ()
        | Some (dirs, files) \<Rightarrow>
            also_then (atomic_call (make_root r)) (\<lambda>_.
              also_then (each (\<lambda>p. atomic_call (make_dirs (r, p))) dirs) (\<lambda>_.
                each (\<lambda>f. disk_call (put_file (r, fst f)) (put_file (r, fst f) (snd f))) files))))"
      by (simp add: keeps_give)
  qed
  have roots: "keeps P (atomic_call (make_root r))" for r
    by (rule triple_atomic) (simp_all add: both)
  have reads: "keeps P reading" unfolding reading_def by (rule triple_atomic)
  have "triple P (looking (\<lambda>d. from_res (re_capture re d))) (\<lambda>snap d. P d \<and> re_capture re d = Inr snap) P P"
    by (rule triple_looking, rule triple_from_res) auto
  then show "triple P (capturing re) (\<lambda>snap d. P d \<and> re_capture re d = Inr snap) P P"
    unfolding capturing_def ensure_data_dirs_def
    by (intro triple_then [where M = "\<lambda>_. P"] one roots reads)
  show "keeps P (capturing_read_only re)"
    unfolding capturing_read_only_def by (intro keeps_then keeps_looking keeps_from_res reads)
qed

text \<open>A capture that returns has both data directories, whatever was there before.\<close>

lemma capturing_installs: "triple (\<lambda>d. True) (capturing re) (\<lambda>snap. both_roots) (\<lambda>d. True) (\<lambda>d. True)"
proof -
  have top: "triple (\<lambda>d. True) m (\<lambda>_ d. True) (\<lambda>d. True) (\<lambda>d. True)" for m :: "'x effect"
    by (rule tripleI, rule outcome_weaken [where F' = "\<lambda>_ _. True" and T' = "\<lambda>_. True" and C' = "\<lambda>_. True"])
      (simp_all add: outcome_def split: effect_result.split)
  have roles: "triple (\<lambda>d. True) (atomic_call (make_root Roles_root)) (\<lambda>_ d. Roles_root \<in> set (cd_roots d)) (\<lambda>d. True) (\<lambda>d. True)"
    by (rule triple_atomic) (simp_all add: make_root_def)
  have route: "triple (\<lambda>d. Roles_root \<in> set (cd_roots d)) (atomic_call (make_root Route_root)) (\<lambda>_. both_roots) (\<lambda>d. True) (\<lambda>d. True)"
    by (rule triple_atomic) (simp_all add: make_root_def both_roots_def)
  have reads: "triple both_roots reading (\<lambda>_. both_roots) (\<lambda>d. True) (\<lambda>d. True)"
    unfolding reading_def by (rule triple_atomic) simp_all
  have gives: "triple both_roots (looking (\<lambda>d. from_res (re_capture re d))) (\<lambda>snap. both_roots) (\<lambda>d. True) (\<lambda>d. True)"
    by (rule triple_looking, rule triple_from_res) auto
  show ?thesis
    unfolding capturing_def ensure_data_dirs_def
    by (rule triple_then [OF triple_then [OF top triple_then [OF top triple_then [OF roles route]]] triple_then [OF reads gives]])
qed

section \<open>Recovery\<close>

lemma also_then_give [simp]: "also_then (give a) f = f a"
  by (simp add: also_then_def give_def)

lemma also_then_throw [simp]: "also_then (throw e) f = throw e"
  by (simp add: also_then_def throw_def)

lemma also_then_assoc: "also_then (also_then m f) g = also_then m (\<lambda>a. also_then (f a) g)"
  by (auto simp: also_then_def fun_eq_iff split: prod.split effect_result.split)

lemma from_res_simps [simp]: "from_res (Inr a) = give a" "from_res (Inl e) = throw e"
  by (simp_all add: from_res_def)

lemma triple_one: "triple P (f x) F T C \<Longrightarrow> triple P (each f [x]) F T C"
  by (simp, rule triple_then [where M = F]) (auto intro: tripleI simp: give_def)

lemma remove_pending_triple:
  assumes "\<And>d. P d \<Longrightarrow> Q (d\<lparr>cd_pending := jdel n (cd_pending d)\<rparr>)" and "\<And>d. P d \<Longrightarrow> R d"
  shows "triple P (remove_pending n) (\<lambda>_. Q) R R"
  unfolding remove_pending_def by (rule triple_atomic) (use assms in auto)

lemma clean_removed:
  assumes "carries env j d" and "same_content d s" and "settled s" and "disk_ok d" and "cd_receipts d = cd_receipts s"
  shows "stands_for env s (d\<lparr>cd_pending := jdel (ce_id_digest env (pj_operation j)) (cd_pending d)\<rparr>) \<and>
    cd_pending (d\<lparr>cd_pending := jdel (ce_id_digest env (pj_operation j)) (cd_pending d)\<rparr>) = []"
  using assms by (simp add: stands_for_def clean_def carries_def)

lemma undo_state_stands:
  assumes "undoable env s j d1" and "settled s" and "undo_state j (s\<lparr>cd_pending := cd_pending d1\<rparr>) d"
  shows "stands_for env s d" and "undoable env s j d"
proof -
  from assms(3) have eq: "cd_pending d = cd_pending d1" "cd_receipts d = cd_receipts s" "disk_ok d"
    by (simp_all add: undo_state_def)
  with assms show u: "undoable env s j d" by (simp add: undoable_def carries_def)
  with eq assms(2) show "stands_for env s d" unfolding stands_for_def by blast
qed

lemma undoable_pending:
  assumes "undoable env s j d1" and "undoable env s j d"
  shows "undo_state j (s\<lparr>cd_pending := cd_pending d1\<rparr>) d"
proof -
  from assms have "cd_pending d = cd_pending d1" by (simp add: undoable_def carries_def)
  with assms(2) show ?thesis by (simp add: undoable_def)
qed

lemma undo_entry_triple:
  assumes u: "undoable env s j d1" and s: "settled s"
  shows "triple (\<lambda>d. undo_state j (s\<lparr>cd_pending := cd_pending d1\<rparr>) d)
     (also_then (restore_pending env j) (\<lambda>_. remove_pending (ce_id_digest env (pj_operation j))))
     (\<lambda>_ d. stands_for env s d \<and> cd_pending d = []) (stands_for env s) (stands_for env s)"
proof -
  let ?s = "s\<lparr>cd_pending := cd_pending d1\<rparr>"
  from u obtain op where j: "journal_of env op ?s j" by (auto simp: undoable_def)
  have ok: "disk_ok ?s" using s by (simp add: settled_def)
  show ?thesis
  proof (rule triple_then)
    show "triple (undo_state j ?s) (restore_pending env j)
       (\<lambda>_ d. undo_state j ?s d \<and> same_content d s) (stands_for env s) (stands_for env s)"
      by (rule triple_weaken [OF restore_triple [OF j ok]]) (use undo_state_stands [OF u s] in auto)
    show "triple (\<lambda>d. undo_state j ?s d \<and> same_content d s) (remove_pending (ce_id_digest env (pj_operation j)))
       (\<lambda>_ d. stands_for env s d \<and> cd_pending d = []) (stands_for env s) (stands_for env s)" for a :: unit
    proof (rule remove_pending_triple)
      fix d assume d: "undo_state j ?s d \<and> same_content d s"
      then have "undoable env s j d" "stands_for env s d" using undo_state_stands [OF u s] by blast+
      then have "carries env j d" "disk_ok d" "cd_receipts d = cd_receipts s"
        by (simp_all add: undoable_def stands_for_def)
      with d s show "stands_for env s (d\<lparr>cd_pending := jdel (ce_id_digest env (pj_operation j)) (cd_pending d)\<rparr>) \<and>
          cd_pending (d\<lparr>cd_pending := jdel (ce_id_digest env (pj_operation j)) (cd_pending d)\<rparr>) = []"
        by (intro clean_removed) auto
    qed (use undo_state_stands [OF u s] in blast)
  qed
qed

lemma done_entry_triple:
  assumes s: "settled s"
  shows "triple (\<lambda>d. completed env s j d \<and> disk_ok d \<and> cd_receipts d = cd_receipts s)
     (remove_pending (ce_id_digest env (pj_operation j)))
     (\<lambda>_ d. stands_for env s d \<and> cd_pending d = []) (stands_for env s) (stands_for env s)"
proof (rule remove_pending_triple)
  fix d assume "completed env s j d \<and> disk_ok d \<and> cd_receipts d = cd_receipts s"
  then show "stands_for env s (d\<lparr>cd_pending := jdel (ce_id_digest env (pj_operation j)) (cd_pending d)\<rparr>) \<and>
      cd_pending (d\<lparr>cd_pending := jdel (ce_id_digest env (pj_operation j)) (cd_pending d)\<rparr>) = []"
    by (intro clean_removed s) (auto simp: completed_def)
qed (use s in \<open>auto simp: stands_for_def\<close>)

lemma recovery_triple:
  "triple (stands_for env s) (recover_transactions env)
     (\<lambda>_ d. stands_for env s d \<and> cd_pending d = []) (stands_for env s) (stands_for env s)"
  unfolding recover_transactions_def
proof (rule triple_looking)
  let ?F = "\<lambda>_ d. stands_for env s d \<and> cd_pending d = []"
  fix d assume d: "stands_for env s d"
  then have s: "settled s" and ok: "disk_ok d" and rc: "cd_receipts d = cd_receipts s" by (simp_all add: stands_for_def)
  have entry: "triple (\<lambda>d'. d' = d) (each (recover_entry env) (js_sort (ce_collate env) (jkeys (cd_pending d))))
      ?F (stands_for env s) (stands_for env s)"
    if c: "carries env j d"
      and t: "triple (\<lambda>d'. d' = d)
        (also_then (from_res (read_receipt env (pj_operation j) d)) (\<lambda>receipt.
              also_then (if (case receipt of None \<Rightarrow> True | Some r \<Rightarrow> cr_digest r \<noteq> pj_digest j)
                then restore_pending env j else give ()) (\<lambda>_.
                  remove_pending (ce_id_digest env (pj_operation j))))) ?F (stands_for env s) (stands_for env s)" for j
  proof -
    have names: "js_sort (ce_collate env) (jkeys (cd_pending d)) = [ce_id_digest env (pj_operation j)]"
      using c by (simp add: carries_def)
    show ?thesis
      unfolding names recover_entry_def
    proof (rule triple_one, rule triple_looking)
      fix d' assume "d' = d"
      with c t show "triple (\<lambda>d'a. d'a = d')
         (case jget (cd_pending d') (ce_id_digest env (pj_operation j)) of None \<Rightarrow> throw Io_error
          | Some None \<Rightarrow> throw Journal_invalid
          | Some (Some ja) \<Rightarrow>
              also_then (from_res (validate_pending ja)) (\<lambda>_.
                if ce_id_digest env (pj_operation j) \<noteq> ce_id_digest env (pj_operation ja) then throw Journal_invalid
                else also_then (from_res (read_receipt env (pj_operation ja) d')) (\<lambda>receipt.
                  also_then (if (case receipt of None \<Rightarrow> True | Some r \<Rightarrow> cr_digest r \<noteq> pj_digest ja)
                    then restore_pending env ja else give ()) (\<lambda>_.
                      remove_pending (ce_id_digest env (pj_operation j)))))) ?F (stands_for env s) (stands_for env s)"
        by (simp add: carries_def)
    qed
  qed
  from d consider "clean s d" | j where "undoable env s j d" | j where "completed env s j d"
    unfolding stands_for_def by blast
  then show "triple (\<lambda>d'. d' = d) (each (recover_entry env) (js_sort (ce_collate env) (jkeys (cd_pending d))))
      ?F (stands_for env s) (stands_for env s)"
  proof cases
    case 1
    with d show ?thesis by (auto intro!: triple_give simp: clean_def)
  next
    case (2 j)
    then have c: "carries env j d" and none: "read_receipt env (pj_operation j) d = Inr None"
      and U: "undo_state j (s\<lparr>cd_pending := cd_pending d\<rparr>) d"
      by (simp_all add: undoable_def read_receipt_None rc)
    show ?thesis
      by (rule entry [OF c], unfold none, rule triple_pre [where P' = "undo_state j (s\<lparr>cd_pending := cd_pending d\<rparr>)"])
        (use undo_entry_triple [OF 2 s] U in simp_all)
  next
    case (3 j)
    then have c: "carries env j d" by (simp add: completed_def)
    from 3 obtain r where r: "read_receipt env (pj_operation j) d = Inr (Some r)" "cr_digest r = pj_digest j"
      using read_receipt_cong [OF rc] by (auto simp: completed_def)
    show ?thesis
      by (rule entry [OF c], rule triple_pre [where P' = "\<lambda>d. completed env s j d \<and> disk_ok d \<and> cd_receipts d = cd_receipts s"])
        (use done_entry_triple [OF s, of env j] 3 ok rc r in simp_all)
  qed
qed

section \<open>Steps of the catalog\<close>

text \<open>One step of the abstract catalog: the operation's mutation, run to its end, and its receipt.\<close>

definition mutated :: "repository_env \<Rightarrow> mutation_hooks \<Rightarrow> catalog_disk \<Rightarrow> catalog_disk \<Rightarrow> bool" where
  "mutated re hooks s s' \<longleftrightarrow> (\<exists>snap d0 d io io' dm. re_capture re d0 = Inr snap \<and> same_content d0 s \<and>
     mh_prepare hooks snap = Inr () \<and> same_content d s \<and>
     mh_mutate hooks snap io d = (Finished (), io', dm) \<and> same_content s' dm)"

definition committed ::
  "(catalog_operation \<Rightarrow> (catalog_error, mutation_hooks) res) \<Rightarrow> catalog_env \<Rightarrow> repository_env \<Rightarrow> string \<Rightarrow> catalog_operation \<Rightarrow> string \<Rightarrow> catalog_disk \<Rightarrow> catalog_disk \<Rightarrow> bool" where
  "committed hooks_of env re i op now s s' \<longleftrightarrow> (\<exists>hooks hash. hooks_of op = Inr hooks \<and> mutated re hooks s s' \<and>
     jget (cd_receipts s) (ce_id_digest env i) = None \<and>
     cd_receipts s' = jset (ce_id_digest env i)
       (Some \<lparr>cr_operation = i, cr_digest = ce_digest env (operation_view op), cr_hash = hash, cr_at = now\<rparr>) (cd_receipts s))"

definition stands_now ::
  "(catalog_operation \<Rightarrow> (catalog_error, mutation_hooks) res) \<Rightarrow> catalog_env \<Rightarrow> repository_env \<Rightarrow> string \<Rightarrow> catalog_operation \<Rightarrow> string \<Rightarrow> catalog_disk \<Rightarrow> catalog_disk \<Rightarrow> bool" where
  "stands_now hooks_of env re i op now s d \<longleftrightarrow> stands_for env s d \<or> (\<exists>s'. stands_for env s' d \<and> committed hooks_of env re i op now s s')"

definition commit_done ::
  "(catalog_operation \<Rightarrow> (catalog_error, mutation_hooks) res) \<Rightarrow> catalog_env \<Rightarrow> repository_env \<Rightarrow> string \<Rightarrow> catalog_operation \<Rightarrow> string \<Rightarrow> pending_journal \<Rightarrow> catalog_disk \<Rightarrow> catalog_disk \<Rightarrow> bool" where
  "commit_done hooks_of env re i op now j s d \<longleftrightarrow> carries env j d \<and> disk_ok d \<and>
     (\<exists>s'. settled s' \<and> same_content d s' \<and> cd_receipts d = cd_receipts s' \<and> committed hooks_of env re i op now s s' \<and>
       completed env s' j d)"

lemma triple_run:
  assumes m: "triple P m F T C" and P: "P d0"
  shows "triple (\<lambda>d. d = d0) m (\<lambda>a d. F a d \<and> (\<exists>io io'. m io d0 = (Finished a, io', d))) T C"
proof (rule tripleI)
  fix io d r io' d' assume "d = d0" and run: "m io d = (r, io', d')"
  then have "outcome F T C r d'" using triple_outcome [OF m P] by blast
  then show "outcome (\<lambda>a d. F a d \<and> (\<exists>io io'. m io d0 = (Finished a, io', d))) T C r d'"
    using run \<open>d = d0\<close> by (cases r) auto
qed

section \<open>The interface between the journal and the operations\<close>

locale covered_operations =
  fixes env :: catalog_env
    and hooks_of :: "catalog_operation \<Rightarrow> (catalog_error, mutation_hooks) res"
  assumes stays_covered:
    "hooks_of op = Inr hooks \<Longrightarrow> journal_of env op d0 j \<Longrightarrow> keeps (undo_state j d0) (mh_mutate hooks snap)"
begin

lemma commit_done_stands: "commit_done hooks_of env re i op now j s d \<Longrightarrow> stands_now hooks_of env re i op now s d"
  unfolding commit_done_def stands_now_def stands_for_def by metis

text \<open>The journal that is written, and what it makes of the disk.\<close>

lemma journal_written:
  fixes op
  assumes s: "settled s" and d: "same_content d s" "disk_ok d" "cd_pending d = []" "cd_receipts d = cd_receipts s"
    and env: "paths_ok env" and i: "i \<noteq> []"
    and none: "jget (cd_receipts s) (ce_id_digest env i) = None"
  defines "j \<equiv> capture_pending env i op (ce_digest env (operation_view op)) d"
  defines "d1 \<equiv> d\<lparr>cd_pending := jset (ce_id_digest env (pj_operation j)) (Some j) (cd_pending d)\<rparr>"
  shows "undoable env s j d1" and "journal_of env op s j" and "pj_operation j = i"
    and "pj_digest j = ce_digest env (operation_view op)"
proof -
  have pj: "pj_operation j = i" "pj_digest j = ce_digest env (operation_view op)"
    by (simp_all add: j_def capture_pending_def Let_def)
  then show "pj_operation j = i" "pj_digest j = ce_digest env (operation_view op)" by simp_all
  have jd: "journal_of env op d j" unfolding j_def by (rule captured [OF d(2) env])
  then show js: "journal_of env op s j" by (rule journal_of_content [OF _ d(1)])
  have "\<not> list_ex (\<lambda>f. snd (fst f) = []) (pj_files j)" "\<not> list_ex (\<lambda>f. snd (fst f) = []) (pj_dirs j)"
    using jd unfolding journal_of_def list_ex_iff by (metis prod.collapse)+
  then have "validate_pending j = Inr ()"
    using i env pj by (simp add: validate_pending_def paths_ok_def)
  then have c: "carries env j d1" by (simp add: carries_def d1_def d(3))
  have "undo_state j (s\<lparr>cd_pending := cd_pending d1\<rparr>) d1"
    using d s by (auto simp: undo_state_def d1_def same_content_def)
  with c js none show "undoable env s j d1" unfolding undoable_def pj by blast
qed

lemma commit_triple:
  assumes h: "hooks_of op = Inr hooks" and s: "settled s" and u: "undoable env s j d1" and j: "journal_of env op s j"
    and pj: "pj_operation j = i" "pj_digest j = ce_digest env (operation_view op)"
    and env: "paths_ok env" and hash: "\<And>d snap. re_capture re d = Inr snap \<Longrightarrow> hex_digest (sv_hash snap)"
    and prep: "mh_prepare hooks current = Inr ()" and d1: "same_content d1 s"
    and cap: "re_capture re d0 = Inr current" and d0: "same_content d0 s"
  shows "triple (\<lambda>d. d = d1) (mutate_and_commit env re hooks i (ce_digest env (operation_view op)) now current)
     (\<lambda>_. commit_done hooks_of env re i op now j s) (undoable env s j) (undoable env s j)"
proof -
  let ?s = "s\<lparr>cd_pending := cd_pending d1\<rparr>"
  let ?U = "undo_state j ?s"
  have up: "?U d \<Longrightarrow> undoable env s j d" for d
    using undo_state_stands(2) [OF u s] .
  have "triple ?U (mh_mutate hooks current) (\<lambda>_. ?U) ?U ?U"
    by (rule stays_covered [OF h]) (simp add: j)
  moreover have "?U d1" using u by (simp add: undoable_def)
  ultimately have mut: "triple (\<lambda>d. d = d1) (mh_mutate hooks current)
      (\<lambda>a d. ?U d \<and> (\<exists>io io'. mh_mutate hooks current io d1 = (Finished a, io', d))) ?U ?U"
    by (rule triple_run)
  have fin: "commit_done hooks_of env re i op now j s
      (d\<lparr>cd_receipts := jset (ce_id_digest env i) (Some \<lparr>cr_operation = i, cr_digest = ce_digest env (operation_view op),
         cr_hash = sv_hash snap, cr_at = now\<rparr>) (cd_receipts d)\<rparr>)"
    if U: "?U d" and run: "mh_mutate hooks current io d1 = (Finished (), io', d)" and snap: "re_capture re d = Inr snap"
    for d io io' snap
  proof -
    let ?d = "d\<lparr>cd_receipts := jset (ce_id_digest env i) (Some \<lparr>cr_operation = i, cr_digest = ce_digest env (operation_view op),
         cr_hash = sv_hash snap, cr_at = now\<rparr>) (cd_receipts d)\<rparr>"
    let ?t = "?d\<lparr>cd_pending := []\<rparr>"
    from U have ok: "disk_ok d" and pend: "cd_pending d = cd_pending d1" and rc: "cd_receipts d = cd_receipts s"
      by (simp_all add: undo_state_def)
    have c: "carries env j ?d" using u pend by (simp add: undoable_def carries_def)
    have "mutated re hooks s ?t"
      unfolding mutated_def
      by (intro exI conjI) (rule cap, rule d0, rule prep, rule d1, rule run, simp)
    moreover have "jget (cd_receipts s) (ce_id_digest env i) = None" using u pj by (simp add: undoable_def)
    ultimately have "committed hooks_of env re i op now s ?t"
      unfolding committed_def using h rc by auto
    moreover have "read_receipt env i ?t = Inr (Some \<lparr>cr_operation = i, cr_digest = ce_digest env (operation_view op),
         cr_hash = sv_hash snap, cr_at = now\<rparr>)"
      using env hash [OF snap] by (simp add: read_receipt_def paths_ok_def)
    then have "completed env ?t j ?d" using c pj by (simp add: completed_def)
    ultimately show ?thesis
      unfolding commit_done_def using c ok by (intro conjI exI [of _ ?t]) (simp_all add: settled_def)
  qed
  show ?thesis
    unfolding mutate_and_commit_def
  proof (rule triple_then)
    show "triple (\<lambda>d. d = d1) (mh_mutate hooks current)
      (\<lambda>a d. ?U d \<and> (\<exists>io io'. mh_mutate hooks current io d1 = (Finished a, io', d))) (undoable env s j) (undoable env s j)"
      by (rule triple_weaken [OF mut]) (use up in auto)
    fix a
    let ?M = "\<lambda>d. ?U d \<and> (\<exists>io io'. mh_mutate hooks current io d1 = (Finished (), io', d))"
    have ok: "disk_ok d" if "?M d" for d using that by (simp add: undo_state_def)
    show "triple (\<lambda>d. ?U d \<and> (\<exists>io io'. mh_mutate hooks current io d1 = (Finished a, io', d)))
      (also_then (capturing re) (\<lambda>snap.
         also_then (write_receipt env \<lparr>cr_operation = i, cr_digest = ce_digest env (operation_view op), cr_hash = sv_hash snap, cr_at = now\<rparr>)
           (\<lambda>_. give snap)))
      (\<lambda>_. commit_done hooks_of env re i op now j s) (undoable env s j) (undoable env s j)"
    proof (rule triple_then)
      show "triple (\<lambda>d. ?U d \<and> (\<exists>io io'. mh_mutate hooks current io d1 = (Finished a, io', d))) (capturing re)
         (\<lambda>snap d. ?M d \<and> re_capture re d = Inr snap) (undoable env s j) (undoable env s j)"
        by (rule triple_weaken [OF capturing_keeps(1) [of ?M, OF ok]]) (use up in auto)
      show "triple (\<lambda>d. ?M d \<and> re_capture re d = Inr snap)
         (also_then (write_receipt env \<lparr>cr_operation = i, cr_digest = ce_digest env (operation_view op), cr_hash = sv_hash snap, cr_at = now\<rparr>)
           (\<lambda>_. give snap)) (\<lambda>_. commit_done hooks_of env re i op now j s) (undoable env s j) (undoable env s j)" for snap
        unfolding write_receipt_def
        by (rule triple_then [OF triple_atomic triple_give]) (use up fin in auto)
    qed
  qed
qed

end

text \<open>A success is durable: the receipt is there and no journal is left.\<close>

definition durable :: "catalog_env \<Rightarrow> string \<Rightarrow> catalog_operation \<Rightarrow> catalog_disk \<Rightarrow> bool" where
  "durable env i op d \<longleftrightarrow> cd_pending d = [] \<and>
     (\<exists>r. read_receipt env i d = Inr (Some r) \<and> cr_digest r = ce_digest env (operation_view op))"

context covered_operations
begin

lemma triple_undoing:
  assumes "triple P m (\<lambda>_. M) E C"
    and "\<And>a. triple M (also_then (remove_pending (ce_id_digest env (pj_operation j))) (\<lambda>_. give a)) F T C'"
    and "\<And>e. triple E (also_then (restore_pending env j) (\<lambda>_.
            also_then (remove_pending (ce_id_digest env (pj_operation j))) (\<lambda>_. throw e))) F T C'"
    and "\<And>d. C d \<Longrightarrow> C' d"
  shows "triple P (undoing env j m) F T C'"
proof (rule tripleI)
  fix io d r io' d' assume P: "P d" and run: "undoing env j m io d = (r, io', d')"
  obtain r1 io1 d1 where m1: "m io d = (r1, io1, d1)" by (metis prod_cases3)
  have out: "outcome (\<lambda>_. M) E C r1 d1" by (rule triple_outcome [OF assms(1) P m1])
  show "outcome F T C' r d'"
  proof (cases r1)
    case (Finished a)
    with out have M: "M d1" by simp
    show ?thesis
      by (rule triple_outcome [OF assms(2) M]) (use run m1 Finished in \<open>simp add: undoing_def\<close>)
  next
    case (Threw e)
    with out have E: "E d1" by simp
    show ?thesis
      by (rule triple_outcome [OF assms(3) E]) (use run m1 Threw in \<open>simp add: undoing_def\<close>)
  next
    case Crashed
    with out run m1 assms(4) show ?thesis by (auto simp: undoing_def)
  qed
qed

lemma execution_triple:
  assumes h: "hooks_of op = Inr hooks" and env: "paths_ok env" and i: "i \<noteq> []"
    and hash: "\<And>d snap. re_capture re d = Inr snap \<Longrightarrow> hex_digest (sv_hash snap)"
  shows "triple (\<lambda>d. stands_for env s d \<and> cd_pending d = []) (execute_mutation env re hooks i op now)
     (\<lambda>_ d. stands_now hooks_of env re i op now s d \<and> durable env i op d)
     (stands_now hooks_of env re i op now s) (stands_now hooks_of env re i op now s)"
  unfolding execute_mutation_def Let_def
proof (rule triple_looking)
  let ?D = "ce_digest env (operation_view op)"
  let ?K = "stands_now hooks_of env re i op now s"
  let ?F = "\<lambda>_ d. ?K d \<and> durable env i op d"
  fix d assume d: "stands_for env s d \<and> cd_pending d = []"
  then have s: "settled s" and ok: "disk_ok d" and rc: "cd_receipts d = cd_receipts s" and p: "cd_pending d = []"
    and K: "?K d"
    by (auto simp: stands_for_def stands_now_def)
  from d have same: "same_content d s"
    unfolding stands_for_def clean_def undoable_def completed_def carries_def by auto
  show "triple (\<lambda>d'. d' = d) (also_then (from_res (read_receipt env i d)) (\<lambda>receipt.
          case receipt of
            Some r \<Rightarrow> if cr_digest r \<noteq> ?D then throw Idempotency_conflict else capturing re
          | None \<Rightarrow>
              also_then (capturing re) (\<lambda>current.
                also_then (from_res (mh_prepare hooks current)) (\<lambda>_. looking (\<lambda>d.
                  also_then (write_pending env (capture_pending env i op ?D d)) (\<lambda>_.
                    undoing env (capture_pending env i op ?D d) (mutate_and_commit env re hooks i ?D now current)))))))
     ?F ?K ?K"
  proof (cases "read_receipt env i d")
    case (Inl e)
    then show ?thesis using K by (auto intro: triple_throw)
  next
    case (Inr receipt)
    note receipt = Inr
    have here: "triple (\<lambda>d'. d' = d) (capturing re) (\<lambda>snap d'. d' = d \<and> re_capture re d = Inr snap) (\<lambda>d'. d' = d) (\<lambda>d'. d' = d)"
      by (rule triple_weaken [OF capturing_keeps(1) [of "\<lambda>d'. d' = d"]]) (use ok in auto)
    show ?thesis
    proof (cases receipt)
      case (Some r)
      have "triple (\<lambda>d'. d' = d) (capturing re) ?F ?K ?K" if "cr_digest r = ?D"
        by (rule triple_weaken [OF here]) (use K receipt p Some that in \<open>auto simp: durable_def\<close>)
      then show ?thesis
        unfolding receipt from_res_simps also_then_give option.case Some
        using K receipt p Some by (auto intro!: triple_throw simp: durable_def)
    next
      case None
      have body: "triple (\<lambda>d'. d' = d) (also_then (from_res (mh_prepare hooks current)) (\<lambda>_. looking (\<lambda>d.
                  also_then (write_pending env (capture_pending env i op ?D d)) (\<lambda>_.
                    undoing env (capture_pending env i op ?D d) (mutate_and_commit env re hooks i ?D now current)))))
         ?F ?K ?K" if snap: "re_capture re d = Inr current" for current
      proof -
        show ?thesis
        proof (cases "mh_prepare hooks current")
          case (Inl e)
          then show ?thesis using K by (auto intro: triple_throw)
        next
          case (Inr u)
          then have prep: "mh_prepare hooks current = Inr ()" by simp
          let ?j = "capture_pending env i op ?D d"
          let ?d1 = "d\<lparr>cd_pending := jset (ce_id_digest env (pj_operation ?j)) (Some ?j) (cd_pending d)\<rparr>"
          have none: "jget (cd_receipts s) (ce_id_digest env i) = None"
            using receipt None rc by (simp add: read_receipt_None)
          note w = journal_written [OF s same ok p rc env i none, of op]
          have same1: "same_content ?d1 s" using same by simp
          have "undoable env s ?j d' \<Longrightarrow> ?K d'" for d'
            using undo_state_stands(1) [OF _ s] unfolding undoable_def stands_now_def
            by (metis undoable_def)
          then have UK: "undoable env s ?j d' \<Longrightarrow> ?K d'" for d' .
          have commit: "triple (\<lambda>d'. d' = ?d1) (mutate_and_commit env re hooks i ?D now current)
             (\<lambda>_. commit_done hooks_of env re i op now ?j s) (undoable env s ?j) (undoable env s ?j)"
            by (rule commit_triple [OF h s w env hash prep same1 snap same])
          have fin: "triple (commit_done hooks_of env re i op now ?j s)
             (also_then (remove_pending (ce_id_digest env (pj_operation ?j))) (\<lambda>_. give a)) ?F ?K ?K" for a :: snapshot_view
          proof (rule triple_then)
            show "triple (commit_done hooks_of env re i op now ?j s) (remove_pending (ce_id_digest env (pj_operation ?j)))
               (\<lambda>_. \<lambda>d. ?K d \<and> durable env i op d) ?K ?K"
            proof (rule remove_pending_triple)
              fix d' assume "commit_done hooks_of env re i op now ?j s d'"
              then obtain s' where s': "settled s'" "same_content d' s'" "cd_receipts d' = cd_receipts s'"
                "committed hooks_of env re i op now s s'" "completed env s' ?j d'" "carries env ?j d'" "disk_ok d'"
                unfolding commit_done_def by blast
              let ?e = "d'\<lparr>cd_pending := jdel (ce_id_digest env (pj_operation ?j)) (cd_pending d')\<rparr>"
              have e: "stands_for env s' ?e \<and> cd_pending ?e = []"
                by (rule clean_removed [OF s'(6) s'(2) s'(1) s'(7) s'(3)])
              moreover from s'(5) w(3,4) obtain r where "read_receipt env i s' = Inr (Some r)" "cr_digest r = ?D"
                by (auto simp: completed_def)
              moreover have "read_receipt env i ?e = read_receipt env i s'"
                by (rule read_receipt_cong) (simp add: s'(3))
              ultimately show "?K ?e \<and> durable env i op ?e"
                unfolding stands_now_def durable_def using s'(4) by metis
            qed (rule commit_done_stands)
          qed (auto intro: triple_give)
          have exn: "triple (undoable env s ?j)
             (also_then (restore_pending env ?j) (\<lambda>_.
                also_then (remove_pending (ce_id_digest env (pj_operation ?j))) (\<lambda>_. throw e))) ?F ?K ?K" for e
          proof -
            have "triple (undoable env s ?j)
               (also_then (also_then (restore_pending env ?j) (\<lambda>_. remove_pending (ce_id_digest env (pj_operation ?j))))
                  (\<lambda>_. throw e)) ?F ?K ?K"
              by (rule triple_then [OF triple_weaken [OF undo_entry_triple [OF w(1) s]] triple_throw])
                (use undoable_pending [OF w(1)] in \<open>auto simp: stands_now_def\<close>)
            then show ?thesis unfolding also_then_assoc .
          qed
          have "triple (\<lambda>d'. d' = ?d1) (undoing env ?j (mutate_and_commit env re hooks i ?D now current)) ?F ?K ?K"
            by (rule triple_undoing [OF commit fin exn UK])
          then have "triple (\<lambda>d'. d' = d) (also_then (write_pending env ?j) (\<lambda>_.
                    undoing env ?j (mutate_and_commit env re hooks i ?D now current))) ?F ?K ?K"
            unfolding write_pending_def by (intro triple_then [OF triple_atomic]) (use K in auto)
          then show ?thesis
            unfolding prep from_res_simps also_then_give by (intro triple_looking) simp
        qed
      qed
      show ?thesis
        unfolding receipt from_res_simps also_then_give None option.case
      proof (rule triple_then)
        show "triple (\<lambda>d'. d' = d) (capturing re) (\<lambda>snap d'. d' = d \<and> re_capture re d = Inr snap) ?K ?K"
          by (rule triple_weaken [OF here]) (use K in auto)
        show "triple (\<lambda>d'. d' = d \<and> re_capture re d = Inr snap) (also_then (from_res (mh_prepare hooks snap)) (\<lambda>_. looking (\<lambda>d.
                  also_then (write_pending env (capture_pending env i op ?D d)) (\<lambda>_.
                    undoing env (capture_pending env i op ?D d) (mutate_and_commit env re hooks i ?D now snap)))))
         ?F ?K ?K" for snap
        proof (cases "re_capture re d = Inr snap")
          case True
          then show ?thesis by (intro triple_pre [OF body [OF True]]) simp
        qed (simp add: triple_def)
      qed
    qed
  qed
qed

end

interpretation operating: covered_operations env "operation_hooks env re" for env re
  by unfold_locales (rule operation_keeps)

section \<open>Whole transactions\<close>

definition hashes_ok :: "repository_env \<Rightarrow> bool" where
  "hashes_ok re \<longleftrightarrow> (\<forall>d snap. re_capture re d = Inr snap \<longrightarrow> hex_digest (sv_hash snap))"

definition is_capture :: "catalog_operation \<Rightarrow> bool" where
  "is_capture op \<longleftrightarrow> (case op of Capture_op r \<Rightarrow> True | _ \<Rightarrow> False)"

lemma execute_transaction_mutation:
  assumes "\<not> is_capture (ci_operation inp)"
  shows "execute_transaction env re now inp = also_then (recover_transactions env) (\<lambda>_.
     if ci_read_only inp then throw Read_only
     else also_then (from_res (operation_hooks env re (ci_operation inp))) (\<lambda>hooks.
       also_then (execute_mutation env re hooks (ci_operation_id inp) (ci_operation inp) now) (\<lambda>snap. give (snap, None))))"
  using assms unfolding execute_transaction_def is_capture_def by (cases "ci_operation inp") simp_all

lemma capture_triple:
  assumes "ci_operation inp = Capture_op asked"
  shows "triple (stands_for env s) (execute_transaction env re now inp)
     (\<lambda>_ d. stands_for env s d \<and> cd_pending d = []) (stands_for env s) (stands_for env s)"
  unfolding execute_transaction_def assms catalog_operation.case
proof (rule triple_then [OF recovery_triple])
  let ?P = "\<lambda>d. stands_for env s d \<and> cd_pending d = []"
  have ok: "disk_ok d" if "?P d" for d using that by (simp add: stands_for_def)
  have "keeps ?P (if ci_read_only inp then capturing_read_only re else capturing re)"
    using capturing_keeps [of ?P re, OF ok] by (auto intro: triple_weaken)
  then have "keeps ?P (also_then (if ci_read_only inp then capturing_read_only re else capturing re) (\<lambda>snap. looking (\<lambda>d.
             also_then (from_res (resolve_operation env asked d)) (\<lambda>resolved. give (snap, resolved)))))"
    by (intro keeps_then keeps_looking keeps_from_res keeps_give)
  then show "triple ?P (also_then (if ci_read_only inp then capturing_read_only re else capturing re) (\<lambda>snap. looking (\<lambda>d.
             also_then (from_res (resolve_operation env asked d)) (\<lambda>resolved. give (snap, resolved)))))
     (\<lambda>_. ?P) (stands_for env s) (stands_for env s)" by (rule triple_weaken) auto
qed

lemma transaction_triple:
  assumes env: "paths_ok env" and re: "hashes_ok re" and i: "ci_operation_id inp \<noteq> []"
    and mut: "\<not> is_capture (ci_operation inp)"
  shows "triple (stands_for env s) (execute_transaction env re now inp)
     (\<lambda>_ d. stands_now (operation_hooks env re) env re (ci_operation_id inp) (ci_operation inp) now s d \<and>
        durable env (ci_operation_id inp) (ci_operation inp) d)
     (stands_now (operation_hooks env re) env re (ci_operation_id inp) (ci_operation inp) now s)
     (stands_now (operation_hooks env re) env re (ci_operation_id inp) (ci_operation inp) now s)"
    (is "triple _ _ ?F ?K ?K")
proof -
  have stay: "stands_for env s d \<Longrightarrow> ?K d" for d by (simp add: stands_now_def)
  have rec: "triple (stands_for env s) (recover_transactions env) (\<lambda>_ d. stands_for env s d \<and> cd_pending d = []) ?K ?K"
    by (rule triple_weaken [OF recovery_triple]) (use stay in auto)
  have "triple (\<lambda>d. stands_for env s d \<and> cd_pending d = [])
     (if ci_read_only inp then throw Read_only
      else also_then (from_res (operation_hooks env re (ci_operation inp))) (\<lambda>hooks.
        also_then (execute_mutation env re hooks (ci_operation_id inp) (ci_operation inp) now) (\<lambda>snap. give (snap, None))))
     ?F ?K ?K"
  proof (cases "operation_hooks env re (ci_operation inp)")
    case (Inl e)
    then show ?thesis using stay by (auto intro: triple_throw)
  next
    case (Inr hooks)
    have hash: "re_capture re d = Inr snap \<Longrightarrow> hex_digest (sv_hash snap)" for d snap
      using re unfolding hashes_ok_def by blast
    have run: "triple (\<lambda>d. stands_for env s d \<and> cd_pending d = [])
       (also_then (execute_mutation env re hooks (ci_operation_id inp) (ci_operation inp) now) (\<lambda>snap. give (snap, None)))
       ?F ?K ?K"
      by (rule triple_then, rule operating.execution_triple [OF Inr env i hash], assumption, rule triple_give)
    show ?thesis
    proof (cases "ci_read_only inp")
      case True
      then show ?thesis using stay by (auto intro: triple_throw)
    next
      case False
      then show ?thesis using run by (simp add: Inr)
    qed
  qed
  then show ?thesis
    unfolding execute_transaction_mutation [OF mut] by (intro triple_then [OF rec])
qed

text \<open>C5: On an installation whose two data directories exist, a transaction of the route catalog is atomic.
  Whatever calls of the file system fail, and wherever the process dies, the disk then stands for the catalog before
  the transaction or for the catalog its mutation makes together with the receipt. (That the directories exist is
  part of what \<open>stands_for\<close> asks of a disk: before, the first capture installs the example data without a journal. The
  digests have the form of SHA-256 texts and the operation id is not empty.)\<close>

theorem catalog_transaction_atomic:
  assumes "paths_ok env" and "hashes_ok re" and "ci_operation_id inp \<noteq> []"
    and "stands_for env s d" and "execute_transaction env re now inp io d = (r, io', d')"
  shows "stands_for env s d' \<or>
    (\<exists>s'. stands_for env s' d' \<and>
       committed (operation_hooks env re) env re (ci_operation_id inp) (ci_operation inp) now s s')"
proof (cases "is_capture (ci_operation inp)")
  case True
  then obtain asked where c: "ci_operation inp = Capture_op asked"
    unfolding is_capture_def by (cases "ci_operation inp") auto
  from triple_outcome [OF capture_triple [OF c] assms(4,5)] show ?thesis by (cases r) auto
next
  case False
  from triple_outcome [OF transaction_triple [OF assms(1-3) False] assms(4,5)] show ?thesis
    by (cases r) (auto simp: stands_now_def)
qed

text \<open>A transaction that returns is durable: its receipt with the digest of the operation is on the disk and no
  journal is left that could undo it.\<close>

lemma catalog_success_durable:
  assumes "paths_ok env" and "hashes_ok re" and "ci_operation_id inp \<noteq> []" and "\<not> is_capture (ci_operation inp)"
    and "stands_for env s d" and "execute_transaction env re now inp io d = (Finished x, io', d')"
  shows "cd_pending d' = [] \<and>
    (\<exists>rc. read_receipt env (ci_operation_id inp) d' = Inr (Some rc) \<and>
       cr_digest rc = ce_digest env (operation_view (ci_operation inp)))"
  using triple_outcome [OF transaction_triple [OF assms(1-4)] assms(5,6)] by (simp add: durable_def)

text \<open>An operation is applied once. When the catalog has a receipt for the operation id, a transaction with that
  id changes nothing, whatever its contents.\<close>

lemma catalog_operation_once:
  assumes "paths_ok env" and "hashes_ok re" and "ci_operation_id inp \<noteq> []"
    and "stands_for env s d" and "jget (cd_receipts s) (ce_id_digest env (ci_operation_id inp)) = Some rc"
    and "execute_transaction env re now inp io d = (r, io', d')"
  shows "stands_for env s d'"
proof (cases "is_capture (ci_operation inp)")
  case True
  then obtain asked where c: "ci_operation inp = Capture_op asked"
    unfolding is_capture_def by (cases "ci_operation inp") auto
  from triple_outcome [OF capture_triple [OF c] assms(4,6)] show ?thesis by (cases r) auto
next
  case False
  from triple_outcome [OF transaction_triple [OF assms(1-3) False] assms(4,6)] assms(5) show ?thesis
    by (cases r) (auto simp: stands_now_def committed_def)
qed

section \<open>Recovery always gets there\<close>

text \<open>An effect that finishes when no call fails.\<close>

definition healthy :: "'a effect \<Rightarrow> bool" where
  "healthy m \<longleftrightarrow> (\<forall>d. \<exists>a d'. m [] d = (Finished a, [], d'))"

lemma healthyE:
  assumes "healthy m"
  obtains a d' where "m [] d = (Finished a, [], d')"
  using assms unfolding healthy_def by blast

lemma healthy_then: "healthy m \<Longrightarrow> (\<And>a. healthy (f a)) \<Longrightarrow> healthy (also_then m f)"
  unfolding healthy_def [of "also_then m f"]
proof
  fix d assume m: "healthy m" and f: "\<And>a. healthy (f a)"
  obtain a d1 where "m [] d = (Finished a, [], d1)" by (rule healthyE [OF m])
  moreover obtain b d2 where "f a [] d1 = (Finished b, [], d2)" by (rule healthyE [OF f])
  ultimately show "\<exists>a d'. also_then m f [] d = (Finished a, [], d')" by (simp add: also_then_def)
qed

lemma healthy_basic:
  "healthy (give a)" "healthy (atomic_call g)" "(\<And>d. healthy (h d)) \<Longrightarrow> healthy (looking h)"
  by (auto simp: healthy_def give_def atomic_call_def disk_call_def looking_def)

lemma healthy_each: "(\<And>x. healthy (f x)) \<Longrightarrow> healthy (each f xs)"
  by (induction xs) (auto intro: healthy_then healthy_basic)

lemma restore_healthy: "healthy (restore_pending env j)"
proof -
  have "healthy (case c of None \<Rightarrow> atomic_call (drop_file p) | Some t \<Rightarrow> atomic_call (put_file p t))" for p c
    by (cases c) (auto intro: healthy_basic)
  moreover have "healthy (if b then give () else atomic_call g)" for b g
    by (auto intro: healthy_basic)
  ultimately show ?thesis
    unfolding restore_pending_def restore_files_def restore_dirs_def Let_def
    by (intro healthy_then healthy_basic(3) healthy_each)
qed

lemma recovery_finishes:
  assumes d: "stands_for env s d"
  shows "\<exists>d'. recover_transactions env [] d = (Finished (), [], d')"
proof -
  have entry: "\<exists>d'. recover_transactions env [] d = (Finished (), [], d')"
    if c: "carries env j d" and r: "read_receipt env (pj_operation j) d = Inr rc" for j rc
  proof -
    let ?m = "also_then (if (case rc of None \<Rightarrow> True | Some r \<Rightarrow> cr_digest r \<noteq> pj_digest j)
                then restore_pending env j else give ()) (\<lambda>_. remove_pending (ce_id_digest env (pj_operation j)))"
    have "healthy ?m"
      by (intro healthy_then) (auto simp: remove_pending_def intro: restore_healthy healthy_basic)
    then obtain u d' where run: "?m [] d = (Finished u, [], d')" by (rule healthyE)
    then have "recover_entry env (ce_id_digest env (pj_operation j)) [] d = (Finished (), [], d')"
      using c r by (simp add: carries_def recover_entry_def looking_def)
    then have "each (recover_entry env) [ce_id_digest env (pj_operation j)] [] d = (Finished (), [], d')"
      by (simp add: also_then_def give_def)
    moreover have "js_sort (ce_collate env) (jkeys (cd_pending d)) = [ce_id_digest env (pj_operation j)]"
      using c by (simp add: carries_def)
    ultimately have "recover_transactions env [] d = (Finished (), [], d')"
      by (simp add: recover_transactions_def looking_def)
    then show ?thesis by blast
  qed
  from d consider "clean s d" | j where "undoable env s j d" | j where "completed env s j d"
    unfolding stands_for_def by blast
  then show ?thesis
  proof cases
    case 1
    then show ?thesis by (simp add: recover_transactions_def looking_def clean_def give_def)
  next
    case (2 j)
    then show ?thesis
      using d by (intro entry [of j None]) (auto simp: undoable_def read_receipt_None stands_for_def)
  next
    case (3 j)
    then show ?thesis
      using d entry [of j] read_receipt_cong [of d s env "pj_operation j"]
      by (auto simp: completed_def stands_for_def)
  qed
qed

text \<open>C6: After a crash anywhere, recovery gives back exactly the catalog the disk stands for: it finishes when no call
  fails, an interrupted recovery changes nothing of what the disk stands for, and a finished one leaves the
  contents of every file and the directories of that catalog, with its receipts and without journals.\<close>

theorem catalog_recovery_exact:
  assumes "stands_for env s d"
  shows "(\<exists>d'. recover_transactions env [] d = (Finished (), [], d')) \<and>
    (\<forall>io r io' d'. recover_transactions env io d = (r, io', d') \<longrightarrow> stands_for env s d') \<and>
    (\<forall>io io' d'. recover_transactions env io d = (Finished (), io', d') \<longrightarrow>
       cd_pending d' = [] \<and> cd_receipts d' = cd_receipts s \<and> set (cd_dirs d') = set (cd_dirs s) \<and>
       (\<forall>p. jget (cd_files d') p = jget (cd_files s) p))"
proof (intro conjI allI impI)
  show "\<exists>d'. recover_transactions env [] d = (Finished (), [], d')" by (rule recovery_finishes [OF assms])
  fix io r io' d'
  show "stands_for env s d'" if "recover_transactions env io d = (r, io', d')"
    using triple_outcome [OF recovery_triple assms that] by (cases r) auto
next
  fix io io' d' assume run: "recover_transactions env io d = (Finished (), io', d')"
  from triple_outcome [OF recovery_triple assms run] have d': "stands_for env s d'" "cd_pending d' = []" by auto
  then show "cd_pending d' = []" "cd_receipts d' = cd_receipts s" by (simp_all add: stands_for_def)
  from d' have "same_content d' s"
    unfolding stands_for_def clean_def undoable_def completed_def carries_def by auto
  then show "set (cd_dirs d') = set (cd_dirs s)" "jget (cd_files d') p = jget (cd_files s) p" for p
    by (simp_all add: same_content_def)
qed

end
