(* ===== verification/CatalogConfigs.thy ===== *)
theory CatalogConfigs
  imports CatalogAtomicity
begin

text \<open>
  What a replacement of the configuration writes when no call of the file system fails: one file per gateway
  under its new name, and no other route configuration, unless a gateway's old name is the new name of one
  before it. And the atomicity of the transactions at concrete inputs.
\<close>

declare split_paired_All [simp del] split_paired_Ex [simp del]

section \<open>Runs without failures\<close>

definition calm :: "(catalog_disk \<Rightarrow> bool) \<Rightarrow> 'a effect \<Rightarrow> ('a \<Rightarrow> catalog_disk \<Rightarrow> bool) \<Rightarrow> bool" where
  "calm P m F \<longleftrightarrow> (\<forall>d. P d \<longrightarrow> (\<exists>a d'. m [] d = (Finished a, [], d') \<and> F a d'))"

lemma calmE:
  assumes "calm P m F" and "P d"
  obtains a d' where "m [] d = (Finished a, [], d')" and "F a d'"
  using assms unfolding calm_def by blast

lemma calm_then:
  assumes m: "calm P m M" and f: "\<And>a. calm (M a) (f a) F"
  shows "calm P (also_then m f) F"
  unfolding calm_def
proof (intro allI impI)
  fix d assume "P d"
  then obtain a d1 where 1: "m [] d = (Finished a, [], d1)" and M: "M a d1" by (rule calmE [OF m])
  from M obtain b d2 where "f a [] d1 = (Finished b, [], d2)" "F b d2" by (rule calmE [OF f])
  with 1 show "\<exists>a d'. also_then m f [] d = (Finished a, [], d') \<and> F a d'" by (simp add: also_then_def)
qed

lemma calm_weaken: "calm P' m F' \<Longrightarrow> (\<And>d. P d \<Longrightarrow> P' d) \<Longrightarrow> (\<And>a d. F' a d \<Longrightarrow> F a d) \<Longrightarrow> calm P m F"
  unfolding calm_def by meson

lemma calm_give: "(\<And>d. P d \<Longrightarrow> F a d) \<Longrightarrow> calm P (give a) F"
  by (simp add: calm_def give_def)

lemma calm_disk: "(\<And>d. P d \<Longrightarrow> F () (g d)) \<Longrightarrow> calm P (disk_call t g) F"
  by (simp add: calm_def disk_call_def)

lemma calm_atomic: "(\<And>d. P d \<Longrightarrow> F () (g d)) \<Longrightarrow> calm P (atomic_call g) F"
  by (simp add: atomic_call_def calm_disk)

lemma calm_looking: "(\<And>d. P d \<Longrightarrow> calm (\<lambda>d'. d' = d) (f d) F) \<Longrightarrow> calm P (looking f) F"
  by (simp add: calm_def looking_def)

lemma calm_ignoring: "calm P m (\<lambda>_. F) \<Longrightarrow> calm P (ignoring_errors m) (\<lambda>_. F)"
  unfolding calm_def ignoring_errors_def by fastforce

lemma calm_none: "\<not> (\<exists>d. P d) \<Longrightarrow> calm P m F"
  unfolding calm_def by blast

lemma calm_each:
  assumes "\<And>ys x zs. xs = ys @ x # zs \<Longrightarrow> calm (J ys) (f x) (\<lambda>_. J (ys @ [x]))"
  shows "calm (J []) (each f xs) (\<lambda>_. J xs)"
proof -
  have "xs = ys @ zs \<Longrightarrow> calm (J ys) (each f zs) (\<lambda>_. J xs)" for ys zs
  proof (induction zs arbitrary: ys)
    case Nil
    then show ?case by (auto intro: calm_give)
  next
    case (Cons x zs)
    from Cons.prems have "calm (J (ys @ [x])) (each f zs) (\<lambda>_. J xs)" by (intro Cons.IH) simp
    with assms [OF Cons.prems] show ?case by (simp add: calm_then [where M = "\<lambda>_. J (ys @ [x])"])
  qed
  from this [of "[]" xs] show ?thesis by simp
qed

section \<open>Writing a configuration\<close>

definition config_of :: "string \<Rightarrow> cpath" where
  "config_of n = (Route_root, [n, ''adapterConfig.json''])"

lemma config_of_inject [simp]: "config_of m = config_of n \<longleftrightarrow> m = n"
  by (simp add: config_of_def)

definition proper_name :: "string \<Rightarrow> bool" where
  "proper_name n \<longleftrightarrow> n \<noteq> [] \<and> sanitize_config_name n = n"

lemma proper_path: "proper_name n \<Longrightarrow> adapter_config_path n = Inr (config_of n)"
  by (simp add: adapter_config_path_def proper_name_def config_of_def)

lemma default_proper: "proper_name ''default''"
  by (simp add: proper_name_def) code_simp

lemma old_name_proper: "proper_name (old_config_name raw)"
proof -
  have "proper_name (snd (route_runtime_parts i))" for i
    using default_proper
    by (auto simp: route_runtime_parts_def proper_name_def Let_def split: option.splits prod.splits)
  then show ?thesis by (auto simp: old_config_name_def Let_def proper_name_def)
qed

lemma write_plain_calm:
  "calm (\<lambda>d. disk_ok d \<and> Q (jset p c (cd_files d))) (write_plain p c) (\<lambda>_ d. disk_ok d \<and> Q (cd_files d))"
  if "snd p \<noteq> []" for Q :: "(cpath, string) jmap \<Rightarrow> bool"
  unfolding write_plain_def
  by (rule calm_then [OF calm_atomic calm_disk, where M = "\<lambda>_ d. disk_ok d \<and> Q (jset p c (cd_files d))"])
    (simp_all add: disk_ok_make_dirs disk_ok_put_file that)

lemma unlink_calm:
  "calm (\<lambda>d. disk_ok d \<and> files = cd_files d) (unlink_existing p)
     (\<lambda>_ d. disk_ok d \<and> (\<forall>q. jget (cd_files d) q = (if q = p then None else jget files q)))"
  unfolding unlink_existing_def
  by (rule calm_looking) (auto intro!: calm_atomic calm_give simp: disk_ok_drop_file not_jhas_get)

text \<open>After the gateways written so far: each has its text under its new name.\<close>

definition written :: "repository_env \<Rightarrow> gateway list \<Rightarrow> catalog_disk \<Rightarrow> bool" where
  "written re ns d \<longleftrightarrow> disk_ok d \<and>
     (\<forall>g \<in> set ns. jget (cd_files d) (config_of (new_config_name g)) = Some (re_gateway_text re g))"

definition no_rename_chain :: "gateway list \<Rightarrow> gateway list \<Rightarrow> bool" where
  "no_rename_chain gs ns \<longleftrightarrow> (\<forall>i j. i < j \<longrightarrow> j < length gs \<longrightarrow> old_config_name (gs ! j) \<noteq> new_config_name (ns ! i))"

lemma write_gateway_alt:
  assumes "proper_name (new_config_name g)"
  shows "write_gateway re None (raw, g) =
    also_then (if old_config_name raw \<noteq> new_config_name g
      then ignoring_errors (unlink_existing (config_of (old_config_name raw))) else give ())
    (\<lambda>_. write_plain (config_of (new_config_name g)) (re_gateway_text re g))"
proof -
  have "old_config_name raw \<noteq> []" using old_name_proper by (simp add: proper_name_def)
  then show ?thesis
    by (simp add: write_gateway_def Let_def proper_path [OF assms] proper_path [OF old_name_proper])
qed

lemma unlink_old_calm:
  "calm (\<lambda>d. disk_ok d \<and> files = cd_files d)
     (if b then ignoring_errors (unlink_existing p) else give ())
     (\<lambda>_ d. disk_ok d \<and> (\<forall>q. jget (cd_files d) q = (if b \<and> q = p then None else jget files q)))"
  using calm_ignoring [OF unlink_calm] by (auto intro!: calm_give)

lemma write_gateway_calm:
  assumes "proper_name (new_config_name g)"
  shows "calm (\<lambda>d. disk_ok d \<and> files = cd_files d) (write_gateway re None (raw, g))
    (\<lambda>_ d. disk_ok d \<and> (\<forall>q. jget (cd_files d) q =
       (if q = config_of (new_config_name g) then Some (re_gateway_text re g)
        else if old_config_name raw \<noteq> new_config_name g \<and> q = config_of (old_config_name raw) then None
        else jget files q)))"
  unfolding write_gateway_alt [OF assms]
  by (rule calm_then [OF unlink_old_calm], rule calm_weaken [OF write_plain_calm [where Q = "\<lambda>m. \<forall>q. jget m q =
       (if q = config_of (new_config_name g) then Some (re_gateway_text re g)
        else if old_config_name raw \<noteq> new_config_name g \<and> q = config_of (old_config_name raw) then None
        else jget files q)"]])
    (auto simp: config_of_def)

lemma calm_files: "(\<And>files. calm (\<lambda>d. P d \<and> files = cd_files d) m F) \<Longrightarrow> calm P m F"
  unfolding calm_def by blast

lemma gateways_calm:
  assumes len: "length gs = length ns" and proper: "\<And>g. g \<in> set ns \<Longrightarrow> proper_name (new_config_name g)"
    and dist: "distinct (map new_config_name ns)" and chain: "no_rename_chain gs ns"
  shows "calm disk_ok (each (write_gateway re None) (zip gs ns)) (\<lambda>_. written re ns)"
proof -
  let ?J = "\<lambda>ys :: (gateway \<times> gateway) list. written re (map snd ys)"
  have "calm (?J []) (each (write_gateway re None) (zip gs ns)) (\<lambda>_. ?J (zip gs ns))"
  proof (rule calm_each [where J = ?J])
    fix ys x zs assume split: "zip gs ns = ys @ x # zs"
    obtain raw g where x: "x = (raw, g)" by (cases x)
    have ns: "ns = map snd ys @ g # map snd zs"
      using arg_cong [OF split, of "map snd"] len x by simp
    have gs: "gs = map fst ys @ raw # map fst zs"
      using arg_cong [OF split, of "map fst"] len x by simp
    have p: "proper_name (new_config_name g)" by (rule proper) (simp add: ns)
    have new: "new_config_name h \<noteq> new_config_name g \<and> new_config_name h \<noteq> old_config_name raw"
      if h: "h \<in> set (map snd ys)" for h
    proof
      show "new_config_name h \<noteq> new_config_name g" using dist h by (force simp: ns)
      from h obtain i where i: "i < length ys" "h = map snd ys ! i" by (metis in_set_conv_nth length_map)
      then have "ns ! i = h" and "gs ! length ys = raw" by (simp_all add: ns gs nth_append)
      moreover have "length ys < length gs" by (simp add: gs)
      ultimately show "new_config_name h \<noteq> old_config_name raw"
        using chain i(1) unfolding no_rename_chain_def by metis
    qed
    have "calm (\<lambda>d. ?J ys d \<and> files = cd_files d) (write_gateway re None x) (\<lambda>_. ?J (ys @ [x]))" for files
      unfolding x
    proof (cases "\<exists>d. ?J ys d \<and> files = cd_files d")
      case True
      then have w: "\<forall>h \<in> set (map snd ys). jget files (config_of (new_config_name h)) = Some (re_gateway_text re h)"
        by (auto simp: written_def)
      show "calm (\<lambda>d. ?J ys d \<and> files = cd_files d) (write_gateway re None (raw, g)) (\<lambda>_. ?J (ys @ [(raw, g)]))"
        by (rule calm_weaken [OF write_gateway_calm [OF p, where files = files]])
          (use w new in \<open>auto simp: written_def\<close>)
    qed (rule calm_none)
    then show "calm (?J ys) (write_gateway re None x) (\<lambda>_. ?J (ys @ [x]))" by (rule calm_files)
  qed
  then show ?thesis by (rule calm_weaken) (use len in \<open>auto simp: written_def\<close>)
qed

lemma gateway_role_proper: "gateway_role g \<noteq> [] \<Longrightarrow> sanitize_role_id (gateway_role g) = gateway_role g"
  by (auto simp: gateway_role_def route_runtime_parts_def sanitize_role_id_def Let_def split: option.splits prod.splits if_splits)

lemma write_persona_calm:
  assumes r: "r \<noteq> []" "sanitize_role_id r = r" and texts: "\<And>gs f. \<exists>t. re_persona_text re gs f = Inr t"
  shows "calm (written re ns) (write_persona re r gs) (\<lambda>_. written re ns)"
proof -
  let ?p = "(Roles_root, [r, ''personaConfig.json''])"
  have path: "persona_config_path r = Inr ?p" using r by (simp add: persona_config_path_def)
  have put: "calm (written re ns) (write_plain ?p c) (\<lambda>_. written re ns)" for c
    by (rule calm_weaken [OF write_plain_calm [where p = ?p and c = c and Q = "\<lambda>m. \<forall>g \<in> set ns.
          jget m (config_of (new_config_name g)) = Some (re_gateway_text re g)"]])
      (auto simp: written_def config_of_def)
  show ?thesis
    unfolding write_persona_def path from_res_simps also_then_give
  proof (rule calm_looking)
    fix d assume d: "written re ns d"
    obtain t where t: "re_persona_text re gs (jget (cd_files d) ?p) = Inr t" using texts by blast
    show "calm (\<lambda>d'. d' = d) (also_then (from_res (re_persona_text re gs (jget (cd_files d) ?p)))
       (\<lambda>text. case text of None \<Rightarrow> give () | Some c \<Rightarrow> write_plain ?p c)) (\<lambda>_. written re ns)"
      unfolding t from_res_simps also_then_give
      by (cases t) (use d in \<open>auto intro: calm_give calm_weaken [OF put]\<close>)
  qed
qed

lemma proper_role: "proper_name n \<Longrightarrow> sanitize_role_id n = n \<and> n \<noteq> []"
proof -
  assume p: "proper_name n"
  let ?t = "squeeze_dashes (map (\<lambda>c. if name_char c then c else CHR ''-'') (js_trim n))"
  have "name_char (CHR ''-'')" by (simp add: name_char_def)
  then have t: "list_all name_char ?t" by (auto simp: list_all_iff set_squeeze)
  have "set (sanitize_config_name n) \<subseteq> set ?t"
    by (auto simp: sanitize_config_name_def dest!: set_dropWhileD)
  with t p have "list_all name_char n" by (auto simp: list_all_iff proper_name_def)
  with p show ?thesis by (auto simp: sanitize_role_id_def js_trim_no_space proper_name_def Let_def)
qed

definition only_written :: "gateway list \<Rightarrow> catalog_disk \<Rightarrow> bool" where
  "only_written ns d \<longleftrightarrow> (\<forall>n. proper_name n \<longrightarrow> jhas (cd_files d) (config_of n) \<longrightarrow> n \<in> set (map new_config_name ns))"

lemma remove_missing_calm:
  "calm (written re ns) (remove_missing env (map new_config_name ns)) (\<lambda>_ d. written re ns d \<and> only_written ns d)"
  unfolding remove_missing_def Let_def
proof (rule calm_looking)
  fix d1 assume w: "written re ns d1"
  then have ok: "disk_ok d1" by (simp add: written_def)
  let ?xs = "immediate_dirs env Route_root d1"
  let ?A = "set (map new_config_name ns)"
  let ?f = "\<lambda>n. if sanitize_role_id n = [] \<or> sanitize_config_name n = [] \<or> sanitize_config_name n \<in> ?A then give ()
      else ignoring_errors (unlink_existing (Route_root, [sanitize_config_name n, ''adapterConfig.json'']))"
  let ?J = "\<lambda>ys d. written re ns d \<and> (\<forall>n. proper_name n \<longrightarrow> jhas (cd_files d) (config_of n) \<longrightarrow>
      n \<in> ?A \<or> n \<in> set ?xs - set ys)"
  have "calm (?J []) (each ?f ?xs) (\<lambda>_. ?J ?xs)"
  proof (rule calm_each [where J = ?J])
    fix ys n zs assume "?xs = ys @ n # zs"
    show "calm (?J ys) (?f n) (\<lambda>_. ?J (ys @ [n]))"
    proof (cases "sanitize_role_id n = [] \<or> sanitize_config_name n = [] \<or> sanitize_config_name n \<in> ?A")
      case True
      then have "proper_name n \<Longrightarrow> n \<in> ?A" using proper_role by (auto simp: proper_name_def)
      then show ?thesis unfolding if_P [OF True] by (intro calm_give) auto
    next
      case False
      have "calm (\<lambda>d. ?J ys d \<and> files = cd_files d)
          (ignoring_errors (unlink_existing (config_of (sanitize_config_name n)))) (\<lambda>_. ?J (ys @ [n]))" for files
      proof (cases "\<exists>d. ?J ys d \<and> files = cd_files d")
        case True
        then have F: "\<forall>h \<in> set ns. jget files (config_of (new_config_name h)) = Some (re_gateway_text re h)"
          and R: "\<forall>n. proper_name n \<longrightarrow> jhas files (config_of n) \<longrightarrow> n \<in> ?A \<or> n \<in> set ?xs - set ys"
          by (auto simp: written_def)
        show ?thesis
          by (rule calm_weaken [OF calm_ignoring [OF unlink_calm [where files = files]]])
            (use F R False in \<open>auto simp: written_def jhas_get proper_name_def image_iff\<close>)
      qed (rule calm_none)
      then show ?thesis
        unfolding if_not_P [OF False] config_of_def [symmetric] by (rule calm_files)
    qed
  qed
  moreover have "?J [] d1"
  proof -
    have "n \<in> set ?xs" if "jhas (cd_files d1) (config_of n)" for n
    proof -
      have "set (dir_prefixes (parent_dir (config_of n))) \<subseteq> set (cd_dirs d1)"
        using ok that unfolding disk_ok_def by blast
      then show ?thesis
        by (simp add: set_immediate_dirs [OF ok] config_of_def parent_dir_def dir_prefixes_def)
    qed
    with w show ?thesis by auto
  qed
  ultimately show "calm (\<lambda>d. d = d1) (each ?f ?xs) (\<lambda>_ d. written re ns d \<and> only_written ns d)"
    by (elim calm_weaken) (auto simp: only_written_def)
qed

text \<open>C22: A replacement whose new names are proper and distinct, and in which no gateway's old name is the new name of
  a gateway before it, leaves exactly the configurations of its gateways when no call of the file system fails.\<close>

theorem replacement_exact:
  assumes "re_normalize re gs = Inr ns" and "length gs = length ns"
    and "\<And>g. g \<in> set ns \<Longrightarrow> proper_name (new_config_name g)" and "distinct (map new_config_name ns)"
    and "no_rename_chain gs ns" and "\<And>hs f. \<exists>t. re_persona_text re hs f = Inr t" and "disk_ok d"
  shows "\<exists>d'. write_config env re gs None [] d = (Finished (), [], d') \<and>
    (\<forall>g \<in> set ns. jget (cd_files d') (config_of (new_config_name g)) = Some (re_gateway_text re g)) \<and>
    (\<forall>n. proper_name n \<and> n \<notin> set (map new_config_name ns) \<longrightarrow> \<not> jhas (cd_files d') (config_of n))"
proof -
  let ?mine = "filter (\<lambda>g. in_scope None g \<and> gateway_role g \<noteq> []) ns"
  let ?persona = "\<lambda>r. write_persona re r (filter (\<lambda>g. gateway_role g = r) ?mine)"
  have personas: "calm (written re ns) (each ?persona (first_seen (map gateway_role ?mine))) (\<lambda>_. written re ns)"
  proof (rule calm_each [where J = "\<lambda>_. written re ns"])
    fix ys r zs assume "first_seen (map gateway_role ?mine) = ys @ r # zs"
    then have "r \<in> set (first_seen (map gateway_role ?mine))" by (metis in_set_conv_decomp)
    then have "r \<noteq> []" "sanitize_role_id r = r" using gateway_role_proper by auto
    then show "calm (written re ns) (?persona r) (\<lambda>_. written re ns)" by (rule write_persona_calm [OF _ _ assms(6)])
  qed
  have eq: "write_config env re gs None = also_then (each (write_gateway re None) (zip gs ns)) (\<lambda>_.
      also_then (each ?persona (first_seen (map gateway_role ?mine))) (\<lambda>_. remove_missing env (map new_config_name ns)))"
    unfolding write_config_def Let_def assms(1) from_res_simps also_then_give option.case by (rule refl)
  have "calm disk_ok (write_config env re gs None) (\<lambda>_ d. written re ns d \<and> only_written ns d)"
    unfolding eq
    by (rule calm_then [OF gateways_calm [OF assms(2-5)]], assumption, rule calm_then [OF personas remove_missing_calm])
  then obtain u d' where "write_config env re gs None [] d = (Finished u, [], d')" "written re ns d' \<and> only_written ns d'"
    using assms(7) by (rule calmE)
  then have run: "write_config env re gs None [] d = (Finished (), [], d')" and w: "written re ns d'" and only: "only_written ns d'"
    by simp_all
  show ?thesis
  proof (intro exI conjI)
    show "write_config env re gs None [] d = (Finished (), [], d')" by (rule run)
    show "\<forall>g \<in> set ns. jget (cd_files d') (config_of (new_config_name g)) = Some (re_gateway_text re g)"
      using w by (simp add: written_def)
    show "\<forall>n. proper_name n \<and> n \<notin> set (map new_config_name ns) \<longrightarrow> \<not> jhas (cd_files d') (config_of n)"
      using only unfolding only_written_def by blast
  qed
qed

text \<open>A gateway that takes over the old name of one after it loses its file again.\<close>

lemma remove_missing_spares:
  assumes Q: "\<And>m n. n \<notin> set active \<Longrightarrow> Q m \<Longrightarrow> Q (m(config_of n := None))"
  shows "calm (\<lambda>d. disk_ok d \<and> Q (jget (cd_files d))) (remove_missing env active)
    (\<lambda>_ d. disk_ok d \<and> Q (jget (cd_files d)))"
  unfolding remove_missing_def Let_def
proof (rule calm_looking)
  fix d1 assume d1: "disk_ok d1 \<and> Q (jget (cd_files d1))"
  let ?P = "\<lambda>d. disk_ok d \<and> Q (jget (cd_files d))"
  let ?f = "\<lambda>n. if sanitize_role_id n = [] \<or> sanitize_config_name n = [] \<or> sanitize_config_name n \<in> set active then give ()
      else ignoring_errors (unlink_existing (Route_root, [sanitize_config_name n, ''adapterConfig.json'']))"
  have "calm ?P (each ?f (immediate_dirs env Route_root d1)) (\<lambda>_. ?P)"
  proof (rule calm_each [where J = "\<lambda>_. ?P"])
    fix n
    show "calm ?P (?f n) (\<lambda>_. ?P)"
    proof (cases "sanitize_role_id n = [] \<or> sanitize_config_name n = [] \<or> sanitize_config_name n \<in> set active")
      case True
      then show ?thesis unfolding if_P [OF True] by (intro calm_give)
    next
      case False
      let ?c = "sanitize_config_name n"
      have "calm (\<lambda>d. ?P d \<and> files = cd_files d) (ignoring_errors (unlink_existing (config_of ?c))) (\<lambda>_. ?P)" for files
      proof (cases "Q (jget files)")
        case True
        with Q False have Qc: "Q ((jget files)(config_of ?c := None))" by blast
        have "Q (jget (cd_files d))"
          if "\<forall>q. jget (cd_files d) q = (if q = config_of ?c then None else jget files q)" for d
        proof -
          from that have "jget (cd_files d) = (jget files)(config_of ?c := None)" by auto
          with Qc show ?thesis by simp
        qed
        then show ?thesis
          by (intro calm_weaken [OF calm_ignoring [OF unlink_calm [where files = files]]]) auto
      qed (intro calm_none; blast)
      then show ?thesis
        unfolding if_not_P [OF False] config_of_def [symmetric] by (rule calm_files)
    qed
  qed
  then show "calm (\<lambda>d. d = d1) (each ?f (immediate_dirs env Route_root d1)) (\<lambda>_. ?P)"
    by (rule calm_weaken) (use d1 in auto)
qed

text \<open>C23: A replacement that renames along a chain loses a configuration. When the second of two gateways had the name
  that the first one is given, the file just written for the first is deleted as the second's old one, and the
  call returns without an error.\<close>

theorem rename_chain_loses_config:
  assumes "re_normalize re [raw1, raw2] = Inr [g1, g2]"
    and "proper_name (new_config_name g1)" and "proper_name (new_config_name g2)"
    and "old_config_name raw2 = new_config_name g1" and "new_config_name g1 \<noteq> new_config_name g2"
    and "gateway_role g1 = []" and "gateway_role g2 = []" and "disk_ok d"
  shows "\<exists>d'. write_config env re [raw1, raw2] None [] d = (Finished (), [], d') \<and>
    \<not> jhas (cd_files d') (config_of (new_config_name g1)) \<and> jhas (cd_files d') (config_of (new_config_name g2))"
proof -
  let ?b = "config_of (new_config_name g1)" and ?c = "config_of (new_config_name g2)"
  let ?Q = "\<lambda>m. m ?b = None \<and> m ?c \<noteq> None"
  let ?P = "\<lambda>d. disk_ok d \<and> ?Q (jget (cd_files d))"
  have first: "calm disk_ok (write_gateway re None (raw1, g1)) (\<lambda>_. disk_ok)"
    by (rule calm_files, rule calm_weaken [OF write_gateway_calm [OF assms(2)]]) auto
  have second: "calm disk_ok (write_gateway re None (raw2, g2)) (\<lambda>_. ?P)"
    by (rule calm_files, rule calm_weaken [OF write_gateway_calm [OF assms(3)]]) (use assms(4,5) in auto)
  have rest: "calm ?P (remove_missing env [new_config_name g1, new_config_name g2]) (\<lambda>_. ?P)"
    by (rule remove_missing_spares) auto
  have eq: "write_config env re [raw1, raw2] None =
     also_then (write_gateway re None (raw1, g1)) (\<lambda>_. also_then (write_gateway re None (raw2, g2))
       (\<lambda>_. remove_missing env [new_config_name g1, new_config_name g2]))"
    by (simp add: write_config_def assms(1,6,7) Let_def in_scope_def also_then_assoc)
  have "calm disk_ok (write_config env re [raw1, raw2] None) (\<lambda>_. ?P)"
    unfolding eq by (rule calm_then [OF first], rule calm_then [OF second rest])
  then obtain u d' where "write_config env re [raw1, raw2] None [] d = (Finished u, [], d')" "?P d'"
    using assms(8) by (rule calmE)
  then show ?thesis by (intro exI [of _ d']) (auto simp: jhas_get)
qed

section \<open>Concrete transactions\<close>

definition demo_env :: catalog_env where
  "demo_env = \<lparr>ce_id_digest = (\<lambda>i. i), ce_digest = (\<lambda>v. replicate 64 (CHR ''0'')),
     ce_collate = (\<lambda>a b. length a \<le> length b), ce_role_file = (\<lambda>f. [f])\<rparr>"

definition demo_repo :: repository_env where
  "demo_repo = \<lparr>re_normalize = Inr, re_gateway_text = gw_body, re_persona_text = (\<lambda>gs f. Inr None),
     re_workflow_text = (\<lambda>f. Inr None),
     re_capture = (\<lambda>d. Inr \<lparr>sv_gateways = [], sv_hash = replicate 64 (CHR ''0'')\<rparr>),
     re_capture_read_only = (\<lambda>d. Inr \<lparr>sv_gateways = [], sv_hash = replicate 64 (CHR ''0'')\<rparr>), re_examples = (\<lambda>r. None)\<rparr>"

definition empty_disk :: catalog_disk where
  "empty_disk = \<lparr>cd_roots = [Roles_root, Route_root], cd_files = [], cd_dirs = [], cd_pending = [], cd_receipts = []\<rparr>"

definition folder_input :: catalog_input where
  "folder_input = \<lparr>ci_operation_id = ''one'', ci_operation = Ensure_role_folder ''ann'', ci_read_only = False\<rparr>"

lemma demo_ok:
  "paths_ok demo_env" "hashes_ok demo_repo" "ci_operation_id folder_input \<noteq> []"
  "stands_for demo_env empty_disk empty_disk" "\<not> is_capture (ci_operation folder_input)"
proof -
  have "hex_digest (replicate 64 (CHR ''0''))" by code_simp
  then show "paths_ok demo_env" "hashes_ok demo_repo"
    by (auto simp: paths_ok_def hashes_ok_def demo_env_def demo_repo_def)
  show "stands_for demo_env empty_disk empty_disk"
    by (simp add: stands_for_def settled_def clean_def disk_ok_def both_roots_def empty_disk_def jhas_def)
qed (simp_all add: folder_input_def is_capture_def)

text \<open>The folder is made, and the process dies before the receipt: a capture is three calls, the journal and
  the folder one each.\<close>

definition dies_before_receipt :: "disk_io list" where
  "dies_before_receipt = replicate 8 Op_ok @ [Op_crash None]"

definition crashed_run :: "(snapshot_view \<times> (string \<times> bool) option) effect_result \<times> disk_io list \<times> catalog_disk" where
  "crashed_run = execute_transaction demo_env demo_repo ''now'' folder_input dies_before_receipt empty_disk"

definition crashed_disk :: catalog_disk where
  "crashed_disk = snd (snd crashed_run)"

lemma crashed_eval:
  "fst crashed_run = Crashed" "cd_dirs crashed_disk = [(Roles_root, [''ann''])]"
  "jkeys (cd_pending crashed_disk) = [''one'']" "cd_receipts crashed_disk = []"
  by code_simp+

lemma crashed_stands: "stands_for demo_env empty_disk crashed_disk"
proof -
  obtain r io' where run: "execute_transaction demo_env demo_repo ''now'' folder_input dies_before_receipt empty_disk
      = (r, io', crashed_disk)"
    using crashed_run_def by (simp add: crashed_disk_def prod_eq_iff)
  have "stands_now (operation_hooks demo_env demo_repo) demo_env demo_repo (ci_operation_id folder_input)
      (ci_operation folder_input) ''now'' empty_disk crashed_disk"
    using triple_outcome [OF transaction_triple [OF demo_ok(1-3,5)] demo_ok(4) run] by (cases r) auto
  moreover have "cd_receipts s' \<noteq> []" if "committed (operation_hooks demo_env demo_repo) demo_env demo_repo i op now empty_disk s'"
    for i op now s'
    using that by (auto simp: committed_def empty_disk_def)
  ultimately show ?thesis
    using crashed_eval(4) unfolding stands_now_def stands_for_def by metis
qed

theorem catalog_transaction_atomic_witness:
  "fst crashed_run = Crashed \<and>
   (stands_for demo_env empty_disk crashed_disk \<or>
    (\<exists>s'. stands_for demo_env s' crashed_disk \<and>
       committed (operation_hooks demo_env demo_repo) demo_env demo_repo ''one'' (Ensure_role_folder ''ann'') ''now'' empty_disk s'))"
proof -
  have "catalog_run = crashed_run \<Longrightarrow> execute_transaction demo_env demo_repo ''now'' folder_input dies_before_receipt empty_disk
      = (fst catalog_run, fst (snd catalog_run), crashed_disk)" for catalog_run
    by (simp add: crashed_disk_def crashed_run_def)
  from catalog_transaction_atomic [OF demo_ok(1-4) this [OF refl]] crashed_eval(1) show ?thesis
    by (simp add: folder_input_def)
qed

theorem catalog_recovery_exact_witness:
  "cd_dirs crashed_disk = [(Roles_root, [''ann''])] \<and>
   (\<exists>d'. recover_transactions demo_env [] crashed_disk = (Finished (), [], d') \<and> cd_pending d' = [] \<and> cd_dirs d' = [])"
proof -
  have r: "(\<exists>d'. recover_transactions demo_env [] crashed_disk = (Finished (), [], d'))"
    and all: "\<And>io' d'. recover_transactions demo_env [] crashed_disk = (Finished (), io', d') \<Longrightarrow>
      cd_pending d' = [] \<and> set (cd_dirs d') = set (cd_dirs empty_disk)"
    using catalog_recovery_exact [OF crashed_stands] by blast+
  from r obtain d' where "recover_transactions demo_env [] crashed_disk = (Finished (), [], d')" by blast
  with all [OF this] show ?thesis by (auto simp: crashed_eval empty_disk_def)
qed

definition finished_run :: "(snapshot_view \<times> (string \<times> bool) option) effect_result \<times> disk_io list \<times> catalog_disk" where
  "finished_run = execute_transaction demo_env demo_repo ''now'' folder_input [] empty_disk"

definition finished_disk :: catalog_disk where
  "finished_disk = snd (snd finished_run)"

lemma finished_eval:
  "\<exists>x. finished_run = (Finished x, [], finished_disk)" "cd_dirs finished_disk = [(Roles_root, [''ann''])]"
  "cd_pending finished_disk = []" "cd_files finished_disk = []" "cd_roots finished_disk = [Roles_root, Route_root]"
  "jget (cd_receipts finished_disk) ''one'' \<noteq> None"
proof -
  have "case fst finished_run of Finished x \<Rightarrow> fst (snd finished_run) = [] | _ \<Rightarrow> False" by code_simp
  then obtain x where "fst finished_run = Finished x" and "fst (snd finished_run) = []"
    by (cases "fst finished_run") auto
  then show "\<exists>x. finished_run = (Finished x, [], finished_disk)"
    unfolding finished_disk_def by (metis prod.collapse)
qed code_simp+

lemma success_durable_example:
  "cd_pending finished_disk = [] \<and>
   (\<exists>rc. read_receipt demo_env ''one'' finished_disk = Inr (Some rc) \<and> cr_digest rc = replicate 64 (CHR ''0''))"
proof -
  obtain x where "execute_transaction demo_env demo_repo ''now'' folder_input [] empty_disk = (Finished x, [], finished_disk)"
    using finished_eval(1) by (auto simp: finished_run_def)
  from catalog_success_durable [OF demo_ok(1-3,5,4) this] show ?thesis
    by (simp add: folder_input_def demo_env_def)
qed

text \<open>A second operation with the same id, for another role, changes nothing.\<close>

definition other_input :: catalog_input where
  "other_input = folder_input\<lparr>ci_operation := Ensure_role_folder ''bob''\<rparr>"

lemma finished_stands: "stands_for demo_env finished_disk finished_disk"
proof -
  have "disk_ok finished_disk"
    by (simp add: disk_ok_def both_roots_def finished_eval jhas_def dir_prefixes_def)
  then show ?thesis by (simp add: stands_for_def settled_def clean_def finished_eval)
qed

theorem catalog_operation_once_witness:
  "stands_for demo_env finished_disk (snd (snd (execute_transaction demo_env demo_repo ''now'' other_input [] finished_disk)))"
proof -
  obtain rc where rc: "jget (cd_receipts finished_disk) (ce_id_digest demo_env (ci_operation_id other_input)) = Some rc"
    using finished_eval(6) by (auto simp: demo_env_def other_input_def folder_input_def)
  have i: "ci_operation_id other_input \<noteq> []" by (simp add: other_input_def folder_input_def)
  let ?run = "execute_transaction demo_env demo_repo ''now'' other_input [] finished_disk"
  have "?run = (fst ?run, fst (snd ?run), snd (snd ?run))" by simp
  then show ?thesis by (rule catalog_operation_once [OF demo_ok(1,2) i finished_stands rc])
qed

text \<open>On an installation that has not been used the first capture installs the example data, which no journal
  covers: when the transaction then fails, the data stays.\<close>

definition example_repo :: repository_env where
  "example_repo = demo_repo\<lparr>re_examples := (\<lambda>r. case r of Roles_root \<Rightarrow> Some ([[''eve'']], [([''eve'', ''persona.md''], ''Eve'')])
     | Route_root \<Rightarrow> None)\<rparr>"

definition unused_disk :: catalog_disk where
  "unused_disk = empty_disk\<lparr>cd_roots := []\<rparr>"

definition installs :: "(snapshot_view \<times> (string \<times> bool) option) effect_result \<times> disk_io list \<times> catalog_disk \<Rightarrow> bool" where
  "installs run = (case run of (Threw Io_error, io, d) \<Rightarrow>
     cd_files d = [((Roles_root, [''eve'', ''persona.md'']), ''Eve'')] \<and> cd_pending d = [] \<and> cd_receipts d = [] | _ \<Rightarrow> False)"

lemma first_capture_installs:
  "installs (execute_transaction demo_env example_repo ''now'' folder_input (replicate 6 Op_ok @ [Op_fails None]) unused_disk)"
  by code_simp

text \<open>Two gateways, renamed along a chain, and the same two without a rename.\<close>

definition demo_gateway :: "string \<Rightarrow> string \<Rightarrow> gateway" where
  "demo_gateway i n = \<lparr>gw_id = i, gw_config_name = n, gw_role = [], gw_body = i\<rparr>"

lemma demo_names:
  "proper_name ''a''" "proper_name ''b''" "proper_name ''c''"
  "new_config_name (demo_gateway i ''b'') = ''b''" "new_config_name (demo_gateway i ''c'') = ''c''"
  "new_config_name (demo_gateway i ''a'') = ''a''"
  "old_config_name (demo_gateway ''b'' n) = ''b''" "old_config_name (demo_gateway ''a'' n) = ''a''"
  "gateway_role (demo_gateway ''a'' n) = []" "gateway_role (demo_gateway ''b'' n) = []"
proof -
  have n: "sanitize_config_name ''a'' = ''a''" "sanitize_config_name ''b'' = ''b''" "sanitize_config_name ''c'' = ''c''"
    by code_simp+
  then show "proper_name ''a''" "proper_name ''b''" "proper_name ''c''" by (simp_all add: proper_name_def)
  show "new_config_name (demo_gateway i ''b'') = ''b''" "new_config_name (demo_gateway i ''c'') = ''c''"
    "new_config_name (demo_gateway i ''a'') = ''a''"
    by (simp_all add: new_config_name_def demo_gateway_def n Let_def)
  have p: "route_runtime_parts ''a'' = ([], ''a'')" "route_runtime_parts ''b'' = ([], ''b'')" by code_simp+
  then show "old_config_name (demo_gateway ''b'' n) = ''b''" "old_config_name (demo_gateway ''a'' n) = ''a''"
    by (simp_all add: old_config_name_def demo_gateway_def)
  have "sanitize_role_id [] = []" by code_simp
  with p show "gateway_role (demo_gateway ''a'' n) = []" "gateway_role (demo_gateway ''b'' n) = []"
    by (simp_all add: gateway_role_def demo_gateway_def)
qed

theorem rename_chain_loses_config_witness:
  "\<exists>d'. write_config demo_env demo_repo [demo_gateway ''a'' ''b'', demo_gateway ''b'' ''c''] None [] empty_disk
        = (Finished (), [], d') \<and>
    \<not> jhas (cd_files d') (Route_root, [''b'', ''adapterConfig.json'']) \<and>
    jhas (cd_files d') (Route_root, [''c'', ''adapterConfig.json''])"
proof -
  have "re_normalize demo_repo [demo_gateway ''a'' ''b'', demo_gateway ''b'' ''c''] =
      Inr [demo_gateway ''a'' ''b'', demo_gateway ''b'' ''c'']"
    by (simp add: demo_repo_def)
  moreover have "disk_ok empty_disk" by (simp add: disk_ok_def both_roots_def empty_disk_def jhas_def)
  ultimately show ?thesis
    using rename_chain_loses_config [of demo_repo "demo_gateway ''a'' ''b''" "demo_gateway ''b'' ''c''"
        "demo_gateway ''a'' ''b''" "demo_gateway ''b'' ''c''" empty_disk demo_env]
    by (simp add: demo_names config_of_def)
qed

theorem replacement_exact_witness:
  "\<exists>d'. write_config demo_env demo_repo [demo_gateway ''a'' ''c'', demo_gateway ''b'' ''a''] None [] empty_disk
        = (Finished (), [], d') \<and>
    jget (cd_files d') (Route_root, [''a'', ''adapterConfig.json'']) = Some ''b'' \<and>
    \<not> jhas (cd_files d') (Route_root, [''b'', ''adapterConfig.json''])"
proof -
  let ?gs = "[demo_gateway ''a'' ''c'', demo_gateway ''b'' ''a'']"
  have n: "re_normalize demo_repo ?gs = Inr ?gs" and t: "\<exists>t. re_persona_text demo_repo hs f = Inr t" for hs f
    by (simp_all add: demo_repo_def)
  have ok: "disk_ok empty_disk" by (simp add: disk_ok_def both_roots_def empty_disk_def jhas_def)
  have chain: "no_rename_chain ?gs ?gs"
    unfolding no_rename_chain_def by (auto simp: less_Suc_eq demo_names)
  have "proper_name (new_config_name g)" if "g \<in> set ?gs" for g using that by (auto simp: demo_names)
  from replacement_exact [OF n refl this _ chain t ok, of demo_env]
  obtain d' where "write_config demo_env demo_repo ?gs None [] empty_disk = (Finished (), [], d')"
    and g: "\<forall>g \<in> set ?gs. jget (cd_files d') (config_of (new_config_name g)) = Some (re_gateway_text demo_repo g)"
    and o: "\<forall>n. proper_name n \<and> n \<notin> set (map new_config_name ?gs) \<longrightarrow> \<not> jhas (cd_files d') (config_of n)"
    by (auto simp: demo_names)
  moreover from o have "\<not> jhas (cd_files d') (config_of ''b'')" by (auto simp: demo_names)
  moreover from g have "jget (cd_files d') (config_of ''a'') = Some ''b''"
    by (simp add: demo_names) (simp add: demo_repo_def demo_gateway_def)
  ultimately show ?thesis by (auto simp: config_of_def)
qed

end
