(* ===== verification/FileLocks.thy ===== *)
theory FileLocks
  imports EventMachines DurableDelivery
begin

text \<open>
  \<open>withFileLockSync\<close> of \<open>src/shared/filePersistence.ts\<close>: a lock is a file that is created exclusively,
  holds the record of its owner and is unlinked at the end; a waiter may take away a file whose owner is
  gone. Processes are interleaved at every access to the file system: creating the file and writing
  the record are two accesses, and so are each of the reads, the two \<open>stat\<close> calls and the unlinking of
  a reclaim. A file keeps its identity when its name is unlinked, as a descriptor does.
\<close>

section \<open>Files and processes\<close>

record lock_record =
  lr_owner :: string
  lr_host :: string
  lr_pid :: int
  lr_created :: int

record lock_inode =
  li_content :: "lock_record option"
  li_mtime :: int

text \<open>The text of the file, \<open>None\<close> between its creation and the write.\<close>

definition lock_text :: "lock_record \<Rightarrow> string" where
  "lock_text r = ''{'' @ json_string ''owner'' @ '':'' @ json_string (lr_owner r) @ '','' @
     json_string ''host'' @ '':'' @ json_string (lr_host r) @ '','' @
     json_string ''pid'' @ '':'' @ int_str (lr_pid r) @ '','' @
     json_string ''createdAt'' @ '':'' @ int_str (lr_created r) @ ''}'' @ [CHR 0x0A]"

definition inode_size :: "lock_inode \<Rightarrow> nat" where
  "inode_size f = (case li_content f of None \<Rightarrow> 0 | Some r \<Rightarrow> length (lock_text r))"

text \<open>Where a process is in \<open>withFileLockSync\<close>. It is inside from the creation of its file to the unlinking.\<close>

datatype lock_pc = Lk_idle | Lk_open | Lk_write nat | Lk_hold | Lk_leave | Lk_unlink
  | Lk_stat | Lk_read int nat | Lk_reread int nat string | Lk_restat int nat bool | Lk_unlink_stale | Lk_refused
  | Lk_timed_out | Lk_done

record lock_process =
  lp_host :: string
  lp_pid :: int
  lp_alive :: bool
  lp_owner :: string
  lp_deadline :: int
  lp_stale :: int
  lp_pc :: lock_pc

record lock_world =
  lw_now :: int
  lw_inodes :: "lock_inode list"
  lw_path :: "nat option"
  lw_procs :: "lock_process list"

definition current_inode :: "lock_world \<Rightarrow> lock_inode option" where
  "current_inode w = map_option ((!) (lw_inodes w)) (lw_path w)"

definition read_lock_record :: "lock_world \<Rightarrow> lock_record option" where
  "read_lock_record w = (case current_inode w of None \<Rightarrow> None | Some f \<Rightarrow> li_content f)"

definition owner_text :: "lock_record option \<Rightarrow> string" where
  "owner_text r = (case r of None \<Rightarrow> [] | Some x \<Rightarrow> lr_owner x)"

definition same_host_process_alive :: "lock_world \<Rightarrow> string \<Rightarrow> lock_record option \<Rightarrow> bool" where
  "same_host_process_alive w host rec =
     (case rec of
        None \<Rightarrow> False
      | Some r \<Rightarrow> lr_host r \<noteq> [] \<and> js_lower (lr_host r) = js_lower host \<and> lr_pid r > 0 \<and>
          list_ex (\<lambda>p. lp_alive p \<and> lp_pid p = lr_pid r \<and> js_lower (lp_host p) = js_lower host) (lw_procs w))"

definition own_record :: "int \<Rightarrow> lock_process \<Rightarrow> lock_record" where
  "own_record now p = \<lparr>lr_owner = lp_owner p, lr_host = lp_host p, lr_pid = lp_pid p, lr_created = now\<rparr>"

section \<open>One access\<close>

definition set_pc :: "nat \<Rightarrow> lock_pc \<Rightarrow> lock_world \<Rightarrow> lock_world" where
  "set_pc n pc w = w\<lparr>lw_procs := (lw_procs w)[n := (lw_procs w ! n)\<lparr>lp_pc := pc\<rparr>]\<rparr>"

definition open_exclusive :: "nat \<Rightarrow> lock_world \<Rightarrow> lock_world" where
  "open_exclusive n w =
     (case lw_path w of
        Some i \<Rightarrow> set_pc n Lk_stat w
      | None \<Rightarrow> set_pc n (Lk_write (length (lw_inodes w)))
          (w\<lparr>lw_inodes := lw_inodes w @ [\<lparr>li_content = None, li_mtime = lw_now w\<rparr>],
             lw_path := Some (length (lw_inodes w))\<rparr>))"

definition write_record :: "nat \<Rightarrow> nat \<Rightarrow> lock_world \<Rightarrow> lock_world" where
  "write_record n i w = set_pc n Lk_hold
     (w\<lparr>lw_inodes := (lw_inodes w)[i := \<lparr>li_content = Some (own_record (lw_now w) (lw_procs w ! n)), li_mtime = lw_now w\<rparr>]\<rparr>)"

text \<open>\<open>releaseOwnedFileLock\<close>.\<close>

definition read_owner :: "nat \<Rightarrow> lock_world \<Rightarrow> lock_world" where
  "read_owner n w =
     (case read_lock_record w of
        Some r \<Rightarrow> if lr_owner r = lp_owner (lw_procs w ! n) then set_pc n Lk_unlink w else set_pc n Lk_done w
      | None \<Rightarrow> set_pc n Lk_done w)"

text \<open>\<open>reclaimStaleFileLock\<close>, which goes back to the opening when it has reclaimed the file or finds none.\<close>

definition stat_before :: "nat \<Rightarrow> lock_world \<Rightarrow> lock_world" where
  "stat_before n w =
     (case current_inode w of
        None \<Rightarrow> set_pc n Lk_open w
      | Some f \<Rightarrow> set_pc n (Lk_read (li_mtime f) (inode_size f)) w)"

definition decide_stale :: "nat \<Rightarrow> int \<Rightarrow> nat \<Rightarrow> lock_world \<Rightarrow> lock_world" where
  "decide_stale n m z w =
     (let p = lw_procs w ! n; rec = read_lock_record w in
      if same_host_process_alive w (lp_host p) rec \<or> lw_now w - m < lp_stale p then set_pc n Lk_refused w
      else set_pc n (Lk_reread m z (owner_text rec)) w)"

definition read_again :: "nat \<Rightarrow> int \<Rightarrow> nat \<Rightarrow> string \<Rightarrow> lock_world \<Rightarrow> lock_world" where
  "read_again n m z ow w = set_pc n (Lk_restat m z (owner_text (read_lock_record w) = ow)) w"

definition stat_after :: "nat \<Rightarrow> int \<Rightarrow> nat \<Rightarrow> bool \<Rightarrow> lock_world \<Rightarrow> lock_world" where
  "stat_after n m z same w =
     (case current_inode w of
        None \<Rightarrow> set_pc n Lk_open w
      | Some f \<Rightarrow> if \<not> same \<or> li_mtime f \<noteq> m \<or> inode_size f \<noteq> z then set_pc n Lk_refused w
          else set_pc n Lk_unlink_stale w)"

definition unlink_path :: "nat \<Rightarrow> lock_pc \<Rightarrow> lock_world \<Rightarrow> lock_world" where
  "unlink_path n pc w = set_pc n pc (w\<lparr>lw_path := None\<rparr>)"

definition check_deadline :: "nat \<Rightarrow> lock_world \<Rightarrow> lock_world" where
  "check_deadline n w = set_pc n (if lw_now w \<ge> lp_deadline (lw_procs w ! n) then Lk_timed_out else Lk_open) w"

definition lock_access :: "nat \<Rightarrow> lock_world \<Rightarrow> lock_world option" where
  "lock_access n w =
     (case lp_pc (lw_procs w ! n) of
        Lk_open \<Rightarrow> Some (open_exclusive n w)
      | Lk_write i \<Rightarrow> Some (write_record n i w)
      | Lk_leave \<Rightarrow> Some (read_owner n w)
      | Lk_unlink \<Rightarrow> Some (unlink_path n Lk_done w)
      | Lk_stat \<Rightarrow> Some (stat_before n w)
      | Lk_read m z \<Rightarrow> Some (decide_stale n m z w)
      | Lk_reread m z ow \<Rightarrow> Some (read_again n m z ow w)
      | Lk_restat m z same \<Rightarrow> Some (stat_after n m z same w)
      | Lk_unlink_stale \<Rightarrow> Some (unlink_path n Lk_open w)
      | Lk_refused \<Rightarrow> Some (check_deadline n w)
      | _ \<Rightarrow> None)"

section \<open>Runs\<close>

text \<open>\<open>Lock_call\<close> carries the owner text and the options; \<open>Lock_crash\<close> ends a process where it is.\<close>

datatype lock_event = Lock_call nat string int int | Lock_access nat | Lock_finish nat | Lock_tick int | Lock_crash nat

definition start_call :: "nat \<Rightarrow> string \<Rightarrow> int \<Rightarrow> int \<Rightarrow> lock_world \<Rightarrow> lock_world" where
  "start_call n ow timeout stale w =
     (let t = max 100 timeout in
      w\<lparr>lw_procs := (lw_procs w)[n := (lw_procs w ! n)
          \<lparr>lp_owner := ow, lp_deadline := lw_now w + t, lp_stale := max t stale, lp_pc := Lk_open\<rparr>]\<rparr>)"

definition at_rest :: "lock_pc \<Rightarrow> bool" where
  "at_rest pc \<longleftrightarrow> pc = Lk_idle \<or> pc = Lk_timed_out \<or> pc = Lk_done"

definition running_process :: "nat \<Rightarrow> lock_world \<Rightarrow> bool" where
  "running_process n w \<longleftrightarrow> n < length (lw_procs w) \<and> lp_alive (lw_procs w ! n)"

fun lock_step :: "lock_event \<Rightarrow> lock_world \<Rightarrow> lock_world option" where
  "lock_step (Lock_call n ow timeout stale) w =
     (if running_process n w \<and> at_rest (lp_pc (lw_procs w ! n)) then Some (start_call n ow timeout stale w) else None)"
| "lock_step (Lock_access n) w = (if running_process n w then lock_access n w else None)"
| "lock_step (Lock_finish n) w =
     (if running_process n w \<and> lp_pc (lw_procs w ! n) = Lk_hold then Some (set_pc n Lk_leave w) else None)"
| "lock_step (Lock_tick t) w = (if 0 < t then Some (w\<lparr>lw_now := lw_now w + t\<rparr>) else None)"
| "lock_step (Lock_crash n) w =
     (if running_process n w then Some (w\<lparr>lw_procs := (lw_procs w)[n := (lw_procs w ! n)\<lparr>lp_alive := False\<rparr>]\<rparr>) else None)"

text \<open>Runs in which nobody takes as long as \<open>limit\<close> between creating the file and writing its record.\<close>

definition prompt :: "int \<Rightarrow> lock_world \<Rightarrow> bool" where
  "prompt limit w \<longleftrightarrow> list_all (\<lambda>p. case lp_pc p of
     Lk_write i \<Rightarrow> lw_now w - li_mtime (lw_inodes w ! i) < limit | _ \<Rightarrow> True) (lw_procs w)"

definition prompt_step :: "int \<Rightarrow> lock_event \<Rightarrow> lock_world \<Rightarrow> lock_world option" where
  "prompt_step limit e w = (case lock_step e w of None \<Rightarrow> None | Some w' \<Rightarrow> if prompt limit w' then Some w' else None)"

definition new_lock_world :: "int \<Rightarrow> (string \<times> int) list \<Rightarrow> lock_world" where
  "new_lock_world now ps =
     \<lparr>lw_now = now, lw_inodes = [], lw_path = None,
      lw_procs = map (\<lambda>p. \<lparr>lp_host = fst p, lp_pid = snd p, lp_alive = True, lp_owner = [], lp_deadline = 0,
        lp_stale = 0, lp_pc = Lk_idle\<rparr>) ps\<rparr>"

section \<open>Mutual exclusion\<close>

definition inside :: "lock_pc \<Rightarrow> bool" where
  "inside pc \<longleftrightarrow> (case pc of Lk_write i \<Rightarrow> True | Lk_hold \<Rightarrow> True | Lk_leave \<Rightarrow> True | Lk_unlink \<Rightarrow> True | _ \<Rightarrow> False)"

definition is_own :: "lock_record \<Rightarrow> lock_process \<Rightarrow> bool" where
  "is_own r p \<longleftrightarrow> lr_owner r = lp_owner p \<and> lr_host r = lp_host p \<and> lr_pid r = lp_pid p"

abbreviation pc_of :: "lock_world \<Rightarrow> nat \<Rightarrow> lock_pc" where
  "pc_of w n \<equiv> lp_pc (lw_procs w ! n)"

abbreviation procs :: "lock_world \<Rightarrow> nat" where
  "procs w \<equiv> length (lw_procs w)"

text \<open>The processes are alive on one host, and those at work have an owner text.\<close>

definition people_ok :: "int \<Rightarrow> string \<Rightarrow> lock_process list \<Rightarrow> bool" where
  "people_ok limit h ps \<longleftrightarrow> (\<forall>n < length ps. lp_alive (ps ! n) \<and> lp_pid (ps ! n) > 0 \<and> lp_host (ps ! n) \<noteq> [] \<and>
     js_lower (lp_host (ps ! n)) = h \<and>
     (\<not> at_rest (lp_pc (ps ! n)) \<longrightarrow> lp_owner (ps ! n) \<noteq> [] \<and> limit \<le> lp_stale (ps ! n)))"

text \<open>What the file of a process that is inside holds.\<close>

definition file_ok :: "lock_world \<Rightarrow> nat \<Rightarrow> nat \<Rightarrow> bool" where
  "file_ok w n i \<longleftrightarrow>
     (case pc_of w n of
        Lk_write j \<Rightarrow> j = i \<and> li_content (lw_inodes w ! i) = None
      | _ \<Rightarrow> \<exists>r. li_content (lw_inodes w ! i) = Some r \<and> is_own r (lw_procs w ! n))"

definition owners_ok :: "lock_world \<Rightarrow> bool" where
  "owners_ok w \<longleftrightarrow>
     (\<forall>n < procs w. inside (pc_of w n) \<longrightarrow> (\<exists>i. lw_path w = Some i \<and> i < length (lw_inodes w) \<and> file_ok w n i)) \<and>
     (\<forall>m < procs w. \<forall>n < procs w. inside (pc_of w m) \<longrightarrow> inside (pc_of w n) \<longrightarrow> m = n) \<and>
     (lw_path w \<noteq> None \<longrightarrow> (\<exists>n < procs w. inside (pc_of w n)))"

text \<open>What a waiter knows in the middle of a reclaim: it never gets to the unlinking.\<close>

definition knows :: "int \<Rightarrow> lock_world \<Rightarrow> lock_pc \<Rightarrow> bool" where
  "knows limit w pc \<longleftrightarrow>
     (case pc of
        Lk_reread m z ow \<Rightarrow> ow = [] \<and> limit \<le> lw_now w - m
      | Lk_restat m z same \<Rightarrow> limit \<le> lw_now w - m \<and>
          (same \<longrightarrow> (\<forall>i. lw_path w = Some i \<longrightarrow> li_mtime (lw_inodes w ! i) \<noteq> m))
      | Lk_unlink_stale \<Rightarrow> False
      | _ \<Rightarrow> True)"

definition waiters_ok :: "int \<Rightarrow> lock_world \<Rightarrow> bool" where
  "waiters_ok limit w \<longleftrightarrow> (\<forall>n < procs w. knows limit w (pc_of w n))"

definition lock_base :: "int \<Rightarrow> string \<Rightarrow> lock_world \<Rightarrow> bool" where
  "lock_base limit h w \<longleftrightarrow> 0 < limit \<and> people_ok limit h (lw_procs w) \<and> owners_ok w \<and> waiters_ok limit w"

definition lock_ok :: "int \<Rightarrow> string \<Rightarrow> lock_world \<Rightarrow> bool" where
  "lock_ok limit h w \<longleftrightarrow> lock_base limit h w \<and> prompt limit w"

lemma set_pc_simps [simp]:
  "lw_now (set_pc n pc w) = lw_now w" "lw_inodes (set_pc n pc w) = lw_inodes w" "lw_path (set_pc n pc w) = lw_path w"
  "procs (set_pc n pc w) = procs w"
  by (simp_all add: set_pc_def)

lemma set_pc_nth:
  "m < procs w \<Longrightarrow> lw_procs (set_pc n pc w) ! m = (if m = n then (lw_procs w ! n)\<lparr>lp_pc := pc\<rparr> else lw_procs w ! m)"
  by (simp add: set_pc_def nth_list_update)

lemma people_set_pc:
  assumes "people_ok limit h (lw_procs w)" and "n < procs w" and "at_rest (pc_of w n) \<Longrightarrow> at_rest pc"
  shows "people_ok limit h (lw_procs (set_pc n pc w))"
  unfolding people_ok_def
proof (intro allI impI)
  fix m assume "m < length (lw_procs (set_pc n pc w))"
  then have m: "m < procs w" by simp
  with assms show "lp_alive (lw_procs (set_pc n pc w) ! m) \<and> lp_pid (lw_procs (set_pc n pc w) ! m) > 0 \<and>
     lp_host (lw_procs (set_pc n pc w) ! m) \<noteq> [] \<and> js_lower (lp_host (lw_procs (set_pc n pc w) ! m)) = h \<and>
     (\<not> at_rest (pc_of (set_pc n pc w) m) \<longrightarrow>
       lp_owner (lw_procs (set_pc n pc w) ! m) \<noteq> [] \<and> limit \<le> lp_stale (lw_procs (set_pc n pc w) ! m))"
    unfolding people_ok_def set_pc_nth [OF m] by auto
qed

lemma owners_cong:
  assumes o': "owners_ok w" and eq: "procs w' = procs w" "lw_path w' = lw_path w" "lw_inodes w' = lw_inodes w"
    and ins: "\<And>m. m < procs w \<Longrightarrow> inside (pc_of w' m) = inside (pc_of w m)"
    and same: "\<And>m i. m < procs w \<Longrightarrow> inside (pc_of w m) \<Longrightarrow> file_ok w' m i = file_ok w m i"
  shows "owners_ok w'"
  unfolding owners_ok_def eq
proof (intro conjI allI impI)
  fix m assume m: "m < procs w" "inside (pc_of w' m)"
  then have "inside (pc_of w m)" by (simp add: ins)
  with o' m(1) same show "\<exists>i. lw_path w = Some i \<and> i < length (lw_inodes w) \<and> file_ok w' m i"
    unfolding owners_ok_def by blast
next
  fix m n assume "m < procs w" "n < procs w" "inside (pc_of w' m)" "inside (pc_of w' n)"
  with o' ins show "m = n" unfolding owners_ok_def by blast
next
  assume "lw_path w \<noteq> None"
  with o' ins show "\<exists>n < procs w. inside (pc_of w' n)" unfolding owners_ok_def by blast
qed

text \<open>A change of place that stays outside.\<close>

lemma moved_outside:
  assumes b: "lock_base limit h w" and n: "n < procs w" and "\<not> inside (pc_of w n)" and "\<not> inside pc"
    and "knows limit w pc" and "at_rest (pc_of w n) \<Longrightarrow> at_rest pc"
  shows "lock_base limit h (set_pc n pc w)"
proof -
  have p: "people_ok limit h (lw_procs (set_pc n pc w))"
    using b assms(6) n by (intro people_set_pc) (auto simp: lock_base_def)
  have pcs: "pc_of (set_pc n pc w) m = (if m = n then pc else pc_of w m)" if "m < procs w" for m
    using that by (simp add: set_pc_nth)
  have ins: "inside (pc_of (set_pc n pc w) m) \<longleftrightarrow> inside (pc_of w m)" if "m < procs w" for m
    using that assms(3,4) by (simp add: pcs)
  have same: "file_ok (set_pc n pc w) m i \<longleftrightarrow> file_ok w m i" if "m < procs w" "inside (pc_of w m)" for m i
  proof -
    have "m \<noteq> n" using that assms(3) by blast
    then show ?thesis unfolding file_ok_def set_pc_nth [OF that(1)] set_pc_simps by simp
  qed
  have o': "owners_ok (set_pc n pc w)"
    by (rule owners_cong [OF _ _ _ _ ins same]) (use b in \<open>auto simp: lock_base_def\<close>)
  have "knows limit (set_pc n pc w) q \<longleftrightarrow> knows limit w q" for q
    unfolding knows_def set_pc_simps by (rule refl)
  then have "waiters_ok limit (set_pc n pc w)"
    using b assms(5) unfolding lock_base_def waiters_ok_def set_pc_simps by (simp add: pcs)
  with p o' b show ?thesis by (simp add: lock_base_def)
qed

lemma insider:
  assumes b: "lock_base limit h w" and n: "n < procs w" and i: "inside (pc_of w n)"
  obtains k where "lw_path w = Some k" and "k < length (lw_inodes w)" and "file_ok w n k"
  using assms unfolding lock_base_def owners_ok_def by blast

lemma only_insider:
  "lock_base limit h w \<Longrightarrow> n < procs w \<Longrightarrow> inside (pc_of w n) \<Longrightarrow> m < procs w \<Longrightarrow> inside (pc_of w m) \<Longrightarrow> m = n"
  unfolding lock_base_def owners_ok_def by blast

text \<open>A record that can be read is that of a living process.\<close>

lemma read_record_owner:
  assumes b: "lock_base limit h w" and r: "read_lock_record w = Some r"
  obtains n where "n < procs w" and "inside (pc_of w n)" and "is_own r (lw_procs w ! n)"
proof -
  from r obtain k where k: "lw_path w = Some k" "li_content (lw_inodes w ! k) = Some r"
    by (auto simp: read_lock_record_def current_inode_def split: option.splits)
  with b obtain n where n: "n < procs w" "inside (pc_of w n)" unfolding lock_base_def owners_ok_def by blast
  with b k have "file_ok w n k" by (metis insider option.inject)
  with k n have "is_own r (lw_procs w ! n)" by (auto simp: file_ok_def split: lock_pc.splits)
  with n show thesis by (rule that)
qed

lemma inside_not_rest: "inside pc \<Longrightarrow> \<not> at_rest pc"
  by (auto simp: inside_def at_rest_def)

lemma record_alive:
  assumes b: "lock_base limit h w" and r: "read_lock_record w = Some r" and "js_lower host = h"
  shows "same_host_process_alive w host (Some r)" and "lr_owner r \<noteq> []"
proof -
  obtain n where n: "n < procs w" "inside (pc_of w n)" "is_own r (lw_procs w ! n)"
    by (rule read_record_owner [OF b r])
  then have p: "lp_alive (lw_procs w ! n)" "lp_pid (lw_procs w ! n) > 0" "lp_host (lw_procs w ! n) \<noteq> []"
    "js_lower (lp_host (lw_procs w ! n)) = h" "lp_owner (lw_procs w ! n) \<noteq> []"
    using b inside_not_rest unfolding lock_base_def people_ok_def by blast+
  then show "lr_owner r \<noteq> []" using n(3) by (simp add: is_own_def)
  have "lw_procs w ! n \<in> set (lw_procs w)" using n(1) by simp
  with p n(3) assms(3) show "same_host_process_alive w host (Some r)"
    by (auto simp: same_host_process_alive_def list_ex_iff is_own_def)
qed

lemma stat_before_ok:
  assumes "lock_base limit h w" "n < procs w" "pc_of w n = Lk_stat"
  shows "lock_base limit h (stat_before n w)"
  unfolding stat_before_def using assms
  by (auto intro!: moved_outside simp: inside_def at_rest_def knows_def split: option.split)

lemma decide_stale_ok:
  assumes b: "lock_base limit h w" and n: "n < procs w" and pc: "pc_of w n = Lk_read m z"
  shows "lock_base limit h (decide_stale n m z w)"
proof (cases "same_host_process_alive w (lp_host (lw_procs w ! n)) (read_lock_record w) \<or>
    lw_now w - m < lp_stale (lw_procs w ! n)")
  case True
  then show ?thesis
    unfolding decide_stale_def Let_def using b n pc
    by (auto intro!: moved_outside simp: inside_def at_rest_def knows_def)
next
  case False
  have h: "js_lower (lp_host (lw_procs w ! n)) = h" and st: "limit \<le> lp_stale (lw_procs w ! n)"
    using b n pc unfolding lock_base_def people_ok_def by (auto simp: at_rest_def)
  have "read_lock_record w = None"
    using False record_alive(1) [OF b _ h] by (cases "read_lock_record w") auto
  with False st b n pc show ?thesis
    unfolding decide_stale_def Let_def
    by (auto intro!: moved_outside simp: inside_def at_rest_def knows_def owner_text_def)
qed

lemma read_again_ok:
  assumes b: "lock_base limit h w" and pr: "prompt limit w" and n: "n < procs w" and pc: "pc_of w n = Lk_reread m z ow"
  shows "lock_base limit h (read_again n m z ow w)"
proof -
  from b n pc have k: "ow = []" "limit \<le> lw_now w - m"
    unfolding lock_base_def waiters_ok_def by (auto simp: knows_def)
  have "li_mtime (lw_inodes w ! i) \<noteq> m" if o': "owner_text (read_lock_record w) = ow" and i: "lw_path w = Some i" for i
  proof -
    obtain q where q: "q < procs w" "inside (pc_of w q)"
      using b i unfolding lock_base_def owners_ok_def by blast
    have "js_lower (lp_host (lw_procs w ! n)) = h" using b n unfolding lock_base_def people_ok_def by blast
    then have "read_lock_record w = None"
      using o' k record_alive(2) [OF b] by (cases "read_lock_record w") (auto simp: owner_text_def)
    with i have "li_content (lw_inodes w ! i) = None" by (simp add: read_lock_record_def current_inode_def)
    moreover have "file_ok w q i" using insider [OF b q] i by auto
    ultimately have "pc_of w q = Lk_write i" by (auto simp: file_ok_def split: lock_pc.splits)
    with pr q(1) have "lw_now w - li_mtime (lw_inodes w ! i) < limit"
      unfolding prompt_def list_all_length by force
    with k show ?thesis by auto
  qed
  with b n pc k show ?thesis
    unfolding read_again_def by (auto intro!: moved_outside simp: inside_def at_rest_def knows_def)
qed

lemma stat_after_ok:
  assumes b: "lock_base limit h w" and n: "n < procs w" and pc: "pc_of w n = Lk_restat m z same"
  shows "lock_base limit h (stat_after n m z same w)"
proof -
  from b n pc have k: "same \<Longrightarrow> lw_path w = Some i \<Longrightarrow> li_mtime (lw_inodes w ! i) \<noteq> m" for i
    unfolding lock_base_def waiters_ok_def by (auto simp: knows_def)
  then have "current_inode w = Some f \<Longrightarrow> \<not> same \<or> li_mtime f \<noteq> m" for f
    by (auto simp: current_inode_def)
  then show ?thesis
    unfolding stat_after_def using b n pc
    by (auto intro!: moved_outside simp: inside_def at_rest_def knows_def split: option.split)
qed

text \<open>A change of the file by the process that is inside, or becomes so.\<close>

lemma moved_inside:
  assumes b: "lock_base limit h w" and n: "n < procs w" and rest: "\<not> at_rest (pc_of w n)"
    and alone: "\<And>m. m < procs w \<Longrightarrow> inside (pc_of w m) \<Longrightarrow> m = n"
    and path: "\<And>i. path = Some i \<Longrightarrow> i < length inodes \<and> inside pc \<and>
       file_ok (set_pc n pc (w\<lparr>lw_inodes := inodes, lw_path := path\<rparr>)) n i"
    and none: "path = None \<Longrightarrow> \<not> inside pc"
    and k: "knows limit w pc"
    and time: "\<And>i. path = Some i \<Longrightarrow> (lw_path w = Some i \<and> li_mtime (inodes ! i) = li_mtime (lw_inodes w ! i)) \<or>
       li_mtime (inodes ! i) = lw_now w"
    and plain: "\<And>m z same. pc \<noteq> Lk_restat m z same"
  shows "lock_base limit h (set_pc n pc (w\<lparr>lw_inodes := inodes, lw_path := path\<rparr>))" (is "lock_base limit h ?w")
proof -
  have p: "people_ok limit h (lw_procs ?w)"
    using people_set_pc [of limit h "w\<lparr>lw_inodes := inodes, lw_path := path\<rparr>" n pc] b n rest
    by (simp add: lock_base_def)
  have pcs: "pc_of ?w m = (if m = n then pc else pc_of w m)" if "m < procs w" for m
    using that by (simp add: set_pc_nth)
  have out: "\<not> inside (pc_of ?w m)" if "m < procs w" "m \<noteq> n" for m
    using that alone pcs by auto
  have "owners_ok ?w"
    unfolding owners_ok_def
  proof (intro conjI allI impI)
    fix m assume "m < procs ?w" "inside (pc_of ?w m)"
    with out have m: "m = n" by auto
    with \<open>inside (pc_of ?w m)\<close> n have "inside pc" by (simp add: pcs)
    with none obtain i where "path = Some i" by blast
    with path m show "\<exists>i. lw_path ?w = Some i \<and> i < length (lw_inodes ?w) \<and> file_ok ?w m i" by auto
  next
    fix m q assume "m < procs ?w" "q < procs ?w" "inside (pc_of ?w m)" "inside (pc_of ?w q)"
    with out show "m = q" by auto
  next
    assume "lw_path ?w \<noteq> None"
    with path have "inside pc" by auto
    with n show "\<exists>m < procs ?w. inside (pc_of ?w m)" by (auto simp: pcs intro: exI [of _ n])
  qed
  moreover have "waiters_ok limit ?w"
    unfolding waiters_ok_def
  proof (intro allI impI)
    fix m assume m: "m < procs ?w"
    then have "knows limit w (pc_of ?w m)"
      using b k pcs by (auto simp: lock_base_def waiters_ok_def)
    moreover have "lw_now w - x < limit" if "li_mtime (inodes ! i) = lw_now w" "li_mtime (inodes ! i) = x" for i x
      using that b by (auto simp: lock_base_def)
    ultimately show "knows limit ?w (pc_of ?w m)"
      using time by (auto simp: knows_def split: lock_pc.splits) fastforce
  qed
  ultimately show ?thesis using p b by (simp add: lock_base_def)
qed

lemma open_exclusive_ok:
  assumes b: "lock_base limit h w" and n: "n < procs w" and pc: "pc_of w n = Lk_open"
  shows "lock_base limit h (open_exclusive n w)"
proof (cases "lw_path w")
  case None
  then have "\<not> inside (pc_of w m)" if "m < procs w" for m
    using insider [OF b that] by auto
  then show ?thesis
    unfolding open_exclusive_def None option.case
    by (intro moved_inside [OF b n])
      (use n pc in \<open>auto simp: at_rest_def inside_def knows_def file_ok_def set_pc_nth nth_append\<close>)
next
  case (Some i)
  with assms show ?thesis
    unfolding open_exclusive_def by (auto intro!: moved_outside simp: inside_def at_rest_def knows_def)
qed

lemma write_record_ok:
  assumes b: "lock_base limit h w" and n: "n < procs w" and pc: "pc_of w n = Lk_write i"
  shows "lock_base limit h (write_record n i w)"
proof -
  have ins: "inside (pc_of w n)" by (simp add: pc inside_def)
  obtain k where k: "lw_path w = Some k" "k < length (lw_inodes w)" "file_ok w n k" by (rule insider [OF b n ins])
  then have i: "i = k" by (simp add: file_ok_def pc)
  let ?f = "\<lparr>li_content = Some (own_record (lw_now w) (lw_procs w ! n)), li_mtime = lw_now w\<rparr>"
  have "lock_base limit h (set_pc n Lk_hold (w\<lparr>lw_inodes := (lw_inodes w)[i := ?f], lw_path := lw_path w\<rparr>))"
    by (intro moved_inside [OF b n] only_insider [OF b n ins])
      (use n pc k i in \<open>auto simp: at_rest_def inside_def knows_def file_ok_def set_pc_nth is_own_def own_record_def\<close>)
  then show ?thesis by (simp add: write_record_def)
qed

lemma leave_ok:
  assumes b: "lock_base limit h w" and n: "n < procs w" and pc: "pc_of w n = Lk_hold \<and> q = Lk_leave \<or> pc_of w n = Lk_leave \<and> q = Lk_unlink"
  shows "lock_base limit h (set_pc n q w)"
proof -
  have ins: "inside (pc_of w n)" using pc by (auto simp: inside_def)
  obtain k where k: "lw_path w = Some k" "k < length (lw_inodes w)" "file_ok w n k" by (rule insider [OF b n ins])
  have "lock_base limit h (set_pc n q (w\<lparr>lw_inodes := lw_inodes w, lw_path := lw_path w\<rparr>))"
    by (intro moved_inside [OF b n] only_insider [OF b n ins])
      (use n pc k in \<open>auto simp: at_rest_def inside_def knows_def file_ok_def set_pc_nth is_own_def\<close>)
  then show ?thesis by simp
qed

lemma read_owner_ok:
  assumes b: "lock_base limit h w" and n: "n < procs w" and pc: "pc_of w n = Lk_leave"
  shows "lock_base limit h (read_owner n w)"
proof -
  have ins: "inside (pc_of w n)" using pc by (auto simp: inside_def)
  obtain k where k: "lw_path w = Some k" "k < length (lw_inodes w)" "file_ok w n k" by (rule insider [OF b n ins])
  then have "read_owner n w = set_pc n Lk_unlink w"
    by (auto simp: read_owner_def read_lock_record_def current_inode_def file_ok_def pc is_own_def)
  with leave_ok [OF b n] pc show ?thesis by simp
qed

lemma unlink_ok:
  assumes b: "lock_base limit h w" and n: "n < procs w" and pc: "pc_of w n = Lk_unlink"
  shows "lock_base limit h (unlink_path n Lk_done w)"
proof -
  have ins: "inside (pc_of w n)" using pc by (auto simp: inside_def)
  have "lock_base limit h (set_pc n Lk_done (w\<lparr>lw_inodes := lw_inodes w, lw_path := None\<rparr>))"
    by (intro moved_inside [OF b n] only_insider [OF b n ins])
      (use pc in \<open>auto simp: at_rest_def inside_def knows_def\<close>)
  then show ?thesis by (simp add: unlink_path_def)
qed

lemma access_ok:
  assumes "lock_ok limit h w" and "n < procs w" and "lock_access n w = Some w'"
  shows "lock_base limit h w'"
proof -
  from assms(1) have b: "lock_base limit h w" and pr: "prompt limit w" by (simp_all add: lock_ok_def)
  from b assms(2) have "knows limit w (pc_of w n)" unfolding lock_base_def waiters_ok_def by blast
  then have "pc_of w n \<noteq> Lk_unlink_stale" by (auto simp: knows_def)
  moreover have "lock_base limit h (check_deadline n w)" if "pc_of w n = Lk_refused"
    unfolding check_deadline_def using b assms(2) that
    by (intro moved_outside) (auto simp: inside_def at_rest_def knows_def)
  ultimately show ?thesis
    using assms(3) b pr assms(2) open_exclusive_ok write_record_ok read_owner_ok unlink_ok stat_before_ok decide_stale_ok
      read_again_ok stat_after_ok
    unfolding lock_access_def by (cases "pc_of w n") auto
qed

lemma start_call_ok:
  assumes b: "lock_base limit h w" and n: "n < procs w" and pc: "at_rest (pc_of w n)" and "ow \<noteq> []" and "limit \<le> max (max 100 timeout) stale"
  shows "lock_base limit h (start_call n ow timeout stale w)"
proof -
  let ?p = "(lw_procs w ! n)\<lparr>lp_owner := ow, lp_deadline := lw_now w + max 100 timeout,
    lp_stale := max (max 100 timeout) stale, lp_pc := Lk_open\<rparr>"
  let ?w = "start_call n ow timeout stale w"
  have procs: "lw_procs ?w = (lw_procs w)[n := ?p]" and same: "lw_now ?w = lw_now w" "lw_inodes ?w = lw_inodes w" "lw_path ?w = lw_path w"
    by (simp_all add: start_call_def Let_def)
  have nth: "lw_procs ?w ! m = (if m = n then ?p else lw_procs w ! m)" if "m < procs w" for m
    using that by (simp add: procs nth_list_update)
  have out: "\<not> inside (pc_of w n)" using pc inside_not_rest by blast
  have ins: "inside (pc_of ?w m) \<longleftrightarrow> inside (pc_of w m)" if "m < procs w" for m
    using that out by (auto simp: nth inside_def)
  have files: "file_ok ?w m i \<longleftrightarrow> file_ok w m i" if "m < procs w" "inside (pc_of w m)" for m i
  proof -
    have "m \<noteq> n" using that out by blast
    then show ?thesis unfolding file_ok_def nth [OF that(1)] same by simp
  qed
  have "people_ok limit h (lw_procs ?w)"
    using b n assms(4,5) unfolding lock_base_def people_ok_def procs by (auto simp: nth_list_update)
  moreover have "owners_ok ?w"
    by (rule owners_cong [OF _ _ same(3) same(2) ins files]) (use b in \<open>auto simp: lock_base_def procs\<close>)
  moreover have "waiters_ok limit ?w"
    unfolding waiters_ok_def
  proof (intro allI impI)
    fix m assume "m < procs ?w"
    then have m: "m < procs w" by (simp add: procs)
    with b have "knows limit w (pc_of w m)" by (simp add: lock_base_def waiters_ok_def)
    then have "knows limit ?w (pc_of w m)" unfolding knows_def same .
    then show "knows limit ?w (pc_of ?w m)" by (simp add: nth [OF m]) (simp add: knows_def)
  qed
  ultimately show ?thesis using b by (simp add: lock_base_def)
qed

lemma lock_tick_ok:
  assumes b: "lock_base limit h w" and "0 < t"
  shows "lock_base limit h (w\<lparr>lw_now := lw_now w + t\<rparr>)"
proof -
  have "file_ok (w\<lparr>lw_now := lw_now w + t\<rparr>) n i = file_ok w n i" for n i
    by (simp add: file_ok_def split: lock_pc.split)
  moreover have "knows limit w pc \<Longrightarrow> knows limit (w\<lparr>lw_now := lw_now w + t\<rparr>) pc" for pc
    using assms(2) by (auto simp: knows_def split: lock_pc.splits)
  ultimately show ?thesis
    using b by (simp add: lock_base_def owners_ok_def waiters_ok_def)
qed

text \<open>The calls give an owner text and options that allow the writer its time; no process dies.\<close>

definition lock_allowed :: "int \<Rightarrow> lock_event \<Rightarrow> bool" where
  "lock_allowed limit e \<longleftrightarrow>
     (case e of Lock_call n ow timeout stale \<Rightarrow> ow \<noteq> [] \<and> limit \<le> max (max 100 timeout) stale | Lock_crash n \<Rightarrow> False | _ \<Rightarrow> True)"

lemma lock_step_ok:
  assumes "lock_ok limit h w" and "lock_allowed limit e" and "prompt_step limit e w = Some w'"
  shows "lock_ok limit h w'"
proof -
  from assms(3) have s: "lock_step e w = Some w'" and p: "prompt limit w'"
    by (auto simp: prompt_step_def split: option.splits if_splits)
  from assms(1) have b: "lock_base limit h w" by (simp add: lock_ok_def)
  have "lock_base limit h w'"
  proof (cases e)
    case (Lock_call n ow timeout stale)
    with s b assms(2) show ?thesis
      by (auto simp: running_process_def lock_allowed_def intro: start_call_ok split: if_splits)
  next
    case (Lock_access n)
    with s assms(1) show ?thesis
      by (auto simp: running_process_def intro: access_ok split: if_splits)
  next
    case (Lock_finish n)
    with s b show ?thesis
      by (auto simp: running_process_def intro: leave_ok split: if_splits)
  next
    case (Lock_tick t)
    with s b show ?thesis by (auto intro: lock_tick_ok split: if_splits)
  qed (use assms(2) in \<open>simp add: lock_allowed_def\<close>)
  with p show ?thesis by (simp add: lock_ok_def)
qed

interpretation locking: event_machine "prompt_step limit" "lock_ok limit h" "lock_allowed limit" for limit h
  by unfold_locales (rule lock_step_ok)

section \<open>Properties\<close>

definition lock_people :: "string \<Rightarrow> (string \<times> int) list \<Rightarrow> bool" where
  "lock_people h ps \<longleftrightarrow> list_all (\<lambda>p. fst p \<noteq> [] \<and> snd p > 0 \<and> js_lower (fst p) = h) ps"

lemma new_lock_world_ok:
  assumes "0 < limit" and "lock_people h ps"
  shows "lock_ok limit h (new_lock_world now ps)"
proof -
  have p: "pc_of (new_lock_world now ps) n = Lk_idle" if "n < length ps" for n
    using that by (simp add: new_lock_world_def)
  have len: "procs (new_lock_world now ps) = length ps" by (simp add: new_lock_world_def)
  have "people_ok limit h (lw_procs (new_lock_world now ps))"
    using assms(2) by (auto simp: people_ok_def new_lock_world_def at_rest_def lock_people_def list_all_length)
  moreover have "owners_ok (new_lock_world now ps)"
    using p by (auto simp: owners_ok_def len inside_def new_lock_world_def)
  moreover have "waiters_ok limit (new_lock_world now ps)"
    using p by (auto simp: waiters_ok_def len knows_def)
  moreover have "prompt limit (new_lock_world now ps)"
    using p len by (auto simp: prompt_def list_all_length)
  ultimately show ?thesis using assms(1) by (simp add: lock_ok_def lock_base_def)
qed

text \<open>C14: Two processes are never inside the same lock at once, the one that is inside finds its own record in the
  file, and the file is gone when nobody is inside: in every interleaving of any number of calls by processes of one
  host that do not die, provided that no process takes the staleness limit (or longer) between creating the
  lock file and writing its record into it. A process that is suspended there for so long loses its empty file.\<close>

theorem lock_mutual_exclusion:
  assumes "0 < limit" and "lock_people h ps" and "list_all (lock_allowed limit) es"
    and "run_events (prompt_step limit) es (new_lock_world now ps) = Some w"
  shows "(\<forall>m n. m < procs w \<and> n < procs w \<and> inside (pc_of w m) \<and> inside (pc_of w n) \<longrightarrow> m = n) \<and>
    (\<forall>n. n < procs w \<and> pc_of w n = Lk_hold \<longrightarrow>
       (\<exists>r. read_lock_record w = Some r \<and> is_own r (lw_procs w ! n))) \<and>
    ((\<forall>n. n < procs w \<longrightarrow> \<not> inside (pc_of w n)) \<longrightarrow> lw_path w = None)"
proof -
  have "lock_ok limit h w"
    using locking.run_keeps [OF assms(4,3)] new_lock_world_ok [OF assms(1,2)] by blast
  then have b: "lock_base limit h w" by (simp add: lock_ok_def)
  have "\<exists>r. read_lock_record w = Some r \<and> is_own r (lw_procs w ! n)" if "n < procs w" "pc_of w n = Lk_hold" for n
  proof -
    have "inside (pc_of w n)" using that by (simp add: inside_def)
    from b that(1) this obtain k where "lw_path w = Some k" "k < length (lw_inodes w)" "file_ok w n k" by (rule insider)
    with that(2) show ?thesis by (auto simp: file_ok_def read_lock_record_def current_inode_def)
  qed
  with b show ?thesis unfolding lock_base_def owners_ok_def by blast
qed

definition two_processes :: "(string \<times> int) list" where
  "two_processes = [(''host'', 1), (''HOST'', 2)]"

text \<open>The second process waits while the first one is inside, and enters when it has left.\<close>

definition handover :: "lock_event list" where
  "handover = [Lock_call 0 ''a'' 5000 30000, Lock_access 0, Lock_call 1 ''b'' 5000 30000, Lock_access 1, Lock_access 1,
     Lock_access 0, Lock_tick 40000, Lock_access 1, Lock_access 1, Lock_finish 0, Lock_access 0, Lock_access 0]"

theorem lock_mutual_exclusion_witness:
  "\<exists>w. run_events (prompt_step 30000) (handover @ [Lock_call 1 ''b'' 5000 30000, Lock_access 1, Lock_access 1])
      (new_lock_world 0 two_processes) = Some w \<and> pc_of w 1 = Lk_hold \<and> pc_of w 0 \<noteq> Lk_hold"
proof -
  have run: "case run_events (prompt_step 30000) (handover @ [Lock_call 1 ''b'' 5000 30000, Lock_access 1, Lock_access 1])
      (new_lock_world 0 two_processes) of None \<Rightarrow> False | Some w \<Rightarrow> pc_of w 1 = Lk_hold \<and> procs w = 2"
    by code_simp
  then obtain w where w: "run_events (prompt_step 30000) (handover @ [Lock_call 1 ''b'' 5000 30000, Lock_access 1, Lock_access 1])
      (new_lock_world 0 two_processes) = Some w" and pc: "pc_of w 1 = Lk_hold" "procs w = 2"
    by (auto split: option.splits)
  have "lock_people ''host'' two_processes" by code_simp
  moreover have "list_all (lock_allowed 30000) (handover @ [Lock_call 1 ''b'' 5000 30000, Lock_access 1, Lock_access 1])"
    by code_simp
  ultimately have "\<forall>m n. m < procs w \<and> n < procs w \<and> inside (pc_of w m) \<and> inside (pc_of w n) \<longrightarrow> m = n"
    using lock_mutual_exclusion [OF _ _ _ w, of "''host''"] by simp
  moreover have "inside Lk_hold" by (simp add: inside_def)
  ultimately have "pc_of w 0 \<noteq> Lk_hold" using pc by (metis One_nat_def lessI less_2_cases_iff zero_less_numeral zero_neq_one)
  with w pc(1) show ?thesis by (intro exI [of _ w]) auto
qed

text \<open>A lock whose owner died is taken over by a waiter that finds it old enough and is not disturbed.\<close>

text \<open>A waiter of whom the file on the path is a lock that nobody on its host holds and that is too old.\<close>

definition waits_for_dead :: "nat \<Rightarrow> nat \<Rightarrow> lock_world \<Rightarrow> bool" where
  "waits_for_dead i n w \<longleftrightarrow> running_process n w \<and> pc_of w n = Lk_open \<and> lw_path w = Some i \<and> i < length (lw_inodes w) \<and>
     \<not> same_host_process_alive w (lp_host (lw_procs w ! n)) (li_content (lw_inodes w ! i)) \<and>
     lp_stale (lw_procs w ! n) \<le> lw_now w - li_mtime (lw_inodes w ! i)"

lemma set_pc_again: "set_pc n pc (set_pc n pc' v) = set_pc n pc v"
  by (cases "n < procs v") (simp_all add: set_pc_def list_update_beyond)

lemma same_host_set_pc: "same_host_process_alive (set_pc n pc w) x y = same_host_process_alive w x y"
proof (cases "n < procs w")
  case True
  have "list_ex Q (lw_procs (set_pc n pc w)) = list_ex Q (lw_procs w)" if "\<And>p. Q (p\<lparr>lp_pc := pc\<rparr>) = Q p" for Q
  proof -
    have "Q (lw_procs (set_pc n pc w) ! m) = Q (lw_procs w ! m)" if "m < procs w" for m
      using that \<open>\<And>p. Q (p\<lparr>lp_pc := pc\<rparr>) = Q p\<close> by (simp add: set_pc_nth)
    then show ?thesis by (auto simp: list_ex_length)
  qed
  then show ?thesis by (cases y) (simp_all add: same_host_process_alive_def)
next
  case False
  then show ?thesis by (cases y) (simp_all add: same_host_process_alive_def set_pc_def list_update_beyond)
qed

lemma running_set_pc: "running_process m (set_pc n pc w) = running_process m w"
  by (cases "m < procs w") (auto simp: running_process_def set_pc_nth)

lemma waits_for_dead_set_pc:
  assumes "waits_for_dead i m w" and "m \<noteq> n"
  shows "waits_for_dead i m (set_pc n pc w)"
proof -
  have "m < procs w" using assms(1) by (simp add: waits_for_dead_def running_process_def)
  with assms show ?thesis by (simp add: waits_for_dead_def running_set_pc same_host_set_pc set_pc_nth)
qed

text \<open>Five accesses take such a waiter through the checks, when no other process interferes.\<close>

lemma dead_lock_checked:
  assumes "waits_for_dead i n w"
  shows "run_events lock_step (replicate 5 (Lock_access n)) w = Some (set_pc n Lk_unlink_stale w)"
proof -
  let ?f = "lw_inodes w ! i"
  let ?m = "li_mtime ?f" and ?z = "inode_size ?f" and ?o = "owner_text (li_content ?f)"
  let ?at = "\<lambda>pc. set_pc n pc w"
  have n: "n < procs w" "running_process n w" "pc_of w n = Lk_open" "lw_path w = Some i"
    using assms by (simp_all add: waits_for_dead_def running_process_def)
  have cur: "current_inode (?at pc) = Some ?f" and rec: "read_lock_record (?at pc) = li_content ?f" for pc
    using n(4) by (simp_all add: current_inode_def read_lock_record_def)
  have at_n: "lw_procs (?at pc) ! n = (lw_procs w ! n)\<lparr>lp_pc := pc\<rparr>" for pc
    using n(1) by (simp add: set_pc_nth)
  have step: "run_events lock_step (Lock_access n # es) (?at pc) = run_events lock_step es v"
    if "lock_access n (?at pc) = Some v" for es pc v
    using that n(2) by (simp add: running_set_pc)
  have w: "w = ?at Lk_open"
    using n(3) by (simp add: set_pc_def flip: n(3))
  have 1: "lock_access n (?at Lk_open) = Some (?at Lk_stat)"
    by (simp add: lock_access_def at_n open_exclusive_def n(4) set_pc_again)
  have 2: "lock_access n (?at Lk_stat) = Some (?at (Lk_read ?m ?z))"
    by (simp add: lock_access_def at_n stat_before_def cur set_pc_again)
  have 3: "lock_access n (?at (Lk_read ?m ?z)) = Some (?at (Lk_reread ?m ?z ?o))"
    using assms by (simp add: lock_access_def at_n decide_stale_def rec set_pc_again same_host_set_pc waits_for_dead_def Let_def)
  have 4: "lock_access n (?at (Lk_reread ?m ?z ?o)) = Some (?at (Lk_restat ?m ?z True))"
    by (simp add: lock_access_def at_n read_again_def rec set_pc_again)
  have 5: "lock_access n (?at (Lk_restat ?m ?z True)) = Some (?at Lk_unlink_stale)"
    by (simp add: lock_access_def at_n stat_after_def cur set_pc_again)
  have r: "replicate 5 (Lock_access n) = [Lock_access n, Lock_access n, Lock_access n, Lock_access n, Lock_access n]"
    by (simp add: numeral_eq_Suc)
  have "run_events lock_step (replicate 5 (Lock_access n)) (?at Lk_open) = Some (?at Lk_unlink_stale)"
    unfolding r step [OF 1] step [OF 2] step [OF 3] step [OF 4] step [OF 5] by simp
  with w show ?thesis by metis
qed

text \<open>A process that has passed the checks unlinks the name, whatever file it stands for by then, and has
  the lock with two accesses more.\<close>

lemma checked_lock_taken:
  assumes "running_process n w" and "pc_of w n = Lk_unlink_stale"
  shows "\<exists>w'. run_events lock_step (replicate 3 (Lock_access n)) w = Some w' \<and>
    lw_procs w' = (lw_procs w)[n := (lw_procs w ! n)\<lparr>lp_pc := Lk_hold\<rparr>] \<and>
    read_lock_record w' = Some (own_record (lw_now w) (lw_procs w ! n))"
proof -
  have n: "n < procs w" "lp_alive (lw_procs w ! n)" using assms(1) by (simp_all add: running_process_def)
  let ?w1 = "set_pc n Lk_open (w\<lparr>lw_path := None\<rparr>)"
  have 1: "lock_access n w = Some ?w1" by (simp add: lock_access_def assms(2) unlink_path_def)
  let ?k = "length (lw_inodes w)"
  let ?w2 = "open_exclusive n ?w1"
  have p1: "lw_procs ?w1 ! n = (lw_procs w ! n)\<lparr>lp_pc := Lk_open\<rparr>" "procs ?w1 = procs w"
    using n(1) by (simp_all add: set_pc_def)
  have 2: "lock_access n ?w1 = Some ?w2" by (simp add: lock_access_def p1)
  have p2: "lw_procs ?w2 = (lw_procs w)[n := (lw_procs w ! n)\<lparr>lp_pc := Lk_write ?k\<rparr>]" "lw_path ?w2 = Some ?k"
    "lw_inodes ?w2 = lw_inodes w @ [\<lparr>li_content = None, li_mtime = lw_now w\<rparr>]" "lw_now ?w2 = lw_now w"
    using n(1) by (simp_all add: open_exclusive_def set_pc_def)
  let ?w3 = "write_record n ?k ?w2"
  have 3: "lock_access n ?w2 = Some ?w3" using n(1) by (simp add: lock_access_def p2(1))
  have p3: "lw_procs ?w3 = (lw_procs w)[n := (lw_procs w ! n)\<lparr>lp_pc := Lk_hold\<rparr>]"
    "read_lock_record ?w3 = Some (own_record (lw_now w) (lw_procs w ! n))"
    using n(1) p2
    by (simp_all add: write_record_def set_pc_def read_lock_record_def current_inode_def own_record_def)
  have "run_events lock_step (replicate 3 (Lock_access n)) w = Some ?w3"
    using n 1 2 3 by (simp add: numeral_eq_Suc running_process_def p1 p2(1))
  with p3 show ?thesis by blast
qed

text \<open>The owner of a lock that died is not waited for longer than the staleness limit: a waiter that finds the
  file that old gets the lock with eight accesses, when no other process interferes.\<close>

lemma stale_lock_recovered:
  assumes "waits_for_dead i n w"
  shows "\<exists>w'. run_events lock_step (replicate 8 (Lock_access n)) w = Some w' \<and> pc_of w' n = Lk_hold \<and>
    read_lock_record w' = Some (own_record (lw_now w) (lw_procs w ! n))"
proof -
  have n: "n < procs w" "running_process n w" using assms by (simp_all add: waits_for_dead_def running_process_def)
  let ?w1 = "set_pc n Lk_unlink_stale w"
  have "running_process n ?w1" "pc_of ?w1 n = Lk_unlink_stale" using n by (simp_all add: running_set_pc set_pc_nth)
  from checked_lock_taken [OF this] obtain w' where w': "run_events lock_step (replicate 3 (Lock_access n)) ?w1 = Some w'"
    "lw_procs w' = (lw_procs ?w1)[n := (lw_procs ?w1 ! n)\<lparr>lp_pc := Lk_hold\<rparr>]"
    "read_lock_record w' = Some (own_record (lw_now ?w1) (lw_procs ?w1 ! n))" by blast
  have "replicate 8 (Lock_access n) = replicate 5 (Lock_access n) @ replicate 3 (Lock_access n)"
    by (simp flip: replicate_add)
  with w' dead_lock_checked [OF assms] n show ?thesis
    by (auto simp: run_events_append own_record_def set_pc_nth)
qed

text \<open>The clock stands still while processes only take accesses.\<close>

lemma lock_access_now: "lock_access n w = Some w' \<Longrightarrow> lw_now w' = lw_now w"
  by (auto simp: lock_access_def open_exclusive_def write_record_def read_owner_def unlink_path_def stat_before_def
      decide_stale_def read_again_def stat_after_def check_deadline_def Let_def split: lock_pc.splits option.splits if_splits)

lemma accesses_now: "run_events lock_step (replicate k (Lock_access n)) w = Some w' \<Longrightarrow> lw_now w' = lw_now w"
proof (induction k arbitrary: w)
  case (Suc k)
  then obtain w1 where "lock_access n w = Some w1" "run_events lock_step (replicate k (Lock_access n)) w1 = Some w'"
    by (auto split: option.splits if_splits)
  with Suc.IH lock_access_now show ?case by simp
qed simp

text \<open>C36: Whenever two waiters find the same dead lock, there is a continuation after which both are inside:
  each has found the old file twice before the other unlinks it, and the second unlinking removes the
  lock that the first has just taken.\<close>

theorem stale_lock_race:
  assumes "m \<noteq> n" and "waits_for_dead i m w" and "waits_for_dead i n w"
  shows "\<exists>w'. run_events lock_step (replicate 5 (Lock_access m) @ replicate 5 (Lock_access n) @
      replicate 3 (Lock_access n) @ replicate 3 (Lock_access m)) w = Some w' \<and>
    pc_of w' m = Lk_hold \<and> pc_of w' n = Lk_hold \<and>
    read_lock_record w' = Some (own_record (lw_now w') (lw_procs w' ! m))"
proof -
  let ?w1 = "set_pc m Lk_unlink_stale w"
  let ?w2 = "set_pc n Lk_unlink_stale ?w1"
  have r: "running_process m w" "running_process n w" "m < procs w" "n < procs w"
    using assms(2,3) by (simp_all add: waits_for_dead_def running_process_def)
  have 1: "run_events lock_step (replicate 5 (Lock_access m)) w = Some ?w1" by (rule dead_lock_checked [OF assms(2)])
  have 2: "run_events lock_step (replicate 5 (Lock_access n)) ?w1 = Some ?w2"
    using assms by (intro dead_lock_checked waits_for_dead_set_pc) auto
  have "running_process n ?w2" "pc_of ?w2 n = Lk_unlink_stale" using r by (simp_all add: running_set_pc set_pc_nth)
  from checked_lock_taken [OF this] obtain w3 where 3: "run_events lock_step (replicate 3 (Lock_access n)) ?w2 = Some w3"
    and p3: "lw_procs w3 = (lw_procs ?w2)[n := (lw_procs ?w2 ! n)\<lparr>lp_pc := Lk_hold\<rparr>]" by blast
  have m3: "running_process m w3" "pc_of w3 m = Lk_unlink_stale" "pc_of w3 n = Lk_hold"
    using r assms(1) by (simp_all add: running_process_def p3 set_pc_def)
  from checked_lock_taken [OF m3(1,2)] obtain w4 where 4: "run_events lock_step (replicate 3 (Lock_access m)) w3 = Some w4"
    and p4: "lw_procs w4 = (lw_procs w3)[m := (lw_procs w3 ! m)\<lparr>lp_pc := Lk_hold\<rparr>]"
      "read_lock_record w4 = Some (own_record (lw_now w3) (lw_procs w3 ! m))" by blast
  have now: "lw_now w4 = lw_now w3" using 4 by (rule accesses_now)
  have "pc_of w4 m = Lk_hold" "pc_of w4 n = Lk_hold" "own_record (lw_now w3) (lw_procs w3 ! m) = own_record (lw_now w4) (lw_procs w4 ! m)"
    using m3 assms(1) by (simp_all add: p4 running_process_def own_record_def now)
  with 1 2 3 4 p4(2) show ?thesis by (simp add: run_events_append)
qed

text \<open>A process dies inside its lock; two others come later.\<close>

definition three_processes :: "(string \<times> int) list" where
  "three_processes = [(''host'', 1), (''host'', 2), (''host'', 3)]"

definition dead_owner :: "lock_event list" where
  "dead_owner = [Lock_call 0 ''a'' 5000 30000, Lock_access 0, Lock_access 0, Lock_crash 0, Lock_tick 30000,
     Lock_call 1 ''b'' 5000 30000, Lock_call 2 ''c'' 5000 30000]"

definition dead_world :: lock_world where
  "dead_world = the (run_events lock_step dead_owner (new_lock_world 0 three_processes))"

lemma dead_world_waiters: "waits_for_dead 0 1 dead_world" "waits_for_dead 0 2 dead_world"
  by code_simp+

lemma stale_lock_recovered_example:
  "\<exists>w'. run_events lock_step (replicate 8 (Lock_access 1)) dead_world = Some w' \<and> pc_of w' 1 = Lk_hold \<and>
    read_lock_record w' = Some \<lparr>lr_owner = ''b'', lr_host = ''host'', lr_pid = 2, lr_created = 30000\<rparr>"
proof -
  have "own_record (lw_now dead_world) (lw_procs dead_world ! 1) =
      \<lparr>lr_owner = ''b'', lr_host = ''host'', lr_pid = 2, lr_created = 30000\<rparr>"
    by code_simp
  with stale_lock_recovered [OF dead_world_waiters(1)] show ?thesis by simp
qed

lemma stale_lock_race_witness:
  "\<exists>w'. run_events lock_step (replicate 5 (Lock_access 1) @ replicate 5 (Lock_access 2) @
      replicate 3 (Lock_access 2) @ replicate 3 (Lock_access 1)) dead_world = Some w' \<and>
    pc_of w' 1 = Lk_hold \<and> pc_of w' 2 = Lk_hold"
  using stale_lock_race [OF _ dead_world_waiters] by auto

end
