(* ===== verification/StorageProtocol.thy ===== *)
theory StorageProtocol
  imports RouteIdentity
begin

text \<open>
  What the Manager and its storage child say to each other: the requests and their fences, the checks
  of the child (\<open>src/manager/managerStorageMutationProtocol.ts\<close>, \<open>src/planStorageIdentity.ts\<close>), and the
  methods, requests and errors of \<open>src/manager/managerStorageMutationPool.ts\<close>. Values that pass through
  unread are JSON objects. Unicode normalisation leaves code units below 256 as they are, so
  \<open>normalize\<close> is the identity.
\<close>

section \<open>Data\<close>


record storage_fence =
  sf_application :: string
  sf_manager :: string
  sf_lease :: string
  sf_role :: string
  sf_plan :: "string option"

record storage_identity =
  sd_application :: string
  sd_manager :: string
  sd_lease :: string
  sd_roles_root :: string

record plan_feedback =
  fb_id :: string
  fb_role :: string
  fb_plan :: string
  fb_rest :: json_object

record timeline_message =
  tl_id :: string
  tl_role :: string
  tl_rest :: json_object

datatype storage_task =
    Plan_create json_object
  | Plan_status_create json_object
  | Plan_status_update string json_object
  | Plan_status_delete string string
  | Plan_update json_object
  | Plan_secretary_binding_update json
  | Plan_task_binding_update json
  | Recent_memory_create json_object
  | Recent_memory_update string json_object
  | Recent_memory_touch string
  | Memory_consolidation_request json_object
  | Memory_consolidation_mark_delivered string "string option"
  | Memory_consolidation_apply string json_object
  | Plan_feedback_submit json_object
  | Plan_feedback_delivery_update plan_feedback string "string option"
  | Plan_feedback_qa_update plan_feedback json
  | Plan_feedback_post_commit_update plan_feedback string "string option"
  | Role_panel_timeline_append timeline_message

fun task_type :: "storage_task \<Rightarrow> string" where
  "task_type (Plan_create _) = ''plan_create''"
| "task_type (Plan_status_create _) = ''plan_status_create''"
| "task_type (Plan_status_update _ _) = ''plan_status_update''"
| "task_type (Plan_status_delete _ _) = ''plan_status_delete''"
| "task_type (Plan_update _) = ''plan_update''"
| "task_type (Plan_secretary_binding_update _) = ''plan_secretary_binding_update''"
| "task_type (Plan_task_binding_update _) = ''plan_task_binding_update''"
| "task_type (Recent_memory_create _) = ''recent_memory_create''"
| "task_type (Recent_memory_update _ _) = ''recent_memory_update''"
| "task_type (Recent_memory_touch _) = ''recent_memory_touch''"
| "task_type (Memory_consolidation_request _) = ''memory_consolidation_request''"
| "task_type (Memory_consolidation_mark_delivered _ _) = ''memory_consolidation_mark_delivered''"
| "task_type (Memory_consolidation_apply _ _) = ''memory_consolidation_apply''"
| "task_type (Plan_feedback_submit _) = ''plan_feedback_submit''"
| "task_type (Plan_feedback_delivery_update _ _ _) = ''plan_feedback_delivery_update''"
| "task_type (Plan_feedback_qa_update _ _) = ''plan_feedback_qa_update''"
| "task_type (Plan_feedback_post_commit_update _ _ _) = ''plan_feedback_post_commit_update''"
| "task_type (Role_panel_timeline_append _) = ''role_panel_timeline_append''"

definition task_requires_plan_fence :: "storage_task \<Rightarrow> bool" where
  "task_requires_plan_fence t \<longleftrightarrow> task_type t \<in>
     {''plan_create'', ''plan_update'', ''plan_secretary_binding_update'', ''plan_task_binding_update'',
      ''plan_feedback_submit'', ''plan_feedback_delivery_update'', ''plan_feedback_qa_update'',
      ''plan_feedback_post_commit_update''}"

record storage_request =
  sq_version :: int
  sq_id :: string
  sq_fence :: storage_fence
  sq_expected :: "string option"
  sq_task :: storage_task

text \<open>A response carries a value or a message; a value that is missing is \<open>Inr None\<close>.\<close>

record storage_response =
  sp_version :: int
  sp_id :: string
  sp_fence :: "storage_fence option"
  sp_body :: "string + json option"

datatype storage_code = Busy | Timed_out | Aborted | Worker_failed | Mutation_failed | Revision_conflict
  | Idempotency_conflict | Indeterminate | Fence_mismatch | Termination_unconfirmed | Pool_stopped
  | Validation_rejected

datatype storage_error = Storage_error storage_code string | Plain_error string

definition protocol_version :: int where
  "protocol_version = 1"

definition same_fence :: "storage_fence \<Rightarrow> storage_fence \<Rightarrow> bool" where
  "same_fence a b \<longleftrightarrow> sf_application a = sf_application b \<and> sf_manager a = sf_manager b \<and>
     sf_lease a = sf_lease b \<and> sf_role a = sf_role b \<and> sf_plan a = sf_plan b"

section \<open>Names and keys\<close>

definition canonical_plan_id :: "string \<Rightarrow> (string, string) res" where
  "canonical_plan_id raw =
     (let canonical = js_trim raw
      in if raw \<noteq> canonical then Inl (''Plan id must already be trimmed and Unicode NFC-normalized: '' @ raw)
         else if canonical = [] \<or> canonical = ''.'' \<or> canonical = ''..'' \<or> CHR ''/'' \<in> set canonical \<or>
           CHR 0x5C \<in> set canonical \<or> list_ex (\<lambda>c. (of_char c :: nat) < 32 \<or> c = CHR 0x7F) canonical
         then Inl (''Invalid canonical logical plan id: '' @ raw)
         else Inr canonical)"

definition canonical_role_id :: "string \<Rightarrow> (string, string) res" where
  "canonical_role_id value =
     (let t = js_trim value; role = sanitize_role_id t
      in if role = [] \<or> role \<noteq> t
         then Inl (''Storage mutation roleId is invalid: '' @ (if t = [] then ''<empty>'' else t))
         else Inr role)"

text \<open>The directory of a role: the path relative to the root of the roles is the role itself, since it has
  no separator.\<close>

definition storage_role_directory :: "string \<Rightarrow> (string, string list) res" where
  "storage_role_directory value =
     bindr (canonical_role_id value) (\<lambda>role.
       if role = [] \<or> take 2 role = ''..''
       then Inl (''Storage mutation role directory is outside rolesRoot: '' @ role) else Inr [role])"

definition key_char :: "char \<Rightarrow> bool" where
  "key_char c \<longleftrightarrow> is_lower c \<or> is_upper c \<or> is_digit c \<or> c \<in> set ''._:-''"

definition storage_key :: "nat \<Rightarrow> string \<Rightarrow> bool" where
  "storage_key n k \<longleftrightarrow> 1 \<le> length k \<and> length k \<le> n \<and> list_all key_char k"

definition expected_ok :: "string option \<Rightarrow> bool" where
  "expected_ok r = (case r of None \<Rightarrow> True | Some s \<Rightarrow> js_trim s \<noteq> [] \<and> length s \<le> 256)"

section \<open>The checks of the child\<close>

definition name_of_length :: "nat \<Rightarrow> string \<Rightarrow> bool" where
  "name_of_length n s \<longleftrightarrow> js_trim s \<noteq> [] \<and> length s \<le> n"

text \<open>\<open>String(value || "")\<close>.\<close>

definition text_of_field :: "json option \<Rightarrow> string" where
  "text_of_field v = (if js_truthy v then js_string (the v) else [])"

definition feedback_of :: "storage_task \<Rightarrow> plan_feedback option" where
  "feedback_of t = (case t of
     Plan_feedback_delivery_update r _ _ \<Rightarrow> Some r
   | Plan_feedback_qa_update r _ \<Rightarrow> Some r
   | Plan_feedback_post_commit_update r _ _ \<Rightarrow> Some r
   | _ \<Rightarrow> None)"

definition check_that :: "bool \<Rightarrow> string \<Rightarrow> (string, unit) res" where
  "check_that b e = (if b then Inr () else Inl e)"

text \<open>What the kind of task asks for, after the fence has been checked.\<close>

definition validate_task :: "string \<Rightarrow> string option \<Rightarrow> string option \<Rightarrow> storage_task \<Rightarrow> (string, unit) res" where
  "validate_task role plan expected t =
     bindr (case t of Plan_create input \<Rightarrow>
              bindr (canonical_plan_id (text_of_field (map_of input ''id''))) (\<lambda>p.
                check_that (Some p = plan) ''Plan creation input id does not match its plan fence.'')
            | _ \<Rightarrow> Inr ()) (\<lambda>_.
     bindr (case t of Plan_status_update k _ \<Rightarrow> check_that (name_of_length 80 k) ''Plan status key is invalid.''
            | Plan_status_delete k _ \<Rightarrow> check_that (name_of_length 80 k) ''Plan status key is invalid.''
            | _ \<Rightarrow> Inr ()) (\<lambda>_.
     bindr (case t of Plan_status_delete _ k \<Rightarrow>
              check_that (name_of_length 80 k) ''Replacement plan status key is invalid.''
            | _ \<Rightarrow> Inr ()) (\<lambda>_.
     bindr (case t of Recent_memory_touch m \<Rightarrow>
              bindr (check_that (name_of_length 256 m) ''Recent-memory touch memoryId is invalid.'') (\<lambda>_.
                check_that (expected \<noteq> None) ''Recent-memory touch requires an exact expectedRevision.'')
            | _ \<Rightarrow> Inr ()) (\<lambda>_.
     bindr (case t of Role_panel_timeline_append m \<Rightarrow>
              bindr (check_that (expected = None) ''Role panel timeline append expectedRevision must be null.'') (\<lambda>_.
              bindr (check_that (tl_role m = role)
                ''Role panel timeline message identity does not match its role fence.'') (\<lambda>_.
                check_that (name_of_length 256 (tl_id m)) ''Role panel timeline messageId is invalid.''))
            | _ \<Rightarrow> Inr ()) (\<lambda>_.
       case feedback_of t of
         None \<Rightarrow> Inr ()
       | Some r \<Rightarrow>
           if fb_role r \<noteq> role then Inl ''Plan feedback record identity does not match its role/plan fence.''
           else bindr (canonical_plan_id (fb_plan r)) (\<lambda>p.
             check_that (Some p = plan) ''Plan feedback record identity does not match its role/plan fence.''))))))"

definition validate_request :: "storage_identity \<Rightarrow> storage_request \<Rightarrow> (string, storage_request) res" where
  "validate_request identity q =
     bindr (check_that (sq_version q = protocol_version) ''Storage mutation protocol version is invalid.'') (\<lambda>_.
     bindr (check_that (storage_key 256 (sq_id q)) ''Storage mutation requestId is invalid.'') (\<lambda>_.
     bindr (check_that (sf_application (sq_fence q) = sd_application identity \<and>
         sf_manager (sq_fence q) = sd_manager identity \<and> sf_lease (sq_fence q) = sd_lease identity)
       ''Storage mutation generation fence does not match the child identity.'') (\<lambda>_.
     bindr (canonical_role_id (sf_role (sq_fence q))) (\<lambda>role.
     bindr (storage_role_directory role) (\<lambda>_.
     bindr (check_that (expected_ok (sq_expected q)) ''Storage mutation expectedRevision is invalid.'') (\<lambda>_.
     bindr (case sf_plan (sq_fence q) of None \<Rightarrow> Inr None
            | Some p \<Rightarrow> bindr (canonical_plan_id p) (\<lambda>p'. Inr (Some p'))) (\<lambda>plan.
     bindr (check_that (task_requires_plan_fence (sq_task q) \<longrightarrow> plan \<noteq> None)
       (''Storage mutation '' @ task_type (sq_task q) @ '' requires a plan fence.'')) (\<lambda>_.
     bindr (check_that (\<not> task_requires_plan_fence (sq_task q) \<longrightarrow> plan = None)
       (''Storage mutation '' @ task_type (sq_task q) @ '' must not carry a plan fence.'')) (\<lambda>_.
     bindr (validate_task role plan (sq_expected q) (sq_task q)) (\<lambda>_. Inr q))))))))))"

section \<open>The requests and errors of the pool\<close>

definition starts_with :: "string \<Rightarrow> string \<Rightarrow> bool" where
  "starts_with p s \<longleftrightarrow> take (length p) s = p"

definition mutation_response_error :: "string \<Rightarrow> storage_error" where
  "mutation_response_error m =
     (if starts_with ''STORAGE_MUTATION_VALIDATION_REJECTED:'' m
      then Storage_error Validation_rejected (js_trim (drop (length ''STORAGE_MUTATION_VALIDATION_REJECTED:'') m))
      else if starts_with ''STORAGE_MUTATION_REVISION_CONFLICT:'' m \<or>
        starts_with ''PERSONA_PLAN_WORKFLOW_REVISION_CONFLICT:'' m
      then Storage_error Revision_conflict m
      else if starts_with ''STORAGE_MUTATION_CONFLICT:'' m then Storage_error Idempotency_conflict m
      else if starts_with ''STORAGE_MUTATION_UNCERTAIN:'' m \<or> starts_with ''STORAGE_MUTATION_IN_PROGRESS:'' m
      then Storage_error Indeterminate m
      else Storage_error Mutation_failed m)"

record pending_mutation =
  pm_role :: string
  pm_plan :: "string option"
  pm_key :: string
  pm_expected :: "string option"
  pm_task :: storage_task
  pm_timeout :: int
  pm_signal :: "nat option"

record mutation_options =
  mo_key :: string
  mo_expected :: "string option"
  mo_signal :: "nat option"
  mo_timeout :: "int option"

definition positive_integer :: "int option \<Rightarrow> int \<Rightarrow> int" where
  "positive_integer v fallback =
     (case v of None \<Rightarrow> fallback | Some n \<Rightarrow> if 0 < n \<and> n \<le> 9007199254740991 then n else fallback)"

text \<open>The checks of \<open>execute\<close> in its \<open>try\<close>, and the entry of the queue that follows.\<close>

definition pending_of ::
  "int \<Rightarrow> string \<Rightarrow> string option \<Rightarrow> storage_task \<Rightarrow> mutation_options \<Rightarrow> (string, pending_mutation) res" where
  "pending_of timeout role_value plan_value task opts =
     bindr (canonical_role_id role_value) (\<lambda>role.
     bindr (storage_role_directory role) (\<lambda>_.
     bindr (case plan_value of None \<Rightarrow> Inr None
            | Some p \<Rightarrow> bindr (canonical_plan_id p) (\<lambda>p'. Inr (Some p'))) (\<lambda>plan.
     bindr (check_that (storage_key 200 (mo_key opts)) ''Storage mutation idempotencyKey is invalid.'') (\<lambda>_.
     bindr (check_that (expected_ok (mo_expected opts)) ''Storage mutation expectedRevision is invalid.'') (\<lambda>_.
       Inr \<lparr>pm_role = role, pm_plan = plan, pm_key = mo_key opts, pm_expected = mo_expected opts, pm_task = task,
         pm_timeout = positive_integer (mo_timeout opts) timeout, pm_signal = mo_signal opts\<rparr>)))))"

text \<open>The fence and the request that \<open>drain\<close> sends.\<close>

definition request_of :: "storage_identity \<Rightarrow> pending_mutation \<Rightarrow> storage_request" where
  "request_of identity p =
     \<lparr>sq_version = protocol_version, sq_id = pm_key p,
      sq_fence = \<lparr>sf_application = sd_application identity, sf_manager = sd_manager identity,
        sf_lease = sd_lease identity, sf_role = pm_role p, sf_plan = pm_plan p\<rparr>,
      sq_expected = pm_expected p, sq_task = pm_task p\<rparr>"

text \<open>The typed methods: the plan and the task they give to \<open>execute\<close>.\<close>

datatype pool_method =
    CreatePlan string json_object
  | CreatePlanStatus json_object
  | UpdatePlanStatus string json_object
  | DeletePlanStatus string string
  | UpdatePlan string json_object
  | UpdatePlanSecretaryBinding string json
  | UpdatePlanTaskBinding string json
  | CreateRecentMemory json_object
  | UpdateRecentMemory string json_object
  | TouchRecentMemory string
  | RequestMemoryConsolidation json_object
  | MarkMemoryConsolidationDelivered string "string option"
  | ApplyMemoryConsolidation string json_object
  | SubmitPlanFeedback string json_object
  | UpdatePlanFeedbackDelivery string plan_feedback string "string option"
  | UpdatePlanFeedbackQaHandling string plan_feedback json
  | UpdatePlanFeedbackPostCommit string plan_feedback string "string option"
  | AppendRolePanelTimeline timeline_message

fun method_call :: "pool_method \<Rightarrow> (string, string option \<times> storage_task) res" where
  "method_call (CreatePlan plan input) =
     bindr (canonical_plan_id plan) (\<lambda>p. Inr (Some p, Plan_create (jset ''id'' (JStr p) input)))"
| "method_call (CreatePlanStatus input) = Inr (None, Plan_status_create input)"
| "method_call (UpdatePlanStatus k patch) = Inr (None, Plan_status_update k patch)"
| "method_call (DeletePlanStatus k r) = Inr (None, Plan_status_delete k r)"
| "method_call (UpdatePlan plan patch) = Inr (Some plan, Plan_update patch)"
| "method_call (UpdatePlanSecretaryBinding plan b) = Inr (Some plan, Plan_secretary_binding_update b)"
| "method_call (UpdatePlanTaskBinding plan b) = Inr (Some plan, Plan_task_binding_update b)"
| "method_call (CreateRecentMemory input) = Inr (None, Recent_memory_create input)"
| "method_call (UpdateRecentMemory m patch) = Inr (None, Recent_memory_update m patch)"
| "method_call (TouchRecentMemory m) = Inr (None, Recent_memory_touch m)"
| "method_call (RequestMemoryConsolidation input) = Inr (None, Memory_consolidation_request input)"
| "method_call (MarkMemoryConsolidationDelivered run t) = Inr (None, Memory_consolidation_mark_delivered run t)"
| "method_call (ApplyMemoryConsolidation run body) = Inr (None, Memory_consolidation_apply run body)"
| "method_call (SubmitPlanFeedback plan input) = Inr (Some plan, Plan_feedback_submit input)"
| "method_call (UpdatePlanFeedbackDelivery plan r status m) =
     Inr (Some plan, Plan_feedback_delivery_update r status m)"
| "method_call (UpdatePlanFeedbackQaHandling plan r handling) = Inr (Some plan, Plan_feedback_qa_update r handling)"
| "method_call (UpdatePlanFeedbackPostCommit plan r status m) =
     Inr (Some plan, Plan_feedback_post_commit_update r status m)"
| "method_call (AppendRolePanelTimeline m) = Inr (None, Role_panel_timeline_append m)"

end
