(* ===== verification/StorageMutations.thy ===== *)
theory StorageMutations
  imports StorageProtocol EventMachines
begin

text \<open>
  The pool of \<open>src/manager/managerStorageMutationPool.ts\<close>: the Manager gives every change of the roles'
  storage to one child process at a time, which it replaces when the child dies, answers wrongly or
  takes too long. The slots of children and the accepted requests are objects that several callbacks
  hold: they are kept in lists and named by their places. What an \<open>await\<close> resumes, a microtask, a
  timer, an event of a child and a call from outside are events in any order; a timer fires at any
  time while it is armed. A child process can be running as long as its \<open>close\<close> event has not come.
\<close>

section \<open>Data\<close>

text \<open>The promise that a child is gone: it waits after \<open>SIGTERM\<close>, then after \<open>SIGKILL\<close>.\<close>

datatype termination_flight = Term_sent | Kill_sent | Confirmed bool

record child_slot =
  sk_pid :: "int option"
  sk_closed :: bool
  sk_errored :: bool
  sk_flight :: "termination_flight option"
  sk_diagnostic :: int

record active_mutation =
  am_slot :: nat
  am_place :: nat
  am_request :: storage_request
  am_armed :: bool
  am_listens :: bool
  am_terminating :: bool

text \<open>Who waits for a termination, and what it does then. \<open>wk_now\<close> says that the child was gone already
  when the wait began.\<close>

datatype waiting_task = Terminate_active nat storage_error | Terminate_idle | Stop_active nat | Stop_slot

record waiting =
  wk_slot :: nat
  wk_now :: bool
  wk_task :: waiting_task

datatype pool_state = Pool_idle | Pool_running | Pool_blocked | Pool_stopping | Pool_has_stopped

text \<open>The outcomes of an accepted request are the calls of its \<open>resolve\<close> and \<open>reject\<close>. \<open>pw_sent\<close> is what was
  given to children, with the slot and the place of the request.\<close>

record pool_world =
  pw_identity :: storage_identity
  pw_timeout :: int
  pw_max_queue :: int
  pw_requests :: "pending_mutation list"
  pw_outcomes :: "(storage_error + json) list list"
  pw_queue :: "nat list"
  pw_slots :: "child_slot list"
  pw_child :: "nat option"
  pw_blocked :: "nat option"
  pw_active :: "active_mutation option"
  pw_accepting :: bool
  pw_state :: pool_state
  pw_spawned :: nat
  pw_last_error :: "storage_code option"
  pw_stopping :: bool
  pw_stop_results :: "storage_error option list"
  pw_drains :: nat
  pw_waiting :: "waiting list"
  pw_aborted :: "nat list"
  pw_sent :: "(nat \<times> nat \<times> storage_request) list"

definition required_identity_text :: "string \<Rightarrow> string \<Rightarrow> (string, string) res" where
  "required_identity_text value label =
     (let t = js_trim value
      in if t = [] \<or> length t > 256 then Inl (label @ '' is required and must be at most 256 characters.'') else Inr t)"

text \<open>The constructor; \<open>lease\<close> is the factory of the storage lease.\<close>

definition new_pool ::
  "string \<Rightarrow> string \<Rightarrow> string \<Rightarrow> (string \<Rightarrow> string \<Rightarrow> string) \<Rightarrow> int option \<Rightarrow> int option \<Rightarrow> (string, pool_world) res" where
  "new_pool roles_root application manager lease timeout max_queue =
     bindr (required_identity_text roles_root ''rolesRoot'') (\<lambda>r.
     bindr (required_identity_text application ''applicationGenerationId'') (\<lambda>a.
     bindr (required_identity_text manager ''managerInstanceId'') (\<lambda>m.
     bindr (required_identity_text (lease a m) ''storageGenerationLease'') (\<lambda>l.
       Inr \<lparr>pw_identity = \<lparr>sd_application = a, sd_manager = m, sd_lease = l, sd_roles_root = r\<rparr>,
         pw_timeout = positive_integer timeout 30000,
         pw_max_queue = max 0 (case max_queue of None \<Rightarrow> 32 | Some n \<Rightarrow> n),
         pw_requests = [], pw_outcomes = [], pw_queue = [], pw_slots = [], pw_child = None, pw_blocked = None,
         pw_active = None, pw_accepting = True, pw_state = Pool_idle, pw_spawned = 0, pw_last_error = None,
         pw_stopping = False, pw_stop_results = [], pw_drains = 0, pw_waiting = [], pw_aborted = [], pw_sent = []\<rparr>))))"

record pool_report =
  ps_state :: pool_state
  ps_active :: nat
  ps_queued :: nat
  ps_child_pid :: "int option"
  ps_spawned :: nat
  ps_identity :: "string \<times> string \<times> string"
  ps_last_error :: "storage_code option"

definition slot_at :: "pool_world \<Rightarrow> nat \<Rightarrow> child_slot" where
  "slot_at w i = pw_slots w ! i"

definition pool_status :: "pool_world \<Rightarrow> pool_report" where
  "pool_status w =
     (let pid = (\<lambda>v. case v of None \<Rightarrow> None | Some i \<Rightarrow> sk_pid (slot_at w i))
      in \<lparr>ps_state = pw_state w, ps_active = (if pw_active w = None then 0 else 1), ps_queued = length (pw_queue w),
        ps_child_pid = (case pid (pw_blocked w) of None \<Rightarrow> pid (pw_child w) | Some p \<Rightarrow> Some p),
        ps_spawned = pw_spawned w,
        ps_identity = (sd_application (pw_identity w), sd_manager (pw_identity w), sd_lease (pw_identity w)),
        ps_last_error = pw_last_error w\<rparr>)"

section \<open>Settling requests\<close>

definition upd_slot :: "nat \<Rightarrow> (child_slot \<Rightarrow> child_slot) \<Rightarrow> pool_world \<Rightarrow> pool_world" where
  "upd_slot i f w = w\<lparr>pw_slots := (pw_slots w)[i := f (pw_slots w ! i)]\<rparr>"

text \<open>A call of \<open>resolve\<close> or \<open>reject\<close> of the request at place \<open>r\<close>.\<close>

definition settle :: "nat \<Rightarrow> storage_error + json \<Rightarrow> pool_world \<Rightarrow> pool_world" where
  "settle r out w = w\<lparr>pw_outcomes := (pw_outcomes w)[r := pw_outcomes w ! r @ [out]]\<rparr>"

definition error_code :: "storage_error \<Rightarrow> storage_code" where
  "error_code e = (case e of Storage_error c _ \<Rightarrow> c | Plain_error _ \<Rightarrow> Worker_failed)"

definition clear_deadline :: "pool_world \<Rightarrow> pool_world" where
  "clear_deadline w =
     w\<lparr>pw_active := map_option (\<lambda>a. a\<lparr>am_armed := False, am_listens := False\<rparr>) (pw_active w)\<rparr>"

definition is_active :: "nat \<Rightarrow> pool_world \<Rightarrow> bool" where
  "is_active r w = (case pw_active w of None \<Rightarrow> False | Some a \<Rightarrow> am_place a = r)"

definition schedule_drain :: "pool_world \<Rightarrow> pool_world" where
  "schedule_drain w = w\<lparr>pw_state := Pool_idle, pw_drains := pw_drains w + 1\<rparr>"

text \<open>\<open>settleActive\<close>: the active request of place \<open>r\<close>, if it still is the active one.\<close>

definition settle_active :: "nat \<Rightarrow> storage_error + json \<Rightarrow> pool_world \<Rightarrow> pool_world" where
  "settle_active r out w =
     (if \<not> is_active r w then w
      else let w1 = settle r out (w\<lparr>pw_active := None,
             pw_last_error := (case out of Inl e \<Rightarrow> Some (error_code e) | Inr _ \<Rightarrow> None)\<rparr>)
        in if pw_blocked w1 = None \<and> pw_accepting w1 then schedule_drain w1 else w1)"

fun reject_all :: "storage_error \<Rightarrow> nat list \<Rightarrow> pool_world \<Rightarrow> pool_world" where
  "reject_all e [] w = w"
| "reject_all e (r # rs) w = reject_all e rs (settle r (Inl e) w)"

definition reject_queue :: "storage_error \<Rightarrow> pool_world \<Rightarrow> pool_world" where
  "reject_queue e w = reject_all e (pw_queue w) (w\<lparr>pw_queue := []\<rparr>)"

section \<open>Ending a child\<close>

definition block_termination :: "nat \<Rightarrow> pool_world \<Rightarrow> pool_world" where
  "block_termination i w = w\<lparr>pw_blocked := Some i, pw_child := Some i, pw_state := Pool_blocked,
     pw_last_error := Some Termination_unconfirmed\<rparr>"

text \<open>\<open>terminateAndConfirm\<close> up to its first \<open>await\<close>, for a caller that goes on with \<open>task\<close>.\<close>

definition await_termination :: "nat \<Rightarrow> waiting_task \<Rightarrow> pool_world \<Rightarrow> pool_world" where
  "await_termination i task w =
     (let wait = (\<lambda>now w. w\<lparr>pw_waiting := pw_waiting w @ [\<lparr>wk_slot = i, wk_now = now, wk_task = task\<rparr>]\<rparr>)
      in if sk_closed (slot_at w i) then wait True w
         else wait False (if sk_flight (slot_at w i) = None
           then upd_slot i (\<lambda>s. s\<lparr>sk_flight := Some Term_sent\<rparr>) w else w))"

text \<open>\<open>terminateActive\<close> up to its \<open>await\<close>.\<close>

definition terminate_active :: "nat \<Rightarrow> storage_error \<Rightarrow> pool_world \<Rightarrow> pool_world" where
  "terminate_active r cause w =
     (case pw_active w of
        None \<Rightarrow> w
      | Some a \<Rightarrow>
          if am_place a \<noteq> r \<or> am_terminating a then w
          else await_termination (am_slot a) (Terminate_active r cause)
            (clear_deadline (w\<lparr>pw_active := Some (a\<lparr>am_terminating := True\<rparr>)\<rparr>)))"

section \<open>Sending\<close>

text \<open>What the environment does while \<open>drain\<close> runs: the pid of a child it may start, or a factory that
  throws, and whether \<open>send\<close> throws.\<close>

record drain_input =
  di_spawn :: "int option option"
  di_send_throws :: bool

definition create_slot :: "int option \<Rightarrow> pool_world \<Rightarrow> pool_world" where
  "create_slot pid w = w\<lparr>pw_slots := pw_slots w @
       [\<lparr>sk_pid = pid, sk_closed = False, sk_errored = False, sk_flight = None, sk_diagnostic = 0\<rparr>],
     pw_child := Some (length (pw_slots w)), pw_spawned := pw_spawned w + 1\<rparr>"

definition send_failed :: storage_error where
  "send_failed = Storage_error Worker_failed ''Storage mutation request could not be sent to the child.''"

text \<open>The request of place \<open>r\<close> becomes the active one and is sent to the child of slot \<open>i\<close>.\<close>

definition send_request :: "drain_input \<Rightarrow> nat \<Rightarrow> nat \<Rightarrow> pool_world \<Rightarrow> pool_world" where
  "send_request di i r w =
     (let p = pw_requests w ! r; q = request_of (pw_identity w) p;
          w1 = w\<lparr>pw_active := Some \<lparr>am_slot = i, am_place = r, am_request = q, am_armed = True,
              am_listens = (pm_signal p \<noteq> None), am_terminating = False\<rparr>, pw_state := Pool_running\<rparr>
      in if di_send_throws di then terminate_active r send_failed w1
         else w1\<lparr>pw_sent := pw_sent w1 @ [(i, r, q)]\<rparr>)"

definition signal_aborted :: "pool_world \<Rightarrow> pending_mutation \<Rightarrow> bool" where
  "signal_aborted w p = (case pm_signal p of None \<Rightarrow> False | Some s \<Rightarrow> s \<in> set (pw_aborted w))"

definition aborted_error :: storage_error where
  "aborted_error = Storage_error Aborted ''Storage mutation request was aborted.''"

definition open_child :: "pool_world \<Rightarrow> nat option" where
  "open_child w = (case pw_child w of None \<Rightarrow> None | Some i \<Rightarrow> if sk_closed (slot_at w i) then None else Some i)"

definition queue_drain :: "pool_world \<Rightarrow> pool_world" where
  "queue_drain w = w\<lparr>pw_drains := pw_drains w + 1\<rparr>"

definition drain_blocked :: "pool_world \<Rightarrow> bool" where
  "drain_blocked w \<longleftrightarrow> \<not> pw_accepting w \<or> pw_active w \<noteq> None \<or> pw_blocked w \<noteq> None \<or>
     pw_state w = Pool_stopping \<or> pw_state w = Pool_has_stopped"

definition drain :: "drain_input \<Rightarrow> pool_world \<Rightarrow> pool_world" where
  "drain di w =
     (if drain_blocked w then w
      else case pw_queue w of
        [] \<Rightarrow> w\<lparr>pw_state := Pool_idle\<rparr>
      | r # rs \<Rightarrow>
          let w1 = w\<lparr>pw_queue := rs\<rparr> in
          if signal_aborted w1 (pw_requests w1 ! r) then queue_drain (settle r (Inl aborted_error) w1)
          else (case open_child w1 of
              Some i \<Rightarrow> send_request di i r w1
            | None \<Rightarrow>
                (case di_spawn di of
                   None \<Rightarrow> queue_drain (settle r (Inl (Storage_error Worker_failed
                     ''Storage mutation child failed to start.'')) w1)
                 | Some pid \<Rightarrow> send_request di (length (pw_slots w1)) r (create_slot pid w1))))"

section \<open>Calls\<close>

definition pid_text :: "pool_world \<Rightarrow> nat \<Rightarrow> string" where
  "pid_text w i = (case sk_pid (slot_at w i) of None \<Rightarrow> ''unknown'' | Some p \<Rightarrow> int_str p)"

text \<open>\<open>execute\<close>: a refusal, or the place of the accepted request.\<close>

definition execute_refusal :: "mutation_options \<Rightarrow> pool_world \<Rightarrow> storage_error option" where
  "execute_refusal opts w =
     (if \<not> pw_accepting w \<or> pw_state w = Pool_stopping \<or> pw_state w = Pool_has_stopped
      then Some (Storage_error Pool_stopped ''Storage mutation pool is stopped.'')
      else case pw_blocked w of
        Some i \<Rightarrow> Some (Storage_error Termination_unconfirmed
          (''Storage mutation child termination is not confirmed: pid='' @ pid_text w i @ ''.''))
      | None \<Rightarrow>
          (case mo_signal opts of
             None \<Rightarrow> None
           | Some s \<Rightarrow> if s \<in> set (pw_aborted w) then Some aborted_error else None))"

definition queue_full :: "pool_world \<Rightarrow> bool" where
  "queue_full w \<longleftrightarrow> (pw_active w \<noteq> None \<or> pw_queue w \<noteq> []) \<and> int (length (pw_queue w)) \<ge> pw_max_queue w"

definition enqueue :: "pending_mutation \<Rightarrow> pool_world \<Rightarrow> pool_world" where
  "enqueue p w = w\<lparr>pw_requests := pw_requests w @ [p], pw_outcomes := pw_outcomes w @ [[]],
     pw_queue := pw_queue w @ [length (pw_requests w)]\<rparr>"

definition execute_mutation ::
  "drain_input \<Rightarrow> string \<Rightarrow> string option \<Rightarrow> storage_task \<Rightarrow> mutation_options \<Rightarrow> pool_world \<Rightarrow>
   (storage_error, nat) res \<times> pool_world" where
  "execute_mutation di role plan task opts w =
     (case execute_refusal opts w of
        Some e \<Rightarrow> (Inl e, w)
      | None \<Rightarrow>
        (case pending_of (pw_timeout w) role plan task opts of
           Inl e \<Rightarrow> (Inl (Plain_error e), w)
         | Inr p \<Rightarrow>
             if queue_full w then (Inl (Storage_error Busy ''Storage mutation queue is full.''), w)
             else (Inr (length (pw_requests w)), drain di (enqueue p w))))"

definition call_method ::
  "drain_input \<Rightarrow> string \<Rightarrow> pool_method \<Rightarrow> mutation_options \<Rightarrow> pool_world \<Rightarrow> (storage_error, nat) res \<times> pool_world" where
  "call_method di role m opts w =
     (case method_call m of
        Inl e \<Rightarrow> (Inl (Plain_error e), w)
      | Inr (plan, task) \<Rightarrow> execute_mutation di role plan task opts w)"

text \<open>\<open>stopOnce\<close> in its parts: the end that looks at what is left, the second termination, the first one. The
  flight of a stop that throws is forgotten in the microtask that follows, which is part of the step.\<close>

definition stop_throws :: "storage_error \<Rightarrow> pool_world \<Rightarrow> pool_world" where
  "stop_throws e w = w\<lparr>pw_stopping := False, pw_stop_results := pw_stop_results w @ [Some e]\<rparr>"

definition stop_unconfirmed :: "nat \<Rightarrow> pool_world \<Rightarrow> storage_error" where
  "stop_unconfirmed i w = Storage_error Termination_unconfirmed
     (''Storage mutation pool cannot stop while child termination is unconfirmed: pid='' @ pid_text w i @ ''.'')"

definition stop_finish :: "pool_world \<Rightarrow> pool_world" where
  "stop_finish w =
     (if pw_active w \<noteq> None \<or> pw_blocked w \<noteq> None \<or> open_child w \<noteq> None
      then stop_throws (Storage_error Termination_unconfirmed
        ''Storage mutation pool still owns child resources after stop.'') w
      else w\<lparr>pw_state := Pool_has_stopped, pw_last_error := None, pw_stop_results := pw_stop_results w @ [None]\<rparr>)"

definition stop_child :: "pool_world \<Rightarrow> pool_world" where
  "stop_child w =
     (case (case pw_blocked w of Some i \<Rightarrow> Some i | None \<Rightarrow> pw_child w) of
        None \<Rightarrow> stop_finish w
      | Some i \<Rightarrow> if sk_closed (slot_at w i) then stop_finish w else await_termination i Stop_slot w)"

definition stop_once :: "pool_world \<Rightarrow> pool_world" where
  "stop_once w =
     (let w1 = reject_queue (Storage_error Pool_stopped ''Storage mutation pool stopped.'')
           (w\<lparr>pw_accepting := False, pw_state := Pool_stopping\<rparr>)
      in case pw_active w1 of
           None \<Rightarrow> stop_child w1
         | Some a \<Rightarrow> await_termination (am_slot a) (Stop_active (am_place a))
             (clear_deadline (w1\<lparr>pw_active := Some (a\<lparr>am_terminating := True\<rparr>)\<rparr>)))"

text \<open>\<open>stop\<close>: a stop that is under way, or has succeeded, is the answer.\<close>

definition stop_pool :: "pool_world \<Rightarrow> pool_world" where
  "stop_pool w =
     (if pw_state w = Pool_has_stopped then w\<lparr>pw_stop_results := pw_stop_results w @ [None]\<rparr>
      else if pw_stopping w then w
      else stop_once (w\<lparr>pw_stopping := True\<rparr>))"

section \<open>What continues\<close>

definition unconfirmed :: "storage_error \<Rightarrow> nat \<Rightarrow> pool_world \<Rightarrow> storage_error" where
  "unconfirmed cause i w = Storage_error Termination_unconfirmed
     ((case cause of Storage_error _ m \<Rightarrow> m | Plain_error m \<Rightarrow> m) @
      '' Child termination was not confirmed: pid='' @ pid_text w i @ ''.'')"

definition terminated_active :: "bool \<Rightarrow> nat \<Rightarrow> nat \<Rightarrow> storage_error \<Rightarrow> pool_world \<Rightarrow> pool_world" where
  "terminated_active confirmed i r cause w =
     (if confirmed then settle_active r (Inl cause) w
      else let e = unconfirmed cause i w
        in reject_queue e (settle_active r (Inl e) (block_termination i w)))"

definition terminated_idle :: "bool \<Rightarrow> nat \<Rightarrow> pool_world \<Rightarrow> pool_world" where
  "terminated_idle confirmed i w =
     (if confirmed then w
      else reject_queue (Storage_error Termination_unconfirmed
        (''Storage mutation child process failed and termination was not confirmed: pid='' @ pid_text w i @ ''.''))
        (block_termination i w))"

definition stopped_active :: "bool \<Rightarrow> nat \<Rightarrow> nat \<Rightarrow> pool_world \<Rightarrow> pool_world" where
  "stopped_active confirmed i r w =
     (if confirmed
      then stop_child (settle_active r (Inl (Storage_error Pool_stopped ''Storage mutation pool stopped.'')) w)
      else stop_throws (stop_unconfirmed i w)
        (settle_active r (Inl (Storage_error Termination_unconfirmed
           (''Storage mutation child termination was not confirmed during stop: pid='' @ pid_text w i @ ''.'')))
          (block_termination i w)))"

definition stopped_slot :: "bool \<Rightarrow> nat \<Rightarrow> pool_world \<Rightarrow> pool_world" where
  "stopped_slot confirmed i w =
     (if confirmed then stop_finish w else stop_throws (stop_unconfirmed i w) (block_termination i w))"

definition resume :: "bool \<Rightarrow> waiting \<Rightarrow> pool_world \<Rightarrow> pool_world" where
  "resume confirmed wk w =
     (case wk_task wk of
        Terminate_active r cause \<Rightarrow> terminated_active confirmed (wk_slot wk) r cause w
      | Terminate_idle \<Rightarrow> terminated_idle confirmed (wk_slot wk) w
      | Stop_active r \<Rightarrow> stopped_active confirmed (wk_slot wk) r w
      | Stop_slot \<Rightarrow> stopped_slot confirmed (wk_slot wk) w)"

text \<open>What a wait has been answered, if it has.\<close>

definition wait_answer :: "pool_world \<Rightarrow> waiting \<Rightarrow> bool option" where
  "wait_answer w wk =
     (if wk_now wk then Some True
      else case sk_flight (slot_at w (wk_slot wk)) of Some (Confirmed b) \<Rightarrow> Some b | _ \<Rightarrow> None)"

section \<open>Events of children and timers\<close>

text \<open>A fenced answer that is \<open>ok\<close> and has no value makes \<open>cloneSerializable\<close> throw in the listener: the pool keeps the
  state it has, and the exception goes to the process.\<close>

definition handle_message :: "nat \<Rightarrow> storage_response option \<Rightarrow> pool_world \<Rightarrow> pool_world" where
  "handle_message i response w =
     (case pw_active w of
        None \<Rightarrow> w
      | Some a \<Rightarrow>
          if am_slot a \<noteq> i \<or> am_terminating a then w
          else (let fenced = (case response of None \<Rightarrow> None | Some p \<Rightarrow>
              if sp_version p \<noteq> protocol_version \<or> sp_id p \<noteq> sq_id (am_request a) then None
              else (case sp_fence p of None \<Rightarrow> None
                | Some f \<Rightarrow> if same_fence f (sq_fence (am_request a)) then Some (sp_body p) else None))
            in case fenced of
                 None \<Rightarrow> terminate_active (am_place a) (Storage_error Fence_mismatch
                   ''Storage mutation response failed request/generation/role/plan fencing.'') w
               | Some (Inl m) \<Rightarrow> settle_active (am_place a) (Inl (mutation_response_error m)) w
               | Some (Inr (Some v)) \<Rightarrow> settle_active (am_place a) (Inr v) w
               | Some (Inr None) \<Rightarrow> w))"

definition handle_child_error :: "nat \<Rightarrow> pool_world \<Rightarrow> pool_world" where
  "handle_child_error i w =
     (case pw_active w of
        Some a \<Rightarrow>
          if am_slot a = i \<and> \<not> am_terminating a
          then terminate_active (am_place a) (Storage_error Worker_failed ''Storage mutation child process failed.'') w
          else if \<not> sk_closed (slot_at w i) \<and> sk_flight (slot_at w i) = None
          then await_termination i Terminate_idle w else w
      | None \<Rightarrow>
          if \<not> sk_closed (slot_at w i) \<and> sk_flight (slot_at w i) = None
          then await_termination i Terminate_idle w else w)"

definition exit_message :: "int option \<Rightarrow> string option \<Rightarrow> int \<Rightarrow> string" where
  "exit_message code signal bytes = ''Storage mutation child exited before responding: code='' @
     (case code of None \<Rightarrow> ''none'' | Some c \<Rightarrow> int_str c) @ ''; signal='' @
     (case signal of None \<Rightarrow> ''none'' | Some s \<Rightarrow> s) @
     (if bytes > 0 then ''; diagnosticBytes='' @ int_str bytes else [])"

text \<open>The active request of a child that has closed before it answered.\<close>

definition close_answer :: "storage_error \<Rightarrow> nat \<Rightarrow> pool_world \<Rightarrow> pool_world" where
  "close_answer e i w = (case pw_active w of
       None \<Rightarrow> w
     | Some a \<Rightarrow> if am_slot a = i \<and> \<not> am_terminating a then settle_active (am_place a) (Inl e) w else w)"

definition handle_child_close :: "nat \<Rightarrow> int option \<Rightarrow> string option \<Rightarrow> pool_world \<Rightarrow> pool_world" where
  "handle_child_close i code signal w =
     (if sk_closed (slot_at w i) then w
      else let w1 = upd_slot i (\<lambda>s. s\<lparr>sk_closed := True\<rparr>) w;
          w2 = w1\<lparr>pw_child := (if pw_child w1 = Some i then None else pw_child w1),
            pw_blocked := (if pw_blocked w1 = Some i then None else pw_blocked w1)\<rparr>;
          w3 = close_answer (Storage_error Worker_failed (exit_message code signal (sk_diagnostic (slot_at w2 i)))) i w2
        in if pw_accepting w3 \<and> pw_blocked w3 = None \<and> pw_active w3 = None then schedule_drain w3 else w3)"

definition capture_diagnostic :: "nat \<Rightarrow> int \<Rightarrow> pool_world \<Rightarrow> pool_world" where
  "capture_diagnostic i bytes = upd_slot i (\<lambda>s. s\<lparr>sk_diagnostic := min 9007199254740991 (sk_diagnostic s + bytes)\<rparr>)"

text \<open>The listeners of a signal: queued requests leave the queue, the active one is terminated.\<close>

definition with_signal :: "nat \<Rightarrow> pool_world \<Rightarrow> nat \<Rightarrow> bool" where
  "with_signal s w r \<longleftrightarrow> pm_signal (pw_requests w ! r) = Some s"

definition abort_signal :: "nat \<Rightarrow> pool_world \<Rightarrow> pool_world" where
  "abort_signal s w =
     (if s \<in> set (pw_aborted w) then w
      else let w1 = w\<lparr>pw_aborted := s # pw_aborted w\<rparr>;
          w2 = reject_all aborted_error (filter (with_signal s w) (pw_queue w1))
            (w1\<lparr>pw_queue := filter (\<lambda>r. \<not> with_signal s w r) (pw_queue w1)\<rparr>)
        in case pw_active w2 of
             None \<Rightarrow> w2
           | Some a \<Rightarrow>
               if am_listens a \<and> with_signal s w (am_place a)
               then terminate_active (am_place a) aborted_error w2 else w2)"

definition request_timeout :: "nat \<Rightarrow> pool_world \<Rightarrow> pool_world" where
  "request_timeout r w = terminate_active r (Storage_error Timed_out
     (''Storage mutation exceeded '' @ int_str (pm_timeout (pw_requests w ! r)) @ '' ms.'')) w"

text \<open>The continuations of \<open>terminateAndConfirm\<close>: the child has closed, or a timer has fired before.\<close>

definition flight_continues :: "bool \<Rightarrow> child_slot \<Rightarrow> child_slot" where
  "flight_continues closed s = s\<lparr>sk_flight := (case sk_flight s of
       Some Term_sent \<Rightarrow> Some (if closed then Confirmed True else Kill_sent)
     | Some Kill_sent \<Rightarrow> Some (Confirmed closed)
     | f \<Rightarrow> f)\<rparr>"

definition flight_waits :: "child_slot \<Rightarrow> bool" where
  "flight_waits s \<longleftrightarrow> sk_flight s = Some Term_sent \<or> sk_flight s = Some Kill_sent"

section \<open>Runs\<close>

text \<open>Calls and microtasks can follow each other in any order; an event of a child and a timer come only
  when no microtask is left.\<close>

datatype pool_event =
    Call drain_input string pool_method mutation_options
  | Abort nat
  | Stop_call
  | Child_message nat "storage_response option"
  | Child_error nat
  | Child_close nat "int option" "string option"
  | Child_output nat int
  | Send_error nat
  | Timeout
  | Flight_timer nat
  | Flight_closed nat
  | Resume nat
  | Drain_task drain_input

definition microtasks :: "pool_world \<Rightarrow> bool" where
  "microtasks w \<longleftrightarrow> pw_drains w > 0 \<or> list_ex (\<lambda>wk. wait_answer w wk \<noteq> None) (pw_waiting w) \<or>
     list_ex (\<lambda>s. sk_closed s \<and> flight_waits s) (pw_slots w)"

fun pool_step :: "pool_event \<Rightarrow> pool_world \<Rightarrow> pool_world option" where
  "pool_step (Call di role m opts) w = Some (snd (call_method di role m opts w))"
| "pool_step (Abort s) w = Some (abort_signal s w)"
| "pool_step Stop_call w = Some (stop_pool w)"
| "pool_step (Child_message i p) w =
     (if i < length (pw_slots w) \<and> \<not> microtasks w then Some (handle_message i p w) else None)"
| "pool_step (Child_error i) w =
     (if i < length (pw_slots w) \<and> \<not> sk_errored (slot_at w i)
      then Some (handle_child_error i (upd_slot i (\<lambda>s. s\<lparr>sk_errored := True\<rparr>) w)) else None)"
| "pool_step (Child_close i code signal) w =
     (if i < length (pw_slots w) \<and> \<not> sk_closed (slot_at w i) \<and> \<not> microtasks w
      then Some (handle_child_close i code signal w) else None)"
| "pool_step (Child_output i bytes) w =
     (if i < length (pw_slots w) \<and> \<not> sk_closed (slot_at w i) \<and> 0 \<le> bytes
      then Some (capture_diagnostic i bytes w) else None)"
| "pool_step (Send_error r) w =
     (if r \<in> set (map (fst \<circ> snd) (pw_sent w)) then Some (terminate_active r send_failed w) else None)"
| "pool_step Timeout w =
     (case pw_active w of
        Some a \<Rightarrow> if am_armed a \<and> \<not> microtasks w then Some (request_timeout (am_place a) w) else None
      | None \<Rightarrow> None)"
| "pool_step (Flight_timer i) w =
     (if i < length (pw_slots w) \<and> flight_waits (slot_at w i) \<and> \<not> microtasks w
      then Some (upd_slot i (flight_continues False) w) else None)"
| "pool_step (Flight_closed i) w =
     (if i < length (pw_slots w) \<and> flight_waits (slot_at w i) \<and> sk_closed (slot_at w i)
      then Some (upd_slot i (flight_continues True) w) else None)"
| "pool_step (Resume k) w =
     (if k < length (pw_waiting w)
      then map_option (\<lambda>b. resume b (pw_waiting w ! k) (w\<lparr>pw_waiting := take k (pw_waiting w) @ drop (Suc k) (pw_waiting w)\<rparr>))
        (wait_answer w (pw_waiting w ! k)) else None)"
| "pool_step (Drain_task di) w =
     (if pw_drains w > 0 then Some (drain di (w\<lparr>pw_drains := pw_drains w - 1\<rparr>)) else None)"

abbreviation pool_run :: "pool_event list \<Rightarrow> pool_world \<Rightarrow> pool_world option" where
  "pool_run \<equiv> run_events pool_step"

text \<open>The events the pool brings about itself, without calls and without anything from a child.\<close>

fun own_event :: "pool_event \<Rightarrow> bool" where
  "own_event Timeout = True"
| "own_event (Flight_timer _) = True"
| "own_event (Flight_closed _) = True"
| "own_event (Resume _) = True"
| "own_event (Drain_task _) = True"
| "own_event _ = False"

end
