(* ===== verification/StorageSafety.thy ===== *)
theory StorageSafety
  imports StorageMutations
begin

text \<open>
  What holds in every reachable state of the mutation pool: one child at a time can be running, a request
  is sent at most once and in the order of acceptance, every accepted request is answered exactly once,
  and nothing that is accepted is left behind.
\<close>

section \<open>What the parts of a step leave alone\<close>

lemma upd_slot_simps [simp]:
  "pw_requests (upd_slot i f w) = pw_requests w" "pw_outcomes (upd_slot i f w) = pw_outcomes w"
  "pw_queue (upd_slot i f w) = pw_queue w" "pw_child (upd_slot i f w) = pw_child w"
  "pw_blocked (upd_slot i f w) = pw_blocked w" "pw_active (upd_slot i f w) = pw_active w"
  "pw_accepting (upd_slot i f w) = pw_accepting w" "pw_state (upd_slot i f w) = pw_state w"
  "pw_drains (upd_slot i f w) = pw_drains w" "pw_waiting (upd_slot i f w) = pw_waiting w"
  "pw_aborted (upd_slot i f w) = pw_aborted w" "pw_sent (upd_slot i f w) = pw_sent w"
  "pw_identity (upd_slot i f w) = pw_identity w" "pw_stopping (upd_slot i f w) = pw_stopping w"
  "pw_max_queue (upd_slot i f w) = pw_max_queue w"
  "pw_slots (upd_slot i f w) = (pw_slots w)[i := f (pw_slots w ! i)]"
  by (simp_all add: upd_slot_def)

lemma settle_simps [simp]:
  "pw_requests (settle r out w) = pw_requests w" "pw_slots (settle r out w) = pw_slots w"
  "pw_queue (settle r out w) = pw_queue w" "pw_child (settle r out w) = pw_child w"
  "pw_blocked (settle r out w) = pw_blocked w" "pw_active (settle r out w) = pw_active w"
  "pw_accepting (settle r out w) = pw_accepting w" "pw_state (settle r out w) = pw_state w"
  "pw_drains (settle r out w) = pw_drains w" "pw_waiting (settle r out w) = pw_waiting w"
  "pw_aborted (settle r out w) = pw_aborted w" "pw_sent (settle r out w) = pw_sent w"
  "pw_identity (settle r out w) = pw_identity w" "pw_stopping (settle r out w) = pw_stopping w"
  "pw_max_queue (settle r out w) = pw_max_queue w"
  "pw_outcomes (settle r out w) = (pw_outcomes w)[r := pw_outcomes w ! r @ [out]]"
  by (simp_all add: settle_def)

lemma settle_active_simps [simp]:
  "pw_requests (settle_active r out w) = pw_requests w" "pw_slots (settle_active r out w) = pw_slots w"
  "pw_queue (settle_active r out w) = pw_queue w" "pw_child (settle_active r out w) = pw_child w"
  "pw_blocked (settle_active r out w) = pw_blocked w"
  "pw_accepting (settle_active r out w) = pw_accepting w" "pw_waiting (settle_active r out w) = pw_waiting w"
  "pw_aborted (settle_active r out w) = pw_aborted w" "pw_sent (settle_active r out w) = pw_sent w"
  "pw_identity (settle_active r out w) = pw_identity w" "pw_stopping (settle_active r out w) = pw_stopping w"
  "pw_max_queue (settle_active r out w) = pw_max_queue w"
  "pw_active (settle_active r out w) = (if is_active r w then None else pw_active w)"
  "pw_outcomes (settle_active r out w) =
     (if is_active r w then (pw_outcomes w)[r := pw_outcomes w ! r @ [out]] else pw_outcomes w)"
  "pw_state (settle_active r out w) =
     (if is_active r w \<and> pw_blocked w = None \<and> pw_accepting w then Pool_idle else pw_state w)"
  "pw_drains (settle_active r out w) =
     (if is_active r w \<and> pw_blocked w = None \<and> pw_accepting w then Suc (pw_drains w) else pw_drains w)"
  by (simp_all add: settle_active_def schedule_drain_def Let_def)

lemma reject_all_simps [simp]:
  "pw_requests (reject_all e rs w) = pw_requests w" "pw_slots (reject_all e rs w) = pw_slots w"
  "pw_queue (reject_all e rs w) = pw_queue w" "pw_child (reject_all e rs w) = pw_child w"
  "pw_blocked (reject_all e rs w) = pw_blocked w" "pw_active (reject_all e rs w) = pw_active w"
  "pw_accepting (reject_all e rs w) = pw_accepting w" "pw_state (reject_all e rs w) = pw_state w"
  "pw_drains (reject_all e rs w) = pw_drains w" "pw_waiting (reject_all e rs w) = pw_waiting w"
  "pw_aborted (reject_all e rs w) = pw_aborted w" "pw_sent (reject_all e rs w) = pw_sent w"
  "pw_identity (reject_all e rs w) = pw_identity w" "pw_stopping (reject_all e rs w) = pw_stopping w"
  "pw_max_queue (reject_all e rs w) = pw_max_queue w"
  "length (pw_outcomes (reject_all e rs w)) = length (pw_outcomes w)"
  by (induction rs arbitrary: w) simp_all

lemma reject_all_outcomes:
  "distinct rs \<Longrightarrow> set rs \<subseteq> {..< length (pw_outcomes w)} \<Longrightarrow>
   pw_outcomes (reject_all e rs w) ! r = (if r \<in> set rs then pw_outcomes w ! r @ [Inl e] else pw_outcomes w ! r)"
  by (induction rs arbitrary: w) (auto simp: nth_list_update)

lemma reject_queue_simps [simp]:
  "pw_requests (reject_queue e w) = pw_requests w" "pw_slots (reject_queue e w) = pw_slots w"
  "pw_queue (reject_queue e w) = []" "pw_child (reject_queue e w) = pw_child w"
  "pw_blocked (reject_queue e w) = pw_blocked w" "pw_active (reject_queue e w) = pw_active w"
  "pw_accepting (reject_queue e w) = pw_accepting w" "pw_state (reject_queue e w) = pw_state w"
  "pw_drains (reject_queue e w) = pw_drains w" "pw_waiting (reject_queue e w) = pw_waiting w"
  "pw_aborted (reject_queue e w) = pw_aborted w" "pw_sent (reject_queue e w) = pw_sent w"
  "pw_identity (reject_queue e w) = pw_identity w" "pw_stopping (reject_queue e w) = pw_stopping w"
  "pw_max_queue (reject_queue e w) = pw_max_queue w"
  "length (pw_outcomes (reject_queue e w)) = length (pw_outcomes w)"
  by (simp_all add: reject_queue_def)

lemma block_termination_simps [simp]:
  "pw_requests (block_termination i w) = pw_requests w" "pw_slots (block_termination i w) = pw_slots w"
  "pw_queue (block_termination i w) = pw_queue w" "pw_child (block_termination i w) = Some i"
  "pw_blocked (block_termination i w) = Some i" "pw_active (block_termination i w) = pw_active w"
  "pw_accepting (block_termination i w) = pw_accepting w" "pw_state (block_termination i w) = Pool_blocked"
  "pw_drains (block_termination i w) = pw_drains w" "pw_waiting (block_termination i w) = pw_waiting w"
  "pw_aborted (block_termination i w) = pw_aborted w" "pw_sent (block_termination i w) = pw_sent w"
  "pw_identity (block_termination i w) = pw_identity w" "pw_stopping (block_termination i w) = pw_stopping w"
  "pw_max_queue (block_termination i w) = pw_max_queue w"
  "pw_outcomes (block_termination i w) = pw_outcomes w"
  by (simp_all add: block_termination_def)

lemma await_termination_simps [simp]:
  "pw_requests (await_termination i t w) = pw_requests w" "pw_outcomes (await_termination i t w) = pw_outcomes w"
  "pw_queue (await_termination i t w) = pw_queue w" "pw_child (await_termination i t w) = pw_child w"
  "pw_blocked (await_termination i t w) = pw_blocked w" "pw_active (await_termination i t w) = pw_active w"
  "pw_accepting (await_termination i t w) = pw_accepting w" "pw_state (await_termination i t w) = pw_state w"
  "pw_drains (await_termination i t w) = pw_drains w" "pw_aborted (await_termination i t w) = pw_aborted w"
  "pw_sent (await_termination i t w) = pw_sent w" "pw_identity (await_termination i t w) = pw_identity w"
  "pw_stopping (await_termination i t w) = pw_stopping w" "pw_max_queue (await_termination i t w) = pw_max_queue w"
  "length (pw_slots (await_termination i t w)) = length (pw_slots w)"
  by (simp_all add: await_termination_def Let_def)

lemma clear_deadline_simps [simp]:
  "pw_requests (clear_deadline w) = pw_requests w" "pw_outcomes (clear_deadline w) = pw_outcomes w"
  "pw_queue (clear_deadline w) = pw_queue w" "pw_child (clear_deadline w) = pw_child w"
  "pw_blocked (clear_deadline w) = pw_blocked w" "pw_slots (clear_deadline w) = pw_slots w"
  "pw_accepting (clear_deadline w) = pw_accepting w" "pw_state (clear_deadline w) = pw_state w"
  "pw_drains (clear_deadline w) = pw_drains w" "pw_waiting (clear_deadline w) = pw_waiting w"
  "pw_aborted (clear_deadline w) = pw_aborted w" "pw_sent (clear_deadline w) = pw_sent w"
  "pw_identity (clear_deadline w) = pw_identity w" "pw_stopping (clear_deadline w) = pw_stopping w"
  "pw_max_queue (clear_deadline w) = pw_max_queue w"
  "pw_active (clear_deadline w) = map_option (\<lambda>a. a\<lparr>am_armed := False, am_listens := False\<rparr>) (pw_active w)"
  by (simp_all add: clear_deadline_def)

section \<open>The invariant\<close>

definition open_request :: "pool_world \<Rightarrow> nat \<Rightarrow> bool" where
  "open_request w r \<longleftrightarrow> r \<in> set (pw_queue w) \<or> is_active r w"

text \<open>Every accepted request waits, is active, or has exactly one outcome.\<close>

definition requests_ok :: "pool_world \<Rightarrow> bool" where
  "requests_ok w \<longleftrightarrow> length (pw_outcomes w) = length (pw_requests w) \<and> sorted_wrt (<) (pw_queue w) \<and>
     (\<forall>r \<in> set (pw_queue w). r < length (pw_requests w)) \<and>
     (\<forall>r < length (pw_requests w). length (pw_outcomes w ! r) = (if open_request w r then 0 else 1)) \<and>
     (\<forall>a. pw_active w = Some a \<longrightarrow> am_place a < length (pw_requests w) \<and>
        (\<forall>r \<in> set (pw_queue w). am_place a < r) \<and> am_request a = request_of (pw_identity w) (pw_requests w ! am_place a))"

text \<open>What has been sent was accepted in that order, and before everything that waits.\<close>

definition sent_ok :: "pool_world \<Rightarrow> bool" where
  "sent_ok w \<longleftrightarrow> sorted_wrt (<) (map (fst \<circ> snd) (pw_sent w)) \<and>
     (\<forall>(i, r, q) \<in> set (pw_sent w). i < length (pw_slots w) \<and> r < length (pw_requests w) \<and>
        q = request_of (pw_identity w) (pw_requests w ! r) \<and> (\<forall>r' \<in> set (pw_queue w). r < r'))"

text \<open>The child of the pool is the only one that has not closed.\<close>

definition slots_ok :: "pool_world \<Rightarrow> bool" where
  "slots_ok w \<longleftrightarrow> (\<forall>i < length (pw_slots w). \<not> sk_closed (pw_slots w ! i) \<longleftrightarrow> pw_child w = Some i) \<and>
     (\<forall>i. pw_child w = Some i \<longrightarrow> i < length (pw_slots w)) \<and>
     (\<forall>i. pw_blocked w = Some i \<longrightarrow> pw_child w = Some i) \<and>
     (\<forall>s \<in> set (pw_slots w). sk_flight s = Some (Confirmed True) \<longrightarrow> sk_closed s)"

fun waits_for :: "nat \<Rightarrow> waiting_task \<Rightarrow> bool" where
  "waits_for r (Terminate_active r' _) = (r = r')"
| "waits_for r (Stop_active r') = (r = r')"
| "waits_for r _ = False"

definition waiting_ok :: "pool_world \<Rightarrow> waiting \<Rightarrow> bool" where
  "waiting_ok w wk \<longleftrightarrow> wk_slot wk < length (pw_slots w) \<and>
     (if wk_now wk then sk_closed (slot_at w (wk_slot wk))
      else sk_flight (slot_at w (wk_slot wk)) \<noteq> None \<and>
        (sk_flight (slot_at w (wk_slot wk)) = Some (Confirmed False) \<longrightarrow> \<not> sk_closed (slot_at w (wk_slot wk)))) \<and>
     (\<forall>r. waits_for r (wk_task wk) \<longrightarrow> r < length (pw_requests w) \<and> r \<notin> set (pw_queue w)) \<and>
     (\<forall>a. pw_active w = Some a \<and> waits_for (am_place a) (wk_task wk) \<longrightarrow> am_slot a = wk_slot wk \<and> am_terminating a)"

definition waits_ok :: "pool_world \<Rightarrow> bool" where
  "waits_ok w \<longleftrightarrow> (\<forall>wk \<in> set (pw_waiting w). waiting_ok w wk)"

text \<open>The active request has its timer, or somebody waits for the end of its child.\<close>

definition active_ok :: "pool_world \<Rightarrow> bool" where
  "active_ok w \<longleftrightarrow> (\<forall>a. pw_active w = Some a \<longrightarrow> am_slot a < length (pw_slots w) \<and>
     (if am_terminating a
      then \<not> am_armed a \<and> \<not> am_listens a \<and> (\<exists>wk \<in> set (pw_waiting w). waits_for (am_place a) (wk_task wk))
      else am_armed a \<and> \<not> sk_closed (slot_at w (am_slot a))))"

text \<open>Nothing waits without being awaited, and nothing is accepted that could not be done.\<close>

definition stops :: "pool_world \<Rightarrow> bool" where
  "stops w \<longleftrightarrow> (\<exists>wk \<in> set (pw_waiting w). wk_task wk = Stop_slot \<or> (\<exists>r. wk_task wk = Stop_active r))"

definition quiet :: "pool_world \<Rightarrow> bool" where
  "quiet w \<longleftrightarrow> (pw_blocked w \<noteq> None \<or> \<not> pw_accepting w \<longrightarrow> pw_queue w = []) \<and>
     (pw_state w = Pool_stopping \<or> pw_state w = Pool_has_stopped \<or> stops w \<longrightarrow> \<not> pw_accepting w)"

definition awaited :: "pool_world \<Rightarrow> bool" where
  "awaited w \<longleftrightarrow> (pw_queue w \<noteq> [] \<and> pw_active w = None \<longrightarrow> 0 < pw_drains w)"

definition bounded :: "pool_world \<Rightarrow> bool" where
  "bounded w \<longleftrightarrow> 0 \<le> pw_max_queue w \<and> int (length (pw_queue w)) \<le> pw_max_queue w"

lemma stops_cong: "pw_waiting w = pw_waiting w' \<Longrightarrow> stops w = stops w'"
  by (simp add: stops_def)

lemma stops_simps [simp]:
  "stops (upd_slot i f w) = stops w" "stops (settle r out w) = stops w" "stops (settle_active r out w) = stops w"
  "stops (reject_all e rs w) = stops w" "stops (reject_queue e w) = stops w" "stops (block_termination i w) = stops w"
  "stops (clear_deadline w) = stops w" "stops (w\<lparr>pw_active := a\<rparr>) = stops w" "stops (w\<lparr>pw_state := x\<rparr>) = stops w"
  "stops (w\<lparr>pw_drains := n\<rparr>) = stops w" "stops (w\<lparr>pw_queue := q\<rparr>) = stops w" "stops (w\<lparr>pw_sent := l\<rparr>) = stops w"
  "stops (w\<lparr>pw_accepting := b\<rparr>) = stops w" "stops (w\<lparr>pw_stopping := b\<rparr>) = stops w"
  "stops (w\<lparr>pw_stop_results := sr\<rparr>) = stops w" "stops (w\<lparr>pw_last_error := c\<rparr>) = stops w"
  "stops (w\<lparr>pw_aborted := ab\<rparr>) = stops w" "stops (create_slot pid w) = stops w" "stops (enqueue p w) = stops w"
  "stops (queue_drain w) = stops w"
  by (rule stops_cong, simp add: create_slot_def enqueue_def queue_drain_def)+

lemma stops_await [simp]:
  "stops (await_termination i t w) \<longleftrightarrow> stops w \<or> t = Stop_slot \<or> (\<exists>r. t = Stop_active r)"
  by (auto simp: stops_def await_termination_def Let_def)

text \<open>The parts of the invariant that hold within a step, too.\<close>

definition frame_ok :: "pool_world \<Rightarrow> bool" where
  "frame_ok w \<longleftrightarrow> requests_ok w \<and> sent_ok w \<and> slots_ok w \<and> waits_ok w"

definition pool_ok :: "pool_world \<Rightarrow> bool" where
  "pool_ok w \<longleftrightarrow> frame_ok w \<and> active_ok w \<and> quiet w \<and> awaited w \<and> bounded w"

section \<open>The parts of a step keep it\<close>

lemma is_active_None [simp]: "pw_active w = None \<Longrightarrow> \<not> is_active r w"
  by (simp add: is_active_def)

lemma is_active_Some: "is_active r w \<longleftrightarrow> (\<exists>a. pw_active w = Some a \<and> am_place a = r)"
  by (auto simp: is_active_def split: option.splits)

lemma active_not_queued: "requests_ok w \<Longrightarrow> is_active r w \<Longrightarrow> r \<notin> set (pw_queue w) \<and> r < length (pw_requests w)"
  by (auto simp: requests_ok_def is_active_Some)

lemma requests_settle_active: "requests_ok w \<Longrightarrow> requests_ok (settle_active r out w)"
  using active_not_queued [of w r]
  by (auto simp: requests_ok_def open_request_def is_active_Some nth_list_update)

lemma frame_settle_active: "frame_ok w \<Longrightarrow> frame_ok (settle_active r out w)"
  using requests_settle_active [of w r out]
  by (auto simp: frame_ok_def sent_ok_def slots_ok_def waits_ok_def waiting_ok_def slot_at_def split: if_splits)

lemma active_settle_active: "active_ok w \<Longrightarrow> active_ok (settle_active r out w)"
  by (auto simp: active_ok_def slot_at_def split: if_splits)

lemma sorted_less_distinct: "sorted_wrt (<) (xs :: nat list) \<Longrightarrow> distinct xs"
  by (induction xs) auto

lemma requests_reject_queue:
  assumes "requests_ok w"
  shows "requests_ok (reject_queue e w)"
proof -
  have d: "distinct (pw_queue w)" "set (pw_queue w) \<subseteq> {..< length (pw_outcomes w)}"
    using assms by (auto simp: requests_ok_def intro: sorted_less_distinct)
  have "pw_outcomes (reject_queue e w) ! r =
      (if r \<in> set (pw_queue w) then pw_outcomes w ! r @ [Inl e] else pw_outcomes w ! r)" for r
    unfolding reject_queue_def using d by (subst reject_all_outcomes) simp_all
  then show ?thesis
    using assms active_not_queued [OF assms] by (auto simp: requests_ok_def open_request_def is_active_def split: option.splits)
qed

lemma frame_reject_queue: "frame_ok w \<Longrightarrow> frame_ok (reject_queue e w)"
  using requests_reject_queue [of w e]
  by (auto simp: frame_ok_def sent_ok_def slots_ok_def waits_ok_def waiting_ok_def slot_at_def split: if_splits)

lemma active_reject_queue: "active_ok w \<Longrightarrow> active_ok (reject_queue e w)"
  by (auto simp: active_ok_def slot_at_def split: if_splits)

lemma frame_block:
  "frame_ok w \<Longrightarrow> i < length (pw_slots w) \<Longrightarrow> \<not> sk_closed (slot_at w i) \<Longrightarrow> frame_ok (block_termination i w)"
  by (auto simp: frame_ok_def requests_ok_def open_request_def is_active_def sent_ok_def slots_ok_def waits_ok_def
      waiting_ok_def slot_at_def split: if_splits option.splits)

lemma active_block: "active_ok w \<Longrightarrow> active_ok (block_termination i w)"
  by (auto simp: active_ok_def slot_at_def split: if_splits)

text \<open>A wait on slot \<open>i\<close>: its flight begins unless it has begun.\<close>

lemma await_slots:
  "j < length (pw_slots w) \<Longrightarrow> sk_closed (pw_slots (await_termination i t w) ! j) = sk_closed (pw_slots w ! j) \<and>
     sk_flight (pw_slots (await_termination i t w) ! j) =
       (if j = i \<and> \<not> sk_closed (pw_slots w ! i) \<and> sk_flight (pw_slots w ! i) = None then Some Term_sent
        else sk_flight (pw_slots w ! j))"
  by (auto simp: await_termination_def slot_at_def Let_def nth_list_update)

lemma await_waiting:
  "pw_waiting (await_termination i t w) =
     pw_waiting w @ [\<lparr>wk_slot = i, wk_now = sk_closed (pw_slots w ! i), wk_task = t\<rparr>]"
  by (simp add: await_termination_def slot_at_def Let_def)

definition task_fits :: "nat \<Rightarrow> waiting_task \<Rightarrow> pool_world \<Rightarrow> bool" where
  "task_fits i t w \<longleftrightarrow> (\<forall>r. waits_for r t \<longrightarrow> r < length (pw_requests w) \<and> r \<notin> set (pw_queue w)) \<and>
     (\<forall>a. pw_active w = Some a \<and> waits_for (am_place a) t \<longrightarrow> am_slot a = i \<and> am_terminating a)"

lemma task_fits_simps [simp]: "task_fits i Terminate_idle w" "task_fits i Stop_slot w"
  by (simp_all add: task_fits_def)

lemma frame_await:
  assumes ok: "frame_ok w" and i: "i < length (pw_slots w)" and t: "task_fits i t w"
  shows "frame_ok (await_termination i t w)"
proof -
  have r: "requests_ok (await_termination i t w)" and s: "sent_ok (await_termination i t w)"
    using ok by (auto simp: frame_ok_def requests_ok_def open_request_def is_active_def sent_ok_def split: option.splits)
  have "slots_ok (await_termination i t w)"
    using ok i by (auto simp: frame_ok_def slots_ok_def all_set_conv_all_nth await_slots)
  moreover have "waiting_ok (await_termination i t w) wk" if "wk \<in> set (pw_waiting w)" for wk
    using ok i that by (auto simp: frame_ok_def waits_ok_def waiting_ok_def slot_at_def await_slots)
  moreover have "waiting_ok (await_termination i t w) \<lparr>wk_slot = i, wk_now = sk_closed (pw_slots w ! i), wk_task = t\<rparr>"
    using i t by (auto simp: waiting_ok_def slot_at_def await_slots task_fits_def)
  ultimately show ?thesis
    using r s by (auto simp: frame_ok_def waits_ok_def await_waiting)
qed

lemma active_await:
  assumes "active_ok w"
  shows "active_ok (await_termination i t w)"
  using assms by (auto simp: active_ok_def slot_at_def await_slots await_waiting split: if_splits)

text \<open>The active request that is marked, and whose child somebody then waits for.\<close>

definition marked :: "active_mutation \<Rightarrow> active_mutation" where
  "marked a = a\<lparr>am_armed := False, am_listens := False, am_terminating := True\<rparr>"

lemma marked_simps [simp]: "am_slot (marked a) = am_slot a" "am_place (marked a) = am_place a"
  "am_request (marked a) = am_request a" "\<not> am_armed (marked a)" "\<not> am_listens (marked a)" "am_terminating (marked a)"
  by (simp_all add: marked_def)

lemma mark_active: "clear_deadline (w\<lparr>pw_active := Some (a\<lparr>am_terminating := True\<rparr>)\<rparr>) = w\<lparr>pw_active := Some (marked a)\<rparr>"
  by (simp add: clear_deadline_def marked_def)

lemma frame_mark:
  "frame_ok w \<Longrightarrow> pw_active w = Some a \<Longrightarrow> frame_ok (w\<lparr>pw_active := Some (marked a)\<rparr>)"
  by (auto simp: frame_ok_def requests_ok_def open_request_def is_active_def sent_ok_def slots_ok_def waits_ok_def
      waiting_ok_def slot_at_def split: if_splits)

definition mark_and_wait :: "active_mutation \<Rightarrow> waiting_task \<Rightarrow> pool_world \<Rightarrow> pool_world" where
  "mark_and_wait a t w = await_termination (am_slot a) t (w\<lparr>pw_active := Some (marked a)\<rparr>)"

lemma mark_and_wait_simps [simp]:
  "pw_requests (mark_and_wait a t w) = pw_requests w" "pw_outcomes (mark_and_wait a t w) = pw_outcomes w"
  "pw_queue (mark_and_wait a t w) = pw_queue w" "pw_child (mark_and_wait a t w) = pw_child w"
  "pw_blocked (mark_and_wait a t w) = pw_blocked w" "pw_active (mark_and_wait a t w) = Some (marked a)"
  "pw_accepting (mark_and_wait a t w) = pw_accepting w" "pw_state (mark_and_wait a t w) = pw_state w"
  "pw_drains (mark_and_wait a t w) = pw_drains w" "pw_aborted (mark_and_wait a t w) = pw_aborted w"
  "pw_sent (mark_and_wait a t w) = pw_sent w" "pw_identity (mark_and_wait a t w) = pw_identity w"
  "pw_max_queue (mark_and_wait a t w) = pw_max_queue w"
  "stops (mark_and_wait a t w) \<longleftrightarrow> stops w \<or> t = Stop_slot \<or> (\<exists>r. t = Stop_active r)"
  by (simp_all add: mark_and_wait_def)

lemma frame_mark_and_wait:
  assumes ok: "frame_ok w" and a: "pw_active w = Some a" and i: "am_slot a < length (pw_slots w)"
    and t: "\<And>r. waits_for r t \<Longrightarrow> r = am_place a"
  shows "frame_ok (mark_and_wait a t w)"
  unfolding mark_and_wait_def
proof (rule frame_await)
  show "frame_ok (w\<lparr>pw_active := Some (marked a)\<rparr>)" by (rule frame_mark [OF ok a])
  show "am_slot a < length (pw_slots (w\<lparr>pw_active := Some (marked a)\<rparr>))" using i by simp
  have "am_place a < length (pw_requests w) \<and> am_place a \<notin> set (pw_queue w)"
    using ok a by (auto simp: frame_ok_def requests_ok_def)
  then show "task_fits (am_slot a) t (w\<lparr>pw_active := Some (marked a)\<rparr>)"
    using t by (auto simp: task_fits_def)
qed

lemma active_mark_and_wait:
  "am_slot a < length (pw_slots w) \<Longrightarrow> waits_for (am_place a) t \<Longrightarrow> active_ok (mark_and_wait a t w)"
  by (auto simp: active_ok_def mark_and_wait_def await_waiting)

lemma terminate_active_cases:
  obtains "terminate_active r cause w = w"
  | a where "pw_active w = Some a" "am_place a = r" "\<not> am_terminating a"
      "terminate_active r cause w = mark_and_wait a (Terminate_active r cause) w"
proof (cases "\<exists>a. pw_active w = Some a \<and> am_place a = r \<and> \<not> am_terminating a")
  case True
  with that(2) show thesis by (auto simp: terminate_active_def mark_active mark_and_wait_def)
next
  case False
  with that(1) show thesis by (auto simp: terminate_active_def split: option.splits)
qed

lemma frame_terminate_active:
  assumes "frame_ok w" and "active_ok w"
  shows "frame_ok (terminate_active r cause w) \<and> active_ok (terminate_active r cause w)"
proof (cases rule: terminate_active_cases [of r cause w])
  case (2 a)
  then have "am_slot a < length (pw_slots w)" using assms(2) by (auto simp: active_ok_def)
  with 2 assms show ?thesis by (auto intro!: frame_mark_and_wait active_mark_and_wait)
qed (use assms in simp)

lemma terminate_active_simps [simp]:
  "pw_requests (terminate_active r c w) = pw_requests w" "pw_outcomes (terminate_active r c w) = pw_outcomes w"
  "pw_queue (terminate_active r c w) = pw_queue w" "pw_child (terminate_active r c w) = pw_child w"
  "pw_blocked (terminate_active r c w) = pw_blocked w"
  "pw_active (terminate_active r c w) = None \<longleftrightarrow> pw_active w = None"
  "pw_accepting (terminate_active r c w) = pw_accepting w" "pw_state (terminate_active r c w) = pw_state w"
  "pw_drains (terminate_active r c w) = pw_drains w" "pw_aborted (terminate_active r c w) = pw_aborted w"
  "pw_sent (terminate_active r c w) = pw_sent w" "pw_identity (terminate_active r c w) = pw_identity w"
  "pw_max_queue (terminate_active r c w) = pw_max_queue w" "stops (terminate_active r c w) = stops w"
  by (cases rule: terminate_active_cases [of r c w]; simp)+

text \<open>Fields that say nothing of requests, slots and waits.\<close>

lemma frame_irrelevant [simp]:
  "frame_ok (w\<lparr>pw_drains := n\<rparr>) \<longleftrightarrow> frame_ok w" "frame_ok (w\<lparr>pw_state := x\<rparr>) \<longleftrightarrow> frame_ok w"
  "frame_ok (w\<lparr>pw_accepting := b\<rparr>) \<longleftrightarrow> frame_ok w" "frame_ok (w\<lparr>pw_stopping := b\<rparr>) \<longleftrightarrow> frame_ok w"
  "frame_ok (w\<lparr>pw_aborted := l\<rparr>) \<longleftrightarrow> frame_ok w" "frame_ok (w\<lparr>pw_stop_results := p\<rparr>) \<longleftrightarrow> frame_ok w"
  "frame_ok (w\<lparr>pw_last_error := c\<rparr>) \<longleftrightarrow> frame_ok w"
  unfolding frame_ok_def requests_ok_def open_request_def is_active_def sent_ok_def slots_ok_def waits_ok_def
    waiting_ok_def slot_at_def
  by simp_all

lemma active_irrelevant [simp]:
  "active_ok (w\<lparr>pw_drains := n\<rparr>) \<longleftrightarrow> active_ok w" "active_ok (w\<lparr>pw_state := x\<rparr>) \<longleftrightarrow> active_ok w"
  "active_ok (w\<lparr>pw_accepting := b\<rparr>) \<longleftrightarrow> active_ok w" "active_ok (w\<lparr>pw_stopping := b\<rparr>) \<longleftrightarrow> active_ok w"
  "active_ok (w\<lparr>pw_aborted := l\<rparr>) \<longleftrightarrow> active_ok w" "active_ok (w\<lparr>pw_stop_results := p\<rparr>) \<longleftrightarrow> active_ok w"
  "active_ok (w\<lparr>pw_last_error := c\<rparr>) \<longleftrightarrow> active_ok w"
  unfolding active_ok_def slot_at_def by simp_all

section \<open>The queue\<close>

lemma frame_okD:
  assumes "frame_ok w"
  shows "requests_ok w" and "sent_ok w" and "slots_ok w" and "waits_ok w"
  using assms by (simp_all add: frame_ok_def)

definition pop_queue :: "pool_world \<Rightarrow> pool_world" where
  "pop_queue w = w\<lparr>pw_queue := tl (pw_queue w)\<rparr>"

lemma pop_queue_simps [simp]:
  "pw_requests (pop_queue w) = pw_requests w" "pw_outcomes (pop_queue w) = pw_outcomes w"
  "pw_queue (pop_queue w) = tl (pw_queue w)" "pw_child (pop_queue w) = pw_child w"
  "pw_blocked (pop_queue w) = pw_blocked w" "pw_active (pop_queue w) = pw_active w"
  "pw_accepting (pop_queue w) = pw_accepting w" "pw_state (pop_queue w) = pw_state w"
  "pw_drains (pop_queue w) = pw_drains w" "pw_aborted (pop_queue w) = pw_aborted w"
  "pw_sent (pop_queue w) = pw_sent w" "pw_identity (pop_queue w) = pw_identity w"
  "pw_slots (pop_queue w) = pw_slots w" "pw_waiting (pop_queue w) = pw_waiting w"
  "pw_max_queue (pop_queue w) = pw_max_queue w" "stops (pop_queue w) = stops w"
  by (simp_all add: pop_queue_def)

text \<open>The head of the queue is answered.\<close>

lemma frame_settle_head:
  assumes ok: "frame_ok w" and q: "pw_queue w = r # rs"
  shows "frame_ok (settle r out (pop_queue w))"
proof -
  have req: "requests_ok w" by (rule frame_okD(1) [OF ok])
  have r: "r < length (pw_outcomes w)" "r \<notin> set rs" "pw_outcomes w ! r = []" "\<not> is_active r w"
    using req q active_not_queued [OF req, of r] by (auto simp: requests_ok_def open_request_def)
  have "open_request (settle r out (pop_queue w)) x \<longleftrightarrow> open_request w x \<and> x \<noteq> r" for x
    using q r by (auto simp: open_request_def is_active_def)
  then have "requests_ok (settle r out (pop_queue w))"
    using req q r by (simp add: requests_ok_def nth_list_update)
  moreover have "sent_ok (settle r out (pop_queue w))"
    using frame_okD(2) [OF ok] q by (fastforce simp: sent_ok_def)
  moreover have "waits_ok (settle r out (pop_queue w))"
    using frame_okD(4) [OF ok] q by (auto simp: waits_ok_def waiting_ok_def slot_at_def split: if_splits)
  ultimately show ?thesis using frame_okD(3) [OF ok] by (simp add: frame_ok_def slots_ok_def)
qed

text \<open>The head of the queue becomes active.\<close>

definition activate :: "nat \<Rightarrow> nat \<Rightarrow> pool_world \<Rightarrow> pool_world" where
  "activate i r w = w\<lparr>pw_active := Some \<lparr>am_slot = i, am_place = r,
      am_request = request_of (pw_identity w) (pw_requests w ! r), am_armed = True,
      am_listens = (pm_signal (pw_requests w ! r) \<noteq> None), am_terminating = False\<rparr>, pw_state := Pool_running\<rparr>"

lemma send_request_activate:
  "send_request di i r w =
     (if di_send_throws di then terminate_active r send_failed (activate i r w)
      else (activate i r w)\<lparr>pw_sent := pw_sent w @ [(i, r, request_of (pw_identity w) (pw_requests w ! r))]\<rparr>)"
  by (simp add: send_request_def activate_def Let_def)

lemma activate_simps [simp]:
  "pw_requests (activate i r w) = pw_requests w" "pw_outcomes (activate i r w) = pw_outcomes w"
  "pw_queue (activate i r w) = pw_queue w" "pw_child (activate i r w) = pw_child w"
  "pw_blocked (activate i r w) = pw_blocked w" "pw_slots (activate i r w) = pw_slots w"
  "pw_accepting (activate i r w) = pw_accepting w" "pw_state (activate i r w) = Pool_running"
  "pw_drains (activate i r w) = pw_drains w" "pw_aborted (activate i r w) = pw_aborted w"
  "pw_sent (activate i r w) = pw_sent w" "pw_identity (activate i r w) = pw_identity w"
  "pw_waiting (activate i r w) = pw_waiting w" "pw_max_queue (activate i r w) = pw_max_queue w"
  "is_active r' (activate i r w) = (r' = r)" "stops (activate i r w) = stops w"
  by (auto simp: activate_def is_active_def)

lemma activate_active: "pw_active (activate i r w) = Some \<lparr>am_slot = i, am_place = r,
      am_request = request_of (pw_identity w) (pw_requests w ! r), am_armed = True,
      am_listens = (pm_signal (pw_requests w ! r) \<noteq> None), am_terminating = False\<rparr>"
  by (simp add: activate_def)

lemma frame_activate:
  assumes ok: "frame_ok w" and q: "pw_queue w = r # rs" and a: "pw_active w = None"
  shows "frame_ok (activate i r (pop_queue w))"
proof -
  have "requests_ok (activate i r (pop_queue w))"
    using frame_okD(1) [OF ok] q a by (auto simp: requests_ok_def open_request_def activate_active)
  moreover have "waits_ok (activate i r (pop_queue w))"
    using frame_okD(4) [OF ok] q by (auto simp: waits_ok_def waiting_ok_def slot_at_def activate_active split: if_splits)
  ultimately show ?thesis using ok q by (auto simp: frame_ok_def sent_ok_def slots_ok_def)
qed

lemma frame_send_request:
  assumes ok: "frame_ok w" and q: "pw_queue w = r # rs" and a: "pw_active w = None"
    and i: "i < length (pw_slots w)" "\<not> sk_closed (slot_at w i)"
  shows "frame_ok (send_request di i r (pop_queue w)) \<and> active_ok (send_request di i r (pop_queue w))"
proof -
  let ?w = "activate i r (pop_queue w)"
  have f: "frame_ok ?w" by (rule frame_activate [OF ok q a])
  have act: "active_ok ?w" using i by (simp add: active_ok_def activate_active slot_at_def)
  have sent: "sent_ok (?w\<lparr>pw_sent := pw_sent w @ [(i, r, request_of (pw_identity w) (pw_requests w ! r))]\<rparr>)"
    using frame_okD(1,2) [OF ok] q i by (auto simp: sent_ok_def sorted_wrt_append requests_ok_def)
  have other: "frame_ok (?w\<lparr>pw_sent := s\<rparr>) \<longleftrightarrow> frame_ok ?w" if "sent_ok (?w\<lparr>pw_sent := s\<rparr>)" "sent_ok ?w" for s
    using that by (simp add: frame_ok_def requests_ok_def open_request_def is_active_def slots_ok_def waits_ok_def
        waiting_ok_def slot_at_def)
  have act': "active_ok (?w\<lparr>pw_sent := s\<rparr>)" for s using act by (auto simp: active_ok_def slot_at_def split: if_splits)
  show ?thesis
    using frame_terminate_active [OF f act] f sent other [OF sent frame_okD(2) [OF f]] act'
    by (auto simp: send_request_activate)
qed

lemma frame_create_slot:
  assumes ok: "frame_ok w" and c: "open_child w = None"
  shows "frame_ok (create_slot pid w)"
proof -
  have closed: "sk_closed (pw_slots w ! i)" if "i < length (pw_slots w)" for i
    using frame_okD(3) [OF ok] c that by (auto simp: slots_ok_def open_child_def slot_at_def split: option.splits if_splits)
  have none: "pw_child w = None" "pw_blocked w = None"
    using frame_okD(3) [OF ok] c by (auto simp: slots_ok_def open_child_def slot_at_def split: option.splits if_splits)
  have "slots_ok (create_slot pid w)"
    using frame_okD(3) [OF ok] closed none by (auto simp: slots_ok_def create_slot_def nth_append less_Suc_eq)
  with ok show ?thesis
    by (auto simp: frame_ok_def requests_ok_def open_request_def is_active_def sent_ok_def waits_ok_def waiting_ok_def
        slot_at_def create_slot_def nth_append split: if_splits option.splits)
qed

lemma frame_enqueue:
  assumes ok: "frame_ok w"
  shows "frame_ok (enqueue p w)"
proof -
  have "requests_ok (enqueue p w)"
    using frame_okD(1) [OF ok]
    by (auto simp: requests_ok_def open_request_def is_active_def enqueue_def nth_append sorted_wrt_append less_Suc_eq
        split: option.splits)
  moreover have "sent_ok (enqueue p w)"
    using frame_okD(2) [OF ok] by (fastforce simp: sent_ok_def enqueue_def nth_append)
  moreover have "waits_ok (enqueue p w)"
    using frame_okD(4) [OF ok] by (fastforce simp: waits_ok_def waiting_ok_def enqueue_def slot_at_def)
  ultimately show ?thesis using ok by (simp add: frame_ok_def slots_ok_def enqueue_def)
qed

section \<open>Draining and calls\<close>

lemma queue_drain_keeps [simp]: "frame_ok (queue_drain w) \<longleftrightarrow> frame_ok w" "active_ok (queue_drain w) \<longleftrightarrow> active_ok w"
  "quiet (queue_drain w) \<longleftrightarrow> quiet w" "awaited (queue_drain w)" "bounded (queue_drain w) \<longleftrightarrow> bounded w"
  by (simp_all add: queue_drain_def frame_ok_def requests_ok_def open_request_def is_active_def sent_ok_def slots_ok_def
      waits_ok_def waiting_ok_def slot_at_def active_ok_def quiet_def awaited_def bounded_def)

lemma quietD:
  "quiet w \<Longrightarrow> pw_queue w \<noteq> [] \<Longrightarrow> pw_blocked w = None \<and> pw_accepting w \<and> pw_state w \<noteq> Pool_stopping \<and>
     pw_state w \<noteq> Pool_has_stopped \<and> \<not> stops w"
  by (auto simp: quiet_def)

lemma send_request_simps [simp]:
  "pw_queue (send_request di i r w) = pw_queue w" "pw_blocked (send_request di i r w) = pw_blocked w"
  "pw_accepting (send_request di i r w) = pw_accepting w" "pw_state (send_request di i r w) = Pool_running"
  "pw_active (send_request di i r w) \<noteq> None" "pw_max_queue (send_request di i r w) = pw_max_queue w"
  "pw_drains (send_request di i r w) = pw_drains w" "stops (send_request di i r w) = stops w"
  by (simp_all add: send_request_activate activate_active del: not_None_eq)

lemma create_slot_simps [simp]:
  "pw_queue (create_slot pid w) = pw_queue w" "pw_active (create_slot pid w) = pw_active w"
  "pw_blocked (create_slot pid w) = pw_blocked w" "pw_accepting (create_slot pid w) = pw_accepting w"
  "pw_max_queue (create_slot pid w) = pw_max_queue w" "pw_drains (create_slot pid w) = pw_drains w"
  by (simp_all add: create_slot_def)

lemma create_slot_pop: "create_slot pid (pop_queue w) = pop_queue (create_slot pid w)"
  by (simp add: create_slot_def pop_queue_def)

text \<open>What \<open>drain\<close> does, in its cases.\<close>

lemma drain_cases:
  assumes "slots_ok w" and "quiet w"
  obtains "drain di w = w" "drain_blocked w"
  | "drain di w = w\<lparr>pw_state := Pool_idle\<rparr>" "pw_queue w = []" "\<not> drain_blocked w"
  | r rs e where "pw_queue w = r # rs" "pw_active w = None"
      "drain di w = queue_drain (settle r (Inl e) (pop_queue w))"
  | r rs i where "pw_queue w = r # rs" "pw_active w = None" "pw_child w = Some i"
      "drain di w = send_request di i r (pop_queue w)"
  | r rs pid where "pw_queue w = r # rs" "pw_active w = None" "open_child w = None"
      "drain di w = send_request di (length (pw_slots w)) r (pop_queue (create_slot pid w))"
proof (cases "drain_blocked w")
  case True
  with that(1) show thesis by (simp add: drain_def)
next
  case False
  then have none: "pw_active w = None" by (simp add: drain_blocked_def)
  show thesis
  proof (cases "pw_queue w")
    case Nil
    with False that(2) show thesis by (simp add: drain_def)
  next
    case (Cons r rs)
    let ?p = "w\<lparr>pw_queue := rs\<rparr>"
    have p: "?p = pop_queue w" using Cons by (simp add: pop_queue_def)
    have child: "open_child ?p = open_child w" by (simp add: open_child_def slot_at_def split: option.split)
    show thesis
    proof (cases "signal_aborted ?p (pw_requests w ! r)")
      case True
      then show thesis using that(3) [OF Cons none] False Cons p by (simp add: drain_def Let_def)
    next
      case no: False
      show thesis
      proof (cases "open_child w")
        case (Some i)
        then have "pw_child w = Some i" by (auto simp: open_child_def split: option.splits if_splits)
        with that(4) [OF Cons none] Some no False Cons p child show thesis by (simp add: drain_def Let_def)
      next
        case None
        show thesis
        proof (cases "di_spawn di")
          case None
          with that(3) [OF Cons none] no False Cons p child \<open>open_child w = None\<close> show thesis
            by (simp add: drain_def Let_def)
        next
          case (Some pid)
          with that(5) [OF Cons none \<open>open_child w = None\<close>] no False Cons p child \<open>open_child w = None\<close>
          show thesis by (simp add: drain_def Let_def create_slot_pop)
        qed
      qed
    qed
  qed
qed

lemma drain_ok:
  assumes ok: "frame_ok w" "active_ok w" "quiet w"
  shows "frame_ok (drain di w) \<and> active_ok (drain di w) \<and> quiet (drain di w) \<and> awaited (drain di w)"
proof (cases rule: drain_cases [OF frame_okD(3) [OF ok(1)] ok(3), of di])
  case 1
  then have "pw_queue w = [] \<or> pw_active w \<noteq> None" using ok(3) quietD by (auto simp: drain_blocked_def)
  with 1 ok show ?thesis by (auto simp: awaited_def)
next
  case 2
  with ok show ?thesis
    by (auto simp: frame_ok_def requests_ok_def open_request_def is_active_def sent_ok_def slots_ok_def waits_ok_def
        waiting_ok_def slot_at_def active_ok_def quiet_def awaited_def split: if_splits option.splits)
next
  case (3 r rs e)
  have "active_ok (settle r (Inl e) (pop_queue w))" using 3(2) by (simp add: active_ok_def)
  moreover have "quiet (settle r (Inl e) (pop_queue w))" using ok(3) quietD [OF ok(3)] 3(1) by (simp add: quiet_def)
  ultimately show ?thesis using frame_settle_head [OF ok(1) 3(1)] 3(3) by simp
next
  case (4 r rs i)
  then have i: "i < length (pw_slots w)" "\<not> sk_closed (slot_at w i)"
    using frame_okD(3) [OF ok(1)] by (auto simp: slots_ok_def slot_at_def)
  have "quiet (send_request di i r (pop_queue w))" using quietD [OF ok(3)] 4(1) by (simp add: quiet_def)
  then show ?thesis using frame_send_request [OF ok(1) 4(1,2) i, of di] 4(4) by (simp add: awaited_def)
next
  case (5 r rs pid)
  let ?c = "create_slot pid w"
  have i: "length (pw_slots w) < length (pw_slots ?c)" "\<not> sk_closed (slot_at ?c (length (pw_slots w)))"
    by (simp_all add: create_slot_def slot_at_def)
  have "quiet (send_request di (length (pw_slots w)) r (pop_queue ?c))"
    using quietD [OF ok(3)] 5(1) by (simp add: quiet_def)
  then show ?thesis
    using frame_send_request [OF frame_create_slot [OF ok(1) 5(3)] _ _ i, where di = di and r = r and rs = rs] 5
    by (simp add: awaited_def)
qed

lemma drain_queue:
  assumes "frame_ok w" and "quiet w"
  shows "pw_queue (drain di w) = (if drain_blocked w then pw_queue w else tl (pw_queue w))"
    and "pw_max_queue (drain di w) = pw_max_queue w"
proof -
  show "pw_queue (drain di w) = (if drain_blocked w then pw_queue w else tl (pw_queue w))"
    by (cases rule: drain_cases [OF frame_okD(3) [OF assms(1)] assms(2), of di])
      (use quietD [OF assms(2)] in \<open>auto simp: queue_drain_def drain_blocked_def\<close>)
  show "pw_max_queue (drain di w) = pw_max_queue w"
    by (cases rule: drain_cases [OF frame_okD(3) [OF assms(1)] assms(2), of di]) (auto simp: queue_drain_def)
qed

lemma drain_bounded: "frame_ok w \<Longrightarrow> quiet w \<Longrightarrow> bounded w \<Longrightarrow> bounded (drain di w)"
  by (auto simp: bounded_def drain_queue)

lemma pool_okD:
  assumes "pool_ok w"
  shows "frame_ok w" and "active_ok w" and "quiet w" and "awaited w" and "bounded w"
  using assms by (simp_all add: pool_ok_def)

lemma execute_keeps:
  assumes ok: "pool_ok w"
  shows "pool_ok (snd (execute_mutation di role plan task opts w))"
proof (cases "execute_refusal opts w")
  case (Some e)
  with ok show ?thesis by (simp add: execute_mutation_def)
next
  case None
  show ?thesis
  proof (cases "pending_of (pw_timeout w) role plan task opts")
    case (Inl e)
    with ok None show ?thesis by (simp add: execute_mutation_def)
  next
    case (Inr p)
    show ?thesis
    proof (cases "queue_full w")
      case True
      with ok None Inr show ?thesis by (simp add: execute_mutation_def)
    next
      case False
      let ?e = "enqueue p w"
      have f: "frame_ok ?e" by (rule frame_enqueue [OF pool_okD(1) [OF ok]])
      have open': "pw_accepting w" "pw_blocked w = None" "pw_state w \<noteq> Pool_stopping" "pw_state w \<noteq> Pool_has_stopped"
        using None by (auto simp: execute_refusal_def split: if_splits option.splits)
      have a: "active_ok ?e" using pool_okD(2) [OF ok] by (auto simp: active_ok_def enqueue_def slot_at_def split: if_splits)
      have "\<not> stops w" using pool_okD(3) [OF ok] open' by (auto simp: quiet_def)
      then have q: "quiet ?e" using open' by (simp add: quiet_def) (simp add: enqueue_def)
      have e: "pw_queue ?e = pw_queue w @ [length (pw_requests w)]" "pw_max_queue ?e = pw_max_queue w"
        "drain_blocked ?e \<longleftrightarrow> pw_active w \<noteq> None"
        using open' by (simp_all add: enqueue_def drain_blocked_def)
      have "bounded (drain di ?e)"
        using pool_okD(5) [OF ok] False open' by (auto simp: bounded_def drain_queue [OF f q] e queue_full_def)
      with drain_ok [OF f a q] None Inr False show ?thesis by (simp add: execute_mutation_def pool_ok_def)
    qed
  qed
qed

lemma call_keeps: "pool_ok w \<Longrightarrow> pool_ok (snd (call_method di role m opts w))"
  by (auto simp: call_method_def execute_keeps split: sum.splits)

lemma drain_task_keeps:
  assumes "pool_ok w"
  shows "pool_ok (drain di (w\<lparr>pw_drains := pw_drains w - 1\<rparr>))"
proof -
  let ?w = "w\<lparr>pw_drains := pw_drains w - 1\<rparr>"
  have "frame_ok ?w" "active_ok ?w" "quiet ?w" "bounded ?w"
    using pool_okD [OF assms] by (simp_all add: quiet_def bounded_def)
  with drain_ok drain_bounded show ?thesis by (simp add: pool_ok_def)
qed

section \<open>Answers and terminations\<close>

lemma settle_active_keeps:
  assumes "pool_ok w"
  shows "pool_ok (settle_active r out w)"
  using frame_settle_active [OF pool_okD(1) [OF assms]] active_settle_active [OF pool_okD(2) [OF assms]]
    pool_okD(3,4,5) [OF assms]
  by (auto simp: pool_ok_def quiet_def awaited_def bounded_def)

lemma terminate_active_keeps:
  assumes "pool_ok w"
  shows "pool_ok (terminate_active r cause w)"
  using frame_terminate_active [OF pool_okD(1,2) [OF assms]] pool_okD(3,4,5) [OF assms]
  by (auto simp: pool_ok_def quiet_def awaited_def bounded_def)

lemma await_idle_keeps:
  assumes "pool_ok w" and "i < length (pw_slots w)"
  shows "pool_ok (await_termination i Terminate_idle w)"
  using frame_await [OF pool_okD(1) [OF assms(1)] assms(2)] active_await [OF pool_okD(2) [OF assms(1)]]
    pool_okD(3,4,5) [OF assms(1)]
  by (auto simp: pool_ok_def quiet_def awaited_def bounded_def)

lemma handle_message_keeps: "pool_ok w \<Longrightarrow> pool_ok (handle_message i p w)"
  by (auto simp: handle_message_def Let_def settle_active_keeps terminate_active_keeps split: option.split sum.split)

lemma child_error_keeps:
  "pool_ok w \<Longrightarrow> i < length (pw_slots w) \<Longrightarrow> pool_ok (handle_child_error i w)"
  by (auto simp: handle_child_error_def terminate_active_keeps await_idle_keeps split: option.split)

text \<open>A change of a slot that neither closes it nor touches its flight.\<close>

lemma upd_slot_same:
  assumes f: "\<And>s. sk_closed (f s) = sk_closed s" "\<And>s. sk_flight (f s) = sk_flight s"
  shows "sk_closed ((pw_slots w)[i := f (pw_slots w ! i)] ! j) = sk_closed (pw_slots w ! j)"
    and "sk_flight ((pw_slots w)[i := f (pw_slots w ! i)] ! j) = sk_flight (pw_slots w ! j)"
proof -
  have "(pw_slots w)[i := f (pw_slots w ! i)] ! j = (if i = j \<and> i < length (pw_slots w) then f (pw_slots w ! j) else pw_slots w ! j)"
    by (cases "i < length (pw_slots w)") (simp_all add: nth_list_update list_update_beyond)
  then show "sk_closed ((pw_slots w)[i := f (pw_slots w ! i)] ! j) = sk_closed (pw_slots w ! j)"
    and "sk_flight ((pw_slots w)[i := f (pw_slots w ! i)] ! j) = sk_flight (pw_slots w ! j)"
    by (simp_all add: f)
qed

lemma upd_slot_keeps:
  assumes ok: "pool_ok w" and f: "\<And>s. sk_closed (f s) = sk_closed s" "\<And>s. sk_flight (f s) = sk_flight s"
  shows "pool_ok (upd_slot i f w)"
proof -
  note same = upd_slot_same [OF f, of w i]
  note ok' = pool_okD [OF ok] frame_okD [OF pool_okD(1) [OF ok]]
  have "requests_ok (upd_slot i f w)"
    using ok'(6) unfolding requests_ok_def open_request_def is_active_def by simp
  moreover have "sent_ok (upd_slot i f w)" using ok'(7) unfolding sent_ok_def by simp
  moreover have "slots_ok (upd_slot i f w)"
    using ok'(8) unfolding slots_ok_def all_set_conv_all_nth by (simp add: same)
  moreover have "waits_ok (upd_slot i f w)"
    using ok'(9) unfolding waits_ok_def waiting_ok_def slot_at_def by (simp add: same)
  moreover have "active_ok (upd_slot i f w)" using ok'(2) unfolding active_ok_def slot_at_def by (simp add: same)
  ultimately show ?thesis using ok'(3,4,5) by (simp add: pool_ok_def frame_ok_def quiet_def awaited_def bounded_def)
qed

section \<open>Aborted signals and closed children\<close>

lemma frame_reject_some:
  assumes ok: "frame_ok w"
  shows "frame_ok (reject_all e (filter P (pw_queue w)) (w\<lparr>pw_queue := filter (\<lambda>r. \<not> P r) (pw_queue w)\<rparr>))" (is "frame_ok ?w")
proof -
  have req: "requests_ok w" by (rule frame_okD(1) [OF ok])
  have "distinct (pw_queue w)" using req by (simp add: requests_ok_def sorted_less_distinct)
  then have d: "distinct (filter P (pw_queue w))" "set (filter P (pw_queue w)) \<subseteq> {..< length (pw_outcomes w)}"
    using req by (auto simp: requests_ok_def)
  have out: "pw_outcomes ?w ! r =
      (if r \<in> set (pw_queue w) \<and> P r then pw_outcomes w ! r @ [Inl e] else pw_outcomes w ! r)" for r
    using d by (subst reject_all_outcomes) simp_all
  have op: "open_request ?w r \<longleftrightarrow> open_request w r \<and> \<not> (r \<in> set (pw_queue w) \<and> P r)" for r
    using active_not_queued [OF req, of r] by (auto simp: open_request_def is_active_def)
  have "requests_ok ?w"
    using req unfolding requests_ok_def by (simp add: out op sorted_wrt_filter) (auto simp: open_request_def)
  moreover have "sent_ok ?w" using frame_okD(2) [OF ok] by (fastforce simp: sent_ok_def)
  moreover have "waits_ok ?w"
    using frame_okD(4) [OF ok] unfolding waits_ok_def waiting_ok_def slot_at_def by auto
  ultimately show ?thesis using frame_okD(3) [OF ok] by (simp add: frame_ok_def slots_ok_def)
qed

lemma reject_some_keeps:
  assumes ok: "pool_ok w"
  shows "pool_ok (reject_all e (filter P (pw_queue w)) (w\<lparr>pw_queue := filter (\<lambda>r. \<not> P r) (pw_queue w)\<rparr>))"
proof -
  have "int (length (filter (\<lambda>r. \<not> P r) (pw_queue w))) \<le> int (length (pw_queue w))" by simp
  then have "int (length (filter (\<lambda>r. \<not> P r) (pw_queue w))) \<le> pw_max_queue w"
    using pool_okD(5) [OF ok] unfolding bounded_def by linarith
  moreover have "active_ok (reject_all e (filter P (pw_queue w)) (w\<lparr>pw_queue := filter (\<lambda>r. \<not> P r) (pw_queue w)\<rparr>))"
    using pool_okD(2) [OF ok] by (auto simp: active_ok_def slot_at_def split: if_splits)
  ultimately show ?thesis
    using frame_reject_some [OF pool_okD(1) [OF ok], of e P] pool_okD(3,4,5) [OF ok]
    by (auto simp: pool_ok_def quiet_def awaited_def bounded_def)
qed

lemma abort_keeps:
  assumes "pool_ok w"
  shows "pool_ok (abort_signal s w)"
proof -
  have a: "pool_ok (w\<lparr>pw_aborted := l\<rparr>)" for l using assms by (simp add: pool_ok_def quiet_def awaited_def bounded_def)
  show ?thesis
    unfolding abort_signal_def Let_def
    using assms reject_some_keeps [OF a] terminate_active_keeps [OF reject_some_keeps [OF a]]
    by (auto split: option.split)
qed

text \<open>The close of a child, before its active request is answered.\<close>

definition closing :: "nat \<Rightarrow> pool_world \<Rightarrow> pool_world" where
  "closing i w = (upd_slot i (\<lambda>s. s\<lparr>sk_closed := True\<rparr>) w)\<lparr>pw_child := None, pw_blocked := None\<rparr>"

lemma closing_simps [simp]:
  "pw_requests (closing i w) = pw_requests w" "pw_outcomes (closing i w) = pw_outcomes w"
  "pw_queue (closing i w) = pw_queue w" "pw_child (closing i w) = None" "pw_blocked (closing i w) = None"
  "pw_active (closing i w) = pw_active w" "pw_accepting (closing i w) = pw_accepting w"
  "pw_state (closing i w) = pw_state w" "pw_drains (closing i w) = pw_drains w"
  "pw_sent (closing i w) = pw_sent w" "pw_identity (closing i w) = pw_identity w"
  "pw_max_queue (closing i w) = pw_max_queue w" "pw_waiting (closing i w) = pw_waiting w" "stops (closing i w) = stops w"
  "is_active r (closing i w) = is_active r w"
  by (simp_all add: closing_def is_active_def stops_def)

lemma closing_slots:
  "pw_slots (closing i w) = (pw_slots w)[i := (pw_slots w ! i)\<lparr>sk_closed := True\<rparr>]"
  by (simp add: closing_def)

lemma frame_closing:
  assumes ok: "frame_ok w" and i: "i < length (pw_slots w)" "\<not> sk_closed (slot_at w i)" and m: "\<not> microtasks w"
  shows "frame_ok (closing i w)"
proof -
  have ch: "pw_child w = Some i" using frame_okD(3) [OF ok] i by (simp add: slots_ok_def slot_at_def)
  have s: "sk_closed (pw_slots (closing i w) ! j) \<longleftrightarrow> j = i \<or> sk_closed (pw_slots w ! j)"
    "sk_flight (pw_slots (closing i w) ! j) = sk_flight (pw_slots w ! j)" if "j < length (pw_slots w)" for j
    using i(1) that by (simp_all add: closing_slots nth_list_update)
  have len: "length (pw_slots (closing i w)) = length (pw_slots w)" by (simp add: closing_slots)
  have "slots_ok (closing i w)"
    using frame_okD(3) [OF ok] i ch unfolding slots_ok_def all_set_conv_all_nth len by (auto simp: s)
  moreover have "waiting_ok (closing i w) wk" if "wk \<in> set (pw_waiting w)" for wk
  proof -
    have "wait_answer w wk = None" using m that by (auto simp: microtasks_def list_ex_iff)
    moreover have "waiting_ok w wk" using frame_okD(4) [OF ok] that by (simp add: waits_ok_def)
    ultimately show ?thesis
      by (auto simp: waiting_ok_def wait_answer_def slot_at_def s len split: if_splits option.splits)
  qed
  moreover have "requests_ok (closing i w)"
    using frame_okD(1) [OF ok] unfolding requests_ok_def open_request_def by simp
  moreover have "sent_ok (closing i w)" using frame_okD(2) [OF ok] unfolding sent_ok_def len by simp
  ultimately show ?thesis by (simp add: frame_ok_def waits_ok_def)
qed

lemma handle_child_close_cases:
  assumes "slots_ok w" and "i < length (pw_slots w)" and "\<not> sk_closed (slot_at w i)"
  obtains m where "handle_child_close i code signal w =
    (let w3 = close_answer (Storage_error Worker_failed m) i (closing i w)
     in if pw_accepting w3 \<and> pw_blocked w3 = None \<and> pw_active w3 = None then schedule_drain w3 else w3)"
proof -
  have "pw_child w = Some i" "pw_blocked w = None \<or> pw_blocked w = Some i"
    using assms by (auto simp: slots_ok_def slot_at_def) (metis not_None_eq option.inject)
  then have cl: "(upd_slot i (\<lambda>s. s\<lparr>sk_closed := True\<rparr>) w)
      \<lparr>pw_child := (if pw_child w = Some i then None else pw_child w),
       pw_blocked := (if pw_blocked w = Some i then None else pw_blocked w)\<rparr> = closing i w"
    by (auto simp: closing_def)
  have "handle_child_close i code signal w =
    (let w3 = close_answer (Storage_error Worker_failed (exit_message code signal (sk_diagnostic (slot_at (closing i w) i))))
        i (closing i w)
     in if pw_accepting w3 \<and> pw_blocked w3 = None \<and> pw_active w3 = None then schedule_drain w3 else w3)"
    unfolding handle_child_close_def Let_def by (simp only: assms(3) if_False upd_slot_simps cl)
  then show thesis by (rule that)
qed

lemma schedule_drain_keeps:
  "frame_ok w \<Longrightarrow> active_ok w \<Longrightarrow> quiet w \<Longrightarrow> bounded w \<Longrightarrow> pw_accepting w \<Longrightarrow> pool_ok (schedule_drain w)"
  by (auto simp: pool_ok_def schedule_drain_def quiet_def awaited_def bounded_def)

lemma close_keeps:
  assumes ok: "pool_ok w" and i: "i < length (pw_slots w)" "\<not> sk_closed (slot_at w i)" and idle: "\<not> microtasks w"
  shows "pool_ok (handle_child_close i code signal w)"
proof -
  obtain m where e: "handle_child_close i code signal w =
      (let w3 = close_answer (Storage_error Worker_failed m) i (closing i w)
       in if pw_accepting w3 \<and> pw_blocked w3 = None \<and> pw_active w3 = None then schedule_drain w3 else w3)"
    by (rule handle_child_close_cases [OF frame_okD(3) [OF pool_okD(1) [OF ok]] i])
  let ?c = "closing i w" and ?w = "close_answer (Storage_error Worker_failed m) i (closing i w)"
  have f: "frame_ok ?c" by (rule frame_closing [OF pool_okD(1) [OF ok] i idle])
  have ch: "pw_child w = Some i" using frame_okD(3) [OF pool_okD(1) [OF ok]] i by (simp add: slots_ok_def slot_at_def)
  have slot: "am_slot a = i" if "pw_active w = Some a" "\<not> am_terminating a" for a
    using pool_okD(1,2) [OF ok] that ch by (auto simp: active_ok_def frame_ok_def slots_ok_def slot_at_def)
  have act: "active_ok ?w"
  proof (cases "pw_active w")
    case None
    then show ?thesis by (simp add: close_answer_def active_ok_def)
  next
    case (Some a)
    show ?thesis
    proof (cases "am_terminating a")
      case True
      with Some pool_okD(2) [OF ok] show ?thesis by (auto simp: close_answer_def active_ok_def closing_slots)
    next
      case False
      with Some slot have "pw_active ?w = None" by (simp add: close_answer_def is_active_def)
      then show ?thesis by (simp add: active_ok_def)
    qed
  qed
  have fw: "frame_ok ?w" using f frame_settle_active [OF f] by (simp add: close_answer_def split: option.split)
  have q: "quiet ?w" and b: "bounded ?w"
    using pool_okD(3,5) [OF ok] by (auto simp: close_answer_def quiet_def bounded_def split: option.split)
  show ?thesis
  proof (cases "pw_accepting ?w \<and> pw_blocked ?w = None \<and> pw_active ?w = None")
    case True
    with e schedule_drain_keeps [OF fw act q b] show ?thesis by (simp add: Let_def)
  next
    case False
    have "pw_blocked ?w = None" by (simp add: close_answer_def split: option.split)
    with False q have "awaited ?w" by (auto simp: awaited_def quiet_def)
    then have "pool_ok ?w" using fw act q b by (simp add: pool_ok_def)
    then show ?thesis using False e by (simp only: Let_def if_False)
  qed
qed

text \<open>The two ways a termination goes on.\<close>

lemma flight_closed_keeps:
  assumes ok: "pool_ok w" and i: "i < length (pw_slots w)" "flight_waits (slot_at w i)" "sk_closed (slot_at w i)"
  shows "pool_ok (upd_slot i (flight_continues True) w)"
proof -
  let ?w = "upd_slot i (flight_continues True) w" and ?l = "(pw_slots w)[i := flight_continues True (pw_slots w ! i)]"
  have s: "sk_closed (?l ! j) = sk_closed (pw_slots w ! j)"
    "sk_flight (?l ! j) = (if j = i then Some (Confirmed True) else sk_flight (pw_slots w ! j))"
    if "j < length (pw_slots w)" for j
    using i that by (auto simp: nth_list_update flight_continues_def flight_waits_def slot_at_def)
  note ok' = pool_okD [OF ok] frame_okD [OF pool_okD(1) [OF ok]]
  have "slots_ok ?w" using ok'(8) i unfolding slots_ok_def all_set_conv_all_nth by (auto simp: s slot_at_def)
  moreover have "waits_ok ?w" using ok'(9) i unfolding waits_ok_def waiting_ok_def by (auto simp: s slot_at_def)
  moreover have "active_ok ?w" using ok'(2) unfolding active_ok_def by (auto simp: s slot_at_def)
  moreover have "requests_ok ?w" using ok'(6) unfolding requests_ok_def open_request_def is_active_def by simp
  moreover have "sent_ok ?w" using ok'(7) unfolding sent_ok_def by simp
  ultimately show ?thesis using ok'(3,4,5) by (simp add: pool_ok_def frame_ok_def quiet_def awaited_def bounded_def)
qed

lemma flight_timer_keeps:
  assumes ok: "pool_ok w" and i: "i < length (pw_slots w)" "flight_waits (slot_at w i)" and m: "\<not> microtasks w"
  shows "pool_ok (upd_slot i (flight_continues False) w)"
proof -
  let ?w = "upd_slot i (flight_continues False) w" and ?l = "(pw_slots w)[i := flight_continues False (pw_slots w ! i)]"
  have open': "\<not> sk_closed (pw_slots w ! i)" using m i by (auto simp: microtasks_def list_ex_iff slot_at_def)
  have s: "sk_closed (?l ! j) = sk_closed (pw_slots w ! j)"
    "sk_flight (?l ! j) \<noteq> None \<longleftrightarrow> sk_flight (pw_slots w ! j) \<noteq> None"
    "sk_flight (?l ! j) = Some (Confirmed True) \<longleftrightarrow> sk_flight (pw_slots w ! j) = Some (Confirmed True)"
    "sk_flight (?l ! j) = Some (Confirmed False) \<longrightarrow> j = i \<or> sk_flight (pw_slots w ! j) = Some (Confirmed False)"
    if "j < length (pw_slots w)" for j
    using i that by (auto simp: nth_list_update flight_continues_def flight_waits_def slot_at_def)
  note ok' = pool_okD [OF ok] frame_okD [OF pool_okD(1) [OF ok]]
  have "slots_ok ?w" using ok'(8) i unfolding slots_ok_def all_set_conv_all_nth by (auto simp: s slot_at_def)
  moreover have "waiting_ok ?w wk" if "wk \<in> set (pw_waiting w)" for wk
  proof -
    have "waiting_ok w wk" using ok'(9) that by (simp add: waits_ok_def)
    moreover from this have "wk_slot wk < length (pw_slots w)" by (simp add: waiting_ok_def)
    ultimately show ?thesis using s [of "wk_slot wk"] open' by (auto simp: waiting_ok_def slot_at_def split: if_splits)
  qed
  moreover have "active_ok ?w" using ok'(2) unfolding active_ok_def by (auto simp: s slot_at_def)
  moreover have "requests_ok ?w" using ok'(6) unfolding requests_ok_def open_request_def is_active_def by simp
  moreover have "sent_ok ?w" using ok'(7) unfolding sent_ok_def by simp
  ultimately show ?thesis
    using ok'(3,4,5) by (simp add: pool_ok_def frame_ok_def quiet_def awaited_def bounded_def waits_ok_def)
qed

section \<open>Stopping and resuming\<close>

text \<open>The stop goes on in a pool that no longer accepts.\<close>

lemma stop_throws_keeps: "pool_ok w \<Longrightarrow> pool_ok (stop_throws e w)"
  by (simp add: pool_ok_def stop_throws_def quiet_def awaited_def bounded_def)

lemma stop_finish_keeps: "pool_ok w \<Longrightarrow> \<not> pw_accepting w \<Longrightarrow> pool_ok (stop_finish w)"
  by (simp add: stop_finish_def stop_throws_keeps) (simp add: pool_ok_def quiet_def awaited_def bounded_def)

lemma await_stop_keeps:
  assumes ok: "pool_ok w" and "\<not> pw_accepting w" "i < length (pw_slots w)"
  shows "pool_ok (await_termination i Stop_slot w)"
  using frame_await [OF pool_okD(1) [OF ok] assms(3)] active_await [OF pool_okD(2) [OF ok]] pool_okD(3,4,5) [OF ok] assms(2)
  by (auto simp: pool_ok_def quiet_def awaited_def bounded_def)

lemma stop_child_keeps:
  assumes ok: "pool_ok w" and "\<not> pw_accepting w"
  shows "pool_ok (stop_child w)"
proof -
  have "i < length (pw_slots w)" if "pw_blocked w = Some i \<or> pw_child w = Some i" for i
    using frame_okD(3) [OF pool_okD(1) [OF ok]] that by (auto simp: slots_ok_def)
  with assms show ?thesis
    by (auto simp: stop_child_def stop_finish_keeps await_stop_keeps split: option.splits)
qed

lemma stop_keeps:
  assumes ok: "pool_ok w"
  shows "pool_ok (stop_pool w)"
proof -
  let ?w = "reject_queue (Storage_error Pool_stopped ''Storage mutation pool stopped.'')
    (w\<lparr>pw_stopping := True, pw_accepting := False, pw_state := Pool_stopping\<rparr>)"
  have r: "pool_ok ?w"
    using pool_okD [OF ok] by (simp add: pool_ok_def frame_reject_queue active_reject_queue quiet_def awaited_def bounded_def)
  have "pool_ok (mark_and_wait a (Stop_active (am_place a)) ?w)" if "pw_active ?w = Some a" for a
  proof -
    have "am_slot a < length (pw_slots ?w)" using pool_okD(2) [OF r] that unfolding active_ok_def by blast
    with frame_mark_and_wait [OF pool_okD(1) [OF r] that, of "Stop_active (am_place a)"]
      active_mark_and_wait [of a ?w "Stop_active (am_place a)"]
    show ?thesis using pool_okD(5) [OF ok] by (simp add: pool_ok_def quiet_def awaited_def bounded_def)
  qed
  then have "pool_ok (stop_once (w\<lparr>pw_stopping := True\<rparr>))"
    using stop_child_keeps [OF r]
    by (auto simp: stop_once_def Let_def mark_active mark_and_wait_def split: option.split)
  moreover have "pool_ok (w\<lparr>pw_stop_results := p\<rparr>)" for p
    using ok by (simp add: pool_ok_def quiet_def awaited_def bounded_def)
  ultimately show ?thesis using ok by (simp add: stop_pool_def)
qed

definition drop_wait :: "nat \<Rightarrow> pool_world \<Rightarrow> pool_world" where
  "drop_wait k w = w\<lparr>pw_waiting := take k (pw_waiting w) @ drop (Suc k) (pw_waiting w)\<rparr>"

lemma drop_wait_simps [simp]:
  "pw_requests (drop_wait k w) = pw_requests w" "pw_outcomes (drop_wait k w) = pw_outcomes w"
  "pw_queue (drop_wait k w) = pw_queue w" "pw_child (drop_wait k w) = pw_child w"
  "pw_blocked (drop_wait k w) = pw_blocked w" "pw_active (drop_wait k w) = pw_active w"
  "pw_accepting (drop_wait k w) = pw_accepting w" "pw_state (drop_wait k w) = pw_state w"
  "pw_drains (drop_wait k w) = pw_drains w" "pw_sent (drop_wait k w) = pw_sent w"
  "pw_identity (drop_wait k w) = pw_identity w" "pw_slots (drop_wait k w) = pw_slots w"
  "pw_max_queue (drop_wait k w) = pw_max_queue w"
  by (simp_all add: drop_wait_def)

lemma drop_wait_set:
  assumes "k < length xs"
  shows "set xs = insert (xs ! k) (set (take k xs @ drop (Suc k) xs))"
  by (subst id_take_nth_drop [OF assms]) simp

lemma drop_wait_waiting: "set (pw_waiting (drop_wait k w)) \<subseteq> set (pw_waiting w)"
  by (auto simp: drop_wait_def dest: in_set_takeD in_set_dropD)

lemma frame_drop_wait:
  assumes ok: "frame_ok w"
  shows "frame_ok (drop_wait k w)"
proof -
  have "waiting_ok (drop_wait k w) wk \<longleftrightarrow> waiting_ok w wk" for wk by (simp add: waiting_ok_def slot_at_def)
  then have "waits_ok (drop_wait k w)"
    using frame_okD(4) [OF ok] drop_wait_waiting [of k w] unfolding waits_ok_def by blast
  then show ?thesis
    using frame_okD [OF ok] by (simp add: frame_ok_def requests_ok_def open_request_def is_active_def sent_ok_def slots_ok_def)
qed

lemma stops_drop_wait: "stops (drop_wait k w) \<Longrightarrow> stops w"
  using drop_wait_waiting [of k w] by (auto simp: stops_def)

lemma active_drop_wait:
  assumes ok: "active_ok w" and k: "k < length (pw_waiting w)"
    and no: "\<And>a. pw_active w = Some a \<Longrightarrow> \<not> waits_for (am_place a) (wk_task (pw_waiting w ! k))"
  shows "active_ok (drop_wait k w)"
proof -
  have "\<exists>wk \<in> set (pw_waiting (drop_wait k w)). waits_for (am_place a) (wk_task wk)"
    if "pw_active w = Some a" "am_terminating a" for a
    using ok that no [OF that(1)] drop_wait_set [OF k] by (auto simp: active_ok_def drop_wait_def)
  with ok show ?thesis by (auto simp: active_ok_def slot_at_def split: if_splits)
qed

text \<open>The world in which the active request of a resumed wait has been answered.\<close>

lemma answered_ok:
  assumes ok: "pool_ok w" and k: "k < length (pw_waiting w)"
    and only: "\<And>r'. waits_for r' (wk_task (pw_waiting w ! k)) \<Longrightarrow> r' = r"
  shows "pool_ok (settle_active r out (drop_wait k w))"
proof -
  have "active_ok (settle_active r out (drop_wait k w))"
  proof (cases "is_active r w")
    case True
    then show ?thesis by (simp add: active_ok_def is_active_def)
  next
    case False
    then have "active_ok (drop_wait k w)"
      using active_drop_wait [OF pool_okD(2) [OF ok] k] only by (auto simp: is_active_Some)
    then show ?thesis by (rule active_settle_active)
  qed
  with frame_settle_active [OF frame_drop_wait [OF pool_okD(1) [OF ok]], of r out] pool_okD(3,4,5) [OF ok] stops_drop_wait [of k w]
  show ?thesis by (auto simp: pool_ok_def quiet_def awaited_def bounded_def is_active_def)
qed

text \<open>The same after a termination that is not confirmed.\<close>

lemma blocked_ok:
  assumes ok: "pool_ok w" and k: "k < length (pw_waiting w)"
    and only: "\<And>r'. waits_for r' (wk_task (pw_waiting w ! k)) \<Longrightarrow> r' = r"
    and i: "i < length (pw_slots w)" "\<not> sk_closed (slot_at w i)"
  shows "frame_ok (settle_active r out (block_termination i (drop_wait k w)))"
    and "active_ok (settle_active r out (block_termination i (drop_wait k w)))"
proof -
  have "frame_ok (block_termination i (drop_wait k w))"
    using frame_block [OF frame_drop_wait [OF pool_okD(1) [OF ok], of k], of i] i by (simp add: slot_at_def)
  then show "frame_ok (settle_active r out (block_termination i (drop_wait k w)))" by (rule frame_settle_active)
  show "active_ok (settle_active r out (block_termination i (drop_wait k w)))"
  proof (cases "is_active r w")
    case True
    then show ?thesis by (simp add: active_ok_def is_active_def)
  next
    case False
    then have "active_ok (drop_wait k w)"
      using active_drop_wait [OF pool_okD(2) [OF ok] k] only by (auto simp: is_active_Some)
    then show ?thesis by (intro active_settle_active active_block)
  qed
qed

text \<open>What an answer that does not confirm says of the slot.\<close>

lemma wait_answer_False:
  assumes "frame_ok w" and "wk \<in> set (pw_waiting w)" and "wait_answer w wk = Some False"
  shows "wk_slot wk < length (pw_slots w)" and "\<not> sk_closed (slot_at w (wk_slot wk))"
  using assms by (auto simp: frame_ok_def waits_ok_def waiting_ok_def wait_answer_def
      split: if_splits option.splits termination_flight.splits)

lemma terminated_active_keeps:
  assumes ok: "pool_ok w" and k: "k < length (pw_waiting w)" and t: "wk_task (pw_waiting w ! k) = Terminate_active r cause"
    and b: "\<not> b \<Longrightarrow> i < length (pw_slots w) \<and> \<not> sk_closed (slot_at w i)"
  shows "pool_ok (terminated_active b i r cause (drop_wait k w))"
proof (cases b)
  case True
  then show ?thesis using answered_ok [OF ok k, of r] t by (simp add: terminated_active_def)
next
  case False
  let ?w = "\<lambda>e. settle_active r (Inl e) (block_termination i (drop_wait k w))"
  have "frame_ok (?w e)" "active_ok (?w e)" for e
    using blocked_ok [OF ok k, of r i] b [OF False] t by simp_all
  then show ?thesis
    using False pool_okD(3,5) [OF ok] stops_drop_wait [of k w]
    by (auto simp: terminated_active_def Let_def pool_ok_def frame_reject_queue active_reject_queue quiet_def awaited_def
        bounded_def)
qed

lemma terminated_idle_keeps:
  assumes ok: "pool_ok w" and k: "k < length (pw_waiting w)" and t: "wk_task (pw_waiting w ! k) = Terminate_idle"
    and b: "\<not> b \<Longrightarrow> i < length (pw_slots w) \<and> \<not> sk_closed (slot_at w i)"
  shows "pool_ok (terminated_idle b i (drop_wait k w))"
proof -
  have a: "active_ok (drop_wait k w)" using active_drop_wait [OF pool_okD(2) [OF ok] k] t by simp
  have f: "frame_ok (drop_wait k w)" by (rule frame_drop_wait [OF pool_okD(1) [OF ok]])
  show ?thesis
  proof (cases b)
    case True
    then show ?thesis
      using a f pool_okD(3,4,5) [OF ok] stops_drop_wait [of k w]
      by (auto simp: terminated_idle_def pool_ok_def quiet_def awaited_def bounded_def)
  next
    case False
    have "frame_ok (block_termination i (drop_wait k w))"
      using frame_block [OF f, of i] b [OF False] by (simp add: slot_at_def)
    with False a pool_okD(3,5) [OF ok] stops_drop_wait [of k w] show ?thesis
      by (auto simp: terminated_idle_def pool_ok_def frame_reject_queue active_reject_queue active_block quiet_def
          awaited_def bounded_def)
  qed
qed

lemma stop_accepting: "quiet w \<Longrightarrow> wk \<in> set (pw_waiting w) \<Longrightarrow> wk_task wk = Stop_slot \<or> (\<exists>r. wk_task wk = Stop_active r) \<Longrightarrow>
    \<not> pw_accepting w \<and> pw_queue w = []"
  unfolding quiet_def stops_def by blast

lemma stopped_active_keeps:
  assumes ok: "pool_ok w" and k: "k < length (pw_waiting w)" and t: "wk_task (pw_waiting w ! k) = Stop_active r"
    and b: "\<not> b \<Longrightarrow> i < length (pw_slots w) \<and> \<not> sk_closed (slot_at w i)"
  shows "pool_ok (stopped_active b i r (drop_wait k w))"
proof -
  have na: "\<not> pw_accepting w" "pw_queue w = []"
    using stop_accepting [OF pool_okD(3) [OF ok] nth_mem [OF k]] t by simp_all
  show ?thesis
  proof (cases b)
    case True
    then show ?thesis
      using stop_child_keeps [OF answered_ok [OF ok k, of r]] t na by (simp add: stopped_active_def)
  next
    case False
    let ?w = "\<lambda>e. settle_active r (Inl e) (block_termination i (drop_wait k w))"
    have "frame_ok (?w e)" "active_ok (?w e)" for e
      using blocked_ok [OF ok k, of r i] b [OF False] t by simp_all
    then have "pool_ok (?w e)" for e
      using na pool_okD(5) [OF ok] by (auto simp: pool_ok_def quiet_def awaited_def bounded_def)
    with False show ?thesis by (simp add: stopped_active_def stop_throws_keeps)
  qed
qed

lemma stopped_slot_keeps:
  assumes ok: "pool_ok w" and k: "k < length (pw_waiting w)" and t: "wk_task (pw_waiting w ! k) = Stop_slot"
    and b: "\<not> b \<Longrightarrow> i < length (pw_slots w) \<and> \<not> sk_closed (slot_at w i)"
  shows "pool_ok (stopped_slot b i (drop_wait k w))"
proof -
  have na: "\<not> pw_accepting w" "pw_queue w = []"
    using stop_accepting [OF pool_okD(3) [OF ok] nth_mem [OF k]] t by simp_all
  have a: "active_ok (drop_wait k w)" using active_drop_wait [OF pool_okD(2) [OF ok] k] t by simp
  have f: "frame_ok (drop_wait k w)" by (rule frame_drop_wait [OF pool_okD(1) [OF ok]])
  show ?thesis
  proof (cases b)
    case True
    have "pool_ok (drop_wait k w)" using a f na pool_okD(5) [OF ok] by (simp add: pool_ok_def quiet_def awaited_def bounded_def)
    with True na show ?thesis by (simp add: stopped_slot_def stop_finish_keeps)
  next
    case False
    have "frame_ok (block_termination i (drop_wait k w))"
      using frame_block [OF f, of i] b [OF False] by (simp add: slot_at_def)
    then have "pool_ok (block_termination i (drop_wait k w))"
      using a na pool_okD(5) [OF ok] by (simp add: pool_ok_def active_block quiet_def awaited_def bounded_def)
    with False show ?thesis by (simp add: stopped_slot_def stop_throws_keeps)
  qed
qed

lemma resume_keeps:
  assumes ok: "pool_ok w" and k: "k < length (pw_waiting w)" and b: "wait_answer w (pw_waiting w ! k) = Some b"
  shows "pool_ok (resume b (pw_waiting w ! k) (drop_wait k w))"
proof -
  have no: "wk_slot (pw_waiting w ! k) < length (pw_slots w) \<and> \<not> sk_closed (slot_at w (wk_slot (pw_waiting w ! k)))"
    if "\<not> b"
    using wait_answer_False [OF pool_okD(1) [OF ok] nth_mem [OF k]] b that by simp
  show ?thesis
    by (cases "wk_task (pw_waiting w ! k)")
      (simp_all add: resume_def terminated_active_keeps [OF ok k _ no] terminated_idle_keeps [OF ok k _ no]
        stopped_active_keeps [OF ok k _ no] stopped_slot_keeps [OF ok k _ no])
qed

section \<open>Every reachable pool\<close>

lemma capture_keeps: "pool_ok w \<Longrightarrow> pool_ok (capture_diagnostic i bytes w)"
  by (simp add: capture_diagnostic_def upd_slot_keeps)

lemma pool_step_keeps: "pool_ok w \<Longrightarrow> pool_step e w = Some w' \<Longrightarrow> pool_ok w'"
proof (cases e)
  case (Resume k)
  assume "pool_ok w" "pool_step e w = Some w'"
  with Resume show ?thesis by (auto simp: resume_keeps drop_wait_def [symmetric] split: if_splits)
next
  case (Child_error i)
  assume "pool_ok w" "pool_step e w = Some w'"
  with Child_error show ?thesis by (auto intro!: child_error_keeps upd_slot_keeps split: if_splits)
qed (auto simp: call_keeps abort_keeps stop_keeps handle_message_keeps close_keeps capture_keeps
      request_timeout_def terminate_active_keeps flight_timer_keeps flight_closed_keeps
      drain_task_keeps [unfolded One_nat_def] split: if_splits option.splits)

interpretation mutating: event_machine pool_step pool_ok "\<lambda>_. True"
  by unfold_locales (rule pool_step_keeps)

lemma new_pool_ok: "new_pool roots app manager lease timeout max_queue = Inr w \<Longrightarrow> pool_ok w"
  by (auto simp: new_pool_def bindr_Inr_iff pool_ok_def frame_ok_def requests_ok_def open_request_def sent_ok_def slots_ok_def
      waits_ok_def active_ok_def quiet_def awaited_def bounded_def stops_def)

definition pool_reachable :: "pool_world \<Rightarrow> bool" where
  "pool_reachable w \<longleftrightarrow> (\<exists>roots app manager lease timeout max_queue w0 es.
     new_pool roots app manager lease timeout max_queue = Inr w0 \<and> pool_run es w0 = Some w)"

lemma pool_reachable_ok: "pool_reachable w \<Longrightarrow> pool_ok w"
  unfolding pool_reachable_def using mutating.run_keeps new_pool_ok by (auto simp: list_all_iff)

text \<open>C8: A child of the mutation pool that has not closed is its current one, so that at most one can be running.
  In every reachable state the requests that have been sent were sent in the order in which they were accepted, each
  at most once and as it was accepted, and before everything that still waits; and the queue is within its bound.\<close>

theorem single_storage_writer:
  assumes "pool_reachable w"
  shows "(\<forall>i < length (pw_slots w). \<not> sk_closed (pw_slots w ! i) \<longleftrightarrow> pw_child w = Some i) \<and>
    sorted_wrt (<) (map (fst \<circ> snd) (pw_sent w)) \<and>
    (\<forall>(i, r, q) \<in> set (pw_sent w). i < length (pw_slots w) \<and> r < length (pw_requests w) \<and>
       q = request_of (pw_identity w) (pw_requests w ! r) \<and> (\<forall>r' \<in> set (pw_queue w). r < r')) \<and>
    int (length (pw_queue w)) \<le> pw_max_queue w"
proof -
  have ok: "pool_ok w" by (rule pool_reachable_ok [OF assms])
  show ?thesis
    using frame_okD(2,3) [OF pool_okD(1) [OF ok]] pool_okD(5) [OF ok] by (simp add: slots_ok_def sent_ok_def bounded_def)
qed

text \<open>C7: Every request the mutation pool has accepted waits in the queue, is the active one, or has been answered
  exactly once. What waits is taken up: the pool then accepts requests, is not blocked by a child that would not end,
  and has an active request or a drain under way; and the active request has its timer, or its child is being ended
  and somebody who answers it waits for that.\<close>

theorem accepted_mutation_answered_once:
  assumes "pool_reachable w"
  shows "(\<forall>r < length (pw_requests w). length (pw_outcomes w ! r) = (if r \<in> set (pw_queue w) \<or> is_active r w then 0 else 1)) \<and>
    (pw_queue w \<noteq> [] \<longrightarrow> pw_accepting w \<and> pw_blocked w = None \<and> (pw_active w \<noteq> None \<or> 0 < pw_drains w)) \<and>
    (\<forall>a. pw_active w = Some a \<longrightarrow> am_armed a \<or> (\<exists>wk \<in> set (pw_waiting w). waits_for (am_place a) (wk_task wk)))"
proof -
  have ok: "pool_ok w" by (rule pool_reachable_ok [OF assms])
  have "\<forall>r < length (pw_requests w). length (pw_outcomes w ! r) = (if r \<in> set (pw_queue w) \<or> is_active r w then 0 else 1)"
    using frame_okD(1) [OF pool_okD(1) [OF ok]] by (simp add: requests_ok_def open_request_def)
  moreover have "pw_queue w \<noteq> [] \<longrightarrow> pw_accepting w \<and> pw_blocked w = None \<and> (pw_active w \<noteq> None \<or> 0 < pw_drains w)"
    using pool_okD(3,4) [OF ok] by (auto simp: quiet_def awaited_def)
  moreover have "\<forall>a. pw_active w = Some a \<longrightarrow> am_armed a \<or> (\<exists>wk \<in> set (pw_waiting w). waits_for (am_place a) (wk_task wk))"
    using pool_okD(2) [OF ok] by (auto simp: active_ok_def split: if_splits)
  ultimately show ?thesis by blast
qed

end
