(* ===== verification/StorageAnswers.thy ===== *)
theory StorageAnswers
  imports StorageSafety
begin

text \<open>
  The mutation pool by itself answers what it has accepted, whatever its children do; a value it answers with
  came from the child the request was sent to, under the fence of the request; and concrete runs.
\<close>

section \<open>The pool answers by itself\<close>

text \<open>How much the pool can still do without calls and children: a waiting request costs more than an active
  one, an active one more than a wait for the end of its child.\<close>

definition task_rank :: "waiting \<Rightarrow> nat" where
  "task_rank wk = (case wk_task wk of Stop_active _ \<Rightarrow> 6 | _ \<Rightarrow> 2)"

definition slot_rank :: "child_slot \<Rightarrow> nat" where
  "slot_rank s = (case sk_flight s of Some Term_sent \<Rightarrow> 2 | Some Kill_sent \<Rightarrow> 1 | _ \<Rightarrow> 0)"

definition active_rank :: "active_mutation option \<Rightarrow> nat" where
  "active_rank v = (case v of None \<Rightarrow> 0 | Some a \<Rightarrow> if am_terminating a then 0 else 5)"

definition pool_rank :: "pool_world \<Rightarrow> nat" where
  "pool_rank w = 6 * length (pw_queue w) + active_rank (pw_active w) + sum_list (map task_rank (pw_waiting w)) +
     sum_list (map slot_rank (pw_slots w)) + pw_drains w"

lemma active_rank_simps [simp]: "active_rank None = 0" "active_rank (Some (marked a)) = 0"
  by (simp_all add: active_rank_def)

lemma slot_rank_update:
  "i < length ss \<Longrightarrow> sum_list (map slot_rank (ss[i := s])) + slot_rank (ss ! i) = sum_list (map slot_rank ss) + slot_rank s"
proof (induction ss arbitrary: i)
  case (Cons a ss)
  then show ?case by (cases i) auto
qed simp

lemma await_rank:
  assumes "i < length (pw_slots w)"
  shows "pool_rank (await_termination i t w) \<le>
    pool_rank w + task_rank \<lparr>wk_slot = i, wk_now = sk_closed (pw_slots w ! i), wk_task = t\<rparr> + 2"
  using slot_rank_update [OF assms, of "(pw_slots w ! i)\<lparr>sk_flight := Some Term_sent\<rparr>"]
  by (auto simp: await_termination_def pool_rank_def slot_at_def Let_def slot_rank_def task_rank_def upd_slot_def)

lemma settle_rank [simp]: "pool_rank (settle r out w) = pool_rank w"
  by (simp add: pool_rank_def)

lemma settle_active_rank: "pool_rank (settle_active r out w) \<le> pool_rank w + 1"
  by (auto simp: pool_rank_def)

lemma settle_active_blocked_rank: "pw_blocked w \<noteq> None \<Longrightarrow> pool_rank (settle_active r out w) \<le> pool_rank w"
  by (auto simp: pool_rank_def)

lemma reject_queue_rank: "pool_rank (reject_queue e w) \<le> pool_rank w"
  by (simp add: pool_rank_def)

lemma block_rank [simp]: "pool_rank (block_termination i w) = pool_rank w"
  by (simp add: pool_rank_def)

lemma stop_throws_rank [simp]: "pool_rank (stop_throws e w) = pool_rank w"
  by (simp add: stop_throws_def pool_rank_def)

lemma stop_finish_rank [simp]: "pool_rank (stop_finish w) = pool_rank w"
  by (simp add: stop_finish_def) (simp add: pool_rank_def)

lemma terminate_rank:
  assumes "active_ok w" and "pw_active w = Some a" and "\<not> am_terminating a"
  shows "pool_rank (terminate_active (am_place a) cause w) < pool_rank w"
proof -
  let ?t = "Terminate_active (am_place a) cause" and ?m = "w\<lparr>pw_active := Some (marked a)\<rparr>"
  have t: "terminate_active (am_place a) cause w = await_termination (am_slot a) ?t ?m"
    using assms(2,3) by (simp add: terminate_active_def mark_active)
  have "am_slot a < length (pw_slots ?m)" using assms by (simp add: active_ok_def)
  from await_rank [OF this, of ?t] have "pool_rank (await_termination (am_slot a) ?t ?m) \<le> pool_rank ?m + 4"
    by (simp add: task_rank_def)
  moreover have "pool_rank ?m + 5 = pool_rank w" using assms(2,3) by (simp add: pool_rank_def active_rank_def)
  ultimately show ?thesis unfolding t by linarith
qed

lemma stop_child_rank:
  assumes "slots_ok w"
  shows "pool_rank (stop_child w) \<le> pool_rank w + 4"
proof -
  have i: "i < length (pw_slots w)" if "pw_blocked w = Some i \<or> pw_child w = Some i" for i
    using assms that by (auto simp: slots_ok_def)
  have "pool_rank (await_termination i Stop_slot w) \<le> pool_rank w + 4" if "pw_blocked w = Some i \<or> pw_child w = Some i" for i
    using await_rank [OF i [OF that], of Stop_slot] by (simp add: task_rank_def)
  then show ?thesis by (auto simp: stop_child_def split: option.split)
qed

lemma drop_wait_rank:
  assumes "k < length (pw_waiting w)"
  shows "pool_rank w = pool_rank (drop_wait k w) + task_rank (pw_waiting w ! k)"
proof -
  have "sum_list (map task_rank (pw_waiting w)) =
      sum_list (map task_rank (take k (pw_waiting w) @ drop (Suc k) (pw_waiting w))) + task_rank (pw_waiting w ! k)"
    by (subst id_take_nth_drop [OF assms]) (simp add: add_ac)
  then show ?thesis by (simp add: pool_rank_def) (simp add: drop_wait_def)
qed

lemma resume_rank:
  assumes ok: "pool_ok w" and k: "k < length (pw_waiting w)"
  shows "pool_rank (resume b (pw_waiting w ! k) (drop_wait k w)) < pool_rank w"
proof -
  let ?d = "drop_wait k w" and ?wk = "pw_waiting w ! k"
  note d = drop_wait_rank [OF k]
  have slots: "slots_ok (settle_active r out ?d)" for r out
    using frame_okD(3) [OF pool_okD(1) [OF ok]] by (simp add: slots_ok_def)
  have blocked: "pool_rank (settle_active r out (block_termination i ?d)) \<le> pool_rank ?d" for r out i
    using settle_active_blocked_rank [of "block_termination i ?d" r out] by simp
  have reject: "pool_rank (reject_queue e (settle_active r out (block_termination i ?d))) < Suc (Suc (pool_rank ?d))" for e r out i
    using order_trans [OF reject_queue_rank blocked, of e r out i] by simp
  have idle: "pool_rank (reject_queue e (block_termination i ?d)) < Suc (Suc (pool_rank ?d))" for e i
    using reject_queue_rank [of e "block_termination i ?d"] by simp
  show ?thesis
  proof (cases "wk_task ?wk")
    case (Terminate_active r cause)
    then have "task_rank ?wk = 2" by (simp add: task_rank_def)
    with Terminate_active d settle_active_rank [of r "Inl cause" ?d] reject show ?thesis
      by (simp add: resume_def terminated_active_def Let_def)
  next
    case Terminate_idle
    then have "task_rank ?wk = 2" by (simp add: task_rank_def)
    with Terminate_idle d idle show ?thesis by (simp add: resume_def terminated_idle_def)
  next
    case (Stop_active r)
    then have t: "task_rank ?wk = 6" by (simp add: task_rank_def)
    have "pool_rank (stop_child (settle_active r out ?d)) \<le> pool_rank ?d + 5" for out
      using stop_child_rank [OF slots, of r out] settle_active_rank [of r out ?d] by linarith
    then have "pool_rank (stopped_active b (wk_slot ?wk) r ?d) \<le> pool_rank ?d + 5"
      using blocked by (auto simp: stopped_active_def intro: trans_le_add1)
    with Stop_active d t show ?thesis by (simp add: resume_def)
  next
    case Stop_slot
    then have "task_rank ?wk = 2" by (simp add: task_rank_def)
    with Stop_slot d show ?thesis by (simp add: resume_def stopped_slot_def)
  qed
qed

lemma drain_rank:
  assumes ok: "pool_ok w" and d: "0 < pw_drains w"
  shows "pool_rank (drain di (w\<lparr>pw_drains := pw_drains w - 1\<rparr>)) < pool_rank w"
proof -
  let ?w = "w\<lparr>pw_drains := pw_drains w - 1\<rparr>"
  have r: "pool_rank w = pool_rank ?w + 1" using d by (simp add: pool_rank_def)
  have f: "frame_ok ?w" and q: "quiet ?w" using pool_okD [OF ok] by (simp_all add: quiet_def)
  have send: "pool_rank (send_request di i r w2) \<le> pool_rank w2 + 5"
    if "i < length (pw_slots w2)" "\<not> sk_closed (slot_at w2 i)" "pw_active w2 = None" for i r w2
  proof -
    let ?a = "activate i r w2"
    have a: "pool_rank ?a = pool_rank w2 + 5" using that(3) by (simp add: pool_rank_def activate_active active_rank_def)
    obtain ac where ac: "pw_active ?a = Some ac" "am_place ac = r" "\<not> am_terminating ac" by (simp add: activate_active)
    have "active_ok ?a" using that by (simp add: active_ok_def activate_active slot_at_def)
    from terminate_rank [OF this ac(1,3), of send_failed] ac(2) a have "pool_rank (terminate_active r send_failed ?a) \<le> pool_rank w2 + 5"
      by simp
    with a show ?thesis by (auto simp: send_request_activate) (simp add: pool_rank_def)
  qed
  have pop: "pool_rank w2 = pool_rank (pop_queue w2) + 6" if "pw_queue w2 = r # rs" for w2 r rs
    using that by (simp add: pool_rank_def)
  show ?thesis
  proof (cases rule: drain_cases [OF frame_okD(3) [OF f] q, of di])
    case 1
    with r show ?thesis by simp
  next
    case 2
    with r show ?thesis by (simp add: pool_rank_def)
  next
    case (3 r' rs e)
    then show ?thesis using r pop [OF 3(1)] by (simp add: queue_drain_def) (simp add: pool_rank_def)
  next
    case (4 r' rs i)
    have "i < length (pw_slots ?w)" "\<not> sk_closed (slot_at ?w i)"
      using frame_okD(3) [OF f] 4(3) by (auto simp: slots_ok_def slot_at_def)
    with send [of i "pop_queue ?w" r'] 4 r pop [OF 4(1)] show ?thesis by (simp add: slot_at_def)
  next
    case (5 r' rs pid)
    let ?c = "create_slot pid ?w"
    have c: "pool_rank ?c = pool_rank ?w" by (simp add: pool_rank_def) (simp add: create_slot_def slot_rank_def)
    have "length (pw_slots ?w) < length (pw_slots ?c)" "\<not> sk_closed (slot_at ?c (length (pw_slots ?w)))"
      by (simp_all add: create_slot_def slot_at_def)
    with send [of "length (pw_slots ?w)" "pop_queue ?c" r'] 5 r c pop [of ?c r' rs] show ?thesis
      by (simp add: slot_at_def)
  qed
qed

lemma own_step_rank:
  assumes ok: "pool_ok w" and own: "own_event e" and s: "pool_step e w = Some w'"
  shows "pool_rank w' < pool_rank w"
proof (cases e)
  case Timeout
  with s obtain a where a: "pw_active w = Some a" "am_armed a" "w' = request_timeout (am_place a) w"
    by (auto split: option.splits if_splits)
  with pool_okD(2) [OF ok] have "\<not> am_terminating a" by (auto simp: active_ok_def split: if_splits)
  with a terminate_rank [OF pool_okD(2) [OF ok]] show ?thesis by (simp add: request_timeout_def)
next
  case (Flight_timer i)
  with s have i: "i < length (pw_slots w)" "flight_waits (pw_slots w ! i)" "w' = upd_slot i (flight_continues False) w"
    by (auto simp: slot_at_def split: if_splits)
  with slot_rank_update [OF i(1), of "flight_continues False (pw_slots w ! i)"] show ?thesis
    by (auto simp: pool_rank_def flight_waits_def flight_continues_def slot_rank_def)
next
  case (Flight_closed i)
  with s have i: "i < length (pw_slots w)" "flight_waits (pw_slots w ! i)" "w' = upd_slot i (flight_continues True) w"
    by (auto simp: slot_at_def split: if_splits)
  with slot_rank_update [OF i(1), of "flight_continues True (pw_slots w ! i)"] show ?thesis
    by (auto simp: pool_rank_def flight_waits_def flight_continues_def slot_rank_def)
next
  case (Resume k)
  with s ok show ?thesis by (auto simp: drop_wait_def [symmetric] resume_rank split: if_splits)
next
  case (Drain_task di)
  with s ok show ?thesis using drain_rank [OF ok] by (auto split: if_splits)
qed (use own in simp_all)

text \<open>A request that is not answered leaves an own event to happen.\<close>

lemma own_event_possible:
  assumes ok: "pool_ok w" and r: "open_request w r"
  shows "\<exists>e. own_event e \<and> pool_step e w \<noteq> None"
proof (cases "microtasks w")
  case True
  then consider "0 < pw_drains w" | wk where "wk \<in> set (pw_waiting w)" "wait_answer w wk \<noteq> None"
    | s where "s \<in> set (pw_slots w)" "sk_closed s" "flight_waits s"
    by (auto simp: microtasks_def list_ex_iff)
  then show ?thesis
  proof cases
    case 1
    then have "pool_step (Drain_task di) w \<noteq> None" for di by simp
    moreover have "own_event (Drain_task di)" for di by simp
    ultimately show ?thesis by blast
  next
    case (2 wk)
    then obtain k where "k < length (pw_waiting w)" "pw_waiting w ! k = wk" by (auto simp: in_set_conv_nth)
    with 2 have "own_event (Resume k)" "pool_step (Resume k) w \<noteq> None" by auto
    then show ?thesis by blast
  next
    case (3 s)
    then obtain i where "i < length (pw_slots w)" "pw_slots w ! i = s" by (auto simp: in_set_conv_nth)
    with 3 have "own_event (Flight_closed i)" "pool_step (Flight_closed i) w \<noteq> None" by (auto simp: slot_at_def)
    then show ?thesis by blast
  qed
next
  case False
  then have d: "pw_drains w = 0" by (simp add: microtasks_def)
  with pool_okD(4) [OF ok] r obtain a where a: "pw_active w = Some a"
    by (cases "pw_active w") (auto simp: awaited_def open_request_def)
  show ?thesis
  proof (cases "am_terminating a")
    case True
    with a pool_okD(2) [OF ok] obtain wk where wk: "wk \<in> set (pw_waiting w)" by (auto simp: active_ok_def)
    then have "wait_answer w wk = None" using False by (auto simp: microtasks_def list_ex_iff)
    moreover have "waiting_ok w wk" using frame_okD(4) [OF pool_okD(1) [OF ok]] wk by (simp add: waits_ok_def)
    ultimately have "wk_slot wk < length (pw_slots w)" "flight_waits (slot_at w (wk_slot wk))"
      by (auto simp: waiting_ok_def wait_answer_def flight_waits_def split: if_splits option.splits termination_flight.splits)
    with False have "own_event (Flight_timer (wk_slot wk))" "pool_step (Flight_timer (wk_slot wk)) w \<noteq> None" by auto
    then show ?thesis by blast
  next
    case no: False
    with a pool_okD(2) [OF ok] have "am_armed a" by (auto simp: active_ok_def)
    with a False have "own_event Timeout" "pool_step Timeout w \<noteq> None" by auto
    then show ?thesis by blast
  qed
qed

lemma own_run_bounded:
  "pool_run es w = Some w' \<Longrightarrow> list_all own_event es \<Longrightarrow> pool_ok w \<Longrightarrow> pool_ok w' \<and> length es + pool_rank w' \<le> pool_rank w"
proof (induction es arbitrary: w)
  case (Cons e es)
  from Cons.prems(1) obtain w1 where w1: "pool_step e w = Some w1" "pool_run es w1 = Some w'" by (rule run_events_Cons)
  have "pool_ok w1" by (rule pool_step_keeps [OF Cons.prems(3) w1(1)])
  with Cons.IH [OF w1(2)] Cons.prems(2) own_step_rank [OF Cons.prems(3) _ w1(1)] show ?case by auto
qed simp

text \<open>C10: The mutation pool needs nobody to answer what it has accepted. From every reachable state, whatever its children do
  or do not do, it can take at most \<open>pool_rank\<close> steps of its own (timers that fire, terminations that go on, drains), and
  as long as a request is not answered such a step is possible; so every sequence of own steps that cannot be continued ends
  with every accepted request answered exactly once.\<close>

theorem pool_answers_by_itself:
  assumes "pool_reachable w" and "list_all own_event es" and "pool_run es w = Some w'"
  shows "length es \<le> pool_rank w \<and>
    ((\<forall>e. own_event e \<longrightarrow> pool_step e w' = None) \<longrightarrow> (\<forall>r < length (pw_requests w'). length (pw_outcomes w' ! r) = 1))"
proof -
  have "pool_ok w" by (rule pool_reachable_ok [OF assms(1)])
  from own_run_bounded [OF assms(3,2) this] have ok: "pool_ok w'" and "length es \<le> pool_rank w" by simp_all
  moreover have "length (pw_outcomes w' ! r) = 1"
    if "\<forall>e. own_event e \<longrightarrow> pool_step e w' = None" "r < length (pw_requests w')" for r
    using own_event_possible [OF ok, of r] frame_okD(1) [OF pool_okD(1) [OF ok]] that by (auto simp: requests_ok_def)
  ultimately show ?thesis by blast
qed

section \<open>Values come from the child that was asked\<close>

definition values_of :: "pool_world \<Rightarrow> (storage_error + json) list list" where
  "values_of w = map (filter (\<lambda>out. \<not> isl out)) (pw_outcomes w)"

lemma values_settle [simp]: "values_of (settle r (Inl e) w) = values_of w"
proof (cases "r < length (pw_outcomes w)")
  case True
  then have "(values_of w)[r := values_of w ! r] = values_of w" by simp
  with True show ?thesis by (simp add: values_of_def map_update)
qed (simp add: values_of_def list_update_beyond)

lemma values_cong: "pw_outcomes w' = pw_outcomes w \<Longrightarrow> values_of w' = values_of w"
  by (simp add: values_of_def)

lemma values_settle_active [simp]: "values_of (settle_active r (Inl e) w) = values_of w"
  using values_settle [of r e w] by (auto simp: values_of_def)

lemma values_reject_all [simp]: "values_of (reject_all e rs w) = values_of w"
  by (induction rs arbitrary: w) simp_all

lemma values_keep [simp]:
  "values_of (upd_slot i f w) = values_of w" "values_of (block_termination i w) = values_of w"
  "values_of (await_termination i t w) = values_of w" "values_of (terminate_active r c w) = values_of w"
  "values_of (clear_deadline w) = values_of w" "values_of (pop_queue w) = values_of w"
  "values_of (create_slot pid w) = values_of w" "values_of (queue_drain w) = values_of w"
  "values_of (schedule_drain w) = values_of w" "values_of (drop_wait k w) = values_of w"
  "values_of (stop_throws e w) = values_of w" "values_of (w\<lparr>pw_state := x\<rparr>) = values_of w"
  "values_of (w\<lparr>pw_active := a\<rparr>) = values_of w" "values_of (w\<lparr>pw_drains := n\<rparr>) = values_of w"
  "values_of (w\<lparr>pw_queue := q\<rparr>) = values_of w" "values_of (w\<lparr>pw_stopping := b\<rparr>) = values_of w"
  "values_of (w\<lparr>pw_accepting := b\<rparr>) = values_of w" "values_of (w\<lparr>pw_aborted := ab\<rparr>) = values_of w"
  "values_of (w\<lparr>pw_stop_results := sr\<rparr>) = values_of w" "values_of (w\<lparr>pw_waiting := wt\<rparr>) = values_of w"
  "values_of (w\<lparr>pw_child := c1\<rparr>) = values_of w" "values_of (w\<lparr>pw_blocked := c1\<rparr>) = values_of w"
  by (rule values_cong, simp add: create_slot_def queue_drain_def schedule_drain_def stop_throws_def)+

lemma values_reject_queue [simp]: "values_of (reject_queue e w) = values_of w"
  by (simp add: reject_queue_def)

lemma values_send [simp]: "values_of (send_request di i r w) = values_of w"
  by (rule values_cong) (simp add: send_request_activate)

lemma values_drain [simp]: "values_of (drain di w) = values_of w"
  by (simp add: drain_def Let_def split: list.split option.split)

lemma values_enqueue [simp]: "values_of (enqueue p w) = values_of w @ [[]]"
  by (simp add: values_of_def enqueue_def)

lemma values_stop [simp]: "values_of (stop_finish w) = values_of w" "values_of (stop_child w) = values_of w"
  "values_of (stop_pool w) = values_of w"
proof -
  show f: "values_of (stop_finish w) = values_of w" for w by (simp add: stop_finish_def) (simp add: values_of_def)
  show c: "values_of (stop_child w) = values_of w" for w by (simp add: stop_child_def f split: option.split)
  show "values_of (stop_pool w) = values_of w"
    by (simp add: stop_pool_def stop_once_def Let_def c split: option.split)
qed

lemma values_resume [simp]: "values_of (resume b wk w) = values_of w"
  by (simp add: resume_def terminated_active_def terminated_idle_def stopped_active_def stopped_slot_def Let_def
      split: waiting_task.split)

lemma values_close [simp]: "values_of (handle_child_close i code signal w) = values_of w"
  by (simp add: handle_child_close_def close_answer_def Let_def split: option.split)

lemma values_abort [simp]: "values_of (abort_signal s w) = values_of w"
  by (simp add: abort_signal_def Let_def split: option.split)

lemma values_call: "values_of (snd (call_method di role m opts w)) \<in> {values_of w, values_of w @ [[]]}"
  by (auto simp: call_method_def execute_mutation_def split: option.split sum.split)

text \<open>A response under the fence of a request.\<close>

definition answers :: "storage_response \<Rightarrow> storage_request \<Rightarrow> json \<Rightarrow> bool" where
  "answers p q v \<longleftrightarrow> sp_version p = protocol_version \<and> sp_id p = sq_id q \<and>
     (\<exists>f. sp_fence p = Some f \<and> same_fence f (sq_fence q)) \<and> sp_body p = Inr (Some v)"

lemma values_message:
  obtains "values_of (handle_message i p w) = values_of w"
  | a p' v where "p = Some p'" "pw_active w = Some a" "am_slot a = i" "\<not> am_terminating a" "answers p' (am_request a) v"
      "handle_message i p w = settle_active (am_place a) (Inr v) w"
proof (cases "values_of (handle_message i p w) = values_of w")
  case False
  then obtain a where a: "pw_active w = Some a" "am_slot a = i" "\<not> am_terminating a"
    by (auto simp: handle_message_def split: option.splits if_splits)
  from False obtain p' f v where "p = Some p'" "sp_version p' = protocol_version" "sp_id p' = sq_id (am_request a)"
    "sp_fence p' = Some f" "same_fence f (sq_fence (am_request a))" "sp_body p' = Inr (Some v)"
    using a by (auto simp: handle_message_def Let_def split: option.splits if_splits sum.splits)
  with a that(2) show thesis by (auto simp: handle_message_def Let_def answers_def)
qed

text \<open>The active request was given to its child, unless the child is being ended.\<close>

definition asked :: "pool_world \<Rightarrow> bool" where
  "asked w \<longleftrightarrow> (\<forall>a. pw_active w = Some a \<and> \<not> am_terminating a \<longrightarrow> (am_slot a, am_place a, am_request a) \<in> set (pw_sent w))"

lemma asked_mono:
  assumes "asked w" and "set (pw_sent w) \<subseteq> set (pw_sent w')"
    and "\<And>a. pw_active w' = Some a \<Longrightarrow> \<not> am_terminating a \<Longrightarrow> pw_active w = Some a"
  shows "asked w'"
  using assms unfolding asked_def by blast

lemma terminate_active_asked: "pw_active (terminate_active r c w) = Some a \<Longrightarrow> \<not> am_terminating a \<Longrightarrow> pw_active w = Some a"
  by (cases rule: terminate_active_cases [of r c w]) auto

text \<open>What has been sent stays, and who becomes active has been asked.\<close>

definition asked_since :: "pool_world \<Rightarrow> pool_world \<Rightarrow> bool" where
  "asked_since w w' \<longleftrightarrow> set (pw_sent w) \<subseteq> set (pw_sent w') \<and>
     (\<forall>a. pw_active w' = Some a \<and> \<not> am_terminating a \<longrightarrow>
        pw_active w = Some a \<or> (am_slot a, am_place a, am_request a) \<in> set (pw_sent w'))"

lemma asked_since_refl [simp]: "asked_since w w"
  by (simp add: asked_since_def)

lemma asked_since_trans: "asked_since w w1 \<Longrightarrow> asked_since w1 w2 \<Longrightarrow> asked_since w w2"
  unfolding asked_since_def by blast

lemma asked_since_same: "pw_sent w' = pw_sent w \<Longrightarrow> pw_active w' = pw_active w \<Longrightarrow> asked_since w w'"
  by (simp add: asked_since_def)

lemma asked_since_settle: "asked_since w (settle_active r out w)"
  by (simp add: asked_since_def)

lemma asked_since_terminate: "asked_since w (terminate_active r c w)"
  using terminate_active_asked [of r c w] by (auto simp: asked_since_def)

lemma asked_since_send: "asked_since w (send_request di i r w)"
  by (auto simp: asked_since_def send_request_activate terminate_active_def activate_active mark_active)

lemma asked_since_drain:
  assumes "slots_ok w" and "quiet w"
  shows "asked_since w (drain di w)"
proof -
  have pop: "asked_since w (send_request di i r (pop_queue w1))" if "pw_sent w1 = pw_sent w" "pw_active w1 = pw_active w" for i r w1
    using asked_since_trans [OF asked_since_same asked_since_send, of "pop_queue w1" w di i r] that by simp
  show ?thesis
    by (cases rule: drain_cases [OF assms, of di])
      (auto simp: queue_drain_def create_slot_def intro!: pop intro: asked_since_same)
qed

lemma asked_since_stop_child: "asked_since w (stop_child w)"
proof -
  have "asked_since w (stop_finish w)" by (rule asked_since_same) (simp_all add: stop_finish_def stop_throws_def)
  moreover have "asked_since w (await_termination i Stop_slot w)" for i by (rule asked_since_same) simp_all
  ultimately show ?thesis by (simp add: stop_child_def split: option.split)
qed

lemma asked_since_stop: "asked_since w (stop_pool w)"
proof -
  let ?w = "reject_queue (Storage_error Pool_stopped ''Storage mutation pool stopped.'')
    (w\<lparr>pw_stopping := True, pw_accepting := False, pw_state := Pool_stopping\<rparr>)"
  have same: "asked_since w ?w" by (rule asked_since_same) simp_all
  have "asked_since ?w (mark_and_wait a t ?w)" for a t by (simp add: asked_since_def)
  with asked_since_stop_child [of ?w] same have "asked_since w (stop_once (w\<lparr>pw_stopping := True\<rparr>))"
    by (auto simp: stop_once_def Let_def mark_active mark_and_wait_def intro: asked_since_trans split: option.split)
  then show ?thesis by (auto simp: stop_pool_def intro: asked_since_same)
qed

lemma asked_since_resume: "asked_since w (resume b wk (drop_wait k w))"
proof -
  have d: "asked_since w (drop_wait k w)" by (rule asked_since_same) simp_all
  have s: "asked_since (drop_wait k w) (settle_active r out (drop_wait k w))" for r out by (rule asked_since_settle)
  have bl: "asked_since (drop_wait k w) (block_termination i (drop_wait k w))" for i by (rule asked_since_same) simp_all
  have sb: "asked_since (drop_wait k w) (settle_active r out (block_termination i (drop_wait k w)))" for r out i
    by (rule asked_since_trans [OF bl asked_since_settle])
  have rq: "asked_since (drop_wait k w) (reject_queue e w1)" if "asked_since (drop_wait k w) w1" for e w1
    by (rule asked_since_trans [OF that]) (rule asked_since_same; simp)
  have st: "asked_since (drop_wait k w) (stop_throws e w1)" if "asked_since (drop_wait k w) w1" for e w1
    by (rule asked_since_trans [OF that]) (rule asked_since_same; simp add: stop_throws_def)
  have sc: "asked_since (drop_wait k w) (stop_child (settle_active r out (drop_wait k w)))" for r out
    by (rule asked_since_trans [OF s asked_since_stop_child])
  have sf: "asked_since (drop_wait k w) (stop_finish (drop_wait k w))"
    by (rule asked_since_same) (simp_all add: stop_finish_def stop_throws_def)
  have "asked_since (drop_wait k w) (resume b wk (drop_wait k w))"
    by (simp add: resume_def terminated_active_def terminated_idle_def stopped_active_def stopped_slot_def Let_def
        s bl sb rq st sc sf split: waiting_task.split)
  then show ?thesis by (rule asked_since_trans [OF d])
qed

lemma asked_since_abort: "asked_since w (abort_signal s w)"
proof -
  let ?w = "reject_all aborted_error (filter (with_signal s w) (pw_queue w))
    (w\<lparr>pw_aborted := s # pw_aborted w, pw_queue := filter (\<lambda>r. \<not> with_signal s w r) (pw_queue w)\<rparr>)"
  have "asked_since w ?w" by (rule asked_since_same) simp_all
  with asked_since_trans [OF this asked_since_terminate] show ?thesis
    by (auto simp: abort_signal_def Let_def split: option.split)
qed

lemma asked_since_close:
  assumes "slots_ok w" and "i < length (pw_slots w)" and "\<not> sk_closed (slot_at w i)"
  shows "asked_since w (handle_child_close i code signal w)"
proof -
  obtain m where e: "handle_child_close i code signal w =
      (let w3 = close_answer (Storage_error Worker_failed m) i (closing i w)
       in if pw_accepting w3 \<and> pw_blocked w3 = None \<and> pw_active w3 = None then schedule_drain w3 else w3)"
    by (rule handle_child_close_cases [OF assms])
  have "asked_since w (closing i w)" by (rule asked_since_same) simp_all
  moreover have "asked_since (closing i w) (close_answer (Storage_error Worker_failed m) i (closing i w))"
    unfolding close_answer_def by (auto simp: asked_since_settle split: option.split)
  ultimately have c: "asked_since w (close_answer (Storage_error Worker_failed m) i (closing i w))" by (rule asked_since_trans)
  have "asked_since w1 (schedule_drain w1)" for w1 by (rule asked_since_same) (simp_all add: schedule_drain_def)
  from asked_since_trans [OF c this] c show ?thesis unfolding e Let_def by simp
qed

lemma asked_since_step:
  assumes ok: "pool_ok w" and s: "pool_step e w = Some w'"
  shows "asked_since w w'"
proof (cases e)
  case (Call di role m opts)
  have e: "asked_since w (drain di (enqueue p w))" if "execute_refusal opts w = None" for p
  proof -
    have open': "pw_accepting w" "pw_blocked w = None" "pw_state w \<noteq> Pool_stopping" "pw_state w \<noteq> Pool_has_stopped"
      using that by (auto simp: execute_refusal_def split: if_splits option.splits)
    then have "\<not> stops w" using pool_okD(3) [OF ok] by (auto simp: quiet_def)
    then have "quiet (enqueue p w)" using open' by (simp add: quiet_def) (simp add: enqueue_def)
    moreover have "slots_ok (enqueue p w)" by (rule frame_okD(3) [OF frame_enqueue [OF pool_okD(1) [OF ok]]])
    ultimately have "asked_since (enqueue p w) (drain di (enqueue p w))" by (intro asked_since_drain)
    moreover have "asked_since w (enqueue p w)" by (rule asked_since_same) (simp_all add: enqueue_def)
    ultimately show ?thesis by (rule asked_since_trans [rotated])
  qed
  then have "asked_since w (snd (call_method di role m opts w))"
    by (auto simp: call_method_def execute_mutation_def split: option.split sum.split)
  with Call s show ?thesis by simp
next
  case (Child_message i p)
  with s have "w' = handle_message i p w" by (auto split: if_splits)
  then show ?thesis
    by (auto simp: handle_message_def Let_def asked_since_settle asked_since_terminate split: option.split sum.split)
next
  case (Child_close i code signal)
  with s show ?thesis
    using asked_since_close [OF frame_okD(3) [OF pool_okD(1) [OF ok]]] by (auto split: if_splits)
next
  case (Child_error i)
  let ?w = "upd_slot i (\<lambda>s. s\<lparr>sk_errored := True\<rparr>) w"
  have "asked_since w ?w" by (rule asked_since_same) simp_all
  moreover have "asked_since ?w (handle_child_error i ?w)"
    by (auto simp: handle_child_error_def asked_since_terminate intro: asked_since_same split: option.split)
  ultimately show ?thesis using Child_error s by (auto intro: asked_since_trans split: if_splits)
next
  case (Child_output i bytes)
  with s show ?thesis by (auto simp: capture_diagnostic_def intro: asked_since_same split: if_splits)
next
  case (Drain_task di)
  let ?w = "w\<lparr>pw_drains := pw_drains w - 1\<rparr>"
  have "asked_since ?w (drain di ?w)"
    using asked_since_drain [of ?w di] frame_okD(3) [OF pool_okD(1) [OF ok]] pool_okD(3) [OF ok]
    by (simp add: slots_ok_def quiet_def)
  moreover have "asked_since w ?w" by (rule asked_since_same) simp_all
  ultimately show ?thesis using Drain_task s by (auto intro: asked_since_trans split: if_splits)
next
  case (Flight_timer i)
  with s show ?thesis by (auto intro: asked_since_same split: if_splits)
next
  case (Flight_closed i)
  with s show ?thesis by (auto intro: asked_since_same split: if_splits)
next
  case (Resume k)
  with s show ?thesis by (auto simp: drop_wait_def [symmetric] asked_since_resume split: if_splits)
qed (use s in \<open>auto simp: asked_since_abort asked_since_stop asked_since_terminate request_timeout_def
      split: if_splits option.splits\<close>)

lemma values_step:
  assumes "pool_step e w = Some w'"
  obtains "values_of w' = values_of w" | "values_of w' = values_of w @ [[]]"
  | i p a v where "e = Child_message i (Some p)" "pw_active w = Some a" "am_slot a = i" "\<not> am_terminating a"
      "answers p (am_request a) v" "w' = settle_active (am_place a) (Inr v) w"
proof (cases e)
  case (Call di role m opts)
  with assms that(1,2) values_call [of di role m opts w] show thesis by auto
next
  case (Child_message i p)
  with assms have w': "w' = handle_message i p w" by (auto split: if_splits)
  show thesis
    by (cases rule: values_message [of i p w]) (use that(1,3) Child_message w' in auto)
next
  case (Child_error i)
  with assms show thesis
    by (intro that(1)) (auto simp: handle_child_error_def split: if_splits option.splits)
qed (use assms that(1) in \<open>auto simp: request_timeout_def capture_diagnostic_def split: if_splits option.splits\<close>)

text \<open>Every value among the outcomes of a run has come from a child that was asked.\<close>

definition came_from :: "pool_event list \<Rightarrow> pool_world \<Rightarrow> nat \<Rightarrow> json \<Rightarrow> bool" where
  "came_from es w r v \<longleftrightarrow> (\<exists>i p q. Child_message i (Some p) \<in> set es \<and> (i, r, q) \<in> set (pw_sent w) \<and> answers p q v)"

definition values_ok :: "pool_event list \<Rightarrow> pool_world \<Rightarrow> bool" where
  "values_ok es w \<longleftrightarrow> (\<forall>r < length (values_of w). \<forall>v. Inr v \<in> set (values_of w ! r) \<longrightarrow> came_from es w r v)"

lemma came_from_mono: "came_from es w r v \<Longrightarrow> asked_since w w' \<Longrightarrow> came_from (es @ es') w' r v"
  unfolding came_from_def asked_since_def by fastforce

lemma values_ok_step:
  assumes v: "values_ok es w" and ok: "pool_ok w" and a: "asked w" and s: "pool_step e w = Some w'"
  shows "values_ok (es @ [e]) w'"
proof -
  have since: "asked_since w w'" by (rule asked_since_step [OF ok s])
  note old = came_from_mono [OF _ since, of es]
  show ?thesis
  proof (cases rule: values_step [OF s])
    case 1
    with v old show ?thesis by (simp add: values_ok_def)
  next
    case 2
    with v old show ?thesis by (auto simp: values_ok_def nth_append)
  next
    case (3 i p ac x)
    have r: "am_place ac < length (pw_outcomes w)"
      using frame_okD(1) [OF pool_okD(1) [OF ok]] 3(2) by (simp add: requests_ok_def)
    have "(i, am_place ac, am_request ac) \<in> set (pw_sent w')"
      using a 3 since unfolding asked_def asked_since_def by blast
    with 3 have new: "came_from (es @ [e]) w' (am_place ac) x" unfolding came_from_def by auto
    have "values_of w' = (values_of w)[am_place ac := values_of w ! am_place ac @ [Inr x]]"
      using 3 r by (simp add: values_of_def is_active_def map_update)
    with v old new r show ?thesis
      by (auto simp: values_ok_def nth_list_update values_of_def split: if_splits)
  qed
qed

lemma asked_step: "asked w \<Longrightarrow> asked_since w w' \<Longrightarrow> asked w'"
  unfolding asked_def asked_since_def by blast

lemma values_run:
  "pool_run es w0 = Some w \<Longrightarrow> pool_ok w0 \<Longrightarrow> asked w0 \<Longrightarrow> values_ok [] w0 \<Longrightarrow> pool_ok w \<and> asked w \<and> values_ok es w"
proof (induction es arbitrary: w rule: rev_induct)
  case (snoc e es)
  from snoc.prems(1) obtain w1 where w1: "pool_run es w0 = Some w1" "pool_step e w1 = Some w"
    by (auto simp: run_events_append split: option.splits)
  from snoc.IH [OF w1(1) snoc.prems(2,3,4)] have h: "pool_ok w1" "asked w1" "values_ok es w1" by simp_all
  show ?case
    using pool_step_keeps [OF h(1) w1(2)] asked_step [OF h(2) asked_since_step [OF h(1) w1(2)]]
      values_ok_step [OF h(3,1,2) w1(2)] by simp
qed simp

text \<open>C9: A value with which the mutation pool answers a request was sent by the child to which that request had been given,
  in a response that names the version of the protocol, the request, and its whole fence: the generation of the
  application, the Manager, the lease of the storage, the role and the plan. Late responses, responses of another
  child and responses to another request never answer it.\<close>

theorem values_are_fenced:
  assumes "new_pool roots app manager lease timeout max_queue = Inr w0" and "pool_run es w0 = Some w"
    and "r < length (pw_requests w)" and "Inr v \<in> set (pw_outcomes w ! r)"
  shows "\<exists>i p q. Child_message i (Some p) \<in> set es \<and> (i, r, q) \<in> set (pw_sent w) \<and> answers p q v \<and>
    q = request_of (pw_identity w) (pw_requests w ! r)"
proof -
  have w0: "pool_ok w0" by (rule new_pool_ok [OF assms(1)])
  have "pw_active w0 = None" "pw_outcomes w0 = []" using assms(1) by (auto simp: new_pool_def bindr_Inr_iff)
  then have "asked w0" "values_ok [] w0" by (simp_all add: asked_def values_ok_def values_of_def)
  from values_run [OF assms(2) w0 this] have ok: "pool_ok w" and vals: "values_ok es w" by simp_all
  have len: "length (pw_outcomes w) = length (pw_requests w)"
    using frame_okD(1) [OF pool_okD(1) [OF ok]] by (simp add: requests_ok_def)
  with assms(3,4) have "Inr v \<in> set (values_of w ! r)" "r < length (values_of w)" by (simp_all add: values_of_def)
  with vals have "came_from es w r v" by (simp add: values_ok_def)
  with frame_okD(2) [OF pool_okD(1) [OF ok]] show ?thesis unfolding came_from_def sent_ok_def by fastforce
qed

section \<open>Requests that the child accepts\<close>

lemma canonical_plan_idem: "canonical_plan_id p = Inr p' \<Longrightarrow> p' = p \<and> p \<noteq> [] \<and> canonical_plan_id p = Inr p"
  by (auto simp: canonical_plan_id_def Let_def split: if_splits)

lemma canonical_role_idem: "canonical_role_id v = Inr role \<Longrightarrow> canonical_role_id role = Inr role \<and> js_trim role = role"
proof -
  assume "canonical_role_id v = Inr role"
  then have r: "role = sanitize_role_id (js_trim v)" "role = js_trim v" "role \<noteq> []"
    by (auto simp: canonical_role_id_def Let_def split: if_splits)
  then have t: "js_trim role = role" by (simp add: js_trim_idem)
  moreover have "sanitize_role_id role = role" using r by simp
  ultimately show ?thesis using r(3) by (simp add: canonical_role_id_def)
qed

text \<open>The tasks whose arguments the typed methods do not check.\<close>

fun unchecked_task :: "storage_task \<Rightarrow> bool" where
  "unchecked_task (Plan_status_update _ _) = True"
| "unchecked_task (Plan_status_delete _ _) = True"
| "unchecked_task (Recent_memory_touch _) = True"
| "unchecked_task (Role_panel_timeline_append _) = True"
| "unchecked_task t = (feedback_of t \<noteq> None)"

lemma check_that_simps [simp]: "check_that True e = Inr ()" "check_that b e = Inr u \<longleftrightarrow> b"
  by (simp_all add: check_that_def)

lemma pending_of_Inr:
  assumes "pending_of timeout role plan task opts = Inr p"
  shows "canonical_role_id (pm_role p) = Inr (pm_role p)" and "storage_role_directory (pm_role p) = Inr [pm_role p]"
    and "pm_task p = task" and "storage_key 200 (pm_key p)" and "expected_ok (pm_expected p)"
    and "(case plan of None \<Rightarrow> pm_plan p = None | Some s \<Rightarrow> pm_plan p = Some s \<and> canonical_plan_id s = Inr s)"
proof -
  obtain dir where dir: "storage_role_directory (pm_role p) = Inr dir" and role: "canonical_role_id role = Inr (pm_role p)"
    using assms by (auto simp: pending_of_def bindr_Inr_iff)
  show "canonical_role_id (pm_role p) = Inr (pm_role p)" using canonical_role_idem [OF role] by simp
  with dir show "storage_role_directory (pm_role p) = Inr [pm_role p]"
    by (auto simp: storage_role_directory_def split: if_splits)
  show "(case plan of None \<Rightarrow> pm_plan p = None | Some s \<Rightarrow> pm_plan p = Some s \<and> canonical_plan_id s = Inr s)"
    using assms by (auto simp: pending_of_def bindr_Inr_iff split: option.splits dest: canonical_plan_idem)
  show "pm_task p = task" "storage_key 200 (pm_key p)" "expected_ok (pm_expected p)"
    using assms by (auto simp: pending_of_def bindr_Inr_iff)
qed

lemma method_plan_fence: "method_call m = Inr (plan, task) \<Longrightarrow> task_requires_plan_fence task \<longleftrightarrow> plan \<noteq> None"
  by (cases m) (auto simp: task_requires_plan_fence_def bindr_Inr_iff)

lemma method_task_valid:
  assumes "method_call m = Inr (plan, task)" and "\<not> unchecked_task task"
  shows "validate_task role plan expected task = Inr ()"
proof (cases m)
  case (CreatePlan p input)
  with assms(1) have p: "canonical_plan_id p = Inr p" "plan = Some p" "task = Plan_create (jset ''id'' (JStr p) input)" "p \<noteq> []"
    by (auto simp: bindr_Inr_iff dest: canonical_plan_idem)
  have "map_of (jset ''id'' (JStr p) input) ''id'' = Some (JStr p)" by (simp add: update_conv)
  with p show ?thesis by (simp add: validate_task_def text_of_field_def js_truthy_def feedback_of_def bindr_simps)
qed (use assms in \<open>auto simp: validate_task_def feedback_of_def bindr_simps\<close>)

text \<open>C32: What the typed methods of the pool send passes the checks of the child. For every method, with whatever arguments
  \<open>execute\<close> accepts, the version, the id of the request, the generation, the role and its directory, the expected revision and
  the presence of a plan in the fence are as the child demands, so that only the checks of the task itself can refuse; and
  they accept every task but those whose keys, ids or records the methods pass on unchecked.\<close>

theorem pool_requests_accepted:
  assumes "method_call m = Inr (plan, task)" and "pending_of timeout role plan task opts = Inr p"
  shows "validate_request identity (request_of identity p) =
      bindr (validate_task (pm_role p) (pm_plan p) (pm_expected p) task) (\<lambda>_. Inr (request_of identity p)) \<and>
    (\<not> unchecked_task task \<longrightarrow> validate_request identity (request_of identity p) = Inr (request_of identity p))"
proof -
  note p = pending_of_Inr [OF assms(2)]
  have plan: "pm_plan p = plan" using p(6) by (simp split: option.splits)
  have canon: "(case pm_plan p of None \<Rightarrow> Inr None | Some s \<Rightarrow> bindr (canonical_plan_id s) (\<lambda>s'. Inr (Some s'))) = Inr (pm_plan p)"
    using p(6) by (auto simp: bindr_simps split: option.splits)
  have key: "storage_key 256 (pm_key p)" using p(4) by (simp add: storage_key_def)
  have "validate_request identity (request_of identity p) =
      bindr (validate_task (pm_role p) (pm_plan p) (pm_expected p) task) (\<lambda>_. Inr (request_of identity p))"
    using p(1,2,3,5) key canon method_plan_fence [OF assms(1)] plan
    by (simp add: validate_request_def request_of_def bindr_simps)
  with method_task_valid [OF assms(1)] plan show ?thesis by (simp add: bindr_simps)
qed

end
