(* ===== verification/StorageRuns.thy ===== *)
theory StorageRuns
  imports StorageAnswers
begin

text \<open>
  A defect of the mutation pool, and concrete runs of it: two requests, of which the child answers one and
  lets the other time out, and a request that meets a child which is being ended.
\<close>

section \<open>A child that is being ended\<close>

text \<open>C33: A pool whose idle child is being ended, because it reported an error, gives the next request to that child: \<open>drain\<close>
  looks at whether the child has closed and not at its termination. When the child then ends, as it was told to, the request
  is answered with a failure of the worker, although nothing was wrong with it and a new child could have been started.\<close>

theorem dying_child_gets_request:
  assumes "pool_reachable w" and "pw_active w = None" and "pw_queue w = []" and "pw_blocked w = None" and "pw_accepting w"
    and child: "pw_child w = Some i" "sk_flight (slot_at w i) \<noteq> None"
    and "method_call m = Inr (plan, task)" and "pending_of (pw_timeout w) role plan task opts = Inr p"
    and "mo_signal opts = None" and "\<not> di_send_throws di"
  shows "\<exists>w1. pool_step (Call di role m opts) w = Some w1 \<and>
    (i, length (pw_requests w), request_of (pw_identity w) p) \<in> set (pw_sent w1) \<and>
    (\<forall>code signal w2. pool_step (Child_close i code signal) w1 = Some w2 \<longrightarrow>
       (\<exists>msg. pw_outcomes w2 ! length (pw_requests w) = [Inl (Storage_error Worker_failed msg)]))"
proof -
  let ?n = "length (pw_requests w)" and ?e = "enqueue p w"
  have ok: "pool_ok w" by (rule pool_reachable_ok [OF assms(1)])
  have state: "pw_state w \<noteq> Pool_stopping" "pw_state w \<noteq> Pool_has_stopped"
    using pool_okD(3) [OF ok] assms(5) by (auto simp: quiet_def)
  have closed: "\<not> sk_closed (pw_slots w ! i)" and i: "i < length (pw_slots w)"
    using frame_okD(3) [OF pool_okD(1) [OF ok]] child(1) by (auto simp: slots_ok_def)
  have len: "length (pw_outcomes w) = ?n" using frame_okD(1) [OF pool_okD(1) [OF ok]] by (simp add: requests_ok_def)
  have signal: "pm_signal p = None" using assms(9,10) by (auto simp: pending_of_def bindr_Inr_iff)
  let ?w1 = "send_request di i ?n (?e\<lparr>pw_queue := []\<rparr>)"
  have "drain di ?e = ?w1"
    using assms(2-5) child state closed signal
    by (simp add: drain_def drain_blocked_def enqueue_def signal_aborted_def open_child_def slot_at_def nth_append)
  moreover have "execute_refusal opts w = None"
    using assms(4,5,10) state by (simp add: execute_refusal_def)
  ultimately have step: "pool_step (Call di role m opts) w = Some ?w1"
    using assms(2,3,8,9) by (simp add: call_method_def execute_mutation_def queue_full_def)
  have sent: "(i, ?n, request_of (pw_identity w) p) \<in> set (pw_sent ?w1)"
    using assms(11) by (simp add: send_request_activate enqueue_def nth_append)
  have ok1: "pool_ok ?w1" by (rule pool_step_keeps [OF ok step])
  have act: "\<exists>a. pw_active ?w1 = Some a \<and> am_slot a = i \<and> am_place a = ?n \<and> \<not> am_terminating a"
    using assms(11) by (simp add: send_request_activate activate_active)
  have out: "pw_outcomes ?w1 = pw_outcomes w @ [[]]"
    using assms(11) by (simp add: send_request_activate enqueue_def)
  have "\<exists>msg. pw_outcomes w2 ! ?n = [Inl (Storage_error Worker_failed msg)]"
    if s: "pool_step (Child_close i code signal) ?w1 = Some w2" for code signal w2
  proof -
    from s have w2: "w2 = handle_child_close i code signal ?w1" and c: "\<not> sk_closed (slot_at ?w1 i)" by (auto split: if_splits)
    obtain a where a: "pw_active ?w1 = Some a" "am_slot a = i" "am_place a = ?n" "\<not> am_terminating a" using act by blast
    obtain m where m: "handle_child_close i code signal ?w1 =
        (let w3 = close_answer (Storage_error Worker_failed m) i (closing i ?w1)
         in if pw_accepting w3 \<and> pw_blocked w3 = None \<and> pw_active w3 = None then schedule_drain w3 else w3)"
      by (rule handle_child_close_cases [OF frame_okD(3) [OF pool_okD(1) [OF ok1]] _ c]) (use s in \<open>auto split: if_splits\<close>)
    let ?f = "Inl (Storage_error Worker_failed m)"
    have "pw_outcomes w2 = pw_outcomes (close_answer (Storage_error Worker_failed m) i (closing i ?w1))"
      unfolding w2 m Let_def by (simp add: schedule_drain_def)
    also have "close_answer (Storage_error Worker_failed m) i (closing i ?w1) = settle_active ?n ?f (closing i ?w1)"
      using a by (simp add: close_answer_def)
    finally have "pw_outcomes w2 ! ?n = [?f]"
      using a out len by (simp add: is_active_def nth_append)
    then show ?thesis by blast
  qed
  with step sent show ?thesis by blast
qed

section \<open>Concrete runs\<close>

definition sample_pool :: pool_world where
  "sample_pool = (case new_pool ''/roles'' ''app-1'' ''manager-1'' (\<lambda>_ _. ''storage-1'') None (Some 4) of
     Inr w \<Rightarrow> w | Inl _ \<Rightarrow> undefined)"

definition sample_drain :: drain_input where
  "sample_drain = \<lparr>di_spawn = Some (Some 4711), di_send_throws = False\<rparr>"

definition sample_call :: "string \<Rightarrow> pool_event" where
  "sample_call key = Call sample_drain ''fenne'' (CreateRecentMemory [(''text'', JStr ''tea'')])
     \<lparr>mo_key = key, mo_expected = None, mo_signal = None, mo_timeout = Some 500\<rparr>"

definition sample_response :: "string \<Rightarrow> storage_response option" where
  "sample_response key = Some \<lparr>sp_version = 1, sp_id = key,
     sp_fence = Some \<lparr>sf_application = ''app-1'', sf_manager = ''manager-1'', sf_lease = ''storage-1'', sf_role = ''fenne'',
       sf_plan = None\<rparr>,
     sp_body = Inr (Some (JStr ''saved''))\<rparr>"

text \<open>The first request is answered; the second times out, and its child is killed.\<close>

definition sample_events :: "pool_event list" where
  "sample_events = [sample_call ''k1'', sample_call ''k2'', Child_message 0 (sample_response ''k1''), Drain_task sample_drain]"

definition sample_own :: "pool_event list" where
  "sample_own = [Timeout, Flight_timer 0, Flight_timer 0, Resume 0]"

definition sample_world :: pool_world where
  "sample_world = the (pool_run sample_events sample_pool)"

definition sample_end :: pool_world where
  "sample_end = the (pool_run sample_own sample_world)"

lemma sample_pool_new:
  "new_pool ''/roles'' ''app-1'' ''manager-1'' (\<lambda>_ _. ''storage-1'') None (Some 4) = Inr sample_pool"
  by code_simp

lemma sample_run: "pool_run sample_events sample_pool = Some sample_world"
  by code_simp

lemma sample_own_run: "pool_run sample_own sample_world = Some sample_end"
  by code_simp

lemma sample_pool_reachable: "pool_reachable sample_world" and sample_end_pool_reachable: "pool_reachable sample_end"
proof -
  have "pool_run (sample_events @ sample_own) sample_pool = Some sample_end"
    by (simp add: run_events_append sample_run sample_own_run)
  then show "pool_reachable sample_world" "pool_reachable sample_end"
    unfolding pool_reachable_def using sample_pool_new sample_run by blast+
qed

theorem single_storage_writer_witness:
  "length (pw_sent sample_world) = 2 \<and> sorted_wrt (<) (map (fst \<circ> snd) (pw_sent sample_world))"
proof
  show "length (pw_sent sample_world) = 2" by code_simp
  show "sorted_wrt (<) (map (fst \<circ> snd) (pw_sent sample_world))"
    using single_storage_writer [OF sample_pool_reachable] by blast
qed

theorem accepted_mutation_answered_once_witness:
  "length (pw_outcomes sample_end ! 0) = 1 \<and> length (pw_outcomes sample_end ! 1) = 1"
proof -
  have "length (pw_requests sample_end) = 2 \<and> pw_queue sample_end = [] \<and> \<not> is_active 0 sample_end \<and> \<not> is_active 1 sample_end"
    by code_simp
  with accepted_mutation_answered_once [OF sample_end_pool_reachable] show ?thesis by auto
qed

theorem pool_answers_by_itself_witness:
  "length sample_own \<le> pool_rank sample_world \<and> length (pw_outcomes sample_world ! 1) = 0"
proof
  have "list_all own_event sample_own" by code_simp
  from pool_answers_by_itself [OF sample_pool_reachable this sample_own_run]
  show "length sample_own \<le> pool_rank sample_world" by blast
  show "length (pw_outcomes sample_world ! 1) = 0" by code_simp
qed

theorem values_are_fenced_witness:
  "\<exists>i p q. Child_message i (Some p) \<in> set sample_events \<and> (i, 0, q) \<in> set (pw_sent sample_world) \<and>
     answers p q (JStr ''saved'')"
proof -
  have "(0 :: nat) < length (pw_requests sample_world)" by code_simp
  moreover have "Inr (JStr ''saved'') \<in> set (pw_outcomes sample_world ! 0)" by code_simp
  ultimately show ?thesis using values_are_fenced [OF sample_pool_new sample_run] by blast
qed

theorem pool_requests_accepted_witness:
  "validate_request (pw_identity sample_pool) (request_of (pw_identity sample_pool) (pw_requests sample_world ! 0)) =
     Inr (request_of (pw_identity sample_pool) (pw_requests sample_world ! 0))"
proof -
  have m: "method_call (CreateRecentMemory [(''text'', JStr ''tea'')]) = Inr (None, Recent_memory_create [(''text'', JStr ''tea'')])"
    by simp
  have p: "pending_of 30000 ''fenne'' None (Recent_memory_create [(''text'', JStr ''tea'')])
      \<lparr>mo_key = ''k1'', mo_expected = None, mo_signal = None, mo_timeout = Some 500\<rparr> = Inr (pw_requests sample_world ! 0)"
    by code_simp
  have "\<not> unchecked_task (Recent_memory_create [(''text'', JStr ''tea'')])" by (simp add: feedback_of_def)
  with pool_requests_accepted [OF m p] show ?thesis by blast
qed

text \<open>The child answers, reports an error while nothing is asked of it, and gets the next request.\<close>

definition dying_events :: "pool_event list" where
  "dying_events = [sample_call ''k1'', Child_message 0 (sample_response ''k1''), Drain_task sample_drain, Child_error 0]"

definition dying_world :: pool_world where
  "dying_world = the (pool_run dying_events sample_pool)"

text \<open>What the runs are used for, evaluated at once.\<close>

definition dying_facts :: "pool_world \<Rightarrow> bool" where
  "dying_facts w \<longleftrightarrow> pw_active w = None \<and> pw_queue w = [] \<and> pw_blocked w = None \<and> pw_accepting w \<and>
     pw_child w = Some 0 \<and> sk_flight (slot_at w 0) \<noteq> None \<and> length (pw_requests w) = 1 \<and>
     \<not> isl (pending_of (pw_timeout w) ''fenne'' None (Recent_memory_create [(''text'', JStr ''tea'')])
       \<lparr>mo_key = ''k2'', mo_expected = None, mo_signal = None, mo_timeout = Some 500\<rparr>)"

lemma dying_reachable: "pool_reachable dying_world"
proof -
  have "pool_run dying_events sample_pool = Some dying_world" by code_simp
  then show ?thesis unfolding pool_reachable_def using sample_pool_new by blast
qed

theorem dying_child_gets_request_witness:
  "\<exists>w1 q. pool_step (sample_call ''k2'') dying_world = Some w1 \<and> (0, 1, q) \<in> set (pw_sent w1)"
proof -
  have m: "method_call (CreateRecentMemory [(''text'', JStr ''tea'')]) = Inr (None, Recent_memory_create [(''text'', JStr ''tea'')])"
    by simp
  have "dying_facts dying_world" by code_simp
  then have facts: "pw_active dying_world = None" "pw_queue dying_world = []" "pw_blocked dying_world = None"
    "pw_accepting dying_world" "pw_child dying_world = Some 0" "sk_flight (slot_at dying_world 0) \<noteq> None"
    and one: "length (pw_requests dying_world) = 1"
    and pending: "\<not> isl (pending_of (pw_timeout dying_world) ''fenne'' None (Recent_memory_create [(''text'', JStr ''tea'')])
      \<lparr>mo_key = ''k2'', mo_expected = None, mo_signal = None, mo_timeout = Some 500\<rparr>)"
    by (simp_all add: dying_facts_def)
  let ?o = "\<lparr>mo_key = ''k2'', mo_expected = None, mo_signal = None, mo_timeout = Some 500\<rparr>"
  obtain p where p: "pending_of (pw_timeout dying_world) ''fenne'' None (Recent_memory_create [(''text'', JStr ''tea'')]) ?o = Inr p"
    using pending by (metis isl_def obj_sumE)
  have o: "mo_signal ?o = None" "\<not> di_send_throws sample_drain" by (simp_all add: sample_drain_def)
  from dying_child_gets_request [OF dying_reachable facts m p o] show ?thesis
    unfolding sample_call_def one by blast
qed

end
