(* ===== verification/AgentSendRequests.thy ===== *)
theory AgentSendRequests
  imports DurableDelivery
begin

text \<open>
  \<open>prepareAgentSendRequest\<close> of \<open>src/agentSend.ts\<close>: the check of a request to send a message to a chat
  service, with what every channel asks for, and the request to the outbox it becomes. Objects are
  association lists; a property whose value is \<open>undefined\<close> is left out of them, as it is out of every
  digest.
\<close>

section \<open>Reading fields\<close>

type_synonym 'a checked = "(string, 'a) res"

definition assert_only_fields :: "json_object \<Rightarrow> string list \<Rightarrow> string \<Rightarrow> unit checked" where
  "assert_only_fields v allowed field =
     (let unexpected = filter (\<lambda>k. k \<notin> set allowed) (jkeys v)
      in if unexpected = [] then Inr ()
         else Inl (field @ '' contains unsupported fields: '' @ join_with '', '' unexpected @ ''.''))"

definition is_null :: "json option \<Rightarrow> bool" where
  "is_null v \<longleftrightarrow> v = None \<or> v = Some JNull"

definition object_value :: "json option \<Rightarrow> string \<Rightarrow> bool \<Rightarrow> json_object checked" where
  "object_value v field required =
     (case v of Some (JObj o') \<Rightarrow> Inr o'
      | _ \<Rightarrow> if \<not> required \<and> is_null v then Inr [] else Inl (field @ '' must be an object.''))"

definition optional_text :: "json option \<Rightarrow> string option" where
  "optional_text v = (let t = (if is_null v then [] else js_trim (js_string (the v))) in if t = [] then None else Some t)"

definition required_text :: "json option \<Rightarrow> string \<Rightarrow> string checked" where
  "required_text v field = (case optional_text v of Some t \<Rightarrow> Inr t | None \<Rightarrow> Inl (''Missing '' @ field @ ''.''))"

definition boolean_value :: "json option \<Rightarrow> string \<Rightarrow> bool checked" where
  "boolean_value v field =
     (if is_null v then Inr False else case v of Some (JBool b) \<Rightarrow> Inr b | _ \<Rightarrow> Inl (field @ '' must be a boolean.''))"

fun text_items :: "string \<Rightarrow> nat \<Rightarrow> json list \<Rightarrow> string list checked" where
  "text_items field n [] = Inr []"
| "text_items field n (v # vs) =
     bindr (required_text (Some v) (field @ ''['' @ int_str (int n) @ '']'')) (\<lambda>t.
     bindr (text_items field (Suc n) vs) (\<lambda>ts. Inr (t # ts)))"

definition string_list :: "json option \<Rightarrow> string \<Rightarrow> string list checked" where
  "string_list v field =
     (if is_null v then Inr [] else case v of Some (JArr vs) \<Rightarrow> text_items field 0 vs | _ \<Rightarrow> Inl (field @ '' must be an array.''))"

definition control_char :: "char \<Rightarrow> bool" where
  "control_char c \<longleftrightarrow> (of_char c :: nat) < 32 \<or> c = CHR 0x7F"

record send_sender =
  ss_type :: string
  ss_session :: string

definition agent_type_char :: "char \<Rightarrow> bool" where
  "agent_type_char c \<longleftrightarrow> is_lower c \<or> is_upper c \<or> is_digit c \<or> c \<in> set ''._-''"

definition sender_value :: "json option \<Rightarrow> send_sender checked" where
  "sender_value v =
     bindr (object_value v ''sender'' True) (\<lambda>s.
     bindr (assert_only_fields s [''agentType'', ''sessionId''] ''sender'') (\<lambda>_.
     bindr (required_text (jget s ''agentType'') ''sender.agentType'') (\<lambda>t.
     bindr (required_text (jget s ''sessionId'') ''sender.sessionId'') (\<lambda>i.
       if length t > 80 \<or> \<not> (is_lower (hd t) \<or> is_upper (hd t)) \<or> \<not> list_all agent_type_char t
       then Inl ''sender.agentType must be a stable Agent type identifier.''
       else if length i > 500 \<or> list_ex control_char i
       then Inl ''sender.sessionId must be a stable session identifier without control characters.''
       else Inr \<lparr>ss_type = t, ss_session = i\<rparr>))))"

text \<open>Objects without the properties that are \<open>undefined\<close>.\<close>

definition defined_fields :: "(string \<times> json option) list \<Rightarrow> json_object" where
  "defined_fields fs = concat (map (\<lambda>(k, v). case v of None \<Rightarrow> [] | Some x \<Rightarrow> [(k, x)]) fs)"

definition text_field :: "string option \<Rightarrow> json option" where
  "text_field = map_option JStr"

definition assign_fields :: "json_object \<Rightarrow> json_object \<Rightarrow> json_object" where
  "assign_fields base fs = foldl (\<lambda>m p. jset (fst p) (snd p) m) base fs"

section \<open>The payload\<close>

definition payload_fields :: "json_object \<Rightarrow> (json_object \<times> json_object) checked" where
  "payload_fields payload =
     bindr (assert_only_fields payload [''type'', ''text'', ''path'', ''url'', ''fileName''] ''payload'') (\<lambda>_.
     bindr (required_text (jget payload ''type'') ''payload.type'') (\<lambda>type.
     if type \<notin> {''text'', ''image'', ''voice'', ''file''} then Inl ''payload.type must be text, image, voice, or file.''
     else
     bindr (if type = ''text'' then bindr (required_text (jget payload ''text'') ''payload.text'') (\<lambda>t. Inr (Some t))
            else Inr (optional_text (jget payload ''text''))) (\<lambda>validated.
     let text = (case (validated, jget payload ''text'') of (Some _, Some (JStr s)) \<Rightarrow> Some s | _ \<Rightarrow> validated);
         path = optional_text (jget payload ''path''); url = optional_text (jget payload ''url'')
     in if type \<noteq> ''text'' \<and> path = None \<and> url = None
        then Inl (type @ '' payload requires payload.path or payload.url.'')
        else Inr (defined_fields [(''payloadType'', Some (JStr type)), (''text'', text_field text)],
          defined_fields [(''type'', Some (JStr type)), (''text'', text_field text), (''path'', text_field path),
            (''url'', text_field url), (''fileName'', text_field (optional_text (jget payload ''fileName'')))]))))"

section \<open>The channels\<close>

text \<open>What a channel makes of the parameters: the target, the further fields of the internal request and of its
  context, the descriptions of images, and whether another reply is allowed.\<close>

record channel_fields =
  cf_target :: json_object
  cf_internal :: json_object
  cf_context :: json_object
  cf_payload :: json_object
  cf_images :: "string list"
  cf_additional :: bool

definition plain_channel :: "json_object \<Rightarrow> json_object \<Rightarrow> json_object \<Rightarrow> channel_fields" where
  "plain_channel target internal context =
     \<lparr>cf_target = target, cf_internal = internal, cf_context = context, cf_payload = [], cf_images = [],
      cf_additional = False\<rparr>"

definition napcat_params :: "send_sender \<Rightarrow> json_object \<Rightarrow> channel_fields checked" where
  "napcat_params sender params =
     bindr (assert_only_fields params [''target'', ''groupId'', ''userId'', ''instanceId'', ''replyToMessageId'',
       ''replyImageDescriptions'', ''allowAdditionalReply''] ''params'') (\<lambda>_.
     bindr (required_text (jget params ''target'') ''params.target'') (\<lambda>target.
     if target \<noteq> ''group'' \<and> target \<noteq> ''private'' then Inl ''params.target must be group or private for napcat.''
     else
     bindr (if target = ''group'' then bindr (required_text (jget params ''groupId'') ''params.groupId'') (\<lambda>g. Inr (Some g))
            else Inr None) (\<lambda>group.
     bindr (if target = ''private'' then bindr (required_text (jget params ''userId'') ''params.userId'') (\<lambda>u. Inr (Some u))
            else Inr None) (\<lambda>user.
     let reply = jget params ''replyToMessageId'' in
     if target = ''group'' \<and> reply = None
     then Inl (''NapCat group sends must include params.replyToMessageId. '' @
       ''Use the source QQ message ID whenever the message can be quoted, '' @
       ''or pass an empty string ('' @ [CHR 0x22, CHR 0x22] @ '') for an intentional unquoted group message.'')
     else if (case reply of None \<Rightarrow> False | Some (JStr _) \<Rightarrow> False | Some (JNum _) \<Rightarrow> False | _ \<Rightarrow> True)
     then Inl (''params.replyToMessageId must be a QQ message ID string/number, '' @
       ''or an empty string for an intentional unquoted group message.'')
     else
     let quoted = optional_text reply in
     bindr (string_list (jget params ''replyImageDescriptions'') ''params.replyImageDescriptions'') (\<lambda>images.
     bindr (boolean_value (jget params ''allowAdditionalReply'') ''params.allowAdditionalReply'') (\<lambda>additional.
     if target = ''group'' \<and> ss_type sender = ''message_processing'' \<and> quoted = None
     then Inl (''message_processing NapCat group sends require a non-empty params.replyToMessageId '' @
       ''so the reply stays attached to its source message.'')
     else let instance' = text_field (optional_text (jget params ''instanceId'')) in
       Inr \<lparr>cf_target = defined_fields [(''target'', Some (JStr target)), (''groupId'', text_field group),
           (''userId'', text_field user), (''instanceId'', instance'), (''replyToMessageId'', text_field quoted)],
         cf_internal = defined_fields [(''adapterType'', Some (JStr ''napcat'')), (''targetType'', Some (JStr target)),
           (''groupId'', text_field group), (''userId'', text_field user), (''instanceId'', instance'),
           (''messageId'', text_field quoted)],
         cf_context = [(''replyToSource'', JBool (quoted \<noteq> None))], cf_payload = [], cf_images = images,
         cf_additional = additional\<rparr>))))))"

definition chat_params :: "string \<Rightarrow> string \<Rightarrow> bool \<Rightarrow> json_object \<Rightarrow> channel_fields checked" where
  "chat_params adapter chat_field req params =
     bindr (assert_only_fields params ([''chatId'', ''userId''] @ (if req then [''reqId''] else [])) ''params'') (\<lambda>_.
     bindr (required_text (jget params ''chatId'') ''params.chatId'') (\<lambda>chat.
     let user = text_field (optional_text (jget params ''userId'')) in
     Inr (plain_channel (defined_fields [(''chatId'', Some (JStr chat)), (''userId'', user)])
       (defined_fields ([(''adapterType'', Some (JStr adapter)), (''targetType'', Some (JStr ''group'')),
           (''groupId'', Some (JStr chat)), (chat_field, Some (JStr chat)), (''userId'', user)] @
         (if req then [(''wecomReqId'', text_field (optional_text (jget params ''reqId'')))] else []))) [])))"

definition weixin_params :: "json_object \<Rightarrow> channel_fields checked" where
  "weixin_params params =
     bindr (assert_only_fields params [''sessionId'', ''userId''] ''params'') (\<lambda>_.
     bindr (required_text (jget params ''sessionId'') ''params.sessionId'') (\<lambda>session.
     let user = optional_text (jget params ''userId'') in
     Inr (plain_channel (defined_fields [(''sessionId'', Some (JStr session)), (''userId'', text_field user)])
       [(''adapterType'', JStr ''weixin''), (''targetType'', JStr ''private''),
        (''userId'', JStr (case user of None \<Rightarrow> session | Some u \<Rightarrow> u)), (''weixinSessionId'', JStr session),
        (''sessionId'', JStr session)] [])))"

definition rabilink_params :: "json_object \<Rightarrow> channel_fields checked" where
  "rabilink_params params =
     bindr (assert_only_fields params [''proactive'', ''sourceMessageId'', ''source'', ''targetDeviceIds'',
       ''targetDeviceKinds'', ''presentation'', ''priority''] ''params'') (\<lambda>_.
     bindr (boolean_value (jget params ''proactive'') ''params.proactive'') (\<lambda>proactive.
     let source = optional_text (jget params ''sourceMessageId'') in
     bindr (string_list (jget params ''targetDeviceIds'') ''params.targetDeviceIds'') (\<lambda>ids.
     bindr (string_list (jget params ''targetDeviceKinds'') ''params.targetDeviceKinds'') (\<lambda>kinds.
     if \<not> proactive \<and> source = None then Inl ''RabiLink non-proactive sends require params.sourceMessageId.''
     else if ids = [] \<and> kinds = []
     then Inl ''RabiLink sends require params.targetDeviceIds or params.targetDeviceKinds.''
     else
     bindr (string_list (jget params ''presentation'') ''params.presentation'') (\<lambda>presentation.
     let devices = [(''targetDeviceIds'', Some (JArr (map JStr ids))), (''targetDeviceKinds'', Some (JArr (map JStr kinds)))] in
     Inr (plain_channel
       (defined_fields ([(''proactive'', Some (JBool proactive)), (''sourceMessageId'', text_field source)] @ devices))
       (defined_fields ([(''adapterType'', Some (JStr ''rabilink'')), (''targetType'', Some (JStr ''rabilink'')),
           (''messageId'', text_field source), (''proactive'', Some (JBool proactive)),
           (''source'', text_field (optional_text (jget params ''source'')))] @ devices @
         [(''presentation'', Some (JArr (map JStr presentation))),
          (''priority'', text_field (optional_text (jget params ''priority'')))])) []))))))"

definition speech_params :: "json_object \<Rightarrow> channel_fields checked" where
  "speech_params params =
     bindr (assert_only_fields params [''sessionId''] ''params'') (\<lambda>_.
     let session = text_field (optional_text (jget params ''sessionId'')) in
     Inr (plain_channel (defined_fields [(''sessionId'', session)])
       (defined_fields [(''adapterType'', Some (JStr ''speech'')), (''targetType'', Some (JStr ''voice_transcript'')),
         (''sessionId'', session)])
       (defined_fields [(''adapterType'', Some (JStr ''speech'')), (''sessionId'', session),
         (''characterTtsDialogue'', Some (JBool True))])))"

definition fennenote_params :: "json_object \<Rightarrow> channel_fields checked" where
  "fennenote_params params =
     bindr (assert_only_fields params [''sessionId'', ''mode''] ''params'') (\<lambda>_.
     bindr (required_text (jget params ''sessionId'') ''params.sessionId'') (\<lambda>session.
     bindr (required_text (jget params ''mode'') ''params.mode'') (\<lambda>mode.
     if mode \<noteq> ''message'' \<and> mode \<noteq> ''playback'' then Inl ''params.mode must be message or playback for fennenote.''
     else Inr ((plain_channel [(''sessionId'', JStr session), (''mode'', JStr mode)]
       [(''adapterType'', JStr ''fennenote''), (''targetType'', JStr ''voice_transcript''), (''sessionId'', JStr session)]
       [(''adapterType'', JStr ''fennenote''), (''sessionId'', JStr session), (''routeKind'', JStr ''voice_transcript'')])
       \<lparr>cf_payload := if mode = ''playback'' then [(''play'', JBool True)] else []\<rparr>))))"

definition role_panel_params :: "json_object \<Rightarrow> channel_fields checked" where
  "role_panel_params params =
     bindr (assert_only_fields params [''roleId'', ''messageId''] ''params'') (\<lambda>_.
     bindr (required_text (jget params ''roleId'') ''params.roleId'') (\<lambda>role.
     let message = text_field (optional_text (jget params ''messageId'')) in
     Inr (plain_channel (defined_fields [(''roleId'', Some (JStr role)), (''messageId'', message)])
       (defined_fields [(''adapterType'', Some (JStr ''rolePanel'')), (''targetType'', Some (JStr ''role_panel'')),
         (''roleId'', Some (JStr role)), (''messageId'', message)])
       [(''targetType'', JStr ''role_panel''), (''roleId'', JStr role)])))"

definition plan_feedback_params :: "json_object \<Rightarrow> channel_fields checked" where
  "plan_feedback_params params =
     bindr (assert_only_fields params [''roleId'', ''planId'', ''stepId'', ''feedbackId'', ''kind''] ''params'') (\<lambda>_.
     bindr (required_text (jget params ''roleId'') ''params.roleId'') (\<lambda>role.
     bindr (required_text (jget params ''planId'') ''params.planId'') (\<lambda>plan.
     bindr (required_text (jget params ''kind'') ''params.kind'') (\<lambda>kind.
     if kind \<noteq> ''guidance'' \<and> kind \<noteq> ''approval''
     then Inl ''params.kind must be guidance or approval for plan_feedback.''
     else let step = text_field (optional_text (jget params ''stepId''));
         feedback = text_field (optional_text (jget params ''feedbackId'')) in
     Inr (plain_channel
       (defined_fields [(''roleId'', Some (JStr role)), (''planId'', Some (JStr plan)), (''stepId'', step),
         (''feedbackId'', feedback), (''kind'', Some (JStr kind))])
       [(''adapterType'', JStr ''planFeedback''), (''targetType'', JStr ''plan_feedback''), (''roleId'', JStr role)]
       (defined_fields [(''targetType'', Some (JStr ''plan_feedback'')), (''roleId'', Some (JStr role)),
         (''planId'', Some (JStr plan)), (''stepId'', step), (''planFeedbackId'', feedback),
         (''planFeedbackKind'', Some (JStr kind))]))))))"

definition send_channels :: "string list" where
  "send_channels = [''napcat'', ''wecom'', ''weixin'', ''feishu'', ''rabilink'', ''speech'', ''fennenote'', ''role_panel'',
     ''plan_feedback'']"

definition channel_params :: "send_sender \<Rightarrow> string \<Rightarrow> json_object \<Rightarrow> channel_fields checked" where
  "channel_params sender channel params =
     (if channel = ''napcat'' then napcat_params sender params
      else if channel = ''wecom'' then chat_params ''wecom'' ''wecomChatId'' True params
      else if channel = ''feishu'' then chat_params ''feishu'' ''feishuChatId'' False params
      else if channel = ''weixin'' then weixin_params params
      else if channel = ''rabilink'' then rabilink_params params
      else if channel = ''speech'' then speech_params params
      else if channel = ''fennenote'' then fennenote_params params
      else if channel = ''role_panel'' then role_panel_params params
      else plan_feedback_params params)"

section \<open>The request\<close>

record normalized_send =
  nm_delivery :: string
  nm_sender :: send_sender
  nm_route :: string
  nm_channel :: string
  nm_additional :: bool
  nm_images :: "string list"
  nm_target :: json_object
  nm_style :: int
  nm_internal :: json_object

definition style_mode :: "json option \<Rightarrow> int checked" where
  "style_mode v =
     (if is_null v then Inr 1
      else if v = Some (JNum 0) then Inr 0 else if v = Some (JNum 1) then Inr 1
      else Inl ''styleValidation must be 1 (validate) or 0 (skip validation).'')"

definition normalize_agent_send :: "json_object \<Rightarrow> normalized_send checked" where
  "normalize_agent_send request =
     bindr (assert_only_fields request [''deliveryId'', ''sender'', ''routeId'', ''channel'', ''params'', ''payload'',
       ''tracking'', ''styleValidation''] ''request'') (\<lambda>_.
     bindr (required_text (jget request ''deliveryId'') ''deliveryId'') (\<lambda>delivery.
     bindr (sender_value (jget request ''sender'')) (\<lambda>sender.
     bindr (required_text (jget request ''routeId'') ''routeId'') (\<lambda>route.
     bindr (required_text (jget request ''channel'') ''channel'') (\<lambda>channel.
     if channel \<notin> set send_channels then Inl (''Unsupported send channel: '' @ channel @ ''.'')
     else
     bindr (object_value (jget request ''params'') ''params'' True) (\<lambda>params.
     bindr (bindr (object_value (jget request ''payload'') ''payload'' True) payload_fields) (\<lambda>(reply, payload).
     bindr (object_value (jget request ''tracking'') ''tracking'' False) (\<lambda>tracking.
     bindr (style_mode (jget request ''styleValidation'')) (\<lambda>style.
     bindr (assert_only_fields tracking [''requirementId'', ''sendContextReviewToken''] ''tracking'') (\<lambda>_.
     let requirement = defined_fields [(''messageProcessingRequirementId'', text_field (optional_text (jget tracking ''requirementId'')))] in
     bindr (channel_params sender channel params) (\<lambda>c.
       Inr \<lparr>nm_delivery = delivery, nm_sender = sender, nm_route = route, nm_channel = channel,
         nm_additional = cf_additional c, nm_images = cf_images c, nm_target = cf_target c, nm_style = style,
         nm_internal = assign_fields
           (reply @ [(''payload'', JObj (payload @ cf_payload c)), (''deliveryId'', JStr delivery),
             (''senderAgentType'', JStr (ss_type sender)), (''senderSessionId'', JStr (ss_session sender)),
             (''routeProfileId'', JStr route), (''explicitTarget'', JBool True), (''sendChannel'', JStr channel),
             (''replyContext'', JObj (assign_fields requirement (cf_context c)))])
           (cf_internal c)\<rparr>)))))))))))"

end
