(* ===== verification/AgentSends.thy ===== *)
theory AgentSends
  imports AgentSendRequests DeliveryProtocol EventMachines
begin

text \<open>
  \<open>src/manager/agentSendIdempotency.ts\<close>: one answer for one send. Above the durable delivery of a
  request, whose steps are those of \<open>DeliveryProtocol\<close> over the receipt file of its delivery id, the Manager
  lets requests with the same content share one delivery for two minutes, and refuses a second reply to a
  quoted group message for ten. Both memories are lost when the Manager restarts; the replies are then
  read back from the receipts. The promise of a delivery is named by its place. Times are milliseconds; time and timers come
  only when no caller of a settled delivery is still to go on.
\<close>

section \<open>Data\<close>

definition content_window :: int where
  "content_window = 2 * 60 * 1000"

definition reply_window :: int where
  "reply_window = 10 * 60 * 1000"

record recent_content =
  rk_promise :: nat
  rk_expires :: int

text \<open>The timer of an entry knows it by its identity; an entry read from a receipt has none.\<close>

record recent_reply =
  ry_delivery :: string
  ry_fingerprint :: string
  ry_result :: json_object
  ry_expires :: int
  ry_timer :: "nat option"

datatype promise_state = Running | Resolved json_object | Rejected string

record send_promise =
  pz_key :: "string option"
  pz_start :: int
  pz_state :: promise_state

datatype answer_state = Answer_completed | Answer_missing | Answer_pending pending_state

record send_answer =
  an_code :: int
  an_result :: json_object
  an_delivery :: string
  an_state :: answer_state
  an_duplicate :: bool

text \<open>A call of \<open>executeIdempotentAgentSend\<close>: the phase of its durable delivery, the promise it awaits with
  whether it only joined it, and its answer with the time of it.\<close>

record send_call =
  ac_prepared :: normalized_send
  ac_request :: json_object
  ac_call :: delivery_call
  ac_phase :: phase
  ac_heartbeat :: bool
  ac_awaits :: "(nat \<times> bool) option"
  ac_duplicate :: bool
  ac_answer :: "(int \<times> send_answer) option"

text \<open>What a run of the Manager that has ended had promised and answered: no part of the program's state,
  kept to compare with.\<close>

record send_life =
  lf_promises :: "send_promise list"
  lf_calls :: "send_call list"

record send_world =
  wd_now :: int
  wd_content :: "(string, recent_content) jmap"
  wd_replies :: "(string, recent_reply) jmap"
  wd_hydrated :: bool
  wd_promises :: "send_promise list"
  wd_calls :: "send_call list"
  wd_files :: "(string, receipt_file) jmap"
  wd_timers :: nat
  wd_past :: "send_life list"

text \<open>The hash, the root directory, and whether every delivery is over within the window of its content.\<close>

record send_env =
  nv_sha :: "string \<Rightarrow> string"
  nv_root :: string
  nv_prompt :: bool

definition start_sends :: "int \<Rightarrow> (string, receipt_file) jmap \<Rightarrow> send_world" where
  "start_sends now files = \<lparr>wd_now = now, wd_content = [], wd_replies = [], wd_hydrated = False, wd_promises = [],
     wd_calls = [], wd_files = files, wd_timers = 0, wd_past = []\<rparr>"

section \<open>Keys\<close>

text \<open>\<open>replace(/\s+/g, " ")\<close>.\<close>

fun collapse_spaces :: "bool \<Rightarrow> string \<Rightarrow> string" where
  "collapse_spaces within [] = []"
| "collapse_spaces within (c # cs) =
     (if js_space c then (if within then [] else '' '') @ collapse_spaces True cs else c # collapse_spaces False cs)"

definition normalized_content :: "json option \<Rightarrow> json option" where
  "normalized_content v = (case v of
     Some (JObj p) \<Rightarrow>
       (case (jget p ''type'', jget p ''text'') of
          (Some (JStr t), Some (JStr s)) \<Rightarrow>
            Some (JObj (if t = ''text'' then jset ''text'' (JStr (collapse_spaces False (js_trim s))) p else p))
        | _ \<Rightarrow> Some (JObj p))
   | _ \<Rightarrow> v)"

definition keyed :: "send_env \<Rightarrow> json_object \<Rightarrow> string" where
  "keyed env fs = nv_root env @ '':'' @ nv_sha env (stable_json (JObj fs))"

definition content_key :: "send_env \<Rightarrow> normalized_send \<Rightarrow> json_object \<Rightarrow> string option" where
  "content_key env n request =
     (if ss_type (nm_sender n) \<noteq> ''message_processing'' then None
      else Some (keyed env (defined_fields [(''routeId'', Some (JStr (nm_route n))), (''channel'', Some (JStr (nm_channel n))),
        (''target'', Some (JObj (nm_target n))), (''payload'', normalized_content (jget request ''payload''))])))"

definition content_fingerprint :: "send_env \<Rightarrow> json_object \<Rightarrow> string" where
  "content_fingerprint env request =
     nv_sha env (case normalized_content (jget request ''payload'') of None \<Rightarrow> ''null'' | Some v \<Rightarrow> stable_json v)"

definition reply_key_for :: "send_env \<Rightarrow> string \<Rightarrow> string \<Rightarrow> json_object \<Rightarrow> string option" where
  "reply_key_for env route channel target =
     (if channel \<noteq> ''napcat'' \<or> jget target ''target'' \<noteq> Some (JStr ''group'') then None
      else case (optional_text (jget target ''groupId''), optional_text (jget target ''replyToMessageId'')) of
        (Some g, Some m) \<Rightarrow> Some (keyed env [(''routeId'', JStr route), (''channel'', JStr channel), (''groupId'', JStr g),
            (''replyToMessageId'', JStr m)])
      | _ \<Rightarrow> None)"

definition reply_key :: "send_env \<Rightarrow> normalized_send \<Rightarrow> string option" where
  "reply_key env n = reply_key_for env (nm_route n) (nm_channel n) (nm_target n)"

definition reply_key_of_result :: "send_env \<Rightarrow> json_object \<Rightarrow> string option" where
  "reply_key_of_result env result =
     (case (jget result ''channel'', jget result ''target'', optional_text (jget result ''routeId'')) of
        (Some (JStr channel), Some (JObj target), Some route) \<Rightarrow> reply_key_for env route channel target
      | _ \<Rightarrow> None)"

section \<open>Recent replies\<close>

definition was_sent :: "json_object \<Rightarrow> bool" where
  "was_sent result \<longleftrightarrow> jget result ''status'' = Some (JStr ''sent'')"

fun hydrate_file :: "send_env \<Rightarrow> int \<Rightarrow> receipt_file \<Rightarrow> (string, recent_reply) jmap \<Rightarrow> (string, recent_reply) jmap" where
  "hydrate_file env now (Receipt_file r mtime) m =
     (case (rc_state r, rc_result r) of
        (Completed, Some (JObj result)) \<Rightarrow>
          let expires = rc_updated r + reply_window in
          if \<not> was_sent result \<or> expires \<le> now then m
          else (case reply_key_of_result env result of
              None \<Rightarrow> m
            | Some key \<Rightarrow>
                (case jget m key of
                   Some e \<Rightarrow> if ry_expires e \<ge> expires then m
                     else jset key \<lparr>ry_delivery = rc_id r, ry_fingerprint = [], ry_result = result, ry_expires = expires, ry_timer = None\<rparr> m
                 | None \<Rightarrow> jset key \<lparr>ry_delivery = rc_id r, ry_fingerprint = [], ry_result = result, ry_expires = expires, ry_timer = None\<rparr> m))
      | _ \<Rightarrow> m)"
| "hydrate_file env now _ m = m"

definition hydrate :: "send_env \<Rightarrow> send_world \<Rightarrow> send_world" where
  "hydrate env w =
     (if wd_hydrated w then w
      else w\<lparr>wd_hydrated := True, wd_replies := foldl (\<lambda>m f. hydrate_file env (wd_now w) f m) (wd_replies w) (jvals (wd_files w))\<rparr>)"

definition read_recent_reply :: "send_env \<Rightarrow> string option \<Rightarrow> send_world \<Rightarrow> recent_reply option \<times> send_world" where
  "read_recent_reply env key w =
     (case key of
        None \<Rightarrow> (None, w)
      | Some k \<Rightarrow>
          let w1 = hydrate env w in
          (case jget (wd_replies w1) k of
             None \<Rightarrow> (None, w1)
           | Some e \<Rightarrow> if ry_expires e > wd_now w1 then (Some e, w1)
               else (None, w1\<lparr>wd_replies := jdel k (wd_replies w1)\<rparr>)))"

definition remember_reply :: "string option \<Rightarrow> string \<Rightarrow> string \<Rightarrow> json_object \<Rightarrow> send_world \<Rightarrow> send_world" where
  "remember_reply key delivery fingerprint result w =
     (case key of
        None \<Rightarrow> w
      | Some k \<Rightarrow>
          if \<not> was_sent result then w
          else w\<lparr>wd_replies := jset k \<lparr>ry_delivery = delivery, ry_fingerprint = fingerprint, ry_result = result,
              ry_expires = wd_now w + reply_window, ry_timer = Some (wd_timers w)\<rparr> (wd_replies w),
            wd_timers := wd_timers w + 1\<rparr>)"

section \<open>Answers\<close>

definition status_code_for :: "json_object \<Rightarrow> int" where
  "status_code_for result =
     (if was_sent result then 202
      else if jget result ''status'' = Some (JStr ''draft'') then 200
      else if jget result ''status'' = Some (JStr ''failed'') then 502 else 403)"

definition completed_answer :: "string \<Rightarrow> json_object \<Rightarrow> bool \<Rightarrow> send_answer" where
  "completed_answer delivery result duplicate =
     \<lparr>an_code = status_code_for result, an_result = result, an_delivery = delivery, an_state = Answer_completed,
      an_duplicate = duplicate\<rparr>"

definition open_answer :: "string \<Rightarrow> answer_state \<Rightarrow> string \<Rightarrow> int \<Rightarrow> bool \<Rightarrow> send_answer" where
  "open_answer delivery state reason code duplicate =
     \<lparr>an_code = code, an_result = [(''ok'', JBool False), (''status'', JStr ''failed''), (''reason'', JStr reason)],
      an_delivery = delivery, an_state = state, an_duplicate = duplicate\<rparr>"

text \<open>\<open>{...result, deliveryId, sender, channel, routeId, target}\<close>.\<close>

definition with_request :: "string \<Rightarrow> normalized_send \<Rightarrow> json_object \<Rightarrow> json_object" where
  "with_request delivery n result = assign_fields result
     [(''deliveryId'', JStr delivery),
      (''sender'', JObj [(''agentType'', JStr (ss_type (nm_sender n))), (''sessionId'', JStr (ss_session (nm_sender n)))]),
      (''channel'', JStr (nm_channel n)), (''routeId'', JStr (nm_route n)), (''target'', JObj (nm_target n))]"

definition recent_reply_answer :: "string \<Rightarrow> normalized_send \<Rightarrow> string \<Rightarrow> recent_reply \<Rightarrow> send_answer" where
  "recent_reply_answer delivery n fingerprint e =
     (if ry_fingerprint e = fingerprint then completed_answer delivery (with_request delivery n (ry_result e)) True
      else open_answer delivery (Answer_pending Conflict)
        (''The quoted group message already received a recent reply via deliveryId '' @ ry_delivery e @ ''. '' @
         ''Do not send another paraphrase. Set params.allowAdditionalReply=true only when this is intentionally new '' @
         ''follow-up information.'') 409 True)"

section \<open>The content of a message\<close>

definition upd_send :: "nat \<Rightarrow> (send_call \<Rightarrow> send_call) \<Rightarrow> send_world \<Rightarrow> send_world" where
  "upd_send k f w = w\<lparr>wd_calls := (wd_calls w)[k := f (wd_calls w ! k)]\<rparr>"

text \<open>\<open>coalesceMessageProcessingContent\<close> up to its \<open>await\<close>: a live entry is joined, otherwise the message is delivered.\<close>

definition live_entry :: "string option \<Rightarrow> send_world \<Rightarrow> recent_content option" where
  "live_entry key w = (case key of None \<Rightarrow> None
     | Some k \<Rightarrow> (case jget (wd_content w) k of Some e \<Rightarrow> if rk_expires e > wd_now w then Some e else None | None \<Rightarrow> None))"

definition coalesce :: "string option \<Rightarrow> nat \<Rightarrow> send_world \<Rightarrow> send_world" where
  "coalesce key k w =
     (case live_entry key w of
        Some e \<Rightarrow> upd_send k (\<lambda>c. c\<lparr>ac_awaits := Some (rk_promise e, True)\<rparr>) w
      | None \<Rightarrow>
          let p = length (wd_promises w);
              w1 = w\<lparr>wd_promises := wd_promises w @ [\<lparr>pz_key = key, pz_start = wd_now w, pz_state = Running\<rparr>],
                wd_content := (case key of None \<Rightarrow> wd_content w
                  | Some c \<Rightarrow> jset c \<lparr>rk_promise = p, rk_expires = wd_now w + content_window\<rparr> (jdel c (wd_content w)))\<rparr>
          in upd_send k (\<lambda>c. c\<lparr>ac_awaits := Some (p, False)\<rparr>) w1)"

definition failed_send :: "promise_state \<Rightarrow> bool" where
  "failed_send s = (case s of Running \<Rightarrow> False | Resolved r \<Rightarrow> \<not> was_sent r | Rejected _ \<Rightarrow> True)"

text \<open>What follows the \<open>await\<close>: the entry under the key of a failed send is forgotten.\<close>

definition forget_failed :: "nat \<Rightarrow> send_world \<Rightarrow> send_world" where
  "forget_failed p w =
     (case pz_key (wd_promises w ! p) of
        None \<Rightarrow> w
      | Some k \<Rightarrow> if failed_send (pz_state (wd_promises w ! p)) then w\<lparr>wd_content := jdel k (wd_content w)\<rparr> else w)"

section \<open>Calls\<close>

definition file_of :: "send_world \<Rightarrow> string \<Rightarrow> receipt_file" where
  "file_of w d = (case jget (wd_files w) d of None \<Rightarrow> No_file | Some f \<Rightarrow> f)"

definition put_file :: "string \<Rightarrow> receipt_file \<Rightarrow> send_world \<Rightarrow> send_world" where
  "put_file d f w = w\<lparr>wd_files := (if f = No_file then jdel d (wd_files w) else jset d f (wd_files w))\<rparr>"

definition result_object :: "json option \<Rightarrow> json_object" where
  "result_object v = (case v of Some (JObj r) \<Rightarrow> r | _ \<Rightarrow> [])"

text \<open>The end of a call, after its durable delivery.\<close>

definition finish_call :: "send_env \<Rightarrow> nat \<Rightarrow> outcome \<Rightarrow> send_world \<Rightarrow> send_world" where
  "finish_call env k out w =
     (let c = wd_calls w ! k; d = dc_id (ac_call c);
          answer = (\<lambda>a. upd_send k (\<lambda>c. c\<lparr>ac_answer := Some (wd_now w, a)\<rparr>))
      in case out of
           Out_completed dup v \<Rightarrow>
             answer (completed_answer d (result_object v) (dup \<or> ac_duplicate c))
               (remember_reply (reply_key env (ac_prepared c)) d (content_fingerprint env (ac_request c)) (result_object v) w)
         | Out_pending st dup reason \<Rightarrow>
             answer (open_answer d (Answer_pending st) reason (if st = Is_uncertain \<and> \<not> dup then 503 else 409) dup) w
         | Out_thrown \<Rightarrow> w)"

text \<open>\<open>inspectAgentSendDelivery\<close>, with which the Manager recovers a delivery: a result that is found is given the
  fields of the request.\<close>

definition inspected :: "normalized_send \<Rightarrow> recovery \<Rightarrow> recovery" where
  "inspected n found =
     (case found of Recovered v \<Rightarrow> Recovered (Some (JObj (with_request (nm_delivery n) n (result_object v)))) | _ \<Rightarrow> found)"

text \<open>A step of the durable delivery of a call. When it delivers, the content is looked up.\<close>

definition advance :: "send_env \<Rightarrow> nat \<Rightarrow> step_input \<Rightarrow> send_world \<Rightarrow> send_world" where
  "advance env k i w =
     (let c = wd_calls w ! k; d = dc_id (ac_call c) in
      case call_step (ac_call c) (i\<lparr>si_now := wd_now w, si_recovery := inspected (ac_prepared c) (si_recovery i)\<rparr>)
          (ac_phase c) (file_of w d) of
        ((ph, evs), f) \<Rightarrow>
          let w1 = put_file d f (upd_send k (\<lambda>c. c\<lparr>ac_phase := ph,
                ac_heartbeat := heartbeat_after (ac_phase c) ph (ac_heartbeat c)\<rparr>) w)
          in (case ph of
                Ph_done out \<Rightarrow> finish_call env k out w1
              | _ \<Rightarrow> if Ev_delivered \<in> set evs then coalesce (content_key env (ac_prepared c) (ac_request c)) k w1 else w1))"

definition send_options :: "json_object \<Rightarrow> bool \<Rightarrow> delivery_options" where
  "send_options request recover =
     \<lparr>do_id = (let v = jget request ''deliveryId'' in if js_truthy v then js_string (the v) else []),
      do_payload = JObj (filter (\<lambda>p. fst p \<noteq> ''deliveryId'') request), do_audit = None, do_recover = recover,
      do_recover_uncertain = False, do_retryable = (\<lambda>_. False), do_lease = None\<rparr>"

text \<open>\<open>executeIdempotentAgentSend\<close> up to the first \<open>await\<close> within the durable delivery. A request that is refused with an
  exception changes nothing.\<close>

definition prepare_send ::
  "send_env \<Rightarrow> json_object \<Rightarrow> string \<Rightarrow> string \<Rightarrow> int \<Rightarrow> bool \<Rightarrow> (normalized_send \<times> delivery_call) option" where
  "prepare_send env request execution host pid recover =
     (case (normalize_agent_send request, delivery_call_of (nv_sha env) execution host pid (send_options request recover)) of
        (Inr n, Inr dc) \<Rightarrow> Some (n, dc)
      | _ \<Rightarrow> None)"

definition send_message ::
  "send_env \<Rightarrow> json_object \<Rightarrow> string \<Rightarrow> string \<Rightarrow> int \<Rightarrow> bool \<Rightarrow> step_input \<Rightarrow> send_world \<Rightarrow> send_world" where
  "send_message env request execution host pid recover i w =
     (case prepare_send env request execution host pid recover of
        None \<Rightarrow> w
      | Some (n, dc) \<Rightarrow>
          let (recent, w1) = (if nm_additional n then (None, w) else read_recent_reply env (reply_key env n) w);
              c = \<lparr>ac_prepared = n, ac_request = request, ac_call = dc, ac_phase = Ph_start, ac_heartbeat = False,
                ac_awaits = None, ac_duplicate = False, ac_answer = None\<rparr>
          in (case recent of
                Some e \<Rightarrow> w1\<lparr>wd_calls := wd_calls w1 @ [c\<lparr>ac_answer := Some (wd_now w1,
                    recent_reply_answer (dc_id dc) n (content_fingerprint env request) e)\<rparr>]\<rparr>
              | None \<Rightarrow> advance env (length (wd_calls w1)) i (w1\<lparr>wd_calls := wd_calls w1 @ [c]\<rparr>)))"

text \<open>The continuation of a caller whose delivery has settled.\<close>

definition delivery_continues :: "send_env \<Rightarrow> nat \<Rightarrow> step_input \<Rightarrow> send_world \<Rightarrow> send_world" where
  "delivery_continues env k i w =
     (case ac_awaits (wd_calls w ! k) of
        None \<Rightarrow> w
      | Some (p, shared) \<Rightarrow>
          let c = wd_calls w ! k;
              w1 = upd_send k (\<lambda>c. c\<lparr>ac_awaits := None, ac_duplicate := (case pz_state (wd_promises w ! p) of Resolved _ \<Rightarrow> shared
                  | _ \<Rightarrow> ac_duplicate c)\<rparr>) (if shared then w else forget_failed p w)
          in advance env k (i\<lparr>si_delivered := (case pz_state (wd_promises w ! p) of
                 Resolved r \<Rightarrow> Delivered (Some (JObj (with_request (dc_id (ac_call c)) (ac_prepared c) r)))
               | Rejected m \<Rightarrow> Delivery_failed m
               | Running \<Rightarrow> Delivery_failed [])\<rparr>) w1)"

text \<open>\<open>agentSendReceiptResponse\<close>: the answer from the receipt alone, for a delivery id that is valid.\<close>

definition receipt_answer :: "string \<Rightarrow> send_world \<Rightarrow> send_answer" where
  "receipt_answer d w =
     (case read_receipt d (file_of w d) of
        None \<Rightarrow> open_answer d Answer_missing ''No idempotency receipt exists for this deliveryId.'' 404 False
      | Some r \<Rightarrow>
          (case rc_state r of
             Completed \<Rightarrow> completed_answer d (case rc_result r of Some v \<Rightarrow> result_object (Some v)
               | None \<Rightarrow> [(''ok'', JBool False), (''status'', JStr ''failed''),
                   (''reason'', JStr ''Completed idempotency receipt has no result.'')]) True
           | Uncertain \<Rightarrow> open_answer d (Answer_pending Is_uncertain)
               (text_or (rc_error r) ''The send result is uncertain; do not resend automatically.'') 409 True
           | _ \<Rightarrow> open_answer d (Answer_pending In_progress)
               ''The send is reserved or running; query again before any retry.'' 202 True))"

text \<open>\<open>findAgentSendTraces\<close>: the sent messages with an id, the latest first.\<close>

definition required_trace_text :: "json option \<Rightarrow> string \<Rightarrow> string checked" where
  "required_trace_text v field =
     (case optional_text v of
        None \<Rightarrow> Inl (''Missing '' @ field @ ''.'')
      | Some t \<Rightarrow> if length t > 500 \<or> list_ex control_char t then Inl (''Invalid '' @ field @ ''.'') else Inr t)"

definition trace_matches :: "string \<Rightarrow> string \<Rightarrow> string option \<Rightarrow> receipt \<Rightarrow> bool" where
  "trace_matches channel message route r \<longleftrightarrow>
     (case (rc_state r, rc_result r) of
        (Completed, Some (JObj result)) \<Rightarrow>
          jget result ''channel'' = Some (JStr channel) \<and> jget result ''sentMessageId'' = Some (JStr message) \<and>
          (case route of None \<Rightarrow> True | Some x \<Rightarrow> jget result ''routeId'' = Some (JStr x))
      | _ \<Rightarrow> False)"

definition find_traces :: "json_object \<Rightarrow> (string, receipt_file) jmap \<Rightarrow> receipt list checked" where
  "find_traces query files =
     bindr (required_trace_text (jget query ''channel'') ''channel'') (\<lambda>channel.
     bindr (required_trace_text (jget query ''sentMessageId'') ''sentMessageId'') (\<lambda>message.
     bindr (if optional_text (jget query ''routeId'') = None then Inr None
            else bindr (required_trace_text (jget query ''routeId'') ''routeId'') (\<lambda>t. Inr (Some t))) (\<lambda>route.
       Inr (take 100 (js_sort (\<lambda>l r. rc_updated r \<le> rc_updated l)
         (filter (trace_matches channel message route)
           (concat (map (\<lambda>f. case f of Receipt_file r _ \<Rightarrow> [r] | _ \<Rightarrow> []) (jvals files)))))))))"

section \<open>Runs\<close>

datatype send_event =
    Send json_object string string int bool step_input
  | Advance nat step_input
  | Settles nat promise_state
  | Continues nat step_input
  | Renews nat
  | Content_timer nat
  | Reply_timer nat
  | Passes int
  | Restart

text \<open>A caller that has still to go on after its delivery has settled.\<close>

definition to_continue :: "send_world \<Rightarrow> send_call \<Rightarrow> bool" where
  "to_continue w c = (case ac_awaits c of None \<Rightarrow> False | Some (p, _) \<Rightarrow> pz_state (wd_promises w ! p) \<noteq> Running)"

definition settled_world :: "send_world \<Rightarrow> bool" where
  "settled_world w \<longleftrightarrow> \<not> list_ex (to_continue w) (wd_calls w)"

definition in_time :: "int \<Rightarrow> send_promise \<Rightarrow> bool" where
  "in_time t p \<longleftrightarrow> pz_state p = Running \<longrightarrow> t < pz_start p + content_window"

fun send_step :: "send_env \<Rightarrow> send_event \<Rightarrow> send_world \<Rightarrow> send_world option" where
  "send_step env (Send request execution host pid recover i) w =
     Some (send_message env request execution host pid recover i w)"
| "send_step env (Advance k i) w =
     (if k < length (wd_calls w) \<and> ac_answer (wd_calls w ! k) = None \<and> ac_awaits (wd_calls w ! k) = None \<and>
        \<not> is_done (ac_phase (wd_calls w ! k)) then Some (advance env k i w) else None)"
| "send_step env (Settles p s) w =
     (if p < length (wd_promises w) \<and> pz_state (wd_promises w ! p) = Running \<and> s \<noteq> Running
      then Some (w\<lparr>wd_promises := (wd_promises w)[p := (wd_promises w ! p)\<lparr>pz_state := s\<rparr>]\<rparr>) else None)"
| "send_step env (Continues k i) w =
     (if k < length (wd_calls w) \<and> to_continue w (wd_calls w ! k) then Some (delivery_continues env k i w) else None)"
| "send_step env (Renews k) w =
     (if k < length (wd_calls w) \<and> ac_heartbeat (wd_calls w ! k)
      then (case renew_receipt (wd_now w) (ac_call (wd_calls w ! k)) False (file_of w (dc_id (ac_call (wd_calls w ! k)))) of
          (ok, f) \<Rightarrow> Some (put_file (dc_id (ac_call (wd_calls w ! k))) f (upd_send k (\<lambda>c. c\<lparr>ac_heartbeat := ok\<rparr>) w)))
      else None)"
| "send_step env (Content_timer p) w =
     (if p < length (wd_promises w) \<and> pz_start (wd_promises w ! p) + content_window \<le> wd_now w \<and> settled_world w
      then Some (case pz_key (wd_promises w ! p) of
          Some k \<Rightarrow> (case jget (wd_content w) k of
              Some e \<Rightarrow> if rk_promise e = p then w\<lparr>wd_content := jdel k (wd_content w)\<rparr> else w
            | None \<Rightarrow> w)
        | None \<Rightarrow> w) else None)"
| "send_step env (Reply_timer n) w =
     (if settled_world w
      then Some (w\<lparr>wd_replies := filter (\<lambda>(k, e). ry_timer e \<noteq> Some n \<or> wd_now w < ry_expires e) (wd_replies w)\<rparr>) else None)"
| "send_step env (Passes d) w =
     (if 0 \<le> d \<and> settled_world w \<and> (nv_prompt env \<longrightarrow> list_all (in_time (wd_now w + d)) (wd_promises w))
      then Some (w\<lparr>wd_now := wd_now w + d\<rparr>) else None)"
| "send_step env Restart w = Some ((start_sends (wd_now w) (wd_files w))
     \<lparr>wd_past := \<lparr>lf_promises = wd_promises w, lf_calls = wd_calls w\<rparr> # wd_past w\<rparr>)"

abbreviation send_run :: "send_env \<Rightarrow> send_event list \<Rightarrow> send_world \<Rightarrow> send_world option" where
  "send_run env \<equiv> run_events (send_step env)"

end
