(* ===== verification/AgentSendMemories.thy ===== *)
theory AgentSendMemories
  imports AgentSends
begin

text \<open>
  The two memories of \<open>src/manager/agentSendIdempotency.ts\<close> as invariants of every run: the entries of the
  content that is being delivered, and the replies that were sent within ten minutes. They hold between two
  starts of the Manager; what is on file outlives them (\<open>AgentSendReceipts\<close>).
\<close>

section \<open>One delivery for one content\<close>

text \<open>A promise counts for its content while it runs, while the caller that started it has still to go on, and
  when it has sent the message.\<close>

definition owner_waits :: "(nat \<times> bool) option list \<Rightarrow> nat \<Rightarrow> bool" where
  "owner_waits aw p \<longleftrightarrow> Some (p, False) \<in> set aw"

definition counts :: "send_promise list \<Rightarrow> (nat \<times> bool) option list \<Rightarrow> nat \<Rightarrow> bool" where
  "counts ps aw p \<longleftrightarrow> owner_waits aw p \<or> \<not> failed_send (pz_state (ps ! p))"

definition entries_sound :: "(string, recent_content) jmap \<Rightarrow> send_promise list \<Rightarrow> bool" where
  "entries_sound m ps \<longleftrightarrow> (\<forall>k e. jget m k = Some e \<longrightarrow> rk_promise e < length ps \<and>
     pz_key (ps ! rk_promise e) = Some k \<and> rk_expires e = pz_start (ps ! rk_promise e) + content_window)"

definition entries_current :: "int \<Rightarrow> (string, recent_content) jmap \<Rightarrow> send_promise list \<Rightarrow> (nat \<times> bool) option list \<Rightarrow> bool" where
  "entries_current now m ps aw \<longleftrightarrow> (\<forall>p k. p < length ps \<longrightarrow> pz_key (ps ! p) = Some k \<longrightarrow> counts ps aw p \<longrightarrow>
     now < pz_start (ps ! p) + content_window \<longrightarrow> map_option rk_promise (jget m k) = Some p)"

definition within_window :: "int \<Rightarrow> send_promise list \<Rightarrow> (nat \<times> bool) option list \<Rightarrow> bool" where
  "within_window now ps aw \<longleftrightarrow> (\<forall>p < length ps. owner_waits aw p \<or> pz_state (ps ! p) = Running \<longrightarrow>
     now < pz_start (ps ! p) + content_window)"

definition waits_sound :: "send_promise list \<Rightarrow> (nat \<times> bool) option list \<Rightarrow> bool" where
  "waits_sound ps aw \<longleftrightarrow> (\<forall>p j. Some (p, j) \<in> set aw \<longrightarrow> p < length ps) \<and>
     (\<forall>p. count_list aw (Some (p, False)) \<le> 1)"

definition delivered_once :: "send_promise list \<Rightarrow> bool" where
  "delivered_once ps \<longleftrightarrow> (\<forall>q < length ps. \<forall>p < q. pz_key (ps ! p) \<noteq> None \<longrightarrow> pz_key (ps ! p) = pz_key (ps ! q) \<longrightarrow>
     pz_start (ps ! q) < pz_start (ps ! p) + content_window \<longrightarrow> failed_send (pz_state (ps ! p)))"

definition content_ok :: "int \<Rightarrow> (string, recent_content) jmap \<Rightarrow> send_promise list \<Rightarrow> (nat \<times> bool) option list \<Rightarrow> bool" where
  "content_ok now m ps aw \<longleftrightarrow> entries_sound m ps \<and> entries_current now m ps aw \<and> within_window now ps aw \<and>
     waits_sound ps aw \<and> delivered_once ps"

lemmas content_defs = content_ok_def entries_sound_def entries_current_def within_window_def waits_sound_def
  delivered_once_def counts_def owner_waits_def

lemma content_ok_start: "content_ok now [] [] []"
  by (simp add: content_defs)

text \<open>Waiting for less.\<close>

lemma content_ok_fewer:
  assumes ok: "content_ok now m ps aw" and sub: "\<And>p j. Some (p, j) \<in> set aw' \<Longrightarrow> Some (p, j) \<in> set aw \<or> (j \<and> p < length ps)"
    and cnt: "\<And>p. count_list aw' (Some (p, False)) \<le> count_list aw (Some (p, False))"
  shows "content_ok now m ps aw'"
proof -
  have owner: "owner_waits aw' p \<Longrightarrow> owner_waits aw p" for p using sub by (auto simp: owner_waits_def)
  have "entries_current now m ps aw'"
    using ok owner unfolding content_ok_def entries_current_def counts_def by blast
  moreover have "within_window now ps aw'" using ok owner unfolding content_ok_def within_window_def by blast
  moreover have "waits_sound ps aw'"
    using ok sub le_trans [OF cnt] unfolding content_ok_def waits_sound_def by blast
  ultimately show ?thesis using ok by (simp add: content_ok_def)
qed

lemma count_list_update:
  assumes "k < length xs"
  shows "count_list (xs[k := y]) z + (if xs ! k = z then 1 else 0) = count_list xs z + (if y = z then 1 else 0)"
proof -
  have "count_list xs z = count_list (take k xs @ xs ! k # drop (Suc k) xs) z"
    using id_take_nth_drop [OF assms] by simp
  then show ?thesis by (simp add: upd_conv_take_nth_drop [OF assms])
qed

lemma count_list_update_le: "k < length xs \<Longrightarrow> y \<noteq> z \<Longrightarrow> count_list (xs[k := y]) z \<le> count_list xs z"
  using count_list_update [of k xs y z] by (simp split: if_splits)

lemma content_ok_drop_wait:
  assumes "content_ok now m ps aw" "k < length aw" shows "content_ok now m ps (aw[k := None])"
  using assms(2) by (intro content_ok_fewer [OF assms(1)] count_list_update_le)
    (auto dest: set_update_subset_insert [THEN subsetD])

lemma content_ok_join:
  assumes "content_ok now m ps aw" "k < length aw" "p < length ps"
  shows "content_ok now m ps (aw[k := Some (p, True)])"
  using assms(2,3) by (intro content_ok_fewer [OF assms(1)] count_list_update_le)
    (auto dest: set_update_subset_insert [THEN subsetD])

lemma content_ok_new_call:
  assumes "content_ok now m ps aw" shows "content_ok now m ps (aw @ [None])"
  by (intro content_ok_fewer [OF assms]) (auto simp: count_list_append)

text \<open>A delivery that begins because no entry is live.\<close>

definition no_live :: "int \<Rightarrow> (string, recent_content) jmap \<Rightarrow> string option \<Rightarrow> bool" where
  "no_live now m key \<longleftrightarrow> (\<forall>c e. key = Some c \<longrightarrow> jget m c = Some e \<longrightarrow> rk_expires e \<le> now)"

lemma no_live_old:
  assumes ok: "content_ok now m ps aw" and nl: "no_live now m (Some c)" and p: "p < length ps" "pz_key (ps ! p) = Some c"
    and lt: "now < pz_start (ps ! p) + content_window"
  shows "\<not> counts ps aw p"
proof
  assume "counts ps aw p"
  with ok p lt obtain e where e: "jget m c = Some e" "rk_promise e = p"
    unfolding content_ok_def entries_current_def by blast
  then have "rk_expires e = pz_start (ps ! p) + content_window" using ok unfolding content_ok_def entries_sound_def by blast
  moreover have "rk_expires e \<le> now" using nl e(1) by (simp add: no_live_def)
  ultimately show False using lt by simp
qed

definition begun_entry :: "int \<Rightarrow> (string, recent_content) jmap \<Rightarrow> nat \<Rightarrow> string option \<Rightarrow> (string, recent_content) jmap" where
  "begun_entry now m n key = (case key of None \<Rightarrow> m
     | Some c \<Rightarrow> jset c \<lparr>rk_promise = n, rk_expires = now + content_window\<rparr> (jdel c m))"

lemma jget_begun: "jget (begun_entry now m n key) c =
    (if key = Some c then Some \<lparr>rk_promise = n, rk_expires = now + content_window\<rparr> else jget m c)"
  by (cases key) (auto simp: begun_entry_def)

lemma window_positive: "0 < content_window"
  by (simp add: content_window_def)

lemma content_ok_begin:
  assumes ok: "content_ok now m ps aw" and k: "k < length aw" and nl: "no_live now m key"
  defines "ps' \<equiv> ps @ [\<lparr>pz_key = key, pz_start = now, pz_state = Running\<rparr>]"
    and "aw' \<equiv> aw[k := Some (length ps, False)]"
  shows "content_ok now (begun_entry now m (length ps) key) ps' aw'"
proof -
  have len: "\<And>p j. Some (p, j) \<in> set aw \<Longrightarrow> p < length ps" using ok by (auto simp: content_ok_def waits_sound_def)
  have fresh: "\<not> owner_waits aw (length ps)" using len by (auto simp: owner_waits_def)
  have owner: "owner_waits aw' p \<Longrightarrow> p = length ps \<or> owner_waits aw p" for p
    by (auto simp: owner_waits_def aw'_def dest!: set_update_subset_insert [THEN subsetD])
  have nth: "p < length ps \<Longrightarrow> ps' ! p = ps ! p" for p by (simp add: ps'_def nth_append)
  have last: "ps' ! length ps = \<lparr>pz_key = key, pz_start = now, pz_state = Running\<rparr>" by (simp add: ps'_def)
  have length': "length ps' = Suc (length ps)" by (simp add: ps'_def)
  have counts: "p < length ps \<Longrightarrow> counts ps' aw' p \<Longrightarrow> counts ps aw p" for p
    using owner by (auto simp: counts_def nth)
  have "entries_sound (begun_entry now m (length ps) key) ps'"
    using ok unfolding content_ok_def entries_sound_def by (auto simp: jget_begun last length' nth less_Suc_eq)
  moreover have "entries_current now (begun_entry now m (length ps) key) ps' aw'"
    unfolding entries_current_def
  proof (intro allI impI)
    fix p c assume p: "p < length ps'" "pz_key (ps' ! p) = Some c" "counts ps' aw' p" "now < pz_start (ps' ! p) + content_window"
    show "map_option rk_promise (jget (begun_entry now m (length ps) key) c) = Some p"
    proof (cases "p < length ps")
      case True
      then have "key \<noteq> Some c" using no_live_old [OF ok _ True] nl counts [OF True p(3)] p nth [OF True] by auto
      then show ?thesis using ok True p counts [OF True p(3)]
        unfolding content_ok_def entries_current_def by (simp add: jget_begun nth)
    next
      case False
      then have "p = length ps" using p(1) length' by simp
      then show ?thesis using p(2) last by (simp add: jget_begun)
    qed
  qed
  moreover have "within_window now ps' aw'"
    using ok owner window_positive unfolding content_ok_def within_window_def length' less_Suc_eq
    by (auto simp: nth last)
  moreover have "waits_sound ps' aw'"
  proof -
    have "count_list aw' (Some (p, False)) \<le> 1" for p
    proof (cases "p = length ps")
      case True
      have "count_list aw (Some (p, False)) = 0" using fresh True by (simp add: owner_waits_def count_list_0_iff)
      moreover have "count_list aw' z \<le> Suc (count_list aw z)" for z
        using count_list_update [OF k, of "Some (length ps, False)" z] by (simp add: aw'_def split: if_splits)
      ultimately show ?thesis by (metis One_nat_def)
    next
      case False
      then have "count_list aw' (Some (p, False)) \<le> count_list aw (Some (p, False))"
        unfolding aw'_def using k by (intro count_list_update_le) auto
      then show ?thesis using ok unfolding content_ok_def waits_sound_def by (metis le_trans)
    qed
    moreover have "Some (p, j) \<in> set aw' \<Longrightarrow> p < length ps'" for p j
      using len [of p j] by (auto simp: aw'_def length' dest!: set_update_subset_insert [THEN subsetD])
    ultimately show ?thesis unfolding waits_sound_def by blast
  qed
  moreover have "delivered_once ps'"
    unfolding delivered_once_def
  proof (intro allI impI)
    fix q p assume q: "q < length ps'" "p < q" and key: "pz_key (ps' ! p) \<noteq> None" "pz_key (ps' ! p) = pz_key (ps' ! q)"
      and start: "pz_start (ps' ! q) < pz_start (ps' ! p) + content_window"
    have p: "p < length ps" using q length' by simp
    show "failed_send (pz_state (ps' ! p))"
    proof (cases "q < length ps")
      case True
      then show ?thesis using ok q(2) key start p unfolding content_ok_def delivered_once_def by (simp add: nth)
    next
      case False
      then have q': "q = length ps" using q(1) length' by simp
      obtain c where c: "key = Some c" using key last q' by (cases key) auto
      have "\<not> counts ps aw p" using no_live_old [OF ok _ p] nl c key start nth [OF p] last q' by auto
      then show ?thesis by (simp add: counts_def nth [OF p])
    qed
  qed
  ultimately show ?thesis by (simp add: content_ok_def)
qed

text \<open>A delivery that is over, what is then forgotten, an entry that has outlived its time, and time.\<close>

lemma content_ok_settle:
  assumes ok: "content_ok now m ps aw" and p: "p < length ps" "pz_state (ps ! p) = Running" "s \<noteq> Running"
  shows "content_ok now m (ps[p := (ps ! p)\<lparr>pz_state := s\<rparr>]) aw"
proof -
  let ?ps = "ps[p := (ps ! p)\<lparr>pz_state := s\<rparr>]"
  have same: "pz_key (?ps ! q) = pz_key (ps ! q)" "pz_start (?ps ! q) = pz_start (ps ! q)" if "q < length ps" for q
    using that p by (auto simp: nth_list_update)
  have running: "\<not> failed_send (pz_state (ps ! p))" using p by (simp add: failed_send_def)
  have state: "q \<noteq> p \<Longrightarrow> pz_state (?ps ! q) = pz_state (ps ! q)" for q by simp
  have counts: "counts ?ps aw q \<Longrightarrow> counts ps aw q" for q
    using running state by (cases "q = p") (auto simp: counts_def)
  have "entries_sound m ?ps" using ok same unfolding content_ok_def entries_sound_def by (metis length_list_update)
  moreover have "entries_current now m ?ps aw"
    using ok same counts unfolding content_ok_def entries_current_def by (metis length_list_update)
  moreover have "within_window now ?ps aw"
    using ok p same state unfolding content_ok_def within_window_def length_list_update by (metis)
  moreover have "delivered_once ?ps"
    unfolding delivered_once_def length_list_update
  proof (intro allI impI)
    fix q r assume q: "q < length ps" "r < q" "pz_key (?ps ! r) \<noteq> None" "pz_key (?ps ! r) = pz_key (?ps ! q)"
      "pz_start (?ps ! q) < pz_start (?ps ! r) + content_window"
    then have "r < length ps" by simp
    then have "failed_send (pz_state (ps ! r))" using ok q same unfolding content_ok_def delivered_once_def by metis
    then show "failed_send (pz_state (?ps ! r))" using running state by (metis)
  qed
  ultimately show ?thesis using ok by (simp add: content_ok_def waits_sound_def)
qed

lemma content_ok_timer:
  assumes ok: "content_ok now m ps aw" and e: "jget m c = Some e" "rk_promise e = p" "pz_start (ps ! p) + content_window \<le> now"
  shows "content_ok now (jdel c m) ps aw"
proof -
  have "entries_current now (jdel c m) ps aw"
    unfolding entries_current_def
  proof (intro allI impI)
    fix q k assume q: "q < length ps" "pz_key (ps ! q) = Some k" "counts ps aw q" "now < pz_start (ps ! q) + content_window"
    then have "map_option rk_promise (jget m k) = Some q" using ok unfolding content_ok_def entries_current_def by blast
    moreover from this have "k \<noteq> c" using e q(4) by auto
    ultimately show "map_option rk_promise (jget (jdel c m) k) = Some q" by simp
  qed
  moreover have "entries_sound (jdel c m) ps" using ok unfolding content_ok_def entries_sound_def by simp
  ultimately show ?thesis using ok by (simp add: content_ok_def)
qed

lemma content_ok_forget:
  assumes ok: "content_ok now m ps aw" and k: "k < length aw" "aw ! k = Some (p, False)"
    and p: "pz_key (ps ! p) = Some c" "failed_send (pz_state (ps ! p))"
  shows "content_ok now (jdel c m) ps (aw[k := None])"
proof -
  have ow: "owner_waits aw p" using k nth_mem by (fastforce simp: owner_waits_def)
  have len: "p < length ps" using ok k nth_mem unfolding content_ok_def waits_sound_def by metis
  have now: "now < pz_start (ps ! p) + content_window" using ok ow len unfolding content_ok_def within_window_def by blast
  have at: "map_option rk_promise (jget m c) = Some p"
    using ok len p(1) now ow unfolding content_ok_def entries_current_def counts_def by blast
  have ok': "content_ok now m ps (aw[k := None])" using ok k(1) by (rule content_ok_drop_wait)
  have "count_list aw (Some (p, False)) \<le> 1" using ok unfolding content_ok_def waits_sound_def by blast
  then have "count_list (aw[k := None]) (Some (p, False)) = 0"
    using count_list_update [OF k(1), of None "Some (p, False)"] k(2) by simp
  then have "Some (p, False) \<notin> set (aw[k := None])" by (simp add: count_list_0_iff)
  then have gone: "\<not> counts ps (aw[k := None]) p" using p(2) by (simp add: counts_def owner_waits_def)
  have "entries_current now (jdel c m) ps (aw[k := None])"
    unfolding entries_current_def
  proof (intro allI impI)
    fix q d assume q: "q < length ps" "pz_key (ps ! q) = Some d" "counts ps (aw[k := None]) q" "now < pz_start (ps ! q) + content_window"
    then have "map_option rk_promise (jget m d) = Some q" using ok' unfolding content_ok_def entries_current_def by blast
    moreover from this have "d \<noteq> c" using at gone q(3) by auto
    ultimately show "map_option rk_promise (jget (jdel c m) d) = Some q" by simp
  qed
  moreover have "entries_sound (jdel c m) ps" using ok unfolding content_ok_def entries_sound_def by simp
  ultimately show ?thesis using ok' by (simp add: content_ok_def)
qed

lemma content_ok_pass:
  assumes ok: "content_ok now m ps aw" and d: "0 \<le> d" and run: "list_all (in_time (now + d)) ps"
    and aw: "\<And>p j. Some (p, j) \<in> set aw \<Longrightarrow> pz_state (ps ! p) = Running"
  shows "content_ok (now + d) m ps aw"
proof -
  have "entries_current (now + d) m ps aw"
    using ok d unfolding content_ok_def entries_current_def by (smt (verit))
  moreover have "within_window (now + d) ps aw"
    using run aw unfolding within_window_def list_all_length in_time_def owner_waits_def by blast
  ultimately show ?thesis using ok by (simp add: content_ok_def)
qed

section \<open>The content of a run\<close>

definition sends_content_ok :: "send_world \<Rightarrow> bool" where
  "sends_content_ok w \<longleftrightarrow> content_ok (wd_now w) (wd_content w) (wd_promises w) (map ac_awaits (wd_calls w))"

text \<open>What leaves the content alone.\<close>

definition same_sends :: "send_world \<Rightarrow> send_world \<Rightarrow> bool" where
  "same_sends w w' \<longleftrightarrow> wd_now w' = wd_now w \<and> wd_content w' = wd_content w \<and> wd_promises w' = wd_promises w \<and>
     map ac_awaits (wd_calls w') = map ac_awaits (wd_calls w)"

lemma same_sends_ok: "same_sends w w' \<Longrightarrow> sends_content_ok w' = sends_content_ok w"
  by (simp add: same_sends_def sends_content_ok_def)

lemma same_sends_length: "same_sends w w' \<Longrightarrow> length (wd_calls w') = length (wd_calls w)"
  unfolding same_sends_def by (metis length_map)

lemma same_sends_refl [simp]: "same_sends w w"
  by (simp add: same_sends_def)

lemma same_sends_trans: "same_sends w w1 \<Longrightarrow> same_sends w1 w2 \<Longrightarrow> same_sends w w2"
  by (simp add: same_sends_def)

lemma same_sends_upd:
  assumes "\<And>c. ac_awaits (f c) = ac_awaits c" shows "same_sends w (upd_send k f w)"
proof (cases "k < length (wd_calls w)")
  case True
  have "(map ac_awaits (wd_calls w))[k := map ac_awaits (wd_calls w) ! k] = map ac_awaits (wd_calls w)" by simp
  with True show ?thesis using assms by (simp add: same_sends_def upd_send_def map_update)
qed (simp add: same_sends_def upd_send_def list_update_beyond)

lemma same_sends_put: "same_sends w (put_file d f w)"
  by (simp add: same_sends_def put_file_def)

lemma same_sends_remember: "same_sends w (remember_reply key d fp r w)"
  by (simp add: same_sends_def remember_reply_def split: option.split)

lemma same_sends_hydrate: "same_sends w (hydrate env w)"
  by (simp add: same_sends_def hydrate_def)

lemma same_sends_read: "same_sends w (snd (read_recent_reply env key w))"
  by (simp add: same_sends_def read_recent_reply_def hydrate_def Let_def split: option.split)

lemma same_sends_finish: "same_sends w (finish_call env k out w)"
  unfolding finish_call_def Let_def
  by (cases out) (auto intro: same_sends_upd same_sends_trans [OF same_sends_remember same_sends_upd])

lemma coalesce_content_ok:
  assumes "sends_content_ok w" "k < length (wd_calls w)"
  shows "sends_content_ok (coalesce key k w)"
proof (cases "live_entry key w")
  case None
  let ?w = "coalesce key k w"
  have nl: "no_live (wd_now w) (wd_content w) key"
    using None by (auto simp: no_live_def live_entry_def split: option.splits if_splits)
  have "wd_now ?w = wd_now w" "wd_content ?w = begun_entry (wd_now w) (wd_content w) (length (wd_promises w)) key"
    "wd_promises ?w = wd_promises w @ [\<lparr>pz_key = key, pz_start = wd_now w, pz_state = Running\<rparr>]"
    "map ac_awaits (wd_calls ?w) = (map ac_awaits (wd_calls w))[k := Some (length (wd_promises w), False)]"
    using None by (simp_all add: coalesce_def begun_entry_def upd_send_def Let_def map_update split: option.split)
  then show ?thesis
    using content_ok_begin [OF assms(1) [unfolded sends_content_ok_def] _ nl, of k] assms(2) by (simp add: sends_content_ok_def)
next
  case (Some e)
  then obtain c where "jget (wd_content w) c = Some e" by (auto simp: live_entry_def split: option.splits if_splits)
  then have "rk_promise e < length (wd_promises w)"
    using assms(1) unfolding sends_content_ok_def content_ok_def entries_sound_def by blast
  then show ?thesis
    using content_ok_join [OF assms(1) [unfolded sends_content_ok_def], of k "rk_promise e"] assms(2) Some
    by (simp add: sends_content_ok_def coalesce_def upd_send_def map_update)
qed

text \<open>What a step of the durable delivery does before the content is looked up.\<close>

definition stepped :: "nat \<Rightarrow> phase \<Rightarrow> receipt_file \<Rightarrow> send_world \<Rightarrow> send_world" where
  "stepped k ph f w = put_file (dc_id (ac_call (wd_calls w ! k))) f (upd_send k (\<lambda>c. c\<lparr>ac_phase := ph,
     ac_heartbeat := heartbeat_after (ac_phase c) ph (ac_heartbeat c)\<rparr>) w)"

lemma advance_cases:
  obtains (Done) ph f out where "ph = Ph_done out" "advance env k i w = finish_call env k out (stepped k ph f w)"
  | (Delivers) ph f where "\<not> is_done ph"
      "advance env k i w = coalesce (content_key env (ac_prepared (wd_calls w ! k)) (ac_request (wd_calls w ! k))) k (stepped k ph f w)"
  | (Other) ph f where "\<not> is_done ph" "advance env k i w = stepped k ph f w"
proof -
  obtain ph evs f where step: "call_step (ac_call (wd_calls w ! k))
      (i\<lparr>si_now := wd_now w, si_recovery := inspected (ac_prepared (wd_calls w ! k)) (si_recovery i)\<rparr>) (ac_phase (wd_calls w ! k))
      (file_of w (dc_id (ac_call (wd_calls w ! k)))) = ((ph, evs), f)" by (metis surj_pair)
  show thesis
  proof (cases "is_done ph")
    case True
    then show thesis using step Done [of ph _ f] by (cases ph) (auto simp: advance_def stepped_def is_done_def Let_def)
  next
    case False
    then have "advance env k i w = (if Ev_delivered \<in> set evs
        then coalesce (content_key env (ac_prepared (wd_calls w ! k)) (ac_request (wd_calls w ! k))) k (stepped k ph f w)
        else stepped k ph f w)"
      using step by (cases ph) (simp_all add: advance_def stepped_def is_done_def Let_def)
    then show thesis using False Delivers [of ph f] Other [of ph f] by (cases "Ev_delivered \<in> set evs") simp_all
  qed
qed

lemma same_sends_stepped: "same_sends w (stepped k ph f w)"
  unfolding stepped_def by (rule same_sends_trans [OF same_sends_upd same_sends_put]) simp

lemma advance_content_ok:
  assumes "sends_content_ok w" "k < length (wd_calls w)"
  shows "sends_content_ok (advance env k i w)"
proof (cases rule: advance_cases [of env k i w])
  case (Done ph f out)
  then show ?thesis
    using same_sends_ok [OF same_sends_trans [OF same_sends_stepped same_sends_finish]] assms(1) by simp
next
  case (Delivers ph f)
  have "sends_content_ok (stepped k ph f w)" "k < length (wd_calls (stepped k ph f w))"
    using same_sends_ok [OF same_sends_stepped] same_sends_length [OF same_sends_stepped] assms by simp_all
  then show ?thesis using Delivers(2) coalesce_content_ok by simp
next
  case (Other ph f)
  then show ?thesis using same_sends_ok [OF same_sends_stepped] assms(1) by simp
qed

lemma new_call_content_ok:
  "sends_content_ok w \<Longrightarrow> ac_awaits c = None \<Longrightarrow> sends_content_ok (w\<lparr>wd_calls := wd_calls w @ [c]\<rparr>)"
  using content_ok_new_call by (simp add: sends_content_ok_def)

section \<open>Recent replies\<close>

text \<open>A call that was answered at a time with a message that was sent in reply to a quoted message.\<close>

definition replied :: "send_env \<Rightarrow> send_call \<Rightarrow> int \<Rightarrow> string \<Rightarrow> bool" where
  "replied env c t key \<longleftrightarrow> (case (ac_phase c, ac_answer c) of
     (Ph_done (Out_completed dup v), Some (t', a)) \<Rightarrow>
        t' = t \<and> was_sent (result_object v) \<and> reply_key env (ac_prepared c) = Some key
   | _ \<Rightarrow> False)"

definition covers :: "(string, recent_reply) jmap \<Rightarrow> string \<Rightarrow> int \<Rightarrow> bool" where
  "covers m key t \<longleftrightarrow> (\<exists>e. jget m key = Some e \<and> t + reply_window \<le> ry_expires e)"

definition replies_ok :: "send_env \<Rightarrow> send_world \<Rightarrow> bool" where
  "replies_ok env w \<longleftrightarrow> (\<forall>c \<in> set (wd_calls w). \<forall>t key. replied env c t key \<longrightarrow>
     t \<le> wd_now w \<and> (wd_now w < t + reply_window \<longrightarrow> covers (wd_replies w) key t))"

text \<open>What keeps the replies that are still recent.\<close>

definition keeps_recent :: "send_world \<Rightarrow> send_world \<Rightarrow> bool" where
  "keeps_recent w w' \<longleftrightarrow> wd_now w' = wd_now w \<and> (\<forall>key t. t \<le> wd_now w \<longrightarrow> wd_now w < t + reply_window \<longrightarrow>
     covers (wd_replies w) key t \<longrightarrow> covers (wd_replies w') key t)"

lemma keeps_recent_trans: "keeps_recent w w1 \<Longrightarrow> keeps_recent w1 w2 \<Longrightarrow> keeps_recent w w2"
  by (simp add: keeps_recent_def)

lemma keeps_recent_same: "wd_now w' = wd_now w \<Longrightarrow> wd_replies w' = wd_replies w \<Longrightarrow> keeps_recent w w'"
  by (simp add: keeps_recent_def)

lemma keeps_recent_remember: "keeps_recent w (remember_reply key d fp r w)"
  by (auto simp: keeps_recent_def remember_reply_def covers_def split: option.split)

lemma covers_hydrate_file: "covers m key t \<Longrightarrow> covers (hydrate_file env now f m) key t"
  by (cases f) (auto simp: covers_def Let_def split: receipt_state.split option.split json.split)

lemma covers_hydrate_files: "covers m key t \<Longrightarrow> covers (foldl (\<lambda>m f. hydrate_file env now f m) m fs) key t"
  by (induction fs arbitrary: m) (simp_all add: covers_hydrate_file)

lemma keeps_recent_hydrate: "keeps_recent w (hydrate env w)"
  by (simp add: keeps_recent_def hydrate_def covers_hydrate_files)

lemma keeps_recent_read: "keeps_recent w (snd (read_recent_reply env key w))"
proof (cases key)
  case (Some k)
  have "keeps_recent w1 (snd (case jget (wd_replies w1) k of None \<Rightarrow> (None, w1)
      | Some e \<Rightarrow> if ry_expires e > wd_now w1 then (Some e, w1) else (None, w1\<lparr>wd_replies := jdel k (wd_replies w1)\<rparr>)))" for w1
    by (auto simp: keeps_recent_def covers_def split: option.split)
  with keeps_recent_hydrate [of w env] keeps_recent_trans show ?thesis
    unfolding read_recent_reply_def Some option.case Let_def by blast
qed (simp add: read_recent_reply_def keeps_recent_def)

lemma jget_filter_kept: "jget m k = Some v \<Longrightarrow> P (k, v) \<Longrightarrow> jget (filter P m) k = Some v"
  by (induction m) (auto split: if_splits)

lemma keeps_recent_timer:
  "keeps_recent w (w\<lparr>wd_replies := filter (\<lambda>(k, e). ry_timer e \<noteq> Some n \<or> wd_now w < ry_expires e) (wd_replies w)\<rparr>)"
  by (fastforce simp: keeps_recent_def covers_def intro: jget_filter_kept)

text \<open>The calls of the next state: those there were, as far as replies go, and those answered now.\<close>

definition call_follows :: "send_env \<Rightarrow> send_world \<Rightarrow> send_world \<Rightarrow> send_call \<Rightarrow> bool" where
  "call_follows env w w' c \<longleftrightarrow> (\<forall>t key. replied env c t key \<longrightarrow>
     (\<exists>c0 \<in> set (wd_calls w). replied env c0 t key) \<or> (t = wd_now w' \<and> covers (wd_replies w') key t))"

lemma replies_ok_next:
  assumes ok: "replies_ok env w" and keeps: "keeps_recent w w'" and calls: "\<And>c. c \<in> set (wd_calls w') \<Longrightarrow> call_follows env w w' c"
  shows "replies_ok env w'"
  unfolding replies_ok_def
proof (intro ballI allI impI)
  fix c t key assume c: "c \<in> set (wd_calls w')" "replied env c t key"
  consider (Old) c0 where "c0 \<in> set (wd_calls w)" "replied env c0 t key" | (New) "t = wd_now w'" "covers (wd_replies w') key t"
    using calls [OF c(1)] c(2) unfolding call_follows_def by blast
  then show "t \<le> wd_now w' \<and> (wd_now w' < t + reply_window \<longrightarrow> covers (wd_replies w') key t)"
  proof cases
    case Old
    then have "t \<le> wd_now w" "wd_now w < t + reply_window \<longrightarrow> covers (wd_replies w) key t"
      using ok unfolding replies_ok_def by blast+
    then show ?thesis using keeps unfolding keeps_recent_def by simp
  qed simp
qed

lemma call_follows_old: "c \<in> set (wd_calls w) \<Longrightarrow> call_follows env w w' c"
  by (auto simp: call_follows_def)

lemma call_follows_upd:
  assumes "c \<in> set (wd_calls (upd_send k f w1))" "wd_calls w1 = wd_calls w"
    and "k < length (wd_calls w) \<Longrightarrow> call_follows env w w' (f (wd_calls w ! k))"
  shows "call_follows env w w' c"
proof (cases "k < length (wd_calls w)")
  case True
  then show ?thesis using assms call_follows_old
    by (auto simp: upd_send_def dest!: set_update_subset_insert [THEN subsetD])
next
  case False
  then show ?thesis using assms(1,2) call_follows_old by (simp add: upd_send_def list_update_beyond)
qed

lemma not_replied_open: "\<not> is_done ph \<Longrightarrow> \<not> replied env (c\<lparr>ac_phase := ph, ac_heartbeat := h\<rparr>) t key"
  by (simp add: replied_def is_done_def split: phase.splits option.split)

lemma stepped_fields:
  "wd_now (stepped k ph f w) = wd_now w" "wd_replies (stepped k ph f w) = wd_replies w"
  "wd_calls (stepped k ph f w) = (wd_calls w)[k := (wd_calls w ! k)\<lparr>ac_phase := ph,
     ac_heartbeat := heartbeat_after (ac_phase (wd_calls w ! k)) ph (ac_heartbeat (wd_calls w ! k))\<rparr>]"
  by (simp_all add: stepped_def put_file_def upd_send_def)

lemma stepped_calls: "wd_calls (stepped k ph f w) = wd_calls (upd_send k (\<lambda>c. c\<lparr>ac_phase := ph,
     ac_heartbeat := heartbeat_after (ac_phase c) ph (ac_heartbeat c)\<rparr>) w)"
  by (simp add: stepped_def put_file_def)

lemma stepped_follows:
  assumes "\<not> is_done ph" "c \<in> set (wd_calls (stepped k ph f w))" shows "call_follows env w w' c"
  using assms(2) unfolding stepped_calls
  by (rule call_follows_upd) (simp_all add: call_follows_def not_replied_open [OF assms(1)])

lemma coalesce_frame:
  "wd_now (coalesce key k w) = wd_now w" "wd_replies (coalesce key k w) = wd_replies w"
  "\<exists>a. wd_calls (coalesce key k w) = wd_calls (upd_send k (\<lambda>c. c\<lparr>ac_awaits := a\<rparr>) w)"
  by (auto simp: coalesce_def upd_send_def Let_def split: option.split)

lemma replied_awaits [simp]: "replied env (c\<lparr>ac_awaits := a\<rparr>) = replied env c"
  "replied env (c\<lparr>ac_heartbeat := h\<rparr>) = replied env c" "replied env (c\<lparr>ac_duplicate := d\<rparr>) = replied env c"
  by (simp_all add: replied_def fun_eq_iff split: phase.split outcome.split option.split)

lemma remember_frame [simp]:
  "wd_calls (remember_reply key d fp r w) = wd_calls w" "wd_now (remember_reply key d fp r w) = wd_now w"
  by (simp_all add: remember_reply_def split: option.split)

lemma finish_follows:
  assumes c: "c \<in> set (wd_calls (finish_call env k out (stepped k (Ph_done out) f w)))"
  shows "call_follows env w (finish_call env k out (stepped k (Ph_done out) f w)) c"
proof (cases "k < length (wd_calls w)")
  case False
  then have "wd_calls (finish_call env k out (stepped k (Ph_done out) f w)) = wd_calls w"
    by (cases out) (simp_all add: finish_call_def upd_send_def stepped_fields list_update_beyond Let_def)
  then show ?thesis using c call_follows_old by simp
next
  case True
  let ?w = "stepped k (Ph_done out) f w"
  let ?w' = "finish_call env k out ?w"
  have at: "wd_calls ?w ! k = (wd_calls w ! k)\<lparr>ac_phase := Ph_done out,
      ac_heartbeat := heartbeat_after (ac_phase (wd_calls w ! k)) (Ph_done out) (ac_heartbeat (wd_calls w ! k))\<rparr>"
    using True by (simp add: stepped_fields)
  obtain g where g: "wd_calls ?w' = (wd_calls w)[k := g]" "ac_phase g = Ph_done out" "ac_prepared g = ac_prepared (wd_calls w ! k)"
      "\<And>dup v. out = Out_completed dup v \<Longrightarrow> \<exists>a. ac_answer g = Some (wd_now w, a)"
    using True at
    by (cases out) (simp_all add: finish_call_def upd_send_def stepped_fields Let_def)
  have now: "wd_now ?w' = wd_now w"
    by (cases out) (simp_all add: finish_call_def upd_send_def stepped_fields Let_def)
  have "call_follows env w ?w' g"
    unfolding call_follows_def
  proof (intro allI impI disjI2)
    fix t key assume r: "replied env g t key"
    then obtain dup v where out: "out = Out_completed dup v" and sent: "was_sent (result_object v)"
      and key: "reply_key env (ac_prepared (wd_calls w ! k)) = Some key"
      using g(2,3) by (auto simp: replied_def split: outcome.splits option.splits)
    have t: "t = wd_now w" using r g(2,4) out by (auto simp: replied_def)
    have "covers (wd_replies ?w') key (wd_now w)"
      using at out sent key by (simp add: finish_call_def Let_def remember_reply_def covers_def upd_send_def stepped_fields)
    then show "t = wd_now ?w' \<and> covers (wd_replies ?w') key t" using t now by simp
  qed
  then show ?thesis using c g(1) call_follows_old by (auto dest!: set_update_subset_insert [THEN subsetD])
qed

lemma keeps_recent_upd: "keeps_recent w w1 \<Longrightarrow> keeps_recent w (upd_send k f w1)"
  by (simp add: keeps_recent_def upd_send_def)

lemma finish_keeps_recent: "keeps_recent w (finish_call env k out w)"
  unfolding finish_call_def Let_def
  by (cases out) (auto intro: keeps_recent_upd keeps_recent_remember keeps_recent_same)

lemma advance_replies_ok: "replies_ok env w \<Longrightarrow> replies_ok env (advance env k i w)"
proof (cases rule: advance_cases [of env k i w])
  case (Done ph f out)
  assume ok: "replies_ok env w"
  have "keeps_recent w (stepped k ph f w)" by (simp add: keeps_recent_same stepped_fields)
  then have "keeps_recent w (advance env k i w)" unfolding Done(2) by (rule keeps_recent_trans) (rule finish_keeps_recent)
  moreover have "call_follows env w (advance env k i w) c" if "c \<in> set (wd_calls (advance env k i w))" for c
    using that unfolding Done(2) Done(1) by (rule finish_follows)
  ultimately show ?thesis by (rule replies_ok_next [OF ok])
next
  case (Delivers ph f)
  assume ok: "replies_ok env w"
  let ?w' = "advance env k i w"
  obtain a where calls: "wd_calls ?w' = wd_calls (upd_send k (\<lambda>c. c\<lparr>ac_awaits := a\<rparr>) (stepped k ph f w))"
    using coalesce_frame(3) Delivers(2) by metis
  have "call_follows env w ?w' c" if c: "c \<in> set (wd_calls ?w')" for c
  proof -
    let ?cs = "wd_calls (stepped k ph f w)"
    have "\<exists>c' \<in> set ?cs. c = c' \<or> c = c'\<lparr>ac_awaits := a\<rparr>"
    proof (cases "k < length ?cs")
      case True
      have "c \<in> set ?cs \<or> c = (?cs ! k)\<lparr>ac_awaits := a\<rparr>"
        using c unfolding calls upd_send_def by (auto dest!: set_update_subset_insert [THEN subsetD])
      then show ?thesis using nth_mem [OF True] by blast
    qed (use c in \<open>auto simp: calls upd_send_def list_update_beyond\<close>)
    then obtain c' where c': "c' \<in> set ?cs" and alt: "c = c' \<or> c = c'\<lparr>ac_awaits := a\<rparr>" by blast
    have same: "replied env c = replied env c'" using alt by (elim disjE) (simp_all only: replied_awaits)
    from stepped_follows [OF Delivers(1) c'] show ?thesis unfolding call_follows_def same .
  qed
  moreover have "keeps_recent w ?w'" using Delivers(2) by (simp add: keeps_recent_same coalesce_frame stepped_fields)
  ultimately show ?thesis by (intro replies_ok_next [OF ok])
next
  case (Other ph f)
  assume ok: "replies_ok env w"
  have "keeps_recent w (advance env k i w)" unfolding Other(2) by (simp add: keeps_recent_same stepped_fields)
  moreover have "call_follows env w (advance env k i w) c" if "c \<in> set (wd_calls (advance env k i w))" for c
    using that unfolding Other(2) by (rule stepped_follows [OF Other(1)])
  ultimately show ?thesis by (rule replies_ok_next [OF ok])
qed

section \<open>Runs\<close>

definition sends_ok :: "send_env \<Rightarrow> send_world \<Rightarrow> bool" where
  "sends_ok env w \<longleftrightarrow> (nv_prompt env \<longrightarrow> sends_content_ok w) \<and> replies_ok env w"

lemma sends_ok_start: "sends_ok env (start_sends now files)"
  by (simp add: sends_ok_def sends_content_ok_def start_sends_def content_ok_start replies_ok_def)

lemma replies_ok_frame:
  "replies_ok env w \<Longrightarrow> keeps_recent w w' \<Longrightarrow> set (wd_calls w') \<subseteq> set (wd_calls w) \<Longrightarrow> replies_ok env w'"
  by (rule replies_ok_next) (auto intro: call_follows_old)

lemma replies_ok_same:
  "replies_ok env w \<Longrightarrow> wd_now w' = wd_now w \<Longrightarrow> wd_replies w' = wd_replies w \<Longrightarrow> wd_calls w' = wd_calls w \<Longrightarrow> replies_ok env w'"
  by (simp add: replies_ok_def)

lemma new_call_replies_ok:
  "replies_ok env w \<Longrightarrow> ac_phase c = Ph_start \<Longrightarrow> replies_ok env (w\<lparr>wd_calls := wd_calls w @ [c]\<rparr>)"
  by (rule replies_ok_next [of env w]) (auto simp: keeps_recent_same call_follows_def replied_def)

lemma new_call_ok:
  "sends_ok env w \<Longrightarrow> ac_awaits c = None \<Longrightarrow> ac_phase c = Ph_start \<Longrightarrow> sends_ok env (w\<lparr>wd_calls := wd_calls w @ [c]\<rparr>)"
  using new_call_content_ok new_call_replies_ok by (simp add: sends_ok_def)

lemma advance_ok: "sends_ok env w \<Longrightarrow> k < length (wd_calls w) \<Longrightarrow> sends_ok env (advance env k i w)"
  using advance_content_ok advance_replies_ok by (simp add: sends_ok_def)

lemma read_calls [simp]: "wd_calls (snd (read_recent_reply env key w)) = wd_calls w"
  by (simp add: read_recent_reply_def hydrate_def Let_def split: option.split)

lemma read_ok: "sends_ok env w \<Longrightarrow> sends_ok env (snd (read_recent_reply env key w))"
  using same_sends_ok [OF same_sends_read] replies_ok_frame [OF _ keeps_recent_read] by (simp add: sends_ok_def)

definition new_send :: "normalized_send \<Rightarrow> json_object \<Rightarrow> delivery_call \<Rightarrow> (int \<times> send_answer) option \<Rightarrow> send_call" where
  "new_send n request dc answer = \<lparr>ac_prepared = n, ac_request = request, ac_call = dc, ac_phase = Ph_start, ac_heartbeat = False,
     ac_awaits = None, ac_duplicate = False, ac_answer = answer\<rparr>"

lemma hydrate_frame [simp]:
  "wd_calls (hydrate env w) = wd_calls w" "wd_now (hydrate env w) = wd_now w"
  "wd_promises (hydrate env w) = wd_promises w" "wd_files (hydrate env w) = wd_files w"
  by (simp_all add: hydrate_def)

lemma send_message_prepared:
  assumes "prepare_send env request execution host pid recover = Some (n, dc)"
  shows "send_message env request execution host pid recover i w =
     (case if nm_additional n then (None, w) else read_recent_reply env (reply_key env n) w of
        (Some e, w1) \<Rightarrow> w1\<lparr>wd_calls := wd_calls w1 @ [new_send n request dc (Some (wd_now w1,
            recent_reply_answer (dc_id dc) n (content_fingerprint env request) e))]\<rparr>
      | (None, w1) \<Rightarrow> advance env (length (wd_calls w1)) i (w1\<lparr>wd_calls := wd_calls w1 @ [new_send n request dc None]\<rparr>))"
  using assms by (auto simp: send_message_def new_send_def Let_def split: prod.split option.split)

lemma send_ok:
  assumes ok: "sends_ok env w"
  shows "sends_ok env (send_message env request execution host pid recover i w)"
proof (cases "prepare_send env request execution host pid recover")
  case None
  then show ?thesis using ok by (simp add: send_message_def)
next
  case (Some nd)
  obtain n dc where nd: "nd = (n, dc)" by (cases nd)
  obtain recent w1 where r: "(if nm_additional n then (None, w) else read_recent_reply env (reply_key env n) w) = (recent, w1)"
    by (metis surj_pair)
  have w1: "sends_ok env w1" using r ok read_ok [OF ok] by (metis snd_conv)
  have new: "sends_ok env (w1\<lparr>wd_calls := wd_calls w1 @ [new_send n request dc a]\<rparr>)" for a
    using w1 by (rule new_call_ok) (simp_all add: new_send_def)
  show ?thesis
    unfolding send_message_prepared [OF Some [unfolded nd]] r
    using new advance_ok [OF new] by (cases recent) simp_all
qed

lemma continues_ok:
  assumes ok: "sends_ok env w" and k: "k < length (wd_calls w)" and go: "to_continue w (wd_calls w ! k)"
  shows "sends_ok env (delivery_continues env k i w)"
proof -
  obtain p shared where aw: "ac_awaits (wd_calls w ! k) = Some (p, shared)" and st: "pz_state (wd_promises w ! p) \<noteq> Running"
    using go by (auto simp: to_continue_def split: option.splits)
  let ?f = "\<lambda>c. c\<lparr>ac_awaits := None, ac_duplicate := (case pz_state (wd_promises w ! p) of Resolved _ \<Rightarrow> shared | _ \<Rightarrow> ac_duplicate c)\<rparr>"
  let ?w0 = "if shared then w else forget_failed p w"
  let ?w1 = "upd_send k ?f ?w0"
  have frame: "wd_now ?w0 = wd_now w" "wd_calls ?w0 = wd_calls w" "wd_promises ?w0 = wd_promises w" "wd_replies ?w0 = wd_replies w"
    by (simp_all add: forget_failed_def split: option.split)
  have awaits: "map ac_awaits (wd_calls ?w1) = (map ac_awaits (wd_calls w))[k := None]"
    using frame by (simp add: upd_send_def map_update)
  have "sends_content_ok ?w1" if c: "sends_content_ok w"
  proof (cases "wd_content ?w0 = wd_content w")
    case True
    then show ?thesis using content_ok_drop_wait [OF c [unfolded sends_content_ok_def], of k] k frame awaits
      unfolding sends_content_ok_def by (simp add: upd_send_def)
  next
    case False
    then obtain key where f: "\<not> shared" "pz_key (wd_promises w ! p) = Some key" "failed_send (pz_state (wd_promises w ! p))"
      "wd_content ?w0 = jdel key (wd_content w)"
      by (auto simp: forget_failed_def split: if_splits option.splits)
    show ?thesis using content_ok_forget [OF c [unfolded sends_content_ok_def], of k p key] f k aw frame awaits
      unfolding sends_content_ok_def by (simp add: upd_send_def)
  qed
  moreover have "replies_ok env ?w1" if "replies_ok env w"
  proof (rule replies_ok_next [OF that])
    show "keeps_recent w ?w1" using frame by (simp add: keeps_recent_same upd_send_def)
    fix c assume "c \<in> set (wd_calls ?w1)"
    then show "call_follows env w ?w1 c" using frame(2)
      by (rule call_follows_upd) (use nth_mem in \<open>auto simp: call_follows_def\<close>)
  qed
  ultimately have "sends_ok env ?w1" using ok by (simp add: sends_ok_def)
  moreover have "k < length (wd_calls ?w1)" using k frame by (simp add: upd_send_def)
  ultimately show ?thesis using aw by (simp add: delivery_continues_def Let_def advance_ok)
qed

lemma timer_content_ok:
  assumes ok: "sends_content_ok w" and p: "pz_start (wd_promises w ! p) + content_window \<le> wd_now w"
    and e: "jget (wd_content w) k = Some e" "rk_promise e = p"
  shows "sends_content_ok (w\<lparr>wd_content := jdel k (wd_content w)\<rparr>)"
  using content_ok_timer [OF ok [unfolded sends_content_ok_def] e p] by (simp add: sends_content_ok_def)

lemma pass_content_ok:
  assumes ok: "sends_content_ok w" and d: "0 \<le> d" and settled: "settled_world w"
    and prompt: "list_all (in_time (wd_now w + d)) (wd_promises w)"
  shows "sends_content_ok (w\<lparr>wd_now := wd_now w + d\<rparr>)"
proof -
  have "pz_state (wd_promises w ! p) = Running" if pj: "Some (p, j) \<in> set (map ac_awaits (wd_calls w))" for p j
  proof -
    obtain c where "c \<in> set (wd_calls w)" "ac_awaits c = Some (p, j)"
      using pj by (metis (no_types, lifting) image_iff list.set_map)
    then show ?thesis using settled by (auto simp: settled_world_def list_ex_iff to_continue_def)
  qed
  then show ?thesis using content_ok_pass [OF ok [unfolded sends_content_ok_def] d prompt] by (simp add: sends_content_ok_def)
qed

lemma send_step_ok:
  assumes ok: "sends_ok env w" and step: "send_step env e w = Some w'"
  shows "sends_ok env w'"
proof (cases e)
  case (Send request execution host pid recover i)
  then have "w' = send_message env request execution host pid recover i w" using step by simp
  then show ?thesis using send_ok [OF ok] by simp
next
  case (Advance k i)
  then show ?thesis using step advance_ok [OF ok] by (auto split: if_splits)
next
  case (Settles p s)
  then have p: "p < length (wd_promises w)" "pz_state (wd_promises w ! p) = Running" "s \<noteq> Running"
    and w': "w' = w\<lparr>wd_promises := (wd_promises w)[p := (wd_promises w ! p)\<lparr>pz_state := s\<rparr>]\<rparr>"
    using step by (auto split: if_splits)
  have "replies_ok env w'" using ok unfolding sends_ok_def by (auto intro: replies_ok_same simp: w')
  then show ?thesis using ok content_ok_settle [OF _ p] unfolding w' sends_ok_def sends_content_ok_def by simp
next
  case (Continues k i)
  then show ?thesis using step continues_ok [OF ok] by (auto split: if_splits)
next
  case (Renews k)
  then obtain b f where w': "w' = put_file (dc_id (ac_call (wd_calls w ! k))) f (upd_send k (\<lambda>c. c\<lparr>ac_heartbeat := b\<rparr>) w)"
    using step by (auto split: if_splits prod.splits)
  have "same_sends w w'" unfolding w' by (rule same_sends_trans [OF same_sends_upd same_sends_put]) simp
  moreover have "replies_ok env w'"
  proof (rule replies_ok_next)
    show "replies_ok env w" using ok by (simp add: sends_ok_def)
    show "keeps_recent w w'" by (simp add: w' keeps_recent_same put_file_def upd_send_def)
    fix c assume "c \<in> set (wd_calls w')"
    then have "c \<in> set (wd_calls (upd_send k (\<lambda>c. c\<lparr>ac_heartbeat := b\<rparr>) w))" by (simp add: w' put_file_def)
    then show "call_follows env w w' c" using refl
      by (rule call_follows_upd) (use nth_mem in \<open>auto simp: call_follows_def\<close>)
  qed
  ultimately show ?thesis using ok same_sends_ok by (simp add: sends_ok_def)
next
  case (Content_timer p)
  then consider "w' = w" | k e where "w' = w\<lparr>wd_content := jdel k (wd_content w)\<rparr>" "jget (wd_content w) k = Some e"
      "rk_promise e = p" "pz_start (wd_promises w ! p) + content_window \<le> wd_now w"
    using step by (auto split: if_splits option.splits)
  then show ?thesis
  proof cases
    case (2 k e)
    then have "replies_ok env w'" using ok unfolding sends_ok_def by (auto intro: replies_ok_same)
    then show ?thesis using ok timer_content_ok [OF _ 2(4,2,3)] 2(1) by (simp add: sends_ok_def)
  qed (use ok in simp)
next
  case (Reply_timer n)
  then have w': "w' = w\<lparr>wd_replies := filter (\<lambda>(k, e). ry_timer e \<noteq> Some n \<or> wd_now w < ry_expires e) (wd_replies w)\<rparr>"
    using step by (simp split: if_splits)
  have "replies_ok env w'" using ok replies_ok_frame [OF _ keeps_recent_timer] unfolding w' sends_ok_def by simp
  then show ?thesis using ok by (simp add: sends_ok_def sends_content_ok_def w')
next
  case (Passes d)
  then have d: "0 \<le> d" "settled_world w" "nv_prompt env \<longrightarrow> list_all (in_time (wd_now w + d)) (wd_promises w)"
    and w': "w' = w\<lparr>wd_now := wd_now w + d\<rparr>" using step by (auto split: if_splits)
  have "replies_ok env w'" using ok d(1) unfolding w' sends_ok_def replies_ok_def by fastforce
  then show ?thesis using ok pass_content_ok [OF _ d(1,2)] d(3) w' by (simp add: sends_ok_def)
next
  case Restart
  then have w': "w' = (start_sends (wd_now w) (wd_files w))\<lparr>wd_past := \<lparr>lf_promises = wd_promises w, lf_calls = wd_calls w\<rparr> # wd_past w\<rparr>"
    using step by simp
  show ?thesis by (simp add: w' sends_ok_def sends_content_ok_def start_sends_def content_ok_start replies_ok_def)
qed

interpretation sending: event_machine "send_step env" "sends_ok env" "\<lambda>_. True" for env
  by unfold_locales (rule send_step_ok)

lemma send_run_ok: "send_run env es (start_sends now files) = Some w \<Longrightarrow> sends_ok env w"
  by (rule sending.run_keeps [OF _ _ sends_ok_start]) (simp_all add: list_all_iff)

end
