(* ===== verification/AgentSendReceipts.thy ===== *)
theory AgentSendReceipts
  imports AgentSendMemories
begin

text \<open>
  What outlives a restart of the Manager: the receipts of replies that were sent. A call that has delivered a reply
  leaves a receipt that no later call changes, and the first question for a recent reply after a restart reads
  the receipts back, so that the memory covers every receipt of the last ten minutes.
\<close>

section \<open>The receipts of replies\<close>

text \<open>A receipt on file of a message that was sent in reply to a quoted message.\<close>

definition receipt_reply :: "send_env \<Rightarrow> receipt_file \<Rightarrow> string \<Rightarrow> int \<Rightarrow> bool" where
  "receipt_reply env f key t \<longleftrightarrow>
     (case f of
        Receipt_file r m \<Rightarrow> rc_state r = Completed \<and> rc_updated r = t \<and>
          (case rc_result r of Some (JObj result) \<Rightarrow> was_sent result \<and> reply_key_of_result env result = Some key | _ \<Rightarrow> False)
      | _ \<Rightarrow> False)"

lemma receipt_reply_completed:
  assumes "receipt_reply env f key t" obtains v d where "completed_file f v d"
  using assms that by (cases f) (auto simp: receipt_reply_def completed_file_def)

text \<open>A delivery or a recovery gives a result the fields of the request, so its key is that of the request.\<close>

definition carries :: "normalized_send \<Rightarrow> json option \<Rightarrow> bool" where
  "carries n v \<longleftrightarrow> (\<exists>d r. v = Some (JObj (with_request d n r)))"

definition route_ok :: "normalized_send \<Rightarrow> bool" where
  "route_ok n \<longleftrightarrow> optional_text (Some (JStr (nm_route n))) = Some (nm_route n)"

lemma carries_key:
  assumes "carries n v" "route_ok n"
  shows "reply_key_of_result env (result_object v) = reply_key env n" "\<exists>r. v = Some (JObj r)"
  using assms
  by (auto simp: carries_def route_ok_def result_object_def with_request_def assign_fields_def reply_key_of_result_def reply_key_def)

lemma optional_text_again: "optional_text v = Some t \<Longrightarrow> optional_text (Some (JStr t)) = Some t"
  by (auto simp: optional_text_def is_null_def Let_def split: if_splits)

lemma prepared_route:
  assumes "normalize_agent_send request = Inr n" shows "route_ok n"
proof -
  obtain v where "required_text v ''routeId'' = Inr (nm_route n)"
    using assms by (auto simp: normalize_agent_send_def bindr_def Let_def split: sum.splits if_splits prod.splits)
  then show ?thesis using optional_text_again by (auto simp: required_text_def route_ok_def split: option.splits)
qed

lemma inspected_carries: "inspected n found = Recovered v \<Longrightarrow> carries n v"
  by (auto simp: inspected_def carries_def split: recovery.splits)

text \<open>The phases of a step of the durable delivery: a result to settle comes from the delivery or the recovery, and
  a call that delivers says so.\<close>

lemma throw_phases: "throw_to c k m \<noteq> Ph_settling v d k'" "throw_to c k m \<noteq> Ph_delivering" "throw_to c k m \<noteq> Ph_redelivering"
    "throw_to c k m \<noteq> Ph_done (Out_completed dup v)"
  by (simp_all add: throw_to_def split: catcher.split)

definition decided :: "phase \<Rightarrow> bool" where
  "decided ph \<longleftrightarrow> (case ph of Ph_settling _ _ _ \<Rightarrow> False | Ph_delivering \<Rightarrow> False | Ph_redelivering \<Rightarrow> False
     | Ph_done (Out_completed False _) \<Rightarrow> False | _ \<Rightarrow> True)"

lemma decisions_decided:
  "decided (fst (decide_existing c r))" "decided (fst (after_reserve c found))" "decided (fst (after_wait c r))"
  "decided (fst (wait_poll c b r f))" "decided (fst (not_claimed c found))" "decided (throw_to c k m)"
  by (auto simp: decide_existing_def after_reserve_def after_wait_def wait_poll_def not_claimed_def conflict_outcome_def
      decided_def throw_to_def split: option.split catcher.split)

lemma decided_simps [simp]:
  "\<not> decided (Ph_settling v d k)" "\<not> decided Ph_delivering" "\<not> decided Ph_redelivering" "decided Ph_start"
  "decided (Ph_waiting r)" "decided (Ph_claiming r)" "decided (Ph_claimed r b e)" "decided (Ph_recovering d)"
  "decided (Ph_marking m l d k)" "decided (Ph_releasing m d k)" "decided (Ph_done Out_thrown)"
  "decided (Ph_done (Out_pending st d m))" "decided (Ph_done (Out_completed d v)) = d"
  by (simp_all add: decided_def split: bool.split)

lemma decided_from:
  "decide_existing c r = (ph, evs) \<Longrightarrow> decided ph" "after_reserve c found = (ph, evs) \<Longrightarrow> decided ph"
  "after_wait c r = (ph, evs) \<Longrightarrow> decided ph" "wait_poll c b r f = (ph, evs) \<Longrightarrow> decided ph"
  "not_claimed c found = (ph, evs) \<Longrightarrow> decided ph"
  using decisions_decided by (metis fst_conv)+

text \<open>What a step may come to other than a decision.\<close>

lemma call_step_decides:
  assumes "call_step c i ph f = ((ph', evs), f')" and "\<not> is_done ph"
  shows "decided ph' \<or> (ph' \<in> {Ph_delivering, Ph_redelivering} \<and> Ev_delivered \<in> set evs) \<or>
    (\<exists>v d k. ph' = Ph_settling v d k \<and> (ph \<in> {Ph_delivering, Ph_redelivering} \<and> si_delivered i = Delivered v \<or>
       si_recovery i = Recovered v)) \<or>
    (\<exists>v d k. ph = Ph_settling v d k \<and> ph' = Ph_done (Out_completed d v) \<and> settle_owned (si_now i) (si_io i) c v f = (Inr True, f'))"
proof (cases ph)
  case Ph_start
  with assms show ?thesis
    by (auto simp: call_step_defs split: prod.splits sum.splits option.splits bool.splits dest!: decided_from)
next
  case (Ph_waiting r)
  with assms show ?thesis by (auto simp: call_step_def dest!: decided_from)
next
  case (Ph_claiming r)
  with assms show ?thesis
    by (auto simp: call_step_defs split: prod.splits sum.splits option.splits bool.splits dest!: decided_from)
next
  case (Ph_claimed r b e)
  with assms show ?thesis
    by (auto simp: call_step_defs split: prod.splits option.splits bool.splits if_splits)
next
  case Ph_delivering
  with assms show ?thesis
    by (cases "si_delivered i") (auto simp: call_step_def decisions_decided(6))
next
  case Ph_redelivering
  with assms show ?thesis
    by (cases "si_delivered i") (auto simp: call_step_def decisions_decided(6))
next
  case (Ph_recovering d)
  with assms show ?thesis by (cases "si_recovery i") (auto simp: call_step_def)
next
  case (Ph_settling v d k)
  with assms show ?thesis
    by (auto simp: call_step_def decisions_decided(6) split: prod.splits sum.splits bool.splits)
next
  case (Ph_marking m l d k)
  with assms show ?thesis
    by (auto simp: call_step_def decisions_decided(6) split: prod.splits sum.splits bool.splits)
next
  case (Ph_releasing m d k)
  with assms show ?thesis
    by (auto simp: call_step_def decisions_decided(6) split: prod.splits sum.splits bool.splits)
qed (use assms(2) in \<open>simp add: is_done_def\<close>)

lemma delivered_phase:
  assumes "call_step c i ph f = ((ph', evs), f')" and "\<not> is_done ph" and "Ev_delivered \<in> set evs"
  shows "ph' \<in> {Ph_delivering, Ph_redelivering}"
proof -
  note none = decide_counts after_counts wait_counts
  show ?thesis
    using assms by (cases ph)
      (auto simp: call_step_defs is_done_def dest!: none
        split: prod.splits sum.splits option.splits if_splits bool.splits delivered.splits recovery.splits)
qed

text \<open>A step leaves the receipts of replies as they are, and makes one only of the result it settles.\<close>

lemma not_completed_reply: "rc_state r \<noteq> Completed \<Longrightarrow> \<not> receipt_reply env (Receipt_file r m) key t"
  by (simp add: receipt_reply_def)

lemma mutate_reply:
  assumes "\<And>r r'. owned c r \<Longrightarrow> mutate r = Some r' \<Longrightarrow> rc_state r' \<noteq> Completed"
    and "receipt_reply env (snd (mutate_owned now w c mutate f)) key t"
  shows "receipt_reply env f key t"
proof (cases "read_receipt (dc_id c) f")
  case (Some r)
  with assms show ?thesis
    by (auto simp: mutate_owned_def not_completed_reply receipt_reply_def split: if_splits option.splits)
qed (use assms(2) in \<open>auto simp: mutate_owned_def split: if_splits\<close>)

lemma call_step_reply:
  assumes step: "call_step c i ph f = ((ph', evs), f')" and r: "receipt_reply env f' key t"
  shows "receipt_reply env f key t \<or>
    (\<exists>v d k. ph = Ph_settling v d k \<and> ph' = Ph_done (Out_completed d v) \<and> t = si_now i \<and>
       was_sent (result_object v) \<and> reply_key_of_result env (result_object v) = Some key)"
proof (cases ph)
  case Ph_start
  with assms call_step_file [of c i ph f] show ?thesis
    by (auto simp: reserve_receipt_def sending_receipt_def receipt_reply_def split: io.splits if_splits)
next
  case (Ph_claiming r)
  with assms call_step_file [of c i ph f] show ?thesis
    by (auto simp: claim_receipt_def claimed_receipt_def not_completed_reply split: option.splits if_splits)
next
  case (Ph_claimed x b e)
  with assms call_step_file [of c i ph f] show ?thesis
    by (auto simp: renew_receipt_def receipt_reply_def split: if_splits receipt_file.splits)
next
  case (Ph_settling v d k)
  then have f': "f' = snd (settle_owned (si_now i) (si_io i) c v f)" using step call_step_file [of c i ph f] by simp
  show ?thesis
  proof (cases "settle_owned (si_now i) (si_io i) c v f = (Inr True, f') \<and> f' \<noteq> No_file")
    case True
    then obtain x where x: "f' = Receipt_file (completed_receipt (si_now i) v x) (si_now i)"
      by (auto simp: settle_owned_def mutate_owned_def split: if_splits option.splits)
    have "ph' = Ph_done (Out_completed d v)" using True step Ph_settling by (simp add: call_step_def)
    then show ?thesis
      using r Ph_settling unfolding x
      by (auto simp: receipt_reply_def completed_receipt_def disowned_def result_object_def split: option.splits json.splits)
  next
    case False
    then have "f' = f \<or> f' = No_file" using f'
      by (auto simp: settle_owned_def mutate_owned_def split: if_splits option.splits)
    then show ?thesis using r by (auto simp: receipt_reply_def)
  qed
next
  case (Ph_marking m l d k)
  with assms call_step_file [of c i ph f] show ?thesis
    by (auto simp: mark_owned_uncertain_def uncertain_receipt_def intro: mutate_reply [rotated])
next
  case (Ph_releasing m d k)
  have "receipt_reply env f key t"
    by (rule mutate_reply) (use assms call_step_file [of c i ph f] Ph_releasing in
      \<open>auto simp: release_owned_sending_def disowned_def owned_def\<close>)
  then show ?thesis ..
qed (use assms call_step_file [of c i ph f] in auto)

lemma reply_stays: "receipt_reply env f key t \<Longrightarrow> snd (call_step c i ph f) = f"
  by (erule receipt_reply_completed) (rule completed_stays)

lemma reply_renewed: "receipt_reply env f key t \<Longrightarrow> snd (renew_receipt now c e f) = f"
  by (erule receipt_reply_completed) (rule renew_receipt_completed)

lemma renewed_reply: "receipt_reply env (snd (renew_receipt now c e f)) key t \<Longrightarrow> receipt_reply env f key t"
  by (auto simp: renew_receipt_def receipt_reply_def split: receipt_file.splits if_splits)

text \<open>A result that is settled is on file.\<close>

lemma settled_reply:
  assumes "settle_owned now w c v f = (Inr True, f')" and "\<not> dc_retryable c v"
    and "was_sent (result_object v)" and "reply_key_of_result env (result_object v) = Some key"
  shows "receipt_reply env f' key now"
proof -
  obtain r where "v = Some (JObj r)" using assms(3) by (cases v) (auto simp: result_object_def was_sent_def split: json.splits)
  then show ?thesis using assms
    by (auto simp: settle_owned_def mutate_owned_def receipt_reply_def completed_receipt_def disowned_def result_object_def
        split: if_splits option.splits)
qed

section \<open>Receipts in a run\<close>

definition all_calls :: "send_world \<Rightarrow> send_call list" where
  "all_calls w = wd_calls w @ concat (map lf_calls (wd_past w))"

text \<open>A call that has itself delivered a reply to a quoted message, and committed it at a time.\<close>

definition committed :: "send_env \<Rightarrow> send_call \<Rightarrow> int \<Rightarrow> string \<Rightarrow> bool" where
  "committed env c t key \<longleftrightarrow> (case (ac_phase c, ac_answer c) of
     (Ph_done (Out_completed False v), Some (t', a)) \<Rightarrow>
        t' = t \<and> was_sent (result_object v) \<and> reply_key env (ac_prepared c) = Some key
   | _ \<Rightarrow> False)"

definition call_base :: "send_call \<Rightarrow> bool" where
  "call_base c \<longleftrightarrow> route_ok (ac_prepared c) \<and> dc_retryable (ac_call c) = (\<lambda>_. False)"

definition call_ok :: "send_call \<Rightarrow> bool" where
  "call_ok c \<longleftrightarrow> call_base c \<and> (ac_phase c \<in> {Ph_delivering, Ph_redelivering} \<longleftrightarrow> ac_awaits c \<noteq> None) \<and>
     (\<forall>v d k. ac_phase c = Ph_settling v d k \<longrightarrow> carries (ac_prepared c) v)"

definition replies_on_file :: "send_env \<Rightarrow> send_world \<Rightarrow> bool" where
  "replies_on_file env w \<longleftrightarrow> (\<forall>d key t. receipt_reply env (file_of w d) key t \<longrightarrow> t \<le> wd_now w \<and>
     (wd_hydrated w \<longrightarrow> wd_now w < t + reply_window \<longrightarrow> covers (wd_replies w) key t))"

definition committed_on_file :: "send_env \<Rightarrow> send_world \<Rightarrow> bool" where
  "committed_on_file env w \<longleftrightarrow> (\<forall>c \<in> set (all_calls w). \<forall>t key. committed env c t key \<longrightarrow>
     receipt_reply env (file_of w (dc_id (ac_call c))) key t)"

definition records_ok :: "send_env \<Rightarrow> send_world \<Rightarrow> bool" where
  "records_ok env w \<longleftrightarrow> replies_on_file env w \<and> committed_on_file env w"

definition receipts_ok :: "send_env \<Rightarrow> send_world \<Rightarrow> bool" where
  "receipts_ok env w \<longleftrightarrow> list_all call_ok (wd_calls w) \<and> records_ok env w"

lemma file_of_put: "file_of (put_file d f w) d' = (if d' = d then f else file_of w d')"
  by (simp add: file_of_def put_file_def)

lemma file_of_cong: "wd_files w' = wd_files w \<Longrightarrow> file_of w' = file_of w"
  by (simp add: file_of_def fun_eq_iff)

lemma put_file_frame [simp]:
  "wd_now (put_file d f w) = wd_now w" "wd_replies (put_file d f w) = wd_replies w" "wd_calls (put_file d f w) = wd_calls w"
  "wd_hydrated (put_file d f w) = wd_hydrated w" "wd_past (put_file d f w) = wd_past w"
  by (simp_all add: put_file_def)

lemma upd_send_frame [simp]:
  "wd_now (upd_send k g w) = wd_now w" "wd_replies (upd_send k g w) = wd_replies w" "wd_files (upd_send k g w) = wd_files w"
  "wd_hydrated (upd_send k g w) = wd_hydrated w" "wd_past (upd_send k g w) = wd_past w"
  "wd_calls (upd_send k g w) = (wd_calls w)[k := g (wd_calls w ! k)]"
  by (simp_all add: upd_send_def)

text \<open>What becomes of the records when the replies keep what is recent and only replies of this moment are new.\<close>

lemma records_ok_next:
  assumes ok: "records_ok env w" and keeps: "keeps_recent w w'" and hyd: "wd_hydrated w' \<longrightarrow> wd_hydrated w"
    and new: "\<And>d key t. receipt_reply env (file_of w' d) key t \<Longrightarrow> receipt_reply env (file_of w d) key t \<or>
        t = wd_now w \<and> covers (wd_replies w') key t"
    and stay: "\<And>d key t. receipt_reply env (file_of w d) key t \<Longrightarrow> receipt_reply env (file_of w' d) key t"
    and calls: "\<And>c t key. c \<in> set (all_calls w') \<Longrightarrow> committed env c t key \<Longrightarrow>
        (\<exists>c0 \<in> set (all_calls w). committed env c0 t key \<and> dc_id (ac_call c0) = dc_id (ac_call c)) \<or>
        receipt_reply env (file_of w' (dc_id (ac_call c))) key t"
  shows "records_ok env w'"
proof -
  have now: "wd_now w' = wd_now w" using keeps by (simp add: keeps_recent_def)
  have "replies_on_file env w'"
    unfolding replies_on_file_def
  proof (intro allI impI)
    fix d key t assume r: "receipt_reply env (file_of w' d) key t"
    show "t \<le> wd_now w' \<and> (wd_hydrated w' \<longrightarrow> wd_now w' < t + reply_window \<longrightarrow> covers (wd_replies w') key t)"
    proof (cases "receipt_reply env (file_of w d) key t")
      case True
      then have "t \<le> wd_now w" "wd_hydrated w \<longrightarrow> wd_now w < t + reply_window \<longrightarrow> covers (wd_replies w) key t"
        using ok unfolding records_ok_def replies_on_file_def by blast+
      then show ?thesis using keeps hyd unfolding keeps_recent_def by auto
    qed (use new [OF r] now in auto)
  qed
  moreover have "committed_on_file env w'"
    unfolding committed_on_file_def
  proof (intro ballI allI impI)
    fix c t key assume c: "c \<in> set (all_calls w')" "committed env c t key"
    from calls [OF this] show "receipt_reply env (file_of w' (dc_id (ac_call c))) key t"
    proof
      assume "\<exists>c0 \<in> set (all_calls w). committed env c0 t key \<and> dc_id (ac_call c0) = dc_id (ac_call c)"
      then have "receipt_reply env (file_of w (dc_id (ac_call c))) key t"
        using ok unfolding records_ok_def committed_on_file_def by metis
      then show ?thesis by (rule stay)
    qed
  qed
  ultimately show ?thesis by (simp add: records_ok_def)
qed

lemma records_ok_calls:
  assumes ok: "records_ok env w" and frame: "wd_now w' = wd_now w" "wd_replies w' = wd_replies w" "wd_files w' = wd_files w"
      "wd_hydrated w' = wd_hydrated w"
    and calls: "\<And>c t key. c \<in> set (all_calls w') \<Longrightarrow> committed env c t key \<Longrightarrow>
        \<exists>c0 \<in> set (all_calls w). committed env c0 t key \<and> dc_id (ac_call c0) = dc_id (ac_call c)"
  shows "records_ok env w'"
  by (rule records_ok_next [OF ok]) (use frame calls file_of_cong [OF frame(3)] in \<open>auto simp: keeps_recent_same\<close>)

text \<open>A change of one call.\<close>

lemma all_calls_upd:
  assumes "c \<in> set (all_calls (upd_send k g w))" "committed env c t key"
    and "k < length (wd_calls w) \<Longrightarrow> committed env (g (wd_calls w ! k)) t key \<Longrightarrow>
      P (g (wd_calls w ! k))"
    and "\<And>c. c \<in> set (all_calls w) \<Longrightarrow> committed env c t key \<Longrightarrow> P c"
  shows "P c"
proof (cases "k < length (wd_calls w) \<and> c = g (wd_calls w ! k)")
  case True
  then show ?thesis using assms(2,3) by simp
next
  case False
  have "c \<in> set (all_calls w)"
  proof (cases "k < length (wd_calls w)")
    case True
    then show ?thesis using assms(1) False
      by (auto simp: all_calls_def dest!: set_update_subset_insert [THEN subsetD])
  qed (use assms(1) in \<open>simp add: all_calls_def list_update_beyond\<close>)
  then show ?thesis using assms(2,4) by simp
qed

lemma committed_fields [simp]:
  "committed env (c\<lparr>ac_awaits := a\<rparr>) = committed env c" "committed env (c\<lparr>ac_heartbeat := h\<rparr>) = committed env c"
  "committed env (c\<lparr>ac_duplicate := d\<rparr>) = committed env c"
  by (simp_all add: committed_def fun_eq_iff split: phase.split outcome.split option.split bool.split)

lemma all_calls_new: "all_calls (w\<lparr>wd_calls := wd_calls w @ [c]\<rparr>) = wd_calls w @ c # concat (map lf_calls (wd_past w))"
  by (simp add: all_calls_def)

lemma hydrate_covers:
  assumes "receipt_reply env f key t" "f \<in> set fs" "now < t + reply_window"
  shows "covers (foldl (\<lambda>m f. hydrate_file env now f m) m fs) key t"
  using assms(2)
proof (induction fs arbitrary: m)
  case (Cons g fs)
  show ?case
  proof (cases "f = g")
    case True
    have "covers (hydrate_file env now f m) key t"
      using assms(1,3) by (cases f) (auto simp: receipt_reply_def covers_def Let_def split: option.splits json.splits)
    then show ?thesis using True by (simp add: covers_hydrate_files)
  next
    case False
    then show ?thesis using Cons by simp
  qed
qed simp

lemma file_of_jvals: "file_of w d \<noteq> No_file \<Longrightarrow> file_of w d \<in> set (jvals (wd_files w))"
  by (force simp: file_of_def split: option.splits dest!: jget_mem)

lemma hydrate_records:
  assumes ok: "records_ok env w" shows "records_ok env (hydrate env w)"
proof (cases "wd_hydrated w")
  case False
  have same: "file_of (hydrate env w) = file_of w" by (intro file_of_cong) simp
  have "replies_on_file env (hydrate env w)"
    unfolding replies_on_file_def same
  proof (intro allI impI conjI)
    fix d key t assume r: "receipt_reply env (file_of w d) key t"
    show "t \<le> wd_now (hydrate env w)" using ok r unfolding records_ok_def replies_on_file_def by simp
    assume "wd_now (hydrate env w) < t + reply_window"
    moreover have "file_of w d \<in> set (jvals (wd_files w))"
      using r by (intro file_of_jvals) (auto simp: receipt_reply_def)
    ultimately show "covers (wd_replies (hydrate env w)) key t"
      using False hydrate_covers [OF r] by (simp add: hydrate_def)
  qed
  moreover have "all_calls (hydrate env w) = all_calls w" by (simp add: all_calls_def hydrate_def)
  ultimately show ?thesis using ok by (simp add: records_ok_def committed_on_file_def same)
qed (use ok in \<open>simp add: hydrate_def\<close>)

lemma read_records:
  assumes ok: "records_ok env w" shows "records_ok env (snd (read_recent_reply env key w))"
proof (cases key)
  case (Some k)
  let ?w = "hydrate env w" and ?w' = "snd (read_recent_reply env key w)"
  note h = hydrate_records [OF ok]
  consider "?w' = ?w" | "?w' = ?w\<lparr>wd_replies := jdel k (wd_replies ?w)\<rparr>" "\<forall>e. jget (wd_replies ?w) k = Some e \<longrightarrow> ry_expires e \<le> wd_now ?w"
    unfolding Some by (cases "jget (wd_replies ?w) k"; cases "wd_now w < ry_expires (the (jget (wd_replies ?w) k))")
      (auto simp: read_recent_reply_def Let_def)
  then show ?thesis
  proof cases
    case 2
    have "keeps_recent ?w ?w'" using 2(2) unfolding 2(1) by (auto simp: keeps_recent_def covers_def)
    moreover have "file_of ?w' = file_of ?w" "all_calls ?w' = all_calls ?w" "wd_hydrated ?w' = wd_hydrated ?w"
      unfolding 2(1) by (simp_all add: file_of_def fun_eq_iff all_calls_def)
    ultimately show ?thesis by (intro records_ok_next [OF h]) auto
  qed (use h in simp)
qed (use ok in \<open>simp add: read_recent_reply_def\<close>)

text \<open>What a caller looks at after a step of its durable delivery.\<close>

lemma advance_step:
  obtains ph evs f where
    "call_step (ac_call (wd_calls w ! k))
       (i\<lparr>si_now := wd_now w, si_recovery := inspected (ac_prepared (wd_calls w ! k)) (si_recovery i)\<rparr>)
       (ac_phase (wd_calls w ! k)) (file_of w (dc_id (ac_call (wd_calls w ! k)))) = ((ph, evs), f)"
    "advance env k i w = (case ph of Ph_done out \<Rightarrow> finish_call env k out (stepped k ph f w)
       | _ \<Rightarrow> if Ev_delivered \<in> set evs
           then coalesce (content_key env (ac_prepared (wd_calls w ! k)) (ac_request (wd_calls w ! k))) k (stepped k ph f w)
           else stepped k ph f w)"
proof -
  obtain ph evs f where step: "call_step (ac_call (wd_calls w ! k))
       (i\<lparr>si_now := wd_now w, si_recovery := inspected (ac_prepared (wd_calls w ! k)) (si_recovery i)\<rparr>)
       (ac_phase (wd_calls w ! k)) (file_of w (dc_id (ac_call (wd_calls w ! k)))) = ((ph, evs), f)" by (metis surj_pair)
  show thesis by (rule that [OF step]) (cases ph; simp add: advance_def step stepped_def Let_def)
qed

lemma stepped_more:
  "wd_hydrated (stepped k ph f w) = wd_hydrated w" "wd_past (stepped k ph f w) = wd_past w"
  "file_of (stepped k ph f w) d = (if d = dc_id (ac_call (wd_calls w ! k)) then f else file_of w d)"
  by (simp_all add: stepped_def file_of_put file_of_cong [OF upd_send_frame(3)])

lemma coalesce_more:
  "wd_files (coalesce key k w) = wd_files w" "wd_hydrated (coalesce key k w) = wd_hydrated w" "wd_past (coalesce key k w) = wd_past w"
  by (simp_all add: coalesce_def Let_def split: option.split)

lemma coalesce_calls:
  obtains a where "a \<noteq> None" "wd_calls (coalesce key k w) = (wd_calls w)[k := (wd_calls w ! k)\<lparr>ac_awaits := a\<rparr>]"
  using that by (cases "live_entry key w") (fastforce simp: coalesce_def Let_def split: option.splits)+

lemma finish_more:
  "wd_files (finish_call env k out w) = wd_files w" "wd_hydrated (finish_call env k out w) = wd_hydrated w"
  "wd_past (finish_call env k out w) = wd_past w" "wd_now (finish_call env k out w) = wd_now w"
  by (cases out; simp add: finish_call_def remember_reply_def Let_def split: option.split)+

lemma finish_calls:
  "\<exists>a. wd_calls (finish_call env k out w) = (wd_calls w)[k := (wd_calls w ! k)\<lparr>ac_answer := a\<rparr>] \<and>
     (\<forall>t x. a = Some (t, x) \<longrightarrow> t = wd_now w \<or> (out = Out_thrown \<and> ac_answer (wd_calls w ! k) = a))"
proof (cases out)
  case Out_thrown
  then show ?thesis by (intro exI [of _ "ac_answer (wd_calls w ! k)"]) (simp add: finish_call_def Let_def)
qed (fastforce simp: finish_call_def Let_def)+

lemma finish_covers:
  assumes "k < length (wd_calls w)" "out = Out_completed dup v" "was_sent (result_object v)"
    and "reply_key env (ac_prepared (wd_calls w ! k)) = Some key"
  shows "covers (wd_replies (finish_call env k out w)) key (wd_now w)"
  using assms by (simp add: finish_call_def remember_reply_def covers_def Let_def)

text \<open>A step of a call that is under way keeps the records, and the call is as it should be afterwards.\<close>

lemma committed_open: "\<not> is_done (ac_phase c) \<Longrightarrow> \<not> committed env c t key"
  by (simp add: committed_def is_done_def split: phase.splits)

lemma advance_receipts_ok:
  assumes ok: "records_ok env w" and k: "k < length (wd_calls w)"
    and others: "\<And>j. j < length (wd_calls w) \<Longrightarrow> j \<noteq> k \<Longrightarrow> call_ok (wd_calls w ! j)"
    and base: "call_base (wd_calls w ! k)" and awaits: "ac_awaits (wd_calls w ! k) = None" and "open": "\<not> is_done (ac_phase (wd_calls w ! k))"
    and settles: "\<And>v d c. ac_phase (wd_calls w ! k) = Ph_settling v d c \<Longrightarrow> carries (ac_prepared (wd_calls w ! k)) v"
    and delivers: "\<And>v. ac_phase (wd_calls w ! k) \<in> {Ph_delivering, Ph_redelivering} \<Longrightarrow> si_delivered i = Delivered v \<Longrightarrow>
        carries (ac_prepared (wd_calls w ! k)) v"
  shows "receipts_ok env (advance env k i w)"
proof -
  let ?c = "wd_calls w ! k" and ?i = "i\<lparr>si_now := wd_now w, si_recovery := inspected (ac_prepared (wd_calls w ! k)) (si_recovery i)\<rparr>"
  let ?d = "dc_id (ac_call ?c)" and ?n = "ac_prepared ?c"
  obtain ph evs f where step: "call_step (ac_call ?c) ?i (ac_phase ?c) (file_of w ?d) = ((ph, evs), f)"
    and adv: "advance env k i w = (case ph of Ph_done out \<Rightarrow> finish_call env k out (stepped k ph f w)
       | _ \<Rightarrow> if Ev_delivered \<in> set evs then coalesce (content_key env ?n (ac_request ?c)) k (stepped k ph f w)
           else stepped k ph f w)"
    by (rule advance_step)
  let ?w1 = "stepped k ph f w" and ?w' = "advance env k i w"
  have route: "route_ok ?n" and retry: "\<not> dc_retryable (ac_call ?c) v" for v using base by (simp_all add: call_base_def)
  note decides = call_step_decides [OF step "open"]
  have carried: "carries ?n v" if "ph = Ph_settling v d c" for v d c
    using decides that delivers inspected_carries by auto
  obtain h where c1: "wd_calls ?w1 = (wd_calls w)[k := ?c\<lparr>ac_phase := ph, ac_heartbeat := h\<rparr>]" by (simp add: stepped_fields)
  have file_at: "file_of ?w1 d = (if d = ?d then f else file_of w d)" for d by (rule stepped_more(3))
  have stay1: "receipt_reply env (file_of w d) key t \<Longrightarrow> receipt_reply env (file_of ?w1 d) key t" for d key t
    using reply_stays [of env "file_of w ?d" key t "ac_call ?c" ?i "ac_phase ?c"] step by (auto simp: file_at)
  show ?thesis
  proof (cases "is_done ph")
    case True
    then obtain out where out: "ph = Ph_done out" by (auto simp: is_done_def split: phase.splits)
    then have w': "?w' = finish_call env k out ?w1" by (simp add: adv)
    obtain a where calls: "wd_calls ?w' = (wd_calls ?w1)[k := (wd_calls ?w1 ! k)\<lparr>ac_answer := a\<rparr>]"
      and a: "\<And>t x. a = Some (t, x) \<Longrightarrow> t = wd_now w \<or> out = Out_thrown"
      using finish_calls [of env k out ?w1] w' by (auto simp: stepped_fields)
    define c' where "c' = ?c\<lparr>ac_phase := ph, ac_heartbeat := h, ac_answer := a\<rparr>"
    have calls': "wd_calls ?w' = (wd_calls w)[k := c']" using calls k by (simp add: c1 c'_def)
    have files: "file_of ?w' = file_of ?w1" by (intro file_of_cong) (simp add: w' finish_more)
    have past: "wd_past ?w' = wd_past w" "wd_hydrated ?w' = wd_hydrated w" "wd_now ?w' = wd_now w"
      by (simp_all add: w' finish_more stepped_more stepped_fields)
    have settled: "\<exists>v d c. ac_phase ?c = Ph_settling v d c \<and> out = Out_completed d v \<and>
        settle_owned (wd_now w) (si_io i) (ac_call ?c) v (file_of w ?d) = (Inr True, f)"
      if "out = Out_completed False x" for x using decides that out by auto
    have "records_ok env ?w'"
    proof (rule records_ok_next [OF ok])
      show "keeps_recent w ?w'"
        unfolding w' by (rule keeps_recent_trans [OF _ finish_keeps_recent]) (simp add: keeps_recent_same stepped_fields)
      show "receipt_reply env (file_of w d) key t \<Longrightarrow> receipt_reply env (file_of ?w' d) key t" for d key t
        unfolding files by (rule stay1)
    next
      fix d key t assume r: "receipt_reply env (file_of ?w' d) key t"
      show "receipt_reply env (file_of w d) key t \<or> t = wd_now w \<and> covers (wd_replies ?w') key t"
      proof (cases "d = ?d")
        case True
        then have "receipt_reply env f key t" using r by (simp add: files file_at)
        from call_step_reply [OF step this] show ?thesis
        proof
          assume "\<exists>v d k'. ac_phase ?c = Ph_settling v d k' \<and> ph = Ph_done (Out_completed d v) \<and> t = si_now ?i \<and>
            was_sent (result_object v) \<and> reply_key_of_result env (result_object v) = Some key"
          then obtain v dup k' where v: "ac_phase ?c = Ph_settling v dup k'" "out = Out_completed dup v" "t = wd_now w"
            "was_sent (result_object v)" "reply_key_of_result env (result_object v) = Some key" using out by auto
          have "reply_key env ?n = Some key" using carries_key(1) [OF settles [OF v(1)] route, of env] v(5) by simp
          then have "covers (wd_replies ?w') key (wd_now ?w1)"
            unfolding w' using v(2,4) k by (intro finish_covers) (simp_all add: stepped_fields)
          then show ?thesis using v(3) by (simp add: stepped_fields)
        qed (use True in simp)
      qed (use r in \<open>simp add: files file_at\<close>)
    next
      fix c t key assume c: "c \<in> set (all_calls ?w')" "committed env c t key"
      have "c \<in> set (all_calls w) \<or> c = c'"
        using c(1) unfolding all_calls_def calls' past by (auto dest!: set_update_subset_insert [THEN subsetD])
      then show "(\<exists>c0 \<in> set (all_calls w). committed env c0 t key \<and> dc_id (ac_call c0) = dc_id (ac_call c)) \<or>
          receipt_reply env (file_of ?w' (dc_id (ac_call c))) key t"
      proof
        assume c': "c = c'"
        then obtain v x where v: "out = Out_completed False v" "a = Some (t, x)" "was_sent (result_object v)" "reply_key env ?n = Some key"
          using c(2) out by (auto simp: committed_def c'_def split: outcome.splits option.splits bool.splits)
        obtain c0 where s: "ac_phase ?c = Ph_settling v False c0"
            "settle_owned (wd_now w) (si_io i) (ac_call ?c) v (file_of w ?d) = (Inr True, f)" using settled [OF v(1)] v(1) by auto
        have "reply_key_of_result env (result_object v) = Some key" using carries_key(1) [OF settles [OF s(1)] route, of env] v(4) by simp
        from settled_reply [OF s(2) retry v(3) this] a [OF v(2)] v(1) show ?thesis
          by (simp add: files file_at c' c'_def)
      qed (use c(2) in blast)
    qed (simp add: past)
    moreover have "call_ok c'" using base awaits out by (simp add: call_ok_def call_base_def c'_def)
    then have "list_all call_ok (wd_calls ?w')"
      using others k unfolding calls' by (auto simp: list_all_length nth_list_update)
    ultimately show ?thesis by (simp add: receipts_ok_def)
  next
    case False
    define c1 where "c1 = ?c\<lparr>ac_phase := ph, ac_heartbeat := h\<rparr>"
    have adv': "?w' = (if Ev_delivered \<in> set evs then coalesce (content_key env ?n (ac_request ?c)) k ?w1 else ?w1)"
      using False adv by (cases ph) (simp_all add: is_done_def)
    obtain a where calls: "wd_calls ?w' = (wd_calls w)[k := c1\<lparr>ac_awaits := a\<rparr>]" and a: "a \<noteq> None \<longleftrightarrow> Ev_delivered \<in> set evs"
    proof (cases "Ev_delivered \<in> set evs")
      case True
      obtain b where "b \<noteq> None" "wd_calls ?w' = (wd_calls ?w1)[k := (wd_calls ?w1 ! k)\<lparr>ac_awaits := b\<rparr>]"
        unfolding adv' if_P [OF True] by (rule coalesce_calls)
      then show thesis using that [of b] True k by (simp add: c1 c1_def)
    next
      case False
      have "c1\<lparr>ac_awaits := None\<rparr> = c1" using awaits by (cases "wd_calls w ! k") (simp add: c1_def)
      with False show thesis using that [of None] adv' by (simp add: c1 c1_def)
    qed
    have same: "wd_files ?w' = wd_files ?w1" "wd_hydrated ?w' = wd_hydrated w" "wd_past ?w' = wd_past w" "wd_now ?w' = wd_now w"
      "wd_replies ?w' = wd_replies w"
      by (simp_all add: adv' coalesce_more coalesce_frame stepped_more stepped_fields)
    have files: "file_of ?w' = file_of ?w1" by (rule file_of_cong [OF same(1)])
    have "records_ok env ?w'"
    proof (rule records_ok_next [OF ok])
      show "keeps_recent w ?w'" using same by (intro keeps_recent_same)
      show "receipt_reply env (file_of w d) key t \<Longrightarrow> receipt_reply env (file_of ?w' d) key t" for d key t
        unfolding files by (rule stay1)
    next
      fix d key t assume "receipt_reply env (file_of ?w' d) key t"
      then show "receipt_reply env (file_of w d) key t \<or> t = wd_now w \<and> covers (wd_replies ?w') key t"
        using call_step_reply [OF step, of env key t] False by (auto simp: files file_at is_done_def split: if_splits)
    next
      fix c t key assume c: "c \<in> set (all_calls ?w')" "committed env c t key"
      have "c \<in> set (all_calls w) \<or> c = c1\<lparr>ac_awaits := a\<rparr>"
        using c(1) unfolding all_calls_def calls same by (auto dest!: set_update_subset_insert [THEN subsetD])
      moreover have "\<not> committed env (c1\<lparr>ac_awaits := a\<rparr>) t key" using False by (intro committed_open) (simp add: c1_def)
      ultimately show "(\<exists>c0 \<in> set (all_calls w). committed env c0 t key \<and> dc_id (ac_call c0) = dc_id (ac_call c)) \<or>
          receipt_reply env (file_of ?w' (dc_id (ac_call c))) key t" using c(2) by blast
    qed (simp add: same)
    moreover have "Ev_delivered \<in> set evs \<longleftrightarrow> ph \<in> {Ph_delivering, Ph_redelivering}"
      using decides delivered_phase [OF step "open"] by auto
    then have "call_ok (c1\<lparr>ac_awaits := a\<rparr>)"
      using base a carried by (auto simp: call_ok_def call_base_def c1_def)
    then have "list_all call_ok (wd_calls ?w')"
      using others k unfolding calls by (auto simp: list_all_length nth_list_update)
    ultimately show ?thesis by (simp add: receipts_ok_def)
  qed
qed

lemma receiptsD: "receipts_ok env w \<Longrightarrow> k < length (wd_calls w) \<Longrightarrow> call_ok (wd_calls w ! k)"
  by (simp add: receipts_ok_def list_all_length)

text \<open>A call that is prepared.\<close>

lemma prepared_base:
  assumes "prepare_send env request execution host pid recover = Some (n, dc)"
  shows "route_ok n" "dc_retryable dc = (\<lambda>_. False)"
  using assms prepared_route
  by (auto simp: prepare_send_def delivery_call_of_def send_options_def bindr_def split: sum.splits prod.splits)

lemma new_records:
  assumes ok: "records_ok env w" and c: "\<And>t key. \<not> committed env c t key"
  shows "records_ok env (w\<lparr>wd_calls := wd_calls w @ [c]\<rparr>)"
  by (rule records_ok_calls [OF ok]) (use c in \<open>auto simp: all_calls_def\<close>)

lemma send_receipts_ok:
  assumes ok: "receipts_ok env w"
  shows "receipts_ok env (send_message env request execution host pid recover i w)"
proof (cases "prepare_send env request execution host pid recover")
  case None
  then show ?thesis using ok by (simp add: send_message_def)
next
  case (Some nd)
  obtain n dc where nd: "nd = (n, dc)" by (cases nd)
  note base = prepared_base [OF Some [unfolded nd]]
  obtain recent w1 where r: "(if nm_additional n then (None, w) else read_recent_reply env (reply_key env n) w) = (recent, w1)"
    by (metis surj_pair)
  have w1: "receipts_ok env w1"
    using r ok read_records [of env w "reply_key env n"] read_calls [of env "reply_key env n" w]
    unfolding receipts_ok_def by (metis snd_conv)
  let ?new = "\<lambda>a. w1\<lparr>wd_calls := wd_calls w1 @ [new_send n request dc a]\<rparr>"
  have rec: "records_ok env (?new a)" for a
    using w1 unfolding receipts_ok_def by (intro new_records) (simp_all add: new_send_def committed_def)
  have new: "call_ok (new_send n request dc a)" for a using base by (simp add: call_ok_def call_base_def new_send_def)
  have all: "list_all call_ok (wd_calls (?new a))" for a using w1 new by (simp add: receipts_ok_def)
  show ?thesis
  proof (cases recent)
    case (Some e)
    show ?thesis
      unfolding send_message_prepared [OF \<open>prepare_send env request execution host pid recover = Some nd\<close> [unfolded nd]] r Some
      using rec all by (simp add: receipts_ok_def)
  next
    case None
    have "receipts_ok env (advance env (length (wd_calls w1)) i (?new None))"
      using rec [of None] all [of None] new [of None]
      by (intro advance_receipts_ok) (auto simp: list_all_length new_send_def is_done_def call_ok_def)
    then show ?thesis
      unfolding send_message_prepared [OF \<open>prepare_send env request execution host pid recover = Some nd\<close> [unfolded nd]] r None
      by simp
  qed
qed

lemma advance_call_ok:
  assumes ok: "receipts_ok env w" and k: "k < length (wd_calls w)" "ac_awaits (wd_calls w ! k) = None" "\<not> is_done (ac_phase (wd_calls w ! k))"
  shows "receipts_ok env (advance env k i w)"
proof (rule advance_receipts_ok [OF _ k(1)])
  show "records_ok env w" using ok by (simp add: receipts_ok_def)
  show "call_base (wd_calls w ! k)" using receiptsD [OF ok k(1)] by (simp add: call_ok_def)
qed (use receiptsD [OF ok k(1)] receiptsD [OF ok] k in \<open>auto simp: call_ok_def\<close>)

lemma awaits_shape: "call_ok c \<Longrightarrow> ac_awaits c \<noteq> None \<Longrightarrow> \<not> is_done (ac_phase c) \<and> (\<forall>v d k. ac_phase c \<noteq> Ph_settling v d k)"
  by (auto simp: call_ok_def is_done_def)

lemma continues_receipts_ok:
  assumes ok: "receipts_ok env w" and k: "k < length (wd_calls w)" "to_continue w (wd_calls w ! k)"
  shows "receipts_ok env (delivery_continues env k i w)"
proof -
  let ?c = "wd_calls w ! k"
  obtain p shared where aw: "ac_awaits ?c = Some (p, shared)" and st: "pz_state (wd_promises w ! p) \<noteq> Running"
    using k(2) by (auto simp: to_continue_def split: option.splits)
  let ?f = "\<lambda>c. c\<lparr>ac_awaits := None, ac_duplicate := (case pz_state (wd_promises w ! p) of Resolved _ \<Rightarrow> shared | _ \<Rightarrow> ac_duplicate c)\<rparr>"
  let ?w0 = "if shared then w else forget_failed p w"
  let ?w1 = "upd_send k ?f ?w0"
  have frame: "wd_now ?w0 = wd_now w" "wd_calls ?w0 = wd_calls w" "wd_replies ?w0 = wd_replies w" "wd_files ?w0 = wd_files w"
    "wd_hydrated ?w0 = wd_hydrated w" "wd_past ?w0 = wd_past w"
    by (simp_all add: forget_failed_def split: option.split)
  note cok = receiptsD [OF ok k(1)]
  have "open": "\<not> is_done (ac_phase ?c)" "\<And>v d k. ac_phase ?c \<noteq> Ph_settling v d k" using awaits_shape [OF cok] aw by auto
  have "records_ok env ?w1"
  proof (rule records_ok_calls [of env w])
    show "records_ok env w" using ok by (simp add: receipts_ok_def)
    fix c t key assume c: "c \<in> set (all_calls ?w1)" "committed env c t key"
    have "wd_calls ?w1 = (wd_calls w)[k := ?f ?c]" "wd_past ?w1 = wd_past w" by (simp_all only: upd_send_frame frame)
    then have "c \<in> set (all_calls w) \<or> c = ?f ?c"
      using c(1) unfolding all_calls_def by (auto dest!: set_update_subset_insert [THEN subsetD])
    moreover have "\<not> committed env (?f ?c) t key" using "open"(1) by (intro committed_open) simp
    ultimately show "\<exists>c0 \<in> set (all_calls w). committed env c0 t key \<and> dc_id (ac_call c0) = dc_id (ac_call c)"
      using c(2) by blast
  qed (simp_all add: frame)
  moreover have at: "wd_calls ?w1 ! k = ?f ?c" "length (wd_calls ?w1) = length (wd_calls w)"
      "\<And>j. j \<noteq> k \<Longrightarrow> wd_calls ?w1 ! j = wd_calls w ! j"
    using k(1) by (simp_all only: upd_send_frame frame nth_list_update_eq length_list_update nth_list_update_neq)
  ultimately have "receipts_ok env (advance env k (i\<lparr>si_delivered := (case pz_state (wd_promises w ! p) of
                 Resolved r \<Rightarrow> Delivered (Some (JObj (with_request (dc_id (ac_call ?c)) (ac_prepared ?c) r)))
               | Rejected m \<Rightarrow> Delivery_failed m
               | Running \<Rightarrow> Delivery_failed [])\<rparr>) ?w1)"
    using k(1) cok "open" receiptsD [OF ok]
    by (intro advance_receipts_ok) (auto simp: call_ok_def call_base_def carries_def split: promise_state.splits)
  then show ?thesis using aw by (simp add: delivery_continues_def Let_def)
qed

lemma step_receipts_ok:
  assumes ok: "receipts_ok env w" and step: "send_step env e w = Some w'"
  shows "receipts_ok env w'"
proof (cases e)
  case (Send request execution host pid recover i)
  then have "w' = send_message env request execution host pid recover i w" using step by simp
  then show ?thesis using send_receipts_ok [OF ok] by simp
next
  case (Advance k i)
  then show ?thesis using step advance_call_ok [OF ok] by (auto split: if_splits)
next
  case (Continues k i)
  then show ?thesis using step continues_receipts_ok [OF ok] by (auto split: if_splits)
next
  case (Settles p s)
  then have "wd_calls w' = wd_calls w" "wd_past w' = wd_past w" "wd_now w' = wd_now w" "wd_replies w' = wd_replies w"
    "wd_files w' = wd_files w" "wd_hydrated w' = wd_hydrated w" using step by (auto split: if_splits)
  then show ?thesis using ok records_ok_calls [of env w w'] by (auto simp: receipts_ok_def all_calls_def)
next
  case (Content_timer p)
  then have "wd_calls w' = wd_calls w" "wd_past w' = wd_past w" "wd_now w' = wd_now w" "wd_replies w' = wd_replies w"
    "wd_files w' = wd_files w" "wd_hydrated w' = wd_hydrated w" using step by (auto split: if_splits option.splits)
  then show ?thesis using ok records_ok_calls [of env w w'] by (auto simp: receipts_ok_def all_calls_def)
next
  case (Renews k)
  let ?d = "dc_id (ac_call (wd_calls w ! k))"
  obtain b f where k: "k < length (wd_calls w)" and ren: "renew_receipt (wd_now w) (ac_call (wd_calls w ! k)) False (file_of w ?d) = (b, f)"
    and w': "w' = put_file ?d f (upd_send k (\<lambda>c. c\<lparr>ac_heartbeat := b\<rparr>) w)"
    using step Renews by (auto split: if_splits prod.splits)
  have calls: "wd_calls w' = (wd_calls w)[k := (wd_calls w ! k)\<lparr>ac_heartbeat := b\<rparr>]" by (simp add: w')
  have file_at: "file_of w' d = (if d = ?d then f else file_of w d)" for d
    by (simp add: w' file_of_put file_of_cong [OF upd_send_frame(3)])
  have renewed: "receipt_reply env f key t \<longleftrightarrow> receipt_reply env (file_of w ?d) key t" for key t
    using reply_renewed [of env "file_of w ?d" key t "wd_now w" "ac_call (wd_calls w ! k)" False]
      renewed_reply [of env "wd_now w" "ac_call (wd_calls w ! k)" False "file_of w ?d" key t] unfolding ren by auto
  have "records_ok env w'"
  proof (rule records_ok_next)
    show "records_ok env w" using ok by (simp add: receipts_ok_def)
    show "keeps_recent w w'" by (simp add: w' keeps_recent_same)
    fix c t key assume c: "c \<in> set (all_calls w')" "committed env c t key"
    have "c \<in> set (all_calls w) \<or> c = (wd_calls w ! k)\<lparr>ac_heartbeat := b\<rparr>"
      using c(1) calls by (auto simp: all_calls_def w' dest!: set_update_subset_insert [THEN subsetD])
    then show "(\<exists>c0 \<in> set (all_calls w). committed env c0 t key \<and> dc_id (ac_call c0) = dc_id (ac_call c)) \<or>
          receipt_reply env (file_of w' (dc_id (ac_call c))) key t"
      using c(2) nth_mem [OF k] by (auto simp: all_calls_def)
  next
    fix d key t
    show "receipt_reply env (file_of w' d) key t \<Longrightarrow> receipt_reply env (file_of w d) key t \<or> t = wd_now w \<and> covers (wd_replies w') key t"
      and "receipt_reply env (file_of w d) key t \<Longrightarrow> receipt_reply env (file_of w' d) key t"
      using renewed by (auto simp: file_at split: if_splits)
  qed (simp add: w')
  moreover have "list_all call_ok (wd_calls w')"
    using receiptsD [OF ok] k unfolding calls list_all_length by (auto simp: nth_list_update call_ok_def call_base_def)
  ultimately show ?thesis by (simp add: receipts_ok_def)
next
  case (Reply_timer n)
  then have w': "w' = w\<lparr>wd_replies := filter (\<lambda>(k, e). ry_timer e \<noteq> Some n \<or> wd_now w < ry_expires e) (wd_replies w)\<rparr>"
    using step by (simp split: if_splits)
  have "records_ok env w'"
    by (rule records_ok_next [of env w]) (use ok keeps_recent_timer in \<open>auto simp: w' receipts_ok_def all_calls_def file_of_def\<close>)
  then show ?thesis using ok by (simp add: receipts_ok_def w')
next
  case (Passes d)
  then have d: "0 \<le> d" and w': "w' = w\<lparr>wd_now := wd_now w + d\<rparr>" using step by (auto split: if_splits)
  have f: "file_of w' = file_of w" "all_calls w' = all_calls w" by (simp_all add: w' file_of_def fun_eq_iff all_calls_def)
  have "replies_on_file env w'"
    unfolding replies_on_file_def f using ok d unfolding receipts_ok_def records_ok_def replies_on_file_def w' by fastforce
  then show ?thesis using ok by (simp add: receipts_ok_def records_ok_def committed_on_file_def f) (simp add: w')
next
  case Restart
  then have w': "w' = (start_sends (wd_now w) (wd_files w))\<lparr>wd_past := \<lparr>lf_promises = wd_promises w, lf_calls = wd_calls w\<rparr> # wd_past w\<rparr>"
    using step by simp
  have f: "file_of w' = file_of w" "all_calls w' = all_calls w" "wd_now w' = wd_now w" "\<not> wd_hydrated w'" "wd_calls w' = []"
    by (simp_all add: w' start_sends_def file_of_def fun_eq_iff all_calls_def)
  show ?thesis using ok by (simp add: receipts_ok_def records_ok_def replies_on_file_def committed_on_file_def f)
qed

text \<open>No receipt is dated after the start of the run.\<close>

definition past_receipts :: "int \<Rightarrow> (string, receipt_file) jmap \<Rightarrow> bool" where
  "past_receipts now files \<longleftrightarrow> list_all (\<lambda>f. case f of Receipt_file r m \<Rightarrow> rc_updated r \<le> now | _ \<Rightarrow> True) (jvals files)"

lemma start_files: "wd_files (start_sends now files) = files"
  by (simp add: start_sends_def)

lemma start_receipts_ok:
  assumes "past_receipts now files" shows "receipts_ok env (start_sends now files)"
proof -
  have "t \<le> now" if r: "receipt_reply env (file_of (start_sends now files) d) key t" for d key t
  proof -
    have "file_of (start_sends now files) d \<in> set (jvals files)"
      using file_of_jvals [of "start_sends now files" d] r unfolding start_files by (cases "file_of (start_sends now files) d = No_file") (auto simp: receipt_reply_def)
    then have "case file_of (start_sends now files) d of Receipt_file x m \<Rightarrow> rc_updated x \<le> now | _ \<Rightarrow> True"
      using assms unfolding past_receipts_def list_all_iff by blast
    then show ?thesis using r by (cases "file_of (start_sends now files) d") (auto simp: receipt_reply_def)
  qed
  then show ?thesis
    by (simp add: receipts_ok_def records_ok_def replies_on_file_def committed_on_file_def start_sends_def all_calls_def)
qed

interpretation receipts: event_machine "send_step env" "receipts_ok env" "\<lambda>_. True" for env
  by unfold_locales (rule step_receipts_ok)

lemma send_run_receipts: "send_run env es (start_sends now files) = Some w \<Longrightarrow> past_receipts now files \<Longrightarrow> receipts_ok env w"
  by (rule receipts.run_keeps [OF _ _ start_receipts_ok]) (simp_all add: list_all_iff)

end
