(* ===== verification/AgentSendSafety.thy ===== *)
theory AgentSendSafety
  imports AgentSendReceipts
begin

text \<open>
  What \<open>src/manager/agentSendIdempotency.ts\<close> promises: of two deliveries of one content within two minutes
  and one run of the Manager the first has failed, if every delivery is over within that time; and a quoted group
  message that has been answered is not answered again within ten minutes, restarts included, unless the request
  asks for it. The last section shows what the memories get wrong.
\<close>

section \<open>Runs with restarts\<close>

lemma advance_past [simp]: "wd_past (advance env k i w) = wd_past w"
proof -
  obtain ph evs f where "advance env k i w = (case ph of Ph_done out \<Rightarrow> finish_call env k out (stepped k ph f w)
       | _ \<Rightarrow> if Ev_delivered \<in> set evs
           then coalesce (content_key env (ac_prepared (wd_calls w ! k)) (ac_request (wd_calls w ! k))) k (stepped k ph f w)
           else stepped k ph f w)"
    by (rule advance_step)
  then show ?thesis by (cases ph) (simp_all add: finish_more coalesce_more stepped_more)
qed

lemma read_past [simp]: "wd_past (snd (read_recent_reply env key w)) = wd_past w"
  by (simp add: read_recent_reply_def hydrate_def Let_def split: option.split)

lemma send_past [simp]: "wd_past (send_message env request execution host pid recover i w) = wd_past w"
proof -
  have "wd_past (snd (if b then (None, w) else read_recent_reply env key w)) = wd_past w" for b key by simp
  then show ?thesis
    by (simp add: send_message_def Let_def case_prod_beta split: option.split)
qed

lemma step_past: "send_step env e w = Some w' \<Longrightarrow> e \<noteq> Restart \<Longrightarrow> wd_past w' = wd_past w"
  by (cases e) (auto simp: delivery_continues_def forget_failed_def Let_def put_file_def split: if_splits option.splits prod.splits)

text \<open>The promises of the present run of the Manager, and of those before.\<close>

definition lives :: "send_world \<Rightarrow> send_promise list list" where
  "lives w = wd_promises w # map lf_promises (wd_past w)"

definition lives_ok :: "send_env \<Rightarrow> send_world \<Rightarrow> bool" where
  "lives_ok env w \<longleftrightarrow> sends_ok env w \<and> (nv_prompt env \<longrightarrow> list_all (\<lambda>l. delivered_once (lf_promises l)) (wd_past w))"

lemma step_lives_ok:
  assumes ok: "lives_ok env w" and step: "send_step env e w = Some w'"
  shows "lives_ok env w'"
proof -
  have s: "sends_ok env w'" using ok send_step_ok [OF _ step] by (simp add: lives_ok_def)
  show ?thesis
  proof (cases "e = Restart")
    case True
    then have "wd_past w' = \<lparr>lf_promises = wd_promises w, lf_calls = wd_calls w\<rparr> # wd_past w" using step by auto
    then show ?thesis using ok s by (auto simp: lives_ok_def sends_ok_def sends_content_ok_def content_ok_def)
  next
    case False
    then show ?thesis using ok s step_past [OF step] by (simp add: lives_ok_def)
  qed
qed

interpretation lives: event_machine "send_step env" "lives_ok env" "\<lambda>_. True" for env
  by unfold_locales (rule step_lives_ok)

lemma start_lives_ok: "lives_ok env (start_sends now files)"
proof -
  have "wd_past (start_sends now files) = []" by (simp add: start_sends_def)
  with sends_ok_start show ?thesis by (simp add: lives_ok_def)
qed

lemma send_run_lives: "send_run env es (start_sends now files) = Some w \<Longrightarrow> lives_ok env w"
  by (rule lives.run_keeps [OF _ _ start_lives_ok]) (simp_all add: list_all_iff)

section \<open>Sample runs\<close>

definition sample_env :: "bool \<Rightarrow> send_env" where
  "sample_env prompt = \<lparr>nv_sha = (\<lambda>s. CHR ''x'' # s), nv_root = ''/r'', nv_prompt = prompt\<rparr>"

definition sample_request :: "string \<Rightarrow> string \<Rightarrow> string \<Rightarrow> json_object" where
  "sample_request session delivery text =
     [(''deliveryId'', JStr delivery),
      (''sender'', JObj [(''agentType'', JStr ''message_processing''), (''sessionId'', JStr session)]),
      (''routeId'', JStr ''r''), (''channel'', JStr ''napcat''),
      (''params'', JObj [(''target'', JStr ''group''), (''groupId'', JStr ''4''), (''replyToMessageId'', JStr ''9'')]),
      (''payload'', JObj [(''type'', JStr ''text''), (''text'', JStr text)])]"

definition sample_input :: step_input where
  "sample_input = \<lparr>si_now = 0, si_io = Io_ok, si_alive = (\<lambda>_. True), si_deadline = False, si_heartbeat = None,
     si_delivered = Delivery_failed [], si_recovery = Recover_retry\<rparr>"

definition sample_send :: "string \<Rightarrow> string \<Rightarrow> send_event" where
  "sample_send delivery text = Send (sample_request ''s1'' delivery text) delivery ''h'' 7 False sample_input"

definition is_sent :: promise_state where
  "is_sent = Resolved [(''ok'', JBool True), (''status'', JStr ''sent'')]"

text \<open>A send from the request to its answer.\<close>

definition whole_send :: "nat \<Rightarrow> nat \<Rightarrow> string \<Rightarrow> string \<Rightarrow> send_event list" where
  "whole_send k p delivery text = [sample_send delivery text, Advance k sample_input, Settles p is_sent,
     Continues k sample_input, Advance k sample_input]"

text \<open>C18: if every delivery is over within two minutes, then of two deliveries of the same message-processing content
  that begin within two minutes of each other and in the same run of the Manager (the present one or one before a
  restart) the earlier has failed: concurrent and repeated sends share one delivery, and only a failed one is made
  again. A restart forgets the content: the next send of it is delivered again.\<close>

theorem content_delivered_once:
  assumes "send_run env es (start_sends now files) = Some w" and "nv_prompt env"
    and "ps \<in> set (lives w)" and "q < length ps" and "p < q"
    and "pz_key (ps ! p) = Some key" and "pz_key (ps ! q) = Some key"
    and "pz_start (ps ! q) < pz_start (ps ! p) + content_window"
  shows "failed_send (pz_state (ps ! p))"
proof -
  have "delivered_once ps"
    using send_run_lives [OF assms(1)] assms(2,3)
    by (auto simp: lives_ok_def lives_def sends_ok_def sends_content_ok_def content_ok_def list_all_iff)
  then show ?thesis using assms(4-) unfolding delivered_once_def by simp
qed

definition retried_sends :: "send_event list" where
  "retried_sends = [sample_send ''delivery-1'' ''hello'', Advance 0 sample_input, sample_send ''delivery-2'' ''hello'',
     Advance 1 sample_input, Settles 0 (Rejected ''refused''), Continues 0 sample_input, Continues 1 sample_input,
     sample_send ''delivery-3'' ''hello'', Advance 2 sample_input, Restart]"

definition begun_twice :: "send_world \<Rightarrow> bool" where
  "begun_twice w \<longleftrightarrow> (case lives w of
     [[], [p, q]] \<Rightarrow> pz_key p \<noteq> None \<and> pz_key p = pz_key q \<and> pz_start q < pz_start p + content_window
   | _ \<Rightarrow> False)"

theorem content_delivered_once_witness:
  "\<exists>w p q. send_run (sample_env True) retried_sends (start_sends 0 []) = Some w \<and> lives w = [[], [p, q]] \<and>
     pz_key p = pz_key q \<and> failed_send (pz_state p)"
proof -
  have "case_option False begun_twice (send_run (sample_env True) retried_sends (start_sends 0 []))" by code_simp
  then obtain w where w: "send_run (sample_env True) retried_sends (start_sends 0 []) = Some w" and twice: "begun_twice w"
    by (auto split: option.splits)
  then obtain p q key where l: "lives w = [[], [p, q]]" "pz_key p = Some key" "pz_key q = Some key"
      "pz_start q < pz_start p + content_window"
    by (auto simp: begun_twice_def split: list.splits)
  with content_delivered_once [OF w, of "[p, q]" 1 0 key] have "failed_send (pz_state p)" by (simp add: sample_env_def)
  with w l show ?thesis by auto
qed

lemma covered_read:
  assumes "covers (wd_replies (hydrate env w)) key t" "wd_now w < t + reply_window"
  obtains e where "read_recent_reply env (Some key) w = (Some e, hydrate env w)"
  using that assms by (auto simp: read_recent_reply_def covers_def Let_def)

text \<open>A quoted message was answered at a time: a call of the present run of the Manager has given the answer, a call of
  any run has delivered and committed it, or a receipt tells so.\<close>

definition replied_before :: "send_env \<Rightarrow> send_world \<Rightarrow> string \<Rightarrow> int \<Rightarrow> bool" where
  "replied_before env w key t \<longleftrightarrow> (\<exists>c \<in> set (wd_calls w). replied env c t key) \<or>
     (\<exists>c \<in> set (all_calls w). committed env c t key) \<or> (\<exists>d. receipt_reply env (file_of w d) key t)"

lemma replied_covered:
  assumes run: "send_run env es (start_sends now files) = Some w" and files: "past_receipts now files"
    and "replied_before env w key t" "wd_now w < t + reply_window"
  shows "covers (wd_replies (hydrate env w)) key t"
proof -
  have rec: "records_ok env w" using send_run_receipts [OF run files] by (simp add: receipts_ok_def)
  from assms(3) consider c where "c \<in> set (wd_calls w)" "replied env c t key" | d where "receipt_reply env (file_of w d) key t"
    using rec unfolding replied_before_def records_ok_def committed_on_file_def by blast
  then show ?thesis
  proof cases
    case 1
    then have "t \<le> wd_now w" "covers (wd_replies w) key t"
      using send_run_ok [OF run] assms(4) unfolding sends_ok_def replies_ok_def by auto
    then show ?thesis using keeps_recent_hydrate [of w env] assms(4) unfolding keeps_recent_def by simp
  next
    case (2 d)
    have "file_of (hydrate env w) = file_of w" by (intro file_of_cong) simp
    then show ?thesis
      using 2 hydrate_records [OF rec] assms(4) unfolding records_ok_def replies_on_file_def by (force simp: hydrate_def)
  qed
qed

text \<open>C19: once a quoted group message has been answered, a further request to answer it within ten minutes is itself
  answered at once, as a duplicate or with a conflict, unless it asks for an additional reply; nothing is delivered
  and no receipt is written. A reply that was delivered and committed, or that a receipt tells of, counts also
  when the Manager has restarted since.\<close>

theorem quoted_message_answered_once:
  assumes "send_run env es (start_sends now files) = Some w" and "past_receipts now files"
    and "replied_before env w key t" and "wd_now w < t + reply_window"
    and "prepare_send env request execution host pid recover = Some (n, dc)"
    and "\<not> nm_additional n" and "reply_key env n = Some key"
    and "send_step env (Send request execution host pid recover i) w = Some w'"
  shows "wd_promises w' = wd_promises w \<and> wd_files w' = wd_files w \<and>
    (\<exists>c' a. wd_calls w' = wd_calls w @ [c'] \<and> ac_awaits c' = None \<and> ac_answer c' = Some (wd_now w, a) \<and>
       an_duplicate a \<and> (an_code a = 409 \<or> an_state a = Answer_completed))"
proof -
  from covered_read [OF replied_covered [OF assms(1-4)] assms(4)]
  obtain e where "read_recent_reply env (Some key) w = (Some e, hydrate env w)" .
  then have "w' = (hydrate env w)\<lparr>wd_calls := wd_calls w @ [new_send n request dc (Some (wd_now w,
      recent_reply_answer (dc_id dc) n (content_fingerprint env request) e))]\<rparr>"
    using assms(6-8) by (simp add: send_message_prepared [OF assms(5)])
  then show ?thesis
    by (simp add: new_send_def recent_reply_answer_def completed_answer_def open_answer_def)
qed

text \<open>The first answer at time 0, a restart, and a paraphrase under another delivery id a minute later.\<close>

definition answered_send :: "send_event list" where
  "answered_send = whole_send 0 0 ''delivery-1'' ''hello'' @ [Restart, Passes 60000]"

definition quoted_key :: string where
  "quoted_key = the (reply_key (sample_env True)
     (fst (the (prepare_send (sample_env True) (sample_request ''s1'' ''delivery-2'' ''hi'') ''delivery-2'' ''h'' 7 False))))"

definition answered_sample :: "send_world \<Rightarrow> bool" where
  "answered_sample w \<longleftrightarrow> wd_calls w = [] \<and> list_ex (\<lambda>c. committed (sample_env True) c 0 quoted_key) (all_calls w) \<and>
     wd_now w = 60000"

definition paraphrase_prepared :: bool where
  "paraphrase_prepared \<longleftrightarrow>
     (case prepare_send (sample_env True) (sample_request ''s1'' ''delivery-2'' ''hi'') ''delivery-2'' ''h'' 7 False of
        Some (n, dc) \<Rightarrow> \<not> nm_additional n \<and> reply_key (sample_env True) n = Some quoted_key | None \<Rightarrow> False)"

theorem quoted_message_answered_once_witness:
  "\<exists>w w' c'. send_run (sample_env True) answered_send (start_sends 0 []) = Some w \<and> wd_calls w = [] \<and>
     send_step (sample_env True) (sample_send ''delivery-2'' ''hi'') w = Some w' \<and> wd_promises w' = wd_promises w \<and>
     wd_calls w' = [c'] \<and> ac_answer c' \<noteq> None"
proof -
  have "case_option False answered_sample (send_run (sample_env True) answered_send (start_sends 0 []))" by code_simp
  then obtain w where w: "send_run (sample_env True) answered_send (start_sends 0 []) = Some w" and a: "answered_sample w"
    by (auto split: option.splits)
  from a have b: "replied_before (sample_env True) w quoted_key 0" "wd_now w < 0 + reply_window" "wd_calls w = []"
    by (auto simp: answered_sample_def reply_window_def replied_before_def list_ex_iff)
  have "paraphrase_prepared" by code_simp
  then obtain n dc where p: "prepare_send (sample_env True) (sample_request ''s1'' ''delivery-2'' ''hi'') ''delivery-2'' ''h'' 7 False = Some (n, dc)"
    "\<not> nm_additional n" "reply_key (sample_env True) n = Some quoted_key"
    by (auto simp: paraphrase_prepared_def split: option.splits)
  obtain w' where step: "send_step (sample_env True) (sample_send ''delivery-2'' ''hi'') w = Some w'" by (simp add: sample_send_def)
  have "past_receipts 0 []" by (simp add: past_receipts_def)
  from quoted_message_answered_once [OF w this b(1,2) p step [unfolded sample_send_def]] w step b(3) show ?thesis by auto
qed

section \<open>What the memories get wrong\<close>

lemma hydrated_file_fingerprint:
  assumes "\<And>e. jget m key = Some e \<Longrightarrow> ry_fingerprint e = []" and "jget (hydrate_file env now f m) key = Some e"
  shows "ry_fingerprint e = []"
  using assms by (cases f) (auto simp: Let_def split: receipt_state.splits option.splits json.splits if_splits)

lemma hydrated_fingerprint:
  "(\<And>e. jget m key = Some e \<Longrightarrow> ry_fingerprint e = []) \<Longrightarrow>
   jget (foldl (\<lambda>m f. hydrate_file env now f m) m fs) key = Some e \<Longrightarrow> ry_fingerprint e = []"
proof (induction fs arbitrary: m)
  case (Cons f fs)
  have "ry_fingerprint e' = []" if "jget (hydrate_file env now f m) key = Some e'" for e'
    using hydrated_file_fingerprint [OF Cons.prems(1) that] .
  from Cons.IH [OF this] Cons.prems(2) show ?case by simp
qed simp

text \<open>C38: the recent reply is asked before the receipt, and one that was read back from a receipt has an empty fingerprint.
  In a Manager that has just started, every request for a quoted message that a receipt of the last ten minutes
  has answered gets a conflict, the exact repetition of the answered request under its own delivery id included:
  nothing is asked of the content, the sender or the delivery id, and the receipt is not looked at.\<close>

theorem recent_reply_shadows_receipt:
  assumes fresh: "\<not> wd_hydrated w" "wd_replies w = []" and sha: "\<And>s. nv_sha env s \<noteq> []"
    and r: "receipt_reply env (file_of w d) key t" "wd_now w < t + reply_window"
    and p: "prepare_send env request execution host pid recover = Some (n, dc)" "\<not> nm_additional n" "reply_key env n = Some key"
    and step: "send_step env (Send request execution host pid recover i) w = Some w'"
  shows "\<exists>c a. wd_calls w' = wd_calls w @ [c] \<and> ac_call c = dc \<and> ac_answer c = Some (wd_now w, a) \<and>
    an_code a = 409 \<and> an_state a = Answer_pending Conflict \<and> an_delivery a = dc_id dc"
proof -
  have "file_of w d \<noteq> No_file" using r(1) by (auto simp: receipt_reply_def)
  from hydrate_covers [OF r(1) file_of_jvals [OF this] r(2)] fresh
  have "covers (wd_replies (hydrate env w)) key t" by (simp add: hydrate_def)
  from covered_read [OF this r(2)] obtain e where e: "read_recent_reply env (Some key) w = (Some e, hydrate env w)" .
  then have "jget (wd_replies (hydrate env w)) key = Some e"
    by (auto simp: read_recent_reply_def Let_def split: option.splits if_splits)
  then have "ry_fingerprint e = []" using hydrated_fingerprint [of "[]"] fresh by (simp add: hydrate_def)
  moreover have "content_fingerprint env request \<noteq> []" using sha by (simp add: content_fingerprint_def)
  ultimately have "recent_reply_answer (dc_id dc) n (content_fingerprint env request) e = open_answer (dc_id dc) (Answer_pending Conflict)
        (''The quoted group message already received a recent reply via deliveryId '' @ ry_delivery e @ ''. '' @
         ''Do not send another paraphrase. Set params.allowAdditionalReply=true only when this is intentionally new '' @
         ''follow-up information.'') 409 True"
    by (simp add: recent_reply_answer_def)
  then show ?thesis
    using e p(2,3) step by (auto simp: send_message_prepared [OF p(1)] new_send_def open_answer_def)
qed

text \<open>The request of the first delivery again, after a restart.\<close>

definition restarted_world :: send_world where
  "restarted_world = the (send_run (sample_env True) (whole_send 0 0 ''delivery-1'' ''hello'' @ [Restart]) (start_sends 0 []))"

definition repeated_ready :: bool where
  "repeated_ready \<longleftrightarrow> (let env = sample_env True; w = restarted_world in
     \<not> wd_hydrated w \<and> wd_replies w = [] \<and> wd_now w = 0 \<and>
     (case (file_of w ''delivery-1'', prepare_send env (sample_request ''s1'' ''delivery-1'' ''hello'') ''delivery-1'' ''h'' 7 False) of
        (Receipt_file r m, Some (n, dc)) \<Rightarrow> receipt_reply env (Receipt_file r m) quoted_key 0 \<and> \<not> nm_additional n \<and>
          reply_key env n = Some quoted_key \<and> dc_id dc = ''delivery-1'' \<and> rc_digest r = dc_digest dc
      | _ \<Rightarrow> False))"

theorem recent_reply_shadows_receipt_witness:
  "\<exists>w' c a. send_step (sample_env True) (sample_send ''delivery-1'' ''hello'') restarted_world = Some w' \<and>
     wd_calls w' = wd_calls restarted_world @ [c] \<and> ac_answer c = Some (0, a) \<and> an_code a = 409 \<and>
     an_delivery a = ''delivery-1'' \<and>
     (\<exists>r m. file_of restarted_world ''delivery-1'' = Receipt_file r m \<and> rc_digest r = dc_digest (ac_call c))"
proof -
  have "repeated_ready" by code_simp
  then obtain r m n dc where w: "\<not> wd_hydrated restarted_world" "wd_replies restarted_world = []" "wd_now restarted_world = 0"
    and f: "file_of restarted_world ''delivery-1'' = Receipt_file r m" "receipt_reply (sample_env True) (Receipt_file r m) quoted_key 0"
    and p: "prepare_send (sample_env True) (sample_request ''s1'' ''delivery-1'' ''hello'') ''delivery-1'' ''h'' 7 False = Some (n, dc)"
      "\<not> nm_additional n" "reply_key (sample_env True) n = Some quoted_key"
    and d: "dc_id dc = ''delivery-1''" "rc_digest r = dc_digest dc"
    unfolding repeated_ready_def by (auto simp: Let_def split: receipt_file.splits option.splits)
  obtain w' where step: "send_step (sample_env True) (sample_send ''delivery-1'' ''hello'') restarted_world = Some w'"
    by (simp add: sample_send_def)
  have sha: "nv_sha (sample_env True) s \<noteq> []" for s by (simp add: sample_env_def)
  have r: "receipt_reply (sample_env True) (file_of restarted_world ''delivery-1'') quoted_key 0" using f by simp
  have now: "wd_now restarted_world < 0 + reply_window" by (simp add: w(3) reply_window_def)
  from recent_reply_shadows_receipt [OF w(1,2) sha r now p step [unfolded sample_send_def]] step w(3) f(1) d show ?thesis
    by auto
qed

text \<open>While the Manager runs, a recent reply answers every request with the same payload, whatever its sender.\<close>

lemma other_sender_answered:
  assumes "jget (wd_replies (hydrate env w)) key = Some e" "wd_now w < ry_expires e"
    and "ry_fingerprint e = content_fingerprint env request"
    and "prepare_send env request execution host pid recover = Some (n, dc)" "\<not> nm_additional n" "reply_key env n = Some key"
    and "send_step env (Send request execution host pid recover i) w = Some w'"
  shows "\<exists>c. wd_calls w' = wd_calls w @ [c] \<and>
    ac_answer c = Some (wd_now w, completed_answer (dc_id dc) (with_request (dc_id dc) n (ry_result e)) True)"
proof -
  have "read_recent_reply env (Some key) w = (Some e, hydrate env w)" using assms(1,2) by (simp add: read_recent_reply_def Let_def)
  then show ?thesis using assms(3,5-7) by (auto simp: send_message_prepared [OF assms(4)] new_send_def recent_reply_answer_def)
qed

text \<open>The step of a caller that goes on after its delivery has failed, before its receipt is marked.\<close>

lemma continue_delivering:
  assumes "ac_awaits (wd_calls w ! k) = Some (p, False)" "k < length (wd_calls w)"
    and "ac_phase (wd_calls w ! k) \<in> {Ph_delivering, Ph_redelivering}"
  shows "wd_content (delivery_continues env k i w) = wd_content (forget_failed p w) \<and>
    wd_promises (delivery_continues env k i w) = wd_promises w \<and> wd_now (delivery_continues env k i w) = wd_now w"
proof -
  define w1 where "w1 = upd_send k (\<lambda>c. c\<lparr>ac_awaits := None, ac_duplicate := (case pz_state (wd_promises w ! p) of Resolved _ \<Rightarrow> False
                  | _ \<Rightarrow> ac_duplicate c)\<rparr>) (forget_failed p w)"
  define i' where "i' = i\<lparr>si_delivered := (case pz_state (wd_promises w ! p) of
                 Resolved r \<Rightarrow> Delivered (Some (JObj (with_request (dc_id (ac_call (wd_calls w ! k))) (ac_prepared (wd_calls w ! k)) r)))
               | Rejected m \<Rightarrow> Delivery_failed m
               | Running \<Rightarrow> Delivery_failed [])\<rparr>"
  have go: "delivery_continues env k i w = advance env k i' w1"
    by (simp add: delivery_continues_def assms(1) w1_def i'_def Let_def)
  have w1: "ac_phase (wd_calls w1 ! k) = ac_phase (wd_calls w ! k)" "wd_promises w1 = wd_promises w" "wd_now w1 = wd_now w"
    "wd_content w1 = wd_content (forget_failed p w)" "k < length (wd_calls w1)"
    using assms(2) by (simp_all add: w1_def forget_failed_def upd_send_def split: option.split)
  obtain ph evs f where step: "call_step (ac_call (wd_calls w1 ! k))
       (i'\<lparr>si_now := wd_now w1, si_recovery := inspected (ac_prepared (wd_calls w1 ! k)) (si_recovery i')\<rparr>)
       (ac_phase (wd_calls w1 ! k)) (file_of w1 (dc_id (ac_call (wd_calls w1 ! k)))) = ((ph, evs), f)"
    and adv: "advance env k i' w1 = (case ph of Ph_done out \<Rightarrow> finish_call env k out (stepped k ph f w1)
       | _ \<Rightarrow> if Ev_delivered \<in> set evs
           then coalesce (content_key env (ac_prepared (wd_calls w1 ! k)) (ac_request (wd_calls w1 ! k))) k (stepped k ph f w1)
           else stepped k ph f w1)"
    by (rule advance_step)
  have "evs = []" using step assms(3) by (cases "si_delivered i'") (auto simp: call_step_def w1(1))
  then have "same_sends w1 (advance env k i' w1)"
    unfolding adv using same_sends_trans [OF same_sends_stepped same_sends_finish] same_sends_stepped
    by (cases ph) simp_all
  then show ?thesis by (simp add: go same_sends_def w1)
qed

text \<open>C37: a delivery that fails after its two minutes removes what is stored under its key by then. When that is the entry
  of a newer delivery that is running, within its own two minutes, no entry is left after the failed one has gone
  on, and the next caller with the same content begins a further delivery beside the one that runs.\<close>

theorem late_failure_sends_twice:
  assumes late: "k < length (wd_calls w)" "ac_awaits (wd_calls w ! k) = Some (p, False)"
      "ac_phase (wd_calls w ! k) \<in> {Ph_delivering, Ph_redelivering}"
      "pz_key (wd_promises w ! p) = Some key" "failed_send (pz_state (wd_promises w ! p))"
    and newer: "jget (wd_content w) key = Some e" "rk_promise e = q" "q \<noteq> p" "pz_state (wd_promises w ! q) = Running"
      "wd_now w < rk_expires e"
    and step: "send_step env (Continues k i) w = Some w1"
  shows "live_entry (Some key) w = Some e \<and> live_entry (Some key) w1 = None \<and>
    pz_state (wd_promises w1 ! q) = Running \<and> wd_now w1 < rk_expires e \<and>
    (\<forall>j. wd_promises (coalesce (Some key) j w1) = wd_promises w1 @ [\<lparr>pz_key = Some key, pz_start = wd_now w1, pz_state = Running\<rparr>])"
proof -
  have w1: "w1 = delivery_continues env k i w" using step by (simp split: if_splits)
  note c = continue_delivering [OF late(2,1,3), of env i, folded w1]
  have "wd_content (forget_failed p w) = jdel key (wd_content w)" using late(4,5) by (simp add: forget_failed_def)
  then have "live_entry (Some key) w1 = None" using c by (simp add: live_entry_def)
  then show ?thesis using c newer by (simp add: live_entry_def coalesce_def upd_send_def Let_def)
qed

definition late_start :: "send_event list" where
  "late_start = [sample_send ''delivery-1'' ''hello'', Advance 0 sample_input, Passes 120001, Content_timer 0,
     sample_send ''delivery-2'' ''hello'', Advance 1 sample_input, Settles 0 (Rejected ''timeout'')]"

definition late_sample :: "send_world \<Rightarrow> bool" where
  "late_sample w \<longleftrightarrow> (case (wd_calls w, wd_promises w) of
     (c # cs, [p, q]) \<Rightarrow> ac_awaits c = Some (0, False) \<and> ac_phase c = Ph_delivering \<and> failed_send (pz_state p) \<and>
       pz_state p \<noteq> Running \<and>
       (case pz_key p of None \<Rightarrow> False
        | Some key \<Rightarrow> (case jget (wd_content w) key of None \<Rightarrow> False
            | Some e \<Rightarrow> rk_promise e = 1 \<and> pz_state q = Running \<and> wd_now w < rk_expires e))
   | _ \<Rightarrow> False)"

theorem late_failure_sends_twice_witness:
  "\<exists>w w1 key. send_run (sample_env False) late_start (start_sends 0 []) = Some w \<and>
     send_step (sample_env False) (Continues 0 sample_input) w = Some w1 \<and>
     live_entry (Some key) w \<noteq> None \<and> live_entry (Some key) w1 = None \<and> pz_state (wd_promises w1 ! 1) = Running"
proof -
  have "case_option False late_sample (send_run (sample_env False) late_start (start_sends 0 []))" by code_simp
  then obtain w where run: "send_run (sample_env False) late_start (start_sends 0 []) = Some w" and s: "late_sample w"
    by (auto split: option.splits)
  from s obtain c cs p q key e where w: "wd_calls w = c # cs" "wd_promises w = [p, q]" "ac_awaits c = Some (0, False)"
    "ac_phase c = Ph_delivering" "failed_send (pz_state p)" "pz_state p \<noteq> Running" "pz_key p = Some key"
    "jget (wd_content w) key = Some e" "rk_promise e = 1" "pz_state q = Running" "wd_now w < rk_expires e"
    unfolding late_sample_def by (auto split: list.splits option.splits)
  obtain w1 where step: "send_step (sample_env False) (Continues 0 sample_input) w = Some w1"
    using w by (simp add: to_continue_def)
  have "live_entry (Some key) w = Some e \<and> live_entry (Some key) w1 = None \<and> pz_state (wd_promises w1 ! 1) = Running"
    using late_failure_sends_twice [OF _ _ _ _ _ w(8,9) _ _ w(11) step] w by simp
  with run step show ?thesis by blast
qed

end
